(* ===== verification/Prelude.thy ===== *)
theory Prelude
  imports Main "HOL-Library.Word"
begin

text \<open>
  Shared vocabulary of the development: the machine types of xv6 (\<open>types.h\<close>), the
  outcome of a kernel routine (a value, a \<open>panic\<close>, or going to sleep on a channel), the
  little-endian encoding of machine words in byte arrays, and the list and word lemmas the
  components use.

  Every routine that the source lets panic or sleep returns an \<open>outcome\<close>: \<open>Ok\<close> carries the
  result, \<open>Panic msg\<close> stands for \<open>panic(msg)\<close> (which never returns), \<open>Sleeps ch\<close> for
  a call of \<open>sleep(ch, lock)\<close> that the routine cannot get past without a \<open>wakeup\<close> by
  another process, and \<open>Undef what\<close> for an access C leaves undefined (an array index out of
  range, a null pointer).  \<open>bnd\<close> sequences two routines: the second runs only when the first
  returned.
\<close>

unbundle bit_operations_syntax

named_theorems outcome_simps \<open>rules for outcomes and their sequencing\<close>
named_theorems field_defs \<open>constants of the headers, unfolded in arithmetic\<close>

type_synonym u8 = "8 word"
type_synonym u16 = "16 word"
type_synonym u32 = "32 word"
type_synonym mem = "u32 \<Rightarrow> u8"

text \<open>The channels of \<open>sleep\<close>/\<open>wakeup\<close>: addresses of kernel objects, named by the object.  \<open>ChSpin\<close> is not a channel:
  \<open>Sleeps (ChSpin name)\<close> stands for spinning on the lock \<open>name\<close> held by another CPU.\<close>

datatype chan =
    ChLog
  | ChBuf nat
  | ChInode nat
  | ChPipeRead u32
  | ChPipeWrite u32
  | ChTicks
  | ChInput
  | ChProc nat
  | ChSpin string

datatype 'a outcome = Ok 'a | Panic string | Sleeps chan | Undef string

fun bnd :: "'a outcome \<Rightarrow> ('a \<Rightarrow> 'b outcome) \<Rightarrow> 'b outcome" where
  "bnd (Ok x) f = f x"
| "bnd (Panic msg) f = Panic msg"
| "bnd (Sleeps ch) f = Sleeps ch"
| "bnd (Undef what) f = Undef what"

lemma bnd_eq_Ok [outcome_simps]: "bnd m f = Ok y \<longleftrightarrow> (\<exists>x. m = Ok x \<and> f x = Ok y)"
  by (cases m) auto

lemma bnd_assoc: "bnd (bnd m f) g = bnd m (\<lambda>x. bnd (f x) g)"
  by (cases m) auto

lemma bnd_Ok_right [simp]: "bnd m Ok = m"
  by (cases m) auto

lemma bnd_split: "P (bnd m f) \<longleftrightarrow>
    (\<forall>x. m = Ok x \<longrightarrow> P (f x)) \<and> (\<forall>e. m = Panic e \<longrightarrow> P (Panic e)) \<and>
    (\<forall>c. m = Sleeps c \<longrightarrow> P (Sleeps c)) \<and> (\<forall>u. m = Undef u \<longrightarrow> P (Undef u))"
  by (cases m) auto

lemma bnd_cong [fundef_cong]:
  "m = m' \<Longrightarrow> (\<And>x. m' = Ok x \<Longrightarrow> f x = f' x) \<Longrightarrow> bnd m f = bnd m' f'"
  by (cases m') auto

definition is_ok :: "'a outcome \<Rightarrow> bool" where
  "is_ok m \<longleftrightarrow> (\<exists>x. m = Ok x)"

lemma is_ok_simps [simp]:
  "is_ok (Ok x)" "\<not> is_ok (Panic e)" "\<not> is_ok (Sleeps c)" "\<not> is_ok (Undef u)"
  by (auto simp: is_ok_def)

text \<open>A loop over a list of indices whose body may fail.\<close>

fun for_each :: "('i \<Rightarrow> 's \<Rightarrow> 's outcome) \<Rightarrow> 'i list \<Rightarrow> 's \<Rightarrow> 's outcome" where
  "for_each f [] s = Ok s"
| "for_each f (x # xs) s = bnd (f x s) (for_each f xs)"

subsection \<open>Little-endian words in byte arrays\<close>

definition bytes16 :: "u16 \<Rightarrow> u8 list" where
  "bytes16 w = [ucast w, ucast (drop_bit 8 w)]"

definition bytes32 :: "u32 \<Rightarrow> u8 list" where
  "bytes32 w = [ucast w, ucast (drop_bit 8 w), ucast (drop_bit 16 w), ucast (drop_bit 24 w)]"

definition word16 :: "u8 \<Rightarrow> u8 \<Rightarrow> u16" where
  "word16 a b = ucast a OR push_bit 8 (ucast b)"

definition word32 :: "u8 \<Rightarrow> u8 \<Rightarrow> u8 \<Rightarrow> u8 \<Rightarrow> u32" where
  "word32 a b c d =
     ucast a OR push_bit 8 (ucast b) OR push_bit 16 (ucast c) OR push_bit 24 (ucast d)"

lemma length_bytes [simp]: "length (bytes16 w) = 2" "length (bytes32 v) = 4"
  by (simp_all add: bytes16_def bytes32_def)

lemma word16_bytes [simp]: "word16 (ucast w) (ucast (drop_bit 8 w)) = w"
  by (rule bit_word_eqI) (auto simp: word16_def bit_simps)

lemma word32_bytes [simp]:
  "word32 (ucast w) (ucast (drop_bit 8 w)) (ucast (drop_bit 16 w)) (ucast (drop_bit 24 w)) = w"
proof (rule bit_word_eqI)
  fix n assume "n < LENGTH(32)"
  then consider "n < 8" | "8 \<le> n" "n < 16" | "16 \<le> n" "n < 24" | "24 \<le> n" "n < 32"
    by fastforce
  then show "bit (word32 (ucast w) (ucast (drop_bit 8 w)) (ucast (drop_bit 16 w))
      (ucast (drop_bit 24 w))) n = bit w n"
    by cases (auto simp: word32_def bit_simps)
qed

lemma bit_u8_beyond [simp]: "8 \<le> n \<Longrightarrow> \<not> bit (a :: u8) n"
  using bit_imp_le_length [of a n] by auto

lemma bytes16_word [simp]: "bytes16 (word16 a b) = [a, b]"
  by (auto simp: bytes16_def word16_def bit_simps intro!: bit_word_eqI)

lemma bytes32_word [simp]: "bytes32 (word32 a b c d) = [a, b, c, d]"
  by (auto simp: bytes32_def word32_def bit_simps intro!: bit_word_eqI)

text \<open>Reading and writing a field of a byte array at a constant offset.\<close>

definition get16 :: "u8 list \<Rightarrow> nat \<Rightarrow> u16" where
  "get16 xs i = word16 (xs ! i) (xs ! (i + 1))"

definition get32 :: "u8 list \<Rightarrow> nat \<Rightarrow> u32" where
  "get32 xs i = word32 (xs ! i) (xs ! (i + 1)) (xs ! (i + 2)) (xs ! (i + 3))"

definition splice :: "'a list \<Rightarrow> nat \<Rightarrow> 'a list \<Rightarrow> 'a list" where
  "splice xs i ys = take i xs @ ys @ drop (i + length ys) xs"

definition slice :: "'a list \<Rightarrow> nat \<Rightarrow> nat \<Rightarrow> 'a list" where
  "slice xs i n = take n (drop i xs)"

lemma length_splice [simp]: "i + length ys \<le> length xs \<Longrightarrow> length (splice xs i ys) = length xs"
  by (simp add: splice_def)

lemma splice_Nil [simp]: "splice xs i [] = xs"
  by (simp add: splice_def)

lemma nth_splice: "i + length ys \<le> length xs \<Longrightarrow> k < length xs \<Longrightarrow>
    splice xs i ys ! k = (if i \<le> k \<and> k < i + length ys then ys ! (k - i) else xs ! k)"
  by (auto simp: splice_def nth_append min_def)

lemma length_slice [simp]: "i + n \<le> length xs \<Longrightarrow> length (slice xs i n) = n"
  by (simp add: slice_def)

lemma nth_slice: "i + n \<le> length xs \<Longrightarrow> k < n \<Longrightarrow> slice xs i n ! k = xs ! (i + k)"
  by (simp add: slice_def)

lemma slice_splice_same [simp]:
  "i + length ys \<le> length xs \<Longrightarrow> n = length ys \<Longrightarrow> slice (splice xs i ys) i n = ys"
  by (simp add: slice_def splice_def)

lemma slice_splice_other:
  assumes "i + length ys \<le> length xs" "j + n \<le> length xs" "j + n \<le> i \<or> i + length ys \<le> j"
  shows "slice (splice xs i ys) j n = slice xs j n"
  by (rule nth_equalityI) (use assms in \<open>auto simp: nth_slice nth_splice\<close>)

lemma splice_slice_id [simp]: "i + n \<le> length xs \<Longrightarrow> splice xs i (slice xs i n) = xs"
  by (rule nth_equalityI) (auto simp: nth_splice nth_slice)

lemma get16_splice_same [simp]:
  "i + 2 \<le> length xs \<Longrightarrow> get16 (splice xs i (bytes16 w)) i = w"
  by (simp add: get16_def nth_splice bytes16_def)

lemma get32_splice_same [simp]:
  "i + 4 \<le> length xs \<Longrightarrow> get32 (splice xs i (bytes32 w)) i = w"
  by (simp add: get32_def nth_splice bytes32_def)

lemma get16_splice_other:
  "i + length ys \<le> length xs \<Longrightarrow> j + 2 \<le> length xs \<Longrightarrow> j + 2 \<le> i \<or> i + length ys \<le> j \<Longrightarrow>
   get16 (splice xs i ys) j = get16 xs j"
  by (auto simp: get16_def nth_splice)

lemma get32_splice_other:
  "i + length ys \<le> length xs \<Longrightarrow> j + 4 \<le> length xs \<Longrightarrow> j + 4 \<le> i \<or> i + length ys \<le> j \<Longrightarrow>
   get32 (splice xs i ys) j = get32 xs j"
  by (auto simp: get32_def nth_splice)

subsection \<open>Searching a list\<close>

lemma find_SomeD: "find P xs = Some i \<Longrightarrow> i \<in> set xs \<and> P i"
  by (induction xs) (auto split: if_splits)

lemma find_None: "find P xs = None \<longleftrightarrow> (\<forall>x \<in> set xs. \<not> P x)"
  by (induction xs) auto

lemma find_Some_unique:
  assumes "\<And>j. j \<in> set xs \<Longrightarrow> P j \<Longrightarrow> j = i" "i \<in> set xs" "P i"
  shows "find P xs = Some i"
proof (cases "find P xs")
  case None
  with assms(2,3) show ?thesis by (simp add: find_None)
next
  case (Some j)
  with assms(1) find_SomeD [OF Some] show ?thesis by simp
qed

subsection \<open>Quotient and remainder\<close>

lemma div_mod_within:
  fixes off i :: nat
  assumes "off mod k + i < k"
  shows "(off + i) div k = off div k" "(off + i) mod k = off mod k + i"
proof -
  have *: "off + i = off div k * k + (off mod k + i)" by simp
  show "(off + i) div k = off div k" unfolding * using assms by (subst div_mult_self3) auto
  show "(off + i) mod k = off mod k + i" unfolding * using assms by (subst mod_mult_self3) auto
qed

lemma mult_add_eq_iff:
  fixes q q' k r r' :: nat
  assumes "r < k" "r' < k"
  shows "q * k + r = q' * k + r' \<longleftrightarrow> q = q' \<and> r = r'"
proof
  assume eq: "q * k + r = q' * k + r'"
  have "(q * k + r) div k = q" "(q' * k + r') div k = q'" using assms by simp_all
  with eq have "q = q'" by simp
  with eq show "q = q' \<and> r = r'" by simp
qed simp

subsection \<open>Words as offsets\<close>

lemma unat_add_nowrap:
  fixes a b :: "'a::len word"
  shows "unat a + unat b < 2 ^ LENGTH('a) \<Longrightarrow> unat (a + b) = unat a + unat b"
  by (simp add: unat_word_ariths)

lemma unat_sub_le: "b \<le> a \<Longrightarrow> unat (a - b) = unat a - unat (b :: 'a::len word)"
  by (simp add: unat_sub)

lemma unat_u32_bound [simp]: "unat (w :: u32) < 4294967296"
  using unsigned_less [of w] by simp

lemma unat_u16_bound [simp]: "unat (w :: u16) < 65536"
  using unsigned_less [of w] by simp

lemma unat_u8_bound [simp]: "unat (w :: u8) < 256"
  using unsigned_less [of w] by simp

lemma sint_u32_cases: "sint (x :: u32) = (if uint x < 2 ^ 31 then uint x else uint x - 2 ^ 32)"
proof (cases "uint x < 2 ^ 31")
  case True
  then have "signed_take_bit 31 (uint x) = uint x"
    by (intro signed_take_bit_int_eq_self order_trans [OF _ uint_ge_0 [of x]]) simp_all
  with True show ?thesis by (simp add: sint_uint)
next
  case False
  have "signed_take_bit 31 (uint x) = signed_take_bit 31 (uint x - 2 ^ 32)"
    by (intro signed_take_bit_eq_iff_take_bit_eq [THEN iffD2]) (simp add: take_bit_eq_mod mod_diff_right_eq [symmetric])
  also have "\<dots> = uint x - 2 ^ 32"
    using False uint_lt2p [of x] by (intro signed_take_bit_int_eq_self) simp_all
  finally show ?thesis using False by (simp add: sint_uint)
qed

lemma sint_u32_small: "unat (n :: u32) < 2147483648 \<Longrightarrow> sint n = int (unat n)"
proof -
  assume n: "unat n < 2147483648"
  have u: "int (unat n) = uint n" by simp
  have "int (unat n) < 2147483648" using n by linarith
  then have "uint n < 2 ^ 31" unfolding u by simp
  then have "sint n = uint n" by (simp only: sint_u32_cases if_True)
  then show "sint n = int (unat n)" by (simp only: u)
qed

lemma unat_of_nat_u32: "n < 4294967296 \<Longrightarrow> unat (of_nat n :: u32) = n"
  by (simp add: unat_of_nat)

lemma uint_u8_eq_iff [simp]:
  "uint (a :: u8) = uint b \<longleftrightarrow> a = b" "uint a - uint b = 0 \<longleftrightarrow> a = b" "uint a = 0 \<longleftrightarrow> a = 0"
  by (simp_all add: word_uint_eq_iff)

text \<open>Address \<open>a\<close> lies in the \<open>n\<close> bytes from \<open>p\<close> on (with the wrap-around of pointers).\<close>

definition in_range :: "u32 \<Rightarrow> u32 \<Rightarrow> nat \<Rightarrow> bool" where
  "in_range a p n \<longleftrightarrow> unat (a - p) < n"

lemma in_range_0 [simp]: "\<not> in_range a p 0"
  by (simp add: in_range_def)

lemma unat_diff_next: "x \<noteq> (p :: u32) \<Longrightarrow> unat (x - p) = Suc (unat (x - (p + 1)))"
proof -
  assume "x \<noteq> p"
  then have ne: "x - p \<noteq> 0" by simp
  have "x - (p + 1) = x - p - 1" by simp
  then have "unat (x - (p + 1)) = unat (x - p) - 1"
    using unat_minus_one [OF ne] by (simp only:)
  moreover have "unat (x - p) \<noteq> 0" using ne by (simp add: unat_eq_0)
  ultimately show ?thesis by simp
qed

lemma in_range_Suc:
  assumes "n < 4294967296"
  shows "in_range a p (Suc n) \<longleftrightarrow> a = p \<or> in_range a (p + 1) n"
proof (cases "a = p")
  case True
  then show ?thesis by (simp add: in_range_def)
next
  case False
  from unat_diff_next [OF False] False show ?thesis
    by (auto simp: in_range_def)
qed

lemma in_range_Suc_last:
  assumes "n < 4294967296"
  shows "in_range a p (Suc n) \<longleftrightarrow> a = p + of_nat n \<or> in_range a p n"
proof -
  have "unat (a - p) = n \<longleftrightarrow> a - p = of_nat n"
    using assms by (metis of_nat_unat ucast_id unat_of_nat_u32)
  also have "\<dots> \<longleftrightarrow> a = p + of_nat n"
    by (auto simp: algebra_simps)
  finally show ?thesis by (auto simp: in_range_def less_Suc_eq)
qed

lemma not_in_range_below [simp]: "n < 4294967296 \<Longrightarrow> \<not> in_range p (p + 1) n"
  proof -
  have "unat (p - (p + 1)) = 4294967295"
    by (simp add: unsigned_minus_1_eq_mask mask_eq_exp_minus_1)
  moreover assume "n < 4294967296"
  ultimately show ?thesis by (simp add: in_range_def)
qed

lemma in_rangeE:
  assumes "in_range a p n" and "n \<le> 4294967296"
  obtains k where "k < n" and "a = p + of_nat k" and "unat (a - p) = k"
proof
  show "unat (a - p) < n" using assms by (simp add: in_range_def)
  show "a = p + of_nat (unat (a - p))" by simp
qed simp

lemma of_nat_u32_inj:
  "j < 4294967296 \<Longrightarrow> k < 4294967296 \<Longrightarrow> (of_nat j :: u32) = of_nat k \<longleftrightarrow> j = k"
  by (metis unat_of_nat_u32)

lemma unat_plus_of_nat:
  "unat (p :: u32) + k < 4294967296 \<Longrightarrow> unat (p + of_nat k) = unat p + k"
  by (subst unat_add_nowrap) (simp_all add: unat_of_nat_u32)

lemma u32_plus_of_nat_eq:
  assumes "unat (p :: u32) + j < 4294967296" and "unat q + k < 4294967296"
  shows "p + of_nat j = q + of_nat k \<longleftrightarrow> unat p + j = unat q + k"
  using unat_plus_of_nat [OF assms(1)] unat_plus_of_nat [OF assms(2)] by (metis word_unat_eq_iff)

end
