(* ===== verification/CString.thy ===== *)
theory CString
  imports Prelude
begin

text \<open>
  The C string routines: \<open>string.c\<close> of the kernel and \<open>ulib.c\<close> of the user library, over a
  byte-addressed memory with 32-bit wrapping addresses, and the two string instructions of
  \<open>x86.h\<close> they use.  Routines that only read take their arguments as readers (the bytes from
  a pointer on); routines that write take addresses and the memory.  The lemmas give each
  routine's effect on every byte of the memory.
\<close>

section \<open>Loads, stores and readers\<close>

definition ptr :: "mem \<Rightarrow> u32 \<Rightarrow> nat \<Rightarrow> u8" where
  "ptr m a = (\<lambda>i. m (a + of_nat i))"

definition arr :: "u8 list \<Rightarrow> nat \<Rightarrow> u8" where
  "arr xs = (\<lambda>i. xs ! i)"

definition store32 :: "u32 \<Rightarrow> u32 \<Rightarrow> mem \<Rightarrow> mem" where
  "store32 a v m = m(a := ucast v, a + 1 := ucast (drop_bit 8 v),
     a + 2 := ucast (drop_bit 16 v), a + 3 := ucast (drop_bit 24 v))"

definition load32 :: "mem \<Rightarrow> u32 \<Rightarrow> u32" where
  "load32 m a = word32 (m a) (m (a + 1)) (m (a + 2)) (m (a + 3))"

fun stosb :: "u32 \<Rightarrow> u32 \<Rightarrow> nat \<Rightarrow> mem \<Rightarrow> mem" where
  "stosb a d 0 m = m"
| "stosb a d (Suc n) m = stosb (a + 1) d n (m(a := ucast d))"

fun stosl :: "u32 \<Rightarrow> u32 \<Rightarrow> nat \<Rightarrow> mem \<Rightarrow> mem" where
  "stosl a d 0 m = m"
| "stosl a d (Suc n) m = stosl (a + 4) d n (store32 a d m)"

section \<open>string.c\<close>

definition memset :: "u32 \<Rightarrow> u32 \<Rightarrow> u32 \<Rightarrow> mem \<Rightarrow> mem" where
  "memset dst c n m =
     (if unat dst mod 4 = 0 \<and> unat n mod 4 = 0 then
        (let c = c AND 0xFF in
         stosl dst (push_bit 24 c OR push_bit 16 c OR push_bit 8 c OR c) (unat n div 4) m)
      else stosb dst c (unat n) m)"

fun memcmp :: "(nat \<Rightarrow> u8) \<Rightarrow> (nat \<Rightarrow> u8) \<Rightarrow> nat \<Rightarrow> int" where
  "memcmp s1 s2 0 = 0"
| "memcmp s1 s2 (Suc n) =
     (if s1 0 \<noteq> s2 0 then uint (s1 0) - uint (s2 0)
      else memcmp (\<lambda>i. s1 (Suc i)) (\<lambda>i. s2 (Suc i)) n)"

fun copy_up :: "u32 \<Rightarrow> u32 \<Rightarrow> nat \<Rightarrow> mem \<Rightarrow> mem" where
  "copy_up d s 0 m = m"
| "copy_up d s (Suc n) m = copy_up (d + 1) (s + 1) n (m(d := m s))"

fun copy_down :: "u32 \<Rightarrow> u32 \<Rightarrow> nat \<Rightarrow> mem \<Rightarrow> mem" where
  "copy_down d s 0 m = m"
| "copy_down d s (Suc n) m = copy_down (d - 1) (s - 1) n (m(d - 1 := m (s - 1)))"

definition memmove :: "u32 \<Rightarrow> u32 \<Rightarrow> u32 \<Rightarrow> mem \<Rightarrow> mem" where
  "memmove dst src n m =
     (if src < dst \<and> src + n > dst then copy_down (dst + n) (src + n) (unat n) m
      else copy_up dst src (unat n) m)"

definition memcpy :: "u32 \<Rightarrow> u32 \<Rightarrow> u32 \<Rightarrow> mem \<Rightarrow> mem" where
  "memcpy dst src n m = memmove dst src n m"

fun strncmp :: "(nat \<Rightarrow> u8) \<Rightarrow> (nat \<Rightarrow> u8) \<Rightarrow> nat \<Rightarrow> int" where
  "strncmp p q 0 = 0"
| "strncmp p q (Suc n) =
     (if p 0 \<noteq> 0 \<and> p 0 = q 0 then strncmp (\<lambda>i. p (Suc i)) (\<lambda>i. q (Suc i)) n
      else uint (p 0) - uint (q 0))"

function strncpy_copy :: "u32 \<Rightarrow> u32 \<Rightarrow> int \<Rightarrow> mem \<Rightarrow> u32 \<times> int \<times> mem" where
  "strncpy_copy s t n m =
     (if n > 0 then
        (let c = m t; m' = m(s := c) in
         if c \<noteq> 0 then strncpy_copy (s + 1) (t + 1) (n - 1) m' else (s + 1, n - 1, m'))
      else (s, n - 1, m))"
  by pat_completeness auto
termination
  by (relation "measure (\<lambda>(s, t, n, m). nat n)") auto

function strncpy_pad :: "u32 \<Rightarrow> int \<Rightarrow> mem \<Rightarrow> mem" where
  "strncpy_pad s n m = (if n > 0 then strncpy_pad (s + 1) (n - 1) (m(s := 0)) else m)"
  by pat_completeness auto
termination
  by (relation "measure (\<lambda>(s, n, m). nat n)") auto

definition strncpy :: "u32 \<Rightarrow> u32 \<Rightarrow> int \<Rightarrow> mem \<Rightarrow> mem" where
  "strncpy s t n m = (let (s', n', m') = strncpy_copy s t n m in strncpy_pad s' n' m')"

function safestrcpy_copy :: "u32 \<Rightarrow> u32 \<Rightarrow> int \<Rightarrow> mem \<Rightarrow> u32 \<times> mem" where
  "safestrcpy_copy s t n m =
     (if n - 1 > 0 then
        (let c = m t; m' = m(s := c) in
         if c \<noteq> 0 then safestrcpy_copy (s + 1) (t + 1) (n - 1) m' else (s + 1, m'))
      else (s, m))"
  by pat_completeness auto
termination
  by (relation "measure (\<lambda>(s, t, n, m). nat n)") auto

definition safestrcpy :: "u32 \<Rightarrow> u32 \<Rightarrow> int \<Rightarrow> mem \<Rightarrow> mem" where
  "safestrcpy s t n m =
     (if n \<le> 0 then m else (let (s', m') = safestrcpy_copy s t n m in m'(s' := 0)))"

text \<open>\<open>strlen\<close> runs until it meets a NUL; on a memory without one it does not return.\<close>

partial_function (option) strlen_from :: "(nat \<Rightarrow> u8) \<Rightarrow> nat \<Rightarrow> nat option" where
  "strlen_from s n = (if s n \<noteq> 0 then strlen_from s (Suc n) else Some n)"

definition strlen :: "(nat \<Rightarrow> u8) \<Rightarrow> nat option" where
  "strlen s = strlen_from s 0"

declare strncpy_copy.simps [simp del] strncpy_pad.simps [simp del]
  safestrcpy_copy.simps [simp del]

section \<open>ulib.c\<close>

partial_function (option) strcpy :: "u32 \<Rightarrow> u32 \<Rightarrow> mem \<Rightarrow> mem option" where
  "strcpy s t m =
     (let c = m t; m' = m(s := c) in if c \<noteq> 0 then strcpy (s + 1) (t + 1) m' else Some m')"

partial_function (option) strcmp :: "(nat \<Rightarrow> u8) \<Rightarrow> (nat \<Rightarrow> u8) \<Rightarrow> int option" where
  "strcmp p q =
     (if p 0 \<noteq> 0 \<and> p 0 = q 0 then strcmp (\<lambda>i. p (Suc i)) (\<lambda>i. q (Suc i))
      else Some (uint (p 0) - uint (q 0)))"

definition u_memset :: "u32 \<Rightarrow> u32 \<Rightarrow> u32 \<Rightarrow> mem \<Rightarrow> mem" where
  "u_memset dst c n m = stosb dst c (unat n) m"

text \<open>\<open>strchr\<close> returns the offset of the first match, or \<open>None\<close> inside for the null pointer.\<close>

partial_function (option) strchr_from :: "(nat \<Rightarrow> u8) \<Rightarrow> u8 \<Rightarrow> nat \<Rightarrow> nat option option" where
  "strchr_from s c i =
     (if s i \<noteq> 0 then (if s i = c then Some (Some i) else strchr_from s c (Suc i))
      else Some None)"

definition strchr :: "(nat \<Rightarrow> u8) \<Rightarrow> u8 \<Rightarrow> nat option option" where
  "strchr s c = strchr_from s c 0"

partial_function (option) atoi_from :: "(nat \<Rightarrow> u8) \<Rightarrow> nat \<Rightarrow> u32 \<Rightarrow> u32 option" where
  "atoi_from s i n =
     (if 48 \<le> s i \<and> s i \<le> 57 then atoi_from s (Suc i) (n * 10 + ucast (s i) - 48) else Some n)"

definition atoi :: "(nat \<Rightarrow> u8) \<Rightarrow> u32 option" where
  "atoi s = atoi_from s 0 0"

definition u_memmove :: "u32 \<Rightarrow> u32 \<Rightarrow> int \<Rightarrow> mem \<Rightarrow> mem" where
  "u_memmove vdst vsrc n m = copy_up vdst vsrc (nat n) m"

text \<open>
  \<open>gets\<close> reads from descriptor 0 one byte at a time; the bytes \<open>read\<close> delivers are the
  parameter \<open>inp\<close> (the empty list: \<open>read\<close> returned less than 1).
\<close>

fun gets_loop :: "u8 list \<Rightarrow> int \<Rightarrow> u8 list \<Rightarrow> u8 list \<times> u8 list" where
  "gets_loop buf mx [] = (buf, [])"
| "gets_loop buf mx (c # inp) =
     (if int (length buf) + 1 < mx then
        (if c = 10 \<or> c = 13 then (buf @ [c], inp) else gets_loop (buf @ [c]) mx inp)
      else (buf, c # inp))"

definition gets :: "int \<Rightarrow> u8 list \<Rightarrow> u8 list \<times> u8 list" where
  "gets mx inp = (let (buf, rest) = gets_loop [] mx inp in (buf @ [0], rest))"

section \<open>What the routines do\<close>

subsection \<open>memset\<close>

lemma stosb_apply:
  "n \<le> 4294967296 \<Longrightarrow> stosb a d n m x = (if in_range x a n then ucast d else m x)"
proof (induction n arbitrary: a m)
  case 0
  then show ?case by simp
next
  case (Suc n)
  then show ?case by (auto simp: in_range_Suc)
qed

lemma bytes_of_pattern:
  fixes c :: u32
  defines "b \<equiv> c AND 0xFF"
  defines "p \<equiv> push_bit 24 b OR push_bit 16 b OR push_bit 8 b OR b"
  shows "(ucast p :: u8) = ucast c" "(ucast (drop_bit 8 p) :: u8) = ucast c"
    "(ucast (drop_bit 16 p) :: u8) = ucast c" "(ucast (drop_bit 24 p) :: u8) = ucast c"
proof -
  have b: "bit b n \<longleftrightarrow> n < 8 \<and> bit c n" for n
  proof -
    have "b = take_bit 8 c"
      by (simp add: b_def take_bit_eq_mask mask_eq_decr_exp)
    then show ?thesis by (simp add: bit_take_bit_iff)
  qed
  show "(ucast p :: u8) = ucast c" "(ucast (drop_bit 8 p) :: u8) = ucast c"
    "(ucast (drop_bit 16 p) :: u8) = ucast c" "(ucast (drop_bit 24 p) :: u8) = ucast c"
    by (auto simp: p_def bit_simps b intro!: bit_word_eqI)
qed

lemma stosl_pattern:
  assumes "(ucast p :: u8) = ucast c" "(ucast (drop_bit 8 p) :: u8) = ucast c"
    "(ucast (drop_bit 16 p) :: u8) = ucast c" "(ucast (drop_bit 24 p) :: u8) = ucast c"
  shows "stosl a p n m = stosb a c (4 * n) m"
proof (induction n arbitrary: a m)
  case 0
  then show ?case by simp
next
  case (Suc n)
  have "4 * Suc n = Suc (Suc (Suc (Suc (4 * n))))" by simp
  then show ?case
    by (simp only: stosl.simps stosb.simps Suc store32_def assms) (simp add: add.assoc fun_upd_def)
qed

lemma memset_apply: "memset dst c n m x = (if in_range x dst (unat n) then ucast c else m x)"
proof -
  have le: "unat n \<le> 4294967296" using unat_u32_bound [of n] by linarith
  have "stosl dst (push_bit 24 (c AND 0xFF) OR push_bit 16 (c AND 0xFF) OR
      push_bit 8 (c AND 0xFF) OR (c AND 0xFF)) (unat n div 4) m = stosb dst c (unat n) m"
    if "unat n mod 4 = 0"
    using stosl_pattern [OF bytes_of_pattern [of c]] that by (simp add: mult.commute mod_eq_0_iff_dvd)
  then show ?thesis
    by (simp add: memset_def Let_def stosb_apply [OF le])
qed

subsection \<open>Comparison\<close>

lemma memcmp_eq_0: "memcmp p q n = 0 \<longleftrightarrow> (\<forall>i < n. p i = q i)"
proof (induction n arbitrary: p q)
  case 0
  then show ?case by simp
next
  case (Suc n)
  then show ?case
    by (auto simp: All_less_Suc2)
qed

lemma memcmp_cong: "(\<And>i. i < n \<Longrightarrow> p i = p' i) \<Longrightarrow> (\<And>i. i < n \<Longrightarrow> q i = q' i) \<Longrightarrow>
    memcmp p q n = memcmp p' q' n"
proof (induction n arbitrary: p q p' q')
  case 0
  then show ?case by simp
next
  case (Suc n)
  from Suc.prems have "p 0 = p' 0" "q 0 = q' 0" by blast+
  moreover have "memcmp (\<lambda>i. p (Suc i)) (\<lambda>i. q (Suc i)) n = memcmp (\<lambda>i. p' (Suc i)) (\<lambda>i. q' (Suc i)) n"
    by (rule Suc.IH) (simp_all add: Suc.prems)
  ultimately show ?case by simp
qed

text \<open>The C string held in the first \<open>n\<close> bytes of a reader.\<close>

definition cstr :: "nat \<Rightarrow> (nat \<Rightarrow> u8) \<Rightarrow> u8 list" where
  "cstr n p = takeWhile (\<lambda>b. b \<noteq> 0) (map p [0..<n])"

lemma map_upt_Suc_shift: "map p [0..<Suc n] = p 0 # map (\<lambda>i. p (Suc i)) [0..<n]"
  by (induction n) auto

lemma cstr_0 [simp]: "cstr 0 p = []"
  by (simp add: cstr_def)

lemma cstr_Suc: "cstr (Suc n) p = (if p 0 = 0 then [] else p 0 # cstr n (\<lambda>i. p (Suc i)))"
  by (simp add: cstr_def map_upt_Suc_shift del: upt_Suc)

lemma cstr_nonzero: "0 \<notin> set (cstr n p)"
  by (auto simp: cstr_def dest: set_takeWhileD)

lemma length_cstr: "length (cstr n p) \<le> n"
  unfolding cstr_def using length_takeWhile_le [of _ "map p [0..<n]"] by simp

lemma strncmp_eq_0: "strncmp p q n = 0 \<longleftrightarrow> cstr n p = cstr n q"
proof (induction n arbitrary: p q)
  case 0
  then show ?case by simp
next
  case (Suc n)
  then show ?case by (auto simp: cstr_Suc)
qed

lemma short_cstr_has_NUL: "length (cstr (Suc n) p) \<le> n \<Longrightarrow> \<exists>k \<le> n. p k = 0"
proof (rule ccontr)
  assume len: "length (cstr (Suc n) p) \<le> n" and "\<not> (\<exists>k \<le> n. p k = 0)"
  then have "takeWhile (\<lambda>b. b \<noteq> 0) (map p [0..<Suc n]) = map p [0..<Suc n]"
    by (intro takeWhile_eq_all_conv [THEN iffD2]) (auto simp: less_Suc_eq_le)
  with len show False by (simp add: cstr_def del: upt_Suc)
qed

subsection \<open>memmove\<close>

lemma copy_up_apply:
  assumes "n \<le> 4294967296" "\<And>k j. k < n \<Longrightarrow> j < k \<Longrightarrow> s + of_nat k \<noteq> d + of_nat j"
  shows "copy_up d s n m x = (if in_range x d n then m (s + (x - d)) else m x)"
  using assms
proof (induction n arbitrary: d s m)
  case 0
  then show ?case by simp
next
  case (Suc n)
  have cond: "s + 1 + of_nat k \<noteq> d + 1 + of_nat j" if "k < n" "j < k" for j k
    using Suc.prems(2) [of "Suc k" "Suc j"] that by (simp add: algebra_simps)
  have IH: "copy_up (d + 1) (s + 1) n (m(d := m s)) x =
      (if in_range x (d + 1) n then (m(d := m s)) (s + 1 + (x - (d + 1))) else (m(d := m s)) x)"
    by (rule Suc.IH) (use Suc.prems(1) cond in auto)
  have "s + 1 + (x - (d + 1)) \<noteq> d" if r: "in_range x (d + 1) n"
  proof -
    obtain k where "k < n" and x: "x = d + 1 + of_nat k"
      using in_rangeE [OF r] Suc.prems(1) by auto
    with Suc.prems(2) [of "Suc k" 0] show ?thesis by (simp add: algebra_simps)
  qed
  then show ?case
    using IH Suc.prems(1) by (auto simp: in_range_Suc algebra_simps)
qed

lemma copy_down_apply:
  assumes "n \<le> 4294967296" "\<And>k j. j < n \<Longrightarrow> k < j \<Longrightarrow> s + of_nat k \<noteq> d + of_nat j"
  shows "copy_down (d + of_nat n) (s + of_nat n) n m x =
    (if in_range x d n then m (s + (x - d)) else m x)"
  using assms
proof (induction n arbitrary: m)
  case 0
  then show ?case by simp
next
  case (Suc n)
  let ?m = "m(d + of_nat n := m (s + of_nat n))"
  have IH: "copy_down (d + of_nat n) (s + of_nat n) n ?m x =
      (if in_range x d n then ?m (s + (x - d)) else ?m x)"
    by (rule Suc.IH) (use Suc.prems in auto)
  have out: "\<not> in_range (d + of_nat n) d n"
    using Suc.prems(1) by (simp add: in_range_def unat_of_nat_u32)
  have "s + (x - d) \<noteq> d + of_nat n" if r: "in_range x d n"
  proof -
    obtain k where "k < n" and "x = d + of_nat k"
      using in_rangeE [OF r] Suc.prems(1) by auto
    with Suc.prems(2) [of n k] show ?thesis by simp
  qed
  then show ?case
    using IH Suc.prems(1) out by (auto simp: in_range_Suc_last algebra_simps)
qed

lemma memmove_apply:
  assumes src: "unat src + unat n \<le> 4294967296" and dst: "unat dst + unat n \<le> 4294967296"
  shows "memmove dst src n m x = (if in_range x dst (unat n) then m (src + (x - dst)) else m x)"
proof (cases "src < dst \<and> src + n > dst")
  case True
  have "src + of_nat k \<noteq> dst + of_nat j" if "j < unat n" "k < j" for j k
    using that True src dst by (subst u32_plus_of_nat_eq) (auto simp: word_less_nat_alt)
  then show ?thesis
    using True copy_down_apply [of "unat n" src dst m x] unat_u32_bound [of n]
    by (simp add: memmove_def)
next
  case False
  have "dst \<le> src \<or> unat src + unat n \<le> unat dst"
  proof (rule ccontr)
    assume "\<not> (dst \<le> src \<or> unat src + unat n \<le> unat dst)"
    then have lt: "src < dst" and ov: "unat dst < unat src + unat n" by auto
    then have "unat (src + n) = unat src + unat n"
      using dst by (subst unat_add_nowrap) (auto simp: word_less_nat_alt)
    with False lt ov show False by (simp add: word_less_nat_alt)
  qed
  then have "src + of_nat k \<noteq> dst + of_nat j" if "k < unat n" "j < k" for j k
    using that src dst by (subst u32_plus_of_nat_eq) (auto simp: word_le_nat_alt)
  moreover have "memmove dst src n m = copy_up dst src (unat n) m"
    using False by (simp only: memmove_def if_False)
  ultimately show ?thesis
    using copy_up_apply [of "unat n" src dst m x] unat_u32_bound [of n] by simp
qed

subsection \<open>String copies\<close>

text \<open>What \<open>strncpy\<close> leaves in an array of \<open>n\<close> bytes: the string, padded with NULs.\<close>

definition strncpy_arr :: "(nat \<Rightarrow> u8) \<Rightarrow> nat \<Rightarrow> u8 list" where
  "strncpy_arr t n = (let c = cstr n t in c @ replicate (n - length c) 0)"

lemma strncpy_arr_0 [simp]: "strncpy_arr p 0 = []"
  by (simp add: strncpy_arr_def)

lemma strncpy_arr_Suc: "strncpy_arr p (Suc n) =
    (if p 0 = 0 then replicate (Suc n) 0 else p 0 # strncpy_arr (\<lambda>i. p (Suc i)) n)"
  by (simp add: strncpy_arr_def Let_def cstr_Suc)

lemma length_strncpy_arr [simp]: "length (strncpy_arr p n) = n"
  using length_cstr [of n p] by (simp add: strncpy_arr_def Let_def)

lemma cstr_strncpy_arr [simp]: "cstr n (arr (strncpy_arr p n)) = cstr n p"
proof (induction n arbitrary: p)
  case 0
  then show ?case by simp
next
  case (Suc n)
  have "(\<lambda>i. arr (x # xs) (Suc i)) = arr xs" for x :: u8 and xs
    by (simp add: arr_def)
  with Suc show ?case
    by (simp add: cstr_Suc strncpy_arr_Suc) (simp add: arr_def)
qed

lemma strncpy_pad_apply:
  "n \<le> 4294967296 \<Longrightarrow> strncpy_pad s (int n) m x = (if in_range x s n then 0 else m x)"
proof (induction n arbitrary: s m)
  case 0
  then show ?case by (simp add: strncpy_pad.simps)
next
  case (Suc n)
  then show ?case by (subst strncpy_pad.simps) (auto simp: in_range_Suc)
qed

lemma strncpy_unfold: "strncpy s t n m =
    (if n \<le> 0 then m
     else if m t = 0 then strncpy_pad (s + 1) (n - 1) (m(s := 0))
     else strncpy (s + 1) (t + 1) (n - 1) (m(s := m t)))"
  by (simp add: strncpy_def strncpy_copy.simps [of s t n m] strncpy_pad.simps [of s "n - 1" m] Let_def)

lemma strncpy_apply:
  assumes "n \<le> 4294967296" "\<And>k j. k < n \<Longrightarrow> j < k \<Longrightarrow> t + of_nat k \<noteq> s + of_nat j"
  shows "strncpy s t (int n) m x =
    (if in_range x s n then strncpy_arr (ptr m t) n ! unat (x - s) else m x)"
  using assms
proof (induction n arbitrary: s t m)
  case 0
  then show ?case by (simp add: strncpy_unfold)
next
  case (Suc n)
  let ?m = "m(s := m t)"
  have cond: "t + 1 + of_nat k \<noteq> s + 1 + of_nat j" if "k < n" "j < k" for j k
    using Suc.prems(2) [of "Suc k" "Suc j"] that by (simp add: algebra_simps)
  have IH: "strncpy (s + 1) (t + 1) (int n) ?m x =
      (if in_range x (s + 1) n then strncpy_arr (ptr ?m (t + 1)) n ! unat (x - (s + 1)) else ?m x)"
    by (rule Suc.IH) (use Suc.prems(1) cond in auto)
  have "map (ptr ?m (t + 1)) [0..<n] = map (\<lambda>i. ptr m t (Suc i)) [0..<n]"
    using Suc.prems(2) [of "Suc k" 0 for k] by (auto simp: ptr_def algebra_simps)
  then have arr_eq: "strncpy_arr (ptr ?m (t + 1)) n = strncpy_arr (\<lambda>i. ptr m t (Suc i)) n"
    by (simp only: strncpy_arr_def cstr_def)
  have shift: "unat (x - s) = Suc (unat (x - (s + 1)))" if "in_range x (s + 1) n"
    using that Suc.prems(1) by (intro unat_diff_next) auto
  have "ptr m t 0 = m t" by (simp add: ptr_def)
  then have arr_Suc: "strncpy_arr (ptr m t) (Suc n) =
      (if m t = 0 then replicate (Suc n) 0 else m t # strncpy_arr (ptr ?m (t + 1)) n)"
    by (simp only: strncpy_arr_Suc arr_eq)
  have "unat (x - s) < Suc n" if "in_range x s (Suc n)"
    using that by (simp add: in_range_def)
  moreover have "strncpy s t (int (Suc n)) m x =
      (if m t = 0 then strncpy_pad (s + 1) (int n) (m(s := 0)) x
       else strncpy (s + 1) (t + 1) (int n) ?m x)"
    by (subst strncpy_unfold) simp
  ultimately show ?case
    using Suc.prems(1) shift IH
    by (cases "x = s") (auto simp: arr_Suc in_range_Suc strncpy_pad_apply nth_Cons' simp del: replicate_Suc)
qed

subsection \<open>safestrcpy and strlen\<close>

lemma safestrcpy_unfold: "safestrcpy s t n m =
    (if n \<le> 0 then m
     else if n = 1 then m(s := 0)
     else if m t = 0 then m(s := 0, s + 1 := 0)
     else safestrcpy (s + 1) (t + 1) (n - 1) (m(s := m t)))"
  by (auto simp: safestrcpy_def safestrcpy_copy.simps [of s t n m] Let_def)

lemma strlen_from_eq:
  "s (n + k) = 0 \<Longrightarrow> \<forall>i < k. s (n + i) \<noteq> 0 \<Longrightarrow> strlen_from s n = Some (n + k)"
proof (induction k arbitrary: n)
  case 0
  then show ?case by (simp add: strlen_from.simps)
next
  case (Suc k)
  from Suc.prems have "s n \<noteq> 0" by force
  moreover have "strlen_from s (Suc n) = Some (Suc n + k)"
    by (rule Suc.IH) (use Suc.prems in force)+
  ultimately show ?case by (simp add: strlen_from.simps [of s n])
qed

lemma strlen_eq: "s k = 0 \<Longrightarrow> \<forall>i < k. s i \<noteq> 0 \<Longrightarrow> strlen s = Some k"
  using strlen_from_eq [of s 0 k] by (simp add: strlen_def)

text \<open>
  \<open>safestrcpy\<close> never writes outside the \<open>n\<close> bytes of its destination, and always leaves a NUL
  there (unless \<open>n\<close> is not positive): the string it leaves is the source's, cut to \<open>n - 1\<close> bytes.
\<close>

lemma cstr_ptr_cong:
  "(\<And>i. i < n \<Longrightarrow> m (p + of_nat i) = m' (p + of_nat i)) \<Longrightarrow> cstr n (ptr m p) = cstr n (ptr m' p)"
  by (auto simp: cstr_def ptr_def intro!: arg_cong [where f = "takeWhile _"])

lemma ptr_Suc: "(\<lambda>i. ptr m p (Suc i)) = ptr m (p + 1)"
  by (auto simp: ptr_def algebra_simps)

lemma ptr_0 [simp]: "ptr m p 0 = m p"
  by (simp add: ptr_def)

lemma safestrcpy_apply:
  assumes "Suc n < 4294967296" "\<And>k j. k < n \<Longrightarrow> j < k \<Longrightarrow> t + of_nat k \<noteq> s + of_nat j"
  shows "(\<forall>x. \<not> in_range x s (Suc n) \<longrightarrow> safestrcpy s t (int (Suc n)) m x = m x) \<and>
    cstr (Suc n) (ptr (safestrcpy s t (int (Suc n)) m) s) = cstr n (ptr m t)"
  using assms
proof (induction n arbitrary: s t m)
  case 0
  then show ?case by (auto simp: safestrcpy_unfold in_range_Suc cstr_Suc)
next
  case (Suc n)
  let ?m = "m(s := m t)"
  let ?r = "safestrcpy (s + 1) (t + 1) (int (Suc n)) ?m"
  have step: "safestrcpy s t (int (Suc (Suc n))) m = (if m t = 0 then m(s := 0, s + 1 := 0) else ?r)"
    by (subst safestrcpy_unfold) simp
  have cond: "t + 1 + of_nat k \<noteq> s + 1 + of_nat j" if "k < n" "j < k" for j k
    using Suc.prems(2) [of "Suc k" "Suc j"] that by (simp add: algebra_simps)
  have IH: "(\<forall>x. \<not> in_range x (s + 1) (Suc n) \<longrightarrow> ?r x = ?m x) \<and>
      cstr (Suc n) (ptr ?r (s + 1)) = cstr n (ptr ?m (t + 1))"
    by (rule Suc.IH) (use Suc.prems(1) cond in auto)
  have "cstr n (ptr ?m (t + 1)) = cstr n (ptr m (t + 1))"
    using Suc.prems(2) [of "Suc k" 0 for k] by (intro cstr_ptr_cong) (auto simp: algebra_simps)
  moreover have "?r s = m t" using IH Suc.prems(1) by auto
  ultimately show ?case
    using IH Suc.prems(1)
    by (auto simp: step cstr_Suc [of "Suc n"] cstr_Suc [of n "ptr m t"] ptr_Suc in_range_Suc
      simp del: of_nat_Suc)
qed

section \<open>Properties\<close>

text \<open>\<open>memmove\<close> copies \<open>n\<close> bytes even when the areas overlap, and touches no byte outside the destination.\<close>

theorem memmove_copies:
  assumes "unat src + unat n \<le> 4294967296" and "unat dst + unat n \<le> 4294967296"
  shows "(\<forall>i < unat n. memmove dst src n m (dst + of_nat i) = m (src + of_nat i)) \<and>
    (\<forall>x. \<not> in_range x dst (unat n) \<longrightarrow> memmove dst src n m x = m x)"
proof -
  have "in_range (dst + of_nat i) dst (unat n)" if "i < unat n" for i
    using that unat_of_nat_u32 [of i] unat_u32_bound [of n] by (simp add: in_range_def)
  then show ?thesis by (simp add: memmove_apply [OF assms])
qed

theorem memmove_copies_witness:
  "memmove 101 100 3 (\<lambda>a. ucast a) 103 = 102 \<and> memmove 101 100 3 (\<lambda>a. ucast a) 104 = 104"
proof -
  have "(\<forall>i < unat (3 :: u32). memmove 101 100 3 (\<lambda>a. ucast a) (101 + of_nat i) = ucast (100 + of_nat i :: u32)) \<and>
    (\<forall>x. \<not> in_range x 101 (unat (3 :: u32)) \<longrightarrow> memmove 101 100 3 (\<lambda>a. ucast a) x = ucast x)"
    by (rule memmove_copies) simp_all
  from conjunct1 [OF this, THEN spec, of 2] conjunct2 [OF this, THEN spec, of 104]
  show ?thesis by (simp add: in_range_def)
qed

text \<open>\<open>safestrcpy\<close> with a buffer of \<open>n + 1\<close> bytes leaves a NUL-terminated string there, the source's cut to \<open>n\<close> bytes, and writes nothing outside the buffer.\<close>

theorem safestrcpy_terminates_string:
  assumes "Suc n < 4294967296" and "\<forall>k < n. \<forall>j < k. t + of_nat k \<noteq> s + of_nat j"
  shows "cstr (Suc n) (ptr (safestrcpy s t (int (Suc n)) m) s) = cstr n (ptr m t) \<and>
    (\<exists>k \<le> n. safestrcpy s t (int (Suc n)) m (s + of_nat k) = 0) \<and>
    (\<forall>x. \<not> in_range x s (Suc n) \<longrightarrow> safestrcpy s t (int (Suc n)) m x = m x)"
proof -
  let ?r = "safestrcpy s t (int (Suc n)) m"
  have a: "(\<forall>x. \<not> in_range x s (Suc n) \<longrightarrow> ?r x = m x) \<and> cstr (Suc n) (ptr ?r s) = cstr n (ptr m t)"
    by (rule safestrcpy_apply) (use assms in auto)
  then have "length (cstr (Suc n) (ptr ?r s)) \<le> n" using length_cstr by simp
  then have "\<exists>k \<le> n. ptr ?r s k = 0" by (rule short_cstr_has_NUL)
  with a show ?thesis by (simp add: ptr_def)
qed

theorem safestrcpy_terminates_string_witness:
  "safestrcpy 50 10 3 (\<lambda>a. ucast a) 52 = 0 \<and> safestrcpy 50 10 3 (\<lambda>a. ucast a) 53 = 53"
proof -
  have "cstr (Suc 2) (ptr (safestrcpy 50 10 (int (Suc 2)) (\<lambda>a. ucast a)) 50) = cstr 2 (ptr (\<lambda>a. ucast a) 10) \<and>
    (\<exists>k \<le> 2. safestrcpy 50 10 (int (Suc 2)) (\<lambda>a. ucast a) (50 + of_nat k) = 0) \<and>
    (\<forall>x. \<not> in_range x 50 (Suc 2) \<longrightarrow> safestrcpy 50 10 (int (Suc 2)) (\<lambda>a. ucast a) x = ucast x)"
    by (rule safestrcpy_terminates_string) (auto dest!: less_2_cases)
  then have "safestrcpy 50 10 (int (Suc 2)) (\<lambda>a. ucast a) 53 = 53" by (simp add: in_range_def)
  then show ?thesis by (simp add: safestrcpy_def safestrcpy_copy.simps)
qed

end
