(* ===== verification/Mmu.thy ===== *)
theory Mmu
  imports CString
begin

text \<open>
  The constants and address macros of \<open>param.h\<close>, \<open>memlayout.h\<close> and \<open>mmu.h\<close>, with the
  arithmetic the other theories use: rounding to pages, the split of a virtual address into
  directory index, table index and offset, and the fields of a page-table entry.
\<close>

abbreviation (input) PGSIZE :: u32 where "PGSIZE \<equiv> 4096"
abbreviation (input) KERNBASE :: u32 where "KERNBASE \<equiv> 0x80000000"
abbreviation (input) PHYSTOP :: u32 where "PHYSTOP \<equiv> 0x20000000"
abbreviation (input) EXTMEM :: u32 where "EXTMEM \<equiv> 0x100000"
abbreviation (input) DEVSPACE :: u32 where "DEVSPACE \<equiv> 0xFE000000"
abbreviation (input) KSTACKSIZE :: u32 where "KSTACKSIZE \<equiv> 4096"
abbreviation (input) PTE_P :: u32 where "PTE_P \<equiv> 1"
abbreviation (input) PTE_W :: u32 where "PTE_W \<equiv> 2"
abbreviation (input) PTE_U :: u32 where "PTE_U \<equiv> 4"

definition V2P :: "u32 \<Rightarrow> u32" where "V2P a = a - KERNBASE"
definition P2V :: "u32 \<Rightarrow> u32" where "P2V a = a + KERNBASE"
definition PCI_P2V :: "u32 \<Rightarrow> u32" where "PCI_P2V a = a + 0x40000000"
definition PGROUNDUP :: "u32 \<Rightarrow> u32" where "PGROUNDUP sz = (sz + PGSIZE - 1) AND NOT (PGSIZE - 1)"
definition PGROUNDDOWN :: "u32 \<Rightarrow> u32" where "PGROUNDDOWN a = a AND NOT (PGSIZE - 1)"
definition PDX :: "u32 \<Rightarrow> u32" where "PDX va = drop_bit 22 va AND 0x3FF"
definition PTX :: "u32 \<Rightarrow> u32" where "PTX va = drop_bit 12 va AND 0x3FF"
definition PGADDR :: "u32 \<Rightarrow> u32 \<Rightarrow> u32 \<Rightarrow> u32" where
  "PGADDR d t off = push_bit 22 d OR push_bit 12 t OR off"
definition PTE_ADDR :: "u32 \<Rightarrow> u32" where "PTE_ADDR pte = pte AND NOT 0xFFF"
definition PTE_FLAGS :: "u32 \<Rightarrow> u32" where "PTE_FLAGS pte = pte AND 0xFFF"

lemma V2P_P2V [simp]: "V2P (P2V a) = a" "P2V (V2P a) = a"
  by (simp_all add: V2P_def P2V_def)

lemma V2P_less_PHYSTOP:
  "V2P v < PHYSTOP \<longleftrightarrow> 0x80000000 \<le> unat v \<and> unat v < 0xA0000000"
proof (cases "0x80000000 \<le> unat v")
  case True
  then have "unat (V2P v) = unat v - 0x80000000"
    by (simp add: V2P_def unat_sub word_le_nat_alt)
  with True show ?thesis by (auto simp: word_less_nat_alt)
next
  case False
  then have "unat (V2P v) = 0x80000000 + unat v"
    by (simp add: V2P_def unat_sub_if' word_le_nat_alt)
  with False show ?thesis by (simp add: word_less_nat_alt)
qed

lemma mask12: "(0xFFF :: u32) = mask 12" "(0x3FF :: u32) = mask 10"
  by (simp_all add: mask_eq_decr_exp)

lemma unat_and_fff: "unat (a AND 0xFFF :: u32) = unat a mod 4096"
proof -
  have "a AND 0xFFF = take_bit 12 a"
    by (simp only: mask12 take_bit_eq_mask)
  then show ?thesis
    by (simp add: take_bit_eq_mod unat_mod)
qed

lemma and_plus_and_not: "(a AND b) + (a AND NOT b) = (a :: u32)"
proof -
  have "(a AND b) + (a AND NOT b) = (a AND b) OR (a AND NOT b)"
    by (rule disjunctive_add) (auto simp: bit_simps)
  also have "\<dots> = a" by (rule bit_word_eqI) (auto simp: bit_simps)
  finally show ?thesis .
qed

lemma unat_and_not_fff: "unat (a AND NOT 0xFFF :: u32) = unat a - unat a mod 4096"
proof -
  have "a AND NOT 0xFFF = a - (a AND 0xFFF)"
    using and_plus_and_not [of a "0xFFF"] by (simp add: algebra_simps)
  moreover have "a AND 0xFFF \<le> a" by (simp add: word_le_nat_alt unat_and_fff)
  ultimately show ?thesis by (simp add: unat_sub unat_and_fff)
qed

lemma unat_PGROUNDDOWN: "unat (PGROUNDDOWN a) = unat a - unat a mod 4096"
  using unat_and_not_fff [of a] by (simp add: PGROUNDDOWN_def)

lemma unat_PGROUNDUP:
  "unat a + 4095 < 4294967296 \<Longrightarrow> unat (PGROUNDUP a) = (unat a + 4095) div 4096 * 4096"
proof -
  assume "unat a + 4095 < 4294967296"
  then have "unat (a + 4095) = unat a + 4095"
    by (subst unat_add_nowrap) simp_all
  then show ?thesis
    using unat_and_not_fff [of "a + 4095"]
    by (simp add: PGROUNDUP_def algebra_simps minus_mod_eq_mult_div)
qed

lemma PGROUNDUP_aligned: "unat (PGROUNDUP a) mod 4096 = 0"
  using unat_and_not_fff [of "a + 4095"]
  by (simp add: PGROUNDUP_def algebra_simps minus_mod_eq_mult_div)

lemma unat_and_3ff: "unat (a AND 0x3FF :: u32) = unat a mod 1024"
proof -
  have "a AND 0x3FF = take_bit 10 a"
    by (simp only: mask12 take_bit_eq_mask)
  then show ?thesis
    by (simp add: take_bit_eq_mod unat_mod)
qed

lemma unat_PDX: "unat (PDX va) = unat va div 4194304"
proof -
  have "unat va div 4194304 < 1024" using unat_u32_bound [of va] by linarith
  then show ?thesis
    by (simp add: PDX_def unat_and_3ff drop_bit_eq_div unat_div)
qed

lemma unat_PTX: "unat (PTX va) = unat va div 4096 mod 1024"
  by (simp add: PTX_def unat_and_3ff drop_bit_eq_div unat_div)

text \<open>Equal directory and table index: the same page.\<close>

lemma same_page_iff:
  "PDX a = PDX b \<and> PTX a = PTX b \<longleftrightarrow> unat a div 4096 = unat b div 4096"
proof -
  have split: "unat x div 4096 = unat (PDX x) * 1024 + unat (PTX x)" for x
    by (simp add: unat_PDX unat_PTX div_mult2_eq [of _ 4096 1024, simplified])
  have less: "unat (PTX x) < 1024" for x
    by (simp add: unat_PTX)
  show ?thesis
  proof
    assume "unat a div 4096 = unat b div 4096"
    then have "unat (PDX a) = unat (PDX b) \<and> unat (PTX a) = unat (PTX b)"
      using mult_add_eq_iff [OF less [of a] less [of b]] by (simp only: split)
    then show "PDX a = PDX b \<and> PTX a = PTX b" by (simp add: word_unat_eq_iff)
  qed (simp add: split)
qed

section \<open>Pages of memory\<close>

abbreviation aligned :: "u32 \<Rightarrow> bool" where
  "aligned p \<equiv> unat p mod 4096 = 0"

lemma in_page_iff:
  assumes "aligned p"
  shows "in_range x p 4096 \<longleftrightarrow> unat x div 4096 = unat p div 4096"
proof -
  obtain q where q: "unat p = 4096 * q" using assms by auto
  have "q < 1048576" using unat_u32_bound [of p] unfolding q by linarith
  show ?thesis
  proof (cases "p \<le> x")
    case True
    then have "unat (x - p) = unat x - 4096 * q" "4096 * q \<le> unat x"
      using q by (simp_all add: unat_sub word_le_nat_alt)
    then show ?thesis by (auto simp: in_range_def q)
  next
    case False
    then have lt: "unat x < unat p" by (simp add: word_le_nat_alt)
    then have "unat (x - p) = 4294967296 + unat x - unat p"
      by (simp add: unat_sub_if' word_le_nat_alt)
    moreover have "unat p + 4096 \<le> 4294967296" using \<open>q < 1048576\<close> unfolding q by linarith
    ultimately have "\<not> in_range x p 4096" using lt by (simp add: in_range_def)
    moreover have "unat x div 4096 \<noteq> unat p div 4096" using lt by (auto simp: q)
    ultimately show ?thesis by simp
  qed
qed

lemma pages_disjoint:
  assumes "aligned p" "aligned q" "in_range x p 4096" "in_range x q 4096"
  shows "p = q"
proof -
  have "unat p div 4096 = unat q div 4096" using assms by (simp add: in_page_iff)
  then have "unat p = unat q" using assms(1,2) by (metis add.right_neutral div_mult_mod_eq)
  then show ?thesis by (simp add: word_unat_eq_iff)
qed

lemma in_range_self [simp]: "0 < n \<Longrightarrow> in_range p p n"
  by (simp add: in_range_def)

lemma in_range_plus [simp]: "k < 4294967296 \<Longrightarrow> in_range (p + of_nat k) p n \<longleftrightarrow> k < n"
  by (simp add: in_range_def unat_of_nat_u32)

lemma in_range_plus_numeral [simp]:
  "(numeral k :: nat) < 4294967296 \<Longrightarrow> in_range (p + numeral k) p n \<longleftrightarrow> numeral k < n"
  using in_range_plus [of "numeral k" p n] by simp

lemma in_range_plus_1 [simp]: "in_range (p + 1) p n \<longleftrightarrow> 1 < n"
  using in_range_plus [of 1 p n] by simp

section \<open>Words in memory\<close>

lemma in_range_4: "in_range x a 4 \<longleftrightarrow> x = a \<or> x = a + 1 \<or> x = a + 2 \<or> x = a + 3"
proof -
  have "in_range x a (Suc (Suc (Suc (Suc 0)))) \<longleftrightarrow> x = a \<or> x = a + 1 \<or> x = a + 2 \<or> x = a + 3"
    by (simp add: in_range_Suc add.assoc del: One_nat_def)
  moreover have "Suc (Suc (Suc (Suc 0))) = 4" by simp
  ultimately show ?thesis by (simp only:)
qed

lemma store32_other: "\<not> in_range x a 4 \<Longrightarrow> store32 a v m x = m x"
  by (auto simp: store32_def in_range_4)

lemma load32_store32_same [simp]: "load32 (store32 a v m) a = v"
  by (simp add: load32_def store32_def)

lemma load32_cong:
  "(\<And>x. in_range x a 4 \<Longrightarrow> m x = m' x) \<Longrightarrow> load32 m a = load32 m' a"
  by (simp add: load32_def in_range_4)

lemma load32_store32_other:
  "(\<And>x. in_range x b 4 \<Longrightarrow> \<not> in_range x a 4) \<Longrightarrow> load32 (store32 a v m) b = load32 m b"
  by (rule load32_cong) (simp add: store32_other)

lemma in_range_mono: "in_range x p n \<Longrightarrow> n \<le> k \<Longrightarrow> in_range x p k"
  by (simp add: in_range_def)

end
