(* ===== verification/Kalloc.thy ===== *)
theory Kalloc
  imports Mmu
begin

text \<open>
  The physical page allocator, \<open>kalloc.c\<close>.  Free pages form a list threaded through their
  own first words; \<open>kend\<close> is the linker symbol \<open>end\<close>.  The lock \<open>kmem.lock\<close> makes each of
  \<open>kalloc\<close> and \<open>kfree\<close> one atomic step, so the model keeps only \<open>use_lock\<close>.

  The locale \<open>page_allocator\<close> is the interface the rest of the kernel relies on: the free
  pages are a list of distinct usable pages, allocation pops it and freeing pushes on it.
  \<open>kalloc\<close> and \<open>kfree\<close> are shown to provide it.
\<close>

section \<open>The interface\<close>

fun alloc_n :: "('s \<Rightarrow> u32 \<times> 's) \<Rightarrow> nat \<Rightarrow> 's \<Rightarrow> u32 list \<times> 's" where
  "alloc_n alloc 0 s = ([], s)"
| "alloc_n alloc (Suc n) s =
     (let (p, s1) = alloc s; (ps, s2) = alloc_n alloc n s1 in (p # ps, s2))"

locale page_allocator =
  fixes alloc :: "'s \<Rightarrow> u32 \<times> 's"
    and free :: "u32 \<Rightarrow> 's \<Rightarrow> 's outcome"
    and free_pages :: "'s \<Rightarrow> u32 list \<Rightarrow> bool"
    and usable :: "u32 \<Rightarrow> bool"
  assumes alloc_Nil: "free_pages s [] \<Longrightarrow> alloc s = (0, s)"
    and alloc_Cons: "free_pages s (p # ps) \<Longrightarrow> \<exists>s'. alloc s = (p, s') \<and> free_pages s' ps"
    and free_ok: "free_pages s ps \<Longrightarrow> usable p \<Longrightarrow> p \<notin> set ps \<Longrightarrow>
      \<exists>s'. free p s = Ok s' \<and> free_pages s' (p # ps)"
    and free_unusable: "\<not> usable p \<Longrightarrow> \<exists>msg. free p s = Panic msg"
    and free_pages_distinct: "free_pages s ps \<Longrightarrow> distinct ps"
    and free_pages_usable: "free_pages s ps \<Longrightarrow> p \<in> set ps \<Longrightarrow> usable p"
    and usable_nonzero: "usable p \<Longrightarrow> p \<noteq> 0"
begin

lemma alloc_zero_iff:
  assumes "free_pages s ps"
  shows "fst (alloc s) = 0 \<longleftrightarrow> ps = []"
proof (cases ps)
  case Nil
  with assms show ?thesis by (simp add: alloc_Nil)
next
  case (Cons p qs)
  with assms obtain s' where "alloc s = (p, s')" using alloc_Cons by blast
  moreover have "p \<noteq> 0" using assms Cons free_pages_usable usable_nonzero by auto
  ultimately show ?thesis using Cons by simp
qed

lemma alloc_n_pops:
  "free_pages s (ps @ qs) \<Longrightarrow>
   \<exists>s'. alloc_n alloc (length ps) s = (ps, s') \<and> free_pages s' qs"
proof (induction ps arbitrary: s)
  case Nil
  then show ?case by simp
next
  case (Cons p ps)
  then obtain s1 where s1: "alloc s = (p, s1)" "free_pages s1 (ps @ qs)"
    using alloc_Cons by fastforce
  from Cons.IH [OF s1(2)] obtain s2 where
    "alloc_n alloc (length ps) s1 = (ps, s2)" "free_pages s2 qs" by blast
  with s1 show ?case by simp
qed

lemma alloc_n_fresh:
  assumes "free_pages s (ps @ qs)" and "alloc_n alloc (length ps) s = (rs, s')"
  shows "distinct rs \<and> set rs \<inter> set qs = {} \<and> (\<forall>r \<in> set rs. usable r) \<and> free_pages s' qs"
proof -
  from alloc_n_pops [OF assms(1)] assms(2) have "rs = ps" "free_pages s' qs" by auto
  with free_pages_distinct [OF assms(1)] free_pages_usable [OF assms(1)] show ?thesis
    by auto
qed

lemma free_then_alloc:
  assumes "free_pages s ps" "usable p" "p \<notin> set ps"
  shows "\<exists>s' s''. free p s = Ok s' \<and> alloc s' = (p, s'') \<and> free_pages s'' ps"
  using free_ok [OF assms] alloc_Cons by blast

end

section \<open>kalloc.c\<close>

record kmem =
  km_mem :: mem
  km_use_lock :: bool
  km_freelist :: u32

definition kfree :: "u32 \<Rightarrow> u32 \<Rightarrow> kmem \<Rightarrow> kmem outcome" where
  "kfree kend v s =
     (if unat v mod 4096 \<noteq> 0 \<or> v < kend \<or> V2P v \<ge> PHYSTOP then Panic ''kfree''
      else
        (let m1 = memset v 1 PGSIZE (km_mem s);
             m2 = store32 v (km_freelist s) m1
         in Ok (s\<lparr>km_mem := m2, km_freelist := v\<rparr>)))"

definition kalloc :: "kmem \<Rightarrow> u32 \<times> kmem" where
  "kalloc s =
     (let r = km_freelist s in
      if r \<noteq> 0 then (r, s\<lparr>km_freelist := load32 (km_mem s) r\<rparr>) else (r, s))"

text \<open>
  \<open>freerange\<close> frees the whole pages of \<open>[vstart, vend)\<close>.  Each turn of its loop that goes on
  has freed a page below \<open>KERNBASE + PHYSTOP\<close>, which bounds the loop.
\<close>

function freerange_loop :: "u32 \<Rightarrow> u32 \<Rightarrow> u32 \<Rightarrow> kmem \<Rightarrow> kmem outcome" where
  "freerange_loop kend p vend s =
     (if p + PGSIZE \<le> vend then bnd (kfree kend p s) (freerange_loop kend (p + PGSIZE) vend)
      else Ok s)"
  by pat_completeness auto
termination
proof (relation "measure (\<lambda>(kend, p, vend, s). unat (KERNBASE + PHYSTOP) - unat p)")
  fix kend p vend :: u32 and s s' :: kmem
  assume "kfree kend p s = Ok s'"
  then have "V2P p < PHYSTOP" by (auto simp: kfree_def Let_def not_le split: if_splits)
  then have p: "unat p < 0xA0000000" "0x80000000 \<le> unat p"
    by (simp_all add: V2P_less_PHYSTOP)
  then have "unat (p + 4096) = unat p + 4096"
    by (subst unat_add_nowrap) simp_all
  with p show "((kend, p + PGSIZE, vend, s'), kend, p, vend, s)
      \<in> measure (\<lambda>(kend, p, vend, s). unat (KERNBASE + PHYSTOP) - unat p)"
    by simp
qed simp

declare freerange_loop.simps [simp del]

definition freerange :: "u32 \<Rightarrow> u32 \<Rightarrow> u32 \<Rightarrow> kmem \<Rightarrow> kmem outcome" where
  "freerange kend vstart vend s = freerange_loop kend (PGROUNDUP vstart) vend s"

definition kinit1 :: "u32 \<Rightarrow> u32 \<Rightarrow> u32 \<Rightarrow> kmem \<Rightarrow> kmem outcome" where
  "kinit1 kend vstart vend s = freerange kend vstart vend (s\<lparr>km_use_lock := False\<rparr>)"

definition kinit2 :: "u32 \<Rightarrow> u32 \<Rightarrow> u32 \<Rightarrow> kmem \<Rightarrow> kmem outcome" where
  "kinit2 kend vstart vend s =
     bnd (freerange kend vstart vend s) (\<lambda>s. Ok (s\<lparr>km_use_lock := True\<rparr>))"

section \<open>The free list\<close>

definition usable_page :: "u32 \<Rightarrow> u32 \<Rightarrow> bool" where
  "usable_page kend p \<longleftrightarrow> aligned p \<and> kend \<le> p \<and> V2P p < PHYSTOP"

fun chain :: "mem \<Rightarrow> u32 \<Rightarrow> u32 list \<Rightarrow> bool" where
  "chain m p [] \<longleftrightarrow> p = 0"
| "chain m p (q # qs) \<longleftrightarrow> p = q \<and> chain m (load32 m q) qs"

definition freelist_is :: "u32 \<Rightarrow> kmem \<Rightarrow> u32 list \<Rightarrow> bool" where
  "freelist_is kend s ps \<longleftrightarrow>
     chain (km_mem s) (km_freelist s) ps \<and> distinct ps \<and> (\<forall>p \<in> set ps. usable_page kend p)"

lemma usable_page_nonzero: "usable_page kend p \<Longrightarrow> p \<noteq> 0"
  by (auto simp: usable_page_def V2P_def)

lemma chain_cong:
  "(\<And>q x. q \<in> set qs \<Longrightarrow> in_range x q 4 \<Longrightarrow> m x = m' x) \<Longrightarrow> chain m p qs = chain m' p qs"
proof (induction qs arbitrary: p)
  case (Cons q qs)
  have "load32 m q = load32 m' q" by (rule load32_cong) (rule Cons.prems [of q], simp_all)
  moreover have "chain m (load32 m' q) qs = chain m' (load32 m' q) qs"
    using Cons.prems by (intro Cons.IH) (meson list.set_intros(2))
  ultimately show ?case by simp
qed simp

text \<open>\<open>kfree\<close> touches no byte outside the freed page.\<close>

lemma kfree_mem_other:
  assumes "kfree kend v s = Ok s'" "\<not> in_range x v 4096"
  shows "km_mem s' x = km_mem s x"
proof -
  have "\<not> in_range x v 4" using assms(2) in_range_mono [of x v 4 4096] by auto
  with assms show ?thesis
    by (auto simp: kfree_def Let_def memset_apply store32_other split: if_splits)
qed

lemma kfree_Ok_iff: "(\<exists>s'. kfree kend v s = Ok s') \<longleftrightarrow> usable_page kend v"
  by (auto simp: kfree_def usable_page_def Let_def not_le not_less)

lemma kfree_pushes:
  assumes fl: "freelist_is kend s ps" and v: "usable_page kend v" and new: "v \<notin> set ps"
  shows "\<exists>s'. kfree kend v s = Ok s' \<and> freelist_is kend s' (v # ps)"
proof -
  obtain s' where s': "kfree kend v s = Ok s'" using v kfree_Ok_iff by blast
  have next_v: "km_freelist s' = v" "load32 (km_mem s') v = km_freelist s"
    using s' by (auto simp: kfree_def Let_def split: if_splits)
  have "\<not> in_range x v 4096" if "q \<in> set ps" "in_range x q 4" for q x
  proof
    assume "in_range x v 4096"
    moreover have "in_range x q 4096" using that(2) by (rule in_range_mono) simp
    moreover have "aligned q" "aligned v" using fl v that(1)
      by (auto simp: freelist_is_def usable_page_def)
    ultimately have "q = v" using pages_disjoint [of q v x] by simp
    with that(1) new show False by simp
  qed
  then have "chain (km_mem s') (km_freelist s) ps = chain (km_mem s) (km_freelist s) ps"
    by (intro chain_cong) (simp add: kfree_mem_other [OF s'])
  with s' next_v fl v new show ?thesis by (auto simp: freelist_is_def)
qed

interpretation kpages: page_allocator kalloc "kfree kend" "freelist_is kend" "usable_page kend"
  for kend
proof unfold_locales
  fix s p ps
  show "freelist_is kend s [] \<Longrightarrow> kalloc s = (0, s)"
    by (simp add: freelist_is_def kalloc_def Let_def)
  show "freelist_is kend s (p # ps) \<Longrightarrow> \<exists>s'. kalloc s = (p, s') \<and> freelist_is kend s' ps"
    using usable_page_nonzero [of kend p] by (auto simp: freelist_is_def kalloc_def Let_def)
  show "freelist_is kend s ps \<Longrightarrow> usable_page kend p \<Longrightarrow> p \<notin> set ps \<Longrightarrow>
      \<exists>s'. kfree kend p s = Ok s' \<and> freelist_is kend s' (p # ps)"
    by (rule kfree_pushes)
  show "\<not> usable_page kend p \<Longrightarrow> \<exists>msg. kfree kend p s = Panic msg"
    by (auto simp: kfree_def usable_page_def Let_def not_le not_less)
qed (auto simp: freelist_is_def usable_page_nonzero)

text \<open>
  \<open>freerange\<close> on a range of usable pages pushes exactly the pages of the range, in address
  order: the last page of the range ends up at the head of the list.
\<close>

definition pages_from :: "u32 \<Rightarrow> nat \<Rightarrow> u32 list" where
  "pages_from p n = map (\<lambda>i. p + of_nat (4096 * i)) [0..<n]"

lemma pages_from_Suc: "pages_from p (Suc n) = p # pages_from (p + 4096) n"
proof -
  have "map (\<lambda>i. p + of_nat (4096 * i)) [0..<Suc n] =
      (p + of_nat (4096 * 0)) # map (\<lambda>i. p + of_nat (4096 * Suc i)) [0..<n]"
    by (simp only: map_upt_Suc)
  then show ?thesis by (simp add: pages_from_def algebra_simps)
qed

lemma freerange_loop_pushes:
  assumes "freelist_is kend s ps" "aligned p" "kend \<le> p" "0x80000000 \<le> unat p"
    "unat p + 4096 * n \<le> unat vend" "unat vend < unat p + 4096 * n + 4096"
    "unat vend \<le> 0xA0000000" "set ps \<inter> set (pages_from p n) = {}"
  shows "\<exists>s'. freerange_loop kend p vend s = Ok s' \<and>
    freelist_is kend s' (rev (pages_from p n) @ ps)"
  using assms
proof (induction n arbitrary: p s ps)
  case 0
  have "unat (p + 4096) = unat p + 4096"
    by (subst unat_add_nowrap) (use 0 in simp_all)
  with 0 have "\<not> p + 4096 \<le> vend" by (simp add: word_le_nat_alt)
  with 0 show ?case by (simp add: freerange_loop.simps pages_from_def)
next
  case (Suc n)
  have p4: "unat (p + 4096) = unat p + 4096"
    by (subst unat_add_nowrap) (use Suc.prems in simp_all)
  have "usable_page kend p"
    using Suc.prems by (simp add: usable_page_def V2P_less_PHYSTOP)
  moreover have "p \<notin> set ps" using Suc.prems(8) by (auto simp: pages_from_Suc)
  ultimately obtain s1 where s1: "kfree kend p s = Ok s1" "freelist_is kend s1 (p # ps)"
    using kfree_pushes [OF Suc.prems(1)] by blast
  have "p \<noteq> p + 4096 + of_nat (4096 * i)" if "i < n" for i
  proof -
    have "unat (p + 4096 + of_nat (4096 * i)) = unat p + 4096 + 4096 * i"
      using that Suc.prems(5,7) p4 by (subst unat_plus_of_nat) simp_all
    then have "unat p \<noteq> unat (p + 4096 + of_nat (4096 * i))" by linarith
    then show ?thesis by metis
  qed
  then have "p \<notin> set (pages_from (p + 4096) n)" by (auto simp: pages_from_def)
  then have "set (p # ps) \<inter> set (pages_from (p + 4096) n) = {}"
    using Suc.prems(8) by (auto simp: pages_from_Suc)
  then have "\<exists>s'. freerange_loop kend (p + 4096) vend s1 = Ok s' \<and>
      freelist_is kend s' (rev (pages_from (p + 4096) n) @ p # ps)"
    using Suc.prems s1(2) p4 by (intro Suc.IH) (auto simp: word_le_nat_alt)
  moreover have "p + 4096 \<le> vend" using Suc.prems p4 by (simp add: word_le_nat_alt)
  ultimately show ?case
    using s1(1) by (simp add: freerange_loop.simps [of kend p] pages_from_Suc)
qed

section \<open>Properties\<close>

text \<open>C40: pages handed out by successive calls of \<open>kalloc\<close> are usable, pairwise distinct, and different from every page still on the free list.\<close>

theorem kalloc_fresh:
  assumes "freelist_is kend s (ps @ qs)" and "alloc_n kalloc (length ps) s = (rs, s')"
  shows "distinct rs \<and> set rs \<inter> set qs = {} \<and> (\<forall>r \<in> set rs. usable_page kend r) \<and> freelist_is kend s' qs"
  by (rule kpages.alloc_n_fresh [OF assms])

text \<open>An allocator with the two pages at \<open>0x80400000\<close> and \<open>0x80401000\<close> free.\<close>

definition two_pages :: kmem where
  "two_pages = \<lparr>km_mem = store32 0x80400000 0x80401000 (\<lambda>a. 0), km_use_lock = False,
     km_freelist = 0x80400000\<rparr>"

lemma two_pages_free: "freelist_is 0x80100000 two_pages [0x80400000, 0x80401000]"
  by (simp add: freelist_is_def two_pages_def usable_page_def V2P_def store32_def load32_def
    word32_def)

theorem kalloc_fresh_witness:
  "\<exists>s'. alloc_n kalloc 1 two_pages = ([0x80400000], s') \<and> freelist_is 0x80100000 s' [0x80401000]"
proof -
  obtain rs s' where r: "alloc_n kalloc (length [0x80400000 :: u32]) two_pages = (rs, s')" by fastforce
  have "freelist_is 0x80100000 s' [0x80401000]"
    using kalloc_fresh [where kend = "0x80100000" and qs = "[0x80401000]", OF _ r] two_pages_free by simp
  moreover have "rs = [0x80400000]" using r by (auto simp: two_pages_def kalloc_def split: prod.splits)
  ultimately show ?thesis using r by simp
qed

text \<open>At boot, \<open>freerange\<close> on an empty allocator succeeds and leaves on the free list exactly the whole pages of the range it is given.\<close>

theorem freerange_frees_all:
  assumes "km_freelist s = 0" "kend \<le> vstart" "0x80000000 \<le> unat vstart" "unat vend \<le> 0xA0000000"
    "unat (PGROUNDUP vstart) + 4096 * n \<le> unat vend" "vstart \<le> vend"
    "unat vend < unat (PGROUNDUP vstart) + 4096 * n + 4096"
  shows "\<exists>s'. freerange kend vstart vend s = Ok s' \<and>
    freelist_is kend s' (rev (pages_from (PGROUNDUP vstart) n))"
proof -
  have "unat vstart + 4095 < 4294967296" using assms(4,6) by (simp add: word_le_nat_alt)
  then have ge: "unat vstart \<le> unat (PGROUNDUP vstart)" by (simp add: unat_PGROUNDUP)
  have "\<exists>s'. freerange_loop kend (PGROUNDUP vstart) vend s = Ok s' \<and>
      freelist_is kend s' (rev (pages_from (PGROUNDUP vstart) n) @ [])"
  proof (rule freerange_loop_pushes)
    show "freelist_is kend s []" using assms(1) by (simp add: freelist_is_def)
    show "aligned (PGROUNDUP vstart)" by (simp add: PGROUNDUP_aligned)
    show "kend \<le> PGROUNDUP vstart" using assms(2) ge by (simp add: word_le_nat_alt)
  qed (use assms ge in auto)
  then show ?thesis by (simp add: freerange_def)
qed

theorem freerange_frees_all_witness:
  "\<exists>s'. freerange 0x80100000 0x80100001 0x80103000 \<lparr>km_mem = (\<lambda>a. 0), km_use_lock = False, km_freelist = 0\<rparr>
      = Ok s' \<and> freelist_is 0x80100000 s' [0x80102000, 0x80101000]"
proof -
  have p: "PGROUNDUP 0x80100001 = 0x80101000" by (simp add: PGROUNDUP_def)
  have "rev (pages_from (PGROUNDUP 0x80100001) 2) = [0x80102000, 0x80101000]"
    by (simp add: p pages_from_def upt_rec)
  then show ?thesis
    using freerange_frees_all [where s = "\<lparr>km_mem = (\<lambda>a. 0), km_use_lock = False, km_freelist = 0\<rparr>"
      and kend = "0x80100000" and vstart = "0x80100001" and vend = "0x80103000" and n = 2] p by simp
qed

text \<open>a page given back by \<open>kfree\<close> is the next one \<open>kalloc\<close> hands out, and freeing anything that is not a page of the allocatable range panics.\<close>

theorem kfree_kalloc_roundtrip:
  assumes "freelist_is kend s ps" "v \<notin> set ps"
  shows "(\<exists>s' s''. kfree kend v s = Ok s' \<and> kalloc s' = (v, s'') \<and> freelist_is kend s'' ps) \<or>
    \<not> usable_page kend v \<and> (\<exists>msg. kfree kend v s = Panic msg)"
  using kpages.free_then_alloc [OF assms(1) _ assms(2)] kpages.free_unusable by blast

theorem kfree_kalloc_roundtrip_witness:
  "\<exists>s' s''. kfree 0x80100000 0x80402000 two_pages = Ok s' \<and> kalloc s' = (0x80402000, s'') \<and>
     freelist_is 0x80100000 s'' [0x80400000, 0x80401000]"
proof -
  have "usable_page 0x80100000 0x80402000" by (simp add: usable_page_def V2P_def)
  then show ?thesis
    using kfree_kalloc_roundtrip [OF two_pages_free, of "0x80402000"] by simp
qed

end
