(* ===== verification/Block_Store.thy ===== *)
theory Block_Store
  imports Prelude
begin

text \<open>
  The interface of the buffer cache as its clients see it.  The abstract state \<open>astore\<close>
  forgets the buffers: it keeps the current content of each block (\<open>a_view\<close>), which blocks
  are cached but not yet written (\<open>a_dirty\<close>), which buffer handles are held and for which
  block (\<open>a_held\<close>), the disk with the sequence of writes it has received, and how many
  buffers there are.

  The locale \<open>block_reads\<close> states what reading, modifying and releasing a buffer do to it,
  and \<open>block_cache\<close> adds writing through to the disk.  The clients' sequences (read and
  release; read two blocks and copy one onto the other) are proved here once, from the laws.
\<close>

abbreviation (input) BSIZE :: nat where "BSIZE \<equiv> 512"
definition FSSIZE :: nat where "FSSIZE = 1000"

record astore =
  a_view :: "u32 \<Rightarrow> u8 list"
  a_dirty :: "u32 set"
  a_held :: "nat \<Rightarrow> u32 option"
  a_disk :: "u8 list list"
  a_writes :: "(nat \<times> u8 list) list"
  a_bufs :: nat

text \<open>There is a buffer left for another \<open>k\<close> reads.\<close>

definition room :: "nat \<Rightarrow> astore \<Rightarrow> bool" where
  "room k a \<longleftrightarrow> card (a_dirty a) + card (dom (a_held a)) + k \<le> a_bufs a"

abbreviation (input) quiet :: "astore \<Rightarrow> bool" where
  "quiet a \<equiv> a_held a = Map.empty"

locale block_reads =
  fixes rd :: "u32 \<Rightarrow> 's \<Rightarrow> (nat \<times> 's) outcome"
    and rel :: "nat \<Rightarrow> 's \<Rightarrow> 's outcome"
    and data :: "'s \<Rightarrow> nat \<Rightarrow> u8 list"
    and setd :: "nat \<Rightarrow> u8 list \<Rightarrow> 's \<Rightarrow> 's"
    and inv :: "'s \<Rightarrow> bool"
    and abs :: "'s \<Rightarrow> astore"
  assumes rd_abs: "inv s \<Longrightarrow> rd n s = Ok (i, s') \<Longrightarrow>
      inv s' \<and> abs s' = (abs s)\<lparr>a_held := (a_held (abs s))(i \<mapsto> n)\<rparr> \<and>
      a_held (abs s) i = None \<and> n \<notin> ran (a_held (abs s)) \<and> unat n < length (a_disk (abs s))"
    and rd_ok: "inv s \<Longrightarrow> unat n < length (a_disk (abs s)) \<Longrightarrow> n \<notin> ran (a_held (abs s)) \<Longrightarrow>
      room 1 (abs s) \<Longrightarrow> \<exists>i s'. rd n s = Ok (i, s')"
    and data_abs: "inv s \<Longrightarrow> a_held (abs s) i = Some n \<Longrightarrow> data s i = a_view (abs s) n"
    and setd_abs: "inv s \<Longrightarrow> a_held (abs s) i = Some n \<Longrightarrow> length d = BSIZE \<Longrightarrow>
      inv (setd i d s) \<and> abs (setd i d s) = (abs s)\<lparr>a_view := (a_view (abs s))(n := d)\<rparr>"
    and rel_abs: "inv s \<Longrightarrow> a_held (abs s) i = Some n \<Longrightarrow>
      n \<in> a_dirty (abs s) \<or> a_view (abs s) n = a_disk (abs s) ! unat n \<Longrightarrow>
      \<exists>s'. rel i s = Ok s' \<and> inv s' \<and> abs s' = (abs s)\<lparr>a_held := (a_held (abs s))(i := None)\<rparr>"
    and settled: "inv s \<Longrightarrow> unat n < length (a_disk (abs s)) \<Longrightarrow> n \<notin> ran (a_held (abs s)) \<Longrightarrow>
      n \<in> a_dirty (abs s) \<or> a_view (abs s) n = a_disk (abs s) ! unat n"
    and view_len: "inv s \<Longrightarrow> unat n < length (a_disk (abs s)) \<Longrightarrow> length (a_view (abs s) n) = BSIZE"
    and held_finite: "inv s \<Longrightarrow> finite (dom (a_held (abs s)))"
begin

lemmas rd_absD = rd_abs [THEN conjunct1] rd_abs [THEN conjunct2, THEN conjunct1]
  rd_abs [THEN conjunct2, THEN conjunct2, THEN conjunct1]
  rd_abs [THEN conjunct2, THEN conjunct2, THEN conjunct2, THEN conjunct1]
  rd_abs [THEN conjunct2, THEN conjunct2, THEN conjunct2, THEN conjunct2]

lemma rd_data: "inv s \<Longrightarrow> rd n s = Ok (i, s') \<Longrightarrow> data s' i = a_view (abs s) n"
  using rd_abs [of s n i s'] data_abs [of s' i n] by simp

text \<open>Reading a block and releasing it leaves the abstract state as it was.\<close>

lemma rd_rel:
  assumes inv: "inv s" and rd: "rd n s = Ok (i, s1)"
  shows "\<exists>s'. rel i s1 = Ok s' \<and> inv s' \<and> abs s' = abs s"
proof -
  note r = rd_absD [OF inv rd]
  have "n \<in> a_dirty (abs s) \<or> a_view (abs s) n = a_disk (abs s) ! unat n"
    using settled [OF inv r(5,4)] .
  then obtain s' where "rel i s1 = Ok s'" "inv s'"
    "abs s' = (abs s1)\<lparr>a_held := (a_held (abs s1))(i := None)\<rparr>"
    using rel_abs [OF r(1), of i n] r(2) by auto
  with r(2,3) show ?thesis
    by (intro exI [of _ s']) (simp add: fun_upd_idem)
qed

text \<open>Two different blocks can be read when there is room for both.\<close>

lemma rd_two_ok:
  assumes inv: "inv s" and n: "unat n < length (a_disk (abs s))" "unat m < length (a_disk (abs s))"
    and nm: "n \<noteq> m" and q: "quiet (abs s)" and rm: "room 2 (abs s)"
  shows "\<exists>i s1 j s2. rd n s = Ok (i, s1) \<and> rd m s1 = Ok (j, s2)"
proof -
  obtain i s1 where 1: "rd n s = Ok (i, s1)"
    using rd_ok [OF inv n(1)] q rm by (auto simp: room_def)
  note r = rd_absD [OF inv 1]
  have "\<exists>j s2. rd m s1 = Ok (j, s2)"
    by (rule rd_ok [OF r(1)]) (use r(2) n nm q rm in \<open>auto simp: room_def\<close>)
  with 1 show ?thesis by blast
qed

end

locale block_cache = block_reads rd rel data setd inv abs
  for rd :: "u32 \<Rightarrow> 's \<Rightarrow> (nat \<times> 's) outcome" and rel data setd inv abs +
  fixes wr :: "nat \<Rightarrow> 's \<Rightarrow> 's outcome"
  assumes wr_abs: "inv s \<Longrightarrow> a_held (abs s) i = Some n \<Longrightarrow>
      \<exists>s'. wr i s = Ok s' \<and> inv s' \<and> abs s' = (abs s)\<lparr>a_dirty := a_dirty (abs s) - {n},
        a_disk := (a_disk (abs s))[unat n := a_view (abs s) n],
        a_writes := a_writes (abs s) @ [(unat n, a_view (abs s) n)]\<rparr>"
begin

text \<open>
  With both buffers held, copying the bytes of \<open>i\<close> into \<open>j\<close>, writing \<open>j\<close> and releasing
  both has one effect on the abstract state: block \<open>m\<close> gets the content of \<open>n\<close>, in the cache
  and on the disk, and is clean.
\<close>

lemma copy_write_release:
  assumes inv: "inv s" and ij: "i \<noteq> j" and nm: "n \<noteq> m"
    and h: "a_held (abs s) = [i \<mapsto> n, j \<mapsto> m]"
    and len: "unat n < length (a_disk (abs s))" "unat m < length (a_disk (abs s))"
    and set: "n \<in> a_dirty (abs s) \<or> a_view (abs s) n = a_disk (abs s) ! unat n"
  shows "\<exists>s1 s2 s3. wr j (setd j (data s i) s) = Ok s1 \<and> rel i s1 = Ok s2 \<and> rel j s2 = Ok s3 \<and>
    inv s3 \<and> abs s3 = (abs s)\<lparr>a_view := (a_view (abs s))(m := a_view (abs s) n),
      a_dirty := a_dirty (abs s) - {m}, a_held := Map.empty,
      a_disk := (a_disk (abs s))[unat m := a_view (abs s) n],
      a_writes := a_writes (abs s) @ [(unat m, a_view (abs s) n)]\<rparr>"
proof -
  have hi: "a_held (abs s) i = Some n" and hj: "a_held (abs s) j = Some m"
    using h ij by simp_all
  have nm': "unat n \<noteq> unat m" using nm by (simp add: word_unat_eq_iff)
  have d: "data s i = a_view (abs s) n" by (rule data_abs [OF inv hi])
  have "length (data s i) = BSIZE" using view_len [OF inv len(1)] d by simp
  note 0 = setd_abs [OF inv hj this]
  obtain s1 where s1: "wr j (setd j (data s i) s) = Ok s1" "inv s1"
    "abs s1 = (abs s)\<lparr>a_view := (a_view (abs s))(m := a_view (abs s) n), a_dirty := a_dirty (abs s) - {m},
      a_disk := (a_disk (abs s))[unat m := a_view (abs s) n],
      a_writes := a_writes (abs s) @ [(unat m, a_view (abs s) n)]\<rparr>"
    using wr_abs [of "setd j (data s i) s" j m] 0 hj d by auto
  obtain s2 where s2: "rel i s1 = Ok s2" "inv s2"
    "abs s2 = (abs s1)\<lparr>a_held := (a_held (abs s1))(i := None)\<rparr>"
    using rel_abs [OF s1(2), of i n] s1(3) hi set nm nm' by auto
  obtain s3 where s3: "rel j s2 = Ok s3" "inv s3"
    "abs s3 = (abs s2)\<lparr>a_held := (a_held (abs s2))(j := None)\<rparr>"
    using rel_abs [OF s2(2), of j m] s2(3) s1(3) hj ij len(2) by auto
  have "(a_held (abs s))(i := None, j := None) = Map.empty" using h by auto
  then have "abs s3 = (abs s)\<lparr>a_view := (a_view (abs s))(m := a_view (abs s) n),
      a_dirty := a_dirty (abs s) - {m}, a_held := Map.empty,
      a_disk := (a_disk (abs s))[unat m := a_view (abs s) n],
      a_writes := a_writes (abs s) @ [(unat m, a_view (abs s) n)]\<rparr>"
    using s1(3) s2(3) s3(3) by simp
  with s1 s2 s3 show ?thesis by blast
qed

text \<open>One block modified through its buffer, written and released.\<close>

lemma modify_write_release:
  assumes inv: "inv s" and q: "quiet (abs s)" and rm: "room 1 (abs s)"
    and n: "unat n < length (a_disk (abs s))"
    and f: "\<And>d. length d = BSIZE \<Longrightarrow> length (f d) = BSIZE"
  shows "\<exists>i s1 s2 s3. rd n s = Ok (i, s1) \<and> wr i (setd i (f (data s1 i)) s1) = Ok s2 \<and>
    rel i s2 = Ok s3 \<and> inv s3 \<and>
    abs s3 = (abs s)\<lparr>a_view := (a_view (abs s))(n := f (a_view (abs s) n)),
      a_dirty := a_dirty (abs s) - {n},
      a_disk := (a_disk (abs s))[unat n := f (a_view (abs s) n)],
      a_writes := a_writes (abs s) @ [(unat n, f (a_view (abs s) n))]\<rparr>"
proof -
  obtain i s1 where 1: "rd n s = Ok (i, s1)" using rd_ok [OF inv n] q rm by auto
  note r = rd_absD [OF inv 1]
  have h: "a_held (abs s1) i = Some n" using r(2) by simp
  have d: "data s1 i = a_view (abs s) n" using rd_data [OF inv 1] .
  have "length (f (data s1 i)) = BSIZE" using f view_len [OF inv n] d by simp
  note 2 = setd_abs [OF r(1) h this]
  obtain s2 where s2: "wr i (setd i (f (data s1 i)) s1) = Ok s2" "inv s2"
    "abs s2 = (abs s1)\<lparr>a_view := (a_view (abs s1))(n := f (data s1 i)), a_dirty := a_dirty (abs s1) - {n},
      a_disk := (a_disk (abs s1))[unat n := f (data s1 i)],
      a_writes := a_writes (abs s1) @ [(unat n, f (data s1 i))]\<rparr>"
    using wr_abs [of "setd i (f (data s1 i)) s1" i n] 2 h by auto
  obtain s3 where s3: "rel i s2 = Ok s3" "inv s3"
    "abs s3 = (abs s2)\<lparr>a_held := (a_held (abs s2))(i := None)\<rparr>"
    using rel_abs [OF s2(2), of i n] s2(3) r(2) n by auto
  have "abs s3 = (abs s)\<lparr>a_view := (a_view (abs s))(n := f (a_view (abs s) n)),
      a_dirty := a_dirty (abs s) - {n},
      a_disk := (a_disk (abs s))[unat n := f (a_view (abs s) n)],
      a_writes := a_writes (abs s) @ [(unat n, f (a_view (abs s) n))]\<rparr>"
    using s2(3) s3(3) r(2) q d by (simp add: fun_upd_idem)
  with 1 s2 s3 show ?thesis by blast
qed

end

end
