(* ===== verification/Bio.thy ===== *)
theory Bio
  imports Block_Store
begin

text \<open>
  The buffer cache, \<open>bio.c\<close>, with the sleep locks of its buffers (\<open>sleeplock.c\<close>) and the
  in-memory disk driver \<open>memide.c\<close>; \<open>Ide\<close> shows that the driver \<open>ide.c\<close> does the same.

  The state \<open>bcache\<close> holds the \<open>NBUF\<close> buffers, the order of the list headed by
  \<open>bcache.head\<close> (most recently used first), and the disk as a list of blocks of \<open>BSIZE\<close>
  bytes.  The bits \<open>B_VALID\<close> and \<open>B_DIRTY\<close> of \<open>flags\<close> are the fields \<open>b_valid\<close> and
  \<open>b_dirty\<close>.  \<open>bc_pid\<close> is \<open>myproc()->pid\<close>; \<open>bc_woken\<close> records the channels of the
  \<open>wakeup\<close> calls and \<open>bc_writes\<close> the blocks written to the disk, both oldest first: they
  are never read by the code.  The spin lock \<open>bcache.lock\<close> makes each of its critical
  sections one step.

  The lemmas give the contract the file system relies on: a block's current content
  (\<open>view\<close>) is what \<open>bread\<close> returns, and no operation but a write to the buffer changes it.
\<close>

abbreviation (input) NBUF :: nat where "NBUF \<equiv> 30"

section \<open>Sleep locks\<close>

record sleeplock =
  sl_locked :: bool
  sl_pid :: u32

definition initsleeplock :: sleeplock where
  "initsleeplock = \<lparr>sl_locked = False, sl_pid = 0\<rparr>"

definition acquiresleep :: "chan \<Rightarrow> u32 \<Rightarrow> sleeplock \<Rightarrow> sleeplock outcome" where
  "acquiresleep ch pid lk =
     (if sl_locked lk then Sleeps ch else Ok (lk\<lparr>sl_locked := True, sl_pid := pid\<rparr>))"

definition releasesleep :: "sleeplock \<Rightarrow> sleeplock" where
  "releasesleep lk = lk\<lparr>sl_locked := False, sl_pid := 0\<rparr>"

definition holdingsleep :: "sleeplock \<Rightarrow> bool" where
  "holdingsleep lk = sl_locked lk"

section \<open>Buffers and the disk\<close>

record buf =
  b_valid :: bool
  b_dirty :: bool
  b_dev :: u32
  b_blockno :: u32
  b_lock :: sleeplock
  b_refcnt :: u32
  b_data :: "u8 list"

record bcache =
  bufs :: "buf list"
  lru :: "nat list"
  disk :: "u8 list list"
  bc_pid :: u32
  bc_woken :: "chan list"
  bc_writes :: "(nat \<times> u8 list) list"

definition upd_buf :: "nat \<Rightarrow> (buf \<Rightarrow> buf) \<Rightarrow> bcache \<Rightarrow> bcache" where
  "upd_buf i f s = s\<lparr>bufs := (bufs s)[i := f (bufs s ! i)]\<rparr>"

definition zero_buf :: buf where
  "zero_buf = \<lparr>b_valid = False, b_dirty = False, b_dev = 0, b_blockno = 0,
     b_lock = initsleeplock, b_refcnt = 0, b_data = replicate BSIZE 0\<rparr>"

text \<open>\<open>binit\<close> puts each buffer in turn at the head of the list.\<close>

definition binit :: "bcache \<Rightarrow> bcache" where
  "binit s = s\<lparr>lru := fold (\<lambda>i l. i # l) [0..<NBUF] [],
     bufs := map (\<lambda>b. b\<lparr>b_lock := initsleeplock\<rparr>) (bufs s)\<rparr>"

definition iderw :: "nat \<Rightarrow> bcache \<Rightarrow> bcache outcome" where
  "iderw i s = (let b = bufs s ! i in
     if \<not> holdingsleep (b_lock b) then Panic ''iderw: buf not locked''
     else if b_valid b \<and> \<not> b_dirty b then Panic ''iderw: nothing to do''
     else if b_dev b \<noteq> 1 then Panic ''iderw: request not for disk 1''
     else if unat (b_blockno b) \<ge> length (disk s) then Panic ''iderw: block out of range''
     else
       (let n = unat (b_blockno b) in
        if b_dirty b then
          Ok ((upd_buf i (\<lambda>b. b\<lparr>b_dirty := False, b_valid := True\<rparr>) s)
                \<lparr>disk := (disk s)[n := b_data b], bc_writes := bc_writes s @ [(n, b_data b)]\<rparr>)
        else Ok (upd_buf i (\<lambda>b. b\<lparr>b_data := disk s ! n, b_valid := True\<rparr>) s)))"

section \<open>bio.c\<close>

definition lock_buf :: "nat \<Rightarrow> bcache \<Rightarrow> bcache outcome" where
  "lock_buf i s = bnd (acquiresleep (ChBuf i) (bc_pid s) (b_lock (bufs s ! i)))
     (\<lambda>lk. Ok (upd_buf i (\<lambda>b. b\<lparr>b_lock := lk\<rparr>) s))"

definition bget :: "u32 \<Rightarrow> u32 \<Rightarrow> bcache \<Rightarrow> (nat \<times> bcache) outcome" where
  "bget dev blockno s =
     (case find (\<lambda>i. b_dev (bufs s ! i) = dev \<and> b_blockno (bufs s ! i) = blockno) (lru s) of
        Some i \<Rightarrow>
          bnd (lock_buf i (upd_buf i (\<lambda>b. b\<lparr>b_refcnt := b_refcnt b + 1\<rparr>) s)) (\<lambda>s. Ok (i, s))
      | None \<Rightarrow>
          (case find (\<lambda>i. b_refcnt (bufs s ! i) = 0 \<and> \<not> b_dirty (bufs s ! i)) (rev (lru s)) of
             Some i \<Rightarrow>
               bnd (lock_buf i (upd_buf i (\<lambda>b. b\<lparr>b_dev := dev, b_blockno := blockno,
                 b_valid := False, b_dirty := False, b_refcnt := 1\<rparr>) s)) (\<lambda>s. Ok (i, s))
           | None \<Rightarrow> Panic ''bget: no buffers''))"

definition bread :: "u32 \<Rightarrow> u32 \<Rightarrow> bcache \<Rightarrow> (nat \<times> bcache) outcome" where
  "bread dev blockno s = bnd (bget dev blockno s) (\<lambda>(i, s).
     if \<not> b_valid (bufs s ! i) then bnd (iderw i s) (\<lambda>s. Ok (i, s)) else Ok (i, s))"

definition bwrite :: "nat \<Rightarrow> bcache \<Rightarrow> bcache outcome" where
  "bwrite i s =
     (if \<not> holdingsleep (b_lock (bufs s ! i)) then Panic ''bwrite''
      else iderw i (upd_buf i (\<lambda>b. b\<lparr>b_dirty := True\<rparr>) s))"

definition brelse :: "nat \<Rightarrow> bcache \<Rightarrow> bcache outcome" where
  "brelse i s =
     (if \<not> holdingsleep (b_lock (bufs s ! i)) then Panic ''brelse''
      else
        (let s = upd_buf i (\<lambda>b. b\<lparr>b_lock := releasesleep (b_lock b)\<rparr>) s;
             s = s\<lparr>bc_woken := bc_woken s @ [ChBuf i]\<rparr>;
             s = upd_buf i (\<lambda>b. b\<lparr>b_refcnt := b_refcnt b - 1\<rparr>) s
         in Ok (if b_refcnt (bufs s ! i) = 0 then s\<lparr>lru := i # remove1 i (lru s)\<rparr> else s)))"

text \<open>The holder of a locked buffer changes its bytes (\<open>b->data\<close>).\<close>

definition set_data :: "nat \<Rightarrow> u8 list \<Rightarrow> bcache \<Rightarrow> bcache" where
  "set_data i d s = upd_buf i (\<lambda>b. b\<lparr>b_data := d\<rparr>) s"

section \<open>Invariant and abstract content\<close>

abbreviation (input) buf_at :: "bcache \<Rightarrow> nat \<Rightarrow> buf" where
  "buf_at s i \<equiv> bufs s ! i"

abbreviation (input) locked :: "bcache \<Rightarrow> nat \<Rightarrow> bool" where
  "locked s i \<equiv> sl_locked (b_lock (bufs s ! i))"

definition caches :: "bcache \<Rightarrow> u32 \<Rightarrow> nat \<Rightarrow> bool" where
  "caches s n i \<longleftrightarrow> b_dev (bufs s ! i) = 1 \<and> b_blockno (bufs s ! i) = n \<and> b_valid (bufs s ! i)"

text \<open>The current content of block \<open>n\<close>: the valid buffer that caches it, or the disk.\<close>

definition view :: "bcache \<Rightarrow> u32 \<Rightarrow> u8 list" where
  "view s n = (case find (caches s n) (lru s) of
     Some i \<Rightarrow> b_data (bufs s ! i) | None \<Rightarrow> disk s ! unat n)"

text \<open>
  What holds of one buffer between the steps of a system call: its reference count is 1
  while it is locked and 0 otherwise, dirty and locked buffers are valid, valid buffers hold a block of disk 1, and a
  clean buffer nobody holds agrees with the disk.
\<close>

definition buf_ok :: "u8 list list \<Rightarrow> buf \<Rightarrow> bool" where
  "buf_ok dk b \<longleftrightarrow>
     length (b_data b) = BSIZE \<and>
     b_refcnt b = (if sl_locked (b_lock b) then 1 else 0) \<and>
     (b_dirty b \<or> sl_locked (b_lock b) \<longrightarrow> b_valid b) \<and>
     (b_valid b \<longrightarrow> b_dev b = 1 \<and> unat (b_blockno b) < length dk) \<and>
     (b_valid b \<and> \<not> b_dirty b \<and> \<not> sl_locked (b_lock b) \<longrightarrow> b_data b = dk ! unat (b_blockno b))"

text \<open>
  No two buffers hold the same block.  Device 0 is excepted: before their first use all
  buffers carry device 0 and block 0, and no code asks for device 0.
\<close>

definition one_buf_per_block :: "buf list \<Rightarrow> bool" where
  "one_buf_per_block bs \<longleftrightarrow>
     (\<forall>i < length bs. \<forall>j < length bs.
        b_dev (bs ! i) \<noteq> 0 \<and> b_dev (bs ! i) = b_dev (bs ! j) \<and>
        b_blockno (bs ! i) = b_blockno (bs ! j) \<longrightarrow> i = j)"

definition bc_inv :: "bcache \<Rightarrow> bool" where
  "bc_inv s \<longleftrightarrow>
     distinct (lru s) \<and> set (lru s) = {..<length (bufs s)} \<and>
     (\<forall>d \<in> set (disk s). length d = BSIZE) \<and>
     (\<forall>i < length (bufs s). buf_ok (disk s) (bufs s ! i)) \<and>
     one_buf_per_block (bufs s)"

lemma bc_invI:
  assumes "distinct (lru s)" "set (lru s) = {..<length (bufs s)}"
    "\<And>d. d \<in> set (disk s) \<Longrightarrow> length d = BSIZE"
    "\<And>i. i < length (bufs s) \<Longrightarrow> buf_ok (disk s) (bufs s ! i)"
    "\<And>i j. i < length (bufs s) \<Longrightarrow> j < length (bufs s) \<Longrightarrow> b_dev (bufs s ! i) \<noteq> 0 \<Longrightarrow>
      b_dev (bufs s ! i) = b_dev (bufs s ! j) \<Longrightarrow> b_blockno (bufs s ! i) = b_blockno (bufs s ! j) \<Longrightarrow>
      i = j"
  shows "bc_inv s"
  unfolding bc_inv_def one_buf_per_block_def
  by (intro conjI ballI allI impI; (elim conjE)?; rule assms; assumption)

lemma bc_inv_perm:
  "bc_inv s \<Longrightarrow> distinct l \<Longrightarrow> set l = set (lru s) \<Longrightarrow> bc_inv (s\<lparr>bc_woken := w, lru := l\<rparr>)"
  by (simp add: bc_inv_def)

lemma bc_inv_buf: "bc_inv s \<Longrightarrow> i < length (bufs s) \<Longrightarrow> buf_ok (disk s) (bufs s ! i)"
  by (simp add: bc_inv_def)

lemma bc_inv_lru: "bc_inv s \<Longrightarrow> i \<in> set (lru s) \<longleftrightarrow> i < length (bufs s)"
  by (simp add: bc_inv_def)

lemma bc_inv_uniq:
  "bc_inv s \<Longrightarrow> i < length (bufs s) \<Longrightarrow> j < length (bufs s) \<Longrightarrow> b_dev (bufs s ! i) \<noteq> 0 \<Longrightarrow>
   b_dev (bufs s ! i) = b_dev (bufs s ! j) \<Longrightarrow> b_blockno (bufs s ! i) = b_blockno (bufs s ! j) \<Longrightarrow> i = j"
  by (simp add: bc_inv_def one_buf_per_block_def)

lemma bc_inv_disk: "bc_inv s \<Longrightarrow> n < length (disk s) \<Longrightarrow> length (disk s ! n) = BSIZE"
  by (simp add: bc_inv_def)

lemma view_cached:
  assumes "bc_inv s" "i < length (bufs s)" "caches s n i"
  shows "view s n = b_data (bufs s ! i)"
proof -
  have "find (caches s n) (lru s) = Some i"
    using assms bc_inv_uniq [OF assms(1)]
    by (intro find_Some_unique) (auto simp: bc_inv_lru caches_def)
  then show ?thesis by (simp add: view_def)
qed

lemma view_uncached:
  assumes "bc_inv s" "\<And>i. i < length (bufs s) \<Longrightarrow> \<not> caches s n i"
  shows "view s n = disk s ! unat n"
proof -
  have "find (caches s n) (lru s) = None"
    using assms by (auto simp: find_None bc_inv_lru)
  then show ?thesis by (simp add: view_def)
qed

lemma view_cases [consumes 1]:
  assumes "bc_inv s"
  obtains (cached) i where "i < length (bufs s)" "caches s n i" "view s n = b_data (bufs s ! i)"
  | (uncached) "\<And>i. i < length (bufs s) \<Longrightarrow> \<not> caches s n i" "view s n = disk s ! unat n"
proof (cases "\<exists>i < length (bufs s). caches s n i")
  case True
  then obtain i where i: "i < length (bufs s)" "caches s n i" by blast
  show ?thesis by (rule cached [OF i view_cached [OF assms i]])
next
  case False
  then have none: "\<not> caches s n i" if "i < length (bufs s)" for i using that by simp
  show ?thesis by (rule uncached [OF none view_uncached [OF assms none]])
qed

lemma length_view: "bc_inv s \<Longrightarrow> unat n < length (disk s) \<Longrightarrow> length (view s n) = BSIZE"
proof -
  assume inv: "bc_inv s" and n: "unat n < length (disk s)"
  from inv show ?thesis
  proof (cases rule: view_cases [of s n])
    case (cached i)
    with bc_inv_buf [OF inv, of i] show ?thesis by (simp add: buf_ok_def)
  next
    case uncached
    with n bc_inv_disk [OF inv] show ?thesis by simp
  qed
qed

text \<open>A block nobody caches dirty or locked has its content on the disk.\<close>

lemma view_clean:
  assumes "bc_inv s"
    "\<And>i. i < length (bufs s) \<Longrightarrow> caches s n i \<Longrightarrow> \<not> b_dirty (bufs s ! i) \<and> \<not> locked s i"
  shows "view s n = disk s ! unat n"
  using assms(1)
proof (cases rule: view_cases [of s n])
  case (cached i)
  then show ?thesis
    using assms(2) [of i] bc_inv_buf [OF assms(1), of i] by (simp add: buf_ok_def caches_def)
qed

section \<open>Replacing one buffer\<close>

text \<open>
  Every operation of the cache changes one buffer.  If the new buffer is in order and caches
  a block no other buffer caches, the invariant is kept, and so is the content of every block
  but its own, provided what it held before is still on the disk.
\<close>

lemma bc_inv_replace:
  assumes "bc_inv s" "i < length (bufs s)" "buf_ok (disk s) b"
    "\<And>j. j < length (bufs s) \<Longrightarrow> j \<noteq> i \<Longrightarrow> b_dev b \<noteq> 0 \<Longrightarrow>
      \<not> (b_dev (bufs s ! j) = b_dev b \<and> b_blockno (bufs s ! j) = b_blockno b)"
  shows "bc_inv (s\<lparr>bufs := (bufs s)[i := b]\<rparr>)"
proof -
  have "buf_ok (disk s) ((bufs s)[i := b] ! j)" if "j < length (bufs s)" for j
    using assms(3) bc_inv_buf [OF assms(1) that] assms(2) by (cases "j = i") auto
  moreover have "k = j" if "k < length (bufs s)" "j < length (bufs s)"
    "b_dev ((bufs s)[i := b] ! k) \<noteq> 0"
    "b_dev ((bufs s)[i := b] ! k) = b_dev ((bufs s)[i := b] ! j)"
    "b_blockno ((bufs s)[i := b] ! k) = b_blockno ((bufs s)[i := b] ! j)" for j k
  proof (cases "k = i \<or> j = i")
    case True
    then show ?thesis using that assms(2) assms(4) [of k] assms(4) [of j] by fastforce
  next
    case False
    then have "i \<noteq> k" "i \<noteq> j" by auto
    then show ?thesis using that bc_inv_uniq [OF assms(1), of k j] by simp
  qed
  ultimately show ?thesis
    using assms(1) by (intro bc_invI) (simp_all add: bc_inv_def)
qed

lemma view_replace:
  assumes inv: "bc_inv s" and inv': "bc_inv (s\<lparr>bufs := (bufs s)[i := b]\<rparr>)" and i: "i < length (bufs s)"
    and old: "caches s m i \<Longrightarrow> \<not> (b_valid b \<and> b_blockno b = m) \<Longrightarrow>
      \<not> b_dirty (bufs s ! i) \<and> \<not> locked s i"
    and new: "b_valid b \<Longrightarrow> b_blockno b = m \<Longrightarrow> b_data b = d m"
    and same: "\<not> (b_valid b \<and> b_blockno b = m) \<Longrightarrow> d m = view s m"
  shows "view (s\<lparr>bufs := (bufs s)[i := b]\<rparr>) m = d m"
proof (cases "b_valid b \<and> b_blockno b = m")
  case True
  let ?s = "s\<lparr>bufs := (bufs s)[i := b]\<rparr>"
  have "b_dev b = 1" using bc_inv_buf [OF inv', of i] i True by (simp add: buf_ok_def)
  then have "caches ?s m i" using True i by (simp add: caches_def)
  with True new i show ?thesis using view_cached [OF inv', of i m] by simp
next
  case False
  let ?s = "s\<lparr>bufs := (bufs s)[i := b]\<rparr>"
  have other: "caches ?s m j \<longleftrightarrow> caches s m j" if "j \<noteq> i" for j
    using that by (simp add: caches_def)
  have noti: "\<not> caches ?s m i" using False i by (auto simp: caches_def)
  from inv show ?thesis
  proof (cases rule: view_cases [of s m])
    case (cached j)
    show ?thesis
    proof (cases "j = i")
      case True
      then have "view s m = disk s ! unat m"
        using old [OF _ False] cached bc_inv_buf [OF inv, of j] by (simp add: buf_ok_def caches_def)
      moreover have "\<not> caches ?s m k" if "k < length (bufs s)" for k
        using that other [of k] noti cached(1,2) True bc_inv_uniq [OF inv, of k j]
        by (cases "k = i") (auto simp: caches_def)
      ultimately show ?thesis
        using view_uncached [OF inv', of m] same [OF False] by simp
    next
      case False
      then show ?thesis
        using cached other [of j] view_cached [OF inv', of j m] same [OF \<open>\<not> (b_valid b \<and> b_blockno b = m)\<close>]
        by simp
    qed
  next
    case uncached
    then have "\<not> caches ?s m k" if "k < length (bufs s)" for k
      using that other [of k] noti by (cases "k = i") auto
    then show ?thesis using view_uncached [OF inv', of m] uncached same [OF False] by simp
  qed
qed

section \<open>What the operations do\<close>

definition lock_of :: "u32 \<Rightarrow> sleeplock" where
  "lock_of pid = \<lparr>sl_locked = True, sl_pid = pid\<rparr>"

lemma acquiresleep_Ok: "acquiresleep ch pid lk = Ok lk' \<longleftrightarrow> \<not> sl_locked lk \<and> lk' = lock_of pid"
  by (cases lk) (auto simp: acquiresleep_def lock_of_def)

lemma lock_buf_Ok: "lock_buf i s = Ok s' \<longleftrightarrow>
    \<not> locked s i \<and> s' = upd_buf i (\<lambda>b. b\<lparr>b_lock := lock_of (bc_pid s)\<rparr>) s"
  by (auto simp: lock_buf_def bnd_eq_Ok acquiresleep_Ok)

lemma upd_buf_twice: "i < length (bufs s) \<Longrightarrow> upd_buf i f (upd_buf i g s) = upd_buf i (\<lambda>b. f (g b)) s"
  by (simp add: upd_buf_def)

lemma upd_buf_sel [simp]:
  "i < length (bufs s) \<Longrightarrow> bufs (upd_buf i f s) ! i = f (bufs s ! i)"
  "length (bufs (upd_buf i f s)) = length (bufs s)" "disk (upd_buf i f s) = disk s"
  "lru (upd_buf i f s) = lru s" "bc_pid (upd_buf i f s) = bc_pid s"
  "bc_woken (upd_buf i f s) = bc_woken s" "bc_writes (upd_buf i f s) = bc_writes s"
  by (simp_all add: upd_buf_def)

lemma upd_buf_const: "upd_buf i f s = s\<lparr>bufs := (bufs s)[i := f (bufs s ! i)]\<rparr>"
  by (simp add: upd_buf_def)

lemma bget_Ok:
  assumes inv: "bc_inv s" and dev: "dev \<noteq> 0" and ok: "bget dev n s = Ok (i, s')"
  shows "i < length (bufs s) \<and> \<not> locked s i \<and>
    (b_dev (bufs s ! i) = dev \<and> b_blockno (bufs s ! i) = n \<and>
       s' = upd_buf i (\<lambda>b. b\<lparr>b_refcnt := 1, b_lock := lock_of (bc_pid s)\<rparr>) s \<or>
     (\<forall>j < length (bufs s). \<not> (b_dev (bufs s ! j) = dev \<and> b_blockno (bufs s ! j) = n)) \<and>
       \<not> b_dirty (bufs s ! i) \<and>
       s' = upd_buf i (\<lambda>b. b\<lparr>b_dev := dev, b_blockno := n, b_valid := False, b_dirty := False,
         b_refcnt := 1, b_lock := lock_of (bc_pid s)\<rparr>) s)"
proof (cases "find (\<lambda>i. b_dev (bufs s ! i) = dev \<and> b_blockno (bufs s ! i) = n) (lru s)")
  case (Some k)
  then have k: "k < length (bufs s)" "b_dev (bufs s ! k) = dev" "b_blockno (bufs s ! k) = n"
    using find_SomeD [OF Some] bc_inv_lru [OF inv] by auto
  from ok Some k(1) have "i = k" "\<not> locked s k"
    and s': "s' = upd_buf k (\<lambda>b. b\<lparr>b_refcnt := b_refcnt b + 1, b_lock := lock_of (bc_pid s)\<rparr>) s"
    by (auto simp: bget_def bnd_eq_Ok lock_buf_Ok upd_buf_twice)
  moreover from this have "b_refcnt (bufs s ! k) = 0"
    using bc_inv_buf [OF inv k(1)] by (simp add: buf_ok_def)
  ultimately show ?thesis using k by (simp add: upd_buf_def)
next
  case None
  then have none: "\<forall>j < length (bufs s). \<not> (b_dev (bufs s ! j) = dev \<and> b_blockno (bufs s ! j) = n)"
    by (simp add: find_None bc_inv_lru [OF inv])
  from ok None obtain k where
    k: "find (\<lambda>i. b_refcnt (bufs s ! i) = 0 \<and> \<not> b_dirty (bufs s ! i)) (rev (lru s)) = Some k"
    by (auto simp: bget_def split: option.splits)
  then have kk: "k < length (bufs s)" "\<not> b_dirty (bufs s ! k)"
    using find_SomeD [OF k] bc_inv_lru [OF inv] by auto
  from ok None k kk(1) show ?thesis
    using none kk by (auto simp: bget_def bnd_eq_Ok lock_buf_Ok upd_buf_twice)
qed

lemma bget_None_free:
  assumes "bc_inv s" "\<And>i. i < length (bufs s) \<Longrightarrow> b_dev (bufs s ! i) = dev \<Longrightarrow>
      b_blockno (bufs s ! i) = n \<Longrightarrow> \<not> locked s i"
    "\<exists>i < length (bufs s). b_refcnt (bufs s ! i) = 0 \<and> \<not> b_dirty (bufs s ! i)"
  shows "is_ok (bget dev n s)"
proof (cases "find (\<lambda>i. b_dev (bufs s ! i) = dev \<and> b_blockno (bufs s ! i) = n) (lru s)")
  case (Some k)
  with find_SomeD [OF Some] bc_inv_lru [OF assms(1)] have k: "k < length (bufs s)"
    "\<not> locked s k" using assms(2) by auto
  let ?s = "upd_buf k (\<lambda>b. b\<lparr>b_refcnt := b_refcnt b + 1\<rparr>) s"
  have "\<exists>s'. lock_buf k ?s = Ok s'" using k by (simp add: lock_buf_Ok)
  with Some show ?thesis by (auto simp: bget_def)
next
  case None
  obtain k where
    k: "find (\<lambda>i. b_refcnt (bufs s ! i) = 0 \<and> \<not> b_dirty (bufs s ! i)) (rev (lru s)) = Some k"
    using assms(3) bc_inv_lru [OF assms(1)]
    by (cases "find (\<lambda>i. b_refcnt (bufs s ! i) = 0 \<and> \<not> b_dirty (bufs s ! i)) (rev (lru s))")
      (auto simp: find_None)
  then have kk: "k < length (bufs s)" "b_refcnt (bufs s ! k) = 0"
    using find_SomeD [OF k] bc_inv_lru [OF assms(1)] by auto
  then have "\<not> locked s k" using bc_inv_buf [OF assms(1) kk(1)] by (auto simp: buf_ok_def)
  let ?s = "upd_buf k (\<lambda>b. b\<lparr>b_dev := dev, b_blockno := n, b_valid := False,
    b_dirty := False, b_refcnt := 1\<rparr>) s"
  have "\<exists>s'. lock_buf k ?s = Ok s'" using kk \<open>\<not> locked s k\<close> by (simp add: lock_buf_Ok)
  with None k show ?thesis by (auto simp: bget_def)
qed

text \<open>
  \<open>bread\<close> returns a locked buffer that holds the current content of the block; nothing
  but that buffer changes, and no block's content does.
\<close>

definition holds :: "buf \<Rightarrow> u32 \<Rightarrow> u8 list \<Rightarrow> bool" where
  "holds b n d \<longleftrightarrow> b_valid b \<and> b_dev b = 1 \<and> b_blockno b = n \<and> sl_locked (b_lock b) \<and>
     b_refcnt b = 1 \<and> b_data b = d"

definition dirty_block :: "bcache \<Rightarrow> u32 \<Rightarrow> bool" where
  "dirty_block s n \<longleftrightarrow> (\<exists>j < length (bufs s). caches s n j \<and> b_dirty (bufs s ! j))"

lemma no_other_buffer:
  assumes "bc_inv s" "i < length (bufs s)" "b_dev (bufs s ! i) = 1" "b_blockno (bufs s ! i) = n"
    "j < length (bufs s)" "j \<noteq> i"
  shows "\<not> (b_dev (bufs s ! j) = 1 \<and> b_blockno (bufs s ! j) = n)"
  using bc_inv_uniq [OF assms(1,2,5)] assms(3,4,6) by auto

lemma dirty_block_cached:
  assumes "bc_inv s" "i < length (bufs s)" "caches s n i"
  shows "dirty_block s n \<longleftrightarrow> b_dirty (bufs s ! i)"
proof -
  have "j = i" if "j < length (bufs s)" "caches s n j" for j
    using no_other_buffer [OF assms(1,2), of n j] that assms(3) by (auto simp: caches_def)
  then show ?thesis using assms(2,3) unfolding dirty_block_def by metis
qed

lemma bread_buffer:
  assumes inv: "bc_inv s" and ok: "bread 1 n s = Ok (i, s')"
  obtains b where "s' = s\<lparr>bufs := (bufs s)[i := b]\<rparr>" "i < length (bufs s)" "\<not> locked s i"
    "holds b n (view s n)" "unat n < length (disk s)" "b_dirty b \<longleftrightarrow> dirty_block s n"
    "\<And>j. j < length (bufs s) \<Longrightarrow> j \<noteq> i \<Longrightarrow> \<not> (b_dev (bufs s ! j) = 1 \<and> b_blockno (bufs s ! j) = n)"
    "caches s n i \<or> \<not> b_dirty (bufs s ! i)"
proof -
  from ok obtain s1 where bg: "bget 1 n s = Ok (i, s1)"
    and rd: "(if \<not> b_valid (bufs s1 ! i) then bnd (iderw i s1) (\<lambda>s. Ok (i, s)) else Ok (i, s1)) = Ok (i, s')"
    by (auto simp: bread_def bnd_eq_Ok split: if_splits)
  have i: "i < length (bufs s)" and ul: "\<not> locked s i" using bget_Ok [OF inv _ bg] by simp_all
  have ob: "buf_ok (disk s) (bufs s ! i)" using bc_inv_buf [OF inv i] .
  consider (hit) "b_dev (bufs s ! i) = 1" "b_blockno (bufs s ! i) = n" "b_valid (bufs s ! i)"
      "s1 = upd_buf i (\<lambda>b. b\<lparr>b_refcnt := 1, b_lock := lock_of (bc_pid s)\<rparr>) s"
    | (stale) "b_dev (bufs s ! i) = 1" "b_blockno (bufs s ! i) = n" "\<not> b_valid (bufs s ! i)"
      "s1 = upd_buf i (\<lambda>b. b\<lparr>b_refcnt := 1, b_lock := lock_of (bc_pid s)\<rparr>) s"
    | (miss) "\<forall>j < length (bufs s). \<not> (b_dev (bufs s ! j) = 1 \<and> b_blockno (bufs s ! j) = n)"
      "\<not> b_dirty (bufs s ! i)"
      "s1 = upd_buf i (\<lambda>b. b\<lparr>b_dev := 1, b_blockno := n, b_valid := False, b_dirty := False,
         b_refcnt := 1, b_lock := lock_of (bc_pid s)\<rparr>) s"
    using bget_Ok [OF inv _ bg] by auto
  then show ?thesis
  proof cases
    case hit
    then have c: "caches s n i" by (simp add: caches_def)
    have "b_dirty (bufs s ! i) \<longleftrightarrow> dirty_block s n"
      using dirty_block_cached [OF inv i c] by simp
    moreover have "unat n < length (disk s)" using ob hit by (simp add: buf_ok_def)
    moreover have "s' = s1" using rd hit i by simp
    ultimately show ?thesis
      using that [of "(bufs s ! i)\<lparr>b_refcnt := 1, b_lock := lock_of (bc_pid s)\<rparr>"] hit i ul c
        view_cached [OF inv i c] no_other_buffer [OF inv i hit(1,2)]
      by (simp add: upd_buf_def holds_def lock_of_def)
  next
    case stale
    have none: "\<not> caches s n j" if "j < length (bufs s)" for j
      using that stale(3) no_other_buffer [OF inv i stale(1,2) that]
      by (cases "j = i") (auto simp: caches_def)
    have nd: "\<not> b_dirty (bufs s ! i)" using ob stale by (simp add: buf_ok_def)
    have ndb: "\<not> dirty_block s n" using none by (auto simp: dirty_block_def)
    from rd have len: "unat n < length (disk s)"
      and s': "s' = upd_buf i (\<lambda>b. b\<lparr>b_refcnt := 1, b_lock := lock_of (bc_pid s),
        b_data := disk s ! unat n, b_valid := True\<rparr>) s"
      using stale i nd by (auto simp: iderw_def Let_def bnd_eq_Ok upd_buf_twice split: if_splits)
    then show ?thesis
      using that [of "(bufs s ! i)\<lparr>b_refcnt := 1, b_lock := lock_of (bc_pid s),
        b_data := disk s ! unat n, b_valid := True\<rparr>"] stale i ul nd ndb
        view_uncached [OF inv none] no_other_buffer [OF inv i stale(1,2)]
      by (simp add: upd_buf_def holds_def lock_of_def)
  next
    case miss
    have none: "\<not> caches s n j" if "j < length (bufs s)" for j
      using that miss by (auto simp: caches_def)
    have ndb: "\<not> dirty_block s n" using none by (auto simp: dirty_block_def)
    from rd have len: "unat n < length (disk s)"
      and s': "s' = upd_buf i (\<lambda>b. b\<lparr>b_dev := 1, b_blockno := n, b_dirty := False,
        b_refcnt := 1, b_lock := lock_of (bc_pid s), b_data := disk s ! unat n, b_valid := True\<rparr>) s"
      using miss i by (auto simp: iderw_def Let_def bnd_eq_Ok upd_buf_twice split: if_splits)
    then show ?thesis
      using that [of "(bufs s ! i)\<lparr>b_dev := 1, b_blockno := n, b_dirty := False,
        b_refcnt := 1, b_lock := lock_of (bc_pid s), b_data := disk s ! unat n, b_valid := True\<rparr>"] miss i ul ndb
        view_uncached [OF inv none]
      by (simp add: upd_buf_def holds_def lock_of_def)
  qed
qed

lemma buf_ok_holds:
  "holds b n d \<Longrightarrow> length d = BSIZE \<Longrightarrow> unat n < length dk \<Longrightarrow> buf_ok dk b"
  by (simp add: holds_def buf_ok_def)

lemma bread_spec:
  assumes inv: "bc_inv s" and ok: "bread 1 n s = Ok (i, s')"
  shows "bc_inv s'" "view s' = view s" "holds (bufs s' ! i) n (view s n)"
    "i < length (bufs s')" "unat n < length (disk s)"
    "\<And>m. dirty_block s' m = dirty_block s m"
    "s' = s\<lparr>bufs := (bufs s)[i := bufs s' ! i]\<rparr>" "\<not> locked s i"
    "b_dirty (bufs s' ! i) \<longleftrightarrow> dirty_block s n"
proof -
  obtain b where s': "s' = s\<lparr>bufs := (bufs s)[i := b]\<rparr>" and i: "i < length (bufs s)"
    and ul: "\<not> locked s i" and h: "holds b n (view s n)" and n: "unat n < length (disk s)"
    and d: "b_dirty b \<longleftrightarrow> dirty_block s n"
    and u: "\<And>j. j < length (bufs s) \<Longrightarrow> j \<noteq> i \<Longrightarrow>
      \<not> (b_dev (bufs s ! j) = 1 \<and> b_blockno (bufs s ! j) = n)"
    and cl: "caches s n i \<or> \<not> b_dirty (bufs s ! i)"
    using bread_buffer [OF inv ok] by metis
  have bok: "buf_ok (disk s) b" using h length_view [OF inv n] n by (rule buf_ok_holds)
  have bn: "b_valid b" "b_dev b = 1" "b_blockno b = n" "b_data b = view s n"
    using h by (simp_all add: holds_def)
  show inv': "bc_inv s'"
    unfolding s' using bn u by (intro bc_inv_replace [OF inv i bok]) simp
  have old: "\<not> b_dirty (bufs s ! i) \<and> \<not> locked s i"
    if "caches s m i" "\<not> (b_valid b \<and> b_blockno b = m)" for m
    using that cl ul bn by (auto simp: caches_def)
  show "view s' = view s"
  proof
    fix m
    show "view s' m = view s m"
      unfolding s' by (rule view_replace [OF inv _ i, where d = "view s"])
        (use inv' s' old bn in auto)
  qed
  show "holds (bufs s' ! i) n (view s n)" "i < length (bufs s')" using h i s' by simp_all
  show "unat n < length (disk s)" by (rule n)
  show "s' = s\<lparr>bufs := (bufs s)[i := bufs s' ! i]\<rparr>" using s' i by simp
  show "\<not> locked s i" by (rule ul)
  show "b_dirty (bufs s' ! i) \<longleftrightarrow> dirty_block s n" using s' i d by simp
  show "dirty_block s' m = dirty_block s m" for m
  proof (cases "m = n")
    case True
    have "caches s' n i" using s' i bn by (simp add: caches_def)
    then show ?thesis
      using dirty_block_cached [OF inv', of i n] s' i d True by simp
  next
    case False
    have *: "caches s' m j \<and> b_dirty (bufs s' ! j) \<longleftrightarrow> caches s m j \<and> b_dirty (bufs s ! j)"
      if "j < length (bufs s)" for j
      using that s' i bn False cl by (cases "j = i") (auto simp: caches_def)
    then show ?thesis unfolding dirty_block_def by (simp add: s') (metis s')
  qed
qed

text \<open>\<open>bread\<close> succeeds on every block of the disk that is not locked, as long as one buffer is free.\<close>

definition free_buf :: "bcache \<Rightarrow> bool" where
  "free_buf s \<longleftrightarrow> (\<exists>i < length (bufs s). b_refcnt (bufs s ! i) = 0 \<and> \<not> b_dirty (bufs s ! i))"

lemma bread_is_ok:
  assumes inv: "bc_inv s" and n: "unat n < length (disk s)" and f: "free_buf s"
    and ul: "\<And>i. i < length (bufs s) \<Longrightarrow> b_dev (bufs s ! i) = 1 \<Longrightarrow>
      b_blockno (bufs s ! i) = n \<Longrightarrow> \<not> locked s i"
  shows "is_ok (bread 1 n s)"
proof -
  have "is_ok (bget 1 n s)"
    by (rule bget_None_free [OF inv _ f [unfolded free_buf_def]]) (rule ul)
  then obtain i s1 where bg: "bget 1 n s = Ok (i, s1)"
    by (auto simp: is_ok_def)
  have i: "i < length (bufs s)" using bget_Ok [OF inv _ bg] by simp
  have b1: "b_dev (bufs s1 ! i) = 1" "b_blockno (bufs s1 ! i) = n" "sl_locked (b_lock (bufs s1 ! i))"
    "disk s1 = disk s"
    using bget_Ok [OF inv _ bg] i by (auto simp: lock_of_def)
  show ?thesis
  proof (cases "b_valid (bufs s1 ! i)")
    case True
    with bg show ?thesis by (simp add: bread_def)
  next
    case False
    then have "\<exists>s2. iderw i s1 = Ok s2" using b1 n by (simp add: iderw_def Let_def holdingsleep_def)
    with bg False show ?thesis by (auto simp: bread_def)
  qed
qed

text \<open>Writing the bytes of a held buffer changes the content of its block, and of no other.\<close>

lemma set_data_spec:
  assumes inv: "bc_inv s" and i: "i < length (bufs s)" and h: "holds (bufs s ! i) n d"
    and len: "length d' = BSIZE"
  shows "bc_inv (set_data i d' s)" "view (set_data i d' s) = (view s)(n := d')"
    "holds (bufs (set_data i d' s) ! i) n d'"
    "\<And>m. dirty_block (set_data i d' s) m = dirty_block s m"
proof -
  let ?b = "(bufs s ! i)\<lparr>b_data := d'\<rparr>"
  have s': "set_data i d' s = s\<lparr>bufs := (bufs s)[i := ?b]\<rparr>"
    by (simp add: set_data_def upd_buf_def)
  have n: "unat n < length (disk s)" using bc_inv_buf [OF inv i] h by (simp add: buf_ok_def holds_def)
  have hb: "holds ?b n d'" using h by (simp add: holds_def)
  have bn: "b_dev (bufs s ! i) = 1" "b_blockno (bufs s ! i) = n" "b_valid (bufs s ! i)"
    using h by (simp_all add: holds_def)
  show inv': "bc_inv (set_data i d' s)"
    unfolding s' using no_other_buffer [OF inv i bn(1,2)] bn
    by (intro bc_inv_replace [OF inv i buf_ok_holds [OF hb len n]]) simp
  show "view (set_data i d' s) = (view s)(n := d')"
  proof
    fix m
    show "view (set_data i d' s) m = ((view s)(n := d')) m"
      unfolding s' by (rule view_replace [OF inv _ i]) (use inv' s' bn in \<open>auto simp: caches_def\<close>)
  qed
  show "holds (bufs (set_data i d' s) ! i) n d'" using hb i by (simp add: s')
  have "caches (set_data i d' s) m j \<and> b_dirty (bufs (set_data i d' s) ! j) \<longleftrightarrow>
      caches s m j \<and> b_dirty (bufs s ! j)" for j m
    using i by (cases "j = i") (auto simp: s' caches_def)
  then show "dirty_block (set_data i d' s) m = dirty_block s m" for m
    by (simp add: dirty_block_def s')
qed

text \<open>
  Releasing a buffer that is dirty, or agrees with the disk, keeps every block's content, and
  moves the buffer to the front of the list.
\<close>

lemma brelse_spec:
  assumes inv: "bc_inv s" and i: "i < length (bufs s)" and h: "holds (bufs s ! i) n d"
    and cl: "b_dirty (bufs s ! i) \<or> d = disk s ! unat n"
  obtains s' where "brelse i s = Ok s'" "bc_inv s'" "view s' = view s"
    "\<And>m. dirty_block s' m = dirty_block s m" "disk s' = disk s" "bc_writes s' = bc_writes s"
    "bc_pid s' = bc_pid s" "lru s' = i # remove1 i (lru s)" "\<not> locked s' i"
    "bufs s' = (bufs s)[i := bufs s' ! i]" "b_dirty (bufs s' ! i) = b_dirty (bufs s ! i)"
    "b_blockno (bufs s' ! i) = b_blockno (bufs s ! i)" "b_refcnt (bufs s' ! i) = 0"
proof -
  let ?b = "(bufs s ! i)\<lparr>b_lock := releasesleep (b_lock (bufs s ! i)), b_refcnt := 0\<rparr>"
  let ?s1 = "s\<lparr>bufs := (bufs s)[i := ?b]\<rparr>"
  let ?s' = "?s1\<lparr>bc_woken := bc_woken s @ [ChBuf i], lru := i # remove1 i (lru s)\<rparr>"
  have bn: "b_dev (bufs s ! i) = 1" "b_blockno (bufs s ! i) = n" "b_valid (bufs s ! i)"
    "sl_locked (b_lock (bufs s ! i))" "b_refcnt (bufs s ! i) = 1" "b_data (bufs s ! i) = d"
    using h by (simp_all add: holds_def)
  have ok: "brelse i s = Ok ?s'"
    using bn i by (simp add: brelse_def holdingsleep_def Let_def upd_buf_def)
  have bok: "buf_ok (disk s) ?b"
    using bc_inv_buf [OF inv i] bn cl by (auto simp: buf_ok_def releasesleep_def)
  have inv1: "bc_inv ?s1"
    using no_other_buffer [OF inv i bn(1,2)] bn by (intro bc_inv_replace [OF inv i bok]) simp
  have view1: "view ?s1 m = view s m" for m
    by (rule view_replace [OF inv inv1 i, where d = "view s"])
      (use bn i view_cached [OF inv i, of m] in \<open>auto simp: caches_def\<close>)
  have il: "i \<in> set (lru s)" using inv i by (simp add: bc_inv_lru)
  have lset: "set (i # remove1 i (lru s)) = set (lru s)" "distinct (i # remove1 i (lru s))"
    using inv il by (auto simp: bc_inv_def)
  have inv': "bc_inv ?s'"
    by (rule bc_inv_perm [OF inv1]) (use lset in simp_all)
  have "view ?s' m = view ?s1 m" for m
  proof -
    have "caches ?s' m = caches ?s1 m" by (simp add: caches_def fun_eq_iff)
    then show ?thesis
      using inv' inv1 view_cached [OF inv', of _ m] view_uncached [OF inv', of m]
      by (cases rule: view_cases [OF inv1, of m]) auto
  qed
  then have "view ?s' = view s" using view1 by (simp add: fun_eq_iff)
  moreover have "caches ?s' m j \<and> b_dirty (bufs ?s' ! j) \<longleftrightarrow> caches s m j \<and> b_dirty (bufs s ! j)" for j m
    using i by (cases "j = i") (auto simp: caches_def)
  then have "dirty_block ?s' m = dirty_block s m" for m
    by (simp add: dirty_block_def)
  ultimately show ?thesis
    using that [OF ok inv'] i by (simp add: releasesleep_def)
qed

text \<open>\<open>bwrite\<close> puts the bytes of a held buffer on the disk and leaves the buffer clean.\<close>

lemma bwrite_spec:
  assumes inv: "bc_inv s" and i: "i < length (bufs s)" and h: "holds (bufs s ! i) n d"
  obtains s' where "bwrite i s = Ok s'" "bc_inv s'" "view s' = view s"
    "\<And>m. dirty_block s' m \<longleftrightarrow> dirty_block s m \<and> m \<noteq> n"
    "s' = s\<lparr>bufs := (bufs s)[i := (bufs s ! i)\<lparr>b_dirty := False\<rparr>],
       disk := (disk s)[unat n := d], bc_writes := bc_writes s @ [(unat n, d)]\<rparr>"
proof -
  let ?b = "(bufs s ! i)\<lparr>b_dirty := False\<rparr>"
  let ?s' = "s\<lparr>bufs := (bufs s)[i := ?b], disk := (disk s)[unat n := d],
    bc_writes := bc_writes s @ [(unat n, d)]\<rparr>"
  have bn: "b_dev (bufs s ! i) = 1" "b_blockno (bufs s ! i) = n" "b_valid (bufs s ! i)"
    "sl_locked (b_lock (bufs s ! i))" "b_refcnt (bufs s ! i) = 1" "b_data (bufs s ! i) = d"
    using h by (simp_all add: holds_def)
  have bok: "buf_ok (disk s) (bufs s ! i)" by (rule bc_inv_buf [OF inv i])
  then have n: "unat n < length (disk s)" and len: "length d = BSIZE"
    using bn by (auto simp: buf_ok_def)
  have eq: "(bufs s ! i)\<lparr>b_dirty := False, b_valid := True\<rparr> = ?b"
    using bn(3) by (cases "bufs s ! i") simp
  have ok: "bwrite i s = Ok ?s'"
    using bn i n by (simp add: bwrite_def iderw_def holdingsleep_def Let_def upd_buf_def eq)
  have other: "b_dev (bufs s ! j) = 1 \<Longrightarrow> b_blockno (bufs s ! j) \<noteq> n"
    if "j < length (bufs s)" "j \<noteq> i" for j
    using no_other_buffer [OF inv i bn(1,2) that] by simp
  have inv': "bc_inv ?s'"
  proof (rule bc_invI)
    show "distinct (lru ?s')" "set (lru ?s') = {..<length (bufs ?s')}"
      using inv by (simp_all add: bc_inv_def)
    show "length x = BSIZE" if "x \<in> set (disk ?s')" for x
      using that inv len set_update_subset_insert [of "disk s" "unat n" d] by (auto simp: bc_inv_def)
    show "buf_ok (disk ?s') (bufs ?s' ! j)" if "j < length (bufs ?s')" for j
    proof (cases "j = i")
      case True
      with bok bn i n show ?thesis by (simp add: buf_ok_def)
    next
      case False
      have "unat (b_blockno (bufs s ! j)) \<noteq> unat n" if "b_dev (bufs s ! j) = 1"
        using other [of j] that \<open>j < length (bufs ?s')\<close> False by (simp add: word_unat_eq_iff)
      then show ?thesis
        using bc_inv_buf [OF inv, of j] that False by (auto simp: buf_ok_def)
    qed
    show "k = j" if "k < length (bufs ?s')" "j < length (bufs ?s')" "b_dev (bufs ?s' ! k) \<noteq> 0"
      "b_dev (bufs ?s' ! k) = b_dev (bufs ?s' ! j)"
      "b_blockno (bufs ?s' ! k) = b_blockno (bufs ?s' ! j)" for k j
    proof -
      have "b_dev (bufs ?s' ! l) = b_dev (bufs s ! l)" "b_blockno (bufs ?s' ! l) = b_blockno (bufs s ! l)"
        for l using i by (cases "l = i"; simp)+
      then show ?thesis using that bc_inv_uniq [OF inv, of k j] by simp
    qed
  qed
  have c: "caches ?s' m = caches s m" for m
    using i by (auto simp: caches_def fun_eq_iff nth_list_update)
  have data: "b_data (bufs ?s' ! j) = b_data (bufs s ! j)" for j
    using i by (cases "j = i") auto
  have "view ?s' m = view s m" for m
    using inv
  proof (cases rule: view_cases [of s m])
    case (cached j)
    then show ?thesis using view_cached [OF inv', of j m] c data by simp
  next
    case uncached
    have "m \<noteq> n" using uncached(1) [OF i] bn by (auto simp: caches_def)
    then have "unat m \<noteq> unat n" by (simp add: word_unat_eq_iff)
    then show ?thesis using uncached view_uncached [OF inv', of m] c by simp
  qed
  moreover have "dirty_block ?s' m \<longleftrightarrow> dirty_block s m \<and> m \<noteq> n" for m
  proof -
    have ci: "caches s m i \<longleftrightarrow> m = n" using bn by (auto simp: caches_def)
    have cj: "\<not> caches s n j" if "j < length (bufs s)" "j \<noteq> i" for j
      using other [OF that] by (auto simp: caches_def)
    have "(caches s m j \<and> b_dirty (bufs ?s' ! j)) \<longleftrightarrow> (caches s m j \<and> b_dirty (bufs s ! j) \<and> m \<noteq> n)"
      if "j < length (bufs s)" for j
      using i ci cj [OF that] by (cases "j = i") auto
    then show ?thesis unfolding dirty_block_def c by auto
  qed
  ultimately show ?thesis using that [OF ok inv'] by (simp add: fun_eq_iff)
qed

text \<open>A cold cache, as \<open>binit\<close> leaves it, satisfies the invariant and shows the disk itself.\<close>

definition cold :: "u8 list list \<Rightarrow> u32 \<Rightarrow> bcache" where
  "cold dk pid = binit \<lparr>bufs = replicate NBUF zero_buf, lru = [], disk = dk, bc_pid = pid,
     bc_woken = [], bc_writes = []\<rparr>"

lemma fold_Cons_rev: "fold (\<lambda>i l. i # l) xs ys = rev xs @ ys"
  by (induction xs arbitrary: ys) auto

lemma cold_inv:
  assumes "\<forall>d \<in> set dk. length d = BSIZE"
  shows "bc_inv (cold dk pid)" "view (cold dk pid) n = dk ! unat n" "\<not> dirty_block (cold dk pid) n"
proof -
  show inv: "bc_inv (cold dk pid)"
    by (rule bc_invI) (use assms in \<open>auto simp: cold_def binit_def fold_Cons_rev zero_buf_def
      buf_ok_def initsleeplock_def\<close>)
  have none: "\<not> caches (cold dk pid) n i" if "i < length (bufs (cold dk pid))" for i n
    using that by (simp add: cold_def binit_def caches_def zero_buf_def)
  show "view (cold dk pid) n = dk ! unat n"
    using view_uncached [OF inv none] by (simp add: cold_def binit_def)
  show "\<not> dirty_block (cold dk pid) n" using none by (auto simp: dirty_block_def)
qed

section \<open>The cache as a block store\<close>

definition held_map :: "bcache \<Rightarrow> nat \<Rightarrow> u32 option" where
  "held_map s = (\<lambda>i. if i < length (bufs s) \<and> locked s i then Some (b_blockno (bufs s ! i)) else None)"

definition abs_bc :: "bcache \<Rightarrow> astore" where
  "abs_bc s = \<lparr>a_view = view s, a_dirty = {m. dirty_block s m}, a_held = held_map s,
     a_disk = disk s, a_writes = bc_writes s, a_bufs = length (bufs s)\<rparr>"

abbreviation buf_data :: "bcache \<Rightarrow> nat \<Rightarrow> u8 list" where
  "buf_data s i \<equiv> b_data (bufs s ! i)"

lemma held_map_Some:
  assumes "bc_inv s"
  shows "held_map s i = Some n \<longleftrightarrow> i < length (bufs s) \<and> holds (bufs s ! i) n (b_data (bufs s ! i))"
  using bc_inv_buf [OF assms, of i] by (auto simp: held_map_def holds_def buf_ok_def)

lemma locked_in_ran:
  "i < length (bufs s) \<Longrightarrow> locked s i \<Longrightarrow> b_blockno (bufs s ! i) \<in> ran (held_map s)"
  by (rule ranI [of _ i]) (simp add: held_map_def)

lemma held_view: "bc_inv s \<Longrightarrow> held_map s i = Some n \<Longrightarrow> b_data (bufs s ! i) = view s n"
  using view_cached [of s i n] by (simp add: held_map_Some holds_def caches_def)

lemma held_map_upd:
  assumes "i < length (bufs s)" "bufs s' = (bufs s)[i := b]"
  shows "held_map s' = (held_map s)(i := if sl_locked (b_lock b) then Some (b_blockno b) else None)"
  using assms by (auto simp: held_map_def fun_eq_iff nth_list_update)

lemma bread_abs:
  assumes inv: "bc_inv s" and ok: "bread 1 n s = Ok (i, s')"
  shows "bc_inv s' \<and> abs_bc s' = (abs_bc s)\<lparr>a_held := (a_held (abs_bc s))(i \<mapsto> n)\<rparr> \<and>
    a_held (abs_bc s) i = None \<and> n \<notin> ran (a_held (abs_bc s)) \<and> unat n < length (a_disk (abs_bc s))"
proof -
  note b = bread_spec [OF inv ok]
  have s': "bufs s' = (bufs s)[i := bufs s' ! i]" "disk s' = disk s" "bc_writes s' = bc_writes s"
    and len: "length (bufs s') = length (bufs s)"
    using b(7) by (metis bcache.ext_inject bcache.surjective bcache.update_convs(1) length_list_update)+
  have i: "i < length (bufs s)" using b(4) len by simp
  have hm: "held_map s' = (held_map s)(i \<mapsto> n)"
    using held_map_upd [OF i s'(1)] b(3) by (simp add: holds_def)
  have "held_map s k \<noteq> Some n" for k
  proof
    assume k: "held_map s k = Some n"
    then have kk: "k < length (bufs s)" "locked s k" by (auto simp: held_map_def split: if_splits)
    with b(8) have ki: "k \<noteq> i" by auto
    with k hm inv b(1) have "holds (bufs s' ! k) n (b_data (bufs s' ! k))" "k < length (bufs s')"
      using held_map_Some [OF b(1), of k n] by simp_all
    then show False using no_other_buffer [OF b(1,4), of n k] b(3) ki by (simp add: holds_def)
  qed
  then have "n \<notin> ran (held_map s)" by (auto simp: ran_def)
  moreover have "held_map s i = None" using b(8) by (simp add: held_map_def)
  ultimately show ?thesis
    using b(1,2,5,6) s' len hm by (simp add: abs_bc_def)
qed

text \<open>The buffers in use are at most as many as the dirty and the held blocks.\<close>

lemma in_use_le:
  assumes inv: "bc_inv s"
  shows "card {i. i < length (bufs s) \<and> (b_dirty (bufs s ! i) \<or> locked s i)}
    \<le> card {m. dirty_block s m} + card (dom (held_map s))"
proof -
  let ?D = "{i. i < length (bufs s) \<and> b_dirty (bufs s ! i)}"
  have bn: "caches s (b_blockno (bufs s ! i)) i" if "i \<in> ?D" for i
    using that bc_inv_buf [OF inv, of i] by (auto simp: caches_def buf_ok_def)
  have inj: "inj_on (\<lambda>i. b_blockno (bufs s ! i)) ?D"
    by (rule inj_onI) (use bn bc_inv_uniq [OF inv] in \<open>auto simp: caches_def\<close>)
  have fin: "finite {m. dirty_block s m}"
    by (rule finite_subset [of _ "(\<lambda>i. b_blockno (bufs s ! i)) ` {..<length (bufs s)}"])
      (auto simp: dirty_block_def caches_def)
  have "(\<lambda>i. b_blockno (bufs s ! i)) ` ?D \<subseteq> {m. dirty_block s m}"
    using bn by (auto simp: dirty_block_def)
  then have "card ?D \<le> card {m. dirty_block s m}"
    using card_inj_on_le [OF inj _ fin] by simp
  moreover have "{i. i < length (bufs s) \<and> (b_dirty (bufs s ! i) \<or> locked s i)} = ?D \<union> dom (held_map s)"
    by (auto simp: held_map_def dom_def)
  moreover have "card (?D \<union> dom (held_map s)) \<le> card ?D + card (dom (held_map s))"
    by (rule card_Un_le)
  ultimately show ?thesis by simp
qed

lemma room_free_buf:
  assumes inv: "bc_inv s" and r: "room 1 (abs_bc s)"
  shows "free_buf s"
proof (rule ccontr)
  assume "\<not> free_buf s"
  then have "b_dirty (bufs s ! i) \<or> locked s i" if "i < length (bufs s)" for i
    using that bc_inv_buf [OF inv that] by (auto simp: free_buf_def buf_ok_def)
  then have "{i. i < length (bufs s) \<and> (b_dirty (bufs s ! i) \<or> locked s i)} = {..<length (bufs s)}"
    by auto
  with in_use_le [OF inv] r show False by (simp add: room_def abs_bc_def)
qed

lemma bread_room_ok:
  assumes inv: "bc_inv s" and n: "unat n < length (a_disk (abs_bc s))"
    and nh: "n \<notin> ran (a_held (abs_bc s))" and r: "room 1 (abs_bc s)"
  shows "\<exists>i s'. bread 1 n s = Ok (i, s')"
proof -
  have "is_ok (bread 1 n s)"
  proof (rule bread_is_ok [OF inv _ room_free_buf [OF inv r]])
    show "unat n < length (disk s)" using n by (simp add: abs_bc_def)
    show "\<not> locked s i" if "i < length (bufs s)" "b_blockno (bufs s ! i) = n" for i
      using nh that locked_in_ran [of i s] by (auto simp: abs_bc_def)
  qed
  then show ?thesis by (auto simp: is_ok_def)
qed

lemma set_data_abs:
  assumes inv: "bc_inv s" and h: "a_held (abs_bc s) i = Some n" and len: "length d = BSIZE"
  shows "bc_inv (set_data i d s) \<and>
    abs_bc (set_data i d s) = (abs_bc s)\<lparr>a_view := (a_view (abs_bc s))(n := d)\<rparr>"
proof -
  have i: "i < length (bufs s)" and hb: "holds (bufs s ! i) n (b_data (bufs s ! i))"
    using h held_map_Some [OF inv, of i n] by (simp_all add: abs_bc_def)
  note sd = set_data_spec [OF inv i hb len]
  have "held_map (set_data i d s) = held_map s"
    using i by (auto simp: held_map_def set_data_def upd_buf_def fun_eq_iff nth_list_update)
  then show ?thesis using sd by (simp add: abs_bc_def) (simp add: set_data_def)
qed

lemma brelse_abs:
  assumes inv: "bc_inv s" and h: "a_held (abs_bc s) i = Some n"
    and c: "n \<in> a_dirty (abs_bc s) \<or> a_view (abs_bc s) n = a_disk (abs_bc s) ! unat n"
  shows "\<exists>s'. brelse i s = Ok s' \<and> bc_inv s' \<and>
    abs_bc s' = (abs_bc s)\<lparr>a_held := (a_held (abs_bc s))(i := None)\<rparr>"
proof -
  have hm: "held_map s i = Some n" using h by (simp add: abs_bc_def)
  then have i: "i < length (bufs s)" and hb: "holds (bufs s ! i) n (view s n)"
    using held_map_Some [OF inv, of i n] held_view [OF inv hm] by simp_all
  have "b_dirty (bufs s ! i) \<or> view s n = disk s ! unat n"
    using c dirty_block_cached [OF inv i, of n] hb by (auto simp: abs_bc_def holds_def caches_def)
  then obtain s' where s': "brelse i s = Ok s'" "bc_inv s'" "view s' = view s"
    "\<And>m. dirty_block s' m = dirty_block s m" "disk s' = disk s" "bc_writes s' = bc_writes s"
    "\<not> locked s' i" "bufs s' = (bufs s)[i := bufs s' ! i]"
    using brelse_spec [OF inv i hb] by metis
  have "held_map s' = (held_map s)(i := None)"
    using held_map_upd [OF i s'(8)] s'(7) by simp
  moreover have "length (bufs s') = length (bufs s)" using s'(8) by (metis length_list_update)
  moreover have "{m. dirty_block s' m} = {m. dirty_block s m}" using s'(4) by simp
  ultimately show ?thesis using s'(1-3,5,6) by (simp add: abs_bc_def)
qed

lemma bwrite_abs:
  assumes inv: "bc_inv s" and h: "a_held (abs_bc s) i = Some n"
  shows "\<exists>s'. bwrite i s = Ok s' \<and> bc_inv s' \<and>
    abs_bc s' = (abs_bc s)\<lparr>a_dirty := a_dirty (abs_bc s) - {n},
      a_disk := (a_disk (abs_bc s))[unat n := a_view (abs_bc s) n],
      a_writes := a_writes (abs_bc s) @ [(unat n, a_view (abs_bc s) n)]\<rparr>"
proof -
  have hm: "held_map s i = Some n" using h by (simp add: abs_bc_def)
  then have i: "i < length (bufs s)" and hb: "holds (bufs s ! i) n (view s n)"
    using held_map_Some [OF inv, of i n] held_view [OF inv hm] by simp_all
  obtain s' where s': "bwrite i s = Ok s'" "bc_inv s'" "view s' = view s"
    "\<And>m. dirty_block s' m \<longleftrightarrow> dirty_block s m \<and> m \<noteq> n"
    "s' = s\<lparr>bufs := (bufs s)[i := (bufs s ! i)\<lparr>b_dirty := False\<rparr>],
       disk := (disk s)[unat n := view s n], bc_writes := bc_writes s @ [(unat n, view s n)]\<rparr>"
    using bwrite_spec [OF inv i hb] by metis
  have "held_map s' = held_map s"
    using i s'(5) by (auto simp: held_map_def fun_eq_iff nth_list_update)
  moreover have "{m. dirty_block s' m} = {m. dirty_block s m} - {n}" using s'(4) by auto
  moreover have "disk s' = (disk s)[unat n := view s n]" "bc_writes s' = bc_writes s @ [(unat n, view s n)]"
    "length (bufs s') = length (bufs s)" using s'(5) by simp_all
  ultimately show ?thesis using s'(1-3) by (simp add: abs_bc_def)
qed

text \<open>Marking a held buffer dirty, which is how the log pins it.\<close>

lemma mark_dirty_abs:
  assumes inv: "bc_inv s" and h: "a_held (abs_bc s) i = Some n"
  shows "bc_inv (upd_buf i (\<lambda>b. b\<lparr>b_dirty := True\<rparr>) s) \<and>
    abs_bc (upd_buf i (\<lambda>b. b\<lparr>b_dirty := True\<rparr>) s) = (abs_bc s)\<lparr>a_dirty := insert n (a_dirty (abs_bc s))\<rparr>"
proof -
  let ?b = "(bufs s ! i)\<lparr>b_dirty := True\<rparr>"
  let ?s = "s\<lparr>bufs := (bufs s)[i := ?b]\<rparr>"
  have eq: "upd_buf i (\<lambda>b. b\<lparr>b_dirty := True\<rparr>) s = ?s" by (simp add: upd_buf_def)
  have hm: "held_map s i = Some n" using h by (simp add: abs_bc_def)
  then have i: "i < length (bufs s)" and hb: "holds (bufs s ! i) n (view s n)"
    using held_map_Some [OF inv, of i n] held_view [OF inv hm] by simp_all
  have bn: "b_dev (bufs s ! i) = 1" "b_blockno (bufs s ! i) = n" "b_valid (bufs s ! i)"
    "b_data (bufs s ! i) = view s n" using hb by (simp_all add: holds_def)
  have bok: "buf_ok (disk s) ?b" using bc_inv_buf [OF inv i] hb by (simp add: buf_ok_def holds_def)
  have inv': "bc_inv ?s"
    using no_other_buffer [OF inv i bn(1,2)] bn by (intro bc_inv_replace [OF inv i bok]) simp
  have v: "view ?s m = view s m" for m
    by (rule view_replace [OF inv inv' i, where d = "view s"]) (use bn in \<open>auto simp: caches_def\<close>)
  have db: "dirty_block ?s m \<longleftrightarrow> m = n \<or> dirty_block s m" for m
  proof -
    have c: "caches ?s m = caches s m" using i by (auto simp: caches_def fun_eq_iff nth_list_update)
    have ci: "caches s m i \<longleftrightarrow> m = n" using bn by (auto simp: caches_def)
    have d: "b_dirty (bufs ?s ! j) \<longleftrightarrow> j = i \<or> b_dirty (bufs s ! j)" for j
      using i by (cases "j = i") auto
    have len: "length (bufs ?s) = length (bufs s)" by simp
    have "dirty_block ?s m \<longleftrightarrow> (\<exists>j < length (bufs s). caches s m j \<and> (j = i \<or> b_dirty (bufs s ! j)))"
      unfolding dirty_block_def c d len ..
    also have "\<dots> \<longleftrightarrow> caches s m i \<or> dirty_block s m"
      unfolding dirty_block_def using i by metis
    finally show ?thesis unfolding ci .
  qed
  have "held_map ?s = held_map s"
    using i by (auto simp: held_map_def fun_eq_iff nth_list_update)
  moreover have "view ?s = view s" by (rule ext) (rule v)
  moreover have "{m. dirty_block ?s m} = insert n {m. dirty_block s m}" using db by auto
  ultimately show ?thesis using inv' unfolding eq abs_bc_def by simp
qed

lemma inv_woken: "bc_inv (s\<lparr>bc_woken := w\<rparr>) = bc_inv s"
  by (simp add: bc_inv_def)

lemma abs_woken: "abs_bc (s\<lparr>bc_woken := w\<rparr>) = abs_bc s"
proof -
  have c: "caches (s\<lparr>bc_woken := w\<rparr>) = caches s" by (simp add: caches_def fun_eq_iff)
  have "view (s\<lparr>bc_woken := w\<rparr>) = view s" by (rule ext) (simp add: view_def c cong: option.case_cong)
  moreover have "dirty_block (s\<lparr>bc_woken := w\<rparr>) = dirty_block s"
    by (rule ext) (simp add: dirty_block_def c)
  moreover have "held_map (s\<lparr>bc_woken := w\<rparr>) = held_map s"
    by (simp add: held_map_def cong: if_cong)
  ultimately show ?thesis by (simp add: abs_bc_def)
qed

lemma settled_view:
  assumes inv: "bc_inv s" and "n \<notin> ran (held_map s)"
  shows "dirty_block s n \<or> view s n = disk s ! unat n"
proof (cases "dirty_block s n")
  case False
  have "view s n = disk s ! unat n"
  proof (rule view_clean [OF inv])
    fix i assume i: "i < length (bufs s)" "caches s n i"
    then show "\<not> b_dirty (bufs s ! i) \<and> \<not> locked s i"
      using False assms(2) locked_in_ran [of i s] by (auto simp: dirty_block_def caches_def)
  qed
  then show ?thesis ..
qed simp

interpretation bcache: block_cache "bread 1" brelse buf_data set_data bc_inv abs_bc bwrite
proof unfold_locales
  fix s n i s'
  show "bc_inv s \<Longrightarrow> bread 1 n s = Ok (i, s') \<Longrightarrow> bc_inv s' \<and>
      abs_bc s' = (abs_bc s)\<lparr>a_held := (a_held (abs_bc s))(i \<mapsto> n)\<rparr> \<and>
      a_held (abs_bc s) i = None \<and> n \<notin> ran (a_held (abs_bc s)) \<and> unat n < length (a_disk (abs_bc s))"
    by (rule bread_abs)
  show "bc_inv s \<Longrightarrow> unat n < length (a_disk (abs_bc s)) \<Longrightarrow> n \<notin> ran (a_held (abs_bc s)) \<Longrightarrow>
      room 1 (abs_bc s) \<Longrightarrow> \<exists>i s'. bread 1 n s = Ok (i, s')"
    by (rule bread_room_ok)
  show "bc_inv s \<Longrightarrow> a_held (abs_bc s) i = Some n \<Longrightarrow> buf_data s i = a_view (abs_bc s) n"
    by (simp add: abs_bc_def held_view)
  show "bc_inv s \<Longrightarrow> unat n < length (a_disk (abs_bc s)) \<Longrightarrow> n \<notin> ran (a_held (abs_bc s)) \<Longrightarrow>
      n \<in> a_dirty (abs_bc s) \<or> a_view (abs_bc s) n = a_disk (abs_bc s) ! unat n"
    using settled_view [of s n] by (simp add: abs_bc_def)
  show "bc_inv s \<Longrightarrow> unat n < length (a_disk (abs_bc s)) \<Longrightarrow> length (a_view (abs_bc s) n) = BSIZE"
    by (simp add: abs_bc_def length_view)
  show "finite (dom (a_held (abs_bc s)))"
    by (rule finite_subset [of _ "{..<length (bufs s)}"]) (auto simp: abs_bc_def held_map_def split: if_splits)
qed (fact set_data_abs brelse_abs bwrite_abs)+

lemma cold_abs:
  assumes "\<forall>d \<in> set dk. length d = BSIZE"
  shows "abs_bc (cold dk pid) = \<lparr>a_view = (\<lambda>n. dk ! unat n), a_dirty = {}, a_held = Map.empty,
    a_disk = dk, a_writes = [], a_bufs = NBUF\<rparr>"
  using cold_inv [OF assms, of pid]
  by (simp add: abs_bc_def held_map_def fun_eq_iff)
    (simp add: cold_def binit_def zero_buf_def initsleeplock_def)

section \<open>Properties\<close>

text \<open>C39: \<open>bread\<close> hands out a locked buffer with the current content of the block, and changes the content of no block; two holders never have the same block.\<close>

theorem bread_returns_current:
  assumes "bc_inv s" and "bread 1 n s = Ok (i, s')"
  shows "bc_inv s' \<and> sl_locked (b_lock (bufs s' ! i)) \<and> b_data (bufs s' ! i) = view s n \<and>
    view s' = view s \<and> n \<notin> ran (held_map s) \<and> held_map s' = (held_map s)(i \<mapsto> n)"
  using bread_spec [OF assms] bread_abs [OF assms] by (simp add: holds_def abs_bc_def)

theorem bread_returns_current_witness:
  "\<exists>i s'. bread 1 1 (cold [replicate 512 7, replicate 512 9] 3) = Ok (i, s') \<and>
     b_data (bufs s' ! i) = replicate 512 9"
proof -
  let ?s = "cold [replicate 512 7, replicate 512 9] 3"
  have inv: "bc_inv ?s" by (rule cold_inv) simp
  have abs: "abs_bc ?s = \<lparr>a_view = (\<lambda>n. [replicate 512 7, replicate 512 9] ! unat n), a_dirty = {},
      a_held = Map.empty, a_disk = [replicate 512 7, replicate 512 9], a_writes = [], a_bufs = NBUF\<rparr>"
    by (rule cold_abs) simp
  obtain i s' where r: "bread 1 1 ?s = Ok (i, s')"
    using bread_room_ok [OF inv, of 1] abs by (auto simp: room_def)
  have "view ?s 1 = replicate 512 9"
    using cold_inv(2) [of "[replicate 512 7, replicate 512 9]" 3 1] by simp
  with bread_returns_current [OF inv r] r show ?thesis by auto
qed

text \<open>With a buffer to spare, reading a block, writing new bytes through its buffer and releasing it succeeds; the bytes are then on the disk and are what the next \<open>bread\<close> of the block returns, and no other block changes.\<close>

theorem bwrite_then_bread:
  assumes "bc_inv s" "held_map s = Map.empty" "card {m. dirty_block s m} < length (bufs s)"
    "unat n < length (disk s)" "length d = BSIZE"
  shows "\<exists>i s1 s2 s3 j s4. bread 1 n s = Ok (i, s1) \<and> bwrite i (set_data i d s1) = Ok s2 \<and>
    brelse i s2 = Ok s3 \<and> disk s3 = (disk s)[unat n := d] \<and> bread 1 n s3 = Ok (j, s4) \<and>
    b_data (bufs s4 ! j) = d \<and> view s4 = (view s)(n := d)"
proof -
  have r: "room 1 (abs_bc s)" "quiet (abs_bc s)" "unat n < length (a_disk (abs_bc s))"
    using assms by (simp_all add: room_def abs_bc_def)
  obtain i s1 s2 s3 where 1: "bread 1 n s = Ok (i, s1)" "bwrite i (set_data i d s1) = Ok s2"
    "brelse i s2 = Ok s3" "bc_inv s3"
    "abs_bc s3 = (abs_bc s)\<lparr>a_view := (a_view (abs_bc s))(n := d), a_dirty := a_dirty (abs_bc s) - {n},
       a_disk := (a_disk (abs_bc s))[unat n := d],
       a_writes := a_writes (abs_bc s) @ [(unat n, d)]\<rparr>"
    using bcache.modify_write_release [OF assms(1) r(2,1,3), of "\<lambda>_. d"] assms(5) by auto
  have "card (a_dirty (abs_bc s3)) \<le> card (a_dirty (abs_bc s))"
    using 1(5) by (simp add: card_Diff1_le)
  then obtain j s4 where 2: "bread 1 n s3 = Ok (j, s4)"
    using bread_room_ok [OF 1(4), of n] 1(5) r by (auto simp: room_def)
  have "view s3 = (view s)(n := d)" "disk s3 = (disk s)[unat n := d]"
    using 1(5) by (simp_all add: abs_bc_def)
  moreover have "b_data (bufs s4 ! j) = view s3 n" "view s4 = view s3"
    using bread_spec [OF 1(4) 2] by (simp_all add: holds_def)
  ultimately show ?thesis using 1 2 by auto
qed

theorem bwrite_then_bread_witness:
  "\<exists>i s1 s2 s3 j s4. bread 1 1 (cold [replicate 512 7, replicate 512 9] 3) = Ok (i, s1) \<and>
     bwrite i (set_data i (replicate 512 5) s1) = Ok s2 \<and> brelse i s2 = Ok s3 \<and>
     bread 1 1 s3 = Ok (j, s4) \<and> b_data (bufs s4 ! j) = replicate 512 5"
proof -
  let ?s = "cold [replicate 512 7, replicate 512 9] 3"
  have inv: "bc_inv ?s" by (rule cold_inv) simp
  have abs: "abs_bc ?s = \<lparr>a_view = (\<lambda>n. [replicate 512 7, replicate 512 9] ! unat n), a_dirty = {},
      a_held = Map.empty, a_disk = [replicate 512 7, replicate 512 9], a_writes = [], a_bufs = NBUF\<rparr>"
    by (rule cold_abs) simp
  then have "held_map ?s = Map.empty" "card {m. dirty_block ?s m} < length (bufs ?s)"
    "unat (1 :: u32) < length (disk ?s)" by (simp_all add: abs_bc_def)
  from bwrite_then_bread [OF inv this, of "replicate 512 5"] show ?thesis by fastforce
qed

end
