(* ===== verification/Log.thy ===== *)
theory Log
  imports Bio
begin

text \<open>
  The write-ahead log, \<open>log.c\<close>, over the buffer cache, with \<open>readsb\<close> of \<open>fs.c\<close>.

  The state \<open>logst\<close> is \<open>struct log\<close> together with the cache below it.  The on-disk header is a
  block whose first word is \<open>n\<close> and whose next words are the home block numbers.  The lock
  \<open>log.lock\<close> makes its critical sections single steps; \<open>begin_op\<close> that would wait is
  \<open>Sleeps ChLog\<close>.  A header that claims more than \<open>LOGSIZE\<close> blocks overruns \<open>lh.block\<close> in the
  code, and is \<open>Undef\<close> here.

  The main result is crash safety: if the machine stops after any prefix of the disk writes of
  \<open>commit\<close>, then \<open>initlog\<close> at the next boot succeeds and leaves every block outside the log
  either as it was before the transaction or, from the write of the header on, as the
  transaction made it.
\<close>

abbreviation (input) MAXOPBLOCKS :: int where "MAXOPBLOCKS \<equiv> 10"
abbreviation (input) LOGSIZE :: int where "LOGSIZE \<equiv> 30"

section \<open>State\<close>

record superblock =
  sb_size :: u32
  sb_nblocks :: u32
  sb_ninodes :: u32
  sb_nlog :: u32
  sb_logstart :: u32
  sb_inodestart :: u32
  sb_bmapstart :: u32

record logst =
  lbc :: bcache
  log_start :: u32
  log_size :: int
  log_outstanding :: int
  log_committing :: bool
  log_dev :: u32
  lh_n :: int
  lh_block :: "u32 list"

text \<open>The cache operations on the state of the log.\<close>

definition lbread :: "u32 \<Rightarrow> u32 \<Rightarrow> logst \<Rightarrow> (nat \<times> logst) outcome" where
  "lbread dev n s = bnd (bread dev n (lbc s)) (\<lambda>(i, b). Ok (i, s\<lparr>lbc := b\<rparr>))"

definition lbwrite :: "nat \<Rightarrow> logst \<Rightarrow> logst outcome" where
  "lbwrite i s = bnd (bwrite i (lbc s)) (\<lambda>b. Ok (s\<lparr>lbc := b\<rparr>))"

definition lbrelse :: "nat \<Rightarrow> logst \<Rightarrow> logst outcome" where
  "lbrelse i s = bnd (brelse i (lbc s)) (\<lambda>b. Ok (s\<lparr>lbc := b\<rparr>))"

definition lset :: "nat \<Rightarrow> u8 list \<Rightarrow> logst \<Rightarrow> logst" where
  "lset i d s = s\<lparr>lbc := set_data i d (lbc s)\<rparr>"

definition ldata :: "logst \<Rightarrow> nat \<Rightarrow> u8 list" where
  "ldata s i = buf_data (lbc s) i"

definition lwakeup :: "chan \<Rightarrow> logst \<Rightarrow> logst" where
  "lwakeup ch s = s\<lparr>lbc := (lbc s)\<lparr>bc_woken := bc_woken (lbc s) @ [ch]\<rparr>\<rparr>"

section \<open>log.c\<close>

definition sb_of_bytes :: "u8 list \<Rightarrow> superblock" where
  "sb_of_bytes d = \<lparr>sb_size = get32 d 0, sb_nblocks = get32 d 4, sb_ninodes = get32 d 8,
     sb_nlog = get32 d 12, sb_logstart = get32 d 16, sb_inodestart = get32 d 20,
     sb_bmapstart = get32 d 24\<rparr>"

definition readsb :: "u32 \<Rightarrow> logst \<Rightarrow> (superblock \<times> logst) outcome" where
  "readsb dev s = bnd (lbread dev 1 s) (\<lambda>(bp, s).
     let sb = sb_of_bytes (ldata s bp) in bnd (lbrelse bp s) (\<lambda>s. Ok (sb, s)))"

definition install_step :: "nat \<Rightarrow> logst \<Rightarrow> logst outcome" where
  "install_step tail s =
     bnd (lbread (log_dev s) (log_start s + of_nat tail + 1) s) (\<lambda>(lbuf, s).
     bnd (lbread (log_dev s) (lh_block s ! tail) s) (\<lambda>(dbuf, s).
     bnd (lbwrite dbuf (lset dbuf (ldata s lbuf) s)) (\<lambda>s.
     bnd (lbrelse lbuf s) (lbrelse dbuf))))"

definition install_trans :: "logst \<Rightarrow> logst outcome" where
  "install_trans s = for_each install_step [0..<nat (lh_n s)] s"

definition read_head :: "logst \<Rightarrow> logst outcome" where
  "read_head s = bnd (lbread (log_dev s) (log_start s) s) (\<lambda>(bf, s).
     let d = ldata s bf; n = sint (get32 d 0) in
     if n > LOGSIZE then Undef ''read_head: lh.block out of range''
     else lbrelse bf (s\<lparr>lh_n := n,
       lh_block := fold (\<lambda>i bl. bl[i := get32 d (4 + 4 * i)]) [0..<nat n] (lh_block s)\<rparr>))"

definition head_bytes :: "int \<Rightarrow> u32 list \<Rightarrow> u8 list \<Rightarrow> u8 list" where
  "head_bytes n bl d = fold (\<lambda>i d. splice d (4 + 4 * i) (bytes32 (bl ! i))) [0..<nat n]
     (splice d 0 (bytes32 (of_int n)))"

definition write_head :: "logst \<Rightarrow> logst outcome" where
  "write_head s = bnd (lbread (log_dev s) (log_start s) s) (\<lambda>(bf, s).
     bnd (lbwrite bf (lset bf (head_bytes (lh_n s) (lh_block s) (ldata s bf)) s)) (lbrelse bf))"

definition recover_from_log :: "logst \<Rightarrow> logst outcome" where
  "recover_from_log s =
     bnd (read_head s) (\<lambda>s. bnd (install_trans s) (\<lambda>s. write_head (s\<lparr>lh_n := 0\<rparr>)))"

definition initlog :: "u32 \<Rightarrow> logst \<Rightarrow> logst outcome" where
  "initlog dev s =
     (if (4 + 4 * 30 :: nat) \<ge> BSIZE then Panic ''initlog: too big logheader''
      else bnd (readsb dev s) (\<lambda>(sb, s).
        recover_from_log (s\<lparr>log_start := sb_logstart sb, log_size := sint (sb_nlog sb), log_dev := dev\<rparr>)))"

definition begin_op :: "logst \<Rightarrow> logst outcome" where
  "begin_op s =
     (if log_committing s then Sleeps ChLog
      else if lh_n s + (log_outstanding s + 1) * MAXOPBLOCKS > LOGSIZE then Sleeps ChLog
      else Ok (s\<lparr>log_outstanding := log_outstanding s + 1\<rparr>))"

definition write_log_step :: "nat \<Rightarrow> logst \<Rightarrow> logst outcome" where
  "write_log_step tail s =
     bnd (lbread (log_dev s) (log_start s + of_nat tail + 1) s) (\<lambda>(to, s).
     bnd (lbread (log_dev s) (lh_block s ! tail) s) (\<lambda>(from, s).
     bnd (lbwrite to (lset to (ldata s from) s)) (\<lambda>s.
     bnd (lbrelse from s) (lbrelse to))))"

definition write_log :: "logst \<Rightarrow> logst outcome" where
  "write_log s = for_each write_log_step [0..<nat (lh_n s)] s"

definition commit :: "logst \<Rightarrow> logst outcome" where
  "commit s =
     (if lh_n s > 0 then
        bnd (write_log s) (\<lambda>s. bnd (write_head s) (\<lambda>s. bnd (install_trans s) (\<lambda>s.
          write_head (s\<lparr>lh_n := 0\<rparr>))))
      else Ok s)"

definition end_op :: "logst \<Rightarrow> logst outcome" where
  "end_op s =
     (let s = s\<lparr>log_outstanding := log_outstanding s - 1\<rparr> in
      if log_committing s then Panic ''log.committing''
      else if log_outstanding s = 0 then
        bnd (commit (s\<lparr>log_committing := True\<rparr>)) (\<lambda>s. Ok (lwakeup ChLog (s\<lparr>log_committing := False\<rparr>)))
      else Ok (lwakeup ChLog s))"

definition log_write :: "nat \<Rightarrow> logst \<Rightarrow> logst outcome" where
  "log_write b s =
     (if lh_n s \<ge> LOGSIZE \<or> lh_n s \<ge> log_size s - 1 then Panic ''too big a transaction''
      else if log_outstanding s < 1 then Panic ''log_write outside of trans''
      else
        (let bno = b_blockno (bufs (lbc s) ! b);
             i = length (takeWhile (\<lambda>x. x \<noteq> bno) (take (nat (lh_n s)) (lh_block s)));
             s = s\<lparr>lh_block := (lh_block s)[i := bno]\<rparr>;
             s = (if int i = lh_n s then s\<lparr>lh_n := lh_n s + 1\<rparr> else s)
         in Ok (s\<lparr>lbc := upd_buf b (\<lambda>x. x\<lparr>b_dirty := True\<rparr>) (lbc s)\<rparr>)))"

section \<open>The header block\<close>

lemma length_head_bytes [simp]:
  assumes "length d = BSIZE" "n \<le> 30"
  shows "length (head_bytes n bl d) = BSIZE"
proof -
  have "length (fold (\<lambda>i d. splice d (4 + 4 * i) (bytes32 (bl ! i))) [0..<k] d') = BSIZE"
    if "k \<le> 30" "length d' = BSIZE" for k d'
    using that by (induction k) auto
  then show ?thesis using assms by (simp add: head_bytes_def)
qed

lemma get32_head_bytes:
  assumes "length d = BSIZE" "k \<le> 30" "k \<le> length bl"
  shows "get32 (head_bytes (int k) bl d) 0 = of_nat k"
    "i < k \<Longrightarrow> get32 (head_bytes (int k) bl d) (4 + 4 * i) = bl ! i"
proof -
  let ?f = "\<lambda>k d. fold (\<lambda>i d. splice d (4 + 4 * i) (bytes32 (bl ! i))) [0..<k] d"
  have *: "length (?f k d') = BSIZE \<and> get32 (?f k d') 0 = get32 d' 0 \<and>
      (\<forall>i < k. get32 (?f k d') (4 + 4 * i) = bl ! i)"
    if "k \<le> 30" "length d' = BSIZE" for k d'
    using that
  proof (induction k)
    case (Suc k)
    then have IH: "length (?f k d') = BSIZE" "get32 (?f k d') 0 = get32 d' 0"
      "\<forall>i < k. get32 (?f k d') (4 + 4 * i) = bl ! i" by auto
    show ?case
      using IH Suc.prems by (auto simp: less_Suc_eq get32_splice_other)
  qed simp
  have "length (splice d 0 (bytes32 (of_nat k))) = BSIZE" using assms by simp
  from * [OF assms(2) this] assms show "get32 (head_bytes (int k) bl d) 0 = of_nat k"
    "i < k \<Longrightarrow> get32 (head_bytes (int k) bl d) (4 + 4 * i) = bl ! i"
    by (simp_all add: head_bytes_def)
qed

lemma sint_small: "k \<le> 30 \<Longrightarrow> sint (of_nat k :: u32) = int k"
  by (simp add: signed_of_nat signed_take_bit_int_eq_self)

lemma fold_block_update:
  assumes "k \<le> length bl"
  shows "take k (fold (\<lambda>i bl. bl[i := f i]) [0..<k] bl) = map f [0..<k]"
    "length (fold (\<lambda>i bl. bl[i := f i]) [0..<k] bl) = length bl"
proof -
  have len: "length (fold (\<lambda>i bl. bl[i := f i]) [0..<k] bl) = length bl" for k
    by (induction k) auto
  show "length (fold (\<lambda>i bl. bl[i := f i]) [0..<k] bl) = length bl" by (rule len)
  show "take k (fold (\<lambda>i bl. bl[i := f i]) [0..<k] bl) = map f [0..<k]"
    using assms
  proof (induction k)
    case (Suc k)
    then show ?case using len [of k] by (simp add: take_Suc_conv_app_nth)
  qed simp
qed

section \<open>Sequences of block writes\<close>

text \<open>What a list of block writes does to a disk, and to the abstract state of the cache.\<close>

definition apply_writes :: "u8 list list \<Rightarrow> (nat \<times> u8 list) list \<Rightarrow> u8 list list" where
  "apply_writes dk ws = fold (\<lambda>(n, d) dk. dk[n := d]) ws dk"

definition a_write :: "u32 \<times> u8 list \<Rightarrow> astore \<Rightarrow> astore" where
  "a_write w a = (case w of (m, d) \<Rightarrow>
     a\<lparr>a_view := (a_view a)(m := d), a_dirty := a_dirty a - {m},
       a_disk := (a_disk a)[unat m := d], a_writes := a_writes a @ [(unat m, d)]\<rparr>)"

abbreviation to_disk :: "(u32 \<times> u8 list) list \<Rightarrow> (nat \<times> u8 list) list" where
  "to_disk ws \<equiv> map (\<lambda>(m, d). (unat m, d)) ws"

lemma apply_writes_append [simp]: "apply_writes dk (xs @ ys) = apply_writes (apply_writes dk xs) ys"
  by (simp add: apply_writes_def)

lemma length_apply_writes [simp]: "length (apply_writes dk ws) = length dk"
  unfolding apply_writes_def by (induction ws arbitrary: dk) (auto split: prod.splits)

lemma nth_apply_writes:
  "m < length dk \<Longrightarrow>
   apply_writes dk ws ! m = (case map_of (rev ws) m of Some d \<Rightarrow> d | None \<Rightarrow> dk ! m)"
proof (induction ws rule: rev_induct)
  case (snoc w ws)
  have "apply_writes dk (ws @ [w]) = (apply_writes dk ws)[fst w := snd w]"
    by (simp add: apply_writes_def split: prod.splits)
  with snoc show ?case by (cases w) auto
qed (simp add: apply_writes_def)

lemma nth_apply_writes_other:
  "m < length dk \<Longrightarrow> m \<notin> fst ` set ws \<Longrightarrow> apply_writes dk ws ! m = dk ! m"
  using map_of_eq_None_iff [of "rev ws" m] by (simp add: nth_apply_writes)

lemma nth_apply_writes_same:
  assumes "(m, d) \<in> set ws" "m < length dk" "distinct (map fst ws)"
  shows "apply_writes dk ws ! m = d"
  using assms by (simp add: nth_apply_writes rev_map [symmetric])

lemma a_write_sel [simp]:
  "a_held (a_write w a) = a_held a" "a_bufs (a_write w a) = a_bufs a"
  "length (a_disk (a_write w a)) = length (a_disk a)"
  by (auto simp: a_write_def split: prod.splits)

lemma fold_a_write:
  "a_held (fold a_write ws a) = a_held a" "a_bufs (fold a_write ws a) = a_bufs a"
  "a_disk (fold a_write ws a) = apply_writes (a_disk a) (to_disk ws)"
  "a_writes (fold a_write ws a) = a_writes a @ to_disk ws"
  "a_dirty (fold a_write ws a) = a_dirty a - fst ` set ws"
  "m \<notin> fst ` set ws \<Longrightarrow> a_view (fold a_write ws a) m = a_view a m"
  by (induction ws arbitrary: a) (auto simp: a_write_def apply_writes_def split: prod.splits)

lemma fold_a_write_view_same:
  "(m, d) \<in> set ws \<Longrightarrow> distinct (map fst ws) \<Longrightarrow> a_view (fold a_write ws a) m = d"
proof (induction ws arbitrary: a)
  case (Cons w ws)
  show ?case
  proof (cases "w = (m, d)")
    case True
    then have "m \<notin> fst ` set ws" using Cons.prems(2) by (auto simp: image_iff)
    then show ?thesis using True by (simp add: fold_a_write(6)) (simp add: a_write_def)
  next
    case False
    then show ?thesis using Cons by auto
  qed
qed simp

lemma room_a_write: "finite (a_dirty a) \<Longrightarrow> room k a \<Longrightarrow> room k (a_write w a)"
  using card_mono [of "a_dirty a" "a_dirty a - {fst w}"]
  by (auto simp: room_def a_write_def split: prod.splits)

section \<open>The loops of the log\<close>

abbreviation labs :: "logst \<Rightarrow> astore" where "labs s \<equiv> abs_bc (lbc s)"

text \<open>Nothing is held, two more blocks can be read, and the disk has \<open>N\<close> blocks.\<close>

definition at_rest :: "nat \<Rightarrow> bcache \<Rightarrow> bool" where
  "at_rest N b \<longleftrightarrow> bc_inv b \<and> quiet (abs_bc b) \<and> room 2 (abs_bc b) \<and> length (disk b) = N"

lemma finite_dirty: "finite (a_dirty (abs_bc b))"
  by (rule finite_subset [of _ "(\<lambda>i. b_blockno (bufs b ! i)) ` {..<length (bufs b)}"])
    (auto simp: dirty_block_def caches_def abs_bc_def)

lemma at_rest_a_write:
  assumes "at_rest N b" "bc_inv b'" "abs_bc b' = a_write w (abs_bc b)"
  shows "at_rest N b'"
proof -
  have "a_disk (abs_bc b) = disk b" "a_disk (abs_bc b') = disk b'" by (simp_all add: abs_bc_def)
  then have "length (disk b') = length (disk b)" using assms(3) a_write_sel(3) by metis
  then show ?thesis
    using assms room_a_write [OF finite_dirty, of 2 b w] by (simp add: at_rest_def)
qed

text \<open>
  Both loops copy, for each index, one block onto another and write it; when no block is both
  a source and a destination, the copies do not disturb each other.
\<close>

lemma for_each_copy:
  assumes step: "\<And>t b. t \<in> set ts \<Longrightarrow> at_rest N b \<Longrightarrow>
      \<exists>b'. f t (s\<lparr>lbc := b\<rparr>) = Ok (s\<lparr>lbc := b'\<rparr>) \<and> bc_inv b' \<and>
        abs_bc b' = a_write (dst t, a_view (abs_bc b) (src t)) (abs_bc b)"
    and rest: "at_rest N b" and disj: "dst ` set ts \<inter> src ` set ts = {}"
  shows "\<exists>b'. for_each f ts (s\<lparr>lbc := b\<rparr>) = Ok (s\<lparr>lbc := b'\<rparr>) \<and> at_rest N b' \<and>
    abs_bc b' = fold a_write (map (\<lambda>t. (dst t, a_view (abs_bc b) (src t))) ts) (abs_bc b)"
  using assms
proof (induction ts arbitrary: b)
  case Nil
  then show ?case by auto
next
  case (Cons t ts)
  obtain b1 where b1: "f t (s\<lparr>lbc := b\<rparr>) = Ok (s\<lparr>lbc := b1\<rparr>)" "bc_inv b1"
    "abs_bc b1 = a_write (dst t, a_view (abs_bc b) (src t)) (abs_bc b)"
    using Cons.prems(1) [of t b] Cons.prems(2) by auto
  have rest1: "at_rest N b1" by (rule at_rest_a_write [OF Cons.prems(2) b1(2,3)])
  have same: "a_view (abs_bc b1) (src u) = a_view (abs_bc b) (src u)" if "u \<in> set ts" for u
  proof -
    have "src u \<noteq> dst t" using that Cons.prems(3) by (auto simp: image_iff)
    then show ?thesis using b1(3) by (simp add: a_write_def)
  qed
  have "\<exists>b'. for_each f ts (s\<lparr>lbc := b1\<rparr>) = Ok (s\<lparr>lbc := b'\<rparr>) \<and> at_rest N b' \<and>
      abs_bc b' = fold a_write (map (\<lambda>t. (dst t, a_view (abs_bc b1) (src t))) ts) (abs_bc b1)"
    by (rule Cons.IH) (use Cons.prems rest1 in auto)
  then obtain b2 where b2: "for_each f ts (s\<lparr>lbc := b1\<rparr>) = Ok (s\<lparr>lbc := b2\<rparr>)" "at_rest N b2"
    "abs_bc b2 = fold a_write (map (\<lambda>t. (dst t, a_view (abs_bc b1) (src t))) ts) (abs_bc b1)" by blast
  have "map (\<lambda>t. (dst t, a_view (abs_bc b1) (src t))) ts =
      map (\<lambda>t. (dst t, a_view (abs_bc b) (src t))) ts" using same by simp
  then have "abs_bc b2 = fold a_write (map (\<lambda>t. (dst t, a_view (abs_bc b) (src t))) (t # ts)) (abs_bc b)"
    using b2(3) b1(3) by (simp only: list.map fold.simps comp_apply)
  with b1(1) b2(1,2) show ?case by auto
qed

text \<open>One turn of each loop.\<close>

lemma lift_bread: "bread 1 n (lbc s) = Ok (i, b) \<Longrightarrow> lbread 1 n s = Ok (i, s\<lparr>lbc := b\<rparr>)"
  by (simp add: lbread_def)

lemma two_reads:
  assumes "at_rest N b" "unat n < N" "unat m < N" "n \<noteq> m"
  obtains i b1 j b2 where "bread 1 n b = Ok (i, b1)" "bread 1 m b1 = Ok (j, b2)" "bc_inv b2"
    "i \<noteq> j" "abs_bc b2 = (abs_bc b)\<lparr>a_held := [i \<mapsto> n, j \<mapsto> m]\<rparr>"
    "n \<in> a_dirty (abs_bc b) \<or> a_view (abs_bc b) n = a_disk (abs_bc b) ! unat n"
    "m \<in> a_dirty (abs_bc b) \<or> a_view (abs_bc b) m = a_disk (abs_bc b) ! unat m"
proof -
  have r: "bc_inv b" "quiet (abs_bc b)" "room 2 (abs_bc b)" "length (a_disk (abs_bc b)) = N"
    using assms(1) by (simp_all add: at_rest_def) (simp add: abs_bc_def)
  obtain i b1 j b2 where 1: "bread 1 n b = Ok (i, b1)" "bread 1 m b1 = Ok (j, b2)"
    using bcache.rd_two_ok [OF r(1) _ _ assms(4) r(2,3)] assms(2,3) r(4) by auto
  note a1 = bread_abs [OF r(1) 1(1)]
  then have a2: "bc_inv b2 \<and> abs_bc b2 = (abs_bc b1)\<lparr>a_held := (a_held (abs_bc b1))(j \<mapsto> m)\<rparr> \<and>
    a_held (abs_bc b1) j = None" using bread_abs [OF _ 1(2)] by blast
  have "i \<noteq> j" using a1 a2 by auto
  moreover have "abs_bc b2 = (abs_bc b)\<lparr>a_held := [i \<mapsto> n, j \<mapsto> m]\<rparr>" using a1 a2 r(2) by simp
  moreover have "n \<in> a_dirty (abs_bc b) \<or> a_view (abs_bc b) n = a_disk (abs_bc b) ! unat n"
    "m \<in> a_dirty (abs_bc b) \<or> a_view (abs_bc b) m = a_disk (abs_bc b) ! unat m"
    using bcache.settled [OF r(1)] assms(2,3) r(2,4) by auto
  ultimately show ?thesis using that 1 a2 by blast
qed

lemma write_log_step_abs:
  assumes rest: "at_rest N b" and dev: "log_dev s = 1"
    and n: "unat (log_start s + of_nat t + 1) < N" "unat (lh_block s ! t) < N"
    and ne: "log_start s + of_nat t + 1 \<noteq> lh_block s ! t"
  shows "\<exists>b'. write_log_step t (s\<lparr>lbc := b\<rparr>) = Ok (s\<lparr>lbc := b'\<rparr>) \<and> bc_inv b' \<and>
    abs_bc b' = a_write (log_start s + of_nat t + 1, a_view (abs_bc b) (lh_block s ! t)) (abs_bc b)"
proof -
  let ?n = "log_start s + of_nat t + 1" and ?m = "lh_block s ! t"
  from rest n ne obtain i b1 j b2 where r: "bread 1 ?n b = Ok (i, b1)" "bread 1 ?m b1 = Ok (j, b2)"
    "bc_inv b2" "i \<noteq> j" "abs_bc b2 = (abs_bc b)\<lparr>a_held := [i \<mapsto> ?n, j \<mapsto> ?m]\<rparr>"
    "?m \<in> a_dirty (abs_bc b) \<or> a_view (abs_bc b) ?m = a_disk (abs_bc b) ! unat ?m"
    by (rule two_reads) blast
  have N: "length (a_disk (abs_bc b)) = N" and q: "quiet (abs_bc b)"
    using rest by (simp_all add: at_rest_def abs_bc_def)
  have h: "a_held (abs_bc b2) = [j \<mapsto> ?m, i \<mapsto> ?n]" using r(4,5) by (auto simp: fun_eq_iff)
  have "\<exists>b3 b4 b5. bwrite i (set_data i (buf_data b2 j) b2) = Ok b3 \<and> brelse j b3 = Ok b4 \<and>
      brelse i b4 = Ok b5 \<and> bc_inv b5 \<and>
      abs_bc b5 = (abs_bc b2)\<lparr>a_view := (a_view (abs_bc b2))(?n := a_view (abs_bc b2) ?m),
        a_dirty := a_dirty (abs_bc b2) - {?n}, a_held := Map.empty,
        a_disk := (a_disk (abs_bc b2))[unat ?n := a_view (abs_bc b2) ?m],
        a_writes := a_writes (abs_bc b2) @ [(unat ?n, a_view (abs_bc b2) ?m)]\<rparr>"
    by (rule bcache.copy_write_release [OF r(3) _ _ h]) (use r n N ne in auto)
  then show ?thesis
    using r(1,2,5) dev q
    by (auto simp: write_log_step_def lbread_def lbwrite_def lbrelse_def lset_def ldata_def a_write_def)
qed

lemma install_step_abs:
  assumes rest: "at_rest N b" and dev: "log_dev s = 1"
    and n: "unat (log_start s + of_nat t + 1) < N" "unat (lh_block s ! t) < N"
    and ne: "log_start s + of_nat t + 1 \<noteq> lh_block s ! t"
  shows "\<exists>b'. install_step t (s\<lparr>lbc := b\<rparr>) = Ok (s\<lparr>lbc := b'\<rparr>) \<and> bc_inv b' \<and>
    abs_bc b' = a_write (lh_block s ! t, a_view (abs_bc b) (log_start s + of_nat t + 1)) (abs_bc b)"
proof -
  let ?n = "log_start s + of_nat t + 1" and ?m = "lh_block s ! t"
  from rest n ne obtain i b1 j b2 where r: "bread 1 ?n b = Ok (i, b1)" "bread 1 ?m b1 = Ok (j, b2)"
    "bc_inv b2" "i \<noteq> j" "abs_bc b2 = (abs_bc b)\<lparr>a_held := [i \<mapsto> ?n, j \<mapsto> ?m]\<rparr>"
    "?n \<in> a_dirty (abs_bc b) \<or> a_view (abs_bc b) ?n = a_disk (abs_bc b) ! unat ?n"
    by (rule two_reads) blast
  have N: "length (a_disk (abs_bc b)) = N" and q: "quiet (abs_bc b)"
    using rest by (simp_all add: at_rest_def abs_bc_def)
  have h: "a_held (abs_bc b2) = [i \<mapsto> ?n, j \<mapsto> ?m]" using r(5) by simp
  have "\<exists>b3 b4 b5. bwrite j (set_data j (buf_data b2 i) b2) = Ok b3 \<and> brelse i b3 = Ok b4 \<and>
      brelse j b4 = Ok b5 \<and> bc_inv b5 \<and>
      abs_bc b5 = (abs_bc b2)\<lparr>a_view := (a_view (abs_bc b2))(?m := a_view (abs_bc b2) ?n),
        a_dirty := a_dirty (abs_bc b2) - {?m}, a_held := Map.empty,
        a_disk := (a_disk (abs_bc b2))[unat ?m := a_view (abs_bc b2) ?n],
        a_writes := a_writes (abs_bc b2) @ [(unat ?m, a_view (abs_bc b2) ?n)]\<rparr>"
    by (rule bcache.copy_write_release [OF r(3) _ _ h]) (use r n N ne in auto)
  then show ?thesis
    using r(1,2,5) dev q
    by (auto simp: install_step_def lbread_def lbwrite_def lbrelse_def lset_def ldata_def a_write_def)
qed

lemma write_head_abs:
  assumes rest: "at_rest N (lbc s)" and dev: "log_dev s = 1" and n: "unat (log_start s) < N"
    and k: "lh_n s \<le> 30"
  shows "\<exists>b'. write_head s = Ok (s\<lparr>lbc := b'\<rparr>) \<and> bc_inv b' \<and> abs_bc b' =
    a_write (log_start s, head_bytes (lh_n s) (lh_block s) (a_view (labs s) (log_start s))) (labs s)"
proof -
  have r: "bc_inv (lbc s)" "quiet (labs s)" "room 1 (labs s)" "unat (log_start s) < length (a_disk (labs s))"
    using rest n by (simp_all add: at_rest_def room_def) (simp add: abs_bc_def)
  show ?thesis
    using bcache.modify_write_release [OF r, of "head_bytes (lh_n s) (lh_block s)"] k dev
    by (auto simp: write_head_def lbread_def lbwrite_def lbrelse_def lset_def ldata_def a_write_def)
qed

section \<open>The state between system calls\<close>

abbreviation logged :: "logst \<Rightarrow> u32 list" where
  "logged s \<equiv> take (nat (lh_n s)) (lh_block s)"

abbreviation slot :: "logst \<Rightarrow> nat \<Rightarrow> u32" where
  "slot s t \<equiv> log_start s + of_nat t + 1"

text \<open>Block \<open>m\<close> lies in the log area of the disk.\<close>

definition in_log :: "logst \<Rightarrow> u32 \<Rightarrow> bool" where
  "in_log s m \<longleftrightarrow> unat (log_start s) \<le> unat m \<and> unat m < unat (log_start s) + nat (log_size s)"

text \<open>
  The layout of the disk, the in-memory header, and the header on the disk: it holds no
  transaction, and exactly the logged blocks are dirty in the cache.
\<close>

definition log_ok :: "logst \<Rightarrow> bool" where
  "log_ok s \<longleftrightarrow>
     log_dev s = 1 \<and> length (lh_block s) = 30 \<and> 0 \<le> lh_n s \<and> lh_n s \<le> LOGSIZE \<and> lh_n s < log_size s \<and>
     1 < unat (log_start s) \<and>
     unat (log_start s) + nat (log_size s) \<le> length (disk (lbc s)) \<and>
     length (disk (lbc s)) < 4294967296 \<and>
     distinct (logged s) \<and>
     (\<forall>m \<in> set (logged s). \<not> in_log s m \<and> m \<noteq> 1 \<and> unat m < length (disk (lbc s))) \<and>
     a_dirty (labs s) = set (logged s) \<and>
     get32 (disk (lbc s) ! unat (log_start s)) 0 = 0 \<and>
     sb_logstart (sb_of_bytes (disk (lbc s) ! 1)) = log_start s \<and>
     sint (sb_nlog (sb_of_bytes (disk (lbc s) ! 1))) = log_size s"

definition log_writes :: "logst \<Rightarrow> (u32 \<times> u8 list) list" where
  "log_writes s = map (\<lambda>t. (slot s t, a_view (labs s) (lh_block s ! t))) [0..<nat (lh_n s)]"

definition home_writes :: "logst \<Rightarrow> (u32 \<times> u8 list) list" where
  "home_writes s = map (\<lambda>t. (lh_block s ! t, a_view (labs s) (lh_block s ! t))) [0..<nat (lh_n s)]"

definition full_head :: "logst \<Rightarrow> u8 list" where
  "full_head s = head_bytes (lh_n s) (lh_block s) (a_view (labs s) (log_start s))"

definition commit_writes :: "logst \<Rightarrow> (u32 \<times> u8 list) list" where
  "commit_writes s = (if lh_n s > 0 then log_writes s @ [(log_start s, full_head s)] @ home_writes s @
     [(log_start s, head_bytes 0 (lh_block s) (full_head s))] else [])"

lemma unat_slot:
  assumes "log_ok s" "t < nat (lh_n s)"
  shows "unat (slot s t) = unat (log_start s) + t + 1"
proof -
  have "unat (log_start s + of_nat (t + 1)) = unat (log_start s) + (t + 1)"
  proof (rule unat_plus_of_nat)
    have "lh_n s < log_size s" "unat (log_start s) + nat (log_size s) \<le> length (disk (lbc s))"
      "length (disk (lbc s)) < 4294967296" using assms(1) by (simp_all add: log_ok_def)
    then show "unat (log_start s) + (t + 1) < 4294967296" using assms(2) by auto
  qed
  then show ?thesis by (simp add: algebra_simps)
qed

lemma log_okD:
  assumes "log_ok s"
  shows "log_dev s = 1" "length (lh_block s) = 30" "0 \<le> lh_n s" "lh_n s \<le> 30"
    "unat (log_start s) < length (disk (lbc s))" "\<not> in_log s 1"
    "\<And>t. t < nat (lh_n s) \<Longrightarrow> in_log s (slot s t)" "in_log s (log_start s)"
    "\<And>t. t < nat (lh_n s) \<Longrightarrow> unat (slot s t) < length (disk (lbc s))"
    "\<And>t. t < nat (lh_n s) \<Longrightarrow> unat (lh_block s ! t) < length (disk (lbc s))"
    "\<And>t. t < nat (lh_n s) \<Longrightarrow> \<not> in_log s (lh_block s ! t)"
    "\<And>t. t < nat (lh_n s) \<Longrightarrow> slot s t \<noteq> log_start s"
proof -
  have len: "length (lh_block s) = 30" "lh_n s \<le> 30" using assms by (simp_all add: log_ok_def)
  have b: "lh_block s ! t \<in> set (logged s)" if "t < nat (lh_n s)" for t
    using nth_mem [of t "logged s"] that len by simp
  show "unat (lh_block s ! t) < length (disk (lbc s))" "\<not> in_log s (lh_block s ! t)"
    if "t < nat (lh_n s)" for t using b [OF that] assms by (simp_all add: log_ok_def)
  show "slot s t \<noteq> log_start s" if "t < nat (lh_n s)" for t
  proof
    assume "slot s t = log_start s"
    then have "unat (slot s t) = unat (log_start s)" by (rule arg_cong)
    then show False unfolding unat_slot [OF assms that] by simp
  qed
  show "in_log s (slot s t)" "unat (slot s t) < length (disk (lbc s))" if "t < nat (lh_n s)" for t
  proof -
    have "lh_n s < log_size s" "unat (log_start s) + nat (log_size s) \<le> length (disk (lbc s))"
      using assms by (simp_all add: log_ok_def)
    then show "in_log s (slot s t)" "unat (slot s t) < length (disk (lbc s))"
      using that unat_slot [OF assms that] by (auto simp: in_log_def)
  qed
  show "log_dev s = 1" "length (lh_block s) = 30" "0 \<le> lh_n s" "lh_n s \<le> 30" "\<not> in_log s 1"
    using assms by (simp_all add: log_ok_def in_log_def)
  show "unat (log_start s) < length (disk (lbc s))" "in_log s (log_start s)"
  proof -
    have "0 \<le> lh_n s" "lh_n s < log_size s" "unat (log_start s) + nat (log_size s) \<le> length (disk (lbc s))"
      using assms by (simp_all add: log_ok_def)
    then show "unat (log_start s) < length (disk (lbc s))" "in_log s (log_start s)"
      by (auto simp: in_log_def)
  qed
qed

lemma start_ne_slot: "log_ok s \<Longrightarrow> t < nat (lh_n s) \<Longrightarrow> unat (log_start s) \<noteq> unat (slot s t)"
  unfolding unat_slot by simp

lemma inj_slot: "log_ok s \<Longrightarrow> inj_on (slot s) {0..<nat (lh_n s)}"
proof (rule inj_onI)
  fix t u assume ok: "log_ok s" and "t \<in> {0..<nat (lh_n s)}" "u \<in> {0..<nat (lh_n s)}"
    and eq: "slot s t = slot s u"
  then have tu: "t < nat (lh_n s)" "u < nat (lh_n s)" by simp_all
  have "unat (slot s t) = unat (slot s u)" by (rule arg_cong [OF eq])
  then show "t = u" unfolding unat_slot [OF ok tu(1)] unat_slot [OF ok tu(2)] by simp
qed

section \<open>commit\<close>

lemma map_nth_take: "n \<le> length xs \<Longrightarrow> map (\<lambda>t. xs ! t) [0..<n] = take n xs"
  by (rule nth_equalityI) auto

lemma fst_log_writes: "map fst (log_writes s) = map (slot s) [0..<nat (lh_n s)]"
  by (simp add: log_writes_def)

lemma fst_home_writes: "log_ok s \<Longrightarrow> map fst (home_writes s) = logged s"
  using map_nth_take [of "nat (lh_n s)" "lh_block s"] log_okD(2,4) [of s]
  by (simp add: home_writes_def comp_def)

lemma distinct_log_writes: "log_ok s \<Longrightarrow> distinct (map fst (log_writes s))"
  using inj_slot [of s] by (simp add: fst_log_writes distinct_map)

lemma slots_disjoint:
  assumes "log_ok s"
  shows "slot s ` {0..<nat (lh_n s)} \<inter> (\<lambda>t. lh_block s ! t) ` {0..<nat (lh_n s)} = {}"
  using log_okD(7,11) [OF assms] by fastforce

lemma write_log_abs:
  assumes rest: "at_rest N (lbc s)" and ok: "log_ok s"
  shows "\<exists>b'. write_log s = Ok (s\<lparr>lbc := b'\<rparr>) \<and> at_rest N b' \<and>
    abs_bc b' = fold a_write (log_writes s) (labs s)"
proof -
  have N: "N = length (disk (lbc s))" using rest by (simp add: at_rest_def)
  have "\<exists>b'. for_each write_log_step [0..<nat (lh_n s)] (s\<lparr>lbc := lbc s\<rparr>) = Ok (s\<lparr>lbc := b'\<rparr>) \<and>
      at_rest N b' \<and> abs_bc b' = fold a_write (map (\<lambda>t. (slot s t, a_view (labs s) (lh_block s ! t)))
        [0..<nat (lh_n s)]) (labs s)"
  proof (rule for_each_copy [OF _ rest])
    fix t b assume "t \<in> set [0..<nat (lh_n s)]" and b: "at_rest N b"
    then have t: "t < nat (lh_n s)" by simp
    have "slot s t \<noteq> lh_block s ! t" using log_okD(7,11) [OF ok t] by metis
    then show "\<exists>b'. write_log_step t (s\<lparr>lbc := b\<rparr>) = Ok (s\<lparr>lbc := b'\<rparr>) \<and> bc_inv b' \<and>
        abs_bc b' = a_write (slot s t, a_view (abs_bc b) (lh_block s ! t)) (abs_bc b)"
      by (rule write_log_step_abs [OF b log_okD(1) [OF ok] log_okD(9) [OF ok t, folded N]
        log_okD(10) [OF ok t, folded N]])
  qed (use slots_disjoint [OF ok] in auto)
  then show ?thesis by (simp add: write_log_def log_writes_def)
qed

lemma install_trans_abs:
  assumes rest: "at_rest N b" and ok: "log_ok s" and N: "N = length (disk (lbc s))"
    and v: "\<And>t. t < nat (lh_n s) \<Longrightarrow> a_view (abs_bc b) (slot s t) = d t"
  shows "\<exists>b'. install_trans (s\<lparr>lbc := b\<rparr>) = Ok (s\<lparr>lbc := b'\<rparr>) \<and> at_rest N b' \<and>
    abs_bc b' = fold a_write (map (\<lambda>t. (lh_block s ! t, d t)) [0..<nat (lh_n s)]) (abs_bc b)"
proof -
  have "\<exists>b'. for_each install_step [0..<nat (lh_n s)] (s\<lparr>lbc := b\<rparr>) = Ok (s\<lparr>lbc := b'\<rparr>) \<and>
      at_rest N b' \<and> abs_bc b' = fold a_write (map (\<lambda>t. (lh_block s ! t, a_view (abs_bc b) (slot s t)))
        [0..<nat (lh_n s)]) (abs_bc b)"
  proof (rule for_each_copy [OF _ rest])
    fix t b assume "t \<in> set [0..<nat (lh_n s)]" and b: "at_rest N b"
    then have t: "t < nat (lh_n s)" by simp
    have "slot s t \<noteq> lh_block s ! t" using log_okD(7,11) [OF ok t] by metis
    then show "\<exists>b'. install_step t (s\<lparr>lbc := b\<rparr>) = Ok (s\<lparr>lbc := b'\<rparr>) \<and> bc_inv b' \<and>
        abs_bc b' = a_write (lh_block s ! t, a_view (abs_bc b) (slot s t)) (abs_bc b)"
      by (rule install_step_abs [OF b log_okD(1) [OF ok] log_okD(9) [OF ok t, folded N]
        log_okD(10) [OF ok t, folded N]])
  qed (use slots_disjoint [OF ok] in auto)
  moreover have "map (\<lambda>t. (lh_block s ! t, a_view (abs_bc b) (slot s t))) [0..<nat (lh_n s)] =
      map (\<lambda>t. (lh_block s ! t, d t)) [0..<nat (lh_n s)]" using v by simp
  ultimately show ?thesis by (simp add: install_trans_def)
qed

lemma commit_abs:
  assumes rest: "at_rest N (lbc s)" and ok: "log_ok s"
  shows "\<exists>b'. commit s = Ok (s\<lparr>lbc := b', lh_n := 0\<rparr>) \<and> at_rest N b' \<and>
    abs_bc b' = fold a_write (commit_writes s) (labs s)"
proof (cases "lh_n s > 0")
  case False
  then have z: "lh_n s = 0" using log_okD(3) [OF ok] by simp
  then have "s = s\<lparr>lbc := lbc s, lh_n := 0\<rparr>" by (cases s) simp
  with z rest show ?thesis by (intro exI [of _ "lbc s"]) (simp add: commit_def commit_writes_def)
next
  case True
  have N: "N = length (disk (lbc s))" using rest by (simp add: at_rest_def)
  have st: "unat (log_start s) < N" using log_okD(5) [OF ok] N by simp
  obtain b1 where 1: "write_log s = Ok (s\<lparr>lbc := b1\<rparr>)" "at_rest N b1"
    "abs_bc b1 = fold a_write (log_writes s) (labs s)" using write_log_abs [OF rest ok] by blast
  have v1: "a_view (abs_bc b1) (log_start s) = a_view (labs s) (log_start s)"
    using 1(3) log_okD(12) [OF ok] by (auto simp: log_writes_def intro!: fold_a_write(6))
  obtain b2 where 2: "write_head (s\<lparr>lbc := b1\<rparr>) = Ok (s\<lparr>lbc := b2\<rparr>)" "bc_inv b2"
    "abs_bc b2 = a_write (log_start s, full_head s) (abs_bc b1)"
    using write_head_abs [of N "s\<lparr>lbc := b1\<rparr>"] 1(2) st log_okD(1,4) [OF ok] v1
    by (auto simp: full_head_def)
  have rest2: "at_rest N b2" by (rule at_rest_a_write [OF 1(2) 2(2,3)])
  have v2: "a_view (abs_bc b2) (slot s t) = a_view (labs s) (lh_block s ! t)" if t: "t < nat (lh_n s)" for t
  proof -
    have "a_view (abs_bc b1) (slot s t) = a_view (labs s) (lh_block s ! t)"
      unfolding 1(3) by (rule fold_a_write_view_same [OF _ distinct_log_writes [OF ok]])
        (use t in \<open>auto simp: log_writes_def\<close>)
    then show ?thesis using 2(3) log_okD(12) [OF ok t] by (simp add: a_write_def)
  qed
  obtain b3 where 3: "install_trans (s\<lparr>lbc := b2\<rparr>) = Ok (s\<lparr>lbc := b3\<rparr>)" "at_rest N b3"
    "abs_bc b3 = fold a_write (home_writes s) (abs_bc b2)"
    using install_trans_abs [OF rest2 ok N v2] by (auto simp: home_writes_def)
  have "log_start s \<notin> fst ` set (home_writes s)"
    using log_okD(8,11) [OF ok] by (auto simp: home_writes_def)
  then have v3: "a_view (abs_bc b3) (log_start s) = full_head s"
    using 3(3) 2(3) by (simp add: fold_a_write(6)) (simp add: a_write_def)
  obtain b4 where 4: "write_head (s\<lparr>lbc := b3, lh_n := 0\<rparr>) = Ok (s\<lparr>lh_n := 0, lbc := b4\<rparr>)" "bc_inv b4"
    "abs_bc b4 = a_write (log_start s, head_bytes 0 (lh_block s) (full_head s)) (abs_bc b3)"
    using write_head_abs [of N "s\<lparr>lbc := b3, lh_n := 0\<rparr>"] 3(2) st log_okD(1) [OF ok] v3 by auto
  have "at_rest N b4" by (rule at_rest_a_write [OF 3(2) 4(2,3)])
  moreover have "abs_bc b4 = fold a_write (commit_writes s) (labs s)"
    using True 1(3) 2(3) 3(3) 4(3) by (simp add: commit_writes_def)
  moreover have "commit s = Ok (s\<lparr>lbc := b4, lh_n := 0\<rparr>)"
    using True 1(1) 2(1) 3(1) 4(1) by (simp add: commit_def)
  ultimately show ?thesis by blast
qed

section \<open>Recovery\<close>

text \<open>A booted machine: a cold cache on the disk \<open>dk\<close>, and \<open>struct log\<close> all zero.\<close>

definition boot :: "u8 list list \<Rightarrow> logst" where
  "boot dk = \<lparr>lbc = cold dk 0, log_start = 0, log_size = 0, log_outstanding = 0,
     log_committing = False, log_dev = 0, lh_n = 0, lh_block = replicate 30 0\<rparr>"

text \<open>The home blocks a header lists, and the disk recovery makes of \<open>dk\<close>.\<close>

definition head_blocks :: "nat \<Rightarrow> u8 list \<Rightarrow> u32 list" where
  "head_blocks n d = map (\<lambda>i. get32 d (4 + 4 * i)) [0..<n]"

lemma readsb_abs:
  assumes inv: "bc_inv (lbc s)" and q: "quiet (labs s)" and r: "room 2 (labs s)"
    and len: "1 < length (disk (lbc s))"
  shows "\<exists>b'. readsb 1 s = Ok (sb_of_bytes (a_view (labs s) 1), s\<lparr>lbc := b'\<rparr>) \<and>
    bc_inv b' \<and> abs_bc b' = labs s"
proof -
  have "unat (1 :: u32) < length (a_disk (labs s))" using len by (simp add: abs_bc_def)
  then obtain i b1 where 1: "bread 1 1 (lbc s) = Ok (i, b1)"
    using bread_room_ok [OF inv, of 1] q r by (auto simp: room_def)
  obtain b' where 2: "brelse i b1 = Ok b'" "bc_inv b'" "abs_bc b' = labs s"
    using bcache.rd_rel [OF inv 1] by blast
  have "buf_data b1 i = a_view (labs s) 1" by (rule bcache.rd_data [OF inv 1])
  with 1 2 show ?thesis
    by (auto simp: readsb_def lbread_def lbrelse_def ldata_def)
qed

lemma read_head_abs:
  assumes inv: "bc_inv (lbc s)" and q: "quiet (labs s)" and r: "room 2 (labs s)"
    and st: "unat (log_start s) < length (disk (lbc s))" and dev: "log_dev s = 1"
    and n: "get32 (a_view (labs s) (log_start s)) 0 = of_nat n" "n \<le> 30" and bl: "length (lh_block s) = 30"
  shows "\<exists>b' bl'. read_head s = Ok (s\<lparr>lbc := b', lh_n := int n, lh_block := bl'\<rparr>) \<and> length bl' = 30 \<and>
    take n bl' = head_blocks n (a_view (labs s) (log_start s)) \<and> bc_inv b' \<and> abs_bc b' = labs s"
proof -
  let ?d = "a_view (labs s) (log_start s)"
  let ?bl = "fold (\<lambda>i bl. bl[i := get32 ?d (4 + 4 * i)]) [0..<n] (lh_block s)"
  have "unat (log_start s) < length (a_disk (labs s))" using st by (simp add: abs_bc_def)
  then obtain i b1 where 1: "bread 1 (log_start s) (lbc s) = Ok (i, b1)"
    using bread_room_ok [OF inv, of "log_start s"] q r by (auto simp: room_def)
  obtain b' where 2: "brelse i b1 = Ok b'" "bc_inv b'" "abs_bc b' = labs s"
    using bcache.rd_rel [OF inv 1] by blast
  have d: "buf_data b1 i = ?d" by (rule bcache.rd_data [OF inv 1])
  have "read_head s = Ok (s\<lparr>lbc := b', lh_n := int n, lh_block := ?bl\<rparr>)"
    using 1 2 n dev sint_small [OF n(2)]
    by (simp add: read_head_def lbread_def lbrelse_def ldata_def d Let_def)
  moreover have "length ?bl = 30" "take n ?bl = head_blocks n ?d"
    using fold_block_update [of n "lh_block s" "\<lambda>i. get32 ?d (4 + 4 * i)"] n(2) bl
    by (simp_all add: head_blocks_def)
  ultimately show ?thesis using 2 by blast
qed

text \<open>
  Recovery from a disk with \<open>n\<close> logged blocks in the header installs them and clears the header.
  The conditions are those of the layout; the content of the disk is otherwise arbitrary.
\<close>

definition recoverable :: "u8 list list \<Rightarrow> u32 \<Rightarrow> int \<Rightarrow> nat \<Rightarrow> bool" where
  "recoverable dk st sz n \<longleftrightarrow>
     (\<forall>d \<in> set dk. length d = BSIZE) \<and> length dk < 4294967296 \<and>
     1 < unat st \<and> unat st + nat sz \<le> length dk \<and> n \<le> 30 \<and> int n < sz \<and>
     get32 (dk ! unat st) 0 = of_nat n \<and> distinct (head_blocks n (dk ! unat st)) \<and>
     (\<forall>m \<in> set (head_blocks n (dk ! unat st)).
        \<not> (unat st \<le> unat m \<and> unat m < unat st + nat sz) \<and> m \<noteq> 1 \<and> unat m < length dk)"

definition recovery_writes :: "u8 list list \<Rightarrow> u32 \<Rightarrow> nat \<Rightarrow> (nat \<times> u8 list) list" where
  "recovery_writes dk st n =
     map (\<lambda>t. (unat (head_blocks n (dk ! unat st) ! t), dk ! (unat st + t + 1))) [0..<n]"

definition clean_on :: "u8 list list \<Rightarrow> astore" where
  "clean_on dk = \<lparr>a_view = (\<lambda>n. dk ! unat n), a_dirty = {}, a_held = Map.empty, a_disk = dk,
     a_writes = [], a_bufs = NBUF\<rparr>"

lemma recoverable_slot:
  assumes rc: "recoverable dk st sz n" and t: "t < n"
  shows "unat (st + of_nat t + 1) = unat st + t + 1" "unat st + t + 1 < length dk"
    "unat (head_blocks n (dk ! unat st) ! t) < length dk"
    "u < n \<Longrightarrow> head_blocks n (dk ! unat st) ! u \<noteq> st + of_nat t + 1"
proof -
  have sz: "unat st + nat sz \<le> length dk" "int n < sz" "length dk < 4294967296"
    using rc by (simp_all add: recoverable_def)
  have "unat (st + of_nat (t + 1)) = unat st + (t + 1)"
    by (rule unat_plus_of_nat) (use t sz in auto)
  then show us: "unat (st + of_nat t + 1) = unat st + t + 1" by (simp add: algebra_simps)
  show "unat st + t + 1 < length dk" using t sz by auto
  have bin: "head_blocks n (dk ! unat st) ! u \<in> set (head_blocks n (dk ! unat st))" if "u < n" for u
    using that by (auto simp: head_blocks_def)
  show "unat (head_blocks n (dk ! unat st) ! t) < length dk"
    using bin [OF t] rc by (simp add: recoverable_def)
  show "head_blocks n (dk ! unat st) ! u \<noteq> st + of_nat t + 1" if "u < n"
  proof
    assume eq: "head_blocks n (dk ! unat st) ! u = st + of_nat t + 1"
    have "\<not> (unat st \<le> unat (st + of_nat t + 1) \<and> unat (st + of_nat t + 1) < unat st + nat sz)"
      using bin [OF that] rc unfolding eq recoverable_def by blast
    then show False unfolding us using t sz(2) by auto
  qed
qed

lemma recover_install:
  assumes rc: "recoverable dk st sz n" and abs: "labs s = clean_on dk" and inv: "bc_inv (lbc s)"
    and s: "log_dev s = 1" "log_start s = st" "lh_n s = int n"
      "take n (lh_block s) = head_blocks n (dk ! unat st)"
  shows "\<exists>b'. install_trans s = Ok (s\<lparr>lbc := b'\<rparr>) \<and> at_rest (length dk) b' \<and>
    a_disk (abs_bc b') = apply_writes dk (recovery_writes dk st n) \<and> a_dirty (abs_bc b') = {} \<and>
    a_bufs (abs_bc b') = NBUF"
proof -
  let ?bs = "head_blocks n (dk ! unat st)"
  let ?ws = "map (\<lambda>t. (?bs ! t, dk ! (unat st + t + 1))) [0..<n]"
  note sl = recoverable_slot [OF rc]
  have bt: "lh_block s ! t = ?bs ! t" if "t < n" for t using that s(4) by (metis nth_take)
  have "disk (lbc s) = dk" using abs by (simp add: abs_bc_def clean_on_def)
  then have rest: "at_rest (length dk) (lbc s)"
    using inv abs by (simp add: at_rest_def room_def clean_on_def)
  have "\<exists>b'. for_each install_step [0..<n] (s\<lparr>lbc := lbc s\<rparr>) = Ok (s\<lparr>lbc := b'\<rparr>) \<and> at_rest (length dk) b' \<and>
      abs_bc b' = fold a_write (map (\<lambda>t. (?bs ! t, a_view (labs s) (st + of_nat t + 1))) [0..<n]) (labs s)"
  proof (rule for_each_copy [OF _ rest])
    fix t b assume "t \<in> set [0..<n]" and b: "at_rest (length dk) b"
    then have t: "t < n" by simp
    have "unat (st + of_nat t + 1) < length dk" unfolding sl(1) [OF t] by (rule sl(2) [OF t])
    moreover have "st + of_nat t + 1 \<noteq> ?bs ! t" using sl(4) [OF t t] by metis
    ultimately show "\<exists>b'. install_step t (s\<lparr>lbc := b\<rparr>) = Ok (s\<lparr>lbc := b'\<rparr>) \<and> bc_inv b' \<and>
        abs_bc b' = a_write (?bs ! t, a_view (abs_bc b) (st + of_nat t + 1)) (abs_bc b)"
      using install_step_abs [OF b s(1), of t] sl(3) [OF t] bt [OF t] s(2) by simp
  next
    show "(\<lambda>t. ?bs ! t) ` set [0..<n] \<inter> (\<lambda>t. st + of_nat t + 1) ` set [0..<n] = {}"
      using sl(4) by (fastforce simp: image_iff)
  qed
  moreover have "map (\<lambda>t. (?bs ! t, a_view (labs s) (st + of_nat t + 1))) [0..<n] = ?ws"
  proof (rule map_cong [OF refl])
    fix t assume "t \<in> set [0..<n]"
    then show "(?bs ! t, a_view (labs s) (st + of_nat t + 1)) = (?bs ! t, dk ! (unat st + t + 1))"
      using sl(1) [of t] by (simp add: abs clean_on_def)
  qed
  ultimately obtain b' where b': "for_each install_step [0..<n] s = Ok (s\<lparr>lbc := b'\<rparr>)"
    "at_rest (length dk) b'" "abs_bc b' = fold a_write ?ws (clean_on dk)"
    unfolding abs by auto
  have "a_disk (abs_bc b') = apply_writes dk (recovery_writes dk st n)" "a_dirty (abs_bc b') = {}"
    "a_bufs (abs_bc b') = NBUF" unfolding b'(3) fold_a_write by (simp_all add: clean_on_def recovery_writes_def comp_def)
  then show ?thesis using b'(1,2) s(3) by (intro exI [of _ b']) (simp add: install_trans_def)
qed

text \<open>The log as recovery leaves it: empty, in memory and on the disk.\<close>

definition recovered :: "u32 \<Rightarrow> int \<Rightarrow> nat \<Rightarrow> logst \<Rightarrow> bool" where
  "recovered st sz N s \<longleftrightarrow>
     log_dev s = 1 \<and> log_start s = st \<and> log_size s = sz \<and> log_outstanding s = 0 \<and>
     \<not> log_committing s \<and> lh_n s = 0 \<and> length (lh_block s) = 30 \<and>
     at_rest N (lbc s) \<and> a_dirty (labs s) = {} \<and> a_bufs (labs s) = NBUF \<and>
     get32 (disk (lbc s) ! unat st) 0 = 0"

lemma recover_from_log_abs:
  assumes rc: "recoverable dk st sz n" and abs: "labs s = clean_on dk" and inv: "bc_inv (lbc s)"
    and s: "log_dev s = 1" "log_start s = st" "length (lh_block s) = 30" "log_size s = sz"
      "log_outstanding s = 0" "\<not> log_committing s"
  shows "\<exists>r h. recover_from_log s = Ok r \<and> recovered st sz (length dk) r \<and>
    disk (lbc r) = apply_writes dk (recovery_writes dk st n @ [(unat st, h)])"
proof -
  have st: "unat st < length dk" using rc by (auto simp: recoverable_def)
  have dks: "disk (lbc s) = dk" using abs by (simp add: abs_bc_def clean_on_def)
  have n: "n \<le> 30" "get32 (dk ! unat st) 0 = of_nat n" using rc by (simp_all add: recoverable_def)
  obtain b1 bl where 1: "read_head s = Ok (s\<lparr>lbc := b1, lh_n := int n, lh_block := bl\<rparr>)"
    "length bl = 30" "take n bl = head_blocks n (dk ! unat st)" "bc_inv b1" "abs_bc b1 = clean_on dk"
    using read_head_abs [OF inv _ _ _ s(1) _ n(1) s(3)] st s(2) n dks
    by (auto simp: abs clean_on_def room_def)
  define s1 where "s1 = s\<lparr>lbc := b1, lh_n := int n, lh_block := bl\<rparr>"
  have s1: "log_dev s1 = 1" "log_start s1 = st" "lh_n s1 = int n" "lh_block s1 = bl" "lbc s1 = b1"
    using s by (simp_all add: s1_def)
  obtain b2 where 2: "install_trans s1 = Ok (s1\<lparr>lbc := b2\<rparr>)" "at_rest (length dk) b2"
    "a_disk (abs_bc b2) = apply_writes dk (recovery_writes dk st n)" "a_dirty (abs_bc b2) = {}"
    "a_bufs (abs_bc b2) = NBUF"
    using recover_install [OF rc, of s1] s1 1 by auto
  let ?h = "head_bytes 0 bl (a_view (abs_bc b2) st)"
  obtain b3 where 3: "write_head (s1\<lparr>lbc := b2, lh_n := 0\<rparr>) = Ok (s1\<lparr>lh_n := 0, lbc := b3\<rparr>)"
    "abs_bc b3 = a_write (st, ?h) (abs_bc b2)" "bc_inv b3"
    using write_head_abs [of "length dk" "s1\<lparr>lbc := b2, lh_n := 0\<rparr>"] 2(2) st s1 by auto
  have dk3': "disk b3 = (a_disk (abs_bc b2))[unat st := ?h]"
    using 3(2) by (simp add: abs_bc_def a_write_def)
  then have dk3: "disk b3 = apply_writes dk (recovery_writes dk st n @ [(unat st, ?h)])"
    by (simp add: 2(3)) (simp add: apply_writes_def)
  have ok: "recover_from_log s = Ok (s1\<lparr>lh_n := 0, lbc := b3\<rparr>)"
    using 1(1) 2(1) 3(1) by (simp add: recover_from_log_def s1_def [symmetric])
  have "length (a_view (abs_bc b2) st) = BSIZE"
    using bcache.view_len [of b2 st] 2(2) st 2(3) by (simp add: at_rest_def)
  then have "get32 ?h 0 = 0" using get32_head_bytes(1) [of "a_view (abs_bc b2) st" 0 bl] by simp
  moreover have "disk b3 ! unat st = ?h" using st by (simp add: dk3' 2(3))
  moreover have "a_dirty (abs_bc b3) = {}" "a_bufs (abs_bc b3) = NBUF"
    using 3(2) 2(4,5) by (simp_all add: a_write_def)
  moreover have "at_rest (length dk) b3" by (rule at_rest_a_write [OF 2(2) 3(3,2)])
  ultimately have "recovered st sz (length dk) (s1\<lparr>lh_n := 0, lbc := b3\<rparr>)"
    using s 1(2) by (simp add: recovered_def s1_def)
  with ok dk3 show ?thesis by (intro exI [of _ "s1\<lparr>lh_n := 0, lbc := b3\<rparr>"] exI [of _ ?h]) simp
qed

lemma initlog_abs:
  assumes rc: "recoverable dk st sz n" and abs: "labs s = clean_on dk" and inv: "bc_inv (lbc s)"
    and s: "length (lh_block s) = 30" "log_outstanding s = 0" "\<not> log_committing s"
    and sb: "sb_logstart (sb_of_bytes (dk ! 1)) = st" "sint (sb_nlog (sb_of_bytes (dk ! 1))) = sz"
  shows "\<exists>r h. initlog 1 s = Ok r \<and> recovered st sz (length dk) r \<and>
    disk (lbc r) = apply_writes dk (recovery_writes dk st n @ [(unat st, h)])"
proof -
  have dk: "1 < length dk" using rc by (auto simp: recoverable_def)
  have "disk (lbc s) = dk" using abs by (simp add: abs_bc_def clean_on_def)
  then obtain b1 where 1: "readsb 1 s = Ok (sb_of_bytes (dk ! 1), s\<lparr>lbc := b1\<rparr>)"
    "bc_inv b1" "abs_bc b1 = clean_on dk"
    using readsb_abs [of s] inv dk unfolding abs by (auto simp: room_def clean_on_def)
  let ?s = "s\<lparr>lbc := b1, log_start := st, log_size := sz, log_dev := 1\<rparr>"
  have "initlog 1 s = recover_from_log ?s" using 1(1) sb by (simp add: initlog_def)
  moreover have "\<exists>r h. recover_from_log ?s = Ok r \<and> recovered st sz (length dk) r \<and>
      disk (lbc r) = apply_writes dk (recovery_writes dk st n @ [(unat st, h)])"
    by (rule recover_from_log_abs [OF rc]) (use 1 s in simp_all)
  ultimately show ?thesis by simp
qed

lemma boot_clean:
  assumes "\<forall>d \<in> set dk. length d = BSIZE"
  shows "labs (boot dk) = clean_on dk" "bc_inv (lbc (boot dk))"
  using cold_abs [OF assms] cold_inv [OF assms] by (simp_all add: boot_def clean_on_def)

lemma initlog_spec:
  assumes rc: "recoverable dk st sz n"
    and sb: "sb_logstart (sb_of_bytes (dk ! 1)) = st" "sint (sb_nlog (sb_of_bytes (dk ! 1))) = sz"
  shows "\<exists>r h. initlog 1 (boot dk) = Ok r \<and> recovered st sz (length dk) r \<and>
    disk (lbc r) = apply_writes dk (recovery_writes dk st n @ [(unat st, h)])"
proof -
  have "\<forall>d \<in> set dk. length d = BSIZE" using rc by (simp add: recoverable_def)
  then show ?thesis using initlog_abs [OF rc] sb boot_clean by (simp add: boot_def)
qed

text \<open>Block \<open>m\<close> is on the disk, outside the log.\<close>

definition home :: "logst \<Rightarrow> u32 \<Rightarrow> bool" where
  "home s m \<longleftrightarrow> \<not> in_log s m \<and> unat m < length (disk (lbc s))"

section \<open>log\_write and the life of a transaction\<close>

lemma takeWhile_index:
  "length (takeWhile (\<lambda>x. x \<noteq> b) xs) = length xs \<longleftrightarrow> b \<notin> set xs"
  by (induction xs) auto

lemma list_update_takeWhile:
  "b \<in> set xs \<Longrightarrow> (xs @ ys)[length (takeWhile (\<lambda>x. x \<noteq> b) xs) := b] = xs @ ys"
  by (induction xs) auto

text \<open>\<open>log_write\<close> of a held home block pins it and lists it once in the header.\<close>

lemma log_write_spec:
  assumes inv: "bc_inv (lbc s)" and ok: "log_ok s" and h: "a_held (labs s) i = Some n"
    and n: "home s n" "n \<noteq> 1" and o: "log_outstanding s \<ge> 1" and cap: "lh_n s < 30" "lh_n s < log_size s - 1"
  shows "\<exists>s'. log_write i s = Ok s' \<and> log_ok s' \<and> bc_inv (lbc s') \<and>
    labs s' = (labs s)\<lparr>a_dirty := insert n (a_dirty (labs s))\<rparr> \<and>
    logged s' = (if n \<in> set (logged s) then logged s else logged s @ [n]) \<and>
    disk (lbc s') = disk (lbc s) \<and> log_outstanding s' = log_outstanding s \<and>
    log_committing s' = log_committing s \<and> log_start s' = log_start s \<and> log_size s' = log_size s"
proof -
  let ?k = "nat (lh_n s)" and ?bl = "lh_block s"
  let ?b = "upd_buf i (\<lambda>x. x\<lparr>b_dirty := True\<rparr>) (lbc s)"
  have len: "length ?bl = 30" "0 \<le> lh_n s" using log_okD(2,3) [OF ok] .
  have k: "?k < length ?bl" "int ?k = lh_n s" using len cap by auto
  have bno: "b_blockno (bufs (lbc s) ! i) = n"
    using h by (simp add: abs_bc_def held_map_def split: if_splits)
  have md: "bc_inv ?b" "abs_bc ?b = (labs s)\<lparr>a_dirty := insert n (a_dirty (labs s))\<rparr>"
    using mark_dirty_abs [OF inv h] by auto
  have dk: "disk ?b = disk (lbc s)" by simp
  have dirty: "a_dirty (labs s) = set (logged s)" using ok by (simp add: log_ok_def)
  show ?thesis
  proof (cases "n \<in> set (logged s)")
    case True
    define j where "j = length (takeWhile (\<lambda>x. x \<noteq> n) (logged s))"
    have "j \<noteq> length (logged s)" using True unfolding j_def takeWhile_index by simp
    then have "int j \<noteq> lh_n s" using k by simp
    moreover have "?bl[j := n] = ?bl"
      using list_update_takeWhile [OF True, of "drop ?k ?bl"] by (simp add: j_def)
    ultimately have "log_write i s = Ok (s\<lparr>lbc := ?b\<rparr>)"
      using cap o bno by (simp add: log_write_def Let_def j_def [symmetric])
    moreover have "log_ok (s\<lparr>lbc := ?b\<rparr>)"
      using ok True dirty md(2) unfolding log_ok_def in_log_def by (simp add: insert_absorb)
    ultimately show ?thesis using md True by simp
  next
    case False
    define j where "j = length (takeWhile (\<lambda>x. x \<noteq> n) (logged s))"
    have j: "j = ?k" using False k takeWhile_index [of n "logged s"] by (simp add: j_def)
    let ?s = "s\<lparr>lh_block := ?bl[?k := n], lh_n := lh_n s + 1, lbc := ?b\<rparr>"
    have "log_write i s = Ok ?s"
      using cap o bno k by (simp add: log_write_def Let_def j_def [symmetric] j)
    moreover have lg: "logged ?s = logged s @ [n]"
      using k len by (simp add: nat_add_distrib take_Suc_conv_app_nth)
    moreover have "log_ok ?s"
    proof -
      have "\<not> in_log s n" "unat n < length (disk (lbc s))" using n by (simp_all add: home_def)
      then show ?thesis
        using ok False n(2) cap dirty md(2) lg unfolding log_ok_def in_log_def by simp
    qed
    ultimately show ?thesis using md False by simp
  qed
qed

text \<open>The pattern of every logged update: read, modify, \<open>log_write\<close>, release.\<close>

lemma logged_update:
  assumes inv: "bc_inv (lbc s)" and q: "quiet (labs s)" and rm: "room 1 (labs s)" and ok: "log_ok s"
    and n: "home s n" "n \<noteq> 1" and o: "log_outstanding s \<ge> 1" and cap: "lh_n s < 30" "lh_n s < log_size s - 1"
    and d: "length d = BSIZE"
  shows "\<exists>i s1 s2 s3. lbread 1 n s = Ok (i, s1) \<and> ldata s1 i = view (lbc s) n \<and>
    log_write i (lset i d s1) = Ok s2 \<and> lbrelse i s2 = Ok s3 \<and>
    log_ok s3 \<and> bc_inv (lbc s3) \<and>
    labs s3 = (labs s)\<lparr>a_view := (a_view (labs s))(n := d), a_dirty := insert n (a_dirty (labs s))\<rparr> \<and>
    logged s3 = (if n \<in> set (logged s) then logged s else logged s @ [n]) \<and>
    log_outstanding s3 = log_outstanding s \<and> log_committing s3 = log_committing s \<and>
    log_start s3 = log_start s \<and> log_size s3 = log_size s"
proof -
  have nd: "unat n < length (a_disk (labs s))" using n(1) by (simp add: home_def abs_bc_def)
  obtain i b1 where 1: "bread 1 n (lbc s) = Ok (i, b1)" using bread_room_ok [OF inv nd] q rm by auto
  note r = bread_abs [OF inv 1]
  have h1: "a_held (abs_bc b1) i = Some n" using r by simp
  have dt: "buf_data b1 i = view (lbc s) n" using bcache.rd_data [OF inv 1] by (simp add: abs_bc_def)
  note sd = set_data_abs [OF conjunct1 [OF r] h1 d]
  let ?s1 = "s\<lparr>lbc := b1\<rparr>"
  define t where "t = lset i d ?s1"
  have labs1: "labs t = (labs s)\<lparr>a_view := (a_view (labs s))(n := d), a_held := [i \<mapsto> n]\<rparr>"
    using sd r q by (simp add: t_def lset_def)
  have dk: "disk (lbc t) = disk (lbc s)"
    using arg_cong [OF labs1, of a_disk] by (simp add: abs_bc_def)
  have ok1: "log_ok t"
  proof -
    have "a_dirty (labs t) = a_dirty (labs s)" using labs1 by simp
    then show ?thesis
      using ok dk unfolding log_ok_def in_log_def by (simp add: t_def lset_def)
  qed
  have hm: "home t n" using n(1) dk by (simp add: home_def in_log_def t_def lset_def)
  have inv_t: "bc_inv (lbc t)" using sd by (simp add: t_def lset_def)
  have h_t: "a_held (labs t) i = Some n" using labs1 by simp
  have t_sel: "log_outstanding t \<ge> 1" "lh_n t < 30" "lh_n t < log_size t - 1"
    using o cap by (simp_all add: t_def lset_def)
  obtain s2 where 2: "log_write i t = Ok s2" "log_ok s2" "bc_inv (lbc s2)"
    "labs s2 = (labs t)\<lparr>a_dirty := insert n (a_dirty (labs t))\<rparr>"
    "logged s2 = (if n \<in> set (logged t) then logged t else logged t @ [n])"
    "log_outstanding s2 = log_outstanding t" "log_committing s2 = log_committing t"
    "log_start s2 = log_start t" "log_size s2 = log_size t"
    using log_write_spec [OF inv_t ok1 h_t hm n(2) t_sel] by blast
  have h2: "a_held (labs s2) i = Some n" "n \<in> a_dirty (labs s2)" using 2(4) labs1 by simp_all
  obtain b3 where 3: "brelse i (lbc s2) = Ok b3" "bc_inv b3"
    "abs_bc b3 = (labs s2)\<lparr>a_held := (a_held (labs s2))(i := None)\<rparr>"
    using brelse_abs [OF 2(3) h2(1)] h2(2) by blast
  let ?s3 = "s2\<lparr>lbc := b3\<rparr>"
  have labs3: "labs ?s3 = (labs s)\<lparr>a_view := (a_view (labs s))(n := d), a_dirty := insert n (a_dirty (labs s))\<rparr>"
    using 3(3) 2(4) labs1 q by simp
  have "disk b3 = disk (lbc s2)" using arg_cong [OF 3(3), of a_disk] by (simp add: abs_bc_def)
  then have ok3: "log_ok ?s3" using 2(2) 3(3) unfolding log_ok_def in_log_def by simp
  have "lbread 1 n s = Ok (i, ?s1)" "ldata ?s1 i = view (lbc s) n" "lbrelse i s2 = Ok ?s3"
    using 1 dt 3(1) by (simp_all add: lbread_def ldata_def lbrelse_def)
  moreover have "logged t = logged s" "log_outstanding t = log_outstanding s"
    "log_committing t = log_committing s" "log_start t = log_start s" "log_size t = log_size s"
    by (simp_all add: t_def lset_def)
  ultimately show ?thesis
    using 2(1) [unfolded t_def] 2(5-9) 3(2) labs3 ok3
    by (intro exI [of _ i] exI [of _ ?s1] exI [of _ s2] exI [of _ ?s3]) simp
qed

lemma recovered_log_ok:
  assumes r: "recovered st sz N s" and st: "1 < unat st" "unat st + nat sz \<le> N" "N < 4294967296" "0 < sz"
    and sb: "sb_logstart (sb_of_bytes (disk (lbc s) ! 1)) = st" "sint (sb_nlog (sb_of_bytes (disk (lbc s) ! 1))) = sz"
  shows "log_ok s"
  using assms by (auto simp: recovered_def log_ok_def at_rest_def)

section \<open>Crash safety\<close>

lemma apply_writes_blocks:
  assumes "\<forall>d \<in> set dk. length d = BSIZE" "\<forall>w \<in> set ws. length (snd w) = BSIZE"
  shows "\<forall>d \<in> set (apply_writes dk ws). length d = BSIZE"
  using assms
proof (induction ws arbitrary: dk)
  case (Cons w ws)
  have "\<forall>d \<in> set (dk[fst w := snd w]). length d = BSIZE"
    using Cons.prems set_update_subset_insert [of dk "fst w" "snd w"] by auto
  with Cons have "\<forall>d \<in> set (apply_writes (dk[fst w := snd w]) ws). length d = BSIZE" by simp
  then show ?case by (simp add: apply_writes_def split: prod.splits)
qed (simp add: apply_writes_def)

lemma settled_disk:
  assumes "at_rest N (lbc s)" "log_ok s" "unat m < length (disk (lbc s))" "m \<notin> set (logged s)"
  shows "view (lbc s) m = disk (lbc s) ! unat m"
  using bcache.settled [of "lbc s" m] assms
  by (auto simp: at_rest_def log_ok_def) (simp_all add: abs_bc_def)

lemma commit_data_len:
  assumes rest: "at_rest N (lbc s)" and ok: "log_ok s" and w: "w \<in> set (to_disk (commit_writes s))"
  shows "length (snd w) = BSIZE"
proof -
  have v: "length (a_view (labs s) m) = BSIZE" if "unat m < length (disk (lbc s))" for m
    using bcache.view_len [of "lbc s" m] rest that by (simp add: at_rest_def) (simp add: abs_bc_def)
  have f: "length (full_head s) = BSIZE"
    using v [OF log_okD(5) [OF ok]] log_okD(4) [OF ok] by (simp add: full_head_def)
  have "length (a_view (labs s) (lh_block s ! t)) = BSIZE" if "t < nat (lh_n s)" for t
    by (rule v [OF log_okD(10) [OF ok that]])
  then show ?thesis
    using w f by (auto simp: commit_writes_def log_writes_def home_writes_def split: if_splits)
qed

text \<open>The disk after the first \<open>k\<close> writes of \<open>commit\<close>.\<close>

definition crash_disk :: "logst \<Rightarrow> nat \<Rightarrow> u8 list list" where
  "crash_disk s k = apply_writes (disk (lbc s)) (take k (to_disk (commit_writes s)))"

lemma home_ne:
  assumes "log_ok s" "home s m"
  shows "m \<noteq> log_start s" "unat m \<noteq> unat (log_start s)" "t < nat (lh_n s) \<Longrightarrow> unat m \<noteq> unat (slot s t)"
proof -
  show "m \<noteq> log_start s" using log_okD(8) [OF assms(1)] assms(2) by (auto simp: home_def)
  then show "unat m \<noteq> unat (log_start s)" by (simp add: word_unat_eq_iff)
  show "unat m \<noteq> unat (slot s t)" if "t < nat (lh_n s)"
  proof
    assume "unat m = unat (slot s t)"
    then have "m = slot s t" by (simp only: word_unat_eq_iff)
    with log_okD(7) [OF assms(1) that] assms(2) show False by (simp add: home_def)
  qed
qed

lemma home_1: "log_ok s \<Longrightarrow> home s 1"
  by (auto simp: home_def log_okD(6)) (simp add: log_ok_def)

text \<open>Writes to the log leave the other blocks and the header alone.\<close>

lemma log_writes_other:
  assumes "log_ok s" "m < length (disk (lbc s))" "\<And>t. t < nat (lh_n s) \<Longrightarrow> m \<noteq> unat (slot s t)"
  shows "apply_writes (disk (lbc s)) (take k (to_disk (log_writes s))) ! m = disk (lbc s) ! m"
proof (rule nth_apply_writes_other [OF assms(2)])
  have "fst ` set (take k (to_disk (log_writes s))) \<subseteq> (\<lambda>t. unat (slot s t)) ` {..<nat (lh_n s)}"
    by (auto simp: log_writes_def dest!: in_set_takeD)
  moreover have "m \<notin> (\<lambda>t. unat (slot s t)) ` {..<nat (lh_n s)}" using assms(3) by blast
  ultimately show "m \<notin> fst ` set (take k (to_disk (log_writes s)))" by blast
qed

lemma crash_disk_blocks:
  assumes rest: "at_rest N (lbc s)" and ok: "log_ok s"
  shows "\<forall>d \<in> set (crash_disk s k). length d = BSIZE" "length (crash_disk s k) = length (disk (lbc s))"
proof -
  have "\<forall>d \<in> set (disk (lbc s)). length d = BSIZE" using rest by (simp add: at_rest_def bc_inv_def)
  then show "\<forall>d \<in> set (crash_disk s k). length d = BSIZE"
    unfolding crash_disk_def
    by (rule apply_writes_blocks) (use commit_data_len [OF rest ok] in \<open>auto dest: in_set_takeD\<close>)
  show "length (crash_disk s k) = length (disk (lbc s))" by (simp add: crash_disk_def)
qed

lemma recoverable_layout:
  assumes ok: "log_ok s" and dk: "\<forall>d \<in> set dk. length d = BSIZE" "length dk = length (disk (lbc s))"
    and hd: "get32 (dk ! unat (log_start s)) 0 = of_nat n" "n = 0 \<or> n = nat (lh_n s)"
    and bs: "head_blocks n (dk ! unat (log_start s)) = take n (logged s)"
  shows "recoverable dk (log_start s) (log_size s) n"
proof -
  have "distinct (logged s)" using ok by (simp add: log_ok_def)
  then have sub: "set (take n (logged s)) \<subseteq> set (logged s)" "distinct (take n (logged s))"
    by (simp_all only: set_take_subset distinct_take)
  have "int n < log_size s" "n \<le> 30" using ok hd(2) by (auto simp: log_ok_def)
  moreover have "\<not> (unat (log_start s) \<le> unat m \<and> unat m < unat (log_start s) + nat (log_size s)) \<and>
      m \<noteq> 1 \<and> unat m < length dk" if "m \<in> set (take n (logged s))" for m
    using subsetD [OF sub(1) that] ok dk(2) by (simp add: log_ok_def in_log_def)
  moreover have "1 < unat (log_start s)" "unat (log_start s) + nat (log_size s) \<le> length dk"
    "length dk < 4294967296" using ok dk(2) by (simp_all add: log_ok_def)
  ultimately show ?thesis
    unfolding recoverable_def bs using dk(1) hd(1) sub(2) by blast
qed

text \<open>Recovery of a crash disk, given what its header says.\<close>

lemma recover_crash:
  assumes rest: "at_rest N (lbc s)" and ok: "log_ok s"
    and rc: "recoverable (crash_disk s k) (log_start s) (log_size s) n"
    and one: "crash_disk s k ! 1 = disk (lbc s) ! 1"
    and res: "\<And>m. home s m \<Longrightarrow>
      apply_writes (crash_disk s k) (recovery_writes (crash_disk s k) (log_start s) n) ! unat m = d m"
  shows "\<exists>r. initlog 1 (boot (crash_disk s k)) = Ok r \<and> (\<forall>m. home s m \<longrightarrow> disk (lbc r) ! unat m = d m)"
proof -
  have sb: "sb_logstart (sb_of_bytes (crash_disk s k ! 1)) = log_start s"
    "sint (sb_nlog (sb_of_bytes (crash_disk s k ! 1))) = log_size s"
    using ok unfolding one by (simp_all add: log_ok_def)
  obtain r h where r: "initlog 1 (boot (crash_disk s k)) = Ok r" "disk (lbc r) =
      apply_writes (crash_disk s k) (recovery_writes (crash_disk s k) (log_start s) n @ [(unat (log_start s), h)])"
    using initlog_spec [OF rc sb] by blast
  have "disk (lbc r) ! unat m = d m" if "home s m" for m
    using res [OF that] home_ne(2) [OF ok that] by (simp add: r(2)) (simp add: apply_writes_def)
  with r(1) show ?thesis by blast
qed

lemma crash_before:
  assumes rest: "at_rest N (lbc s)" and ok: "log_ok s" and k: "k \<le> nat (lh_n s)"
  shows "\<exists>r. initlog 1 (boot (crash_disk s k)) = Ok r \<and>
    (\<forall>m. home s m \<longrightarrow> disk (lbc r) ! unat m = disk (lbc s) ! unat m)"
proof -
  have "take k (to_disk (commit_writes s)) = take k (to_disk (log_writes s))"
    using k by (simp add: commit_writes_def log_writes_def)
  then have cd: "crash_disk s k ! m = disk (lbc s) ! m"
    if "m < length (disk (lbc s))" "\<And>t. t < nat (lh_n s) \<Longrightarrow> m \<noteq> unat (slot s t)" for m
    using log_writes_other [OF ok that] by (simp add: crash_disk_def)
  have st: "crash_disk s k ! unat (log_start s) = disk (lbc s) ! unat (log_start s)"
    by (rule cd [OF log_okD(5) [OF ok]]) (rule start_ne_slot [OF ok])
  have rc: "recoverable (crash_disk s k) (log_start s) (log_size s) 0"
    by (rule recoverable_layout [OF ok crash_disk_blocks [OF rest ok]])
      (use ok st in \<open>simp_all add: log_ok_def head_blocks_def\<close>)
  have hm: "crash_disk s k ! unat m = disk (lbc s) ! unat m" if "home s m" for m
    by (rule cd) (use that home_ne(3) [OF ok that] in \<open>auto simp: home_def\<close>)
  show ?thesis
    by (rule recover_crash [OF rest ok rc])
      (use hm hm [OF home_1 [OF ok]] in \<open>simp_all add: recovery_writes_def apply_writes_def\<close>)
qed

text \<open>From the write of the header on, the log holds the transaction.\<close>

definition committed_disk :: "logst \<Rightarrow> u8 list list" where
  "committed_disk s = apply_writes (disk (lbc s))
     (to_disk (log_writes s) @ [(unat (log_start s), full_head s)])"

lemma committed_disk_nth:
  assumes ok: "log_ok s"
  shows "committed_disk s ! unat (log_start s) = full_head s"
    "\<And>m. home s m \<Longrightarrow> committed_disk s ! unat m = disk (lbc s) ! unat m"
    "\<And>t. t < nat (lh_n s) \<Longrightarrow> committed_disk s ! unat (slot s t) = view (lbc s) (lh_block s ! t)"
    "length (committed_disk s) = length (disk (lbc s))"
proof -
  let ?D = "apply_writes (disk (lbc s)) (to_disk (log_writes s))"
  have cd: "committed_disk s = ?D[unat (log_start s) := full_head s]"
    by (simp add: committed_disk_def) (simp add: apply_writes_def)
  show "committed_disk s ! unat (log_start s) = full_head s" using log_okD(5) [OF ok] by (simp add: cd)
  show "length (committed_disk s) = length (disk (lbc s))" by (simp add: cd)
  show "committed_disk s ! unat m = disk (lbc s) ! unat m" if "home s m" for m
  proof -
    have "?D ! unat m = disk (lbc s) ! unat m"
      using log_writes_other [OF ok, of "unat m" "length (log_writes s)"] that home_ne(3) [OF ok that]
      by (simp add: home_def)
    then show ?thesis using home_ne(2) [OF ok that] by (simp add: cd)
  qed
  show "committed_disk s ! unat (slot s t) = view (lbc s) (lh_block s ! t)" if "t < nat (lh_n s)" for t
  proof -
    have "distinct (map fst (to_disk (log_writes s)))"
    proof -
      have "distinct (map unat (map fst (log_writes s)))"
        using distinct_log_writes [OF ok] by (simp add: distinct_map inj_on_def word_unat_eq_iff del: map_map)
      then show ?thesis by (simp add: comp_def case_prod_beta)
    qed
    moreover have "(unat (slot s t), view (lbc s) (lh_block s ! t)) \<in> set (to_disk (log_writes s))"
      using that by (auto simp: log_writes_def abs_bc_def)
    ultimately have "?D ! unat (slot s t) = view (lbc s) (lh_block s ! t)"
      using nth_apply_writes_same log_okD(9) [OF ok that] by blast
    then show ?thesis using start_ne_slot [OF ok that] by (simp add: cd)
  qed
qed

lemma crash_disk_after:
  assumes "lh_n s > 0" "k = Suc (nat (lh_n s)) + j"
  shows "crash_disk s k = apply_writes (committed_disk s)
    (take j (to_disk (home_writes s) @ [(unat (log_start s), head_bytes 0 (lh_block s) (full_head s))]))"
proof -
  have "length (log_writes s) = nat (lh_n s)" by (simp add: log_writes_def)
  then have "crash_disk s k = apply_writes (disk (lbc s)) (to_disk (log_writes s) @
      [(unat (log_start s), full_head s)] @ take j (to_disk (home_writes s) @
      [(unat (log_start s), head_bytes 0 (lh_block s) (full_head s))]))"
    using assms by (simp add: crash_disk_def commit_writes_def del: apply_writes_append)
  then show ?thesis by (simp only: committed_disk_def apply_writes_append)
qed

lemma full_head_get:
  assumes rest: "at_rest N (lbc s)" and ok: "log_ok s"
  shows "get32 (full_head s) 0 = of_nat (nat (lh_n s))" "length (full_head s) = BSIZE"
    "head_blocks (nat (lh_n s)) (full_head s) = logged s"
    "get32 (head_bytes 0 bl (full_head s)) 0 = 0"
proof -
  have v: "length (a_view (labs s) (log_start s)) = BSIZE"
    using bcache.view_len [of "lbc s" "log_start s"] rest log_okD(5) [OF ok]
    by (simp add: at_rest_def) (simp add: abs_bc_def)
  have n: "nat (lh_n s) \<le> 30" "nat (lh_n s) \<le> length (lh_block s)" "int (nat (lh_n s)) = lh_n s"
    using log_okD(2,3,4) [OF ok] by auto
  note g = get32_head_bytes [OF v n(1,2), unfolded n(3)]
  show "get32 (full_head s) 0 = of_nat (nat (lh_n s))" using g(1) by (simp add: full_head_def)
  show len: "length (full_head s) = BSIZE" using v log_okD(4) [OF ok] by (simp add: full_head_def)
  have "head_blocks (nat (lh_n s)) (full_head s) = map (\<lambda>t. lh_block s ! t) [0..<nat (lh_n s)]"
    unfolding head_blocks_def full_head_def by (rule map_cong [OF refl]) (simp add: g(2))
  then show "head_blocks (nat (lh_n s)) (full_head s) = logged s"
    by (simp only: map_nth_take [OF n(2)])
  show "get32 (head_bytes 0 bl (full_head s)) 0 = 0"
    using get32_head_bytes(1) [OF len, of 0 bl] by simp
qed

lemma home_writes_disk:
  assumes ok: "log_ok s"
  shows "map fst (to_disk (home_writes s)) = map unat (logged s)" "distinct (map unat (logged s))"
    "\<And>t. t < nat (lh_n s) \<Longrightarrow> (unat (lh_block s ! t), view (lbc s) (lh_block s ! t)) \<in> set (to_disk (home_writes s))"
proof -
  have "map fst (to_disk (home_writes s)) = map unat (map fst (home_writes s))"
    by (simp add: comp_def case_prod_beta)
  then show "map fst (to_disk (home_writes s)) = map unat (logged s)" by (simp only: fst_home_writes [OF ok])
  have "distinct (logged s)" using ok by (simp add: log_ok_def)
  then show "distinct (map unat (logged s))" by (simp add: distinct_map inj_on_def word_unat_eq_iff)
  show "(unat (lh_block s ! t), view (lbc s) (lh_block s ! t)) \<in> set (to_disk (home_writes s))"
    if "t < nat (lh_n s)" for t using that by (auto simp: home_writes_def abs_bc_def)
qed

lemma home_writes_other:
  assumes ok: "log_ok s" and m: "m < length dk" "m \<notin> unat ` set (logged s)"
  shows "apply_writes dk (take j (to_disk (home_writes s))) ! m = dk ! m"
proof (rule nth_apply_writes_other [OF m(1)])
  have "fst ` set (take j (to_disk (home_writes s))) \<subseteq> set (map fst (to_disk (home_writes s)))"
    using image_mono [OF set_take_subset, of fst j "to_disk (home_writes s)"] by (simp only: set_map [of fst])
  also have "\<dots> = unat ` set (logged s)" unfolding home_writes_disk(1) [OF ok] by simp
  finally show "m \<notin> fst ` set (take j (to_disk (home_writes s)))" using m(2) by blast
qed

lemma logged_not_log:
  assumes ok: "log_ok s"
  shows "unat (log_start s) \<notin> unat ` set (logged s)" "t < nat (lh_n s) \<Longrightarrow> unat (slot s t) \<notin> unat ` set (logged s)"
    "1 \<notin> unat ` set (logged s)"
proof -
  have *: "unat m \<notin> unat ` set (logged s)" if "in_log s m \<or> m = 1" for m
  proof -
    have "m \<notin> set (logged s)" using that ok by (auto simp: log_ok_def)
    then show ?thesis unfolding image_iff word_unat_eq_iff [symmetric] by blast
  qed
  show "unat (log_start s) \<notin> unat ` set (logged s)" "1 \<notin> unat ` set (logged s)"
    using * [of "log_start s"] * [of 1] log_okD(8) [OF ok] by simp_all
  show "unat (slot s t) \<notin> unat ` set (logged s)" if "t < nat (lh_n s)"
    by (rule *) (simp add: log_okD(7) [OF ok that])
qed

lemma home_cases:
  assumes rest: "at_rest N (lbc s)" and ok: "log_ok s" and m: "home s m"
  obtains (logged) t where "t < nat (lh_n s)" "m = lh_block s ! t"
  | (clean) "unat m \<notin> unat ` set (logged s)" "view (lbc s) m = disk (lbc s) ! unat m"
proof (cases "m \<in> set (logged s)")
  case True
  then obtain t where "t < length (logged s)" "logged s ! t = m" unfolding in_set_conv_nth by blast
  then show ?thesis using logged [of t] by simp
next
  case False
  then have "unat m \<notin> unat ` set (logged s)" by (auto simp: word_unat_eq_iff [symmetric])
  then show ?thesis
    using clean settled_disk [OF rest ok _ False] m by (simp add: home_def)
qed

lemma crash_installing:
  assumes rest: "at_rest N (lbc s)" and ok: "log_ok s" and pos: "lh_n s > 0"
    and k: "k = Suc (nat (lh_n s)) + j" "j \<le> nat (lh_n s)"
  shows "\<exists>r. initlog 1 (boot (crash_disk s k)) = Ok r \<and>
    (\<forall>m. home s m \<longrightarrow> disk (lbc r) ! unat m = view (lbc s) m)"
proof -
  let ?n = "nat (lh_n s)"
  let ?dk = "crash_disk s k"
  note cd = committed_disk_nth [OF ok]
  have dk: "?dk = apply_writes (committed_disk s) (take j (to_disk (home_writes s)))"
    using crash_disk_after [OF pos k(1)] k(2) by (simp add: home_writes_def)
  have len: "length ?dk = length (disk (lbc s))" by (simp add: dk cd(4))
  have oth: "?dk ! m = committed_disk s ! m" if "m < length (disk (lbc s))" "m \<notin> unat ` set (logged s)" for m
    using home_writes_other [OF ok _ that(2)] that(1) by (simp add: dk cd(4))
  have st: "?dk ! unat (log_start s) = full_head s"
    using oth [OF log_okD(5) [OF ok] logged_not_log(1) [OF ok]] cd(1) by simp
  have sl: "?dk ! (unat (log_start s) + t + 1) = view (lbc s) (lh_block s ! t)" if "t < ?n" for t
    using oth [OF log_okD(9) [OF ok that] logged_not_log(2) [OF ok that]] cd(3) [OF that]
    unfolding unat_slot [OF ok that] by simp
  note fh = full_head_get [OF rest ok]
  have rc: "recoverable ?dk (log_start s) (log_size s) ?n"
    by (rule recoverable_layout [OF ok crash_disk_blocks [OF rest ok]]) (simp_all add: st fh)
  have rw: "recovery_writes ?dk (log_start s) ?n =
      map (\<lambda>t. (unat (logged s ! t), view (lbc s) (lh_block s ! t))) [0..<?n]"
    unfolding recovery_writes_def st fh(3) by (rule map_cong [OF refl]) (simp add: sl [simplified])
  have fst_rw: "map fst (recovery_writes ?dk (log_start s) ?n) = map unat (logged s)"
    unfolding rw by (rule nth_equalityI) (use log_okD(2,4) [OF ok] in auto)
  show ?thesis
  proof (rule recover_crash [OF rest ok rc])
    have "unat (1 :: u32) < length (disk (lbc s))" using home_1 [OF ok] by (simp add: home_def)
    then show "?dk ! 1 = disk (lbc s) ! 1"
      using oth [of 1] logged_not_log(3) [OF ok] cd(2) [OF home_1 [OF ok]] by simp
    show "apply_writes ?dk (recovery_writes ?dk (log_start s) ?n) ! unat m = view (lbc s) m"
      if m: "home s m" for m
      using rest ok m
    proof (cases rule: home_cases)
      case (logged t)
      then have "(unat m, view (lbc s) m) \<in> set (recovery_writes ?dk (log_start s) ?n)"
        unfolding rw by (auto intro!: image_eqI [of _ _ t])
      then show ?thesis
        by (rule nth_apply_writes_same)
          (use m len home_writes_disk(2) [OF ok] in \<open>simp_all add: home_def fst_rw\<close>)
    next
      case clean
      have "unat m \<notin> fst ` set (recovery_writes ?dk (log_start s) ?n)"
        using clean(1) arg_cong [OF fst_rw, of set] by simp
      then have "apply_writes ?dk (recovery_writes ?dk (log_start s) ?n) ! unat m = ?dk ! unat m"
        by (rule nth_apply_writes_other [rotated]) (use m len in \<open>simp add: home_def\<close>)
      also have "\<dots> = view (lbc s) m"
        using oth [of "unat m"] m clean cd(2) [OF m] by (simp add: home_def)
      finally show ?thesis .
    qed
  qed
qed

lemma final_disk:
  assumes rest: "at_rest N (lbc s)" and ok: "log_ok s"
  defines "D \<equiv> crash_disk s (length (commit_writes s))"
  shows "home s m \<Longrightarrow> D ! unat m = view (lbc s) m" "get32 (D ! unat (log_start s)) 0 = 0"
    "D ! 1 = disk (lbc s) ! 1"
proof -
  have main: "(home s m \<longrightarrow> D ! unat m = view (lbc s) m) \<and> get32 (D ! unat (log_start s)) 0 = 0" for m
  proof (cases "lh_n s > 0")
    case False
    then have "D = disk (lbc s)" "m \<notin> set (logged s)"
      by (simp_all add: D_def crash_disk_def commit_writes_def apply_writes_def)
    moreover have "get32 (disk (lbc s) ! unat (log_start s)) 0 = 0" using ok by (simp add: log_ok_def)
    ultimately show ?thesis
      using settled_disk [OF rest ok, of m] by (simp add: home_def)
  next
    case True
    let ?C = "apply_writes (committed_disk s) (to_disk (home_writes s))"
    note cd = committed_disk_nth [OF ok]
    have l: "length (commit_writes s) = Suc (nat (lh_n s)) + Suc (nat (lh_n s))"
      using True by (simp add: commit_writes_def log_writes_def home_writes_def)
    have dk: "D = ?C[unat (log_start s) := head_bytes 0 (lh_block s) (full_head s)]"
      using crash_disk_after [OF True l] by (simp add: D_def home_writes_def) (simp add: apply_writes_def)
    have len: "length ?C = length (disk (lbc s))" by (simp add: cd(4))
    have "get32 (D ! unat (log_start s)) 0 = 0"
      using log_okD(5) [OF ok] len full_head_get(4) [OF rest ok] by (simp add: dk)
    moreover have "D ! unat m = view (lbc s) m" if m: "home s m"
    proof -
      have eq: "D ! unat m = ?C ! unat m" using home_ne(2) [OF ok m] by (simp add: dk)
      from rest ok m show ?thesis
      proof (cases rule: home_cases)
        case (logged t)
        have "?C ! unat m = view (lbc s) m"
          by (rule nth_apply_writes_same)
            (use home_writes_disk [OF ok] logged m cd(4) in \<open>simp_all add: home_def\<close>)
        with eq show ?thesis by simp
      next
        case clean
        then show ?thesis
          using eq home_writes_other [OF ok _ clean(1), of "committed_disk s" "length (home_writes s)"]
            m cd(2) [OF m] cd(4) by (simp add: home_def)
      qed
    qed
    ultimately show ?thesis by blast
  qed
  then show "home s m \<Longrightarrow> D ! unat m = view (lbc s) m" "get32 (D ! unat (log_start s)) 0 = 0" by blast+
  have "1 \<notin> set (logged s)" using ok by (auto simp: log_ok_def)
  then show "D ! 1 = disk (lbc s) ! 1"
    using main [of 1] home_1 [OF ok] settled_disk [OF rest ok, of 1] by (simp add: home_def)
qed

lemma crash_done:
  assumes rest: "at_rest N (lbc s)" and ok: "log_ok s" and k: "k = length (commit_writes s)"
  shows "\<exists>r. initlog 1 (boot (crash_disk s k)) = Ok r \<and>
    (\<forall>m. home s m \<longrightarrow> disk (lbc r) ! unat m = view (lbc s) m)"
proof -
  note fd = final_disk [OF rest ok, folded k]
  have rc: "recoverable (crash_disk s k) (log_start s) (log_size s) 0"
    by (rule recoverable_layout [OF ok crash_disk_blocks [OF rest ok]])
      (use fd(2) in \<open>simp_all add: head_blocks_def\<close>)
  show ?thesis
    by (rule recover_crash [OF rest ok rc fd(3)]) (simp add: recovery_writes_def apply_writes_def fd(1))
qed

lemma commit_clean:
  assumes "log_ok s"
  shows "a_dirty (fold a_write (commit_writes s) (labs s)) = {}"
proof -
  have "set (logged s) = fst ` set (home_writes s)"
    using arg_cong [OF fst_home_writes [OF assms], of set] by simp
  then have "set (logged s) \<subseteq> fst ` set (commit_writes s)"
    by (auto simp: commit_writes_def home_writes_def)
  then show ?thesis using assms unfolding fold_a_write(5) log_ok_def by blast
qed

section \<open>Properties\<close>

text \<open>C2: crash safety of the log.  \<open>commit\<close> succeeds, and if the machine stops after any number \<open>k\<close> of its disk writes, then at the next boot \<open>initlog\<close> succeeds and every block outside the log has its content from before the transaction when fewer writes than the one of the header were done, and the transaction's content from then on.\<close>

theorem commit_crash_safe:
  assumes "log_ok s" "at_rest N (lbc s)"
  shows "(\<exists>s'. commit s = Ok s' \<and> lh_n s' = 0 \<and> a_dirty (labs s') = {} \<and>
      bc_writes (lbc s') = bc_writes (lbc s) @ to_disk (commit_writes s)) \<and>
    (\<forall>k \<le> length (commit_writes s). \<exists>r. initlog 1 (boot (crash_disk s k)) = Ok r \<and>
      (\<forall>m. home s m \<longrightarrow> disk (lbc r) ! unat m =
        (if k \<le> nat (lh_n s) then disk (lbc s) ! unat m else view (lbc s) m)))"
proof
  obtain b where b: "commit s = Ok (s\<lparr>lbc := b, lh_n := 0\<rparr>)"
    "abs_bc b = fold a_write (commit_writes s) (labs s)" using commit_abs [OF assms(2,1)] by blast
  have "a_dirty (abs_bc b) = {}" using commit_clean [OF assms(1)] b(2) by simp
  moreover have "bc_writes b = bc_writes (lbc s) @ to_disk (commit_writes s)"
    using arg_cong [OF b(2), of a_writes] unfolding fold_a_write(4) by (simp add: abs_bc_def)
  ultimately show "\<exists>s'. commit s = Ok s' \<and> lh_n s' = 0 \<and> a_dirty (labs s') = {} \<and>
      bc_writes (lbc s') = bc_writes (lbc s) @ to_disk (commit_writes s)" using b(1) by simp
  show "\<forall>k \<le> length (commit_writes s). \<exists>r. initlog 1 (boot (crash_disk s k)) = Ok r \<and>
      (\<forall>m. home s m \<longrightarrow> disk (lbc r) ! unat m =
        (if k \<le> nat (lh_n s) then disk (lbc s) ! unat m else view (lbc s) m))"
  proof (intro allI impI)
    fix k assume k: "k \<le> length (commit_writes s)"
    show "\<exists>r. initlog 1 (boot (crash_disk s k)) = Ok r \<and> (\<forall>m. home s m \<longrightarrow> disk (lbc r) ! unat m =
        (if k \<le> nat (lh_n s) then disk (lbc s) ! unat m else view (lbc s) m))"
    proof (cases "k \<le> nat (lh_n s)")
      case True
      then show ?thesis using crash_before [OF assms(2,1) True] by simp
    next
      case False
      then have pos: "lh_n s > 0" using k by (auto simp: commit_writes_def split: if_splits)
      have l: "length (commit_writes s) = Suc (nat (lh_n s)) + Suc (nat (lh_n s))"
        using pos by (simp add: commit_writes_def log_writes_def home_writes_def)
      define j where "j = k - Suc (nat (lh_n s))"
      have kj: "k = Suc (nat (lh_n s)) + j" using False by (simp add: j_def)
      then consider "j \<le> nat (lh_n s)" | "k = length (commit_writes s)" using l k by linarith
      then show ?thesis
        using crash_installing [OF assms(2,1) pos kj] crash_done [OF assms(2,1)] False
        by cases simp_all
    qed
  qed
qed

text \<open>A small disk: the log is blocks 2 to 4, block 5 is a home block.\<close>

definition small_sb :: "u8 list" where
  "small_sb = replicate 12 0 @ bytes32 3 @ bytes32 2 @ replicate 492 0"

definition small_disk :: "u8 list list" where
  "small_disk = [replicate 512 0, small_sb, replicate 512 0, replicate 512 0, replicate 512 0, replicate 512 0]"

lemma small_sb_fields:
  "sb_logstart (sb_of_bytes small_sb) = 2" "sb_nlog (sb_of_bytes small_sb) = 3" "length small_sb = BSIZE"
  by (simp_all add: sb_of_bytes_def get32_def small_sb_def nth_append bytes32_def word32_def)

text \<open>A boot from it, and a transaction that has updated block 5.\<close>

lemma small_boot:
  "\<exists>s. initlog 1 (boot small_disk) = Ok s \<and> log_ok s \<and> recovered 2 3 6 s \<and> disk (lbc s) ! 5 = replicate 512 0 \<and>
    length (disk (lbc s)) = 6"
proof -
  have z: "get32 (replicate 512 0) 0 = 0" by (simp add: get32_def word32_def)
  have rc: "recoverable small_disk 2 3 0"
    using small_sb_fields(3) z by (simp add: recoverable_def small_disk_def head_blocks_def)
  obtain s h where s: "initlog 1 (boot small_disk) = Ok s" "recovered 2 3 (length small_disk) s"
    "disk (lbc s) = apply_writes small_disk (recovery_writes small_disk 2 0 @ [(unat (2 :: u32), h)])"
    using initlog_spec [OF rc] small_sb_fields by (auto simp: small_disk_def)
  have dk: "disk (lbc s) = small_disk[2 := h]"
    using s(3) by (simp add: recovery_writes_def apply_writes_def)
  have "log_ok s"
    by (rule recovered_log_ok [OF s(2)]) (use dk small_sb_fields in \<open>simp_all add: small_disk_def\<close>)
  moreover have "length small_disk = 6" by (simp add: small_disk_def)
  then have "recovered 2 3 6 s" using s(2) by (simp only:)
  ultimately show ?thesis using s(1) dk by (simp add: small_disk_def)
qed

lemma small_transaction:
  "\<exists>s. log_ok s \<and> at_rest 6 (lbc s) \<and> lh_n s = 1 \<and> log_outstanding s = 1 \<and> \<not> log_committing s \<and>
    home s 5 \<and> view (lbc s) 5 = replicate 512 9 \<and> disk (lbc s) ! 5 = replicate 512 0"
proof -
  obtain s0 where s0: "log_ok s0" "recovered 2 3 6 s0" "disk (lbc s0) ! 5 = replicate 512 0"
    "length (disk (lbc s0)) = 6" using small_boot by blast
  let ?s = "s0\<lparr>log_outstanding := 1\<rparr>"
  have r: "bc_inv (lbc ?s)" "quiet (labs ?s)" "a_dirty (labs ?s) = {}" "lh_n ?s = 0" "log_start ?s = 2"
    "log_size ?s = 3" "\<not> log_committing ?s" "room 2 (labs ?s)"
    using s0(2) by (simp_all add: recovered_def at_rest_def)
  have ok: "log_ok ?s" using s0(1) unfolding log_ok_def in_log_def by simp
  have hm: "home ?s 5" using r s0(4) by (simp add: home_def in_log_def)
  obtain s3 where s3: "log_ok s3" "bc_inv (lbc s3)"
    "labs s3 = (labs ?s)\<lparr>a_view := (a_view (labs ?s))(5 := replicate 512 9), a_dirty := insert 5 (a_dirty (labs ?s))\<rparr>"
    "logged s3 = [5]" "log_outstanding s3 = 1" "\<not> log_committing s3"
    using logged_update [OF r(1,2) _ ok hm, of "replicate 512 9"] r by (auto simp: room_def)
  have dk: "disk (lbc s3) = disk (lbc s0)" using arg_cong [OF s3(3), of a_disk] by (simp add: abs_bc_def)
  have v: "view (lbc s3) 5 = replicate 512 9" using arg_cong [OF s3(3), of a_view] by (simp add: abs_bc_def)
  have rest: "at_rest 6 (lbc s3)"
    using s3(2,3) r(2,3) s0(2,4) dk by (simp add: at_rest_def room_def recovered_def)
  have "nat (lh_n s3) = 1"
    using arg_cong [OF s3(4), of length] log_okD(2,4) [OF s3(1)] by simp
  then have n: "lh_n s3 = 1" by simp
  have "5 \<in> set (logged s3)" unfolding s3(4) by simp
  then have "home s3 5" using s3(1) dk s0(4) by (simp add: log_ok_def home_def)
  with s3 rest n v dk s0(3) show ?thesis by auto
qed

theorem commit_crash_safe_witness:
  "\<exists>s s' r0 r2. commit s = Ok s' \<and> initlog 1 (boot (crash_disk s 1)) = Ok r0 \<and>
     disk (lbc r0) ! 5 = replicate 512 0 \<and> initlog 1 (boot (crash_disk s 2)) = Ok r2 \<and>
     disk (lbc r2) ! 5 = replicate 512 9"
proof -
  obtain s where s: "log_ok s" "at_rest 6 (lbc s)" "lh_n s = 1" "home s 5"
    "view (lbc s) 5 = replicate 512 9" "disk (lbc s) ! 5 = replicate 512 0"
    using small_transaction by blast
  have l: "1 \<le> length (commit_writes s)" "2 \<le> length (commit_writes s)"
    using s(3) by (simp_all add: commit_writes_def)
  note c = commit_crash_safe [OF s(1,2)]
  obtain s' where "commit s = Ok s'" using c by blast
  moreover obtain r0 where "initlog 1 (boot (crash_disk s 1)) = Ok r0" "disk (lbc r0) ! unat (5 :: u32) = replicate 512 0"
    using c [THEN conjunct2, THEN spec, of 1] l(1) s by auto
  moreover obtain r2 where "initlog 1 (boot (crash_disk s 2)) = Ok r2" "disk (lbc r2) ! unat (5 :: u32) = replicate 512 9"
    using c [THEN conjunct2, THEN spec, of 2] l(2) s by auto
  ultimately show ?thesis by auto
qed

text \<open>C3: the last \<open>end_op\<close> makes a transaction durable: it succeeds, empties the log, and every block outside the log then has on the disk the content the transaction gave it.\<close>

theorem end_op_durable:
  assumes "log_ok s" "at_rest N (lbc s)" "log_outstanding s = 1" "\<not> log_committing s"
  shows "\<exists>s'. end_op s = Ok s' \<and> log_ok s' \<and> at_rest N (lbc s') \<and> lh_n s' = 0 \<and> log_outstanding s' = 0 \<and>
    \<not> log_committing s' \<and> ChLog \<in> set (bc_woken (lbc s')) \<and>
    (\<forall>m. home s m \<longrightarrow> disk (lbc s') ! unat m = view (lbc s) m \<and> view (lbc s') m = view (lbc s) m)"
proof -
  let ?s = "s\<lparr>log_outstanding := 0, log_committing := True\<rparr>"
  have ok: "log_ok ?s" using assms(1) unfolding log_ok_def in_log_def by simp
  have hs: "home ?s m = home s m" for m by (simp add: home_def in_log_def)
  obtain b where b: "commit ?s = Ok (?s\<lparr>lbc := b, lh_n := 0\<rparr>)" "at_rest N b"
    "abs_bc b = fold a_write (commit_writes ?s) (labs s)"
    using commit_abs [of N ?s] ok assms(2) by auto
  have dk: "disk b = crash_disk ?s (length (commit_writes ?s))"
    using arg_cong [OF b(3), of a_disk] unfolding fold_a_write(3) by (simp add: crash_disk_def abs_bc_def)
  have fd: "home s m \<Longrightarrow> disk b ! unat m = view (lbc s) m" "get32 (disk b ! unat (log_start s)) 0 = 0"
    "disk b ! 1 = disk (lbc s) ! 1" for m
    using final_disk [of N ?s] ok assms(2) by (simp_all add: dk hs)
  have dirty: "a_dirty (abs_bc b) = {}"
    using commit_clean [OF ok] arg_cong [OF b(3), of a_dirty] by simp
  have len: "length (disk b) = length (disk (lbc s))" using b(2) assms(2) by (simp add: at_rest_def)
  let ?t = "lwakeup ChLog (?s\<lparr>lbc := b, lh_n := 0, log_committing := False\<rparr>)"
  have eo: "end_op s = Ok ?t" using b(1) assms(3,4) by (simp add: end_op_def Let_def)
  have at: "abs_bc (b\<lparr>bc_woken := w\<rparr>) = abs_bc b" "bc_inv (b\<lparr>bc_woken := w\<rparr>) = bc_inv b" for w
    by (simp_all add: abs_woken inv_woken)
  have "log_ok ?t"
    using assms(1) fd(2,3) dirty len unfolding log_ok_def in_log_def by (simp add: lwakeup_def at)
  moreover have "at_rest N (lbc ?t)" using b(2) by (simp add: at_rest_def lwakeup_def at)
  moreover have "view (lbc ?t) m = disk b ! unat m" if "home s m" for m
    using bcache.settled [of b m] b(2) dirty that len
      arg_cong [OF at(1), of a_view] by (simp add: at_rest_def home_def lwakeup_def) (simp add: abs_bc_def)
  ultimately show ?thesis using eo fd(1) by (simp add: lwakeup_def)
qed

theorem end_op_durable_witness:
  "\<exists>s s'. end_op s = Ok s' \<and> disk (lbc s) ! 5 = replicate 512 0 \<and> disk (lbc s') ! 5 = replicate 512 9"
proof -
  obtain s where s: "log_ok s" "at_rest 6 (lbc s)" "log_outstanding s = 1" "\<not> log_committing s" "home s 5"
    "view (lbc s) 5 = replicate 512 9" "disk (lbc s) ! 5 = replicate 512 0"
    using small_transaction by blast
  obtain s' where "end_op s = Ok s'" "disk (lbc s') ! unat (5 :: u32) = view (lbc s) 5"
    using end_op_durable [OF s(1-4)] s(5) by blast
  with s show ?thesis by auto
qed

text \<open>Log absorption.  Inside a transaction, \<open>log_write\<close> of a held block outside the log succeeds while there is room, lists the block exactly once however often it is written, pins it as dirty, and writes nothing to the disk.\<close>

theorem log_write_absorbs:
  assumes "bc_inv (lbc s)" "log_ok s" "held_map (lbc s) i = Some n" "home s n" "n \<noteq> 1"
    "log_outstanding s \<ge> 1" "lh_n s < LOGSIZE" "lh_n s < log_size s - 1"
  shows "\<exists>s'. log_write i s = Ok s' \<and> log_ok s' \<and>
    logged s' = (if n \<in> set (logged s) then logged s else logged s @ [n]) \<and>
    dirty_block (lbc s') n \<and> view (lbc s') = view (lbc s) \<and> disk (lbc s') = disk (lbc s)"
proof -
  obtain s' where s': "log_write i s = Ok s'" "log_ok s'"
    "labs s' = (labs s)\<lparr>a_dirty := insert n (a_dirty (labs s))\<rparr>"
    "logged s' = (if n \<in> set (logged s) then logged s else logged s @ [n])"
    "disk (lbc s') = disk (lbc s)"
    using log_write_spec [of s i n] assms by (auto simp: abs_bc_def)
  have "n \<in> a_dirty (labs s')" "a_view (labs s') = a_view (labs s)" using s'(3) by simp_all
  then have "dirty_block (lbc s') n" "view (lbc s') = view (lbc s)" by (simp_all add: abs_bc_def)
  with s' show ?thesis by auto
qed

theorem log_write_absorbs_witness:
  "\<exists>s s' i. log_write i s = Ok s' \<and> logged s = [] \<and> logged s' = [5] \<and> dirty_block (lbc s') 5"
proof -
  obtain s0 where s0: "log_ok s0" "recovered 2 3 6 s0" "length (disk (lbc s0)) = 6" using small_boot by blast
  then have r: "bc_inv (lbc s0)" "quiet (labs s0)" "room 1 (labs s0)" "unat (5 :: u32) < length (a_disk (labs s0))"
    by (simp_all add: recovered_def at_rest_def room_def) (simp add: abs_bc_def)
  then obtain i b where 1: "bread 1 5 (lbc s0) = Ok (i, b)" using bread_room_ok [OF r(1)] by fastforce
  note a = bread_abs [OF r(1) 1]
  let ?s = "s0\<lparr>lbc := b, log_outstanding := 1\<rparr>"
  have dk: "disk b = disk (lbc s0)" "a_dirty (abs_bc b) = a_dirty (labs s0)"
    using a by (simp_all add: abs_bc_def)
  have ok: "log_ok ?s" using s0(1) dk unfolding log_ok_def in_log_def by simp
  have hm: "home ?s 5" using s0 dk by (simp add: home_def in_log_def recovered_def)
  have "held_map b i = Some 5" using a by (simp add: abs_bc_def)
  then have "\<exists>s'. log_write i ?s = Ok s' \<and> log_ok s' \<and>
      logged s' = (if 5 \<in> set (logged ?s) then logged ?s else logged ?s @ [5]) \<and>
      dirty_block (lbc s') 5 \<and> view (lbc s') = view (lbc ?s) \<and> disk (lbc s') = disk (lbc ?s)"
    by (intro log_write_absorbs) (use a ok hm s0(2) in \<open>simp_all add: recovered_def\<close>)
  moreover have "logged ?s = []" using s0(2) by (simp add: recovered_def)
  ultimately obtain s' where "log_write i ?s = Ok s'" "logged ?s = []" "logged s' = [5]"
    "dirty_block (lbc s') 5" by auto
  then show ?thesis by blast
qed

section \<open>Reservation of log space\<close>

text \<open>
  Several system calls run between \<open>begin_op\<close> and \<open>end_op\<close> at once.  \<open>budget\<close> records, for
  each of them, how many of its \<open>MAXOPBLOCKS\<close> log writes are left.
\<close>

inductive log_run :: "logst \<Rightarrow> (nat \<Rightarrow> nat option) \<Rightarrow> bool" where
  op_start: "lh_n s = 0 \<Longrightarrow> log_outstanding s = 0 \<Longrightarrow> log_run s Map.empty"
| op_begin: "log_run s budget \<Longrightarrow> budget p = None \<Longrightarrow> begin_op s = Ok s' \<Longrightarrow>
    log_run s' (budget(p \<mapsto> nat MAXOPBLOCKS))"
| op_write: "log_run s budget \<Longrightarrow> budget p = Some (Suc k) \<Longrightarrow> log_write i s = Ok s' \<Longrightarrow>
    log_run s' (budget(p \<mapsto> k))"
| op_cache: "log_run s budget \<Longrightarrow> log_run (s\<lparr>lbc := b\<rparr>) budget"
| op_finish: "log_run s budget \<Longrightarrow> budget p = Some k \<Longrightarrow> end_op s = Ok s' \<Longrightarrow>
    log_run s' (budget(p := None))"

definition budget_sum :: "(nat \<Rightarrow> nat option) \<Rightarrow> nat" where
  "budget_sum f = (\<Sum>p \<in> dom f. the (f p))"

lemma budget_sum_upd:
  assumes "finite (dom f)"
  shows "f p = None \<Longrightarrow> budget_sum (f(p \<mapsto> k)) = budget_sum f + k"
    "f p = Some j \<Longrightarrow> budget_sum (f(p \<mapsto> k)) + j = budget_sum f + k"
    "f p = Some j \<Longrightarrow> budget_sum (f(p := None)) + j = budget_sum f"
proof -
  have *: "(\<Sum>q \<in> dom f - {p}. the ((f(p := x)) q)) = (\<Sum>q \<in> dom f - {p}. the (f q))" for x
    by (rule sum.cong) auto
  show "budget_sum (f(p \<mapsto> k)) = budget_sum f + k" if "f p = None"
  proof -
    have "(\<Sum>q \<in> dom f. the ((f(p \<mapsto> k)) q)) = (\<Sum>q \<in> dom f. the (f q))"
      by (rule sum.cong) (use that in auto)
    then show ?thesis using assms that by (simp add: budget_sum_def domIff)
  qed
  have rem: "budget_sum f = j + (\<Sum>q \<in> dom f - {p}. the (f q))" if "f p = Some j"
    using sum.remove [OF assms, of p "\<lambda>q. the (f q)"] that by (simp add: budget_sum_def domI)
  show "budget_sum (f(p \<mapsto> k)) + j = budget_sum f + k" if "f p = Some j"
    using rem [OF that] sum.remove [of "dom (f(p \<mapsto> k))" p "\<lambda>q. the ((f(p \<mapsto> k)) q)"] assms * [of "Some k"]
    by (simp add: budget_sum_def)
  show "budget_sum (f(p := None)) + j = budget_sum f" if "f p = Some j"
    using rem [OF that] * [of None] by (simp add: budget_sum_def)
qed

text \<open>The disk work of \<open>commit\<close> changes only the cache, and the count to 0.\<close>

lemma for_each_keeps:
  assumes "\<And>x s s'. f x s = Ok s' \<Longrightarrow> \<exists>b. s' = s\<lparr>lbc := b\<rparr>" "for_each f xs s = Ok s'"
  shows "\<exists>b. s' = s\<lparr>lbc := b\<rparr>"
  using assms(2)
proof (induction xs arbitrary: s)
  case Nil
  then have "s' = s\<lparr>lbc := lbc s\<rparr>" by simp
  then show ?case ..
next
  case (Cons x xs)
  then obtain s1 where "f x s = Ok s1" "for_each f xs s1 = Ok s'" by (auto simp: bnd_eq_Ok)
  with assms(1) Cons.IH obtain b1 b2 where "s1 = s\<lparr>lbc := b1\<rparr>" "s' = s1\<lparr>lbc := b2\<rparr>" by meson
  then show ?case by auto
qed

lemma log_io_keeps:
  "install_trans s = Ok s' \<Longrightarrow> \<exists>b. s' = s\<lparr>lbc := b\<rparr>"
  "write_log s = Ok s' \<Longrightarrow> \<exists>b. s' = s\<lparr>lbc := b\<rparr>"
  "write_head s = Ok s' \<Longrightarrow> \<exists>b. s' = s\<lparr>lbc := b\<rparr>"
proof -
  have "install_step t s = Ok s' \<Longrightarrow> \<exists>b. s' = s\<lparr>lbc := b\<rparr>"
    "write_log_step t s = Ok s' \<Longrightarrow> \<exists>b. s' = s\<lparr>lbc := b\<rparr>" for t s s'
    by (auto simp: install_step_def write_log_step_def lbread_def lbwrite_def lbrelse_def lset_def bnd_eq_Ok)
  then show "install_trans s = Ok s' \<Longrightarrow> \<exists>b. s' = s\<lparr>lbc := b\<rparr>"
    "write_log s = Ok s' \<Longrightarrow> \<exists>b. s' = s\<lparr>lbc := b\<rparr>"
    unfolding install_trans_def write_log_def by (blast intro: for_each_keeps)+
  show "write_head s = Ok s' \<Longrightarrow> \<exists>b. s' = s\<lparr>lbc := b\<rparr>"
    by (auto simp: write_head_def lbread_def lbwrite_def lbrelse_def lset_def bnd_eq_Ok)
qed

lemma commit_keeps:
  assumes "commit s = Ok s'"
  shows "\<exists>b. s' = (if lh_n s > 0 then s\<lparr>lbc := b, lh_n := 0\<rparr> else s)"
proof (cases "lh_n s > 0")
  case True
  with assms obtain s1 s2 s3 where "write_log s = Ok s1" "write_head s1 = Ok s2" "install_trans s2 = Ok s3"
    "write_head (s3\<lparr>lh_n := 0\<rparr>) = Ok s'" by (auto simp: commit_def bnd_eq_Ok)
  then obtain b1 b2 b3 b4 where "s1 = s\<lparr>lbc := b1\<rparr>" "s2 = s1\<lparr>lbc := b2\<rparr>" "s3 = s2\<lparr>lbc := b3\<rparr>"
    "s' = s3\<lparr>lh_n := 0, lbc := b4\<rparr>" using log_io_keeps by metis
  then have "s' = s\<lparr>lbc := b4, lh_n := 0\<rparr>" by simp
  with True show ?thesis by auto
next
  case False
  with assms show ?thesis by (simp add: commit_def)
qed

lemma end_op_counts:
  assumes "end_op s = Ok s'" "0 \<le> lh_n s"
  shows "log_outstanding s' = log_outstanding s - 1" "0 \<le> lh_n s'" "lh_n s' \<le> lh_n s"
proof -
  let ?s = "s\<lparr>log_outstanding := log_outstanding s - 1\<rparr>"
  have "log_outstanding s' = log_outstanding s - 1 \<and> 0 \<le> lh_n s' \<and> lh_n s' \<le> lh_n s"
  proof (cases "log_outstanding s - 1 = 0")
    case True
    with assms(1) obtain s1 where "commit (?s\<lparr>log_committing := True\<rparr>) = Ok s1"
      "s' = lwakeup ChLog (s1\<lparr>log_committing := False\<rparr>)"
      by (auto simp: end_op_def Let_def bnd_eq_Ok split: if_splits)
    with commit_keeps [of "?s\<lparr>log_committing := True\<rparr>" s1] assms(2) show ?thesis
      by (auto simp: lwakeup_def split: if_splits)
  next
    case False
    with assms show ?thesis by (auto simp: end_op_def Let_def lwakeup_def split: if_splits)
  qed
  then show "log_outstanding s' = log_outstanding s - 1" "0 \<le> lh_n s'" "lh_n s' \<le> lh_n s" by simp_all
qed

lemma log_write_counts:
  assumes "log_write i s = Ok s'"
  shows "log_outstanding s' = log_outstanding s" "lh_n s \<le> lh_n s'" "lh_n s' \<le> lh_n s + 1"
  using assms by (auto simp: log_write_def Let_def split: if_splits)

lemma log_run_inv:
  "log_run s budget \<Longrightarrow> finite (dom budget) \<and> log_outstanding s = int (card (dom budget)) \<and> 0 \<le> lh_n s \<and>
     lh_n s + int (budget_sum budget) \<le> LOGSIZE \<and> (\<forall>p k. budget p = Some k \<longrightarrow> k \<le> 10)"
proof (induction rule: log_run.induct)
  case (op_start s)
  then show ?case by (simp add: budget_sum_def)
next
  case (op_begin s budget p s')
  then have s': "s' = s\<lparr>log_outstanding := log_outstanding s + 1\<rparr>"
    "lh_n s + (log_outstanding s + 1) * 10 \<le> 30"
    by (auto simp: begin_op_def split: if_splits)
  have "p \<notin> dom budget" using op_begin.hyps by auto
  moreover have "budget_sum budget \<le> card (dom budget) * 10"
    unfolding budget_sum_def using sum_bounded_above [of "dom budget" "\<lambda>p. the (budget p)" 10] op_begin.IH
    by fastforce
  moreover have "budget_sum (budget(p \<mapsto> 10)) = budget_sum budget + 10"
    using budget_sum_upd(1) [of budget p 10] op_begin by simp
  moreover have "k \<le> 10" if "(budget(p \<mapsto> 10)) q = Some k" for q k
    using that op_begin.IH by (auto split: if_splits)
  moreover have "dom (budget(p \<mapsto> 10)) = insert p (dom budget)" by simp
  moreover have "budget(p \<mapsto> nat MAXOPBLOCKS) = budget(p \<mapsto> 10)" by simp
  ultimately show ?case using op_begin.IH s' by (simp del: fun_upd_apply)
next
  case (op_write s budget p k i s')
  have "insert p (dom budget) = dom budget" using op_write.hyps by auto
  moreover have "j \<le> 10" if "(budget(p \<mapsto> k)) q = Some j" for q j
  proof -
    have "Suc k \<le> 10" using op_write.IH op_write.hyps(2) by blast
    then show ?thesis using that op_write.IH by (cases "q = p") auto
  qed
  ultimately show ?case
    using op_write.IH budget_sum_upd(2) [of budget p "Suc k" k] log_write_counts [OF op_write.hyps(3)]
      op_write.hyps(2) by (simp del: fun_upd_apply)
next
  case (op_cache s budget b)
  then show ?case by simp
next
  case (op_finish s budget p k s')
  have "card (dom budget - {p}) + 1 = card (dom budget)"
    using op_finish by (metis Suc_eq_plus1 card_Suc_Diff1 domI)
  moreover have "j \<le> 10" if "(budget(p := None)) q = Some j" for q j
    using that op_finish.IH by (auto split: if_splits)
  ultimately show ?case
    using op_finish.IH op_finish.hyps(2) budget_sum_upd(3) [of budget p k] end_op_counts [OF op_finish.hyps(3)]
    by (simp del: fun_upd_apply)
qed



end
