(* ===== verification/Fs.thy ===== *)
theory Fs
  imports Log CString
begin

text \<open>
  The file system, \<open>fs.c\<close>: block allocator, inodes, inode content, directories and path names.

  The state \<open>fsys\<close> is the log below it (\<open>lg\<close>), the superblock \<open>sb\<close> and the inode cache.  It is
  an extensible record: the kernel state of the system calls extends it, and every operation
  here is polymorphic in the extension.  \<open>ip\<close> is an index into the inode cache.  The lock
  \<open>icache.lock\<close> makes its critical sections single steps; the sleep lock of an inode is kept,
  and a call that would wait for it is \<open>Sleeps (ChInode ip)\<close>.

  The table \<open>devsw\<close> of device routines is an argument of the operations that may call through
  it.  A path name is the list of its bytes before the terminating NUL; a name buffer of
  \<open>DIRSIZ\<close> bytes is the list of its bytes.
\<close>

abbreviation (input) NDIRECT :: nat where "NDIRECT \<equiv> 12"
abbreviation (input) NINDIRECT :: nat where "NINDIRECT \<equiv> 128"
abbreviation (input) MAXFILE :: nat where "MAXFILE \<equiv> 140"
abbreviation (input) IPB :: nat where "IPB \<equiv> 8"
abbreviation (input) BPB :: nat where "BPB \<equiv> 4096"
abbreviation (input) DIRSIZ :: nat where "DIRSIZ \<equiv> 14"
abbreviation (input) NINODE :: nat where "NINODE \<equiv> 50"
abbreviation (input) NDEV :: int where "NDEV \<equiv> 10"
abbreviation (input) ROOTDEV :: u32 where "ROOTDEV \<equiv> 1"
abbreviation (input) ROOTINO :: u32 where "ROOTINO \<equiv> 1"
abbreviation (input) T_DIR :: u16 where "T_DIR \<equiv> 1"
abbreviation (input) T_FILE :: u16 where "T_FILE \<equiv> 2"
abbreviation (input) T_DEV :: u16 where "T_DEV \<equiv> 3"
abbreviation (input) DIRENT_SIZE :: nat where "DIRENT_SIZE \<equiv> 16"

section \<open>State\<close>

record dinode =
  d_type :: u16
  d_major :: u16
  d_minor :: u16
  d_nlink :: u16
  d_size :: u32
  d_addrs :: "u32 list"

record inode =
  i_dev :: u32
  i_inum :: u32
  i_ref :: int
  i_lock :: sleeplock
  i_valid :: bool
  i_di :: dinode

record stat =
  st_type :: u16
  st_dev :: u32
  st_ino :: u32
  st_nlink :: u16
  st_size :: u32

record fsys =
  lg :: logst
  sb :: superblock
  icache :: "inode list"

type_synonym ('a, 'b) fsop = "'b fsys_scheme \<Rightarrow> ('a \<times> 'b fsys_scheme) outcome"

text \<open>The two routines of an entry of \<open>devsw\<close>, either of which may be null.\<close>

type_synonym 'b devread = "nat \<Rightarrow> nat \<Rightarrow> (int \<times> u8 list, 'b) fsop"
type_synonym 'b devwrite = "nat \<Rightarrow> u8 list \<Rightarrow> (int, 'b) fsop"
type_synonym 'b devsw = "nat \<Rightarrow> 'b devread option \<times> 'b devwrite option"

abbreviation (input) ino :: "'b fsys_scheme \<Rightarrow> nat \<Rightarrow> inode" where
  "ino s ip \<equiv> icache s ! ip"

definition upd_ino :: "nat \<Rightarrow> (inode \<Rightarrow> inode) \<Rightarrow> 'b fsys_scheme \<Rightarrow> 'b fsys_scheme" where
  "upd_ino ip f s = s\<lparr>icache := (icache s)[ip := f (icache s ! ip)]\<rparr>"

definition upd_di :: "nat \<Rightarrow> (dinode \<Rightarrow> dinode) \<Rightarrow> 'b fsys_scheme \<Rightarrow> 'b fsys_scheme" where
  "upd_di ip f s = upd_ino ip (\<lambda>i. i\<lparr>i_di := f (i_di i)\<rparr>) s"

text \<open>The operations of the log and the cache on this state.\<close>

definition fbread :: "u32 \<Rightarrow> u32 \<Rightarrow> (nat, 'b) fsop" where
  "fbread dev n s = bnd (lbread dev n (lg s)) (\<lambda>(i, l). Ok (i, s\<lparr>lg := l\<rparr>))"

definition fbrelse :: "nat \<Rightarrow> 'b fsys_scheme \<Rightarrow> 'b fsys_scheme outcome" where
  "fbrelse i s = bnd (lbrelse i (lg s)) (\<lambda>l. Ok (s\<lparr>lg := l\<rparr>))"

definition flog_write :: "nat \<Rightarrow> 'b fsys_scheme \<Rightarrow> 'b fsys_scheme outcome" where
  "flog_write i s = bnd (log_write i (lg s)) (\<lambda>l. Ok (s\<lparr>lg := l\<rparr>))"

definition fdata :: "'b fsys_scheme \<Rightarrow> nat \<Rightarrow> u8 list" where
  "fdata s i = ldata (lg s) i"

definition fset :: "nat \<Rightarrow> u8 list \<Rightarrow> 'b fsys_scheme \<Rightarrow> 'b fsys_scheme" where
  "fset i d s = s\<lparr>lg := lset i d (lg s)\<rparr>"

definition fwakeup :: "chan \<Rightarrow> 'b fsys_scheme \<Rightarrow> 'b fsys_scheme" where
  "fwakeup ch s = s\<lparr>lg := lwakeup ch (lg s)\<rparr>"

definition fpid :: "'b fsys_scheme \<Rightarrow> u32" where
  "fpid s = bc_pid (lbc (lg s))"

definition freadsb :: "u32 \<Rightarrow> 'b fsys_scheme \<Rightarrow> 'b fsys_scheme outcome" where
  "freadsb dev s = bnd (readsb dev (lg s)) (\<lambda>(b, l). Ok (s\<lparr>sb := b, lg := l\<rparr>))"

section \<open>Blocks\<close>

definition bzero :: "u32 \<Rightarrow> u32 \<Rightarrow> 'b fsys_scheme \<Rightarrow> 'b fsys_scheme outcome" where
  "bzero dev bno s = bnd (fbread dev bno s) (\<lambda>(bp, s).
     bnd (flog_write bp (fset bp (replicate BSIZE 0) s)) (fbrelse bp))"

definition BBLOCK :: "nat \<Rightarrow> superblock \<Rightarrow> u32" where
  "BBLOCK b sbk = of_nat (b div BPB) + sb_bmapstart sbk"

definition bit_mask :: "nat \<Rightarrow> u8" where
  "bit_mask bi = push_bit (bi mod 8) 1"

definition bm_free :: "u8 list \<Rightarrow> nat \<Rightarrow> bool" where
  "bm_free d bi \<longleftrightarrow> d ! (bi div 8) AND bit_mask bi = 0"

fun balloc_loop :: "u32 \<Rightarrow> nat list \<Rightarrow> (u32, 'b) fsop" where
  "balloc_loop dev [] s = Panic ''balloc: out of blocks''"
| "balloc_loop dev (b # bs) s = bnd (fbread dev (BBLOCK b (sb s)) s) (\<lambda>(bp, s).
     let d = fdata s bp in
     case find (bm_free d) [0..<min BPB (unat (sb_size (sb s)) - b)] of
       Some bi \<Rightarrow>
         bnd (flog_write bp (fset bp (d[bi div 8 := d ! (bi div 8) OR bit_mask bi]) s)) (\<lambda>s.
         bnd (fbrelse bp s) (\<lambda>s.
         bnd (bzero dev (of_nat (b + bi)) s) (\<lambda>s. Ok (of_nat (b + bi), s))))
     | None \<Rightarrow> bnd (fbrelse bp s) (balloc_loop dev bs))"

text \<open>The values the outer loop gives \<open>b\<close>.\<close>

definition balloc :: "u32 \<Rightarrow> (u32, 'b) fsop" where
  "balloc dev s =
     balloc_loop dev (map (\<lambda>k. BPB * k) [0..<(unat (sb_size (sb s)) + BPB - 1) div BPB]) s"

definition bfree :: "u32 \<Rightarrow> u32 \<Rightarrow> 'b fsys_scheme \<Rightarrow> 'b fsys_scheme outcome" where
  "bfree dev b s =
     bnd (freadsb dev s) (\<lambda>s.
     bnd (fbread dev (BBLOCK (unat b) (sb s)) s) (\<lambda>(bp, s).
     let d = fdata s bp; bi = unat b mod BPB in
     if bm_free d bi then Panic ''freeing free block''
     else bnd (flog_write bp (fset bp (d[bi div 8 := d ! (bi div 8) AND NOT (bit_mask bi)]) s)) (fbrelse bp)))"

section \<open>Inodes\<close>

definition IBLOCK :: "u32 \<Rightarrow> superblock \<Rightarrow> u32" where
  "IBLOCK i sbk = of_nat (unat i div IPB) + sb_inodestart sbk"

definition dip_off :: "u32 \<Rightarrow> nat" where
  "dip_off inum = 64 * (unat inum mod IPB)"

definition dinode_at :: "u8 list \<Rightarrow> nat \<Rightarrow> dinode" where
  "dinode_at d k = \<lparr>d_type = get16 d k, d_major = get16 d (k + 2), d_minor = get16 d (k + 4),
     d_nlink = get16 d (k + 6), d_size = get32 d (k + 8),
     d_addrs = map (\<lambda>j. get32 d (k + 12 + 4 * j)) [0..<13]\<rparr>"

definition dinode_bytes :: "dinode \<Rightarrow> u8 list" where
  "dinode_bytes di = bytes16 (d_type di) @ bytes16 (d_major di) @ bytes16 (d_minor di) @
     bytes16 (d_nlink di) @ bytes32 (d_size di) @ concat (map bytes32 (d_addrs di))"

definition zero_dinode :: dinode where
  "zero_dinode = \<lparr>d_type = 0, d_major = 0, d_minor = 0, d_nlink = 0, d_size = 0, d_addrs = replicate 13 0\<rparr>"

definition iinit :: "u32 \<Rightarrow> 'b fsys_scheme \<Rightarrow> 'b fsys_scheme outcome" where
  "iinit dev s = freadsb dev (s\<lparr>icache := map (\<lambda>i. i\<lparr>i_lock := initsleeplock\<rparr>) (icache s)\<rparr>)"

definition iget :: "u32 \<Rightarrow> u32 \<Rightarrow> (nat, 'b) fsop" where
  "iget dev inum s =
     (case find (\<lambda>i. i_ref (icache s ! i) > 0 \<and> i_dev (icache s ! i) = dev \<and> i_inum (icache s ! i) = inum)
        [0..<length (icache s)] of
        Some ip \<Rightarrow> Ok (ip, upd_ino ip (\<lambda>i. i\<lparr>i_ref := i_ref i + 1\<rparr>) s)
      | None \<Rightarrow>
          (case find (\<lambda>i. i_ref (icache s ! i) = 0) [0..<length (icache s)] of
             None \<Rightarrow> Panic ''iget: no inodes''
           | Some ip \<Rightarrow>
               Ok (ip, upd_ino ip (\<lambda>i. i\<lparr>i_dev := dev, i_inum := inum, i_ref := 1, i_valid := False\<rparr>) s)))"

fun ialloc_loop :: "u32 \<Rightarrow> u16 \<Rightarrow> u32 list \<Rightarrow> (nat, 'b) fsop" where
  "ialloc_loop dev type [] s = Panic ''ialloc: no inodes''"
| "ialloc_loop dev type (inum # is) s = bnd (fbread dev (IBLOCK inum (sb s)) s) (\<lambda>(bp, s).
     let d = fdata s bp; k = dip_off inum in
     if d_type (dinode_at d k) = 0 then
       bnd (flog_write bp (fset bp (splice d k (dinode_bytes (zero_dinode\<lparr>d_type := type\<rparr>))) s)) (\<lambda>s.
       bnd (fbrelse bp s) (iget dev inum))
     else bnd (fbrelse bp s) (ialloc_loop dev type is))"

definition ialloc :: "u32 \<Rightarrow> u16 \<Rightarrow> (nat, 'b) fsop" where
  "ialloc dev type s = ialloc_loop dev type (map of_nat [1..<unat (sb_ninodes (sb s))]) s"

definition iupdate :: "nat \<Rightarrow> 'b fsys_scheme \<Rightarrow> 'b fsys_scheme outcome" where
  "iupdate ip s = bnd (fbread (i_dev (ino s ip)) (IBLOCK (i_inum (ino s ip)) (sb s)) s) (\<lambda>(bp, s).
     let d = splice (fdata s bp) (dip_off (i_inum (ino s ip))) (dinode_bytes (i_di (ino s ip)))
     in bnd (flog_write bp (fset bp d s)) (fbrelse bp))"

definition idup :: "nat \<Rightarrow> 'b fsys_scheme \<Rightarrow> nat \<times> 'b fsys_scheme" where
  "idup ip s = (ip, upd_ino ip (\<lambda>i. i\<lparr>i_ref := i_ref i + 1\<rparr>) s)"

definition ilock :: "nat \<Rightarrow> 'b fsys_scheme \<Rightarrow> 'b fsys_scheme outcome" where
  "ilock ip s =
     (if i_ref (ino s ip) < 1 then Panic ''ilock''
      else bnd (acquiresleep (ChInode ip) (fpid s) (i_lock (ino s ip))) (\<lambda>lk.
        let s = upd_ino ip (\<lambda>i. i\<lparr>i_lock := lk\<rparr>) s in
        if \<not> i_valid (ino s ip) then
          bnd (fbread (i_dev (ino s ip)) (IBLOCK (i_inum (ino s ip)) (sb s)) s) (\<lambda>(bp, s).
            let s = upd_ino ip (\<lambda>i. i\<lparr>i_di := dinode_at (fdata s bp) (dip_off (i_inum i))\<rparr>) s in
            bnd (fbrelse bp s) (\<lambda>s.
              let s = upd_ino ip (\<lambda>i. i\<lparr>i_valid := True\<rparr>) s in
              if d_type (i_di (ino s ip)) = 0 then Panic ''ilock: no type'' else Ok s))
        else Ok s))"

definition irelease :: "nat \<Rightarrow> 'b fsys_scheme \<Rightarrow> 'b fsys_scheme" where
  "irelease ip s = fwakeup (ChInode ip) (upd_ino ip (\<lambda>i. i\<lparr>i_lock := releasesleep (i_lock i)\<rparr>) s)"

definition iunlock :: "nat \<Rightarrow> 'b fsys_scheme \<Rightarrow> 'b fsys_scheme outcome" where
  "iunlock ip s =
     (if \<not> holdingsleep (i_lock (ino s ip)) \<or> i_ref (ino s ip) < 1 then Panic ''iunlock''
      else Ok (irelease ip s))"

section \<open>Inode content\<close>

definition bmap :: "nat \<Rightarrow> nat \<Rightarrow> (u32, 'b) fsop" where
  "bmap ip bn s =
     (if bn < NDIRECT then
        (let addr = d_addrs (i_di (ino s ip)) ! bn in
         if addr = 0 then
           bnd (balloc (i_dev (ino s ip)) s) (\<lambda>(addr, s).
             Ok (addr, upd_di ip (\<lambda>d. d\<lparr>d_addrs := (d_addrs d)[bn := addr]\<rparr>) s))
         else Ok (addr, s))
      else if bn - NDIRECT < NINDIRECT then
        (let bn = bn - NDIRECT; addr = d_addrs (i_di (ino s ip)) ! NDIRECT in
         bnd (if addr = 0 then
                bnd (balloc (i_dev (ino s ip)) s) (\<lambda>(addr, s).
                  Ok (addr, upd_di ip (\<lambda>d. d\<lparr>d_addrs := (d_addrs d)[NDIRECT := addr]\<rparr>) s))
              else Ok (addr, s)) (\<lambda>(addr, s).
         bnd (fbread (i_dev (ino s ip)) addr s) (\<lambda>(bp, s).
         let addr = get32 (fdata s bp) (4 * bn) in
         bnd (if addr = 0 then
                bnd (balloc (i_dev (ino s ip)) s) (\<lambda>(addr, s).
                bnd (flog_write bp (fset bp (splice (fdata s bp) (4 * bn) (bytes32 addr)) s)) (\<lambda>s.
                  Ok (addr, s)))
              else Ok (addr, s)) (\<lambda>(addr, s).
         bnd (fbrelse bp s) (\<lambda>s. Ok (addr, s))))))
      else Panic ''bmap: out of range'')"

fun itrunc_direct :: "nat \<Rightarrow> nat list \<Rightarrow> 'b fsys_scheme \<Rightarrow> 'b fsys_scheme outcome" where
  "itrunc_direct ip [] s = Ok s"
| "itrunc_direct ip (i # is) s =
     (if d_addrs (i_di (ino s ip)) ! i \<noteq> 0 then
        bnd (bfree (i_dev (ino s ip)) (d_addrs (i_di (ino s ip)) ! i) s) (\<lambda>s.
          itrunc_direct ip is (upd_di ip (\<lambda>d. d\<lparr>d_addrs := (d_addrs d)[i := 0]\<rparr>) s))
      else itrunc_direct ip is s)"

fun itrunc_indirect :: "nat \<Rightarrow> nat \<Rightarrow> nat list \<Rightarrow> 'b fsys_scheme \<Rightarrow> 'b fsys_scheme outcome" where
  "itrunc_indirect ip bp [] s = Ok s"
| "itrunc_indirect ip bp (j # js) s =
     (if get32 (fdata s bp) (4 * j) \<noteq> 0 then
        bnd (bfree (i_dev (ino s ip)) (get32 (fdata s bp) (4 * j)) s) (itrunc_indirect ip bp js)
      else itrunc_indirect ip bp js s)"

definition itrunc :: "nat \<Rightarrow> 'b fsys_scheme \<Rightarrow> 'b fsys_scheme outcome" where
  "itrunc ip s =
     bnd (itrunc_direct ip [0..<NDIRECT] s) (\<lambda>s.
     bnd (let addr = d_addrs (i_di (ino s ip)) ! NDIRECT in
          if addr \<noteq> 0 then
            bnd (fbread (i_dev (ino s ip)) addr s) (\<lambda>(bp, s).
            bnd (itrunc_indirect ip bp [0..<NINDIRECT] s) (\<lambda>s.
            bnd (fbrelse bp s) (\<lambda>s.
            bnd (bfree (i_dev (ino s ip)) (d_addrs (i_di (ino s ip)) ! NDIRECT) s) (\<lambda>s.
              Ok (upd_di ip (\<lambda>d. d\<lparr>d_addrs := (d_addrs d)[NDIRECT := 0]\<rparr>) s)))))
          else Ok s) (\<lambda>s.
     iupdate ip (upd_di ip (\<lambda>d. d\<lparr>d_size := 0\<rparr>) s)))"

definition iput :: "nat \<Rightarrow> 'b fsys_scheme \<Rightarrow> 'b fsys_scheme outcome" where
  "iput ip s =
     bnd (acquiresleep (ChInode ip) (fpid s) (i_lock (ino s ip))) (\<lambda>lk.
     let s = upd_ino ip (\<lambda>i. i\<lparr>i_lock := lk\<rparr>) s in
     bnd (if i_valid (ino s ip) \<and> d_nlink (i_di (ino s ip)) = 0 \<and> i_ref (ino s ip) = 1 then
            bnd (itrunc ip s) (\<lambda>s.
            bnd (iupdate ip (upd_di ip (\<lambda>d. d\<lparr>d_type := 0\<rparr>) s)) (\<lambda>s.
              Ok (upd_ino ip (\<lambda>i. i\<lparr>i_valid := False\<rparr>) s)))
          else Ok s) (\<lambda>s.
     Ok (upd_ino ip (\<lambda>i. i\<lparr>i_ref := i_ref i - 1\<rparr>) (irelease ip s))))"

definition iunlockput :: "nat \<Rightarrow> 'b fsys_scheme \<Rightarrow> 'b fsys_scheme outcome" where
  "iunlockput ip s = bnd (iunlock ip s) (iput ip)"

definition stati :: "nat \<Rightarrow> 'b fsys_scheme \<Rightarrow> stat" where
  "stati ip s = (let i = ino s ip in
     \<lparr>st_type = d_type (i_di i), st_dev = i_dev i, st_ino = i_inum i, st_nlink = d_nlink (i_di i),
      st_size = d_size (i_di i)\<rparr>)"

text \<open>
  The loops of \<open>readi\<close> and \<open>writei\<close>.  Their callers exclude that \<open>off + n\<close> wraps, so the
  offsets are natural numbers.
\<close>

function readi_loop :: "nat \<Rightarrow> nat \<Rightarrow> nat \<Rightarrow> (u8 list, 'b) fsop" where
  "readi_loop ip off n s =
     (if n = 0 then Ok ([], s)
      else
        (let m = min n (BSIZE - off mod BSIZE) in
         bnd (bmap ip (off div BSIZE) s) (\<lambda>(addr, s).
         bnd (fbread (i_dev (ino s ip)) addr s) (\<lambda>(bp, s).
         let d = slice (fdata s bp) (off mod BSIZE) m in
         bnd (fbrelse bp s) (\<lambda>s.
         bnd (readi_loop ip (off + m) (n - m) s) (\<lambda>(ds, s). Ok (d @ ds, s)))))))"
  by pat_completeness auto
termination
  by (relation "measure (\<lambda>(ip, off, n, s). n)") auto

definition readi :: "'b devsw \<Rightarrow> nat \<Rightarrow> u32 \<Rightarrow> u32 \<Rightarrow> (int \<times> u8 list, 'b) fsop" where
  "readi devsw ip off n s =
     (let di = i_di (ino s ip) in
      if d_type di = T_DEV then
        (if sint (d_major di) < 0 \<or> sint (d_major di) \<ge> NDEV then Ok ((-1, []), s)
         else case fst (devsw (unat (d_major di))) of
           None \<Rightarrow> Ok ((-1, []), s) | Some rd \<Rightarrow> rd ip (unat n) s)
      else if off > d_size di \<or> off + n < off then Ok ((-1, []), s)
      else
        (let n = (if off + n > d_size di then d_size di - off else n) in
         bnd (readi_loop ip (unat off) (unat n) s) (\<lambda>(ds, s). Ok ((sint n, ds), s))))"

function writei_loop :: "nat \<Rightarrow> nat \<Rightarrow> u8 list \<Rightarrow> 'b fsys_scheme \<Rightarrow> 'b fsys_scheme outcome" where
  "writei_loop ip off src s =
     (if src = [] then Ok s
      else
        (let m = min (length src) (BSIZE - off mod BSIZE) in
         bnd (bmap ip (off div BSIZE) s) (\<lambda>(addr, s).
         bnd (fbread (i_dev (ino s ip)) addr s) (\<lambda>(bp, s).
         bnd (flog_write bp (fset bp (splice (fdata s bp) (off mod BSIZE) (take m src)) s)) (\<lambda>s.
         bnd (fbrelse bp s) (writei_loop ip (off + m) (drop m src)))))))"
  by pat_completeness auto
termination
  by (relation "measure (\<lambda>(ip, off, src, s). length src)") auto

declare readi_loop.simps [simp del] writei_loop.simps [simp del]

definition writei :: "'b devsw \<Rightarrow> nat \<Rightarrow> u8 list \<Rightarrow> u32 \<Rightarrow> u32 \<Rightarrow> (int, 'b) fsop" where
  "writei devsw ip src off n s =
     (let di = i_di (ino s ip) in
      if d_type di = T_DEV then
        (if sint (d_major di) < 0 \<or> sint (d_major di) \<ge> NDEV then Ok (-1, s)
         else case snd (devsw (unat (d_major di))) of
           None \<Rightarrow> Ok (-1, s) | Some wr \<Rightarrow> wr ip (take (unat n) src) s)
      else if off > d_size di \<or> off + n < off then Ok (-1, s)
      else if off + n > of_nat (MAXFILE * BSIZE) then Ok (-1, s)
      else
        bnd (writei_loop ip (unat off) (take (unat n) src) s) (\<lambda>s.
        bnd (if n > 0 \<and> off + n > d_size (i_di (ino s ip)) then
               iupdate ip (upd_di ip (\<lambda>d. d\<lparr>d_size := off + n\<rparr>) s)
             else Ok s) (\<lambda>s. Ok (sint n, s))))"

section \<open>Directories\<close>

definition namecmp :: "u8 list \<Rightarrow> u8 list \<Rightarrow> int" where
  "namecmp s t = strncmp (arr s) (arr t) DIRSIZ"

definition de_inum :: "u8 list \<Rightarrow> u16" where
  "de_inum de = get16 de 0"

definition de_name :: "u8 list \<Rightarrow> u8 list" where
  "de_name de = drop 2 de"

definition dirent_offs :: "u32 \<Rightarrow> u32 list" where
  "dirent_offs sz = map (\<lambda>k. of_nat (DIRENT_SIZE * k)) [0..<(unat sz + 15) div DIRENT_SIZE]"

fun dirlookup_loop :: "'b devsw \<Rightarrow> nat \<Rightarrow> u8 list \<Rightarrow> u32 list \<Rightarrow> ((nat \<times> u32) option, 'b) fsop" where
  "dirlookup_loop devsw dp name [] s = Ok (None, s)"
| "dirlookup_loop devsw dp name (off # offs) s = bnd (readi devsw dp off 16 s) (\<lambda>((r, de), s).
     if r \<noteq> 16 then Panic ''dirlookup read''
     else if de_inum de = 0 then dirlookup_loop devsw dp name offs s
     else if namecmp name (de_name de) = 0 then
       bnd (iget (i_dev (ino s dp)) (ucast (de_inum de)) s) (\<lambda>(ip, s). Ok (Some (ip, off), s))
     else dirlookup_loop devsw dp name offs s)"

text \<open>The offset stored through \<open>poff\<close> is returned with the inode.\<close>

definition dirlookup :: "'b devsw \<Rightarrow> nat \<Rightarrow> u8 list \<Rightarrow> ((nat \<times> u32) option, 'b) fsop" where
  "dirlookup devsw dp name s =
     (if d_type (i_di (ino s dp)) \<noteq> T_DIR then Panic ''dirlookup not DIR''
      else dirlookup_loop devsw dp name (dirent_offs (d_size (i_di (ino s dp)))) s)"

fun dirlink_slot :: "'b devsw \<Rightarrow> nat \<Rightarrow> u32 list \<Rightarrow> (u32, 'b) fsop" where
  "dirlink_slot devsw dp [] s = Ok (of_nat (DIRENT_SIZE * ((unat (d_size (i_di (ino s dp))) + 15) div DIRENT_SIZE)), s)"
| "dirlink_slot devsw dp (off # offs) s = bnd (readi devsw dp off 16 s) (\<lambda>((r, de), s).
     if r \<noteq> 16 then Panic ''dirlink read''
     else if de_inum de = 0 then Ok (off, s)
     else dirlink_slot devsw dp offs s)"

definition dirlink :: "'b devsw \<Rightarrow> nat \<Rightarrow> u8 list \<Rightarrow> u32 \<Rightarrow> (int, 'b) fsop" where
  "dirlink devsw dp name inum s = bnd (dirlookup devsw dp name s) (\<lambda>(r, s).
     case r of
       Some (ip, _) \<Rightarrow> bnd (iput ip s) (\<lambda>s. Ok (-1, s))
     | None \<Rightarrow>
         bnd (dirlink_slot devsw dp (dirent_offs (d_size (i_di (ino s dp)))) s) (\<lambda>(off, s).
         bnd (writei devsw dp (bytes16 (ucast inum) @ strncpy_arr (arr name) DIRSIZ) off 16 s) (\<lambda>(r, s).
         if r \<noteq> 16 then Panic ''dirlink'' else Ok (0, s))))"

section \<open>Paths\<close>

abbreviation (input) slash :: u8 where "slash \<equiv> 47"

text \<open>
  \<open>skipelem path name\<close> returns the rest of the path and the new content of the name buffer, or
  \<open>None\<close> for the null pointer.
\<close>

definition skipelem :: "u8 list \<Rightarrow> u8 list \<Rightarrow> (u8 list \<times> u8 list) option" where
  "skipelem path name =
     (let path = dropWhile (\<lambda>c. c = slash) path in
      if path = [] then None
      else
        (let s = takeWhile (\<lambda>c. c \<noteq> slash) path; path = dropWhile (\<lambda>c. c \<noteq> slash) path;
             name = (if length s \<ge> DIRSIZ then splice name 0 (take DIRSIZ s) else splice name 0 (s @ [0]))
         in Some (dropWhile (\<lambda>c. c = slash) path, name)))"

lemma skipelem_shorter: "skipelem path name = Some (rest, name') \<Longrightarrow> length rest < length path"
proof -
  assume "skipelem path name = Some (rest, name')"
  then have ne: "dropWhile (\<lambda>c. c = slash) path \<noteq> []"
    and rest: "rest = dropWhile (\<lambda>c. c = slash) (dropWhile (\<lambda>c. c \<noteq> slash) (dropWhile (\<lambda>c. c = slash) path))"
    by (auto simp: skipelem_def Let_def split: if_splits)
  let ?p = "dropWhile (\<lambda>c. c = slash) path"
  have "hd ?p \<noteq> slash" using hd_dropWhile [OF ne] .
  then have "length (dropWhile (\<lambda>c. c \<noteq> slash) ?p) < length ?p"
    using ne by (cases ?p) (auto simp: le_imp_less_Suc length_dropWhile_le)
  moreover have "length rest \<le> length (dropWhile (\<lambda>c. c \<noteq> slash) ?p)"
    unfolding rest by (rule length_dropWhile_le)
  moreover have "length ?p \<le> length path" by (rule length_dropWhile_le)
  ultimately show ?thesis by linarith
qed

function namex_loop :: "'b devsw \<Rightarrow> bool \<Rightarrow> u8 list \<Rightarrow> u8 list \<Rightarrow> nat \<Rightarrow> (nat option \<times> u8 list, 'b) fsop" where
  "namex_loop devsw parent path name ip s =
     (case skipelem path name of
        None \<Rightarrow>
          (if parent then bnd (iput ip s) (\<lambda>s. Ok ((None, name), s)) else Ok ((Some ip, name), s))
      | Some (path', name') \<Rightarrow>
          bnd (ilock ip s) (\<lambda>s.
          if d_type (i_di (ino s ip)) \<noteq> T_DIR then bnd (iunlockput ip s) (\<lambda>s. Ok ((None, name'), s))
          else if parent \<and> path' = [] then bnd (iunlock ip s) (\<lambda>s. Ok ((Some ip, name'), s))
          else bnd (dirlookup devsw ip name' s) (\<lambda>(r, s).
            case r of
              None \<Rightarrow> bnd (iunlockput ip s) (\<lambda>s. Ok ((None, name'), s))
            | Some (next, _) \<Rightarrow> bnd (iunlockput ip s) (namex_loop devsw parent path' name' next))))"
  by pat_completeness auto
termination
  by (relation "measure (\<lambda>(devsw, parent, path, name, ip, s). length path)") (auto dest: skipelem_shorter)

declare namex_loop.simps [simp del]

text \<open>\<open>cwd\<close> is \<open>myproc()->cwd\<close>, \<open>name\<close> the buffer the caller passes.\<close>

definition namex :: "'b devsw \<Rightarrow> nat \<Rightarrow> u8 list \<Rightarrow> bool \<Rightarrow> u8 list \<Rightarrow> (nat option \<times> u8 list, 'b) fsop" where
  "namex devsw cwd path parent name s =
     bnd (if path \<noteq> [] \<and> hd path = slash then iget ROOTDEV ROOTINO s else Ok (idup cwd s)) (\<lambda>(ip, s).
       namex_loop devsw parent path name ip s)"

definition namei :: "'b devsw \<Rightarrow> nat \<Rightarrow> u8 list \<Rightarrow> (nat option, 'b) fsop" where
  "namei devsw cwd path s =
     bnd (namex devsw cwd path False (replicate DIRSIZ 0) s) (\<lambda>((r, _), s). Ok (r, s))"

definition nameiparent :: "'b devsw \<Rightarrow> nat \<Rightarrow> u8 list \<Rightarrow> u8 list \<Rightarrow> (nat option \<times> u8 list, 'b) fsop" where
  "nameiparent devsw cwd path name s = namex devsw cwd path True name s"

end
