(* ===== verification/Fs_Blocks.thy ===== *)
theory Fs_Blocks
  imports Fs
begin

text \<open>
  The block level of the file system: the operations of the cache and the log on the state of
  \<open>fs.c\<close> provide the interface \<open>block_reads\<close>, which reduces every operation to its effect on
  the content of blocks.  With it: the bitmap of the block allocator (\<open>balloc\<close>, \<open>bfree\<close>),
  and inodes written to and read from their blocks (\<open>iupdate\<close>, \<open>ilock\<close>).
\<close>

section \<open>The state as a block store\<close>

abbreviation fbc :: "'b fsys_scheme \<Rightarrow> bcache" where "fbc s \<equiv> lbc (lg s)"
abbreviation finv :: "'b fsys_scheme \<Rightarrow> bool" where "finv s \<equiv> bc_inv (fbc s)"
abbreviation fabs :: "'b fsys_scheme \<Rightarrow> astore" where "fabs s \<equiv> abs_bc (fbc s)"
abbreviation fview :: "'b fsys_scheme \<Rightarrow> u32 \<Rightarrow> u8 list" where "fview s \<equiv> a_view (fabs s)"

definition same_fs :: "'b fsys_scheme \<Rightarrow> 'b fsys_scheme \<Rightarrow> bool" where
  "same_fs s s' \<longleftrightarrow> (\<exists>l. s' = s\<lparr>lg := l\<rparr>)"

lemma same_fs_refl [simp]: "same_fs s s"
proof -
  have "s = s\<lparr>lg := lg s\<rparr>" by simp
  then show ?thesis unfolding same_fs_def by metis
qed

lemma same_fs_trans [trans]: "same_fs s s' \<Longrightarrow> same_fs s' s'' \<Longrightarrow> same_fs s s''"
  by (auto simp: same_fs_def)

lemma same_fs_sel:
  "same_fs s s' \<Longrightarrow> icache s' = icache s" "same_fs s s' \<Longrightarrow> sb s' = sb s"
  "same_fs s s' \<Longrightarrow> fsys.more s' = fsys.more s"
  by (auto simp: same_fs_def)

lemma fbread_Ok: "fbread dev n s = Ok (i, s') \<longleftrightarrow>
    (\<exists>b. bread dev n (fbc s) = Ok (i, b) \<and> s' = s\<lparr>lg := (lg s)\<lparr>lbc := b\<rparr>\<rparr>)"
  by (auto simp: fbread_def lbread_def bnd_eq_Ok)

lemma fbrelse_Ok: "fbrelse i s = Ok s' \<longleftrightarrow>
    (\<exists>b. brelse i (fbc s) = Ok b \<and> s' = s\<lparr>lg := (lg s)\<lparr>lbc := b\<rparr>\<rparr>)"
  by (auto simp: fbrelse_def lbrelse_def bnd_eq_Ok)

lemma same_fs_ops:
  "fbread dev n s = Ok (i, s') \<Longrightarrow> same_fs s s'" "fbrelse i s = Ok s' \<Longrightarrow> same_fs s s'"
  "flog_write i s = Ok s' \<Longrightarrow> same_fs s s'" "same_fs s (fset i d s)" "same_fs s (fwakeup ch s)"
  by (auto simp: fbread_Ok fbrelse_Ok flog_write_def bnd_eq_Ok fset_def fwakeup_def same_fs_def)

interpretation fs: block_reads "fbread 1" fbrelse fdata fset finv fabs
proof unfold_locales
  fix s s' :: "'b fsys_scheme" and n i d
  show "finv s \<Longrightarrow> fbread 1 n s = Ok (i, s') \<Longrightarrow> finv s' \<and>
      fabs s' = (fabs s)\<lparr>a_held := (a_held (fabs s))(i \<mapsto> n)\<rparr> \<and>
      a_held (fabs s) i = None \<and> n \<notin> ran (a_held (fabs s)) \<and> unat n < length (a_disk (fabs s))"
    using bread_abs [of "fbc s" n i] by (auto simp: fbread_Ok)
  show "finv s \<Longrightarrow> unat n < length (a_disk (fabs s)) \<Longrightarrow> n \<notin> ran (a_held (fabs s)) \<Longrightarrow>
      room 1 (fabs s) \<Longrightarrow> \<exists>i s'. fbread 1 n s = Ok (i, s')"
    using bread_room_ok [of "fbc s" n] by (auto simp: fbread_Ok)
  show "finv s \<Longrightarrow> a_held (fabs s) i = Some n \<Longrightarrow> fdata s i = fview s n"
    using bcache.data_abs [of "fbc s" i n] by (simp add: fdata_def ldata_def)
  show "finv s \<Longrightarrow> a_held (fabs s) i = Some n \<Longrightarrow> length d = BSIZE \<Longrightarrow>
      finv (fset i d s) \<and> fabs (fset i d s) = (fabs s)\<lparr>a_view := (fview s)(n := d)\<rparr>"
    using set_data_abs [of "fbc s" i n d] by (simp add: fset_def lset_def)
  show "finv s \<Longrightarrow> a_held (fabs s) i = Some n \<Longrightarrow>
      n \<in> a_dirty (fabs s) \<or> fview s n = a_disk (fabs s) ! unat n \<Longrightarrow>
      \<exists>s'. fbrelse i s = Ok s' \<and> finv s' \<and> fabs s' = (fabs s)\<lparr>a_held := (a_held (fabs s))(i := None)\<rparr>"
    using brelse_abs [of "fbc s" i n] by (auto simp: fbrelse_Ok)
  show "finv s \<Longrightarrow> unat n < length (a_disk (fabs s)) \<Longrightarrow> n \<notin> ran (a_held (fabs s)) \<Longrightarrow>
      n \<in> a_dirty (fabs s) \<or> fview s n = a_disk (fabs s) ! unat n"
    by (rule bcache.settled)
  show "finv s \<Longrightarrow> unat n < length (a_disk (fabs s)) \<Longrightarrow> length (fview s n) = BSIZE"
    by (rule bcache.view_len)
  show "finv s \<Longrightarrow> finite (dom (a_held (fabs s)))" by (rule bcache.held_finite)
qed

lemma flog_write_abs:
  assumes inv: "finv s" and h: "a_held (fabs s) i = Some n" and ok: "flog_write i s = Ok s'"
  shows "finv s' \<and> fabs s' = (fabs s)\<lparr>a_dirty := insert n (a_dirty (fabs s))\<rparr>"
proof -
  from ok have "fbc s' = upd_buf i (\<lambda>x. x\<lparr>b_dirty := True\<rparr>) (fbc s)"
    by (auto simp: flog_write_def bnd_eq_Ok log_write_def Let_def split: if_splits)
  then show ?thesis using mark_dirty_abs [OF inv h] by simp
qed

text \<open>The two access patterns of \<open>fs.c\<close>: read a block, or update it through the log.\<close>

lemma read_release:
  assumes "finv s" "fbread 1 n s = Ok (i, s1)" "fbrelse i s1 = Ok s2"
  shows "finv s2" "fabs s2 = fabs s" "same_fs s s2" "fdata s1 i = fview s n"
    "unat n < length (a_disk (fabs s))" "length (fview s n) = BSIZE"
  using fs.rd_rel [OF assms(1,2)] fs.rd_data [OF assms(1,2)] assms(3) fs.rd_absD [OF assms(1,2)]
    same_fs_trans [OF same_fs_ops(1) [OF assms(2)] same_fs_ops(2) [OF assms(3)]]
    fs.view_len [OF assms(1)]
  by auto

definition a_update :: "u32 \<Rightarrow> u8 list \<Rightarrow> astore \<Rightarrow> astore" where
  "a_update n d a = a\<lparr>a_view := (a_view a)(n := d), a_dirty := insert n (a_dirty a)\<rparr>"

lemma a_update_sel [simp]:
  "a_view (a_update n d a) = (a_view a)(n := d)" "a_held (a_update n d a) = a_held a"
  "a_disk (a_update n d a) = a_disk a"
  by (simp_all add: a_update_def)

lemma log_update:
  assumes inv: "finv s" and rd: "fbread 1 n s = Ok (i, s1)"
    and wr: "flog_write i (fset i d s1) = Ok s2" and rel: "fbrelse i s2 = Ok s3" and d: "length d = BSIZE"
  shows "finv s3" "fabs s3 = a_update n d (fabs s)" "same_fs s s3" "fdata s1 i = fview s n"
    "unat n < length (a_disk (fabs s))" "length (fview s n) = BSIZE"
proof -
  note r = fs.rd_absD [OF inv rd]
  have h1: "a_held (fabs s1) i = Some n" using r(2) by simp
  note sd = fs.setd_abs [OF r(1) h1 d]
  have h2: "a_held (fabs (fset i d s1)) i = Some n" using sd h1 by simp
  note w = flog_write_abs [OF conjunct1 [OF sd] h2 wr]
  have h3: "a_held (fabs s2) i = Some n" "n \<in> a_dirty (fabs s2)" using w h2 by simp_all
  obtain s' where s': "fbrelse i s2 = Ok s'" "finv s'"
    "fabs s' = (fabs s2)\<lparr>a_held := (a_held (fabs s2))(i := None)\<rparr>"
    using fs.rel_abs [OF conjunct1 [OF w] h3(1)] h3(2) by blast
  then have "s' = s3" using rel by simp
  with s' show "finv s3" by simp
  have "(a_held (fabs s))(i := None) = a_held (fabs s)" using r(3) by (rule fun_upd_idem)
  then show "fabs s3 = a_update n d (fabs s)"
    using s' \<open>s' = s3\<close> w sd r(2) by (simp add: a_update_def)
  show "same_fs s s3"
    using same_fs_ops(1) [OF rd] same_fs_ops(4) [of s1 i d] same_fs_ops(3) [OF wr] same_fs_ops(2) [OF rel]
    by (blast intro: same_fs_trans)
  show "fdata s1 i = fview s n" by (rule fs.rd_data [OF inv rd])
  show "unat n < length (a_disk (fabs s))" by (rule r(5))
  then show "length (fview s n) = BSIZE" by (rule fs.view_len [OF inv])
qed

text \<open>A transaction in which \<open>k\<close> more blocks can be logged, and no buffer is held.\<close>

definition txn :: "nat \<Rightarrow> 'b fsys_scheme \<Rightarrow> bool" where
  "txn k s \<longleftrightarrow> finv s \<and> log_ok (lg s) \<and> quiet (fabs s) \<and> 1 \<le> log_outstanding (lg s) \<and>
     lh_n (lg s) + int k \<le> 30 \<and> lh_n (lg s) + int k \<le> log_size (lg s) - 1 \<and>
     card (a_dirty (fabs s)) + k \<le> a_bufs (fabs s)"

lemma txn_update:
  assumes t: "txn (Suc k) s" and n: "home (lg s) n" "n \<noteq> 1" and d: "length d = BSIZE"
  shows "\<exists>i s1 s2 s3. fbread 1 n s = Ok (i, s1) \<and> fdata s1 i = fview s n \<and>
    flog_write i (fset i d s1) = Ok s2 \<and> fbrelse i s2 = Ok s3 \<and> txn k s3 \<and> same_fs s s3 \<and>
    fabs s3 = a_update n d (fabs s) \<and> (\<forall>m. home (lg s3) m = home (lg s) m)"
proof -
  have t': "finv s" "quiet (fabs s)" "room 1 (fabs s)" "log_ok (lg s)" "1 \<le> log_outstanding (lg s)"
    "lh_n (lg s) < 30" "lh_n (lg s) < log_size (lg s) - 1"
    using t by (simp_all add: txn_def room_def)
  obtain i l1 l2 l3 where l: "lbread 1 n (lg s) = Ok (i, l1)" "ldata l1 i = view (fbc s) n"
    "log_write i (lset i d l1) = Ok l2" "lbrelse i l2 = Ok l3" "log_ok l3" "bc_inv (lbc l3)"
    "labs l3 = (fabs s)\<lparr>a_view := (fview s)(n := d), a_dirty := insert n (a_dirty (fabs s))\<rparr>"
    "logged l3 = (if n \<in> set (logged (lg s)) then logged (lg s) else logged (lg s) @ [n])"
    "log_outstanding l3 = log_outstanding (lg s)" "log_start l3 = log_start (lg s)" "log_size l3 = log_size (lg s)"
    using logged_update [OF t'(1-4) n t'(5-7) d] by blast
  have len: "nat (lh_n l3) \<le> nat (lh_n (lg s)) + 1"
    using arg_cong [OF l(8), of length] log_okD(2-4) [OF l(5)] log_okD(2-4) [OF t'(4)] by (auto split: if_splits)
  have "lh_n l3 \<le> lh_n (lg s) + 1" using len log_okD(3) [OF l(5)] log_okD(3) [OF t'(4)] by linarith
  moreover have "card (a_dirty (labs l3)) \<le> card (a_dirty (fabs s)) + 1"
    using l(7) card_insert_le_m1 card_insert_if [OF finite_dirty, of n "fbc s"] by simp
  ultimately have "txn k (s\<lparr>lg := l3\<rparr>)" using t l(5-7,9-11) by (simp add: txn_def)
  moreover have "disk (lbc l3) = disk (fbc s)" using arg_cong [OF l(7), of a_disk] by (simp add: abs_bc_def)
  then have "home l3 m = home (lg s) m" for m using l(10,11) by (simp add: home_def in_log_def)
  moreover have "fbread 1 n s = Ok (i, s\<lparr>lg := l1\<rparr>)" using l(1) by (simp add: fbread_def)
  moreover have "fdata (s\<lparr>lg := l1\<rparr>) i = fview s n" using l(2) by (simp add: fdata_def abs_bc_def)
  moreover have "flog_write i (fset i d (s\<lparr>lg := l1\<rparr>)) = Ok (s\<lparr>lg := l2\<rparr>)"
    using l(3) by (simp add: flog_write_def fset_def)
  moreover have "fbrelse i (s\<lparr>lg := l2\<rparr>) = Ok (s\<lparr>lg := l3\<rparr>)" using l(4) by (simp add: fbrelse_def)
  moreover have "same_fs s (s\<lparr>lg := l3\<rparr>)" by (auto simp: same_fs_def)
  moreover have "fabs (s\<lparr>lg := l3\<rparr>) = a_update n d (fabs s)" using l(7) by (simp add: a_update_def)
  ultimately show ?thesis by auto
qed

lemma txn_read:
  assumes t: "txn (Suc k) s" and n: "unat n < length (a_disk (fabs s))"
  shows "\<exists>i s1 s2. fbread 1 n s = Ok (i, s1) \<and> fdata s1 i = fview s n \<and> fbrelse i s1 = Ok s2 \<and>
    txn (Suc k) s2 \<and> same_fs s s2 \<and> fabs s2 = fabs s \<and> (\<forall>m. home (lg s2) m = home (lg s) m)"
proof -
  have t': "finv s" "quiet (fabs s)" "room 1 (fabs s)" using t by (simp_all add: txn_def room_def)
  obtain i s1 where 1: "fbread 1 n s = Ok (i, s1)" using fs.rd_ok [OF t'(1) n] t'(2,3) by auto
  obtain s2 where 2: "fbrelse i s1 = Ok s2" using fs.rd_rel [OF t'(1) 1] by blast
  note r = read_release [OF t'(1) 1 2]
  obtain b where b: "lg s2 = (lg s)\<lparr>lbc := b\<rparr>" using 1 2 by (auto simp: fbread_Ok fbrelse_Ok)
  have dk: "disk (fbc s2) = disk (fbc s)" using arg_cong [OF r(2), of a_disk] by (simp add: abs_bc_def)
  have "log_ok (lg s2)"
    using t r(2) dk b unfolding txn_def log_ok_def in_log_def by simp
  then have "txn (Suc k) s2" using t r b by (simp add: txn_def)
  moreover have "home (lg s2) m = home (lg s) m" for m using dk b by (simp add: home_def in_log_def)
  ultimately show ?thesis using 1 2 r by blast
qed

section \<open>The bitmap\<close>

lemma bm_free_bit: "bm_free d bi \<longleftrightarrow> \<not> bit (d ! (bi div 8)) (bi mod 8)"
proof -
  have "d ! (bi div 8) AND push_bit (bi mod 8) 1 = 0 \<longleftrightarrow> \<not> bit (d ! (bi div 8)) (bi mod 8)"
    by (simp add: push_bit_eq_mult and_exp_eq_0_iff_not_bit)
  then show ?thesis by (simp add: bm_free_def bit_mask_def)
qed

text \<open>Setting or clearing one bit of the bitmap leaves the other bits alone.\<close>

lemma bm_free_set:
  assumes "bi div 8 < length d"
  shows "bm_free (d[bi div 8 := d ! (bi div 8) OR bit_mask bi]) bj \<longleftrightarrow> bm_free d bj \<and> bj \<noteq> bi"
proof -
  have "bj = bi \<longleftrightarrow> bj div 8 = bi div 8 \<and> bj mod 8 = bi mod 8"
    by (metis mult_div_mod_eq)
  then show ?thesis
    using assms by (auto simp: bm_free_bit bit_mask_def nth_list_update bit_simps)
qed

lemma bm_free_clear:
  assumes "bi div 8 < length d"
  shows "bm_free (d[bi div 8 := d ! (bi div 8) AND NOT (bit_mask bi)]) bj \<longleftrightarrow> bm_free d bj \<or> bj = bi"
proof -
  have "bj = bi \<longleftrightarrow> bj div 8 = bi div 8 \<and> bj mod 8 = bi mod 8"
    by (metis mult_div_mod_eq)
  moreover have "bj mod 8 < 8" by simp
  ultimately show ?thesis
    using assms by (auto simp: bm_free_bit bit_mask_def nth_list_update bit_simps)
qed

text \<open>Block \<open>b\<close> is marked free in the bitmap.\<close>

definition block_free :: "superblock \<Rightarrow> (u32 \<Rightarrow> u8 list) \<Rightarrow> nat \<Rightarrow> bool" where
  "block_free sbk v b \<longleftrightarrow> bm_free (v (BBLOCK b sbk)) (b mod BPB)"

lemma BBLOCK_add: "b mod BPB = 0 \<Longrightarrow> bi < BPB \<Longrightarrow> BBLOCK (b + bi) sbk = BBLOCK b sbk"
  by (auto simp: BBLOCK_def)

lemma block_free_update:
  assumes "n = BBLOCK b sbk" "length (v n) = BSIZE"
  shows "block_free sbk (v(n := (v n)[b mod BPB div 8 := v n ! (b mod BPB div 8) OR bit_mask (b mod BPB)])) c
      \<longleftrightarrow> block_free sbk v c \<and> \<not> (BBLOCK c sbk = n \<and> c mod BPB = b mod BPB)"
    "block_free sbk (v(n := (v n)[b mod BPB div 8 := v n ! (b mod BPB div 8) AND NOT (bit_mask (b mod BPB))])) c
      \<longleftrightarrow> block_free sbk v c \<or> BBLOCK c sbk = n \<and> c mod BPB = b mod BPB"
proof -
  have "b mod BPB div 8 < length (v n)" using assms(2) by (simp add: less_mult_imp_div_less)
  then show "block_free sbk (v(n := (v n)[b mod BPB div 8 := v n ! (b mod BPB div 8) OR bit_mask (b mod BPB)])) c
      \<longleftrightarrow> block_free sbk v c \<and> \<not> (BBLOCK c sbk = n \<and> c mod BPB = b mod BPB)"
    "block_free sbk (v(n := (v n)[b mod BPB div 8 := v n ! (b mod BPB div 8) AND NOT (bit_mask (b mod BPB))])) c
      \<longleftrightarrow> block_free sbk v c \<or> BBLOCK c sbk = n \<and> c mod BPB = b mod BPB"
    using bm_free_set [of "b mod BPB" "v n"] bm_free_clear [of "b mod BPB" "v n"]
    by (auto simp: block_free_def)
qed

lemma same_bit_iff:
  assumes "b < 4294967296" "c < 4294967296"
  shows "BBLOCK c sbk = BBLOCK b sbk \<and> c mod BPB = b mod BPB \<longleftrightarrow> c = b"
proof -
  have "BBLOCK c sbk = BBLOCK b sbk \<longleftrightarrow> c div BPB = b div BPB"
    using assms of_nat_u32_inj [of "c div BPB" "b div BPB"] by (simp add: BBLOCK_def)
  then show ?thesis by (metis mult_div_mod_eq)
qed

definition mark_used :: "nat \<Rightarrow> u8 list \<Rightarrow> u8 list" where
  "mark_used b d = d[b mod BPB div 8 := d ! (b mod BPB div 8) OR bit_mask (b mod BPB)]"

definition mark_free :: "nat \<Rightarrow> u8 list \<Rightarrow> u8 list" where
  "mark_free b d = d[b mod BPB div 8 := d ! (b mod BPB div 8) AND NOT (bit_mask (b mod BPB))]"

lemma bzero_abs:
  assumes "finv s" "bzero 1 n s = Ok s'"
  shows "finv s'" "fabs s' = a_update n (replicate BSIZE 0) (fabs s)" "same_fs s s'"
proof -
  obtain i s1 s2 where r: "fbread 1 n s = Ok (i, s1)" "flog_write i (fset i (replicate BSIZE 0) s1) = Ok s2"
    "fbrelse i s2 = Ok s'" using assms(2) by (auto simp: bzero_def bnd_eq_Ok)
  then show "finv s'" "fabs s' = a_update n (replicate BSIZE 0) (fabs s)" "same_fs s s'"
    using log_update [OF assms(1) r] by simp_all
qed

lemma balloc_loop_abs:
  assumes "finv s" "balloc_loop 1 bs s = Ok (a, s')" "\<forall>b \<in> set bs. b mod BPB = 0"
  shows "\<exists>k < unat (sb_size (sb s)). a = of_nat k \<and> block_free (sb s) (fview s) k \<and> finv s' \<and> same_fs s s' \<and>
    fabs s' = a_update a (replicate BSIZE 0)
      (a_update (BBLOCK k (sb s)) (mark_used k (fview s (BBLOCK k (sb s)))) (fabs s)) \<and>
    length (fview s (BBLOCK k (sb s))) = BSIZE"
  using assms
proof (induction bs arbitrary: s)
  case (Cons b bs)
  from Cons.prems(2) obtain i s1 where rd: "fbread 1 (BBLOCK b (sb s)) s = Ok (i, s1)"
    by (auto simp: bnd_eq_Ok)
  have sb1: "sb s1 = sb s" using same_fs_sel(2) [OF same_fs_ops(1) [OF rd]] .
  have d: "fdata s1 i = fview s (BBLOCK b (sb s))" by (rule fs.rd_data [OF Cons.prems(1) rd])
  show ?case
  proof (cases "find (bm_free (fdata s1 i)) [0..<min BPB (unat (sb_size (sb s)) - b)]")
    case None
    then obtain s2 where rel: "fbrelse i s1 = Ok s2" and rest: "balloc_loop 1 bs s2 = Ok (a, s')"
      using Cons.prems(2) rd sb1 by (auto simp: bnd_eq_Ok Let_def)
    note r = read_release [OF Cons.prems(1) rd rel]
    have "sb s2 = sb s" using same_fs_sel(2) [OF r(3)] .
    then show ?thesis
      using Cons.IH [OF r(1) rest] Cons.prems(3) r(2) same_fs_trans [OF r(3)] by auto
  next
    case (Some bi)
    let ?k = "b + bi"
    let ?d = "fdata s1 i"
    have bi: "bi < BPB" "?k < unat (sb_size (sb s))" "bm_free ?d bi"
      using find_SomeD [OF Some] by auto
    have b0: "b mod BPB = 0" using Cons.prems(3) by simp
    have km: "?k mod BPB = bi" "BBLOCK ?k (sb s) = BBLOCK b (sb s)"
      using bi(1) b0 BBLOCK_add [OF b0 bi(1)] by auto
    obtain s2 s3 where w: "flog_write i (fset i (?d[bi div 8 := ?d ! (bi div 8) OR bit_mask bi]) s1) = Ok s2"
      "fbrelse i s2 = Ok s3" and z: "bzero 1 (of_nat ?k) s3 = Ok s'" and a: "a = of_nat ?k"
      using Cons.prems(2) rd sb1 Some by (auto simp: bnd_eq_Ok Let_def)
    have len: "length (fview s (BBLOCK b (sb s))) = BSIZE"
      using fs.view_len [OF Cons.prems(1)] fs.rd_absD(5) [OF Cons.prems(1) rd] by simp
    have mu: "?d[bi div 8 := ?d ! (bi div 8) OR bit_mask bi] = mark_used ?k (fview s (BBLOCK ?k (sb s)))"
      unfolding mark_used_def km d ..
    have "length (mark_used ?k (fview s (BBLOCK ?k (sb s)))) = BSIZE"
      unfolding mark_used_def km(2) length_list_update by (rule len)
    note u = log_update [OF Cons.prems(1) rd w [unfolded mu] this]
    have u': "finv s3" "fabs s3 = a_update (BBLOCK ?k (sb s)) (mark_used ?k (fview s (BBLOCK ?k (sb s)))) (fabs s)"
      "same_fs s s3" using u(1-3) unfolding km(2) by (simp_all only:)
    note z' = bzero_abs [OF u'(1) z]
    have "block_free (sb s) (fview s) ?k" using bi(3) unfolding block_free_def km d .
    moreover have "length (fview s (BBLOCK ?k (sb s))) = BSIZE" unfolding km(2) by (rule len)
    moreover have "fabs s' = a_update a (replicate BSIZE 0)
        (a_update (BBLOCK ?k (sb s)) (mark_used ?k (fview s (BBLOCK ?k (sb s)))) (fabs s))"
      unfolding z'(2) u'(2) a ..
    ultimately show ?thesis
      using bi(2) a z'(1) same_fs_trans [OF u'(3) z'(3)] by blast
  qed
qed simp

lemma balloc_abs:
  assumes "finv s" "balloc 1 s = Ok (a, s')"
  shows "unat a < unat (sb_size (sb s))" "block_free (sb s) (fview s) (unat a)" "finv s'" "same_fs s s'"
    "fabs s' = a_update a (replicate BSIZE 0)
      (a_update (BBLOCK (unat a) (sb s)) (mark_used (unat a) (fview s (BBLOCK (unat a) (sb s)))) (fabs s))"
    "length (fview s (BBLOCK (unat a) (sb s))) = BSIZE"
proof -
  have all: "\<forall>b \<in> set (map (\<lambda>k. BPB * k) [0..<(unat (sb_size (sb s)) + BPB - 1) div BPB]). b mod BPB = 0"
    by simp
  obtain k where k: "k < unat (sb_size (sb s))" "a = of_nat k" "block_free (sb s) (fview s) k" "finv s'" "same_fs s s'"
    "fabs s' = a_update a (replicate BSIZE 0)
      (a_update (BBLOCK k (sb s)) (mark_used k (fview s (BBLOCK k (sb s)))) (fabs s))"
    "length (fview s (BBLOCK k (sb s))) = BSIZE"
    using balloc_loop_abs [OF assms(1) _ all] assms(2) by (auto simp: balloc_def)
  have "unat a = k" using k(1,2) unat_of_nat_u32 [of k] unat_u32_bound [of "sb_size (sb s)"] by simp
  with k show "unat a < unat (sb_size (sb s))" "block_free (sb s) (fview s) (unat a)" "finv s'" "same_fs s s'"
    "fabs s' = a_update a (replicate BSIZE 0)
      (a_update (BBLOCK (unat a) (sb s)) (mark_used (unat a) (fview s (BBLOCK (unat a) (sb s)))) (fabs s))"
    "length (fview s (BBLOCK (unat a) (sb s))) = BSIZE" by simp_all
qed

lemma bfree_abs:
  assumes "finv s" "bfree 1 b s = Ok s'" "sb s = sb_of_bytes (fview s 1)"
  shows "\<not> block_free (sb s) (fview s) (unat b)" "finv s'" "same_fs s s'"
    "fabs s' = a_update (BBLOCK (unat b) (sb s)) (mark_free (unat b) (fview s (BBLOCK (unat b) (sb s)))) (fabs s)"
    "length (fview s (BBLOCK (unat b) (sb s))) = BSIZE"
proof -
  obtain s0 where r0: "freadsb 1 s = Ok s0" using assms(2) by (auto simp: bfree_def bnd_eq_Ok)
  obtain j t1 t2 where t: "fbread 1 1 s = Ok (j, t1)" "fbrelse j t1 = Ok t2"
    "s0 = t2\<lparr>sb := sb_of_bytes (fdata t1 j)\<rparr>"
    using r0 by (auto simp: freadsb_def readsb_def bnd_eq_Ok fbread_def lbread_def fbrelse_def lbrelse_def
      fdata_def Let_def)
  note r = read_release [OF assms(1) t(1,2)]
  have s0: "s0 = t2"
  proof -
    have "sb t2 = sb_of_bytes (fdata t1 j)" using same_fs_sel(2) [OF r(3)] r(4) assms(3) by simp
    then show ?thesis using t(3) by simp
  qed
  have inv0: "finv s0" "fabs s0 = fabs s" "same_fs s s0" "sb s0 = sb s"
    using r s0 same_fs_sel(2) [OF r(3)] by simp_all
  let ?n = "BBLOCK (unat b) (sb s)" and ?bi = "unat b mod BPB"
  obtain i s1 s2 where rd: "fbread 1 ?n s0 = Ok (i, s1)" and nf: "\<not> bm_free (fdata s1 i) ?bi"
    and w: "flog_write i (fset i ((fdata s1 i)[?bi div 8 := fdata s1 i ! (?bi div 8) AND NOT (bit_mask ?bi)]) s1) = Ok s2"
      "fbrelse i s2 = Ok s'"
    using assms(2) r0 inv0(4) by (auto simp: bfree_def bnd_eq_Ok Let_def split: if_splits)
  have d: "fdata s1 i = fview s ?n" using fs.rd_data [OF inv0(1) rd] inv0(2) by simp
  have len: "length (fview s ?n) = BSIZE"
    using fs.view_len [OF inv0(1)] fs.rd_absD(5) [OF inv0(1) rd] inv0(2) by simp
  note u = log_update [OF inv0(1) rd w]
  show "\<not> block_free (sb s) (fview s) (unat b)" using nf d by (simp add: block_free_def)
  show "finv s'" "same_fs s s'" "length (fview s ?n) = BSIZE"
    "fabs s' = a_update ?n (mark_free (unat b) (fview s ?n)) (fabs s)"
    using u d len inv0 same_fs_trans [OF inv0(3)] by (simp_all add: mark_free_def)
qed

section \<open>Inodes on the disk\<close>

lemma length_dinode_bytes [simp]: "length (d_addrs di) = 13 \<Longrightarrow> length (dinode_bytes di) = 64"
proof -
  have "length (concat (map bytes32 xs)) = 4 * length xs" for xs by (induction xs) auto
  then show "length (d_addrs di) = 13 \<Longrightarrow> length (dinode_bytes di) = 64" by (simp add: dinode_bytes_def)
qed

lemma get32_append:
  "get32 (xs @ bytes32 w @ ys) (length xs) = w"
  by (simp add: get32_def nth_append bytes32_def)

lemma get16_append:
  "get16 (xs @ bytes16 w @ ys) (length xs) = w"
  by (simp add: get16_def nth_append bytes16_def)

lemma get32_concat:
  "j < length as \<Longrightarrow> get32 (xs @ concat (map bytes32 as) @ ys) (length xs + 4 * j) = as ! j"
proof (induction as arbitrary: xs j)
  case (Cons a as)
  show ?case
  proof (cases j)
    case 0
    then show ?thesis using get32_append [of xs a "concat (map bytes32 as) @ ys"] by simp
  next
    case (Suc i)
    then have "get32 ((xs @ bytes32 a) @ concat (map bytes32 as) @ ys) (length (xs @ bytes32 a) + 4 * i) = as ! i"
      using Cons by (intro Cons.IH) simp
    then show ?thesis using Suc by (simp add: algebra_simps)
  qed
qed simp

lemma get16_splice_in:
  "k + j + 2 \<le> length d \<Longrightarrow> j + 2 \<le> length b \<Longrightarrow> k + length b \<le> length d \<Longrightarrow>
   get16 (splice d k b) (k + j) = get16 b j"
  by (simp add: get16_def nth_splice)

lemma get32_splice_in:
  "k + j + 4 \<le> length d \<Longrightarrow> j + 4 \<le> length b \<Longrightarrow> k + length b \<le> length d \<Longrightarrow>
   get32 (splice d k b) (k + j) = get32 b j"
  by (simp add: get32_def nth_splice)

lemma dinode_bytes_get:
  assumes "length (d_addrs di) = 13"
  shows "get16 (dinode_bytes di) 0 = d_type di" "get16 (dinode_bytes di) 2 = d_major di"
    "get16 (dinode_bytes di) 4 = d_minor di" "get16 (dinode_bytes di) 6 = d_nlink di"
    "get32 (dinode_bytes di) 8 = d_size di" "j < 13 \<Longrightarrow> get32 (dinode_bytes di) (12 + 4 * j) = d_addrs di ! j"
proof -
  let ?t = "bytes16 (d_type di)" and ?ma = "bytes16 (d_major di)" and ?mi = "bytes16 (d_minor di)"
    and ?n = "bytes16 (d_nlink di)" and ?s = "bytes32 (d_size di)" and ?a = "concat (map bytes32 (d_addrs di))"
  show "get16 (dinode_bytes di) 0 = d_type di"
    using get16_append [of "[]" "d_type di"] by (simp add: dinode_bytes_def)
  show "get16 (dinode_bytes di) 2 = d_major di"
    using get16_append [of ?t "d_major di"] by (simp add: dinode_bytes_def)
  show "get16 (dinode_bytes di) 4 = d_minor di"
    using get16_append [of "?t @ ?ma" "d_minor di"] by (simp add: dinode_bytes_def)
  show "get16 (dinode_bytes di) 6 = d_nlink di"
    using get16_append [of "?t @ ?ma @ ?mi" "d_nlink di"] by (simp add: dinode_bytes_def)
  show "get32 (dinode_bytes di) 8 = d_size di"
    using get32_append [of "?t @ ?ma @ ?mi @ ?n" "d_size di"] by (simp add: dinode_bytes_def)
  show "get32 (dinode_bytes di) (12 + 4 * j) = d_addrs di ! j" if "j < 13"
    using get32_concat [of j "d_addrs di" "?t @ ?ma @ ?mi @ ?n @ ?s" "[]"] that assms
    by (simp add: dinode_bytes_def)
qed

lemma dinode_roundtrip:
  assumes "length (d_addrs di) = 13" "k + 64 \<le> length d"
  shows "dinode_at (splice d k (dinode_bytes di)) k = di"
proof -
  note g = dinode_bytes_get [OF assms(1)]
  have l: "length (dinode_bytes di) = 64" using assms(1) by simp
  have h: "get16 (splice d k (dinode_bytes di)) (k + j) = get16 (dinode_bytes di) j" if "j + 2 \<le> 64" for j
    using get16_splice_in [of k j d "dinode_bytes di"] that assms l by simp
  have w: "get32 (splice d k (dinode_bytes di)) (k + j) = get32 (dinode_bytes di) j" if "j + 4 \<le> 64" for j
    using get32_splice_in [of k j d "dinode_bytes di"] that assms l by simp
  have "map (\<lambda>j. get32 (splice d k (dinode_bytes di)) (k + 12 + 4 * j)) [0..<13] = d_addrs di"
    by (rule nth_equalityI) (use assms(1) w [of "12 + 4 * j" for j] g(6) in \<open>auto simp: add.assoc\<close>)
  then show ?thesis
    using h [of 0] h [of 2] h [of 4] h [of 6] w [of 8] g(1-5) by (simp add: dinode_at_def)
qed

lemma dinode_at_other:
  assumes "length (d_addrs di) = 13" "k + 64 \<le> length d" "j + 64 \<le> length d" "j + 64 \<le> k \<or> k + 64 \<le> j"
  shows "dinode_at (splice d k (dinode_bytes di)) j = dinode_at d j"
proof -
  have l: "length (dinode_bytes di) = 64" using assms(1) by simp
  have h: "get16 (splice d k (dinode_bytes di)) (j + i) = get16 d (j + i)" if "i + 2 \<le> 64" for i
    by (rule get16_splice_other) (use that assms l in auto)
  have w: "get32 (splice d k (dinode_bytes di)) (j + i) = get32 d (j + i)" if "i + 4 \<le> 64" for i
    by (rule get32_splice_other) (use that assms l in auto)
  have "map (\<lambda>i. get32 (splice d k (dinode_bytes di)) (j + 12 + 4 * i)) [0..<13] =
      map (\<lambda>i. get32 d (j + 12 + 4 * i)) [0..<13]"
    by (rule map_cong [OF refl]) (use w [of "12 + 4 * i" for i] in \<open>auto simp: add.assoc\<close>)
  then show ?thesis using h [of 0] h [of 2] h [of 4] h [of 6] w [of 8] by (simp add: dinode_at_def)
qed

lemma dip_off_bound: "dip_off i + 64 \<le> 512"
  by (simp add: dip_off_def)

lemma dip_off_disjoint:
  assumes "unat i mod IPB \<noteq> unat j mod IPB"
  shows "dip_off j + 64 \<le> dip_off i \<or> dip_off i + 64 \<le> dip_off j"
proof (cases "unat i mod IPB < unat j mod IPB")
  case True
  then have "Suc (unat i mod IPB) \<le> unat j mod IPB" by simp
  then have "64 * Suc (unat i mod IPB) \<le> 64 * (unat j mod IPB)" by (rule mult_le_mono2)
  then show ?thesis by (simp add: dip_off_def)
next
  case False
  with assms have "Suc (unat j mod IPB) \<le> unat i mod IPB" by simp
  then have "64 * Suc (unat j mod IPB) \<le> 64 * (unat i mod IPB)" by (rule mult_le_mono2)
  then show ?thesis by (simp add: dip_off_def)
qed

text \<open>The inode with number \<open>inum\<close> as the blocks hold it.\<close>

definition disk_inode :: "superblock \<Rightarrow> (u32 \<Rightarrow> u8 list) \<Rightarrow> u32 \<Rightarrow> dinode" where
  "disk_inode sbk v inum = dinode_at (v (IBLOCK inum sbk)) (dip_off inum)"

lemma IBLOCK_inj:
  assumes "inum \<noteq> i" "IBLOCK i sbk = IBLOCK inum sbk"
  shows "unat inum mod IPB \<noteq> unat i mod IPB"
proof
  assume m: "unat inum mod IPB = unat i mod IPB"
  have "of_nat (unat i div IPB) = (of_nat (unat inum div IPB) :: u32)"
    using assms(2) by (simp add: IBLOCK_def)
  moreover have "unat i div IPB < 4294967296" "unat inum div IPB < 4294967296"
    using unat_u32_bound [of i] unat_u32_bound [of inum] by linarith+
  ultimately have "unat i div IPB = unat inum div IPB" using of_nat_u32_inj by blast
  with m have "unat i = unat inum" by (metis mult_div_mod_eq)
  with assms(1) show False by (simp add: word_unat_eq_iff)
qed

lemma iupdate_abs:
  assumes inv: "finv s" and ok: "iupdate ip s = Ok s'" and dev: "i_dev (ino s ip) = 1"
    and addrs: "length (d_addrs (i_di (ino s ip))) = 13"
  shows "finv s'" "same_fs s s'"
    "fabs s' = a_update (IBLOCK (i_inum (ino s ip)) (sb s))
      (splice (fview s (IBLOCK (i_inum (ino s ip)) (sb s))) (dip_off (i_inum (ino s ip)))
         (dinode_bytes (i_di (ino s ip)))) (fabs s)"
    "disk_inode (sb s) (fview s') i =
      (if i = i_inum (ino s ip) then i_di (ino s ip) else disk_inode (sb s) (fview s) i)"
proof -
  let ?i = "i_inum (ino s ip)" and ?di = "i_di (ino s ip)"
  let ?n = "IBLOCK ?i (sb s)" and ?k = "dip_off ?i"
  obtain bp s1 where rd: "fbread 1 ?n s = Ok (bp, s1)" using ok dev by (auto simp: iupdate_def bnd_eq_Ok)
  have ic: "icache s1 = icache s" using same_fs_sel(1) [OF same_fs_ops(1) [OF rd]] .
  have d: "fdata s1 bp = fview s ?n" by (rule fs.rd_data [OF inv rd])
  have len: "length (fview s ?n) = BSIZE"
    using fs.view_len [OF inv] fs.rd_absD(5) [OF inv rd] by simp
  obtain s2 where w: "flog_write bp (fset bp (splice (fdata s1 bp) ?k (dinode_bytes ?di)) s1) = Ok s2" "fbrelse bp s2 = Ok s'"
    using ok rd dev ic by (auto simp: iupdate_def bnd_eq_Ok Let_def)
  have l: "length (splice (fdata s1 bp) ?k (dinode_bytes ?di)) = BSIZE"
    using len d addrs dip_off_bound [of ?i] by simp
  note u = log_update [OF inv rd w l]
  show "finv s'" "same_fs s s'" by (rule u)+
  show fa: "fabs s' = a_update ?n (splice (fview s ?n) ?k (dinode_bytes ?di)) (fabs s)" using u(2) d by simp
  show "disk_inode (sb s) (fview s') i = (if i = ?i then ?di else disk_inode (sb s) (fview s) i)"
  proof (cases "i = ?i")
    case True
    then show ?thesis
      using dinode_roundtrip [OF addrs, of ?k "fview s ?n"] len dip_off_bound [of ?i]
      by (simp add: disk_inode_def fa)
  next
    case False
    then show ?thesis
      using dinode_at_other [OF addrs, of ?k "fview s ?n" "dip_off i"] len dip_off_bound [of ?i] dip_off_bound [of i]
        dip_off_disjoint [of ?i i] IBLOCK_inj [of ?i i "sb s"]
      by (cases "IBLOCK i (sb s) = ?n") (auto simp: disk_inode_def fa)
  qed
qed

lemma ilock_abs:
  assumes inv: "finv s" and ok: "ilock ip s = Ok s'" and dev: "i_dev (ino s ip) = 1" and ip: "ip < length (icache s)"
  shows "finv s'" "fabs s' = fabs s" "sb s' = sb s" "fsys.more s' = fsys.more s"
    "icache s' = (icache s)[ip := (ino s ip)\<lparr>i_lock := lock_of (fpid s),
       i_di := (if i_valid (ino s ip) then i_di (ino s ip) else disk_inode (sb s) (fview s) (i_inum (ino s ip))),
       i_valid := True\<rparr>]"
    "\<not> sl_locked (i_lock (ino s ip))" "i_ref (ino s ip) \<ge> 1"
proof -
  let ?s0 = "upd_ino ip (\<lambda>i. i\<lparr>i_lock := lock_of (fpid s)\<rparr>) s"
  have r: "i_ref (ino s ip) \<ge> 1" "\<not> sl_locked (i_lock (ino s ip))"
    using ok by (auto simp: ilock_def bnd_eq_Ok acquiresleep_Ok Let_def split: if_splits)
  then show "\<not> sl_locked (i_lock (ino s ip))" "i_ref (ino s ip) \<ge> 1" by simp_all
  have fb: "lg ?s0 = lg s" "sb ?s0 = sb s" by (simp_all add: upd_ino_def)
  have main: "finv s' \<and> fabs s' = fabs s \<and> sb s' = sb s \<and> fsys.more s' = fsys.more s \<and>
    icache s' = (icache s)[ip := (ino s ip)\<lparr>i_lock := lock_of (fpid s),
       i_di := (if i_valid (ino s ip) then i_di (ino s ip) else disk_inode (sb s) (fview s) (i_inum (ino s ip))),
       i_valid := True\<rparr>]"
  proof (cases "i_valid (ino s ip)")
    case True
    then have s': "s' = ?s0"
      using ok r ip by (auto simp: ilock_def bnd_eq_Ok acquiresleep_Ok Let_def upd_ino_def split: if_splits)
    have eq: "(ino s ip)\<lparr>i_lock := lock_of (fpid s)\<rparr> =
        (ino s ip)\<lparr>i_lock := lock_of (fpid s), i_valid := True\<rparr>"
      using True by (cases "ino s ip") simp
    have "icache s' = (icache s)[ip := (ino s ip)\<lparr>i_lock := lock_of (fpid s), i_valid := True\<rparr>]"
      unfolding eq [symmetric] by (simp add: s' upd_ino_def)
    then show ?thesis using True inv by (simp add: s' upd_ino_def)
  next
    case False
    let ?n = "IBLOCK (i_inum (ino s ip)) (sb s)"
    obtain bp s1 s2 where rd: "fbread 1 ?n ?s0 = Ok (bp, s1)" and
      rel: "fbrelse bp (upd_ino ip (\<lambda>i. i\<lparr>i_di := dinode_at (fdata s1 bp) (dip_off (i_inum i))\<rparr>) s1) = Ok s2"
      and s': "s' = upd_ino ip (\<lambda>i. i\<lparr>i_valid := True\<rparr>) s2"
      using ok r ip False dev
      by (auto simp: ilock_def bnd_eq_Ok acquiresleep_Ok Let_def upd_ino_def split: if_splits)
    have inv0: "finv ?s0" using inv fb by simp
    have ic1: "same_fs ?s0 s1" by (rule same_fs_ops(1) [OF rd])
    let ?s1 = "upd_ino ip (\<lambda>i. i\<lparr>i_di := dinode_at (fdata s1 bp) (dip_off (i_inum i))\<rparr>) s1"
    obtain b where b: "brelse bp (fbc s1) = Ok b" "s2 = ?s1\<lparr>lg := (lg s1)\<lparr>lbc := b\<rparr>\<rparr>"
      using rel by (auto simp: fbrelse_Ok upd_ino_def)
    have "fbrelse bp s1 = Ok (s1\<lparr>lg := (lg s1)\<lparr>lbc := b\<rparr>\<rparr>)" using b(1) by (auto simp: fbrelse_Ok)
    note rr = read_release [OF inv0 rd this]
    have d: "fdata s1 bp = fview s ?n" using rr(4) fb by simp
    have i1: "icache s1 = (icache s)[ip := (ino s ip)\<lparr>i_lock := lock_of (fpid s)\<rparr>]"
      using same_fs_sel(1) [OF ic1] by (simp add: upd_ino_def)
    have m1: "sb s1 = sb s" "fsys.more s1 = fsys.more s"
      using same_fs_sel(2,3) [OF ic1] by (simp_all add: upd_ino_def)
    have "icache s' = (icache s)[ip := (ino s ip)\<lparr>i_lock := lock_of (fpid s), i_di := dinode_at (fview s ?n) (dip_off (i_inum (ino s ip))), i_valid := True\<rparr>]"
      using s' b(2) i1 ip d by (simp add: upd_ino_def)
    then show ?thesis
      using False rr(1,2) fb s' b(2) m1 by (simp add: upd_ino_def disk_inode_def)
  qed
  then show "finv s'" "fabs s' = fabs s" "sb s' = sb s" "fsys.more s' = fsys.more s"
    "icache s' = (icache s)[ip := (ino s ip)\<lparr>i_lock := lock_of (fpid s),
       i_di := (if i_valid (ino s ip) then i_di (ino s ip) else disk_inode (sb s) (fview s) (i_inum (ino s ip))),
       i_valid := True\<rparr>]"
    by simp_all
qed

lemma ilock_ok:
  assumes t: "finv s" "quiet (fabs s)" "room 1 (fabs s)"
    and ip: "ip < length (icache s)" "i_dev (ino s ip) = 1" "i_ref (ino s ip) \<ge> 1"
    "\<not> sl_locked (i_lock (ino s ip))" "unat (IBLOCK (i_inum (ino s ip)) (sb s)) < length (a_disk (fabs s))"
    "d_type (disk_inode (sb s) (fview s) (i_inum (ino s ip))) \<noteq> 0"
  shows "\<exists>s'. ilock ip s = Ok s'"
proof (cases "i_valid (ino s ip)")
  case True
  then show ?thesis
    using ip by (simp add: ilock_def acquiresleep_def Let_def upd_ino_def)
next
  case False
  let ?n = "IBLOCK (i_inum (ino s ip)) (sb s)"
  define s0 where "s0 = upd_ino ip (\<lambda>i. i\<lparr>i_lock := lock_of (fpid s)\<rparr>) s"
  have acq: "acquiresleep (ChInode ip) (fpid s) (i_lock (ino s ip)) = Ok (lock_of (fpid s))"
    using ip(4) by (simp add: acquiresleep_Ok)
  have s0: "lg s0 = lg s" "sb s0 = sb s" "i_dev (ino s0 ip) = 1" "i_inum (ino s0 ip) = i_inum (ino s ip)"
    "\<not> i_valid (ino s0 ip)" "length (icache s0) = length (icache s)"
    using ip False by (simp_all add: s0_def upd_ino_def)
  have t0: "finv s0" "quiet (fabs s0)" "room 1 (fabs s0)" "unat ?n < length (a_disk (fabs s0))" using t ip(5) s0(1) by simp_all
  obtain j t1 where r: "fbread 1 ?n s0 = Ok (j, t1)" "fdata t1 j = fview s0 ?n"
    using fs.rd_ok [OF t0(1,4)] t0(2,3) fs.rd_data [OF t0(1)] by auto
  obtain t2 where rr: "fbrelse j t1 = Ok t2" using fs.rd_rel [OF t0(1) r(1)] by blast
  have ic1: "icache t1 = icache s0" using same_fs_sel(1) [OF same_fs_ops(1) [OF r(1)]] .
  define u where "u = upd_ino ip (\<lambda>i. i\<lparr>i_di := dinode_at (fdata t1 j) (dip_off (i_inum i))\<rparr>) t1"
  obtain b where b: "brelse j (fbc t1) = Ok b" using rr by (auto simp: fbrelse_Ok)
  then have rel: "fbrelse j u = Ok (u\<lparr>lg := (lg u)\<lparr>lbc := b\<rparr>\<rparr>)"
    by (auto simp: fbrelse_Ok u_def upd_ino_def)
  have "d_type (i_di (ino (upd_ino ip (\<lambda>i. i\<lparr>i_valid := True\<rparr>) (u\<lparr>lg := (lg u)\<lparr>lbc := b\<rparr>\<rparr>)) ip)) \<noteq> 0"
    using ip(1,6) r(2) ic1 s0 by (simp add: u_def upd_ino_def disk_inode_def)
  then show ?thesis
    using acq ip(3) s0 r(1) rel by (simp add: ilock_def Let_def s0_def [symmetric] u_def [symmetric])
qed

section \<open>Properties\<close>

text \<open>C35: \<open>balloc\<close> hands out a block that was marked free, below the size of the file system, zeroed; it is marked used afterwards, the marks of all other blocks and the content of all blocks but it and its bitmap block are unchanged.  (No free block is a bitmap block: the layout marks those used.)\<close>

theorem balloc_fresh_zeroed:
  assumes "finv s" "balloc 1 s = Ok (a, s')"
    "\<forall>b c. b < unat (sb_size (sb s)) \<and> c < unat (sb_size (sb s)) \<and> block_free (sb s) (fview s) b
       \<longrightarrow> of_nat b \<noteq> BBLOCK c (sb s)"
  shows "unat a < unat (sb_size (sb s)) \<and> block_free (sb s) (fview s) (unat a) \<and>
    fview s' a = replicate BSIZE 0 \<and>
    (\<forall>c < unat (sb_size (sb s)). block_free (sb s) (fview s') c \<longleftrightarrow> block_free (sb s) (fview s) c \<and> c \<noteq> unat a) \<and>
    (\<forall>n. n \<noteq> a \<and> n \<noteq> BBLOCK (unat a) (sb s) \<longrightarrow> fview s' n = fview s n)"
proof -
  note b = balloc_abs [OF assms(1,2)]
  let ?bm = "BBLOCK (unat a) (sb s)"
  have na: "a \<noteq> BBLOCK c (sb s)" if "c < unat (sb_size (sb s))" for c
    using assms(3)[rule_format, of "unat a" c] b(1,2) that by simp
  have v: "fview s' = ((fview s)(?bm := mark_used (unat a) (fview s ?bm)))(a := replicate BSIZE 0)"
    using b(5) by simp
  have "block_free (sb s) (fview s') c \<longleftrightarrow> block_free (sb s) (fview s) c \<and> c \<noteq> unat a"
    if c: "c < unat (sb_size (sb s))" for c
  proof -
    have "block_free (sb s) (fview s') c =
        block_free (sb s) ((fview s)(?bm := mark_used (unat a) (fview s ?bm))) c"
      using na [OF c] unfolding block_free_def v by simp
    also have "\<dots> \<longleftrightarrow> block_free (sb s) (fview s) c \<and> \<not> (BBLOCK c (sb s) = ?bm \<and> c mod BPB = unat a mod BPB)"
      unfolding mark_used_def by (rule block_free_update(1) [where v = "fview s", OF refl]) (rule b(6))
    also have "BBLOCK c (sb s) = ?bm \<and> c mod BPB = unat a mod BPB \<longleftrightarrow> c = unat a"
      using less_trans [OF c unat_u32_bound] by (intro same_bit_iff) simp_all
    finally show ?thesis .
  qed
  moreover have "fview s' a = replicate BSIZE 0" "\<forall>n. n \<noteq> a \<and> n \<noteq> ?bm \<longrightarrow> fview s' n = fview s n"
    using v by simp_all
  ultimately show ?thesis using b(1,2) by blast
qed

text \<open>\<open>bfree\<close> of a block marked free panics; otherwise it marks exactly that block free and changes no block but its bitmap block.\<close>

theorem bfree_marks_free:
  assumes "finv s" "bfree 1 b s = Ok s'" "sb s = sb_of_bytes (fview s 1)"
  shows "\<not> block_free (sb s) (fview s) (unat b) \<and>
    (\<forall>c < 4294967296. block_free (sb s) (fview s') c \<longleftrightarrow> block_free (sb s) (fview s) c \<or> c = unat b) \<and>
    (\<forall>n. n \<noteq> BBLOCK (unat b) (sb s) \<longrightarrow> fview s' n = fview s n)"
proof -
  note f = bfree_abs [OF assms]
  let ?bm = "BBLOCK (unat b) (sb s)"
  have v: "fview s' = (fview s)(?bm := mark_free (unat b) (fview s ?bm))" using f(4) by simp
  have "block_free (sb s) (fview s') c \<longleftrightarrow> block_free (sb s) (fview s) c \<or> c = unat b" if "c < 4294967296" for c
  proof -
    have "block_free (sb s) (fview s') c \<longleftrightarrow>
        block_free (sb s) (fview s) c \<or> BBLOCK c (sb s) = ?bm \<and> c mod BPB = unat b mod BPB"
      unfolding v mark_free_def by (rule block_free_update(2) [where v = "fview s", OF refl]) (rule f(5))
    also have "BBLOCK c (sb s) = ?bm \<and> c mod BPB = unat b mod BPB \<longleftrightarrow> c = unat b"
      using that by (intro same_bit_iff) simp_all
    finally show ?thesis .
  qed
  then show ?thesis using f(1) v by simp
qed


end
