(* ===== verification/Fs_Example.thy ===== *)
theory Fs_Example
  imports Fs_Blocks
begin

text \<open>
  A small file system image on which the properties of the file system are exercised: 14
  blocks, the log in blocks 2 to 8, the inodes in block 9, the bitmap in block 10, the root
  directory in block 11, blocks 12 and 13 free.
\<close>

definition ex_super :: superblock where
  "ex_super = \<lparr>sb_size = 14, sb_nblocks = 3, sb_ninodes = 8, sb_nlog = 7, sb_logstart = 2,
     sb_inodestart = 9, sb_bmapstart = 10\<rparr>"

definition ex_sb :: "u8 list" where
  "ex_sb = bytes32 14 @ bytes32 3 @ bytes32 8 @ bytes32 7 @ bytes32 2 @ bytes32 9 @ bytes32 10 @ replicate 484 0"

definition ex_root :: dinode where
  "ex_root = \<lparr>d_type = T_DIR, d_major = 0, d_minor = 0, d_nlink = 1, d_size = 32, d_addrs = 11 # replicate 12 0\<rparr>"

definition ex_inodes :: "u8 list" where
  "ex_inodes = splice (replicate BSIZE 0) 64 (dinode_bytes ex_root)"

definition ex_bitmap :: "u8 list" where
  "ex_bitmap = 0xFF # 0x0F # replicate 510 0"

definition ex_dir :: "u8 list" where
  "ex_dir = bytes16 1 @ (46 # replicate 13 0) @ bytes16 1 @ (46 # 46 # replicate 12 0) @ replicate 480 0"

definition ex_disk :: "u8 list list" where
  "ex_disk = (let z = replicate BSIZE 0 in
     [z, ex_sb, z, z, z, z, z, z, z, ex_inodes, ex_bitmap, ex_dir, z, z])"

definition zero_inode :: inode where
  "zero_inode = \<lparr>i_dev = 0, i_inum = 0, i_ref = 0, i_lock = initsleeplock, i_valid = False, i_di = zero_dinode\<rparr>"

lemma ex_sb_fields: "sb_of_bytes ex_sb = ex_super" "length ex_sb = BSIZE"
proof -
  show "length ex_sb = BSIZE" by (simp add: ex_sb_def)
  show "sb_of_bytes ex_sb = ex_super"
    by (simp add: sb_of_bytes_def ex_super_def get32_def ex_sb_def nth_append bytes32_def word32_def)
qed

lemma ex_lengths: "length ex_inodes = BSIZE" "length ex_bitmap = BSIZE" "length ex_dir = BSIZE" "length ex_disk = 14"
proof -
  have "length (dinode_bytes ex_root) = 64" by (rule length_dinode_bytes) (simp add: ex_root_def)
  then show "length ex_inodes = BSIZE" by (simp add: ex_inodes_def)
qed (simp_all add: ex_bitmap_def ex_dir_def ex_disk_def Let_def)

text \<open>The state of the file system in a transaction just after boot.\<close>

definition ex_fs :: "fsys \<Rightarrow> bool" where
  "ex_fs s \<longleftrightarrow>
     finv s \<and> log_ok (lg s) \<and> quiet (fabs s) \<and> a_dirty (fabs s) = {} \<and> a_bufs (fabs s) = NBUF \<and>
     lh_n (lg s) = 0 \<and> log_outstanding (lg s) = 1 \<and> log_size (lg s) = 7 \<and> log_start (lg s) = 2 \<and>
     length (a_disk (fabs s)) = 14 \<and> sb s = ex_super \<and> icache s = replicate NINODE zero_inode \<and>
     (\<forall>n < 14. n \<noteq> 2 \<longrightarrow> fview s (of_nat n) = ex_disk ! n)"

lemma ex_fs_exists: "\<exists>s. ex_fs s"
proof -
  have z: "get32 (replicate 512 0) 0 = 0" by (simp add: get32_def word32_def)
  have d2: "ex_disk ! 2 = replicate 512 0" "ex_disk ! 1 = ex_sb" by (simp_all add: ex_disk_def Let_def)
  have "\<forall>d \<in> set ex_disk. length d = BSIZE"
    using ex_lengths ex_sb_fields(2) by (auto simp: ex_disk_def Let_def)
  then have rc: "recoverable ex_disk 2 7 0"
    using ex_lengths(4) z d2 by (simp add: recoverable_def head_blocks_def)
  have sbf: "sb_logstart (sb_of_bytes (ex_disk ! 1)) = 2" "sint (sb_nlog (sb_of_bytes (ex_disk ! 1))) = 7"
    unfolding d2(2) ex_sb_fields(1) by (simp_all add: ex_super_def)
  obtain r h where r: "recovered 2 7 14 r" "disk (lbc r) = apply_writes ex_disk (recovery_writes ex_disk 2 0 @ [(unat (2 :: u32), h)])"
    using initlog_spec [OF rc sbf] unfolding ex_lengths(4) by blast
  have dk: "disk (lbc r) = ex_disk[2 := h]"
    using r(2) by (simp add: recovery_writes_def apply_writes_def)
  have ok: "log_ok r"
    by (rule recovered_log_ok [OF r(1)]) (use dk sbf in \<open>simp_all add: ex_lengths(4)\<close>)
  let ?s = "\<lparr>lg = r\<lparr>log_outstanding := 1\<rparr>, sb = ex_super, icache = replicate NINODE zero_inode\<rparr>"
  have rest: "bc_inv (lbc r)" "quiet (labs r)" "a_dirty (labs r) = {}" "a_bufs (labs r) = NBUF"
    "length (disk (lbc r)) = 14" "lh_n r = 0" "log_size r = 7" "log_start r = 2"
    using r(1) by (simp_all add: recovered_def at_rest_def)
  have dks: "a_disk (labs r) = disk (lbc r)" by (simp add: abs_bc_def)
  have "a_view (labs r) (of_nat n) = ex_disk ! n" if "n < 14" "n \<noteq> 2" for n
  proof -
    have n: "unat (of_nat n :: u32) = n" using that by (simp add: unat_of_nat_u32)
    then show ?thesis
      using bcache.settled [OF rest(1), of "of_nat n"] rest dk dks that by simp
  qed
  moreover have "log_ok (r\<lparr>log_outstanding := 1\<rparr>)" using ok unfolding log_ok_def in_log_def by simp
  ultimately have "ex_fs ?s" using rest dks by (simp add: ex_fs_def)
  then show ?thesis ..
qed

lemma ex_view:
  assumes "ex_fs s"
  shows "fview s 1 = ex_sb" "fview s 9 = ex_inodes" "fview s 10 = ex_bitmap" "fview s 11 = ex_dir"
    "fview s 12 = replicate BSIZE 0" "fview s 13 = replicate BSIZE 0"
proof -
  have v: "fview s (of_nat n) = ex_disk ! n" if "n < 14" "n \<noteq> 2" for n
    using assms that by (simp add: ex_fs_def)
  show "fview s 1 = ex_sb" "fview s 9 = ex_inodes" "fview s 10 = ex_bitmap" "fview s 11 = ex_dir"
    "fview s 12 = replicate BSIZE 0" "fview s 13 = replicate BSIZE 0"
    using v [of 1] v [of 9] v [of 10] v [of 11] v [of 12] v [of 13] by (simp_all add: ex_disk_def Let_def)
qed

lemma ex_txn: "ex_fs s \<Longrightarrow> txn 6 s"
  by (simp add: ex_fs_def txn_def)

lemma ex_home: "ex_fs s \<Longrightarrow> home (lg s) n \<longleftrightarrow> unat n < 14 \<and> \<not> (2 \<le> unat n \<and> unat n < 9)"
  by (auto simp: ex_fs_def home_def in_log_def abs_bc_def)

section \<open>Witnesses\<close>

lemma ex_find: "find (bm_free ex_bitmap) [0..<14] = Some 12"
  unfolding ex_bitmap_def by code_simp

lemma ex_balloc:
  assumes ex: "ex_fs s"
  shows "\<exists>s'. balloc 1 s = Ok (12, s')"
proof -
  have bb: "BBLOCK 0 (sb s) = 10" "sb_size (sb s) = 14" using ex by (simp_all add: ex_fs_def BBLOCK_def ex_super_def)
  have l: "map (\<lambda>k. BPB * k) [0..<(unat (sb_size (sb s)) + BPB - 1) div BPB] = [0]"
    by (simp add: bb(2))
  have len: "length (mark_used 12 ex_bitmap) = BSIZE" by (simp add: mark_used_def ex_lengths(2))
  have t6: "txn (Suc 5) s" using ex_txn [OF ex] by simp
  obtain i s1 s2 s3 where u: "fbread 1 10 s = Ok (i, s1)" "fdata s1 i = fview s 10"
    "flog_write i (fset i (mark_used 12 ex_bitmap) s1) = Ok s2" "fbrelse i s2 = Ok s3" "txn 5 s3"
    "\<forall>m. home (lg s3) m = home (lg s) m"
    using txn_update [OF t6 _ _ len, of 10] ex_home [OF ex, of 10] by auto
  have t5: "txn (Suc 4) s3" using u(5) by simp
  obtain j t1 t2 t3 where z: "fbread 1 12 s3 = Ok (j, t1)" "flog_write j (fset j (replicate BSIZE 0) t1) = Ok t2"
    "fbrelse j t2 = Ok t3"
    using txn_update [OF t5, of 12 "replicate BSIZE 0"] u(6) ex_home [OF ex, of 12] by auto
  have sb1: "sb s1 = sb s" using same_fs_sel(2) [OF same_fs_ops(1) [OF u(1)]] .
  have mu: "ex_bitmap[12 div 8 := ex_bitmap ! (12 div 8) OR bit_mask 12] = mark_used 12 ex_bitmap"
    by (simp add: mark_used_def)
  have "bzero 1 (of_nat (0 + 12)) s3 = Ok t3" using z by (simp add: bzero_def)
  then have "balloc_loop 1 [0] s = Ok (of_nat (0 + 12), t3)"
    using u(1-4) sb1 bb ex_view(3) [OF ex] ex_find mu by (simp add: Let_def)
  moreover have "balloc 1 s = balloc_loop 1 [0] s" unfolding balloc_def l ..
  ultimately show ?thesis by (metis add_0 of_nat_numeral)
qed

theorem balloc_fresh_zeroed_witness:
  "\<exists>(s :: fsys) s'. balloc 1 s = Ok (12, s') \<and> fview s' 12 = replicate BSIZE 0 \<and>
     block_free (sb s) (fview s) 12 \<and> \<not> block_free (sb s) (fview s') 12"
proof -
  obtain s where ex: "ex_fs s" using ex_fs_exists by blast
  obtain s' where b: "balloc 1 s = Ok (12, s')" using ex_balloc [OF ex] by blast
  have sz: "sb_size (sb s) = 14" "finv s" using ex by (simp_all add: ex_fs_def ex_super_def)
  have bb: "BBLOCK c (sb s) = 10" if "c < 14" for c
    using ex that by (simp add: ex_fs_def ex_super_def BBLOCK_def)
  have nf: "\<not> bm_free ex_bitmap 10" unfolding ex_bitmap_def by code_simp
  have "of_nat b \<noteq> BBLOCK c (sb s)" if "b < 14" "c < 14" "block_free (sb s) (fview s) b" for b c
  proof
    assume "of_nat b = BBLOCK c (sb s)"
    then have "(of_nat b :: u32) = of_nat 10" using bb [OF that(2)] by simp
    then have "b = 10" using of_nat_u32_inj [of b 10] that(1) by simp
    then show False using that(3) bb [of 10] ex_view(3) [OF ex] nf by (simp add: block_free_def)
  qed
  then have lay: "\<forall>b c. b < unat (sb_size (sb s)) \<and> c < unat (sb_size (sb s)) \<and> block_free (sb s) (fview s) b
      \<longrightarrow> of_nat b \<noteq> BBLOCK c (sb s)" using sz(1) by simp
  have u: "unat (12 :: u32) = 12" by simp
  show ?thesis
    using balloc_fresh_zeroed [OF sz(2) b lay, unfolded u sz(1)] b by (intro exI [of _ s] exI [of _ s']) simp
qed

theorem bfree_marks_free_witness:
  "\<exists>(s :: fsys) s'. bfree 1 11 s = Ok s' \<and> \<not> block_free (sb s) (fview s) 11 \<and> block_free (sb s) (fview s') 11"
proof -
  obtain s where ex: "ex_fs s" using ex_fs_exists by blast
  have st: "finv s" "sb s = ex_super" "length (a_disk (fabs s)) = 14" using ex by (simp_all add: ex_fs_def)
  have sbv: "sb s = sb_of_bytes (fview s 1)" using ex_view(1) [OF ex] ex_sb_fields(1) st(2) by simp
  have t6: "txn (Suc 5) s" using ex_txn [OF ex] by simp
  obtain i0 r1 r2 where r: "fbread 1 1 s = Ok (i0, r1)" "fdata r1 i0 = fview s 1" "fbrelse i0 r1 = Ok r2"
    "txn (Suc 5) r2" "same_fs s r2" "fabs r2 = fabs s" "\<forall>m. home (lg r2) m = home (lg s) m"
    using txn_read [OF t6, of 1] st(3) by auto
  have sb2: "sb r2 = sb s" using same_fs_sel(2) [OF r(5)] .
  have frs: "freadsb 1 s = Ok r2"
  proof -
    have "freadsb 1 s = Ok (r2\<lparr>sb := sb_of_bytes (fview s 1)\<rparr>)"
      using r(1-3) by (auto simp: freadsb_def readsb_def bnd_eq_Ok fbread_def lbread_def fbrelse_def lbrelse_def
        fdata_def Let_def)
    then show ?thesis using sbv sb2 by simp
  qed
  have len: "length (mark_free 11 ex_bitmap) = BSIZE" by (simp add: mark_free_def ex_lengths(2))
  obtain i s1 s2 s3 where u: "fbread 1 10 r2 = Ok (i, s1)" "fdata s1 i = fview r2 10"
    "flog_write i (fset i (mark_free 11 ex_bitmap) s1) = Ok s2" "fbrelse i s2 = Ok s3"
    using txn_update [OF r(4) _ _ len, of 10] ex_home [OF ex, of 10] r(7) by auto
  have bb: "BBLOCK 11 (sb s) = 10" using st(2) by (simp add: BBLOCK_def ex_super_def)
  have nf: "\<not> bm_free ex_bitmap 11" unfolding ex_bitmap_def by code_simp
  have mf: "ex_bitmap[11 div 8 := ex_bitmap ! (11 div 8) AND NOT (bit_mask 11)] = mark_free 11 ex_bitmap"
    by (simp add: mark_free_def)
  have b: "bfree 1 11 s = Ok s3"
    using u frs sb2 bb nf mf r(6) ex_view(3) [OF ex] by (simp add: bfree_def Let_def)
  have u11: "unat (11 :: u32) = 11" by simp
  show ?thesis using bfree_marks_free [OF st(1) b sbv, unfolded u11] b by (intro exI [of _ s] exI [of _ s3]) simp
qed


end
