(* ===== verification/Fs_Content.thy ===== *)
theory Fs_Content
  imports Fs_Example
begin

text \<open>
  The content of files: \<open>bmap\<close>, \<open>readi\<close> and \<open>writei\<close> against the abstract view of a file as
  a list of bytes.  \<open>content s ip\<close> collects the bytes of the blocks an inode lists, directly or
  through its indirect block, up to its size.  On a file whose blocks are all allocated and
  distinct, \<open>readi\<close> returns a slice of that list and \<open>writei\<close> inside the file replaces one.
\<close>

section \<open>States with nothing held\<close>

definition calm :: "'b fsys_scheme \<Rightarrow> bool" where
  "calm s \<longleftrightarrow> finv s \<and> quiet (fabs s) \<and> room 1 (fabs s)"

text \<open>Only the cache changed, and no block's content did.\<close>

definition only_cached :: "'b fsys_scheme \<Rightarrow> 'b fsys_scheme \<Rightarrow> bool" where
  "only_cached s s' \<longleftrightarrow> finv s' \<and> fabs s' = fabs s \<and> (\<exists>b. s' = s\<lparr>lg := (lg s)\<lparr>lbc := b\<rparr>\<rparr>)"

lemma only_cached_refl: "finv s \<Longrightarrow> only_cached s s"
proof -
  assume "finv s"
  moreover have "s = s\<lparr>lg := (lg s)\<lparr>lbc := lbc (lg s)\<rparr>\<rparr>" by simp
  ultimately show ?thesis unfolding only_cached_def by metis
qed

lemma only_cached_trans: "only_cached s s' \<Longrightarrow> only_cached s' s'' \<Longrightarrow> only_cached s s''"
  by (auto simp: only_cached_def)

lemma only_cached_sel:
  assumes "only_cached s s'"
  shows "icache s' = icache s" "sb s' = sb s" "fsys.more s' = fsys.more s" "fabs s' = fabs s" "finv s'"
  using assms by (auto simp: only_cached_def)

lemma only_cached_calm: "only_cached s s' \<Longrightarrow> calm s \<Longrightarrow> calm s'"
  by (auto simp: only_cached_def calm_def)

lemma only_cached_txn:
  assumes oc: "only_cached s s'" and t: "txn k s"
  shows "txn k s'" "home (lg s') m = home (lg s) m"
proof -
  obtain b where b: "lg s' = (lg s)\<lparr>lbc := b\<rparr>" "fabs s' = fabs s" "finv s'"
    using oc by (auto simp: only_cached_def)
  have dk: "disk (fbc s') = disk (fbc s)" using arg_cong [OF b(2), of a_disk] by (simp add: abs_bc_def)
  have "log_ok (lg s')" using t b dk unfolding txn_def log_ok_def in_log_def by simp
  then show "txn k s'" using t b by (simp add: txn_def)
  show "home (lg s') m = home (lg s) m" using dk b by (simp add: home_def in_log_def)
qed

lemma txn_calm: "txn (Suc k) s \<Longrightarrow> calm s"
  by (simp add: txn_def calm_def room_def)

lemma calm_read:
  assumes c: "calm s" and n: "unat n < length (a_disk (fabs s))"
  shows "\<exists>i s1 s2. fbread 1 n s = Ok (i, s1) \<and> fdata s1 i = fview s n \<and> fbrelse i s1 = Ok s2 \<and>
    same_fs s s1 \<and> only_cached s s2"
proof -
  have c': "finv s" "quiet (fabs s)" "room 1 (fabs s)" using c by (simp_all add: calm_def)
  obtain i s1 where 1: "fbread 1 n s = Ok (i, s1)" using fs.rd_ok [OF c'(1) n] c'(2,3) by auto
  obtain s2 where 2: "fbrelse i s1 = Ok s2" using fs.rd_rel [OF c'(1) 1] by blast
  note r = read_release [OF c'(1) 1 2]
  have "only_cached s s2" using r 1 2 by (auto simp: only_cached_def fbread_Ok fbrelse_Ok)
  then show ?thesis using 1 2 r(4) same_fs_ops(1) [OF 1] by blast
qed

section \<open>The blocks of a file\<close>

definition faddr :: "'b fsys_scheme \<Rightarrow> nat \<Rightarrow> nat \<Rightarrow> u32" where
  "faddr s ip bn =
     (if bn < NDIRECT then d_addrs (i_di (ino s ip)) ! bn
      else get32 (fview s (d_addrs (i_di (ino s ip)) ! NDIRECT)) (4 * (bn - NDIRECT)))"

definition nblocks :: "'b fsys_scheme \<Rightarrow> nat \<Rightarrow> nat" where
  "nblocks s ip = (unat (d_size (i_di (ino s ip))) + (BSIZE - 1)) div BSIZE"

definition file_ok :: "'b fsys_scheme \<Rightarrow> nat \<Rightarrow> bool" where
  "file_ok s ip \<longleftrightarrow> i_dev (ino s ip) = 1 \<and> nblocks s ip \<le> MAXFILE \<and>
     (\<forall>bn < nblocks s ip. faddr s ip bn \<noteq> 0 \<and> unat (faddr s ip bn) < length (a_disk (fabs s))) \<and>
     distinct (map (faddr s ip) [0..<nblocks s ip]) \<and>
     (nblocks s ip > NDIRECT \<longrightarrow> d_addrs (i_di (ino s ip)) ! NDIRECT \<noteq> 0 \<and>
        unat (d_addrs (i_di (ino s ip)) ! NDIRECT) < length (a_disk (fabs s)) \<and>
        d_addrs (i_di (ino s ip)) ! NDIRECT \<notin> set (map (faddr s ip) [0..<nblocks s ip]))"

definition fbyte :: "'b fsys_scheme \<Rightarrow> nat \<Rightarrow> nat \<Rightarrow> u8" where
  "fbyte s ip k = fview s (faddr s ip (k div BSIZE)) ! (k mod BSIZE)"

definition content :: "'b fsys_scheme \<Rightarrow> nat \<Rightarrow> u8 list" where
  "content s ip = map (fbyte s ip) [0..<unat (d_size (i_di (ino s ip)))]"

lemma only_cached_file:
  assumes "only_cached s s'"
  shows "faddr s' ip bn = faddr s ip bn" "nblocks s' ip = nblocks s ip" "file_ok s' ip = file_ok s ip"
    "fbyte s' ip k = fbyte s ip k" "content s' ip = content s ip"
proof -
  note sel = only_cached_sel [OF assms]
  have f: "faddr s' ip = faddr s ip" by (rule ext) (simp only: faddr_def sel)
  then show "faddr s' ip bn = faddr s ip bn" by simp
  show nb: "nblocks s' ip = nblocks s ip" by (simp add: nblocks_def sel)
  show "file_ok s' ip = file_ok s ip" unfolding file_ok_def f nb sel(1,4) ..
  have b: "fbyte s' ip = fbyte s ip" by (rule ext) (simp only: fbyte_def f sel(4))
  then show "fbyte s' ip k = fbyte s ip k" by simp
  show "content s' ip = content s ip" by (simp only: content_def b sel(1))
qed

lemma bmap_ok:
  assumes c: "calm s" and f: "file_ok s ip" and bn: "bn < nblocks s ip"
  shows "\<exists>s'. bmap ip bn s = Ok (faddr s ip bn, s') \<and> only_cached s s'"
proof (cases "bn < NDIRECT")
  case True
  moreover have "d_addrs (i_di (ino s ip)) ! bn = faddr s ip bn" using True by (simp add: faddr_def)
  moreover have "faddr s ip bn \<noteq> 0" using f bn by (simp add: file_ok_def)
  ultimately show ?thesis
    using only_cached_refl [of s] c by (intro exI [of _ s]) (simp add: bmap_def calm_def)
next
  case False
  let ?a = "d_addrs (i_di (ino s ip)) ! NDIRECT"
  have b: "bn - NDIRECT < NINDIRECT" "nblocks s ip > NDIRECT" using f bn False by (auto simp: file_ok_def)
  have a: "?a \<noteq> 0" "unat ?a < length (a_disk (fabs s))" "i_dev (ino s ip) = 1" "faddr s ip bn \<noteq> 0"
    using f b bn by (simp_all add: file_ok_def)
  obtain i s1 s2 where r: "fbread 1 ?a s = Ok (i, s1)" "fdata s1 i = fview s ?a" "fbrelse i s1 = Ok s2"
    "only_cached s s2" using calm_read [OF c a(2)] by blast
  have fa: "get32 (fview s ?a) (4 * (bn - NDIRECT)) = faddr s ip bn" using False by (simp add: faddr_def)
  show ?thesis
    using False b a r fa by (intro exI [of _ s2]) (simp add: bmap_def Let_def)
qed

section \<open>Reading\<close>

lemma slice_fbyte:
  assumes "m \<le> BSIZE - off mod BSIZE" "length (fview s (faddr s ip (off div BSIZE))) = BSIZE"
  shows "slice (fview s (faddr s ip (off div BSIZE))) (off mod BSIZE) m = map (fbyte s ip) [off..<off + m]"
proof (rule nth_equalityI)
  have lt: "off mod BSIZE < BSIZE" by simp
  then have le: "off mod BSIZE + m \<le> BSIZE" using assms(1) by linarith
  then show "length (slice (fview s (faddr s ip (off div BSIZE))) (off mod BSIZE) m) = length (map (fbyte s ip) [off..<off + m])"
    using assms(2) by simp
  fix i assume "i < length (slice (fview s (faddr s ip (off div BSIZE))) (off mod BSIZE) m)"
  then have i: "i < m" using le assms(2) by simp
  then have "off mod BSIZE + i < BSIZE" using le by linarith
  note dm = div_mod_within [OF this]
  show "slice (fview s (faddr s ip (off div BSIZE))) (off mod BSIZE) m ! i = map (fbyte s ip) [off..<off + m] ! i"
    using i le assms(2) dm by (simp add: nth_slice fbyte_def)
qed

lemma block_in_file:
  assumes "off < unat (d_size (i_di (ino s ip)))"
  shows "off div BSIZE < nblocks s ip"
proof -
  have "(off + BSIZE) div BSIZE \<le> (unat (d_size (i_di (ino s ip))) + (BSIZE - 1)) div BSIZE"
    by (rule div_le_mono) (use assms in simp)
  then show ?thesis by (simp add: nblocks_def)
qed

lemma readi_loop_ok:
  assumes "calm s" "file_ok s ip" "off + n \<le> unat (d_size (i_di (ino s ip)))"
  shows "\<exists>s'. readi_loop ip off n s = Ok (map (fbyte s ip) [off..<off + n], s') \<and> only_cached s s'"
  using assms
proof (induction n arbitrary: off s rule: less_induct)
  case (less n)
  show ?case
  proof (cases "n = 0")
    case True
    then show ?thesis
      using less.prems(1) only_cached_refl [of s] by (simp add: readi_loop.simps calm_def)
  next
    case False
    let ?m = "min n (BSIZE - off mod BSIZE)" and ?a = "faddr s ip (off div BSIZE)"
    have mpos: "?m > 0" using False by simp
    have bn: "off div BSIZE < nblocks s ip" by (rule block_in_file) (use less.prems(3) False in simp)
    obtain s1 where 1: "bmap ip (off div BSIZE) s = Ok (?a, s1)" "only_cached s s1"
      using bmap_ok [OF less.prems(1,2) bn] by blast
    have an: "unat ?a < length (a_disk (fabs s1))" "i_dev (ino s1 ip) = 1"
      using less.prems(2) bn only_cached_sel [OF 1(2)] by (simp_all add: file_ok_def)
    obtain i s2 s3 where 2: "fbread 1 ?a s1 = Ok (i, s2)" "fdata s2 i = fview s1 ?a" "fbrelse i s2 = Ok s3"
      "only_cached s1 s3" using calm_read [OF only_cached_calm [OF 1(2) less.prems(1)] an(1)] by blast
    have oc: "only_cached s s3" by (rule only_cached_trans [OF 1(2) 2(4)])
    have d: "fdata s2 i = fview s ?a" using 2(2) only_cached_sel(4) [OF 1(2)] by simp
    have len: "length (fview s ?a) = BSIZE"
      using fs.view_len [of s1 ?a] an(1) only_cached_sel [OF 1(2)] by simp
    have "\<exists>s'. readi_loop ip (off + ?m) (n - ?m) s3 =
        Ok (map (fbyte s3 ip) [off + ?m..<off + ?m + (n - ?m)], s') \<and> only_cached s3 s'"
      by (rule less.IH) (use mpos less.prems only_cached_calm [OF oc] only_cached_file [OF oc] only_cached_sel(1) [OF oc]
        in simp_all)
    then obtain s4 where 3: "readi_loop ip (off + ?m) (n - ?m) s3 = Ok (map (fbyte s3 ip) [off + ?m..<off + n], s4)"
      "only_cached s3 s4" by auto
    have fb: "fbyte s3 ip = fbyte s ip" by (rule ext) (rule only_cached_file(4) [OF oc])
    have "slice (fdata s2 i) (off mod BSIZE) ?m = map (fbyte s ip) [off..<off + ?m]"
      unfolding d by (rule slice_fbyte [OF _ len]) simp
    moreover have "map (fbyte s ip) [off..<off + ?m] @ map (fbyte s ip) [off + ?m..<off + n] = map (fbyte s ip) [off..<off + n]"
      using upt_add_eq_append [of off "off + ?m" "n - ?m"] by (simp flip: map_append)
    ultimately show ?thesis
      using False 1(1) 2(1,3) 3(1) an(2) fb only_cached_trans [OF oc 3(2)]
      by (subst readi_loop.simps) (simp add: Let_def)
  qed
qed

section \<open>Writing\<close>

lemma block_written:
  assumes f: "file_ok s ip" and bn: "bn < nblocks s ip" and sf: "same_fs s s'"
    and fa: "fabs s' = a_update (faddr s ip bn) d (fabs s)"
  shows "nblocks s' ip = nblocks s ip" "c < nblocks s ip \<Longrightarrow> faddr s' ip c = faddr s ip c" "file_ok s' ip"
    "k div BSIZE < nblocks s ip \<Longrightarrow>
      fbyte s' ip k = (if k div BSIZE = bn then d ! (k mod BSIZE) else fbyte s ip k)"
proof -
  note sel = same_fs_sel(1) [OF sf]
  show nb: "nblocks s' ip = nblocks s ip" by (simp add: nblocks_def sel)
  have v: "fview s' n = (if n = faddr s ip bn then d else fview s n)" for n using fa by simp
  have ad: "faddr s' ip c = faddr s ip c" if c: "c < nblocks s ip" for c
  proof (cases "c < NDIRECT")
    case True
    then show ?thesis by (simp add: faddr_def sel)
  next
    case False
    then have "nblocks s ip > NDIRECT" using c by simp
    then have "d_addrs (i_di (ino s ip)) ! NDIRECT \<notin> faddr s ip ` {0..<nblocks s ip}"
      using f by (simp add: file_ok_def)
    then have "d_addrs (i_di (ino s ip)) ! NDIRECT \<noteq> faddr s ip bn" using bn by auto
    then show ?thesis using False by (simp add: faddr_def sel v)
  qed
  then show "c < nblocks s ip \<Longrightarrow> faddr s' ip c = faddr s ip c" .
  have m: "map (faddr s' ip) [0..<nblocks s ip] = map (faddr s ip) [0..<nblocks s ip]" using ad by simp
  have dk: "a_disk (fabs s') = a_disk (fabs s)" using fa by simp
  show "file_ok s' ip" using f ad unfolding file_ok_def nb m dk sel by simp
  show "fbyte s' ip k = (if k div BSIZE = bn then d ! (k mod BSIZE) else fbyte s ip k)"
    if k: "k div BSIZE < nblocks s ip"
  proof -
    have "inj_on (faddr s ip) {0..<nblocks s ip}" using f by (simp add: file_ok_def distinct_map)
    then have "faddr s ip (k div BSIZE) = faddr s ip bn \<longleftrightarrow> k div BSIZE = bn"
      using k bn by (simp add: inj_on_eq_iff)
    then show ?thesis by (simp add: fbyte_def ad [OF k] v)
  qed
qed

definition blks :: "nat \<Rightarrow> nat \<Rightarrow> nat" where
  "blks off len = (if len = 0 then 0 else (off + len - 1) div BSIZE - off div BSIZE + 1)"

lemma blks_step:
  assumes "0 < len" "m = min len (BSIZE - off mod BSIZE)"
  shows "blks off len = Suc (blks (off + m) (len - m))"
proof (cases "len \<le> BSIZE - off mod BSIZE")
  case True
  have lt: "off mod BSIZE < BSIZE" by simp
  have "off mod BSIZE + (len - 1) < BSIZE" using True lt assms(1) by linarith
  then have "(off + (len - 1)) div BSIZE = off div BSIZE" by (rule div_mod_within(1))
  then have "(off + len - 1) div BSIZE = off div BSIZE" using assms(1) by (simp add: algebra_simps)
  then show ?thesis using True assms by (simp add: blks_def)
next
  case False
  have lt: "off mod BSIZE < BSIZE" by simp
  have m: "m = BSIZE - off mod BSIZE" using False assms(2) by simp
  have "off + m = off div BSIZE * BSIZE + BSIZE"
    using lt m div_mult_mod_eq [of off BSIZE] by linarith
  then have d: "(off + m) div BSIZE = off div BSIZE + 1" by simp
  have "off + m \<le> off + len - 1" using False m by linarith
  then have "(off + m) div BSIZE \<le> (off + len - 1) div BSIZE" by (rule div_le_mono)
  moreover have e: "off + m + (len - m) - 1 = off + len - 1" and ne: "len - m \<noteq> 0" using False m by simp_all
  have "blks (off + m) (len - m) = (off + len - 1) div BSIZE - (off div BSIZE + 1) + 1"
    unfolding blks_def e d using ne by simp
  moreover have "blks off len = (off + len - 1) div BSIZE - off div BSIZE + 1" using assms(1) by (simp add: blks_def)
  ultimately show ?thesis using d by linarith
qed

definition file_home :: "'b fsys_scheme \<Rightarrow> nat \<Rightarrow> bool" where
  "file_home s ip \<longleftrightarrow> (\<forall>bn < nblocks s ip. home (lg s) (faddr s ip bn) \<and> faddr s ip bn \<noteq> 1)"

text \<open>What a write of \<open>src\<close> at \<open>off\<close> leaves of the file and of the other blocks.\<close>

definition written :: "'b fsys_scheme \<Rightarrow> nat \<Rightarrow> nat \<Rightarrow> u8 list \<Rightarrow> 'b fsys_scheme \<Rightarrow> bool" where
  "written s ip off src s' \<longleftrightarrow>
     finv s' \<and> same_fs s s' \<and> file_ok s' ip \<and> nblocks s' ip = nblocks s ip \<and>
     (\<forall>k. k div BSIZE < nblocks s ip \<longrightarrow>
        fbyte s' ip k = (if off \<le> k \<and> k < off + length src then src ! (k - off) else fbyte s ip k)) \<and>
     (\<forall>n. n \<notin> set (map (faddr s ip) [0..<nblocks s ip]) \<longrightarrow> fview s' n = fview s n) \<and>
     (\<forall>c < nblocks s ip. faddr s' ip c = faddr s ip c)"

lemma written_Nil: "finv s \<Longrightarrow> file_ok s ip \<Longrightarrow> written s ip off [] s"
  by (auto simp: written_def)

lemma written_append:
  assumes 1: "written s ip off xs s1" and 2: "written s1 ip (off + length xs) ys s2"
  shows "written s ip off (xs @ ys) s2"
proof -
  have nb: "nblocks s1 ip = nblocks s ip" and fa: "\<forall>c < nblocks s ip. faddr s1 ip c = faddr s ip c"
    and sf: "same_fs s s1" using 1 by (auto simp: written_def)
  have m: "map (faddr s1 ip) [0..<nblocks s1 ip] = map (faddr s ip) [0..<nblocks s ip]" using nb fa by simp
  have "fbyte s2 ip k = (if off \<le> k \<and> k < off + length (xs @ ys) then (xs @ ys) ! (k - off) else fbyte s ip k)"
    if k: "k div BSIZE < nblocks s ip" for k
  proof -
    have "fbyte s2 ip k = (if off + length xs \<le> k \<and> k < off + length xs + length ys
        then ys ! (k - (off + length xs)) else fbyte s1 ip k)" using 2 k nb by (simp add: written_def)
    moreover have "fbyte s1 ip k = (if off \<le> k \<and> k < off + length xs then xs ! (k - off) else fbyte s ip k)"
      using 1 k by (simp add: written_def)
    ultimately show ?thesis by (auto simp: nth_append)
  qed
  moreover have "fview s2 n = fview s n" if "n \<notin> set (map (faddr s ip) [0..<nblocks s ip])" for n
    using 1 2 that m unfolding written_def by metis
  moreover have "finv s2 \<and> same_fs s s2 \<and> file_ok s2 ip \<and> nblocks s2 ip = nblocks s ip"
    using 2 nb same_fs_trans [OF sf] by (auto simp: written_def)
  moreover have "\<forall>c < nblocks s ip. faddr s2 ip c = faddr s ip c" using 2 nb fa by (simp add: written_def)
  ultimately show ?thesis unfolding written_def by blast
qed

lemma writei_step:
  assumes t: "txn (Suc k) s" and f: "file_ok s ip" and h: "file_home s ip" and src: "src \<noteq> []"
    and off: "off + length src \<le> unat (d_size (i_di (ino s ip)))"
    and m: "m = min (length src) (BSIZE - off mod BSIZE)"
  shows "\<exists>s'. writei_loop ip off src s = writei_loop ip (off + m) (drop m src) s' \<and>
    written s ip off (take m src) s' \<and> txn k s' \<and> file_home s' ip"
proof -
  let ?bn = "off div BSIZE" let ?a = "faddr s ip ?bn"
  have bn: "?bn < nblocks s ip" using off src by (intro block_in_file) (cases src, auto)
  obtain s1 where 1: "bmap ip ?bn s = Ok (?a, s1)" "only_cached s s1"
    using bmap_ok [OF txn_calm [OF t] f bn] by blast
  note oc = only_cached_sel [OF 1(2)]
  note tx = only_cached_txn [OF 1(2) t]
  have an: "unat ?a < length (a_disk (fabs s))" "i_dev (ino s ip) = 1" "home (lg s) ?a" "?a \<noteq> 1"
    using f h bn by (simp_all add: file_ok_def file_home_def)
  have len: "length (fview s ?a) = BSIZE" using fs.view_len [of s1 ?a] an(1) oc by simp
  have lt: "off mod BSIZE < BSIZE" by simp
  have le: "off mod BSIZE + length (take m src) \<le> BSIZE" using m lt by simp
  let ?d = "splice (fview s ?a) (off mod BSIZE) (take m src)"
  have dl: "length ?d = BSIZE" using len le by simp
  obtain i s2 s3 s4 where u: "fbread 1 ?a s1 = Ok (i, s2)" "fdata s2 i = fview s1 ?a"
    "flog_write i (fset i ?d s2) = Ok s3" "fbrelse i s3 = Ok s4" "txn k s4" "same_fs s1 s4"
    "fabs s4 = a_update ?a ?d (fabs s1)" "\<forall>m. home (lg s4) m = home (lg s1) m"
    using txn_update [OF tx(1) _ an(4) dl] an(3) tx(2) by auto
  have sf: "same_fs s s4"
  proof -
    have "same_fs s s1" using 1(2) by (auto simp: only_cached_def same_fs_def)
    then show ?thesis using u(6) by (rule same_fs_trans)
  qed
  have fa: "fabs s4 = a_update ?a ?d (fabs s)" using u(7) oc by simp
  note bw = block_written [OF f bn sf fa]
  have "fbyte s4 ip j = (if off \<le> j \<and> j < off + length (take m src) then take m src ! (j - off) else fbyte s ip j)"
    if j: "j div BSIZE < nblocks s ip" for j
  proof (cases "j div BSIZE = ?bn")
    case True
    have jj: "off \<le> j \<longleftrightarrow> off mod BSIZE \<le> j mod BSIZE" "j < off + length (take m src) \<longleftrightarrow> j mod BSIZE < off mod BSIZE + length (take m src)"
      "j - off = j mod BSIZE - off mod BSIZE"
      using True div_mult_mod_eq [of j BSIZE] div_mult_mod_eq [of off BSIZE] by linarith+
    have "fbyte s4 ip j = ?d ! (j mod BSIZE)" using bw(4) [OF j] True by simp
    also have "\<dots> = (if off mod BSIZE \<le> j mod BSIZE \<and> j mod BSIZE < off mod BSIZE + length (take m src)
        then take m src ! (j mod BSIZE - off mod BSIZE) else fview s ?a ! (j mod BSIZE))"
      by (rule nth_splice) (use len le in simp_all)
    finally show ?thesis using True jj by (simp add: fbyte_def)
  next
    case False
    have "\<not> (off \<le> j \<and> j < off + length (take m src))"
    proof
      assume j': "off \<le> j \<and> j < off + length (take m src)"
      then have "off mod BSIZE + (j - off) < BSIZE" using le by linarith
      from div_mod_within(1) [OF this] j' False show False by simp
    qed
    then show ?thesis using bw(4) [OF j] False by auto
  qed
  moreover have "fview s4 n = fview s n" if "n \<notin> set (map (faddr s ip) [0..<nblocks s ip])" for n
  proof -
    have "?a \<in> set (map (faddr s ip) [0..<nblocks s ip])" using bn by simp
    then show ?thesis using that fa by auto
  qed
  ultimately have w: "written s ip off (take m src) s4"
    using u(5) sf bw by (simp add: written_def txn_def)
  have "file_home s4 ip"
    using h bw(1,2) u(8) tx(2) unfolding file_home_def by simp
  moreover have "writei_loop ip off src s = writei_loop ip (off + m) (drop m src) s4"
    using src 1(1) u(1-4) an(2) oc m by (subst writei_loop.simps) (simp add: Let_def)
  ultimately show ?thesis using w u(5) by blast
qed

lemma writei_loop_ok:
  assumes "txn (blks off (length src)) s" "file_ok s ip" "file_home s ip"
    "off + length src \<le> unat (d_size (i_di (ino s ip)))"
  shows "\<exists>s'. writei_loop ip off src s = Ok s' \<and> written s ip off src s'"
  using assms
proof (induction "length src" arbitrary: off src s rule: less_induct)
  case less
  show ?case
  proof (cases "src = []")
    case True
    then show ?thesis using written_Nil [of s ip off] less.prems by (auto simp: writei_loop.simps txn_def)
  next
    case False
    define m where "m = min (length src) (BSIZE - off mod BSIZE)"
    have bs: "blks off (length src) = Suc (blks (off + m) (length src - m))"
      by (rule blks_step) (use False m_def in auto)
    obtain s1 where 1: "writei_loop ip off src s = writei_loop ip (off + m) (drop m src) s1"
      "written s ip off (take m src) s1" "txn (blks (off + m) (length src - m)) s1" "file_home s1 ip"
      using writei_step [OF less.prems(1) [unfolded bs] less.prems(2,3) False less.prems(4) m_def] by blast
    have ml: "m \<le> length src" "0 < m" using False by (simp_all add: m_def)
    have sel: "icache s1 = icache s" "file_ok s1 ip" using 1(2) same_fs_sel(1) [of s s1] by (simp_all add: written_def)
    have "\<exists>s'. writei_loop ip (off + m) (drop m src) s1 = Ok s' \<and> written s1 ip (off + m) (drop m src) s'"
      by (rule less.hyps) (use 1(3,4) ml sel less.prems(4) in auto)
    then obtain s' where s': "writei_loop ip (off + m) (drop m src) s1 = Ok s'"
      "written s1 ip (off + length (take m src)) (drop m src) s'" using ml by auto
    from written_append [OF 1(2) s'(2)] 1(1) s'(1) show ?thesis by simp
  qed
qed

lemma file_size_small: "file_ok s ip \<Longrightarrow> unat (d_size (i_di (ino s ip))) \<le> 71680"
  unfolding file_ok_def nblocks_def by linarith

lemma slice_content:
  "off \<le> unat (d_size (i_di (ino s ip))) \<Longrightarrow>
   slice (content s ip) off n = map (fbyte s ip) [off..<min (off + n) (unat (d_size (i_di (ino s ip))))]"
  by (auto simp: slice_def content_def take_map drop_map min_def)

lemma readi_ok:
  assumes "calm s" "file_ok s ip" "d_type (i_di (ino s ip)) \<noteq> T_DEV"
  shows "\<exists>s'. readi devsw ip off n s =
      Ok ((if off > d_size (i_di (ino s ip)) \<or> off + n < off then (-1, [])
           else (int (length (slice (content s ip) (unat off) (unat n))), slice (content s ip) (unat off) (unat n))), s') \<and>
    only_cached s s'"
proof -
  let ?sz = "d_size (i_di (ino s ip))"
  consider "off > ?sz \<or> off + n < off" | "off \<le> ?sz" "\<not> off + n < off" by fastforce
  then show ?thesis
  proof cases
    case 1
    then show ?thesis
      using assms(1,3) only_cached_refl [of s] by (intro exI [of _ s]) (auto simp: readi_def Let_def calm_def)
  next
    case 2
    let ?n = "if off + n > ?sz then ?sz - off else n"
    have nw: "unat (off + n) = unat off + unat n"
      using 2(2) no_olen_add_nat [of off n] by (intro unat_add_nowrap) (simp add: not_less word_size)
    have n: "unat off + unat ?n = min (unat off + unat n) (unat ?sz)"
      using 2(1) nw by (auto simp: word_less_nat_alt word_le_nat_alt unat_sub min_def)
    obtain s' where s': "readi_loop ip (unat off) (unat ?n) s = Ok (map (fbyte s ip) [unat off..<unat off + unat ?n], s')"
      "only_cached s s'" using readi_loop_ok [OF assms(1,2), of "unat off" "unat ?n"] n by auto
    have sl: "slice (content s ip) (unat off) (unat n) = map (fbyte s ip) [unat off..<unat off + unat ?n]"
      unfolding n by (rule slice_content) (use 2(1) in \<open>simp add: word_le_nat_alt\<close>)
    have "unat ?n \<le> 71680" using n file_size_small [OF assms(2)] by linarith
    then have sn: "sint ?n = int (unat ?n)" by (intro sint_u32_small) simp
    have cond: "(off > ?sz \<or> off + n < off) = False" using 2 by simp
    have "readi devsw ip off n s = bnd (readi_loop ip (unat off) (unat ?n) s) (\<lambda>(ds, s). Ok ((sint ?n, ds), s))"
      using assms(3) by (simp only: readi_def Let_def cond if_False)
    also have "\<dots> = Ok ((int (unat ?n), map (fbyte s ip) [unat off..<unat off + unat ?n]), s')"
      unfolding s'(1) sn by simp
    finally show ?thesis unfolding cond if_False sl using s'(2) by (intro exI [of _ s']) simp
  qed
qed

section \<open>Directories\<close>

text \<open>The entry at index \<open>k\<close> of a directory, and whether it is in use under a given name.\<close>

definition dirent_at :: "u8 list \<Rightarrow> nat \<Rightarrow> u8 list" where
  "dirent_at c k = slice c (DIRENT_SIZE * k) DIRENT_SIZE"

definition entry_matches :: "u8 list \<Rightarrow> u8 list \<Rightarrow> nat \<Rightarrow> bool" where
  "entry_matches c name k \<longleftrightarrow>
     de_inum (dirent_at c k) \<noteq> 0 \<and> cstr DIRSIZ (arr name) = cstr DIRSIZ (arr (de_name (dirent_at c k)))"

lemma namecmp_eq: "namecmp a b = 0 \<longleftrightarrow> cstr DIRSIZ (arr a) = cstr DIRSIZ (arr b)"
  by (simp add: namecmp_def strncmp_eq_0)

lemma read_dirent:
  assumes c: "calm s" and f: "file_ok s dp" and ty: "d_type (i_di (ino s dp)) = T_DIR"
    and k: "16 * k + 16 \<le> unat (d_size (i_di (ino s dp)))"
  shows "\<exists>s'. readi devsw dp (of_nat (16 * k)) 16 s = Ok ((16, dirent_at (content s dp) k), s') \<and> only_cached s s'"
proof -
  have sz: "unat (d_size (i_di (ino s dp))) \<le> 71680" by (rule file_size_small [OF f])
  have u: "unat (of_nat (16 * k) :: u32) = 16 * k" by (rule unat_of_nat_u32) (use k sz in simp)
  have "unat (of_nat (16 * k) + 16 :: u32) = 16 * k + 16" using u k sz by (subst unat_add_nowrap) simp_all
  then have g: "\<not> (of_nat (16 * k) > d_size (i_di (ino s dp)) \<or> of_nat (16 * k) + 16 < (of_nat (16 * k) :: u32))"
    using u k by (simp add: word_less_nat_alt)
  have l: "length (slice (content s dp) (16 * k) 16) = 16" using k by (simp add: content_def)
  have "d_type (i_di (ino s dp)) \<noteq> T_DEV" using ty by simp
  from readi_ok [OF c f this, of devsw "of_nat (16 * k)" 16] show ?thesis
    unfolding if_not_P [OF g] u by (simp add: l dirent_at_def)
qed

lemma dirlookup_loop_ok:
  assumes "calm s" "file_ok s dp" "d_type (i_di (ino s dp)) = T_DIR"
    "16 * j + 16 * n \<le> unat (d_size (i_di (ino s dp)))"
  shows "case find (entry_matches (content s dp) name) [j..<j + n] of
      None \<Rightarrow> \<exists>s'. dirlookup_loop devsw dp name (map (\<lambda>k. of_nat (16 * k)) [j..<j + n]) s = Ok (None, s') \<and> only_cached s s'
    | Some k \<Rightarrow> \<exists>s'. only_cached s s' \<and> dirlookup_loop devsw dp name (map (\<lambda>k. of_nat (16 * k)) [j..<j + n]) s =
        bnd (iget 1 (ucast (de_inum (dirent_at (content s dp) k))) s') (\<lambda>(ip, s). Ok (Some (ip, of_nat (16 * k)), s))"
  using assms
proof (induction n arbitrary: j s)
  case 0
  then show ?case using only_cached_refl [of s] by (auto simp: calm_def)
next
  case (Suc n)
  have upt: "[j..<j + Suc n] = j # [Suc j..<Suc j + n]" by (simp add: upt_rec)
  obtain s1 where 1: "readi devsw dp (of_nat (16 * j)) 16 s = Ok ((16, dirent_at (content s dp) j), s1)" "only_cached s s1"
    using read_dirent [OF Suc.prems(1-3), of j devsw] Suc.prems(4) by auto
  note sel = only_cached_sel [OF 1(2)] and fl = only_cached_file [OF 1(2)]
  have dev: "i_dev (ino s1 dp) = 1" using Suc.prems(2) sel by (simp add: file_ok_def)
  show ?case
  proof (cases "entry_matches (content s dp) name j")
    case True
    then show ?thesis
      using 1 dev unfolding upt by (auto simp: entry_matches_def namecmp_eq)
  next
    case False
    have step: "dirlookup_loop devsw dp name (map (\<lambda>k. of_nat (16 * k)) [j..<j + Suc n]) s =
        dirlookup_loop devsw dp name (map (\<lambda>k. of_nat (16 * k)) [Suc j..<Suc j + n]) s1"
      using 1(1) False unfolding upt by (auto simp: entry_matches_def namecmp_eq)
    have fnd: "find (entry_matches (content s dp) name) [j..<j + Suc n] =
        find (entry_matches (content s1 dp) name) [Suc j..<Suc j + n]"
      using False fl(5) [of dp] unfolding upt by simp
    have "case find (entry_matches (content s1 dp) name) [Suc j..<Suc j + n] of
        None \<Rightarrow> \<exists>s'. dirlookup_loop devsw dp name (map (\<lambda>k. of_nat (16 * k)) [Suc j..<Suc j + n]) s1 = Ok (None, s') \<and> only_cached s1 s'
      | Some k \<Rightarrow> \<exists>s'. only_cached s1 s' \<and> dirlookup_loop devsw dp name (map (\<lambda>k. of_nat (16 * k)) [Suc j..<Suc j + n]) s1 =
          bnd (iget 1 (ucast (de_inum (dirent_at (content s1 dp) k))) s') (\<lambda>(ip, s). Ok (Some (ip, of_nat (16 * k)), s))"
      by (rule Suc.IH) (use Suc.prems only_cached_calm [OF 1(2)] fl(3) sel in simp_all)
    note IH = this
    show ?thesis
    proof (cases "find (entry_matches (content s1 dp) name) [Suc j..<Suc j + n]")
      case None
      with IH obtain s2 where "dirlookup_loop devsw dp name (map (\<lambda>k. of_nat (16 * k)) [Suc j..<Suc j + n]) s1 = Ok (None, s2)"
        "only_cached s1 s2" unfolding None by auto
      then show ?thesis unfolding step fnd None using only_cached_trans [OF 1(2)] by simp
    next
      case (Some k)
      with IH obtain s2 where s2: "only_cached s1 s2"
        "dirlookup_loop devsw dp name (map (\<lambda>k. of_nat (16 * k)) [Suc j..<Suc j + n]) s1 =
          bnd (iget 1 (ucast (de_inum (dirent_at (content s1 dp) k))) s2) (\<lambda>(ip, s). Ok (Some (ip, of_nat (16 * k)), s))"
        unfolding Some by auto
      show ?thesis
        unfolding step fnd Some option.case s2(2) unfolding fl(5)
        using only_cached_trans [OF 1(2) s2(1)] by (intro exI [of _ s2]) simp
    qed
  qed
qed

section \<open>Properties\<close>

text \<open>C5: \<open>readi\<close> on a file whose blocks are allocated returns, at every offset up to its size, the bytes of the file from there on, at most \<open>n\<close> of them, and their number; an offset beyond the size, or one whose sum with \<open>n\<close> wraps, gives \<open>-1\<close>.  No block and no inode changes.\<close>

theorem readi_returns_content:
  assumes "calm s" "file_ok s ip" "d_type (i_di (ino s ip)) \<noteq> T_DEV"
  shows "\<exists>s'. readi devsw ip off n s =
      Ok ((if off > d_size (i_di (ino s ip)) \<or> off + n < off then (-1, [])
           else (int (length (slice (content s ip) (unat off) (unat n))), slice (content s ip) (unat off) (unat n))), s') \<and>
    only_cached s s'"
  by (rule readi_ok [OF assms])


text \<open>\<open>dirlookup\<close> returns the first entry of the directory in use whose name agrees with the given one in the first \<open>DIRSIZ\<close> bytes, as the inode \<open>iget\<close> gives for its number together with the entry's offset, and none when there is no such entry.\<close>

theorem dirlookup_finds_first:
  assumes "calm s" "file_ok s dp" "d_type (i_di (ino s dp)) = T_DIR" "unat (d_size (i_di (ino s dp))) = 16 * n"
  shows "\<exists>s'. only_cached s s' \<and> dirlookup devsw dp name s =
    (case find (entry_matches (content s dp) name) [0..<n] of
       None \<Rightarrow> Ok (None, s')
     | Some k \<Rightarrow> bnd (iget 1 (ucast (de_inum (dirent_at (content s dp) k))) s')
         (\<lambda>(ip, s). Ok (Some (ip, of_nat (16 * k)), s)))"
proof -
  have "dirent_offs (d_size (i_di (ino s dp))) = map (\<lambda>k. of_nat (16 * k)) [0..<0 + n]"
    unfolding dirent_offs_def assms(4) by simp
  then show ?thesis
    using dirlookup_loop_ok [OF assms(1-3), of 0 n devsw name] assms(3,4)
    by (auto simp: dirlookup_def split: option.splits)
qed

section \<open>Witnesses\<close>

text \<open>The example file system with the root directory loaded in entry 0 of the inode cache.\<close>

definition root_inode :: inode where
  "root_inode = zero_inode\<lparr>i_dev := 1, i_inum := 1, i_ref := 1, i_valid := True, i_di := ex_root\<rparr>"

lemma ex_root_file:
  assumes ex: "ex_fs s"
  defines "r \<equiv> s\<lparr>icache := root_inode # replicate 49 zero_inode\<rparr>"
  shows "calm r" "txn 6 r" "file_ok r 0" "file_home r 0" "content r 0 = take 32 ex_dir" "ino r 0 = root_inode"
    "fview r = fview s"
proof -
  show r0: "ino r 0 = root_inode" by (simp add: r_def)
  have lgr: "lg r = lg s" by (simp add: r_def)
  show "fview r = fview s" by (simp add: lgr)
  show t: "txn 6 r" using ex_txn [OF ex] by (simp add: txn_def lgr)
  then have "txn (Suc 5) r" by simp
  then show "calm r" by (rule txn_calm)
  have di: "d_size (i_di (ino r 0)) = 32" "d_addrs (i_di (ino r 0)) = 11 # replicate 12 0" "i_dev (ino r 0) = 1"
    by (simp_all add: r0 root_inode_def ex_root_def)
  have nb: "nblocks r 0 = 1" by (simp add: nblocks_def di)
  have fa: "faddr r 0 0 = 11" by (simp add: faddr_def di)
  have dk: "length (a_disk (fabs r)) = 14" using ex by (simp add: ex_fs_def lgr)
  show "file_ok r 0" using nb fa di dk by (simp add: file_ok_def)
  show "file_home r 0" using nb fa ex_home [OF ex, of 11] by (simp add: file_home_def lgr)
  have v: "fview r 11 = ex_dir" using ex_view(4) [OF ex] by (simp add: lgr)
  have fb: "fbyte r 0 k = ex_dir ! k" if "k < 32" for k using that fa v by (simp add: fbyte_def)
  show "content r 0 = take 32 ex_dir"
    by (rule nth_equalityI) (use fb ex_lengths(3) in \<open>simp_all add: content_def di\<close>)
qed

abbreviation no_dev :: "unit devsw" where "no_dev \<equiv> \<lambda>_. (None, None)"

theorem readi_returns_content_witness:
  "\<exists>(s :: fsys) s'. readi no_dev 0 16 100 s = Ok ((16, slice ex_dir 16 16), s') \<and>
     readi no_dev 0 33 1 s = Ok ((-1, []), s)"
proof -
  obtain s0 where ex: "ex_fs s0" using ex_fs_exists by blast
  define s where "s = s0\<lparr>icache := root_inode # replicate 49 zero_inode\<rparr>"
  note r = ex_root_file [OF ex, folded s_def]
  have di: "d_size (i_di (ino s 0)) = 32" "d_type (i_di (ino s 0)) \<noteq> T_DEV"
    by (simp_all add: r(6) root_inode_def ex_root_def)
  have sl: "slice (content s 0) 16 100 = slice ex_dir 16 16" by (simp add: r(5) slice_def ex_dir_def)
  have l: "length (slice ex_dir 16 16) = 16" by (simp add: ex_lengths(3))
  obtain s' where s': "readi no_dev 0 16 100 s = Ok ((if (16 :: u32) > d_size (i_di (ino s 0)) \<or> 16 + 100 < (16 :: u32) then (-1, [])
      else (int (length (slice (content s 0) (unat (16 :: u32)) (unat (100 :: u32)))), slice (content s 0) (unat (16 :: u32)) (unat (100 :: u32)))), s')"
    using readi_returns_content [OF r(1,3) di(2), of no_dev 16 100] by blast
  have "readi no_dev 0 33 1 s = Ok ((-1, []), s)" using di by (simp add: readi_def Let_def)
  with s' show ?thesis using sl l di(1) by (intro exI [of _ s] exI [of _ s']) simp
qed


theorem dirlookup_finds_first_witness:
  "\<exists>(s :: fsys) ip s'. dirlookup no_dev 0 [46, 46, 0] s = Ok (Some (ip, 16), s')"
proof -
  obtain s0 where ex: "ex_fs s0" using ex_fs_exists by blast
  define s where "s = s0\<lparr>icache := root_inode # replicate 49 zero_inode\<rparr>"
  note r = ex_root_file [OF ex, folded s_def]
  have di: "unat (d_size (i_di (ino s 0))) = 16 * 2" "d_type (i_di (ino s 0)) = T_DIR"
    by (simp_all add: r(6) root_inode_def ex_root_def)
  have m: "find (entry_matches (content s 0) [46, 46, 0]) [0..<2] = Some 1"
    unfolding r(5) ex_dir_def by code_simp
  have n: "de_inum (dirent_at (content s 0) 1) = 1" unfolding r(5) ex_dir_def by code_simp
  obtain s1 where s1: "only_cached s s1" "dirlookup no_dev 0 [46, 46, 0] s =
      bnd (iget 1 (ucast (de_inum (dirent_at (content s 0) 1))) s1) (\<lambda>(ip, s). Ok (Some (ip, of_nat (16 * 1)), s))"
    using dirlookup_finds_first [OF r(1,3) di(2,1), of no_dev "[46, 46, 0]"] unfolding m by auto
  have "icache s1 = root_inode # replicate 49 zero_inode" using only_cached_sel(1) [OF s1(1)] by (simp add: s_def)
  then have "\<exists>s2. iget 1 1 s1 = Ok (0, s2)" by (simp add: iget_def upt_rec root_inode_def)
  then show ?thesis using s1(2) n by (intro exI [of _ s]) auto
qed

end
