(* ===== verification/Fs_Names.thy ===== *)
theory Fs_Names
  imports Fs_Example
begin

text \<open>
  The inode cache and path names: \<open>iget\<close>, \<open>idup\<close> and \<open>iput\<close> keep at most one cache entry
  per inode in use, and \<open>skipelem\<close> splits a path into its elements.
\<close>

section \<open>The inode cache\<close>

text \<open>References are counted, and no two entries in use stand for the same inode.\<close>

definition ic_inv :: "inode list \<Rightarrow> bool" where
  "ic_inv is \<longleftrightarrow> (\<forall>i < length is. 0 \<le> i_ref (is ! i)) \<and>
     (\<forall>i < length is. \<forall>j < length is. i_ref (is ! i) > 0 \<and> i_ref (is ! j) > 0 \<and>
        i_dev (is ! i) = i_dev (is ! j) \<and> i_inum (is ! i) = i_inum (is ! j) \<longrightarrow> i = j)"

definition ids :: "inode list \<Rightarrow> (u32 \<times> u32 \<times> int) list" where
  "ids is = map (\<lambda>i. (i_dev i, i_inum i, i_ref i)) is"

lemma ic_inv_ids: "ids is = ids js \<Longrightarrow> ic_inv is = ic_inv js"
proof -
  assume eq: "ids is = ids js"
  have len: "length is = length js" using arg_cong [OF eq, of length] by (simp add: ids_def)
  have *: "i_dev (is ! i) = i_dev (js ! i)" "i_inum (is ! i) = i_inum (js ! i)" "i_ref (is ! i) = i_ref (js ! i)"
    if "i < length js" for i
    using arg_cong [OF eq, of "\<lambda>xs. xs ! i"] that len by (simp_all add: ids_def)
  show ?thesis unfolding ic_inv_def len using * by simp
qed

lemma ids_upd: "i < length is \<Longrightarrow> ids (is[i := x]) = (ids is)[i := (i_dev x, i_inum x, i_ref x)]"
  by (simp add: ids_def map_update)

lemma ids_upd_same:
  assumes "i_dev (f (is ! i)) = i_dev (is ! i)" "i_inum (f (is ! i)) = i_inum (is ! i)" "i_ref (f (is ! i)) = i_ref (is ! i)"
  shows "ids (is[i := f (is ! i)]) = ids is"
proof (cases "i < length is")
  case True
  then have "ids is ! i = (i_dev (is ! i), i_inum (is ! i), i_ref (is ! i))" by (simp add: ids_def)
  then show ?thesis using assms True by (simp add: ids_upd) (metis list_update_id)
next
  case False
  then show ?thesis by (simp add: list_update_beyond)
qed

lemma ids_ops [simp]:
  "ids (icache (upd_di ip f s)) = ids (icache s)"
  "ids (icache (upd_ino ip (\<lambda>i. i\<lparr>i_lock := lk i\<rparr>) s)) = ids (icache s)"
  "ids (icache (upd_ino ip (\<lambda>i. i\<lparr>i_valid := v\<rparr>) s)) = ids (icache s)"
  "ids (icache (fwakeup ch s)) = ids (icache s)"
  by (simp_all add: upd_di_def upd_ino_def ids_upd_same fwakeup_def)

lemma ids_irelease [simp]: "ids (icache (irelease ip s)) = ids (icache s)"
  by (simp add: irelease_def)

lemma bfree_icache: "bfree dev b s = Ok s' \<Longrightarrow> icache s' = icache s"
  by (auto simp: bfree_def freadsb_def bnd_eq_Ok Let_def fbread_def flog_write_def fset_def fbrelse_def
    split: if_splits)

lemma iupdate_icache: "iupdate ip s = Ok s' \<Longrightarrow> icache s' = icache s"
  by (auto simp: iupdate_def bnd_eq_Ok Let_def fbread_def flog_write_def fset_def fbrelse_def)

lemma itrunc_direct_ids: "itrunc_direct ip is s = Ok s' \<Longrightarrow> ids (icache s') = ids (icache s)"
proof (induction "is" arbitrary: s)
  case (Cons i "is")
  show ?case
  proof (cases "d_addrs (i_di (ino s ip)) ! i \<noteq> 0")
    case True
    with Cons.prems obtain s1 where "bfree (i_dev (ino s ip)) (d_addrs (i_di (ino s ip)) ! i) s = Ok s1"
      "itrunc_direct ip is (upd_di ip (\<lambda>d. d\<lparr>d_addrs := (d_addrs d)[i := 0]\<rparr>) s1) = Ok s'"
      by (auto simp: bnd_eq_Ok)
    with Cons.IH bfree_icache show ?thesis by fastforce
  qed (use Cons in simp)
qed simp

lemma itrunc_indirect_ids: "itrunc_indirect ip bp js s = Ok s' \<Longrightarrow> ids (icache s') = ids (icache s)"
proof (induction js arbitrary: s)
  case (Cons j js)
  then show ?case by (auto simp: bnd_eq_Ok dest!: bfree_icache split: if_splits)
qed simp

lemma itrunc_ids: "itrunc ip s = Ok s' \<Longrightarrow> ids (icache s') = ids (icache s)"
proof -
  assume "itrunc ip s = Ok s'"
  then obtain s1 s2 where 1: "itrunc_direct ip [0..<NDIRECT] s = Ok s1"
    and 2: "(let addr = d_addrs (i_di (ino s1 ip)) ! NDIRECT in
          if addr \<noteq> 0 then
            bnd (fbread (i_dev (ino s1 ip)) addr s1) (\<lambda>(bp, s).
            bnd (itrunc_indirect ip bp [0..<NINDIRECT] s) (\<lambda>s.
            bnd (fbrelse bp s) (\<lambda>s.
            bnd (bfree (i_dev (ino s ip)) (d_addrs (i_di (ino s ip)) ! NDIRECT) s) (\<lambda>s.
              Ok (upd_di ip (\<lambda>d. d\<lparr>d_addrs := (d_addrs d)[NDIRECT := 0]\<rparr>) s)))))
          else Ok s1) = Ok s2"
    and 3: "iupdate ip (upd_di ip (\<lambda>d. d\<lparr>d_size := 0\<rparr>) s2) = Ok s'"
    unfolding itrunc_def bnd_eq_Ok by blast
  have "ids (icache s2) = ids (icache s1)"
  proof (cases "d_addrs (i_di (ino s1 ip)) ! NDIRECT = 0")
    case True
    then show ?thesis using 2 by (simp add: Let_def)
  next
    case False
    with 2 obtain bp t1 t2 t3 t4 where "fbread (i_dev (ino s1 ip)) (d_addrs (i_di (ino s1 ip)) ! NDIRECT) s1 = Ok (bp, t1)"
      "itrunc_indirect ip bp [0..<NINDIRECT] t1 = Ok t2" "fbrelse bp t2 = Ok t3"
      "bfree (i_dev (ino t3 ip)) (d_addrs (i_di (ino t3 ip)) ! NDIRECT) t3 = Ok t4"
      "s2 = upd_di ip (\<lambda>d. d\<lparr>d_addrs := (d_addrs d)[NDIRECT := 0]\<rparr>) t4"
      by (auto simp: Let_def bnd_eq_Ok)
    note t = this
    have "ids (icache s2) = ids (icache t4)" unfolding t(5) by (rule ids_ops)
    moreover have "icache t4 = icache t3" by (rule bfree_icache [OF t(4)])
    moreover have "icache t3 = icache t2" by (rule same_fs_sel(1) [OF same_fs_ops(2) [OF t(3)]])
    moreover have "ids (icache t2) = ids (icache t1)" by (rule itrunc_indirect_ids [OF t(2)])
    moreover have "icache t1 = icache s1" by (rule same_fs_sel(1) [OF same_fs_ops(1) [OF t(1)]])
    ultimately show ?thesis by simp
  qed
  then show ?thesis using itrunc_direct_ids [OF 1] iupdate_icache [OF 3] by simp
qed

lemma iput_ids:
  assumes ok: "iput ip s = Ok s'" and ip: "ip < length (icache s)"
  shows "ids (icache s') = (ids (icache s))[ip := (i_dev (ino s ip), i_inum (ino s ip), i_ref (ino s ip) - 1)]"
proof -
  obtain lk s1 where s1: "(let s = upd_ino ip (\<lambda>i. i\<lparr>i_lock := lk\<rparr>) s in
       if i_valid (ino s ip) \<and> d_nlink (i_di (ino s ip)) = 0 \<and> i_ref (ino s ip) = 1 then
            bnd (itrunc ip s) (\<lambda>s.
            bnd (iupdate ip (upd_di ip (\<lambda>d. d\<lparr>d_type := 0\<rparr>) s)) (\<lambda>s.
              Ok (upd_ino ip (\<lambda>i. i\<lparr>i_valid := False\<rparr>) s)))
          else Ok s) = Ok s1"
    and s': "s' = upd_ino ip (\<lambda>i. i\<lparr>i_ref := i_ref i - 1\<rparr>) (irelease ip s1)"
    using ok unfolding iput_def bnd_eq_Ok Let_def by blast
  have "ids (icache s1) = ids (icache (upd_ino ip (\<lambda>i. i\<lparr>i_lock := lk\<rparr>) s))"
    using s1 by (auto simp: Let_def bnd_eq_Ok dest!: itrunc_ids iupdate_icache split: if_splits)
  then have e: "ids (icache (irelease ip s1)) = ids (icache s)" by simp
  have len: "length (icache (irelease ip s1)) = length (icache s)"
    using arg_cong [OF e, of length] by (simp add: ids_def)
  have "ids (icache (irelease ip s1)) ! ip = ids (icache s) ! ip" using e by simp
  then have "i_dev (ino (irelease ip s1) ip) = i_dev (ino s ip)" "i_inum (ino (irelease ip s1) ip) = i_inum (ino s ip)"
    "i_ref (ino (irelease ip s1) ip) = i_ref (ino s ip)" using ip len by (simp_all add: ids_def)
  then show ?thesis using e len ip by (simp add: s' upd_ino_def ids_upd)
qed

section \<open>Path elements\<close>

text \<open>The elements of a path: its maximal runs of bytes other than the slash.\<close>

function path_elems :: "u8 list \<Rightarrow> u8 list list" where
  "path_elems p = (let p = dropWhile (\<lambda>c. c = slash) p in
     if p = [] then []
     else takeWhile (\<lambda>c. c \<noteq> slash) p # path_elems (dropWhile (\<lambda>c. c \<noteq> slash) p))"
  by pat_completeness auto
termination
proof (relation "measure length")
  fix p x :: "u8 list" assume x: "x = dropWhile (\<lambda>c. c = slash) p" "x \<noteq> []"
  then have "hd x \<noteq> slash" using hd_dropWhile [of "\<lambda>c. c = slash" p] by simp
  then have "length (dropWhile (\<lambda>c. c \<noteq> slash) x) < length x"
    using x(2) by (cases x) (auto simp: le_imp_less_Suc length_dropWhile_le)
  moreover have "length x \<le> length p" unfolding x(1) by (rule length_dropWhile_le)
  ultimately show "(dropWhile (\<lambda>c. c \<noteq> slash) x, p) \<in> measure length" by simp
qed simp

declare path_elems.simps [simp del]

lemma path_elems_skip: "path_elems (dropWhile (\<lambda>c. c = slash) p) = path_elems p"
proof -
  have "dropWhile (\<lambda>c. c = slash) (dropWhile (\<lambda>c. c = slash) p) = dropWhile (\<lambda>c. c = slash) p"
    by (rule dropWhile_idem)
  then show ?thesis by (simp add: path_elems.simps [of p] path_elems.simps [of "dropWhile (\<lambda>c. c = slash) p"])
qed

lemma path_elems_Nil: "path_elems p = [] \<longleftrightarrow> dropWhile (\<lambda>c. c = slash) p = []"
proof (cases "dropWhile (\<lambda>c. c = slash) p = []")
  case True
  then show ?thesis unfolding path_elems.simps [of p] Let_def by (simp only: refl if_True)
next
  case False
  then show ?thesis unfolding path_elems.simps [of p] Let_def by (simp only: if_False) simp
qed

lemma arr_Cons: "(\<lambda>i. arr (x # xs) (Suc i)) = arr xs" "arr (x # xs) 0 = x"
  by (simp_all add: arr_def)

lemma cstr_terminated: "0 \<notin> set xs \<Longrightarrow> length xs < n \<Longrightarrow> cstr n (arr (xs @ 0 # ys)) = xs"
proof (induction xs arbitrary: n)
  case Nil
  then show ?case by (cases n) (simp_all add: cstr_Suc arr_Cons)
next
  case (Cons x xs)
  then show ?case by (cases n) (simp_all add: cstr_Suc arr_Cons)
qed

lemma cstr_full: "0 \<notin> set xs \<Longrightarrow> n \<le> length xs \<Longrightarrow> cstr n (arr (xs @ ys)) = take n xs"
proof (induction xs arbitrary: n)
  case (Cons x xs)
  then show ?case by (cases n) (simp_all add: cstr_Suc arr_Cons)
qed simp

section \<open>Counting references\<close>

lemma ic_inv_upd:
  assumes inv: "ic_inv is" and i: "i < length is" and x: "0 \<le> i_ref x"
    and u: "\<And>j. j < length is \<Longrightarrow> j \<noteq> i \<Longrightarrow> i_ref x > 0 \<Longrightarrow> i_ref (is ! j) > 0 \<Longrightarrow>
      \<not> (i_dev (is ! j) = i_dev x \<and> i_inum (is ! j) = i_inum x)"
  shows "ic_inv (is[i := x])"
  unfolding ic_inv_def
proof (intro conjI allI impI)
  show "0 \<le> i_ref (is[i := x] ! k)" if "k < length (is[i := x])" for k
    using that inv x i by (cases "k = i") (auto simp: ic_inv_def)
  show "k = j" if "k < length (is[i := x])" "j < length (is[i := x])"
    and e: "i_ref (is[i := x] ! k) > 0 \<and> i_ref (is[i := x] ! j) > 0 \<and> i_dev (is[i := x] ! k) = i_dev (is[i := x] ! j) \<and>
      i_inum (is[i := x] ! k) = i_inum (is[i := x] ! j)" for k j
  proof (cases "k = i \<or> j = i")
    case True
    have len: "k < length is" "j < length is" using that by simp_all
    show ?thesis
    proof (rule ccontr)
      assume kj: "k \<noteq> j"
      from True show False
      proof
        assume "k = i"
        then show False using u [OF len(2)] kj e i by auto
      next
        assume "j = i"
        then show False using u [OF len(1)] kj e i by auto
      qed
    qed
  next
    case False
    then have "is[i := x] ! k = is ! k" "is[i := x] ! j = is ! j" by simp_all
    then show ?thesis using that inv unfolding ic_inv_def by auto
  qed
qed

lemma ic_inv_uniq:
  "ic_inv is \<Longrightarrow> i < length is \<Longrightarrow> j < length is \<Longrightarrow> i_ref (is ! i) > 0 \<Longrightarrow> i_ref (is ! j) > 0 \<Longrightarrow>
   i_dev (is ! i) = i_dev (is ! j) \<Longrightarrow> i_inum (is ! i) = i_inum (is ! j) \<Longrightarrow> i = j"
  by (simp add: ic_inv_def)

lemma ic_inv_ref:
  assumes inv: "ic_inv is" and i: "i < length is" and r: "i_ref (is ! i) \<ge> 1"
    and x: "i_dev x = i_dev (is ! i)" "i_inum x = i_inum (is ! i)" "0 \<le> i_ref x"
  shows "ic_inv (is[i := x])"
proof (rule ic_inv_upd [OF inv i x(3)])
  fix j assume j: "j < length is" "j \<noteq> i" "i_ref (is ! j) > 0"
  show "\<not> (i_dev (is ! j) = i_dev x \<and> i_inum (is ! j) = i_inum x)"
    using ic_inv_uniq [OF inv j(1) i j(3)] j(2) r x by auto
qed

lemma iget_inv:
  assumes inv: "ic_inv (icache s)" and ok: "iget dev inum s = Ok (ip, s')"
  shows "ip < length (icache s') \<and> ic_inv (icache s') \<and> i_dev (ino s' ip) = dev \<and> i_inum (ino s' ip) = inum \<and>
    i_ref (ino s' ip) \<ge> 1"
proof (cases "find (\<lambda>i. i_ref (ino s i) > 0 \<and> i_dev (ino s i) = dev \<and> i_inum (ino s i) = inum) [0..<length (icache s)]")
  case (Some k)
  then have k: "k < length (icache s)" "i_ref (ino s k) > 0" "i_dev (ino s k) = dev" "i_inum (ino s k) = inum"
    using find_SomeD [OF Some] by auto
  have e: "ip = k" "s' = upd_ino k (\<lambda>i. i\<lparr>i_ref := i_ref i + 1\<rparr>) s" using ok Some by (auto simp: iget_def)
  have "ic_inv ((icache s)[k := (ino s k)\<lparr>i_ref := i_ref (ino s k) + 1\<rparr>])"
    by (rule ic_inv_ref [OF inv k(1)]) (use k(2) in simp_all)
  then show ?thesis using e k by (simp add: upd_ino_def)
next
  case None
  then obtain k where f: "find (\<lambda>i. i_ref (ino s i) = 0) [0..<length (icache s)] = Some k"
    using ok by (auto simp: iget_def split: option.splits)
  then have k: "k < length (icache s)" using find_SomeD [OF f] by auto
  let ?x = "(ino s k)\<lparr>i_dev := dev, i_inum := inum, i_ref := 1, i_valid := False\<rparr>"
  have e: "ip = k" "s' = upd_ino k (\<lambda>i. i\<lparr>i_dev := dev, i_inum := inum, i_ref := 1, i_valid := False\<rparr>) s"
    using ok None f by (auto simp: iget_def)
  have none: "\<not> (i_dev (ino s j) = dev \<and> i_inum (ino s j) = inum)" if "j < length (icache s)" "i_ref (ino s j) > 0" for j
    using None that unfolding find_None by auto
  have "ic_inv ((icache s)[k := ?x])"
    by (rule ic_inv_upd [OF inv k]) (use none in auto)
  then show ?thesis using e k by (simp add: upd_ino_def)
qed

lemma iput_inv:
  assumes inv: "ic_inv (icache s)" and k: "k < length (icache s)" "i_ref (ino s k) \<ge> 1" and ok: "iput k s = Ok s'"
  shows "ic_inv (icache s')"
proof -
  let ?x = "(ino s k)\<lparr>i_ref := i_ref (ino s k) - 1\<rparr>"
  have "ids (icache s') = ids ((icache s)[k := ?x])" using iput_ids [OF ok k(1)] k(1) by (simp add: ids_upd)
  moreover have "ic_inv ((icache s)[k := ?x])" by (rule ic_inv_ref [OF inv k]) (use k(2) in simp_all)
  ultimately show ?thesis using ic_inv_ids by blast
qed

section \<open>Properties\<close>



text \<open>\<open>skipelem\<close> takes a path apart.  It fails exactly when no element is left; otherwise the name buffer then holds the first element (its first \<open>DIRSIZ\<close> bytes), the returned path has the remaining elements, and it is empty exactly when that was the last one.\<close>

theorem skipelem_splits:
  assumes "length name = DIRSIZ" "0 \<notin> set path"
  shows "case skipelem path name of
      None \<Rightarrow> path_elems path = []
    | Some (rest, name') \<Rightarrow> \<exists>e. path_elems path = e # path_elems rest \<and> length name' = DIRSIZ \<and>
        cstr DIRSIZ (arr name') = take DIRSIZ e \<and> (rest = [] \<longleftrightarrow> path_elems rest = [])"
proof -
  let ?p = "dropWhile (\<lambda>c. c = slash) path"
  let ?e = "takeWhile (\<lambda>c. c \<noteq> slash) ?p" and ?r = "dropWhile (\<lambda>c. c = slash) (dropWhile (\<lambda>c. c \<noteq> slash) ?p)"
  show ?thesis
  proof (cases "?p = []")
    case True
    then show ?thesis by (simp add: skipelem_def Let_def path_elems.simps [of path])
  next
    case False
    have pe: "path_elems path = ?e # path_elems ?r"
      using False by (subst path_elems.simps) (simp add: path_elems_skip Let_def)
    have z: "0 \<notin> set ?e" using assms(2) by (auto dest!: set_takeWhileD set_dropWhileD)
    have r: "?r = [] \<longleftrightarrow> path_elems ?r = []"
      unfolding path_elems_Nil dropWhile_idem ..
    let ?n = "if length ?e \<ge> DIRSIZ then splice name 0 (take DIRSIZ ?e) else splice name 0 (?e @ [0])"
    have "cstr DIRSIZ (arr ?n) = take DIRSIZ ?e"
      using z cstr_full [of ?e DIRSIZ "[]"] cstr_full [of "take DIRSIZ ?e" DIRSIZ "drop DIRSIZ name"]
        cstr_terminated [of ?e DIRSIZ "drop (length ?e + 1) name"] assms(1)
      by (auto simp: splice_def dest: in_set_takeD)
    moreover have "length ?n = DIRSIZ" using assms(1) by simp
    ultimately show ?thesis
      using False pe r by (simp add: skipelem_def Let_def)
  qed
qed

theorem skipelem_splits_witness:
  "skipelem [47, 47, 97, 47, 98, 98] (replicate 14 0) = Some ([98, 98], 97 # replicate 13 0) \<and>
   path_elems [47, 47, 97, 47, 98, 98] = [97] # path_elems [98, 98]"
proof -
  have s: "skipelem [47, 47, 97, 47, 98, 98] (replicate 14 0) = Some ([98, 98], 97 # replicate 13 0)" by code_simp
  have l: "length (replicate 14 (0 :: u8)) = 14" "0 \<notin> set [47, 47, 97, 47, 98, 98 :: u8]" by simp_all
  obtain e where e: "path_elems [47, 47, 97, 47, 98, 98] = e # path_elems [98, 98]"
    "cstr 14 (arr (97 # replicate 13 0)) = take 14 e"
    using skipelem_splits [OF l] unfolding s option.case prod.case by blast
  have "hd (path_elems [47, 47, 97, 47, 98, 98]) = [97]" by (subst path_elems.simps) (simp add: Let_def)
  then show ?thesis using e(1) s by simp
qed

end
