(* ===== verification/Spinlock.thy ===== *)
theory Spinlock
  imports Prelude
begin

text \<open>
  Processors and spin locks: \<open>mycpu\<close> of \<open>proc.c\<close> and the whole of \<open>spinlock.c\<close>.

  The state \<open>smp\<close> is the interrupt flag (\<open>FL_IF\<close> of \<open>EFLAGS\<close>) of each processor and the table
  \<open>cpus\<close>.  \<open>me\<close> is the processor that executes; \<open>lapicid\<close>, which reads the id of the local
  APIC, is an argument.  Of a table entry the model has the fields the kernel code reads, the
  value last loaded into \<open>CR3\<close>, and the kernel stack \<open>ts.esp0\<close>.  \<open>mycpu\<close> finds the table entry of the processor from that id; \<open>numbered\<close>
  says that entry \<open>i\<close> belongs to processor \<open>i\<close>.

  \<open>acquire\<close> and \<open>release\<close> are split where another processor can interfere: \<open>acquire_enter\<close> up to the
  loop, \<open>acquire_xchg\<close> one turn of the loop, \<open>acquire_record\<close> the rest; \<open>release_check\<close> up to the
  store that frees the lock, \<open>release_store\<close> from it on.  The relation \<open>lock_step\<close> interleaves these
  steps of all processors, and mutual exclusion is an invariant of it.
\<close>

section \<open>Processors\<close>

record cpu =
  c_apicid :: u8
  c_ncli :: int
  c_intena :: bool
  c_proc :: "nat option"
  c_cr3 :: u32
  c_esp0 :: u32

record smp =
  ifl :: "nat \<Rightarrow> bool"
  cpus :: "cpu list"

definition upd_cpu :: "nat \<Rightarrow> (cpu \<Rightarrow> cpu) \<Rightarrow> smp \<Rightarrow> smp" where
  "upd_cpu i f s = s\<lparr>cpus := (cpus s)[i := f (cpus s ! i)]\<rparr>"

definition cli :: "nat \<Rightarrow> smp \<Rightarrow> smp" where
  "cli me s = s\<lparr>ifl := (ifl s)(me := False)\<rparr>"

definition sti :: "nat \<Rightarrow> smp \<Rightarrow> smp" where
  "sti me s = s\<lparr>ifl := (ifl s)(me := True)\<rparr>"

definition mycpu :: "(nat \<Rightarrow> u8) \<Rightarrow> nat \<Rightarrow> smp \<Rightarrow> nat outcome" where
  "mycpu lapicid me s =
     (if ifl s me then Panic (''mycpu called with interrupts enabled'' @ [CHR 0x0A])
      else case find (\<lambda>i. c_apicid (cpus s ! i) = lapicid me) [0..<length (cpus s)] of
        Some i \<Rightarrow> Ok i
      | None \<Rightarrow> Panic (''unknown apicid'' @ [CHR 0x0A]))"

definition cpuid :: "(nat \<Rightarrow> u8) \<Rightarrow> nat \<Rightarrow> smp \<Rightarrow> nat outcome" where
  "cpuid lapicid me s = mycpu lapicid me s"

section \<open>Nested interrupt disabling\<close>

definition pushcli :: "(nat \<Rightarrow> u8) \<Rightarrow> nat \<Rightarrow> smp \<Rightarrow> smp outcome" where
  "pushcli lapicid me s =
     (let eflags = ifl s me; s = cli me s in
      bnd (mycpu lapicid me s) (\<lambda>i.
        let s = (if c_ncli (cpus s ! i) = 0 then upd_cpu i (\<lambda>c. c\<lparr>c_intena := eflags\<rparr>) s else s) in
        Ok (upd_cpu i (\<lambda>c. c\<lparr>c_ncli := c_ncli c + 1\<rparr>) s)))"

definition popcli :: "(nat \<Rightarrow> u8) \<Rightarrow> nat \<Rightarrow> smp \<Rightarrow> smp outcome" where
  "popcli lapicid me s =
     (if ifl s me then Panic ''popcli - interruptible''
      else bnd (mycpu lapicid me s) (\<lambda>i.
        let s = upd_cpu i (\<lambda>c. c\<lparr>c_ncli := c_ncli c - 1\<rparr>) s in
        if c_ncli (cpus s ! i) < 0 then Panic ''popcli''
        else if c_ncli (cpus s ! i) = 0 \<and> c_intena (cpus s ! i) then Ok (sti me s)
        else Ok s))"

definition myproc :: "(nat \<Rightarrow> u8) \<Rightarrow> nat \<Rightarrow> smp \<Rightarrow> (nat option \<times> smp) outcome" where
  "myproc lapicid me s = bnd (pushcli lapicid me s) (\<lambda>s.
     bnd (mycpu lapicid me s) (\<lambda>c. let p = c_proc (cpus s ! c) in
     bnd (popcli lapicid me s) (\<lambda>s. Ok (p, s))))"

section \<open>Spin locks\<close>

record spinlock =
  lk_locked :: u32
  lk_name :: string
  lk_cpu :: "nat option"
  lk_pcs :: "u32 list"

text \<open>
  The call stack: \<open>load\<close> reads a word of the memory; the frames are followed while the frame
  pointer is a kernel address.
\<close>

fun callerpcs :: "(u32 \<Rightarrow> u32) \<Rightarrow> u32 \<Rightarrow> nat \<Rightarrow> u32 list" where
  "callerpcs load ebp 0 = []"
| "callerpcs load ebp (Suc k) =
     (if ebp = 0 \<or> ebp < 0x80000000 \<or> ebp = 0xffffffff then replicate (Suc k) 0
      else load (ebp + 4) # callerpcs load (load ebp) k)"

definition getcallerpcs :: "(u32 \<Rightarrow> u32) \<Rightarrow> u32 \<Rightarrow> u32 list" where
  "getcallerpcs load v = callerpcs load (v - 8) 10"

definition initlock :: "string \<Rightarrow> spinlock \<Rightarrow> spinlock" where
  "initlock name lk = lk\<lparr>lk_name := name, lk_locked := 0, lk_cpu := None\<rparr>"

definition holding :: "(nat \<Rightarrow> u8) \<Rightarrow> nat \<Rightarrow> spinlock \<Rightarrow> smp \<Rightarrow> bool outcome" where
  "holding lapicid me lk s =
     (if lk_locked lk \<noteq> 0 then bnd (mycpu lapicid me s) (\<lambda>i. Ok (lk_cpu lk = Some i)) else Ok False)"

definition acquire_enter :: "(nat \<Rightarrow> u8) \<Rightarrow> nat \<Rightarrow> spinlock \<Rightarrow> smp \<Rightarrow> smp outcome" where
  "acquire_enter lapicid me lk s = bnd (pushcli lapicid me s) (\<lambda>s.
     bnd (holding lapicid me lk s) (\<lambda>h. if h then Panic ''acquire'' else Ok s))"

text \<open>The old value of the lock word, and the lock after the exchange.\<close>

definition acquire_xchg :: "spinlock \<Rightarrow> u32 \<times> spinlock" where
  "acquire_xchg lk = (lk_locked lk, lk\<lparr>lk_locked := 1\<rparr>)"

definition acquire_record :: "(nat \<Rightarrow> u8) \<Rightarrow> u32 list \<Rightarrow> nat \<Rightarrow> spinlock \<Rightarrow> smp \<Rightarrow> spinlock outcome" where
  "acquire_record lapicid pcs me lk s =
     bnd (mycpu lapicid me s) (\<lambda>i. Ok (lk\<lparr>lk_cpu := Some i, lk_pcs := pcs\<rparr>))"

definition acquire :: "(nat \<Rightarrow> u8) \<Rightarrow> u32 list \<Rightarrow> nat \<Rightarrow> spinlock \<Rightarrow> smp \<Rightarrow> (spinlock \<times> smp) outcome" where
  "acquire lapicid pcs me lk s = bnd (acquire_enter lapicid me lk s) (\<lambda>s.
     let (old, lk) = acquire_xchg lk in
     if old \<noteq> 0 then Sleeps (ChSpin (lk_name lk))
     else bnd (acquire_record lapicid pcs me lk s) (\<lambda>lk. Ok (lk, s)))"

definition release_check :: "(nat \<Rightarrow> u8) \<Rightarrow> nat \<Rightarrow> spinlock \<Rightarrow> smp \<Rightarrow> spinlock outcome" where
  "release_check lapicid me lk s = bnd (holding lapicid me lk s) (\<lambda>h.
     if \<not> h then Panic ''release'' else Ok (lk\<lparr>lk_pcs := (lk_pcs lk)[0 := 0], lk_cpu := None\<rparr>))"

definition release_store :: "(nat \<Rightarrow> u8) \<Rightarrow> nat \<Rightarrow> spinlock \<Rightarrow> smp \<Rightarrow> (spinlock \<times> smp) outcome" where
  "release_store lapicid me lk s =
     bnd (popcli lapicid me s) (\<lambda>s. Ok (lk\<lparr>lk_locked := 0\<rparr>, s))"

definition release :: "(nat \<Rightarrow> u8) \<Rightarrow> nat \<Rightarrow> spinlock \<Rightarrow> smp \<Rightarrow> (spinlock \<times> smp) outcome" where
  "release lapicid me lk s =
     bnd (release_check lapicid me lk s) (\<lambda>lk. release_store lapicid me lk s)"

section \<open>What each step does\<close>

definition numbered :: "(nat \<Rightarrow> u8) \<Rightarrow> smp \<Rightarrow> bool" where
  "numbered lapicid s \<longleftrightarrow>
     (\<forall>i < length (cpus s). c_apicid (cpus s ! i) = lapicid i) \<and> inj_on lapicid {..<length (cpus s)}"

lemma mycpu_me:
  assumes "numbered lapicid s" "me < length (cpus s)" "\<not> ifl s me"
  shows "mycpu lapicid me s = Ok me"
proof -
  have "find (\<lambda>i. c_apicid (cpus s ! i) = lapicid me) [0..<length (cpus s)] = Some me"
    by (rule find_Some_unique) (use assms in \<open>auto simp: numbered_def inj_on_def\<close>)
  then show ?thesis using assms(3) by (simp add: mycpu_def)
qed

lemma numbered_upd_cpu [simp]:
  "(\<And>c. c_apicid (f c) = c_apicid c) \<Longrightarrow> numbered lapicid (upd_cpu i f s) = numbered lapicid s"
  by (cases "i < length (cpus s)") (auto simp: numbered_def upd_cpu_def nth_list_update)

lemma smp_simps [simp]:
  "cpus (cli me s) = cpus s" "cpus (sti me s) = cpus s" "ifl (upd_cpu i f s) = ifl s"
  "ifl (cli me s) i = (if i = me then False else ifl s i)" "ifl (sti me s) i = (if i = me then True else ifl s i)"
  "length (cpus (upd_cpu i f s)) = length (cpus s)"
  "numbered lapicid (cli me s) = numbered lapicid s" "numbered lapicid (sti me s) = numbered lapicid s"
  by (simp_all add: cli_def sti_def upd_cpu_def numbered_def)

lemma cpus_upd_cpu: "j < length (cpus s) \<Longrightarrow> cpus (upd_cpu i f s) ! j = (if j = i then f (cpus s ! i) else cpus s ! j)"
  by (simp add: upd_cpu_def nth_list_update)

text \<open>\<open>pushcli\<close> turns interrupts off on this processor and remembers the flag at the outermost level.\<close>

lemma pushcli_Ok:
  assumes "numbered lapicid s" "me < length (cpus s)"
  shows "pushcli lapicid me s = Ok (upd_cpu me (\<lambda>c. c\<lparr>c_intena := if c_ncli c = 0 then ifl s me else c_intena c,
    c_ncli := c_ncli c + 1\<rparr>) (cli me s))"
proof -
  have m: "mycpu lapicid me (cli me s) = Ok me" by (rule mycpu_me) (simp_all add: assms)
  have u: "upd_cpu me f (upd_cpu me g x) = upd_cpu me (\<lambda>c. f (g c)) x" if "me < length (cpus x)" for f g x
    using that by (simp add: upd_cpu_def)
  show ?thesis
  proof (cases "c_ncli (cpus s ! me) = 0")
    case True
    then show ?thesis using assms by (simp add: pushcli_def Let_def m u) (simp add: upd_cpu_def)
  next
    case False
    then show ?thesis using assms by (simp add: pushcli_def Let_def m) (simp add: upd_cpu_def)
  qed
qed

lemma popcli_Ok:
  assumes "numbered lapicid s" "me < length (cpus s)" "\<not> ifl s me" "c_ncli (cpus s ! me) > 0"
  shows "popcli lapicid me s =
    Ok (let s' = upd_cpu me (\<lambda>c. c\<lparr>c_ncli := c_ncli c - 1\<rparr>) s in
        if c_ncli (cpus s ! me) = 1 \<and> c_intena (cpus s ! me) then sti me s' else s')"
  using mycpu_me [of lapicid s me] assms by (auto simp: popcli_def Let_def cpus_upd_cpu)

lemma holding_Ok:
  assumes "numbered lapicid s" "me < length (cpus s)" "\<not> ifl s me"
  shows "holding lapicid me lk s = Ok (lk_locked lk \<noteq> 0 \<and> lk_cpu lk = Some me)"
  using mycpu_me [OF assms] by (simp add: holding_def)

section \<open>Interleaving\<close>

datatype lock_pc = Out | Spin | Got | In | Rel

record lock_sys =
  ls_lk :: spinlock
  ls_smp :: smp
  ls_pc :: "nat \<Rightarrow> lock_pc"

inductive lock_step :: "(nat \<Rightarrow> u8) \<Rightarrow> lock_sys \<Rightarrow> lock_sys \<Rightarrow> bool" for lapicid where
  enter: "me < length (cpus (ls_smp x)) \<Longrightarrow> ls_pc x me = Out \<Longrightarrow>
    acquire_enter lapicid me (ls_lk x) (ls_smp x) = Ok s \<Longrightarrow>
    lock_step lapicid x (x\<lparr>ls_smp := s, ls_pc := (ls_pc x)(me := Spin)\<rparr>)"
| spin: "ls_pc x me = Spin \<Longrightarrow> acquire_xchg (ls_lk x) = (old, lk) \<Longrightarrow> old \<noteq> 0 \<Longrightarrow>
    lock_step lapicid x (x\<lparr>ls_lk := lk\<rparr>)"
| take: "ls_pc x me = Spin \<Longrightarrow> acquire_xchg (ls_lk x) = (old, lk) \<Longrightarrow> old = 0 \<Longrightarrow>
    lock_step lapicid x (x\<lparr>ls_lk := lk, ls_pc := (ls_pc x)(me := Got)\<rparr>)"
| owner: "ls_pc x me = Got \<Longrightarrow> acquire_record lapicid pcs me (ls_lk x) (ls_smp x) = Ok lk \<Longrightarrow>
    lock_step lapicid x (x\<lparr>ls_lk := lk, ls_pc := (ls_pc x)(me := In)\<rparr>)"
| check: "ls_pc x me = In \<Longrightarrow> release_check lapicid me (ls_lk x) (ls_smp x) = Ok lk \<Longrightarrow>
    lock_step lapicid x (x\<lparr>ls_lk := lk, ls_pc := (ls_pc x)(me := Rel)\<rparr>)"
| store: "ls_pc x me = Rel \<Longrightarrow> release_store lapicid me (ls_lk x) (ls_smp x) = Ok (lk, s) \<Longrightarrow>
    lock_step lapicid x (x\<lparr>ls_lk := lk, ls_smp := s, ls_pc := (ls_pc x)(me := Out)\<rparr>)"

definition lock_start :: "(nat \<Rightarrow> u8) \<Rightarrow> lock_sys \<Rightarrow> bool" where
  "lock_start lapicid x \<longleftrightarrow> numbered lapicid (ls_smp x) \<and> lk_locked (ls_lk x) = 0 \<and> lk_cpu (ls_lk x) = None \<and>
     (\<forall>i. ls_pc x i = Out) \<and> (\<forall>i < length (cpus (ls_smp x)). c_ncli (cpus (ls_smp x) ! i) = 0)"

definition owns :: "lock_sys \<Rightarrow> nat \<Rightarrow> bool" where
  "owns x i \<longleftrightarrow> ls_pc x i \<in> {Got, In, Rel}"

text \<open>
  The invariant.  \<open>fl\<close> are the interrupt flags the processors started with: a processor outside
  the lock has its flag back.
\<close>

definition lock_inv :: "(nat \<Rightarrow> u8) \<Rightarrow> (nat \<Rightarrow> bool) \<Rightarrow> lock_sys \<Rightarrow> bool" where
  "lock_inv lapicid fl x \<longleftrightarrow>
     numbered lapicid (ls_smp x) \<and>
     (\<forall>i. ls_pc x i \<noteq> Out \<longrightarrow> i < length (cpus (ls_smp x))) \<and>
     (\<forall>i j. owns x i \<longrightarrow> owns x j \<longrightarrow> i = j) \<and>
     (lk_locked (ls_lk x) \<noteq> 0 \<longleftrightarrow> (\<exists>i. owns x i)) \<and>
     (\<forall>i. lk_cpu (ls_lk x) = Some i \<longleftrightarrow> ls_pc x i = In) \<and>
     (\<forall>i < length (cpus (ls_smp x)).
        if ls_pc x i = Out then ifl (ls_smp x) i = fl i \<and> c_ncli (cpus (ls_smp x) ! i) = 0
        else \<not> ifl (ls_smp x) i \<and> c_ncli (cpus (ls_smp x) ! i) = 1 \<and> c_intena (cpus (ls_smp x) ! i) = fl i)"

lemma acquire_enter_Ok:
  assumes inv: "lock_inv lapicid fl x" and me: "me < length (cpus (ls_smp x))" "ls_pc x me = Out"
  shows "acquire_enter lapicid me (ls_lk x) (ls_smp x) = Ok (upd_cpu me (\<lambda>c. c\<lparr>c_intena := if c_ncli c = 0 then ifl (ls_smp x) me else c_intena c,
    c_ncli := c_ncli c + 1\<rparr>) (cli me (ls_smp x)))"
proof -
  have n: "numbered lapicid (ls_smp x)" and "lk_cpu (ls_lk x) \<noteq> Some me" using inv me by (auto simp: lock_inv_def)
  then show ?thesis unfolding acquire_enter_def pushcli_Ok [OF n me(1)]
    by (simp add: holding_Ok me)
qed

lemma release_store_Ok:
  assumes inv: "lock_inv lapicid fl x" and me: "ls_pc x me = Rel"
  shows "release_store lapicid me (ls_lk x) (ls_smp x) = Ok ((ls_lk x)\<lparr>lk_locked := 0\<rparr>,
    let s' = upd_cpu me (\<lambda>c. c\<lparr>c_ncli := c_ncli c - 1\<rparr>) (ls_smp x) in if fl me then sti me s' else s')"
proof -
  have m: "me < length (cpus (ls_smp x))" and n: "numbered lapicid (ls_smp x)" using inv me by (auto simp: lock_inv_def)
  then have c: "\<not> ifl (ls_smp x) me" "c_ncli (cpus (ls_smp x) ! me) = 1" "c_intena (cpus (ls_smp x) ! me) = fl me"
    using inv me by (auto simp: lock_inv_def)
  show ?thesis using popcli_Ok [OF n m c(1)] c by (simp add: release_store_def Let_def)
qed

lemma lock_inv_start: "lock_start lapicid x \<Longrightarrow> lock_inv lapicid (ifl (ls_smp x)) x"
  by (auto simp: lock_start_def lock_inv_def owns_def)

lemma lock_inv_step:
  assumes st: "lock_step lapicid x y" and inv: "lock_inv lapicid fl x"
  shows "lock_inv lapicid fl y"
  using st inv
proof cases
  case (enter me s)
  then have s: "s = upd_cpu me (\<lambda>c. c\<lparr>c_intena := if c_ncli c = 0 then ifl (ls_smp x) me else c_intena c,
      c_ncli := c_ncli c + 1\<rparr>) (cli me (ls_smp x))"
    using acquire_enter_Ok [OF inv] by auto
  have o: "owns y = owns x" using enter by (auto simp: owns_def fun_eq_iff)
  show ?thesis using inv enter unfolding lock_inv_def o
    by (auto simp: s cpus_upd_cpu)
next
  case (spin me old lk)
  then have "owns y = owns x" "lk_locked (ls_lk y) = 1" "lk_locked (ls_lk x) \<noteq> 0" "lk_cpu (ls_lk y) = lk_cpu (ls_lk x)"
    by (auto simp: owns_def fun_eq_iff acquire_xchg_def)
  with inv spin show ?thesis unfolding lock_inv_def by simp
next
  case (take me old lk)
  then have l: "lk_locked (ls_lk x) = 0" "lk = (ls_lk x)\<lparr>lk_locked := 1\<rparr>" by (auto simp: acquire_xchg_def)
  then have none: "\<not> owns x i" for i using inv by (auto simp: lock_inv_def)
  then have o: "owns y i \<longleftrightarrow> i = me" for i using take by (auto simp: owns_def)
  have "ls_pc x i \<noteq> In" for i using none [of i] by (auto simp: owns_def)
  then show ?thesis using inv take unfolding lock_inv_def o by (auto simp: l)
next
  case (owner me pcs lk)
  have m: "me < length (cpus (ls_smp x))" and n: "numbered lapicid (ls_smp x)" and f: "\<not> ifl (ls_smp x) me"
    using inv owner by (auto simp: lock_inv_def)
  then have l: "lk = (ls_lk x)\<lparr>lk_cpu := Some me, lk_pcs := pcs\<rparr>"
    using owner mycpu_me [OF n m f] by (simp add: acquire_record_def)
  have o: "owns y = owns x" using owner by (auto simp: owns_def fun_eq_iff)
  have "ls_pc x i \<noteq> In" if "i \<noteq> me" for i using inv owner that unfolding lock_inv_def by (auto simp: owns_def)
  then show ?thesis using inv owner unfolding lock_inv_def o by (auto simp: l)
next
  case (check me lk)
  then have l: "lk = (ls_lk x)\<lparr>lk_pcs := (lk_pcs (ls_lk x))[0 := 0], lk_cpu := None\<rparr>"
    by (auto simp: release_check_def outcome_simps split: if_splits)
  have o: "owns y = owns x" using check by (auto simp: owns_def fun_eq_iff)
  have "ls_pc x i \<noteq> In" if "i \<noteq> me" for i using inv check that unfolding lock_inv_def by (auto simp: owns_def)
  then show ?thesis using inv check unfolding lock_inv_def o by (auto simp: l)
next
  case (store me lk s)
  then have ls: "lk = (ls_lk x)\<lparr>lk_locked := 0\<rparr>"
    "s = (let s' = upd_cpu me (\<lambda>c. c\<lparr>c_ncli := c_ncli c - 1\<rparr>) (ls_smp x) in if fl me then sti me s' else s')"
    using release_store_Ok [OF inv] by auto
  have "\<not> owns x i" if "i \<noteq> me" for i using inv store that unfolding lock_inv_def by (auto simp: owns_def)
  then have o: "\<not> owns y i" for i using store by (auto simp: owns_def)
  have f: "ls_lk y = lk" "ls_smp y = s" "ls_pc y = (ls_pc x)(me := Out)" using store by simp_all
  show ?thesis using inv store(2) unfolding lock_inv_def
    by (auto simp: f ls o Let_def cpus_upd_cpu)
qed

lemma lock_inv_reach: "(lock_step lapicid)\<^sup>*\<^sup>* x y \<Longrightarrow> lock_inv lapicid fl x \<Longrightarrow> lock_inv lapicid fl y"
  by (induction rule: rtranclp_induct) (auto intro: lock_inv_step)

section \<open>Properties\<close>

text \<open>C33: mutual exclusion.  However the steps of \<open>acquire\<close> and \<open>release\<close> interleave on any number of processors, at most one processor is between taking the lock and freeing it, interrupts are off there, \<open>holding\<close> answers true exactly on the processor in the critical section, \<open>release\<close> by any other panics, and a processor outside has the interrupt flag it started with.\<close>

theorem spinlock_mutual_exclusion:
  assumes "lock_start lapicid x" and "(lock_step lapicid)\<^sup>*\<^sup>* x y"
    and "i < length (cpus (ls_smp y))" and "j < length (cpus (ls_smp y))"
  shows "(owns y i \<and> owns y j \<longrightarrow> i = j) \<and>
    (owns y i \<longrightarrow> \<not> ifl (ls_smp y) i) \<and>
    (\<not> ifl (ls_smp y) i \<longrightarrow> holding lapicid i (ls_lk y) (ls_smp y) = Ok (ls_pc y i = In)) \<and>
    (\<not> ifl (ls_smp y) i \<and> ls_pc y i \<noteq> In \<longrightarrow> release lapicid i (ls_lk y) (ls_smp y) = Panic ''release'') \<and>
    (ls_pc y i = Out \<longrightarrow> ifl (ls_smp y) i = ifl (ls_smp x) i)"
proof -
  have inv: "lock_inv lapicid (ifl (ls_smp x)) y"
    using lock_inv_reach [OF assms(2)] lock_inv_start [OF assms(1)] by blast
  have h: "holding lapicid i (ls_lk y) (ls_smp y) = Ok (ls_pc y i = In)" if "\<not> ifl (ls_smp y) i"
  proof -
    have n: "numbered lapicid (ls_smp y)" and c: "lk_cpu (ls_lk y) = Some i \<longleftrightarrow> ls_pc y i = In"
      and l: "lk_locked (ls_lk y) \<noteq> 0 \<longleftrightarrow> (\<exists>k. owns y k)" using inv by (auto simp: lock_inv_def)
    have "ls_pc y i = In \<Longrightarrow> lk_locked (ls_lk y) \<noteq> 0" using l by (auto simp: owns_def)
    then show ?thesis using holding_Ok [OF n assms(3) that] c by auto
  qed
  moreover have "release lapicid i (ls_lk y) (ls_smp y) = Panic ''release''"
    if "\<not> ifl (ls_smp y) i" "ls_pc y i \<noteq> In"
    using h [OF that(1)] that(2) by (simp add: release_def release_check_def)
  moreover have "owns y i \<and> owns y j \<longrightarrow> i = j" using inv unfolding lock_inv_def by blast
  moreover have "owns y i \<longrightarrow> \<not> ifl (ls_smp y) i" "ls_pc y i = Out \<longrightarrow> ifl (ls_smp y) i = ifl (ls_smp x) i"
    using inv assms(3) unfolding lock_inv_def owns_def by auto
  ultimately show ?thesis by blast
qed

text \<open>Two processors with interrupts on and a free lock.\<close>

definition two_cpus :: lock_sys where
  "two_cpus = \<lparr>ls_lk = \<lparr>lk_locked = 0, lk_name = ''l'', lk_cpu = None, lk_pcs = replicate 10 0\<rparr>,
     ls_smp = \<lparr>ifl = (\<lambda>i. True), cpus = [\<lparr>c_apicid = 0, c_ncli = 0, c_intena = False, c_proc = None, c_cr3 = 0, c_esp0 = 0\<rparr>,
       \<lparr>c_apicid = 1, c_ncli = 0, c_intena = False, c_proc = None, c_cr3 = 0, c_esp0 = 0\<rparr>]\<rparr>, ls_pc = (\<lambda>i. Out)\<rparr>"

lemma two_cpus_start: "lock_start of_nat two_cpus"
  by (auto simp: lock_start_def two_cpus_def numbered_def inj_on_def less_Suc_eq nth_Cons split: nat.splits)

lemma two_cpus_taken:
  "\<exists>y. (lock_step of_nat)\<^sup>*\<^sup>* two_cpus y \<and> ls_pc y 0 = Got \<and> length (cpus (ls_smp y)) = 2"
proof -
  have inv: "lock_inv of_nat (ifl (ls_smp two_cpus)) two_cpus" by (rule lock_inv_start [OF two_cpus_start])
  obtain s where s: "acquire_enter of_nat 0 (ls_lk two_cpus) (ls_smp two_cpus) = Ok s" "length (cpus s) = 2"
    using acquire_enter_Ok [OF inv, of 0] by (simp add: two_cpus_def)
  define x where "x = two_cpus\<lparr>ls_smp := s, ls_pc := (ls_pc two_cpus)(0 := Spin)\<rparr>"
  define y where "y = x\<lparr>ls_lk := (ls_lk x)\<lparr>lk_locked := 1\<rparr>, ls_pc := (ls_pc x)(0 := Got)\<rparr>"
  have "lock_step of_nat two_cpus x" unfolding x_def by (rule enter [OF _ _ s(1)]) (simp_all add: two_cpus_def)
  moreover have "lock_step of_nat x y"
    unfolding y_def by (rule take [where old = 0]) (simp_all add: acquire_xchg_def two_cpus_def x_def)
  ultimately have "(lock_step of_nat)\<^sup>*\<^sup>* two_cpus y"
    by (meson rtranclp.rtrancl_into_rtrancl rtranclp.rtrancl_refl)
  moreover have "ls_pc y 0 = Got" "length (cpus (ls_smp y)) = 2" using s(2) by (simp_all add: x_def y_def)
  ultimately show ?thesis by blast
qed

theorem spinlock_mutual_exclusion_witness:
  "\<exists>y. (lock_step of_nat)\<^sup>*\<^sup>* two_cpus y \<and> owns y 0 \<and> \<not> owns y 1 \<and> \<not> ifl (ls_smp y) 0"
proof -
  obtain y where y: "(lock_step of_nat)\<^sup>*\<^sup>* two_cpus y" "ls_pc y 0 = Got" "length (cpus (ls_smp y)) = 2"
    using two_cpus_taken by blast
  then show ?thesis
    using spinlock_mutual_exclusion [OF two_cpus_start y(1), of 0 1] by (auto simp: owns_def)
qed

text \<open>
  A sequence of calls, \<open>True\<close> for \<open>pushcli\<close>; \<open>cli_depth\<close> is the nesting it ends at, \<open>None\<close> when
  some prefix has more \<open>popcli\<close> than \<open>pushcli\<close>.
\<close>

fun cli_depth :: "nat \<Rightarrow> bool list \<Rightarrow> nat option" where
  "cli_depth d [] = Some d"
| "cli_depth d (True # cs) = cli_depth (Suc d) cs"
| "cli_depth d (False # cs) = (case d of 0 \<Rightarrow> None | Suc d' \<Rightarrow> cli_depth d' cs)"

definition cli_call :: "(nat \<Rightarrow> u8) \<Rightarrow> nat \<Rightarrow> bool \<Rightarrow> smp \<Rightarrow> smp outcome" where
  "cli_call lapicid me c = (if c then pushcli lapicid me else popcli lapicid me)"

definition at_depth :: "(nat \<Rightarrow> u8) \<Rightarrow> nat \<Rightarrow> bool \<Rightarrow> nat \<Rightarrow> smp \<Rightarrow> bool" where
  "at_depth lapicid me fl d s \<longleftrightarrow> numbered lapicid s \<and> me < length (cpus s) \<and> c_ncli (cpus s ! me) = int d \<and>
     (if d = 0 then ifl s me = fl else \<not> ifl s me \<and> c_intena (cpus s ! me) = fl)"

lemma pushcli_depth: "at_depth lapicid me fl d s \<Longrightarrow> \<exists>s'. pushcli lapicid me s = Ok s' \<and> at_depth lapicid me fl (Suc d) s'"
  using pushcli_Ok [of lapicid s me] by (auto simp: at_depth_def cpus_upd_cpu)

lemma popcli_depth:
  assumes "at_depth lapicid me fl (Suc d) s"
  shows "\<exists>s'. popcli lapicid me s = Ok s' \<and> at_depth lapicid me fl d s'"
  using assms popcli_Ok [of lapicid s me] by (auto simp: at_depth_def cpus_upd_cpu Let_def)

lemma popcli_depth_0: "at_depth lapicid me fl 0 s \<Longrightarrow> \<exists>msg. popcli lapicid me s = Panic msg"
  using mycpu_me [of lapicid s me] by (cases "ifl s me") (auto simp: at_depth_def popcli_def cpus_upd_cpu Let_def)

lemma cli_calls:
  "at_depth lapicid me fl d s \<Longrightarrow>
   (case cli_depth d cs of
      Some d' \<Rightarrow> \<exists>s'. for_each (cli_call lapicid me) cs s = Ok s' \<and> at_depth lapicid me fl d' s'
    | None \<Rightarrow> \<exists>msg. for_each (cli_call lapicid me) cs s = Panic msg)"
proof (induction d cs arbitrary: s rule: cli_depth.induct)
  case (2 d cs)
  obtain s' where "pushcli lapicid me s = Ok s'" "at_depth lapicid me fl (Suc d) s'"
    using pushcli_depth [OF "2.prems"] by blast
  then show ?case using "2.IH" by (simp add: cli_call_def cong: option.case_cong)
next
  case (3 d cs)
  show ?case
  proof (cases d)
    case 0
    then obtain msg where "popcli lapicid me s = Panic msg" using popcli_depth_0 "3.prems" by blast
    then show ?thesis using 0 by (simp add: cli_call_def)
  next
    case (Suc d')
    then obtain s' where "popcli lapicid me s = Ok s'" "at_depth lapicid me fl d' s'"
      using popcli_depth "3.prems" by blast
    then show ?thesis using "3.IH" [OF Suc] Suc by (simp add: cli_call_def cong: option.case_cong)
  qed
qed auto

text \<open>C38: \<open>pushcli\<close> and \<open>popcli\<close> nest.  Started at depth 0, a sequence of calls with no unmatched \<open>popcli\<close> never panics; interrupts are off while its depth is positive, and when the depth is back to 0 the interrupt flag is what it was.  A sequence with an unmatched \<open>popcli\<close> panics.\<close>

theorem pushcli_popcli_nest:
  assumes "numbered lapicid s" "me < length (cpus s)" "c_ncli (cpus s ! me) = 0"
  shows "case cli_depth 0 cs of
      Some d \<Rightarrow> \<exists>s'. for_each (cli_call lapicid me) cs s = Ok s' \<and> c_ncli (cpus s' ! me) = int d \<and>
        ifl s' me = (d = 0 \<and> ifl s me)
    | None \<Rightarrow> \<exists>msg. for_each (cli_call lapicid me) cs s = Panic msg"
proof -
  have "at_depth lapicid me (ifl s me) 0 s" using assms by (simp add: at_depth_def)
  from cli_calls [OF this, of cs] show ?thesis
    by (auto simp: at_depth_def split: option.splits if_splits)
qed

theorem pushcli_popcli_nest_witness:
  "\<exists>s'. for_each (cli_call of_nat 1) [True, True, False, False] (ls_smp two_cpus) = Ok s' \<and> ifl s' 1 = True"
proof -
  have "numbered of_nat (ls_smp two_cpus)" using two_cpus_start by (simp add: lock_start_def)
  then show ?thesis
    using pushcli_popcli_nest [of of_nat "ls_smp two_cpus" 1 "[True, True, False, False]"] by (auto simp: two_cpus_def)
qed

end
