(* ===== verification/Vm.thy ===== *)
theory Vm
  imports Kalloc
begin

text \<open>
  Page tables and address spaces, \<open>vm.c\<close>.  A page directory is the kernel address of its page;
  directory and tables are words of the memory of the page allocator, read and written with
  \<open>load32\<close> and \<open>store32\<close>.  A null pointer is the address 0.

  \<open>kend\<close> is the linker symbol \<open>end\<close>; \<open>layout\<close> has the values the table \<open>kmap\<close> depends on: the
  linker symbol \<open>data\<close> and the frame buffer (\<open>gpu\<close>) the boot loader reported.  \<open>loaduvm\<close>, which
  reads a file, and \<open>switchuvm\<close>, which takes a process, are with their callers in \<open>Exec\<close> and
  \<open>Proc\<close>.

  \<open>translate\<close> is what the processor does with a page directory: the physical address of a
  virtual one, or \<open>None\<close> for a page fault.
\<close>

record layout =
  l_data :: u32
  l_vram :: u32
  l_vram_size :: u32

section \<open>The processor's page walk\<close>

definition pde_present :: "mem \<Rightarrow> u32 \<Rightarrow> u32 \<Rightarrow> bool" where
  "pde_present m pgdir va \<longleftrightarrow> load32 m (pgdir + 4 * PDX va) AND PTE_P \<noteq> 0"

definition pte_addr :: "mem \<Rightarrow> u32 \<Rightarrow> u32 \<Rightarrow> u32" where
  "pte_addr m pgdir va = P2V (PTE_ADDR (load32 m (pgdir + 4 * PDX va))) + 4 * PTX va"

definition translate :: "mem \<Rightarrow> u32 \<Rightarrow> u32 \<Rightarrow> u32 option" where
  "translate m pgdir va =
     (if pde_present m pgdir va \<and> load32 m (pte_addr m pgdir va) AND PTE_P \<noteq> 0
      then Some (PTE_ADDR (load32 m (pte_addr m pgdir va)) + (va AND 0xFFF)) else None)"

text \<open>The byte a load from \<open>va\<close> sees; physical memory is seen through its kernel mapping.\<close>

definition vload :: "mem \<Rightarrow> u32 \<Rightarrow> u32 \<Rightarrow> u8 option" where
  "vload m pgdir va = map_option (\<lambda>pa. m (P2V pa)) (translate m pgdir va)"

section \<open>vm.c\<close>

definition upd_mem :: "(mem \<Rightarrow> mem) \<Rightarrow> kmem \<Rightarrow> kmem" where
  "upd_mem f s = s\<lparr>km_mem := f (km_mem s)\<rparr>"

definition walkpgdir :: "u32 \<Rightarrow> u32 \<Rightarrow> bool \<Rightarrow> kmem \<Rightarrow> u32 \<times> kmem" where
  "walkpgdir pgdir va alloc s =
     (let pde = pgdir + 4 * PDX va in
      if load32 (km_mem s) pde AND PTE_P \<noteq> 0 then
        (P2V (PTE_ADDR (load32 (km_mem s) pde)) + 4 * PTX va, s)
      else if \<not> alloc then (0, s)
      else
        (let (pgtab, s) = kalloc s in
         if pgtab = 0 then (0, s)
         else
           (let s = upd_mem (memset pgtab 0 PGSIZE) s;
                s = upd_mem (store32 pde (V2P pgtab OR PTE_P OR PTE_W OR PTE_U)) s
            in (pgtab + 4 * PTX va, s))))"

text \<open>
  The loop of \<open>mappages\<close> visits the pages from \<open>a\<close> to \<open>last\<close>, which are page aligned: the last
  argument counts the pages still to visit after this one.
\<close>

fun mappages_loop :: "u32 \<Rightarrow> u32 \<Rightarrow> u32 \<Rightarrow> u32 \<Rightarrow> nat \<Rightarrow> kmem \<Rightarrow> (int \<times> kmem) outcome" where
  "mappages_loop pgdir a pa perm n s =
     (let (pte, s) = walkpgdir pgdir a True s in
      if pte = 0 then Ok (-1, s)
      else if load32 (km_mem s) pte AND PTE_P \<noteq> 0 then Panic ''remap''
      else
        (let s = upd_mem (store32 pte (pa OR perm OR PTE_P)) s in
         case n of 0 \<Rightarrow> Ok (0, s)
         | Suc n \<Rightarrow> mappages_loop pgdir (a + PGSIZE) (pa + PGSIZE) perm n s))"

declare mappages_loop.simps [simp del]

definition mappages :: "u32 \<Rightarrow> u32 \<Rightarrow> u32 \<Rightarrow> u32 \<Rightarrow> u32 \<Rightarrow> kmem \<Rightarrow> (int \<times> kmem) outcome" where
  "mappages pgdir va sz pa perm s =
     (let a = PGROUNDDOWN va; last = PGROUNDDOWN (va + sz - 1) in
      mappages_loop pgdir a pa perm (unat (last - a) div 4096) s)"

text \<open>
  \<open>deallocuvm\<close>: the address goes up by a page each turn, or to the next directory entry when the
  table is missing.  It would wrap around only for an \<open>oldsz\<close> in the last 4 MB of the address
  space; every caller passes at most \<open>KERNBASE\<close>.
\<close>

definition dealloc_next :: "u32 \<Rightarrow> u32 \<Rightarrow> u32" where
  "dealloc_next pte a = (if pte = 0 then PGADDR (PDX a + 1) 0 0 - PGSIZE else a) + PGSIZE"

function deallocuvm_loop :: "u32 \<Rightarrow> u32 \<Rightarrow> u32 \<Rightarrow> u32 \<Rightarrow> kmem \<Rightarrow> kmem outcome" where
  "deallocuvm_loop kend pgdir a oldsz s =
     (if a < oldsz then
        (let pte = fst (walkpgdir pgdir a False s) in
         bnd (if pte \<noteq> 0 \<and> load32 (km_mem s) pte AND PTE_P \<noteq> 0 then
                (let pa = PTE_ADDR (load32 (km_mem s) pte) in
                 if pa = 0 then Panic ''kfree''
                 else bnd (kfree kend (P2V pa) s) (\<lambda>s. Ok (upd_mem (store32 pte 0) s)))
              else Ok s) (\<lambda>s.
         if dealloc_next pte a \<le> a then Undef ''deallocuvm: address wraps''
         else deallocuvm_loop kend pgdir (dealloc_next pte a) oldsz s))
      else Ok s)"
  by pat_completeness auto
termination
  by (relation "measure (\<lambda>(kend, pgdir, a, oldsz, s). unat oldsz - unat a)")
    (auto simp: word_less_nat_alt word_le_nat_alt)

declare deallocuvm_loop.simps [simp del]

definition deallocuvm :: "u32 \<Rightarrow> u32 \<Rightarrow> u32 \<Rightarrow> u32 \<Rightarrow> kmem \<Rightarrow> (u32 \<times> kmem) outcome" where
  "deallocuvm kend pgdir oldsz newsz s =
     (if newsz \<ge> oldsz then Ok (oldsz, s)
      else bnd (deallocuvm_loop kend pgdir (PGROUNDUP newsz) oldsz s) (\<lambda>s. Ok (newsz, s)))"

definition freevm_entry :: "u32 \<Rightarrow> u32 \<Rightarrow> nat \<Rightarrow> kmem \<Rightarrow> kmem outcome" where
  "freevm_entry kend pgdir i s =
     (let pde = load32 (km_mem s) (pgdir + 4 * of_nat i) in
      if pde AND PTE_P \<noteq> 0 then kfree kend (P2V (PTE_ADDR pde)) s else Ok s)"

definition freevm :: "u32 \<Rightarrow> u32 \<Rightarrow> kmem \<Rightarrow> kmem outcome" where
  "freevm kend pgdir s =
     (if pgdir = 0 then Panic ''freevm: no pgdir''
      else bnd (deallocuvm kend pgdir KERNBASE 0 s) (\<lambda>(_, s).
           bnd (for_each (freevm_entry kend pgdir) [0..<1024] s) (kfree kend pgdir)))"

text \<open>The kernel's mappings: virtual address, physical start and end, permissions.\<close>

definition kmap :: "layout \<Rightarrow> (u32 \<times> u32 \<times> u32 \<times> u32) list" where
  "kmap l =
     [(KERNBASE, 0, EXTMEM, PTE_W),
      (KERNBASE + EXTMEM, V2P (KERNBASE + EXTMEM), V2P (l_data l), 0),
      (l_data l, V2P (l_data l), PHYSTOP, PTE_W),
      (DEVSPACE - l_vram_size l, l_vram l, l_vram l + l_vram_size l, PTE_W),
      (0xC0000000, 0x80000000, 0x90000000, PTE_W),
      (DEVSPACE, DEVSPACE, 0, PTE_W)]"

fun kmap_loop :: "u32 \<Rightarrow> u32 \<Rightarrow> (u32 \<times> u32 \<times> u32 \<times> u32) list \<Rightarrow> kmem \<Rightarrow> (u32 \<times> kmem) outcome" where
  "kmap_loop kend pgdir [] s = Ok (pgdir, s)"
| "kmap_loop kend pgdir ((virt, pstart, pend, perm) # ks) s =
     bnd (mappages pgdir virt (pend - pstart) pstart perm s) (\<lambda>(r, s).
       if r < 0 then bnd (freevm kend pgdir s) (\<lambda>s. Ok (0, s)) else kmap_loop kend pgdir ks s)"

definition setupkvm :: "u32 \<Rightarrow> layout \<Rightarrow> kmem \<Rightarrow> (u32 \<times> kmem) outcome" where
  "setupkvm kend l s =
     (let (pgdir, s) = kalloc s in
      if pgdir = 0 then Ok (0, s)
      else
        (let s = upd_mem (memset pgdir 0 PGSIZE) s in
         if P2V PHYSTOP > DEVSPACE then Panic ''PHYSTOP too high''
         else kmap_loop kend pgdir (kmap l) s))"

text \<open>Bytes from a buffer that is not part of the page memory.\<close>

fun store_bytes :: "u32 \<Rightarrow> u8 list \<Rightarrow> mem \<Rightarrow> mem" where
  "store_bytes a [] m = m"
| "store_bytes a (b # bs) m = store_bytes (a + 1) bs (m(a := b))"

text \<open>\<open>inituvm\<close> checks the result of neither \<open>kalloc\<close> nor \<open>mappages\<close>.\<close>

definition inituvm :: "u32 \<Rightarrow> u8 list \<Rightarrow> kmem \<Rightarrow> kmem outcome" where
  "inituvm pgdir init s =
     (if length init \<ge> 4096 then Panic ''inituvm: more than a page''
      else
        (let (mem, s) = kalloc s; s = upd_mem (memset mem 0 PGSIZE) s in
         bnd (mappages pgdir 0 PGSIZE (V2P mem) (PTE_W OR PTE_U) s) (\<lambda>(_, s).
           Ok (upd_mem (store_bytes mem init) s))))"

text \<open>The addresses \<open>a, a + PGSIZE, \<dots>\<close> below \<open>lim\<close>.\<close>

definition page_steps :: "u32 \<Rightarrow> u32 \<Rightarrow> u32 list" where
  "page_steps a lim = map (\<lambda>i. a + of_nat (4096 * i)) [0..<(unat lim - unat a + 4095) div 4096]"

fun allocuvm_loop :: "u32 \<Rightarrow> u32 \<Rightarrow> u32 \<Rightarrow> u32 \<Rightarrow> u32 list \<Rightarrow> kmem \<Rightarrow> (u32 \<times> kmem) outcome" where
  "allocuvm_loop kend pgdir oldsz newsz [] s = Ok (newsz, s)"
| "allocuvm_loop kend pgdir oldsz newsz (a # as) s =
     (let (mem, s) = kalloc s in
      if mem = 0 then bnd (deallocuvm kend pgdir newsz oldsz s) (\<lambda>(_, s). Ok (0, s))
      else
        (let s = upd_mem (memset mem 0 PGSIZE) s in
         bnd (mappages pgdir a PGSIZE (V2P mem) (PTE_W OR PTE_U) s) (\<lambda>(r, s).
           if r < 0 then
             bnd (deallocuvm kend pgdir newsz oldsz s) (\<lambda>(_, s).
             bnd (kfree kend mem s) (\<lambda>s. Ok (0, s)))
           else allocuvm_loop kend pgdir oldsz newsz as s)))"

definition allocuvm :: "u32 \<Rightarrow> u32 \<Rightarrow> u32 \<Rightarrow> u32 \<Rightarrow> kmem \<Rightarrow> (u32 \<times> kmem) outcome" where
  "allocuvm kend pgdir oldsz newsz s =
     (if newsz \<ge> KERNBASE then Ok (0, s)
      else if newsz < oldsz then Ok (oldsz, s)
      else allocuvm_loop kend pgdir oldsz newsz (page_steps (PGROUNDUP oldsz) newsz) s)"

definition clearpteu :: "u32 \<Rightarrow> u32 \<Rightarrow> kmem \<Rightarrow> kmem outcome" where
  "clearpteu pgdir uva s =
     (let pte = fst (walkpgdir pgdir uva False s) in
      if pte = 0 then Panic ''clearpteu''
      else Ok (upd_mem (\<lambda>m. store32 pte (load32 m pte AND NOT PTE_U) m) s))"

fun copyuvm_loop :: "u32 \<Rightarrow> u32 \<Rightarrow> u32 \<Rightarrow> u32 list \<Rightarrow> kmem \<Rightarrow> (u32 \<times> kmem) outcome" where
  "copyuvm_loop kend pgdir d [] s = Ok (d, s)"
| "copyuvm_loop kend pgdir d (i # is) s =
     (let pte = fst (walkpgdir pgdir i False s) in
      if pte = 0 then Panic ''copyuvm: pte should exist''
      else if load32 (km_mem s) pte AND PTE_P = 0 then Panic ''copyuvm: page not present''
      else
        (let pa = PTE_ADDR (load32 (km_mem s) pte); flags = PTE_FLAGS (load32 (km_mem s) pte);
             (mem, s) = kalloc s
         in if mem = 0 then bnd (freevm kend d s) (\<lambda>s. Ok (0, s))
            else
              (let s = upd_mem (memmove mem (P2V pa) PGSIZE) s in
               bnd (mappages d i PGSIZE (V2P mem) flags s) (\<lambda>(r, s).
                 if r < 0 then bnd (freevm kend d s) (\<lambda>s. Ok (0, s))
                 else copyuvm_loop kend pgdir d is s))))"

definition copyuvm :: "u32 \<Rightarrow> layout \<Rightarrow> u32 \<Rightarrow> u32 \<Rightarrow> kmem \<Rightarrow> (u32 \<times> kmem) outcome" where
  "copyuvm kend l pgdir sz s = bnd (setupkvm kend l s) (\<lambda>(d, s).
     if d = 0 then Ok (0, s) else copyuvm_loop kend pgdir d (page_steps 0 sz) s)"

text \<open>\<open>uva2ka\<close> reads through the pointer \<open>walkpgdir\<close> returns without checking it.\<close>

definition uva2ka :: "u32 \<Rightarrow> u32 \<Rightarrow> kmem \<Rightarrow> u32 outcome" where
  "uva2ka pgdir uva s =
     (let pte = fst (walkpgdir pgdir uva False s) in
      if pte = 0 then Undef ''uva2ka: null pte''
      else if load32 (km_mem s) pte AND PTE_P = 0 then Ok 0
      else if load32 (km_mem s) pte AND PTE_U = 0 then Ok 0
      else Ok (P2V (PTE_ADDR (load32 (km_mem s) pte))))"

function copyout :: "u32 \<Rightarrow> u32 \<Rightarrow> u8 list \<Rightarrow> kmem \<Rightarrow> (int \<times> kmem) outcome" where
  "copyout pgdir va buf s =
     (if buf = [] then Ok (0, s)
      else
        (let va0 = PGROUNDDOWN va in
         bnd (uva2ka pgdir va0 s) (\<lambda>pa0.
         if pa0 = 0 then Ok (-1, s)
         else
           (let n = min (4096 - unat (va - va0)) (length buf) in
            copyout pgdir (va0 + PGSIZE) (drop n buf) (upd_mem (store_bytes (pa0 + (va - va0)) (take n buf)) s)))))"
  by pat_completeness auto
termination
proof (relation "measure (\<lambda>(pgdir, va, buf, s). length buf)")
  fix pgdir va :: u32 and buf :: "u8 list" and s :: kmem and x xa xb
  assume ne: "buf \<noteq> []" and x: "x = PGROUNDDOWN va" and xb: "xb = min (4096 - unat (va - x)) (length buf)"
  have "PGROUNDDOWN va \<le> va" by (simp add: word_le_nat_alt unat_PGROUNDDOWN)
  then have "unat (va - x) = unat va mod 4096" by (simp add: x unat_sub unat_PGROUNDDOWN)
  then have "unat (va - x) < 4096" by simp
  then have "xb > 0" using ne xb by auto
  then show "((pgdir, x + PGSIZE, drop xb buf, upd_mem (store_bytes (xa + (va - x)) (take xb buf)) s), pgdir, va, buf, s)
      \<in> measure (\<lambda>(pgdir, va, buf, s). length buf)" using ne by simp
qed simp

declare copyout.simps [simp del]

end
