(* ===== verification/Ring.thy ===== *)
theory Ring
  imports Prelude
begin

text \<open>
  Ring buffers with free-running 32-bit counters, the representation that pipes
  (\<open>pipe.c\<close>) and the console input (\<open>console.c\<close>) share: position \<open>k\<close> of the buffer is used for
  the counter values equal to \<open>k\<close> modulo the capacity, and the elements are those between the
  read and the write counter.  The capacity divides \<open>2\<^sup>3\<^sup>2\<close>, so nothing happens when the
  counters wrap.

  The locale \<open>byte_queue\<close> is the interface: a bounded first-in first-out queue with an
  abstraction to lists.  What a sequence of insertions or removals does is proved once there.
\<close>

section \<open>Elements between two counters\<close>

definition ring_elems :: "nat \<Rightarrow> u8 list \<Rightarrow> u32 \<Rightarrow> u32 \<Rightarrow> u8 list" where
  "ring_elems N d r w = map (\<lambda>k. d ! (unat (r + of_nat k) mod N)) [0..<unat (w - r)]"

lemma length_ring_elems [simp]: "length (ring_elems N d r w) = unat (w - r)"
  by (simp add: ring_elems_def)

lemma ring_elems_same [simp]: "ring_elems N d r r = []"
  by (simp add: ring_elems_def)

lemma ring_elems_Nil_iff: "ring_elems N d r w = [] \<longleftrightarrow> r = w"
proof -
  have "ring_elems N d r w = [] \<longleftrightarrow> unat (w - r) = 0" by (metis length_0_conv length_ring_elems)
  also have "\<dots> \<longleftrightarrow> r = w" by (auto simp: unat_eq_0)
  finally show ?thesis .
qed

lemma unat_mod_ring:
  assumes N: "N dvd 4294967296"
  shows "unat (r + of_nat k :: u32) mod N = (unat r + k) mod N"
proof -
  have "unat (r + of_nat k :: u32) = (unat r + k) mod 4294967296"
    by (simp add: unat_word_ariths unat_of_nat mod_simps)
  then show ?thesis using N by (simp add: mod_mod_cancel)
qed

lemma ring_pop:
  assumes "r \<noteq> w"
  shows "ring_elems N d r w = d ! (unat r mod N) # ring_elems N d (r + 1) w"
proof -
  have n: "unat (w - r) = Suc (unat (w - (r + 1)))" using unat_diff_next assms by metis
  have "[0..<unat (w - r)] = 0 # map Suc [0..<unat (w - (r + 1))]"
    by (simp add: n upt_conv_Cons map_Suc_upt del: upt_Suc)
  then show ?thesis by (simp add: ring_elems_def add.commute add.left_commute)
qed

lemma ring_push:
  assumes N: "N dvd 4294967296" "N < 4294967296" and len: "length d = N" and room: "unat (w - r) < N"
  shows "ring_elems N (d[unat w mod N := x]) r (w + 1) = ring_elems N d r w @ [x]"
proof -
  define n where "n = unat (w - r)"
  have w: "w = r + of_nat n" by (simp add: n_def)
  have "unat (w - r + 1) = n + 1" using room N(2) by (subst unat_add_nowrap) (simp_all add: n_def)
  then have n1: "unat (w + 1 - r) = Suc n" by (simp add: algebra_simps)
  have pos: "unat w mod N = (unat r + n) mod N" unfolding w by (rule unat_mod_ring [OF N(1)])
  have other: "unat (r + of_nat k) mod N \<noteq> unat w mod N" if "k < n" for k
  proof
    assume "unat (r + of_nat k) mod N = unat w mod N"
    then have "(unat r + n) mod N = (unat r + k) mod N" by (simp only: pos unat_mod_ring [OF N(1)])
    then have "N dvd n - k" using that by (subst (asm) mod_eq_dvd_iff_nat) simp_all
    with that room show False by (auto simp: n_def dest: dvd_imp_le)
  qed
  have "ring_elems N (d[unat w mod N := x]) r (w + 1) =
      map (\<lambda>k. d[unat w mod N := x] ! (unat (r + of_nat k) mod N)) [0..<n] @ [d[unat w mod N := x] ! (unat (r + of_nat n) mod N)]"
    by (simp add: ring_elems_def n1)
  also have "d[unat w mod N := x] ! (unat (r + of_nat n) mod N) = x"
    using room len unfolding w [symmetric] by (intro nth_list_update_eq) simp
  also have "map (\<lambda>k. d[unat w mod N := x] ! (unat (r + of_nat k) mod N)) [0..<n] =
      map (\<lambda>k. d ! (unat (r + of_nat k) mod N)) [0..<n]"
    using other by (intro map_cong refl nth_list_update_neq) fastforce
  finally show ?thesis by (simp add: ring_elems_def n_def)
qed

section \<open>Bounded queues\<close>

text \<open>Insert elements until the queue is full, returning those left over; remove up to \<open>n\<close> elements.\<close>

fun put_all :: "('a \<Rightarrow> 's \<Rightarrow> 's) \<Rightarrow> ('s \<Rightarrow> bool) \<Rightarrow> 'a list \<Rightarrow> 's \<Rightarrow> 'a list \<times> 's" where
  "put_all put is_full [] s = ([], s)"
| "put_all put is_full (b # bs) s = (if is_full s then (b # bs, s) else put_all put is_full bs (put b s))"

fun get_n :: "('s \<Rightarrow> 'a \<times> 's) \<Rightarrow> ('s \<Rightarrow> bool) \<Rightarrow> nat \<Rightarrow> 's \<Rightarrow> 'a list \<times> 's" where
  "get_n get is_empty 0 s = ([], s)"
| "get_n get is_empty (Suc n) s =
     (if is_empty s then ([], s)
      else (let (b, s) = get s; (bs, s) = get_n get is_empty n s in (b # bs, s)))"

locale byte_queue =
  fixes cap :: nat
    and inv :: "'s \<Rightarrow> bool"
    and elems :: "'s \<Rightarrow> 'a list"
    and put :: "'a \<Rightarrow> 's \<Rightarrow> 's"
    and get :: "'s \<Rightarrow> 'a \<times> 's"
    and is_full :: "'s \<Rightarrow> bool"
    and is_empty :: "'s \<Rightarrow> bool"
  assumes bounded: "inv s \<Longrightarrow> length (elems s) \<le> cap"
    and full_iff: "inv s \<Longrightarrow> is_full s \<longleftrightarrow> length (elems s) = cap"
    and empty_iff: "inv s \<Longrightarrow> is_empty s \<longleftrightarrow> elems s = []"
    and put_elems: "inv s \<Longrightarrow> \<not> is_full s \<Longrightarrow> inv (put b s) \<and> elems (put b s) = elems s @ [b]"
    and get_elems: "inv s \<Longrightarrow> \<not> is_empty s \<Longrightarrow>
      inv (snd (get s)) \<and> elems s = fst (get s) # elems (snd (get s))"
begin

lemma put_all_elems:
  "inv s \<Longrightarrow> put_all put is_full bs s = (rest, s') \<Longrightarrow>
   inv s' \<and> elems s' = elems s @ take (cap - length (elems s)) bs \<and> rest = drop (cap - length (elems s)) bs"
proof (induction bs arbitrary: s)
  case (Cons b bs)
  show ?case
  proof (cases "is_full s")
    case True
    then show ?thesis using Cons.prems full_iff [OF Cons.prems(1)] by auto
  next
    case False
    then have p: "inv (put b s)" "elems (put b s) = elems s @ [b]" using put_elems Cons.prems(1) by auto
    have lt: "length (elems s) < cap" using False bounded [OF Cons.prems(1)] full_iff [OF Cons.prems(1)] by simp
    then obtain k where k: "cap - length (elems s) = Suc k" "cap - Suc (length (elems s)) = k" by (metis Suc_diff_Suc)
    have "put_all put is_full bs (put b s) = (rest, s')" using Cons.prems(2) False by simp
    from Cons.IH [OF p(1) this] show ?thesis using p k by simp
  qed
qed auto

lemma get_n_elems:
  "inv s \<Longrightarrow> get_n get is_empty n s = (bs, s') \<Longrightarrow>
   inv s' \<and> bs = take n (elems s) \<and> elems s' = drop n (elems s)"
proof (induction n arbitrary: s bs)
  case (Suc n)
  show ?case
  proof (cases "is_empty s")
    case True
    then show ?thesis using Suc.prems empty_iff [OF Suc.prems(1)] by auto
  next
    case False
    obtain b t where g: "get s = (b, t)" by fastforce
    then have e: "inv t" "elems s = b # elems t" using get_elems [OF Suc.prems(1) False] by auto
    obtain bs' where "get_n get is_empty n t = (bs', s')" "bs = b # bs'"
      using Suc.prems(2) False g by (auto split: prod.splits)
    then show ?thesis using Suc.IH [OF e(1)] e(2) by auto
  qed
qed auto

end

end
