(* ===== verification/Pipe.thy ===== *)
theory Pipe
  imports Ring
begin

text \<open>
  Pipes, \<open>pipe.c\<close>: the object in its page, \<open>pipewrite\<close>, \<open>piperead\<close> and \<open>pipeclose\<close>
  (\<open>pipealloc\<close>, which also makes the two open files, is in \<open>File\<close>).

  The spin lock of the pipe is released only while a process sleeps, so each call is a sequence
  of atomic pieces.  \<open>pipewrite\<close> runs until it returns or sleeps; when it sleeps, its result has
  the bytes it still has to write, and the call goes on with them after the \<open>wakeup\<close>.
  \<open>killed\<close> is \<open>myproc()->killed\<close>.  The channels woken are returned with the result: the address
  \<open>&p->nread\<close> is \<open>PipeRead\<close>, \<open>&p->nwrite\<close> is \<open>PipeWrite\<close>.
\<close>

abbreviation (input) PIPESIZE :: nat where "PIPESIZE \<equiv> 512"

record pipe =
  p_data :: "u8 list"
  p_nread :: u32
  p_nwrite :: u32
  p_readopen :: bool
  p_writeopen :: bool

datatype pipe_chan = PipeRead | PipeWrite

text \<open>The call returned a value, or sleeps on a channel with some bytes left to write.\<close>

datatype 'a pipe_result = Returned int 'a | Asleep pipe_chan "u8 list"

section \<open>pipe.c\<close>

definition pipe_full :: "pipe \<Rightarrow> bool" where
  "pipe_full p \<longleftrightarrow> p_nwrite p = p_nread p + of_nat PIPESIZE"

definition pipe_empty :: "pipe \<Rightarrow> bool" where
  "pipe_empty p \<longleftrightarrow> p_nread p = p_nwrite p"

definition pipe_put :: "u8 \<Rightarrow> pipe \<Rightarrow> pipe" where
  "pipe_put b p = p\<lparr>p_data := (p_data p)[unat (p_nwrite p) mod PIPESIZE := b], p_nwrite := p_nwrite p + 1\<rparr>"

definition pipe_get :: "pipe \<Rightarrow> u8 \<times> pipe" where
  "pipe_get p = (p_data p ! (unat (p_nread p) mod PIPESIZE), p\<lparr>p_nread := p_nread p + 1\<rparr>)"

definition new_pipe :: "u8 list \<Rightarrow> pipe" where
  "new_pipe d = \<lparr>p_data = d, p_nread = 0, p_nwrite = 0, p_readopen = True, p_writeopen = True\<rparr>"

text \<open>\<open>n\<close> is the value the call returns at the end, \<open>bs\<close> the bytes still to be written.\<close>

fun pipewrite_loop :: "bool \<Rightarrow> int \<Rightarrow> u8 list \<Rightarrow> pipe \<Rightarrow> unit pipe_result \<times> pipe_chan list \<times> pipe" where
  "pipewrite_loop killed n [] p = (Returned n (), [PipeRead], p)"
| "pipewrite_loop killed n (b # bs) p =
     (if pipe_full p then
        (if \<not> p_readopen p \<or> killed then (Returned (-1) (), [], p)
         else (Asleep PipeWrite (b # bs), [PipeRead], p))
      else pipewrite_loop killed n bs (pipe_put b p))"

definition pipewrite :: "bool \<Rightarrow> u8 list \<Rightarrow> pipe \<Rightarrow> unit pipe_result \<times> pipe_chan list \<times> pipe" where
  "pipewrite killed bs p = pipewrite_loop killed (int (length bs)) bs p"

fun piperead_loop :: "nat \<Rightarrow> pipe \<Rightarrow> u8 list \<times> pipe" where
  "piperead_loop 0 p = ([], p)"
| "piperead_loop (Suc n) p =
     (if pipe_empty p then ([], p)
      else (let (b, p) = pipe_get p; (bs, p) = piperead_loop n p in (b # bs, p)))"

definition piperead :: "bool \<Rightarrow> nat \<Rightarrow> pipe \<Rightarrow> u8 list pipe_result \<times> pipe_chan list \<times> pipe" where
  "piperead killed n p =
     (if pipe_empty p \<and> p_writeopen p then
        (if killed then (Returned (-1) [], [], p) else (Asleep PipeRead [], [], p))
      else (let (bs, p) = piperead_loop n p in (Returned (int (length bs)) bs, [PipeWrite], p)))"

text \<open>The flag tells whether the page of the pipe is freed.\<close>

definition pipeclose :: "bool \<Rightarrow> pipe \<Rightarrow> bool \<times> pipe_chan list \<times> pipe" where
  "pipeclose writable p =
     (let (w, p) = (if writable then ([PipeRead], p\<lparr>p_writeopen := False\<rparr>)
                    else ([PipeWrite], p\<lparr>p_readopen := False\<rparr>))
      in (\<not> p_readopen p \<and> \<not> p_writeopen p, w, p))"

section \<open>A pipe is a bounded queue\<close>

definition pipe_elems :: "pipe \<Rightarrow> u8 list" where
  "pipe_elems p = ring_elems PIPESIZE (p_data p) (p_nread p) (p_nwrite p)"

definition pipe_inv :: "pipe \<Rightarrow> bool" where
  "pipe_inv p \<longleftrightarrow> length (p_data p) = PIPESIZE \<and> unat (p_nwrite p - p_nread p) \<le> PIPESIZE"

lemma pipe_full_iff: "pipe_full p \<longleftrightarrow> unat (p_nwrite p - p_nread p) = 512"
proof -
  have "p_nwrite p = p_nread p + 512 \<longleftrightarrow> p_nwrite p - p_nread p = (512 :: u32)" by (auto simp: algebra_simps)
  also have "\<dots> \<longleftrightarrow> unat (p_nwrite p - p_nread p) = unat (512 :: u32)" by (simp only: word_unat_eq_iff)
  finally show ?thesis by (simp add: pipe_full_def)
qed

interpretation pq: byte_queue 512 pipe_inv pipe_elems pipe_put pipe_get pipe_full pipe_empty
proof unfold_locales
  fix p :: pipe and b :: u8
  assume inv: "pipe_inv p"
  then show "length (pipe_elems p) \<le> 512" "pipe_full p \<longleftrightarrow> length (pipe_elems p) = 512"
    by (simp_all add: pipe_inv_def pipe_elems_def pipe_full_iff)
  show "pipe_empty p \<longleftrightarrow> pipe_elems p = []"
    by (simp add: pipe_empty_def pipe_elems_def ring_elems_Nil_iff)
  show "pipe_inv (pipe_put b p) \<and> pipe_elems (pipe_put b p) = pipe_elems p @ [b]" if "\<not> pipe_full p"
  proof -
    have lt: "unat (p_nwrite p - p_nread p) < 512" using inv that by (simp add: pipe_inv_def pipe_full_iff)
    then have "unat (p_nwrite p - p_nread p + 1) = unat (p_nwrite p - p_nread p) + 1"
      by (subst unat_add_nowrap) simp_all
    then have "unat (p_nwrite p + 1 - p_nread p) \<le> 512" using lt by (simp add: algebra_simps)
    moreover have "length (p_data p) = 512" using inv by (simp add: pipe_inv_def)
    ultimately show ?thesis using ring_push [of 512 "p_data p" "p_nwrite p" "p_nread p" b] lt
      by (simp add: pipe_inv_def pipe_elems_def pipe_put_def)
  qed
  show "pipe_inv (snd (pipe_get p)) \<and> pipe_elems p = fst (pipe_get p) # pipe_elems (snd (pipe_get p))"
    if "\<not> pipe_empty p"
  proof -
    have ne: "p_nwrite p \<noteq> p_nread p" using that by (simp add: pipe_empty_def)
    show ?thesis using inv ring_pop [OF ne [symmetric]] unat_diff_next [OF ne]
      by (simp add: pipe_inv_def pipe_elems_def pipe_get_def)
  qed
qed

lemma pipewrite_loop_put_all:
  "pipewrite_loop killed n bs p =
     (let (rest, p') = put_all pipe_put pipe_full bs p in
      if rest = [] then (Returned n (), [PipeRead], p')
      else if \<not> p_readopen p \<or> killed then (Returned (-1) (), [], p')
      else (Asleep PipeWrite rest, [PipeRead], p'))"
proof (induction bs arbitrary: p)
  case (Cons b bs)
  have "p_readopen (pipe_put b p) = p_readopen p" by (simp add: pipe_put_def)
  with Cons show ?case by (simp split: prod.splits)
qed simp

lemma piperead_loop_get_n: "piperead_loop n p = get_n pipe_get pipe_empty n p"
  by (induction n arbitrary: p) (simp_all split: prod.splits)

lemma pipewrite_loop_elems:
  assumes "pipe_inv p" and "pipewrite_loop killed n bs p = (r, wk, p')"
  shows "pipe_inv p' \<and> pipe_elems p' = pipe_elems p @ take (512 - length (pipe_elems p)) bs \<and>
    (let rest = drop (512 - length (pipe_elems p)) bs in
     if rest = [] then r = Returned n () \<and> wk = [PipeRead]
     else if \<not> p_readopen p \<or> killed then r = Returned (-1) () \<and> wk = []
     else r = Asleep PipeWrite rest \<and> wk = [PipeRead])"
proof -
  obtain rest q where "put_all pipe_put pipe_full bs p = (rest, q)" by fastforce
  with pq.put_all_elems [OF assms(1) this] assms(2) show ?thesis
    by (auto simp: pipewrite_loop_put_all Let_def split: if_splits)
qed

lemma piperead_elems:
  assumes "pipe_inv p" and "piperead killed n p = (r, wk, p')"
  shows "pipe_inv p' \<and>
    (if pipe_elems p = [] \<and> p_writeopen p then
       p' = p \<and> wk = [] \<and> (r = Returned (-1) [] \<and> killed \<or> r = Asleep PipeRead [] \<and> \<not> killed)
     else r = Returned (int (min n (length (pipe_elems p)))) (take n (pipe_elems p)) \<and> wk = [PipeWrite] \<and>
       pipe_elems p' = drop n (pipe_elems p))"
proof -
  obtain bs q where g: "piperead_loop n p = (bs, q)" by fastforce
  note e = pq.get_n_elems [OF assms(1) g [unfolded piperead_loop_get_n]]
  have em: "pipe_empty p \<longleftrightarrow> pipe_elems p = []" by (rule pq.empty_iff [OF assms(1)])
  show ?thesis
  proof (cases "pipe_elems p = [] \<and> p_writeopen p")
    case True
    then show ?thesis using assms by (auto simp: piperead_def em split: if_splits)
  next
    case False
    then have "r = Returned (int (length bs)) bs" "wk = [PipeWrite]" "p' = q"
      using assms(2) g by (auto simp: piperead_def em)
    with e False show ?thesis by auto
  qed
qed

section \<open>A writer and a reader\<close>

text \<open>
  A process that writes, a process that reads and their pipe.  \<open>ps_pend\<close> is the call of
  \<open>pipewrite\<close> under way: its return value and the bytes it still has to write.  \<open>ps_wsleep\<close> and
  \<open>ps_rsleep\<close> tell whether the writer and the reader are asleep; \<open>ps_sent\<close> are the bytes of all
  the calls of \<open>pipewrite\<close>, \<open>ps_got\<close> those returned by the calls of \<open>piperead\<close>.  After a call of
  \<open>pipewrite\<close> has failed, the writer stops.
\<close>

record pipe_sys =
  ps_pipe :: pipe
  ps_pend :: "(int \<times> u8 list) option"
  ps_wsleep :: bool
  ps_rsleep :: bool
  ps_sent :: "u8 list"
  ps_got :: "u8 list"
  ps_failed :: bool

definition woken :: "pipe_chan list \<Rightarrow> pipe_sys \<Rightarrow> pipe_sys" where
  "woken wk x = x\<lparr>ps_wsleep := (ps_wsleep x \<and> PipeWrite \<notin> set wk), ps_rsleep := (ps_rsleep x \<and> PipeRead \<notin> set wk)\<rparr>"

fun wrote :: "int \<Rightarrow> unit pipe_result \<Rightarrow> pipe_sys \<Rightarrow> pipe_sys" where
  "wrote n (Returned k u) x = x\<lparr>ps_pend := None, ps_failed := (k = -1)\<rparr>"
| "wrote n (Asleep ch rest) x = x\<lparr>ps_pend := Some (n, rest), ps_wsleep := True\<rparr>"

fun did_read :: "u8 list pipe_result \<Rightarrow> pipe_sys \<Rightarrow> pipe_sys" where
  "did_read (Returned k bs) x = x\<lparr>ps_got := ps_got x @ bs\<rparr>"
| "did_read (Asleep ch rest) x = x\<lparr>ps_rsleep := True\<rparr>"

inductive pipe_step :: "pipe_sys \<Rightarrow> pipe_sys \<Rightarrow> bool" where
  w_start: "ps_pend x = None \<Longrightarrow> \<not> ps_failed x \<Longrightarrow> pipewrite killed bs (ps_pipe x) = (r, wk, p) \<Longrightarrow>
    pipe_step x (wrote (int (length bs)) r (woken wk (x\<lparr>ps_pipe := p, ps_sent := ps_sent x @ bs\<rparr>)))"
| w_resume: "ps_pend x = Some (n, bs) \<Longrightarrow> \<not> ps_wsleep x \<Longrightarrow> pipewrite_loop killed n bs (ps_pipe x) = (r, wk, p) \<Longrightarrow>
    pipe_step x (wrote n r (woken wk (x\<lparr>ps_pipe := p\<rparr>)))"
| r_call: "\<not> ps_rsleep x \<Longrightarrow> piperead killed n (ps_pipe x) = (r, wk, p) \<Longrightarrow> n > 0 \<Longrightarrow>
    pipe_step x (did_read r (woken wk (x\<lparr>ps_pipe := p\<rparr>)))"
| p_close: "pipeclose w (ps_pipe x) = (fr, wk, p) \<Longrightarrow> pipe_step x (woken wk (x\<lparr>ps_pipe := p\<rparr>))"
| p_kill: "pipe_step x (woken wk x)"

definition pipe_sys_inv :: "pipe_sys \<Rightarrow> bool" where
  "pipe_sys_inv x \<longleftrightarrow> pipe_inv (ps_pipe x) \<and>
     (\<exists>lost. ps_sent x = ps_got x @ pipe_elems (ps_pipe x) @ (case ps_pend x of None \<Rightarrow> lost | Some (n, rest) \<Rightarrow> rest @ lost) \<and>
        (\<not> ps_failed x \<longrightarrow> lost = [])) \<and>
     (case ps_pend x of None \<Rightarrow> \<not> ps_wsleep x | Some (n, rest) \<Rightarrow> n \<noteq> -1 \<and> \<not> ps_failed x) \<and>
     (ps_wsleep x \<longrightarrow> pipe_full (ps_pipe x)) \<and>
     (ps_rsleep x \<longrightarrow> pipe_elems (ps_pipe x) = [] \<and> p_writeopen (ps_pipe x) \<or> ps_failed x)"

lemma pipewrite_loop_flags:
  "pipewrite_loop killed n bs p = (r, wk, p') \<Longrightarrow> p_writeopen p' = p_writeopen p \<and> p_readopen p' = p_readopen p"
  by (induction bs arbitrary: p) (auto simp: pipe_put_def split: if_splits)

lemma piperead_loop_flags: "piperead_loop n p = (bs, p') \<Longrightarrow> p_writeopen p' = p_writeopen p"
  by (induction n arbitrary: p bs) (auto simp: pipe_get_def Let_def split: if_splits prod.splits)

lemma take_drop_append: "take n es @ drop n es @ fs = es @ fs"
  by (metis append_assoc append_take_drop_id)

lemma write_inv:
  assumes inv: "pipe_inv (ps_pipe x)" and st: "\<not> ps_failed x" "n \<noteq> -1" "\<not> ps_wsleep x"
    and r: "ps_rsleep x \<longrightarrow> pipe_elems (ps_pipe x) = [] \<and> p_writeopen (ps_pipe x)"
    and w: "pipewrite_loop killed n bs (ps_pipe x) = (r, wk, p)"
    and sent: "S = ps_got x @ pipe_elems (ps_pipe x) @ bs"
  shows "pipe_sys_inv (wrote n r (woken wk (x\<lparr>ps_pipe := p, ps_sent := S\<rparr>)))"
proof -
  let ?k = "512 - length (pipe_elems (ps_pipe x))"
  note e = pipewrite_loop_elems [OF inv w]
  have p: "pipe_inv p" "pipe_elems p = pipe_elems (ps_pipe x) @ take ?k bs" using e by simp_all
  have split: "S = ps_got x @ pipe_elems p @ drop ?k bs" by (simp add: p(2) sent)
  consider (all) "r = Returned n ()" "wk = [PipeRead]" "drop ?k bs = []"
    | (fail) "r = Returned (-1) ()" "wk = []"
    | (sleep) "r = Asleep PipeWrite (drop ?k bs)" "wk = [PipeRead]" "drop ?k bs \<noteq> []"
    using e by (auto simp: Let_def split: if_splits)
  then show ?thesis
  proof cases
    case all
    then show ?thesis using p(1) st split by (simp add: pipe_sys_inv_def woken_def)
  next
    case fail
    then show ?thesis using p(1) st split by (simp add: pipe_sys_inv_def woken_def)
  next
    case sleep
    then have "length (pipe_elems p) = 512" using pq.bounded [OF inv] by (simp add: p(2))
    then have "pipe_full p" using pq.full_iff [OF p(1)] by simp
    then show ?thesis using p(1) st split sleep by (simp add: pipe_sys_inv_def woken_def)
  qed
qed

lemma pipe_sys_inv_step: "pipe_step x y \<Longrightarrow> pipe_sys_inv x \<Longrightarrow> pipe_sys_inv y"
proof (induction rule: pipe_step.induct)
  case (w_start x killed bs r wk p)
  show ?case
    by (rule write_inv [OF _ _ _ _ _ w_start(3) [unfolded pipewrite_def]])
      (use w_start in \<open>auto simp: pipe_sys_inv_def\<close>)
next
  case (w_resume x n bs killed r wk p)
  have "pipe_sys_inv (wrote n r (woken wk (x\<lparr>ps_pipe := p, ps_sent := ps_sent x\<rparr>)))"
    by (rule write_inv [OF _ _ _ _ _ w_resume(3)]) (use w_resume in \<open>auto simp: pipe_sys_inv_def\<close>)
  then show ?case by simp
next
  case (r_call x killed n r wk p)
  then have inv: "pipe_inv (ps_pipe x)" by (simp add: pipe_sys_inv_def)
  note e = piperead_elems [OF inv r_call(2)]
  show ?case
  proof (cases "pipe_elems (ps_pipe x) = [] \<and> p_writeopen (ps_pipe x)")
    case True
    then show ?thesis using e r_call by (auto simp: pipe_sys_inv_def woken_def split: option.splits)
  next
    case False
    then have "r = Returned (int (min n (length (pipe_elems (ps_pipe x))))) (take n (pipe_elems (ps_pipe x)))"
      "wk = [PipeWrite]" "pipe_elems p = drop n (pipe_elems (ps_pipe x))" "pipe_inv p" using e by simp_all
    then show ?thesis using r_call by (auto simp: pipe_sys_inv_def woken_def take_drop_append split: option.splits)
  qed
next
  case (p_close w x fr wk p)
  then have p: "pipe_elems p = pipe_elems (ps_pipe x)" "pipe_inv p = pipe_inv (ps_pipe x)" "pipe_full p = pipe_full (ps_pipe x)"
    "p_writeopen p = (p_writeopen (ps_pipe x) \<and> \<not> w)" "wk = [if w then PipeRead else PipeWrite]"
    by (auto simp: pipeclose_def pipe_elems_def pipe_inv_def pipe_full_def split: if_splits)
  with p_close(2) show ?case by (auto simp: pipe_sys_inv_def woken_def split: option.splits if_splits)
next
  case (p_kill x wk)
  then show ?case by (auto simp: pipe_sys_inv_def woken_def split: option.splits)
qed

definition pipe_start :: "u8 list \<Rightarrow> pipe_sys" where
  "pipe_start d = \<lparr>ps_pipe = new_pipe d, ps_pend = None, ps_wsleep = False, ps_rsleep = False, ps_sent = [], ps_got = [],
     ps_failed = False\<rparr>"

lemma pipe_sys_inv_start: "length d = 512 \<Longrightarrow> pipe_sys_inv (pipe_start d)"
  by (simp add: pipe_sys_inv_def pipe_start_def new_pipe_def pipe_inv_def pipe_elems_def)

lemma pipe_sys_inv_reach: "pipe_step\<^sup>*\<^sup>* x y \<Longrightarrow> pipe_sys_inv x \<Longrightarrow> pipe_sys_inv y"
  by (induction rule: rtranclp_induct) (auto intro: pipe_sys_inv_step)

section \<open>Properties\<close>

text \<open>C14: a pipe delivers what was written.  Whatever the interleaving of a writer and a reader with sleeps, wakeups, closes and kills, the bytes read so far are a prefix of the bytes handed to \<open>pipewrite\<close>; unless a \<open>pipewrite\<close> failed, what is missing is exactly what is in the pipe and in the call under way; the writer sleeps only when the pipe is full, the reader only when it is empty, so they never both sleep.\<close>

theorem pipe_delivers:
  assumes "length d = 512" and "pipe_step\<^sup>*\<^sup>* (pipe_start d) x"
  shows "(\<exists>rest. ps_sent x = ps_got x @ rest) \<and>
    (\<not> ps_failed x \<longrightarrow>
       ps_sent x = ps_got x @ pipe_elems (ps_pipe x) @ (case ps_pend x of None \<Rightarrow> [] | Some (n, bs) \<Rightarrow> bs)) \<and>
    (ps_wsleep x \<longrightarrow> length (pipe_elems (ps_pipe x)) = 512) \<and>
    (\<not> ps_failed x \<and> ps_rsleep x \<longrightarrow> pipe_elems (ps_pipe x) = []) \<and>
    \<not> (ps_wsleep x \<and> ps_rsleep x)"
proof -
  have inv: "pipe_sys_inv x" using pipe_sys_inv_reach [OF assms(2)] pipe_sys_inv_start [OF assms(1)] by blast
  then have p: "pipe_inv (ps_pipe x)" by (simp add: pipe_sys_inv_def)
  have w: "ps_wsleep x \<longrightarrow> length (pipe_elems (ps_pipe x)) = 512 \<and> \<not> ps_failed x"
    using inv pq.full_iff [OF p] by (auto simp: pipe_sys_inv_def split: option.splits)
  then have "\<not> (ps_wsleep x \<and> ps_rsleep x)" using inv by (auto simp: pipe_sys_inv_def)
  moreover have "ps_sent x = ps_got x @ pipe_elems (ps_pipe x) @ (case ps_pend x of None \<Rightarrow> [] | Some (n, bs) \<Rightarrow> bs)"
    if "\<not> ps_failed x" using inv that by (auto simp: pipe_sys_inv_def split: option.splits)
  moreover have "\<exists>rest. ps_sent x = ps_got x @ rest" using inv by (auto simp: pipe_sys_inv_def)
  ultimately show ?thesis using w inv by (auto simp: pipe_sys_inv_def)
qed

theorem pipe_delivers_witness:
  "\<exists>x. pipe_step\<^sup>*\<^sup>* (pipe_start (replicate 512 0)) x \<and> ps_sent x = [7, 8, 9] \<and> ps_got x = [7, 8] \<and>
     pipe_elems (ps_pipe x) = [9]"
proof -
  let ?s = "pipe_start (replicate 512 0)"
  have inv: "pipe_inv (ps_pipe ?s)" and el: "pipe_elems (ps_pipe ?s) = []"
    by (simp_all add: pipe_start_def new_pipe_def pipe_inv_def pipe_elems_def)
  obtain r wk p where w: "pipewrite False [7, 8, 9] (ps_pipe ?s) = (r, wk, p)" by (cases "pipewrite False [7, 8, 9] (ps_pipe ?s)")
  have p: "pipe_inv p" "pipe_elems p = [7, 8, 9]" "r = Returned 3 ()"
    using pipewrite_loop_elems [OF inv w [unfolded pipewrite_def]] by (simp_all add: el)
  define x where "x = wrote 3 r (woken wk (?s\<lparr>ps_pipe := p, ps_sent := [7, 8, 9]\<rparr>))"
  have "pipe_step ?s x" using w_start [OF _ _ w] by (simp add: x_def pipe_start_def)
  have x: "ps_pipe x = p" "ps_sent x = [7, 8, 9]" "ps_got x = []" "\<not> ps_rsleep x"
    by (simp_all add: x_def p(3) woken_def pipe_start_def)
  obtain r' wk' p' where rd: "piperead False 2 (ps_pipe x) = (r', wk', p')" by (cases "piperead False 2 (ps_pipe x)")
  then have r': "r' = Returned 2 [7, 8]" using piperead_elems [OF _ rd] p x by simp
  define y where "y = did_read r' (woken wk' (x\<lparr>ps_pipe := p'\<rparr>))"
  have "pipe_step x y" unfolding y_def by (rule r_call [OF x(4) rd]) simp
  with \<open>pipe_step ?s x\<close> have run: "pipe_step\<^sup>*\<^sup>* ?s y" by auto
  have y: "ps_sent y = [7, 8, 9]" "ps_got y = [7, 8]" "\<not> ps_failed y" "ps_pend y = None"
    by (simp_all add: y_def r' woken_def x x_def p(3) pipe_start_def)
  have "ps_sent y = ps_got y @ pipe_elems (ps_pipe y) @ []"
    using pipe_delivers [OF _ run] y by simp
  then show ?thesis using run y by auto
qed

text \<open>
  A writer that is killed while the pipe is full returns without waking the reader: the bytes it
  put there before stay unread until another \<open>wakeup\<close>.
\<close>

lemma pipewrite_killed_no_wakeup:
  assumes "pipe_inv p" "pipe_elems p = []" "length bs > 512"
  shows "\<exists>p'. pipewrite True bs p = (Returned (-1) (), [], p') \<and> pipe_elems p' = take 512 bs"
proof -
  obtain r wk p' where w: "pipewrite True bs p = (r, wk, p')" by (cases "pipewrite True bs p")
  then show ?thesis using pipewrite_loop_elems [OF assms(1), of True "int (length bs)" bs r wk p'] assms
    by (auto simp: pipewrite_def Let_def)
qed

end
