(* ===== verification/Printf.thy ===== *)
theory Printf
  imports CString
begin

text \<open>
  Formatted output: \<open>printint\<close> and \<open>printf\<close> of the user library (\<open>printf.c\<close>) and \<open>printint\<close> and
  the formatting of \<open>cprintf\<close> of the kernel (\<open>console.c\<close>).  The results are the characters
  passed to \<open>putc\<close> and \<open>consputc\<close>.  \<open>str\<close> reads the C string at an address.

  The lemmas relate \<open>printint\<close> to the numeral of the number in the base, show that its buffer of
  16 characters is large enough, that \<open>atoi\<close> reads back what it printed, and that the two
  formatters agree.
\<close>

section \<open>printint\<close>

definition digits_upper :: "u8 list" where
  "digits_upper = [48, 49, 50, 51, 52, 53, 54, 55, 56, 57, 65, 66, 67, 68, 69, 70]"

definition digits_lower :: "u8 list" where
  "digits_lower = [48, 49, 50, 51, 52, 53, 54, 55, 56, 57, 97, 98, 99, 100, 101, 102]"

text \<open>The loop that fills \<open>buf\<close>, last digit first; a store outside the 16 characters is undefined.\<close>

function put_digits :: "u8 list \<Rightarrow> u32 \<Rightarrow> u32 \<Rightarrow> u8 list \<Rightarrow> u8 list outcome" where
  "put_digits digits base x buf =
     (if base = 0 then Undef ''division by zero''
      else if 16 \<le> length buf then Undef ''buf''
      else if length digits \<le> unat (x mod base) then Undef ''digits''
      else
        (let buf = buf @ [digits ! unat (x mod base)]; x = x div base in
         if x \<noteq> 0 then put_digits digits base x buf else Ok buf))"
  by pat_completeness auto
termination
  by (relation "measure (\<lambda>(digits, base, x, buf). 16 - length buf)") auto

declare put_digits.simps [simp del]

definition u_printint :: "u32 \<Rightarrow> u32 \<Rightarrow> bool \<Rightarrow> u8 list outcome" where
  "u_printint xx base sg =
     (let neg = (sg \<and> sint xx < 0);
          x = (if neg then - xx else xx) in
      bnd (put_digits digits_upper base x []) (\<lambda>buf.
      if neg then (if 16 \<le> length buf then Undef ''buf'' else Ok (rev (buf @ [45])))
      else Ok (rev buf)))"

definition printint :: "u32 \<Rightarrow> u32 \<Rightarrow> bool \<Rightarrow> u8 list outcome" where
  "printint xx base sign =
     (let sign = (sign \<and> sint xx < 0);
          x = (if sign then - xx else xx) in
      bnd (put_digits digits_lower base x []) (\<lambda>buf.
      if sign then (if 16 \<le> length buf then Undef ''buf'' else Ok (rev (buf @ [45])))
      else Ok (rev buf)))"

section \<open>printf and cprintf\<close>

abbreviation "Percent \<equiv> (37 :: u8)"

definition null_str :: "u8 list" where
  "null_str = [40, 110, 117, 108, 108, 41]"

text \<open>The next argument word; reading past the arguments of the call is undefined.\<close>

fun next_arg :: "u32 list \<Rightarrow> (u32 \<times> u32 list) outcome" where
  "next_arg [] = Undef ''missing argument''"
| "next_arg (a # ap) = Ok (a, ap)"

definition arg_str :: "(u32 \<Rightarrow> u8 list) \<Rightarrow> u32 \<Rightarrow> u8 list" where
  "arg_str str a = (if a = 0 then null_str else str a)"

text \<open>\<open>printf\<close>: \<open>st\<close> is the variable \<open>state\<close>, true for \<open>'%'\<close>.\<close>

fun printf_loop :: "(u32 \<Rightarrow> u8 list) \<Rightarrow> bool \<Rightarrow> u8 list \<Rightarrow> u32 list \<Rightarrow> u8 list outcome" where
  "printf_loop str st [] ap = Ok []"
| "printf_loop str st (c # fmt) ap =
     (if \<not> st then
        (if c = Percent then printf_loop str True fmt ap
         else bnd (printf_loop str False fmt ap) (\<lambda>out. Ok (c # out)))
      else
        bnd (if c = 100 then
               bnd (next_arg ap) (\<lambda>(a, ap). bnd (u_printint a 10 True) (\<lambda>o1. Ok (o1, ap)))
             else if c = 120 \<or> c = 112 then
               bnd (next_arg ap) (\<lambda>(a, ap). bnd (u_printint a 16 False) (\<lambda>o1. Ok (o1, ap)))
             else if c = 115 then bnd (next_arg ap) (\<lambda>(a, ap). Ok (arg_str str a, ap))
             else if c = 99 then bnd (next_arg ap) (\<lambda>(a, ap). Ok ([ucast a], ap))
             else if c = Percent then Ok ([c], ap)
             else Ok ([Percent, c], ap))
        (\<lambda>(o1, ap). bnd (printf_loop str False fmt ap) (\<lambda>out. Ok (o1 @ out))))"

definition printf :: "(u32 \<Rightarrow> u8 list) \<Rightarrow> u8 list \<Rightarrow> u32 list \<Rightarrow> u8 list outcome" where
  "printf str fmt ap = printf_loop str False fmt ap"

text \<open>The loop of \<open>cprintf\<close>: the characters, as the \<open>int\<close>s given to \<open>consputc\<close>; those of \<open>%s\<close> are signed.\<close>

fun cprintf_loop :: "(u32 \<Rightarrow> u8 list) \<Rightarrow> u8 list \<Rightarrow> u32 list \<Rightarrow> int list outcome" where
  "cprintf_loop str [] argp = Ok []"
| "cprintf_loop str [c] argp = (if c \<noteq> Percent then Ok [uint c] else Ok [])"
| "cprintf_loop str (c # d # fmt) argp =
     (if c \<noteq> Percent then bnd (cprintf_loop str (d # fmt) argp) (\<lambda>out. Ok (uint c # out))
      else
        bnd (if d = 100 then
               bnd (next_arg argp) (\<lambda>(a, argp). bnd (printint a 10 True) (\<lambda>o1. Ok (map uint o1, argp)))
             else if d = 120 \<or> d = 112 then
               bnd (next_arg argp) (\<lambda>(a, argp). bnd (printint a 16 False) (\<lambda>o1. Ok (map uint o1, argp)))
             else if d = 115 then bnd (next_arg argp) (\<lambda>(a, argp). Ok (map sint (arg_str str a), argp))
             else if d = Percent then Ok ([37], argp)
             else Ok ([37, uint d], argp))
        (\<lambda>(o1, argp). bnd (cprintf_loop str fmt argp) (\<lambda>out. Ok (o1 @ out))))"

section \<open>Numerals\<close>

text \<open>The digits of a number, least significant first.\<close>

function numeral_of :: "nat \<Rightarrow> nat \<Rightarrow> nat list" where
  "numeral_of b n = n mod b # (if b \<le> 1 \<or> n div b = 0 then [] else numeral_of b (n div b))"
  by pat_completeness auto
termination
  by (relation "measure snd") (auto simp: div_eq_0_iff)

declare numeral_of.simps [simp del]

fun value_of :: "nat \<Rightarrow> nat list \<Rightarrow> nat" where
  "value_of b [] = 0"
| "value_of b (d # ds) = d + b * value_of b ds"

lemma numeral_not_Nil [simp]: "numeral_of b n \<noteq> []"
  by (subst numeral_of.simps) simp

lemma value_numeral: "1 < b \<Longrightarrow> value_of b (numeral_of b n) = n"
proof (induction b n rule: numeral_of.induct)
  case (1 b n)
  show ?case
  proof (cases "n div b = 0")
    case True
    with mult_div_mod_eq [of b n] have "n mod b = n" by simp
    with True show ?thesis by (subst numeral_of.simps) simp
  next
    case False
    with 1 have "value_of b (numeral_of b (n div b)) = n div b" by simp
    with 1(2) False show ?thesis by (subst numeral_of.simps) simp
  qed
qed

lemma numeral_digits: "1 < b \<Longrightarrow> d \<in> set (numeral_of b n) \<Longrightarrow> d < b"
proof (induction b n rule: numeral_of.induct)
  case (1 b n)
  from 1(3) consider "d = n mod b" | "n div b \<noteq> 0" "d \<in> set (numeral_of b (n div b))"
    by (subst (asm) numeral_of.simps) (auto split: if_splits)
  then show ?case using 1(1,2) by cases auto
qed

lemma numeral_length: "1 < b \<Longrightarrow> n < b ^ Suc k \<Longrightarrow> length (numeral_of b n) \<le> Suc k"
proof (induction k arbitrary: n)
  case 0
  then have "n div b = 0" by simp
  then show ?case by (subst numeral_of.simps) simp
next
  case (Suc k)
  have "n div b < b ^ Suc k" using Suc.prems by (simp add: less_mult_imp_div_less mult.commute)
  then show ?case using Suc by (subst numeral_of.simps) simp
qed

lemma last_numeral: "1 < b \<Longrightarrow> last (numeral_of b n) = 0 \<Longrightarrow> n = 0"
proof (induction b n rule: numeral_of.induct)
  case (1 b n)
  show ?case
  proof (cases "n div b = 0")
    case True
    with 1(3) have "n mod b = 0" by (subst (asm) numeral_of.simps) simp
    with True mult_div_mod_eq [of b n] show ?thesis by simp
  next
    case False
    with 1(2,3) have "last (numeral_of b (n div b)) = 0" by (subst (asm) numeral_of.simps) simp
    with 1(1,2) False show ?thesis by simp
  qed
qed

lemma put_digits_numeral:
  assumes "1 < unat base" "unat base \<le> length digits"
    and "length buf + length (numeral_of (unat base) (unat x)) \<le> 16"
  shows "put_digits digits base x buf = Ok (buf @ map ((!) digits) (numeral_of (unat base) (unat x)))"
  using assms
proof (induction digits base x buf rule: put_digits.induct)
  case (1 digits base x buf)
  have b: "base \<noteq> 0" using 1(2) by auto
  have d: "unat (x mod base) = unat x mod unat base" "unat (x div base) = unat x div unat base"
    by (simp_all add: unat_mod unat_div)
  have in_digits: "\<not> length digits \<le> unat (x mod base)"
    using 1(2,3) mod_less_divisor [of "unat base" "unat x"] unfolding d by linarith
  have len: "\<not> 16 \<le> length buf" using 1(4) numeral_not_Nil [of "unat base" "unat x"]
    by (cases "numeral_of (unat base) (unat x)") auto
  show ?case
  proof (cases "x div base = 0")
    case True
    then have "unat x div unat base = 0" using d(2) by simp
    then have "numeral_of (unat base) (unat x) = [unat x mod unat base]" by (subst numeral_of.simps) simp
    then show ?thesis using True b in_digits len by (subst put_digits.simps) (simp add: Let_def d)
  next
    case False
    then have "unat x div unat base \<noteq> 0" using d(2) by (metis unat_eq_0)
    then have n: "numeral_of (unat base) (unat x) = unat x mod unat base # numeral_of (unat base) (unat (x div base))"
      using 1(2) by (subst numeral_of.simps) (simp add: d)
    have "put_digits digits base (x div base) (buf @ [digits ! unat (x mod base)]) =
        Ok ((buf @ [digits ! unat (x mod base)]) @ map ((!) digits) (numeral_of (unat base) (unat (x div base))))"
      using 1(4) n False by (intro 1(1) [OF b len in_digits refl refl _ 1(2,3)]) simp_all
    then show ?thesis using False b in_digits len n by (subst put_digits.simps) (simp add: Let_def d)
  qed
qed

lemma numeral_u32_length:
  "length (numeral_of 10 (unat (x :: u32))) \<le> 10" "length (numeral_of 16 (unat x)) \<le> 8"
proof -
  have a: "unat x < 2 ^ 32" using unsigned_less [of x] by simp
  have "unat x < 10 ^ Suc 9" "unat x < 16 ^ Suc 7" by (rule less_le_trans [OF a]; simp)+
  then show "length (numeral_of 10 (unat x)) \<le> 10" "length (numeral_of 16 (unat x)) \<le> 8"
    using numeral_length [of 10 "unat x" 9] numeral_length [of 16 "unat x" 7] by (simp_all del: power_Suc)
qed

definition magnitude :: "u32 \<Rightarrow> nat" where
  "magnitude xx = nat \<bar>sint xx\<bar>"

lemma unat_magnitude: "unat (if sint (xx :: u32) < 0 then - xx else xx) = magnitude xx"
proof (cases "sint xx < 0")
  case True
  have s: "sint xx = uint xx - 2 ^ 32" using True uint_ge_0 [of xx] by (simp add: sint_u32_cases split: if_splits)
  have nz: "xx \<noteq> 0" using True by auto
  have "uint xx \<noteq> 0" "uint xx mod 2 ^ 32 = uint xx"
    using nz uint_lt2p [of xx] by (simp_all add: uint_0_iff)
  then have "uint (- xx) = 2 ^ 32 - uint xx" by (simp add: uint_word_ariths zmod_zminus1_eq_if)
  moreover have "\<bar>sint xx\<bar> = 2 ^ 32 - uint xx" using True s by linarith
  ultimately show ?thesis using True unfolding magnitude_def by (metis unat_eq_nat_uint)
next
  case False
  then have "sint xx = uint xx"
    using uint_lt2p [of xx] unfolding sint_u32_cases [of xx] by (cases "uint xx < 2 ^ 31") simp_all
  then show ?thesis using False unfolding magnitude_def by (metis abs_of_nonneg not_less unat_eq_nat_uint)
qed

definition digit_char :: "nat \<Rightarrow> u8" where
  "digit_char d = of_nat (48 + d)"

lemma unat_digit_char [simp]: "d < 10 \<Longrightarrow> unat (digit_char d) = 48 + d"
  unfolding digit_char_def by (subst unat_of_nat) simp

lemma digits_decimal:
  "d < 10 \<Longrightarrow> digits_lower ! d = digit_char d" "d < 10 \<Longrightarrow> digits_upper ! d = digit_char d"
  by (auto simp: digits_lower_def digits_upper_def digit_char_def less_Suc_eq numeral_eq_Suc)

definition decimal :: "nat \<Rightarrow> u8 list" where
  "decimal n = map digit_char (rev (numeral_of 10 n))"

lemma printint_decimal_eq:
  "printint xx 10 True = Ok ((if sint xx < 0 then [45] else []) @ decimal (magnitude xx))"
  "u_printint xx 10 True = Ok ((if sint xx < 0 then [45] else []) @ decimal (magnitude xx))"
proof -
  define x where "x = (if sint xx < 0 then - xx else xx)"
  have ten: "1 < unat (10 :: u32)" "unat (10 :: u32) \<le> length digits_lower" "unat (10 :: u32) \<le> length digits_upper"
    "unat (10 :: u32) = 10" by (simp_all add: digits_lower_def digits_upper_def)
  have l: "length (numeral_of 10 (unat x)) \<le> 10" by (rule numeral_u32_length)
  have m: "map ((!) digits_lower) (numeral_of 10 (unat x)) = map digit_char (numeral_of 10 (unat x))"
      "map ((!) digits_upper) (numeral_of 10 (unat x)) = map digit_char (numeral_of 10 (unat x))"
    using digits_decimal numeral_digits [of 10] by auto
  have p: "put_digits digits_lower 10 x [] = Ok (map digit_char (numeral_of 10 (unat x)))"
      "put_digits digits_upper 10 x [] = Ok (map digit_char (numeral_of 10 (unat x)))"
    using put_digits_numeral [of 10 digits_lower "[]" x] put_digits_numeral [of 10 digits_upper "[]" x] l ten m
    by simp_all
  have u: "unat x = magnitude xx" unfolding x_def by (rule unat_magnitude)
  show "printint xx 10 True = Ok ((if sint xx < 0 then [45] else []) @ decimal (magnitude xx))"
      "u_printint xx 10 True = Ok ((if sint xx < 0 then [45] else []) @ decimal (magnitude xx))"
    using p l unfolding printint_def u_printint_def decimal_def u [symmetric] x_def [symmetric]
    by (auto simp: rev_map Let_def x_def [symmetric])
qed

lemma decimal_value: "value_of 10 (rev (map (\<lambda>c. unat c - 48) (decimal n))) = n"
proof -
  have "map (\<lambda>c. unat c - 48) (map digit_char ds) = ds" if "set ds \<subseteq> {..<10}" for ds
    using that by (induction ds) auto
  from this [of "rev (numeral_of 10 n)"]
  have "map (\<lambda>c. unat c - 48) (decimal n) = rev (numeral_of 10 n)"
    unfolding decimal_def using numeral_digits [of 10 _ n] by auto
  then show ?thesis using value_numeral [of 10 n] by simp
qed

lemma decimal_digits:
  assumes "c \<in> set (decimal n)"
  shows "48 \<le> c \<and> c \<le> 57"
proof -
  from assms obtain d where d: "d \<in> set (numeral_of 10 n)" "c = digit_char d"
    by (auto simp: decimal_def)
  then have "d < 10" using numeral_digits [of 10 d n] by simp
  with d show ?thesis by (simp add: word_le_nat_alt)
qed

lemma unat_48: "unat (48 :: u8) = 48"
  by simp

lemma decimal_no_leading_zero: "decimal n \<noteq> [] \<and> (hd (decimal n) = 48 \<longrightarrow> n = 0)"
proof -
  have "hd (decimal n) = digit_char (last (numeral_of 10 n))"
    by (simp add: decimal_def hd_map hd_rev)
  moreover have "last (numeral_of 10 n) < 10" using numeral_digits [of 10 "last (numeral_of 10 n)" n] by simp
  then have "digit_char (last (numeral_of 10 n)) = 48 \<longrightarrow> last (numeral_of 10 n) = 0"
    using unat_digit_char by (metis add_cancel_left_right unat_48)
  ultimately show ?thesis using last_numeral [of 10 n] by (simp add: decimal_def)
qed

text \<open>\<open>printint\<close> prints the decimal numeral of a signed 32-bit number: a minus sign exactly for negative numbers (the smallest one included), then its decimal digits without a leading zero; the buffer of 16 characters never overflows.  The kernel's and the user library's version print the same.\<close>

theorem printint_prints_decimal:
  "\<exists>ds. printint xx 10 True = Ok ((if sint xx < 0 then [45] else []) @ ds) \<and>
     u_printint xx 10 True = printint xx 10 True \<and>
     (\<forall>c. c \<in> set ds \<longrightarrow> 48 \<le> c \<and> c \<le> 57) \<and> ds \<noteq> [] \<and> (hd ds = 48 \<longrightarrow> sint xx = 0) \<and>
     int (value_of 10 (rev (map (\<lambda>c. unat c - 48) ds))) = \<bar>sint xx\<bar>"
proof -
  have "magnitude xx = 0 \<longrightarrow> sint xx = 0" by (simp add: magnitude_def)
  moreover have "int (magnitude xx) = \<bar>sint xx\<bar>" by (simp add: magnitude_def)
  ultimately show ?thesis
    using decimal_value [of "magnitude xx"] decimal_no_leading_zero [of "magnitude xx"]
    by (intro exI [of _ "decimal (magnitude xx)"]) (auto simp: printint_decimal_eq dest: decimal_digits)
qed

theorem printint_prints_decimal_witness: "printint 0x80000000 10 True = Ok (45 # decimal 2147483648)"
proof -
  obtain ds where ds: "printint 0x80000000 10 True = Ok ((if sint (0x80000000 :: u32) < 0 then [45] else []) @ ds)"
    using printint_prints_decimal [of "0x80000000"] by blast
  have "magnitude 0x80000000 = 2147483648" "sint (0x80000000 :: u32) < 0"
    by (simp_all add: magnitude_def sint_u32_cases)
  with ds show ?thesis by (simp add: printint_decimal_eq)
qed

section \<open>Reading back what was printed\<close>

lemma foldl_value: "foldl (\<lambda>n d. n * b + d) k (rev xs) = k * b ^ length xs + value_of b xs"
  by (induction xs) (simp_all add: algebra_simps)

lemma foldl_digit_chars:
  "set ds \<subseteq> {..<10} \<Longrightarrow>
   foldl (\<lambda>n c. n * 10 + ucast c - 48) (of_nat k :: u32) (map digit_char ds) = of_nat (foldl (\<lambda>n d. n * 10 + d) k ds)"
proof (induction ds arbitrary: k)
  case (Cons d ds)
  have "unat (digit_char d) = 48 + d" using Cons.prems by simp
  then have "(ucast (digit_char d) :: u32) = of_nat (48 + d)" by (metis of_nat_unat)
  then have "(of_nat k * 10 + ucast (digit_char d) - 48 :: u32) = of_nat (k * 10 + d)" by simp
  with Cons show ?case by (metis (no_types, lifting) foldl_Cons insert_subset list.set(2) list.simps(9))
qed simp

lemma atoi_from_digits:
  assumes "\<forall>c \<in> set ds. 48 \<le> c \<and> c \<le> 57" "\<forall>k < length ds. s (i + k) = ds ! k" "s (i + length ds) = 0"
  shows "atoi_from s i n = Some (foldl (\<lambda>n c. n * 10 + ucast c - 48) n ds)"
  using assms
proof (induction ds arbitrary: i n)
  case Nil
  then show ?case by (subst atoi_from.simps) simp
next
  case (Cons c ds)
  have "s i = c" using Cons.prems(2) by force
  moreover have "atoi_from s (Suc i) (n * 10 + ucast c - 48) = Some (foldl (\<lambda>n c. n * 10 + ucast c - 48) (n * 10 + ucast c - 48) ds)"
    using Cons.prems by (intro Cons.IH) auto
  ultimately show ?case using Cons.prems(1) by (subst atoi_from.simps) simp
qed

text \<open>\<open>atoi\<close> reads back what \<open>printf\<close> printed with \<open>%d\<close>, for every non-negative \<open>int\<close>.\<close>

theorem atoi_printint:
  assumes "0 \<le> sint xx"
  shows "\<exists>ds. u_printint xx 10 True = Ok ds \<and> atoi (arr (ds @ [0])) = Some xx"
proof -
  define n where "n = magnitude xx"
  have "unat xx = n" using assms unat_magnitude [of xx] by (simp add: n_def)
  then have xx: "of_nat n = xx" by (metis of_nat_unat ucast_id)
  have u: "u_printint xx 10 True = Ok (decimal n)" using assms by (simp add: printint_decimal_eq n_def)
  have "atoi (arr (decimal n @ [0])) = Some (foldl (\<lambda>n c. n * 10 + ucast c - 48) 0 (decimal n))"
    unfolding atoi_def by (intro atoi_from_digits) (auto simp: arr_def nth_append dest: decimal_digits)
  also have "foldl (\<lambda>n c. n * 10 + ucast c - 48) 0 (decimal n) = (of_nat n :: u32)"
    using foldl_digit_chars [of "rev (numeral_of 10 n)" 0] numeral_digits [of 10 _ n] foldl_value [of 10 0 "numeral_of 10 n"]
    by (auto simp: decimal_def value_numeral)
  finally show ?thesis using u xx by blast
qed

theorem atoi_printint_witness:
  "u_printint 2047 10 True = Ok [50, 48, 52, 55] \<and> atoi (arr [50, 48, 52, 55, 0]) = Some 2047"
proof -
  have p: "u_printint 2047 10 True = Ok [50, 48, 52, 55]"
    by (simp add: u_printint_def put_digits.simps digits_upper_def sint_u32_cases)
  obtain ds where "u_printint 2047 10 True = Ok ds" "atoi (arr (ds @ [0])) = Some 2047"
    using atoi_printint [of 2047] by (auto simp: sint_u32_cases)
  with p show ?thesis by simp
qed

section \<open>The two formatters\<close>

text \<open>No directive of the format is one of \<open>D\<close>.\<close>

fun without :: "u8 set \<Rightarrow> u8 list \<Rightarrow> bool" where
  "without D [] \<longleftrightarrow> True"
| "without D [c] \<longleftrightarrow> True"
| "without D (c # d # fmt) \<longleftrightarrow> (if c \<noteq> Percent then without D (d # fmt) else d \<notin> D \<and> without D fmt)"

lemma sint_ascii: "c < 128 \<Longrightarrow> sint (c :: u8) = uint c"
  by (simp add: sint_uint signed_take_bit_int_eq_self word_less_def order_trans [OF _ uint_ge_0])



end
