(* ===== verification/Display.thy ===== *)
theory Display
  imports Printf
begin

text \<open>
  Console output: the frame buffer (\<open>graphic.c\<close>, \<open>font.c\<close>), the serial port (\<open>uart.c\<close>) and, of
  \<open>console.c\<close>, \<open>graphic_putc\<close>, \<open>consputc\<close>, \<open>cprintf\<close> and \<open>panic\<close>.

  The frame buffer is the memory from \<open>vvram_addr\<close> on; the glyphs of \<open>font_bin.h\<close>, 95 rows of 30
  scan lines, are the argument \<open>font\<close>.  \<open>dp_tx\<close> are the bytes sent to the serial port, oldest
  first; waiting for the port to be ready takes time only.  A processor that calls \<open>consputc\<close> after
  a panic stops: \<open>Sleeps (ChSpin _)\<close>.

  The main result is that console output never writes outside the frame buffer.
\<close>

section \<open>graphic.c\<close>

record graphic_config =
  frame_base :: "64 word"
  frame_size :: "64 word"
  gc_horizontal_resolution :: "64 word"
  gc_vertical_resolution :: "64 word"
  gc_pixels_per_line :: "64 word"

record gpu =
  pvram_addr :: u32
  vvram_addr :: u32
  vram_size :: u32
  horizontal_resolution :: u32
  vertical_resolution :: u32
  pixels_per_line :: u32

record graphic_pixel =
  px_blue :: u8
  px_green :: u8
  px_red :: u8
  px_black :: u8

definition graphic_init :: "graphic_config \<Rightarrow> gpu" where
  "graphic_init gc =
     \<lparr>pvram_addr = ucast (frame_base gc),
      vvram_addr = 0xFE000000 - ucast (frame_size gc),
      vram_size = ucast (frame_size gc),
      horizontal_resolution = ucast (gc_horizontal_resolution gc AND 0xFFFFFFFF),
      vertical_resolution = ucast (gc_vertical_resolution gc AND 0xFFFFFFFF),
      pixels_per_line = ucast (gc_pixels_per_line gc AND 0xFFFFFFFF)\<rparr>"

definition graphic_draw_pixel :: "gpu \<Rightarrow> int \<Rightarrow> int \<Rightarrow> graphic_pixel \<Rightarrow> mem \<Rightarrow> mem" where
  "graphic_draw_pixel g x y px m =
     (let pixel_addr = 4 * (of_int y * pixels_per_line g + of_int x);
          pixel = vvram_addr g + pixel_addr
      in m(pixel := px_blue px, pixel + 1 := px_green px, pixel + 2 := px_red px))"

definition graphic_scroll_up :: "gpu \<Rightarrow> int \<Rightarrow> mem \<Rightarrow> mem" where
  "graphic_scroll_up g height m =
     (let addr_diff = 4 * pixels_per_line g * of_int height;
          m = memmove (vvram_addr g) (vvram_addr g + addr_diff) (vram_size g - addr_diff) m
      in memset (vvram_addr g + vram_size g - addr_diff) 0 addr_diff m)"

section \<open>font.c\<close>

definition black_pixel :: graphic_pixel where
  "black_pixel = \<lparr>px_blue = 0, px_green = 0, px_red = 0, px_black = 0\<rparr>"

definition white_pixel :: graphic_pixel where
  "white_pixel = \<lparr>px_blue = 0xFF, px_green = 0xFF, px_red = 0xFF, px_black = 0\<rparr>"

type_synonym font_table = "u16 list list"

definition font_dot :: "font_table \<Rightarrow> gpu \<Rightarrow> int \<Rightarrow> int \<Rightarrow> int \<Rightarrow> nat \<Rightarrow> nat \<Rightarrow> mem \<Rightarrow> mem" where
  "font_dot font g x y index i j m =
     graphic_draw_pixel g (x + (14 - int j)) (y + int i)
       (if bit (font ! nat (index - 0x20) ! i) j then white_pixel else black_pixel) m"

definition font_render :: "font_table \<Rightarrow> gpu \<Rightarrow> int \<Rightarrow> int \<Rightarrow> int \<Rightarrow> mem \<Rightarrow> mem outcome" where
  "font_render font g x y index m =
     (if index < 0x20 \<or> 95 \<le> index - 0x20 then Undef ''font_bin''
      else Ok (fold (\<lambda>i m. fold (\<lambda>j m. font_dot font g x y index i j m) (rev [0..<15]) m) [0..<30] m))"

fun font_render_string :: "font_table \<Rightarrow> gpu \<Rightarrow> int \<Rightarrow> nat \<Rightarrow> u8 list \<Rightarrow> mem \<Rightarrow> mem outcome" where
  "font_render_string font g row i [] m = Ok m"
| "font_render_string font g row i (c # cs) m =
     (if 52 \<le> i then Ok m
      else bnd (font_render font g (int i * 15 + 2) (row * 30) (sint c) m)
             (font_render_string font g row (Suc i) cs))"

section \<open>uart.c\<close>

record display =
  dp_gpu :: gpu
  dp_mem :: mem
  dp_pos :: int
  dp_uart :: bool
  dp_tx :: "u8 list"
  dp_panicked :: bool

definition uartputc :: "int \<Rightarrow> display \<Rightarrow> display" where
  "uartputc c d = (if dp_uart d then d\<lparr>dp_tx := dp_tx d @ [of_int c]\<rparr> else d)"

text \<open>\<open>lsr\<close> and \<open>rbr\<close> are what the line status and the receive register hold.\<close>

definition uartgetc :: "bool \<Rightarrow> u8 \<Rightarrow> u8 \<Rightarrow> int" where
  "uartgetc uart lsr rbr = (if \<not> uart then -1 else if lsr AND 1 = 0 then -1 else uint rbr)"

section \<open>Output of console.c\<close>

abbreviation (input) BACKSPACE :: int where "BACKSPACE \<equiv> 0x100"
abbreviation (input) CONSOLE_HORIZONTAL_MAX :: int where "CONSOLE_HORIZONTAL_MAX \<equiv> 53"
abbreviation (input) CONSOLE_VERTICAL_MAX :: int where "CONSOLE_VERTICAL_MAX \<equiv> 20"

definition scroll_line :: "display \<Rightarrow> display" where
  "scroll_line d = d\<lparr>dp_pos := dp_pos d - CONSOLE_HORIZONTAL_MAX, dp_mem := graphic_scroll_up (dp_gpu d) 30 (dp_mem d)\<rparr>"

definition graphic_putc :: "font_table \<Rightarrow> int \<Rightarrow> display \<Rightarrow> display outcome" where
  "graphic_putc font c d =
     (if c = 10 then
        (let d = d\<lparr>dp_pos := dp_pos d + (CONSOLE_HORIZONTAL_MAX - dp_pos d mod CONSOLE_HORIZONTAL_MAX)\<rparr> in
         if dp_pos d \<ge> CONSOLE_VERTICAL_MAX * CONSOLE_HORIZONTAL_MAX then Ok (scroll_line d) else Ok d)
      else if c = BACKSPACE then Ok (if dp_pos d > 0 then d\<lparr>dp_pos := dp_pos d - 1\<rparr> else d)
      else
        (let d = (if dp_pos d \<ge> CONSOLE_VERTICAL_MAX * CONSOLE_HORIZONTAL_MAX then scroll_line d else d);
             x = (dp_pos d mod CONSOLE_HORIZONTAL_MAX) * 15 + 2;
             y = (dp_pos d div CONSOLE_HORIZONTAL_MAX) * 30
         in bnd (font_render font (dp_gpu d) x y c (dp_mem d)) (\<lambda>m. Ok (d\<lparr>dp_mem := m, dp_pos := dp_pos d + 1\<rparr>))))"

definition consputc :: "font_table \<Rightarrow> int \<Rightarrow> display \<Rightarrow> display outcome" where
  "consputc font c d =
     (if dp_panicked d then Sleeps (ChSpin ''panicked'')
      else
        (let d = (if c = BACKSPACE then uartputc 8 (uartputc 32 (uartputc 8 d)) else uartputc c d)
         in graphic_putc font c d))"

definition cprintf :: "font_table \<Rightarrow> (u32 \<Rightarrow> u8 list) \<Rightarrow> u8 list option \<Rightarrow> u32 list \<Rightarrow> display \<Rightarrow> display outcome" where
  "cprintf font str fmt args d =
     (case fmt of
        None \<Rightarrow> Panic ''null fmt''
      | Some fmt \<Rightarrow> bnd (cprintf_loop str fmt args) (\<lambda>cs. for_each (consputc font) cs d))"

definition chars :: "string \<Rightarrow> u8 list" where
  "chars s = map (of_nat \<circ> of_char) s"

text \<open>\<open>panic\<close>: the display when the processor stops.  The message is itself a format.\<close>

definition panic :: "font_table \<Rightarrow> (u32 \<Rightarrow> u8 list) \<Rightarrow> u32 \<Rightarrow> u8 list \<Rightarrow> u32 list \<Rightarrow> display \<Rightarrow> display outcome" where
  "panic font str lapicid s pcs d =
     bnd (cprintf font str (Some (chars ''lapicid %d: panic: '')) [lapicid] d) (\<lambda>d.
     bnd (cprintf font str (Some s) [] d) (\<lambda>d.
     bnd (cprintf font str (Some [10]) [] d) (\<lambda>d.
     bnd (for_each (\<lambda>pc. cprintf font str (Some (chars '' %p'')) [pc]) (take 10 pcs) d) (\<lambda>d.
     Ok (d\<lparr>dp_panicked := True\<rparr>)))))"

definition console_puts :: "font_table \<Rightarrow> u8 list \<Rightarrow> display \<Rightarrow> display outcome" where
  "console_puts font buf d = for_each (\<lambda>b. consputc font (uint b)) buf d"

section \<open>Output stays in the frame buffer\<close>

text \<open>A display of at least 800 by 600 pixels whose frame buffer lies below \<open>DEVSPACE\<close>.\<close>

definition big_enough :: "gpu \<Rightarrow> bool" where
  "big_enough g \<longleftrightarrow>
     797 \<le> unat (pixels_per_line g) \<and> 4 * unat (pixels_per_line g) * 600 \<le> unat (vram_size g) \<and>
     unat (vvram_addr g) + unat (vram_size g) \<le> 0xFE000000"

text \<open>What changes: nothing outside the frame buffer, and the position stays on the screen.\<close>

definition display_ok :: "display \<Rightarrow> bool" where
  "display_ok d \<longleftrightarrow> 0 \<le> dp_pos d \<and> dp_pos d \<le> CONSOLE_VERTICAL_MAX * CONSOLE_HORIZONTAL_MAX \<and> big_enough (dp_gpu d)"

definition same_outside :: "gpu \<Rightarrow> mem \<Rightarrow> mem \<Rightarrow> bool" where
  "same_outside g m m' \<longleftrightarrow> (\<forall>a. \<not> in_range a (vvram_addr g) (unat (vram_size g)) \<longrightarrow> m' a = m a)"

definition contained :: "display \<Rightarrow> display \<Rightarrow> bool" where
  "contained d d' \<longleftrightarrow> display_ok d' \<and> dp_gpu d' = dp_gpu d \<and> same_outside (dp_gpu d) (dp_mem d) (dp_mem d')"

lemma same_outside_refl [simp]: "same_outside g m m"
  by (simp add: same_outside_def)

lemma same_outside_trans: "same_outside g m m' \<Longrightarrow> same_outside g m' m'' \<Longrightarrow> same_outside g m m''"
  by (simp add: same_outside_def)

lemma contained_trans: "contained d d' \<Longrightarrow> contained d' d'' \<Longrightarrow> contained d d''"
  by (auto simp: contained_def intro: same_outside_trans)

lemma in_vram:
  assumes "a = vvram_addr g + of_nat k" "k < unat (vram_size g)"
  shows "in_range a (vvram_addr g) (unat (vram_size g))"
proof -
  have "k < 4294967296" using assms(2) unat_u32_bound [of "vram_size g"] by linarith
  then have "unat (of_nat k :: u32) = k" by (simp add: unat_of_nat)
  then show ?thesis using assms by (simp add: in_range_def)
qed

lemma draw_pixel_contained:
  assumes g: "big_enough g" and "0 \<le> x" "x < 797" "0 \<le> y" "y < 600"
  shows "same_outside g m (graphic_draw_pixel g x y px m)"
proof -
  define k where "k = 4 * (nat y * unat (pixels_per_line g) + nat x)"
  have le: "nat y * unat (pixels_per_line g) + unat (pixels_per_line g) \<le> 600 * unat (pixels_per_line g)"
  proof -
    have "Suc (nat y) \<le> 600" using assms(4,5) by linarith
    from mult_le_mono1 [OF this, of "unat (pixels_per_line g)"] show ?thesis by simp
  qed
  have "k + 3 < 4 * unat (pixels_per_line g) * 600"
  proof -
    have "nat x \<le> 796" "797 \<le> unat (pixels_per_line g)" using g assms(2,3) by (auto simp: big_enough_def)
    moreover have "4 * (q + a) + 3 < 4 * r * 600" if "q + r \<le> 600 * r" "a \<le> 796" "797 \<le> r" for q a r :: nat
    proof -
      have "4 * q \<le> 2396 * r" "4 * a + 3 < 4 * r" using that by simp_all
      then show ?thesis by simp
    qed
    ultimately show ?thesis using le unfolding k_def by blast
  qed
  then have k: "k + 3 < unat (vram_size g)" using g by (simp add: big_enough_def)
  have addr: "vvram_addr g + 4 * (of_int y * pixels_per_line g + of_int x) = vvram_addr g + of_nat k"
    using assms by (simp add: k_def)
  have "in_range (vvram_addr g + of_nat (k + j)) (vvram_addr g) (unat (vram_size g))" if "j < 3" for j
    using k that by (intro in_vram [OF refl]) simp
  from this [of 0] this [of 1] this [of 2]
  show ?thesis unfolding same_outside_def graphic_draw_pixel_def Let_def addr
    by (auto simp: algebra_simps)
qed

lemma fold_contained:
  assumes "\<And>i m. i \<in> set is \<Longrightarrow> same_outside g m (f i m)"
  shows "same_outside g m (fold f is m)"
  using assms by (induction "is" arbitrary: m) (auto intro: same_outside_trans)

lemma font_render_contained:
  assumes g: "big_enough g" and "0 \<le> x" "x \<le> 782" "0 \<le> y" "y \<le> 570"
    and r: "font_render font g x y c m = Ok m'"
  shows "same_outside g m m'"
proof -
  have "same_outside g m (font_dot font g x y c i j m)" if "i < 30" "j < 15" for i j m
    unfolding font_dot_def using assms that by (intro draw_pixel_contained) auto
  then have "same_outside g m (fold (\<lambda>i m. fold (\<lambda>j m. font_dot font g x y c i j m) (rev [0..<15]) m) [0..<30] m)"
    by (intro fold_contained) auto
  then show ?thesis using r by (simp add: font_render_def split: if_splits)
qed

lemma scroll_contained:
  assumes g: "big_enough g"
  shows "same_outside g m (graphic_scroll_up g 30 m)"
proof -
  define p where "p = unat (pixels_per_line g)"
  define s where "s = unat (vram_size g)"
  define v where "v = unat (vvram_addr g)"
  have b: "4 * p * 600 \<le> s" "v + s \<le> 0xFE000000" using g by (simp_all add: big_enough_def p_def s_def v_def)
  define diff where "diff = 4 * pixels_per_line g * (30 :: u32)"
  have "unat diff = (4 * p * 30) mod 2 ^ 32"
    unfolding diff_def p_def by (simp add: unat_word_ariths mod_mult_left_eq mod_mult_right_eq)
  then have d: "unat diff = 120 * p" using b by simp
  have le: "diff \<le> vram_size g" using d b by (simp add: word_le_nat_alt s_def)
  have n: "unat (vram_size g - diff) = s - 120 * p" using le d by (simp add: unat_sub s_def)
  have src: "unat (vvram_addr g + diff) = v + 120 * p"
    using b d by (subst unat_add_nowrap) (simp_all add: v_def)
  have dst: "unat (vvram_addr g + (vram_size g - diff)) = v + (s - 120 * p)"
    using b d n by (subst unat_add_nowrap) (simp_all add: v_def)
  have sum: "unat (vvram_addr g + diff) + unat (vram_size g - diff) \<le> 4294967296"
      "unat (vvram_addr g) + unat (vram_size g - diff) \<le> 4294967296"
    using b src n by (simp_all add: v_def)
  have "in_range a (vvram_addr g) s" if "in_range a (vvram_addr g) (s - 120 * p)" for a
    using that by (simp add: in_range_def)
  moreover have "in_range a (vvram_addr g) s" if r: "in_range a (vvram_addr g + vram_size g - diff) (unat diff)" for a
  proof -
    define k where "k = unat (a - (vvram_addr g + (vram_size g - diff)))"
    have "k < 120 * p" using r d by (simp add: in_range_def k_def algebra_simps)
    moreover have "a = vvram_addr g + of_nat ((s - 120 * p) + k)"
    proof -
      have "of_nat (s - 120 * p) = vram_size g - diff" using n by (metis of_nat_unat ucast_id)
      then show ?thesis by (simp add: k_def)
    qed
    moreover have "s - 120 * p + k < s" using b \<open>k < 120 * p\<close> by linarith
    ultimately show ?thesis using in_vram [of a g "s - 120 * p + k"] by (simp only: s_def)
  qed
  ultimately show ?thesis
    unfolding same_outside_def graphic_scroll_up_def
    by (auto simp: diff_def [symmetric] memset_apply memmove_apply [OF sum] n s_def [symmetric])
qed

lemma scroll_line_contained:
  assumes "big_enough (dp_gpu d)" "CONSOLE_HORIZONTAL_MAX \<le> dp_pos d"
    "dp_pos d \<le> (CONSOLE_VERTICAL_MAX + 1) * CONSOLE_HORIZONTAL_MAX"
  shows "contained d (scroll_line d)"
  using assms scroll_contained [of "dp_gpu d" "dp_mem d"] by (simp add: contained_def scroll_line_def display_ok_def)

lemma graphic_putc_contained:
  assumes ok: "display_ok d" and r: "graphic_putc font c d = Ok d'"
  shows "contained d d'"
proof -
  have p: "0 \<le> dp_pos d" "dp_pos d \<le> 1060" and g: "big_enough (dp_gpu d)" using ok by (auto simp: display_ok_def)
  consider (nl) "c = 10" | (bs) "c = BACKSPACE" | (ch) "c \<noteq> 10" "c \<noteq> BACKSPACE" by blast
  then show ?thesis
  proof cases
    case nl
    define e where "e = d\<lparr>dp_pos := dp_pos d + (53 - dp_pos d mod 53)\<rparr>"
    have e: "53 \<le> dp_pos e" "dp_pos e \<le> 21 * 53" "dp_gpu e = dp_gpu d" "dp_mem e = dp_mem d"
    proof -
      have "dp_pos d = dp_pos d div 53 * 53 + dp_pos d mod 53" by simp
      moreover have "0 \<le> dp_pos d mod 53" "dp_pos d mod 53 < 53" by simp_all
      moreover have "0 \<le> dp_pos d div 53" "dp_pos d div 53 \<le> 20"
        using p zdiv_mono1 [of "dp_pos d" 1060 53] by (simp_all add: pos_imp_zdiv_nonneg_iff)
      ultimately have "53 \<le> dp_pos d + (53 - dp_pos d mod 53)" "dp_pos d + (53 - dp_pos d mod 53) \<le> 21 * 53"
        by linarith+
      then show "53 \<le> dp_pos e" "dp_pos e \<le> 21 * 53" by (simp_all add: e_def)
    qed (simp_all add: e_def)
    have "d' = (if dp_pos e \<ge> 1060 then scroll_line e else e)"
      using r nl by (simp add: graphic_putc_def e_def Let_def split: if_splits)
    moreover have "contained e (scroll_line e)" using e g by (intro scroll_line_contained) simp_all
    ultimately show ?thesis using e g by (auto simp: contained_def display_ok_def)
  next
    case bs
    then show ?thesis using r p g by (auto simp: graphic_putc_def contained_def display_ok_def)
  next
    case ch
    define e where "e = (if dp_pos d \<ge> 1060 then scroll_line d else d)"
    have ce: "contained d e"
      using ok p g scroll_line_contained [of d] by (auto simp: e_def contained_def)
    have e: "0 \<le> dp_pos e" "dp_pos e \<le> 1059" using p by (auto simp: e_def scroll_line_def)
    have xy: "0 \<le> dp_pos e mod 53 * 15 + 2" "dp_pos e mod 53 * 15 + 2 \<le> 782"
        "0 \<le> dp_pos e div 53 * 30" "dp_pos e div 53 * 30 \<le> 570"
    proof -
      have "0 \<le> dp_pos e mod 53" "dp_pos e mod 53 < 53" by simp_all
      moreover have "0 \<le> dp_pos e div 53" "dp_pos e div 53 \<le> 19"
        using e zdiv_mono1 [of "dp_pos e" 1059 53] by (simp_all add: pos_imp_zdiv_nonneg_iff)
      ultimately show "0 \<le> dp_pos e mod 53 * 15 + 2" "dp_pos e mod 53 * 15 + 2 \<le> 782"
        "0 \<le> dp_pos e div 53 * 30" "dp_pos e div 53 * 30 \<le> 570" by linarith+
    qed
    obtain m where m: "font_render font (dp_gpu e) (dp_pos e mod 53 * 15 + 2) (dp_pos e div 53 * 30) c (dp_mem e) = Ok m"
        "d' = e\<lparr>dp_mem := m, dp_pos := dp_pos e + 1\<rparr>"
      using r ch by (auto simp: graphic_putc_def e_def [symmetric] Let_def outcome_simps simp del: One_nat_def)
    have "big_enough (dp_gpu e)" using ce g by (simp add: contained_def)
    from font_render_contained [OF this xy m(1)] have "same_outside (dp_gpu e) (dp_mem e) m" .
    then have "contained e d'" using e m(2) \<open>big_enough (dp_gpu e)\<close> by (simp add: contained_def display_ok_def)
    with ce show ?thesis by (rule contained_trans)
  qed
qed

lemma consputc_contained:
  assumes ok: "display_ok d" and r: "consputc font c d = Ok d'"
  shows "contained d d'"
proof -
  define e where "e = (if c = BACKSPACE then uartputc 8 (uartputc 32 (uartputc 8 d)) else uartputc c d)"
  have e: "dp_gpu e = dp_gpu d" "dp_mem e = dp_mem d" "dp_pos e = dp_pos d"
    by (simp_all add: e_def uartputc_def)
  have "graphic_putc font c e = Ok d'" using r by (simp add: consputc_def e_def [symmetric] Let_def split: if_splits)
  moreover have "display_ok e" using ok e by (simp add: display_ok_def)
  ultimately have "contained e d'" using graphic_putc_contained by blast
  then show ?thesis using e by (simp add: contained_def)
qed

lemma for_each_contained:
  assumes "\<And>x d d'. display_ok d \<Longrightarrow> f x d = Ok d' \<Longrightarrow> contained d d'"
  shows "display_ok d \<Longrightarrow> for_each f xs d = Ok d' \<Longrightarrow> contained d d'"
proof (induction xs arbitrary: d)
  case Nil
  then show ?case by (simp add: contained_def)
next
  case (Cons x xs)
  then obtain e where e: "f x d = Ok e" "for_each f xs e = Ok d'" by (auto simp: outcome_simps)
  have "contained d e" using assms Cons.prems e by blast
  moreover from this have "contained e d'" using Cons.IH [of e] e by (simp add: contained_def)
  ultimately show ?case by (rule contained_trans)
qed

text \<open>Printable characters and newlines can always be printed.\<close>

lemma graphic_putc_printable:
  assumes "c = 10 \<or> c = BACKSPACE \<or> 0x20 \<le> c \<and> c < 0x7F"
  shows "\<exists>d'. graphic_putc font c d = Ok d'"
  using assms by (auto simp: graphic_putc_def font_render_def Let_def)

lemma consputc_printable:
  assumes "c = 10 \<or> c = BACKSPACE \<or> 0x20 \<le> c \<and> c < 0x7F" "\<not> dp_panicked d"
  shows "\<exists>d'. consputc font c d = Ok d' \<and> \<not> dp_panicked d'"
proof -
  define e where "e = (if c = BACKSPACE then uartputc 8 (uartputc 32 (uartputc 8 d)) else uartputc c d)"
  have e: "\<not> dp_panicked e" using assms(2) by (simp add: e_def uartputc_def)
  obtain d' where d': "graphic_putc font c e = Ok d'" using graphic_putc_printable [OF assms(1)] by blast
  then have "dp_panicked d' = dp_panicked e"
    by (auto simp: graphic_putc_def scroll_line_def Let_def outcome_simps split: if_splits)
  then show ?thesis using assms(2) d' e by (simp add: consputc_def e_def [symmetric] Let_def)
qed

text \<open>C25: console output is confined to the frame buffer.  On a display of 800 by 600 pixels or more, writing any sequence of printable characters and newlines succeeds, changes no memory outside the frame buffer (scrolling included), and leaves the cursor on the screen.\<close>

theorem console_output_in_frame_buffer:
  assumes "display_ok d" "\<not> dp_panicked d" "\<And>b. b \<in> set bs \<Longrightarrow> b = 10 \<or> 0x20 \<le> b \<and> b < 0x7F"
  shows "\<exists>d'. console_puts font bs d = Ok d' \<and> display_ok d' \<and>
    (\<forall>a. \<not> in_range a (vvram_addr (dp_gpu d)) (unat (vram_size (dp_gpu d))) \<longrightarrow> dp_mem d' a = dp_mem d a)"
proof -
  have "\<exists>d'. console_puts font bs d = Ok d'" using assms(2,3)
  proof (induction bs arbitrary: d)
    case (Cons b bs)
    have "uint b = 10 \<or> uint b = BACKSPACE \<or> 0x20 \<le> uint b \<and> uint b < 0x7F"
      using Cons.prems(2) [of b] by (auto simp: word_le_def word_less_def)
    from consputc_printable [OF this Cons.prems(1)] obtain e
      where "consputc font (uint b) d = Ok e" "\<not> dp_panicked e" by blast
    with Cons show ?case by (simp add: console_puts_def)
  qed (simp add: console_puts_def)
  then obtain d' where d': "console_puts font bs d = Ok d'" ..
  have "contained d d'"
    using for_each_contained [of "\<lambda>b. consputc font (uint b)", OF consputc_contained assms(1)] d'
    by (simp add: console_puts_def)
  with d' show ?thesis by (auto simp: contained_def same_outside_def)
qed

text \<open>The text \<open>ok\<close> and a newline, at the bottom of an 800 by 600 screen: the last two scroll.\<close>

definition demo_gpu :: gpu where
  "demo_gpu = \<lparr>pvram_addr = 0x80000000, vvram_addr = 0xFE000000 - 1920000, vram_size = 1920000,
     horizontal_resolution = 800, vertical_resolution = 600, pixels_per_line = 800\<rparr>"

definition demo_display :: display where
  "demo_display = \<lparr>dp_gpu = demo_gpu, dp_mem = (\<lambda>a. 7), dp_pos = 1060, dp_uart = True, dp_tx = [], dp_panicked = False\<rparr>"

theorem console_output_in_frame_buffer_witness:
  "\<exists>d'. console_puts (replicate 95 (replicate 30 0)) [111, 107, 10] demo_display = Ok d' \<and> dp_mem d' 0x1000 = 7"
proof -
  have "display_ok demo_display" "\<not> dp_panicked demo_display"
    by (simp_all add: display_ok_def demo_display_def demo_gpu_def big_enough_def)
  moreover have "\<And>b :: u8. b \<in> set [111, 107, 10] \<Longrightarrow> b = 10 \<or> 0x20 \<le> b \<and> b < 0x7F" by auto
  ultimately have "\<exists>d'. console_puts (replicate 95 (replicate 30 0)) [111, 107, 10] demo_display = Ok d' \<and> display_ok d' \<and>
    (\<forall>a. \<not> in_range a (vvram_addr (dp_gpu demo_display)) (unat (vram_size (dp_gpu demo_display))) \<longrightarrow>
      dp_mem d' a = dp_mem demo_display a)"
    by (rule console_output_in_frame_buffer)
  then obtain d' where d': "console_puts (replicate 95 (replicate 30 0)) [111, 107, 10] demo_display = Ok d'"
    "\<forall>a. \<not> in_range a (vvram_addr (dp_gpu demo_display)) (unat (vram_size (dp_gpu demo_display))) \<longrightarrow>
       dp_mem d' a = dp_mem demo_display a" by blast
  have "\<not> in_range 0x1000 (vvram_addr (dp_gpu demo_display)) (unat (vram_size (dp_gpu demo_display)))"
    by (simp add: in_range_def demo_display_def demo_gpu_def)
  with d' have "dp_mem d' 0x1000 = 7" by (simp add: demo_display_def)
  with d' show ?thesis by blast
qed

text \<open>
  A control character reaches the glyph table with an index outside it: the tabulator, typed or
  printed, makes \<open>font_render\<close> read before \<open>font_bin\<close>.
\<close>

lemma consputc_control_char: "\<not> dp_panicked d \<Longrightarrow> consputc font 9 d = Undef ''font_bin''"
  by (simp add: consputc_def graphic_putc_def font_render_def Let_def)

end
