(* ===== verification/Console.thy ===== *)
theory Console
  imports Ring Display
begin

text \<open>
  Console input: \<open>consoleintr\<close> and the loop of \<open>consoleread\<close> of \<open>console.c\<close>.  The buffer holds the
  bytes from the read index \<open>r\<close> to the edit index \<open>e\<close>; those up to the write index \<open>w\<close> are ready
  for readers, the rest is the line being edited.

  \<open>cons.lock\<close> is held throughout \<open>consoleintr\<close> and released by \<open>consoleread\<close> only in \<open>sleep\<close>, so both
  are sequences of atomic pieces.  \<open>Console_Dev\<close> puts them into the kernel.

  The specification is a pair of lists, the bytes ready and the line under way; \<open>key\<close> is what a
  key does to it, \<open>line_read\<close> what a reader takes.
\<close>

abbreviation (input) INPUT_BUF :: nat where "INPUT_BUF \<equiv> 128"

record consin =
  in_buf :: "u8 list"
  in_r :: u32
  in_w :: u32
  in_e :: u32

section \<open>console.c\<close>

record console =
  con_in :: consin
  con_disp :: display

definition in_put :: "u8 \<Rightarrow> consin \<Rightarrow> consin" where
  "in_put b s = s\<lparr>in_buf := (in_buf s)[unat (in_e s) mod INPUT_BUF := b], in_e := in_e s + 1\<rparr>"

definition in_get :: "consin \<Rightarrow> u8 \<times> consin" where
  "in_get s = (in_buf s ! (unat (in_r s) mod INPUT_BUF), s\<lparr>in_r := in_r s + 1\<rparr>)"

definition in_erase :: "consin \<Rightarrow> consin" where
  "in_erase s = s\<lparr>in_e := in_e s - 1\<rparr>"

definition in_full :: "consin \<Rightarrow> bool" where
  "in_full s \<longleftrightarrow> \<not> in_e s - in_r s < of_nat INPUT_BUF"

lemma unat_pred_less: "a \<noteq> b \<Longrightarrow> unat (a - 1 - b :: u32) < unat (a - b)"
proof -
  assume "a \<noteq> b"
  then have "a - b \<noteq> 0" by simp
  then have "unat (a - b - 1) = unat (a - b) - 1" "0 < unat (a - b)" by (simp_all add: unat_minus_one unat_gt_0)
  then show ?thesis by (simp add: algebra_simps)
qed

text \<open>\<open>C('U')\<close>: erase up to the previous newline.\<close>

function kill_line :: "font_table \<Rightarrow> console \<Rightarrow> console outcome" where
  "kill_line font s =
     (let i = con_in s in
      if in_e i \<noteq> in_w i \<and> in_buf i ! (unat (in_e i - 1) mod INPUT_BUF) \<noteq> 10 then
        (case consputc font BACKSPACE (con_disp s) of
           Ok d \<Rightarrow> kill_line font \<lparr>con_in = in_erase i, con_disp = d\<rparr>
         | Panic e \<Rightarrow> Panic e | Sleeps ch \<Rightarrow> Sleeps ch | Undef u \<Rightarrow> Undef u)
      else Ok s)"
  by pat_completeness auto

termination
  by (relation "measure (\<lambda>(font, s). unat (in_e (con_in s) - in_w (con_in s)))") (auto simp: in_erase_def unat_pred_less)

declare kill_line.simps [simp del]

text \<open>One turn of the loop of \<open>consoleintr\<close>; the flags tell whether to list the processes and whether readers were woken.\<close>

definition con_key :: "font_table \<Rightarrow> int \<Rightarrow> console \<Rightarrow> (bool \<times> bool \<times> console) outcome" where
  "con_key font c s =
     (let i = con_in s in
      if c = 16 then Ok (True, False, s)
      else if c = 21 then bnd (kill_line font s) (\<lambda>s. Ok (False, False, s))
      else if c = 8 \<or> c = 0x7F then
        (if in_e i \<noteq> in_w i then
           bnd (consputc font BACKSPACE (con_disp s)) (\<lambda>d. Ok (False, False, \<lparr>con_in = in_erase i, con_disp = d\<rparr>))
         else Ok (False, False, s))
      else if c \<noteq> 0 \<and> \<not> in_full i then
        (let c = (if c = 13 then 10 else c); i = in_put (of_int c) i in
         bnd (consputc font c (con_disp s)) (\<lambda>d.
         if c = 10 \<or> c = 4 \<or> in_e i = in_r i + of_nat INPUT_BUF
         then Ok (False, True, \<lparr>con_in = i\<lparr>in_w := in_e i\<rparr>, con_disp = d\<rparr>)
         else Ok (False, False, \<lparr>con_in = i, con_disp = d\<rparr>)))
      else Ok (False, False, s))"

text \<open>\<open>consoleintr\<close> on the characters \<open>getc\<close> returns before the first negative result.\<close>

fun consoleintr :: "font_table \<Rightarrow> int list \<Rightarrow> console \<Rightarrow> (bool \<times> bool \<times> console) outcome" where
  "consoleintr font [] s = Ok (False, False, s)"
| "consoleintr font (c # cs) s =
     bnd (con_key font c s) (\<lambda>(dump, woke, s).
     bnd (consoleintr font cs s) (\<lambda>(dump', woke', s). Ok (dump \<or> dump', woke \<or> woke', s)))"

text \<open>
  \<open>consoleread\<close> from the acquisition of the lock: it returns the bytes read, fails because the
  process was killed, or sleeps with some bytes read and goes on with them after the \<open>wakeup\<close>.
\<close>

datatype con_result = ReadBytes "u8 list" | ReadKilled | ReadWaits "u8 list"

fun consoleread_loop :: "nat \<Rightarrow> bool \<Rightarrow> nat \<Rightarrow> u8 list \<Rightarrow> consin \<Rightarrow> con_result \<times> consin" where
  "consoleread_loop target killed 0 got s = (ReadBytes got, s)"
| "consoleread_loop target killed (Suc n) got s =
     (if in_r s = in_w s then (if killed then (ReadKilled, s) else (ReadWaits got, s))
      else
        (let (c, s') = in_get s in
         if c = 4 then (ReadBytes got, if Suc n < target then s'\<lparr>in_r := in_r s' - 1\<rparr> else s')
         else if c = 10 then (ReadBytes (got @ [c]), s')
         else consoleread_loop target killed n (got @ [c]) s'))"

section \<open>The input buffer is a bounded queue\<close>

definition in_all :: "consin \<Rightarrow> u8 list" where
  "in_all s = ring_elems INPUT_BUF (in_buf s) (in_r s) (in_e s)"

definition in_inv :: "consin \<Rightarrow> bool" where
  "in_inv s \<longleftrightarrow> length (in_buf s) = INPUT_BUF \<and> unat (in_e s - in_r s) \<le> INPUT_BUF"

definition in_empty :: "consin \<Rightarrow> bool" where
  "in_empty s \<longleftrightarrow> in_r s = in_e s"

interpretation cq: byte_queue 128 in_inv in_all in_put in_get in_full in_empty
proof unfold_locales
  fix s :: consin and b :: u8
  assume inv: "in_inv s"
  show "length (in_all s) \<le> 128" using inv by (simp add: in_inv_def in_all_def)
  show "in_full s \<longleftrightarrow> length (in_all s) = 128"
    using inv by (auto simp: in_inv_def in_all_def in_full_def word_less_nat_alt)
  show "in_empty s \<longleftrightarrow> in_all s = []"
    by (simp add: in_empty_def in_all_def ring_elems_Nil_iff)
  show "in_inv (in_put b s) \<and> in_all (in_put b s) = in_all s @ [b]" if "\<not> in_full s"
  proof -
    have lt: "unat (in_e s - in_r s) < 128" using that by (simp add: in_full_def word_less_nat_alt)
    then have "unat (in_e s - in_r s + 1) = unat (in_e s - in_r s) + 1" by (subst unat_add_nowrap) simp_all
    then have "unat (in_e s + 1 - in_r s) \<le> 128" using lt by (simp add: algebra_simps)
    moreover have "length (in_buf s) = 128" using inv by (simp add: in_inv_def)
    ultimately show ?thesis using ring_push [of 128 "in_buf s" "in_e s" "in_r s" b] lt
      by (simp add: in_inv_def in_all_def in_put_def)
  qed
  show "in_inv (snd (in_get s)) \<and> in_all s = fst (in_get s) # in_all (snd (in_get s))" if "\<not> in_empty s"
  proof -
    have ne: "in_e s \<noteq> in_r s" using that by (simp add: in_empty_def)
    show ?thesis using inv ring_pop [OF ne [symmetric]] unat_diff_next [OF ne]
      by (simp add: in_inv_def in_all_def in_get_def)
  qed
qed

section \<open>The specification\<close>

text \<open>The bytes ready for readers and the line being edited.\<close>

definition ready :: "consin \<Rightarrow> u8 list" where
  "ready s = take (unat (in_w s - in_r s)) (in_all s)"

definition edited :: "consin \<Rightarrow> u8 list" where
  "edited s = drop (unat (in_w s - in_r s)) (in_all s)"

definition con_inv :: "consin \<Rightarrow> bool" where
  "con_inv s \<longleftrightarrow> in_inv s \<and> unat (in_w s - in_r s) \<le> unat (in_e s - in_r s) \<and> 10 \<notin> set (edited s)"

definition key :: "int \<Rightarrow> u8 list \<times> u8 list \<Rightarrow> u8 list \<times> u8 list" where
  "key c q =
     (let (rdy, l) = q in
      if c = 16 then q
      else if c = 21 then (rdy, [])
      else if c = 8 \<or> c = 0x7F then (rdy, butlast l)
      else if c \<noteq> 0 \<and> length rdy + length l < INPUT_BUF then
        (let l = l @ [if c = 13 then 10 else of_int c] in
         if c = 10 \<or> c = 13 \<or> c = 4 \<or> length rdy + length l = INPUT_BUF then (rdy @ l, []) else (rdy, l))
      else q)"

text \<open>
  What a reader of up to \<open>n\<close> bytes takes: up to a newline or \<open>^D\<close> (which it takes only when it is
  first); the flag tells whether the read is complete.
\<close>

fun line_read :: "bool \<Rightarrow> nat \<Rightarrow> u8 list \<Rightarrow> u8 list \<times> u8 list \<times> bool" where
  "line_read started 0 q = ([], q, True)"
| "line_read started (Suc n) [] = ([], [], False)"
| "line_read started (Suc n) (c # q) =
     (if c = 4 then ([], if started then c # q else q, True)
      else if c = 10 then ([c], q, True)
      else (let (l, q, done) = line_read True n q in (c # l, q, done)))"

section \<open>Editing\<close>

lemma length_in_all [simp]: "length (in_all s) = unat (in_e s - in_r s)"
  by (simp add: in_all_def)

lemma length_ready: "con_inv s \<Longrightarrow> length (ready s) = unat (in_w s - in_r s)"
  by (simp add: con_inv_def ready_def)

lemma ready_edited [simp]: "ready s @ edited s = in_all s"
  by (simp add: ready_def edited_def)

lemma edited_Nil_iff:
  assumes "con_inv s"
  shows "edited s = [] \<longleftrightarrow> in_e s = in_w s"
proof -
  have "edited s = [] \<longleftrightarrow> unat (in_e s - in_r s) = unat (in_w s - in_r s)"
    using assms by (auto simp: con_inv_def edited_def)
  also have "\<dots> \<longleftrightarrow> in_e s = in_w s" by (metis diff_add_cancel word_unat_eq_iff)
  finally show ?thesis .
qed

lemma ring_erase:
  assumes "e \<noteq> r"
  shows "ring_elems N d r (e - 1) = butlast (ring_elems N d r e)"
proof -
  have "unat (e - r) = Suc (unat (e - 1 - r))"
  proof -
    have "e - r \<noteq> 0" using assms by simp
    then have "unat (e - r - 1) = unat (e - r) - 1" "0 < unat (e - r)" by (simp_all add: unat_minus_one unat_gt_0)
    then show ?thesis by (simp add: algebra_simps)
  qed
  then show ?thesis by (simp add: ring_elems_def)
qed

lemma in_erase_fields [simp]:
  "in_r (in_erase s) = in_r s" "in_w (in_erase s) = in_w s" "in_e (in_erase s) = in_e s - 1" "in_buf (in_erase s) = in_buf s"
  by (simp_all add: in_erase_def)

lemma in_put_fields [simp]:
  "in_r (in_put b s) = in_r s" "in_w (in_put b s) = in_w s" "in_e (in_put b s) = in_e s + 1"
  by (simp_all add: in_put_def)

lemma in_erase_spec:
  assumes inv: "con_inv s" and ne: "in_e s \<noteq> in_w s"
  shows "con_inv (in_erase s) \<and> ready (in_erase s) = ready s \<and> edited (in_erase s) = butlast (edited s) \<and>
    in_w (in_erase s) = in_w s"
proof -
  have l: "edited s \<noteq> []" using inv ne by (simp add: edited_Nil_iff)
  have er: "in_e s \<noteq> in_r s"
  proof
    assume "in_e s = in_r s"
    then have "in_all s = []" by (simp add: in_all_def)
    with l show False by (simp add: edited_def)
  qed
  have all: "in_all (in_erase s) = butlast (in_all s)" using ring_erase [OF er] by (simp add: in_all_def)
  have lt: "unat (in_w s - in_r s) < unat (in_e s - in_r s)" using l by (simp add: edited_def)
  have n: "unat (in_e s - in_r s) = Suc (unat (in_e s - 1 - in_r s))"
    using arg_cong [OF all, of length] lt by simp
  have r: "ready (in_erase s) = ready s"
    using lt by (simp add: ready_def all butlast_conv_take)
  moreover have e: "edited (in_erase s) = butlast (edited s)"
    by (simp add: edited_def all butlast_drop)
  moreover have "10 \<notin> set (butlast (edited s))" using inv by (auto simp: con_inv_def dest: in_set_butlastD)
  ultimately show ?thesis
    using inv lt n unfolding con_inv_def in_inv_def by simp
qed

lemma edited_last:
  assumes inv: "con_inv s" and ne: "in_e s \<noteq> in_w s"
  shows "in_buf s ! (unat (in_e s - 1) mod 128) \<in> set (edited s)"
proof -
  have l: "edited s \<noteq> []" using inv ne by (simp add: edited_Nil_iff)
  define n where "n = unat (in_e s - in_r s)"
  have n0: "0 < n" using l by (simp add: edited_def n_def)
  have "last (in_all s) = in_buf s ! (unat (in_r s + of_nat (n - 1)) mod 128)"
    using n0 by (simp add: in_all_def ring_elems_def n_def [symmetric] last_map)
  moreover have "in_r s + of_nat (n - 1) = in_e s - 1" using n0 by (simp add: of_nat_diff n_def)
  moreover have "last (in_all s) = last (edited s)" using l ready_edited [of s] last_appendR by metis
  ultimately show ?thesis using last_in_set [OF l] by simp
qed

lemma kill_line_spec:
  assumes "con_inv (con_in s)" "kill_line font s = Ok s'"
  shows "con_inv (con_in s') \<and> ready (con_in s') = ready (con_in s) \<and> edited (con_in s') = []"
  using assms
proof (induction font s rule: kill_line.induct)
  case (1 font s)
  show ?case
  proof (cases "in_e (con_in s) = in_w (con_in s)")
    case True
    then have "s' = s" using 1(3) by (subst (asm) kill_line.simps) (simp add: Let_def)
    with True 1(2) show ?thesis by (simp add: edited_Nil_iff)
  next
    case False
    have nl: "in_buf (con_in s) ! (unat (in_e (con_in s) - 1) mod 128) \<noteq> 10"
      using edited_last [OF 1(2) False] 1(2) by (auto simp: con_inv_def)
    from 1(3) False nl obtain d where d: "consputc font BACKSPACE (con_disp s) = Ok d"
      "kill_line font \<lparr>con_in = in_erase (con_in s), con_disp = d\<rparr> = Ok s'"
      by (subst (asm) kill_line.simps) (auto simp: Let_def split: outcome.splits)
    have cond: "in_e (con_in s) \<noteq> in_w (con_in s) \<and> in_buf (con_in s) ! (unat (in_e (con_in s) - 1) mod INPUT_BUF) \<noteq> 10"
      using False nl by simp
    show ?thesis
      using 1(1) [OF refl cond d(1) _ d(2)] in_erase_spec [OF 1(2) False] by simp
  qed
qed

lemma in_put_spec:
  assumes inv: "con_inv s" and room: "\<not> in_full s"
  shows "in_inv (in_put b s) \<and> ready (in_put b s) = ready s \<and> edited (in_put b s) = edited s @ [b] \<and>
    in_all (in_put b s) = in_all s @ [b] \<and> unat (in_w s - in_r s) \<le> unat (in_e s - in_r s)"
proof -
  have "in_inv (in_put b s) \<and> in_all (in_put b s) = in_all s @ [b]"
    using inv room cq.put_elems by (simp add: con_inv_def)
  then show ?thesis using inv by (simp add: con_inv_def ready_def edited_def)
qed

lemma in_full_length: "con_inv s \<Longrightarrow> in_full s \<longleftrightarrow> \<not> length (ready s) + length (edited s) < 128"
  by (auto simp: con_inv_def in_full_def word_less_nat_alt ready_def edited_def)

lemma commit_spec:
  assumes "in_inv s"
  shows "con_inv (s\<lparr>in_w := in_e s\<rparr>) \<and> ready (s\<lparr>in_w := in_e s\<rparr>) = in_all s \<and> edited (s\<lparr>in_w := in_e s\<rparr>) = []"
proof -
  have "in_all (s\<lparr>in_w := in_e s\<rparr>) = in_all s" by (simp add: in_all_def)
  then show ?thesis using assms by (simp add: con_inv_def in_inv_def ready_def edited_def)
qed

lemma buffer_full_iff:
  "in_e s = in_r s + 128 \<longleftrightarrow> length (in_all s) = 128"
proof -
  have "in_e s = in_r s + 128 \<longleftrightarrow> in_e s - in_r s = (128 :: u32)" by (auto simp: algebra_simps)
  also have "\<dots> \<longleftrightarrow> unat (in_e s - in_r s) = unat (128 :: u32)" by (simp only: word_unat_eq_iff)
  finally show ?thesis by simp
qed

lemma con_key_put:
  assumes inv: "con_inv (con_in s)" and c: "c \<noteq> 16" "c \<noteq> 21" "c \<noteq> 8" "c \<noteq> 0x7F" "c \<noteq> 0" "0 \<le> c" "c < 256"
    and room: "\<not> in_full (con_in s)" and r: "con_key font c s = Ok (dump, woke, s')"
  shows "con_inv (con_in s') \<and> (ready (con_in s'), edited (con_in s')) = key c (ready (con_in s), edited (con_in s)) \<and>
    (woke \<longleftrightarrow> ready (con_in s') \<noteq> ready (con_in s))"
proof -
  define b where "b = (if c = 13 then 10 else c)"
  define i where "i = in_put (of_int b) (con_in s)"
  have i: "in_inv i" "ready i = ready (con_in s)" "edited i = edited (con_in s) @ [of_int b]"
      "in_all i = in_all (con_in s) @ [of_int b]" "unat (in_w i - in_r i) \<le> unat (in_e i - in_r i)"
    using in_put_spec [OF inv room, of "of_int b"] by (auto simp: i_def dest: arg_cong [of _ _ length])
  have len: "length (ready (con_in s)) + length (edited (con_in s)) < 128" using room in_full_length [OF inv] by simp
  have b10: "(of_int b :: u8) = 10 \<longleftrightarrow> b = 10"
  proof
    assume "(of_int b :: u8) = 10"
    then have "uint (of_int b :: u8) = uint (10 :: u8)" by simp
    with c show "b = 10" by (simp add: b_def uint_word_of_int take_bit_eq_mod split: if_splits)
  qed simp
  have full: "in_e i = in_r i + of_nat 128 \<longleftrightarrow> length (ready (con_in s)) + length (edited (con_in s) @ [of_int b :: u8]) = 128"
    using buffer_full_iff [of i] arg_cong [OF ready_edited [of i], of length] i(2,3) by simp
  obtain d where d: "(if b = 10 \<or> b = 4 \<or> in_e i = in_r i + of_nat 128
      then Ok (False, True, \<lparr>con_in = i\<lparr>in_w := in_e i\<rparr>, con_disp = d\<rparr>)
      else Ok (False, False, \<lparr>con_in = i, con_disp = d\<rparr>)) = Ok (dump, woke, s')"
  proof -
    have "con_key font c s = bnd (consputc font b (con_disp s)) (\<lambda>d.
        if b = 10 \<or> b = 4 \<or> in_e i = in_r i + of_nat 128
        then Ok (False, True, \<lparr>con_in = i\<lparr>in_w := in_e i\<rparr>, con_disp = d\<rparr>)
        else Ok (False, False, \<lparr>con_in = i, con_disp = d\<rparr>))"
      using c room by (simp only: con_key_def Let_def b_def [symmetric] i_def [symmetric] if_False if_True simp_thms)
    with r that show ?thesis by (auto simp only: outcome_simps)
  qed
  show ?thesis
  proof (cases "b = 10 \<or> b = 4 \<or> in_e i = in_r i + of_nat 128")
    case True
    with d have s': "con_in s' = i\<lparr>in_w := in_e i\<rparr>" "woke" by auto
    have all: "in_all i = ready (con_in s) @ edited (con_in s) @ [of_int b]"
      using i(4) ready_edited [of "con_in s"] by simp
    have k: "key c (ready (con_in s), edited (con_in s)) = (ready (con_in s) @ edited (con_in s) @ [of_int b], [])"
      using c len True full by (auto simp: key_def Let_def b_def)
    show ?thesis using commit_spec [OF i(1)] s' all k by auto
  next
    case False
    with d have s': "con_in s' = i" "\<not> woke" by auto
    have k: "key c (ready (con_in s), edited (con_in s)) = (ready (con_in s), edited (con_in s) @ [of_int b])"
      using c len False full by (auto simp: key_def Let_def b_def)
    have "con_inv i" using i inv b10 False by (auto simp: con_inv_def)
    then show ?thesis using s' i k by simp
  qed
qed

text \<open>A key that is not erased or dropped is echoed, an erased one is wiped out; keys do what \<open>key\<close> says.\<close>

lemma con_key_spec:
  assumes inv: "con_inv (con_in s)" and c: "0 \<le> c" "c < 256" and r: "con_key font c s = Ok (dump, woke, s')"
  shows "con_inv (con_in s') \<and> (ready (con_in s'), edited (con_in s')) = key c (ready (con_in s), edited (con_in s)) \<and>
    (woke \<longleftrightarrow> ready (con_in s') \<noteq> ready (con_in s)) \<and> (dump \<longleftrightarrow> c = 16)"
proof -
  consider "c = 16" | "c = 21" | (bs) "c = 8 \<or> c = 0x7F"
    | (put) "c \<noteq> 16" "c \<noteq> 21" "c \<noteq> 8" "c \<noteq> 0x7F" "c \<noteq> 0" "\<not> in_full (con_in s)"
    | (drop) "c \<noteq> 16" "c \<noteq> 21" "c \<noteq> 8" "c \<noteq> 0x7F" "c = 0 \<or> in_full (con_in s)" by blast
  then show ?thesis
  proof cases
    case 1
    then show ?thesis using inv r by (auto simp: con_key_def key_def Let_def)
  next
    case 2
    then have "kill_line font s = Ok s'" "\<not> woke" "\<not> dump" using r by (auto simp: con_key_def Let_def outcome_simps)
    with kill_line_spec [OF inv this(1)] 2 show ?thesis by (simp add: key_def)
  next
    case bs
    show ?thesis
    proof (cases "in_e (con_in s) = in_w (con_in s)")
      case True
      then have "edited (con_in s) = []" using inv by (simp add: edited_Nil_iff)
      then show ?thesis using bs True inv r by (auto simp: con_key_def key_def Let_def)
    next
      case False
      then have "con_in s' = in_erase (con_in s)" "\<not> woke" "\<not> dump"
        using r bs by (auto simp: con_key_def Let_def outcome_simps)
      then show ?thesis using in_erase_spec [OF inv False] bs by (auto simp: key_def)
    qed
  next
    case put
    have "\<not> dump" using r put by (auto simp: con_key_def Let_def outcome_simps split: if_splits)
    then show ?thesis using con_key_put [OF inv put(1-5) c put(6) r] put(1) by simp
  next
    case drop
    then have "s' = s" "\<not> woke" "\<not> dump" using r by (auto simp: con_key_def Let_def)
    then show ?thesis using drop inv in_full_length [OF inv] by (auto simp: key_def)
  qed
qed

lemma key_ready_grows: "\<exists>zs. fst (key c q) = fst q @ zs"
  by (cases q) (auto simp: key_def Let_def)

lemma consoleintr_spec:
  assumes "con_inv (con_in s)" "\<forall>c \<in> set cs. 0 \<le> c \<and> c < 256" "consoleintr font cs s = Ok (dump, woke, s')"
  shows "con_inv (con_in s') \<and> (ready (con_in s'), edited (con_in s')) = fold key cs (ready (con_in s), edited (con_in s)) \<and>
    (woke \<longleftrightarrow> ready (con_in s') \<noteq> ready (con_in s)) \<and> (dump \<longleftrightarrow> 16 \<in> set cs)"
  using assms
proof (induction cs arbitrary: s dump woke)
  case (Cons c cs)
  obtain d1 w1 s1 where k1: "con_key font c s = Ok (d1, w1, s1)"
    using Cons.prems(3) by (auto simp: outcome_simps)
  moreover obtain d2 w2 s2 where k2: "consoleintr font cs s1 = Ok (d2, w2, s2)"
    using Cons.prems(3) k1 by (auto simp: outcome_simps)
  ultimately have st: "con_key font c s = Ok (d1, w1, s1)" "consoleintr font cs s1 = Ok (d2, w2, s')"
    "dump = (d1 \<or> d2)" "woke = (w1 \<or> w2)"
    using Cons.prems(3) by simp_all
  have k: "con_inv (con_in s1)" "(ready (con_in s1), edited (con_in s1)) = key c (ready (con_in s), edited (con_in s))"
      "w1 \<longleftrightarrow> ready (con_in s1) \<noteq> ready (con_in s)" "d1 \<longleftrightarrow> c = 16"
    using con_key_spec [OF Cons.prems(1) _ _ st(1)] Cons.prems(2) by auto
  note ih = Cons.IH [OF k(1) _ st(2)]
  have grow: "\<exists>zs. fst (fold key cs q) = fst q @ zs" for q
  proof (induction cs arbitrary: q)
    case (Cons c cs)
    then show ?case using key_ready_grows [of c q] by (metis append_assoc fold_simps(2))
  qed simp
  obtain z1 where z1: "ready (con_in s1) = ready (con_in s) @ z1"
    using key_ready_grows [of c "(ready (con_in s), edited (con_in s))"] k(2) by (metis fst_conv)
  obtain z2 where z2: "ready (con_in s') = ready (con_in s1) @ z2"
    using grow [of "(ready (con_in s1), edited (con_in s1))"] ih Cons.prems(2) by (metis fst_conv list.set_intros(2))
  show ?case using ih Cons.prems(2) k st z1 z2 by auto
qed auto

section \<open>Keys that can be echoed\<close>

definition safe_key :: "int \<Rightarrow> bool" where
  "safe_key c \<longleftrightarrow> c \<in> {0, 8, 10, 13, 16, 21, 0x7F} \<or> 0x20 \<le> c \<and> c < 0x7F"

lemma kill_line_total:
  "\<not> dp_panicked (con_disp s) \<Longrightarrow> \<exists>s'. kill_line font s = Ok s' \<and> \<not> dp_panicked (con_disp s')"
proof (induction font s rule: kill_line.induct)
  case (1 font s)
  obtain d where d: "consputc font BACKSPACE (con_disp s) = Ok d" "\<not> dp_panicked d"
    using consputc_printable [of BACKSPACE "con_disp s" font] 1(2) by blast
  show ?case
  proof (cases "in_e (con_in s) \<noteq> in_w (con_in s) \<and> in_buf (con_in s) ! (unat (in_e (con_in s) - 1) mod INPUT_BUF) \<noteq> 10")
    case True
    have "\<exists>s'. kill_line font \<lparr>con_in = in_erase (con_in s), con_disp = d\<rparr> = Ok s' \<and> \<not> dp_panicked (con_disp s')"
      using 1(1) [OF refl True d(1)] d(2) by simp
    then show ?thesis using True d(1) by (subst kill_line.simps) (simp add: Let_def)
  next
    case False
    then show ?thesis using 1(2) by (subst kill_line.simps) (auto simp: Let_def)
  qed
qed

lemma con_key_total:
  assumes p: "\<not> dp_panicked (con_disp s)" and c: "safe_key c"
  shows "\<exists>dump woke s'. con_key font c s = Ok (dump, woke, s') \<and> \<not> dp_panicked (con_disp s')"
proof -
  obtain d0 where d0: "consputc font BACKSPACE (con_disp s) = Ok d0" "\<not> dp_panicked d0"
    using consputc_printable [of BACKSPACE "con_disp s" font] p by blast
  obtain k where k: "kill_line font s = Ok k" "\<not> dp_panicked (con_disp k)" using kill_line_total [OF p] by blast
  show ?thesis
  proof (cases "c \<in> {0, 8, 16, 21, 0x7F} \<or> in_full (con_in s)")
    case True
    then show ?thesis using p d0 k by (auto simp: con_key_def Let_def)
  next
    case False
    define b where "b = (if c = 13 then 10 else c)"
    have "b = 10 \<or> b = BACKSPACE \<or> 0x20 \<le> b \<and> b < 0x7F" using c False by (auto simp: safe_key_def b_def)
    from consputc_printable [OF this p] obtain d where "consputc font b (con_disp s) = Ok d" "\<not> dp_panicked d" by blast
    then show ?thesis using False by (simp add: con_key_def Let_def b_def [symmetric]) blast
  qed
qed

lemma consoleintr_total:
  "\<not> dp_panicked (con_disp s) \<Longrightarrow> \<forall>c \<in> set cs. safe_key c \<Longrightarrow> \<exists>r. consoleintr font cs s = Ok r"
proof (induction cs arbitrary: s)
  case (Cons c cs)
  obtain d w s1 where k: "con_key font c s = Ok (d, w, s1)" "\<not> dp_panicked (con_disp s1)"
    using con_key_total [OF Cons.prems(1)] Cons.prems(2) by (metis list.set_intros(1))
  from Cons.IH [OF k(2)] Cons.prems(2) obtain r where "consoleintr font cs s1 = Ok r" by auto
  with k(1) show ?case by (cases r) simp
qed auto

text \<open>C18: the console's line discipline.  Typing printable characters, Enter, Backspace, \<open>^U\<close> and \<open>^P\<close> always succeeds and does to the bytes ready for readers and the line under way what the list specification \<open>key\<close> says (insert, erase one, erase the line, hand the line over at Enter or when 128 bytes are buffered, drop what does not fit), for any position of the wrapping counters; readers are woken exactly when new bytes became ready.\<close>

theorem console_edits_lines:
  assumes "con_inv (con_in s)" "\<not> dp_panicked (con_disp s)" "\<And>c. c \<in> set cs \<Longrightarrow> safe_key c"
  shows "\<exists>dump woke s'. consoleintr font cs s = Ok (dump, woke, s') \<and> con_inv (con_in s') \<and>
    (ready (con_in s'), edited (con_in s')) = fold key cs (ready (con_in s), edited (con_in s)) \<and>
    (woke \<longleftrightarrow> ready (con_in s') \<noteq> ready (con_in s)) \<and> (dump \<longleftrightarrow> 16 \<in> set cs)"
proof -
  obtain dump woke s' where r: "consoleintr font cs s = Ok (dump, woke, s')"
    using consoleintr_total [OF assms(2), of cs font] assms(3) by (metis prod.exhaust)
  have "\<forall>c \<in> set cs. 0 \<le> c \<and> c < 256" using assms(3) by (fastforce simp: safe_key_def)
  from consoleintr_spec [OF assms(1) this r] r show ?thesis by blast
qed

text \<open>An idle console whose counters are about to wrap; the keys \<open>l\<close>, \<open>a\<close>, Backspace, \<open>s\<close>, Enter.\<close>

definition idle_console :: console where
  "idle_console = \<lparr>con_in = \<lparr>in_buf = replicate 128 0, in_r = 0xFFFFFFFF, in_w = 0xFFFFFFFF, in_e = 0xFFFFFFFF\<rparr>,
     con_disp = demo_display\<rparr>"

theorem console_edits_lines_witness:
  "\<exists>s'. consoleintr (replicate 95 (replicate 30 0)) [108, 97, 8, 115, 13] idle_console = Ok (False, True, s') \<and>
     ready (con_in s') = [108, 115, 10]"
proof -
  have inv: "con_inv (con_in idle_console)"
    by (simp add: con_inv_def in_inv_def idle_console_def edited_def in_all_def)
  have p: "\<not> dp_panicked (con_disp idle_console)" by (simp add: idle_console_def demo_display_def)
  have "safe_key c" if "c \<in> set [108, 97, 8, 115, 13]" for c using that by (auto simp: safe_key_def)
  from console_edits_lines [OF inv p this, of "[108, 97, 8, 115, 13]"]
  obtain dump woke s' where r: "consoleintr (replicate 95 (replicate 30 0)) [108, 97, 8, 115, 13] idle_console = Ok (dump, woke, s')"
    "(ready (con_in s'), edited (con_in s')) = fold key [108, 97, 8, 115, 13] (ready (con_in idle_console), edited (con_in idle_console))"
    "woke \<longleftrightarrow> ready (con_in s') \<noteq> ready (con_in idle_console)" "dump \<longleftrightarrow> 16 \<in> set [108, 97, 8, 115, 13 :: int]"
    by blast
  have "ready (con_in idle_console) = []" "edited (con_in idle_console) = []"
    by (simp_all add: idle_console_def ready_def edited_def in_all_def)
  with r show ?thesis by (simp add: key_def)
qed

section \<open>Reading\<close>

lemma in_get_spec:
  assumes inv: "con_inv s" and ne: "in_r s \<noteq> in_w s" and g: "in_get s = (c, s')"
  shows "con_inv s' \<and> ready s = c # ready s' \<and> edited s' = edited s \<and> s'\<lparr>in_r := in_r s' - 1\<rparr> = s"
proof -
  have "unat (in_w s - in_r s) \<noteq> 0" using ne by (metis eq_iff_diff_eq_0 unat_eq_0)
  then have "\<not> in_empty s" using inv by (auto simp: con_inv_def in_empty_def)
  then have all: "in_inv s'" "in_all s = c # in_all s'" using cq.get_elems [of s] inv g by (simp_all add: con_inv_def)
  have n: "unat (in_w s - in_r s) = Suc (unat (in_w s - (in_r s + 1)))" using unat_diff_next ne by metis
  have f: "in_w s' = in_w s" "in_r s' = in_r s + 1" "s'\<lparr>in_r := in_r s' - 1\<rparr> = s" using g by (auto simp: in_get_def)
  have "ready s = c # ready s'" "edited s' = edited s" by (simp_all add: ready_def edited_def all n f)
  moreover have "length (in_all s) = Suc (length (in_all s'))" using all by simp
  then have "unat (in_e s - in_r s) = Suc (unat (in_e s' - in_r s'))" by (simp only: length_in_all)
  ultimately show ?thesis using inv n f all by (simp add: con_inv_def)
qed

text \<open>\<open>consoleread\<close> returns lines.  It takes from the ready bytes up to the number asked for, through the first newline and not past it; \<open>^D\<close> ends the read, and stays for the next read unless it came first; when the bytes run out before the line is complete it sleeps with what it has (or fails, if the process was killed); the line being edited is not touched.\<close>

theorem consoleread_takes_line:
  assumes "con_inv s" "target = n + length got" "consoleread_loop target killed n got s = (r, s')"
    and "line_read (got \<noteq> []) n (ready s) = (l, q, done)"
  shows "con_inv s' \<and> ready s' = q \<and> edited s' = edited s \<and>
    r = (if done then ReadBytes (got @ l) else if killed then ReadKilled else ReadWaits (got @ l))"
  using assms
proof (induction n arbitrary: got s l)
  case (Suc n)
  show ?case
  proof (cases "in_r s = in_w s")
    case True
    then have "ready s = []" by (simp add: ready_def)
    with True Suc.prems show ?thesis by (auto split: if_splits)
  next
    case False
    obtain c s1 where g: "in_get s = (c, s1)" by fastforce
    note gs = in_get_spec [OF Suc.prems(1) False g]
    show ?thesis
    proof (cases "c = 4 \<or> c = 10")
      case True
      have "Suc n < target \<longleftrightarrow> got \<noteq> []" using Suc.prems(2) by auto
      then show ?thesis using True False Suc.prems g gs by (auto split: if_splits)
    next
      case False': False
      obtain l1 where l: "line_read True n (ready s1) = (l1, q, done)" "l = c # l1"
        using Suc.prems(4) gs False' by (auto split: prod.splits)
      have "consoleread_loop target killed n (got @ [c]) s1 = (r, s')"
        using Suc.prems(3) False False' g by simp
      from Suc.IH [OF _ _ this] l gs Suc.prems(2) show ?thesis by simp
    qed
  qed
qed auto

text \<open>Of the bytes \<open>ls\<close>, newline, \<open>x\<close> a read of ten takes the first three.\<close>

theorem consoleread_takes_line_witness:
  "fst (consoleread_loop 10 False 10 [] \<lparr>in_buf = [108, 115, 10, 120] @ replicate 124 0, in_r = 0, in_w = 4, in_e = 4\<rparr>)
     = ReadBytes [108, 115, 10]"
proof -
  define s where "s = \<lparr>in_buf = [108, 115, 10, 120] @ replicate 124 0, in_r = 0, in_w = 4, in_e = 4\<rparr>"
  have all: "in_all s = [108, 115, 10, 120]" by (simp add: s_def in_all_def ring_elems_def upt_conv_Cons)
  then have rdy: "ready s = [108, 115, 10, 120]" by (simp add: ready_def) (simp add: s_def)
  have "con_inv s" by (simp add: con_inv_def in_inv_def edited_def all) (simp add: s_def)
  moreover obtain r s' where r: "consoleread_loop 10 False 10 [] s = (r, s')" by fastforce
  moreover have "line_read ([] \<noteq> ([] :: u8 list)) 10 (ready s) = ([108, 115, 10], [120], True)"
  proof -
    have "line_read False (Suc (Suc (Suc k))) [108, 115, 10, 120] = ([108, 115, 10], [120], True)" for k by simp
    from this [of 7] show ?thesis by (simp add: rdy)
  qed
  ultimately have "r = (if True then ReadBytes ([] @ [108, 115, 10]) else ReadWaits [])"
    using consoleread_takes_line [of s 10 10 "[]" False r s' "[108, 115, 10]" "[120]" True] by simp
  with r show ?thesis by (simp add: s_def)
qed

end
