(* ===== verification/Kernel.thy ===== *)
theory Kernel
  imports Fs Vm Pipe Spinlock Console
begin

text \<open>
  The state of the running kernel: the file system (extended here), the page allocator and its
  memory, the processors, the process table (\<open>proc.h\<close>), the open files (\<open>file.h\<close>), the pipes,
  the console and the tick counter.  Processes, open files and inodes are indices
  into their tables; a pipe is known by the address of its page.

  \<open>me\<close> is the processor executing the current step.  \<open>kenv\<close> holds what the kernel is linked or
  booted with. 

  \<open>k_scan\<close> is, for each processor, the loop variable \<open>p\<close> of its \<open>scheduler\<close>.

  Diagnostics the kernel prints with \<open>cprintf\<close> are left out.

  A process is the current one of at most one processor (see \<open>Proc\<close>); \<open>curproc\<close> is \<open>myproc()\<close>.
\<close>

abbreviation (input) NPROC :: nat where "NPROC \<equiv> 64"
abbreviation (input) NOFILE :: nat where "NOFILE \<equiv> 16"
abbreviation (input) NFILE :: nat where "NFILE \<equiv> 100"

datatype procstate = UNUSED | EMBRYO | SLEEPING | RUNNABLE | RUNNING | ZOMBIE

record trapframe =
  tf_edi :: u32
  tf_esi :: u32
  tf_ebp :: u32
  tf_ebx :: u32
  tf_edx :: u32
  tf_ecx :: u32
  tf_eax :: u32
  tf_gs :: u16
  tf_fs :: u16
  tf_es :: u16
  tf_ds :: u16
  tf_trapno :: u32
  tf_err :: u32
  tf_eip :: u32
  tf_cs :: u16
  tf_eflags :: u32
  tf_esp :: u32
  tf_ss :: u16

text \<open>
  Of the saved context only \<open>eip\<close> is set by C code; a process that left through \<open>sched\<close> has the
  address \<open>e_sched\<close> there.
\<close>

record kcontext =
  cx_eip :: u32

record proc =
  p_sz :: u32
  p_pgdir :: u32
  p_kstack :: u32
  p_state :: procstate
  p_pid :: int
  p_parent :: "nat option"
  p_tf :: trapframe
  p_context :: kcontext
  p_chan :: "chan option"
  p_killed :: bool
  p_ofile :: "nat option list"
  p_cwd :: "nat option"
  p_name :: "u8 list"
  p_scheduler :: u32

datatype fdtype = FD_NONE | FD_PIPE | FD_INODE

record kfile =
  f_type :: fdtype
  f_ref :: int
  f_readable :: bool
  f_writable :: bool
  f_pipe :: u32
  f_ip :: nat
  f_off :: u32

record kenv =
  e_kend :: u32
  e_layout :: layout
  e_initcode :: "u8 list"
  e_forkret :: u32
  e_trapret :: u32
  e_sched :: u32

record kernel = fsys +
  kmm :: kmem
  kpgdir :: u32
  smps :: smp
  me :: nat
  ptable :: "proc list"
  initproc :: "nat option"
  nextpid :: int
  ticks :: u32
  ftable :: "kfile list"
  pipes :: "u32 \<Rightarrow> pipe option"
  cons :: console
  forkret_first :: bool
  k_scan :: "nat \<Rightarrow> nat"

type_synonym 'a kop = "kernel \<Rightarrow> ('a \<times> kernel) outcome"
type_synonym kdevsw = "unit kernel_ext devsw"
type_synonym kproc = "kernel \<Rightarrow> kernel outcome"

definition upd_proc :: "nat \<Rightarrow> (proc \<Rightarrow> proc) \<Rightarrow> kernel \<Rightarrow> kernel" where
  "upd_proc i f k = k\<lparr>ptable := (ptable k)[i := f (ptable k ! i)]\<rparr>"

definition upd_file :: "nat \<Rightarrow> (kfile \<Rightarrow> kfile) \<Rightarrow> kernel \<Rightarrow> kernel" where
  "upd_file i f k = k\<lparr>ftable := (ftable k)[i := f (ftable k ! i)]\<rparr>"

definition cur :: "kernel \<Rightarrow> nat option" where
  "cur k = c_proc (cpus (smps k) ! me k)"

text \<open>A use of \<open>myproc()->...\<close>: a null pointer is not followed.\<close>

definition curproc :: "kernel \<Rightarrow> nat outcome" where
  "curproc k = (case cur k of Some p \<Rightarrow> Ok p | None \<Rightarrow> Undef ''myproc is null'')"

definition sleeping_on :: "chan \<Rightarrow> proc \<Rightarrow> bool" where
  "sleeping_on ch p \<longleftrightarrow> p_state p = SLEEPING \<and> p_chan p = Some ch"

definition wakeup1 :: "chan \<Rightarrow> proc list \<Rightarrow> proc list" where
  "wakeup1 ch ps = map (\<lambda>p. if sleeping_on ch p then p\<lparr>p_state := RUNNABLE\<rparr> else p) ps"

definition wakeup :: "chan \<Rightarrow> kernel \<Rightarrow> kernel" where
  "wakeup ch k = k\<lparr>ptable := wakeup1 ch (ptable k)\<rparr>"

text \<open>The operations of the lower layers on this state.\<close>

definition kkalloc :: "kernel \<Rightarrow> u32 \<times> kernel" where
  "kkalloc k = (let (a, s) = kalloc (kmm k) in (a, k\<lparr>kmm := s\<rparr>))"

definition kkfree :: "kenv \<Rightarrow> u32 \<Rightarrow> kproc" where
  "kkfree env a k = bnd (kfree (e_kend env) a (kmm k)) (\<lambda>s. Ok (k\<lparr>kmm := s\<rparr>))"

definition on_mem :: "(kmem \<Rightarrow> ('a \<times> kmem) outcome) \<Rightarrow> 'a kop" where
  "on_mem f k = bnd (f (kmm k)) (\<lambda>(r, s). Ok (r, k\<lparr>kmm := s\<rparr>))"

definition kbegin_op :: kproc where
  "kbegin_op k = bnd (begin_op (lg k)) (\<lambda>l. Ok (k\<lparr>lg := l\<rparr>))"

definition kend_op :: kproc where
  "kend_op k = bnd (end_op (lg k)) (\<lambda>l. Ok (k\<lparr>lg := l\<rparr>))"

text \<open>
  The log, the cache and the inodes record their \<open>wakeup\<close> calls; \<open>settle\<close> carries them out.
\<close>

definition settle :: "kernel \<Rightarrow> kernel" where
  "settle k = k\<lparr>ptable := fold wakeup1 (bc_woken (lbc (lg k))) (ptable k),
     lg := (lg k)\<lparr>lbc := (lbc (lg k))\<lparr>bc_woken := []\<rparr>\<rparr>\<rparr>"

text \<open>
  \<open>namei\<close> and \<open>nameiparent\<close> called by a process: a relative path starts at \<open>myproc()->cwd\<close>.
\<close>

definition cwd_of :: "u8 list \<Rightarrow> kernel \<Rightarrow> nat outcome" where
  "cwd_of path k = bnd (curproc k) (\<lambda>p.
     if path \<noteq> [] \<and> hd path = slash then Ok 0
     else case p_cwd (ptable k ! p) of None \<Rightarrow> Undef ''no cwd'' | Some ip \<Rightarrow> Ok ip)"

definition knamei :: "kdevsw \<Rightarrow> u8 list \<Rightarrow> nat option kop" where
  "knamei devsw path k = bnd (cwd_of path k) (\<lambda>cwd. namei devsw cwd path k)"

definition knameiparent :: "kdevsw \<Rightarrow> u8 list \<Rightarrow> (nat option \<times> u8 list) kop" where
  "knameiparent devsw path k = bnd (cwd_of path k) (\<lambda>cwd. nameiparent devsw cwd path (replicate DIRSIZ 0) k)"

section \<open>User memory\<close>

text \<open>
  The kernel reads and writes user memory through the current page directory.  A fault in the
  kernel ends in \<open>trap\<close>, which panics.
\<close>

fun load_user :: "mem \<Rightarrow> u32 \<Rightarrow> u32 \<Rightarrow> nat \<Rightarrow> u8 list outcome" where
  "load_user m pgdir va 0 = Ok []"
| "load_user m pgdir va (Suc n) =
     (case vload m pgdir va of
        None \<Rightarrow> Panic ''trap''
      | Some b \<Rightarrow> bnd (load_user m pgdir (va + 1) n) (\<lambda>bs. Ok (b # bs)))"

definition writable_page :: "mem \<Rightarrow> u32 \<Rightarrow> u32 \<Rightarrow> bool" where
  "writable_page m pgdir va \<longleftrightarrow> load32 m (pte_addr m pgdir va) AND PTE_W \<noteq> 0"

fun store_user :: "u32 \<Rightarrow> u32 \<Rightarrow> u8 list \<Rightarrow> mem \<Rightarrow> mem outcome" where
  "store_user pgdir va [] m = Ok m"
| "store_user pgdir va (b # bs) m =
     (case translate m pgdir va of
        None \<Rightarrow> Panic ''trap''
      | Some pa \<Rightarrow>
          if writable_page m pgdir va then store_user pgdir (va + 1) bs (m(P2V pa := b)) else Panic ''trap'')"

definition uload :: "u32 \<Rightarrow> nat \<Rightarrow> kernel \<Rightarrow> u8 list outcome" where
  "uload va n k = bnd (curproc k) (\<lambda>p. load_user (km_mem (kmm k)) (p_pgdir (ptable k ! p)) va n)"

definition ustore :: "u32 \<Rightarrow> u8 list \<Rightarrow> kproc" where
  "ustore va bs k = bnd (curproc k) (\<lambda>p.
     bnd (store_user (p_pgdir (ptable k ! p)) va bs (km_mem (kmm k))) (\<lambda>m. Ok (k\<lparr>kmm := (kmm k)\<lparr>km_mem := m\<rparr>\<rparr>)))"

end
