(* ===== verification/File.thy ===== *)
theory File
  imports Kernel
begin

text \<open>
  Open files, \<open>file.c\<close>, and the creation of pipes, \<open>pipealloc\<close> of \<open>pipe.c\<close>.  An open file is an
  index into \<open>ftable\<close>; \<open>None\<close> is the null pointer.  A call that has to wait for the other end of
  a pipe is \<open>Sleeps\<close> here; \<open>Pipe\<close> has what happens then.  Data read is returned as the list of
  its bytes, which the caller stores at the address the user gave.
\<close>

section \<open>Pipes as kernel objects\<close>

definition pipe_chan :: "u32 \<Rightarrow> pipe_chan \<Rightarrow> chan" where
  "pipe_chan a c = (case c of PipeRead \<Rightarrow> ChPipeRead a | PipeWrite \<Rightarrow> ChPipeWrite a)"

definition wake_pipe :: "u32 \<Rightarrow> pipe_chan list \<Rightarrow> kernel \<Rightarrow> kernel" where
  "wake_pipe a cs k = fold (\<lambda>c. wakeup (pipe_chan a c)) cs k"

definition with_pipe :: "u32 \<Rightarrow> (pipe \<Rightarrow> 'a \<times> pipe_chan list \<times> pipe) \<Rightarrow> 'a kop" where
  "with_pipe a f k =
     (case pipes k a of
        None \<Rightarrow> Undef ''no pipe at this address''
      | Some p \<Rightarrow> (let (r, cs, p) = f p in Ok (r, wake_pipe a cs (k\<lparr>pipes := (pipes k)(a \<mapsto> p)\<rparr>))))"

fun pipe_return :: "u32 \<Rightarrow> 'a pipe_result \<times> kernel \<Rightarrow> ((int \<times> 'a) \<times> kernel) outcome" where
  "pipe_return a (Returned n x, k) = Ok ((n, x), k)"
| "pipe_return a (Asleep c rest, k) = Sleeps (pipe_chan a c)"

section \<open>file.c\<close>

definition filealloc :: "kernel \<Rightarrow> nat option \<times> kernel" where
  "filealloc k =
     (case find (\<lambda>i. f_ref (ftable k ! i) = 0) [0..<length (ftable k)] of
        Some f \<Rightarrow> (Some f, upd_file f (\<lambda>x. x\<lparr>f_ref := 1\<rparr>) k)
      | None \<Rightarrow> (None, k))"

definition filedup :: "nat \<Rightarrow> nat kop" where
  "filedup f k =
     (if f_ref (ftable k ! f) < 1 then Panic ''filedup''
      else Ok (f, upd_file f (\<lambda>x. x\<lparr>f_ref := f_ref x + 1\<rparr>) k))"

definition kpipeclose :: "kenv \<Rightarrow> u32 \<Rightarrow> bool \<Rightarrow> kproc" where
  "kpipeclose env a writable k = bnd (with_pipe a (pipeclose writable) k) (\<lambda>(fr, k).
     if fr then kkfree env a (k\<lparr>pipes := (pipes k)(a := None)\<rparr>) else Ok k)"

definition fileclose :: "kenv \<Rightarrow> nat \<Rightarrow> kproc" where
  "fileclose env f k =
     (if f_ref (ftable k ! f) < 1 then Panic ''fileclose''
      else
        (let k = upd_file f (\<lambda>x. x\<lparr>f_ref := f_ref x - 1\<rparr>) k in
         if f_ref (ftable k ! f) > 0 then Ok k
         else
           (let ff = ftable k ! f; k = upd_file f (\<lambda>x. x\<lparr>f_ref := 0, f_type := FD_NONE\<rparr>) k in
            case f_type ff of
              FD_PIPE \<Rightarrow> kpipeclose env (f_pipe ff) (f_writable ff) k
            | FD_INODE \<Rightarrow> bnd (kbegin_op k) (\<lambda>k. bnd (iput (f_ip ff) k) kend_op)
            | FD_NONE \<Rightarrow> Ok k)))"

definition filestat :: "nat \<Rightarrow> (int \<times> stat option) kop" where
  "filestat f k =
     (if f_type (ftable k ! f) = FD_INODE then
        (let ip = f_ip (ftable k ! f) in
         bnd (ilock ip k) (\<lambda>k. let st = stati ip k in bnd (iunlock ip k) (\<lambda>k. Ok ((0, Some st), k))))
      else Ok ((-1, None), k))"

definition fileread :: "kdevsw \<Rightarrow> nat \<Rightarrow> int \<Rightarrow> (int \<times> u8 list) kop" where
  "fileread devsw f n k =
     (let ff = ftable k ! f in
      if \<not> f_readable ff then Ok ((-1, []), k)
      else case f_type ff of
        FD_PIPE \<Rightarrow>
          bnd (curproc k) (\<lambda>p.
          bnd (with_pipe (f_pipe ff) (piperead (p_killed (ptable k ! p)) (nat n)) k) (pipe_return (f_pipe ff)))
      | FD_INODE \<Rightarrow>
          bnd (ilock (f_ip ff) k) (\<lambda>k.
          bnd (readi devsw (f_ip ff) (f_off (ftable k ! f)) (of_int n) k) (\<lambda>((r, bs), k).
          let k = (if r > 0 then upd_file f (\<lambda>x. x\<lparr>f_off := f_off x + of_int r\<rparr>) k else k) in
          bnd (iunlock (f_ip ff) k) (\<lambda>k. Ok ((r, bs), k))))
      | FD_NONE \<Rightarrow> Panic ''fileread'')"

text \<open>The most \<open>filewrite\<close> writes in one transaction.\<close>

abbreviation (input) WRITE_MAX :: nat where "WRITE_MAX \<equiv> ((10 - 1 - 1 - 2) div 2) * 512"

text \<open>One turn of the loop of \<open>filewrite\<close>: one transaction.\<close>

definition filewrite_chunk :: "kdevsw \<Rightarrow> nat \<Rightarrow> u8 list \<Rightarrow> int kop" where
  "filewrite_chunk devsw f src k =
     bnd (kbegin_op k) (\<lambda>k.
     bnd (ilock (f_ip (ftable k ! f)) k) (\<lambda>k.
     bnd (writei devsw (f_ip (ftable k ! f)) src (f_off (ftable k ! f)) (of_nat (length src)) k) (\<lambda>(r, k).
     let k = (if r > 0 then upd_file f (\<lambda>x. x\<lparr>f_off := f_off x + of_int r\<rparr>) k else k) in
     bnd (iunlock (f_ip (ftable k ! f)) k) (\<lambda>k.
     bnd (kend_op k) (\<lambda>k. Ok (r, k))))))"

text \<open>\<open>src\<close> are the bytes still to be written, \<open>n\<close> the number of all of them; the result is that of \<open>filewrite\<close>.\<close>

function filewrite_loop :: "kdevsw \<Rightarrow> nat \<Rightarrow> int \<Rightarrow> u8 list \<Rightarrow> int kop" where
  "filewrite_loop devsw f n src k =
     (if src = [] then Ok (n, k)
      else
        (let n1 = min WRITE_MAX (length src) in
         bnd (filewrite_chunk devsw f (take n1 src) k) (\<lambda>(r, k).
         if r < 0 then Ok (-1, k)
         else if r \<noteq> int n1 then Panic ''short filewrite''
         else filewrite_loop devsw f n (drop n1 src) k)))"
  by pat_completeness auto
termination
  by (relation "measure (\<lambda>(devsw, f, n, src, k). length src)") auto

declare filewrite_loop.simps [simp del]

definition filewrite :: "kdevsw \<Rightarrow> nat \<Rightarrow> u8 list \<Rightarrow> int kop" where
  "filewrite devsw f src k =
     (let ff = ftable k ! f in
      if \<not> f_writable ff then Ok (-1, k)
      else case f_type ff of
        FD_PIPE \<Rightarrow>
          bnd (curproc k) (\<lambda>p.
          bnd (with_pipe (f_pipe ff) (pipewrite (p_killed (ptable k ! p)) src) k) (\<lambda>rk.
          bnd (pipe_return (f_pipe ff) rk) (\<lambda>((n, _), k). Ok (n, k))))
      | FD_INODE \<Rightarrow> filewrite_loop devsw f (int (length src)) src k
      | FD_NONE \<Rightarrow> Panic ''filewrite'')"

section \<open>pipealloc\<close>

text \<open>What is in the page of a new pipe where \<open>data\<close> is.\<close>

definition page_data :: "u32 \<Rightarrow> kernel \<Rightarrow> u8 list" where
  "page_data a k = map (\<lambda>i. km_mem (kmm k) (a + 52 + of_nat i)) [0..<PIPESIZE]"

definition close_opt :: "kenv \<Rightarrow> nat option \<Rightarrow> kproc" where
  "close_opt env f k = (case f of None \<Rightarrow> Ok k | Some f \<Rightarrow> fileclose env f k)"

definition pipealloc :: "kenv \<Rightarrow> (nat \<times> nat) option kop" where
  "pipealloc env k =
     (let (f0, k) = filealloc k;
          (f1, k) = (if f0 = None then (None, k) else filealloc k);
          (a, k) = (if f0 = None \<or> f1 = None then (0, k) else kkalloc k)
      in case (f0, f1) of
           (Some g0, Some g1) \<Rightarrow>
             if a = 0 then bnd (close_opt env f0 k) (\<lambda>k. bnd (close_opt env f1 k) (\<lambda>k. Ok (None, k)))
             else
               (let k = k\<lparr>pipes := (pipes k)(a \<mapsto> new_pipe (page_data a k))\<rparr>;
                    k = upd_file g0 (\<lambda>x. x\<lparr>f_type := FD_PIPE, f_readable := True, f_writable := False, f_pipe := a\<rparr>) k;
                    k = upd_file g1 (\<lambda>x. x\<lparr>f_type := FD_PIPE, f_readable := False, f_writable := True, f_pipe := a\<rparr>) k
                in Ok (Some (g0, g1), k))
         | _ \<Rightarrow> bnd (close_opt env f0 k) (\<lambda>k. bnd (close_opt env f1 k) (\<lambda>k. Ok (None, k))))"

end
