(* ===== verification/Proc.thy ===== *)
theory Proc
  imports File
begin

text \<open>
  Processes, \<open>proc.c\<close>, with \<open>switchuvm\<close> and \<open>switchkvm\<close> of \<open>vm.c\<close>.

  A critical section of \<open>ptable.lock\<close> is one step.  The context switches split the life of a
  process into such steps: \<open>sched\<close> leaves the process and gives the processor back to its
  scheduler (\<open>c->proc = 0\<close>), \<open>scheduler_step\<close> is one turn of the scheduler's loop over the table up to
  and including the switch to the process it picks, and \<open>resume\<close> is what that process executes
  before it leaves \<open>ptable.lock\<close>: \<open>forkret\<close> for a new process, the end of \<open>sleep\<close> or \<open>yield\<close>
  for an old one.  Inside the critical section the lock is held and interrupts are off
  (see \<open>Spinlock\<close>), so of the checks of \<open>sched\<close> the two that can fail are kept: another lock is
  held (the nesting depth of the processor, counted without \<open>ptable.lock\<close>, is not 0), or the
  process is still \<open>RUNNING\<close>.
\<close>

definition kupd_cpu :: "(cpu \<Rightarrow> cpu) \<Rightarrow> kernel \<Rightarrow> kernel" where
  "kupd_cpu f k = k\<lparr>smps := upd_cpu (me k) f (smps k)\<rparr>"

section \<open>Address space switches\<close>

definition switchkvm :: "kernel \<Rightarrow> kernel" where
  "switchkvm k = kupd_cpu (\<lambda>c. c\<lparr>c_cr3 := V2P (kpgdir k)\<rparr>) k"

definition switchuvm :: "nat \<Rightarrow> kproc" where
  "switchuvm p k =
     (if p_kstack (ptable k ! p) = 0 then Panic ''switchuvm: no kstack''
      else if p_pgdir (ptable k ! p) = 0 then Panic ''switchuvm: no pgdir''
      else Ok (kupd_cpu (\<lambda>c. c\<lparr>c_esp0 := p_kstack (ptable k ! p) + KSTACKSIZE,
        c_cr3 := V2P (p_pgdir (ptable k ! p))\<rparr>) k))"

section \<open>Creating processes\<close>

definition find_state :: "procstate \<Rightarrow> kernel \<Rightarrow> nat option" where
  "find_state st k = find (\<lambda>i. p_state (ptable k ! i) = st) [0..<length (ptable k)]"

text \<open>The trap frame takes 76 bytes; below it is the return address \<open>trapret\<close>.\<close>

definition allocproc :: "kenv \<Rightarrow> kernel \<Rightarrow> nat option \<times> kernel" where
  "allocproc env k =
     (case find_state UNUSED k of
        None \<Rightarrow> (None, k)
      | Some p \<Rightarrow>
          (let k = upd_proc p (\<lambda>x. x\<lparr>p_state := EMBRYO, p_pid := nextpid k, p_scheduler := -1\<rparr>)
                     (k\<lparr>nextpid := nextpid k + 1\<rparr>);
               (a, k) = kkalloc k;
               k = upd_proc p (\<lambda>x. x\<lparr>p_kstack := a\<rparr>) k
           in if a = 0 then (None, upd_proc p (\<lambda>x. x\<lparr>p_state := UNUSED\<rparr>) k)
              else
                (let k = k\<lparr>kmm := upd_mem (store32 (a + KSTACKSIZE - 76 - 4) (e_trapret env)) (kmm k)\<rparr>
                 in (Some p, upd_proc p (\<lambda>x. x\<lparr>p_context := \<lparr>cx_eip = e_forkret env\<rparr>\<rparr>) k))))"

definition zero_tf :: trapframe where
  "zero_tf = \<lparr>tf_edi = 0, tf_esi = 0, tf_ebp = 0, tf_ebx = 0, tf_edx = 0, tf_ecx = 0, tf_eax = 0, tf_gs = 0,
     tf_fs = 0, tf_es = 0, tf_ds = 0, tf_trapno = 0, tf_err = 0, tf_eip = 0, tf_cs = 0, tf_eflags = 0,
     tf_esp = 0, tf_ss = 0\<rparr>"

text \<open>
  \<open>safestrcpy\<close> into an array of 16 bytes: the string cut to 15 bytes and its NUL; a shorter
  string gets a second NUL.
\<close>

definition safestrcpy_name :: "u8 list \<Rightarrow> (nat \<Rightarrow> u8) \<Rightarrow> u8 list" where
  "safestrcpy_name old t =
     (let c = cstr 15 t in splice old 0 (c @ (if length c < 15 then [0, 0] else [0])))"

definition initcode_name :: "u8 list" where
  "initcode_name = [105, 110, 105, 116, 99, 111, 100, 101, 0]"

definition userinit :: "kenv \<Rightarrow> kdevsw \<Rightarrow> kproc" where
  "userinit env devsw k =
     (case allocproc env k of
        (None, k) \<Rightarrow> Undef ''userinit: no process''
      | (Some p, k) \<Rightarrow>
          bnd (on_mem (setupkvm (e_kend env) (e_layout env)) (k\<lparr>initproc := Some p\<rparr>)) (\<lambda>(d, k).
          let k = upd_proc p (\<lambda>x. x\<lparr>p_pgdir := d\<rparr>) k in
          if d = 0 then Panic ''userinit: out of memory?''
          else bnd (inituvm d (e_initcode env) (kmm k)) (\<lambda>s.
          let k = upd_proc p (\<lambda>x. x\<lparr>p_sz := PGSIZE,
                    p_tf := zero_tf\<lparr>tf_cs := 0x1B, tf_ds := 0x23, tf_es := 0x23, tf_ss := 0x23,
                      tf_eflags := 0x200, tf_esp := PGSIZE, tf_eip := 0\<rparr>,
                    p_name := safestrcpy_name (p_name x) (arr initcode_name)\<rparr>) (k\<lparr>kmm := s\<rparr>) in
          bnd (namei devsw 0 [slash] k) (\<lambda>(ip, k).
          Ok (upd_proc p (\<lambda>x. x\<lparr>p_cwd := ip, p_state := RUNNABLE\<rparr>) k)))))"

definition growproc :: "kenv \<Rightarrow> int \<Rightarrow> int kop" where
  "growproc env n k = bnd (curproc k) (\<lambda>p.
     let sz = p_sz (ptable k ! p); pgdir = p_pgdir (ptable k ! p) in
     bnd (if n > 0 then on_mem (allocuvm (e_kend env) pgdir sz (sz + of_int n)) k
          else if n < 0 then on_mem (deallocuvm (e_kend env) pgdir sz (sz + of_int n)) k
          else Ok (sz, k)) (\<lambda>(sz, k).
     if n \<noteq> 0 \<and> sz = 0 then Ok (-1, k)
     else bnd (switchuvm p (upd_proc p (\<lambda>x. x\<lparr>p_sz := sz\<rparr>) k)) (\<lambda>k. Ok (0, k))))"

definition dup_ofile :: "nat \<Rightarrow> nat \<Rightarrow> nat \<Rightarrow> kproc" where
  "dup_ofile p np i k =
     (case p_ofile (ptable k ! p) ! i of
        None \<Rightarrow> Ok k
      | Some f \<Rightarrow> bnd (filedup f k) (\<lambda>(f, k). Ok (upd_proc np (\<lambda>x. x\<lparr>p_ofile := (p_ofile x)[i := Some f]\<rparr>) k)))"

definition fork :: "kenv \<Rightarrow> int kop" where
  "fork env k = bnd (curproc k) (\<lambda>p.
     case allocproc env k of
       (None, k) \<Rightarrow> Ok (-1, k)
     | (Some np, k) \<Rightarrow>
         bnd (on_mem (copyuvm (e_kend env) (e_layout env) (p_pgdir (ptable k ! p)) (p_sz (ptable k ! p))) k) (\<lambda>(d, k).
         let k = upd_proc np (\<lambda>x. x\<lparr>p_pgdir := d\<rparr>) k in
         if d = 0 then
           bnd (kkfree env (p_kstack (ptable k ! np)) k) (\<lambda>k.
             Ok (-1, upd_proc np (\<lambda>x. x\<lparr>p_kstack := 0, p_state := UNUSED\<rparr>) k))
         else
           (let pp = ptable k ! p;
                k = upd_proc np (\<lambda>x. x\<lparr>p_sz := p_sz pp, p_parent := Some p, p_tf := (p_tf pp)\<lparr>tf_eax := 0\<rparr>\<rparr>) k
            in bnd (for_each (dup_ofile p np) [0..<NOFILE] k) (\<lambda>k.
               bnd (case p_cwd (ptable k ! p) of
                      None \<Rightarrow> Undef ''fork: no cwd''
                    | Some ip \<Rightarrow> (let (ip, k) = idup ip k in
                        Ok (upd_proc np (\<lambda>x. x\<lparr>p_cwd := Some ip\<rparr>) k))) (\<lambda>k.
               Ok (p_pid (ptable k ! np),
                 upd_proc np (\<lambda>x. x\<lparr>p_name := safestrcpy_name (p_name x) (arr (p_name (ptable k ! p))),
                   p_state := RUNNABLE\<rparr>) k))))))"

section \<open>Scheduling\<close>

definition sched :: "kenv \<Rightarrow> kproc" where
  "sched env k = bnd (curproc k) (\<lambda>p.
     if c_ncli (cpus (smps k) ! me k) \<noteq> 0 then Panic ''sched locks''
     else if p_state (ptable k ! p) = RUNNING then Panic ''sched running''
     else
       (let k = upd_proc p (\<lambda>x. x\<lparr>p_context := \<lparr>cx_eip = e_sched env\<rparr>\<rparr>) k; k = switchkvm k in
        Ok (kupd_cpu (\<lambda>c. c\<lparr>c_proc := None\<rparr>) (k\<lparr>k_scan := (k_scan k)(me k := Suc p)\<rparr>))))"

definition yield :: "kenv \<Rightarrow> kproc" where
  "yield env k = bnd (curproc k) (\<lambda>p. sched env (upd_proc p (\<lambda>x. x\<lparr>p_state := RUNNABLE\<rparr>) k))"

definition ksleep :: "kenv \<Rightarrow> chan \<Rightarrow> kproc" where
  "ksleep env ch k =
     (case cur k of
        None \<Rightarrow> Panic ''sleep''
      | Some p \<Rightarrow> sched env (upd_proc p (\<lambda>x. x\<lparr>p_chan := Some ch, p_state := SLEEPING\<rparr>) k))"

text \<open>The first process to run initialises the file system and recovers the log.\<close>

definition forkret :: kproc where
  "forkret k =
     (if forkret_first k then
        bnd (iinit ROOTDEV (k\<lparr>forkret_first := False\<rparr>)) (\<lambda>k.
        bnd (initlog ROOTDEV (lg k)) (\<lambda>l. Ok (k\<lparr>lg := l\<rparr>)))
      else Ok k)"

definition resume :: "kenv \<Rightarrow> nat \<Rightarrow> kproc" where
  "resume env p k =
     (if cx_eip (p_context (ptable k ! p)) = e_forkret env then forkret k
      else Ok (upd_proc p (\<lambda>x. x\<lparr>p_chan := None\<rparr>) k))"

definition scheduler_step :: "kenv \<Rightarrow> kproc" where
  "scheduler_step env k =
     (case find (\<lambda>i. p_state (ptable k ! i) = RUNNABLE) [k_scan k (me k)..<length (ptable k)] of
        None \<Rightarrow> Ok (k\<lparr>k_scan := (k_scan k)(me k := 0)\<rparr>)
      | Some p \<Rightarrow>
          bnd (switchuvm p (kupd_cpu (\<lambda>c. c\<lparr>c_proc := Some p\<rparr>) k)) (\<lambda>k.
          resume env p (upd_proc p (\<lambda>x. x\<lparr>p_state := RUNNING\<rparr>) k)))"

section \<open>Exit, wait and kill\<close>

definition close_fd :: "kenv \<Rightarrow> nat \<Rightarrow> nat \<Rightarrow> kproc" where
  "close_fd env p fd k =
     (case p_ofile (ptable k ! p) ! fd of
        None \<Rightarrow> Ok k
      | Some f \<Rightarrow> bnd (fileclose env f k) (\<lambda>k. Ok (upd_proc p (\<lambda>x. x\<lparr>p_ofile := (p_ofile x)[fd := None]\<rparr>) k)))"

definition wake_proc :: "nat option \<Rightarrow> kernel \<Rightarrow> kernel" where
  "wake_proc p k = (case p of None \<Rightarrow> k | Some p \<Rightarrow> wakeup (ChProc p) k)"

definition reparent :: "nat \<Rightarrow> nat \<Rightarrow> kernel \<Rightarrow> kernel" where
  "reparent p i k =
     (if p_parent (ptable k ! i) = Some p then
        (let k = upd_proc i (\<lambda>x. x\<lparr>p_parent := initproc k\<rparr>) k in
         if p_state (ptable k ! i) = ZOMBIE then wake_proc (initproc k) k else k)
      else k)"

definition exit :: "kenv \<Rightarrow> kproc" where
  "exit env k = bnd (curproc k) (\<lambda>p.
     if initproc k = Some p then Panic ''init exiting''
     else
       bnd (for_each (close_fd env p) [0..<NOFILE] k) (\<lambda>k.
       bnd (case p_cwd (ptable k ! p) of
              None \<Rightarrow> Undef ''exit: no cwd''
            | Some ip \<Rightarrow> bnd (kbegin_op k) (\<lambda>k. bnd (iput ip k) kend_op)) (\<lambda>k.
       let k = upd_proc p (\<lambda>x. x\<lparr>p_cwd := None\<rparr>) k;
           k = wake_proc (p_parent (ptable k ! p)) k;
           k = fold (reparent p) [0..<length (ptable k)] k
       in sched env (upd_proc p (\<lambda>x. x\<lparr>p_state := ZOMBIE\<rparr>) k))))"

definition is_child :: "nat \<Rightarrow> kernel \<Rightarrow> nat \<Rightarrow> bool" where
  "is_child p k i \<longleftrightarrow> p_parent (ptable k ! i) = Some p"

definition reap :: "kenv \<Rightarrow> nat \<Rightarrow> int kop" where
  "reap env c k =
     (let pid = p_pid (ptable k ! c) in
      bnd (kkfree env (p_kstack (ptable k ! c)) k) (\<lambda>k.
      let k = upd_proc c (\<lambda>x. x\<lparr>p_kstack := 0\<rparr>) k in
      bnd (freevm (e_kend env) (p_pgdir (ptable k ! c)) (kmm k)) (\<lambda>s.
      Ok (pid, upd_proc c (\<lambda>x. x\<lparr>p_pid := 0, p_parent := None, p_name := (p_name x)[0 := 0], p_killed := False,
        p_state := UNUSED\<rparr>) (k\<lparr>kmm := s\<rparr>)))))"

text \<open>One turn of the loop of \<open>wait\<close>: it returns, or sleeps on the process itself.\<close>

definition wait :: "kenv \<Rightarrow> int kop" where
  "wait env k = bnd (curproc k) (\<lambda>p.
     case find (\<lambda>i. is_child p k i \<and> p_state (ptable k ! i) = ZOMBIE) [0..<length (ptable k)] of
       Some c \<Rightarrow> reap env c k
     | None \<Rightarrow>
         if (\<forall>i \<in> set [0..<length (ptable k)]. \<not> is_child p k i) \<or> p_killed (ptable k ! p) then Ok (-1, k)
         else Sleeps (ChProc p))"

definition kill :: "int \<Rightarrow> kernel \<Rightarrow> int \<times> kernel" where
  "kill pid k =
     (case find (\<lambda>i. p_pid (ptable k ! i) = pid) [0..<length (ptable k)] of
        None \<Rightarrow> (-1, k)
      | Some p \<Rightarrow>
          (0, upd_proc p (\<lambda>x. x\<lparr>p_killed := True, p_state := (if p_state x = SLEEPING then RUNNABLE else p_state x)\<rparr>) k))"

definition uthread_init :: "u32 \<Rightarrow> int kop" where
  "uthread_init address k = bnd (curproc k) (\<lambda>p. Ok (0, upd_proc p (\<lambda>x. x\<lparr>p_scheduler := address\<rparr>) k))"

end
