(* ===== verification/Exec.thy ===== *)
theory Exec
  imports Proc
begin

text \<open>
  \<open>exec\<close> of \<open>exec.c\<close> with \<open>loaduvm\<close> of \<open>vm.c\<close>, and the ELF structures of \<open>elf.h\<close> as
  they lie in the bytes of the file.  \<open>path\<close> and the elements of \<open>argv\<close> are the bytes before the
  NUL.  A step that takes the branch \<open>bad\<close> returns \<open>None\<close>; \<open>exec_bad\<close> is what is executed
  there.
\<close>

abbreviation (input) ELF_MAGIC :: u32 where "ELF_MAGIC \<equiv> 0x464C457F"
abbreviation (input) ELF_PROG_LOAD :: u32 where "ELF_PROG_LOAD \<equiv> 1"
abbreviation (input) MAXARG :: nat where "MAXARG \<equiv> 32"

record elfhdr =
  eh_magic :: u32
  eh_entry :: u32
  eh_phoff :: u32
  eh_phnum :: u16

record proghdr =
  ph_type :: u32
  ph_off :: u32
  ph_vaddr :: u32
  ph_filesz :: u32
  ph_memsz :: u32

definition elfhdr_of :: "u8 list \<Rightarrow> elfhdr" where
  "elfhdr_of d = \<lparr>eh_magic = get32 d 0, eh_entry = get32 d 24, eh_phoff = get32 d 28, eh_phnum = get16 d 44\<rparr>"

definition proghdr_of :: "u8 list \<Rightarrow> proghdr" where
  "proghdr_of d = \<lparr>ph_type = get32 d 0, ph_off = get32 d 4, ph_vaddr = get32 d 8, ph_filesz = get32 d 16,
     ph_memsz = get32 d 20\<rparr>"

section \<open>Loading a segment\<close>

fun loaduvm_loop :: "kdevsw \<Rightarrow> u32 \<Rightarrow> u32 \<Rightarrow> nat \<Rightarrow> u32 \<Rightarrow> u32 \<Rightarrow> u32 list \<Rightarrow> int kop" where
  "loaduvm_loop devsw pgdir addr ip offset sz [] k = Ok (0, k)"
| "loaduvm_loop devsw pgdir addr ip offset sz (i # is) k =
     (let pte = fst (walkpgdir pgdir (addr + i) False (kmm k)) in
      if pte = 0 then Panic ''loaduvm: address should exist''
      else
        (let pa = PTE_ADDR (load32 (km_mem (kmm k)) pte);
             n = (if sz - i < PGSIZE then sz - i else PGSIZE)
         in bnd (readi devsw ip (offset + i) n k) (\<lambda>((r, bs), k).
            let k = k\<lparr>kmm := upd_mem (store_bytes (P2V pa) bs) (kmm k)\<rparr> in
            if of_int r \<noteq> n then Ok (-1, k) else loaduvm_loop devsw pgdir addr ip offset sz is k)))"

definition loaduvm :: "kdevsw \<Rightarrow> u32 \<Rightarrow> u32 \<Rightarrow> nat \<Rightarrow> u32 \<Rightarrow> u32 \<Rightarrow> int kop" where
  "loaduvm devsw pgdir addr ip offset sz k =
     (if unat addr mod 4096 \<noteq> 0 then Panic ''loaduvm: addr must be page aligned''
      else loaduvm_loop devsw pgdir addr ip offset sz (page_steps 0 sz) k)"

section \<open>exec\<close>

text \<open>The program headers: \<open>n\<close> of them from offset \<open>off\<close> on; \<open>sz\<close> is the size so far.\<close>

fun exec_segs :: "kenv \<Rightarrow> kdevsw \<Rightarrow> nat \<Rightarrow> u32 \<Rightarrow> nat \<Rightarrow> u32 \<Rightarrow> u32 \<Rightarrow> u32 option kop" where
  "exec_segs env devsw ip pgdir 0 off sz k = Ok (Some sz, k)"
| "exec_segs env devsw ip pgdir (Suc n) off sz k =
     bnd (readi devsw ip off 32 k) (\<lambda>((r, d), k).
     if r \<noteq> 32 then Ok (None, k)
     else
       (let ph = proghdr_of d in
        if ph_type ph \<noteq> ELF_PROG_LOAD then exec_segs env devsw ip pgdir n (off + 32) sz k
        else if ph_memsz ph < ph_filesz ph then Ok (None, k)
        else if ph_vaddr ph + ph_memsz ph < ph_vaddr ph then Ok (None, k)
        else bnd (on_mem (allocuvm (e_kend env) pgdir sz (ph_vaddr ph + ph_memsz ph)) k) (\<lambda>(sz, k).
          if sz = 0 then Ok (None, k)
          else if unat (ph_vaddr ph) mod 4096 \<noteq> 0 then Ok (None, k)
          else bnd (loaduvm devsw pgdir (ph_vaddr ph) ip (ph_off ph) (ph_filesz ph) k) (\<lambda>(r, k).
            if r < 0 then Ok (None, k) else exec_segs env devsw ip pgdir n (off + 32) sz k))))"

text \<open>Push the argument strings; the result is the stack pointer and the addresses of the strings.\<close>

fun exec_args :: "u32 \<Rightarrow> u8 list list \<Rightarrow> u32 \<Rightarrow> u32 list \<Rightarrow> kmem \<Rightarrow> ((u32 \<times> u32 list) option \<times> kmem) outcome" where
  "exec_args pgdir [] sp ps s = Ok (Some (sp, ps), s)"
| "exec_args pgdir (arg # args) sp ps s =
     (if length ps \<ge> MAXARG then Ok (None, s)
      else
        (let sp = (sp - of_nat (length arg + 1)) AND NOT 3 in
         bnd (copyout pgdir sp (arg @ [0]) s) (\<lambda>(r, s).
           if r < 0 then Ok (None, s) else exec_args pgdir args sp (ps @ [sp]) s)))"

definition ustack :: "u32 \<Rightarrow> u32 list \<Rightarrow> u32 list" where
  "ustack sp ps = [0xffffffff, of_nat (length ps), sp - of_nat (length ps + 1) * 4] @ ps @ [0]"

text \<open>What follows the last slash of the path.\<close>

definition path_last :: "u8 list \<Rightarrow> u8 list" where
  "path_last path = rev (takeWhile (\<lambda>c. c \<noteq> slash) (rev path))"

definition exec_bad :: "kenv \<Rightarrow> u32 \<Rightarrow> nat option \<Rightarrow> int kop" where
  "exec_bad env pgdir ip k =
     bnd (if pgdir \<noteq> 0 then bnd (freevm (e_kend env) pgdir (kmm k)) (\<lambda>s. Ok (k\<lparr>kmm := s\<rparr>)) else Ok k) (\<lambda>k.
     bnd (case ip of None \<Rightarrow> Ok k | Some ip \<Rightarrow> bnd (iunlockput ip k) kend_op) (\<lambda>k.
     Ok (-1, k)))"

text \<open>The stack: two pages, the lower one inaccessible, and the arguments.\<close>

definition exec_stack :: "kenv \<Rightarrow> u32 \<Rightarrow> u32 \<Rightarrow> u8 list list \<Rightarrow> kmem \<Rightarrow> ((u32 \<times> u32) option \<times> kmem) outcome" where
  "exec_stack env pgdir sz argv s =
     (let sz = PGROUNDUP sz in
      bnd (allocuvm (e_kend env) pgdir sz (sz + 2 * PGSIZE) s) (\<lambda>(sz, s).
      if sz = 0 then Ok (None, s)
      else bnd (clearpteu pgdir (sz - 2 * PGSIZE) s) (\<lambda>s.
      bnd (exec_args pgdir argv sz [] s) (\<lambda>(r, s).
      case r of
        None \<Rightarrow> Ok (None, s)
      | Some (sp, ps) \<Rightarrow>
          (let sp' = sp - of_nat (3 + length ps + 1) * 4 in
           bnd (copyout pgdir sp' (concat (map bytes32 (ustack sp ps))) s) (\<lambda>(r, s).
             if r < 0 then Ok (None, s) else Ok (Some (sz, sp'), s)))))))"

definition exec_commit :: "kenv \<Rightarrow> u8 list \<Rightarrow> u32 \<Rightarrow> u32 \<Rightarrow> u32 \<Rightarrow> u32 \<Rightarrow> int kop" where
  "exec_commit env path pgdir sz sp entry k = bnd (curproc k) (\<lambda>p.
     let oldpgdir = p_pgdir (ptable k ! p);
         k = upd_proc p (\<lambda>x. x\<lparr>p_name := safestrcpy_name (p_name x) (arr (path_last path @ [0])),
               p_pgdir := pgdir, p_sz := sz, p_tf := (p_tf x)\<lparr>tf_eip := entry, tf_esp := sp\<rparr>\<rparr>) k
     in bnd (switchuvm p k) (\<lambda>k.
        bnd (freevm (e_kend env) oldpgdir (kmm k)) (\<lambda>s. Ok (0, k\<lparr>kmm := s\<rparr>))))"

definition exec :: "kenv \<Rightarrow> kdevsw \<Rightarrow> u8 list \<Rightarrow> u8 list list \<Rightarrow> int kop" where
  "exec env devsw path argv k =
     bnd (kbegin_op k) (\<lambda>k.
     bnd (knamei devsw path k) (\<lambda>(r, k).
     case r of
       None \<Rightarrow> bnd (kend_op k) (\<lambda>k. Ok (-1, k))
     | Some ip \<Rightarrow>
         bnd (ilock ip k) (\<lambda>k.
         bnd (readi devsw ip 0 52 k) (\<lambda>((r, d), k).
         if r \<noteq> 52 \<or> eh_magic (elfhdr_of d) \<noteq> ELF_MAGIC then exec_bad env 0 (Some ip) k
         else bnd (on_mem (setupkvm (e_kend env) (e_layout env)) k) (\<lambda>(pgdir, k).
         if pgdir = 0 then exec_bad env 0 (Some ip) k
         else bnd (exec_segs env devsw ip pgdir (unat (eh_phnum (elfhdr_of d))) (eh_phoff (elfhdr_of d)) 0 k) (\<lambda>(r, k).
         case r of
           None \<Rightarrow> exec_bad env pgdir (Some ip) k
         | Some sz \<Rightarrow>
             bnd (iunlockput ip k) (\<lambda>k.
             bnd (kend_op k) (\<lambda>k.
             bnd (on_mem (exec_stack env pgdir sz argv) k) (\<lambda>(r, k).
             case r of
               None \<Rightarrow> exec_bad env pgdir None k
             | Some (sz, sp) \<Rightarrow> exec_commit env path pgdir sz sp (eh_entry (elfhdr_of d)) k)))))))))"

end
