(* ===== verification/Syscall.thy ===== *)
theory Syscall
  imports Exec
begin

text \<open>
  System call arguments (\<open>syscall.c\<close>), the file system calls (\<open>sysfile.c\<close>), the process calls
  (\<open>sysproc.c\<close>) and the dispatch \<open>syscall\<close>.

  The functions that fetch arguments return \<open>None\<close> where the code returns -1 and the value they
  store through their pointer otherwise.  They have no effect, so the order of a chain of
  them joined by \<open>||\<close> shows only in which failure comes first.  A pointer argument is the address.
\<close>

section \<open>Fetching arguments\<close>

definition fetchint :: "u32 \<Rightarrow> kernel \<Rightarrow> u32 option outcome" where
  "fetchint addr k = bnd (curproc k) (\<lambda>p.
     let sz = p_sz (ptable k ! p) in
     if addr \<ge> sz \<or> addr + 4 > sz then Ok None
     else bnd (uload addr 4 k) (\<lambda>bs. Ok (Some (get32 bs 0))))"

text \<open>The bytes from \<open>s\<close> to the first NUL, if there is one before \<open>n\<close> bytes.\<close>

fun fetchstr_loop :: "mem \<Rightarrow> u32 \<Rightarrow> u32 \<Rightarrow> nat \<Rightarrow> u8 list option outcome" where
  "fetchstr_loop m pgdir s 0 = Ok None"
| "fetchstr_loop m pgdir s (Suc n) =
     (case vload m pgdir s of
        None \<Rightarrow> Panic ''trap''
      | Some b \<Rightarrow>
          if b = 0 then Ok (Some [])
          else bnd (fetchstr_loop m pgdir (s + 1) n) (\<lambda>r. Ok (map_option (\<lambda>bs. b # bs) r)))"

definition fetchstr :: "u32 \<Rightarrow> kernel \<Rightarrow> u8 list option outcome" where
  "fetchstr addr k = bnd (curproc k) (\<lambda>p.
     let sz = p_sz (ptable k ! p) in
     if addr \<ge> sz then Ok None
     else fetchstr_loop (km_mem (kmm k)) (p_pgdir (ptable k ! p)) addr (unat sz - unat addr))"

definition argint :: "nat \<Rightarrow> kernel \<Rightarrow> u32 option outcome" where
  "argint n k = bnd (curproc k) (\<lambda>p. fetchint (tf_esp (p_tf (ptable k ! p)) + 4 + 4 * of_nat n) k)"

definition argptr :: "nat \<Rightarrow> int \<Rightarrow> kernel \<Rightarrow> u32 option outcome" where
  "argptr n size' k = bnd (curproc k) (\<lambda>p. bnd (argint n k) (\<lambda>r.
     case r of
       None \<Rightarrow> Ok None
     | Some i \<Rightarrow>
         (let sz = p_sz (ptable k ! p) in
          if size' < 0 \<or> i \<ge> sz \<or> i + of_int size' > sz then Ok None else Ok (Some i))))"

definition argstr :: "nat \<Rightarrow> kernel \<Rightarrow> u8 list option outcome" where
  "argstr n k = bnd (argint n k) (\<lambda>r. case r of None \<Rightarrow> Ok None | Some addr \<Rightarrow> fetchstr addr k)"

text \<open>Fail with -1, or go on with the value.\<close>

definition need :: "'a option outcome \<Rightarrow> kernel \<Rightarrow> ('a \<Rightarrow> (int \<times> kernel) outcome) \<Rightarrow> (int \<times> kernel) outcome" where
  "need m k f = bnd m (\<lambda>r. case r of None \<Rightarrow> Ok (-1, k) | Some x \<Rightarrow> f x)"

section \<open>File descriptors\<close>

definition argfd :: "nat \<Rightarrow> kernel \<Rightarrow> (nat \<times> nat) option outcome" where
  "argfd n k = bnd (argint n k) (\<lambda>r.
     case r of
       None \<Rightarrow> Ok None
     | Some w \<Rightarrow>
         if sint w < 0 \<or> sint w \<ge> int NOFILE then Ok None
         else bnd (curproc k) (\<lambda>p.
           case p_ofile (ptable k ! p) ! nat (sint w) of
             None \<Rightarrow> Ok None
           | Some f \<Rightarrow> Ok (Some (nat (sint w), f))))"

definition fdalloc :: "nat \<Rightarrow> nat option kop" where
  "fdalloc f k = bnd (curproc k) (\<lambda>p.
     case find (\<lambda>fd. p_ofile (ptable k ! p) ! fd = None) [0..<NOFILE] of
       None \<Rightarrow> Ok (None, k)
     | Some fd \<Rightarrow> Ok (Some fd, upd_proc p (\<lambda>x. x\<lparr>p_ofile := (p_ofile x)[fd := Some f]\<rparr>) k))"

definition clear_fd :: "nat \<Rightarrow> kproc" where
  "clear_fd fd k = bnd (curproc k) (\<lambda>p. Ok (upd_proc p (\<lambda>x. x\<lparr>p_ofile := (p_ofile x)[fd := None]\<rparr>) k))"

definition sys_dup :: "int kop" where
  "sys_dup k = need (argfd 0 k) k (\<lambda>(_, f).
     bnd (fdalloc f k) (\<lambda>(r, k).
     case r of
       None \<Rightarrow> Ok (-1, k)
     | Some fd \<Rightarrow> bnd (filedup f k) (\<lambda>(_, k). Ok (int fd, k))))"

definition sys_read :: "kdevsw \<Rightarrow> int kop" where
  "sys_read devsw k = need (argfd 0 k) k (\<lambda>(_, f). need (argint 2 k) k (\<lambda>n. need (argptr 1 (sint n) k) k (\<lambda>p.
     bnd (fileread devsw f (sint n) k) (\<lambda>((r, bs), k). bnd (ustore p bs k) (\<lambda>k. Ok (r, k))))))"

definition sys_write :: "kdevsw \<Rightarrow> int kop" where
  "sys_write devsw k = need (argfd 0 k) k (\<lambda>(_, f). need (argint 2 k) k (\<lambda>n. need (argptr 1 (sint n) k) k (\<lambda>p.
     bnd (uload p (unat n) k) (\<lambda>bs. filewrite devsw f bs k))))"

definition sys_close :: "kenv \<Rightarrow> int kop" where
  "sys_close env k = need (argfd 0 k) k (\<lambda>(fd, f).
     bnd (clear_fd fd k) (\<lambda>k. bnd (fileclose env f k) (\<lambda>k. Ok (0, k))))"

text \<open>\<open>struct stat\<close> in memory: \<open>type\<close>, \<open>dev\<close>, \<open>ino\<close>, \<open>nlink\<close>, \<open>size\<close>, with padding after the two short fields.\<close>

definition stat_pieces :: "stat \<Rightarrow> (u32 \<times> u8 list) list" where
  "stat_pieces st = [(0, bytes16 (st_type st)), (4, bytes32 (st_dev st)), (8, bytes32 (st_ino st)),
     (12, bytes16 (st_nlink st)), (16, bytes32 (st_size st))]"

definition sys_fstat :: "int kop" where
  "sys_fstat k = need (argfd 0 k) k (\<lambda>(_, f). need (argptr 1 20 k) k (\<lambda>st.
     bnd (filestat f k) (\<lambda>((r, s), k).
     case s of
       None \<Rightarrow> Ok (r, k)
     | Some s \<Rightarrow> bnd (for_each (\<lambda>(o', bs). ustore (st + o') bs) (stat_pieces s) k) (\<lambda>k. Ok (r, k)))))"

section \<open>Names\<close>

definition sys_link_bad :: "nat \<Rightarrow> int kop" where
  "sys_link_bad ip k =
     bnd (ilock ip k) (\<lambda>k.
     bnd (iupdate ip (upd_di ip (\<lambda>d. d\<lparr>d_nlink := d_nlink d - 1\<rparr>) k)) (\<lambda>k.
     bnd (iunlockput ip k) (\<lambda>k.
     bnd (kend_op k) (\<lambda>k. Ok (-1, k)))))"

definition sys_link :: "kdevsw \<Rightarrow> int kop" where
  "sys_link devsw k = need (argstr 0 k) k (\<lambda>old. need (argstr 1 k) k (\<lambda>new.
     bnd (kbegin_op k) (\<lambda>k.
     bnd (knamei devsw old k) (\<lambda>(r, k).
     case r of
       None \<Rightarrow> bnd (kend_op k) (\<lambda>k. Ok (-1, k))
     | Some ip \<Rightarrow>
         bnd (ilock ip k) (\<lambda>k.
         if d_type (i_di (ino k ip)) = T_DIR then
           bnd (iunlockput ip k) (\<lambda>k. bnd (kend_op k) (\<lambda>k. Ok (-1, k)))
         else
           bnd (iupdate ip (upd_di ip (\<lambda>d. d\<lparr>d_nlink := d_nlink d + 1\<rparr>) k)) (\<lambda>k.
           bnd (iunlock ip k) (\<lambda>k.
           bnd (knameiparent devsw new k) (\<lambda>((r, name), k).
           case r of
             None \<Rightarrow> sys_link_bad ip k
           | Some dp \<Rightarrow>
               bnd (ilock dp k) (\<lambda>k.
               bnd (if i_dev (ino k dp) \<noteq> i_dev (ino k ip) then Ok (-1, k)
                    else dirlink devsw dp name (i_inum (ino k ip)) k) (\<lambda>(r, k).
               if r < 0 then bnd (iunlockput dp k) (sys_link_bad ip)
               else
                 bnd (iunlockput dp k) (\<lambda>k.
                 bnd (iput ip k) (\<lambda>k.
                 bnd (kend_op k) (\<lambda>k. Ok (0, k))))))))))))))"

fun isdirempty_loop :: "kdevsw \<Rightarrow> nat \<Rightarrow> u32 list \<Rightarrow> bool kop" where
  "isdirempty_loop devsw dp [] k = Ok (True, k)"
| "isdirempty_loop devsw dp (off # offs) k = bnd (readi devsw dp off 16 k) (\<lambda>((r, de), k).
     if r \<noteq> 16 then Panic ''isdirempty: readi''
     else if de_inum de \<noteq> 0 then Ok (False, k)
     else isdirempty_loop devsw dp offs k)"

definition isdirempty :: "kdevsw \<Rightarrow> nat \<Rightarrow> bool kop" where
  "isdirempty devsw dp k = isdirempty_loop devsw dp (drop 2 (dirent_offs (d_size (i_di (ino k dp))))) k"

definition sys_unlink_bad :: "nat \<Rightarrow> int kop" where
  "sys_unlink_bad dp k = bnd (iunlockput dp k) (\<lambda>k. bnd (kend_op k) (\<lambda>k. Ok (-1, k)))"

text \<open>From the point where the entry at \<open>off\<close> of \<open>dp\<close> and its inode \<open>ip\<close> are locked and may go.\<close>

definition unlink_entry :: "kdevsw \<Rightarrow> nat \<Rightarrow> nat \<Rightarrow> u32 \<Rightarrow> int kop" where
  "unlink_entry devsw dp ip off k =
     bnd (writei devsw dp (replicate 16 0) off 16 k) (\<lambda>(r, k).
     if r \<noteq> 16 then Panic ''unlink: writei''
     else
       bnd (if d_type (i_di (ino k ip)) = T_DIR
            then iupdate dp (upd_di dp (\<lambda>d. d\<lparr>d_nlink := d_nlink d - 1\<rparr>) k) else Ok k) (\<lambda>k.
       bnd (iunlockput dp k) (\<lambda>k.
       bnd (iupdate ip (upd_di ip (\<lambda>d. d\<lparr>d_nlink := d_nlink d - 1\<rparr>) k)) (\<lambda>k.
       bnd (iunlockput ip k) (\<lambda>k.
       bnd (kend_op k) (\<lambda>k. Ok (0, k)))))))"

definition sys_unlink :: "kdevsw \<Rightarrow> int kop" where
  "sys_unlink devsw k = need (argstr 0 k) k (\<lambda>path.
     bnd (kbegin_op k) (\<lambda>k.
     bnd (knameiparent devsw path k) (\<lambda>((r, name), k).
     case r of
       None \<Rightarrow> bnd (kend_op k) (\<lambda>k. Ok (-1, k))
     | Some dp \<Rightarrow>
         bnd (ilock dp k) (\<lambda>k.
         if namecmp name [46, 0] = 0 \<or> namecmp name [46, 46, 0] = 0 then sys_unlink_bad dp k
         else bnd (dirlookup devsw dp name k) (\<lambda>(r, k).
           case r of
             None \<Rightarrow> sys_unlink_bad dp k
           | Some (ip, off) \<Rightarrow>
               bnd (ilock ip k) (\<lambda>k.
               if sint (d_nlink (i_di (ino k ip))) < 1 then Panic ''unlink: nlink < 1''
               else bnd (if d_type (i_di (ino k ip)) = T_DIR then isdirempty devsw ip k else Ok (True, k)) (\<lambda>(e, k).
                 if \<not> e then bnd (iunlockput ip k) (sys_unlink_bad dp)
                 else unlink_entry devsw dp ip off k)))))))"

text \<open>A new inode \<open>ip\<close> of the given type, entered in \<open>dp\<close>.\<close>

definition create_new :: "kdevsw \<Rightarrow> nat \<Rightarrow> u8 list \<Rightarrow> u16 \<Rightarrow> u16 \<Rightarrow> u16 \<Rightarrow> nat option kop" where
  "create_new devsw dp name type major minor k =
     bnd (ialloc (i_dev (ino k dp)) type k) (\<lambda>(ip, k).
     bnd (ilock ip k) (\<lambda>k.
     bnd (iupdate ip (upd_di ip (\<lambda>d. d\<lparr>d_major := major, d_minor := minor, d_nlink := 1\<rparr>) k)) (\<lambda>k.
     bnd (if type = T_DIR then
            bnd (iupdate dp (upd_di dp (\<lambda>d. d\<lparr>d_nlink := d_nlink d + 1\<rparr>) k)) (\<lambda>k.
            bnd (dirlink devsw ip [46, 0] (i_inum (ino k ip)) k) (\<lambda>(r, k).
            if r < 0 then Panic ''create dots''
            else bnd (dirlink devsw ip [46, 46, 0] (i_inum (ino k dp)) k) (\<lambda>(r, k).
              if r < 0 then Panic ''create dots'' else Ok k)))
          else Ok k) (\<lambda>k.
     bnd (dirlink devsw dp name (i_inum (ino k ip)) k) (\<lambda>(r, k).
     if r < 0 then Panic ''create: dirlink''
     else bnd (iunlockput dp k) (\<lambda>k. Ok (Some ip, k)))))))"

definition create :: "kdevsw \<Rightarrow> u8 list \<Rightarrow> u16 \<Rightarrow> u16 \<Rightarrow> u16 \<Rightarrow> nat option kop" where
  "create devsw path type major minor k =
     bnd (knameiparent devsw path k) (\<lambda>((r, name), k).
     case r of
       None \<Rightarrow> Ok (None, k)
     | Some dp \<Rightarrow>
         bnd (ilock dp k) (\<lambda>k.
         bnd (dirlookup devsw dp name k) (\<lambda>(r, k).
         case r of
           Some (ip, _) \<Rightarrow>
             bnd (iunlockput dp k) (\<lambda>k.
             bnd (ilock ip k) (\<lambda>k.
             if type = T_FILE \<and> d_type (i_di (ino k ip)) = T_FILE then Ok (Some ip, k)
             else bnd (iunlockput ip k) (\<lambda>k. Ok (None, k))))
         | None \<Rightarrow> create_new devsw dp name type major minor k)))"

abbreviation (input) O_WRONLY :: u32 where "O_WRONLY \<equiv> 1"
abbreviation (input) O_RDWR :: u32 where "O_RDWR \<equiv> 2"
abbreviation (input) O_CREATE :: u32 where "O_CREATE \<equiv> 0x200"

text \<open>The inode \<open>sys_open\<close> opens, locked; \<open>None\<close> after \<open>end_op\<close> when it returns -1.\<close>

definition open_inode :: "kdevsw \<Rightarrow> u8 list \<Rightarrow> u32 \<Rightarrow> nat option kop" where
  "open_inode devsw path omode k =
     (if omode AND O_CREATE \<noteq> 0 then
        bnd (create devsw path T_FILE 0 0 k) (\<lambda>(r, k).
        case r of None \<Rightarrow> bnd (kend_op k) (\<lambda>k. Ok (None, k)) | Some ip \<Rightarrow> Ok (Some ip, k))
      else
        bnd (knamei devsw path k) (\<lambda>(r, k).
        case r of
          None \<Rightarrow> bnd (kend_op k) (\<lambda>k. Ok (None, k))
        | Some ip \<Rightarrow>
            bnd (ilock ip k) (\<lambda>k.
            if d_type (i_di (ino k ip)) = T_DIR \<and> omode \<noteq> 0 then
              bnd (iunlockput ip k) (\<lambda>k. bnd (kend_op k) (\<lambda>k. Ok (None, k)))
            else Ok (Some ip, k))))"

definition sys_open :: "kenv \<Rightarrow> kdevsw \<Rightarrow> int kop" where
  "sys_open env devsw k = need (argstr 0 k) k (\<lambda>path. need (argint 1 k) k (\<lambda>omode.
     bnd (kbegin_op k) (\<lambda>k.
     bnd (open_inode devsw path omode k) (\<lambda>(r, k).
     case r of
       None \<Rightarrow> Ok (-1, k)
     | Some ip \<Rightarrow>
         (case filealloc k of
            (None, k) \<Rightarrow> bnd (iunlockput ip k) (\<lambda>k. bnd (kend_op k) (\<lambda>k. Ok (-1, k)))
          | (Some f, k) \<Rightarrow>
              bnd (fdalloc f k) (\<lambda>(r, k).
              case r of
                None \<Rightarrow>
                  bnd (fileclose env f k) (\<lambda>k.
                  bnd (iunlockput ip k) (\<lambda>k. bnd (kend_op k) (\<lambda>k. Ok (-1, k))))
              | Some fd \<Rightarrow>
                  bnd (iunlock ip k) (\<lambda>k.
                  bnd (kend_op k) (\<lambda>k.
                  Ok (int fd, upd_file f (\<lambda>x. x\<lparr>f_type := FD_INODE, f_ip := ip, f_off := 0,
                    f_readable := (omode AND O_WRONLY = 0),
                    f_writable := (omode AND O_WRONLY \<noteq> 0 \<or> omode AND O_RDWR \<noteq> 0)\<rparr>) k)))))))))"

definition sys_mkdir :: "kdevsw \<Rightarrow> int kop" where
  "sys_mkdir devsw k =
     bnd (kbegin_op k) (\<lambda>k.
     bnd (argstr 0 k) (\<lambda>a.
     bnd (case a of None \<Rightarrow> Ok (None, k) | Some path \<Rightarrow> create devsw path T_DIR 0 0 k) (\<lambda>(r, k).
     case r of
       None \<Rightarrow> bnd (kend_op k) (\<lambda>k. Ok (-1, k))
     | Some ip \<Rightarrow> bnd (iunlockput ip k) (\<lambda>k. bnd (kend_op k) (\<lambda>k. Ok (0, k))))))"

definition sys_mknod :: "kdevsw \<Rightarrow> int kop" where
  "sys_mknod devsw k =
     bnd (kbegin_op k) (\<lambda>k.
     bnd (argstr 0 k) (\<lambda>a. bnd (argint 1 k) (\<lambda>b. bnd (argint 2 k) (\<lambda>c.
     bnd (case (a, b, c) of
            (Some path, Some major, Some minor) \<Rightarrow> create devsw path T_DEV (ucast major) (ucast minor) k
          | _ \<Rightarrow> Ok (None, k)) (\<lambda>(r, k).
     case r of
       None \<Rightarrow> bnd (kend_op k) (\<lambda>k. Ok (-1, k))
     | Some ip \<Rightarrow> bnd (iunlockput ip k) (\<lambda>k. bnd (kend_op k) (\<lambda>k. Ok (0, k))))))))"

definition sys_chdir :: "kdevsw \<Rightarrow> int kop" where
  "sys_chdir devsw k = bnd (curproc k) (\<lambda>p.
     bnd (kbegin_op k) (\<lambda>k.
     bnd (argstr 0 k) (\<lambda>a.
     bnd (case a of None \<Rightarrow> Ok (None, k) | Some path \<Rightarrow> knamei devsw path k) (\<lambda>(r, k).
     case r of
       None \<Rightarrow> bnd (kend_op k) (\<lambda>k. Ok (-1, k))
     | Some ip \<Rightarrow>
         bnd (ilock ip k) (\<lambda>k.
         if d_type (i_di (ino k ip)) \<noteq> T_DIR then
           bnd (iunlockput ip k) (\<lambda>k. bnd (kend_op k) (\<lambda>k. Ok (-1, k)))
         else
           bnd (iunlock ip k) (\<lambda>k.
           bnd (case p_cwd (ptable k ! p) of None \<Rightarrow> Undef ''chdir: no cwd'' | Some c \<Rightarrow> iput c k) (\<lambda>k.
           bnd (kend_op k) (\<lambda>k.
           Ok (0, upd_proc p (\<lambda>x. x\<lparr>p_cwd := Some ip\<rparr>) k)))))))))"

end
