(* ===== verification/Trap.thy ===== *)
theory Trap
  imports Syscall
begin

text \<open>
  The remaining system calls (\<open>sys_exec\<close> and \<open>sys_pipe\<close> of \<open>sysfile.c\<close>, all of \<open>sysproc.c\<close>), the
  dispatch \<open>syscall\<close> of \<open>syscall.c\<close>, and \<open>trap\<close> of \<open>trap.c\<close>.

  A system call returns a value or, for \<open>exit\<close>, never returns (\<open>None\<close>).  The handlers of device
  interrupts other than the timer (disk, keyboard, serial port, network card) are an argument
  \<open>devintr\<close>.
\<close>

section \<open>exec and pipe\<close>

text \<open>The argument vector from the address \<open>uargv\<close> on; \<open>i\<close> counts down from \<open>MAXARG\<close>.\<close>

fun fetch_argv :: "nat \<Rightarrow> u32 \<Rightarrow> kernel \<Rightarrow> u8 list list option outcome" where
  "fetch_argv 0 uargv k = Ok None"
| "fetch_argv (Suc i) uargv k = bnd (fetchint uargv k) (\<lambda>r.
     case r of
       None \<Rightarrow> Ok None
     | Some uarg \<Rightarrow>
         if uarg = 0 then Ok (Some [])
         else bnd (fetchstr uarg k) (\<lambda>r.
           case r of
             None \<Rightarrow> Ok None
           | Some arg \<Rightarrow> bnd (fetch_argv i (uargv + 4) k) (\<lambda>r. Ok (map_option (\<lambda>args. arg # args) r))))"

definition sys_exec :: "kenv \<Rightarrow> kdevsw \<Rightarrow> int kop" where
  "sys_exec env devsw k = need (argstr 0 k) k (\<lambda>path. need (argint 1 k) k (\<lambda>uargv.
     need (fetch_argv MAXARG uargv k) k (\<lambda>argv. exec env devsw path argv k)))"

definition sys_pipe :: "kenv \<Rightarrow> int kop" where
  "sys_pipe env k = need (argptr 0 8 k) k (\<lambda>fd.
     bnd (pipealloc env k) (\<lambda>(r, k).
     case r of
       None \<Rightarrow> Ok (-1, k)
     | Some (rfile, wfile) \<Rightarrow>
         bnd (fdalloc rfile k) (\<lambda>(fd0, k).
         bnd (case fd0 of None \<Rightarrow> Ok (None, k) | Some _ \<Rightarrow> fdalloc wfile k) (\<lambda>(fd1, k).
         case (fd0, fd1) of
           (Some a, Some b) \<Rightarrow>
             bnd (ustore fd (bytes32 (of_nat a)) k) (\<lambda>k.
             bnd (ustore (fd + 4) (bytes32 (of_nat b)) k) (\<lambda>k. Ok (0, k)))
         | _ \<Rightarrow>
             bnd (case fd0 of None \<Rightarrow> Ok k | Some a \<Rightarrow> clear_fd a k) (\<lambda>k.
             bnd (fileclose env rfile k) (\<lambda>k.
             bnd (fileclose env wfile k) (\<lambda>k. Ok (-1, k))))))))"

section \<open>sysproc.c\<close>

definition sys_fork :: "kenv \<Rightarrow> int kop" where
  "sys_fork env k = fork env k"

definition sys_exit :: "kenv \<Rightarrow> int option kop" where
  "sys_exit env k = bnd (exit env k) (\<lambda>k. Ok (None, k))"

definition sys_wait :: "kenv \<Rightarrow> int kop" where
  "sys_wait env k = wait env k"

definition sys_kill :: "int kop" where
  "sys_kill k = need (argint 0 k) k (\<lambda>pid. Ok (kill (sint pid) k))"

definition sys_getpid :: "int kop" where
  "sys_getpid k = bnd (curproc k) (\<lambda>p. Ok (p_pid (ptable k ! p), k))"

definition sys_sbrk :: "kenv \<Rightarrow> int kop" where
  "sys_sbrk env k = need (argint 0 k) k (\<lambda>n. bnd (curproc k) (\<lambda>p.
     let addr = sint (p_sz (ptable k ! p)) in
     bnd (growproc env (sint n) k) (\<lambda>(r, k). if r < 0 then Ok (-1, k) else Ok (addr, k))))"

text \<open>One turn of the loop of \<open>sys_sleep\<close>; the comparison is unsigned.\<close>

definition sleep_turn :: "u32 \<Rightarrow> u32 \<Rightarrow> int kop" where
  "sleep_turn n ticks0 k =
     (if ticks k - ticks0 < n then
        bnd (curproc k) (\<lambda>p. if p_killed (ptable k ! p) then Ok (-1, k) else Sleeps ChTicks)
      else Ok (0, k))"

definition sys_sleep :: "int kop" where
  "sys_sleep k = need (argint 0 k) k (\<lambda>n. sleep_turn n (ticks k) k)"

definition sys_uptime :: "int kop" where
  "sys_uptime k = Ok (sint (ticks k), k)"

definition sys_uthread_init :: "int kop" where
  "sys_uthread_init k = need (argint 0 k) k (\<lambda>funcaddr. uthread_init funcaddr k)"

section \<open>Dispatch\<close>

definition returning :: "int kop \<Rightarrow> int option kop" where
  "returning f k = bnd (f k) (\<lambda>(r, k). Ok (Some r, k))"

definition syscalls :: "kenv \<Rightarrow> kdevsw \<Rightarrow> (int option kop) list" where
  "syscalls env devsw =
     [returning (sys_fork env), sys_exit env, returning (sys_wait env), returning (sys_pipe env),
      returning (sys_read devsw), returning sys_kill, returning (sys_exec env devsw), returning sys_fstat,
      returning (sys_chdir devsw), returning sys_dup, returning sys_getpid, returning (sys_sbrk env),
      returning sys_sleep, returning sys_uptime, returning (sys_open env devsw), returning (sys_write devsw),
      returning (sys_mknod devsw), returning (sys_unlink devsw), returning (sys_link devsw),
      returning (sys_mkdir devsw), returning (sys_close env), returning sys_uthread_init]"

definition set_eax :: "nat \<Rightarrow> int \<Rightarrow> kernel \<Rightarrow> kernel" where
  "set_eax p r k = upd_proc p (\<lambda>x. x\<lparr>p_tf := (p_tf x)\<lparr>tf_eax := of_int r\<rparr>\<rparr>) k"

text \<open>The flag tells whether the call returned to the process.\<close>

definition syscall :: "kenv \<Rightarrow> kdevsw \<Rightarrow> bool kop" where
  "syscall env devsw k = bnd (curproc k) (\<lambda>p.
     let num = sint (tf_eax (p_tf (ptable k ! p))) in
     if num > 0 \<and> num \<le> int (length (syscalls env devsw)) then
       bnd ((syscalls env devsw ! (nat num - 1)) k) (\<lambda>(r, k).
       case r of None \<Rightarrow> Ok (False, k) | Some r \<Rightarrow> Ok (True, set_eax p r k))
     else Ok (True, set_eax p (-1) k))"

section \<open>Traps\<close>

abbreviation (input) T_SYSCALL :: u32 where "T_SYSCALL \<equiv> 64"
abbreviation (input) T_IRQ0 :: u32 where "T_IRQ0 \<equiv> 32"

definition killed :: "kernel \<Rightarrow> bool" where
  "killed k = (case cur k of None \<Rightarrow> False | Some p \<Rightarrow> p_killed (ptable k ! p))"

definition trap_syscall :: "kenv \<Rightarrow> kdevsw \<Rightarrow> trapframe \<Rightarrow> kproc" where
  "trap_syscall env devsw tf k = bnd (curproc k) (\<lambda>p.
     if killed k then exit env k
     else bnd (syscall env devsw (upd_proc p (\<lambda>x. x\<lparr>p_tf := tf\<rparr>) k)) (\<lambda>(back, k).
       if back \<and> killed k then exit env k else Ok k))"

text \<open>
  The timer interrupt counts on the first processor only; on every processor it may send the
  process to its user-level scheduler.
\<close>

definition trap_timer :: "kernel \<Rightarrow> kernel" where
  "trap_timer k =
     (let k = (if me k = 0 then wakeup ChTicks (k\<lparr>ticks := ticks k + 1\<rparr>) else k) in
      case cur k of
        None \<Rightarrow> k
      | Some p \<Rightarrow>
          if p_scheduler (ptable k ! p) \<noteq> -1 \<and> unat (ticks k) mod 30 = 0 then
            upd_proc p (\<lambda>x. x\<lparr>p_tf := (p_tf x)\<lparr>tf_eip := p_scheduler x\<rparr>\<rparr>) k
          else k)"

definition from_user :: "trapframe \<Rightarrow> bool" where
  "from_user tf \<longleftrightarrow> tf_cs tf AND 3 = 3"

definition dev_irqs :: "u32 list" where
  "dev_irqs = [T_IRQ0 + 14, T_IRQ0 + 15, T_IRQ0 + 1, T_IRQ0 + 4, T_IRQ0 + 0xB, T_IRQ0 + 31]"

definition trap_cause :: "(u32 \<Rightarrow> kproc) \<Rightarrow> trapframe \<Rightarrow> kproc" where
  "trap_cause devintr tf k =
     (if tf_trapno tf = T_IRQ0 then Ok (trap_timer k)
      else if tf_trapno tf \<in> set dev_irqs then devintr (tf_trapno tf) k
      else case cur k of
        None \<Rightarrow> Panic ''trap''
      | Some p \<Rightarrow>
          if tf_cs tf AND 3 = 0 then Panic ''trap'' else Ok (upd_proc p (\<lambda>x. x\<lparr>p_killed := True\<rparr>) k))"

text \<open>
  The frame of a trap from user mode is at the top of the kernel stack, where \<open>p->tf\<close> points.
\<close>

definition trap_enter :: "trapframe \<Rightarrow> kernel \<Rightarrow> kernel" where
  "trap_enter tf k =
     (case cur k of
        None \<Rightarrow> k
      | Some p \<Rightarrow> if from_user tf then upd_proc p (\<lambda>x. x\<lparr>p_tf := tf\<rparr>) k else k)"

definition trap :: "kenv \<Rightarrow> kdevsw \<Rightarrow> (u32 \<Rightarrow> kproc) \<Rightarrow> trapframe \<Rightarrow> kproc" where
  "trap env devsw devintr tf k =
     (let k = trap_enter tf k in
      if tf_trapno tf = T_SYSCALL then trap_syscall env devsw tf k
      else bnd (trap_cause devintr tf k) (\<lambda>k.
        if killed k \<and> from_user tf then exit env k
        else case cur k of
          None \<Rightarrow> Ok k
        | Some p \<Rightarrow>
            if p_state (ptable k ! p) = RUNNING \<and> tf_trapno tf = T_IRQ0 then yield env k else Ok k))"

text \<open>What \<open>trap\<close> executes after \<open>yield\<close> returned.\<close>

definition trap_after_yield :: "kenv \<Rightarrow> trapframe \<Rightarrow> kproc" where
  "trap_after_yield env tf k = (if killed k \<and> from_user tf then exit env k else Ok k)"

end
