(* ===== verification/Fs_Frame.thy ===== *)
theory Fs_Frame
  imports Fs
begin

text \<open>
  The operations of the file system leave alone whatever the kernel state adds to theirs
  (\<open>fsys.more\<close>): processes, open files, page memory.
\<close>

named_theorems frame \<open>operations that keep the extension of the file system state\<close>

lemma more_upd [simp]:
  "fsys.more (upd_ino ip f s) = fsys.more s" "fsys.more (upd_di ip g s) = fsys.more s"
  "fsys.more (fset i d s) = fsys.more s" "fsys.more (fwakeup ch s) = fsys.more s"
  "fsys.more (irelease ip s) = fsys.more s" "fsys.more (snd (idup ip s)) = fsys.more s"
  by (simp_all add: upd_ino_def upd_di_def fset_def fwakeup_def irelease_def idup_def)

lemma fbread_more [frame]: "fbread dev n s = Ok (i, s') \<Longrightarrow> fsys.more s' = fsys.more s"
  by (auto simp: fbread_def outcome_simps)

lemma fbrelse_more [frame]: "fbrelse i s = Ok s' \<Longrightarrow> fsys.more s' = fsys.more s"
  by (auto simp: fbrelse_def outcome_simps)

lemma flog_write_more [frame]: "flog_write i s = Ok s' \<Longrightarrow> fsys.more s' = fsys.more s"
  by (auto simp: flog_write_def outcome_simps)

lemma freadsb_more [frame]: "freadsb dev s = Ok s' \<Longrightarrow> fsys.more s' = fsys.more s"
  by (auto simp: freadsb_def outcome_simps)

lemma bfree_more [frame]: "bfree dev b s = Ok s' \<Longrightarrow> fsys.more s' = fsys.more s"
  by (auto simp: bfree_def outcome_simps Let_def dest!: frame split: if_splits)

lemma iupdate_more [frame]: "iupdate ip s = Ok s' \<Longrightarrow> fsys.more s' = fsys.more s"
  by (auto simp: iupdate_def outcome_simps Let_def dest!: frame)

lemma itrunc_direct_more [frame]: "itrunc_direct ip is s = Ok s' \<Longrightarrow> fsys.more s' = fsys.more s"
proof (induction "is" arbitrary: s)
  case (Cons i "is")
  then show ?case by (auto simp: outcome_simps dest!: bfree_more split: if_splits)
qed simp

lemma itrunc_indirect_more [frame]: "itrunc_indirect ip bp js s = Ok s' \<Longrightarrow> fsys.more s' = fsys.more s"
proof (induction js arbitrary: s)
  case (Cons j js)
  then show ?case by (auto simp: outcome_simps dest!: bfree_more split: if_splits)
qed simp

lemma itrunc_more [frame]: "itrunc ip s = Ok s' \<Longrightarrow> fsys.more s' = fsys.more s"
  by (auto simp: itrunc_def outcome_simps Let_def dest!: frame split: if_splits)

lemma iput_more [frame]: "iput ip s = Ok s' \<Longrightarrow> fsys.more s' = fsys.more s"
  by (auto simp: iput_def outcome_simps Let_def dest!: frame split: if_splits)

lemma ilock_more [frame]:
  assumes "ilock ip s = Ok s'"
  shows "fsys.more s' = fsys.more s"
proof -
  obtain lk where lk: "acquiresleep (ChInode ip) (fpid s) (i_lock (ino s ip)) = Ok lk"
    using assms by (auto simp: ilock_def outcome_simps split: if_splits)
  define t where "t = upd_ino ip (\<lambda>i. i\<lparr>i_lock := lk\<rparr>) s"
  have "fsys.more s' = fsys.more t"
    using assms unfolding ilock_def lk by (auto simp: outcome_simps Let_def t_def [symmetric] dest!: frame split: if_splits)
  then show ?thesis by (simp add: t_def)
qed

lemma iunlock_more [frame]: "iunlock ip s = Ok s' \<Longrightarrow> fsys.more s' = fsys.more s"
  by (auto simp: iunlock_def split: if_splits)

lemma iunlockput_more [frame]: "iunlockput ip s = Ok s' \<Longrightarrow> fsys.more s' = fsys.more s"
  by (auto simp: iunlockput_def outcome_simps dest!: frame)

lemma iinit_more [frame]: "iinit dev s = Ok s' \<Longrightarrow> fsys.more s' = fsys.more s"
  by (auto simp: iinit_def dest!: frame)

end
