(* ===== verification/Sched.thy ===== *)
theory Sched
  imports Proc Fs_Frame
begin

text \<open>
  Scheduling: which processes run where, and for how long one can wait.  The lemmas first show
  that the operations other than the context switches keep the set of running processes and
  their processors; \<open>sched_step\<close> then interleaves the operations of all processors.
\<close>

section \<open>What the lower layers keep\<close>

lemma kernel_more:
  assumes "fsys.more k' = fsys.more (k :: kernel)"
  shows "ptable k' = ptable k" "smps k' = smps k" "me k' = me k" "initproc k' = initproc k" "k_scan k' = k_scan k"
    "ftable k' = ftable k" "kmm k' = kmm k" "kpgdir k' = kpgdir k" "nextpid k' = nextpid k" "pipes k' = pipes k"
  using assms by (cases k; cases k'; simp)+

definition runs :: "kernel \<Rightarrow> nat \<Rightarrow> bool" where
  "runs k i \<longleftrightarrow> i < length (ptable k) \<and> p_state (ptable k ! i) = RUNNING"

definition on_cpu :: "kernel \<Rightarrow> nat \<Rightarrow> nat option" where
  "on_cpu k c = (if c < length (cpus (smps k)) then c_proc (cpus (smps k) ! c) else None)"

text \<open>Same running processes on the same processors, and nothing new for \<open>exit\<close> and \<open>wait\<close>.\<close>

definition same_running :: "kernel \<Rightarrow> kernel \<Rightarrow> bool" where
  "same_running k k' \<longleftrightarrow> length (ptable k') = length (ptable k) \<and> runs k' = runs k \<and> on_cpu k' = on_cpu k \<and>
     length (cpus (smps k')) = length (cpus (smps k)) \<and> me k' = me k \<and> initproc k' = initproc k \<and>
     k_scan k' = k_scan k"

lemma same_running_refl [simp]: "same_running k k"
  by (simp add: same_running_def)

lemma same_running_trans: "same_running k1 k2 \<Longrightarrow> same_running k2 k3 \<Longrightarrow> same_running k1 k3"
  by (auto simp: same_running_def)

lemma same_running_cur: "same_running k k' \<Longrightarrow> me k < length (cpus (smps k)) \<Longrightarrow> cur k' = cur k"
  by (auto simp: same_running_def on_cpu_def cur_def fun_eq_iff dest: spec [where x = "me k"])

lemma same_running_more:
  assumes "fsys.more k' = fsys.more k"
  shows "same_running k k'"
  using kernel_more [OF assms] by (simp add: same_running_def runs_def on_cpu_def fun_eq_iff)

lemma same_running_upd_proc:
  "(p_state (f (ptable k ! i)) = RUNNING \<longleftrightarrow> p_state (ptable k ! i) = RUNNING) \<Longrightarrow> same_running k (upd_proc i f k)"
  by (cases "i < length (ptable k)") (auto simp: same_running_def runs_def on_cpu_def upd_proc_def fun_eq_iff nth_list_update)

lemma running_upd_procI:
  "same_running k x \<Longrightarrow> (p_state (f (ptable x ! i)) = RUNNING \<longleftrightarrow> p_state (ptable x ! i) = RUNNING) \<Longrightarrow>
   same_running k (upd_proc i f x)"
  by (rule same_running_trans [OF _ same_running_upd_proc])

lemma same_running_upds [simp]:
  "same_running k (upd_file f g k)" "same_running k (k\<lparr>kmm := s\<rparr>)" "same_running k (k\<lparr>pipes := ps\<rparr>)"
  "same_running k (k\<lparr>lg := l\<rparr>)" "same_running k (k\<lparr>nextpid := n\<rparr>)" "same_running k (k\<lparr>ticks := t\<rparr>)"
  by (simp_all add: same_running_def runs_def on_cpu_def upd_file_def fun_eq_iff)

lemma same_running_wakeup [simp]: "same_running k (wakeup ch k)"
  by (auto simp: same_running_def runs_def on_cpu_def wakeup_def wakeup1_def sleeping_on_def fun_eq_iff split: if_splits)

lemma same_running_wake_pipe: "same_running k (wake_pipe a cs k)"
  unfolding wake_pipe_def
proof (induction cs arbitrary: k)
  case (Cons c cs)
  show ?case using same_running_trans [OF same_running_wakeup Cons] by simp
qed simp

lemma with_pipe_running: "with_pipe a f k = Ok (r, k') \<Longrightarrow> same_running k k'"
  using same_running_trans [OF same_running_upds(3) same_running_wake_pipe]
  by (auto simp: with_pipe_def split: option.splits prod.splits)

lemma kop_running:
  "kkfree env a k = Ok k' \<Longrightarrow> same_running k k'" "kbegin_op k = Ok k' \<Longrightarrow> same_running k k'"
  "kend_op k = Ok k' \<Longrightarrow> same_running k k'" "on_mem g k = Ok (x, k') \<Longrightarrow> same_running k k'"
  "iput ip k = Ok k' \<Longrightarrow> same_running k k'"
  by (auto simp: kkfree_def kbegin_op_def kend_op_def on_mem_def outcome_simps dest: iput_more same_running_more)

lemma kkalloc_running: "kkalloc k = (a, k') \<Longrightarrow> same_running k k'"
  by (auto simp: kkalloc_def split: prod.splits)

lemma fileclose_running:
  assumes "fileclose env f k = Ok k'"
  shows "same_running k k'"
proof -
  have pc: "same_running k k'" if "kpipeclose env a w k = Ok k'" for a w k k'
    using that by (auto simp: kpipeclose_def outcome_simps split: if_splits
      intro: same_running_trans [OF with_pipe_running] same_running_trans [OF same_running_upds(3) kop_running(1)])
  have op: "same_running k k'" if "bnd (kbegin_op k) (\<lambda>k. bnd (iput ip k) kend_op) = Ok k'" for ip k k'
    using that by (auto simp: outcome_simps dest!: kop_running intro: same_running_trans)
  have u: "same_running k (upd_file f g (upd_file f h k))" for g h by (rule same_running_trans [OF same_running_upds(1,1)])
  show ?thesis using assms
    by (auto simp: fileclose_def Let_def split: if_splits fdtype.splits dest!: pc op intro: u same_running_trans [OF u])
qed

lemma for_each_running:
  "(\<And>i k k'. i \<in> set is \<Longrightarrow> f i k = Ok k' \<Longrightarrow> same_running k k') \<Longrightarrow> for_each f is k = Ok k' \<Longrightarrow> same_running k k'"
proof (induction "is" arbitrary: k)
  case (Cons i "is")
  then obtain k1 where "f i k = Ok k1" "for_each f is k1 = Ok k'" by (auto simp: outcome_simps)
  moreover have "same_running k1 k'" by (rule Cons.IH) (use Cons.prems(1) calculation in auto)
  ultimately show ?case using Cons.prems(1) [of i] by (auto intro: same_running_trans)
qed simp

lemma close_fd_running: "close_fd env p fd k = Ok k' \<Longrightarrow> same_running k k'"
  by (auto simp: close_fd_def outcome_simps dest!: fileclose_running split: option.splits
    intro: running_upd_procI)

lemma dup_ofile_running: "dup_ofile p np i k = Ok k' \<Longrightarrow> same_running k k'"
  by (auto simp: dup_ofile_def filedup_def outcome_simps split: option.splits if_splits
    intro: running_upd_procI)

lemma wake_proc_running: "same_running k (wake_proc p k)"
  by (simp add: wake_proc_def split: option.splits)

lemma reparent_running: "same_running k (reparent p i k)"
  by (auto simp: reparent_def Let_def intro!: same_running_trans [OF _ wake_proc_running] running_upd_procI)

lemma fold_reparent_running: "same_running k (fold (reparent p) is k)"
proof (induction "is" arbitrary: k)
  case (Cons i "is")
  show ?case using same_running_trans [OF reparent_running Cons] by simp
qed simp

section \<open>The invariant\<close>

definition sched_inv :: "kernel \<Rightarrow> bool" where
  "sched_inv k \<longleftrightarrow>
     (\<forall>c p. on_cpu k c = Some p \<longrightarrow> runs k p) \<and>
     (\<forall>p. runs k p \<longrightarrow> (\<exists>c. on_cpu k c = Some p)) \<and>
     (\<forall>c c' p. on_cpu k c = Some p \<longrightarrow> on_cpu k c' = Some p \<longrightarrow> c = c')"

lemma sched_inv_same: "same_running k k' \<Longrightarrow> sched_inv k' = sched_inv k"
  by (simp add: same_running_def sched_inv_def)

lemma sched_inv_at: "sched_inv (k\<lparr>me := c\<rparr>) = sched_inv k"
  by (simp add: sched_inv_def runs_def on_cpu_def)

lemma cur_on_cpu: "cur k = Some p \<Longrightarrow> me k < length (cpus (smps k)) \<Longrightarrow> on_cpu k (me k) = Some p"
  by (simp add: cur_def on_cpu_def)

lemma kupd_cpu_on_cpu: "on_cpu (kupd_cpu f k) c =
    (if c = me k \<and> c < length (cpus (smps k)) then c_proc (f (cpus (smps k) ! c)) else on_cpu k c)"
  by (simp add: on_cpu_def kupd_cpu_def cpus_upd_cpu)

text \<open>Leaving: the process is no longer \<open>RUNNING\<close> and its processor is free.\<close>

lemma sched_effect:
  assumes "sched env k = Ok k'" "cur k = Some p"
  shows "ptable k' = (ptable k)[p := (ptable k ! p)\<lparr>p_context := \<lparr>cx_eip = e_sched env\<rparr>\<rparr>]"
    "on_cpu k' = (on_cpu k)(me k := None)" "p_state (ptable k ! p) \<noteq> RUNNING" "me k' = me k"
    "k_scan k' = (k_scan k)(me k := Suc p)" "length (cpus (smps k')) = length (cpus (smps k))"
  using assms
  by (auto simp: sched_def curproc_def switchkvm_def upd_proc_def kupd_cpu_def on_cpu_def fun_eq_iff cpus_upd_cpu Let_def
    split: if_splits)

lemma sched_Ok:
  "cur k = Some p \<Longrightarrow> c_ncli (cpus (smps k) ! me k) = 0 \<Longrightarrow> p_state (ptable k ! p) \<noteq> RUNNING \<Longrightarrow> \<exists>k'. sched env k = Ok k'"
  by (simp add: sched_def curproc_def Let_def)

lemma leave_inv:
  assumes inv: "sched_inv k" and cur: "cur k = Some p" and me: "me k < length (cpus (smps k))"
    and s: "sched env (upd_proc p f k) = Ok k'"
  shows "sched_inv k'"
proof -
  have c: "cur (upd_proc p f k) = Some p" using cur by (simp add: cur_def upd_proc_def)
  have p: "runs k p" using inv cur_on_cpu [OF cur me] by (simp add: sched_inv_def)
  note e = sched_effect [OF s c]
  have r: "runs k' i \<longleftrightarrow> runs k i \<and> i \<noteq> p" for i
    using e(1,3) p by (auto simp: runs_def upd_proc_def nth_list_update)
  have o: "on_cpu k' = (on_cpu k)(me k := None)" using e(2) by (simp add: upd_proc_def on_cpu_def fun_eq_iff)
  have "\<exists>c. c \<noteq> me k \<and> on_cpu k c = Some q" if "runs k q" "q \<noteq> p" for q
    using inv cur_on_cpu [OF cur me] that unfolding sched_inv_def by (metis option.inject)
  then have "\<forall>q. runs k' q \<longrightarrow> (\<exists>c. on_cpu k' c = Some q)" unfolding r o by (metis fun_upd_other)
  moreover have "\<forall>c q. on_cpu k' c = Some q \<longrightarrow> runs k' q" "\<forall>c c' q. on_cpu k' c = Some q \<longrightarrow> on_cpu k' c' = Some q \<longrightarrow> c = c'"
    using inv cur_on_cpu [OF cur me] unfolding sched_inv_def r o by (auto split: if_splits)
  ultimately show ?thesis unfolding sched_inv_def by blast
qed

text \<open>Running: the scheduler takes a \<open>RUNNABLE\<close> process to a free processor.\<close>

lemma on_cpu_upd_proc [simp]: "on_cpu (upd_proc p f k) = on_cpu k" "me (upd_proc p f k) = me k"
  "smps (upd_proc p f k) = smps k" "length (ptable (upd_proc p f k)) = length (ptable k)"
  "cur (upd_proc p f k) = cur k" "initproc (upd_proc p f k) = initproc k"
  by (simp_all add: on_cpu_def upd_proc_def fun_eq_iff cur_def)

lemma forkret_running: "forkret k = Ok k' \<Longrightarrow> same_running k k'"
proof (cases "forkret_first k")
  case True
  assume "forkret k = Ok k'"
  with True obtain k1 l where k1: "iinit ROOTDEV (k\<lparr>forkret_first := False\<rparr>) = Ok k1" "k' = k1\<lparr>lg := l\<rparr>"
    by (auto simp: forkret_def outcome_simps)
  have "same_running k (k\<lparr>forkret_first := False\<rparr>)" by (simp add: same_running_def runs_def on_cpu_def fun_eq_iff)
  moreover have "same_running (k\<lparr>forkret_first := False\<rparr>) k1" using iinit_more [OF k1(1)] by (rule same_running_more)
  ultimately have "same_running k k1" by (rule same_running_trans)
  then show ?thesis unfolding k1(2) by (rule same_running_trans) (rule same_running_upds)
qed (simp add: forkret_def)

lemma resume_running: "resume env p k = Ok k' \<Longrightarrow> same_running k k'"
  by (auto simp: resume_def forkret_running same_running_upd_proc split: if_splits)

lemma find_from:
  "find P [a..<b] = Some i \<Longrightarrow> a \<le> i \<and> i < b \<and> P i \<and> (\<forall>j. a \<le> j \<and> j < i \<longrightarrow> \<not> P j)"
proof -
  assume "find P [a..<b] = Some i"
  then obtain n where n: "n < b - a" "P (a + n)" "i = a + n" "\<forall>j < n. \<not> P (a + j)"
    by (auto simp: find_Some_iff)
  have "\<not> P j" if "a \<le> j" "j < i" for j using n that by (metis add_less_cancel_left le_add_diff_inverse)
  then show ?thesis using n by auto
qed

lemma scheduler_step_cases:
  assumes "scheduler_step env k = Ok k'" and me: "me k < length (cpus (smps k))"
  obtains (idle) "\<forall>j. k_scan k (me k) \<le> j \<and> j < length (ptable k) \<longrightarrow> p_state (ptable k ! j) \<noteq> RUNNABLE"
      "k' = k\<lparr>k_scan := (k_scan k)(me k := 0)\<rparr>"
    | (picked) p where "k_scan k (me k) \<le> p" "p < length (ptable k)" "p_state (ptable k ! p) = RUNNABLE"
      "\<forall>j. k_scan k (me k) \<le> j \<and> j < p \<longrightarrow> p_state (ptable k ! j) \<noteq> RUNNABLE"
      "on_cpu k' = (on_cpu k)(me k \<mapsto> p)" "\<forall>i. runs k' i \<longleftrightarrow> i = p \<or> runs k i" "me k' = me k"
      "length (cpus (smps k')) = length (cpus (smps k))" "length (ptable k') = length (ptable k)"
proof (cases "find (\<lambda>i. p_state (ptable k ! i) = RUNNABLE) [k_scan k (me k)..<length (ptable k)]")
  case None
  then have "k' = k\<lparr>k_scan := (k_scan k)(me k := 0)\<rparr>" using assms by (simp add: scheduler_step_def)
  then show ?thesis using None unfolding find_None by (intro idle) auto
next
  case (Some p)
  note f = find_from [OF Some]
  obtain k1 where k1: "switchuvm p (kupd_cpu (\<lambda>c. c\<lparr>c_proc := Some p\<rparr>) k) = Ok k1"
    "resume env p (upd_proc p (\<lambda>x. x\<lparr>p_state := RUNNING\<rparr>) k1) = Ok k'"
    using assms Some by (auto simp: scheduler_step_def outcome_simps)
  have p1: "ptable k1 = ptable k" "me k1 = me k" "length (cpus (smps k1)) = length (cpus (smps k))"
    "on_cpu k1 = (on_cpu k)(me k \<mapsto> p)"
    using k1(1) me by (auto simp: switchuvm_def kupd_cpu_def on_cpu_def fun_eq_iff cpus_upd_cpu split: if_splits)
  define k2 where "k2 = upd_proc p (\<lambda>x. x\<lparr>p_state := RUNNING\<rparr>) k1"
  have k2: "on_cpu k2 = on_cpu k1" "me k2 = me k" "length (cpus (smps k2)) = length (cpus (smps k))"
    "length (ptable k2) = length (ptable k)" by (simp_all add: k2_def p1)
  have r2: "runs k2 i \<longleftrightarrow> i = p \<or> runs k i" for i
    using p1 f by (auto simp: k2_def upd_proc_def runs_def nth_list_update)
  have "same_running k2 k'" using resume_running k1(2) by (simp add: k2_def)
  then have "on_cpu k' = on_cpu k2" "runs k' = runs k2" "me k' = me k2" "length (cpus (smps k')) = length (cpus (smps k2))"
    "length (ptable k') = length (ptable k2)" by (simp_all add: same_running_def)
  then show ?thesis using f k2 r2 p1 by (intro picked [of p]) auto
qed

lemma scheduler_step_inv:
  assumes inv: "sched_inv k" and free: "cur k = None" and me: "me k < length (cpus (smps k))"
    and s: "scheduler_step env k = Ok k'"
  shows "sched_inv k'"
  using s me
proof (cases rule: scheduler_step_cases)
  case idle
  then have "runs k' = runs k" "on_cpu k' = on_cpu k" by (simp_all add: runs_def on_cpu_def fun_eq_iff)
  then show ?thesis using inv by (simp add: sched_inv_def)
next
  case (picked p)
  have "\<not> runs k p" using picked by (simp add: runs_def)
  moreover have "on_cpu k (me k) = None" using free me by (simp add: cur_def on_cpu_def)
  moreover have "\<exists>c. c \<noteq> me k \<and> on_cpu k c = Some q" if "runs k q" for q
    using inv that \<open>on_cpu k (me k) = None\<close> unfolding sched_inv_def by (metis option.distinct(1))
  ultimately have "\<forall>q. runs k' q \<longrightarrow> (\<exists>c. on_cpu k' c = Some q)" using picked by (metis fun_upd_apply)
  moreover have "\<forall>c q. on_cpu k' c = Some q \<longrightarrow> runs k' q" "\<forall>c c' q. on_cpu k' c = Some q \<longrightarrow> on_cpu k' c' = Some q \<longrightarrow> c = c'"
    using inv picked \<open>\<not> runs k p\<close> unfolding sched_inv_def by (auto split: if_splits)
  ultimately show ?thesis unfolding sched_inv_def by blast
qed

section \<open>Creating and removing processes\<close>

lemma running_upd_otherI:
  assumes x: "same_running k x" and n: "\<not> runs k i" and f: "\<And>y. p_state (f y) = st" "st \<noteq> RUNNING"
  shows "same_running k (upd_proc i f x)"
proof (cases "i < length (ptable x)")
  case True
  have "\<not> runs x i" using x n by (simp add: same_running_def)
  with True have "p_state (ptable x ! i) \<noteq> RUNNING" by (simp add: runs_def)
  then show ?thesis using f by (intro running_upd_procI [OF x]) simp
next
  case False
  then have "(ptable x)[i := f (ptable x ! i)] = ptable x" by (intro list_update_beyond) simp
  then have "upd_proc i f x = x" by (simp add: upd_proc_def)
  then show ?thesis using x by simp
qed

lemma allocproc_running:
  assumes "allocproc env k = (r, k')"
  shows "same_running k k' \<and> (\<forall>p. r = Some p \<longrightarrow> \<not> runs k p)"
proof (cases "find_state UNUSED k")
  case None
  then show ?thesis using assms by (auto simp: allocproc_def)
next
  case (Some p)
  then have p: "p < length (ptable k)" "p_state (ptable k ! p) = UNUSED" using find_SomeD by (fastforce simp: find_state_def)+
  then have n: "\<not> runs k p" by (simp add: runs_def)
  define k1 where "k1 = upd_proc p (\<lambda>x. x\<lparr>p_state := EMBRYO, p_pid := nextpid k, p_scheduler := -1\<rparr>) (k\<lparr>nextpid := nextpid k + 1\<rparr>)"
  obtain a k2 where k2: "kkalloc k1 = (a, k2)" by fastforce
  define k3 where "k3 = upd_proc p (\<lambda>x. x\<lparr>p_kstack := a\<rparr>) k2"
  have "same_running k k1" unfolding k1_def by (rule running_upd_otherI [where st = EMBRYO]) (simp_all add: n)
  then have k3: "same_running k k3" unfolding k3_def
    by (intro running_upd_procI same_running_trans [OF _ kkalloc_running [OF k2]]) simp_all
  have e: "allocproc env k = (if a = 0 then (None, upd_proc p (\<lambda>x. x\<lparr>p_state := UNUSED\<rparr>) k3)
      else (Some p, upd_proc p (\<lambda>x. x\<lparr>p_context := \<lparr>cx_eip = e_forkret env\<rparr>\<rparr>)
        (k3\<lparr>kmm := upd_mem (store32 (a + 4096 - 76 - 4) (e_trapret env)) (kmm k3)\<rparr>)))"
    using k2 by (simp add: allocproc_def Some k1_def [symmetric] k3_def Let_def)
  show ?thesis
  proof (cases "a = 0")
    case True
    then show ?thesis using assms e running_upd_otherI [OF k3 n, of "\<lambda>x. x\<lparr>p_state := UNUSED\<rparr>" UNUSED] by simp
  next
    case False
    have "same_running k (upd_proc p (\<lambda>x. x\<lparr>p_context := \<lparr>cx_eip = e_forkret env\<rparr>\<rparr>)
        (k3\<lparr>kmm := upd_mem (store32 (a + 4096 - 76 - 4) (e_trapret env)) (kmm k3)\<rparr>))"
      by (intro running_upd_procI same_running_trans [OF k3 same_running_upds(2)]) simp
    then show ?thesis using assms e False n by auto
  qed
qed

lemma fork_running:
  assumes "fork env k = Ok (r, k')"
  shows "same_running k k'"
proof -
  obtain p where p: "curproc k = Ok p" using assms by (auto simp: fork_def outcome_simps)
  obtain n k1 where k1: "allocproc env k = (n, k1)" by fastforce
  note a = allocproc_running [OF k1]
  show ?thesis
  proof (cases n)
    case None
    then show ?thesis using assms a by (simp add: fork_def p k1)
  next
    case (Some np)
    then have nr: "\<not> runs k np" using a by simp
    obtain d k2 where k2: "on_mem (copyuvm (e_kend env) (e_layout env) (p_pgdir (ptable k1 ! p)) (p_sz (ptable k1 ! p))) k1 = Ok (d, k2)"
      using assms by (auto simp: fork_def p k1 Some outcome_simps)
    define k3 where "k3 = upd_proc np (\<lambda>x. x\<lparr>p_pgdir := d\<rparr>) k2"
    have k3: "same_running k k3" unfolding k3_def
      using a by (intro running_upd_procI same_running_trans [OF _ kop_running(4) [OF k2]]) simp_all
    show ?thesis
    proof (cases "d = 0")
      case True
      then obtain k4 where k4: "kkfree env (p_kstack (ptable k3 ! np)) k3 = Ok k4"
        "k' = upd_proc np (\<lambda>x. x\<lparr>p_kstack := 0, p_state := UNUSED\<rparr>) k4"
        using assms by (auto simp: fork_def p k1 Some k2 k3_def outcome_simps Let_def)
      show ?thesis unfolding k4(2)
        by (rule running_upd_otherI [where st = UNUSED]) (simp_all add: nr same_running_trans [OF k3 kop_running(1) [OF k4(1)]])
    next
      case False
      define k4 where "k4 = upd_proc np (\<lambda>x. x\<lparr>p_sz := p_sz (ptable k3 ! p), p_parent := Some p,
        p_tf := (p_tf (ptable k3 ! p))\<lparr>tf_eax := 0\<rparr>\<rparr>) k3"
      obtain k5 ip where k5: "for_each (dup_ofile p np) [0..<NOFILE] k4 = Ok k5"
        and k': "k' = upd_proc np (\<lambda>x. x\<lparr>p_name := safestrcpy_name (p_name x) (arr (p_name (ptable (upd_proc np (\<lambda>x. x\<lparr>p_cwd := Some ip\<rparr>) (snd (idup ip k5))) ! p))),
          p_state := RUNNABLE\<rparr>) (upd_proc np (\<lambda>x. x\<lparr>p_cwd := Some ip\<rparr>) (snd (idup ip k5)))"
        using assms False by (auto simp: fork_def p k1 Some k2 k3_def [symmetric] k4_def [symmetric] outcome_simps Let_def idup_def split: option.splits)
      have "same_running k k4" unfolding k4_def by (rule running_upd_procI [OF k3]) simp
      then have "same_running k k5"
        by (rule same_running_trans) (rule for_each_running [OF _ k5], rule dup_ofile_running)
      then have "same_running k (snd (idup ip k5))" by (rule same_running_trans) (simp add: same_running_more)
      then have "same_running k (upd_proc np (\<lambda>x. x\<lparr>p_cwd := Some ip\<rparr>) (snd (idup ip k5)))"
        by (rule running_upd_procI) simp
      then show ?thesis unfolding k' by (rule running_upd_otherI [where st = RUNNABLE]) (simp_all add: nr)
    qed
  qed
qed

lemma wait_running:
  assumes "wait env k = Ok (r, k')"
  shows "same_running k k'"
proof -
  obtain p where p: "curproc k = Ok p" using assms by (auto simp: wait_def outcome_simps)
  show ?thesis
  proof (cases "find (\<lambda>i. is_child p k i \<and> p_state (ptable k ! i) = ZOMBIE) [0..<length (ptable k)]")
    case None
    then show ?thesis using assms by (simp add: wait_def p split: if_splits)
  next
    case (Some c)
    then have c: "\<not> runs k c" using find_SomeD [OF Some] by (simp add: runs_def)
    obtain k1 s where k1: "kkfree env (p_kstack (ptable k ! c)) k = Ok k1"
      and k': "k' = upd_proc c (\<lambda>x. x\<lparr>p_pid := 0, p_parent := None, p_name := (p_name x)[0 := 0], p_killed := False,
        p_state := UNUSED\<rparr>) ((upd_proc c (\<lambda>x. x\<lparr>p_kstack := 0\<rparr>) k1)\<lparr>kmm := s\<rparr>)"
      using assms by (auto simp: wait_def p Some reap_def outcome_simps Let_def)
    have "same_running k (upd_proc c (\<lambda>x. x\<lparr>p_kstack := 0\<rparr>) k1)"
      by (intro running_upd_procI kop_running(1) [OF k1]) simp
    then have "same_running k ((upd_proc c (\<lambda>x. x\<lparr>p_kstack := 0\<rparr>) k1)\<lparr>kmm := s\<rparr>)"
      by (rule same_running_trans) (rule same_running_upds)
    then show ?thesis unfolding k' by (rule running_upd_otherI [where st = UNUSED]) (simp_all add: c)
  qed
qed

lemma kill_running: "same_running k (snd (kill pid k))"
  by (auto simp: kill_def split: option.splits if_splits intro!: same_running_upd_proc)

section \<open>Interleaving\<close>

text \<open>
  One step of some processor \<open>c\<close>: a turn of its scheduler when it runs no process, otherwise an
  operation of its process.  \<open>other\<close> stands for the operations that switch nothing.
\<close>

inductive sched_step :: "kenv \<Rightarrow> kernel \<Rightarrow> kernel \<Rightarrow> bool" for env where
  pick: "c < length (cpus (smps k)) \<Longrightarrow> cur (k\<lparr>me := c\<rparr>) = None \<Longrightarrow>
    scheduler_step env (k\<lparr>me := c\<rparr>) = Ok k' \<Longrightarrow> sched_step env k k'"
| yields: "c < length (cpus (smps k)) \<Longrightarrow> yield env (k\<lparr>me := c\<rparr>) = Ok k' \<Longrightarrow> sched_step env k k'"
| sleeps: "c < length (cpus (smps k)) \<Longrightarrow> ksleep env ch (k\<lparr>me := c\<rparr>) = Ok k' \<Longrightarrow> sched_step env k k'"
| exits: "c < length (cpus (smps k)) \<Longrightarrow> exit env (k\<lparr>me := c\<rparr>) = Ok k' \<Longrightarrow> sched_step env k k'"
| forks: "fork env (k\<lparr>me := c\<rparr>) = Ok (r, k') \<Longrightarrow> sched_step env k k'"
| waits: "wait env (k\<lparr>me := c\<rparr>) = Ok (r, k') \<Longrightarrow> sched_step env k k'"
| kills: "sched_step env k (snd (kill pid k))"
| wakes: "sched_step env k (wakeup ch k)"
| other: "same_running (k\<lparr>me := c\<rparr>) k' \<Longrightarrow> sched_step env k k'"

lemma exit_leaves:
  assumes "exit env k = Ok k'" and me: "me k < length (cpus (smps k))"
  obtains p k1 where "cur k = Some p" "same_running k k1" "cur k1 = Some p"
    "sched env (upd_proc p (\<lambda>x. x\<lparr>p_state := ZOMBIE\<rparr>) k1) = Ok k'"
proof -
  obtain p where p: "cur k = Some p" using assms by (auto simp: exit_def curproc_def outcome_simps split: option.splits)
  then obtain k1 ip k2 k3 k4 where
    k: "for_each (close_fd env p) [0..<NOFILE] k = Ok k1" "kbegin_op k1 = Ok k2" "iput ip k2 = Ok k3" "kend_op k3 = Ok k4"
    and s: "sched env (upd_proc p (\<lambda>x. x\<lparr>p_state := ZOMBIE\<rparr>)
        (fold (reparent p) [0..<length (ptable (wake_proc (p_parent (ptable (upd_proc p (\<lambda>x. x\<lparr>p_cwd := None\<rparr>) k4) ! p))
            (upd_proc p (\<lambda>x. x\<lparr>p_cwd := None\<rparr>) k4)))]
          (wake_proc (p_parent (ptable (upd_proc p (\<lambda>x. x\<lparr>p_cwd := None\<rparr>) k4) ! p)) (upd_proc p (\<lambda>x. x\<lparr>p_cwd := None\<rparr>) k4)))) = Ok k'"
    using assms by (auto simp: exit_def curproc_def outcome_simps Let_def split: option.splits if_splits)
  have "same_running k k1" by (rule for_each_running [OF _ k(1)]) (rule close_fd_running)
  then have "same_running k k4" using kop_running(2) [OF k(2)] kop_running(5) [OF k(3)] kop_running(3) [OF k(4)]
    by (blast intro: same_running_trans)
  then have "same_running k (upd_proc p (\<lambda>x. x\<lparr>p_cwd := None\<rparr>) k4)" by (rule running_upd_procI) simp
  then have sr: "same_running k (fold (reparent p) is (wake_proc q (upd_proc p (\<lambda>x. x\<lparr>p_cwd := None\<rparr>) k4)))" for "is" q
    by (rule same_running_trans [OF same_running_trans [OF _ wake_proc_running] fold_reparent_running])
  show ?thesis
    by (rule that [OF p sr _ s]) (use same_running_cur [OF sr me] p in simp)
qed

lemma sched_step_inv:
  assumes "sched_step env k k'" "sched_inv k"
  shows "sched_inv k'"
  using assms
proof (induction rule: sched_step.induct)
  case (pick c k k')
  show ?case by (rule scheduler_step_inv [OF _ pick(2) _ pick(3)]) (use pick in \<open>simp_all add: sched_inv_at\<close>)
next
  case (yields c k k')
  then obtain p where p: "cur (k\<lparr>me := c\<rparr>) = Some p"
    "sched env (upd_proc p (\<lambda>x. x\<lparr>p_state := RUNNABLE\<rparr>) (k\<lparr>me := c\<rparr>)) = Ok k'"
    by (auto simp: yield_def curproc_def outcome_simps split: option.splits)
  show ?case by (rule leave_inv [OF _ p(1) _ p(2)]) (use yields in \<open>simp_all add: sched_inv_at\<close>)
next
  case (sleeps c k ch k')
  then obtain p where p: "cur (k\<lparr>me := c\<rparr>) = Some p"
    "sched env (upd_proc p (\<lambda>x. x\<lparr>p_chan := Some ch, p_state := SLEEPING\<rparr>) (k\<lparr>me := c\<rparr>)) = Ok k'"
    by (auto simp: ksleep_def split: option.splits)
  show ?case by (rule leave_inv [OF _ p(1) _ p(2)]) (use sleeps in \<open>simp_all add: sched_inv_at\<close>)
next
  case (exits c k k')
  obtain p k1 where p: "same_running (k\<lparr>me := c\<rparr>) k1" "cur k1 = Some p"
    "sched env (upd_proc p (\<lambda>x. x\<lparr>p_state := ZOMBIE\<rparr>) k1) = Ok k'"
    by (rule exit_leaves [OF exits(2)]) (use exits in auto)
  then have "sched_inv k1" "me k1 < length (cpus (smps k1))"
    using exits by (simp_all add: sched_inv_same [OF p(1)] sched_inv_at) (simp add: same_running_def)
  then show ?case by (rule leave_inv [OF _ p(2) _ p(3)])
next
  case (forks k c r k')
  then show ?case using sched_inv_same [OF fork_running] by (simp add: sched_inv_at)
next
  case (waits k c r k')
  then show ?case using sched_inv_same [OF wait_running] by (simp add: sched_inv_at)
next
  case (other k c k')
  then show ?case using sched_inv_same by (simp add: sched_inv_at)
qed (simp_all add: sched_inv_same [OF kill_running] sched_inv_same [OF same_running_wakeup])

lemma sched_inv_reach: "(sched_step env)\<^sup>*\<^sup>* k k' \<Longrightarrow> sched_inv k \<Longrightarrow> sched_inv k'"
  by (induction rule: rtranclp_induct) (auto intro: sched_step_inv)

section \<open>Waiting for a processor\<close>

text \<open>
  A turn of the scheduler of one processor: it finds nothing from where it is in the table and
  starts over, or it runs process \<open>q\<close>, which does anything until it leaves through \<open>sched\<close>.
\<close>

definition took_turn :: "kenv \<Rightarrow> kernel \<Rightarrow> kernel \<Rightarrow> nat option \<Rightarrow> bool" where
  "took_turn env k k' q \<longleftrightarrow> me k < length (cpus (smps k)) \<and> cur k = None \<and>
     (q = None \<and> scheduler_step env k = Ok k' \<and> cur k' = None \<or>
      (\<exists>k1 k2 p. q = Some p \<and> scheduler_step env k = Ok k1 \<and> cur k1 = Some p \<and>
         cur k2 = Some p \<and> me k2 = me k1 \<and> length (ptable k2) = length (ptable k1) \<and> sched env k2 = Ok k'))"

definition scan_dist :: "nat \<Rightarrow> nat \<Rightarrow> nat \<Rightarrow> nat" where
  "scan_dist N s p = (if s \<le> p then p - s else N - s + 1 + p)"

lemma took_turn_dist:
  assumes t: "took_turn env k k' q" and p: "p < length (ptable k)" "p_state (ptable k ! p) = RUNNABLE" and q: "q \<noteq> Some p"
  shows "me k' = me k \<and> length (ptable k') = length (ptable k) \<and>
    scan_dist (length (ptable k)) (k_scan k' (me k)) p < scan_dist (length (ptable k)) (k_scan k (me k)) p"
proof (cases q)
  case None
  then have s: "scheduler_step env k = Ok k'" and me: "me k < length (cpus (smps k))" and c: "cur k' = None" 
    using t by (auto simp: took_turn_def)
  from s me show ?thesis
  proof (cases rule: scheduler_step_cases)
    case idle
    then have "p < k_scan k (me k)" using p by (metis leI)
    then show ?thesis using idle(2) by (simp add: scan_dist_def)
  next
    case (picked j)
    then show ?thesis using c me by (auto simp: cur_def on_cpu_def fun_eq_iff dest!: spec [where x = "me k"])
  qed
next
  case (Some j)
  then obtain k1 k2 where s: "scheduler_step env k = Ok k1" "cur k1 = Some j" "cur k2 = Some j" "me k2 = me k1"
    "length (ptable k2) = length (ptable k1)" "sched env k2 = Ok k'" and me: "me k < length (cpus (smps k))" and c: "cur k = None"
    using t by (auto simp: took_turn_def)
  note e = sched_effect [OF s(6,3)]
  from s(1) me show ?thesis
  proof (cases rule: scheduler_step_cases)
    case idle
    then show ?thesis using s(2) c by (simp add: cur_def)
  next
    case (picked i)
    have "i = j" using picked(5,7,8) s(2) me by (auto simp: cur_def on_cpu_def fun_eq_iff dest!: spec [where x = "me k"])
    have j: "k_scan k (me k) \<le> j" "j < length (ptable k)" "j \<noteq> p" using picked \<open>i = j\<close> q Some by auto
    have "j < p" if "k_scan k (me k) \<le> p"
      using picked(4) that p j \<open>i = j\<close> by (metis linorder_neqE_nat)
    then show ?thesis using e s(4,5) picked j by (auto simp: scan_dist_def)
  qed
qed

lemma scan_dist_bound: "s \<le> N \<Longrightarrow> p < N \<Longrightarrow> scan_dist N s p \<le> N"
  by (auto simp: scan_dist_def)

section \<open>Exit\<close>

text \<open>Nothing but wakeups happened to the processes.\<close>

definition only_woken :: "proc list \<Rightarrow> proc list \<Rightarrow> bool" where
  "only_woken ps ps' \<longleftrightarrow> length ps' = length ps \<and>
     (\<forall>i < length ps. ps' ! i = ps ! i \<or> p_state (ps ! i) = SLEEPING \<and> ps' ! i = (ps ! i)\<lparr>p_state := RUNNABLE\<rparr>)"

lemma only_woken_refl [simp]: "only_woken ps ps"
  by (simp add: only_woken_def)

lemma only_woken_trans:
  assumes "only_woken ps qs" "only_woken qs rs"
  shows "only_woken ps rs"
  unfolding only_woken_def
proof (intro conjI allI impI)
  show "length rs = length ps" using assms by (simp add: only_woken_def)
  fix i assume i: "i < length ps"
  have "qs ! i = ps ! i \<or> p_state (ps ! i) = SLEEPING \<and> qs ! i = (ps ! i)\<lparr>p_state := RUNNABLE\<rparr>"
    "rs ! i = qs ! i \<or> p_state (qs ! i) = SLEEPING \<and> rs ! i = (qs ! i)\<lparr>p_state := RUNNABLE\<rparr>"
    using assms i by (auto simp: only_woken_def)
  then show "rs ! i = ps ! i \<or> p_state (ps ! i) = SLEEPING \<and> rs ! i = (ps ! i)\<lparr>p_state := RUNNABLE\<rparr>"
    by (elim disjE) simp_all
qed

lemma only_woken_wakeup1 [simp]: "only_woken ps (wakeup1 ch ps)"
  by (auto simp: only_woken_def wakeup1_def sleeping_on_def)

lemma only_woken_wakeup [simp]: "only_woken (ptable k) (ptable (wakeup ch k))"
  by (simp add: wakeup_def)

lemma only_woken_wake_pipe: "only_woken (ptable k) (ptable (wake_pipe a cs k))"
  unfolding wake_pipe_def
proof (induction cs arbitrary: k)
  case (Cons c cs)
  show ?case using only_woken_trans [OF only_woken_wakeup Cons] by simp
qed simp

lemma fileclose_woken:
  assumes "fileclose env f k = Ok k'"
  shows "only_woken (ptable k) (ptable k')"
proof -
  have wp: "only_woken (ptable k) (ptable k')" if "with_pipe a g k = Ok (x, k')" for a g k x k'
    using that only_woken_wake_pipe [of "k\<lparr>pipes := _\<rparr>"] by (auto simp: with_pipe_def split: option.splits prod.splits)
  have pc: "only_woken (ptable k) (ptable k')" if "kpipeclose env a w k = Ok k'" for a w k k'
    using that by (auto simp: kpipeclose_def kkfree_def outcome_simps dest!: wp split: if_splits)
  have op: "ptable k' = ptable k" if "bnd (kbegin_op k) (\<lambda>k. bnd (iput ip k) kend_op) = Ok k'" for ip k k'
    using that by (auto simp: outcome_simps kbegin_op_def kend_op_def dest!: iput_more kernel_more(1))
  show ?thesis using assms
    by (auto simp: fileclose_def Let_def upd_file_def split: if_splits fdtype.splits dest!: pc op)
qed

text \<open>Parents and channels are the same, and no process but a sleeping one changed its state.\<close>

definition mostly :: "proc list \<Rightarrow> proc list \<Rightarrow> bool" where
  "mostly ps ps' \<longleftrightarrow> length ps' = length ps \<and>
     (\<forall>i < length ps. p_parent (ps' ! i) = p_parent (ps ! i) \<and> p_chan (ps' ! i) = p_chan (ps ! i) \<and>
        (p_state (ps' ! i) = p_state (ps ! i) \<or> p_state (ps ! i) = SLEEPING \<and> p_state (ps' ! i) = RUNNABLE))"

lemma mostly_refl [simp]: "mostly ps ps"
  by (simp add: mostly_def)

lemma mostly_trans: "mostly ps qs \<Longrightarrow> mostly qs rs \<Longrightarrow> mostly ps rs"
  unfolding mostly_def by (metis (no_types, lifting) procstate.distinct(11))

lemma only_woken_mostly:
  assumes "only_woken ps qs"
  shows "mostly ps qs"
  unfolding mostly_def
proof (intro conjI allI impI)
  show "length qs = length ps" using assms by (simp add: only_woken_def)
  fix i assume "i < length ps"
  then have "qs ! i = ps ! i \<or> p_state (ps ! i) = SLEEPING \<and> qs ! i = (ps ! i)\<lparr>p_state := RUNNABLE\<rparr>"
    using assms by (simp add: only_woken_def)
  then show "p_parent (qs ! i) = p_parent (ps ! i)" "p_chan (qs ! i) = p_chan (ps ! i)"
    "p_state (qs ! i) = p_state (ps ! i) \<or> p_state (ps ! i) = SLEEPING \<and> p_state (qs ! i) = RUNNABLE" by auto
qed

lemma mostly_upd_proc:
  "(\<And>x. p_parent (f x) = p_parent x \<and> p_chan (f x) = p_chan x \<and> p_state (f x) = p_state x) \<Longrightarrow>
   mostly (ptable k) (ptable (upd_proc i f k))"
  by (cases "i < length (ptable k)") (auto simp: mostly_def upd_proc_def nth_list_update)

lemma only_woken_fd: "only_woken ps qs \<Longrightarrow> i < length ps \<Longrightarrow> p_ofile (qs ! i) = p_ofile (ps ! i) \<and> p_cwd (qs ! i) = p_cwd (ps ! i)"
  unfolding only_woken_def by fastforce

lemma close_fd_effect:
  assumes "close_fd env p fd k = Ok k'" and p: "p < length (ptable k)"
  shows "mostly (ptable k) (ptable k') \<and> p_cwd (ptable k' ! p) = p_cwd (ptable k ! p) \<and>
    p_ofile (ptable k' ! p) = (p_ofile (ptable k ! p))[fd := None]"
proof (cases "p_ofile (ptable k ! p) ! fd")
  case None
  have "p_ofile (ptable k ! p) = (p_ofile (ptable k ! p))[fd := None]" using None by (metis list_update_id)
  then show ?thesis using assms None by (simp add: close_fd_def)
next
  case (Some f)
  then obtain k1 where k1: "fileclose env f k = Ok k1" "k' = upd_proc p (\<lambda>x. x\<lparr>p_ofile := (p_ofile x)[fd := None]\<rparr>) k1"
    using assms by (auto simp: close_fd_def outcome_simps)
  note w = fileclose_woken [OF k1(1)]
  have "length (ptable k1) = length (ptable k)" using w by (simp add: only_woken_def)
  moreover have "mostly (ptable k) (ptable k')" unfolding k1(2)
    by (rule mostly_trans [OF only_woken_mostly [OF w] mostly_upd_proc]) simp
  ultimately show ?thesis using only_woken_fd [OF w p] p by (simp add: k1(2)) (simp add: upd_proc_def)
qed

lemma close_fds_effect:
  assumes "for_each (close_fd env p) fds k = Ok k'" and p: "p < length (ptable k)"
  shows "mostly (ptable k) (ptable k') \<and> p_cwd (ptable k' ! p) = p_cwd (ptable k ! p) \<and>
    (\<forall>fd < length (p_ofile (ptable k ! p)). p_ofile (ptable k' ! p) ! fd = (if fd \<in> set fds then None else p_ofile (ptable k ! p) ! fd))"
  using assms
proof (induction fds arbitrary: k)
  case (Cons fd fds)
  then obtain k1 where k1: "close_fd env p fd k = Ok k1" "for_each (close_fd env p) fds k1 = Ok k'" by (auto simp: outcome_simps)
  note e = close_fd_effect [OF k1(1) Cons.prems(2)]
  have "p < length (ptable k1)" using e Cons.prems(2) by (simp add: mostly_def)
  note IH = Cons.IH [OF k1(2) this]
  have "mostly (ptable k) (ptable k')" using e IH mostly_trans by blast
  then show ?case using e IH by (auto simp: nth_list_update)
qed simp

text \<open>Process \<open>x\<close> became \<open>y\<close>: with \<open>c\<close>, its parent \<open>p\<close> is replaced by \<open>ini\<close>; it may have been woken.\<close>

definition reparented :: "nat option \<Rightarrow> nat \<Rightarrow> bool \<Rightarrow> proc \<Rightarrow> proc \<Rightarrow> bool" where
  "reparented ini p c x y \<longleftrightarrow> p_ofile y = p_ofile x \<and> p_cwd y = p_cwd x \<and>
     p_parent y = (if c \<and> p_parent x = Some p then ini else p_parent x) \<and>
     (p_state y = p_state x \<or> p_state x = SLEEPING \<and> p_state y = RUNNABLE)"

lemma reparented_trans:
  "reparented ini p c x y \<Longrightarrow> reparented ini p d y z \<Longrightarrow> \<not> (c \<and> d) \<Longrightarrow> reparented ini p (c \<or> d) x z"
  by (auto simp: reparented_def)

lemma reparent_effect:
  assumes i: "i < length (ptable k)"
  shows "length (ptable (reparent p i k)) = length (ptable k) \<and> initproc (reparent p i k) = initproc k \<and>
    (\<forall>j < length (ptable k). reparented (initproc k) p (j = i) (ptable k ! j) (ptable (reparent p i k) ! j))"
  using i by (auto simp: reparented_def reparent_def wake_proc_def wakeup_def wakeup1_def sleeping_on_def upd_proc_def
    nth_list_update Let_def split: option.splits)

lemma fold_reparent_effect:
  assumes "\<forall>i \<in> set is. i < length (ptable k)" "distinct is"
  shows "length (ptable (fold (reparent p) is k)) = length (ptable k) \<and>
    (\<forall>j < length (ptable k). reparented (initproc k) p (j \<in> set is) (ptable k ! j) (ptable (fold (reparent p) is k) ! j))"
  using assms
proof (induction "is" arbitrary: k)
  case Nil
  then show ?case by (simp add: reparented_def)
next
  case (Cons i "is")
  let ?k = "reparent p i k"
  have i: "i < length (ptable k)" using Cons.prems by simp
  note e = reparent_effect [OF i, of p]
  have IH: "length (ptable (fold (reparent p) is ?k)) = length (ptable ?k) \<and> (\<forall>j < length (ptable ?k).
      reparented (initproc ?k) p (j \<in> set is) (ptable ?k ! j) (ptable (fold (reparent p) is ?k) ! j))"
    by (rule Cons.IH) (use Cons.prems e in simp_all)
  have "reparented (initproc k) p (j = i \<or> j \<in> set is) (ptable k ! j) (ptable (fold (reparent p) is ?k) ! j)"
    if "j < length (ptable k)" for j
    by (rule reparented_trans) (use that e IH Cons.prems in auto)
  then show ?case using e IH by simp
qed

lemma exit_steps:
  assumes "exit env k = Ok k'" and p: "cur k = Some p"
  obtains k1 k4 where "for_each (close_fd env p) [0..<NOFILE] k = Ok k1" "ptable k4 = ptable k1" "smps k4 = smps k1"
    "me k4 = me k1" "initproc k4 = initproc k1"
    "sched env (upd_proc p (\<lambda>x. x\<lparr>p_state := ZOMBIE\<rparr>) (fold (reparent p) [0..<length (ptable k4)]
       (wake_proc (p_parent (ptable (upd_proc p (\<lambda>x. x\<lparr>p_cwd := None\<rparr>) k4) ! p)) (upd_proc p (\<lambda>x. x\<lparr>p_cwd := None\<rparr>) k4)))) = Ok k'"
proof -
  obtain k1 ip k2 k3 k4 where
    k: "for_each (close_fd env p) [0..<NOFILE] k = Ok k1" "kbegin_op k1 = Ok k2" "iput ip k2 = Ok k3" "kend_op k3 = Ok k4"
    and s: "sched env (upd_proc p (\<lambda>x. x\<lparr>p_state := ZOMBIE\<rparr>)
        (fold (reparent p) [0..<length (ptable (wake_proc (p_parent (ptable (upd_proc p (\<lambda>x. x\<lparr>p_cwd := None\<rparr>) k4) ! p))
            (upd_proc p (\<lambda>x. x\<lparr>p_cwd := None\<rparr>) k4)))]
          (wake_proc (p_parent (ptable (upd_proc p (\<lambda>x. x\<lparr>p_cwd := None\<rparr>) k4) ! p)) (upd_proc p (\<lambda>x. x\<lparr>p_cwd := None\<rparr>) k4)))) = Ok k'"
    using assms by (auto simp: exit_def curproc_def outcome_simps Let_def split: option.splits if_splits)
  have l: "length (ptable (wake_proc q x)) = length (ptable x)" for q x
    by (simp add: wake_proc_def wakeup_def wakeup1_def split: option.splits)
  have b: "fsys.more k2 = fsys.more k1" "fsys.more k4 = fsys.more k3" using k(2,4) by (auto simp: kbegin_op_def kend_op_def outcome_simps)
  then have "fsys.more k4 = fsys.more k1" using iput_more [OF k(3)] by simp
  from kernel_more [OF this] show ?thesis using s by (intro that [OF k(1), of k4]) (simp_all add: l)
qed

lemma exit_effect:
  assumes ex: "exit env k = Ok k'" and p: "cur k = Some p" "p < length (ptable k)" "length (p_ofile (ptable k ! p)) = 16"
    and me: "me k < length (cpus (smps k))"
  shows "p_state (ptable k' ! p) = ZOMBIE \<and> (\<forall>fd < 16. p_ofile (ptable k' ! p) ! fd = None) \<and> p_cwd (ptable k' ! p) = None \<and>
    (\<forall>i < length (ptable k). p_parent (ptable k' ! i) =
      (if p_parent (ptable k ! i) = Some p then initproc k else p_parent (ptable k ! i))) \<and>
    (\<forall>q. p_parent (ptable k ! p) = Some q \<and> q < length (ptable k) \<and> q \<noteq> p \<and> sleeping_on (ChProc q) (ptable k ! q) \<longrightarrow>
      p_state (ptable k' ! q) = RUNNABLE)"
proof -
  obtain k1 k4 where k1: "for_each (close_fd env p) [0..<NOFILE] k = Ok k1" and k4: "ptable k4 = ptable k1" "initproc k4 = initproc k1"
    and s: "sched env (upd_proc p (\<lambda>x. x\<lparr>p_state := ZOMBIE\<rparr>) (fold (reparent p) [0..<length (ptable k4)]
       (wake_proc (p_parent (ptable (upd_proc p (\<lambda>x. x\<lparr>p_cwd := None\<rparr>) k4) ! p)) (upd_proc p (\<lambda>x. x\<lparr>p_cwd := None\<rparr>) k4)))) = Ok k'"
    and sm: "smps k4 = smps k1" "me k4 = me k1"
    using exit_steps [OF ex p(1)] by metis
  note c = close_fds_effect [OF k1 p(2)]
  have sr: "same_running k k1" by (rule for_each_running [OF _ k1]) (rule close_fd_running)
  have len: "length (ptable k1) = length (ptable k)" using c by (simp add: mostly_def)
  define k5 where "k5 = upd_proc p (\<lambda>x. x\<lparr>p_cwd := None\<rparr>) k4"
  have k5: "ptable k5 = (ptable k1)[p := (ptable k1 ! p)\<lparr>p_cwd := None\<rparr>]" by (simp add: k5_def upd_proc_def k4)
  have par: "p_parent (ptable k5 ! p) = p_parent (ptable k ! p)" using c p(2) len by (simp add: k5 mostly_def)
  define k6 where "k6 = wake_proc (p_parent (ptable k ! p)) k5"
  have k6: "only_woken (ptable k5) (ptable k6)" by (simp add: k6_def wake_proc_def split: option.splits)
  define k7 where "k7 = fold (reparent p) [0..<length (ptable k)] k6"
  have l6: "length (ptable k6) = length (ptable k)" using k6 by (simp add: only_woken_def k5 len)
  have i6: "initproc k6 = initproc k" using sr by (simp add: k6_def k5_def wake_proc_def wakeup_def k4 same_running_def split: option.splits)
  have r: "length (ptable k7) = length (ptable k6) \<and> (\<forall>j < length (ptable k6).
      reparented (initproc k6) p (j \<in> set [0..<length (ptable k)]) (ptable k6 ! j) (ptable k7 ! j))"
    unfolding k7_def by (rule fold_reparent_effect) (simp_all add: l6)
  have s': "sched env (upd_proc p (\<lambda>x. x\<lparr>p_state := ZOMBIE\<rparr>) k7) = Ok k'"
    using s par by (simp add: k7_def k6_def k5_def k4 len)
  have "cur k4 = cur k1" by (simp add: cur_def sm)
  also have "\<dots> = Some p" using same_running_cur [OF sr me] p(1) by simp
  finally have "same_running k4 k7" "cur k4 = Some p"
    unfolding k7_def k6_def k5_def
    by (auto intro!: same_running_trans [OF _ fold_reparent_running] same_running_trans [OF _ wake_proc_running] same_running_upd_proc)
  then have "cur k7 = Some p" using same_running_cur [of k4 k7] me sr by (simp add: sm same_running_def)
  then have cur: "cur (upd_proc p (\<lambda>x. x\<lparr>p_state := ZOMBIE\<rparr>) k7) = Some p" by simp
  have tab: "ptable k' = (ptable k7)[p := (ptable k7 ! p)\<lparr>p_state := ZOMBIE, p_context := \<lparr>cx_eip = e_sched env\<rparr>\<rparr>]"
    using sched_effect(1) [OF s' cur] r p(2) l6 by (simp add: upd_proc_def)
  have j7: "reparented (initproc k) p True (ptable k6 ! j) (ptable k7 ! j)" if "j < length (ptable k)" for j
    using r that l6 i6 by auto
  have j6: "ptable k6 ! j = ptable k5 ! j \<or> p_state (ptable k5 ! j) = SLEEPING \<and> ptable k6 ! j = (ptable k5 ! j)\<lparr>p_state := RUNNABLE\<rparr>"
    if "j < length (ptable k)" for j using k6 that by (simp add: only_woken_def k5 len)
  have p5: "p_parent (ptable k5 ! j) = p_parent (ptable k ! j)" "p_chan (ptable k5 ! j) = p_chan (ptable k ! j)"
    "p_state (ptable k5 ! j) = p_state (ptable k ! j) \<or> p_state (ptable k ! j) = SLEEPING \<and> p_state (ptable k5 ! j) = RUNNABLE"
    if "j < length (ptable k)" for j using c that p(2) by (cases "j = p"; auto simp: k5 mostly_def len)+
  have "p_parent (ptable k' ! i) = (if p_parent (ptable k ! i) = Some p then initproc k else p_parent (ptable k ! i))"
    if "i < length (ptable k)" for i
    using j7 [OF that] j6 [OF that] p5(1) [OF that] that p(2) r l6
    by (cases "i = p") (auto simp: tab reparented_def)
  moreover have "p_state (ptable k' ! q) = RUNNABLE"
    if q: "p_parent (ptable k ! p) = Some q" "q < length (ptable k)" "q \<noteq> p" "sleeping_on (ChProc q) (ptable k ! q)" for q
  proof -
    have "p_state (ptable k6 ! q) = RUNNABLE"
      using q p5 [OF q(2)] by (auto simp: k6_def wake_proc_def wakeup_def wakeup1_def sleeping_on_def k5 len)
    then show ?thesis using j7 [OF q(2)] q(3) by (auto simp: tab reparented_def)
  qed
  moreover have "p_ofile (ptable k' ! p) ! fd = None" if "fd < 16" for fd
    using c j6 [OF p(2)] j7 [OF p(2)] that p r l6 by (auto simp: tab reparented_def k5 len)
  moreover have "p_cwd (ptable k' ! p) = None"
    using j6 [OF p(2)] j7 [OF p(2)] p r l6 by (auto simp: tab reparented_def k5 len)
  ultimately show ?thesis using p(2) r l6 by (simp add: tab)
qed

end
