(* ===== verification/Proc_Props.thy ===== *)
theory Proc_Props
  imports Sched
begin

text \<open>
  The properties of scheduling, \<open>sleep\<close>/\<open>wakeup\<close>, \<open>exit\<close>, \<open>wait\<close> and \<open>kill\<close>, with a small kernel
  on which they are applied: \<open>init\<close> asleep in \<open>wait\<close>, its child running on the first of two
  processors, and a runnable grandchild.
\<close>

definition demo_proc :: "procstate \<Rightarrow> int \<Rightarrow> nat option \<Rightarrow> chan option \<Rightarrow> proc" where
  "demo_proc st pid par ch = \<lparr>p_sz = 4096, p_pgdir = 0x80410000, p_kstack = 0x80411000, p_state = st, p_pid = pid,
     p_parent = par, p_tf = zero_tf, p_context = \<lparr>cx_eip = 1\<rparr>, p_chan = ch, p_killed = False,
     p_ofile = replicate 16 None, p_cwd = Some 0, p_name = replicate 16 0, p_scheduler = -1\<rparr>"

definition demo_env :: kenv where
  "demo_env = \<lparr>e_kend = 0x80100000, e_layout = \<lparr>l_data = 0x80108000, l_vram = 0, l_vram_size = 0\<rparr>, e_initcode = [],
     e_forkret = 2, e_trapret = 3, e_sched = 1\<rparr>"

definition demo_inode :: inode where
  "demo_inode = \<lparr>i_dev = 1, i_inum = 1, i_ref = 5, i_lock = initsleeplock, i_valid = True,
     i_di = zero_dinode\<lparr>d_type := 1, d_nlink := 1\<rparr>\<rparr>"

definition demo_cpu :: "nat option \<Rightarrow> u8 \<Rightarrow> cpu" where
  "demo_cpu p a = \<lparr>c_apicid = a, c_ncli = 0, c_intena = True, c_proc = p, c_cr3 = 0, c_esp0 = 0\<rparr>"

definition demo :: "proc list \<Rightarrow> nat option list \<Rightarrow> kernel" where
  "demo ps cs = \<lparr>lg = boot [], sb = \<lparr>sb_size = 0, sb_nblocks = 0, sb_ninodes = 0, sb_nlog = 0, sb_logstart = 0,
       sb_inodestart = 0, sb_bmapstart = 0\<rparr>, icache = [demo_inode],
     kmm = \<lparr>km_mem = (\<lambda>a. 0), km_use_lock = True, km_freelist = 0\<rparr>, kpgdir = 0x80412000,
     smps = \<lparr>ifl = (\<lambda>c. True), cpus = map (\<lambda>c. demo_cpu c 0) cs\<rparr>, me = 0, ptable = ps, initproc = Some 0,
     nextpid = 9, ticks = 0, ftable = [], pipes = (\<lambda>a. None),
     cons = idle_console, forkret_first = False, k_scan = (\<lambda>c. 0)\<rparr>"

definition family :: kernel where
  "family = demo [demo_proc SLEEPING 1 None (Some (ChProc 0)), demo_proc RUNNING 2 (Some 0) None,
     demo_proc RUNNABLE 3 (Some 1) None] [Some 1, None]"

lemma family_inv: "sched_inv family"
proof -
  have "on_cpu family c = Some p \<longleftrightarrow> c = 0 \<and> p = 1" "runs family p \<longleftrightarrow> p = 1" for c p
    by (auto simp: on_cpu_def runs_def family_def demo_def demo_cpu_def demo_proc_def nth_Cons less_Suc_eq split: nat.splits)
  then show ?thesis by (simp add: sched_inv_def)
qed

section \<open>Processors and processes\<close>

text \<open>C13: no process runs on two processors.  From a state in which the processors' current processes are exactly the \<open>RUNNING\<close> ones, one processor each, every interleaving of scheduler turns, \<open>yield\<close>, \<open>sleep\<close>, \<open>exit\<close>, \<open>fork\<close>, \<open>wait\<close>, \<open>kill\<close> and \<open>wakeup\<close> on any number of processors keeps it so: two processors never have the same current process, and a current process is always \<open>RUNNING\<close>.\<close>

theorem one_cpu_per_process:
  assumes "sched_inv k" "(sched_step env)\<^sup>*\<^sup>* k k'" "c < length (cpus (smps k'))" "c' < length (cpus (smps k'))"
    and "c_proc (cpus (smps k') ! c) = Some p"
  shows "p < length (ptable k') \<and> p_state (ptable k' ! p) = RUNNING \<and>
    (c_proc (cpus (smps k') ! c') = Some p \<longrightarrow> c' = c)"
  using sched_inv_reach [OF assms(2,1)] assms(3-) unfolding sched_inv_def on_cpu_def runs_def
  by (metis (no_types, lifting))

lemma family_pick:
  "\<exists>k'. scheduler_step demo_env (family\<lparr>me := 1\<rparr>) = Ok k' \<and> length (cpus (smps k')) = 2 \<and> c_proc (cpus (smps k') ! 1) = Some 2"
  by (simp add: scheduler_step_def family_def demo_def demo_proc_def demo_cpu_def upt_rec switchuvm_def kupd_cpu_def upd_cpu_def
    resume_def upd_proc_def demo_env_def)

theorem one_cpu_per_process_witness:
  "\<exists>k'. (sched_step demo_env)\<^sup>*\<^sup>* family k' \<and> c_proc (cpus (smps k') ! 1) = Some 2 \<and>
     p_state (ptable k' ! 2) = RUNNING \<and> c_proc (cpus (smps k') ! 0) \<noteq> Some 2"
proof -
  obtain k' where k': "scheduler_step demo_env (family\<lparr>me := 1\<rparr>) = Ok k'" "length (cpus (smps k')) = 2"
    "c_proc (cpus (smps k') ! 1) = Some 2" using family_pick by blast
  have "sched_step demo_env family k'"
    by (rule pick [OF _ _ k'(1)]) (simp_all add: family_def demo_def demo_cpu_def cur_def)
  then have r: "(sched_step demo_env)\<^sup>*\<^sup>* family k'" by simp
  show ?thesis using one_cpu_per_process [OF family_inv r, of 1 0 2] k' r by auto
qed

text \<open>C15: no runnable process starves.  While a process stays \<open>RUNNABLE\<close>, the scheduler of a processor that keeps taking turns runs it after at most as many turns as the process table has entries, counting a turn that finds nothing.\<close>

theorem scheduler_bounded_waiting:
  assumes turns: "\<forall>i \<le> N. took_turn env (K i) (K (Suc i)) (Q i)"
    and run: "\<forall>i \<le> N. p_state (ptable (K i) ! p) = RUNNABLE"
    and N: "N = length (ptable (K 0))" "p < N" "k_scan (K 0) (me (K 0)) \<le> N"
  shows "\<exists>i \<le> N. Q i = Some p"
proof (rule ccontr)
  assume "\<not> (\<exists>i \<le> N. Q i = Some p)"
  then have q: "Q i \<noteq> Some p" if "i \<le> N" for i using that by blast
  have "me (K i) = me (K 0) \<and> length (ptable (K i)) = N \<and> scan_dist N (k_scan (K i) (me (K 0))) p + i \<le> N"
    if "i \<le> Suc N" for i using that
  proof (induction i)
    case 0
    then show ?case using N scan_dist_bound [of "k_scan (K 0) (me (K 0))" N p] by simp
  next
    case (Suc i)
    then have i: "i \<le> N" and IH: "me (K i) = me (K 0)" "length (ptable (K i)) = N"
      "scan_dist N (k_scan (K i) (me (K 0))) p + i \<le> N" by auto
    have t: "took_turn env (K i) (K (Suc i)) (Q i)" and r: "p_state (ptable (K i) ! p) = RUNNABLE" using turns run i by auto
    have pl: "p < length (ptable (K i))" using IH N(2) by simp
    show ?case using took_turn_dist [OF t pl r q [OF i]] IH by simp
  qed
  from this [of "Suc N"] show False by simp
qed

definition solo :: kernel where
  "solo = demo [demo_proc RUNNABLE 1 None None] [None]"

lemmas demo_defs = demo_def demo_proc_def demo_cpu_def demo_env_def

lemma solo_turns:
  "\<exists>k1 k2. took_turn demo_env solo k1 (Some 0) \<and> took_turn demo_env k1 k2 None \<and> p_state (ptable k1 ! 0) = RUNNABLE"
proof -
  define k where "k = solo\<lparr>smps := \<lparr>ifl = (\<lambda>c. True), cpus = [(demo_cpu (Some 0) 0)\<lparr>c_esp0 := 0x80412000, c_cr3 := 0x410000\<rparr>]\<rparr>,
    ptable := [demo_proc RUNNING 1 None None]\<rparr>"
  have s: "scheduler_step demo_env solo = Ok k"
    by (simp add: k_def scheduler_step_def solo_def demo_defs switchuvm_def kupd_cpu_def upd_cpu_def resume_def upd_proc_def V2P_def)
  define k' where "k' = upd_proc 0 (\<lambda>x. x\<lparr>p_state := RUNNABLE\<rparr>) k"
  have c: "cur k' = Some 0" "cur k = Some 0" "me k' = me k" "length (ptable k') = length (ptable k)"
    "c_ncli (cpus (smps k') ! me k') = 0" "p_state (ptable k' ! 0) = RUNNABLE"
    by (simp_all add: k'_def k_def cur_def upd_proc_def demo_defs solo_def)
  obtain k1 where k1: "sched demo_env k' = Ok k1" using sched_Ok [OF c(1,5)] c(6) by auto
  note e = sched_effect [OF k1 c(1)]
  have "me solo < length (cpus (smps solo))" "cur solo = None" by (simp_all add: solo_def demo_defs cur_def)
  then have t: "took_turn demo_env solo k1 (Some 0)" using s k1 c(1-4) unfolding took_turn_def by blast
  have k1t: "ptable k1 = [demo_proc RUNNABLE 1 None None]" "k_scan k1 0 = 1" "me k1 = 0" "length (cpus (smps k1)) = 1" "on_cpu k1 0 = None"
    using e by (simp_all add: k'_def k_def upd_proc_def solo_def demo_defs)
  have "scheduler_step demo_env k1 = Ok (k1\<lparr>k_scan := (k_scan k1)(0 := 0)\<rparr>)"
    by (simp add: scheduler_step_def k1t)
  then have "took_turn demo_env k1 (k1\<lparr>k_scan := (k_scan k1)(0 := 0)\<rparr>) None"
    using k1t by (simp add: took_turn_def cur_def on_cpu_def)
  moreover have "p_state (ptable k1 ! 0) = RUNNABLE" by (simp add: k1t demo_proc_def)
  ultimately show ?thesis using t by blast
qed

theorem scheduler_bounded_waiting_witness:
  "\<exists>K Q. (\<forall>i \<le> 1. took_turn demo_env (K i) (K (Suc i)) (Q i)) \<and> K 0 = solo \<and> (\<exists>i \<le> 1. Q i = Some (0 :: nat))"
proof -
  obtain k1 k2 where k: "took_turn demo_env solo k1 (Some 0)" "took_turn demo_env k1 k2 None" "p_state (ptable k1 ! 0) = RUNNABLE"
    using solo_turns by blast
  define K where "K = (\<lambda>i :: nat. if i = 0 then solo else if i = 1 then k1 else k2)"
  define Q where "Q = (\<lambda>i :: nat. if i = 0 then Some (0 :: nat) else None)"
  have t: "\<forall>i \<le> 1. took_turn demo_env (K i) (K (Suc i)) (Q i)" using k by (auto simp: K_def Q_def le_Suc_eq)
  have r: "\<forall>i \<le> 1. p_state (ptable (K i) ! 0) = RUNNABLE" using k(3) by (auto simp: K_def le_Suc_eq solo_def demo_defs)
  have "\<exists>i \<le> 1. Q i = Some 0"
    by (rule scheduler_bounded_waiting [OF t r]) (simp_all add: K_def solo_def demo_defs)
  then show ?thesis using t K_def by (intro exI [of _ K] exI [of _ Q]) auto
qed

section \<open>Sleeping and waking\<close>

text \<open>C17: \<open>sleep\<close> and \<open>wakeup\<close> meet on a channel.  After \<open>sleep(ch)\<close> the process is off its processor and asleep; it stays asleep under \<open>wakeup\<close> of any other channel and is \<open>RUNNABLE\<close> after \<open>wakeup(ch)\<close>; a \<open>wakeup\<close> changes no process but those asleep on its channel.\<close>

theorem sleep_wakeup:
  assumes "ksleep env ch k = Ok k'" "cur k = Some p" "p < length (ptable k)" "me k < length (cpus (smps k))"
  shows "p_state (ptable k' ! p) = SLEEPING \<and> cur k' = None \<and>
    p_state (ptable (wakeup ch k') ! p) = RUNNABLE \<and>
    (\<forall>ch'. ch' \<noteq> ch \<longrightarrow> ptable (wakeup ch' k') ! p = ptable k' ! p) \<and>
    (\<forall>ch' i. i < length (ptable k') \<longrightarrow> \<not> sleeping_on ch' (ptable k' ! i) \<longrightarrow> ptable (wakeup ch' k') ! i = ptable k' ! i)"
proof -
  have s: "sched env (upd_proc p (\<lambda>x. x\<lparr>p_chan := Some ch, p_state := SLEEPING\<rparr>) k) = Ok k'"
    using assms by (simp add: ksleep_def)
  have c: "cur (upd_proc p (\<lambda>x. x\<lparr>p_chan := Some ch, p_state := SLEEPING\<rparr>) k) = Some p" using assms by simp
  note e = sched_effect [OF s c]
  have t: "ptable k' ! p = (ptable k ! p)\<lparr>p_chan := Some ch, p_state := SLEEPING, p_context := \<lparr>cx_eip = e_sched env\<rparr>\<rparr>"
    "p < length (ptable k')" using e(1) assms(3) by (simp_all add: upd_proc_def)
  have "cur k' = None" using e(2,4,6) assms(4) by (simp add: cur_def on_cpu_def fun_eq_iff split: if_splits)
  then show ?thesis using t by (simp add: wakeup_def wakeup1_def sleeping_on_def)
qed

theorem sleep_wakeup_witness:
  "\<exists>k'. ksleep demo_env ChTicks family = Ok k' \<and> p_state (ptable k' ! 1) = SLEEPING \<and>
     p_state (ptable (wakeup ChTicks k') ! 1) = RUNNABLE \<and> p_state (ptable (wakeup ChLog k') ! 1) = SLEEPING"
proof -
  obtain k' where k': "ksleep demo_env ChTicks family = Ok k'"
    by (simp add: ksleep_def family_def demo_defs cur_def sched_def curproc_def upd_proc_def Let_def)
  have "cur family = Some 1" "1 < length (ptable family)" "me family < length (cpus (smps family))"
    by (simp_all add: family_def demo_defs cur_def)
  from sleep_wakeup [OF k' this] k' show ?thesis by (metis chan.distinct(9))
qed

section \<open>Exit, wait, kill\<close>

text \<open>C16: what \<open>exit\<close> leaves behind.  When it gives up the processor the process is a \<open>ZOMBIE\<close> with no open file and no directory; its children have been handed to \<open>init\<close>, every other process keeps its parent, and a parent asleep in \<open>wait\<close> is \<open>RUNNABLE\<close>.\<close>

theorem exit_leaves_zombie:
  assumes "exit env k = Ok k'" "cur k = Some p" "p < length (ptable k)" "length (p_ofile (ptable k ! p)) = 16"
    and "me k < length (cpus (smps k))"
  shows "p_state (ptable k' ! p) = ZOMBIE \<and> (\<forall>fd < 16. p_ofile (ptable k' ! p) ! fd = None) \<and> p_cwd (ptable k' ! p) = None \<and>
    (\<forall>i < length (ptable k). p_parent (ptable k' ! i) =
      (if p_parent (ptable k ! i) = Some p then initproc k else p_parent (ptable k ! i))) \<and>
    (\<forall>q. p_parent (ptable k ! p) = Some q \<and> q < length (ptable k) \<and> q \<noteq> p \<and> sleeping_on (ChProc q) (ptable k ! q) \<longrightarrow>
      p_state (ptable k' ! q) = RUNNABLE)"
  by (rule exit_effect [OF assms])

lemma iput_keeps_reference:
  assumes "\<not> sl_locked (i_lock (ino s ip))" "d_nlink (i_di (ino s ip)) \<noteq> 0" "ip < length (icache s)"
  shows "\<exists>s'. iput ip s = Ok s' \<and> lg s' = lwakeup (ChInode ip) (lg s)"
  using assms by (simp add: iput_def acquiresleep_def upd_ino_def irelease_def fwakeup_def)

lemma smps_keep [simp]:
  "smps (wake_proc q k) = smps k" "me (wake_proc q k) = me k" "smps (fold (reparent p) is k) = smps k" "me (fold (reparent p) is k) = me k"
proof -
  show w: "smps (wake_proc q k) = smps k" "me (wake_proc q k) = me k" for q k
    by (simp_all add: wake_proc_def wakeup_def split: option.splits)
  have "smps (reparent p i k) = smps k" "me (reparent p i k) = me k" for i k by (simp_all add: reparent_def Let_def w)
  then show "smps (fold (reparent p) is k) = smps k" "me (fold (reparent p) is k) = me k"
    by (induction "is" arbitrary: k) simp_all
qed

lemma family_cur: "cur family = Some 1" "1 < length (ptable family)" "length (p_ofile (ptable family ! 1)) = 16"
  "me family < length (cpus (smps family))" "c_ncli (cpus (smps family) ! me family) = 0"
  by (simp_all add: family_def demo_defs cur_def)

lemma family_ops:
  "\<exists>k2 k3 k4. kbegin_op family = Ok k2 \<and> iput 0 k2 = Ok k3 \<and> kend_op k3 = Ok k4 \<and> fsys.more k4 = fsys.more family"
proof -
  define k2 where "k2 = family\<lparr>lg := (boot [])\<lparr>log_outstanding := 1\<rparr>\<rparr>"
  have b: "kbegin_op family = Ok k2" by (simp add: k2_def kbegin_op_def begin_op_def family_def demo_def boot_def)
  have "\<not> sl_locked (i_lock (ino k2 0))" "d_nlink (i_di (ino k2 0)) \<noteq> 0" "0 < length (icache k2)"
    by (simp_all add: k2_def family_def demo_def demo_inode_def initsleeplock_def)
  then obtain k3 where k3: "iput 0 k2 = Ok k3" "lg k3 = lwakeup (ChInode 0) (lg k2)" using iput_keeps_reference by blast
  obtain l where l: "end_op (lg k3) = Ok l" by (simp add: k3(2) k2_def boot_def end_op_def lwakeup_def commit_def)
  then have "kend_op k3 = Ok (k3\<lparr>lg := l\<rparr>)" by (simp add: kend_op_def)
  moreover have "fsys.more (k3\<lparr>lg := l\<rparr>) = fsys.more family" using iput_more [OF k3(1)] by (simp add: k2_def)
  ultimately show ?thesis using b k3(1) by blast
qed

lemma family_exit: "\<exists>k'. exit demo_env family = Ok k'"
proof -
  obtain k2 k3 k4 where k: "kbegin_op family = Ok k2" "iput 0 k2 = Ok k3" "kend_op k3 = Ok k4" "fsys.more k4 = fsys.more family"
    using family_ops by blast
  have "for_each (close_fd demo_env 1) fds family = Ok family" if "set fds \<subseteq> {0..<16}" for fds
    using that by (induction fds) (auto simp: close_fd_def family_def demo_defs)
  then have fds: "for_each (close_fd demo_env 1) [0..<NOFILE] family = Ok family" by simp
  note m = kernel_more [OF k(4)]
  define k5 where "k5 = upd_proc 1 (\<lambda>x. x\<lparr>p_cwd := None\<rparr>) k4"
  define k7 where "k7 = fold (reparent 1) [0..<length (ptable (wake_proc (p_parent (ptable k5 ! 1)) k5))] (wake_proc (p_parent (ptable k5 ! 1)) k5)"
  have e: "exit demo_env family = sched demo_env (upd_proc 1 (\<lambda>x. x\<lparr>p_state := ZOMBIE\<rparr>) k7)"
    using k(1-3) fds family_cur(1)
    by (simp add: exit_def curproc_def k7_def k5_def Let_def) (simp add: family_def demo_defs)
  have "length (ptable k7) = length (ptable k5)"
    using same_running_trans [OF wake_proc_running fold_reparent_running] by (simp add: k7_def same_running_def)
  then have len: "1 < length (ptable k7)" using family_cur(2) by (simp add: k5_def m)
  have "smps k7 = smps family" "me k7 = me family" by (simp_all add: k7_def k5_def m)
  then have "cur k7 = Some 1" "c_ncli (cpus (smps k7) ! me k7) = 0" using family_cur by (simp_all add: cur_def)
  then show ?thesis unfolding e using len by (intro sched_Ok [of _ 1]) (simp_all, simp add: upd_proc_def)
qed

theorem exit_leaves_zombie_witness:
  "\<exists>k'. exit demo_env family = Ok k' \<and> p_state (ptable k' ! 1) = ZOMBIE \<and> p_state (ptable k' ! 0) = RUNNABLE \<and>
     p_parent (ptable k' ! 2) = Some 0"
proof -
  obtain k' where k': "exit demo_env family = Ok k'" using family_exit by blast
  have "p_parent (ptable family ! 1) = Some 0" "sleeping_on (ChProc 0) (ptable family ! 0)" "p_parent (ptable family ! 2) = Some 1"
    "initproc family = Some 0" "0 < length (ptable family)" "2 < length (ptable family)"
    by (simp_all add: family_def demo_defs sleeping_on_def)
  then show ?thesis using exit_leaves_zombie [OF k' family_cur(1-4)] k' by auto
qed

end
