(* ===== verification/Grep.thy ===== *)
theory Grep
  imports CString
begin

text \<open>
  \<open>grep.c\<close>: the pattern matcher of Kernighan and Pike (\<open>match\<close>, \<open>matchhere\<close>, \<open>matchstar\<close>),
  the loop that reads its input into a buffer of 1024 bytes and prints the matching lines, and
  \<open>main\<close>.  A C string is the list of its bytes before the terminating zero, so \<open>*p == 0\<close> is
  \<open>[]\<close>.  The matcher is related to a reference semantics: the items of a pattern denote a
  language in the usual way.
\<close>

section \<open>The matcher\<close>

abbreviation "Caret \<equiv> (94 :: u8)"
abbreviation "Dollar \<equiv> (36 :: u8)"
abbreviation "Dot \<equiv> (46 :: u8)"
abbreviation "Asterisk \<equiv> (42 :: u8)"
abbreviation "Newline \<equiv> (10 :: u8)"

function matchhere :: "u8 list \<Rightarrow> u8 list \<Rightarrow> bool"
  and matchstar :: "u8 \<Rightarrow> u8 list \<Rightarrow> u8 list \<Rightarrow> bool" where
  "matchhere re str =
     (case re of
        [] \<Rightarrow> True
      | c # re1 \<Rightarrow>
          (if re1 \<noteq> [] \<and> hd re1 = Asterisk then matchstar c (tl re1) str
           else if c = Dollar \<and> re1 = [] then str = []
           else (case str of
                   [] \<Rightarrow> False
                 | t # ts \<Rightarrow> (c = Dot \<or> c = t) \<and> matchhere re1 ts)))"
| "matchstar c re str =
     (matchhere re str \<or>
      (case str of [] \<Rightarrow> False | t # ts \<Rightarrow> (t = c \<or> c = Dot) \<and> matchstar c re ts))"
  by pat_completeness auto
termination
  by (relation "measure (\<lambda>x. case x of Inl (re, str) \<Rightarrow> 2 * length re + length str
        | Inr (c, re, str) \<Rightarrow> 2 * length re + length str + 1)") auto

declare matchhere.simps [simp del] matchstar.simps [simp del]

fun match_any :: "u8 list \<Rightarrow> u8 list \<Rightarrow> bool" where
  "match_any re str = (matchhere re str \<or> (case str of [] \<Rightarrow> False | t # ts \<Rightarrow> match_any re ts))"

declare match_any.simps [simp del]

definition match :: "u8 list \<Rightarrow> u8 list \<Rightarrow> bool" where
  "match re str =
     (if re \<noteq> [] \<and> hd re = Caret then matchhere (tl re) str else match_any re str)"

section \<open>The buffer loop and main\<close>

text \<open>
  \<open>strchr(p, '\n')\<close> on the bytes from \<open>p\<close> to the zero that ends the buffer: the bytes before the
  newline and those after it.
\<close>

fun next_line :: "u8 list \<Rightarrow> (u8 list \<times> u8 list) option" where
  "next_line [] = None"
| "next_line (c # cs) =
     (if c = Newline then Some ([], cs)
      else if c = 0 then None
      else map_option (\<lambda>(l, r). (c # l, r)) (next_line cs))"

lemma next_line_shorter: "next_line cs = Some (l, r) \<Longrightarrow> length r < length cs"
  by (induction cs arbitrary: l) (auto split: if_splits)

text \<open>The inner loop: what is written to descriptor 1, and what is left from \<open>p\<close> on.\<close>

function grep_lines :: "u8 list \<Rightarrow> u8 list \<Rightarrow> u8 list \<times> u8 list" where
  "grep_lines pattern p =
     (case next_line p of
        None \<Rightarrow> ([], p)
      | Some (l, rest) \<Rightarrow>
          (let (out, q) = grep_lines pattern rest in
           ((if match pattern l then l @ [Newline] else []) @ out, q)))"
  by pat_completeness auto
termination
  by (relation "measure (\<lambda>(pattern, p). length p)") (auto dest: next_line_shorter)

declare grep_lines.simps [simp del]

text \<open>
  The outer loop.  \<open>dat\<close> are the \<open>m\<close> bytes of the buffer; \<open>read\<close> delivers, of the input that is
  left, as many bytes as are there at the time (the next of \<open>ks\<close>) and no more than fit.
\<close>

fun grep :: "u8 list \<Rightarrow> u8 list \<Rightarrow> nat list \<Rightarrow> u8 list \<Rightarrow> u8 list" where
  "grep pattern dat [] inp = []"
| "grep pattern dat (k # ks) inp =
     (let n = min k (1024 - length dat - 1); got = take n inp in
      if got = [] then []
      else
        (let b = dat @ got; (out, p) = grep_lines pattern b;
             keep = (if length p = length b then [] else p) in
         out @ grep pattern keep ks (drop n inp)))"

text \<open>
  \<open>main\<close>: the writes it makes, as pairs of a descriptor and bytes.  \<open>opn\<close> stands for \<open>open\<close> and
  the \<open>read\<close>s of a file, \<open>stdin\<close> for those of descriptor 0.
\<close>

fun grep_files :: "(u8 list \<Rightarrow> (nat list \<times> u8 list) option) \<Rightarrow> u8 list \<Rightarrow> u8 list list
    \<Rightarrow> (nat \<times> u8 list) list" where
  "grep_files opn pattern [] = []"
| "grep_files opn pattern (a # as) =
     (case opn a of
        None \<Rightarrow> [(1, map (of_nat \<circ> of_char) ''grep: cannot open '' @ a @ [Newline])]
      | Some (ks, inp) \<Rightarrow> (1, grep pattern [] ks inp) # grep_files opn pattern as)"

definition grep_main :: "(u8 list \<Rightarrow> (nat list \<times> u8 list) option) \<Rightarrow> nat list \<times> u8 list
    \<Rightarrow> u8 list list \<Rightarrow> (nat \<times> u8 list) list" where
  "grep_main opn stdin argv =
     (if length argv \<le> 1 then
        [(2, map (of_nat \<circ> of_char) ''usage: grep pattern [file ...]'' @ [Newline])]
      else if length argv \<le> 2 then [(1, grep (argv ! 1) [] (fst stdin) (snd stdin))]
      else grep_files opn (argv ! 1) (drop 2 argv))"

section \<open>The reference semantics of patterns\<close>

datatype item = Lit u8 | AnyChar | Repeat item

text \<open>The items of a pattern (after a leading \<open>^\<close>), and whether it ends in the anchor \<open>$\<close>.\<close>

fun item_of :: "u8 \<Rightarrow> item" where
  "item_of c = (if c = Dot then AnyChar else Lit c)"

fun items :: "u8 list \<Rightarrow> item list \<times> bool" where
  "items [] = ([], False)"
| "items [c] = (if c = Dollar then ([], True) else ([item_of c], False))"
| "items (c # d # re) =
     (if d = Asterisk then (let (is, e) = items re in (Repeat (item_of c) # is, e))
      else (let (is, e) = items (d # re) in (item_of c # is, e)))"

fun char_in :: "item \<Rightarrow> u8 \<Rightarrow> bool" where
  "char_in (Lit c) t \<longleftrightarrow> t = c"
| "char_in AnyChar t \<longleftrightarrow> True"
| "char_in (Repeat i) t \<longleftrightarrow> False"

inductive in_lang :: "item list \<Rightarrow> u8 list \<Rightarrow> bool" where
  lang_Nil: "in_lang [] []"
| lang_char: "char_in i t \<Longrightarrow> in_lang is ts \<Longrightarrow> in_lang (i # is) (t # ts)"
| lang_rep_stop: "in_lang is ts \<Longrightarrow> in_lang (Repeat i # is) ts"
| lang_rep_more: "char_in i t \<Longrightarrow> in_lang (Repeat i # is) ts \<Longrightarrow> in_lang (Repeat i # is) (t # ts)"

inductive_simps in_lang_Nil [simp]: "in_lang [] ts"
inductive_simps in_lang_Lit [simp]: "in_lang (Lit c # is) ts"
inductive_simps in_lang_Any [simp]: "in_lang (AnyChar # is) ts"
inductive_simps in_lang_Repeat: "in_lang (Repeat i # is) ts"

text \<open>A str has a match of \<open>p\<close> at its beginning: a prefix of it (all of it under \<open>$\<close>) is in the language.\<close>

definition begins :: "item list \<times> bool \<Rightarrow> u8 list \<Rightarrow> bool" where
  "begins p str \<longleftrightarrow>
     (\<exists>xs ys. str = xs @ ys \<and> in_lang (fst p) xs \<and> (snd p \<longrightarrow> ys = []))"

text \<open>What \<open>grep\<close> promises: a match anywhere, or at the beginning only for a pattern that starts with \<open>^\<close>.\<close>

definition occurs :: "u8 list \<Rightarrow> u8 list \<Rightarrow> bool" where
  "occurs re str =
     (if re \<noteq> [] \<and> hd re = Caret then begins (items (tl re)) str
      else (\<exists>ws vs. str = ws @ vs \<and> begins (items re) vs))"

lemma begins_char:
  assumes "\<And>ts. in_lang (i # is) ts \<longleftrightarrow> (\<exists>t us. ts = t # us \<and> char_in i t \<and> in_lang is us)"
  shows "begins (i # is, e) str \<longleftrightarrow> (\<exists>t us. str = t # us \<and> char_in i t \<and> begins (is, e) us)"
proof
  assume "begins (i # is, e) str"
  then obtain xs ys where "str = xs @ ys" "in_lang (i # is) xs" "e \<longrightarrow> ys = []"
    by (auto simp: begins_def)
  moreover from this(2) obtain t us where "xs = t # us" "char_in i t" "in_lang is us"
    using assms by blast
  ultimately show "\<exists>t us. str = t # us \<and> char_in i t \<and> begins (is, e) us"
    by (intro exI [of _ t] exI [of _ "us @ ys"]) (auto simp: begins_def)
next
  assume "\<exists>t us. str = t # us \<and> char_in i t \<and> begins (is, e) us"
  then obtain t xs ys where "str = (t # xs) @ ys" "char_in i t" "in_lang is xs" "e \<longrightarrow> ys = []"
    by (auto simp: begins_def)
  then show "begins (i # is, e) str"
    unfolding begins_def fst_conv snd_conv assms by blast
qed

lemma begins_item_of:
  "begins (item_of c # is, e) str \<longleftrightarrow>
     (case str of [] \<Rightarrow> False | t # ts \<Rightarrow> (c = Dot \<or> c = t) \<and> begins (is, e) ts)"
proof -
  have *: "in_lang (item_of c # is) ts \<longleftrightarrow> (\<exists>t us. ts = t # us \<and> char_in (item_of c) t \<and> in_lang is us)" for ts
    by auto
  show ?thesis
    by (subst begins_char [OF *]) (auto split: list.splits)
qed

lemma begins_Repeat:
  "begins (Repeat (item_of c) # is, e) str \<longleftrightarrow>
     begins (is, e) str \<or>
     (case str of [] \<Rightarrow> False | t # ts \<Rightarrow> (t = c \<or> c = Dot) \<and> begins (Repeat (item_of c) # is, e) ts)"
    (is "?L \<longleftrightarrow> ?R")
proof
  assume ?L
  then obtain xs ys where xy: "str = xs @ ys" "e \<longrightarrow> ys = []" and "in_lang (Repeat (item_of c) # is) xs"
    by (auto simp: begins_def)
  from this(3) consider "in_lang is xs" | t ts where "xs = t # ts" "char_in (item_of c) t" "in_lang (Repeat (item_of c) # is) ts"
    by (subst (asm) in_lang_Repeat) auto
  then show ?R
    using xy by cases (auto simp: begins_def split: if_splits)
next
  assume ?R
  then consider "begins (is, e) str"
    | t ts where "str = t # ts" "t = c \<or> c = Dot" "begins (Repeat (item_of c) # is, e) ts"
    by (auto split: list.splits)
  then show ?L
  proof cases
    case 1
    then show ?thesis by (auto simp: begins_def intro: lang_rep_stop)
  next
    case 2
    then obtain xs ys where xy: "ts = xs @ ys" "in_lang (Repeat (item_of c) # is) xs" "e \<longrightarrow> ys = []"
      by (auto simp: begins_def)
    have "char_in (item_of c) t" using 2 by auto
    from lang_rep_more [OF this xy(2)] 2(1) xy show ?thesis
      unfolding begins_def by (metis append_Cons fst_conv snd_conv)
  qed
qed

lemma begins_items_Nil [simp]: "begins ([], e) str \<longleftrightarrow> (e \<longrightarrow> str = [])"
  by (auto simp: begins_def)

lemma matchhere_matchstar_begins:
  "matchhere re str \<longleftrightarrow> begins (items re) str"
  "matchstar c re str \<longleftrightarrow> begins (Repeat (item_of c) # fst (items re), snd (items re)) str"
proof (induction re str and c re str rule: matchhere_matchstar.induct)
  case (1 re str)
  show ?case
  proof (cases re rule: items.cases)
    case 1
    then show ?thesis by (simp add: matchhere.simps [of "[]"])
  next
    case (2 c)
    then show ?thesis
      using "1.IH"(2) [of c "[]"]
      by (subst matchhere.simps) (auto simp: begins_item_of simp del: item_of.simps split: list.splits)
  next
    case (3 c d re')
    show ?thesis
    proof (cases "d = Asterisk")
      case True
      then show ?thesis
        using "1.IH"(1) [of c "d # re'"] 3
        by (subst matchhere.simps) (auto simp: split_beta simp del: item_of.simps)
    next
      case False
      have "begins (items re) str \<longleftrightarrow> begins (item_of c # fst (items (d # re')), snd (items (d # re'))) str"
        using 3 False by (simp add: split_beta)
      then show ?thesis
        using "1.IH"(2) [of c "d # re'"] 3 False
        by (subst matchhere.simps) (auto simp: begins_item_of simp del: item_of.simps split: list.splits)
    qed
  qed
next
  case (2 c re str)
  show ?case
    using 2 by (subst matchstar.simps, subst begins_Repeat) (auto simp del: item_of.simps split: list.splits)
qed

lemma match_any_iff: "match_any re str \<longleftrightarrow> (\<exists>ws vs. str = ws @ vs \<and> matchhere re vs)"
proof (induction str)
  case Nil
  show ?case by (subst match_any.simps) simp
next
  case (Cons t ts)
  show ?case
    by (subst match_any.simps) (auto simp: Cons.IH Cons_eq_append_conv)
qed

lemma match_eq_occurs: "match re = occurs re"
  by (simp add: fun_eq_iff match_def occurs_def match_any_iff matchhere_matchstar_begins(1))

text \<open>C21: the matcher of \<open>grep\<close> is right: it accepts a str exactly when the language the pattern denotes has a word at the place the anchors allow, a prefix for \<open>^\<close>, a suffix for \<open>$\<close>, anywhere without them.\<close>

theorem match_iff_occurs: "match re str \<longleftrightarrow> occurs re str"
  by (simp add: match_eq_occurs)

section \<open>The output of grep\<close>

text \<open>The complete lines of an input, as \<open>grep\<close> should print them.\<close>

fun lines_of :: "u8 list \<Rightarrow> u8 list \<Rightarrow> u8 list list" where
  "lines_of acc [] = []"
| "lines_of acc (c # cs) = (if c = Newline then acc # lines_of [] cs else lines_of (acc @ [c]) cs)"

definition print_lines :: "u8 list list \<Rightarrow> u8 list" where
  "print_lines ls = concat (map (\<lambda>l. l @ [Newline]) ls)"

fun tail_of :: "u8 list \<Rightarrow> u8 list \<Rightarrow> u8 list" where
  "tail_of acc [] = acc"
| "tail_of acc (c # cs) = (if c = Newline then tail_of [] cs else tail_of (acc @ [c]) cs)"

lemma lines_of_append: "lines_of acc (xs @ ys) = lines_of acc xs @ lines_of (tail_of acc xs) ys"
  by (induction acc xs rule: lines_of.induct) auto

lemma tail_of_no_newline: "Newline \<notin> set xs \<Longrightarrow> tail_of acc (xs @ ys) = tail_of (acc @ xs) ys"
  by (induction xs arbitrary: acc) auto

lemma lines_of_no_newline: "Newline \<notin> set xs \<Longrightarrow> lines_of acc (xs @ ys) = lines_of (acc @ xs) ys"
  by (induction xs arbitrary: acc) auto

lemma tail_of_clean: "Newline \<notin> set acc \<Longrightarrow> Newline \<notin> set (tail_of acc xs)"
  by (induction acc xs rule: tail_of.induct) auto

lemma length_tail_of: "length (tail_of acc xs) \<le> length acc + length xs"
  by (induction acc xs rule: tail_of.induct) auto

lemma length_tail_of_newline: "Newline \<in> set xs \<Longrightarrow> length (tail_of acc xs) < length acc + length xs"
proof (induction acc xs rule: tail_of.induct)
  case (2 acc c cs)
  then show ?case using length_tail_of [of "[]" cs] by (cases "c = Newline") auto
qed simp

lemma next_line_Some:
  "next_line p = Some (l, r) \<Longrightarrow> p = l @ Newline # r \<and> Newline \<notin> set l"
  by (induction p arbitrary: l) (auto split: if_splits)

lemma next_line_None: "0 \<notin> set p \<Longrightarrow> next_line p = None \<Longrightarrow> Newline \<notin> set p"
  by (induction p) (auto split: if_splits)

lemma grep_lines_spec:
  assumes "0 \<notin> set p"
  shows "grep_lines pattern p = (print_lines (filter (match pattern) (lines_of [] p)), tail_of [] p)"
  using assms
proof (induction pattern p rule: grep_lines.induct)
  case (1 pattern p)
  show ?case
  proof (cases "next_line p")
    case None
    with 1 have "Newline \<notin> set p" by (simp add: next_line_None)
    with lines_of_no_newline [of p "[]" "[]"] tail_of_no_newline [of p "[]" "[]"] None show ?thesis
      by (subst grep_lines.simps) (simp add: print_lines_def)
  next
    case (Some lr)
    obtain l r where lr: "lr = (l, r)" by force
    with Some next_line_Some [of p l r] have p: "p = l @ Newline # r" "Newline \<notin> set l" by auto
    have "0 \<notin> set r" using 1(2) p by simp
    from 1(1) [OF Some lr [symmetric] this]
    show ?thesis
      using Some lr p(2)
      by (subst grep_lines.simps) (simp add: p(1) lines_of_no_newline tail_of_no_newline print_lines_def)
  qed
qed

text \<open>
  The reads of the loop: every one gets something, fits into the buffer together with the
  line begun before it, and brings the end of a line.
\<close>

fun line_reads :: "u8 list \<Rightarrow> nat list \<Rightarrow> u8 list \<Rightarrow> bool" where
  "line_reads dat [] inp \<longleftrightarrow> inp = []"
| "line_reads dat (k # ks) inp \<longleftrightarrow>
     (if inp = [] then True
      else 0 < k \<and> k + length dat < 1024 \<and> Newline \<in> set (take k inp) \<and>
        line_reads (tail_of dat (take k inp)) ks (drop k inp))"

lemma grep_spec:
  assumes "line_reads dat ks inp" "0 \<notin> set dat" "0 \<notin> set inp" "Newline \<notin> set dat"
  shows "grep pattern dat ks inp = print_lines (filter (match pattern) (lines_of dat inp))"
  using assms
proof (induction ks arbitrary: dat inp)
  case Nil
  then show ?case by (simp add: print_lines_def)
next
  case (Cons k ks)
  show ?case
  proof (cases "inp = []")
    case True
    then show ?thesis by (simp add: print_lines_def Let_def)
  next
    case False
    define got where "got = take k inp"
    with Cons.prems False have k: "0 < k" "k + length dat < 1024" "Newline \<in> set got"
      and rest: "line_reads (tail_of dat got) ks (drop k inp)" by auto
    have n: "min k (1024 - length dat - 1) = k" using k by simp
    have ne: "got \<noteq> []" using k by auto
    have inp: "inp = got @ drop k inp" by (simp add: got_def)
    have z: "0 \<notin> set (dat @ got)" "0 \<notin> set (drop k inp)" 
      using Cons.prems(2,3) set_take_subset [of k inp] set_drop_subset [of k inp] by (auto simp: got_def)
    have tl: "tail_of [] (dat @ got) = tail_of dat got" "lines_of [] (dat @ got) = lines_of dat got"
      using Cons.prems(4) by (simp_all add: tail_of_no_newline lines_of_no_newline)
    have len: "length (tail_of dat got) \<noteq> length (dat @ got)"
      using length_tail_of_newline [OF k(3), of dat] by simp
    have z': "0 \<notin> set (tail_of dat got)" if "0 \<notin> set dat" "0 \<notin> set got" for got dat :: "u8 list"
      using that by (induction dat got rule: tail_of.induct) auto
    have "0 \<notin> set (tail_of dat got)" using z(1) z' by simp
    note ih = Cons.IH [OF rest this z(2) tail_of_clean [OF Cons.prems(4)]]
    note gl = grep_lines_spec [OF z(1), of pattern]
    have "grep pattern dat (k # ks) inp =
        print_lines (filter (match pattern) (lines_of dat got)) @ grep pattern (tail_of dat got) ks (drop k inp)"
      using ne len
      by (simp only: grep.simps Let_def n got_def [symmetric] gl tl split_conv if_False)
    also have "\<dots> = print_lines (filter (match pattern) (lines_of dat (got @ drop k inp)))"
      by (simp add: ih lines_of_append print_lines_def)
    finally show ?thesis using inp by simp
  qed
qed



text \<open>
  A line whose first part comes in a read of its own is lost: without a newline in the buffer
  the code empties it.  The line \<open>ab\<close> read as \<open>a\<close> and \<open>b\<close> does not match \<open>ab\<close>.
\<close>

lemma grep_loses_split_line:
  "grep [97, 98] [] [1, 2] [97, 98, Newline] = []" "match [97, 98] [97, 98]"
  by (simp_all add: match_def match_any.simps matchhere.simps grep_lines.simps)

end
