(* ===== verification/Kbd.thy ===== *)
theory Kbd
  imports Prelude
begin

text \<open>
  The keyboard driver: the tables of \<open>kbd.h\<close> and \<open>kbdgetc\<close> of \<open>kbd.c\<close>.  A table is given by its
  first entries and the entries at the codes after an \<open>E0\<close> prefix; the rest is \<open>NO\<close>.
  \<open>shift\<close>, a static variable of \<open>kbdgetc\<close>, is state passed along.
\<close>

section \<open>kbd.h\<close>

abbreviation (input) SHIFT :: u32 where "SHIFT \<equiv> 1"
abbreviation (input) CTL :: u32 where "CTL \<equiv> 2"
abbreviation (input) ALT :: u32 where "ALT \<equiv> 4"
abbreviation (input) CAPSLOCK :: u32 where "CAPSLOCK \<equiv> 8"
abbreviation (input) NUMLOCK :: u32 where "NUMLOCK \<equiv> 16"
abbreviation (input) SCROLLLOCK :: u32 where "SCROLLLOCK \<equiv> 32"
abbreviation (input) E0ESC :: u32 where "E0ESC \<equiv> 64"

definition table :: "u8 list \<Rightarrow> (nat \<times> u8) list \<Rightarrow> nat \<Rightarrow> u8" where
  "table xs ys i = (if i < length xs then xs ! i else case map_of ys i of Some c \<Rightarrow> c | None \<Rightarrow> 0)"

definition shiftcode :: "nat \<Rightarrow> u32" where
  "shiftcode i =
     (if i = 0x1D \<or> i = 0x9D then CTL else if i = 0x2A \<or> i = 0x36 then SHIFT
      else if i = 0x38 \<or> i = 0xB8 then ALT else 0)"

definition togglecode :: "nat \<Rightarrow> u32" where
  "togglecode i =
     (if i = 0x3A then CAPSLOCK else if i = 0x45 then NUMLOCK else if i = 0x46 then SCROLLLOCK else 0)"

text \<open>The entries for the arrow and editing keys, the same in all maps.\<close>

definition edit_keys :: "(nat \<times> u8) list" where
  "edit_keys =
     [(0xC8, 0xE2), (0xD0, 0xE3), (0xC9, 0xE6), (0xD1, 0xE7), (0xCB, 0xE4), (0xCD, 0xE5),
      (0x97, 0xE0), (0xCF, 0xE1), (0xD2, 0xE8), (0xD3, 0xE9)]"

definition normalmap :: "nat \<Rightarrow> u8" where
  "normalmap = table
     [0, 0x1B, 49, 50, 51, 52, 53, 54,
      55, 56, 57, 48, 45, 61, 8, 9,
      113, 119, 101, 114, 116, 121, 117, 105,
      111, 112, 91, 93, 10, 0, 97, 115,
      100, 102, 103, 104, 106, 107, 108, 59,
      39, 96, 0, 92, 122, 120, 99, 118,
      98, 110, 109, 44, 46, 47, 0, 42,
      0, 32, 0, 0, 0, 0, 0, 0,
      0, 0, 0, 0, 0, 0, 0, 55,
      56, 57, 45, 52, 53, 54, 43, 49,
      50, 51, 48, 46, 0, 0, 0, 0]
     ([(0x9C, 10), (0xB5, 47)] @ edit_keys)"

definition shiftmap :: "nat \<Rightarrow> u8" where
  "shiftmap = table
     [0, 0x1B, 33, 64, 35, 36, 37, 94,
      38, 42, 40, 41, 95, 43, 8, 9,
      81, 87, 69, 82, 84, 89, 85, 73,
      79, 80, 123, 125, 10, 0, 65, 83,
      68, 70, 71, 72, 74, 75, 76, 58,
      34, 126, 0, 124, 90, 88, 67, 86,
      66, 78, 77, 60, 62, 63, 0, 42,
      0, 32, 0, 0, 0, 0, 0, 0,
      0, 0, 0, 0, 0, 0, 0, 55,
      56, 57, 45, 52, 53, 54, 43, 49,
      50, 51, 48, 46, 0, 0, 0, 0]
     ([(0x9C, 10), (0xB5, 47)] @ edit_keys)"

text \<open>\<open>C(x)\<close> is \<open>x - '@'\<close>.\<close>

definition ctl :: "u8 \<Rightarrow> u8" where
  "ctl x = x - 64"

definition ctlmap :: "nat \<Rightarrow> u8" where
  "ctlmap = table
     [0, 0, 0, 0, 0, 0, 0, 0,
      0, 0, 0, 0, 0, 0, 0, 0,
      ctl 81, ctl 87, ctl 69, ctl 82, ctl 84, ctl 89, ctl 85, ctl 73,
      ctl 79, ctl 80, 0, 0, 13, 0, ctl 65, ctl 83,
      ctl 68, ctl 70, ctl 71, ctl 72, ctl 74, ctl 75, ctl 76, 0,
      0, 0, 0, ctl 92, ctl 90, ctl 88, ctl 67, ctl 86,
      ctl 66, ctl 78, ctl 77, 0, 0, ctl 47, 0, 0]
     ([(0x9C, 13), (0xB5, ctl 47)] @ edit_keys)"

section \<open>kbd.c\<close>

definition charcode :: "nat \<Rightarrow> nat \<Rightarrow> u8" where
  "charcode i = [normalmap, shiftmap, ctlmap, ctlmap] ! i"

text \<open>
  \<open>st\<close> and \<open>d\<close> are what the controller's status and data ports hold.  The result is that of the
  call, \<open>-1\<close> without data.
\<close>

definition kbdgetc :: "u8 \<Rightarrow> u8 \<Rightarrow> u32 \<Rightarrow> int \<times> u32" where
  "kbdgetc st d shift =
     (if st AND 1 = 0 then (-1, shift)
      else if d = 0xE0 then (0, shift OR E0ESC)
      else if d AND 0x80 \<noteq> 0 then
        (let i = unat (if shift AND E0ESC \<noteq> 0 then d else d AND 0x7F)
         in (0, shift AND NOT (shiftcode i OR E0ESC)))
      else
        (let (i, shift) = (if shift AND E0ESC \<noteq> 0 then (unat (d OR 0x80), shift AND NOT E0ESC) else (unat d, shift));
             shift = (shift OR shiftcode i) XOR togglecode i;
             c = uint (charcode (unat (shift AND (CTL OR SHIFT))) i);
             c = (if shift AND CAPSLOCK \<noteq> 0 then
                    (if 97 \<le> c \<and> c \<le> 122 then c - 32 else if 65 \<le> c \<and> c \<le> 90 then c + 32 else c)
                  else c)
         in (c, shift)))"

text \<open>The characters \<open>consoleintr\<close> gets from the scan codes that are waiting.\<close>

fun kbd_keys :: "u8 list \<Rightarrow> u32 \<Rightarrow> int list \<times> u32" where
  "kbd_keys [] shift = ([], shift)"
| "kbd_keys (d # ds) shift =
     (let (c, shift) = kbdgetc 1 d shift; (cs, shift) = kbd_keys ds shift in (c # cs, shift))"

lemma kbdgetc_byte: "st AND 1 \<noteq> 0 \<Longrightarrow> 0 \<le> fst (kbdgetc st d shift) \<and> fst (kbdgetc st d shift) < 256"
proof -
  have "uint (x :: u8) < 256" for x using uint_lt2p [of x] by simp
  then show "st AND 1 \<noteq> 0 \<Longrightarrow> ?thesis" by (auto simp: kbdgetc_def Let_def split: prod.splits)
qed

end
