(* ===== verification/Console_Dev.thy ===== *)
theory Console_Dev
  imports Trap Kbd
begin

text \<open>
  The console in the kernel: the device routines \<open>consoleread\<close> and \<open>consolewrite\<close> and their entry in
  \<open>devsw\<close>, \<open>consoleintr\<close> with its wakeups, \<open>procdump\<close>, \<open>consoleinit\<close>, and the device interrupts of
  \<open>trap\<close>.  \<open>callpcs\<close> gives the return addresses on the kernel stack of a process, which only
  \<open>procdump\<close> looks at; \<open>font\<close> are the glyphs.
\<close>

definition consoleread :: "nat \<Rightarrow> nat \<Rightarrow> (int \<times> u8 list) kop" where
  "consoleread ip n k = bnd (iunlock ip k) (\<lambda>k. bnd (curproc k) (\<lambda>p.
     let (r, i) = consoleread_loop n (p_killed (ptable k ! p)) n [] (con_in (cons k));
         k = k\<lparr>cons := (cons k)\<lparr>con_in := i\<rparr>\<rparr>
     in case r of
          ReadBytes bs \<Rightarrow> bnd (ilock ip k) (\<lambda>k. Ok ((int (length bs), bs), k))
        | ReadKilled \<Rightarrow> bnd (ilock ip k) (\<lambda>k. Ok ((-1, []), k))
        | ReadWaits got \<Rightarrow> Sleeps ChInput))"

definition consolewrite :: "font_table \<Rightarrow> nat \<Rightarrow> u8 list \<Rightarrow> int kop" where
  "consolewrite font ip buf k = bnd (iunlock ip k) (\<lambda>k.
     bnd (console_puts font buf (con_disp (cons k))) (\<lambda>d.
     bnd (ilock ip (k\<lparr>cons := (cons k)\<lparr>con_disp := d\<rparr>\<rparr>)) (\<lambda>k. Ok (int (length buf), k))))"

text \<open>\<open>devsw\<close> after \<open>consoleinit\<close>: the console is device 1.\<close>

definition console_devsw :: "font_table \<Rightarrow> kdevsw" where
  "console_devsw font n = (if n = 1 then (Some consoleread, Some (consolewrite font)) else (None, None))"

definition consoleinit :: "font_table \<Rightarrow> display \<Rightarrow> display outcome" where
  "consoleinit font d =
     for_each (\<lambda>c. graphic_putc font (uint c)) (chars ''Starting XV6_UEFI...'' @ [10]) (d\<lparr>dp_panicked := False\<rparr>)"

section \<open>Interrupts\<close>

definition state_name :: "procstate \<Rightarrow> u8 list" where
  "state_name st = chars
     (case st of UNUSED \<Rightarrow> ''unused'' | EMBRYO \<Rightarrow> ''embryo'' | SLEEPING \<Rightarrow> ''sleep ''
       | RUNNABLE \<Rightarrow> ''runble'' | RUNNING \<Rightarrow> ''run   '' | ZOMBIE \<Rightarrow> ''zombie'')"

text \<open>The addresses 1 and 2 stand for the pointers to the state's and the process's name.\<close>

definition dump_proc :: "font_table \<Rightarrow> (nat \<Rightarrow> u32 list) \<Rightarrow> proc list \<Rightarrow> nat \<Rightarrow> display \<Rightarrow> display outcome" where
  "dump_proc font callpcs ps i d =
     (let p = ps ! i; str = (\<lambda>a. if a = 1 then state_name (p_state p) else takeWhile (\<lambda>c. c \<noteq> 0) (p_name p)) in
      if p_state p = UNUSED then Ok d
      else
        bnd (cprintf font str (Some (chars ''%d %s %s'')) [of_int (p_pid p), 1, 2] d) (\<lambda>d.
        bnd (if p_state p = SLEEPING then
               for_each (\<lambda>pc. cprintf font str (Some (chars '' %p'')) [pc])
                 (takeWhile (\<lambda>pc. pc \<noteq> 0) (take 10 (callpcs i))) d
             else Ok d) (\<lambda>d.
        cprintf font str (Some [10]) [] d)))"

definition procdump :: "font_table \<Rightarrow> (nat \<Rightarrow> u32 list) \<Rightarrow> kproc" where
  "procdump font callpcs k =
     bnd (for_each (dump_proc font callpcs (ptable k)) [0..<length (ptable k)] (con_disp (cons k))) (\<lambda>d.
     Ok (k\<lparr>cons := (cons k)\<lparr>con_disp := d\<rparr>\<rparr>))"

definition kconsoleintr :: "font_table \<Rightarrow> (nat \<Rightarrow> u32 list) \<Rightarrow> int list \<Rightarrow> kproc" where
  "kconsoleintr font callpcs cs k =
     bnd (consoleintr font cs (cons k)) (\<lambda>(dump, woke, c).
     let k = k\<lparr>cons := c\<rparr>; k = (if woke then wakeup ChInput k else k)
     in if dump then procdump font callpcs k else Ok k)"

text \<open>
  The device interrupts: \<open>keys\<close> are the characters \<open>kbdgetc\<close> will return, \<open>rx\<close> the bytes in the serial
  port, \<open>net\<close> is \<open>i8254_intr\<close>.  With the disk image in memory the IDE interrupt does nothing.
\<close>

definition devintr :: "font_table \<Rightarrow> (nat \<Rightarrow> u32 list) \<Rightarrow> int list \<Rightarrow> u8 list \<Rightarrow> kproc \<Rightarrow> u32 \<Rightarrow> kproc" where
  "devintr font callpcs keys rx net trapno k =
     (if trapno = T_IRQ0 + 1 then kconsoleintr font callpcs keys k
      else if trapno = T_IRQ0 + 4 then kconsoleintr font callpcs (map (\<lambda>b. uartgetc True 1 b) rx) k
      else if trapno = T_IRQ0 + 0xB then net k
      else Ok k)"

section \<open>Typing and reading\<close>

text \<open>Enter makes every process asleep in \<open>consoleread\<close> runnable, and the line is what it then reads.\<close>

lemma kconsoleintr_wakes:
  assumes inv: "con_inv (con_in (cons k))" and p: "\<not> dp_panicked (con_disp (cons k))"
    and cs: "\<And>c. c \<in> set cs \<Longrightarrow> safe_key c" "16 \<notin> set cs"
    and line: "fst (fold key cs (ready (con_in (cons k)), edited (con_in (cons k)))) \<noteq> ready (con_in (cons k))"
  shows "\<exists>c. kconsoleintr font callpcs cs k = Ok (wakeup ChInput (k\<lparr>cons := c\<rparr>)) \<and> con_inv (con_in c) \<and>
    (ready (con_in c), edited (con_in c)) = fold key cs (ready (con_in (cons k)), edited (con_in (cons k)))"
proof -
  obtain dump woke s where r: "consoleintr font cs (cons k) = Ok (dump, woke, s)"
    using consoleintr_total [OF p, of cs font] cs(1) by (metis prod.exhaust)
  have "\<forall>c \<in> set cs. 0 \<le> c \<and> c < 256" using cs(1) by (fastforce simp: safe_key_def)
  from consoleintr_spec [OF inv this r]
  have s: "con_inv (con_in s)" "(ready (con_in s), edited (con_in s)) = fold key cs (ready (con_in (cons k)), edited (con_in (cons k)))"
      "woke \<longleftrightarrow> ready (con_in s) \<noteq> ready (con_in (cons k))" "\<not> dump" using cs(2) by auto
  have "woke" using line s(2,3) by (metis fst_conv)
  with r s show ?thesis by (intro exI [of _ s]) (simp add: kconsoleintr_def Let_def)
qed

end
