(* ===== verification/Net.thy ===== *)
theory Net
  imports Kalloc
begin

text \<open>
  The network code: the packet handlers of \<open>eth.c\<close>, \<open>arp.c\<close>, \<open>ipv4.c\<close>, \<open>icmp.c\<close>, \<open>tcp.c\<close> and \<open>http.c\<close>,
  and the transmit ring of \<open>i8254.c\<close>.  Packets are bytes of the kernel memory; the packed structs
  of \<open>pkts_hdr.h\<close> are offsets from the packet's address, their \<open>ushort\<close> and \<open>uint\<close> fields
  little-endian.

  \<open>net\<close> is the state: the allocator with the memory, the variables of the protocols, and the
  registers and descriptors of the transmit ring.  The network card, which moves \<open>TDH\<close>, is outside.
  What is printed is left out.
\<close>

section \<open>State and fields\<close>

record arp_entry =
  ae_ip :: "u8 list"
  ae_mac :: "u8 list"
  ae_use :: u8

record send_desc =
  sd_buf_addr :: u32
  sd_padding :: u32
  sd_len :: u16
  sd_cso :: u8
  sd_cmd :: u8
  sd_sta :: u8
  sd_css :: u8
  sd_special :: u16

record net =
  nm :: kmem
  mac_addr :: "u8 list"
  arp_tab :: "arp_entry list"
  ip_id :: int
  send_id :: u16
  seq_num :: u32
  fin_flag :: int
  tdh :: u32
  tdt :: u32
  txdesc :: "send_desc list"

definition my_ip :: "u8 list" where
  "my_ip = [10, 0, 1, 10]"

definition load16 :: "mem \<Rightarrow> u32 \<Rightarrow> u16" where
  "load16 m a = word16 (m a) (m (a + 1))"

definition store16 :: "u32 \<Rightarrow> u16 \<Rightarrow> mem \<Rightarrow> mem" where
  "store16 a v m = m(a := ucast v, a + 1 := ucast (drop_bit 8 v))"

text \<open>\<open>memmove\<close> from an array of the kernel's own data.\<close>

fun put_bytes :: "u32 \<Rightarrow> u8 list \<Rightarrow> mem \<Rightarrow> mem" where
  "put_bytes a [] m = m"
| "put_bytes a (b # bs) m = put_bytes (a + 1) bs (m(a := b))"

abbreviation (input) sizeof_eth :: u32 where "sizeof_eth \<equiv> 14"
abbreviation (input) sizeof_arp :: u32 where "sizeof_arp \<equiv> 30"
abbreviation (input) sizeof_ipv4 :: u32 where "sizeof_ipv4 \<equiv> 20"
abbreviation (input) sizeof_icmp :: u32 where "sizeof_icmp \<equiv> 64"
abbreviation (input) sizeof_tcp :: u32 where "sizeof_tcp \<equiv> 20"

section \<open>Byte order, eth.c\<close>

definition N2H_ushort :: "u16 \<Rightarrow> u16" where
  "N2H_ushort v = push_bit 8 (v AND 0xFF) + drop_bit 8 v"

definition H2N_ushort :: "u16 \<Rightarrow> u16" where
  "H2N_ushort v = push_bit 8 (v AND 0xFF) + drop_bit 8 v"

definition H2N_uint :: "u32 \<Rightarrow> u32" where
  "H2N_uint v =
     push_bit 24 (v AND 0xF) + push_bit 8 (v AND 0xF0) + drop_bit 8 (v AND 0xF00) + drop_bit 24 (v AND 0xF000)"

definition N2H_uint :: "u32 \<Rightarrow> u32" where
  "N2H_uint v =
     push_bit 24 (v AND 0xFF) + push_bit 8 (v AND 0xFF00) + drop_bit 8 (v AND 0xFF0000) +
     drop_bit 24 (v AND 0xFF000000)"

section \<open>The transmit ring, i8254.c\<close>

abbreviation (input) SEND_DESC_NUM :: nat where "SEND_DESC_NUM \<equiv> 256"

definition on_packet :: "(mem \<Rightarrow> mem) \<Rightarrow> net \<Rightarrow> net" where
  "on_packet f s = s\<lparr>nm := (nm s)\<lparr>km_mem := f (km_mem (nm s))\<rparr>\<rparr>"

definition i8254_send :: "u32 \<Rightarrow> u32 \<Rightarrow> net \<Rightarrow> int \<times> net" where
  "i8254_send pkt_addr len s =
     (let tx_available = 256 - sint ((256 - tdh s + tdt s) mod 256);
          index = unat (tdt s mod 256)
      in if tx_available > 0 then
           (let s = on_packet (memmove (sd_buf_addr (txdesc s ! index) + KERNBASE) pkt_addr len) s;
                d = (txdesc s ! index)\<lparr>sd_len := ucast len, sd_sta := 0, sd_css := 0, sd_cmd := 0xb, sd_special := 0, sd_cso := 0\<rparr>
            in (sint len, s\<lparr>txdesc := (txdesc s)[index := d], tdt := (tdt s + 1) mod 256\<rparr>))
         else (-1, s))"

text \<open>The descriptors as \<open>i8254_init_send\<close> leaves them; \<open>pages\<close> are the results of its calls of \<open>kalloc\<close>.\<close>

definition clear_desc :: "send_desc \<Rightarrow> send_desc" where
  "clear_desc d = d\<lparr>sd_padding := 0, sd_len := 0, sd_cso := 0, sd_cmd := 0, sd_sta := 0, sd_css := 0, sd_special := 0\<rparr>"

fun init_send_buffers :: "nat \<Rightarrow> u32 list \<Rightarrow> send_desc list \<Rightarrow> send_desc list" where
  "init_send_buffers i [] ds = ds"
| "init_send_buffers i (p # ps) ds =
     (if p = 0 \<or> SEND_DESC_NUM div 2 \<le> i then ds
      else
        (let ds = ds[i := (ds ! i)\<lparr>sd_buf_addr := p - KERNBASE\<rparr>];
             ds = ds[i + 1 := (ds ! (i + 1))\<lparr>sd_buf_addr := p + 0x800 - KERNBASE\<rparr>]
         in init_send_buffers (Suc i) ps ds))"

definition i8254_init_send :: "u32 list \<Rightarrow> send_desc list \<Rightarrow> send_desc list" where
  "i8254_init_send pages ds = init_send_buffers 0 pages (map clear_desc ds)"

text \<open>A packet is built in a page of its own; without one the code would write to address 0.\<close>

definition new_packet :: "net \<Rightarrow> (u32 \<times> net) outcome" where
  "new_packet s = (let (p, m) = kalloc (nm s) in if p = 0 then Undef ''no page for a packet'' else Ok (p, s\<lparr>nm := m\<rparr>))"

definition free_packet :: "u32 \<Rightarrow> u32 \<Rightarrow> net \<Rightarrow> net outcome" where
  "free_packet kend p s = bnd (kfree kend p (nm s)) (\<lambda>m. Ok (s\<lparr>nm := m\<rparr>))"

section \<open>arp.c\<close>

abbreviation (input) ARP_TABLE_MAX :: nat where "ARP_TABLE_MAX \<equiv> 64"

text \<open>The Ethernet header of a packet the host sends to \<open>dst\<close>.\<close>

definition eth_header :: "u8 list \<Rightarrow> u32 \<Rightarrow> u8 \<Rightarrow> net \<Rightarrow> net" where
  "eth_header dst send ty s =
     on_packet (\<lambda>m. put_bytes (send + 6) (mac_addr s) (put_bytes send dst (m(send + 12 := 0x08, send + 13 := ty)))) s"

definition arp_packet :: "u16 \<Rightarrow> u8 list \<Rightarrow> u8 list \<Rightarrow> u32 \<Rightarrow> net \<Rightarrow> net" where
  "arp_packet op dst_mac dst_ip a s =
     on_packet (\<lambda>m.
       let m = store16 a 0x0100 m;
           m = store16 (a + 2) 0x0008 m;
           m = m(a + 4 := 6, a + 5 := 4);
           m = store16 (a + 6) op m;
           m = put_bytes (a + 18) dst_mac m;
           m = put_bytes (a + 24) dst_ip m;
           m = put_bytes (a + 8) (mac_addr s) m
       in put_bytes (a + 14) my_ip m) s"

definition field :: "mem \<Rightarrow> u32 \<Rightarrow> nat \<Rightarrow> u8 list" where
  "field m a n = map (\<lambda>i. m (a + of_nat i)) [0..<n]"

definition arp_reply_pkt_create :: "u32 \<Rightarrow> u32 \<Rightarrow> net \<Rightarrow> u32 \<times> net" where
  "arp_reply_pkt_create arp_recv send s =
     (let m = km_mem (nm s);
          s = eth_header (field m (arp_recv + 8) 6) send 0x06 s;
          s = arp_packet 0x0200 (field m (arp_recv + 8) 6) (field m (arp_recv + 14) 4) (send + sizeof_eth) s
      in (sizeof_eth + sizeof_arp, s))"

definition arp_broadcast :: "u32 \<Rightarrow> u8 \<Rightarrow> net \<Rightarrow> u32 \<times> net" where
  "arp_broadcast send ip s =
     (let s = eth_header (replicate 6 0xff) send 0x06 s;
          s = arp_packet 0x0100 (replicate 6 0) [10, 0, 1, ip] (send + sizeof_eth) s
      in (sizeof_eth + sizeof_arp, s))"

text \<open>\<open>empt\<close> is the variable \<open>empty\<close>: 1 until a free slot \<open>i\<close> is seen, then \<open>-i\<close>.\<close>

fun arp_table_search_loop :: "arp_entry list \<Rightarrow> int \<Rightarrow> int \<Rightarrow> u8 list \<Rightarrow> int" where
  "arp_table_search_loop [] i empt ip = empt - 1"
| "arp_table_search_loop (e # es) i empt ip =
     (if memcmp (arr (ae_ip e)) (arr ip) 4 = 0 then i
      else arp_table_search_loop es (i + 1) (if ae_use e = 0 \<and> empt = 1 then - i else empt) ip)"

definition arp_table_search :: "u8 list \<Rightarrow> arp_entry list \<Rightarrow> int" where
  "arp_table_search ip t = arp_table_search_loop t 0 1 ip"

definition arp_table_update :: "u8 list \<Rightarrow> u8 list \<Rightarrow> arp_entry list \<Rightarrow> arp_entry list" where
  "arp_table_update src_ip src_mac t =
     (let index = arp_table_search src_ip t in
      if index > -1 then t[nat index := (t ! nat index)\<lparr>ae_mac := src_mac\<rparr>]
      else
        (let index = - (index + 1)
         in t[nat index := (t ! nat index)\<lparr>ae_mac := src_mac, ae_ip := src_ip, ae_use := 1\<rparr>]))"

definition arp_proc :: "u32 \<Rightarrow> u32 \<Rightarrow> net \<Rightarrow> (int \<times> net) outcome" where
  "arp_proc kend a s =
     (let m = km_mem (nm s);
          to_me = memcmp (arr my_ip) (ptr m (a + 24)) 4 = 0
      in
      if load16 m a \<noteq> 0x0100 then Ok (-1, s)
      else if load16 m (a + 2) \<noteq> 0x0008 then Ok (-1, s)
      else if m (a + 4) \<noteq> 6 then Ok (-1, s)
      else if m (a + 5) \<noteq> 4 then Ok (-1, s)
      else if \<not> to_me \<and> memcmp (arr my_ip) (ptr m (a + 14)) 4 \<noteq> 0 then Ok (-1, s)
      else if load16 m (a + 6) = 0x0100 \<and> to_me then
        bnd (new_packet s) (\<lambda>(send, s).
        let (size, s) = arp_reply_pkt_create a send s; (r, s) = i8254_send send size s
        in bnd (free_packet kend send s) (\<lambda>s. Ok (2, s)))
      else if load16 m (a + 6) = 0x0200 \<and> to_me then
        Ok (1, s\<lparr>arp_tab := arp_table_update (field m (a + 14) 4) (field m (a + 8) 6) (arp_tab s)\<rparr>)
      else Ok (-1, s))"

text \<open>One turn of \<open>arp_scan\<close>; it tries again while the ring is full.\<close>

definition arp_scan_step :: "u32 \<Rightarrow> nat \<Rightarrow> net \<Rightarrow> net outcome" where
  "arp_scan_step kend i s =
     bnd (new_packet s) (\<lambda>(send, s).
     let (size, s) = arp_broadcast send (of_nat i) s; (r, s) = i8254_send send size s
     in if r = -1 then Sleeps (ChSpin ''i8254_send'') else free_packet kend send s)"

definition arp_scan :: "u32 \<Rightarrow> net \<Rightarrow> net outcome" where
  "arp_scan kend s = for_each (arp_scan_step kend) [0..<256] s"

section \<open>ipv4.c and icmp.c\<close>

text \<open>One step of a checksum loop: add a big-endian 16-bit word with end-around carry.\<close>

definition add_word :: "mem \<Rightarrow> u32 \<Rightarrow> nat \<Rightarrow> u32 \<Rightarrow> u32" where
  "add_word m bin i chk_sum =
     (let chk_sum = chk_sum + (push_bit 8 (ucast (m (bin + of_nat (2 * i)))) + ucast (m (bin + of_nat (2 * i) + 1)))
      in if chk_sum > 0xFFFF then (chk_sum AND 0xFFFF) + 1 else chk_sum)"

definition ipv4_chksum :: "u32 \<Rightarrow> mem \<Rightarrow> u16" where
  "ipv4_chksum a m = ucast (NOT (fold (add_word m a) [0..<unat ((m a AND 0xF) * 2)] 0))"

definition icmp_chksum :: "u32 \<Rightarrow> mem \<Rightarrow> u16" where
  "icmp_chksum a m = ucast (NOT (fold (add_word m a) [0..<32] 0))"

text \<open>The IPv4 header of a packet the host sends to the source of the packet at \<open>recv\<close>.\<close>

definition ipv4_header :: "u32 \<Rightarrow> u32 \<Rightarrow> u16 \<Rightarrow> u16 \<Rightarrow> u8 \<Rightarrow> net \<Rightarrow> net" where
  "ipv4_header recv ip tlen frag proto s =
     (let s = on_packet (\<lambda>m.
         let m = m(ip := push_bit 4 4 + 5, ip + 1 := 0);
             m = store16 (ip + 2) (H2N_ushort tlen) m
         in store16 (ip + 4) (send_id s) m) s;
          s = s\<lparr>send_id := send_id s + 1\<rparr>
      in on_packet (\<lambda>m.
         let m = store16 (ip + 6) (H2N_ushort frag) m;
             m = m(ip + 8 := 255, ip + 9 := proto);
             m = put_bytes (ip + 12) my_ip m;
             m = memmove (ip + 16) (recv + sizeof_eth + 12) 4 m;
             m = store16 (ip + 10) 0 m
         in store16 (ip + 10) (H2N_ushort (ipv4_chksum ip m)) m) s)"

definition reply_eth :: "u32 \<Rightarrow> u32 \<Rightarrow> net \<Rightarrow> net" where
  "reply_eth recv send s =
     on_packet (\<lambda>m. (put_bytes (send + 6) (mac_addr s) (memmove send (recv + 6) 6 m))(send + 12 := 0x08, send + 13 := 0x00)) s"

text \<open>The transport header follows the IPv4 header, whose length is in its first byte.\<close>

definition transport :: "u32 \<Rightarrow> mem \<Rightarrow> u32" where
  "transport recv m = recv + sizeof_eth + ucast (m (recv + sizeof_eth) AND 0xF) * 4"

definition icmp_echo :: "u32 \<Rightarrow> u32 \<Rightarrow> mem \<Rightarrow> mem" where
  "icmp_echo icmp_recv icmp m =
     (let m = m(icmp := 0, icmp + 1 := 0);
          m = store16 (icmp + 4) (load16 m (icmp_recv + 4)) m;
          m = store16 (icmp + 6) (load16 m (icmp_recv + 6)) m;
          m = memmove (icmp + 8) (icmp_recv + 8) 8 m;
          m = memmove (icmp + 16) (icmp_recv + 16) 48 m;
          m = store16 (icmp + 2) 0 m
      in store16 (icmp + 2) (H2N_ushort (icmp_chksum icmp m)) m)"

definition icmp_reply_pkt_create :: "u32 \<Rightarrow> u32 \<Rightarrow> net \<Rightarrow> u32 \<times> net" where
  "icmp_reply_pkt_create recv send s =
     (let icmp_recv = transport recv (km_mem (nm s));
          s = reply_eth recv send s;
          s = ipv4_header recv (send + sizeof_eth) (ucast (sizeof_ipv4 + sizeof_icmp)) 0x4000 1 s;
          s = on_packet (icmp_echo icmp_recv (send + sizeof_eth + sizeof_ipv4)) s
      in (sizeof_eth + sizeof_ipv4 + sizeof_icmp, s))"

definition icmp_proc :: "u32 \<Rightarrow> u32 \<Rightarrow> net \<Rightarrow> net outcome" where
  "icmp_proc kend recv s =
     (let m = km_mem (nm s); icmp = transport recv m in
      if m (icmp + 1) = 0 \<and> m icmp = 8 then
        bnd (new_packet s) (\<lambda>(send, s).
        let (size, s) = icmp_reply_pkt_create recv send s; (r, s) = i8254_send send size s
        in free_packet kend send s)
      else Ok s)"

section \<open>http.c and tcp.c\<close>

text \<open>The copied string and its length.\<close>

fun http_strcpy :: "u32 \<Rightarrow> u8 list \<Rightarrow> int \<Rightarrow> mem \<Rightarrow> int \<times> mem" where
  "http_strcpy dst [] start m = (0, m)"
| "http_strcpy dst (c # cs) start m =
     (let (i, m) = http_strcpy dst cs (start + 1) (m(dst + of_int start := c)) in (i + 1, m))"

definition cstring :: "string \<Rightarrow> u8 list" where
  "cstring t = map (of_nat \<circ> of_char) t"

definition crlf :: "u8 list" where
  "crlf = [13, 10]"

definition http_proc :: "u32 \<Rightarrow> net \<Rightarrow> u32 \<times> net" where
  "http_proc send s =
     (let (l1, m) = http_strcpy send (cstring ''HTTP/1.0 200 OK '' @ crlf) 0 (km_mem (nm s));
          (l2, m) = http_strcpy send (cstring ''Content-Type: text/html '' @ crlf) l1 m;
          (l3, m) = http_strcpy send (crlf @ cstring ''Hello World!'' @ crlf) (l1 + l2) m;
          len = l1 + l2 + l3;
          m = (if len mod 2 \<noteq> 0 then m(send + of_int len := 0) else m)
      in (of_int len, (on_packet (\<lambda>_. m) s)\<lparr>fin_flag := 1\<rparr>))"

text \<open>The words of the pseudo header that \<open>tcp_chksum\<close> builds in \<open>tcp_dummy\<close>, then those of the segment.\<close>

definition tcp_dummy :: "u32 \<Rightarrow> mem \<Rightarrow> u8 list" where
  "tcp_dummy ip m =
     (let l = H2N_ushort (N2H_ushort (load16 m (ip + 2)) - 20)
      in my_ip @ field m (ip + 12) 4 @ [0, 6, ucast l, ucast (drop_bit 8 l)])"

definition be_word :: "u8 \<Rightarrow> u8 \<Rightarrow> u32" where
  "be_word a b = push_bit 8 (ucast a) + ucast b"

definition tcp_chksum :: "u32 \<Rightarrow> mem \<Rightarrow> u16" where
  "tcp_chksum ip m =
     (let d = tcp_dummy ip m; tcp = ip + sizeof_ipv4;
          n = unat (N2H_ushort (word16 (d ! 10) (d ! 11))) div 2;
          c = fold (\<lambda>i c. c + be_word (d ! (2 * i)) (d ! (2 * i + 1))) [0..<6] 0;
          c = fold (\<lambda>i c. c + be_word (m (tcp + of_nat (2 * i))) (m (tcp + of_nat (2 * i) + 1))) [0..<n] c;
          c = c + drop_bit 16 c
      in ucast (NOT c))"

definition tcp_header :: "u32 \<Rightarrow> u32 \<Rightarrow> u32 \<Rightarrow> u8 \<Rightarrow> u32 \<Rightarrow> mem \<Rightarrow> mem" where
  "tcp_header tcp_recv ip tcp pkt_type sq m =
     (let m = store16 tcp (load16 m (tcp_recv + 2)) m;
          m = store16 (tcp + 2) (load16 m tcp_recv) m;
          m = store32 (tcp + 4) (H2N_uint sq) m;
          m = store32 (tcp + 8) (load32 m (tcp_recv + 4) + push_bit 24 1) m;
          m = m(tcp + 12 := 0, tcp + 13 := 0, tcp + 12 := push_bit 4 5, tcp + 13 := pkt_type);
          m = store16 (tcp + 14) (H2N_ushort 14480) m;
          m = store16 (tcp + 18) 0 m;
          m = store16 (tcp + 16) 0 m
      in store16 (tcp + 16) (H2N_ushort (tcp_chksum ip m) + 8) m)"

definition tcp_pkt_create :: "u32 \<Rightarrow> u32 \<Rightarrow> u8 \<Rightarrow> u32 \<Rightarrow> net \<Rightarrow> u32 \<times> net" where
  "tcp_pkt_create recv send pkt_type payload_size s =
     (let tcp_recv = transport recv (km_mem (nm s));
          s = reply_eth recv send s;
          s = ipv4_header recv (send + sizeof_eth) (ucast (sizeof_ipv4 + sizeof_tcp + payload_size)) 0 6 s;
          s = on_packet (tcp_header tcp_recv (send + sizeof_eth) (send + sizeof_eth + sizeof_ipv4) pkt_type (seq_num s)) s
      in (sizeof_eth + sizeof_ipv4 + sizeof_tcp + payload_size, s))"

definition tcp_reply :: "u32 \<Rightarrow> u32 \<Rightarrow> u8 \<Rightarrow> net \<Rightarrow> net" where
  "tcp_reply recv send pkt_type s =
     (let (size, s) = tcp_pkt_create recv send pkt_type 0 s in snd (i8254_send send size s))"

text \<open>Both branches of the test for \<open>GET\<close> do the same: acknowledge, then send the page.\<close>

definition tcp_proc :: "u32 \<Rightarrow> u32 \<Rightarrow> net \<Rightarrow> net outcome" where
  "tcp_proc kend recv s =
     bnd (new_packet s) (\<lambda>(send, s).
     let bits = km_mem (nm s) (transport recv (km_mem (nm s)) + 13);
         s = (if bits AND 0x2 \<noteq> 0 then
                (let s = tcp_reply recv send 0x12 s in s\<lparr>seq_num := seq_num s + 1\<rparr>)
              else if bits = 0x18 then
                (let s = tcp_reply recv send 0x10 s;
                     (n, s) = http_proc (send + (sizeof_eth + sizeof_ipv4 + sizeof_tcp)) s;
                     (size, s) = tcp_pkt_create recv send 0x18 n s;
                     (r, s) = i8254_send send size s
                 in s\<lparr>seq_num := seq_num s + 1\<rparr>)
              else if bits = 0x10 \<and> fin_flag s = 1 then
                (let s = tcp_reply recv send 0x1 s in s\<lparr>fin_flag := 0\<rparr>)
              else s)
     in free_packet kend send s)"

definition ipv4_proc :: "u32 \<Rightarrow> u32 \<Rightarrow> net \<Rightarrow> net outcome" where
  "ipv4_proc kend recv s =
     (let m = km_mem (nm s); ip = recv + 14; pid = uint (load16 m (ip + 4)) in
      if ip_id s \<noteq> pid \<and> memcmp (arr my_ip) (ptr m (ip + 12)) 4 \<noteq> 0 then
        (let s = s\<lparr>ip_id := pid\<rparr> in
         if m (ip + 9) = 1 then icmp_proc kend recv s
         else if m (ip + 9) = 6 then tcp_proc kend recv s
         else Ok s)
      else Ok s)"

definition eth_proc :: "u32 \<Rightarrow> u32 \<Rightarrow> net \<Rightarrow> net outcome" where
  "eth_proc kend a s =
     (let m = km_mem (nm s) in
      if m (a + 12) = 0x08 \<and> m (a + 13) = 0x06 then bnd (arp_proc kend (a + sizeof_eth) s) (\<lambda>(r, s). Ok s)
      else if m (a + 12) = 0x08 \<and> m (a + 13) = 0x00 then ipv4_proc kend a s
      else Ok s)"

end
