(* ===== verification/Net_Props.thy ===== *)
theory Net_Props
  imports Net
begin

text \<open>
  Properties of the network code: the Internet checksum (the loops of \<open>ipv4_chksum\<close> and
  \<open>icmp_chksum\<close> compute the one's complement sum of RFC 1071, so a finished header sums to zero),
  what the reply to an echo request contains, and the ARP table.
\<close>

section \<open>Writes inside a range\<close>

text \<open>\<open>m'\<close> differs from \<open>m\<close> only in the \<open>n\<close> bytes from \<open>a\<close> on.\<close>

definition only_in :: "u32 \<Rightarrow> nat \<Rightarrow> mem \<Rightarrow> mem \<Rightarrow> bool" where
  "only_in a n m m' \<longleftrightarrow> (\<forall>x. \<not> in_range x a n \<longrightarrow> m' x = m x)"

named_theorems writes \<open>writes that stay inside a range\<close>

lemma only_in_refl [writes]: "only_in a n m m"
  by (simp add: only_in_def)

lemma only_in_upd [writes]: "in_range x a n \<Longrightarrow> only_in a n m m' \<Longrightarrow> only_in a n m (m'(x := v))"
  by (auto simp: only_in_def)

lemma only_in_store16 [writes]:
  "in_range x a n \<Longrightarrow> in_range (x + 1) a n \<Longrightarrow> only_in a n m m' \<Longrightarrow> only_in a n m (store16 x v m')"
  by (auto simp: store16_def intro: only_in_upd)

lemma in_range_sub:
  assumes "in_range x (a + of_nat k) l" "k + l \<le> n" "n < 4294967296"
  shows "in_range x a n"
proof -
  define j where "j = unat (x - (a + of_nat k))"
  have j: "j < l" using assms(1) by (simp add: in_range_def j_def)
  have "x - (a + of_nat k) = of_nat j" by (simp add: j_def)
  then have "x = a + of_nat (k + j)" by (simp add: algebra_simps)
  with j assms(2,3) show ?thesis by (simp del: of_nat_add)
qed

lemma only_in_put_bytes:
  "k + length bs \<le> n \<Longrightarrow> n < 4294967296 \<Longrightarrow> only_in a n m m' \<Longrightarrow> only_in a n m (put_bytes (a + of_nat k) bs m')"
proof (induction bs arbitrary: k m')
  case (Cons b bs)
  have "only_in a n m (m'(a + of_nat k := b))" using Cons.prems by (intro only_in_upd) simp_all
  moreover have "Suc k + length bs \<le> n" using Cons.prems(1) by simp
  moreover have "a + of_nat (Suc k) = a + of_nat k + 1" by simp
  ultimately show ?case using Cons.IH [of "Suc k" "m'(a + of_nat k := b)"] Cons.prems(2) by (simp only: put_bytes.simps)
qed simp

lemma only_in_memmove:
  assumes "k + unat l \<le> n" "n < 4294967296" "only_in a n m m'"
    and "unat src + unat l \<le> 4294967296" "unat (a + of_nat k) + unat l \<le> 4294967296"
  shows "only_in a n m (memmove (a + of_nat k) src l m')"
  using assms(3) in_range_sub [of _ a k "unat l" n] assms(1,2)
  unfolding only_in_def by (auto simp: memmove_apply [OF assms(4,5)])

section \<open>The Internet checksum\<close>

definition word_at :: "mem \<Rightarrow> u32 \<Rightarrow> nat \<Rightarrow> nat" where
  "word_at m a i = 256 * unat (m (a + of_nat (2 * i))) + unat (m (a + of_nat (2 * i) + 1))"

text \<open>The one's complement sum of words that add up to \<open>t\<close>.\<close>

definition ones_sum :: "nat \<Rightarrow> nat" where
  "ones_sum t = (if t = 0 then 0 else (t - 1) mod 65535 + 1)"

lemma ones_sum_le: "ones_sum t \<le> 65535"
proof -
  have "(t - 1) mod 65535 < 65535" by simp
  then show ?thesis unfolding ones_sum_def by (simp del: mod_less_divisor)
qed

lemma ones_sum_step: "ones_sum (t + w) = (if ones_sum t + w > 65535 then ones_sum t + w - 65535 else ones_sum t + w)"
  if "w \<le> 65535"
proof (cases "t = 0")
  case True
  then show ?thesis using that by (auto simp: ones_sum_def)
next
  case False
  define q where "q = (t - 1) mod 65535"
  have q: "q < 65535" "ones_sum t = q + 1" using False by (simp_all add: q_def ones_sum_def)
  have "t + w - 1 = (t - 1) + w" using False by simp
  then have "(t + w - 1) mod 65535 = (q + w) mod 65535" by (simp only: mod_add_left_eq q_def)
  also have "\<dots> = (if q + w \<ge> 65535 then q + w - 65535 else q + w)"
    using q(1) that by (auto simp: le_mod_geq)
  finally have "ones_sum (t + w) = (if q + w \<ge> 65535 then q + w - 65535 else q + w) + 1"
    using False by (simp only: ones_sum_def) simp
  then show ?thesis unfolding q(2) by (simp split: if_splits)
qed

lemma unat_be_word: "unat (push_bit 8 (ucast (x :: u8)) + ucast (y :: u8) :: u32) = 256 * unat x + unat y"
proof -
  have b: "unat x < 256" "unat y < 256" by simp_all
  have "push_bit 8 (ucast x) + ucast y = (of_nat (256 * unat x + unat y) :: u32)"
    by (simp add: push_bit_eq_mult mult.commute)
  moreover have "256 * unat x + unat y < 4294967296" using b by linarith
  ultimately show ?thesis by (simp only: unat_of_nat_u32)
qed

lemma word_at_le: "word_at m a i \<le> 65535"
proof -
  have "unat (m (a + of_nat (2 * i))) < 256" "unat (m (a + of_nat (2 * i) + 1)) < 256"
    by (rule unat_u8_bound)+
  then show ?thesis unfolding word_at_def by linarith
qed

lemma add_word_step:
  assumes "unat c = ones_sum t"
  shows "unat (add_word m a i c) = ones_sum (t + word_at m a i)"
proof -
  define w where "w = word_at m a i"
  define v where "v = (push_bit 8 (ucast (m (a + of_nat (2 * i)))) + ucast (m (a + of_nat (2 * i) + 1)) :: u32)"
  have v: "unat v = w" by (simp only: v_def w_def word_at_def unat_be_word)
  have b: "ones_sum t \<le> 65535" "w \<le> 65535" by (simp_all add: ones_sum_le w_def word_at_le)
  have s: "unat (c + v) = ones_sum t + w" using assms v b by (subst unat_add_nowrap) simp_all
  have step: "ones_sum (t + w) = (if ones_sum t + w > 65535 then ones_sum t + w - 65535 else ones_sum t + w)"
    using b(2) by (rule ones_sum_step)
  have "(c + v) AND 0xFFFF = take_bit 16 (c + v)" by (simp add: take_bit_eq_mask mask_eq_decr_exp)
  then have a: "unat ((c + v) AND 0xFFFF) = (ones_sum t + w) mod 65536"
    by (simp add: take_bit_eq_mod unat_mod s)
  have big: "c + v > 0xFFFF \<longleftrightarrow> ones_sum t + w > 65535" by (simp add: word_less_nat_alt s)
  have r: "add_word m a i c = (if c + v > 0xFFFF then ((c + v) AND 0xFFFF) + 1 else c + v)"
    by (simp only: add_word_def v_def [symmetric] Let_def)
  show ?thesis
  proof (cases "ones_sum t + w > 65535")
    case True
    then have "(ones_sum t + w) mod 65536 = ones_sum t + w - 65536" using b by (simp add: le_mod_geq)
    then have "unat (((c + v) AND 0xFFFF) + 1) = ones_sum t + w - 65536 + 1"
      using a b by (subst unat_add_nowrap) simp_all
    with True step big r b show ?thesis unfolding w_def [symmetric] by simp
  next
    case False
    with step big r s show ?thesis unfolding w_def [symmetric] by simp
  qed
qed

lemma fold_add_word: "unat (fold (add_word m a) [0..<n] 0) = ones_sum (\<Sum>i<n. word_at m a i)"
proof (induction n)
  case 0
  then show ?case by (simp add: ones_sum_def)
next
  case (Suc n)
  then show ?case using add_word_step by (simp add: lessThan_Suc add.commute)
qed

lemma unat_not_u16: "unat (ucast (NOT (c :: u32)) :: u16) = 65535 - unat c" if c: "unat c \<le> 65535"
proof -
  have m1: "unat (- 1 :: u32) = 4294967295" by (simp add: unsigned_minus_1_eq_mask mask_eq_exp_minus_1)
  have "NOT c = - 1 - c" by (simp add: not_eq_complement)
  moreover have "c \<le> - 1" by simp
  ultimately have "unat (NOT c) = 4294967295 - unat c" using m1 by (simp only: unat_sub)
  also have "\<dots> = 65535 * 65536 + (65535 - unat c)" using c by simp
  finally have "unat (NOT c) mod 65536 = (65535 - unat c) mod 65536" by (simp only: mod_mult_self3)
  also have "\<dots> = 65535 - unat c" by (rule mod_less) simp
  finally have "unat (NOT c) mod 65536 = 65535 - unat c" .
  then show ?thesis by (simp add: unsigned_ucast_eq take_bit_eq_mod)
qed

lemma fold_add_word_cong:
  assumes "\<And>x. in_range x a (2 * n) \<Longrightarrow> m x = m' x" "2 * n < 4294967296"
  shows "fold (add_word m a) [0..<n] c = fold (add_word m' a) [0..<n] c"
proof (intro fold_cong refl)
  fix i
  assume "i \<in> set [0..<n]"
  then have i: "2 * i + 1 < 2 * n" by simp
  have "in_range (a + of_nat (2 * i)) a (2 * n)" "in_range (a + of_nat (2 * i + 1)) a (2 * n)"
    using i assms(2) by (intro in_range_plus [THEN iffD2]; simp)+
  moreover have "a + of_nat (2 * i + 1) = a + of_nat (2 * i) + 1" by simp
  ultimately have "m (a + of_nat (2 * i)) = m' (a + of_nat (2 * i))" "m (a + of_nat (2 * i) + 1) = m' (a + of_nat (2 * i) + 1)"
    using assms(1) by metis+
  then show "add_word m a i = add_word m' a i" by (simp add: add_word_def fun_eq_iff)
qed

lemma H2N_ushort_swaps: "H2N_ushort v = word16 (ucast (drop_bit 8 v)) (ucast v)"
proof -
  have "push_bit 8 (v AND 0xFF) + drop_bit 8 v = push_bit 8 (v AND 0xFF) OR drop_bit 8 v"
  proof (rule disjunctive_add)
    fix n
    show "\<not> bit (push_bit 8 (v AND 0xFF)) n \<or> \<not> bit (drop_bit 8 v) n"
    proof (cases "8 \<le> n")
      case True
      then show ?thesis using bit_imp_le_length [of v "8 + n"] by (auto simp: bit_drop_bit_eq)
    next
      case False
      then show ?thesis by (simp only: bit_push_bit_iff) simp
    qed
  qed
  moreover have "push_bit 8 (v AND 0xFF) OR drop_bit 8 v = word16 (ucast (drop_bit 8 v)) (ucast v)"
  proof (rule bit_word_eqI)
    fix n assume "n < LENGTH(16)"
    have ff: "(0xFF :: u16) = mask 8" by (simp add: mask_eq_decr_exp)
    show "bit (push_bit 8 (v AND 0xFF) OR drop_bit 8 v) n = bit (word16 (ucast (drop_bit 8 v)) (ucast v)) n"
      unfolding ff using bit_imp_le_length [of v "8 + n"] by (auto simp: word16_def bit_simps)
  qed
  ultimately show ?thesis by (simp add: H2N_ushort_def)
qed

lemma store_swapped: "store16 a (H2N_ushort v) m = m(a := ucast (drop_bit 8 v), a + 1 := ucast v)"
proof -
  have "bytes16 (H2N_ushort v) = [ucast (drop_bit 8 v), ucast v]" by (simp add: H2N_ushort_swaps)
  then show ?thesis by (simp add: store16_def bytes16_def)
qed

lemma unat_bytes16: "256 * unat (ucast (drop_bit 8 (v :: u16)) :: u8) + unat (ucast v :: u8) = unat v"
proof -
  have "unat (ucast (drop_bit 8 v) :: u8) = unat v div 256 mod 256"
    by (simp add: unsigned_ucast_eq take_bit_eq_mod drop_bit_eq_div unat_div)
  moreover have "unat v div 256 mod 256 = unat v div 256"
    using unat_u16_bound [of v] by (intro mod_less less_mult_imp_div_less) simp
  moreover have "unat (ucast v :: u8) = unat v mod 256" by (simp add: unsigned_ucast_eq take_bit_eq_mod)
  ultimately show ?thesis by simp
qed

lemma checksum_verifies:
  assumes k: "k < n" "2 * n < 4294967296"
    and z: "m (a + of_nat (2 * k)) = 0" "m (a + of_nat (2 * k) + 1) = 0"
    and v: "v = ucast (NOT (fold (add_word m a) [0..<n] 0))"
    and m': "m' = store16 (a + of_nat (2 * k)) (H2N_ushort v) m"
  shows "(ucast (NOT (fold (add_word m' a) [0..<n] 0)) :: u16) = 0"
proof -
  define T where "T = (\<Sum>i<n. word_at m a i)"
  have uv: "unat v = 65535 - ones_sum T"
    unfolding v using ones_sum_le [of T] by (subst unat_not_u16) (simp_all add: fold_add_word T_def)
  have neq: "a + of_nat x \<noteq> a + of_nat y" if "x < 2 * n" "y < 2 * n" "x \<noteq> y" for x y
    using that k(2) of_nat_u32_inj [of x y] by simp
  have wk: "word_at m' a k = unat v" by (simp add: word_at_def m' store_swapped unat_bytes16)
  have wi: "word_at m' a i = word_at m a i" if "i < n" "i \<noteq> k" for i
  proof -
    have s: "a + of_nat (2 * j) + 1 = a + of_nat (2 * j + 1)" for j by simp
    have b: "2 * i < 2 * n" "2 * i + 1 < 2 * n" "2 * k < 2 * n" "2 * k + 1 < 2 * n" using that k by simp_all
    have d: "2 * i \<noteq> 2 * k" "2 * i \<noteq> 2 * k + 1" "2 * i + 1 \<noteq> 2 * k" "2 * i + 1 \<noteq> 2 * k + 1"
      using that(2) by presburger+
    note ne = neq [OF b(1) b(3) d(1)] neq [OF b(1) b(4) d(2)] neq [OF b(2) b(3) d(3)] neq [OF b(2) b(4) d(4)]
    from ne have "m' (a + of_nat (2 * i)) = m (a + of_nat (2 * i))" "m' (a + of_nat (2 * i + 1)) = m (a + of_nat (2 * i + 1))"
      unfolding m' store_swapped s by (simp_all only: fun_upd_apply if_False)
    then show ?thesis unfolding word_at_def s by simp
  qed
  have "word_at m a k = 0" using z by (simp add: word_at_def)
  then have "(\<Sum>i<n. word_at m' a i) = T + unat v"
  proof -
    have "(\<Sum>i<n. word_at m' a i) = word_at m' a k + (\<Sum>i\<in>{..<n} - {k}. word_at m' a i)"
      using k by (simp add: sum.remove)
    also have "(\<Sum>i\<in>{..<n} - {k}. word_at m' a i) = (\<Sum>i\<in>{..<n} - {k}. word_at m a i)"
      using wi by (intro sum.cong) auto
    also have "\<dots> = T - word_at m a k" unfolding T_def using k by (simp add: sum_diff1_nat)
    finally show ?thesis using wk \<open>word_at m a k = 0\<close> by simp
  qed
  then have f: "unat (fold (add_word m' a) [0..<n] 0) = ones_sum (T + (65535 - ones_sum T))"
    by (simp add: fold_add_word uv)
  have "ones_sum (T + (65535 - ones_sum T)) = 65535"
    using ones_sum_step [of "65535 - ones_sum T" T] ones_sum_le [of T] by simp
  with f have "unat (ucast (NOT (fold (add_word m' a) [0..<n] 0)) :: u16) = 0" by (subst unat_not_u16) simp_all
  then show ?thesis by (simp add: unat_eq_0)
qed

section \<open>Packets as bytes at offsets\<close>

text \<open>Byte \<open>j\<close> of the packet at \<open>p\<close>, and what the writes at constant offsets do to it.\<close>

definition byte :: "mem \<Rightarrow> u32 \<Rightarrow> nat \<Rightarrow> u8" where
  "byte m p j = m (p + of_nat j)"

lemma in_range_offset:
  assumes "j < 4096" "k < 4096" "n < 4096"
  shows "in_range (p + of_nat j) (p + of_nat k) n \<longleftrightarrow> k \<le> j \<and> j < k + n"
proof (cases "k \<le> j")
  case True
  then obtain i where "j = k + i" using le_Suc_ex by blast
  then show ?thesis using assms by (simp add: in_range_def unat_of_nat_u32)
next
  case False
  then obtain i where i: "k = j + i" "0 < i" by (metis less_imp_add_positive not_le)
  have "(- of_nat i :: u32) = of_nat (4294967296 - i)" using i assms by (simp add: of_nat_diff)
  then have "unat (- of_nat i :: u32) = 4294967296 - i" using i assms by (simp only: unat_of_nat_u32)
  moreover have "p + of_nat j - (p + of_nat k) = - of_nat i" using i by simp
  ultimately show ?thesis using assms i by (simp add: in_range_def del: of_nat_add)
qed

lemma byte_upd: "j < 4096 \<Longrightarrow> k < 4096 \<Longrightarrow> byte (m(p + of_nat k := v)) p j = (if j = k then v else byte m p j)"
  by (simp add: byte_def of_nat_u32_inj)

lemma byte_store16:
  assumes "j < 4096" "k < 4095"
  shows "byte (store16 (p + of_nat k) v m) p j =
    (if j = k then ucast v else if j = Suc k then ucast (drop_bit 8 v) else byte m p j)"
proof -
  have s: "p + of_nat k + 1 = p + of_nat (Suc k)" by simp
  show ?thesis unfolding store16_def s using assms by (simp add: byte_upd del: of_nat_Suc)
qed

lemma byte_memmove:
  assumes "j < 4096" "k < 4096" "l < 4096" "unat src + unat l \<le> 4294967296" "unat (p + of_nat k) + unat l \<le> 4294967296"
  shows "byte (memmove (p + of_nat k) src l m) p j =
    (if k \<le> j \<and> j < k + unat l then m (src + of_nat (j - k)) else byte m p j)"
proof -
  have l: "unat l < 4096" using assms(3) by (simp add: word_less_nat_alt)
  have "p + of_nat j - (p + of_nat k) = of_nat (j - k)" if "k \<le> j" using that by (simp add: of_nat_diff)
  then show ?thesis using assms l by (simp add: byte_def memmove_apply in_range_offset)
qed

lemma byte_put_bytes:
  "j < 4096 \<Longrightarrow> k + length bs < 4096 \<Longrightarrow>
   byte (put_bytes (p + of_nat k) bs m) p j = (if k \<le> j \<and> j < k + length bs then bs ! (j - k) else byte m p j)"
proof (induction bs arbitrary: k m)
  case (Cons b bs)
  have s: "p + of_nat k + 1 = p + of_nat (Suc k)" by simp
  have "byte (put_bytes (p + of_nat k) (b # bs) m) p j = byte (put_bytes (p + of_nat (Suc k)) bs (m(p + of_nat k := b))) p j"
    by (simp only: put_bytes.simps s)
  also have "\<dots> = (if Suc k \<le> j \<and> j < Suc k + length bs then bs ! (j - Suc k) else byte (m(p + of_nat k := b)) p j)"
    using Cons.prems by (intro Cons.IH) simp_all
  finally show ?case using Cons.prems by (cases "j = k") (auto simp: byte_upd nth_Cons' simp del: of_nat_Suc)
qed auto

text \<open>The same rules at the offsets the code has.\<close>

lemmas byte_at =
  byte_upd [where k = "numeral n" for n, simplified] byte_upd [where k = 0, simplified] byte_upd [where k = 1, simplified]
  byte_store16 [where k = "numeral n" for n, simplified] byte_store16 [where k = 0, simplified]
  byte_put_bytes [where k = "numeral n" for n, simplified] byte_put_bytes [where k = 0, simplified]
  byte_memmove [where k = "numeral n" for n, simplified] byte_memmove [where k = 0, simplified]

section \<open>The layers of a reply\<close>

definition net_mem :: "net \<Rightarrow> mem" where
  "net_mem s = km_mem (nm s)"

lemma net_mem_on_packet [simp]: "net_mem (on_packet f s) = f (net_mem s)" "mac_addr (on_packet f s) = mac_addr s"
  by (simp_all add: net_mem_def on_packet_def)

lemma net_mem_send_id [simp]: "net_mem (s\<lparr>send_id := i\<rparr>) = net_mem s" "mac_addr (s\<lparr>send_id := i\<rparr>) = mac_addr s"
  by (simp_all add: net_mem_def)

lemma byte_eqI: "byte m' p j = m (p + of_nat j) \<Longrightarrow> m' (p + of_nat j) = m (p + of_nat j)"
  by (simp add: byte_def)

lemma length_my_ip [simp]: "length my_ip = 4"
  by (simp add: my_ip_def)

text \<open>Outside its 20 bytes the IPv4 header changes nothing; its checksum verifies; it goes from this host to the sender.\<close>

lemma ipv4_header_spec:
  assumes ip: "unat ip + 20 \<le> 4294967296" and recv: "unat recv + 30 \<le> 4294967296"
    and apart: "\<And>i. i < 4 \<Longrightarrow> \<not> in_range (recv + sizeof_eth + 12 + of_nat i) ip 20"
  shows "only_in ip 20 (net_mem s) (net_mem (ipv4_header recv ip tlen frag proto s)) \<and>
    ipv4_chksum ip (net_mem (ipv4_header recv ip tlen frag proto s)) = 0 \<and>
    byte (net_mem (ipv4_header recv ip tlen frag proto s)) ip 0 = 0x45 \<and>
    (\<forall>i < 4. byte (net_mem (ipv4_header recv ip tlen frag proto s)) ip (12 + i) = my_ip ! i) \<and>
    (\<forall>i < 4. byte (net_mem (ipv4_header recv ip tlen frag proto s)) ip (16 + i) = net_mem s (recv + sizeof_eth + 12 + of_nat i)) \<and>
    mac_addr (ipv4_header recv ip tlen frag proto s) = mac_addr s"
proof -
  define m0 where "m0 = net_mem s"
  define m1 where "m1 = store16 (ip + 4) (send_id s) (store16 (ip + 2) (H2N_ushort tlen) (m0(ip := push_bit 4 4 + 5, ip + 1 := 0)))"
  define m2 where "m2 = put_bytes (ip + 12) my_ip ((store16 (ip + 6) (H2N_ushort frag) m1)(ip + 8 := 255, ip + 9 := proto))"
  define m3 where "m3 = memmove (ip + 16) (recv + sizeof_eth + 12) 4 m2"
  define m4 where "m4 = store16 (ip + 10) 0 m3"
  define m5 where "m5 = store16 (ip + 10) (H2N_ushort (ipv4_chksum ip m4)) m4"
  have m: "net_mem (ipv4_header recv ip tlen frag proto s) = m5"
    by (simp only: ipv4_header_def Let_def net_mem_on_packet net_mem_send_id m0_def m1_def m2_def m3_def m4_def m5_def)
  have nowrap: "unat (recv + sizeof_eth + 12) + unat (4 :: u32) \<le> 4294967296"
    "unat (ip + 16) + unat (4 :: u32) \<le> 4294967296"
    using ip recv by (simp_all add: unat_add_nowrap)
  have o2: "only_in ip 20 m0 m2"
  proof -
    have "only_in ip 20 m0 ((store16 (ip + 6) (H2N_ushort frag) m1)(ip + 8 := 255, ip + 9 := proto))"
      unfolding m1_def by (intro only_in_upd only_in_store16 only_in_refl; simp add: add.assoc)
    from only_in_put_bytes [OF _ _ this, of 12 my_ip] show ?thesis by (simp add: m2_def)
  qed
  have o3: "only_in ip 20 m0 m3"
    unfolding m3_def using only_in_memmove [of 16 4 20 ip m0 m2] o2 nowrap by simp
  have o5: "only_in ip 20 m0 m5"
    unfolding m5_def m4_def by (intro only_in_store16 o3; simp add: add.assoc)
  have b4: "byte m4 ip j = (if j = 10 \<or> j = 11 then 0 else byte m3 ip j)" if "j < 20" for j
    using that by (simp add: m4_def byte_at)
  have b5: "byte m5 ip j = byte m4 ip j" if "j < 20" "j \<noteq> 10" "j \<noteq> 11" for j
    using that by (simp add: m5_def byte_at)
  have b3: "byte m3 ip j = (if 16 \<le> j then m2 (recv + sizeof_eth + 12 + of_nat (j - 16)) else byte m2 ip j)" if "j < 20" for j
    unfolding m3_def using that nowrap by (simp add: byte_at)
  have b2: "byte m2 ip j = (if 12 \<le> j \<and> j < 16 then my_ip ! (j - 12) else byte (m1(ip + 8 := 255, ip + 9 := proto)) ip j)"
    if "j < 20" "j \<noteq> 6" "j \<noteq> 7" for j
    using that by (simp add: m2_def byte_at)
  have first: "byte m5 ip 0 = 0x45"
    by (simp add: b5 b4 b3 b2) (simp add: m1_def byte_at)
  have src: "byte m5 ip (12 + i) = my_ip ! i" if "i < 4" for i
    using that by (simp add: b5 b4 b3 b2)
  have dst: "byte m5 ip (16 + i) = m0 (recv + sizeof_eth + 12 + of_nat i)" if "i < 4" for i
  proof -
    have "m2 (recv + sizeof_eth + 12 + of_nat i) = m0 (recv + sizeof_eth + 12 + of_nat i)"
      using o2 apart [OF that] unfolding only_in_def by blast
    then show ?thesis using that by (simp add: b5 b4 b3)
  qed
  have len: "unat ((m AND 0xF) * 2) = 10" if "m = (0x45 :: u8)" for m using that by simp
  have "m4 ip = 0x45" "m5 ip = 0x45"
    using first b5 [of 0] by (simp_all add: byte_def)
  moreover have z: "m4 (ip + of_nat (2 * 5)) = 0" "m4 (ip + of_nat (2 * 5) + 1) = 0"
    using b4 [of 10] b4 [of 11] by (simp_all add: byte_def add.assoc)
  ultimately have "ipv4_chksum ip m5 = 0"
    using checksum_verifies [of 5 10 m4 ip "ipv4_chksum ip m4" m5] len
    by (simp add: ipv4_chksum_def m5_def)
  moreover have "mac_addr (ipv4_header recv ip tlen frag proto s) = mac_addr s"
    by (simp only: ipv4_header_def Let_def net_mem_on_packet net_mem_send_id)
  ultimately show ?thesis unfolding m m0_def [symmetric] using o5 first src dst by blast
qed

text \<open>The echo: the reply has the identifier, sequence number, time stamp and data of the request.\<close>

lemma icmp_echo_spec:
  assumes p: "unat p + 64 \<le> 4294967296" and q: "unat q + 64 \<le> 4294967296"
    and apart: "\<And>i. i < 64 \<Longrightarrow> \<not> in_range (q + of_nat i) p 64"
  shows "only_in p 64 m (icmp_echo q p m) \<and> icmp_chksum p (icmp_echo q p m) = 0 \<and>
    byte (icmp_echo q p m) p 0 = 0 \<and> byte (icmp_echo q p m) p 1 = 0 \<and>
    (\<forall>i. 4 \<le> i \<and> i < 64 \<longrightarrow> byte (icmp_echo q p m) p i = m (q + of_nat i))"
proof -
  define m1 where "m1 = m(p := 0, p + 1 := 0)"
  define m2 where "m2 = store16 (p + 4) (load16 m1 (q + 4)) m1"
  define m3 where "m3 = store16 (p + 6) (load16 m2 (q + 6)) m2"
  define m4 where "m4 = memmove (p + 8) (q + 8) 8 m3"
  define m5 where "m5 = memmove (p + 16) (q + 16) 48 m4"
  define m6 where "m6 = store16 (p + 2) 0 m5"
  define m7 where "m7 = store16 (p + 2) (H2N_ushort (icmp_chksum p m6)) m6"
  have m7: "icmp_echo q p m = m7"
    by (simp only: icmp_echo_def Let_def m1_def m2_def m3_def m4_def m5_def m6_def m7_def)
  have nowrap: "unat (q + 8) + unat (8 :: u32) \<le> 4294967296" "unat (p + 8) + unat (8 :: u32) \<le> 4294967296"
    "unat (q + 16) + unat (48 :: u32) \<le> 4294967296" "unat (p + 16) + unat (48 :: u32) \<le> 4294967296"
    using p q by (simp_all add: unat_add_nowrap)
  have o1: "only_in p 64 m m1" unfolding m1_def by (intro only_in_upd only_in_refl; simp)
  have o2: "only_in p 64 m m2" unfolding m2_def by (intro only_in_store16 o1; simp add: add.assoc)
  have o3: "only_in p 64 m m3" unfolding m3_def by (intro only_in_store16 o2; simp add: add.assoc)
  have o4: "only_in p 64 m m4" using only_in_memmove [of 8 8 64 p m m3 "q + 8"] o3 nowrap by (simp add: m4_def)
  have o5: "only_in p 64 m m5" using only_in_memmove [of 16 48 64 p m m4 "q + 16"] o4 nowrap by (simp add: m5_def)
  have o7: "only_in p 64 m m7" unfolding m7_def m6_def by (intro only_in_store16 o5; simp add: add.assoc)
  have rd: "m' (q + of_nat i) = m (q + of_nat i)" if "only_in p 64 m m'" "i < 64" for m' i
    using that apart unfolding only_in_def by blast
  have ld: "load16 m1 (q + 4) = word16 (m (q + of_nat 4)) (m (q + of_nat 5))"
    "load16 m2 (q + 6) = word16 (m (q + of_nat 6)) (m (q + of_nat 7))"
    using rd [OF o1, of 4] rd [OF o1, of 5] rd [OF o2, of 6] rd [OF o2, of 7]
    by (simp_all add: load16_def add.assoc)
  have w16: "ucast (word16 a b) = a" "ucast (drop_bit 8 (word16 a b)) = b" for a b
    using bytes16_word [of a b] by (simp_all add: bytes16_def)
  have b3: "byte m3 p j = m (q + of_nat j)" if "4 \<le> j" "j < 8" for j
  proof -
    have "j = 4 \<or> j = 5 \<or> j = 6 \<or> j = 7" using that by presburger
    moreover have "byte m3 p 6 = m (q + of_nat 6)" "byte m3 p 7 = m (q + of_nat 7)"
      by (simp_all add: m3_def byte_at ld(2) w16)
    moreover have "byte m3 p 4 = byte m2 p 4" "byte m3 p 5 = byte m2 p 5" by (simp_all add: m3_def byte_at)
    moreover have "byte m2 p 4 = m (q + of_nat 4)" "byte m2 p 5 = m (q + of_nat 5)"
      by (simp_all add: m2_def byte_at ld(1) w16)
    ultimately show ?thesis by (elim disjE) simp_all
  qed
  have b5: "byte m5 p j = m (q + of_nat j)" if "4 \<le> j" "j < 64" for j
  proof -
    have s: "q + 8 + of_nat (j - 8) = q + of_nat j" if "8 \<le> j" using that by (simp add: of_nat_diff)
    have s': "q + 16 + of_nat (j - 16) = q + of_nat j" if "16 \<le> j" using that by (simp add: of_nat_diff)
    have "byte m5 p j = (if 16 \<le> j then m4 (q + 16 + of_nat (j - 16)) else if 8 \<le> j then m3 (q + 8 + of_nat (j - 8)) else byte m3 p j)"
      using that nowrap by (simp add: m5_def m4_def byte_at)
    also have "\<dots> = m (q + of_nat j)"
      using that b3 [of j] rd [OF o4, of j] rd [OF o3, of j] s s' by simp
    finally show ?thesis .
  qed
  have b01: "byte m5 p 0 = 0" "byte m5 p 1 = 0"
    using nowrap by (simp_all add: m5_def m4_def m3_def m2_def m1_def byte_at)
  have b7: "byte m7 p j = byte m5 p j" if "j < 64" "j \<noteq> 2" "j \<noteq> 3" for j
    using that by (simp add: m7_def m6_def byte_at)
  have "m6 (p + of_nat (2 * 1)) = 0" "m6 (p + of_nat (2 * 1) + 1) = 0"
    by (simp_all add: m6_def store16_def add.assoc)
  then have "icmp_chksum p m7 = 0"
    using checksum_verifies [of 1 32 m6 p "icmp_chksum p m6" m7] by (simp add: icmp_chksum_def m7_def)
  then show ?thesis unfolding m7 using o7 b01 b5 b7 by simp
qed

lemma reply_eth_spec:
  assumes p: "unat p + 14 \<le> 4294967296" and q: "unat q + 12 \<le> 4294967296" and mac: "length (mac_addr s) = 6"
  shows "only_in p 14 (net_mem s) (net_mem (reply_eth q p s)) \<and>
    (\<forall>i < 6. byte (net_mem (reply_eth q p s)) p i = net_mem s (q + 6 + of_nat i)) \<and>
    (\<forall>i < 6. byte (net_mem (reply_eth q p s)) p (6 + i) = mac_addr s ! i) \<and>
    mac_addr (reply_eth q p s) = mac_addr s"
proof -
  define m1 where "m1 = memmove p (q + 6) 6 (net_mem s)"
  define m2 where "m2 = put_bytes (p + 6) (mac_addr s) m1"
  have m: "net_mem (reply_eth q p s) = m2(p + 12 := 0x08, p + 13 := 0x00)"
    by (simp only: reply_eth_def net_mem_on_packet m1_def m2_def)
  have nowrap: "unat (q + 6) + unat (6 :: u32) \<le> 4294967296" "unat p + unat (6 :: u32) \<le> 4294967296"
    using p q by (simp_all add: unat_add_nowrap)
  have "only_in p 14 (net_mem s) m1" using only_in_memmove [of 0 6 14 p "net_mem s" "net_mem s" "q + 6"] nowrap only_in_refl by (simp add: m1_def)
  then have "only_in p 14 (net_mem s) m2" using only_in_put_bytes [of 6 "mac_addr s" 14 p] mac by (simp add: m2_def)
  then have o: "only_in p 14 (net_mem s) (m2(p + 12 := 0x08, p + 13 := 0x00))" by (intro only_in_upd; simp)
  have b1: "byte (m2(p + 12 := 0x08, p + 13 := 0x00)) p i = net_mem s (q + 6 + of_nat i)" if "i < 6" for i
    using that nowrap mac by (simp add: m2_def m1_def byte_at)
  have b2: "byte (m2(p + 12 := 0x08, p + 13 := 0x00)) p (6 + i) = mac_addr s ! i" if "i < 6" for i
    using that mac by (simp add: m2_def byte_at)
  have "mac_addr (reply_eth q p s) = mac_addr s" by (simp add: reply_eth_def)
  then show ?thesis unfolding m using o b1 b2 by blast
qed

section \<open>Echo replies\<close>

text \<open>Bytes of one layer are not touched by the layers above it.\<close>

lemma only_in_other:
  "only_in (p + of_nat k) n m m' \<Longrightarrow> j < 4096 \<Longrightarrow> k < 4096 \<Longrightarrow> n < 4096 \<Longrightarrow> \<not> (k \<le> j \<and> j < k + n) \<Longrightarrow>
   m' (p + of_nat j) = m (p + of_nat j)"
  by (simp add: only_in_def in_range_offset)

lemma only_in_weaken:
  "only_in (p + of_nat k) l m m' \<Longrightarrow> k + l \<le> n \<Longrightarrow> n < 4294967296 \<Longrightarrow> only_in p n m m'"
  using in_range_sub unfolding only_in_def by blast

lemma only_in_trans: "only_in a n m m' \<Longrightarrow> only_in a n m' m'' \<Longrightarrow> only_in a n m m''"
  by (simp add: only_in_def)

lemma unat_low_nibble: "unat (ucast (x AND 0xF :: u8) * 4 :: u32) = 4 * unat (x AND 0xF)" "unat (x AND 0xF) < 16"
proof -
  have "x AND 0xF = take_bit 4 x" by (simp add: take_bit_eq_mask mask_eq_decr_exp)
  then show lt: "unat (x AND 0xF) < 16" by (simp add: take_bit_eq_mod unat_mod)
  have "(ucast (x AND 0xF) * 4 :: u32) = of_nat (4 * unat (x AND 0xF))" by simp
  with lt show "unat (ucast (x AND 0xF) * 4 :: u32) = 4 * unat (x AND 0xF)" by (simp only: unat_of_nat_u32)
qed

lemma ipv4_chksum_same:
  assumes "\<forall>k < 20. m' (p + of_nat k) = m (p + of_nat k)" "m p = 0x45"
  shows "ipv4_chksum p m' = ipv4_chksum p m"
proof -
  have same: "m' x = m x" if r: "in_range x p 20" for x
  proof -
    obtain k where "k < 20" "x = p + of_nat k" using in_rangeE [OF r] by auto
    then show ?thesis using assms(1) by simp
  qed
  have "m' p = m p" by (intro same) simp
  then have l: "unat ((m p AND 0xF) * 2) = 10" "unat ((m' p AND 0xF) * 2) = 10" using assms(2) by simp_all
  have "fold (add_word m' p) [0..<10] 0 = fold (add_word m p) [0..<10] 0"
    by (rule fold_add_word_cong) (simp_all add: same)
  then show ?thesis unfolding ipv4_chksum_def l by (rule arg_cong)
qed

text \<open>The memories after the Ethernet header and after the IP header; the request begins at offset \<open>h\<close>.\<close>

lemma icmp_reply_layers:
  assumes send: "unat send + 98 \<le> 4294967296" and recv: "unat recv + 138 \<le> 4294967296"
    and apart: "\<And>i. i < 138 \<Longrightarrow> \<not> in_range (recv + of_nat i) send 98"
    and mac: "length (mac_addr s) = 6"
    and r: "icmp_reply_pkt_create recv send s = (sz, s')"
  obtains m1 m2 h where "h \<le> 74" "transport recv (net_mem s) = recv + of_nat h" "sz = 98"
    "only_in send 14 (net_mem s) m1" "\<forall>i < 6. m1 (send + of_nat i) = net_mem s (recv + 6 + of_nat i)"
    "\<forall>i < 6. m1 (send + of_nat (6 + i)) = mac_addr s ! i"
    "only_in (send + 14) 20 m1 m2" "ipv4_chksum (send + 14) m2 = 0" "m2 (send + 14) = 0x45"
    "\<forall>i < 4. m2 (send + of_nat (26 + i)) = my_ip ! i" "\<forall>i < 4. m2 (send + of_nat (30 + i)) = m1 (recv + of_nat (26 + i))"
    "only_in (send + 34) 64 m2 (net_mem s')" "icmp_chksum (send + 34) (net_mem s') = 0" "net_mem s' (send + 34) = 0"
    "\<forall>i. 4 \<le> i \<and> i < 64 \<longrightarrow> net_mem s' (send + of_nat (34 + i)) = m2 (recv + of_nat (h + i))"
proof -
  define q where "q = transport recv (net_mem s)"
  define h where "h = 14 + 4 * unat (net_mem s (recv + 14) AND 0xF)"
  have h: "h \<le> 74" using unat_low_nibble(2) [of "net_mem s (recv + 14)"] by (simp add: h_def)
  have "of_nat h = (14 + ucast (net_mem s (recv + 14) AND 0xF) * 4 :: u32)" by (simp add: h_def)
  then have q: "q = recv + of_nat h" by (simp add: q_def transport_def)
  define s1 where "s1 = reply_eth recv send s"
  define s2 where "s2 = ipv4_header recv (send + 14) (ucast (sizeof_ipv4 + sizeof_icmp)) 0x4000 1 s1"
  have s': "net_mem s' = icmp_echo q (send + 34) (net_mem s2)" and sz: "sz = 98"
    using r by (auto simp: icmp_reply_pkt_create_def Let_def s2_def s1_def q_def net_mem_def [of s] add.assoc)
  have far: "\<not> in_range (recv + of_nat i) (send + of_nat k) l" if "i < 138" "k + l \<le> 98" for i k l
    using apart [OF that(1)] that(2) in_range_sub [of "recv + of_nat i" send k l 98] by auto
  have ip: "unat (send + 14) + 20 \<le> 4294967296" "unat recv + 30 \<le> 4294967296"
      "unat (send + 34) + 64 \<le> 4294967296" "unat q + 64 \<le> 4294967296"
    using send recv h by (simp_all add: unat_add_nowrap q unat_plus_of_nat)
  have i: "\<not> in_range (recv + 14 + 12 + of_nat i) (send + 14) 20" if "i < 4" for i
    using far [of "26 + i" 14 20] that by (simp add: add.assoc)
  have c: "\<not> in_range (q + of_nat i) (send + 34) 64" if "i < 64" for i
    using far [of "h + i" 34 64] that h by (simp add: q add.assoc)
  note layers = reply_eth_spec [of send recv s, folded s1_def]
    ipv4_header_spec [OF ip(1,2) i, where s = s1 and tlen = "ucast (sizeof_ipv4 + sizeof_icmp)" and frag = "0x4000" and proto = 1, folded s2_def]
    icmp_echo_spec [OF ip(3,4) c, of "net_mem s2", folded s']
  show thesis
    by (rule that [OF h _ sz, of "net_mem s1" "net_mem s2"])
      (use layers send recv mac in \<open>simp_all add: q_def [symmetric] q byte_def add.assoc\<close>)
qed


text \<open>A request with one word of IP options at \<open>0x80001000\<close>, the reply built at \<open>0x80001800\<close>.\<close>

definition demo_net :: net where
  "demo_net = \<lparr>nm = \<lparr>km_mem = (\<lambda>a. if a = 0x8000100E then 0x46 else ucast a), km_use_lock = True, km_freelist = 0\<rparr>,
     mac_addr = [2, 0, 0, 0, 0, 1], arp_tab = replicate 64 \<lparr>ae_ip = replicate 4 0, ae_mac = replicate 6 0, ae_use = 0\<rparr>,
     ip_id = -1, send_id = 7, seq_num = 0, fin_flag = 0, tdh = 0, tdt = 0, txdesc = []\<rparr>"


section \<open>The ARP table\<close>

definition arp_ok :: "arp_entry list \<Rightarrow> bool" where
  "arp_ok t \<longleftrightarrow> (\<forall>e \<in> set t. length (ae_ip e) = 4)"

lemma same_ip: "length a = 4 \<Longrightarrow> length b = 4 \<Longrightarrow> memcmp (arr a) (arr b) 4 = 0 \<longleftrightarrow> a = b"
  by (auto simp: memcmp_eq_0 arr_def list_eq_iff_nth_eq)

lemma search_found:
  assumes "arp_ok es" "length ip = 4" "\<exists>e \<in> set es. ae_ip e = ip"
  shows "\<exists>k < length es. ae_ip (es ! k) = ip \<and> (\<forall>j < k. ae_ip (es ! j) \<noteq> ip) \<and>
    arp_table_search_loop es i empt ip = i + int k"
  using assms
proof (induction es arbitrary: i empt)
  case (Cons e es)
  show ?case
  proof (cases "ae_ip e = ip")
    case True
    with Cons.prems show ?thesis by (intro exI [of _ 0]) (simp add: same_ip)
  next
    case False
    with Cons.prems obtain k where k: "k < length es" "ae_ip (es ! k) = ip" "\<forall>j < k. ae_ip (es ! j) \<noteq> ip"
      "arp_table_search_loop es (i + 1) (if ae_use e = 0 \<and> empt = 1 then - i else empt) ip = i + 1 + int k"
      using Cons.IH [of "i + 1" "if ae_use e = 0 \<and> empt = 1 then - i else empt"] by (auto simp: arp_ok_def)
    have "memcmp (arr (ae_ip e)) (arr ip) 4 \<noteq> 0" using False Cons.prems by (simp add: same_ip arp_ok_def)
    with k False show ?thesis by (intro exI [of _ "Suc k"]) (auto simp: less_Suc_eq_0_disj)
  qed
qed simp

lemma search_not_found:
  assumes "arp_ok es" "length ip = 4" "\<forall>e \<in> set es. ae_ip e \<noteq> ip" "0 \<le> i"
  shows "arp_table_search_loop es i empt ip =
    (if empt \<noteq> 1 then empt - 1
     else case find (\<lambda>k. ae_use (es ! k) = 0) [0..<length es] of None \<Rightarrow> 0 | Some k \<Rightarrow> - (i + int k) - 1)"
  using assms
proof (induction es arbitrary: i empt)
  case (Cons e es)
  have ne: "memcmp (arr (ae_ip e)) (arr ip) 4 \<noteq> 0" using Cons.prems by (simp add: same_ip arp_ok_def)
  have "find (\<lambda>k. ae_use ((e # es) ! k) = 0) [0..<length (e # es)] =
      (if ae_use e = 0 then Some 0 else map_option Suc (find (\<lambda>k. ae_use (es ! k) = 0) [0..<length es]))"
  proof -
    have "find P (map Suc xs) = map_option Suc (find (P \<circ> Suc) xs)" for P xs by (induction xs) auto
    then show ?thesis by (simp add: upt_conv_Cons map_Suc_upt [symmetric] comp_def del: upt_Suc)
  qed
  then show ?case
    using ne Cons.prems Cons.IH [of "i + 1" "if ae_use e = 0 \<and> empt = 1 then - i else empt"]
    by (auto simp: arp_ok_def split: option.splits)
qed simp

text \<open>The ARP table learns.  When the address is in the table or a slot is free, an update makes the search find the address, with the hardware address of the update, and leaves every other entry as it was.\<close>

theorem arp_table_learns:
  assumes t: "arp_ok t" "length ip = 4" and room: "(\<exists>e \<in> set t. ae_ip e = ip) \<or> (\<exists>e \<in> set t. ae_use e = 0)"
  shows "\<exists>k < length t. arp_table_search ip (arp_table_update ip mac t) = int k \<and>
    ae_mac (arp_table_update ip mac t ! k) = mac \<and> ae_ip (arp_table_update ip mac t ! k) = ip \<and>
    (\<forall>j < length t. j \<noteq> k \<longrightarrow> arp_table_update ip mac t ! j = t ! j)"
proof -
  have fin: "\<exists>k' < length t. arp_table_search ip t' = int k' \<and> k' = k"
    if t': "t' = t[k := e]" "k < length t" "ae_ip e = ip" "\<forall>j < k. ae_ip (t ! j) \<noteq> ip" for t' k e
  proof -
    have ok: "arp_ok t'" using t t' set_update_subset_insert [of t k e] by (auto simp: arp_ok_def)
    have "\<exists>e \<in> set t'. ae_ip e = ip" using that by (metis length_list_update nth_list_update_eq nth_mem)
    from search_found [OF ok t(2) this, of 0 1] obtain k' where k': "k' < length t'" "ae_ip (t' ! k') = ip"
      "\<forall>j < k'. ae_ip (t' ! j) \<noteq> ip" "arp_table_search ip t' = int k'" by (auto simp: arp_table_search_def)
    have "k' = k"
    proof (rule ccontr)
      assume ne: "k' \<noteq> k"
      then consider "k' < k" | "k < k'" by linarith
      then show False using k'(2,3) that ne by cases auto
    qed
    with k' t' show ?thesis by auto
  qed
  show ?thesis
  proof (cases "\<exists>e \<in> set t. ae_ip e = ip")
    case True
    from search_found [OF t True, of 0 1] obtain k where k: "k < length t" "ae_ip (t ! k) = ip" "\<forall>j < k. ae_ip (t ! j) \<noteq> ip"
      "arp_table_search ip t = int k" by (auto simp: arp_table_search_def)
    then have u: "arp_table_update ip mac t = t[k := (t ! k)\<lparr>ae_mac := mac\<rparr>]" by (simp add: arp_table_update_def Let_def)
    show ?thesis using fin [OF u k(1) _ k(3)] k u by (intro exI [of _ k]) auto
  next
    case False
    then obtain i where "i < length t" "ae_use (t ! i) = 0" using room by (auto simp: in_set_conv_nth)
    then have "find (\<lambda>k. ae_use (t ! k) = 0) [0..<length t] \<noteq> None" by (auto simp: find_None_iff)
    then obtain k where k1: "find (\<lambda>k. ae_use (t ! k) = 0) [0..<length t] = Some k" by blast
    then have "k < length t" by (auto simp: find_Some_iff)
    with k1 have k: "find (\<lambda>k. ae_use (t ! k) = 0) [0..<length t] = Some k" "k < length t" by simp_all
    have nf: "\<forall>e \<in> set t. ae_ip e \<noteq> ip" using False by blast
    have "arp_table_search ip t = - int k - 1"
      using search_not_found [OF t nf, of 0 1] k(1) by (simp add: arp_table_search_def)
    then have u: "arp_table_update ip mac t = t[k := (t ! k)\<lparr>ae_mac := mac, ae_ip := ip, ae_use := 1\<rparr>]"
      by (simp add: arp_table_update_def Let_def)
    have "\<forall>j < k. ae_ip (t ! j) \<noteq> ip" using nf k(2) by auto
    then show ?thesis using fin [OF u k(2)] k u by (intro exI [of _ k]) auto
  qed
qed

theorem arp_table_learns_witness:
  "arp_table_search [10, 0, 1, 2] (arp_table_update [10, 0, 1, 2] [2, 0, 0, 0, 0, 9] (arp_tab demo_net)) \<ge> 0"
proof -
  have "arp_ok (arp_tab demo_net)" by (simp add: arp_ok_def demo_net_def)
  moreover have "(\<exists>e \<in> set (arp_tab demo_net). ae_ip e = [10, 0, 1, 2]) \<or> (\<exists>e \<in> set (arp_tab demo_net). ae_use e = 0)"
    by (simp add: demo_net_def)
  ultimately show ?thesis using arp_table_learns [of "arp_tab demo_net" "[10, 0, 1, 2]" "[2, 0, 0, 0, 0, 9]"] by auto
qed

text \<open>When the table is full an unknown address overwrites the hardware address of the first entry.\<close>

lemma arp_table_full_overwrites:
  assumes "arp_ok t" "length ip = 4" "\<forall>e \<in> set t. ae_ip e \<noteq> ip" "\<forall>e \<in> set t. ae_use e \<noteq> 0"
  shows "arp_table_update ip mac t = t[0 := (t ! 0)\<lparr>ae_mac := mac\<rparr>]"
proof -
  have "find (\<lambda>k. ae_use (t ! k) = 0) [0..<length t] = None" using assms(4) by (simp add: find_None_iff)
  then have "arp_table_search ip t = 0"
    using search_not_found [OF assms(1-3), of 0 1] by (simp add: arp_table_search_def)
  then show ?thesis by (simp add: arp_table_update_def Let_def)
qed

section \<open>Where the code departs from its purpose\<close>

text \<open>\<open>H2N_uint\<close> masks nibbles where it should mask bytes: it is not the inverse of \<open>N2H_uint\<close>.\<close>

lemma H2N_uint_wrong: "H2N_uint 0x10 = 0x1000" "N2H_uint 0x10 = 0x10000000" "H2N_uint 0x10000 = 0"
  by (simp_all add: H2N_uint_def N2H_uint_def)

text \<open>The transmit ring is never found full: with 255 packets outstanding one more makes it look empty.\<close>

lemma i8254_send_never_full: "fst (i8254_send p len s) = sint len"
proof -
  define x where "x = (256 - tdh s + tdt s) mod 256"
  have x: "unat x < 256" by (simp add: x_def unat_mod)
  then have u: "uint x < 256" by (metis of_nat_less_iff of_nat_numeral of_nat_unat ucast_id uint_nat)
  then have "signed_take_bit 31 (uint x) = uint x"
    by (intro signed_take_bit_int_eq_self order_trans [OF _ uint_ge_0 [of x]]) simp_all
  then have "sint x = uint x" by (simp add: sint_uint)
  then have "sint x < 256" using u by linarith
  then show ?thesis by (simp add: i8254_send_def Let_def x_def [symmetric])
qed

text \<open>Of the 256 descriptors of the ring those from 129 on never get a buffer: their address is whatever was in the page.\<close>

lemma init_send_buffers_other: "128 < j \<Longrightarrow> init_send_buffers i ps ds ! j = ds ! j"
  by (induction i ps ds rule: init_send_buffers.induct) (simp_all add: Let_def)

lemma i8254_init_send_no_buffer:
  "128 < j \<Longrightarrow> j < length ds \<Longrightarrow> sd_buf_addr (i8254_init_send pages ds ! j) = sd_buf_addr (ds ! j)"
  by (simp add: i8254_init_send_def init_send_buffers_other clear_desc_def)

end
