(* ===== verification/Nic.thy ===== *)
theory Nic
  imports Net
begin

text \<open>
  The network card: the scan of the bus that finds it, \<open>pci.c\<close>, and its driver, \<open>i8254.c\<close>, whose transmit ring
  is in \<open>Net\<close>.

  What the driver writes to the ports and to the registers of the card (in memory, from \<open>base_addr\<close> on) is
  recorded in \<open>c_writes\<close>; \<open>c_answers\<close> are the values that its reads will give, in order, and a read for
  which there is none left waits.  The receive descriptors are in the memory of the kernel.  The registers of the
  rings that the driver reads back (\<open>tdt\<close>, \<open>rdbal\<close>, \<open>rdt\<close>) are fields.  Diagnostics are left out.
\<close>

section \<open>Registers and ports\<close>

datatype card_write = PortW u16 u32 | RegW u32 u32

record card =
  c_net :: net
  c_writes :: "card_write list"
  c_answers :: "u32 list"
  base_addr :: u32
  intr_addr :: u32
  rdbal :: u32
  rdt :: u32

record pci_dev =
  bus_num :: u8
  device_num :: u8
  function_num :: u8
  device_id :: u32
  vendor_id :: u32
  base_class :: u8
  sub_class :: u8
  interface_id :: u8
  revision_id :: u8
  bar0 :: u32
  bar1 :: u32

definition card_read :: "card \<Rightarrow> (u32 \<times> card) outcome" where
  "card_read s = (case c_answers s of [] \<Rightarrow> Sleeps (ChSpin ''card'') | v # vs \<Rightarrow> Ok (v, s\<lparr>c_answers := vs\<rparr>))"

definition port_write :: "u16 \<Rightarrow> u32 \<Rightarrow> card \<Rightarrow> card" where
  "port_write p v s = s\<lparr>c_writes := c_writes s @ [PortW p v]\<rparr>"

text \<open>A store to the register at an offset.\<close>

definition reg :: "u32 \<Rightarrow> u32 \<Rightarrow> card \<Rightarrow> card" where
  "reg off v s = s\<lparr>c_writes := c_writes s @ [RegW (base_addr s + off) v]\<rparr>"

definition card_mem :: "(mem \<Rightarrow> mem) \<Rightarrow> card \<Rightarrow> card" where
  "card_mem f s = s\<lparr>c_net := on_packet f (c_net s)\<rparr>"

definition card_kalloc :: "card \<Rightarrow> u32 \<times> card" where
  "card_kalloc s = (let (p, m) = kalloc (nm (c_net s)) in (p, s\<lparr>c_net := (c_net s)\<lparr>nm := m\<rparr>\<rparr>))"

section \<open>pci.c\<close>

definition pci_config_addr :: "u32 \<Rightarrow> u32 \<Rightarrow> u32 \<Rightarrow> u32 \<Rightarrow> u32" where
  "pci_config_addr bus dev fn reg_addr =
     push_bit 16 (bus AND 0xFF) OR push_bit 11 (dev AND 0x1F) OR push_bit 8 (fn AND 0x7) OR
     (reg_addr AND 0xFC) OR 0x80000000"

definition pci_write_config :: "u32 \<Rightarrow> card \<Rightarrow> card" where
  "pci_write_config config = port_write 0xCF8 config"

definition pci_write_data :: "u32 \<Rightarrow> card \<Rightarrow> card" where
  "pci_write_data config = port_write 0xCFC config"

definition pci_access_config :: "u32 \<Rightarrow> u32 \<Rightarrow> u32 \<Rightarrow> u32 \<Rightarrow> card \<Rightarrow> (u32 \<times> card) outcome" where
  "pci_access_config bus dev fn reg_addr s = card_read (pci_write_config (pci_config_addr bus dev fn reg_addr) s)"

definition pci_write_config_register :: "u32 \<Rightarrow> u32 \<Rightarrow> u32 \<Rightarrow> u32 \<Rightarrow> u32 \<Rightarrow> card \<Rightarrow> card" where
  "pci_write_config_register bus dev fn reg_addr data s =
     pci_write_data data (pci_write_config (pci_config_addr bus dev fn reg_addr) s)"

section \<open>Setting up the card, i8254.c\<close>

abbreviation (input) RECV_DESC_NUM :: nat where "RECV_DESC_NUM \<equiv> 256"
abbreviation (input) I8254_CTRL_RST :: u32 where "I8254_CTRL_RST \<equiv> 0x4000000"
abbreviation (input) I8254_CTRL_SLU :: u32 where "I8254_CTRL_SLU \<equiv> 0x40"
abbreviation (input) I8254_CTRL_PHY_RST :: u32 where "I8254_CTRL_PHY_RST \<equiv> 0x80000000"
abbreviation (input) I8254_CTRL_VME :: u32 where "I8254_CTRL_VME \<equiv> 0x40000000"
abbreviation (input) I8254_CTRL_ILOS :: u32 where "I8254_CTRL_ILOS \<equiv> 0x80"
abbreviation (input) I8254_RAH_AV :: u32 where "I8254_RAH_AV \<equiv> 0x80000000"

text \<open>\<open>RXT0 | RXDMT0 | RXSEQ | LSC | RXO\<close>\<close>

definition recv_interrupts :: u32 where
  "recv_interrupts = 0x80 OR 0x10 OR 0x8 OR 0x4 OR 0x40"

text \<open>The card sets bit 4 of the register when the word has been read.\<close>

fun eeprom_wait :: "u32 list \<Rightarrow> u32 list outcome" where
  "eeprom_wait [] = Sleeps (ChSpin ''eeprom'')"
| "eeprom_wait (data # vs) = (if data AND 0x10 \<noteq> 0 then Ok vs else eeprom_wait vs)"

definition i8254_read_eeprom :: "u32 \<Rightarrow> card \<Rightarrow> (u32 \<times> card) outcome" where
  "i8254_read_eeprom addr s =
     (let s = reg 0x14 (push_bit 8 (addr AND 0xFF) OR 1) s in
      bnd (eeprom_wait (c_answers s)) (\<lambda>vs.
      bnd (card_read (s\<lparr>c_answers := vs\<rparr>)) (\<lambda>(v, s). Ok (drop_bit 16 v AND 0xFFFF, s))))"

text \<open>A receive descriptor: the buffer at offset 0, \<open>padding\<close> 4, \<open>len\<close> 8, \<open>chk_sum\<close> 10, \<open>status\<close> 12,
  \<open>errors\<close> 13, \<open>special\<close> 14.\<close>

definition clear_recv_desc :: "u32 \<Rightarrow> mem \<Rightarrow> mem" where
  "clear_recv_desc d m =
     (let m = store32 (d + 4) 0 m; m = store16 (d + 8) 0 m; m = store16 (d + 10) 0 m;
          m = m(d + 12 := 0); m = m(d + 13 := 0)
      in store16 (d + 14) 0 m)"

fun init_recv_buffers :: "u32 \<Rightarrow> nat list \<Rightarrow> card \<Rightarrow> card" where
  "init_recv_buffers ring [] s = s"
| "init_recv_buffers ring (i # is) s =
     (let (p, s) = card_kalloc s in
      if p = 0 then s
      else
        (let s = card_mem (store32 (ring + 16 * of_nat i) (V2P p)) s;
             s = card_mem (store32 (ring + 16 * of_nat (i + 1)) (V2P (p + 0x800))) s
         in init_recv_buffers ring is s))"

definition i8254_init_recv :: "card \<Rightarrow> card outcome" where
  "i8254_init_recv s =
     bnd (i8254_read_eeprom 0 s) (\<lambda>(data_l, s).
     bnd (i8254_read_eeprom 1 s) (\<lambda>(data_m, s).
     bnd (i8254_read_eeprom 2 s) (\<lambda>(data_h, s).
     let mac = [ucast (data_l AND 0xFF), ucast (drop_bit 8 data_l), ucast (data_m AND 0xFF), ucast (drop_bit 8 data_m),
           ucast (data_h AND 0xFF), ucast (drop_bit 8 data_h)];
         s = s\<lparr>c_net := (c_net s)\<lparr>mac_addr := mac\<rparr>\<rparr>;
         s = reg 0x5400 (data_l OR push_bit 16 data_m) s;
         s = reg 0x5404 (data_h OR push_bit 16 0 OR I8254_RAH_AV) s;
         s = fold (\<lambda>i. reg (0x5200 + 4 * of_nat i) 0) [0..<128] s;
         s = reg 0xD0 recv_interrupts s;
         s = reg 0xC8 recv_interrupts s;
         s = reg 0x2828 0 s;
         s = reg 0x100 (0x8 OR 0x10 OR 0x8000 OR 0 OR 0x4000000) s;
         (ring, s) = card_kalloc s
     in if ring = 0 then Undef ''i8254_init_recv: no page for the ring''
        else
          (let s = reg 0x2800 (V2P ring) s;
               s = reg 0x2804 0 s;
               s = reg 0x2808 (16 * of_nat RECV_DESC_NUM) s;
               s = reg 0x2810 0 s;
               s = reg 0x2818 (of_nat RECV_DESC_NUM) s;
               s = s\<lparr>rdbal := V2P ring, rdt := of_nat RECV_DESC_NUM\<rparr>;
               s = fold (\<lambda>i. card_mem (clear_recv_desc (ring + 16 * of_nat i))) [0..<RECV_DESC_NUM] s;
               s = init_recv_buffers ring [0..<RECV_DESC_NUM div 2] s
           in bnd (card_read s) (\<lambda>(rctl, s). Ok (reg 0x100 (rctl OR 0x2) s))))))"

text \<open>The pages \<open>kalloc\<close> gives, up to the first failure.\<close>

fun kallocs :: "nat \<Rightarrow> card \<Rightarrow> u32 list \<times> card" where
  "kallocs 0 s = ([], s)"
| "kallocs (Suc n) s =
     (let (p, s) = card_kalloc s in
      if p = 0 then ([0], s) else (let (ps, s) = kallocs n s in (p # ps, s)))"

text \<open>What the page of the transmit ring holds before it is set up.\<close>

definition send_desc_at :: "mem \<Rightarrow> u32 \<Rightarrow> send_desc" where
  "send_desc_at m d = \<lparr>sd_buf_addr = load32 m d, sd_padding = load32 m (d + 4), sd_len = load16 m (d + 8),
     sd_cso = m (d + 10), sd_cmd = m (d + 11), sd_sta = m (d + 12), sd_css = m (d + 13), sd_special = load16 m (d + 14)\<rparr>"

definition i8254_init_send_regs :: "card \<Rightarrow> card outcome" where
  "i8254_init_send_regs s =
     (let s = reg 0x3828 (push_bit 16 1 OR push_bit 24 1) s;
          (ring, s) = card_kalloc s
      in if ring = 0 then Undef ''i8254_init_send: no page for the ring''
         else
           (let s = reg 0x3800 (V2P ring) s;
                s = reg 0x3804 0 s;
                s = reg 0x3808 (16 * of_nat SEND_DESC_NUM) s;
                s = reg 0x3810 0 s;
                s = reg 0x3818 0 s;
                old = map (\<lambda>i. send_desc_at (km_mem (nm (c_net s))) (ring + 16 * of_nat i)) [0..<SEND_DESC_NUM];
                (pages, s) = kallocs (SEND_DESC_NUM div 2) s;
                s = s\<lparr>c_net := (c_net s)\<lparr>tdh := 0, tdt := 0, txdesc := i8254_init_send pages old\<rparr>\<rparr>;
                s = reg 0x400 (0x2 OR 0x8 OR push_bit 12 0x40 OR push_bit 4 0xF) s
            in Ok (reg 0x410 (10 OR push_bit 10 10 OR push_bit 20 10) s)))"

text \<open>The mask of the general configuration has a complement too many: see \<open>ctrl_mask_all\<close>.\<close>

definition ctrl_mask :: u32 where
  "ctrl_mask = NOT I8254_CTRL_PHY_RST OR NOT I8254_CTRL_VME OR NOT I8254_CTRL_ILOS"

definition i8254_init :: "pci_dev \<Rightarrow> card \<Rightarrow> card outcome" where
  "i8254_init dev s =
     (let bus = ucast (bus_num dev); dv = ucast (device_num dev); fn = ucast (function_num dev) in
      bnd (pci_access_config bus dv fn 0x04 s) (\<lambda>(cmd_reg, s).
      let s = pci_write_config_register bus dv fn 0x04 (cmd_reg OR 4) s;
          s = s\<lparr>base_addr := PCI_P2V (bar0 dev)\<rparr>;
          s = reg 0xD8 0xFFFFFFFF s
      in bnd (card_read s) (\<lambda>(c, s).
         let s = reg 0 (c OR I8254_CTRL_RST) s; s = reg 0xD8 0xFFFFFFFF s
         in bnd (card_read s) (\<lambda>(c, s).
            let s = reg 0 (c OR I8254_CTRL_SLU) s
            in bnd (card_read s) (\<lambda>(c, s).
               let s = reg 0 (c AND ctrl_mask) s; (p, s) = card_kalloc s
               in if p = 0 then Undef ''i8254_init: no page''
                  else
                    (let s = card_mem (store32 p 0) (s\<lparr>intr_addr := p\<rparr>)
                     in bnd (i8254_init_recv s) (\<lambda>s. bnd (i8254_init_send_regs s) (\<lambda>s. Ok (reg 0xD8 0 s)))))))))"

definition i8254_intr :: "card \<Rightarrow> card" where
  "i8254_intr s = card_mem (store32 (intr_addr s) 0xEEEEEE) s"

section \<open>The scan\<close>

definition pci_init_device :: "u32 \<Rightarrow> u32 \<Rightarrow> u32 \<Rightarrow> pci_dev \<times> card \<Rightarrow> (pci_dev \<times> card) outcome" where
  "pci_init_device bus dv fn ds =
     (let (dev, s) = ds; dev = dev\<lparr>bus_num := ucast bus, device_num := ucast dv, function_num := ucast fn\<rparr> in
      bnd (pci_access_config bus dv fn 0 s) (\<lambda>(data, s).
      let dev = dev\<lparr>device_id := drop_bit 16 data, vendor_id := data AND 0xFFFF\<rparr> in
      bnd (pci_access_config bus dv fn 0x8 s) (\<lambda>(data, s).
      let dev = dev\<lparr>base_class := ucast (drop_bit 24 data), sub_class := ucast (drop_bit 16 data AND 0xFF),
            interface_id := ucast (drop_bit 8 data AND 0xFF), revision_id := ucast (data AND 0xFF)\<rparr> in
      bnd (pci_access_config bus dv fn 0x10 s) (\<lambda>(data, s).
      let dev = dev\<lparr>bar0 := data\<rparr> in
      bnd (pci_access_config bus dv fn 0x14 s) (\<lambda>(data, s).
      let dev = dev\<lparr>bar1 := data\<rparr> in
      if device_id dev = 0x100E \<and> vendor_id dev = 0x8086 then
        bnd (pci_access_config bus dv fn 0xF0 s) (\<lambda>(_, s). bnd (i8254_init dev s) (\<lambda>s. Ok (dev, s)))
      else Ok (dev, s))))))"

definition pci_init_step :: "nat \<times> nat \<times> nat \<Rightarrow> pci_dev \<times> card \<Rightarrow> (pci_dev \<times> card) outcome" where
  "pci_init_step ijk ds =
     (let (i, j, k) = ijk; (dev, s) = ds in
      bnd (pci_access_config (of_nat i) (of_nat j) (of_nat k) 0 s) (\<lambda>(data, s).
      if data AND 0xFFFF \<noteq> 0xFFFF then pci_init_device (of_nat i) (of_nat j) (of_nat k) (dev, s) else Ok (dev, s)))"

definition pci_init :: "pci_dev \<times> card \<Rightarrow> (pci_dev \<times> card) outcome" where
  "pci_init = for_each pci_init_step
     (concat (map (\<lambda>i. concat (map (\<lambda>j. map (\<lambda>k. (i, j, k)) [0..<8]) [0..<32])) [0..<256]))"

section \<open>The receive loop\<close>

text \<open>One packet: \<open>eth_proc\<close> on the buffer of descriptor \<open>i\<close>.\<close>

definition recv_packet :: "u32 \<Rightarrow> u32 \<Rightarrow> u32 \<Rightarrow> net \<Rightarrow> net outcome" where
  "recv_packet kend ring i n = eth_proc kend (load32 (km_mem (nm n)) (ring + 16 * i) + KERNBASE) n"

text \<open>One turn of the loop; \<open>h\<close> and \<open>h'\<close> are what \<open>*rdh\<close> reads in its two places.\<close>

definition i8254_recv_turn :: "u32 \<Rightarrow> u32 \<times> u32 \<Rightarrow> card \<Rightarrow> card outcome" where
  "i8254_recv_turn kend hh s =
     (let (h, h') = hh; rx_available = sint ((of_nat RECV_DESC_NUM - rdt s + h) mod of_nat RECV_DESC_NUM) in
      bnd (if rx_available > 0 then
             bnd (recv_packet kend (P2V (rdbal s)) (rdt s) (c_net s)) (\<lambda>n.
               Ok (s\<lparr>rdt := (rdt s + 1) mod of_nat RECV_DESC_NUM, c_net := n\<rparr>))
           else Ok s) (\<lambda>s.
      Ok (if rdt s = h' then s\<lparr>rdt := rdt s - 1\<rparr> else s)))"

text \<open>The loop has no end; this is the part of it in which \<open>*rdh\<close> reads the values \<open>hs\<close>.\<close>

definition i8254_recv :: "u32 \<Rightarrow> (u32 \<times> u32) list \<Rightarrow> card \<Rightarrow> card outcome" where
  "i8254_recv kend = for_each (i8254_recv_turn kend)"

section \<open>What the loop hands to the protocols\<close>

lemma recv_turn_some:
  assumes "unat ((256 - rdt s + h) mod 256) = Suc d"
  shows "i8254_recv_turn kend (h, h) s = bnd (recv_packet kend (P2V (rdbal s)) (rdt s) (c_net s)) (\<lambda>n.
     let r = (rdt s + 1) mod 256 in Ok (s\<lparr>c_net := n, rdt := (if r = h then r - 1 else r)\<rparr>))"
proof -
  have "unat ((256 - rdt s + h) mod 256) < 256" by (simp add: unat_mod)
  then have "sint ((256 - rdt s + h) mod 256) = int (Suc d)" using assms by (subst sint_u32_small) simp_all
  then show ?thesis
    by (cases "recv_packet kend (P2V (rdbal s)) (rdt s) (c_net s)") (simp_all add: i8254_recv_turn_def Let_def)
qed

text \<open>Ring indices as integers.\<close>

lemma uint_ring: "uint ((x :: u32) mod 256) = uint x mod 256"
  by (simp add: uint_mod)

lemma uint_ring_dist: "uint ((256 - r + h :: u32) mod 256) = (uint h - uint r) mod 256"
proof -
  have "uint (256 - r + h) mod 256 = ((256 - uint r) + uint h) mod 256"
    by (simp add: uint_word_ariths mod_mod_cancel mod_simps)
  also have "\<dots> = (uint h - uint r + 256) mod 256" by (simp add: algebra_simps)
  finally show ?thesis by (simp add: uint_ring)
qed

lemma uint_ring_next: "uint ((r + 1 :: u32) mod 256) = (uint r + 1) mod 256"
  by (simp add: uint_ring uint_word_ariths mod_mod_cancel)

lemma ring_add: "(x mod 256 + y) mod 256 = (x + y :: u32) mod 256"
proof -
  have "uint ((x mod 256 + y) mod 256) = uint ((x + y) mod 256)"
    by (simp add: uint_ring uint_word_ariths mod_mod_cancel mod_add_left_eq)
  then show ?thesis by (simp only: word_uint_eq_iff)
qed

lemma ring_next_index: "((r + 1) mod 256 + 1 + of_nat i) mod 256 = (r + 1 + of_nat (Suc i) :: u32) mod 256"
  using ring_add [of "r + 1" "1 + of_nat i"] by (simp add: algebra_simps)

lemma ring_step:
  fixes r h :: u32
  assumes d: "unat ((256 - r + h) mod 256) = Suc d" and h: "unat h < 256"
  shows "unat ((256 - (r + 1) mod 256 + h) mod 256) = d" "(r + 1) mod 256 = h \<longleftrightarrow> d = 0"
proof -
  have "uint ((256 - r + h) mod 256) = int (unat ((256 - r + h) mod 256))" by simp
  then have dd: "(uint h - uint r) mod 256 = int d + 1" unfolding d uint_ring_dist by simp
  then have d0: "int d + 1 < 256" by (metis pos_mod_bound zero_less_numeral)
  have "(uint h - (uint r + 1) mod 256) mod 256 = ((uint h - uint r) mod 256 - 1) mod 256"
    by (simp add: mod_simps algebra_simps)
  also have "\<dots> = int d" unfolding dd using d0 by simp
  finally have e: "(uint h - (uint r + 1) mod 256) mod 256 = int d" .
  then have "uint ((256 - (r + 1) mod 256 + h) mod 256) = int d"
    unfolding uint_ring_dist uint_ring_next .
  moreover have "int (unat ((256 - (r + 1) mod 256 + h) mod 256)) = uint ((256 - (r + 1) mod 256 + h) mod 256)" by simp
  ultimately show "unat ((256 - (r + 1) mod 256 + h) mod 256) = d" by linarith
  have "uint h = int (unat h)" by simp
  then have hb: "0 \<le> uint h" "uint h < 256" using h by linarith+
  have rb: "0 \<le> (uint r + 1) mod 256" "(uint r + 1) mod 256 < 256" by simp_all
  show "(r + 1) mod 256 = h \<longleftrightarrow> d = 0"
  proof
    assume "(r + 1) mod 256 = h"
    then have "uint h = (uint r + 1) mod 256" using uint_ring_next [of r] by simp
    then show "d = 0" using e by simp
  next
    assume "d = 0"
    then have "256 dvd uint h - (uint r + 1) mod 256" using e by (simp add: dvd_eq_mod_eq_0)
    then obtain q where q: "uint h - (uint r + 1) mod 256 = 256 * q" by (elim dvdE)
    then have "q < 1" "- 1 < q" using hb rb by linarith+
    then have "uint h = (uint r + 1) mod 256" using q by simp
    then show "(r + 1) mod 256 = h" unfolding word_uint_eq_iff uint_ring_next by simp
  qed
qed

lemma recv_run:
  assumes "unat ((256 - rdt s + h) mod 256) = Suc d" "unat h < 256"
  shows "i8254_recv kend (replicate (Suc d) (h, h)) s =
    bnd (for_each (recv_packet kend (P2V (rdbal s))) (rdt s # map (\<lambda>i. (rdt s + 1 + of_nat i) mod 256) [0..<d]) (c_net s))
      (\<lambda>n. Ok (s\<lparr>c_net := n, rdt := h - 1\<rparr>))"
  using assms(1)
proof (induction d arbitrary: s)
  case 0
  note st = ring_step [OF 0 assms(2)]
  show ?case
    using recv_turn_some [OF 0, of kend] st by (simp add: i8254_recv_def bnd_assoc Let_def)
next
  case (Suc d)
  note st = ring_step [OF Suc.prems assms(2)]
  let ?r = "(rdt s + 1) mod 256"
  have i: "map (\<lambda>i. (rdt s + 1 + of_nat i) mod 256) [0..<Suc d] = ?r # map (\<lambda>i. (?r + 1 + of_nat i) mod 256) [0..<d]"
    by (simp add: upt_conv_Cons map_Suc_upt [symmetric] ring_next_index del: upt_Suc)
  have run: "i8254_recv kend (replicate (Suc d) (h, h)) (s\<lparr>c_net := n, rdt := ?r\<rparr>) =
      bnd (for_each (recv_packet kend (P2V (rdbal s))) (?r # map (\<lambda>i. (?r + 1 + of_nat i) mod 256) [0..<d]) n)
        (\<lambda>n. Ok (s\<lparr>c_net := n, rdt := h - 1\<rparr>))" for n
    using Suc.IH [of "s\<lparr>c_net := n, rdt := ?r\<rparr>"] st(1) by simp
  have "i8254_recv kend (replicate (Suc (Suc d)) (h, h)) s =
      bnd (i8254_recv_turn kend (h, h) s) (i8254_recv kend (replicate (Suc d) (h, h)))"
    by (simp add: i8254_recv_def)
  also have "\<dots> = bnd (recv_packet kend (P2V (rdbal s)) (rdt s) (c_net s)) (\<lambda>n.
      i8254_recv kend (replicate (Suc d) (h, h)) (s\<lparr>c_net := n, rdt := ?r\<rparr>))"
    using recv_turn_some [OF Suc.prems, of kend] st(2)
    by (cases "recv_packet kend (P2V (rdbal s)) (rdt s) (c_net s)") (simp_all add: Let_def)
  finally show ?case unfolding run i for_each.simps(2) [of _ "rdt s"] by (simp only: bnd_assoc)
qed

text \<open>C28: the receive loop hands to the protocols every packet the card has put into the ring, in order.
  Between two rounds \<open>rdt\<close> is one behind the card's head \<open>h0\<close>; after \<open>n\<close> further packets, up to 254,
  \<open>n + 1\<close> turns of the loop run \<open>eth_proc\<close> on the descriptors \<open>h0\<close> to \<open>h0 + n - 1\<close> around the ring, and
  before them once more on the descriptor behind \<open>h0\<close> (the packet handled last; the bytes before the
  ring when \<open>h0\<close> is 0), and leave \<open>rdt\<close> one behind the new head.\<close>

theorem recv_hands_on_packets:
  assumes h: "h0 < 256" "n \<le> 254" and r: "rdt s = of_nat h0 - 1"
  shows "i8254_recv kend (replicate (Suc n) (of_nat ((h0 + n) mod 256), of_nat ((h0 + n) mod 256))) s =
    bnd (for_each (recv_packet kend (P2V (rdbal s))) ((of_nat h0 - 1) # map (\<lambda>i. of_nat ((h0 + i) mod 256)) [0..<n]) (c_net s))
      (\<lambda>net. Ok (s\<lparr>c_net := net, rdt := of_nat ((h0 + n) mod 256) - 1\<rparr>))"
proof -
  have m: "of_nat (k mod 256) = (of_nat k :: u32) mod 256" if "k < 1000" for k
  proof -
    have "unat (of_nat (k mod 256) :: u32) = unat ((of_nat k :: u32) mod 256)"
      using that by (simp add: unat_of_nat_u32 unat_mod)
    then show ?thesis by (simp only: word_unat_eq_iff)
  qed
  let ?h = "of_nat ((h0 + n) mod 256) :: u32"
  have uh: "unat ?h < 256" by (simp add: unat_of_nat_u32)
  have "(256 - rdt s + ?h) mod 256 = (of_nat (h0 + n) mod 256 + (257 - of_nat h0)) mod 256"
    unfolding r using m [of "h0 + n"] h by (simp add: algebra_simps)
  also have "\<dots> = (of_nat (n + 1) + 256) mod 256" unfolding ring_add by (simp add: algebra_simps)
  finally have w: "(256 - rdt s + ?h) mod 256 = (of_nat (n + 1) + 256) mod 256" .
  have u: "unat (of_nat (n + 1) :: u32) = n + 1" by (rule unat_of_nat_u32) (use h in simp)
  then have "unat (of_nat (n + 1) + 256 :: u32) = (n + 1) + 256"
    using h(2) by (subst unat_add_nowrap) simp_all
  moreover have "((n + 1) + 256) mod 256 = n + 1" using h(2) by (simp only: mod_add_self2) simp
  ultimately have "unat ((of_nat (n + 1) + 256 :: u32) mod 256) = Suc n" by (simp only: unat_mod) simp
  then have d: "unat ((256 - rdt s + ?h) mod 256) = Suc n" unfolding w .
  have me: "map (\<lambda>i. (rdt s + 1 + of_nat i) mod 256) [0..<n] = map (\<lambda>i. of_nat ((h0 + i) mod 256)) [0..<n]"
    by (rule map_cong) (use m h in \<open>simp_all add: r\<close>)
  show ?thesis using recv_run [OF d uh, of kend] unfolding me unfolding r .
qed

text \<open>One packet in a ring whose packets have no known type.\<close>

theorem recv_hands_on_packets_witness:
  "\<exists>s :: card. rdt s = 4 \<and> i8254_recv 0 [(6, 6), (6, 6)] s = Ok (s\<lparr>rdt := 5\<rparr>)"
proof -
  define s where "s = (undefined :: card)\<lparr>rdt := 4, rdbal := 0,
    c_net := (undefined :: net)\<lparr>nm := (undefined :: kmem)\<lparr>km_mem := \<lambda>_. 0\<rparr>\<rparr>\<rparr>"
  have r: "rdt s = of_nat 5 - 1" by (simp add: s_def)
  have "(5 + 1) mod 256 = (6 :: nat)" "replicate (Suc 1) x = [x, x]" "[0..<1] = [0 :: nat]" for x :: "u32 \<times> u32"
    by simp_all
  note f = recv_hands_on_packets [OF _ _ r, of 1 0, unfolded this]
  have "eth_proc 0 a (c_net s) = Ok (c_net s)" for a by (simp add: eth_proc_def s_def)
  then have "i8254_recv 0 [(6, 6), (6, 6)] s = Ok (s\<lparr>c_net := c_net s, rdt := 5\<rparr>)"
    using f by (simp add: recv_packet_def)
  then show ?thesis using r by (intro exI [of _ s]) simp
qed

text \<open>
  \<open>i8254_init_recv\<close> leaves \<open>rdt\<close> at 256, one behind the last descriptor: the first packets are handed on as the bytes behind the
  ring (descriptor 256) and the packets 1, 2, ...; the first packet itself is seen in the next round only.
\<close>

lemma recv_first:
  assumes "0 < h" "h < 256" "rdt s = 256"
  shows "i8254_recv kend (replicate h (of_nat h, of_nat h)) s =
    bnd (for_each (recv_packet kend (P2V (rdbal s))) (256 # map of_nat [1..<h]) (c_net s))
      (\<lambda>net. Ok (s\<lparr>c_net := net, rdt := of_nat h - 1\<rparr>))"
proof -
  have u: "unat (of_nat h :: u32) = h" by (rule unat_of_nat_u32) (use assms in simp)
  have d: "unat ((256 - rdt s + of_nat h) mod 256) = Suc (h - 1)" using assms u by (simp add: unat_mod)
  have "(257 + of_nat i) mod 256 = (of_nat (Suc i) :: u32)" if "i < h - 1" for i
  proof -
    have v: "unat (of_nat (Suc i) :: u32) = Suc i" by (rule unat_of_nat_u32) (use that assms in simp)
    have "(257 + of_nat i :: u32) mod 256 = (256 mod 256 + of_nat (Suc i)) mod 256" unfolding ring_add by simp
    also have "\<dots> = of_nat (Suc i)" using v that assms by (simp add: word_unat_eq_iff unat_mod del: of_nat_Suc)
    finally show ?thesis .
  qed
  then have "map (\<lambda>i. (rdt s + 1 + of_nat i) mod 256) [0..<h - 1] = map (of_nat \<circ> Suc) [0..<h - 1]"
    using assms(3) by simp
  also have "\<dots> = map of_nat [1..<h]" using assms(1) by (simp add: map_Suc_upt map_map [symmetric] del: map_map)
  finally show ?thesis using recv_run [OF d, of kend] u assms by simp
qed

lemma ctrl_mask_all: "c AND ctrl_mask = c"
  by (rule bit_word_eqI) (simp add: ctrl_mask_def bit_simps)

lemma pci_config_addr_fields:
  "drop_bit 16 (pci_config_addr bus dev fn r) AND 0xFF = bus AND 0xFF"
  "drop_bit 11 (pci_config_addr bus dev fn r) AND 0x1F = dev AND 0x1F"
  "drop_bit 8 (pci_config_addr bus dev fn r) AND 0x7 = fn AND 0x7"
proof -
  have m: "(0xFF :: u32) = mask 8" "(0x1F :: u32) = mask 5" "(0x7 :: u32) = mask 3" "(0xFC :: u32) = push_bit 2 (mask 6)"
    by (simp_all add: mask_eq_exp_minus_1)
  obtain top :: u32 where t: "0x80000000 = top" "\<And>n. bit top n \<longleftrightarrow> n = 31"
  proof
    show "0x80000000 = (push_bit 31 1 :: u32)" by simp
    show "bit (push_bit 31 1 :: u32) n \<longleftrightarrow> n = 31" for n by (auto simp: bit_simps simp del: push_bit_of_1)
  qed
  show "drop_bit 16 (pci_config_addr bus dev fn r) AND 0xFF = bus AND 0xFF"
    "drop_bit 11 (pci_config_addr bus dev fn r) AND 0x1F = dev AND 0x1F"
    "drop_bit 8 (pci_config_addr bus dev fn r) AND 0x7 = fn AND 0x7"
    unfolding pci_config_addr_def m t(1) by (rule bit_word_eqI; auto simp: bit_simps t(2))+
qed

end
