(* ===== verification/Ide.thy ===== *)
theory Ide
  imports Bio
begin

text \<open>
  The driver of the IDE disk, \<open>ide.c\<close>; the kernel that keeps its disk in memory is linked with
  \<open>memide.c\<close> in its place.

  The buffers wait in a queue, a list linked through \<open>qnext\<close>; the disk works on the first one, and the
  interrupt at its end takes it off and starts the next.  A port is named by its number.  What the driver
  writes to the ports is recorded in \<open>id_ports\<close>; what it reads is an argument: the successive values of the
  status port and the bytes of the data port.  A process that finds the queue closed to a ring, or a disk that is never ready,
  spins.

  \<open>ide_step\<close> lets processes submit buffers and return, the disk finish requests and other
  processes use the cache in between.  The theorem is that this is the driver \<open>memide.c\<close> behind a FIFO queue.
\<close>

section \<open>Ports\<close>

abbreviation (input) SECTOR_SIZE :: nat where "SECTOR_SIZE \<equiv> 512"
abbreviation (input) IDE_BSY :: u8 where "IDE_BSY \<equiv> 0x80"
abbreviation (input) IDE_DRDY :: u8 where "IDE_DRDY \<equiv> 0x40"
abbreviation (input) IDE_DF :: u8 where "IDE_DF \<equiv> 0x20"
abbreviation (input) IDE_ERR :: u8 where "IDE_ERR \<equiv> 0x01"
abbreviation (input) IDE_CMD_READ :: u8 where "IDE_CMD_READ \<equiv> 0x20"
abbreviation (input) IDE_CMD_WRITE :: u8 where "IDE_CMD_WRITE \<equiv> 0x30"
abbreviation (input) IDE_CMD_RDMUL :: u8 where "IDE_CMD_RDMUL \<equiv> 0xc4"
abbreviation (input) IDE_CMD_WRMUL :: u8 where "IDE_CMD_WRMUL \<equiv> 0xc5"

datatype port_op = Outb u16 u8 | Outsl u16 "u8 list"

record ide =
  id_bufs :: "buf list"
  id_next :: "nat \<Rightarrow> nat option"
  id_queue :: "nat option"
  id_disk1 :: bool
  id_ports :: "port_op list"
  id_woken :: "chan list"

definition outs :: "port_op list \<Rightarrow> ide \<Rightarrow> ide" where
  "outs ops s = s\<lparr>id_ports := id_ports s @ ops\<rparr>"

definition upd_ibuf :: "nat \<Rightarrow> (buf \<Rightarrow> buf) \<Rightarrow> ide \<Rightarrow> ide" where
  "upd_ibuf i f s = s\<lparr>id_bufs := (id_bufs s)[i := f (id_bufs s ! i)]\<rparr>"

text \<open>The list holds what the status port will answer; the result tells whether the disk reports success.\<close>

fun idewait :: "bool \<Rightarrow> u8 list \<Rightarrow> (bool \<times> u8 list) outcome" where
  "idewait checkerr [] = Sleeps (ChSpin ''idewait'')"
| "idewait checkerr (r # st) =
     (if r AND (IDE_BSY OR IDE_DRDY) \<noteq> IDE_DRDY then idewait checkerr st
      else Ok (\<not> (checkerr \<and> r AND (IDE_DF OR IDE_ERR) \<noteq> 0), st))"

text \<open>\<open>ideinit\<close>; \<open>probe\<close> is what the status port answers once disk 1 is selected.\<close>

definition ide_ideinit :: "u8 list \<Rightarrow> u8 list \<Rightarrow> ide \<Rightarrow> ide outcome" where
  "ide_ideinit st probe s =
     bnd (idewait False st) (\<lambda>_.
       let s = outs [Outb 0x1f6 (0xe0 OR push_bit 4 1)] s;
           s = (if \<exists>r \<in> set (take 1000 probe). r \<noteq> 0 then s\<lparr>id_disk1 := True\<rparr> else s)
       in Ok (outs [Outb 0x1f6 (0xe0 OR push_bit 4 0)] s))"

section \<open>Requests\<close>

definition drive_reg :: "u32 \<Rightarrow> u32 \<Rightarrow> u8" where
  "drive_reg dev sector = ucast (0xe0 OR push_bit 4 (dev AND 1) OR (drop_bit 24 sector AND 0x0f))"

definition start_ops :: "buf \<Rightarrow> port_op list" where
  "start_ops b =
     (let sector_per_block = BSIZE div SECTOR_SIZE;
          sector = b_blockno b * of_nat sector_per_block;
          read_cmd = (if sector_per_block = 1 then IDE_CMD_READ else IDE_CMD_RDMUL);
          write_cmd = (if sector_per_block = 1 then IDE_CMD_WRITE else IDE_CMD_WRMUL)
      in [Outb 0x3f6 0, Outb 0x1f2 (of_nat sector_per_block), Outb 0x1f3 (ucast (sector AND 0xff)),
          Outb 0x1f4 (ucast (drop_bit 8 sector AND 0xff)), Outb 0x1f5 (ucast (drop_bit 16 sector AND 0xff)),
          Outb 0x1f6 (drive_reg (b_dev b) sector)] @
         (if b_dirty b then [Outb 0x1f7 write_cmd, Outsl 0x1f0 (b_data b)] else [Outb 0x1f7 read_cmd]))"

definition idestart :: "nat option \<Rightarrow> u8 list \<Rightarrow> ide \<Rightarrow> ide outcome" where
  "idestart p st s =
     (case p of None \<Rightarrow> Panic ''idestart''
      | Some i \<Rightarrow>
          if unat (b_blockno (id_bufs s ! i)) \<ge> FSSIZE then Panic ''incorrect blockno''
          else if BSIZE div SECTOR_SIZE > 7 then Panic ''idestart''
          else bnd (idewait False st) (\<lambda>_. Ok (outs (start_ops (id_bufs s ! i)) s)))"

definition ide_complete :: "nat \<Rightarrow> ide \<Rightarrow> ide" where
  "ide_complete i s =
     (let s = upd_ibuf i (\<lambda>b. b\<lparr>b_valid := True\<rparr>) s;
          s = upd_ibuf i (\<lambda>b. b\<lparr>b_dirty := False\<rparr>) s
      in s\<lparr>id_woken := id_woken s @ [ChBuf i]\<rparr>)"

text \<open>\<open>data\<close> is what the data port gives.\<close>

definition ide_ideintr :: "u8 list \<Rightarrow> u8 list \<Rightarrow> ide \<Rightarrow> ide outcome" where
  "ide_ideintr st data s =
     (case id_queue s of None \<Rightarrow> Ok s
      | Some i \<Rightarrow>
          (let s = s\<lparr>id_queue := id_next s i\<rparr> in
           bnd (if \<not> b_dirty (id_bufs s ! i) then
                  bnd (idewait True st) (\<lambda>(good, st).
                    Ok (st, if good then upd_ibuf i (\<lambda>b. b\<lparr>b_data := data\<rparr>) s else s))
                else Ok (st, s)) (\<lambda>(st, s).
             let s = ide_complete i s in
             if id_queue s \<noteq> None then idestart (id_queue s) st s else Ok s)))"

text \<open>The pointers of the queue by their place: \<open>None\<close> is \<open>idequeue\<close>, \<open>Some i\<close> the \<open>qnext\<close> of buffer \<open>i\<close>.\<close>

definition load_q :: "ide \<Rightarrow> nat option \<Rightarrow> nat option" where
  "load_q s pp = (case pp of None \<Rightarrow> id_queue s | Some i \<Rightarrow> id_next s i)"

definition store_q :: "nat option \<Rightarrow> nat option \<Rightarrow> ide \<Rightarrow> ide" where
  "store_q pp v s = (case pp of None \<Rightarrow> s\<lparr>id_queue := v\<rparr> | Some i \<Rightarrow> s\<lparr>id_next := (id_next s)(i := v)\<rparr>)"

partial_function (option) queue_end :: "ide \<Rightarrow> nat option \<Rightarrow> nat option option" where
  "queue_end s pp = (case load_q s pp of None \<Rightarrow> Some pp | Some i \<Rightarrow> queue_end s (Some i))"

text \<open>What the loop at the end of \<open>iderw\<close> waits for.\<close>

definition synced :: "nat \<Rightarrow> ide \<Rightarrow> bool" where
  "synced i s \<longleftrightarrow> b_valid (id_bufs s ! i) \<and> \<not> b_dirty (id_bufs s ! i)"

text \<open>\<open>iderw\<close> up to its loop: the result tells whether it returns at once; else the process sleeps on the buffer
  and looks at \<open>synced\<close> when it is woken.\<close>

definition ide_iderw :: "nat \<Rightarrow> u8 list \<Rightarrow> ide \<Rightarrow> (bool \<times> ide) outcome" where
  "ide_iderw i st s =
     (let b = id_bufs s ! i in
      if \<not> holdingsleep (b_lock b) then Panic ''iderw: buf not locked''
      else if b_valid b \<and> \<not> b_dirty b then Panic ''iderw: nothing to do''
      else if b_dev b \<noteq> 0 \<and> \<not> id_disk1 s then Panic ''iderw: ide disk 1 not present''
      else
        (let s = s\<lparr>id_next := (id_next s)(i := None)\<rparr> in
         case queue_end s None of
           None \<Rightarrow> Sleeps (ChSpin ''ide'')
         | Some pp \<Rightarrow>
             (let s = store_q pp (Some i) s in
              bnd (if id_queue s = Some i then idestart (Some i) st s else Ok s) (\<lambda>s. Ok (synced i s, s)))))"

section \<open>What the registers say\<close>

text \<open>
  A command in port \<open>0x1f7\<close> starts the request that the other ports describe (\<open>LBA28\<close>): the number of
  sectors in \<open>0x1f2\<close>, the address of the first one in \<open>0x1f3\<close> to \<open>0x1f5\<close> and the low half of \<open>0x1f6\<close>, the
  drive in bit 4 of \<open>0x1f6\<close>; the bytes of a write come through \<open>0x1f0\<close>.
\<close>

record request =
  rq_drive :: bool
  rq_lba :: nat
  rq_count :: nat
  rq_data :: "u8 list option"

definition request_at :: "(u16 \<Rightarrow> u8) \<Rightarrow> u8 \<Rightarrow> port_op list \<Rightarrow> request" where
  "request_at r cmd ops =
     \<lparr>rq_drive = bit (r 0x1f6) 4,
      rq_lba = unat (r 0x1f3) + 2 ^ 8 * unat (r 0x1f4) + 2 ^ 16 * unat (r 0x1f5) + 2 ^ 24 * unat (r 0x1f6 AND 0x0f),
      rq_count = unat (r 0x1f2),
      rq_data = (if cmd = IDE_CMD_WRITE \<or> cmd = IDE_CMD_WRMUL then
                   Some (concat (map (\<lambda>x. case x of Outsl _ d \<Rightarrow> d | _ \<Rightarrow> []) ops)) else None)\<rparr>"

fun request_of_ops :: "(u16 \<Rightarrow> u8) \<Rightarrow> port_op list \<Rightarrow> request option" where
  "request_of_ops r [] = None"
| "request_of_ops r (Outb p v # ops) =
     (if p = 0x1f7 then Some (request_at r v ops) else request_of_ops (r(p := v)) ops)"
| "request_of_ops r (Outsl p d # ops) = request_of_ops r ops"

text \<open>What the disk does: the bytes it delivers and its sectors afterwards.\<close>

definition serve :: "request \<Rightarrow> u8 list list \<Rightarrow> u8 list \<times> u8 list list" where
  "serve r D =
     (concat (take (rq_count r) (drop (rq_lba r) D)),
      case rq_data r of None \<Rightarrow> D
      | Some d \<Rightarrow> take (rq_lba r) D @ map (\<lambda>k. take SECTOR_SIZE (drop (SECTOR_SIZE * k) d)) [0..<rq_count r] @
                   drop (rq_lba r + rq_count r) D)"

definition request_of :: "buf \<Rightarrow> request" where
  "request_of b = \<lparr>rq_drive = odd (b_dev b), rq_lba = unat (b_blockno b), rq_count = 1,
     rq_data = (if b_dirty b then Some (b_data b) else None)\<rparr>"

lemma bit_drive_reg: "bit (drive_reg d x) 4 \<longleftrightarrow> odd d"
  by (simp add: drive_reg_def bit_simps bit_0)

lemma low_drive_reg: "drive_reg d x AND 0x0f = ucast (drop_bit 24 x) AND 0x0f"
proof (rule bit_word_eqI)
  fix n assume "n < LENGTH(8)"
  then have "n \<in> {0, 1, 2, 3, 4, 5, 6, 7}" by auto
  then show "bit (drive_reg d x AND 0x0f) n = bit ((ucast (drop_bit 24 x) :: u8) AND 0x0f) n"
    by (auto simp: drive_reg_def bit_simps bit_numeral_rec)
qed

lemma unat_reg: "unat (ucast (x AND 0xff) :: u8) = unat x mod 256" for x :: u32
proof -
  have "x AND 0xff = take_bit 8 x" by (simp add: take_bit_eq_mask mask_eq_exp_minus_1)
  then show ?thesis by (simp add: unsigned_ucast_eq take_bit_eq_mod unat_mod)
qed

lemma start_request:
  assumes "unat (b_blockno b) < FSSIZE"
  shows "request_of_ops r (start_ops b) = Some (request_of b)"
proof -
  have n: "unat (b_blockno b) < 2 ^ 16" using assms by (simp add: FSSIZE_def)
  have z: "drop_bit 16 (b_blockno b) = 0" "drop_bit 24 (b_blockno b) = 0"
    using n by (simp_all add: drop_bit_eq_div word_unat_eq_iff unat_div)
  have d: "unat (drop_bit 8 (b_blockno b)) = unat (b_blockno b) div 256"
    by (simp add: drop_bit_eq_div unat_div)
  have "unat (b_blockno b) mod 256 + 256 * (unat (b_blockno b) div 256 mod 256) = unat (b_blockno b)"
    using n by (simp add: div_mult_mod_eq)
  then show ?thesis
    by (simp add: start_ops_def Let_def request_at_def request_of_def bit_drive_reg low_drive_reg unat_reg d z)
qed

section \<open>The queue\<close>

fun queue_is :: "(nat \<Rightarrow> nat option) \<Rightarrow> nat option \<Rightarrow> nat list \<Rightarrow> bool" where
  "queue_is nx p [] \<longleftrightarrow> p = None"
| "queue_is nx p (i # q) \<longleftrightarrow> p = Some i \<and> queue_is nx (nx i) q"

lemma queue_is_cong: "\<forall>i \<in> set q. nx i = nx' i \<Longrightarrow> queue_is nx p q = queue_is nx' p q"
  by (induction q arbitrary: p) auto

lemma queue_end_last: "queue_is (id_next s) (load_q s pp) q \<Longrightarrow> queue_end s pp = Some (if q = [] then pp else Some (last q))"
proof (induction q arbitrary: pp)
  case (Cons i q)
  then have "queue_end s (Some i) = Some (if q = [] then Some i else Some (last q))" by (simp add: load_q_def)
  then show ?case using Cons.prems by (subst queue_end.simps) simp
qed (simp add: queue_end.simps)

lemma queue_append:
  "queue_is nx p q \<Longrightarrow> distinct q \<Longrightarrow> i \<notin> set q \<Longrightarrow> q \<noteq> [] \<Longrightarrow> queue_is (nx(i := None, last q := Some i)) p (q @ [i])"
proof (induction q arbitrary: p)
  case (Cons x q)
  show ?case
  proof (cases "q = []")
    case False
    have "queue_is (nx(i := None, last q := Some i)) (nx x) (q @ [i])"
      by (rule Cons.IH) (use Cons.prems False in auto)
    moreover have "x \<noteq> last q" using False Cons.prems(2) last_in_set by fastforce
    ultimately show ?thesis using Cons.prems False by (simp add: fun_upd_def)
  qed (use Cons.prems in auto)
qed simp

section \<open>The driver among processes and the disk\<close>

text \<open>
  The whole: the driver, the request that the disk works on, the sectors of disk 1 and the buffers whose process is in
  \<open>iderw\<close>.  Everything submitted is a block of the file system on disk 1, the only one that the kernel mounts.
  The disk reports no errors (\<open>error_marks_valid\<close> shows what happens if it does).  Other processes
  use other buffers, and look for locked ones: they leave alone what \<open>same_request\<close> names.
\<close>

type_synonym idesys = "ide \<times> request option \<times> u8 list list \<times> nat set"

datatype ide_event = Submit nat | Done | Return nat | Others

definition same_request :: "buf \<Rightarrow> buf \<Rightarrow> bool" where
  "same_request b b' \<longleftrightarrow> b_valid b' = b_valid b \<and> b_dirty b' = b_dirty b \<and> b_dev b' = b_dev b \<and>
     b_blockno b' = b_blockno b \<and> b_data b' = b_data b \<and> b_lock b' = b_lock b"

definition on_disk1 :: "buf \<Rightarrow> bool" where
  "on_disk1 b \<longleftrightarrow> b_dev b = 1 \<and> unat (b_blockno b) < FSSIZE \<and> length (b_data b) = BSIZE"

definition programmed :: "request option \<Rightarrow> ide \<Rightarrow> request option" where
  "programmed act s = (case request_of_ops (\<lambda>_. 0) (id_ports s) of None \<Rightarrow> act | Some r \<Rightarrow> Some r)"

inductive ide_step :: "ide_event \<Rightarrow> idesys \<Rightarrow> idesys \<Rightarrow> bool" where
  submit: "i \<notin> w \<Longrightarrow> i < length (id_bufs s) \<Longrightarrow> on_disk1 (id_bufs s ! i) \<Longrightarrow>
     ide_iderw i st (s\<lparr>id_ports := []\<rparr>) = Ok (False, s') \<Longrightarrow>
     ide_step (Submit i) (s, act, D, w) (s', programmed act s', D, insert i w)"
| intr: "serve r D = (data, D') \<Longrightarrow> \<forall>x \<in> set st. x AND (IDE_DF OR IDE_ERR) = 0 \<Longrightarrow>
     ide_ideintr st data (s\<lparr>id_ports := []\<rparr>) = Ok s' \<Longrightarrow>
     ide_step Done (s, Some r, D, w) (s', programmed None s', D', w)"
| return: "i \<in> w \<Longrightarrow> synced i s \<Longrightarrow> ide_step (Return i) (s, act, D, w) (s, act, D, w - {i})"
| others: "length bs = length (id_bufs s) \<Longrightarrow> \<forall>i \<in> w. same_request (id_bufs s ! i) (bs ! i) \<Longrightarrow>
     ide_step Others (s, act, D, w) (s\<lparr>id_bufs := bs\<rparr>, act, D, w)"

text \<open>The specification: the in-memory disk serves the buffers of a queue, first come first served.\<close>

type_synonym fifosys = "bcache \<times> nat list \<times> nat set"

inductive fifo_step :: "ide_event \<Rightarrow> fifosys \<Rightarrow> fifosys \<Rightarrow> bool" where
  submit: "i \<notin> w \<Longrightarrow> holdingsleep (b_lock (bufs s ! i)) \<Longrightarrow>
     fifo_step (Submit i) (s, q, w) (s, q @ [i], insert i w)"
| serve: "iderw i s = Ok s' \<Longrightarrow> fifo_step Done (s, i # q, w) (s', q, w)"
| return: "i \<in> w \<Longrightarrow> i \<notin> set q \<Longrightarrow> fifo_step (Return i) (s, q, w) (s, q, w - {i})"
| others: "length bs = length (bufs s) \<Longrightarrow> \<forall>i \<in> w. same_request (bufs s ! i) (bs ! i) \<Longrightarrow>
     fifo_step Others (s, q, w) (s\<lparr>bufs := bs\<rparr>, q, w)"

definition submitted :: "buf \<Rightarrow> bool" where
  "submitted b \<longleftrightarrow> on_disk1 b \<and> holdingsleep (b_lock b) \<and> \<not> (b_valid b \<and> \<not> b_dirty b)"

fun drives :: "idesys \<Rightarrow> fifosys \<Rightarrow> bool" where
  "drives (s, act, D, w) (a, q, v) \<longleftrightarrow>
     v = w \<and> bufs a = id_bufs s \<and> disk a = D \<and> length D = FSSIZE \<and> (\<forall>x \<in> set D. length x = BSIZE) \<and> id_disk1 s \<and>
     queue_is (id_next s) (id_queue s) q \<and> distinct q \<and> set q \<subseteq> w \<and> (\<forall>i \<in> w. i < length (id_bufs s)) \<and>
     (\<forall>i \<in> set q. submitted (id_bufs s ! i)) \<and>
     (\<forall>i \<in> w - set q. b_valid (id_bufs s ! i) \<and> \<not> b_dirty (id_bufs s ! i)) \<and>
     act = (case q of [] \<Rightarrow> None | i # _ \<Rightarrow> Some (request_of (id_bufs s ! i)))"

lemma idestart_ok:
  "idestart p st s = Ok s' \<Longrightarrow> \<exists>i. p = Some i \<and> unat (b_blockno (id_bufs s ! i)) < FSSIZE \<and> s' = outs (start_ops (id_bufs s ! i)) s"
  by (auto simp: idestart_def outcome_simps split: option.splits if_splits)

lemma outs_simps [simp]:
  "id_bufs (outs ops s) = id_bufs s" "id_next (outs ops s) = id_next s" "id_queue (outs ops s) = id_queue s"
  "id_disk1 (outs ops s) = id_disk1 s" "id_ports (outs ops s) = id_ports s @ ops"
  by (simp_all add: outs_def)

lemma upd_ibuf_simps [simp]:
  "id_bufs (upd_ibuf i f s) = (id_bufs s)[i := f (id_bufs s ! i)]" "id_next (upd_ibuf i f s) = id_next s"
  "id_queue (upd_ibuf i f s) = id_queue s" "id_disk1 (upd_ibuf i f s) = id_disk1 s" "id_ports (upd_ibuf i f s) = id_ports s"
  by (simp_all add: upd_ibuf_def)

lemma ide_complete_simps [simp]:
  "i < length (id_bufs s) \<Longrightarrow> id_bufs (ide_complete i s) = (id_bufs s)[i := (id_bufs s ! i)\<lparr>b_valid := True, b_dirty := False\<rparr>]"
  "id_next (ide_complete i s) = id_next s" "id_queue (ide_complete i s) = id_queue s"
  "id_disk1 (ide_complete i s) = id_disk1 s" "id_ports (ide_complete i s) = id_ports s"
  by (simp_all add: ide_complete_def Let_def)

lemma ide_iderw_ok:
  assumes r: "ide_iderw i st s = Ok (fin, s')" and q: "queue_is (id_next s) (id_queue s) q" "distinct q" "i \<notin> set q"
    and b: "\<not> (b_valid (id_bufs s ! i) \<and> \<not> b_dirty (id_bufs s ! i))"
  shows "fin = False" "holdingsleep (b_lock (id_bufs s ! i))" "id_bufs s' = id_bufs s" "id_disk1 s' = id_disk1 s"
    "queue_is (id_next s') (id_queue s') (q @ [i])"
    "id_ports s' = id_ports s @ (if q = [] then start_ops (id_bufs s ! i) else [])"
proof -
  let ?s1 = "s\<lparr>id_next := (id_next s)(i := None)\<rparr>"
  let ?pp = "if q = [] then None else Some (last q)"
  let ?s2 = "store_q ?pp (Some i) ?s1"
  have q1: "queue_is (id_next ?s1) (load_q ?s1 None) q"
    using q(1,3) queue_is_cong [of q "id_next s" "(id_next s)(i := None)"] by (auto simp: load_q_def)
  have pp: "queue_end ?s1 None = Some ?pp" by (rule queue_end_last [OF q1])
  have 2: "queue_is (id_next ?s2) (id_queue ?s2) (q @ [i])"
    using queue_append [OF q(1,2,3)] q(1) by (auto simp: store_q_def)
  have first: "id_queue ?s2 = Some i \<longleftrightarrow> q = []"
    using q(1,3) by (cases q) (auto simp: store_q_def)
  have k: "id_bufs ?s2 = id_bufs s" "id_ports ?s2 = id_ports s" "id_disk1 ?s2 = id_disk1 s" by (auto simp: store_q_def)
  show "holdingsleep (b_lock (id_bufs s ! i))" using r by (auto simp: ide_iderw_def Let_def split: if_splits)
  have "bnd (if id_queue ?s2 = Some i then idestart (Some i) st ?s2 else Ok ?s2) (\<lambda>s. Ok (synced i s, s)) = Ok (fin, s')"
    using r b pp by (auto simp: ide_iderw_def Let_def split: if_splits)
  then have s': "s' = (if q = [] then outs (start_ops (id_bufs s ! i)) ?s2 else ?s2)" and f: "fin = synced i s'"
    unfolding first using idestart_ok [of "Some i" st ?s2] k by (auto simp: outcome_simps split: if_splits)
  show "id_bufs s' = id_bufs s" "id_disk1 s' = id_disk1 s" "queue_is (id_next s') (id_queue s') (q @ [i])"
    "id_ports s' = id_ports s @ (if q = [] then start_ops (id_bufs s ! i) else [])"
    using 2 k by (auto simp: s')
  then show "fin = False" using f b by (auto simp: synced_def)
qed

lemma idewait_good: "idewait c st = Ok (good, st') \<Longrightarrow> \<forall>x \<in> set st. x AND (IDE_DF OR IDE_ERR) = 0 \<Longrightarrow> good"
  by (induction c st rule: idewait.induct) (auto split: if_splits)

definition served :: "u8 list \<Rightarrow> buf \<Rightarrow> buf" where
  "served data b = (if b_dirty b then b\<lparr>b_valid := True, b_dirty := False\<rparr> else b\<lparr>b_data := data, b_valid := True, b_dirty := False\<rparr>)"

lemma ide_ideintr_ok:
  assumes r: "ide_ideintr st data s = Ok s'" and q: "queue_is (id_next s) (id_queue s) (i # q)" "distinct (i # q)"
    and i: "i < length (id_bufs s)" and e: "\<forall>x \<in> set st. x AND (IDE_DF OR IDE_ERR) = 0"
  shows "id_bufs s' = (id_bufs s)[i := served data (id_bufs s ! i)]" "id_disk1 s' = id_disk1 s"
    "queue_is (id_next s') (id_queue s') q"
    "id_ports s' = id_ports s @ (case q of [] \<Rightarrow> [] | j # _ \<Rightarrow> start_ops (id_bufs s ! j))"
proof -
  let ?b = "id_bufs s ! i"
  let ?s0 = "s\<lparr>id_queue := id_next s i\<rparr>"
  let ?s3 = "ide_complete i (if b_dirty ?b then ?s0 else upd_ibuf i (\<lambda>b. b\<lparr>b_data := data\<rparr>) ?s0)"
  have q': "id_queue s = Some i" "queue_is (id_next s) (id_next s i) q" using q(1) by auto
  have "\<exists>st'. (if id_queue ?s3 \<noteq> None then idestart (id_queue ?s3) st' ?s3 else Ok ?s3) = Ok s'"
  proof (cases "b_dirty ?b")
    case True
    then show ?thesis using r q'(1) by (intro exI [of _ st]) (simp add: ide_ideintr_def Let_def cong: if_cong)
  next
    case False
    then obtain good st' where w: "idewait True st = Ok (good, st')"
      using r q'(1) by (cases "idewait True st") (auto simp: ide_ideintr_def Let_def)
    have "good" by (rule idewait_good [OF w e])
    then show ?thesis using r q'(1) w False by (intro exI [of _ st']) (simp add: ide_ideintr_def Let_def cong: if_cong)
  qed
  then obtain st' where "(if id_queue ?s3 \<noteq> None then idestart (id_queue ?s3) st' ?s3 else Ok ?s3) = Ok s'" by blast
  then have s': "s' = (case q of [] \<Rightarrow> ?s3 | j # _ \<Rightarrow> outs (start_ops (id_bufs ?s3 ! j)) ?s3)"
    using q'(2) idestart_ok [of "id_queue ?s3" st' ?s3 s'] by (cases q) (auto split: if_splits)
  have b: "id_bufs ?s3 = (id_bufs s)[i := served data ?b]"
    using i by (auto simp: served_def list_update_same_conv [THEN iffD2])
  have "id_bufs s' = id_bufs ?s3" by (auto simp: s' split: list.split)
  then show "id_bufs s' = (id_bufs s)[i := served data ?b]" using b by simp
  show "id_disk1 s' = id_disk1 s" "queue_is (id_next s') (id_queue s') q"
    using q'(2) by (auto simp: s' split: list.split)
  have "j \<noteq> i" if "q = j # r" for j r using q(2) that by auto
  then show "id_ports s' = id_ports s @ (case q of [] \<Rightarrow> [] | j # _ \<Rightarrow> start_ops (id_bufs s ! j))"
    unfolding s' using b by (auto split: list.split simp: nth_list_update)
qed

lemma serve_block:
  assumes "rq_lba r = n" "rq_count r = 1" "n < length D"
  shows "serve r D = (D ! n, case rq_data r of None \<Rightarrow> D | Some d \<Rightarrow> D[n := take SECTOR_SIZE d])"
proof -
  have "take 1 (drop n D) = [D ! n]" using assms(3) by (simp add: take_Suc_conv_app_nth)
  then show ?thesis
    using assms by (auto simp: serve_def upd_conv_take_nth_drop split: option.split)
qed

lemma iderw_serves:
  assumes b: "submitted (bufs a ! i)" and D: "length (disk a) = FSSIZE" "serve (request_of (bufs a ! i)) (disk a) = (data, D')"
  shows "\<exists>a'. iderw i a = Ok a' \<and> bufs a' = (bufs a)[i := served data (bufs a ! i)] \<and> disk a' = D'"
proof -
  let ?b = "bufs a ! i" and ?n = "unat (b_blockno (bufs a ! i))"
  have n: "?n < length (disk a)" using b D(1) by (simp add: submitted_def on_disk1_def)
  have s: "data = disk a ! ?n" "D' = (if b_dirty ?b then (disk a)[?n := b_data ?b] else disk a)"
    using D(2) b serve_block [OF _ _ n, of "request_of ?b"]
    by (auto simp: request_of_def submitted_def on_disk1_def split: if_splits)
  have v: "\<not> b_dirty ?b \<Longrightarrow> ?b\<lparr>b_data := data, b_valid := True, b_dirty := False\<rparr> = ?b\<lparr>b_data := data, b_valid := True\<rparr>"
    by (cases ?b) simp
  have w: "?b\<lparr>b_valid := True, b_dirty := False\<rparr> = ?b\<lparr>b_dirty := False, b_valid := True\<rparr>" by simp
  show ?thesis
    using b n by (auto simp: iderw_def Let_def submitted_def on_disk1_def s(2) served_def upd_buf_def v w simp flip: s(1))
qed

lemma submitted_same: "same_request b b' \<Longrightarrow> submitted b' = submitted b \<and> request_of b' = request_of b"
  by (simp add: same_request_def submitted_def on_disk1_def request_of_def)

lemma ide_step_fifo:
  assumes d: "drives x a" and s: "ide_step e x y"
  shows "\<exists>b. fifo_step e a b \<and> drives y b"
  using s
proof cases
  case (submit i w s st s' act D)
  obtain c q where a: "a = (c, q, w)" using d submit by (cases a) auto
  have inv: "queue_is (id_next s) (id_queue s) q" "distinct q" "set q \<subseteq> w" "bufs c = id_bufs s"
    "act = (case q of [] \<Rightarrow> None | i # _ \<Rightarrow> Some (request_of (id_bufs s ! i)))"
    using d by (simp_all add: a submit)
  have iq: "i \<notin> set q" using inv(3) submit(4) by auto
  have nb: "\<not> (b_valid (id_bufs s ! i) \<and> \<not> b_dirty (id_bufs s ! i))"
    using submit(7) by (auto simp: ide_iderw_def Let_def split: if_splits)
  have o: "holdingsleep (b_lock (id_bufs s ! i))" "id_bufs s' = id_bufs s" "id_disk1 s' = id_disk1 s"
    "queue_is (id_next s') (id_queue s') (q @ [i])" "id_ports s' = (if q = [] then start_ops (id_bufs s ! i) else [])"
    using ide_iderw_ok [OF submit(7), of q] inv(1,2) iq nb by simp_all
  have f: "fifo_step e a (c, q @ [i], insert i w)"
    unfolding submit(1) a by (rule fifo_step.submit) (use submit(4) o(1) inv(4) in auto)
  have n: "submitted (id_bufs s ! i)" using submit(6) o(1) nb by (simp add: submitted_def)
  have p: "programmed act s' = (case q @ [i] of [] \<Rightarrow> None | j # _ \<Rightarrow> Some (request_of (id_bufs s' ! j)))"
    using submit(6) inv(5) by (cases q) (simp_all add: programmed_def o(2,5) start_request on_disk1_def)
  have "drives y (c, q @ [i], insert i w)"
    unfolding submit(3) drives.simps
  proof (intro conjI)
    show "programmed act s' = (case q @ [i] of [] \<Rightarrow> None | j # _ \<Rightarrow> Some (request_of (id_bufs s' ! j)))" by (rule p)
  qed (use d o n iq submit(5) inv(2) in \<open>auto simp: a submit(2)\<close>)
  then show ?thesis using f by blast
next
  case (intr r D data D' st s s' w)
  obtain c i q where a: "a = (c, i # q, w)" using d intr by (cases a) (auto split: list.splits)
  have inv: "queue_is (id_next s) (id_queue s) (i # q)" "distinct (i # q)" "set (i # q) \<subseteq> w" "bufs c = id_bufs s"
    "r = request_of (id_bufs s ! i)" "disk c = D" "length D = FSSIZE" "submitted (id_bufs s ! i)" "i < length (id_bufs s)"
    "\<forall>j \<in> set q. submitted (id_bufs s ! j)"
    using d by (auto simp: a intr)
  have o: "id_bufs s' = (id_bufs s)[i := served data (id_bufs s ! i)]" "id_disk1 s' = id_disk1 s"
    "queue_is (id_next s') (id_queue s') q" "id_ports s' = (case q of [] \<Rightarrow> [] | j # _ \<Rightarrow> start_ops (id_bufs s ! j))"
    using ide_ideintr_ok [OF intr(6), of i q] inv(1,2,9) intr(5) by (simp_all cong: list.case_cong)
  from iderw_serves [of c i data D'] inv intr(4) obtain c'
    where c': "iderw i c = Ok c'" "bufs c' = (id_bufs s)[i := served data (id_bufs s ! i)]" "disk c' = D'" by auto
  have f: "fifo_step e a (c', q, w)" unfolding intr(1) a by (rule fifo_step.serve) (rule c')
  have j: "id_bufs s' ! j = id_bufs s ! j" if "j \<noteq> i" for j using that by (simp add: o(1))
  have p: "programmed None s' = (case q of [] \<Rightarrow> None | j # _ \<Rightarrow> Some (request_of (id_bufs s' ! j)))"
    using inv(2,10) j by (cases q) (auto simp: programmed_def o(4) start_request submitted_def on_disk1_def)
  have b: "b_valid (served data b) \<and> \<not> b_dirty (served data b)" for b by (simp add: served_def)
  have "D' = D \<or> D' = D[unat (b_blockno (id_bufs s ! i)) := b_data (id_bufs s ! i)]"
    using intr(4) serve_block [of r "unat (b_blockno (id_bufs s ! i))" D] inv(5,7,8)
    by (auto simp: request_of_def submitted_def on_disk1_def split: if_splits)
  then have D': "length D' = FSSIZE \<and> (\<forall>x \<in> set D'. length x = BSIZE)"
    using inv(7,8) d unfolding intr(2) a by (auto simp: submitted_def on_disk1_def dest!: set_update_subset_insert [THEN subsetD])
  have "drives y (c', q, w)"
    unfolding intr(3) drives.simps
  proof (intro conjI)
    show "programmed None s' = (case q of [] \<Rightarrow> None | j # _ \<Rightarrow> Some (request_of (id_bufs s' ! j)))" by (rule p)
    show "\<forall>k \<in> w - set q. b_valid (id_bufs s' ! k) \<and> \<not> b_dirty (id_bufs s' ! k)"
    proof
      fix k assume k: "k \<in> w - set q"
      show "b_valid (id_bufs s' ! k) \<and> \<not> b_dirty (id_bufs s' ! k)"
        using k b inv(9) d unfolding o(1) intr(2) a by (cases "k = i") auto
    qed
    show "\<forall>k \<in> set q. submitted (id_bufs s' ! k)" using inv(2,10) j by (metis distinct.simps(2))
  qed (use d o c' D' inv(2,3) in \<open>auto simp: a intr(2)\<close>)
  then show ?thesis using f by blast
next
  case (return i w s act D)
  obtain c q where a: "a = (c, q, w)" using d return by (cases a) auto
  have q: "i \<notin> set q" using d return(5) by (auto simp: a return(2) submitted_def synced_def)
  have "fifo_step e a (c, q, w - {i})" unfolding return(1) a by (rule fifo_step.return [OF return(4) q])
  moreover have "drives y (c, q, w - {i})" using d q unfolding return(3) by (auto simp: a return(2))
  ultimately show ?thesis by blast
next
  case (others bs s w act D)
  obtain c q where a: "a = (c, q, w)" using d others by (cases a) auto
  have q: "set q \<subseteq> w" "bufs c = id_bufs s" "act = (case q of [] \<Rightarrow> None | k # _ \<Rightarrow> Some (request_of (id_bufs s ! k)))"
    "\<forall>k \<in> set q. submitted (id_bufs s ! k)" "\<forall>k \<in> w - set q. b_valid (id_bufs s ! k) \<and> \<not> b_dirty (id_bufs s ! k)"
    using d by (simp_all add: a others(2))
  have "fifo_step e a (c\<lparr>bufs := bs\<rparr>, q, w)"
    unfolding others(1) a by (rule fifo_step.others) (use others(4,5) q(2) in auto)
  moreover have "drives y (c\<lparr>bufs := bs\<rparr>, q, w)"
    unfolding others(3) drives.simps
  proof (intro conjI)
    have k: "submitted (bs ! k) = submitted (id_bufs s ! k) \<and> request_of (bs ! k) = request_of (id_bufs s ! k) \<and>
        (b_valid (bs ! k) \<and> \<not> b_dirty (bs ! k) \<longleftrightarrow> b_valid (id_bufs s ! k) \<and> \<not> b_dirty (id_bufs s ! k))" if "k \<in> w" for k
      using submitted_same [of "id_bufs s ! k" "bs ! k"] others(5) that by (simp add: same_request_def)
    show "\<forall>k \<in> set q. submitted (id_bufs (s\<lparr>id_bufs := bs\<rparr>) ! k)"
      "\<forall>k \<in> w - set q. b_valid (id_bufs (s\<lparr>id_bufs := bs\<rparr>) ! k) \<and> \<not> b_dirty (id_bufs (s\<lparr>id_bufs := bs\<rparr>) ! k)"
      using k q(1,4,5) by auto
    show "act = (case q of [] \<Rightarrow> None | k # _ \<Rightarrow> Some (request_of (id_bufs (s\<lparr>id_bufs := bs\<rparr>) ! k)))"
      using k q(1,3) by (cases q) simp_all
  qed (use d others(4) in \<open>auto simp: a others(2)\<close>)
  ultimately show ?thesis by blast
qed

section \<open>Runs\<close>

inductive steps :: "('e \<Rightarrow> 's \<Rightarrow> 's \<Rightarrow> bool) \<Rightarrow> 'e list \<Rightarrow> 's \<Rightarrow> 's \<Rightarrow> bool" for step where
  none: "steps step [] s s"
| one: "step e s s1 \<Longrightarrow> steps step es s1 s2 \<Longrightarrow> steps step (e # es) s s2"

text \<open>C6: The IDE driver serves buffers the way the in-memory disk does, in the order in which they were submitted: every run of
  processes that submit buffers and return, of disk interrupts and of other users of the cache is, event by
  event, a run of the driver \<open>memide.c\<close> behind a FIFO queue.  So the bytes that each buffer and each sector get are right, no
  process returns from \<open>iderw\<close> before its buffer was served, and the request that the disk works on is
  always the one of the first buffer in the queue.\<close>

theorem ide_refines_memide:
  assumes "drives x a" "steps ide_step es x y"
  shows "\<exists>b. steps fifo_step es a b \<and> drives y b"
  using assms(2,1)
proof (induction arbitrary: a)
  case (none s)
  then show ?case by (blast intro: steps.none)
next
  case (one e s s1 es s2)
  from ide_step_fifo [OF one.prems one.hyps(1)] obtain b where "fifo_step e a b" "drives s1 b" by blast
  with one.IH show ?case by (blast intro: steps.one)
qed

text \<open>A buffer that is to be read from block 3 of a disk full of sevens.\<close>

definition ide_buf_ex :: buf where
  "ide_buf_ex = \<lparr>b_valid = False, b_dirty = False, b_dev = 1, b_blockno = 3, b_lock = \<lparr>sl_locked = True, sl_pid = 1\<rparr>,
     b_refcnt = 1, b_data = replicate BSIZE 0\<rparr>"

definition ide_ex :: ide where
  "ide_ex = \<lparr>id_bufs = [ide_buf_ex], id_next = (\<lambda>_. None), id_queue = None, id_disk1 = True, id_ports = [], id_woken = []\<rparr>"

definition ide_disk_ex :: "u8 list list" where "ide_disk_ex = replicate FSSIZE (replicate BSIZE 7)"

definition ide_cache_ex :: bcache where
  "ide_cache_ex = \<lparr>bufs = [ide_buf_ex], lru = [0], disk = ide_disk_ex, bc_pid = 1, bc_woken = [], bc_writes = []\<rparr>"

lemma ide_ex_steps:
  "\<exists>s. b_data (id_bufs s ! 0) = replicate BSIZE 7 \<and>
     steps ide_step [Submit 0, Done, Return 0] (ide_ex, None, ide_disk_ex, {}) (s, None, ide_disk_ex, {})"
proof -
  let ?s1 = "ide_ex\<lparr>id_queue := Some 0, id_ports := start_ops ide_buf_ex\<rparr>"
  have 1: "ide_iderw 0 [IDE_DRDY] (ide_ex\<lparr>id_ports := []\<rparr>) = Ok (False, ?s1)"
    by (simp add: ide_iderw_def ide_ex_def ide_buf_ex_def holdingsleep_def queue_end.simps load_q_def store_q_def
        idestart_def FSSIZE_def outs_def synced_def Let_def)
  have r: "programmed act ?s1 = Some (request_of ide_buf_ex)" for act
    by (simp add: programmed_def start_request ide_buf_ex_def FSSIZE_def)
  have sv: "serve (request_of ide_buf_ex) ide_disk_ex = (replicate BSIZE 7, ide_disk_ex)"
    by (subst serve_block [of _ 3]) (simp_all add: request_of_def ide_buf_ex_def ide_disk_ex_def FSSIZE_def)
  let ?s2 = "ide_complete 0 (upd_ibuf 0 (\<lambda>b. b\<lparr>b_data := replicate BSIZE 7\<rparr>) (?s1\<lparr>id_ports := [], id_queue := None\<rparr>))"
  have 2: "ide_ideintr [IDE_DRDY] (replicate BSIZE 7) (?s1\<lparr>id_ports := []\<rparr>) = Ok ?s2"
    by (simp add: ide_ideintr_def ide_ex_def ide_buf_ex_def Let_def)
  have p: "programmed None ?s2 = None" by (simp add: programmed_def)
  have b: "id_bufs ?s2 = [ide_buf_ex\<lparr>b_data := replicate BSIZE 7, b_valid := True, b_dirty := False\<rparr>]"
    by (simp add: ide_ex_def)
  have a: "ide_step (Submit 0) (ide_ex, None, ide_disk_ex, {}) (?s1, Some (request_of ide_buf_ex), ide_disk_ex, {0})"
    using ide_step.submit [OF _ _ _ 1, of "{}" None ide_disk_ex] by (simp add: r) (simp add: ide_ex_def ide_buf_ex_def on_disk1_def FSSIZE_def)
  have c: "ide_step Done (?s1, Some (request_of ide_buf_ex), ide_disk_ex, {0}) (?s2, None, ide_disk_ex, {0})"
    using ide_step.intr [OF sv _ 2, of "{0}"] unfolding p by simp
  have d: "ide_step (Return 0) (?s2, None, ide_disk_ex, {0}) (?s2, None, ide_disk_ex, {})"
    using ide_step.return [of 0 "{0}" ?s2] b by (simp add: synced_def)
  have "steps ide_step [Submit 0, Done, Return 0] (ide_ex, None, ide_disk_ex, {}) (?s2, None, ide_disk_ex, {})"
    by (rule steps.one, rule a, rule steps.one, rule c, rule steps.one, rule d, rule steps.none)
  then show ?thesis using b by (intro exI [of _ ?s2]) simp
qed

theorem ide_refines_memide_witness:
  "\<exists>s b. b_data (id_bufs s ! 0) = replicate BSIZE 7 \<and>
     steps fifo_step [Submit 0, Done, Return 0] (ide_cache_ex, [], {}) b \<and> drives (s, None, ide_disk_ex, {}) b"
proof -
  from ide_ex_steps obtain s where s: "b_data (id_bufs s ! 0) = replicate BSIZE 7"
    "steps ide_step [Submit 0, Done, Return 0] (ide_ex, None, ide_disk_ex, {}) (s, None, ide_disk_ex, {})" by blast
  have "drives (ide_ex, None, ide_disk_ex, {}) (ide_cache_ex, [], {})"
    by (simp add: ide_ex_def ide_cache_ex_def ide_disk_ex_def)
  from ide_refines_memide [OF this s(2)] s(1) show ?thesis by blast
qed

text \<open>A disk error: the buffer is marked as read although no byte of it was.\<close>

lemma error_marks_valid:
  assumes "id_queue s = Some i" "id_next s i = None" "i < length (id_bufs s)" "\<not> b_dirty (id_bufs s ! i)"
  shows "ide_ideintr [IDE_DRDY OR IDE_ERR] data s =
     Ok (ide_complete i (s\<lparr>id_queue := None\<rparr>)) \<and>
     b_valid (id_bufs (ide_complete i (s\<lparr>id_queue := None\<rparr>)) ! i) \<and>
     b_data (id_bufs (ide_complete i (s\<lparr>id_queue := None\<rparr>)) ! i) = b_data (id_bufs s ! i)"
  using assms by (simp add: ide_ideintr_def Let_def)

end
