(* ===== verification/Madt.thy ===== *)
theory Madt
  imports CString Mmu
begin

text \<open>
  The discovery of the processors, \<open>mp_uefi.c\<close>: \<open>mpinit_uefi\<close> walks through the table of interrupt controllers
  (the MADT of ACPI) that the loader has left in memory and collects the local APICs, one for each processor, up to
  \<open>NCPU\<close>, and the I/O APIC.

  The array \<open>cpus\<close> is here the list of the \<open>apicid\<close> fields, \<open>ncpu\<close> is its length.  The walk may not end, so
  it is a partial function.  The lemmas give its result, or that it runs forever, for every well-formed table.
\<close>

abbreviation (input) NCPU :: nat where "NCPU \<equiv> 4"
abbreviation (input) BOOTPARAM :: u32 where "BOOTPARAM \<equiv> 0x50000"

record mpinfo =
  mp_lapic :: u32
  mp_apicids :: "u8 list"
  mp_ioapicid :: u8

text \<open>The switch: by how much \<open>i\<close> grows, and what is noted.  An entry of another type is not skipped.\<close>

definition madt_entry :: "mem \<Rightarrow> u32 \<Rightarrow> mpinfo \<Rightarrow> u32 \<times> mpinfo" where
  "madt_entry m e s =
     (let t = m e; record_len = ucast (m (e + 1)) in
      if t = 0 then
        (record_len, if length (mp_apicids s) < NCPU then s\<lparr>mp_apicids := mp_apicids s @ [m (e + 3)]\<rparr> else s)
      else if t = 1 then (record_len, s\<lparr>mp_ioapicid := m (e + 2)\<rparr>)
      else if t = 2 then (record_len, s)
      else if t = 4 then (record_len, s)
      else if t = 5 then (0xC, s)
      else (0, s))"

partial_function (option) madt_loop :: "mem \<Rightarrow> u32 \<Rightarrow> u32 \<Rightarrow> mpinfo \<Rightarrow> mpinfo option" where
  "madt_loop m madt i s =
     (if i < load32 m (madt + 4) then
        (let (n, s) = madt_entry m (madt + i) s in madt_loop m madt (i + n) s)
      else Some s)"

text \<open>The header of the table has 44 bytes; \<open>lapic_addr\<close> is at offset 36, \<open>madt_addr\<close> at offset 8 of the parameters.\<close>

definition mpinit_uefi :: "mem \<Rightarrow> mpinfo \<Rightarrow> mpinfo option" where
  "mpinit_uefi m s =
     (let madt = load32 m (BOOTPARAM + KERNBASE + 8) + KERNBASE
      in madt_loop m madt 44 (s\<lparr>mp_lapic := load32 m (madt + 36), mp_apicids := []\<rparr>))"

section \<open>Tables\<close>

text \<open>An entry: its type, its length (in a byte), and what depends on the type.  ACPI fixes the length of the
  types that the kernel reads.\<close>

definition madt_wf :: "u8 list \<Rightarrow> bool" where
  "madt_wf e \<longleftrightarrow> 2 \<le> length e \<and> unat (e ! 1) = length e \<and> (e ! 0 = 0 \<longrightarrow> length e = 8) \<and> (e ! 0 = 1 \<longrightarrow> length e = 12) \<and>
     (e ! 0 = 5 \<longrightarrow> length e = 12)"

definition madt_known :: "u8 list \<Rightarrow> bool" where
  "madt_known e \<longleftrightarrow> e ! 0 \<in> {0, 1, 2, 4, 5}"

definition holds_bytes :: "mem \<Rightarrow> u32 \<Rightarrow> u8 list \<Rightarrow> bool" where
  "holds_bytes m a bs \<longleftrightarrow> (\<forall>k < length bs. m (a + of_nat k) = bs ! k)"

lemma holds_append:
  "holds_bytes m a (xs @ ys) \<longleftrightarrow> holds_bytes m a xs \<and> holds_bytes m (a + of_nat (length xs)) ys"
proof
  assume h: "holds_bytes m a (xs @ ys)"
  have "m (a + of_nat (length xs) + of_nat k) = ys ! k" if "k < length ys" for k
    using h [unfolded holds_bytes_def, rule_format, of "length xs + k"] that by (simp add: nth_append add.assoc)
  then show "holds_bytes m a xs \<and> holds_bytes m (a + of_nat (length xs)) ys"
    using h by (auto simp: holds_bytes_def nth_append)
next
  assume h: "holds_bytes m a xs \<and> holds_bytes m (a + of_nat (length xs)) ys"
  have "m (a + of_nat k) = (xs @ ys) ! k" if "k < length (xs @ ys)" for k
    using h [unfolded holds_bytes_def] that
    by (cases "k < length xs") (auto simp: nth_append dest: spec [of _ "k - length xs"])
  then show "holds_bytes m a (xs @ ys)" by (simp add: holds_bytes_def)
qed

text \<open>What an entry adds.\<close>

definition madt_note :: "u8 list \<Rightarrow> mpinfo \<Rightarrow> mpinfo" where
  "madt_note e s =
     (if e ! 0 = 0 \<and> length (mp_apicids s) < NCPU then s\<lparr>mp_apicids := mp_apicids s @ [e ! 3]\<rparr>
      else if e ! 0 = 1 then s\<lparr>mp_ioapicid := e ! 2\<rparr> else s)"

lemma madt_entry_known:
  assumes "holds_bytes m a e" "madt_wf e" "madt_known e"
  shows "madt_entry m a s = (of_nat (length e), madt_note e s)"
proof -
  have b: "m (a + of_nat k) = e ! k" if "k < length e" for k using assms(1) that by (simp add: holds_bytes_def)
  have n: "0 < length e" "1 < length e" using assms(2) by (auto simp: madt_wf_def)
  have "m a = e ! 0" "m (a + 1) = e ! 1" using b [OF n(1)] b [OF n(2)] by simp_all
  moreover have "ucast (e ! 1) = (of_nat (length e) :: u32)" using assms(2) by (metis madt_wf_def of_nat_unat)
  moreover have "e ! 0 = 0 \<Longrightarrow> m (a + 3) = e ! 3" "e ! 0 = 1 \<Longrightarrow> m (a + 2) = e ! 2"
    using b [of 3] b [of 2] assms(2) by (auto simp: madt_wf_def)
  ultimately show ?thesis
    using assms(2,3) by (auto simp: madt_entry_def madt_note_def madt_known_def madt_wf_def Let_def)
qed

lemma madt_entry_unknown: "holds_bytes m a e \<Longrightarrow> madt_wf e \<Longrightarrow> \<not> madt_known e \<Longrightarrow> madt_entry m a s = (0, s)"
  by (auto simp: madt_entry_def madt_known_def madt_wf_def holds_bytes_def Let_def dest!: spec [of _ 0])

lemma madt_loop_moves:
  assumes "madt_loop m madt i s = Some s'" "i < load32 m (madt + 4)"
  shows "madt_entry m (madt + i) s \<noteq> (0, s)"
proof -
  have "i < load32 m (madt + 4) \<longrightarrow> madt_entry m (madt + i) s \<noteq> (0, s)"
    by (rule madt_loop.raw_induct [where P = "\<lambda>m madt i s s'. i < load32 m (madt + 4) \<longrightarrow> madt_entry m (madt + i) s \<noteq> (0, s)",
          OF _ assms(1)]) (auto simp: Let_def split: if_splits)
  then show ?thesis using assms(2) by blast
qed

lemma madt_loop_entries:
  assumes "\<forall>e \<in> set es. madt_wf e" "holds_bytes m (madt + of_nat i) (concat es)" "unat (load32 m (madt + 4)) = i + length (concat es)"
  shows "madt_loop m madt (of_nat i) s = (if \<forall>e \<in> set es. madt_known e then Some (fold madt_note es s) else None)"
  using assms
proof (induction es arbitrary: i s)
  case Nil
  then have "load32 m (madt + 4) = of_nat i" by (metis of_nat_unat ucast_id add_0_right concat.simps(1) list.size(3))
  then show ?case by (simp add: madt_loop.simps)
next
  case (Cons e es)
  have e: "madt_wf e" "holds_bytes m (madt + of_nat i) e" "holds_bytes m (madt + of_nat (i + length e)) (concat es)"
    using Cons.prems(1,2) by (auto simp: holds_append add.assoc)
  have n: "0 < length e" using e(1) by (auto simp: madt_wf_def)
  have "i + length (concat (e # es)) < 2 ^ 32" using Cons.prems(3) unsigned_less [of "load32 m (madt + 4)", where 'a = nat] by simp
  then have lt: "of_nat i < load32 m (madt + 4)"
    using Cons.prems(3) n by (simp add: word_less_nat_alt unat_of_nat)
  show ?case
  proof (cases "madt_known e")
    case True
    have "madt_loop m madt (of_nat i) s = madt_loop m madt (of_nat (i + length e)) (madt_note e s)"
      using lt madt_entry_known [OF e(2,1) True] by (subst madt_loop.simps) simp
    then show ?thesis using Cons.IH [of "i + length e" "madt_note e s"] Cons.prems e(3) True by simp
  next
    case False
    then have "madt_loop m madt (of_nat i) s = None"
      using madt_loop_moves lt madt_entry_unknown [OF e(2,1)] by (metis not_None_eq)
    then show ?thesis using False by simp
  qed
qed

lemma fold_madt_note:
  "fold madt_note es s =
     s\<lparr>mp_apicids := mp_apicids s @ take (NCPU - length (mp_apicids s)) (map (\<lambda>e. e ! 3) (filter (\<lambda>e. e ! 0 = 0) es)),
       mp_ioapicid := last (mp_ioapicid s # map (\<lambda>e. e ! 2) (filter (\<lambda>e. e ! 0 = 1) es))\<rparr>"
proof (induction es arbitrary: s)
  case (Cons e es)
  show ?case
    unfolding fold_Cons comp_def Cons.IH
    by (cases "NCPU - length (mp_apicids s)") (auto simp: madt_note_def last_map Suc_diff_le take_Cons' numeral_eq_Suc)
qed simp

text \<open>C10: The kernel finds the processors: on every well-formed table of interrupt controllers, if all its entries are of the
  types that \<open>mpinit_uefi\<close> reads, the routine returns with the identifiers of the first \<open>NCPU\<close> local APICs, in
  the order of the table, and of the last I/O APIC; and if an entry is of any other type it never returns.\<close>

theorem mpinit_uefi_returns_iff:
  assumes "madt = load32 m (BOOTPARAM + KERNBASE + 8) + KERNBASE"
    and "\<forall>e \<in> set es. madt_wf e" "holds_bytes m (madt + 44) (concat es)" "unat (load32 m (madt + 4)) = 44 + length (concat es)"
  shows "mpinit_uefi m s =
    (if \<forall>e \<in> set es. madt_known e then
       Some (s\<lparr>mp_lapic := load32 m (madt + 36),
         mp_apicids := take NCPU (map (\<lambda>e. e ! 3) (filter (\<lambda>e. e ! 0 = 0) es)),
         mp_ioapicid := last (mp_ioapicid s # map (\<lambda>e. e ! 2) (filter (\<lambda>e. e ! 0 = 1) es))\<rparr>)
     else None)"
proof -
  have "holds_bytes m (madt + of_nat 44) (concat es)" using assms(3) by simp
  from madt_loop_entries [OF assms(2) this assms(4)] show ?thesis
    unfolding mpinit_uefi_def Let_def assms(1) [symmetric] by (simp add: fold_madt_note)
qed

text \<open>A table at the physical address \<open>0x1000\<close> with two processors and an I/O APIC; the same with a local
  x2APIC, an entry of type 9.\<close>

definition madt_head :: "nat \<Rightarrow> u8 list" where
  "madt_head n = replicate 4 0 @ bytes32 (of_nat n) @ replicate 28 0 @ bytes32 0xFEE00000 @ replicate 4 0"

definition madt_mem :: "u8 list list \<Rightarrow> mem" where
  "madt_mem es a =
     (let bs = madt_head (44 + length (concat es)) @ concat es; k = unat (a - 0x80001000)
      in if a = 0x80050009 then 0x10 else if k < length bs then bs ! k else 0)"

definition madt_es :: "u8 list list" where
  "madt_es = [[0, 8, 0, 10, 1, 0, 0, 0], [0, 8, 1, 11, 1, 0, 0, 0], [1, 12, 2, 0, 0, 0, 0xC0, 0xFE, 0, 0, 0, 0]]"

definition madt_es_x2 :: "u8 list list" where "madt_es_x2 = madt_es @ [[9, 16, 0, 0, 12, 0, 0, 0, 1, 0, 0, 0, 0, 0, 0, 0]]"

lemma length_madt_head [simp]: "length (madt_head n) = 44"
  by (simp add: madt_head_def)

lemma madt_mem_at:
  assumes "length (concat es) \<le> 1000" "k < 44 + length (concat es)"
  shows "madt_mem es (0x80001000 + of_nat k) = (madt_head (44 + length (concat es)) @ concat es) ! k"
proof -
  have k: "unat (of_nat k :: u32) = k" using assms by (simp add: unat_of_nat)
  then have "of_nat k \<noteq> (0x4F009 :: u32)" using assms by (auto dest: arg_cong [of _ _ unat])
  then have "0x80001000 + of_nat k \<noteq> (0x80050009 :: u32)" by (auto simp: algebra_simps dest: arg_cong [of _ _ "\<lambda>x. x - 0x80001000"])
  then show ?thesis using assms k by (simp add: madt_mem_def Let_def)
qed

lemma madt_mem_ok:
  assumes "length (concat es) \<le> 1000"
  shows "holds_bytes (madt_mem es) (0x80001000 + 44) (concat es)"
    "unat (load32 (madt_mem es) (0x80001000 + 4)) = 44 + length (concat es)"
    "load32 (madt_mem es) (0x80001000 + 36) = 0xFEE00000"
    "load32 (madt_mem es) (BOOTPARAM + KERNBASE + 8) + KERNBASE = 0x80001000"
proof -
  show "holds_bytes (madt_mem es) (0x80001000 + 44) (concat es)"
    using madt_mem_at [OF assms, of "44 + _"] by (auto simp: holds_bytes_def nth_append add.assoc)
  have h: "load32 (madt_mem es) (0x80001000 + of_nat k) = get32 (madt_head (44 + length (concat es))) k" if "k + 3 < 44" for k
    using that madt_mem_at [OF assms, of k] madt_mem_at [OF assms, of "k + 1"] madt_mem_at [OF assms, of "k + 2"]
      madt_mem_at [OF assms, of "k + 3"]
    by (simp add: load32_def get32_def nth_append add.assoc)
  have "unat (of_nat (44 + length (concat es)) :: u32) = 44 + length (concat es)"
    unfolding unat_of_nat using assms by simp
  then show "unat (load32 (madt_mem es) (0x80001000 + 4)) = 44 + length (concat es)"
    using h [of 4] by (simp add: get32_def madt_head_def nth_append bytes32_def)
  show "load32 (madt_mem es) (0x80001000 + 36) = 0xFEE00000"
    using h [of 36] word32_bytes [of "0xFEE00000"] by (simp add: get32_def madt_head_def nth_append bytes32_def)
  show "load32 (madt_mem es) (BOOTPARAM + KERNBASE + 8) + KERNBASE = 0x80001000"
    using assms by (simp add: load32_def madt_mem_def Let_def word32_def)
qed

theorem mpinit_uefi_returns_iff_witness:
  "(\<forall>s. mpinit_uefi (madt_mem madt_es) s = Some (s\<lparr>mp_lapic := 0xFEE00000, mp_apicids := [10, 11], mp_ioapicid := 2\<rparr>) \<and>
   mpinit_uefi (madt_mem madt_es_x2) s = None)"
proof -
  have n: "length (concat madt_es) \<le> 1000" "length (concat madt_es_x2) \<le> 1000"
    by (simp_all add: madt_es_def madt_es_x2_def)
  have w: "\<forall>e \<in> set madt_es. madt_wf e" "\<forall>e \<in> set madt_es_x2. madt_wf e"
    by (simp_all add: madt_es_def madt_es_x2_def madt_wf_def)
  show ?thesis
    using mpinit_uefi_returns_iff [OF madt_mem_ok(4) [OF n(1), symmetric] w(1) madt_mem_ok(1,2) [OF n(1)]]
      mpinit_uefi_returns_iff [OF madt_mem_ok(4) [OF n(2), symmetric] w(2) madt_mem_ok(1,2) [OF n(2)]] madt_mem_ok(3) [OF n(1)]
    by (simp add: madt_es_x2_def) (simp add: madt_es_def madt_known_def)
qed

end
