(* ===== verification/Gates.thy ===== *)
theory Gates
  imports Trap Proc_Props
begin

text \<open>
  Segments and gates: the descriptors of \<open>mmu.h\<close>, \<open>seginit\<close> and the task state part of \<open>switchuvm\<close> (\<open>vm.c\<close>),
  \<open>tvinit\<close> (\<open>trap.c\<close>).

  A descriptor is the record of its bit fields, each at its width.  The entry points of \<open>vectors.S\<close>, which the build
  generates, are the argument \<open>vectors\<close>.  What the processor makes of the tables (\<open>deliver\<close>) follows the
  manual of the IA-32.  The theorem is that user code has one door into the kernel, the system call.
\<close>

section \<open>Segments\<close>

record segdesc =
  sd_lim_15_0 :: "16 word"
  sd_base_15_0 :: "16 word"
  sd_base_23_16 :: "8 word"
  sd_type :: "4 word"
  sd_s :: "1 word"
  sd_dpl :: "2 word"
  sd_p :: "1 word"
  sd_lim_19_16 :: "4 word"
  sd_avl :: "1 word"
  sd_rsv1 :: "1 word"
  sd_db :: "1 word"
  sd_g :: "1 word"
  sd_base_31_24 :: "8 word"

abbreviation (input) SEG_KCODE :: nat where "SEG_KCODE \<equiv> 1"
abbreviation (input) SEG_KDATA :: nat where "SEG_KDATA \<equiv> 2"
abbreviation (input) SEG_UCODE :: nat where "SEG_UCODE \<equiv> 3"
abbreviation (input) SEG_UDATA :: nat where "SEG_UDATA \<equiv> 4"
abbreviation (input) SEG_TSS :: nat where "SEG_TSS \<equiv> 5"
abbreviation (input) DPL_USER :: "2 word" where "DPL_USER \<equiv> 3"
abbreviation (input) STA_X :: "4 word" where "STA_X \<equiv> 0x8"
abbreviation (input) STA_W :: "4 word" where "STA_W \<equiv> 0x2"
abbreviation (input) STA_R :: "4 word" where "STA_R \<equiv> 0x2"
abbreviation (input) STS_T32A :: "4 word" where "STS_T32A \<equiv> 0x9"
abbreviation (input) STS_IG32 :: "4 word" where "STS_IG32 \<equiv> 0xE"
abbreviation (input) STS_TG32 :: "4 word" where "STS_TG32 \<equiv> 0xF"

definition SEG :: "4 word \<Rightarrow> u32 \<Rightarrow> u32 \<Rightarrow> 2 word \<Rightarrow> segdesc" where
  "SEG type base lim dpl =
     \<lparr>sd_lim_15_0 = ucast (drop_bit 12 lim AND 0xffff), sd_base_15_0 = ucast (base AND 0xffff),
      sd_base_23_16 = ucast (drop_bit 16 base AND 0xff), sd_type = type, sd_s = 1, sd_dpl = dpl, sd_p = 1,
      sd_lim_19_16 = ucast (drop_bit 28 lim), sd_avl = 0, sd_rsv1 = 0, sd_db = 1, sd_g = 1,
      sd_base_31_24 = ucast (drop_bit 24 base)\<rparr>"

definition SEG16 :: "4 word \<Rightarrow> u32 \<Rightarrow> u32 \<Rightarrow> 2 word \<Rightarrow> segdesc" where
  "SEG16 type base lim dpl =
     \<lparr>sd_lim_15_0 = ucast (lim AND 0xffff), sd_base_15_0 = ucast (base AND 0xffff),
      sd_base_23_16 = ucast (drop_bit 16 base AND 0xff), sd_type = type, sd_s = 1, sd_dpl = dpl, sd_p = 1,
      sd_lim_19_16 = ucast (drop_bit 16 lim), sd_avl = 0, sd_rsv1 = 0, sd_db = 1, sd_g = 0,
      sd_base_31_24 = ucast (drop_bit 24 base)\<rparr>"

definition seginit :: "segdesc list \<Rightarrow> segdesc list" where
  "seginit gdt =
     gdt[SEG_KCODE := SEG (STA_X OR STA_R) 0 0xffffffff 0,
         SEG_KDATA := SEG STA_W 0 0xffffffff 0,
         SEG_UCODE := SEG (STA_X OR STA_R) 0 0xffffffff DPL_USER,
         SEG_UDATA := SEG STA_W 0 0xffffffff DPL_USER]"

text \<open>The task state: what \<open>switchuvm\<close> sets of it for a process with the kernel stack \<open>kstack\<close>; the structure has 104 bytes.\<close>

record taskstate =
  ts_esp0 :: u32
  ts_ss0 :: u16
  ts_iomb :: u16

definition switch_tss :: "u32 \<Rightarrow> u32 \<Rightarrow> segdesc list \<Rightarrow> taskstate \<Rightarrow> segdesc list \<times> taskstate" where
  "switch_tss ts_addr kstack gdt ts =
     (gdt[SEG_TSS := (SEG16 STS_T32A ts_addr (104 - 1) 0)\<lparr>sd_s := 0\<rparr>],
      ts\<lparr>ts_ss0 := of_nat (SEG_KDATA * 8), ts_esp0 := kstack + 4096, ts_iomb := 0xFFFF\<rparr>)"

section \<open>Gates\<close>

record gatedesc =
  gd_off_15_0 :: "16 word"
  gd_cs :: "16 word"
  gd_args :: "5 word"
  gd_rsv1 :: "3 word"
  gd_type :: "4 word"
  gd_s :: "1 word"
  gd_dpl :: "2 word"
  gd_p :: "1 word"
  gd_off_31_16 :: "16 word"

definition SETGATE :: "bool \<Rightarrow> u16 \<Rightarrow> u32 \<Rightarrow> 2 word \<Rightarrow> gatedesc" where
  "SETGATE istrap sel off d =
     \<lparr>gd_off_15_0 = ucast (off AND 0xffff), gd_cs = sel, gd_args = 0, gd_rsv1 = 0,
      gd_type = (if istrap then STS_TG32 else STS_IG32), gd_s = 0, gd_dpl = d, gd_p = 1,
      gd_off_31_16 = ucast (drop_bit 16 off)\<rparr>"

definition tvinit :: "(nat \<Rightarrow> u32) \<Rightarrow> gatedesc list" where
  "tvinit vectors =
     (map (\<lambda>i. SETGATE False (of_nat (SEG_KCODE * 8)) (vectors i) 0) [0..<256])
       [64 := SETGATE True (of_nat (SEG_KCODE * 8)) (vectors 64) DPL_USER]"

section \<open>Initialisation\<close>

text \<open>The kernel's own page table, and the lock of the process table.\<close>

definition kvmalloc :: "kenv \<Rightarrow> kproc" where
  "kvmalloc env k =
     bnd (setupkvm (e_kend env) (e_layout env) (kmm k)) (\<lambda>(pgdir, m).
     Ok (switchkvm (k\<lparr>kmm := m, kpgdir := pgdir\<rparr>)))"

definition pinit :: "spinlock \<Rightarrow> spinlock" where
  "pinit lk = initlock ''ptable'' lk"

section \<open>The processor\<close>

definition seg_base :: "segdesc \<Rightarrow> u32" where
  "seg_base d = ucast (sd_base_15_0 d) OR push_bit 16 (ucast (sd_base_23_16 d)) OR push_bit 24 (ucast (sd_base_31_24 d))"

text \<open>The last offset inside the segment.\<close>

definition seg_limit :: "segdesc \<Rightarrow> u32" where
  "seg_limit d =
     (let lim = ucast (sd_lim_15_0 d) OR push_bit 16 (ucast (sd_lim_19_16 d))
      in if sd_g d = 1 then push_bit 12 lim OR 0xfff else lim)"

definition gate_offset :: "gatedesc \<Rightarrow> u32" where
  "gate_offset g = ucast (gd_off_15_0 g) OR push_bit 16 (ucast (gd_off_31_16 g))"

record entry =
  en_vector :: nat
  en_eip :: u32
  en_ring :: nat
  en_if :: bool

text \<open>Through the gate \<open>n\<close>: the handler, the privilege of its segment, and whether interrupts stay on.\<close>

definition enter_gate :: "segdesc list \<Rightarrow> gatedesc list \<Rightarrow> nat \<Rightarrow> entry" where
  "enter_gate gdt idt n =
     (let g = idt ! n in
      \<lparr>en_vector = n, en_eip = gate_offset g, en_ring = unat (sd_dpl (gdt ! unat (drop_bit 3 (gd_cs g)))),
       en_if = (gd_type g = STS_TG32)\<rparr>)"

text \<open>The instruction \<open>int n\<close>, executed at privilege \<open>cpl\<close>: a gate that does not admit it is a general protection fault.\<close>

definition int_instr :: "segdesc list \<Rightarrow> gatedesc list \<Rightarrow> nat \<Rightarrow> nat \<Rightarrow> entry" where
  "int_instr gdt idt cpl n =
     (if gd_p (idt ! n) = 1 \<and> cpl \<le> unat (gd_dpl (idt ! n)) then enter_gate gdt idt n else enter_gate gdt idt 13)"

lemma bit_low_masks: "bit (0xffff :: int) k \<longleftrightarrow> k < 16" "bit (0xff :: int) k \<longleftrightarrow> k < 8"
proof -
  have m: "(0xffff :: int) = mask 16" "(0xff :: int) = mask 8" by (simp_all add: mask_eq_exp_minus_1)
  show "bit (0xffff :: int) k \<longleftrightarrow> k < 16" "bit (0xff :: int) k \<longleftrightarrow> k < 8" unfolding m by (auto simp: bit_mask_iff)
qed

lemma gate_offset_SETGATE [simp]: "gate_offset (SETGATE t sel off d) = off"
proof (rule bit_word_eqI)
  fix k assume "k < LENGTH(32)"
  then show "bit (gate_offset (SETGATE t sel off d)) k = bit off k"
    by (cases "k < 16") (auto simp: gate_offset_def SETGATE_def bit_simps bit_low_masks)
qed

lemma seg_base_SEG [simp]: "seg_base (SEG t b l d) = b"
proof (rule bit_word_eqI)
  fix k assume "k < LENGTH(32)"
  then consider "k < 16" | "16 \<le> k" "k < 24" | "24 \<le> k" "k < 32" by fastforce
  then show "bit (seg_base (SEG t b l d)) k = bit b k"
    by cases (auto simp: seg_base_def SEG_def bit_simps bit_low_masks)
qed

lemma seg_limit_all: "seg_limit (SEG t b 0xffffffff d) = 0xffffffff"
proof (rule bit_word_eqI)
  fix k assume k: "k < LENGTH(32)"
  have m: "(0xfff :: u32) = mask 12" "(0xffffffff :: u32) = mask 32" by (simp_all add: mask_eq_exp_minus_1)
  from k consider "k < 12" | "12 \<le> k" "k < 28" | "28 \<le> k" "k < 32" by fastforce
  then show "bit (seg_limit (SEG t b 0xffffffff d)) k = bit (0xffffffff :: u32) k"
    unfolding seg_limit_def SEG_def Let_def m by cases (auto simp: bit_simps bit_mask_iff bit_low_masks)
qed

lemma tvinit_gate:
  "n < 256 \<Longrightarrow> tvinit vectors ! n =
     (if n = 64 then SETGATE True 8 (vectors 64) DPL_USER else SETGATE False 8 (vectors n) 0)"
  by (simp add: tvinit_def nth_list_update)

lemma SETGATE_fields [simp]:
  "gd_p (SETGATE t sel off d) = 1" "gd_dpl (SETGATE t sel off d) = d" "gd_cs (SETGATE t sel off d) = sel"
  "gd_type (SETGATE t sel off d) = (if t then STS_TG32 else STS_IG32)"
  by (simp_all add: SETGATE_def)

lemma seginit_segs:
  assumes "length gdt = 6"
  shows "seginit gdt ! 1 = SEG (STA_X OR STA_R) 0 0xffffffff 0" "seginit gdt ! 2 = SEG STA_W 0 0xffffffff 0"
    "seginit gdt ! 3 = SEG (STA_X OR STA_R) 0 0xffffffff DPL_USER" "seginit gdt ! 4 = SEG STA_W 0 0xffffffff DPL_USER"
  using assms by (simp_all add: seginit_def)

lemma enter_tvinit:
  assumes "length gdt = 6" "n < 256"
  shows "enter_gate (seginit gdt) (tvinit vectors) n = \<lparr>en_vector = n, en_eip = vectors n, en_ring = 0, en_if = (n = 64)\<rparr>"
proof -
  have "unat (drop_bit 3 (8 :: u16)) = 1" by (simp add: drop_bit_eq_div)
  then show ?thesis
    using assms seginit_segs(1) [OF assms(1)] by (auto simp: enter_gate_def tvinit_gate Let_def SEG_def)
qed

text \<open>C9: User code has one door into the kernel.  With the tables of \<open>seginit\<close> and \<open>tvinit\<close>, an interrupt or exception
  \<open>n\<close> enters the kernel at its vector, in ring 0, with interrupts off, except for the system call,
  which leaves them on.  The instruction \<open>int n\<close> in user code makes the system call for 64; for any
  other number, those of the devices included, it is a general protection fault, and \<open>trap\<close> then marks the
  process as killed and makes it exit, and does nothing else.\<close>

theorem user_enters_by_syscall_only:
  assumes "length gdt = 6" "n < 256"
  shows "enter_gate (seginit gdt) (tvinit vectors) n = \<lparr>en_vector = n, en_eip = vectors n, en_ring = 0, en_if = (n = 64)\<rparr> \<and>
    int_instr (seginit gdt) (tvinit vectors) 3 n = enter_gate (seginit gdt) (tvinit vectors) (if n = 64 then 64 else 13) \<and>
    (n \<noteq> 64 \<and> from_user tf \<and> cur k = Some p \<and> p < length (ptable k) \<and>
       tf_trapno tf = of_nat (en_vector (int_instr (seginit gdt) (tvinit vectors) 3 n)) \<longrightarrow>
     trap env devsw devintr tf k = exit env (upd_proc p (\<lambda>x. x\<lparr>p_tf := tf, p_killed := True\<rparr>) k))"
proof -
  have i: "int_instr (seginit gdt) (tvinit vectors) 3 n = enter_gate (seginit gdt) (tvinit vectors) (if n = 64 then 64 else 13)"
    using assms by (simp add: int_instr_def tvinit_gate)
  have "trap env devsw devintr tf k = exit env (upd_proc p (\<lambda>x. x\<lparr>p_tf := tf, p_killed := True\<rparr>) k)"
    if h: "n \<noteq> 64" "from_user tf" "cur k = Some p" "p < length (ptable k)" "tf_trapno tf = 13"
  proof -
    have u: "tf_cs tf AND 3 = 3" using h(2) by (simp add: from_user_def)
    have c: "cur (upd_proc p f k) = Some p" for f using h(3) by (simp add: cur_def upd_proc_def)
    have e: "trap_enter tf k = upd_proc p (\<lambda>x. x\<lparr>p_tf := tf\<rparr>) k" using h(2,3) by (simp add: trap_enter_def)
    have t: "trap_cause devintr tf (trap_enter tf k) = Ok (upd_proc p (\<lambda>x. x\<lparr>p_tf := tf, p_killed := True\<rparr>) k)"
      using h(4,5) u by (simp add: trap_cause_def dev_irqs_def e c h(3)) (simp add: upd_proc_def)
    have "killed (upd_proc p (\<lambda>x. x\<lparr>p_tf := tf, p_killed := True\<rparr>) k)"
      using h(4) by (simp add: killed_def c h(3)) (simp add: upd_proc_def)
    then show ?thesis using h(2,5) t by (simp add: trap_def)
  qed
  then show ?thesis using enter_tvinit [OF assms] enter_tvinit [OF assms(1), of 13 vectors] i by simp
qed

theorem user_enters_by_syscall_only_witness:
  "\<exists>tf. from_user tf \<and> tf_trapno tf = 13 \<and>
     int_instr (seginit (replicate 6 (SEG 0 0 0 0))) (tvinit (\<lambda>i. of_nat (8 * i))) 3 32 =
       \<lparr>en_vector = 13, en_eip = 104, en_ring = 0, en_if = False\<rparr> \<and>
     (\<forall>devsw devintr. trap demo_env devsw devintr tf family =
        exit demo_env (upd_proc 1 (\<lambda>x. x\<lparr>p_tf := tf, p_killed := True\<rparr>) family))"
proof -
  define tf where "tf = (p_tf (ptable family ! 1))\<lparr>tf_cs := 0x1B, tf_trapno := 13\<rparr>"
  have u: "from_user tf" "tf_trapno tf = 13" by (simp_all add: tf_def from_user_def)
  have k: "cur family = Some 1" "1 < length (ptable family)" by (simp_all add: family_def demo_defs cur_def)
  have g: "length (replicate 6 (SEG 0 0 0 0)) = 6" "32 < (256 :: nat)" "13 < (256 :: nat)" by simp_all
  note t = user_enters_by_syscall_only [OF g(1,2), of "\<lambda>i. of_nat (8 * i)" tf family 1 demo_env]
  have "enter_gate (seginit (replicate 6 (SEG 0 0 0 0))) (tvinit (\<lambda>i. of_nat (8 * i))) 13 =
      \<lparr>en_vector = 13, en_eip = 104, en_ring = 0, en_if = False\<rparr>"
    using user_enters_by_syscall_only [OF g(1,3), of "\<lambda>i. of_nat (8 * i)"] by simp
  then show ?thesis using t u k by (intro exI [of _ tf]) auto
qed

lemma seginit_flat: "length gdt = 6 \<Longrightarrow> i \<in> {1, 2, 3, 4} \<Longrightarrow> seg_base (seginit gdt ! i) = 0 \<and> seg_limit (seginit gdt ! i) = 0xffffffff"
  using seginit_segs by (auto simp: seg_limit_all)

text \<open>The map of the ports that user code may use begins beyond the end of the task state: there are none.\<close>

lemma tss_forbids_io:
  assumes "switch_tss a kstack gdt ts = (gdt', ts')" "length gdt = 6"
  shows "unat (seg_limit (gdt' ! 5)) = 103 \<and> unat (seg_limit (gdt' ! 5)) < unat (ts_iomb ts')"
  using assms by (auto simp: switch_tss_def seg_limit_def SEG16_def)

end
