(* ===== verification/Shell.thy ===== *)
theory Shell
  imports Prelude
begin

text \<open>
  The command language of the shell, \<open>sh.c\<close>: \<open>gettoken\<close>, \<open>peek\<close>, the recursive descent parser and
  \<open>nulterminate\<close>.

  The line is a C string without zero bytes; a pointer into it is the rest of the line from there
  on, so \<open>es\<close> is \<open>[]\<close> and \<open>*s\<close> is the head, or zero at the end.  A word of the parsed command is
  the pair of the pointers to its first byte and past its last one.  \<open>panic\<close> prints its message and
  exits: it is \<open>Panic\<close>.

  The four mutually recursive routines carry the depth of the recursion that is still allowed;
  \<open>parsecmd\<close> allows four levels for each byte of the line and four more, and the termination theorem shows that this
  is never used up.
\<close>

section \<open>Commands\<close>

type_synonym pos = "u8 list"

datatype cmd =
    Execcmd "(pos \<times> pos) list"
  | Redircmd cmd pos pos u32 nat
  | Pipecmd cmd cmd
  | Listcmd cmd cmd
  | Backcmd cmd

abbreviation (input) MAXARGS :: nat where "MAXARGS \<equiv> 10"

section \<open>Tokens\<close>

definition whitespace :: "u8 set" where
  "whitespace = {32, 9, 13, 10, 11}"

text \<open>The characters of \<open>symbols\<close>: \<open><|>&;()\<close>.\<close>

abbreviation "LT \<equiv> (60 :: u8)"
abbreviation "BAR \<equiv> (124 :: u8)"
abbreviation "GT \<equiv> (62 :: u8)"
abbreviation "AMP \<equiv> (38 :: u8)"
abbreviation "SEMI \<equiv> (59 :: u8)"
abbreviation "LPAR \<equiv> (40 :: u8)"
abbreviation "RPAR \<equiv> (41 :: u8)"

definition symbols :: "u8 set" where
  "symbols = {LT, BAR, GT, AMP, SEMI, LPAR, RPAR}"

fun skip_white :: "pos \<Rightarrow> pos" where
  "skip_white [] = []"
| "skip_white (c # s) = (if c \<in> whitespace then skip_white s else c # s)"

fun skip_word :: "pos \<Rightarrow> pos" where
  "skip_word [] = []"
| "skip_word (c # s) = (if c \<notin> whitespace \<and> c \<notin> symbols then skip_word s else c # s)"

text \<open>The \<open>switch\<close> of \<open>gettoken\<close>.  A word is \<open>'a'\<close> (97), \<open>>>\<close> is \<open>'+'\<close> (43).\<close>

fun token :: "pos \<Rightarrow> u8 \<times> pos" where
  "token [] = (0, [])"
| "token (c # s) =
     (if c = 0 then (0, c # s)
      else if c \<in> {BAR, LPAR, RPAR, SEMI, AMP, LT} then (c, s)
      else if c = GT then (if s \<noteq> [] \<and> hd s = GT then (43, tl s) else (GT, s))
      else (97, skip_word (c # s)))"

text \<open>The result, the pointers \<open>q\<close> and \<open>eq\<close>, and the new \<open>*ps\<close>.\<close>

definition gettoken :: "pos \<Rightarrow> u8 \<times> pos \<times> pos \<times> pos" where
  "gettoken ps = (let q = skip_white ps; (ret, s) = token q in (ret, q, s, skip_white s))"

definition peek :: "pos \<Rightarrow> u8 set \<Rightarrow> bool \<times> pos" where
  "peek ps toks = (let s = skip_white ps in (s \<noteq> [] \<and> hd s \<noteq> 0 \<and> hd s \<in> toks, s))"

lemma skip_white_length: "length (skip_white s) \<le> length s"
  by (induction s) auto

lemma skip_word_length: "length (skip_word s) \<le> length s"
  by (induction s) auto

lemma token_length: "length (snd (token s)) \<le> length s"
proof (cases s)
  case (Cons c t)
  show ?thesis unfolding Cons token.simps using skip_word_length [of "c # t"] by auto
qed simp

lemma token_0: "fst (token s) = 0 \<longleftrightarrow> s = [] \<or> hd s = 0"
  by (cases s) simp_all

lemma token_shorter:
  assumes "fst (token s) \<noteq> 0" "s \<noteq> [] \<longrightarrow> hd s \<notin> whitespace"
  shows "length (snd (token s)) < length s"
proof (cases s)
  case (Cons c t)
  then have "c \<notin> whitespace" "c \<noteq> 0" using assms by auto
  then show ?thesis unfolding Cons token.simps using skip_word_length [of t] by (auto simp: symbols_def)
qed (use assms in simp)

lemma skip_white_hd: "skip_white s \<noteq> [] \<Longrightarrow> hd (skip_white s) \<notin> whitespace"
  by (induction s) auto

lemma gettoken_length:
  assumes "gettoken ps = (ret, q, eq, s)"
  shows "length s \<le> length ps \<and> (ret \<noteq> 0 \<longrightarrow> length s < length ps)"
proof -
  have e: "ret = fst (token (skip_white ps))" "s = skip_white (snd (token (skip_white ps)))"
    using assms by (auto simp: gettoken_def Let_def split: prod.splits)
  show ?thesis
    using token_shorter [of "skip_white ps"] skip_white_hd [of ps] token_length [of "skip_white ps"]
      skip_white_length [of ps] skip_white_length [of "snd (token (skip_white ps))"] unfolding e by linarith
qed

lemma peek_length: "peek ps toks = (b, s) \<Longrightarrow> length s \<le> length ps"
  using skip_white_length by (auto simp: peek_def Let_def)

lemma skip_white_idem [simp]: "skip_white (skip_white s) = skip_white s"
  by (induction s) auto

text \<open>After a successful \<open>peek\<close> the token is there.\<close>

lemma peek_gettoken_length:
  assumes "peek ps toks = (True, s)" "gettoken s = (ret, q, eq, s')"
  shows "length s' < length ps"
proof -
  have "skip_white s = s" "s \<noteq> []" "hd s \<noteq> 0" "length s \<le> length ps"
    using assms(1) skip_white_length [of ps] by (auto simp: peek_def Let_def)
  moreover have "ret = fst (token (skip_white s))"
    using assms(2) by (auto simp: gettoken_def Let_def split: prod.splits)
  ultimately have "ret \<noteq> 0" by (simp add: token_0)
  then show ?thesis using gettoken_length [OF assms(2)] \<open>length s \<le> length ps\<close> by simp
qed

section \<open>The parser\<close>

lemma redir_length:
  assumes "(True, s) = peek ps toks" "(t1, q1, e1, s1) = gettoken s" "(t2, q2, e2, s2) = gettoken s1"
  shows "length s2 < length ps"
  using peek_gettoken_length [OF assms(1) [symmetric] assms(2) [symmetric]] gettoken_length [OF assms(3) [symmetric]] by simp

text \<open>The redirections \<open>parseredirs\<close> reads: the bounds of the file name, the mode and the descriptor.\<close>

type_synonym redir = "pos \<times> pos \<times> u32 \<times> nat"

definition redir_of :: "u8 \<Rightarrow> pos \<Rightarrow> pos \<Rightarrow> redir" where
  "redir_of tok q eq = (if tok = LT then (q, eq, 0, 0) else (q, eq, 0x1 OR 0x200, 1))"

function parseredirs :: "pos \<Rightarrow> (redir list \<times> pos) outcome" where
  "parseredirs ps =
     (let (b, s) = peek ps {LT, GT} in
      if b then
        (let (tok, _, _, s) = gettoken s; (tok2, q, eq, s) = gettoken s in
         if tok2 \<noteq> 97 then Panic ''missing file for redirection''
         else bnd (parseredirs s) (\<lambda>(rs, s). Ok (redir_of tok q eq # rs, s)))
      else Ok ([], s))"
  by pat_completeness auto
termination
  by (relation "measure length") (auto intro: redir_length)

declare parseredirs.simps [simp del]

text \<open>\<open>redircmd\<close> around a command, first redirection innermost.\<close>

fun redirect :: "cmd \<Rightarrow> redir list \<Rightarrow> cmd" where
  "redirect c [] = c"
| "redirect c ((q, eq, mode, fd) # rs) = redirect (Redircmd c q eq mode fd) rs"

lemma parseredirs_length: "parseredirs ps = Ok (rs, s') \<Longrightarrow> length s' \<le> length ps"
proof (induction ps arbitrary: rs rule: parseredirs.induct)
  case (1 ps)
  obtain b s where p: "peek ps {LT, GT} = (b, s)" by fastforce
  show ?case
  proof (cases b)
    case False
    then have "s' = s" using 1(2) p by (subst (asm) parseredirs.simps) simp
    then show ?thesis using peek_length [OF p] by simp
  next
    case True
    obtain t1 q1 e1 s1 t2 q2 e2 s2 where g: "gettoken s = (t1, q1, e1, s1)" "gettoken s1 = (t2, q2, e2, s2)"
      by (metis prod_cases4)
    then obtain rs2 where r: "t2 = 97" "parseredirs s2 = Ok (rs2, s')"
      using 1(2) p True by (subst (asm) parseredirs.simps) (auto simp: outcome_simps split: if_splits)
    have "length s' \<le> length s2" using 1(1) p True g r by simp
    moreover have "length s2 < length ps"
      using peek_gettoken_length [of ps "{LT, GT}" s] gettoken_length [OF g(2)] p True g(1) by force
    ultimately show ?thesis by simp
  qed
qed

text \<open>The loop of \<open>parseexec\<close>; \<open>args\<close> are the words so far, \<open>rs\<close> the redirections.\<close>

function parse_args :: "(pos \<times> pos) list \<Rightarrow> redir list \<Rightarrow> pos \<Rightarrow> ((pos \<times> pos) list \<times> redir list \<times> pos) outcome" where
  "parse_args args rs ps =
     (let (b, s) = peek ps {BAR, RPAR, AMP, SEMI} in
      if b then Ok (args, rs, s)
      else
        (let (tok, q, eq, s) = gettoken s in
         if tok = 0 then Ok (args, rs, s)
         else if tok \<noteq> 97 then Panic ''syntax''
         else if MAXARGS \<le> length (args @ [(q, eq)]) then Panic ''too many args''
         else bnd (parseredirs s) (\<lambda>(rs', s). parse_args (args @ [(q, eq)]) (rs @ rs') s)))"
  by pat_completeness auto
termination
proof (relation "measure (\<lambda>(args, rs, ps). 10 - length args)", goal_cases)
  case (2 args rs ps)
  then show ?case by auto
qed simp

declare parse_args.simps [simp del]

text \<open>The loop of \<open>parseline\<close>: a command followed by any number of \<open>&\<close>.\<close>

function parse_backs :: "cmd \<Rightarrow> pos \<Rightarrow> cmd \<times> pos" where
  "parse_backs c ps =
     (let (b, s) = peek ps {AMP} in
      if b then (let (_, _, _, s) = gettoken s in parse_backs (Backcmd c) s) else (c, s))"
  by pat_completeness auto
termination
  by (relation "measure (\<lambda>(c, ps). length ps)") (auto intro: peek_gettoken_length [OF sym sym])

declare parse_backs.simps [simp del]

fun parseline :: "nat \<Rightarrow> pos \<Rightarrow> (cmd \<times> pos) outcome"
  and parsepipe :: "nat \<Rightarrow> pos \<Rightarrow> (cmd \<times> pos) outcome"
  and parseexec :: "nat \<Rightarrow> pos \<Rightarrow> (cmd \<times> pos) outcome"
  and parseblock :: "nat \<Rightarrow> pos \<Rightarrow> (cmd \<times> pos) outcome" where
  "parseline 0 ps = Undef ''depth''"
| "parsepipe 0 ps = Undef ''depth''"
| "parseexec 0 ps = Undef ''depth''"
| "parseblock 0 ps = Undef ''depth''"
| "parseline (Suc n) ps =
     bnd (parsepipe n ps) (\<lambda>(c, s).
     let (c, s) = parse_backs c s; (b, s) = peek s {SEMI} in
     if b then
       (let (_, _, _, s) = gettoken s in bnd (parseline n s) (\<lambda>(r, s). Ok (Listcmd c r, s)))
     else Ok (c, s))"
| "parsepipe (Suc n) ps =
     bnd (parseexec n ps) (\<lambda>(c, s).
     let (b, s) = peek s {BAR} in
     if b then
       (let (_, _, _, s) = gettoken s in bnd (parsepipe n s) (\<lambda>(r, s). Ok (Pipecmd c r, s)))
     else Ok (c, s))"
| "parseexec (Suc n) ps =
     (let (b, s) = peek ps {LPAR} in
      if b then parseblock n s
      else
        bnd (parseredirs s) (\<lambda>(rs, s).
        bnd (parse_args [] rs s) (\<lambda>(args, rs, s). Ok (redirect (Execcmd args) rs, s))))"
| "parseblock (Suc n) ps =
     (let (b, s) = peek ps {LPAR} in
      if \<not> b then Panic ''parseblock''
      else
        (let (_, _, _, s) = gettoken s in
         bnd (parseline n s) (\<lambda>(c, s).
         let (b, s) = peek s {RPAR} in
         if \<not> b then Panic ''syntax - missing )''
         else
           (let (_, _, _, s) = gettoken s in
            bnd (parseredirs s) (\<lambda>(rs, s). Ok (redirect c rs, s))))))"

text \<open>\<open>nulterminate\<close>: the zeros it writes into the line \<open>b\<close> (with its final zero), at the ends of the words.\<close>

definition zero_at :: "pos \<Rightarrow> u8 list \<Rightarrow> u8 list" where
  "zero_at eq b = b[length b - 1 - length eq := 0]"

fun nulterminate :: "cmd \<Rightarrow> u8 list \<Rightarrow> u8 list" where
  "nulterminate (Execcmd args) b = fold (\<lambda>(q, eq). zero_at eq) args b"
| "nulterminate (Redircmd c q eq mode fd) b = zero_at eq (nulterminate c b)"
| "nulterminate (Pipecmd l r) b = nulterminate r (nulterminate l b)"
| "nulterminate (Listcmd l r) b = nulterminate r (nulterminate l b)"
| "nulterminate (Backcmd c) b = nulterminate c b"

text \<open>The command, and the line as it is afterwards.\<close>

definition parsecmd :: "u8 list \<Rightarrow> (cmd \<times> u8 list) outcome" where
  "parsecmd s =
     bnd (parseline (4 * length s + 4) s) (\<lambda>(c, r).
     let (b, r) = peek r {} in
     if r \<noteq> [] then Panic ''syntax'' else Ok (c, nulterminate c (s @ [0])))"

section \<open>Termination\<close>

text \<open>A routine of the parser returns, or stops the shell with one of its messages.\<close>

definition messages :: "string set" where
  "messages = {''missing file for redirection'', ''syntax'', ''too many args'', ''syntax - missing )''}"

definition settled :: "'a outcome \<Rightarrow> bool" where
  "settled m \<longleftrightarrow> (\<exists>x. m = Ok x) \<or> (\<exists>e \<in> messages. m = Panic e)"

lemma settled_simps [simp]:
  "settled (Ok x)" "settled (Panic e) \<longleftrightarrow> e \<in> messages" "\<not> settled (Sleeps ch)" "\<not> settled (Undef u)"
  by (auto simp: settled_def)

lemma settled_bnd: "settled m \<Longrightarrow> (\<And>x. m = Ok x \<Longrightarrow> settled (f x)) \<Longrightarrow> settled (bnd m f)"
  by (cases m) auto

lemma messages_simps [simp]:
  "''missing file for redirection'' \<in> messages" "''syntax'' \<in> messages" "''too many args'' \<in> messages"
  "''syntax - missing )'' \<in> messages"
  by (simp_all add: messages_def)

lemma parseredirs_settled: "settled (parseredirs ps)"
proof (induction ps rule: parseredirs.induct)
  case (1 ps)
  show ?case
    by (subst parseredirs.simps) (auto simp: Let_def split: prod.splits intro!: settled_bnd 1)
qed

lemma parse_args_settled: "settled (parse_args args rs ps)"
proof (induction args rs ps rule: parse_args.induct)
  case (1 args rs ps)
  show ?case
    by (subst parse_args.simps) (auto simp: Let_def split: prod.splits intro!: settled_bnd parseredirs_settled 1)
qed

lemma parse_args_length: "parse_args args rs ps = Ok (args', rs', s') \<Longrightarrow> length s' \<le> length ps"
proof (induction args rs ps arbitrary: args' rs' rule: parse_args.induct)
  case (1 args rs ps)
  obtain b s where p: "peek ps {BAR, RPAR, AMP, SEMI} = (b, s)" by fastforce
  obtain tok q eq s1 where g: "gettoken s = (tok, q, eq, s1)" by (metis prod_cases4)
  have l: "length s \<le> length ps" "length s1 \<le> length s" using peek_length [OF p] gettoken_length [OF g] by simp_all
  show ?case
  proof (cases "b \<or> tok = 0")
    case True
    then have "s' = s \<or> s' = s1" using 1(2) p g by (subst (asm) parse_args.simps) (auto split: if_splits)
    then show ?thesis using l by auto
  next
    case False
    then obtain rs1 s2 where r: "tok = 97" "\<not> MAXARGS \<le> length (args @ [(q, eq)])" "parseredirs s1 = Ok (rs1, s2)"
      "parse_args (args @ [(q, eq)]) (rs @ rs1) s2 = Ok (args', rs', s')"
      using 1(2) p g by (subst (asm) parse_args.simps) (auto simp: outcome_simps split: if_splits)
    have "length s' \<le> length s2" using 1(1) p g False r by simp
    then show ?thesis using parseredirs_length [OF r(3)] l by simp
  qed
qed

lemma parse_backs_length: "parse_backs c ps = (c', s') \<Longrightarrow> length s' \<le> length ps"
proof (induction c ps rule: parse_backs.induct)
  case (1 c ps)
  obtain b s where p: "peek ps {AMP} = (b, s)" by fastforce
  obtain tok q eq s1 where g: "gettoken s = (tok, q, eq, s1)" by (metis prod_cases4)
  show ?case
  proof (cases b)
    case True
    then have "parse_backs (Backcmd c) s1 = (c', s')" using 1(2) p g by (subst (asm) parse_backs.simps) simp
    then have "length s' \<le> length s1" using 1(1) p g True by simp
    then show ?thesis using peek_length [OF p] gettoken_length [OF g] by simp
  next
    case False
    then show ?thesis using 1(2) p peek_length [OF p] by (subst (asm) parse_backs.simps) simp
  qed
qed

lemma parse_length:
  "(parseline n ps = Ok (c, s) \<longrightarrow> length s \<le> length ps) \<and> (parsepipe n ps = Ok (c, s) \<longrightarrow> length s \<le> length ps) \<and>
   (parseexec n ps = Ok (c, s) \<longrightarrow> length s \<le> length ps) \<and> (parseblock n ps = Ok (c, s) \<longrightarrow> length s \<le> length ps)"
proof (induction n arbitrary: ps c s)
  case (Suc n)
  have "length s \<le> length ps" if h: "parseline (Suc n) ps = Ok (c, s)"
  proof -
    obtain c1 s1 where a1: "parsepipe n ps = Ok (c1, s1)" using h by (auto simp: outcome_simps)
    obtain c2 s2 where a2: "parse_backs c1 s1 = (c2, s2)" by fastforce
    obtain b s3 where a3: "peek s2 {SEMI} = (b, s3)" by fastforce
    note a = a1 a2 a3
    obtain tok q eq s4 where g: "gettoken s3 = (tok, q, eq, s4)" by (metis prod_cases4)
    have l: "length s1 \<le> length ps" "length s2 \<le> length s1" "length s3 \<le> length s2" "length s4 \<le> length s3"
      using Suc.IH a(1) parse_backs_length [OF a(2)] peek_length [OF a(3)] gettoken_length [OF g] by blast+
    show ?thesis
    proof (cases b)
      case True
      then obtain r where "parseline n s4 = Ok (r, s)" using h a g by (auto simp: outcome_simps)
      then have "length s \<le> length s4" using Suc.IH by blast
      then show ?thesis using l by linarith
    next
      case False
      then show ?thesis using h a g l by simp
    qed
  qed
  moreover have "length s \<le> length ps" if h: "parsepipe (Suc n) ps = Ok (c, s)"
  proof -
    obtain c1 s1 where a1: "parseexec n ps = Ok (c1, s1)" using h by (auto simp: outcome_simps)
    obtain b s2 where a2: "peek s1 {BAR} = (b, s2)" by fastforce
    note a = a1 a2
    obtain tok q eq s3 where g: "gettoken s2 = (tok, q, eq, s3)" by (metis prod_cases4)
    have l: "length s1 \<le> length ps" "length s2 \<le> length s1" "length s3 \<le> length s2"
      using Suc.IH a(1) peek_length [OF a(2)] gettoken_length [OF g] by blast+
    show ?thesis
    proof (cases b)
      case True
      then obtain r where "parsepipe n s3 = Ok (r, s)" using h a g by (auto simp: outcome_simps)
      then have "length s \<le> length s3" using Suc.IH by blast
      then show ?thesis using l by linarith
    next
      case False
      then show ?thesis using h a g l by simp
    qed
  qed
  moreover have "length s \<le> length ps" if h: "parseexec (Suc n) ps = Ok (c, s)"
  proof -
    obtain b s1 where a: "peek ps {LPAR} = (b, s1)" by fastforce
    note l = peek_length [OF a]
    show ?thesis
    proof (cases b)
      case True
      then have "length s \<le> length s1" using h a Suc.IH by simp
      then show ?thesis using l by simp
    next
      case False
      then obtain rs s2 args rs' where "parseredirs s1 = Ok (rs, s2)" "parse_args [] rs s2 = Ok (args, rs', s)"
        using h a by (auto simp: outcome_simps)
      then show ?thesis using parseredirs_length parse_args_length l by fastforce
    qed
  qed
  moreover have "length s \<le> length ps" if h: "parseblock (Suc n) ps = Ok (c, s)"
  proof -
    obtain b s1 where a: "peek ps {LPAR} = (b, s1)" by fastforce
    obtain tok q eq s2 where g: "gettoken s1 = (tok, q, eq, s2)" by (metis prod_cases4)
    obtain c1 s3 where b: "b" "parseline n s2 = Ok (c1, s3)"
      using h a g by (auto simp: outcome_simps split: if_splits)
    obtain b' s4 where p: "peek s3 {RPAR} = (b', s4)" by fastforce
    obtain tok' q' eq' s5 where g': "gettoken s4 = (tok', q', eq', s5)" by (metis prod_cases4)
    obtain rs where r: "parseredirs s5 = Ok (rs, s)"
      using h a g b p g' by (auto simp: outcome_simps split: if_splits)
    have "length s3 \<le> length s2" using Suc.IH b(2) by blast
    then show ?thesis
      using peek_length [OF a] gettoken_length [OF g] peek_length [OF p] gettoken_length [OF g'] parseredirs_length [OF r] by linarith
  qed
  ultimately show ?case by blast
qed simp

lemma peek_True: "peek ps toks = (True, s) \<Longrightarrow> skip_white s = s \<and> s \<noteq> [] \<and> hd s \<in> toks"
  by (auto simp: peek_def Let_def)

lemma parse_settled:
  "(4 * length ps + 4 \<le> n \<longrightarrow> settled (parseline n ps)) \<and> (4 * length ps + 3 \<le> n \<longrightarrow> settled (parsepipe n ps)) \<and>
   (4 * length ps + 2 \<le> n \<longrightarrow> settled (parseexec n ps)) \<and>
   (4 * length ps + 1 \<le> n \<and> fst (peek ps {LPAR}) \<longrightarrow> settled (parseblock n ps))"
proof (induction n arbitrary: ps)
  case (Suc n)
  have "settled (parseline (Suc n) ps)" if h: "4 * length ps + 4 \<le> Suc n"
  proof -
    have "settled (parsepipe n ps)" using Suc.IH h by simp
    moreover have "settled (let (c, s) = parse_backs c s; (b, s) = peek s {SEMI} in
        if b then (let (_, _, _, s) = gettoken s in bnd (parseline n s) (\<lambda>(r, s). Ok (Listcmd c r, s))) else Ok (c, s))"
      if pp: "parsepipe n ps = Ok (c, s)" for c s
    proof -
      obtain c1 s1 where b: "parse_backs c s = (c1, s1)" by fastforce
      obtain t s2 where p: "peek s1 {SEMI} = (t, s2)" by fastforce
      obtain tok q eq s3 where g: "gettoken s2 = (tok, q, eq, s3)" by (metis prod_cases4)
      have "length s1 \<le> length ps" using parse_length pp parse_backs_length [OF b] order_trans by blast
      then have "settled (parseline n s3)" if t
        using peek_gettoken_length [of s1 "{SEMI}" s2] p g that Suc.IH [of s3] h by simp
      then show ?thesis using b p g by (auto intro!: settled_bnd)
    qed
    ultimately show ?thesis by (auto simp del: split_paired_All intro!: settled_bnd)
  qed
  moreover have "settled (parsepipe (Suc n) ps)" if h: "4 * length ps + 3 \<le> Suc n"
  proof -
    have "settled (parseexec n ps)" using Suc.IH h by simp
    moreover have "settled (let (b, s) = peek s {BAR} in
        if b then (let (_, _, _, s) = gettoken s in bnd (parsepipe n s) (\<lambda>(r, s). Ok (Pipecmd c r, s))) else Ok (c, s))"
      if pp: "parseexec n ps = Ok (c, s)" for c s
    proof -
      obtain t s2 where p: "peek s {BAR} = (t, s2)" by fastforce
      obtain tok q eq s3 where g: "gettoken s2 = (tok, q, eq, s3)" by (metis prod_cases4)
      have "length s \<le> length ps" using parse_length pp by blast
      then have "settled (parsepipe n s3)" if t
        using peek_gettoken_length [of s "{BAR}" s2] p g that Suc.IH [of s3] h by simp
      then show ?thesis using p g by (auto intro!: settled_bnd)
    qed
    ultimately show ?thesis by (auto simp del: split_paired_All intro!: settled_bnd)
  qed
  moreover have "settled (parseexec (Suc n) ps)" if h: "4 * length ps + 2 \<le> Suc n"
  proof -
    obtain b s where p: "peek ps {LPAR} = (b, s)" by fastforce
    have "settled (parseblock n s)" if b
    proof -
      have "fst (peek s {LPAR})" "length s \<le> length ps" using p that skip_white_length [of ps] by (auto simp: peek_def Let_def)
      then show ?thesis using Suc.IH [of s] h by simp
    qed
    then show ?thesis using p by (auto intro!: settled_bnd parseredirs_settled parse_args_settled)
  qed
  moreover have "settled (parseblock (Suc n) ps)" if h: "4 * length ps + 1 \<le> Suc n" "fst (peek ps {LPAR})"
  proof -
    obtain s where p: "peek ps {LPAR} = (True, s)" using h(2) by (metis prod.collapse)
    obtain tok q eq s1 where g: "gettoken s = (tok, q, eq, s1)" by (metis prod_cases4)
    have "settled (parseline n s1)" using peek_gettoken_length [OF p g] Suc.IH [of s1] h by simp
    then show ?thesis using p g by (auto simp: Let_def split: prod.splits intro!: settled_bnd parseredirs_settled)
  qed
  ultimately show ?case by blast
qed simp

text \<open>C32: \<open>parsecmd\<close> terminates on every line: it returns a command or stops with one of the four messages of the parser; the nesting of the line never exceeds the depth its length allows.\<close>

theorem parsecmd_terminates:
  "(\<exists>c b. parsecmd s = Ok (c, b)) \<or>
   (\<exists>e \<in> {''missing file for redirection'', ''syntax'', ''too many args'', ''syntax - missing )''}. parsecmd s = Panic e)"
proof -
  have "settled (parseline (4 * length s + 4) s)" using parse_settled by blast
  then have "settled (parsecmd s)"
    unfolding parsecmd_def by (auto simp: Let_def split: prod.splits intro!: settled_bnd)
  then show ?thesis by (auto simp: settled_def messages_def)
qed

section \<open>Printing and parsing\<close>

text \<open>Commands by the text of their words; the flag of a redirection is true for output.\<close>

datatype scmd =
    SExec "u8 list list"
  | SRedir scmd "u8 list" bool
  | SPipe scmd scmd
  | SList scmd scmd
  | SBack scmd

definition text_of :: "pos \<Rightarrow> pos \<Rightarrow> u8 list" where
  "text_of q eq = take (length q - length eq) q"

fun abs_cmd :: "cmd \<Rightarrow> scmd" where
  "abs_cmd (Execcmd args) = SExec (map (\<lambda>(q, eq). text_of q eq) args)"
| "abs_cmd (Redircmd c q eq mode fd) = SRedir (abs_cmd c) (text_of q eq) (mode \<noteq> 0)"
| "abs_cmd (Pipecmd l r) = SPipe (abs_cmd l) (abs_cmd r)"
| "abs_cmd (Listcmd l r) = SList (abs_cmd l) (abs_cmd r)"
| "abs_cmd (Backcmd c) = SBack (abs_cmd c)"

definition is_word :: "u8 list \<Rightarrow> bool" where
  "is_word w \<longleftrightarrow> w \<noteq> [] \<and> (\<forall>c \<in> set w. c \<noteq> 0 \<and> c \<notin> whitespace \<and> c \<notin> symbols)"

fun valid_cmd :: "scmd \<Rightarrow> bool" where
  "valid_cmd (SExec ws) \<longleftrightarrow> length ws < MAXARGS \<and> (\<forall>w \<in> set ws. is_word w)"
| "valid_cmd (SRedir c f out) \<longleftrightarrow> valid_cmd c \<and> is_word f"
| "valid_cmd (SPipe l r) \<longleftrightarrow> valid_cmd l \<and> valid_cmd r"
| "valid_cmd (SList l r) \<longleftrightarrow> valid_cmd l \<and> valid_cmd r"
| "valid_cmd (SBack c) \<longleftrightarrow> valid_cmd c"

fun show_cmd :: "scmd \<Rightarrow> u8 list" where
  "show_cmd (SExec ws) = concat (map (\<lambda>w. w @ [32]) ws)"
| "show_cmd (SRedir c f out) = LPAR # show_cmd c @ RPAR # (if out then GT else LT) # f"
| "show_cmd (SPipe l r) = LPAR # show_cmd l @ RPAR # BAR # LPAR # show_cmd r @ [RPAR]"
| "show_cmd (SList l r) = LPAR # show_cmd l @ RPAR # SEMI # LPAR # show_cmd r @ [RPAR]"
| "show_cmd (SBack c) = LPAR # show_cmd c @ [RPAR, AMP]"

text \<open>The end of the line, or of a block.\<close>

definition at_end :: "pos \<Rightarrow> bool" where
  "at_end r \<longleftrightarrow> r = [] \<or> hd r = RPAR"

lemma peek_Nil [simp]: "peek [] toks = (False, [])"
  by (simp add: peek_def)

lemma peek_Cons: "c \<notin> whitespace \<Longrightarrow> c \<noteq> 0 \<Longrightarrow> peek (c # s) toks = (c \<in> toks, c # s)"
  by (simp add: peek_def)

lemma symbols_not_white [simp]:
  "LT \<notin> whitespace" "BAR \<notin> whitespace" "GT \<notin> whitespace" "AMP \<notin> whitespace" "SEMI \<notin> whitespace"
  "LPAR \<notin> whitespace" "RPAR \<notin> whitespace"
  by (simp_all add: whitespace_def)

lemma at_end_cases: "at_end r \<Longrightarrow> r = [] \<or> (\<exists>s. r = RPAR # s)"
  by (cases r) (auto simp: at_end_def)

lemma peek_at_end: "at_end r \<Longrightarrow> RPAR \<notin> toks \<Longrightarrow> peek r toks = (False, r)"
  by (auto dest!: at_end_cases simp: peek_Cons)

lemma skip_white_at_end: "at_end r \<Longrightarrow> skip_white r = r"
  by (auto dest!: at_end_cases)

lemma gettoken_symbol:
  "c \<in> {BAR, LPAR, RPAR, SEMI, AMP, LT} \<Longrightarrow> gettoken (c # s) = (c, c # s, s, skip_white s)"
  by (auto simp: gettoken_def Let_def)

lemma parseredirs_none: "peek s {LT, GT} = (False, s') \<Longrightarrow> parseredirs s = Ok ([], s')"
  by (subst parseredirs.simps) simp

text \<open>Printed commands start with a word or a parenthesis.\<close>

lemma word_hd: "is_word w \<Longrightarrow> \<exists>c v. w = c # v \<and> c \<noteq> 0 \<and> c \<notin> whitespace \<and> c \<notin> symbols"
  by (cases w) (auto simp: is_word_def)

lemma show_cmd_hd:
  assumes "valid_cmd c" "at_end r"
  shows "show_cmd c @ r = [] \<or> (\<exists>a s. show_cmd c @ r = a # s \<and> a \<noteq> 0 \<and> a \<notin> whitespace \<and> (a \<in> symbols \<longrightarrow> a = LPAR \<or> a = RPAR))"
proof (cases c)
  case (SExec ws)
  show ?thesis
  proof (cases ws)
    case Nil
    then show ?thesis using SExec assms(2) by (auto dest!: at_end_cases)
  next
    case (Cons w ws')
    then have "is_word w" using SExec assms(1) by simp
    from word_hd [OF this] show ?thesis using SExec Cons by auto
  qed
qed simp_all

lemma skip_white_show: "valid_cmd c \<Longrightarrow> at_end r \<Longrightarrow> skip_white (show_cmd c @ r) = show_cmd c @ r"
  using show_cmd_hd by fastforce

lemma skip_word_word:
  assumes "is_word w" "s = [] \<or> hd s \<in> whitespace \<union> symbols"
  shows "skip_word (w @ s) = s"
proof -
  have "skip_word s = s" using assms(2) by (cases s) auto
  moreover have "skip_word (w @ s) = skip_word s" if "\<forall>c \<in> set w. c \<notin> whitespace \<and> c \<notin> symbols"
    using that by (induction w) auto
  ultimately show ?thesis using assms(1) by (simp add: is_word_def)
qed

lemma gettoken_word:
  assumes "is_word w" "s = [] \<or> hd s \<in> whitespace \<union> symbols"
  shows "gettoken (w @ s) = (97, w @ s, s, skip_white s)"
proof -
  obtain c v where w: "w = c # v" "c \<noteq> 0" "c \<notin> whitespace" "c \<notin> symbols" using word_hd [OF assms(1)] by blast
  have "token (w @ s) = (97, skip_word (w @ s))" using w by (simp add: symbols_def)
  moreover have "skip_white (w @ s) = w @ s" using w by simp
  ultimately show ?thesis by (simp add: gettoken_def Let_def skip_word_word [OF assms])
qed

lemma text_of_append [simp]: "text_of (w @ s) s = w"
  by (simp add: text_of_def)

section \<open>Parsing printed commands\<close>

lemma parse_args_show:
  assumes "\<forall>w \<in> set ws. is_word w" "length args + length ws < MAXARGS" "at_end r"
  shows "\<exists>args'. parse_args args [] (concat (map (\<lambda>w. w @ [32]) ws) @ r) = Ok (args @ args', [], r) \<and>
    map (\<lambda>(q, eq). text_of q eq) args' = ws"
  using assms
proof (induction ws arbitrary: args)
  case Nil
  then show ?case
    by (subst parse_args.simps) (auto dest!: at_end_cases simp: peek_Cons gettoken_def)
next
  case (Cons w ws)
  define more where "more = concat (map (\<lambda>w. w @ [32]) ws) @ r"
  have v: "valid_cmd (SExec ws)" using Cons.prems by simp
  have m: "skip_white more = more" using skip_white_show [OF v Cons.prems(3)] by (simp add: more_def)
  have w: "is_word w" using Cons.prems by simp
  obtain c u where c: "w = c # u" "c \<noteq> 0" "c \<notin> whitespace" "c \<notin> symbols" using word_hd [OF w] by blast
  have p: "peek (w @ 32 # more) {BAR, RPAR, AMP, SEMI} = (False, w @ 32 # more)"
    using c by (simp add: peek_Cons symbols_def)
  have g: "gettoken (w @ 32 # more) = (97, w @ 32 # more, 32 # more, more)"
    using gettoken_word [OF w, of "32 # more"] m by (simp add: whitespace_def)
  have "peek more {LT, GT} = (False, more)"
    using show_cmd_hd [OF v Cons.prems(3)] by (auto simp: more_def [symmetric] peek_Cons symbols_def)
  then have rd: "parseredirs more = Ok ([], more)" by (rule parseredirs_none)
  obtain args' where a: "parse_args (args @ [(w @ 32 # more, 32 # more)]) [] more = Ok ((args @ [(w @ 32 # more, 32 # more)]) @ args', [], r)"
      "map (\<lambda>(q, eq). text_of q eq) args' = ws"
    using Cons.IH [of "args @ [(w @ 32 # more, 32 # more)]"] Cons.prems unfolding more_def [symmetric] by auto
  have "parse_args args [] (w @ 32 # more) = parse_args (args @ [(w @ 32 # more, 32 # more)]) [] more"
    using Cons.prems(2) rd by (subst parse_args.simps) (simp add: p g)
  then show ?case using a by (intro exI [of _ "(w @ 32 # more, 32 # more) # args'"]) (simp add: more_def)
qed

text \<open>A command in parentheses, followed by redirections.\<close>

definition parses :: "scmd \<Rightarrow> bool" where
  "parses c \<longleftrightarrow> (\<forall>n r. at_end r \<longrightarrow> 4 * length (show_cmd c @ r) + 4 \<le> n \<longrightarrow>
     (\<exists>c'. parseline n (show_cmd c @ r) = Ok (c', r) \<and> abs_cmd c' = c))"

lemma parse_paren:
  assumes "parses c" "valid_cmd c" "4 * length (LPAR # show_cmd c @ RPAR # r) + 2 \<le> n" "parseredirs (skip_white r) = Ok (rs, r')"
  shows "\<exists>c'. parseexec n (LPAR # show_cmd c @ RPAR # r) = Ok (redirect c' rs, r') \<and> abs_cmd c' = c"
proof -
  obtain n1 where n: "n = Suc (Suc n1)" using assms(3) by (cases n; cases "n - 1") auto
  have e: "at_end (RPAR # r)" by (simp add: at_end_def)
  have "4 * length (show_cmd c @ RPAR # r) + 4 \<le> n1" using assms(3) n by simp
  then obtain c' where c': "parseline n1 (show_cmd c @ RPAR # r) = Ok (c', RPAR # r)" "abs_cmd c' = c"
    using assms(1) e unfolding parses_def by blast
  have "parseblock (Suc n1) (LPAR # show_cmd c @ RPAR # r) = Ok (redirect c' rs, r')"
    using assms(4) by (simp add: peek_Cons gettoken_symbol skip_white_show [OF assms(2) e] c')
  then show ?thesis using c'(2) n by (intro exI [of _ c']) (simp add: peek_Cons)
qed

lemma parse_paren_pipe:
  assumes "parses c" "valid_cmd c" "4 * length (LPAR # show_cmd c @ RPAR # r) + 3 \<le> n"
    and "peek r {LT, GT} = (False, r)" "peek r {BAR} = (False, r)" "skip_white r = r"
  shows "\<exists>c'. parsepipe n (LPAR # show_cmd c @ RPAR # r) = Ok (c', r) \<and> abs_cmd c' = c"
proof -
  obtain n1 where n: "n = Suc n1" using assms(3) by (cases n) auto
  obtain c' where "parseexec n1 (LPAR # show_cmd c @ RPAR # r) = Ok (redirect c' [], r)" "abs_cmd c' = c"
    using parse_paren [OF assms(1,2), of r n1 "[]" r] assms(3,6) n parseredirs_none [OF assms(4)] by auto
  then show ?thesis using n assms(5) by simp
qed

lemma parseline_end:
  assumes "parsepipe n s = Ok (c, r)" "at_end r"
  shows "parseline (Suc n) s = Ok (c, r)"
proof -
  have "parse_backs c r = (c, r)" using assms(2) by (subst parse_backs.simps) (simp add: peek_at_end)
  then show ?thesis using assms by (simp add: peek_at_end)
qed

lemma parseline_semi:
  assumes "parsepipe n s = Ok (c, SEMI # t)" "skip_white t = t" "parseline n t = Ok (c', e)"
  shows "parseline (Suc n) s = Ok (Listcmd c c', e)"
proof -
  have "parse_backs c (SEMI # t) = (c, SEMI # t)" by (subst parse_backs.simps) (simp add: peek_Cons)
  then show ?thesis using assms by (simp add: peek_Cons gettoken_symbol)
qed

lemma parses_exec:
  assumes v: "valid_cmd (SExec ws)"
  shows "parses (SExec ws)"
  unfolding parses_def
proof (intro allI impI)
  fix n and r :: pos
  assume e: "at_end r" and n: "4 * length (show_cmd (SExec ws) @ r) + 4 \<le> n"
  define s where "s = show_cmd (SExec ws) @ r"
  obtain n1 where n1: "n = Suc (Suc (Suc n1))" using n by (cases n; cases "n - 1"; cases "n - 2") auto
  have hd: "s = [] \<or> (\<exists>a t. s = a # t \<and> a \<noteq> 0 \<and> a \<notin> whitespace \<and> (a \<in> symbols \<longrightarrow> a = RPAR))"
  proof (cases ws)
    case Nil
    then show ?thesis using e by (auto simp: s_def dest!: at_end_cases)
  next
    case (Cons w ws')
    then have "is_word w" using v by simp
    from word_hd [OF this] show ?thesis using Cons by (auto simp: s_def)
  qed
  then have p: "peek s {LPAR} = (False, s)" "peek s {LT, GT} = (False, s)"
    by (auto simp: peek_Cons symbols_def)
  obtain args where a: "parse_args [] [] s = Ok (args, [], r)" "map (\<lambda>(q, eq). text_of q eq) args = ws"
    using parse_args_show [of ws "[]" r] v e by (auto simp: s_def)
  have "parseexec (Suc n1) s = Ok (Execcmd args, r)" using p parseredirs_none [OF p(2)] a by simp
  then have "parsepipe (Suc (Suc n1)) s = Ok (Execcmd args, r)" using e by (simp add: peek_at_end)
  from parseline_end [OF this e] have "parseline n s = Ok (Execcmd args, r)" unfolding n1 .
  moreover have "abs_cmd (Execcmd args) = SExec ws" using a(2) by simp
  ultimately show "\<exists>c'. parseline n (show_cmd (SExec ws) @ r) = Ok (c', r) \<and> abs_cmd c' = SExec ws"
    unfolding s_def by blast
qed

lemma parses_redir:
  assumes c: "parses c" "valid_cmd c" and f: "is_word f"
  shows "parses (SRedir c f out)"
  unfolding parses_def
proof (intro allI impI)
  fix n and r :: pos
  assume e: "at_end r" and n: "4 * length (show_cmd (SRedir c f out) @ r) + 4 \<le> n"
  define op where "op = (if out then GT else LT)"
  obtain n1 where n1: "n = Suc (Suc n1)" using n by (cases n; cases "n - 1") auto
  have g1: "gettoken (op # f @ r) = (op, op # f @ r, f @ r, f @ r)"
  proof -
    obtain a u where "f = a # u" "a \<noteq> 0" "a \<notin> whitespace" "a \<notin> symbols" using word_hd [OF f] by blast
    then show ?thesis by (auto simp: op_def gettoken_def Let_def symbols_def)
  qed
  have g2: "gettoken (f @ r) = (97, f @ r, r, r)"
    using gettoken_word [OF f, of r] e skip_white_at_end [OF e] by (auto simp: at_end_def symbols_def)
  have rd: "parseredirs (op # f @ r) = Ok ([redir_of op (f @ r) r], r)"
    using parseredirs_none [OF peek_at_end [OF e]] g1 g2
    by (subst parseredirs.simps) (simp add: peek_Cons op_def)
  obtain c' where x: "parseexec n1 (LPAR # show_cmd c @ RPAR # op # f @ r) = Ok (redirect c' [redir_of op (f @ r) r], r)"
      "abs_cmd c' = c"
    using parse_paren [OF c, of "op # f @ r" n1] rd n n1 by (auto simp: op_def split: if_splits)
  then have "parsepipe (Suc n1) (LPAR # show_cmd c @ RPAR # op # f @ r) = Ok (redirect c' [redir_of op (f @ r) r], r)"
    using e by (simp add: peek_at_end)
  from parseline_end [OF this e]
  show "\<exists>c'. parseline n (show_cmd (SRedir c f out) @ r) = Ok (c', r) \<and> abs_cmd c' = SRedir c f out"
    using x(2) n1 by (auto simp: op_def redir_of_def)
qed

lemma parses_pipe:
  assumes l: "parses l" "valid_cmd l" and rr: "parses r" "valid_cmd r"
  shows "parses (SPipe l r)"
  unfolding parses_def
proof (intro allI impI)
  fix n and e :: pos
  assume e: "at_end e" and n: "4 * length (show_cmd (SPipe l r) @ e) + 4 \<le> n"
  define t where "t = LPAR # show_cmd r @ RPAR # e"
  obtain n1 where n1: "n = Suc (Suc n1)" using n by (cases n; cases "n - 1") auto
  have "peek (BAR # t) {LT, GT} = (False, BAR # t)" by (simp add: peek_Cons)
  from parseredirs_none [OF this] obtain l' where l': "parseexec n1 (LPAR # show_cmd l @ RPAR # BAR # t) = Ok (l', BAR # t)" "abs_cmd l' = l"
    using parse_paren [OF l, of "BAR # t" n1] n n1 by (auto simp: t_def)
  obtain r' where r': "parsepipe n1 t = Ok (r', e)" "abs_cmd r' = r"
    using parse_paren_pipe [OF rr, of e n1] n n1 e skip_white_at_end [OF e] by (auto simp: t_def peek_at_end)
  have "skip_white t = t" by (simp add: t_def)
  then have "parsepipe (Suc n1) (LPAR # show_cmd l @ RPAR # BAR # t) = Ok (Pipecmd l' r', e)"
    using l' r' by (simp add: peek_Cons gettoken_symbol)
  from parseline_end [OF this e]
  show "\<exists>c'. parseline n (show_cmd (SPipe l r) @ e) = Ok (c', e) \<and> abs_cmd c' = SPipe l r"
    using l'(2) r'(2) n1 by (auto simp: t_def)
qed

lemma parses_list:
  assumes l: "parses l" "valid_cmd l" and rr: "parses r" "valid_cmd r"
  shows "parses (SList l r)"
  unfolding parses_def
proof (intro allI impI)
  fix n and e :: pos
  assume e: "at_end e" and n: "4 * length (show_cmd (SList l r) @ e) + 4 \<le> n"
  define t where "t = LPAR # show_cmd r @ RPAR # e"
  obtain n1 where n1: "n = Suc (Suc n1)" using n by (cases n; cases "n - 1") auto
  obtain l' where l': "parsepipe (Suc n1) (LPAR # show_cmd l @ RPAR # SEMI # t) = Ok (l', SEMI # t)" "abs_cmd l' = l"
    using parse_paren_pipe [OF l, of "SEMI # t" "Suc n1"] n n1 by (auto simp: t_def peek_Cons)
  obtain r' where r': "parsepipe n1 t = Ok (r', e)" "abs_cmd r' = r"
    using parse_paren_pipe [OF rr, of e n1] n n1 e skip_white_at_end [OF e] by (auto simp: t_def peek_at_end)
  have rl: "parseline (Suc n1) t = Ok (r', e)" by (rule parseline_end [OF r'(1) e])
  have "skip_white t = t" by (simp add: t_def)
  from parseline_semi [OF l'(1) this rl]
  have "parseline n (LPAR # show_cmd l @ RPAR # SEMI # t) = Ok (Listcmd l' r', e)" unfolding n1 .
  then show "\<exists>c'. parseline n (show_cmd (SList l r) @ e) = Ok (c', e) \<and> abs_cmd c' = SList l r"
    using l'(2) r'(2) by (auto simp del: parseline.simps simp: t_def)
qed

lemma parses_back:
  assumes c: "parses c" "valid_cmd c"
  shows "parses (SBack c)"
  unfolding parses_def
proof (intro allI impI)
  fix n and e :: pos
  assume e: "at_end e" and n: "4 * length (show_cmd (SBack c) @ e) + 4 \<le> n"
  obtain n1 where n1: "n = Suc n1" using n by (cases n) auto
  obtain c' where c': "parsepipe n1 (LPAR # show_cmd c @ RPAR # AMP # e) = Ok (c', AMP # e)" "abs_cmd c' = c"
    using parse_paren_pipe [OF c, of "AMP # e" n1] n n1 by (auto simp: peek_Cons)
  have b1: "parse_backs (Backcmd c') e = (Backcmd c', e)"
    using e by (subst parse_backs.simps) (simp add: peek_at_end)
  have "parse_backs c' (AMP # e) = (Backcmd c', e)"
    by (subst parse_backs.simps) (simp add: peek_Cons gettoken_symbol skip_white_at_end [OF e] b1)
  then have "parseline n (LPAR # show_cmd c @ RPAR # AMP # e) = Ok (Backcmd c', e)"
    using c' n1 e by (simp add: peek_at_end)
  then show "\<exists>c'. parseline n (show_cmd (SBack c) @ e) = Ok (c', e) \<and> abs_cmd c' = SBack c"
    using c'(2) by auto
qed

lemma valid_parses: "valid_cmd c \<Longrightarrow> parses c"
  by (induction c) (auto intro: parses_exec parses_redir parses_pipe parses_list parses_back)

text \<open>C27: printing and parsing are inverse.  Every command tree (words of ordinary characters, at most nine to a command), printed with parentheses around its parts, is parsed back to the same tree: pipelines, lists, background commands, redirections and their file names, and the words in order.\<close>

theorem parse_show_roundtrip:
  assumes "valid_cmd c"
  shows "\<exists>c' b. parsecmd (show_cmd c) = Ok (c', b) \<and> abs_cmd c' = c"
proof -
  have "at_end []" by (simp add: at_end_def)
  then obtain c' where "parseline (4 * length (show_cmd c) + 4) (show_cmd c) = Ok (c', [])" "abs_cmd c' = c"
    using valid_parses [OF assms] unfolding parses_def by fastforce
  then show ?thesis by (simp add: parsecmd_def)
qed

text \<open>\<open>(ls a )|((wc )>f)\<close>\<close>

theorem parse_show_roundtrip_witness:
  "\<exists>c' b. parsecmd (show_cmd (SPipe (SExec [[108, 115], [97]]) (SRedir (SExec [[119, 99]]) [102] True))) = Ok (c', b) \<and>
     abs_cmd c' = SPipe (SExec [[108, 115], [97]]) (SRedir (SExec [[119, 99]]) [102] True)"
  by (rule parse_show_roundtrip) (simp add: is_word_def whitespace_def symbols_def)

end
