(* ===== verification/Shell_Run.thy ===== *)
theory Shell_Run
  imports Shell
begin

text \<open>
  Running commands: \<open>runcmd\<close> and \<open>main\<close> of \<open>sh.c\<close>, over the descriptor table of the process.

  A descriptor is open on an object: a file, or an end of a pipe, named by the place in the command where the
  pipe was made.  What a process does is a term of type \<open>run\<close>: the system calls that start and await other
  processes (waiting, it holds the descriptors it has), and how it ends.  The kernel's answers are the argument \<open>env\<close>: which object \<open>open\<close> finds under a
  name and whether \<open>fork\<close> (at a place of the command) and \<open>exec\<close> succeed.
\<close>

section \<open>Descriptors\<close>

datatype 'o obj = File 'o | Pipe_read "nat list" | Pipe_write "nat list"

type_synonym 'o fds = "nat \<Rightarrow> 'o obj option"

abbreviation (input) NOFILE :: nat where "NOFILE \<equiv> 16"

record 'o shenv =
  opens :: "u8 list \<Rightarrow> u32 \<Rightarrow> 'o option"
  forks :: "nat list \<Rightarrow> bool"
  execs :: "u8 list list \<Rightarrow> bool"
  chdirs :: "u8 list \<Rightarrow> bool"

definition fd_close :: "nat \<Rightarrow> 'o fds \<Rightarrow> 'o fds" where
  "fd_close fd t = t(fd := None)"

text \<open>\<open>fdalloc\<close>: the lowest free descriptor.\<close>

definition fd_alloc :: "'o obj \<Rightarrow> 'o fds \<Rightarrow> (nat \<times> 'o fds) option" where
  "fd_alloc x t = map_option (\<lambda>fd. (fd, t(fd \<mapsto> x))) (find (\<lambda>fd. t fd = None) [0..<NOFILE])"

definition fd_open :: "'o shenv \<Rightarrow> u8 list \<Rightarrow> u32 \<Rightarrow> 'o fds \<Rightarrow> (nat \<times> 'o fds) option" where
  "fd_open env path mode t = Option.bind (opens env path mode) (\<lambda>f. fd_alloc (File f) t)"

definition fd_dup :: "nat \<Rightarrow> 'o fds \<Rightarrow> 'o fds" where
  "fd_dup fd t = (case t fd of None \<Rightarrow> t | Some x \<Rightarrow> (case fd_alloc x t of None \<Rightarrow> t | Some (_, t) \<Rightarrow> t))"

definition fd_pipe :: "nat list \<Rightarrow> 'o fds \<Rightarrow> (nat \<times> nat \<times> 'o fds) option" where
  "fd_pipe name t =
     Option.bind (fd_alloc (Pipe_read name) t) (\<lambda>(p0, t).
     Option.bind (fd_alloc (Pipe_write name) t) (\<lambda>(p1, t). Some (p0, p1, t)))"

section \<open>runcmd\<close>

datatype 'o run =
    Exits
  | Says string "u8 list"
  | Image "u8 list list" "'o fds"
  | Fork "'o run" "'o run"
  | Wait "'o fds" "'o run"

text \<open>The string at a pointer into the line \<open>b\<close> (with its final zero).\<close>

definition string_at :: "u8 list \<Rightarrow> pos \<Rightarrow> u8 list" where
  "string_at b q = takeWhile (\<lambda>c. c \<noteq> 0) (drop (length b - 1 - length q) b)"

text \<open>\<open>fork1\<close>: the child does \<open>c\<close>, the parent goes on with \<open>p\<close>.\<close>

definition fork1 :: "'o shenv \<Rightarrow> nat list \<Rightarrow> 'o run \<Rightarrow> 'o run \<Rightarrow> 'o run" where
  "fork1 env place c p = (if forks env place then Fork c p else Says ''fork'' [])"

text \<open>What is left of a failed \<open>exec\<close> or \<open>open\<close> is a message and \<open>exit\<close>.\<close>

fun runcmd :: "'o shenv \<Rightarrow> u8 list \<Rightarrow> nat list \<Rightarrow> cmd \<Rightarrow> 'o fds \<Rightarrow> 'o run" where
  "runcmd env b pl (Execcmd args) t =
     (case args of [] \<Rightarrow> Exits
      | (q, eq) # _ \<Rightarrow>
          let argv = map (\<lambda>(q, eq). string_at b q) args
          in if execs env argv then Image argv t else Says ''exec failed'' (string_at b q))"
| "runcmd env b pl (Redircmd c q eq mode fd) t =
     (case fd_open env (string_at b q) mode (fd_close fd t) of
        None \<Rightarrow> Says ''open failed'' (string_at b q)
      | Some (_, t) \<Rightarrow> runcmd env b pl c t)"
| "runcmd env b pl (Listcmd l r) t =
     fork1 env pl (runcmd env b (0 # pl) l t) (Wait t (runcmd env b (1 # pl) r t))"
| "runcmd env b pl (Pipecmd l r) t =
     (case fd_pipe pl t of
        None \<Rightarrow> Says ''pipe'' []
      | Some (p0, p1, t) \<Rightarrow>
          fork1 env pl
            (runcmd env b (0 # pl) l (fd_close p1 (fd_close p0 (fd_dup p1 (fd_close 1 t)))))
            (fork1 env (2 # pl)
              (runcmd env b (1 # pl) r (fd_close p1 (fd_close p0 (fd_dup p0 (fd_close 0 t)))))
              (let t = fd_close p1 (fd_close p0 t) in Wait t (Wait t Exits))))"
| "runcmd env b pl (Backcmd c) t = fork1 env pl (runcmd env b (0 # pl) c t) Exits"

section \<open>main\<close>

text \<open>
  The descriptors at the start: the console is opened until a descriptor of 3 or more comes back, which is closed.
\<close>

fun ensure_fds :: "'o shenv \<Rightarrow> u8 list \<Rightarrow> nat \<Rightarrow> 'o fds \<Rightarrow> 'o fds" where
  "ensure_fds env console 0 t = t"
| "ensure_fds env console (Suc n) t =
     (case fd_open env console 2 t of
        None \<Rightarrow> t
      | Some (fd, t) \<Rightarrow> if fd \<ge> 3 then fd_close fd t else ensure_fds env console n t)"
text \<open>
  One line, read by \<open>gets\<close> into the buffer: the shell ends at an empty one, changes its own directory for \<open>cd\<close>
  (the path is the rest of the line without its last byte), and otherwise forks a process that parses and
  runs the line, and waits.
\<close>

datatype 'o action = Chdir "u8 list" | Cannot_cd "u8 list" | Runs "'o run" | Dies | Ends

definition run_line :: "'o shenv \<Rightarrow> 'o fds \<Rightarrow> u8 list \<Rightarrow> 'o action" where
  "run_line env t buf =
     (if buf = [] then Ends
      else if take 3 buf = [99, 100, 32] then
        (let path = drop 3 (butlast buf) in if chdirs env path then Chdir path else Cannot_cd path)
      else if \<not> forks env [] then Dies
      else Runs (case parsecmd buf of Ok (c, b) \<Rightarrow> runcmd env b [0] c t | Panic m \<Rightarrow> Says m [] | _ \<Rightarrow> Exits))"

fun sh_loop :: "'o shenv \<Rightarrow> 'o fds \<Rightarrow> u8 list list \<Rightarrow> 'o action list" where
  "sh_loop env t [] = [Ends]"
| "sh_loop env t (buf # bufs) =
     (let a = run_line env t buf in if a = Ends \<or> a = Dies then [a] else a # sh_loop env t bufs)"

definition sh_main :: "'o shenv \<Rightarrow> u8 list \<Rightarrow> 'o fds \<Rightarrow> u8 list list \<Rightarrow> 'o action list" where
  "sh_main env console t bufs = sh_loop env (ensure_fds env console NOFILE t) bufs"

lemma cd_chops_path: "chdirs env p \<Longrightarrow> run_line env t ([99, 100, 32] @ p @ [x]) = Chdir p"
  by (simp add: run_line_def butlast_append)

section \<open>The words of a parsed command\<close>

text \<open>
  A word is a nonempty stretch of ordinary characters that ends where the line ends or at another character.
\<close>

definition word_char :: "u8 \<Rightarrow> bool" where
  "word_char c \<longleftrightarrow> c \<noteq> 0 \<and> c \<notin> whitespace \<and> c \<notin> symbols"

definition word_span :: "u8 list \<Rightarrow> pos \<times> pos \<Rightarrow> bool" where
  "word_span s p \<longleftrightarrow> (\<exists>x w. s = x @ fst p \<and> fst p = w @ snd p \<and> (\<forall>c \<in> set w. word_char c)) \<and>
     (snd p = [] \<or> \<not> word_char (hd (snd p)))"

definition suffix_of :: "pos \<Rightarrow> pos \<Rightarrow> bool" where
  "suffix_of s t \<longleftrightarrow> (\<exists>x. t = x @ s)"

lemma suffix_of_refl [simp]: "suffix_of s s"
  by (simp add: suffix_of_def)

lemma suffix_of_trans: "suffix_of s t \<Longrightarrow> suffix_of t u \<Longrightarrow> suffix_of s u"
  by (auto simp: suffix_of_def)

lemma skip_white_suffix: "suffix_of (skip_white s) s"
  by (induction s) (auto simp: suffix_of_def intro: exI [of _ "_ # _"])

lemma skip_word_span:
  assumes "0 \<notin> set s"
  shows "\<exists>w. s = w @ skip_word s \<and> (\<forall>c \<in> set w. word_char c)" "skip_word s = [] \<or> \<not> word_char (hd (skip_word s))"
proof -
  show "\<exists>w. s = w @ skip_word s \<and> (\<forall>c \<in> set w. word_char c)"
    using assms
  proof (induction s)
    case (Cons c s)
    then obtain w where w: "s = w @ skip_word s" "\<forall>c \<in> set w. word_char c" by auto
    show ?case
    proof (cases "word_char c")
      case True
      then have "c # s = (c # w) @ skip_word (c # s)" using w(1) by (simp add: word_char_def)
      then show ?thesis using w(2) True by (intro exI [of _ "c # w"]) simp
    next
      case False
      then have "skip_word (c # s) = c # s" using Cons.prems by (auto simp: word_char_def)
      then show ?thesis by simp
    qed
  qed simp
  show "skip_word s = [] \<or> \<not> word_char (hd (skip_word s))"
    by (induction s) (auto simp: word_char_def)
qed

lemma suffix_nonzero: "suffix_of s t \<Longrightarrow> 0 \<notin> set t \<Longrightarrow> 0 \<notin> set s"
  by (auto simp: suffix_of_def)

lemma peek_suffix: "peek ps toks = (b, s) \<Longrightarrow> suffix_of s ps"
  using skip_white_suffix [of ps] by (auto simp: peek_def Let_def)

lemma gettoken_suffix: "gettoken ps = (tok, q, eq, s) \<Longrightarrow> 0 \<notin> set ps \<Longrightarrow> suffix_of s ps"
proof -
  assume g: "gettoken ps = (tok, q, eq, s)" and z: "0 \<notin> set ps"
  have n: "0 \<notin> set (skip_white ps)" using suffix_nonzero [OF skip_white_suffix z] .
  have "suffix_of (snd (token p)) p" if "0 \<notin> set p" for p
  proof (cases p)
    case (Cons c r)
    show ?thesis
      using skip_word_span(1) [of p] that
      by (cases r) (auto simp: Cons suffix_of_def intro: exI [of _ "[_]"] exI [of _ "[_, _]"])
  qed simp
  from this [OF n] have "suffix_of eq (skip_white ps)" "s = skip_white eq"
    using g by (auto simp: gettoken_def Let_def split: prod.splits)
  then show ?thesis using skip_white_suffix suffix_of_trans by metis
qed

lemma gettoken_span:
  assumes "gettoken ps = (97, q, eq, s)" "0 \<notin> set ps" "suffix_of ps line"
  shows "word_span line (q, eq)"
proof -
  have q: "q = skip_white ps" and t: "token q = (97, eq)"
    using assms(1) by (auto simp: gettoken_def Let_def split: prod.splits)
  have "suffix_of q line" using skip_white_suffix assms(3) suffix_of_trans unfolding q by blast
  moreover have "eq = skip_word q" using t by (cases q) (auto split: if_splits)
  moreover have "0 \<notin> set q" using suffix_nonzero [OF skip_white_suffix assms(2)] unfolding q .
  ultimately show ?thesis using skip_word_span [of q] by (auto simp: word_span_def suffix_of_def)
qed


fun spans :: "cmd \<Rightarrow> (pos \<times> pos) set" where
  "spans (Execcmd args) = set args"
| "spans (Redircmd c q eq mode fd) = insert (q, eq) (spans c)"
| "spans (Pipecmd l r) = spans l \<union> spans r"
| "spans (Listcmd l r) = spans l \<union> spans r"
| "spans (Backcmd c) = spans c"

text \<open>The descriptor of a redirection goes with its mode.\<close>

definition out_mode :: u32 where "out_mode = 0x1 OR 0x200"

lemma redir_of_eq: "redir_of tok q eq = (if tok = LT then (q, eq, 0, 0) else (q, eq, out_mode, 1))"
  by (simp only: redir_of_def out_mode_def)

fun redirs_ok :: "cmd \<Rightarrow> bool" where
  "redirs_ok (Execcmd args) \<longleftrightarrow> True"
| "redirs_ok (Redircmd c q eq mode fd) \<longleftrightarrow> (mode = 0 \<and> fd = 0 \<or> mode = out_mode \<and> fd = 1) \<and> redirs_ok c"
| "redirs_ok (Pipecmd l r) \<longleftrightarrow> redirs_ok l \<and> redirs_ok r"
| "redirs_ok (Listcmd l r) \<longleftrightarrow> redirs_ok l \<and> redirs_ok r"
| "redirs_ok (Backcmd c) \<longleftrightarrow> redirs_ok c"

definition cmd_ok :: "u8 list \<Rightarrow> cmd \<Rightarrow> bool" where
  "cmd_ok line c \<longleftrightarrow> (\<forall>p \<in> spans c. word_span line p) \<and> redirs_ok c"

fun redir_ok :: "u8 list \<Rightarrow> redir \<Rightarrow> bool" where
  "redir_ok line (q, eq, mode, fd) \<longleftrightarrow> word_span line (q, eq) \<and> (mode = 0 \<and> fd = 0 \<or> mode = out_mode \<and> fd = 1)"

lemma redirect_ok: "cmd_ok line c \<Longrightarrow> \<forall>r \<in> set rs. redir_ok line r \<Longrightarrow> cmd_ok line (redirect c rs)"
proof (induction c rs rule: redirect.induct)
  case (2 c q eq mode fd rs)
  have "redir_ok line (q, eq, mode, fd)" using 2(3) by (meson list.set_intros(1))
  then have "cmd_ok line (Redircmd c q eq mode fd)" using 2(2) by (simp only: cmd_ok_def spans.simps redirs_ok.simps redir_ok.simps) blast
  moreover have "\<forall>r \<in> set rs. redir_ok line r" using 2(3) by (meson list.set_intros(2))
  ultimately have "cmd_ok line (redirect (Redircmd c q eq mode fd) rs)" by (rule 2(1))
  then show ?case by (simp only: redirect.simps)
qed simp

text \<open>A pointer into the line.\<close>

definition inside :: "u8 list \<Rightarrow> pos \<Rightarrow> bool" where
  "inside line ps \<longleftrightarrow> suffix_of ps line \<and> 0 \<notin> set line"

lemma inside_nonzero: "inside line ps \<Longrightarrow> 0 \<notin> set ps"
  by (auto simp: inside_def dest: suffix_nonzero)

lemma inside_peek: "peek ps toks = (b, s) \<Longrightarrow> inside line ps \<Longrightarrow> inside line s"
  by (auto simp: inside_def dest: peek_suffix intro: suffix_of_trans)

lemma inside_gettoken:
  assumes "gettoken ps = (tok, q, eq, s)" "inside line ps"
  shows "inside line s" "tok = 97 \<Longrightarrow> word_span line (q, eq)"
proof -
  note z = inside_nonzero [OF assms(2)]
  show "inside line s"
    using assms(2) gettoken_suffix [OF assms(1) z] suffix_of_trans by (auto simp: inside_def)
  show "tok = 97 \<Longrightarrow> word_span line (q, eq)"
    using gettoken_span [OF _ z] assms by (auto simp: inside_def)
qed

lemma parseredirs_ok:
  "parseredirs ps = Ok (rs, s') \<Longrightarrow> inside line ps \<Longrightarrow> (\<forall>r \<in> set rs. redir_ok line r) \<and> inside line s'"
proof (induction ps arbitrary: rs rule: parseredirs.induct)
  case (1 ps)
  obtain b s where p: "peek ps {LT, GT} = (b, s)" by fastforce
  note i = inside_peek [OF p 1(3)]
  show ?case
  proof (cases b)
    case False
    then show ?thesis using 1(2) p i by (subst (asm) parseredirs.simps) simp
  next
    case True
    obtain t1 q1 e1 s1 t2 q2 e2 s2 where g: "gettoken s = (t1, q1, e1, s1)" "gettoken s1 = (t2, q2, e2, s2)"
      by (metis prod_cases4)
    then obtain rs2 where r: "t2 = 97" "parseredirs s2 = Ok (rs2, s')" and rs: "rs = redir_of t1 q2 e2 # rs2"
      using 1(2) p True by (subst (asm) parseredirs.simps) (auto simp: outcome_simps split: if_splits)
    note i1 = inside_gettoken(1) [OF g(1) i] and i2 = inside_gettoken [OF g(2) inside_gettoken(1) [OF g(1) i]]
    have "redir_ok line (redir_of t1 q2 e2)" using i2(2) r(1) by (simp add: redir_of_eq)
    moreover have "(\<forall>r \<in> set rs2. redir_ok line r) \<and> inside line s'"
      using 1(1) [OF p [symmetric]] True g r i2(1) by simp
    ultimately show ?thesis by (simp add: rs)
  qed
qed

definition words_ok :: "u8 list \<Rightarrow> (pos \<times> pos) list \<Rightarrow> redir list \<Rightarrow> bool" where
  "words_ok line args rs \<longleftrightarrow> (\<forall>p \<in> set args. word_span line p) \<and> (\<forall>r \<in> set rs. redir_ok line r)"

lemma parse_args_ok:
  "parse_args args rs ps = Ok (args', rs', s') \<Longrightarrow> inside line ps \<Longrightarrow> words_ok line args rs \<Longrightarrow>
   words_ok line args' rs' \<and> inside line s'"
proof (induction args rs ps arbitrary: args' rs' rule: parse_args.induct)
  case (1 args rs ps)
  obtain b s where p: "peek ps {BAR, RPAR, AMP, SEMI} = (b, s)" by fastforce
  note i = inside_peek [OF p 1(3)]
  obtain tok q e s1 where g: "gettoken s = (tok, q, e, s1)" by (metis prod_cases4)
  note i1 = inside_gettoken [OF g i]
  show ?case
  proof (cases "b \<or> tok = 0")
    case True
    then have "args' = args \<and> rs' = rs \<and> (s' = s \<or> s' = s1)"
      using 1(2) p g by (subst (asm) parse_args.simps) (auto split: if_splits)
    then show ?thesis using 1(4) i i1(1) by auto
  next
    case False
    then obtain rs2 s2 where r: "tok = 97" "\<not> MAXARGS \<le> length (args @ [(q, e)])" "parseredirs s1 = Ok (rs2, s2)"
      "parse_args (args @ [(q, e)]) (rs @ rs2) s2 = Ok (args', rs', s')"
      using 1(2) p g by (subst (asm) parse_args.simps) (auto simp: outcome_simps split: if_splits)
    note pr = parseredirs_ok [OF r(3) i1(1)]
    have w: "words_ok line (args @ [(q, e)]) (rs @ rs2)"
      using i1(2) [OF r(1)] pr 1(4) unfolding words_ok_def by (simp add: ball_Un)
    then show ?thesis using 1(1) p g False r pr by simp
  qed
qed

lemma parse_backs_ok: "parse_backs c ps = (c', s') \<Longrightarrow> inside line ps \<Longrightarrow> cmd_ok line c \<Longrightarrow> cmd_ok line c' \<and> inside line s'"
proof (induction c ps rule: parse_backs.induct)
  case (1 c ps)
  obtain b s where p: "peek ps {AMP} = (b, s)" by fastforce
  obtain tok q e s1 where g: "gettoken s = (tok, q, e, s1)" by (metis prod_cases4)
  note i = inside_peek [OF p 1(3)]
  show ?case
  proof (cases b)
    case True
    have "cmd_ok line (Backcmd c)" using 1(4) by (simp add: cmd_ok_def)
    have "parse_backs (Backcmd c) s1 = (c', s')" using 1(2) p g True by (subst (asm) parse_backs.simps) simp
    then show ?thesis using 1(1) p g True inside_gettoken(1) [OF g i] \<open>cmd_ok line (Backcmd c)\<close> by simp
  next
    case False
    then show ?thesis using 1(2,4) p i by (subst (asm) parse_backs.simps) simp
  qed
qed


text \<open>A parsing routine that returns leaves a good command and a pointer into the line.\<close>

definition yields :: "u8 list \<Rightarrow> (cmd \<times> pos) outcome \<Rightarrow> bool" where
  "yields line m \<longleftrightarrow> (\<forall>c s. m = Ok (c, s) \<longrightarrow> cmd_ok line c \<and> inside line s)"

lemma yieldsI: "(\<And>c s. m = Ok (c, s) \<Longrightarrow> cmd_ok line c \<and> inside line s) \<Longrightarrow> yields line m"
  by (simp add: yields_def)

lemma yieldsD: "yields line m \<Longrightarrow> m = Ok (c, s) \<Longrightarrow> cmd_ok line c" "yields line m \<Longrightarrow> m = Ok (c, s) \<Longrightarrow> inside line s"
  by (simp_all add: yields_def)

lemma yields_line:
  assumes ih: "\<And>ps. inside line ps \<Longrightarrow> yields line (parseline n ps)" "\<And>ps. inside line ps \<Longrightarrow> yields line (parsepipe n ps)"
    and i: "inside line ps"
  shows "yields line (parseline (Suc n) ps)"
proof (rule yieldsI)
  fix c s
  assume h: "parseline (Suc n) ps = Ok (c, s)"
  obtain c1 s1 where a1: "parsepipe n ps = Ok (c1, s1)" using h by (auto simp: outcome_simps)
  obtain c2 s2 where a2: "parse_backs c1 s1 = (c2, s2)" by fastforce
  obtain b s3 where a3: "peek s2 {SEMI} = (b, s3)" by fastforce
  obtain tok q e s4 where g: "gettoken s3 = (tok, q, e, s4)" by (metis prod_cases4)
  have 2: "cmd_ok line c2 \<and> inside line s2" using parse_backs_ok [OF a2] yieldsD [OF ih(2) [OF i] a1] by blast
  have 3: "inside line s3" using inside_peek [OF a3] 2 by blast
  show "cmd_ok line c \<and> inside line s"
  proof (cases b)
    case True
    then obtain r where r: "parseline n s4 = Ok (r, s)" "c = Listcmd c2 r"
      using h a1 a2 a3 g by (auto simp: outcome_simps)
    have "cmd_ok line r \<and> inside line s" using yieldsD [OF ih(1) [OF inside_gettoken(1) [OF g 3]] r(1)] by blast
    then show ?thesis using 2 r(2) by (auto simp: cmd_ok_def)
  next
    case False
    then show ?thesis using h a1 a2 a3 2 3 by simp
  qed
qed

lemma yields_pipe:
  assumes ih: "\<And>ps. inside line ps \<Longrightarrow> yields line (parsepipe n ps)" "\<And>ps. inside line ps \<Longrightarrow> yields line (parseexec n ps)"
    and i: "inside line ps"
  shows "yields line (parsepipe (Suc n) ps)"
proof (rule yieldsI)
  fix c s
  assume h: "parsepipe (Suc n) ps = Ok (c, s)"
  obtain c1 s1 where a1: "parseexec n ps = Ok (c1, s1)" using h by (auto simp: outcome_simps)
  obtain b s2 where a2: "peek s1 {BAR} = (b, s2)" by fastforce
  obtain tok q e s3 where g: "gettoken s2 = (tok, q, e, s3)" by (metis prod_cases4)
  note 1 = yieldsD [OF ih(2) [OF i] a1]
  note 2 = inside_peek [OF a2 1(2)]
  show "cmd_ok line c \<and> inside line s"
  proof (cases b)
    case True
    then obtain r where r: "parsepipe n s3 = Ok (r, s)" "c = Pipecmd c1 r"
      using h a1 a2 g by (auto simp: outcome_simps)
    have "cmd_ok line r \<and> inside line s" using yieldsD [OF ih(1) [OF inside_gettoken(1) [OF g 2]] r(1)] by blast
    then show ?thesis using 1(1) r(2) by (auto simp: cmd_ok_def)
  next
    case False
    then show ?thesis using h a1 a2 1 2 by simp
  qed
qed

lemma yields_exec:
  assumes ih: "\<And>ps. inside line ps \<Longrightarrow> yields line (parseblock n ps)" and i: "inside line ps"
  shows "yields line (parseexec (Suc n) ps)"
proof (rule yieldsI)
  fix c s
  assume h: "parseexec (Suc n) ps = Ok (c, s)"
  obtain b s1 where a: "peek ps {LPAR} = (b, s1)" by fastforce
  note 1 = inside_peek [OF a i]
  show "cmd_ok line c \<and> inside line s"
  proof (cases b)
    case True
    then show ?thesis using h a yieldsD [OF ih [OF 1]] by simp
  next
    case False
    then obtain rs s2 args rs' where r: "parseredirs s1 = Ok (rs, s2)" "parse_args [] rs s2 = Ok (args, rs', s)"
      and c: "c = redirect (Execcmd args) rs'"
      using h a by (auto simp: outcome_simps)
    note 2 = parseredirs_ok [OF r(1) 1]
    have "words_ok line [] rs" using 2 by (simp add: words_ok_def)
    then have 3: "words_ok line args rs' \<and> inside line s" using parse_args_ok [OF r(2)] 2 by blast
    then have "cmd_ok line (Execcmd args)" by (simp add: cmd_ok_def words_ok_def)
    then show ?thesis unfolding c using 3 redirect_ok unfolding words_ok_def by blast
  qed
qed

lemma yields_block:
  assumes ih: "\<And>ps. inside line ps \<Longrightarrow> yields line (parseline n ps)" and i: "inside line ps"
  shows "yields line (parseblock (Suc n) ps)"
proof (rule yieldsI)
  fix c s
  assume h: "parseblock (Suc n) ps = Ok (c, s)"
  obtain b s1 where a: "peek ps {LPAR} = (b, s1)" by fastforce
  obtain tok q e s2 where g: "gettoken s1 = (tok, q, e, s2)" by (metis prod_cases4)
  obtain c1 s3 where b: "b" "parseline n s2 = Ok (c1, s3)"
    using h a g by (auto simp: outcome_simps split: if_splits)
  obtain b' s4 where p: "peek s3 {RPAR} = (b', s4)" by fastforce
  obtain tok' q' e' s5 where g': "gettoken s4 = (tok', q', e', s5)" by (metis prod_cases4)
  obtain rs where r: "parseredirs s5 = Ok (rs, s)" and c: "c = redirect c1 rs"
    using h a g b p g' by (auto simp: outcome_simps split: if_splits)
  note 1 = yieldsD [OF ih [OF inside_gettoken(1) [OF g inside_peek [OF a i]]] b(2)]
  note 2 = parseredirs_ok [OF r inside_gettoken(1) [OF g' inside_peek [OF p 1(2)]]]
  show "cmd_ok line c \<and> inside line s" unfolding c using redirect_ok [OF 1(1)] 2 by blast
qed

lemma parse_yields:
  "inside line ps \<Longrightarrow> yields line (parseline n ps) \<and> yields line (parsepipe n ps) \<and> yields line (parseexec n ps) \<and>
     yields line (parseblock n ps)"
proof (induction n arbitrary: ps)
  case (Suc n)
  then show ?case by (intro conjI yields_line yields_pipe yields_exec yields_block) blast+
qed (simp add: yields_def)

lemma parsecmd_ok:
  assumes "parsecmd s = Ok (c, b)" "0 \<notin> set s"
  shows "cmd_ok s c" "b = nulterminate c (s @ [0])"
proof -
  obtain c0 r where r0: "parseline (4 * length s + 4) s = Ok (c0, r)"
    using assms(1) by (auto simp: parsecmd_def outcome_simps)
  obtain x r' where "peek r {} = (x, r')" by fastforce
  then have r: "parseline (4 * length s + 4) s = Ok (c, r)" and b: "b = nulterminate c (s @ [0])"
    using assms(1) r0 by (auto simp: parsecmd_def split: if_splits)
  show "b = nulterminate c (s @ [0])" by (rule b)
  have "inside s s" using assms(2) by (simp add: inside_def)
  then show "cmd_ok s c" using parse_yields yieldsD(1) [OF _ r] by blast
qed

section \<open>The strings of a parsed command\<close>

definition ends :: "u8 list \<Rightarrow> cmd \<Rightarrow> nat set" where
  "ends s c = (\<lambda>(q, e). length s - length e) ` spans c"

lemma zero_at_nth:
  "length b = length s + 1 \<Longrightarrow> length e \<le> length s \<Longrightarrow> k \<le> length s \<Longrightarrow>
   length (zero_at e b) = length s + 1 \<and> zero_at e b ! k = (if k = length s - length e then 0 else b ! k)"
  by (auto simp: zero_at_def nth_list_update)

lemma span_length: "word_span s (q, e) \<Longrightarrow> length e \<le> length q \<and> length q \<le> length s"
  by (auto simp: word_span_def)

lemma fold_zero_nth:
  "length b = length s + 1 \<Longrightarrow> \<forall>p \<in> set args. word_span s p \<Longrightarrow>
   length (fold (\<lambda>(q, e). zero_at e) args b) = length s + 1 \<and>
   (\<forall>k \<le> length s. fold (\<lambda>(q, e). zero_at e) args b ! k =
      (if k \<in> (\<lambda>(q, e). length s - length e) ` set args then 0 else b ! k))"
proof (induction args arbitrary: b)
  case (Cons p args)
  obtain q e where p: "p = (q, e)" by (cases p)
  have l: "length e \<le> length s" using Cons.prems(2) span_length [of s q e] p by auto
  note z = zero_at_nth [OF Cons.prems(1) l]
  have "length (zero_at e b) = length s + 1" using z [of 0] by simp
  from Cons.IH [OF this] show ?case using Cons.prems(2) z by (auto simp: p)
qed simp

lemma nulterminate_nth:
  "length b = length s + 1 \<Longrightarrow> \<forall>p \<in> spans c. word_span s p \<Longrightarrow>
   length (nulterminate c b) = length s + 1 \<and>
   (\<forall>k \<le> length s. nulterminate c b ! k = (if k \<in> ends s c then 0 else b ! k))"
proof (induction c arbitrary: b)
  case (Execcmd args)
  then show ?case using fold_zero_nth [of b s args] by (simp add: ends_def)
next
  case (Redircmd c q e mode fd)
  have l: "length e \<le> length s" using Redircmd.prems(2) span_length [of s q e] by auto
  have ih: "length (nulterminate c b) = length s + 1"
    "\<forall>k \<le> length s. nulterminate c b ! k = (if k \<in> ends s c then 0 else b ! k)"
    using Redircmd by auto
  show ?case using zero_at_nth [OF ih(1) l] ih(2) by (auto simp: ends_def)
qed (auto simp: ends_def image_Un)


lemma span_words:
  assumes "word_span s (q, e)"
  obtains x w where "s = x @ w @ e" "q = w @ e" "\<forall>c \<in> set w. word_char c" "text_of q e = w"
  using assms by (auto simp: word_span_def text_of_def)

lemma strings_ok:
  assumes p: "parsecmd s = Ok (c, b)" "0 \<notin> set s" and qe: "(q, e) \<in> spans c"
  shows "string_at b q = text_of q e"
proof -
  note ok = parsecmd_ok [OF p]
  have sp: "\<forall>p \<in> spans c. word_span s p" using ok(1) by (simp add: cmd_ok_def)
  have n: "length b = length s + 1" "\<And>k. k \<le> length s \<Longrightarrow> b ! k = (if k \<in> ends s c then 0 else (s @ [0]) ! k)"
    using nulterminate_nth [of "s @ [0]" s c] sp ok(2) by simp_all
  have qs: "word_span s (q, e)" using sp qe by blast
  from span_words [OF qs] obtain x w
    where s: "s = x @ w @ e" and q: "q = w @ e" and w: "\<forall>c \<in> set w. word_char c" and tx: "text_of q e = w" .
  have i: "length b - 1 - length q = length x" using n(1) s q by simp
  have end_: "length x + length w \<in> ends s c"
    unfolding ends_def by (rule image_eqI [OF _ qe]) (simp add: s)
  have in_: "b ! (length x + k) = w ! k \<and> w ! k \<noteq> 0" if k: "k < length w" for k
  proof -
    have wc: "word_char (w ! k)" using w k by simp
    have sk: "s ! (length x + k) = w ! k" using k by (simp add: s nth_append)
    have "length x + k \<notin> ends s c"
    proof
      assume "length x + k \<in> ends s c"
      then obtain q' e' where e': "(q', e') \<in> spans c" "length x + k = length s - length e'" by (auto simp: ends_def)
      from sp e'(1) have sp': "word_span s (q', e')" by blast
      then obtain x' w' where s': "s = x' @ w' @ e'" and h: "e' = [] \<or> \<not> word_char (hd e')"
        by (auto simp: word_span_def)
      have l: "length x + k < length s" using k by (simp add: s)
      then have ne: "e' \<noteq> []" using e'(2) by auto
      have "s ! (length x + k) = hd e'"
        unfolding e'(2) using s' ne by (simp add: nth_append hd_conv_nth)
      then show False using h ne wc sk by simp
    qed
    then have "b ! (length x + k) = s ! (length x + k)" using n(2) [of "length x + k"] k by (simp add: s nth_append)
    then show ?thesis using sk wc by (simp add: word_char_def)
  qed
  have z: "b ! (length x + length w) = 0" using n(2) [of "length x + length w"] end_ by (simp add: s)
  have "takeWhile (\<lambda>c. c \<noteq> 0) (drop (length x) b) = take (length w) (drop (length x) b)"
    by (rule takeWhile_eq_take_P_nth) (use in_ z n(1) s in simp_all)
  also have "\<dots> = w"
    by (rule nth_equalityI) (use in_ n(1) s in simp_all)
  finally show ?thesis unfolding string_at_def i tx .
qed

section \<open>What a command line does\<close>

text \<open>
  The meaning of a command, apart from descriptors: what is the input, the output and the error output of
  each of its programs, and how the processes are forked and awaited.
\<close>

definition std :: "'o obj \<Rightarrow> 'o obj \<Rightarrow> 'o obj \<Rightarrow> 'o fds" where
  "std i out e = [0 \<mapsto> i, 1 \<mapsto> out, 2 \<mapsto> e]"

fun wire :: "'o shenv \<Rightarrow> nat list \<Rightarrow> scmd \<Rightarrow> 'o obj \<Rightarrow> 'o obj \<Rightarrow> 'o obj \<Rightarrow> 'o run" where
  "wire env pl (SExec ws) i out e =
     (if ws = [] then Exits else if execs env ws then Image ws (std i out e) else Says ''exec failed'' (hd ws))"
| "wire env pl (SRedir c f o') i out e =
     (case opens env f (if o' then out_mode else 0) of
        None \<Rightarrow> Says ''open failed'' f
      | Some x \<Rightarrow> if o' then wire env pl c i (File x) e else wire env pl c (File x) out e)"
| "wire env pl (SList l r) i out e = fork1 env pl (wire env (0 # pl) l i out e) (Wait (std i out e) (wire env (1 # pl) r i out e))"
| "wire env pl (SPipe l r) i out e =
     fork1 env pl (wire env (0 # pl) l i (Pipe_write pl) e)
       (fork1 env (2 # pl) (wire env (1 # pl) r (Pipe_read pl) out e) (Wait (std i out e) (Wait (std i out e) Exits)))"
| "wire env pl (SBack c) i out e = fork1 env pl (wire env (0 # pl) c i out e) Exits"

lemma find_std: "[0..<NOFILE] = [0, 1, 2, 3, 4] @ [5..<16]"
  by (simp add: upt_rec)

lemma reopen_std:
  "fd_alloc x (fd_close 0 (std i out e)) = Some (0, std x out e)"
  "fd_alloc x (fd_close 1 (std i out e)) = Some (1, std i x e)"
  unfolding fd_alloc_def find_std by (auto simp: fd_close_def std_def)

lemma pipe_std:
  "fd_pipe pl (std i out e) = Some (3, 4, (std i out e)(3 \<mapsto> Pipe_read pl, 4 \<mapsto> Pipe_write pl))"
  unfolding fd_pipe_def fd_alloc_def find_std by (simp add: std_def)

lemma pipe_left: "fd_close 4 (fd_close 3 (fd_dup 4 (fd_close 1 ((std i out e)(3 \<mapsto> Pipe_read pl, 4 \<mapsto> Pipe_write pl))))) =
    std i (Pipe_write pl) e"
  unfolding fd_dup_def fd_alloc_def find_std by (auto simp: fd_close_def std_def)

lemma pipe_right: "fd_close 4 (fd_close 3 (fd_dup 3 (fd_close 0 ((std i out e)(3 \<mapsto> Pipe_read pl, 4 \<mapsto> Pipe_write pl))))) =
    std (Pipe_read pl) out e"
  unfolding fd_dup_def fd_alloc_def find_std by (auto simp: fd_close_def std_def)

lemma pipe_parent: "fd_close 4 (fd_close 3 ((std i out e)(3 \<mapsto> Pipe_read pl, 4 \<mapsto> Pipe_write pl))) = std i out e"
  by (auto simp: fd_close_def std_def)

lemma runcmd_wire:
  assumes "\<forall>(q, e') \<in> spans c. string_at b q = text_of q e'" "redirs_ok c"
  shows "runcmd env b pl c (std i out e) = wire env pl (abs_cmd c) i out e"
  using assms
proof (induction c arbitrary: pl i out)
  case (Execcmd args)
  have m: "map (\<lambda>(q, e'). string_at b q) args = map (\<lambda>(q, e'). text_of q e') args"
    using Execcmd.prems(1) by (intro map_cong) auto
  show ?case
  proof (cases args)
    case (Cons p ps)
    obtain q e' where p: "p = (q, e')" by (cases p)
    have "string_at b q = text_of q e'" using Execcmd.prems(1) Cons p by auto
    then show ?thesis
      unfolding runcmd.simps abs_cmd.simps wire.simps m by (simp add: Cons p)
  qed simp
next
  case (Redircmd c q e' mode fd)
  have s: "string_at b q = text_of q e'" using Redircmd.prems(1) by simp
  have ih: "runcmd env b pl c (std i out e) = wire env pl (abs_cmd c) i out e" for i out
    using Redircmd by simp
  have "out_mode \<noteq> 0" by (simp add: out_mode_def)
  then show ?case
    using Redircmd.prems(2) s ih by (auto simp: fd_open_def reopen_std reopen_std [unfolded One_nat_def] split: option.splits Option.bind_splits)
next
  case (Pipecmd l r)
  then show ?case
    by (simp add: pipe_std pipe_left [simplified] pipe_right pipe_parent ball_Un Let_def)
qed (simp_all add: ball_Un)

section \<open>The descriptors of the shell\<close>

lemma fd_alloc_lowest:
  "fd_alloc x t = Some (fd, t') \<Longrightarrow> fd < NOFILE \<and> t fd = None \<and> (\<forall>j<fd. t j \<noteq> None) \<and> t' = t(fd \<mapsto> x)"
  by (auto simp: fd_alloc_def find_Some_iff)

lemma fd_alloc_full: "fd_alloc x t = None \<Longrightarrow> j < NOFILE \<Longrightarrow> t j \<noteq> None"
  by (auto simp: fd_alloc_def find_None_iff)

lemma ensure_fds_opens:
  "opens env console 2 = Some x \<Longrightarrow> card {j. j < 3 \<and> t j = None} < n \<Longrightarrow>
   ensure_fds env console n t = (\<lambda>j. if j < 3 \<and> t j = None then Some (File x) else t j)"
proof (induction n arbitrary: t)
  case (Suc n)
  show ?case
  proof (cases "fd_alloc (File x) t")
    case None
    then show ?thesis using fd_alloc_full [OF None] Suc.prems(1) by (auto simp: fd_open_def fun_eq_iff)
  next
    case (Some p)
    obtain fd t' where p: "p = (fd, t')" by (cases p)
    note a = fd_alloc_lowest [OF Some [unfolded p]]
    show ?thesis
    proof (cases "fd < 3")
      case True
      have "{j. j < 3 \<and> t' j = None} \<subset> {j. j < 3 \<and> t j = None}" using a True by auto
      from psubset_card_mono [OF _ this] have "card {j. j < 3 \<and> t' j = None} < n" using Suc.prems(2) by simp
      note ih = Suc.IH [OF Suc.prems(1) this]
      have "ensure_fds env console (Suc n) t = ensure_fds env console n t'"
        using Suc.prems(1) Some p True by (simp add: fd_open_def)
      then show ?thesis unfolding ih using a True by (auto simp: fun_eq_iff)
    next
      case False
      then have "\<And>j. j < 3 \<Longrightarrow> t j \<noteq> None" using a by auto
      then show ?thesis
        using Suc.prems(1) Some p a False by (auto simp: fd_open_def fd_close_def fun_eq_iff)
    qed
  qed
qed simp

lemma sh_main_fds:
  assumes "opens env console 2 = Some x"
  shows "sh_main env console t bufs = sh_loop env (\<lambda>j. if j < 3 \<and> t j = None then Some (File x) else t j) bufs"
proof -
  have "card {j. j < 3 \<and> t j = None} \<le> card {j::nat. j < 3}" by (rule card_mono) auto
  then show ?thesis unfolding sh_main_def using ensure_fds_opens [OF assms, of t NOFILE] by simp
qed

section \<open>The shell runs its line\<close>

text \<open>C11: The process that the shell forks for a line does what the parsed line means: every program it starts
  has its words as arguments (cut out of the line by \<open>nulterminate\<close>) and, whatever the pipes and redirections
  around it, exactly the three descriptors 0, 1 and 2, open on the input, the output and the error output that
  they prescribe; and the processes that wait hold no end of a pipe.\<close>

theorem shell_runs_line:
  assumes "parsecmd s = Ok (c, b)" "0 \<notin> set s"
  shows "runcmd env b pl c (std i out e) = wire env pl (abs_cmd c) i out e"
proof (rule runcmd_wire)
  show "\<forall>(q, e') \<in> spans c. string_at b q = text_of q e'" using strings_ok [OF assms] by blast
  show "redirs_ok c" using parsecmd_ok(1) [OF assms] by (simp add: cmd_ok_def)
qed

text \<open>\<open>a|b>c\<close>: the first program writes the pipe, the second reads it and writes the file.\<close>

definition env_ex :: "nat shenv" where
  "env_ex = \<lparr> opens = (\<lambda>f m. if f = [99] then Some 7 else None), forks = (\<lambda>_. True), execs = (\<lambda>_. True),
     chdirs = (\<lambda>_. True) \<rparr>"

theorem shell_runs_line_witness:
  "\<exists>c b. parsecmd [97, 124, 98, 62, 99] = Ok (c, b) \<and>
     runcmd env_ex b [] c (std (File 0) (File 1) (File 2)) =
       (let here = std (File 0) (File 1) (File 2) in
        Fork (Image [[97]] (std (File 0) (Pipe_write []) (File 2)))
          (Fork (Image [[98]] (std (Pipe_read []) (File 7) (File 2))) (Wait here (Wait here Exits))))"
proof -
  have p: "parsecmd [97, 124, 98, 62, 99] =
      Ok (Pipecmd (Execcmd [([97, 124, 98, 62, 99], [124, 98, 62, 99])])
        (Redircmd (Execcmd [([98, 62, 99], [62, 99])]) [99] [] out_mode 1), [97, 0, 98, 0, 99, 0])"
    by code_simp
  show ?thesis
    by (intro exI conjI, rule p, subst shell_runs_line [OF p])
      (simp_all add: env_ex_def fork1_def text_of_def out_mode_def Let_def)
qed

end
