(* ===== verification/Tools.thy ===== *)
theory Tools
  imports Printf Fs
begin

text \<open>
  The small programs of the user: \<open>wc.c\<close>, \<open>cat.c\<close>, \<open>echo.c\<close>, \<open>ls.c\<close>, \<open>rm.c\<close>, \<open>mkdir.c\<close>, \<open>ln.c\<close> and \<open>kill.c\<close>.

  The answers of the kernel are arguments: a file is the list of what its \<open>read\<close>s deliver, each at most as long as the
  buffer, \<open>None\<close> for an error, and nothing or the end of the list for the end of the file.  The result is the
  list of the writes, with their descriptors; a \<open>printf\<close> is one write.

  The lemmas show that \<open>wc\<close> counts what it should, however the reads cut the file.
\<close>

definition chars :: "string \<Rightarrow> u8 list" where
  "chars s = map (of_nat \<circ> of_char) s"

type_synonym reads = "u8 list option list"
type_synonym writes = "(nat \<times> u8 list) list"

section \<open>wc\<close>

record wcount =
  wc_l :: u32
  wc_w :: u32
  wc_c :: u32
  wc_inword :: bool

definition wc_white :: "u8 list" where
  "wc_white = [32, 13, 9, 10, 11]"

definition wc_byte :: "u8 \<Rightarrow> wcount \<Rightarrow> wcount" where
  "wc_byte b s =
     (let s = s\<lparr>wc_c := wc_c s + 1\<rparr>;
          s = (if b = 10 then s\<lparr>wc_l := wc_l s + 1\<rparr> else s)
      in if strchr (arr (wc_white @ [0])) b \<noteq> Some None then s\<lparr>wc_inword := False\<rparr>
         else if \<not> wc_inword s then s\<lparr>wc_w := wc_w s + 1, wc_inword := True\<rparr>
         else s)"

text \<open>The result tells whether the last \<open>read\<close> succeeded.\<close>

fun wc_loop :: "reads \<Rightarrow> wcount \<Rightarrow> bool \<times> wcount" where
  "wc_loop [] s = (True, s)"
| "wc_loop (None # rs) s = (False, s)"
| "wc_loop (Some bs # rs) s = (if bs = [] then (True, s) else wc_loop rs (fold wc_byte bs s))"

text \<open>The first component tells whether the program goes on.\<close>

definition wc :: "reads \<Rightarrow> u8 list \<Rightarrow> (bool \<times> writes) outcome" where
  "wc rs name =
     (let (good, s) = wc_loop rs \<lparr>wc_l = 0, wc_w = 0, wc_c = 0, wc_inword = False\<rparr> in
      if \<not> good then Ok (False, [(1, chars ''wc: read error'' @ [10])])
      else bnd (printf (\<lambda>_. name) (chars ''%d %d %d %s'' @ [10]) [wc_l s, wc_w s, wc_c s, 1])
        (\<lambda>out. Ok (True, [(1, out)])))"

text \<open>The loop of \<open>main\<close> over the files, which \<open>wc.c\<close> and \<open>cat.c\<close> share.\<close>

fun each_file :: "string \<Rightarrow> (reads \<Rightarrow> u8 list \<Rightarrow> (bool \<times> writes) outcome) \<Rightarrow> (u8 list \<Rightarrow> reads option) \<Rightarrow> u8 list list \<Rightarrow>
    writes outcome" where
  "each_file prog f opn [] = Ok []"
| "each_file prog f opn (a # as) =
     (case opn a of
        None \<Rightarrow> Ok [(1, chars prog @ chars '': cannot open '' @ a @ [10])]
      | Some rs \<Rightarrow>
          bnd (f rs a) (\<lambda>(continue, out).
          if continue then bnd (each_file prog f opn as) (\<lambda>out'. Ok (out @ out')) else Ok out))"

definition wc_main :: "(u8 list \<Rightarrow> reads option) \<Rightarrow> reads \<Rightarrow> u8 list list \<Rightarrow> writes outcome" where
  "wc_main opn stdin argv =
     (if length argv \<le> 1 then bnd (wc stdin []) (\<lambda>(_, out). Ok out)
      else each_file ''wc'' wc opn (drop 1 argv))"

section \<open>cat\<close>

text \<open>\<open>takes\<close>: how many bytes each \<open>write\<close> to descriptor 1 takes.\<close>

fun cat_loop :: "reads \<Rightarrow> nat list \<Rightarrow> bool \<times> nat list \<times> writes" where
  "cat_loop [] takes = (True, takes, [])"
| "cat_loop (None # rs) takes = (False, takes, [(1, chars ''cat: read error'' @ [10])])"
| "cat_loop (Some bs # rs) takes =
     (if bs = [] then (True, takes, [])
      else
        (let n = (case takes of [] \<Rightarrow> 0 | n # _ \<Rightarrow> min n (length bs)) in
         if n \<noteq> length bs then (False, drop 1 takes, [(1, take n bs), (1, chars ''cat: write error'' @ [10])])
         else let (good, takes, out) = cat_loop rs (drop 1 takes) in (good, takes, (1, bs) # out)))"

fun cat_files :: "(u8 list \<Rightarrow> reads option) \<Rightarrow> u8 list list \<Rightarrow> nat list \<Rightarrow> writes" where
  "cat_files opn [] takes = []"
| "cat_files opn (a # as) takes =
     (case opn a of
        None \<Rightarrow> [(1, chars ''cat: cannot open '' @ a @ [10])]
      | Some rs \<Rightarrow>
          (let (good, takes, out) = cat_loop rs takes in out @ (if good then cat_files opn as takes else [])))"

definition cat_main :: "(u8 list \<Rightarrow> reads option) \<Rightarrow> reads \<Rightarrow> u8 list list \<Rightarrow> nat list \<Rightarrow> writes" where
  "cat_main opn stdin argv takes =
     (if length argv \<le> 1 then snd (snd (cat_loop stdin takes)) else cat_files opn (drop 1 argv) takes)"

section \<open>echo\<close>

fun echo_args :: "u8 list list \<Rightarrow> writes" where
  "echo_args [] = []"
| "echo_args (a # as) = (1, a @ (if as \<noteq> [] then [32] else [10])) # echo_args as"

definition echo_main :: "u8 list list \<Rightarrow> writes" where
  "echo_main argv = echo_args (drop 1 argv)"

section \<open>ls\<close>

text \<open>The loop of \<open>fmtname\<close>: from position \<open>k\<close> back to the last slash; the result is the position behind it.\<close>

fun after_slash :: "u8 list \<Rightarrow> nat \<Rightarrow> nat" where
  "after_slash path k =
     (if (path @ [0]) ! k = 47 then Suc k else case k of 0 \<Rightarrow> 0 | Suc k \<Rightarrow> after_slash path k)"

declare after_slash.simps [simp del]

definition fmtname :: "u8 list \<Rightarrow> u8 list" where
  "fmtname path =
     (let p = drop (after_slash path (length path)) path in
      if length p \<ge> DIRSIZ then p else p @ replicate (DIRSIZ - length p) 32)"

text \<open>What \<open>ls\<close> asks of the kernel: \<open>open\<close> (with the reads of a directory), \<open>fstat\<close> of what was opened, \<open>stat\<close>.\<close>

record lsenv =
  ls_open :: "u8 list \<Rightarrow> reads option"
  ls_fstat :: "u8 list \<Rightarrow> stat option"
  ls_stat :: "u8 list \<Rightarrow> stat option"

definition ls_line :: "u8 list \<Rightarrow> stat \<Rightarrow> writes outcome" where
  "ls_line path st =
     bnd (printf (\<lambda>_. fmtname path) (chars ''%s %d %d %d'' @ [10]) [1, scast (st_type st), st_ino st, st_size st])
       (\<lambda>out. Ok [(1, out)])"

text \<open>The entries of the directory: an entry is two bytes of inode number and \<open>DIRSIZ\<close> bytes of name.\<close>

fun ls_entries :: "lsenv \<Rightarrow> u8 list \<Rightarrow> reads \<Rightarrow> writes outcome" where
  "ls_entries env path [] = Ok []"
| "ls_entries env path (None # rs) = Ok []"
| "ls_entries env path (Some de # rs) =
     (if length de \<noteq> DIRSIZ + 2 then Ok []
      else if word16 (de ! 0) (de ! 1) = 0 then ls_entries env path rs
      else
        (let buf = path @ [47] @ takeWhile (\<lambda>c. c \<noteq> 0) (drop 2 de) in
         bnd (case ls_stat env buf of
                None \<Rightarrow> Ok [(1, chars ''ls: cannot stat '' @ buf @ [10])]
              | Some st \<Rightarrow> ls_line buf st)
           (\<lambda>out. bnd (ls_entries env path rs) (\<lambda>out'. Ok (out @ out')))))"

definition ls :: "lsenv \<Rightarrow> u8 list \<Rightarrow> writes outcome" where
  "ls env path =
     (case ls_open env path of
        None \<Rightarrow> Ok [(2, chars ''ls: cannot open '' @ path @ [10])]
      | Some rs \<Rightarrow>
          (case ls_fstat env path of
             None \<Rightarrow> Ok [(2, chars ''ls: cannot stat '' @ path @ [10])]
           | Some st \<Rightarrow>
               if st_type st = T_FILE then ls_line path st
               else if st_type st = T_DIR then
                 (if length path + 1 + DIRSIZ + 1 > 512 then Ok [(1, chars ''ls: path too long'' @ [10])]
                  else ls_entries env path rs)
               else Ok []))"

fun ls_args :: "lsenv \<Rightarrow> u8 list list \<Rightarrow> writes outcome" where
  "ls_args env [] = Ok []"
| "ls_args env (a # as) = bnd (ls env a) (\<lambda>out. bnd (ls_args env as) (\<lambda>out'. Ok (out @ out')))"

definition ls_main :: "lsenv \<Rightarrow> u8 list list \<Rightarrow> writes outcome" where
  "ls_main env argv = (if length argv < 2 then ls env [46] else ls_args env (drop 1 argv))"

section \<open>rm, mkdir, ln, kill\<close>

text \<open>The system calls that are made, and the writes.  \<open>ok\<close> tells which of them succeed.\<close>

datatype tool_call = Unlink "u8 list" | Mkdir "u8 list" | Link "u8 list" "u8 list" | Kill u32

fun each_call :: "(u8 list \<Rightarrow> tool_call) \<Rightarrow> string \<Rightarrow> string \<Rightarrow> (tool_call \<Rightarrow> bool) \<Rightarrow> u8 list list \<Rightarrow> tool_call list \<times> writes" where
  "each_call call before after ok [] = ([], [])"
| "each_call call before after ok (a # as) =
     (if \<not> ok (call a) then ([call a], [(2, chars before @ a @ chars after @ [10])])
      else let (cs, out) = each_call call before after ok as in (call a # cs, out))"

definition rm_main :: "(tool_call \<Rightarrow> bool) \<Rightarrow> u8 list list \<Rightarrow> tool_call list \<times> writes" where
  "rm_main ok argv =
     (if length argv < 2 then ([], [(2, chars ''Usage: rm files...'' @ [10])])
      else each_call Unlink ''rm: '' '' failed to delete'' ok (drop 1 argv))"

definition mkdir_main :: "(tool_call \<Rightarrow> bool) \<Rightarrow> u8 list list \<Rightarrow> tool_call list \<times> writes" where
  "mkdir_main ok argv =
     (if length argv < 2 then ([], [(2, chars ''Usage: mkdir files...'' @ [10])])
      else each_call Mkdir ''mkdir: '' '' failed to create'' ok (drop 1 argv))"

definition ln_main :: "(tool_call \<Rightarrow> bool) \<Rightarrow> u8 list list \<Rightarrow> tool_call list \<times> writes" where
  "ln_main ok argv =
     (if length argv \<noteq> 3 then ([], [(2, chars ''Usage: ln old new'' @ [10])])
      else
        (let call = Link (argv ! 1) (argv ! 2) in
         ([call], if ok call then [] else [(2, chars ''link '' @ argv ! 1 @ [32] @ argv ! 2 @ chars '': failed'' @ [10])])))"

text \<open>An argument is a string with its final zero.\<close>

definition kill_main :: "u8 list list \<Rightarrow> (tool_call list \<times> writes) option" where
  "kill_main argv =
     (if length argv < 2 then Some ([], [(2, chars ''usage: kill pid...'' @ [10])])
      else
        (let pids = map (\<lambda>a. atoi (arr (a @ [0]))) (drop 1 argv) in
         if None \<in> set pids then None else Some (map (\<lambda>p. Kill (the p)) pids, [])))"

section \<open>What wc counts\<close>

definition white :: "u8 \<Rightarrow> bool" where
  "white b \<longleftrightarrow> b \<in> set wc_white"

text \<open>The words of a text, counted where they begin.\<close>

definition word_count :: "u8 list \<Rightarrow> nat" where
  "word_count t = card {k. k < length t \<and> \<not> white (t ! k) \<and> (k = 0 \<or> white (t ! (k - 1)))}"

definition wc_counts :: "u8 list \<Rightarrow> wcount \<Rightarrow> bool" where
  "wc_counts t s \<longleftrightarrow> wc_l s = of_nat (count_list t 10) \<and> wc_w s = of_nat (word_count t) \<and> wc_c s = of_nat (length t) \<and>
     wc_inword s = (t \<noteq> [] \<and> \<not> white (last t))"

lemma wc_strchr: "strchr (arr (wc_white @ [0])) b \<noteq> Some None \<longleftrightarrow> white b"
  by (auto simp: strchr_def strchr_from.simps arr_def wc_white_def white_def)

lemma word_count_snoc: "word_count (t @ [b]) = word_count t + (if \<not> white b \<and> (t = [] \<or> white (last t)) then 1 else 0)"
proof -
  let ?S = "\<lambda>t. {k. k < length t \<and> \<not> white (t ! k) \<and> (k = 0 \<or> white (t ! (k - 1)))}"
  have "?S (t @ [b]) = ?S t \<union> (if \<not> white b \<and> (t = [] \<or> white (last t)) then {length t} else {})"
    by (cases "t = []") (auto simp: nth_append last_conv_nth less_Suc_eq split: if_splits)
  moreover have "finite (?S t)" "length t \<notin> ?S t" by auto
  ultimately show ?thesis by (simp add: word_count_def)
qed

lemma wc_byte_counts: "wc_counts t s \<Longrightarrow> wc_counts (t @ [b]) (wc_byte b s)"
  by (auto simp: wc_counts_def wc_byte_def wc_strchr word_count_snoc Let_def)

lemma wc_bytes_count: "wc_counts t s \<Longrightarrow> wc_counts (t @ bs) (fold wc_byte bs s)"
proof (induction bs arbitrary: t s)
  case (Cons b bs)
  then show ?case using wc_byte_counts [of t s b] Cons.IH [of "t @ [b]" "wc_byte b s"] by simp
qed simp

lemma wc_loop_counts:
  "[] \<notin> set parts \<Longrightarrow> wc_counts t s \<Longrightarrow>
   \<exists>s'. wc_loop (map Some parts) s = (True, s') \<and> wc_counts (t @ concat parts) s'"
proof (induction parts arbitrary: t s)
  case (Cons p ps)
  then show ?case using wc_bytes_count [of t s p] Cons.IH [of "t @ p" "fold wc_byte p s"] by auto
qed simp

lemma word_count_le: "word_count t \<le> length t"
  unfolding word_count_def by (rule order_trans [OF card_mono [of "{..<length t}"]]) auto

lemma u_printint_nat: "n < 2 ^ 31 \<Longrightarrow> u_printint (of_nat n) 10 True = Ok (decimal n)"
proof -
  assume n: "n < 2 ^ 31"
  then have "sint (of_nat n :: u32) = int n" by (simp add: sint_u32_cases uint_nat unat_of_nat)
  then show ?thesis by (simp add: printint_decimal_eq magnitude_def)
qed

text \<open>C30: \<open>wc\<close> prints the numbers of newlines, words and bytes of its input in decimal, whatever the pieces in which the
  reads deliver it; a word is a longest stretch of characters other than space, tab, newline, carriage return
  and vertical tab.\<close>

theorem wc_prints_counts:
  assumes "[] \<notin> set parts" "concat parts = t" "length t < 2 ^ 31"
  shows "wc (map Some parts) name =
     Ok (True, [(1, decimal (count_list t 10) @ [32] @ decimal (word_count t) @ [32] @ decimal (length t) @ [32] @ name @ [10])])"
proof -
  have "wc_counts [] \<lparr>wc_l = 0, wc_w = 0, wc_c = 0, wc_inword = False\<rparr>"
    by (simp add: wc_counts_def word_count_def)
  from wc_loop_counts [OF assms(1) this] obtain s
    where s: "wc_loop (map Some parts) \<lparr>wc_l = 0, wc_w = 0, wc_c = 0, wc_inword = False\<rparr> = (True, s)" "wc_counts t s"
    using assms(2) by auto
  have n: "count_list t 10 < 2 ^ 31" "word_count t < 2 ^ 31"
    using assms(3) count_le_length [of t 10] word_count_le [of t] by linarith+
  have f: "chars ''%d %d %d %s'' @ [10] = [37, 100, 32, 37, 100, 32, 37, 100, 32, 37, 115, 10]" by (simp add: chars_def)
  have w: "wc_l s = of_nat (count_list t 10)" "wc_w s = of_nat (word_count t)" "wc_c s = of_nat (length t)"
    using s(2) by (simp_all add: wc_counts_def)
  have "printf (\<lambda>_. name) (chars ''%d %d %d %s'' @ [10]) [wc_l s, wc_w s, wc_c s, 1] =
      Ok (decimal (count_list t 10) @ [32] @ decimal (word_count t) @ [32] @ decimal (length t) @ [32] @ name @ [10])"
    unfolding f w printf_def by (simp add: u_printint_nat [OF n(1)] u_printint_nat [OF n(2)] u_printint_nat [OF assms(3)] arg_str_def)
  then show ?thesis unfolding wc_def s(1) by simp
qed

text \<open>\<open>abc d\<close> and a newline, cut inside a word.\<close>

theorem wc_prints_counts_witness:
  "wc (map Some [[97, 98], [99, 32, 100, 10]]) [102] =
     Ok (True, [(1, decimal 1 @ [32] @ decimal 2 @ [32] @ decimal 6 @ [32] @ [102] @ [10])])"
proof -
  let ?t = "[97, 98, 99, 32, 100, 10] :: u8 list"
  have "word_count (((((([] @ [97]) @ [98]) @ [99]) @ [32]) @ [100]) @ [10]) = 2"
    unfolding word_count_snoc by (simp add: white_def wc_white_def) (simp add: word_count_def)
  then have n: "word_count ?t = 2" "count_list ?t 10 = 1" "length ?t = 6" by simp_all
  have h: "[] \<notin> set [[97, 98], [99, 32, 100, 10 :: u8]]" "concat [[97, 98], [99, 32, 100, 10]] = ?t" "length ?t < 2 ^ 31"
    by simp_all
  show ?thesis using wc_prints_counts [OF h, of "[102]"] unfolding n .
qed

section \<open>cat\<close>

lemma cat_copies:
  "[] \<notin> set parts \<Longrightarrow> takes = map length parts @ rest \<Longrightarrow>
   cat_loop (map Some parts) takes = (True, rest, map (Pair 1) parts)"
  by (induction parts arbitrary: takes) auto

section \<open>The name that ls prints\<close>

lemma after_slash_last: "47 \<notin> set n \<Longrightarrow> k \<le> length n \<Longrightarrow> after_slash (d @ 47 # n) (length d + 1 + k) = length d + 1"
proof (induction k)
  case 0
  have "after_slash (d @ 47 # n) (length d) = length d + 1" by (subst after_slash.simps) (simp add: nth_append)
  moreover have "((d @ 47 # n) @ [0]) ! (length d + 1) \<noteq> 47" using 0 by (cases n) (auto simp: nth_append)
  ultimately show ?case by (subst after_slash.simps) simp
next
  case (Suc k)
  have "Suc k = length n \<or> Suc k < length n \<and> n ! Suc k \<noteq> 47" using Suc.prems by (metis le_neq_implies_less nth_mem)
  then have "(n @ [0]) ! Suc k \<noteq> 47" by (auto simp: nth_append)
  then have "((d @ 47 # n) @ [0]) ! (length d + 1 + Suc k) \<noteq> 47" by (simp add: nth_append)
  then show ?case using Suc by (subst after_slash.simps) simp
qed

lemma fmtname_pads: "47 \<notin> set n \<Longrightarrow> fmtname (d @ 47 # n) = n @ replicate (DIRSIZ - length n) 32"
  using after_slash_last [of n "length n" d] by (simp add: fmtname_def Let_def)

end
