(* ===== verification/Umalloc.thy ===== *)
theory Umalloc
  imports Mmu
begin

text \<open>
  The memory allocator of the user library, \<open>umalloc.c\<close>.

  The free blocks are a circular list through their headers, in the order of their addresses, that
  starts at the empty block \<open>base\<close>; a header is the pointer to the next block and the size of the
  block in headers of 8 bytes.  The memory is the process's: bytes by address.  \<open>u_freep\<close> is
  \<open>freep\<close>, \<open>u_brk\<close> the size of the process, where \<open>sbrk\<close> adds memory.  The loops over the
  list need not end when a program has written over a header: they are partial functions, and the
  theorems show that they return.
\<close>

section \<open>The heap and sbrk\<close>

record uheap =
  u_mem :: mem
  u_freep :: u32
  u_brk :: u32

text \<open>
  \<open>sbrk\<close> as the process sees it (\<open>sys_sbrk\<close>, \<open>growproc\<close>): \<open>grows\<close> tells whether the kernel finds the
  pages it needs, which it fills with zeros.
\<close>

definition usbrk :: "bool \<Rightarrow> u32 \<Rightarrow> uheap \<Rightarrow> u32 \<times> uheap" where
  "usbrk grows n h =
     (let sz = u_brk h in
      if sint n > 0 then
        (if sz + n \<ge> KERNBASE then (- 1, h)
         else if sz + n < sz then (sz, h)
         else if \<not> grows then (- 1, h)
         else (sz, h\<lparr>u_mem := (\<lambda>x. if PGROUNDUP sz \<le> x \<and> x < PGROUNDUP (sz + n) then 0 else u_mem h x), u_brk := sz + n\<rparr>))
      else if sint n < 0 then
        (if sz + n \<ge> sz then (sz, h) else if sz + n = 0 then (- 1, h) else (sz, h\<lparr>u_brk := sz + n\<rparr>))
      else (sz, h))"

abbreviation (input) ptr_of :: "mem \<Rightarrow> u32 \<Rightarrow> u32" where "ptr_of m p \<equiv> load32 m p"
abbreviation (input) size_of :: "mem \<Rightarrow> u32 \<Rightarrow> u32" where "size_of m p \<equiv> load32 m (p + 4)"

section \<open>free\<close>

text \<open>The search for the place of the block \<open>bp\<close>.\<close>

partial_function (option) free_scan :: "mem \<Rightarrow> u32 \<Rightarrow> u32 \<Rightarrow> u32 option" where
  "free_scan m bp p =
     (if bp > p \<and> bp < ptr_of m p then Some p
      else if p \<ge> ptr_of m p \<and> (bp > p \<or> bp < ptr_of m p) then Some p
      else free_scan m bp (ptr_of m p))"

text \<open>The block \<open>bp\<close> goes behind \<open>p\<close>; it is joined to its neighbours where they touch.\<close>

definition join_next :: "u32 \<Rightarrow> u32 \<Rightarrow> mem \<Rightarrow> mem" where
  "join_next bp p m =
     (if bp + 8 * size_of m bp = ptr_of m p then
        (let m = store32 (bp + 4) (size_of m bp + size_of m (ptr_of m p)) m
         in store32 bp (ptr_of m (ptr_of m p)) m)
      else store32 bp (ptr_of m p) m)"

definition join_prev :: "u32 \<Rightarrow> u32 \<Rightarrow> mem \<Rightarrow> mem" where
  "join_prev bp p m =
     (if p + 8 * size_of m p = bp then
        (let m = store32 (p + 4) (size_of m p + size_of m bp) m in store32 p (ptr_of m bp) m)
      else store32 p bp m)"

definition ufree :: "u32 \<Rightarrow> uheap \<Rightarrow> uheap option" where
  "ufree ap h =
     (let bp = ap - 8 in
      Option.bind (free_scan (u_mem h) bp (u_freep h)) (\<lambda>p.
      Some (h\<lparr>u_mem := join_prev bp p (join_next bp p (u_mem h)), u_freep := p\<rparr>)))"

section \<open>malloc\<close>

definition morecore :: "(u32 \<Rightarrow> uheap \<Rightarrow> u32 \<times> uheap) \<Rightarrow> u32 \<Rightarrow> uheap \<Rightarrow> (u32 \<times> uheap) option" where
  "morecore sbrk nu h =
     (let nu = (if nu < 4096 then 4096 else nu); (p, h) = sbrk (nu * 8) h in
      if p = - 1 then Some (0, h)
      else Option.bind (ufree (p + 8) (h\<lparr>u_mem := store32 (p + 4) nu (u_mem h)\<rparr>)) (\<lambda>h. Some (u_freep h, h)))"

text \<open>The block \<open>p\<close> is large enough: it is taken whole, or its tail end is.\<close>

definition take_block :: "u32 \<Rightarrow> u32 \<Rightarrow> u32 \<Rightarrow> uheap \<Rightarrow> u32 \<times> uheap" where
  "take_block nunits prevp p h =
     (let m = u_mem h in
      if size_of m p = nunits then (p + 8, h\<lparr>u_mem := store32 prevp (ptr_of m p) m, u_freep := prevp\<rparr>)
      else
        (let m = store32 (p + 4) (size_of m p - nunits) m;
             p = p + 8 * size_of m p
         in (p + 8, h\<lparr>u_mem := store32 (p + 4) nunits m, u_freep := prevp\<rparr>)))"

partial_function (option) malloc_loop ::
  "(u32 \<Rightarrow> uheap \<Rightarrow> u32 \<times> uheap) \<Rightarrow> u32 \<Rightarrow> u32 \<Rightarrow> u32 \<Rightarrow> uheap \<Rightarrow> (u32 \<times> uheap) option" where
  "malloc_loop sbrk nunits prevp p h =
     (if size_of (u_mem h) p \<ge> nunits then Some (take_block nunits prevp p h)
      else if p = u_freep h then
        Option.bind (morecore sbrk nunits h) (\<lambda>(p, h).
        if p = 0 then Some (0, h) else malloc_loop sbrk nunits p (ptr_of (u_mem h) p) h)
      else malloc_loop sbrk nunits p (ptr_of (u_mem h) p) h)"

definition units :: "u32 \<Rightarrow> u32" where
  "units nbytes = (nbytes + 8 - 1) div 8 + 1"

definition init_base :: "u32 \<Rightarrow> uheap \<Rightarrow> uheap" where
  "init_base base h =
     (if u_freep h = 0 then h\<lparr>u_mem := store32 (base + 4) 0 (store32 base base (u_mem h)), u_freep := base\<rparr> else h)"

definition malloc :: "(u32 \<Rightarrow> uheap \<Rightarrow> u32 \<times> uheap) \<Rightarrow> u32 \<Rightarrow> u32 \<Rightarrow> uheap \<Rightarrow> (u32 \<times> uheap) option" where
  "malloc sbrk base nbytes h =
     (let h = init_base base h
      in malloc_loop sbrk (units nbytes) (u_freep h) (ptr_of (u_mem h) (u_freep h)) h)"

section \<open>The list of free blocks\<close>

type_synonym block = "nat \<times> nat"

text \<open>The blocks lie in order between \<open>lo\<close> and \<open>hi\<close>, with gaps between them.\<close>

fun blocks_ok :: "nat \<Rightarrow> block list \<Rightarrow> nat \<Rightarrow> bool" where
  "blocks_ok lo [] hi \<longleftrightarrow> True"
| "blocks_ok lo ((a, n) # bs) hi \<longleftrightarrow> lo < a \<and> 0 < n \<and> a + 8 * n \<le> hi \<and> blocks_ok (a + 8 * n) bs hi"

definition nxt :: "block list \<Rightarrow> nat \<Rightarrow> nat" where
  "nxt bs z = (case bs of [] \<Rightarrow> z | (a, n) # _ \<Rightarrow> a)"

definition header :: "mem \<Rightarrow> nat \<Rightarrow> nat \<Rightarrow> nat \<Rightarrow> bool" where
  "header m a q n \<longleftrightarrow> ptr_of m (of_nat a) = of_nat q \<and> size_of m (of_nat a) = of_nat n"

text \<open>The headers of the blocks are linked in this order, the last one to \<open>z\<close>.\<close>

fun seg :: "mem \<Rightarrow> block list \<Rightarrow> nat \<Rightarrow> bool" where
  "seg m [] z \<longleftrightarrow> True"
| "seg m ((a, n) # bs) z \<longleftrightarrow> header m a (nxt bs z) n \<and> seg m bs z"

definition bytes_of :: "block \<Rightarrow> nat set" where
  "bytes_of b = {fst b ..< fst b + 8 * snd b}"

definition cover :: "block list \<Rightarrow> nat set" where
  "cover bs = (\<Union>b \<in> set bs. bytes_of b)"

fun end_of :: "nat \<Rightarrow> block list \<Rightarrow> nat" where
  "end_of lo [] = lo"
| "end_of lo ((a, n) # bs) = end_of (a + 8 * n) bs"

lemma nxt_simps [simp]: "nxt [] z = z" "nxt ((a, n) # bs) z = a" "nxt (x # bs) z = fst x"
  by (auto simp: nxt_def split: prod.splits)

lemma nxt_append: "nxt (xs @ ys) z = nxt xs (nxt ys z)"
  by (cases xs) auto

lemma seg_append: "seg m (xs @ ys) z \<longleftrightarrow> seg m xs (nxt ys z) \<and> seg m ys z"
  by (induction xs) (auto simp: nxt_append)

lemma blocks_ok_append: "blocks_ok lo (xs @ ys) hi \<longleftrightarrow> blocks_ok lo xs hi \<and> blocks_ok (end_of lo xs) ys hi"
  by (induction xs arbitrary: lo) auto

lemma end_of_append [simp]: "end_of lo (xs @ ys) = end_of (end_of lo xs) ys"
  by (induction xs arbitrary: lo) auto

lemma cover_simps [simp]: "cover [] = {}" "cover (b # bs) = bytes_of b \<union> cover bs" "cover (xs @ ys) = cover xs \<union> cover ys"
  by (auto simp: cover_def)

lemma fst_image: "a \<in> fst ` S \<Longrightarrow> \<exists>n. (a, n) \<in> S"
  by force

lemma bytes_of_add: "bytes_of (p, s + n) = bytes_of (p, s) \<union> bytes_of (p + 8 * s, n)"
  by (auto simp: bytes_of_def)

lemma end_of_mono: "blocks_ok lo bs hi \<Longrightarrow> lo \<le> end_of lo bs"
proof (induction bs arbitrary: lo)
  case (Cons b bs)
  obtain a n where b: "b = (a, n)" by fastforce
  then have "a + 8 * n \<le> end_of (a + 8 * n) bs" using Cons by simp
  then show ?case using Cons.prems b by simp
qed simp

lemma end_of_hi: "blocks_ok lo bs hi \<Longrightarrow> lo \<le> hi \<Longrightarrow> end_of lo bs \<le> hi"
  by (induction bs arbitrary: lo) auto

lemma blocks_ok_mem:
  assumes "blocks_ok lo bs hi" "(a, n) \<in> set bs"
  shows "lo < a \<and> 0 < n \<and> a + 8 * n \<le> hi \<and> a + 8 * n \<le> end_of lo bs"
  using assms
proof (induction bs arbitrary: lo)
  case (Cons b bs)
  obtain a' n' where b: "b = (a', n')" by fastforce
  show ?case
  proof (cases "(a, n) = b")
    case True
    then show ?thesis using Cons.prems b end_of_mono [of "a' + 8 * n'" bs hi] by simp
  next
    case False
    then show ?thesis using Cons.IH [of "a' + 8 * n'"] Cons.prems b by auto
  qed
qed simp

lemma blocks_ok_lo: "blocks_ok lo bs hi \<Longrightarrow> lo' \<le> lo \<Longrightarrow> blocks_ok lo' bs hi"
  by (cases bs) auto

lemma blocks_ok_hi: "blocks_ok lo bs hi \<Longrightarrow> hi \<le> hi' \<Longrightarrow> blocks_ok lo bs hi'"
  by (induction bs arbitrary: lo) auto

lemma cover_bounds: "blocks_ok lo bs hi \<Longrightarrow> cover bs \<subseteq> {lo<..<end_of lo bs}"
  using blocks_ok_mem by (fastforce simp: cover_def bytes_of_def)

section \<open>Memory at natural addresses\<close>

abbreviation (input) M32 :: nat where "M32 \<equiv> 4294967296"

lemma of_nat_less_u32: "a < M32 \<Longrightarrow> b < M32 \<Longrightarrow> (of_nat a :: u32) < of_nat b \<longleftrightarrow> a < b"
  by (simp add: word_less_nat_alt unat_of_nat_u32)

lemma of_nat_le_u32: "a < M32 \<Longrightarrow> b < M32 \<Longrightarrow> (of_nat a :: u32) \<le> of_nat b \<longleftrightarrow> a \<le> b"
  by (simp add: word_le_nat_alt unat_of_nat_u32)

lemma in_range_of_nat:
  assumes "a + n \<le> M32" "x < M32" "a < M32"
  shows "in_range (of_nat x) (of_nat a) n \<longleftrightarrow> a \<le> x \<and> x < a + n"
proof (cases "a \<le> x")
  case True
  then have "unat (of_nat x - of_nat a :: u32) = x - a"
    using assms by (simp add: unat_sub_le of_nat_le_u32 unat_of_nat_u32)
  then show ?thesis using True by (auto simp: in_range_def)
next
  case False
  then have "unat (of_nat x - of_nat a :: u32) = M32 - a + x"
  proof -
    have e: "(of_nat x - of_nat a :: u32) = of_nat (M32 - a + x)"
    proof -
      have "(of_nat (M32 - a + x) + of_nat a :: u32) = of_nat (M32 + x)"
        using assms(3) by (simp only: of_nat_add [symmetric]) simp
      also have "\<dots> = of_nat x" by (simp only: of_nat_add) simp
      finally show ?thesis by (simp add: algebra_simps)
    qed
    show ?thesis unfolding e by (rule unat_of_nat_u32) (use False assms(3) in arith)
  qed
  then show ?thesis using False assms by (auto simp: in_range_def)
qed

text \<open>Two memories agree on a set of addresses.\<close>

definition agree :: "nat set \<Rightarrow> mem \<Rightarrow> mem \<Rightarrow> bool" where
  "agree A m m' \<longleftrightarrow> (\<forall>x \<in> A. x < M32 \<longrightarrow> m (of_nat x) = m' (of_nat x))"

lemma agree_refl [simp]: "agree A m m"
  by (simp add: agree_def)

lemma agree_trans: "agree A m m' \<Longrightarrow> agree A m' m'' \<Longrightarrow> agree A m m''"
  by (simp add: agree_def)

lemma agree_mono: "agree A m m' \<Longrightarrow> B \<subseteq> A \<Longrightarrow> agree B m m'"
  by (auto simp: agree_def)

lemma agree_store:
  assumes "a + 4 \<le> M32" "a < M32" "\<And>x. x \<in> A \<Longrightarrow> x < a \<or> a + 4 \<le> x"
  shows "agree A m (store32 (of_nat a) v m)"
  unfolding agree_def
proof (intro ballI impI)
  fix x
  assume "x \<in> A" "x < M32"
  then have "\<not> in_range (of_nat x) (of_nat a) 4" using assms in_range_of_nat [of a 4 x] by force
  then show "m (of_nat x) = store32 (of_nat a) v m (of_nat x)" by (simp add: store32_other)
qed

lemma agree_load:
  assumes "agree A m m'" "{a ..< a + 4} \<subseteq> A" "a + 4 \<le> M32"
  shows "load32 m (of_nat a) = load32 m' (of_nat a)"
proof (rule load32_cong)
  fix x :: u32
  assume x: "in_range x (of_nat a) 4"
  have a: "a < M32" using assms(3) by simp
  have "x = of_nat (unat x)" by simp
  then have "a \<le> unat x \<and> unat x < a + 4" using in_range_of_nat [OF assms(3) unat_u32_bound a, of x] x by simp
  then have "unat x \<in> A" using assms(2) by auto
  then show "m x = m' x" using assms(1) unfolding agree_def by (metis of_nat_unat ucast_id unat_u32_bound)
qed

lemma load_outside:
  assumes "agree (- {b ..< b + 8}) m m'" "a + 4 \<le> b \<or> b + 8 \<le> a" "a + 4 \<le> M32"
  shows "load32 m' (of_nat a) = load32 m (of_nat a)"
  by (rule agree_load [OF assms(1) _ assms(3), symmetric]) (use assms(2) in auto)

lemma header_agree:
  assumes "header m a q n" "agree A m m'" "{a ..< a + 8} \<subseteq> A" "a + 8 \<le> M32"
  shows "header m' a q n"
proof -
  have "load32 m (of_nat a) = load32 m' (of_nat a)" by (rule agree_load [OF assms(2)]) (use assms(3,4) in auto)
  moreover have "load32 m (of_nat (a + 4)) = load32 m' (of_nat (a + 4))"
    by (rule agree_load [OF assms(2)]) (use assms(3,4) in auto)
  ultimately show ?thesis using assms(1) by (simp add: header_def)
qed

lemma seg_agree:
  assumes "seg m bs z" "agree A m m'" "\<And>a n. (a, n) \<in> set bs \<Longrightarrow> {a ..< a + 8} \<subseteq> A \<and> a + 8 \<le> M32"
  shows "seg m' bs z"
  using assms
proof (induction bs)
  case (Cons b bs)
  obtain a n where b: "b = (a, n)" by fastforce
  have a: "{a ..< a + 8} \<subseteq> A" "a + 8 \<le> M32" using Cons.prems(3) [of a n] b by simp_all
  have "header m a (nxt bs z) n" "seg m bs z" using Cons.prems(1) b by simp_all
  moreover have "seg m' bs z"
  proof (rule Cons.IH [OF \<open>seg m bs z\<close> Cons.prems(2)])
    fix c k
    assume "(c, k) \<in> set bs"
    then show "{c ..< c + 8} \<subseteq> A \<and> c + 8 \<le> M32" using Cons.prems(3) [of c k] by simp
  qed
  ultimately show ?case using header_agree [OF _ Cons.prems(2) a] b by simp
qed simp

text \<open>A header is written.\<close>

definition put_header :: "nat \<Rightarrow> nat \<Rightarrow> nat \<Rightarrow> mem \<Rightarrow> mem" where
  "put_header a q n m = store32 (of_nat a) (of_nat q) (store32 (of_nat a + 4) (of_nat n) m)"

lemma load32_other_half [simp]:
  "load32 (store32 (a + 4) v m) a = load32 m a" "load32 (store32 a v m) (a + 4) = load32 m (a + 4)"
  by (simp_all add: load32_def store32_def)

lemma header_put [simp]: "header (put_header a q n m) a q n"
  by (simp add: header_def put_header_def)

lemma agree_put:
  assumes "a + 8 \<le> M32" "\<And>x. x \<in> A \<Longrightarrow> x < a \<or> a + 8 \<le> x"
  shows "agree A m (put_header a q n m)"
proof -
  have "agree A m (store32 (of_nat (a + 4)) (of_nat n) m)"
    by (rule agree_store) (use assms in fastforce)+
  moreover have "agree A (store32 (of_nat a + 4) (of_nat n) m) (put_header a q n m)"
    unfolding put_header_def by (rule agree_store) (use assms in fastforce)+
  ultimately show ?thesis by (simp add: agree_def)
qed

section \<open>The ring\<close>

definition apart :: "block \<Rightarrow> block \<Rightarrow> bool" where
  "apart x y \<longleftrightarrow> fst x + 8 \<le> fst y \<and> fst x + 8 * snd x \<le> fst y"

lemma blocks_ok_apart: "blocks_ok lo bs hi \<Longrightarrow> sorted_wrt apart bs"
proof (induction bs arbitrary: lo)
  case (Cons x bs)
  obtain a n where x: "x = (a, n)" by fastforce
  then have b: "blocks_ok (a + 8 * n) bs hi" "0 < n" using Cons.prems by simp_all
  have "apart x y" if "y \<in> set bs" for y
    using blocks_ok_mem [OF b(1), of "fst y" "snd y"] that b(2) x by (auto simp: apart_def)
  then show ?case using Cons.IH [OF b(1)] by simp
qed simp

text \<open>The free list: \<open>b\<close> is \<open>base\<close>, \<open>hi\<close> bounds the memory of the process.\<close>

definition ring :: "mem \<Rightarrow> nat \<Rightarrow> block list \<Rightarrow> nat \<Rightarrow> bool" where
  "ring m b bs hi \<longleftrightarrow> 0 < b \<and> b + 8 \<le> hi \<and> hi < M32 \<and> blocks_ok (b + 7) bs hi \<and> seg m ((b, 0) # bs) b"

lemma ring_apart: "ring m b bs hi \<Longrightarrow> sorted_wrt apart ((b, 0) # bs)"
  using blocks_ok_apart blocks_ok_mem by (fastforce simp: ring_def apart_def)

lemma ring_mem: "ring m b bs hi \<Longrightarrow> (a, n) \<in> set ((b, 0) # bs) \<Longrightarrow> b \<le> a \<and> a + 8 \<le> hi \<and> a + 8 * n \<le> hi \<and> a < M32"
  using blocks_ok_mem [of "b + 7" bs hi a n] by (auto simp: ring_def)

section \<open>The search in free\<close>

lemma scan_forward:
  assumes "seg m (vs @ [(p, s)]) q" "sorted_wrt apart (vs @ [(p, s)])"
    and "p < bp" "bp < q \<or> q \<le> p" "bp < M32" "q < M32"
  shows "free_scan m (of_nat bp) (of_nat (nxt vs p)) = Some (of_nat p)"
  using assms
proof (induction vs)
  case Nil
  then show ?case
    by (subst free_scan.simps) (auto simp: header_def of_nat_less_u32 of_nat_le_u32)
next
  case (Cons v vs)
  obtain a n where v: "v = (a, n)" by fastforce
  define x where "x = nxt vs p"
  have h: "ptr_of m (of_nat a) = of_nat x" using Cons.prems(1) v by (simp add: header_def x_def nxt_append)
  have "x \<le> p" "a < x"
    using Cons.prems(2) v by (cases vs; auto simp: x_def apart_def)+
  then have "free_scan m (of_nat bp) (of_nat a) = free_scan m (of_nat bp) (of_nat x)"
    using Cons.prems(3,5) by (subst free_scan.simps) (auto simp: h of_nat_less_u32 of_nat_le_u32)
  then show ?case using Cons v by (simp add: x_def)
qed

lemma scan_wrap:
  assumes "seg m (w # ws) b" "sorted_wrt apart (w # ws)" "\<forall>x \<in> set (w # ws). bp < fst x \<and> fst x < M32" "b < bp"
  shows "free_scan m (of_nat bp) (of_nat (fst w)) = free_scan m (of_nat bp) (of_nat b)"
  using assms
proof (induction ws arbitrary: w)
  case Nil
  then show ?case
    by (cases w, subst free_scan.simps) (auto simp: header_def of_nat_less_u32 of_nat_le_u32)
next
  case (Cons v ws)
  have h: "ptr_of m (of_nat (fst w)) = of_nat (fst v)" using Cons.prems(1) by (cases w; cases v) (simp add: header_def)
  have "bp < fst w" "fst w < fst v" "fst v < M32" "fst w < M32" using Cons.prems(2,3) by (auto simp: apart_def)
  then have "free_scan m (of_nat bp) (of_nat (fst w)) = free_scan m (of_nat bp) (of_nat (fst v))"
    by (subst free_scan.simps) (simp add: h of_nat_less_u32 of_nat_le_u32)
  moreover have "free_scan m (of_nat bp) (of_nat (fst v)) = free_scan m (of_nat bp) (of_nat b)"
    using Cons.IH [of v] Cons.prems by (cases w) simp
  ultimately show ?case by simp
qed

lemma sorted_wrt_split: "sorted_wrt P (xs @ ys) \<Longrightarrow> sorted_wrt P xs \<and> sorted_wrt P ys"
  by (simp add: sorted_wrt_append)

text \<open>The search ends at the block before the place of \<open>bp\<close>, wherever it starts.\<close>

lemma free_scan_finds:
  assumes r: "ring m b bs hi" and e: "(b, 0) # bs = us @ (p, s) # ys"
    and f: "f \<in> fst ` set ((b, 0) # bs)" and p: "p < bp" "\<forall>x \<in> set ys. bp < fst x" "bp < M32"
  shows "free_scan m (of_nat bp) (of_nat f) = Some (of_nat p)"
proof -
  have sg: "seg m (us @ (p, s) # ys) b" using r e by (simp add: ring_def)
  have so: "sorted_wrt apart (us @ (p, s) # ys)" using ring_apart [OF r] e by simp
  have b: "b < M32" "b \<le> p" using ring_mem [OF r, of b 0] ring_mem [OF r, of p s] e by auto
  have q: "bp < nxt ys b \<or> nxt ys b \<le> p" "nxt ys b < M32"
    using p(2) b ring_mem [OF r] unfolding e by (cases ys; force)+
  have fwd: "free_scan m (of_nat bp) (of_nat (nxt vs p)) = Some (of_nat p)" if v: "us = vs0 @ vs" for vs0 vs
  proof (rule scan_forward [where q = "nxt ys b"])
    have "seg m (vs0 @ (vs @ [(p, s)]) @ ys) b" using sg v by simp
    then show "seg m (vs @ [(p, s)]) (nxt ys b)" unfolding seg_append by simp
    have "sorted_wrt apart (vs0 @ (vs @ [(p, s)]) @ ys)" using so v by simp
    then show "sorted_wrt apart (vs @ [(p, s)])" using sorted_wrt_split by blast
  qed (use p q in auto)
  have first: "nxt us p = b" using e by (cases us) auto
  have "f \<in> fst ` set us \<or> f = p \<or> f \<in> fst ` set ys" using f unfolding e by auto
  then consider (us) vs0 n vs where "us = vs0 @ (f, n) # vs" | (p) "f = p" | (ys) ys0 n ys1 where "ys = ys0 @ (f, n) # ys1"
    by (auto dest!: split_list)
  then show ?thesis
  proof cases
    case us
    then show ?thesis using fwd [of vs0 "(f, n) # vs"] by simp
  next
    case p
    then show ?thesis using fwd [of us "[]"] by simp
  next
    case ys
    have "seg m ((us @ (p, s) # ys0) @ (f, n) # ys1) b" using sg ys by simp
    then have s1: "seg m ((f, n) # ys1) b" unfolding seg_append by simp
    have "sorted_wrt apart ((us @ (p, s) # ys0) @ (f, n) # ys1)" using so ys by simp
    then have s2: "sorted_wrt apart ((f, n) # ys1)" using sorted_wrt_split by blast
    have s3: "\<forall>x \<in> set ((f, n) # ys1). bp < fst x \<and> fst x < M32"
      using p(2) ring_mem [OF r] unfolding e ys by fastforce
    have "b < bp" using b p by simp
    from scan_wrap [OF s1 s2 s3 this] fwd [of "[]" us] first show ?thesis by simp
  qed
qed

section \<open>Joining blocks\<close>

text \<open>What \<open>join_next\<close> makes of the block \<open>(bp, n)\<close> in front of \<open>ys\<close>.\<close>

inductive joined :: "nat \<Rightarrow> nat \<Rightarrow> block list \<Rightarrow> nat \<Rightarrow> block list \<Rightarrow> bool" for bp n where
  apart_from: "bp + 8 * n \<noteq> nxt ys 0 \<Longrightarrow> joined bp n ys n ys"
| touching: "bp + 8 * n = q \<Longrightarrow> joined bp n ((q, k) # r) (n + k) r"

lemma of_nat_eq_u32: "a < M32 \<Longrightarrow> c < M32 \<Longrightarrow> (of_nat a :: u32) = of_nat c \<longleftrightarrow> a = c"
  by (rule of_nat_u32_inj)

lemma join_next_joined:
  assumes p: "header m p (nxt ys b) s" and n: "size_of m (of_nat bp) = of_nat n" and sg: "seg m ys b"
    and sep: "p + 8 \<le> bp" "\<forall>x \<in> set ys. bp + 8 \<le> fst x \<and> fst x + 8 \<le> hi"
    and hi: "bp + 8 * n \<le> hi" "bp + 8 \<le> hi" "b < bp" "hi < M32"
  shows "\<exists>n' r. joined bp n ys n' r \<and> header (join_next (of_nat bp) (of_nat p) m) bp (nxt r b) n' \<and>
    agree (- {bp ..< bp + 8}) m (join_next (of_nat bp) (of_nat p) m)"
proof -
  have q: "ptr_of m (of_nat p) = of_nat (nxt ys b)" using p by (simp add: header_def)
  have c: "of_nat bp + 8 * of_nat n = (of_nat (nxt ys b) :: u32) \<longleftrightarrow> bp + 8 * n = nxt ys b"
    using of_nat_eq_u32 [of "bp + 8 * n" "nxt ys b"] hi sep by (cases ys) auto
  show ?thesis
  proof (cases "bp + 8 * n = nxt ys b")
    case True
    then obtain k r where ys: "ys = (nxt ys b, k) # r" using hi(3) by (cases ys) auto
    define x where "x = nxt ys b"
    have "(nxt ys b, k) \<in> set ys" by (subst ys) simp
    from bspec [OF sep(2) this] have x: "bp + 8 \<le> x" "x + 8 \<le> hi" by (simp_all add: x_def)
    have hx: "header m x (nxt r b) k" using sg ys by (metis seg.simps(2) x_def)
    let ?m = "store32 (of_nat bp + 4) (of_nat n + of_nat k) m"
    have a: "agree (- {bp ..< bp + 8}) m ?m"
      using agree_store [of "bp + 4" "- {bp ..< bp + 8}" m "of_nat n + of_nat k"] hi by fastforce
    have "ptr_of ?m (of_nat p) = of_nat x" "ptr_of ?m (of_nat x) = of_nat (nxt r b)"
      using load_outside [OF a, of p] load_outside [OF a, of x] sep(1) x hi q hx by (simp_all add: x_def header_def)
    then have "join_next (of_nat bp) (of_nat p) m = put_header bp (nxt r b) (n + k) m"
      using True c n q hx by (simp add: join_next_def put_header_def x_def header_def Let_def)
    moreover have "joined bp n ys (n + k) r" using touching [of bp n x k r] True ys by (simp add: x_def)
    ultimately show ?thesis
      using agree_put [of bp "- {bp ..< bp + 8}" m "nxt r b" "n + k"] hi by fastforce
  next
    case False
    then have j: "join_next (of_nat bp) (of_nat p) m = store32 (of_nat bp) (of_nat (nxt ys b)) m"
      using c n q by (simp add: join_next_def)
    have "bp + 8 * n \<noteq> nxt ys 0"
      using False hi by (cases ys) auto
    then have "joined bp n ys n ys" by (rule apart_from)
    moreover have "header (store32 (of_nat bp) (of_nat (nxt ys b)) m) bp (nxt ys b) n" using n by (simp add: header_def)
    moreover have "agree (- {bp ..< bp + 8}) m (store32 (of_nat bp) (of_nat (nxt ys b)) m)"
      using agree_store [of bp "- {bp ..< bp + 8}"] hi by fastforce
    ultimately show ?thesis unfolding j by blast
  qed
qed

lemma join_prev_joined:
  assumes p: "header m p q s" and bp: "header m bp x n"
    and sep: "p + 8 \<le> bp" "p + 8 * s \<le> bp" "bp + 8 \<le> M32"
  shows "if p + 8 * s = bp then header (join_prev (of_nat bp) (of_nat p) m) p x (s + n)
    else header (join_prev (of_nat bp) (of_nat p) m) p bp s \<and> header (join_prev (of_nat bp) (of_nat p) m) bp x n"
    and "agree (- {p ..< p + 8}) m (join_prev (of_nat bp) (of_nat p) m)"
proof -
  have c: "of_nat p + 8 * of_nat s = (of_nat bp :: u32) \<longleftrightarrow> p + 8 * s = bp"
    using of_nat_eq_u32 [of "p + 8 * s" bp] sep by auto
  have n: "size_of m (of_nat p) = of_nat s" "size_of m (of_nat bp) = of_nat n" using p bp by (simp_all add: header_def)
  let ?m = "store32 (of_nat p + 4) (of_nat s + of_nat n) m"
  have a: "agree (- {p ..< p + 8}) m ?m"
    using agree_store [of "p + 4" "- {p ..< p + 8}" m "of_nat s + of_nat n"] sep by fastforce
  have "ptr_of ?m (of_nat bp) = of_nat x"
    using load_outside [OF a, of bp] sep bp by (simp add: header_def)
  then have j: "join_prev (of_nat bp) (of_nat p) m =
      (if p + 8 * s = bp then put_header p x (s + n) m else store32 (of_nat p) (of_nat bp) m)"
    using c n by (simp add: join_prev_def put_header_def Let_def)
  have a2: "agree (- {p ..< p + 8}) m (store32 (of_nat p) (of_nat bp) m)"
    using agree_store [of p "- {p ..< p + 8}"] sep by fastforce
  show g: "agree (- {p ..< p + 8}) m (join_prev (of_nat bp) (of_nat p) m)"
    unfolding j using a2 agree_put [of p "- {p ..< p + 8}" m x "s + n"] sep by fastforce
  show "if p + 8 * s = bp then header (join_prev (of_nat bp) (of_nat p) m) p x (s + n)
    else header (join_prev (of_nat bp) (of_nat p) m) p bp s \<and> header (join_prev (of_nat bp) (of_nat p) m) bp x n"
  proof (cases "p + 8 * s = bp")
    case False
    then have "header (join_prev (of_nat bp) (of_nat p) m) p bp s" unfolding j using n by (simp add: header_def)
    moreover have "header (join_prev (of_nat bp) (of_nat p) m) bp x n"
      by (rule header_agree [OF bp g]) (use sep in auto)
    ultimately show ?thesis using False by simp
  qed (simp add: j)
qed

lemma joined_blocks:
  assumes "joined bp n ys n' r" "blocks_ok L ys hi" "\<forall>x \<in> set ys. bp + 8 * n \<le> fst x" "bp + 8 * n \<le> hi" "0 < n"
  shows "0 < n' \<and> bp + 8 * n' \<le> hi \<and> blocks_ok (bp + 8 * n') r hi \<and> cover ((bp, n') # r) = cover ys \<union> bytes_of (bp, n) \<and>
    n \<le> n' \<and> set r \<subseteq> set ys"
  using assms
proof cases
  case apart_from
  have "blocks_ok (bp + 8 * n) ys hi" using apart_from assms(2,3) by (cases ys) auto
  then show ?thesis using apart_from assms by auto
next
  case (touching q k)
  then have "bp + 8 * (n + k) = q + 8 * k" by simp
  then show ?thesis using touching assms(2,5) by (auto simp: bytes_of_def add.assoc)
qed

section \<open>free keeps the ring\<close>

text \<open>The place of a block that overlaps no free block.\<close>

lemma find_place:
  assumes r: "ring m b bs hi" and bp: "b + 8 \<le> bp" "0 < n" "bytes_of (bp, n) \<inter> cover bs = {}"
  obtains us p s ys where "(b, 0) # bs = us @ (p, s) # ys" "p + 8 \<le> bp" "p + 8 * s \<le> bp"
    "\<forall>x \<in> set ys. bp + 8 * n \<le> fst x"
proof -
  let ?P = "\<lambda>x :: block. fst x < bp"
  let ?B = "(b, 0) # bs"
  have "takeWhile ?P ?B \<noteq> []" using bp(1) by simp
  then obtain us p s where us: "takeWhile ?P ?B = us @ [(p, s)]" by (metis rev_exhaust surj_pair)
  define ys where "ys = dropWhile ?P ?B"
  have e: "?B = us @ (p, s) # ys" using takeWhile_dropWhile_id [of ?P ?B] us by (simp add: ys_def)
  have so: "sorted_wrt apart (us @ (p, s) # ys)" using ring_apart [OF r] e by simp
  have dis: "a + 8 * k \<le> bp \<or> bp + 8 * n \<le> a" if "(a, k) \<in> set bs" for a k
  proof -
    have k: "0 < k" using r that blocks_ok_mem by (fastforce simp: ring_def)
    have "bytes_of (a, k) \<inter> bytes_of (bp, n) = {}" using bp(3) that by (auto simp: cover_def)
    then show ?thesis using k bp(2) by (auto simp: bytes_of_def)
  qed
  have "p < bp" using us set_takeWhileD [of "(p, s)" ?P ?B] by simp
  have "p + 8 \<le> bp \<and> p + 8 * s \<le> bp"
  proof (cases "(p, s) \<in> set bs")
    case True
    then have "0 < s" using r blocks_ok_mem by (fastforce simp: ring_def)
    then show ?thesis using dis [OF True] \<open>p < bp\<close> by linarith
  next
    case False
    then have "(p, s) = (b, 0)" using e by (metis in_set_conv_decomp set_ConsD)
    then show ?thesis using bp(1) by simp
  qed
  moreover have "\<forall>x \<in> set ys. bp + 8 * n \<le> fst x"
  proof (cases ys)
    case (Cons y zs)
    have y: "\<not> fst y < bp" using hd_dropWhile [of ?P ?B] Cons ys_def by simp
    have "y \<in> set bs" using e Cons bp(1) y by (cases us) auto
    then have "bp + 8 * n \<le> fst y" using dis [of "fst y" "snd y"] y blocks_ok_mem [of "b + 7" bs hi "fst y" "snd y"] r
      by (auto simp: ring_def)
    moreover have "\<forall>z \<in> set zs. fst y \<le> fst z" using so Cons by (auto simp: sorted_wrt_append apart_def)
    ultimately show ?thesis using Cons by auto
  qed simp
  ultimately show ?thesis using e that by blast
qed

lemma ring_split_ok:
  assumes r: "ring m b bs hi" and e: "(b, 0) # bs = us @ (p, s) # ys"
  obtains L where "blocks_ok L ys hi" "seg m us p" "header m p (nxt ys b) s" "seg m ys b"
    "us = [] \<and> p = b \<and> s = 0 \<and> bs = ys \<or> (\<exists>us'. us = (b, 0) # us' \<and> bs = us' @ (p, s) # ys \<and> 0 < s \<and> b + 8 \<le> p)"
proof -
  have "seg m (us @ (p, s) # ys) b" using r e by (simp add: ring_def)
  then have sg: "seg m us p" "header m p (nxt ys b) s" "seg m ys b" by (simp_all add: seg_append)
  show ?thesis
  proof (cases us)
    case Nil
    then have n: "us = [] \<and> p = b \<and> s = 0 \<and> bs = ys" using e by simp
    then have "blocks_ok (b + 7) ys hi" using r by (simp add: ring_def)
    then show ?thesis by (rule that [OF _ sg disjI1 [OF n]])
  next
    case (Cons u us')
    then have b: "bs = us' @ (p, s) # ys" "u = (b, 0)" using e by simp_all
    have ok: "blocks_ok (b + 7) us' hi \<and> blocks_ok (end_of (b + 7) us') ((p, s) # ys) hi"
      using r b(1) by (simp add: ring_def blocks_ok_append)
    then have l: "blocks_ok (p + 8 * s) ys hi" "0 < s" "b + 8 \<le> p" using end_of_mono [of "b + 7" us' hi] by simp_all
    show ?thesis
    proof (rule that [OF l(1) sg], rule disjI2, rule exI [of _ us'], intro conjI)
      show "us = (b, 0) # us'" using Cons b(2) by simp
    qed (use b(1) l in simp_all)
  qed
qed

lemma replace_ok:
  assumes "blocks_ok lo (us @ (p, s) # ys) hi" "0 < s'" "p + 8 * s' \<le> hi" "blocks_ok (p + 8 * s') ys' hi"
  shows "blocks_ok lo (us @ (p, s') # ys') hi"
  using assms by (auto simp: blocks_ok_append)

text \<open>\<open>bs'\<close> is the free list \<open>bs\<close> with the block \<open>(bp, n)\<close> put into it.\<close>

definition freed :: "nat \<Rightarrow> nat \<Rightarrow> block list \<Rightarrow> block list \<Rightarrow> bool" where
  "freed bp n bs bs' \<longleftrightarrow> cover bs' = cover bs \<union> bytes_of (bp, n) \<and> (\<exists>(a, k) \<in> set bs'. n \<le> k)"

lemma free_joins:
  assumes r: "ring m b bs hi" and e: "(b, 0) # bs = us @ (p, s) # ys"
    and sep: "p + 8 \<le> bp" "p + 8 * s \<le> bp" "\<forall>x \<in> set ys. bp + 8 * n \<le> fst x" "0 < n" "bp + 8 * n \<le> hi" "b + 8 \<le> bp"
    and n: "size_of m (of_nat bp) = of_nat n"
  defines "m' \<equiv> join_prev (of_nat bp) (of_nat p) (join_next (of_nat bp) (of_nat p) m)"
  shows "\<exists>bs'. ring m' b bs' hi \<and> freed bp n bs bs' \<and> p \<in> fst ` set ((b, 0) # bs') \<and>
    agree (- ({p ..< p + 8} \<union> {bp ..< bp + 8})) m m'"
proof -
  obtain L where sp: "blocks_ok L ys hi" "seg m us p" "header m p (nxt ys b) s" "seg m ys b"
    and cs: "us = [] \<and> p = b \<and> s = 0 \<and> bs = ys \<or> (\<exists>us'. us = (b, 0) # us' \<and> bs = us' @ (p, s) # ys \<and> 0 < s \<and> b + 8 \<le> p)"
    by (rule ring_split_ok [OF r e])
  have hi: "hi < M32" "bp + 8 \<le> hi" "b < bp" using r sep by (auto simp: ring_def)
  have ys: "\<forall>x \<in> set ys. bp + 8 \<le> fst x \<and> fst x + 8 \<le> hi"
  proof
    fix x
    assume "x \<in> set ys"
    moreover from this have "fst x + 8 \<le> hi" using ring_mem [OF r, of "fst x" "snd x"] unfolding e by simp
    ultimately show "bp + 8 \<le> fst x \<and> fst x + 8 \<le> hi" using sep(3,4) by fastforce
  qed
  define m1 where "m1 = join_next (of_nat bp) (of_nat p) m"
  obtain n' q where j: "joined bp n ys n' q" "header m1 bp (nxt q b) n'" "agree (- {bp ..< bp + 8}) m m1"
    using join_next_joined [OF sp(3) n sp(4) sep(1) ys sep(5) hi(2,3,1)] unfolding m1_def by blast
  note jb = joined_blocks [OF j(1) sp(1) sep(3,5,4)]
  have m': "m' = join_prev (of_nat bp) (of_nat p) m1" by (simp add: m'_def m1_def)
  have hp: "header m1 p (nxt ys b) s" by (rule header_agree [OF sp(3) j(3)]) (use sep hi in auto)
  have bp8: "bp + 8 \<le> M32" using hi by simp
  note jp = join_prev_joined [OF hp j(2) sep(1,2) bp8, folded m']
  have ag: "agree (- ({p ..< p + 8} \<union> {bp ..< bp + 8})) m m'"
    by (rule agree_trans [OF agree_mono [OF j(3)] agree_mono [OF jp(2)]]) auto
  have so: "sorted_wrt apart (us @ (p, s) # ys)" using ring_apart [OF r] e by simp
  have us: "seg m' us p"
  proof (rule seg_agree [OF sp(2) ag])
    fix a k
    assume h: "(a, k) \<in> set us"
    then have "a + 8 \<le> p" using so by (auto simp: sorted_wrt_append apart_def)
    then show "{a ..< a + 8} \<subseteq> - ({p ..< p + 8} \<union> {bp ..< bp + 8}) \<and> a + 8 \<le> M32" using sep(1) hi by auto
  qed
  have q: "seg m' q b"
  proof (rule seg_agree [OF _ ag])
    show "seg m q b" using j(1) sp(4) by (cases rule: joined.cases) auto
    fix a k
    assume "(a, k) \<in> set q"
    then have "(a, k) \<in> set ys" using jb by auto
    then have "bp + 8 \<le> a" "a + 8 \<le> hi" using ys by auto
    then show "{a ..< a + 8} \<subseteq> - ({p ..< p + 8} \<union> {bp ..< bp + 8}) \<and> a + 8 \<le> M32" using sep(1) hi by auto
  qed
  show ?thesis
  proof (cases "p + 8 * s = bp")
    case True
    with cs sep obtain us' where u: "us = (b, 0) # us'" "bs = us' @ (p, s) # ys" "0 < s" "b + 8 \<le> p" by auto
    define bs' where "bs' = us' @ (p, s + n') # q"
    have h: "header m' p (nxt q b) (s + n')" using jp(1) True by simp
    have "seg m' (us @ (p, s + n') # q) b" using us q h by (simp add: seg_append)
    moreover have "blocks_ok (b + 7) bs' hi" unfolding bs'_def
      by (rule replace_ok [of _ _ _ s ys]) (use r u jb True in \<open>auto simp: ring_def algebra_simps\<close>)
    ultimately have "ring m' b bs' hi" using r u by (simp add: ring_def bs'_def)
    moreover have "freed bp n bs bs'"
    proof -
      have "cover bs' = cover us' \<union> bytes_of (p, s) \<union> cover ((bp, n') # q)"
        using True by (simp add: bs'_def bytes_of_add Un_assoc)
      also have "\<dots> = cover bs \<union> bytes_of (bp, n)" using jb u(2) by auto
      finally show ?thesis using jb unfolding freed_def bs'_def by auto
    qed
    ultimately show ?thesis using ag by (intro exI [of _ bs']) (auto simp: bs'_def)
  next
    case False
    then have h: "header m' p bp s" "header m' bp (nxt q b) n'" using jp(1) by simp_all
    have sg: "seg m' (us @ (p, s) # (bp, n') # q) b" using us q h by (simp add: seg_append)
    have ok: "blocks_ok (p + 8 * s) ((bp, n') # q) hi" if "0 < s" using jb False sep(2) by simp
    from cs show ?thesis
    proof (elim disjE exE conjE)
      assume u: "us = []" "p = b" "s = 0" "bs = ys"
      have "ring m' b ((bp, n') # q) hi" using r u jb sg sep(6) by (auto simp: ring_def)
      moreover have "freed bp n bs ((bp, n') # q)" using jb u by (auto simp: freed_def)
      ultimately show ?thesis using ag u by (intro exI [of _ "(bp, n') # q"]) auto
    next
      fix us'
      assume u: "us = (b, 0) # us'" "bs = us' @ (p, s) # ys" "0 < s" "b + 8 \<le> p"
      define bs' where "bs' = us' @ (p, s) # (bp, n') # q"
      have "blocks_ok (b + 7) bs' hi" unfolding bs'_def
        by (rule replace_ok [of _ _ _ s ys]) (use r u ok sep hi in \<open>auto simp: ring_def\<close>)
      then have "ring m' b bs' hi" using r u sg by (simp add: ring_def bs'_def)
      moreover have "freed bp n bs bs'" using jb u unfolding freed_def bs'_def by auto
      ultimately show ?thesis using ag by (intro exI [of _ bs']) (auto simp: bs'_def)
    qed
  qed
qed

section \<open>The allocator's invariant, and free\<close>

definition heap_inv :: "u32 \<Rightarrow> uheap \<Rightarrow> block list \<Rightarrow> bool" where
  "heap_inv base h bs \<longleftrightarrow> ring (u_mem h) (unat base) bs (unat (u_brk h)) \<and> u_brk h < KERNBASE \<and>
     unat (u_freep h) \<in> fst ` set ((unat base, 0) # bs)"

text \<open>A block of \<open>n\<close> headers at \<open>r - 8\<close> is with the program: it lies in the heap, and no free block overlaps it.\<close>

definition allocated :: "u32 \<Rightarrow> uheap \<Rightarrow> block list \<Rightarrow> u32 \<Rightarrow> nat \<Rightarrow> bool" where
  "allocated base h bs r n \<longleftrightarrow> 0 < n \<and> unat base + 16 \<le> unat r \<and> unat r - 8 + 8 * n \<le> unat (u_brk h) \<and>
     size_of (u_mem h) (r - 8) = of_nat n \<and> bytes_of (unat r - 8, n) \<inter> cover bs = {}"

text \<open>The memory the allocator works on: the free blocks and \<open>base\<close>.\<close>

definition own :: "u32 \<Rightarrow> block list \<Rightarrow> nat set" where
  "own base bs = cover bs \<union> {unat base ..< unat base + 8}"

lemma header_own:
  assumes "heap_inv base h bs" "(p, s) \<in> set ((unat base, 0) # bs)"
  shows "{p ..< p + 8} \<subseteq> own base bs"
proof (cases "(p, s) \<in> set bs")
  case True
  then have "0 < s" using assms(1) blocks_ok_mem by (fastforce simp: heap_inv_def ring_def)
  then have "{p ..< p + 8} \<subseteq> bytes_of (p, s)" by (auto simp: bytes_of_def)
  then show ?thesis using True by (auto simp: own_def cover_def)
qed (use assms in \<open>auto simp: own_def\<close>)

lemma freed_effect:
  assumes inv: "heap_inv base h bs" and al: "allocated base h bs r n"
  shows "\<exists>h' bs'. ufree r h = Some h' \<and> heap_inv base h' bs' \<and> freed (unat r - 8) n bs bs' \<and> u_brk h' = u_brk h \<and>
    agree (- (own base bs \<union> bytes_of (unat r - 8, n))) (u_mem h) (u_mem h')"
proof -
  let ?b = "unat base" and ?hi = "unat (u_brk h)" and ?bp = "unat r - 8"
  have rg: "ring (u_mem h) ?b bs ?hi" using inv by (simp add: heap_inv_def)
  have r: "r - 8 = of_nat ?bp"
  proof -
    have "8 \<le> r" using al by (simp add: allocated_def word_le_nat_alt)
    then have "unat (r - 8) = ?bp" by (simp add: unat_sub_le)
    then show ?thesis by (metis of_nat_unat ucast_id)
  qed
  have a: "?b + 8 \<le> ?bp" "0 < n" "bytes_of (?bp, n) \<inter> cover bs = {}" "?bp + 8 * n \<le> ?hi" "size_of (u_mem h) (of_nat ?bp) = of_nat n"
    using al unfolding allocated_def r by auto
  obtain us p s ys where e: "(?b, 0) # bs = us @ (p, s) # ys" "p + 8 \<le> ?bp" "p + 8 * s \<le> ?bp" "\<forall>x \<in> set ys. ?bp + 8 * n \<le> fst x"
    by (rule find_place [OF rg a(1-3)])
  have lt: "?bp < M32" "p < ?bp" "\<forall>x \<in> set ys. ?bp < fst x" using e a(2) unat_u32_bound [of r] by (linarith | fastforce)+
  define f where "f = unat (u_freep h)"
  have f: "f \<in> fst ` set ((?b, 0) # bs)" "u_freep h = of_nat f" using inv by (simp_all add: heap_inv_def f_def)
  have scan: "free_scan (u_mem h) (of_nat ?bp) (of_nat f) = Some (of_nat p)"
    by (rule free_scan_finds [OF rg e(1) f(1) lt(2,3,1)])
  define m' where "m' = join_prev (of_nat ?bp) (of_nat p) (join_next (of_nat ?bp) (of_nat p) (u_mem h))"
  obtain bs' where bs': "ring m' ?b bs' ?hi" "freed ?bp n bs bs'" "p \<in> fst ` set ((?b, 0) # bs')"
      "agree (- ({p ..< p + 8} \<union> {?bp ..< ?bp + 8})) (u_mem h) m'"
    using free_joins [OF rg e a(2,4,1,5)] unfolding m'_def by blast
  have "ufree r h = Some (h\<lparr>u_mem := m', u_freep := of_nat p\<rparr>)"
    unfolding ufree_def Let_def r f(2) scan by (simp add: m'_def)
  moreover have "heap_inv base (h\<lparr>u_mem := m', u_freep := of_nat p\<rparr>) bs'"
    using inv bs' lt by (simp add: heap_inv_def unat_of_nat_u32)
  moreover have "agree (- (own base bs \<union> bytes_of (?bp, n))) (u_mem h) m'"
  proof (rule agree_mono [OF bs'(4)])
    have "{p ..< p + 8} \<subseteq> own base bs" by (rule header_own [OF inv, of p s]) (simp add: e(1))
    moreover have "{?bp ..< ?bp + 8} \<subseteq> bytes_of (?bp, n)" using a(2) by (auto simp: bytes_of_def)
    ultimately show "- (own base bs \<union> bytes_of (?bp, n)) \<subseteq> - ({p ..< p + 8} \<union> {?bp ..< ?bp + 8})" by blast
  qed
  ultimately show ?thesis using bs'(2) by (intro exI [of _ "h\<lparr>u_mem := m', u_freep := of_nat p\<rparr>"] exI [of _ bs']) simp
qed

section \<open>Taking a block\<close>

lemma ring_replace:
  assumes r: "ring m b (xs @ (p, n) # ys) hi" and n': "0 < n'" "n' \<le> n"
    and m': "header m' p (nxt ys b) n'" "agree (- ({p + 4 ..< p + 8} \<union> {p + 8 * n' ..< p + 8 * n})) m m'"
  shows "ring m' b (xs @ (p, n') # ys) hi"
proof -
  let ?B = "(b, 0) # xs @ (p, n) # ys"
  have so: "sorted_wrt apart (((b, 0) # xs) @ (p, n) # ys)" using ring_apart [OF r] by simp
  have "seg m (((b, 0) # xs) @ (p, n) # ys) b" using r by (simp add: ring_def)
  then have sg: "seg m ((b, 0) # xs) p" "seg m ys b" unfolding seg_append by simp_all
  have hi: "a + 8 \<le> M32" if "(a, k) \<in> set ?B" for a k using ring_mem [OF r that] r by (simp add: ring_def)
  have "seg m' ((b, 0) # xs) p"
  proof (rule seg_agree [OF sg(1) m'(2)])
    fix a k
    assume h: "(a, k) \<in> set ((b, 0) # xs)"
    then have "apart (a, k) (p, n)" using so unfolding sorted_wrt_append by auto
    then show "{a ..< a + 8} \<subseteq> - ({p + 4 ..< p + 8} \<union> {p + 8 * n' ..< p + 8 * n}) \<and> a + 8 \<le> M32"
      using hi [of a k] h n' by (auto simp: apart_def)
  qed
  moreover have "seg m' ys b"
  proof (rule seg_agree [OF sg(2) m'(2)])
    fix a k
    assume h: "(a, k) \<in> set ys"
    then have "apart (p, n) (a, k)" using so unfolding sorted_wrt_append by auto
    then show "{a ..< a + 8} \<subseteq> - ({p + 4 ..< p + 8} \<union> {p + 8 * n' ..< p + 8 * n}) \<and> a + 8 \<le> M32"
      using hi [of a k] h by (auto simp: apart_def)
  qed
  ultimately have "seg m' (((b, 0) # xs) @ (p, n') # ys) b" unfolding seg_append using m'(1) by simp
  moreover have "blocks_ok (b + 7) (xs @ (p, n') # ys) hi"
  proof -
    have ok: "blocks_ok (b + 7) (xs @ (p, n) # ys) hi" using r by (simp add: ring_def)
    have "blocks_ok (p + 8 * n') ys hi"
      by (rule blocks_ok_lo [of "p + 8 * n"]) (use ok n' in \<open>auto simp: blocks_ok_append\<close>)
    moreover have "p + 8 * n' \<le> hi" using ok n' by (auto simp: blocks_ok_append)
    ultimately show ?thesis using replace_ok [OF ok n'(1)] by simp
  qed
  ultimately show ?thesis using r by (simp add: ring_def)
qed

lemma ring_remove:
  assumes r: "ring m b (xs @ (p, n) # ys) hi" and q: "q = fst (last ((b, 0) # xs))"
  shows "ring (store32 (of_nat q) (of_nat (nxt ys b)) m) b (xs @ ys) hi"
    and "q \<in> fst ` set ((b, 0) # xs @ ys)" and "q + 8 \<le> p"
proof -
  obtain us s where us: "(b, 0) # xs = us @ [(q, s)]"
    using q by (metis append_butlast_last_id list.distinct(1) prod.collapse)
  show q_in: "q \<in> fst ` set ((b, 0) # xs @ ys)" using us by (metis Un_iff append_Cons append_is_Nil_conv fst_conv image_eqI in_set_conv_decomp set_append)
  let ?m = "store32 (of_nat q) (of_nat (nxt ys b)) m"
  have so: "sorted_wrt apart (us @ (q, s) # (p, n) # ys)" using ring_apart [OF r] us by (metis append_Cons append_assoc append_Nil)
  have e: "(b, 0) # xs @ (p, n) # ys = us @ (q, s) # (p, n) # ys" using us by (metis append_Cons append_assoc append_Nil)
  have "seg m (us @ (q, s) # (p, n) # ys) b" using r e unfolding ring_def by metis
  then have sg: "seg m us q" "size_of m (of_nat q) = of_nat s" "seg m ys b" unfolding seg_append by (simp_all add: header_def)
  have hi: "a + 8 \<le> M32" if "(a, k) \<in> set (us @ (q, s) # (p, n) # ys)" for a k
    using ring_mem [OF r, of a k] that r unfolding e by (simp add: ring_def)
  show "q + 8 \<le> p" using so by (auto simp: sorted_wrt_append apart_def)
  have ag: "agree (- {q ..< q + 8}) m ?m"
    using agree_store [of q "- {q ..< q + 8}" m] hi [of q s] by fastforce
  have "seg ?m us q"
  proof (rule seg_agree [OF sg(1) ag])
    fix a k
    assume h: "(a, k) \<in> set us"
    then have "apart (a, k) (q, s)" using so unfolding sorted_wrt_append by auto
    then show "{a ..< a + 8} \<subseteq> - {q ..< q + 8} \<and> a + 8 \<le> M32" using hi [of a k] h by (auto simp: apart_def)
  qed
  moreover have "seg ?m ys b"
  proof (rule seg_agree [OF sg(3) ag])
    fix a k
    assume h: "(a, k) \<in> set ys"
    then have "apart (q, s) (a, k)" using so unfolding sorted_wrt_append by auto
    then show "{a ..< a + 8} \<subseteq> - {q ..< q + 8} \<and> a + 8 \<le> M32" using hi [of a k] h by (auto simp: apart_def)
  qed
  moreover have "header ?m q (nxt ys b) s" using sg(2) by (simp add: header_def)
  ultimately have "seg ?m (us @ (q, s) # ys) b" unfolding seg_append by simp
  then have "seg ?m ((b, 0) # xs @ ys) b" using us by (metis append_Cons append_assoc append_Nil)
  moreover have "blocks_ok (b + 7) (xs @ ys) hi"
  proof -
    have ok: "blocks_ok (b + 7) xs hi" "blocks_ok (end_of (b + 7) xs) ((p, n) # ys) hi" using r by (simp_all add: ring_def blocks_ok_append)
    then have "blocks_ok (end_of (b + 7) xs) ys hi" using blocks_ok_lo [of "p + 8 * n" ys hi "end_of (b + 7) xs"] by simp
    then show ?thesis using ok(1) by (simp add: blocks_ok_append)
  qed
  ultimately show "ring ?m b (xs @ ys) hi" using r by (simp add: ring_def)
qed

text \<open>A block that is large enough is split into what is handed out and what stays free.\<close>

definition taken :: "u32 \<Rightarrow> nat \<Rightarrow> uheap \<Rightarrow> block list \<Rightarrow> u32 \<Rightarrow> uheap \<Rightarrow> block list \<Rightarrow> bool" where
  "taken base k h bs r h' bs' \<longleftrightarrow> heap_inv base h' bs' \<and> u_brk h' = u_brk h \<and> allocated base h' bs' r k \<and>
     cover bs' \<union> bytes_of (unat r - 8, k) = cover bs \<and> agree (- own base bs) (u_mem h) (u_mem h')"

lemma cover_parts:
  assumes "blocks_ok lo (xs @ (p, n) # ys) hi"
  shows "cover (xs @ ys) \<inter> bytes_of (p, n) = {}"
proof -
  have ok: "blocks_ok lo xs hi" "end_of lo xs < p" "blocks_ok (p + 8 * n) ys hi"
    using assms by (auto simp: blocks_ok_append)
  then show ?thesis using cover_bounds [OF ok(1)] cover_bounds [OF ok(3)] by (fastforce simp: bytes_of_def)
qed

lemma take_block_taken:
  assumes inv: "heap_inv base h bs" and bs: "bs = xs @ (p, n) # ys" and k: "0 < k" "k \<le> n"
    and q: "q = fst (last ((unat base, 0) # xs))"
  shows "\<exists>r h' bs'. take_block (of_nat k) (of_nat q) (of_nat p) h = (r, h') \<and> taken base k h bs r h' bs'"
proof -
  let ?b = "unat base" and ?hi = "unat (u_brk h)" and ?m = "u_mem h"
  have rg: "ring ?m ?b (xs @ (p, n) # ys) ?hi" using inv bs by (simp add: heap_inv_def)
  then have hi: "?hi < M32" "?b + 8 \<le> p" "p + 8 * n \<le> ?hi" "0 < n" "blocks_ok (?b + 7) (xs @ (p, n) # ys) ?hi"
    using blocks_ok_mem [of "?b + 7" "xs @ (p, n) # ys" ?hi p n] by (auto simp: ring_def)
  have "seg ?m (((?b, 0) # xs) @ (p, n) # ys) ?b" using rg by (simp add: ring_def)
  then have hd: "header ?m p (nxt ys ?b) n" unfolding seg_append by simp
  have sz: "size_of ?m (of_nat p) = of_nat n" using hd by (simp add: header_def)
  have same: "(of_nat n = (of_nat k :: u32)) \<longleftrightarrow> n = k" using of_nat_eq_u32 [of n k] hi k by simp
  note rem = ring_remove [OF rg q]
  obtain s where s: "(q, s) \<in> set ((?b, 0) # bs)"
    using fst_image [OF rem(2)] bs by auto
  have qb: "?b \<le> q" "q + 8 \<le> p" "q < M32"
    using ring_mem [OF rg, of q s] s bs rem(3) by auto
  have lt: "p + 8 * n < M32" using hi(1,3) by linarith
  have q_own: "{q ..< q + 8} \<subseteq> own base bs" by (rule header_own [OF inv s])
  have p_own: "bytes_of (p, n) \<subseteq> own base bs" using bs by (auto simp: own_def)
  show ?thesis
  proof (cases "n = k")
    case True
    define h' where "h' = h\<lparr>u_mem := store32 (of_nat q) (of_nat (nxt ys ?b)) ?m, u_freep := of_nat q\<rparr>"
    have "take_block (of_nat k) (of_nat q) (of_nat p) h = (of_nat (p + 8), h')"
      using hd sz True by (simp add: take_block_def header_def h'_def)
    moreover have "taken base k h bs (of_nat (p + 8)) h' (xs @ ys)"
    proof -
      have u: "unat (of_nat (p + 8) :: u32) = p + 8" using hi(1,3) k by (intro unat_of_nat_u32) linarith
      have ag: "agree (- {q ..< q + 8}) ?m (u_mem h')"
        using agree_store [of q "- {q ..< q + 8}" ?m] qb hi by (fastforce simp: h'_def)
      then have "agree (- own base bs) ?m (u_mem h')" by (rule agree_mono) (use q_own in auto)
      moreover have "heap_inv base h' (xs @ ys)" using inv rem qb by (simp add: heap_inv_def h'_def unat_of_nat_u32)
      moreover have "allocated base h' (xs @ ys) (of_nat (p + 8)) k"
      proof -
        have "load32 (u_mem h') (of_nat (p + 4)) = of_nat n"
          using load_outside [OF ag, of "p + 4"] qb lt hi(4) sz by simp
        then show ?thesis unfolding allocated_def u using k hi cover_parts [OF hi(5)] True
          by (auto simp: h'_def Int_commute)
      qed
      moreover have "cover (xs @ ys) \<union> bytes_of (p, k) = cover bs" using bs True by auto
      ultimately show ?thesis unfolding taken_def u by (simp add: h'_def)
    qed
    ultimately show ?thesis by blast
  next
    case False
    define t where "t = p + 8 * (n - k)"
    define m1 where "m1 = store32 (of_nat p + 4) (of_nat (n - k)) ?m"
    define h' where "h' = h\<lparr>u_mem := store32 (of_nat t + 4) (of_nat k) m1, u_freep := of_nat q\<rparr>"
    have t: "p + 8 \<le> t" "t + 8 * k = p + 8 * n" "t + 8 * k \<le> ?hi" using False k hi by (auto simp: t_def)
    have "of_nat n - of_nat k = (of_nat (n - k) :: u32)" using k by (simp add: of_nat_diff)
    moreover have "of_nat p + 8 * of_nat (n - k) = (of_nat t :: u32)" by (simp add: t_def)
    ultimately have "take_block (of_nat k) (of_nat q) (of_nat p) h = (of_nat (t + 8), h')"
      using sz same False by (simp add: take_block_def h'_def m1_def Let_def)
    moreover have "taken base k h bs (of_nat (t + 8)) h' (xs @ (p, n - k) # ys)"
    proof -
      have u: "unat (of_nat (t + 8) :: u32) = t + 8" using t(3) k(1) hi(1) by (intro unat_of_nat_u32) linarith
      let ?A = "- ({p + 4 ..< p + 8} \<union> {t ..< p + 8 * n})"
      have "agree ?A ?m m1" using agree_store [of "p + 4" ?A ?m "of_nat (n - k)"] lt k t by (simp add: m1_def) force
      moreover have "agree ?A m1 (u_mem h')"
        using agree_store [of "t + 4" ?A m1 "of_nat k"] lt k t by (simp add: h'_def) force
      ultimately have ag: "agree ?A ?m (u_mem h')" by (rule agree_trans)
      then have "agree (- own base bs) ?m (u_mem h')"
        by (rule agree_mono) (use p_own t k hi in \<open>auto simp: bytes_of_def\<close>)
      moreover have "header (u_mem h') p (nxt ys ?b) (n - k)"
      proof -
        have "load32 (u_mem h') (of_nat p) = of_nat (nxt ys ?b)"
        proof -
          have "load32 ?m (of_nat p) = load32 (u_mem h') (of_nat p)" by (rule agree_load [OF ag]) (use t lt k in auto)
          then show ?thesis using hd by (simp add: header_def)
        qed
        moreover have "load32 (u_mem h') (of_nat (p + 4)) = of_nat (n - k)"
        proof -
          have "agree (- {t ..< t + 8}) m1 (u_mem h')"
            using agree_store [of "t + 4" "- {t ..< t + 8}" m1 "of_nat k"] lt k t by (simp add: h'_def) force
          from load_outside [OF this, of "p + 4"] show ?thesis using t lt k by (simp add: m1_def)
        qed
        ultimately show ?thesis by (simp add: header_def)
      qed
      moreover have "ring (u_mem h') ?b (xs @ (p, n - k) # ys) ?hi"
        by (rule ring_replace [OF rg _ _ calculation(2)]) (use ag t False k in \<open>auto simp: t_def\<close>)
      moreover have "q \<in> fst ` set ((?b, 0) # xs @ (p, n - k) # ys)" using rem(2) by auto
      moreover have "allocated base h' (xs @ (p, n - k) # ys) (of_nat (t + 8)) k"
      proof -
        have "bytes_of (p, n) = bytes_of (p, n - k) \<union> bytes_of (t, k)"
          using bytes_of_add [of p "n - k" k] k by (simp add: t_def)
        then have "bytes_of (t, k) \<inter> cover (xs @ (p, n - k) # ys) = {}"
          using cover_parts [OF hi(5)] by (auto simp: bytes_of_def t_def)
        then show ?thesis unfolding allocated_def u using k t hi by (auto simp: h'_def)
      qed
      moreover have "cover (xs @ (p, n - k) # ys) \<union> bytes_of (t, k) = cover bs"
        using bytes_of_add [of p "n - k" k] k bs by (auto simp: t_def)
      ultimately show ?thesis unfolding taken_def u heap_inv_def using inv qb by (simp add: h'_def heap_inv_def unat_of_nat_u32)
    qed
    ultimately show ?thesis by blast
  qed
qed

section \<open>The search in malloc\<close>

lemma apart_distinct: "sorted_wrt apart bs \<Longrightarrow> distinct (map fst bs)"
  by (induction bs) (auto simp: apart_def)

text \<open>
  One round over the ring \<open>R\<close>, which ends at \<open>freep\<close>: the first block that is large enough is
  taken; without one \<open>morecore\<close> is called.
\<close>

definition before :: "block list \<Rightarrow> nat \<Rightarrow> nat" where
  "before vs f = (if vs = [] then f else fst (last vs))"

definition and_again :: "(u32 \<Rightarrow> uheap \<Rightarrow> u32 \<times> uheap) \<Rightarrow> u32 \<Rightarrow> u32 \<times> uheap \<Rightarrow> (u32 \<times> uheap) option" where
  "and_again sbrk k = (\<lambda>(p, h). if p = 0 then Some (0, h) else malloc_loop sbrk k p (ptr_of (u_mem h) p) h)"

lemma malloc_round:
  assumes R: "seg (u_mem h) R z" "distinct (map fst R)" "\<forall>x \<in> set R. fst x < M32 \<and> snd x < M32"
    and f: "u_freep h = of_nat f" "fst (last R) = f"
    and vs: "R = vs @ ws" "ws \<noteq> []" and k: "k < M32"
  shows "(\<exists>vs' p n ws'. R = vs' @ (p, n) # ws' \<and> k \<le> n \<and>
            malloc_loop sbrk (of_nat k) (of_nat (before vs f)) (of_nat (fst (hd ws))) h =
              Some (take_block (of_nat k) (of_nat (before vs' f)) (of_nat p) h)) \<or>
         ((\<forall>x \<in> set ws. snd x < k) \<and>
            malloc_loop sbrk (of_nat k) (of_nat (before vs f)) (of_nat (fst (hd ws))) h =
              Option.bind (morecore sbrk (of_nat k) h) (and_again sbrk (of_nat k)))"
  using vs
proof (induction ws arbitrary: vs)
  case (Cons w ws)
  obtain p n where w: "w = (p, n)" by fastforce
  have "seg (u_mem h) (vs @ (p, n) # ws) z" using R(1) Cons.prems(1) w by simp
  then have hd: "header (u_mem h) p (nxt ws z) n" unfolding seg_append by simp
  have lt: "p < M32" "n < M32" using R(3) Cons.prems(1) w by auto
  have sz: "size_of (u_mem h) (of_nat p) \<ge> of_nat k \<longleftrightarrow> k \<le> n"
    using hd lt k by (simp add: header_def of_nat_le_u32)
  show ?case
  proof (cases "k \<le> n")
    case True
    then have "malloc_loop sbrk (of_nat k) (of_nat (before vs f)) (of_nat p) h =
        Some (take_block (of_nat k) (of_nat (before vs f)) (of_nat p) h)"
      using sz by (subst malloc_loop.simps) simp
    then show ?thesis using Cons.prems(1) w True by auto
  next
    case small: False
    show ?thesis
    proof (cases "ws = []")
      case True
      then have "f = p" using f(2) Cons.prems(1) w by simp
      then have "malloc_loop sbrk (of_nat k) (of_nat (before vs f)) (of_nat p) h =
          Option.bind (morecore sbrk (of_nat k) h) (and_again sbrk (of_nat k))"
        using sz small f(1) by (subst malloc_loop.simps) (simp add: and_again_def)
      then show ?thesis using True w small by simp
    next
      case False
      have "p \<noteq> f"
      proof
        assume "p = f"
        then have "fst (last ws) = p" using f(2) Cons.prems(1) w False by simp
        then have "p \<in> fst ` set ws" using False last_in_set by (metis image_eqI)
        moreover have "p \<notin> fst ` set ws" using R(2) Cons.prems(1) w by (auto simp: distinct_append)
        ultimately show False by simp
      qed
      moreover have "f < M32" using R(3) f(2) Cons.prems(1) last_in_set [of R] by fastforce
      ultimately have "(of_nat p :: u32) \<noteq> of_nat f" using lt of_nat_eq_u32 by simp
      moreover have "ptr_of (u_mem h) (of_nat p) = of_nat (fst (List.hd ws))" using hd False
        by (cases ws) (auto simp: header_def)
      ultimately have "malloc_loop sbrk (of_nat k) (of_nat (before vs f)) (of_nat p) h =
          malloc_loop sbrk (of_nat k) (of_nat p) (of_nat (fst (List.hd ws))) h"
        using sz small f(1) by (subst malloc_loop.simps) simp
      moreover have "before (vs @ [(p, n)]) f = p" by (simp add: before_def)
      ultimately show ?thesis using Cons.IH [of "vs @ [(p, n)]"] Cons.prems w False small by auto
    qed
  qed
qed simp

text \<open>The same from \<open>freep\<close>, with the block found as a part of the free list.\<close>

lemma malloc_search:
  assumes inv: "heap_inv base h bs" and k: "0 < k" "k < M32"
  shows "(\<exists>xs p n ys. bs = xs @ (p, n) # ys \<and> k \<le> n \<and>
            malloc_loop sbrk (of_nat k) (u_freep h) (ptr_of (u_mem h) (u_freep h)) h =
              Some (take_block (of_nat k) (of_nat (fst (last ((unat base, 0) # xs)))) (of_nat p) h)) \<or>
         ((\<forall>x \<in> set bs. snd x < k) \<and>
            malloc_loop sbrk (of_nat k) (u_freep h) (ptr_of (u_mem h) (u_freep h)) h =
              Option.bind (morecore sbrk (of_nat k) h) (and_again sbrk (of_nat k)))"
proof -
  let ?b = "unat base"
  have rg: "ring (u_mem h) ?b bs (unat (u_brk h))" using inv by (simp add: heap_inv_def)
  define f where "f = unat (u_freep h)"
  have f: "u_freep h = of_nat f" "f \<in> fst ` set ((?b, 0) # bs)" using inv by (simp_all add: heap_inv_def f_def)
  from fst_image [OF this(2)] obtain s where "(f, s) \<in> set ((?b, 0) # bs)" by blast
  then obtain us ys where e: "(?b, 0) # bs = us @ (f, s) # ys" by (metis split_list)
  have so: "sorted_wrt apart (us @ (f, s) # ys)" using ring_apart [OF rg] e by simp
  define R where "R = ys @ us @ [(f, s)]"
  have "seg (u_mem h) (us @ (f, s) # ys) ?b" using rg e by (simp add: ring_def)
  then have sg: "seg (u_mem h) us f" "header (u_mem h) f (nxt ys ?b) s" "seg (u_mem h) ys ?b" unfolding seg_append by simp_all
  have first: "nxt (us @ [(f, s)]) z = ?b" for z using e by (cases us) auto
  have R: "seg (u_mem h) R (nxt ys ?b)"
    using sg first by (simp add: R_def seg_append)
  have d: "distinct (map fst R)" using apart_distinct [OF so] by (auto simp: R_def)
  have lt: "\<forall>x \<in> set R. fst x < M32 \<and> snd x < M32"
  proof
    fix x
    assume "x \<in> set R"
    then have x: "(fst x, snd x) \<in> set ((?b, 0) # bs)" unfolding e R_def by auto
    show "fst x < M32 \<and> snd x < M32" using ring_mem [OF rg x] rg unfolding ring_def by linarith
  qed
  have p0: "fst (hd R) = nxt ys ?b" using first by (cases ys; cases us) (auto simp: R_def)
  have start: "ptr_of (u_mem h) (u_freep h) = of_nat (fst (hd R))" using sg(2) f p0 by (simp add: header_def)
  have lf: "fst (last R) = f" "R \<noteq> []" by (simp_all add: R_def)
  have place: "\<exists>xs zs. bs = xs @ (p, n) # zs \<and> before vs f = fst (last ((?b, 0) # xs))"
    if h: "R = vs @ (p, n) # ws" "k \<le> n" for vs p n ws
  proof -
    have split: "\<exists>xs zs. bs = xs @ (p, n) # zs \<and> q = fst (last ((?b, 0) # xs))"
      if "(?b, 0) # bs = (as @ [(q, t)]) @ (p, n) # zs" for as q t zs
    proof (cases as)
      case (Cons a as')
      then have "bs = (as' @ [(q, t)]) @ (p, n) # zs" using that by simp
      then show ?thesis by (auto intro: exI [of _ "as' @ [(q, t)]"])
    qed (use that in \<open>auto intro: exI [of _ "[]"]\<close>)
    from h(1) consider (ys) w where "ys = vs @ (p, n) # w" | (us) w where "vs = ys @ w" "us @ [(f, s)] = w @ (p, n) # ws"
    proof -
      obtain w where "ys = vs @ w \<and> w @ us @ [(f, s)] = (p, n) # ws \<or> vs = ys @ w \<and> us @ [(f, s)] = w @ (p, n) # ws"
        using h(1) unfolding R_def append_eq_append_conv2 by metis
      then show ?thesis using that by (cases w) auto
    qed
    then show ?thesis
    proof cases
      case ys
      show ?thesis
      proof (cases vs rule: rev_cases)
        case Nil
        then have "(?b, 0) # bs = (us @ [(f, s)]) @ (p, n) # w" using e ys by simp
        from split [OF this] show ?thesis using Nil by (simp add: before_def)
      next
        case (snoc vs' v)
        then have "(?b, 0) # bs = ((us @ (f, s) # vs') @ [(fst v, snd v)]) @ (p, n) # w" using e ys by simp
        from split [OF this] show ?thesis using snoc by (simp add: before_def)
      qed
    next
      case us
      show ?thesis
      proof (cases w rule: rev_cases)
        case Nil
        then have "(p, n) = (?b, 0)" using us(2) e by (cases "us") auto
        then show ?thesis using h(2) k by simp
      next
        case (snoc w' v)
        then have "(?b, 0) # bs = (w' @ [(fst v, snd v)]) @ (p, n) # ws @ ys" using e us(2)
          by (metis append.assoc append_Cons append_Nil prod.collapse)
        from split [OF this] show ?thesis using snoc us(1) by (simp add: before_def)
      qed
    qed
  qed
  have m: "set bs \<subseteq> set R" using arg_cong [OF e, of set] by (auto simp: R_def)
  have b0: "(of_nat (before [] f) :: u32) = u_freep h" using f(1) by (simp add: before_def)
  have "R = [] @ R" by simp
  from malloc_round [OF R d lt f(1) lf(1) this lf(2) k(2), of sbrk, unfolded b0 start [symmetric]]
  show ?thesis
  proof (elim disjE exE conjE)
    fix vs p n ws
    assume h: "R = vs @ (p, n) # ws" "k \<le> n"
      "malloc_loop sbrk (of_nat k) (u_freep h) (ptr_of (u_mem h) (u_freep h)) h =
         Some (take_block (of_nat k) (of_nat (before vs f)) (of_nat p) h)"
    obtain xs zs where "bs = xs @ (p, n) # zs" "before vs f = fst (last ((?b, 0) # xs))" using place [OF h(1,2)] by blast
    then show ?thesis using h by metis
  next
    assume "\<forall>x \<in> set R. snd x < k"
      "malloc_loop sbrk (of_nat k) (u_freep h) (ptr_of (u_mem h) (u_freep h)) h =
         Option.bind (morecore sbrk (of_nat k) h) (and_again sbrk (of_nat k))"
    then show ?thesis using m by blast
  qed
qed

section \<open>Growing the heap\<close>

text \<open>What the allocator relies on: \<open>sbrk\<close> fails and changes nothing, or adds memory at the end of the process.\<close>

locale sbrk_contract =
  fixes sbrk :: "u32 \<Rightarrow> uheap \<Rightarrow> u32 \<times> uheap"
  assumes sbrk_grows: "0 < unat n \<Longrightarrow> unat n < 2147483648 \<Longrightarrow> u_brk h < KERNBASE \<Longrightarrow> sbrk n h = (p, h') \<Longrightarrow>
    p = - 1 \<and> h' = h \<or>
    p = u_brk h \<and> unat (u_brk h') = unat (u_brk h) + unat n \<and> u_brk h' < KERNBASE \<and> u_freep h' = u_freep h \<and>
      agree {..< unat (u_brk h)} (u_mem h) (u_mem h')"

definition grown :: "u32 \<Rightarrow> uheap \<Rightarrow> block list \<Rightarrow> uheap \<Rightarrow> block list \<Rightarrow> bool" where
  "grown base h bs h' bs' \<longleftrightarrow> heap_inv base h' bs' \<and> unat (u_brk h) \<le> unat (u_brk h') \<and>
     cover bs' = cover bs \<union> {unat (u_brk h) ..< unat (u_brk h')} \<and>
     agree ({..< unat (u_brk h)} - own base bs) (u_mem h) (u_mem h')"

lemma heap_inv_freep: "heap_inv base h bs \<Longrightarrow> u_freep h \<noteq> 0"
  using ring_mem [of "u_mem h" "unat base" bs "unat (u_brk h)"] unfolding heap_inv_def ring_def
  by (metis fst_image less_nat_zero_code not_less unat_0 le_zero_eq)

lemma own_below: "heap_inv base h bs \<Longrightarrow> own base bs \<subseteq> {..< unat (u_brk h)}"
proof -
  assume "heap_inv base h bs"
  then have r: "ring (u_mem h) (unat base) bs (unat (u_brk h))" by (simp add: heap_inv_def)
  then have ok: "blocks_ok (unat base + 7) bs (unat (u_brk h))" "unat base + 8 \<le> unat (u_brk h)" by (simp_all add: ring_def)
  have "end_of (unat base + 7) bs \<le> unat (u_brk h)" by (rule end_of_hi [OF ok(1)]) (use ok(2) in simp)
  then show ?thesis using cover_bounds [OF ok(1)] ok(2) by (auto simp: own_def)
qed

context sbrk_contract
begin

lemma morecore_grows:
  assumes inv: "heap_inv base h bs" and k: "0 < k" "8 * k < 2147483648"
  shows "morecore sbrk (of_nat k) h = Some (0, h) \<or>
    (\<exists>h' bs'. morecore sbrk (of_nat k) h = Some (u_freep h', h') \<and> grown base h bs h' bs' \<and> (\<exists>(a, n) \<in> set bs'. k \<le> n))"
proof -
  let ?b = "unat base" and ?hi = "unat (u_brk h)"
  define nu where "nu = max 4096 k"
  have nu: "(if (of_nat k :: u32) < 4096 then 4096 else of_nat k) = (of_nat nu :: u32)"
    using of_nat_less_u32 [of k 4096] k(2) by (simp add: nu_def max_def)
  have n: "0 < nu" "k \<le> nu" "8 * nu < 2147483648" using k by (auto simp: nu_def)
  have n8: "of_nat nu * 8 = (of_nat (8 * nu) :: u32)" by simp
  have u8: "unat (of_nat (8 * nu) :: u32) = 8 * nu" using n by (intro unat_of_nat_u32) linarith
  obtain p h1 where s: "sbrk (of_nat (8 * nu)) h = (p, h1)" by fastforce
  have brk: "u_brk h < KERNBASE" using inv by (simp add: heap_inv_def)
  from sbrk_grows [OF _ _ brk s] n u8
  consider "p = - 1" "h1 = h"
    | (ok) "p = u_brk h" "unat (u_brk h1) = ?hi + 8 * nu" "u_brk h1 < KERNBASE" "u_freep h1 = u_freep h"
        "agree {..< ?hi} (u_mem h) (u_mem h1)" by auto
  then show ?thesis
  proof cases
    case 1
    then show ?thesis using s unfolding morecore_def Let_def nu n8 by simp
  next
    case ok
    have p: "p \<noteq> - 1" using brk ok(1) by auto
    define h2 where "h2 = h1\<lparr>u_mem := store32 (p + 4) (of_nat nu) (u_mem h1)\<rparr>"
    have hi: "?hi < 2147483648" "?hi + 8 * nu < 2147483648"
      using brk ok(3) by (simp_all add: word_less_nat_alt ok(2))
    have pn: "p = of_nat ?hi" using ok(1) by simp
    have a2: "agree {..< ?hi} (u_mem h) (u_mem h2)"
    proof (rule agree_trans [OF ok(5)])
      have "agree {..< ?hi} (u_mem h1) (store32 (of_nat (?hi + 4)) (of_nat nu) (u_mem h1))"
        by (rule agree_store) (use hi in auto)
      then show "agree {..< ?hi} (u_mem h1) (u_mem h2)" using pn by (simp add: h2_def)
    qed
    have rg: "ring (u_mem h) ?b bs ?hi" using inv by (simp add: heap_inv_def)
    have "seg (u_mem h2) ((?b, 0) # bs) ?b"
    proof (rule seg_agree [OF _ a2])
      show "seg (u_mem h) ((?b, 0) # bs) ?b" using rg by (simp add: ring_def)
      fix a n
      assume "(a, n) \<in> set ((?b, 0) # bs)"
      then show "{a ..< a + 8} \<subseteq> {..< ?hi} \<and> a + 8 \<le> M32" using ring_mem [OF rg, of a n] hi by auto
    qed
    moreover have "blocks_ok (?b + 7) bs (?hi + 8 * nu)" by (rule blocks_ok_hi [of _ _ ?hi]) (use rg in \<open>simp_all add: ring_def\<close>)
    ultimately have "ring (u_mem h2) ?b bs (?hi + 8 * nu)" using rg hi by (simp add: ring_def)
    then have inv2: "heap_inv base h2 bs" using inv ok by (simp add: heap_inv_def h2_def)
    have u: "unat (p + 8) = ?hi + 8" using unat_plus_of_nat [of "u_brk h" 8] hi ok(1) by simp
    have "cover bs \<inter> {?hi ..< ?hi + 8 * nu} = {}" using own_below [OF inv] by (auto simp: own_def)
    then have al: "allocated base h2 bs (p + 8) nu"
      unfolding allocated_def u using n rg ok(2) by (auto simp: h2_def bytes_of_def ring_def)
    obtain h' bs' where f: "ufree (p + 8) h2 = Some h'" "heap_inv base h' bs'" "freed ?hi nu bs bs'" "u_brk h' = u_brk h2"
        "agree (- (own base bs \<union> bytes_of (?hi, nu))) (u_mem h2) (u_mem h')"
      using freed_effect [OF inv2 al] unfolding u by auto
    have "morecore sbrk (of_nat k) h = Some (u_freep h', h')"
      using s p f(1) unfolding morecore_def Let_def nu n8 by (simp add: h2_def)
    moreover have "grown base h bs h' bs'"
    proof -
      have "agree ({..< ?hi} - own base bs) (u_mem h) (u_mem h')"
        by (rule agree_trans [OF agree_mono [OF a2] agree_mono [OF f(5)]]) (auto simp: bytes_of_def)
      moreover have "unat (u_brk h') = ?hi + 8 * nu" using f(4) ok(2) by (simp add: h2_def)
      ultimately show ?thesis using f(2,3) by (simp add: grown_def freed_def bytes_of_def)
    qed
    moreover have "\<exists>(a, n) \<in> set bs'. k \<le> n"
    proof -
      obtain x where "x \<in> set bs'" "nu \<le> snd x" using f(3) unfolding freed_def by auto
      then show ?thesis using n(2) by (intro bexI [of _ x]) auto
    qed
    ultimately show ?thesis by blast
  qed
qed

end

section \<open>malloc returns a block\<close>

text \<open>
  \<open>malloc_result\<close>: a null pointer, when no free block has \<open>k\<close> headers and the process does not grow;
  or a block of \<open>k\<close> headers, taken from what was free and from what the process has grown by.
  Memory of the program is not written.
\<close>

definition malloc_result :: "u32 \<Rightarrow> nat \<Rightarrow> uheap \<Rightarrow> block list \<Rightarrow> u32 \<Rightarrow> uheap \<Rightarrow> block list \<Rightarrow> bool" where
  "malloc_result base k h bs r h' bs' \<longleftrightarrow>
     heap_inv base h' bs' \<and> unat (u_brk h) \<le> unat (u_brk h') \<and>
     agree ({..< unat (u_brk h)} - own base bs) (u_mem h) (u_mem h') \<and>
     (if r = 0 then (\<forall>(a, n) \<in> set bs. n < k) \<and> u_brk h' = u_brk h \<and> cover bs' = cover bs
      else allocated base h' bs' r k \<and>
        cover bs' \<union> bytes_of (unat r - 8, k) = cover bs \<union> {unat (u_brk h) ..< unat (u_brk h')})"

text \<open>Before the first \<open>malloc\<close> there is no list; afterwards the invariant holds.\<close>

definition heap_ok :: "u32 \<Rightarrow> uheap \<Rightarrow> block list \<Rightarrow> bool" where
  "heap_ok base h bs \<longleftrightarrow> heap_inv base h bs \<or>
     u_freep h = 0 \<and> bs = [] \<and> base \<noteq> 0 \<and> unat base + 8 \<le> unat (u_brk h) \<and> u_brk h < KERNBASE"

lemma init_base_inv:
  assumes "heap_ok base h bs"
  shows "heap_inv base (init_base base h) bs" "u_brk (init_base base h) = u_brk h"
    "agree ({..< unat (u_brk h)} - own base bs) (u_mem h) (u_mem (init_base base h))"
proof -
  show "u_brk (init_base base h) = u_brk h" by (simp add: init_base_def)
  have "heap_inv base (init_base base h) bs \<and> agree ({..< unat (u_brk h)} - own base bs) (u_mem h) (u_mem (init_base base h))"
  proof (cases "heap_inv base h bs")
    case True
    then show ?thesis using heap_inv_freep [OF True] by (simp add: init_base_def)
  next
    case False
    then have h: "u_freep h = 0" "bs = []" "base \<noteq> 0" "unat base + 8 \<le> unat (u_brk h)" "u_brk h < KERNBASE"
      using assms by (simp_all add: heap_ok_def)
    have lt: "unat (u_brk h) < 2147483648" using h(5) by (simp add: word_less_nat_alt)
    have "0 < unat base" using h(3) by (simp add: unat_gt_0)
    let ?m = "store32 (base + 4) 0 (store32 base base (u_mem h))"
    have "header ?m (unat base) (unat base) 0" by (simp add: header_def)
    then have "ring ?m (unat base) [] (unat (u_brk h))" using h(4) lt \<open>0 < unat base\<close> by (simp add: ring_def)
    then have "heap_inv base (init_base base h) bs" using h by (simp add: heap_inv_def init_base_def)
    moreover have "agree ({..< unat (u_brk h)} - own base bs) (u_mem h) ?m"
    proof -
      let ?A = "{..< unat (u_brk h)} - own base bs"
      have "agree ?A (u_mem h) (store32 (of_nat (unat base)) base (u_mem h))"
        by (rule agree_store) (use h lt in \<open>auto simp: own_def\<close>)
      moreover have "agree ?A (store32 base base (u_mem h)) (store32 (of_nat (unat base + 4)) 0 (store32 base base (u_mem h)))"
        by (rule agree_store) (use h lt in \<open>auto simp: own_def\<close>)
      ultimately show ?thesis by (simp add: agree_def)
    qed
    ultimately show ?thesis using h by (simp add: init_base_def)
  qed
  then show "heap_inv base (init_base base h) bs" "agree ({..< unat (u_brk h)} - own base bs) (u_mem h) (u_mem (init_base base h))"
    by simp_all
qed

lemma units_size:
  assumes "nbytes \<le> 0x7FFFFFF0"
  shows "units nbytes = of_nat (unat (units nbytes))" "unat nbytes + 8 \<le> 8 * unat (units nbytes)"
    "0 < unat (units nbytes)" "8 * unat (units nbytes) < 2147483648"
proof -
  have n: "unat nbytes \<le> 2147483632" using assms by (simp add: word_le_nat_alt)
  have "unat (nbytes + 7) = unat nbytes + 7" using unat_plus_of_nat [of nbytes 7] n by simp
  then have "unat ((nbytes + 7) div 8) = (unat nbytes + 7) div 8" by (simp add: unat_div)
  moreover have "(unat nbytes + 7) div 8 + 1 < M32" using n by linarith
  ultimately have u: "unat (units nbytes) = (unat nbytes + 7) div 8 + 1"
    using unat_plus_of_nat [of "(nbytes + 7) div 8" 1] by (simp add: units_def add.commute)
  show "unat nbytes + 8 \<le> 8 * unat (units nbytes)" unfolding u by presburger
  show "8 * unat (units nbytes) < 2147483648" unfolding u using n by presburger
  show "0 < unat (units nbytes)" unfolding u by simp
qed simp

lemma taken_result:
  assumes t: "taken base k h1 bs1 r h' bs'" and g: "grown base h bs h1 bs1"
  shows "malloc_result base k h bs r h' bs'"
proof -
  have "r \<noteq> 0" using t by (auto simp: taken_def allocated_def)
  have "own base bs1 \<subseteq> own base bs \<union> {unat (u_brk h) ..}" using g by (auto simp: grown_def own_def)
  then have "agree ({..< unat (u_brk h)} - own base bs) (u_mem h1) (u_mem h')"
    using t unfolding taken_def by (elim conjE agree_mono) auto
  then have "agree ({..< unat (u_brk h)} - own base bs) (u_mem h) (u_mem h')"
    using g unfolding grown_def by (blast intro: agree_trans)
  then show ?thesis using t g \<open>r \<noteq> 0\<close> by (simp add: malloc_result_def taken_def grown_def)
qed

context sbrk_contract
begin

lemma search_result:
  assumes g: "grown base h bs h1 bs1" and k: "0 < k" "8 * k < 2147483648" and fit: "\<exists>(a, n) \<in> set bs1. k \<le> n"
  shows "\<exists>r h' bs'. malloc_loop sbrk (of_nat k) (u_freep h1) (ptr_of (u_mem h1) (u_freep h1)) h1 = Some (r, h') \<and>
    malloc_result base k h bs r h' bs'"
proof -
  have inv: "heap_inv base h1 bs1" using g by (simp add: grown_def)
  have "k < M32" using k by simp
  from malloc_search [OF inv k(1) this, of sbrk] fit obtain xs p n ys where b: "bs1 = xs @ (p, n) # ys" "k \<le> n"
      and l: "malloc_loop sbrk (of_nat k) (u_freep h1) (ptr_of (u_mem h1) (u_freep h1)) h1 =
        Some (take_block (of_nat k) (of_nat (fst (last ((unat base, 0) # xs)))) (of_nat p) h1)"
    by fastforce
  from take_block_taken [OF inv b(1) k(1) b(2) refl] show ?thesis using taken_result [OF _ g] l by metis
qed

lemma malloc_returns:
  assumes ok: "heap_ok base h bs" and nb: "nbytes \<le> 0x7FFFFFF0"
  shows "\<exists>r h' bs'. malloc sbrk base nbytes h = Some (r, h') \<and> malloc_result base (unat (units nbytes)) h bs r h' bs'"
proof -
  define k where "k = unat (units nbytes)"
  note u = units_size [OF nb, folded k_def]
  define h1 where "h1 = init_base base h"
  note ini = init_base_inv [OF ok, folded h1_def]
  have g: "grown base h bs h1 bs" using ini by (simp add: grown_def)
  have m: "malloc sbrk base nbytes h = malloc_loop sbrk (of_nat k) (u_freep h1) (ptr_of (u_mem h1) (u_freep h1)) h1"
    unfolding malloc_def Let_def h1_def [symmetric] u(1) [symmetric] ..
  have k: "k < M32" using u(4) by simp
  show ?thesis
  proof (cases "\<exists>(a, n) \<in> set bs. k \<le> n")
    case True
    show ?thesis unfolding m k_def [symmetric] by (rule search_result [OF g u(3,4) True])
  next
    case False
    then have small: "\<forall>(a, n) \<in> set bs. n < k" by (auto simp: not_le)
    have l: "malloc_loop sbrk (of_nat k) (u_freep h1) (ptr_of (u_mem h1) (u_freep h1)) h1 =
        Option.bind (morecore sbrk (of_nat k) h1) (and_again sbrk (of_nat k))"
      using malloc_search [OF ini(1) u(3) k, of sbrk] False by fastforce
    from morecore_grows [OF ini(1) u(3,4)] show ?thesis
    proof (elim disjE exE conjE)
      assume "morecore sbrk (of_nat k) h1 = Some (0, h1)"
      then have "malloc sbrk base nbytes h = Some (0, h1)" using m l by (simp add: and_again_def)
      moreover have "malloc_result base k h bs 0 h1 bs" using ini small by (simp add: malloc_result_def)
      ultimately show ?thesis by (auto simp: k_def)
    next
      fix h2 bs2
      assume h: "morecore sbrk (of_nat k) h1 = Some (u_freep h2, h2)" "grown base h1 bs h2 bs2" "\<exists>(a, n) \<in> set bs2. k \<le> n"
      have "u_freep h2 \<noteq> 0" using h(2) heap_inv_freep [of base h2 bs2] by (simp add: grown_def)
      then have m2: "malloc sbrk base nbytes h = malloc_loop sbrk (of_nat k) (u_freep h2) (ptr_of (u_mem h2) (u_freep h2)) h2"
        using m l h(1) by (simp add: and_again_def)
      have "grown base h bs h2 bs2" using h(2) ini(2,3) unfolding grown_def by (auto intro: agree_trans)
      from search_result [OF this u(3,4) h(3)] show ?thesis unfolding m2 k_def [symmetric] .
    qed
  qed
qed

end

section \<open>The allocator on the kernel's sbrk\<close>

lemma usbrk_grows:
  assumes n: "0 < unat n" "unat n < 2147483648" and b: "u_brk h < KERNBASE" and s: "usbrk grows n h = (p, h')"
  shows "p = - 1 \<and> h' = h \<or>
    p = u_brk h \<and> unat (u_brk h') = unat (u_brk h) + unat n \<and> u_brk h' < KERNBASE \<and> u_freep h' = u_freep h \<and>
      agree {..< unat (u_brk h)} (u_mem h) (u_mem h')"
proof -
  have bl: "unat (u_brk h) < 2147483648" using b by (simp add: word_less_nat_alt)
  have un: "uint n = int (unat n)" by simp
  have "uint n < 2147483648" "0 < uint n" using n unfolding un by linarith+
  then have sn: "sint n > 0" by (simp add: sint_u32_cases)
  have u: "unat (u_brk h + n) = unat (u_brk h) + unat n" by (rule unat_add_nowrap) (use n bl in simp)
  have lt: "\<not> u_brk h + n < u_brk h" by (simp add: word_less_nat_alt u)
  have zero: "agree {..< unat (u_brk h)} (u_mem h)
      (\<lambda>x. if PGROUNDUP (u_brk h) \<le> x \<and> x < PGROUNDUP (u_brk h + n) then 0 else u_mem h x)"
    unfolding agree_def
  proof (intro ballI impI)
    fix x
    assume x: "x \<in> {..< unat (u_brk h)}" "x < M32"
    have "unat (u_brk h) \<le> unat (PGROUNDUP (u_brk h))" using unat_PGROUNDUP [of "u_brk h"] bl by simp
    then have "\<not> PGROUNDUP (u_brk h) \<le> of_nat x" using x by (simp add: word_le_nat_alt unat_of_nat_u32)
    then show "u_mem h (of_nat x) = (if PGROUNDUP (u_brk h) \<le> of_nat x \<and> of_nat x < PGROUNDUP (u_brk h + n) then 0 else u_mem h (of_nat x))"
      by simp
  qed
  show ?thesis using s sn lt u zero by (auto simp: usbrk_def Let_def split: if_splits)
qed

interpretation kernel_sbrk: sbrk_contract "usbrk grows" for grows
  by unfold_locales (rule usbrk_grows)

text \<open>C22: \<open>malloc\<close> returns, for every request up to \<open>0x7FFFFFF0\<close> bytes and whether or not the kernel has memory left.  The result is null only when no free block is large enough and the process did not grow; otherwise it is a block with room for the request and its header, cut out of the free blocks and the new memory, that overlaps no block still free.  The circular list stays in order, and no byte of the program's memory is written.\<close>

theorem malloc_takes_block:
  assumes "heap_ok base h bs" and "nbytes \<le> 0x7FFFFFF0"
  shows "\<exists>r h' bs'. malloc (usbrk grows) base nbytes h = Some (r, h') \<and>
    malloc_result base (unat (units nbytes)) h bs r h' bs' \<and> unat nbytes + 8 \<le> 8 * unat (units nbytes)"
  using kernel_sbrk.malloc_returns [OF assms, of grows] units_size(2) [OF assms(2)] by blast

definition new_heap :: uheap where
  "new_heap = \<lparr>u_mem = (\<lambda>_. 0), u_freep = 0, u_brk = 0x3000\<rparr>"

lemma new_heap_ok: "heap_ok 0x1000 new_heap []"
  by (simp add: heap_ok_def new_heap_def)

theorem malloc_takes_block_witness:
  "\<exists>r h' bs'. malloc (usbrk True) 0x1000 10 new_heap = Some (r, h') \<and>
     malloc_result 0x1000 (unat (units 10)) new_heap [] r h' bs' \<and> unat (10 :: u32) + 8 \<le> 8 * unat (units 10)"
  by (rule malloc_takes_block) (simp_all add: new_heap_ok)

text \<open>C23: \<open>free\<close> returns and gives back exactly the block: its bytes are free again, joined to their neighbours where they touch, the list stays in order, and nothing outside the free blocks, \<open>base\<close> and the block itself is written.\<close>

theorem free_returns_block:
  assumes "heap_inv base h bs" and "allocated base h bs r n"
  shows "\<exists>h' bs'. ufree r h = Some h' \<and> heap_inv base h' bs' \<and> u_brk h' = u_brk h \<and>
    cover bs' = cover bs \<union> {unat r - 8 ..< unat r - 8 + 8 * n} \<and>
    agree (- (own base bs \<union> {unat r - 8 ..< unat r - 8 + 8 * n})) (u_mem h) (u_mem h')"
  using freed_effect [OF assms] by (fastforce simp: freed_def bytes_of_def)

text \<open>Two blocks of the heap from \<open>0x2000\<close> on, the second one free; the first one is freed.\<close>

definition two_blocks :: uheap where
  "two_blocks = \<lparr>u_mem = put_header 0x1000 0x2010 0 (put_header 0x2010 0x1000 5 (put_header 0x2000 0 2 (\<lambda>_. 0))),
     u_freep = 0x1000, u_brk = 0x3000\<rparr>"

lemma two_blocks_inv: "heap_inv 0x1000 two_blocks [(0x2010, 5)]" "allocated 0x1000 two_blocks [(0x2010, 5)] 0x2008 2"
  by (simp_all add: heap_inv_def ring_def header_def allocated_def two_blocks_def put_header_def load32_def store32_def
    word32_def bytes_of_def)

theorem free_returns_block_witness:
  "\<exists>h' bs'. ufree 0x2008 two_blocks = Some h' \<and> heap_inv 0x1000 h' bs' \<and> cover bs' = {0x2000 ..< 0x2038}"
proof -
  obtain h' bs' where "ufree 0x2008 two_blocks = Some h'" "heap_inv 0x1000 h' bs'"
      "cover bs' = cover [(0x2010, 5)] \<union> {unat (0x2008 :: u32) - 8 ..< unat (0x2008 :: u32) - 8 + 8 * 2}"
    using free_returns_block [OF two_blocks_inv] by blast
  moreover have "cover [(0x2010, 5)] \<union> {unat (0x2008 :: u32) - 8 ..< unat (0x2008 :: u32) - 8 + 8 * 2} = {0x2000 ..< 0x2038}"
    by (auto simp: bytes_of_def)
  ultimately show ?thesis by blast
qed

text \<open>The size in headers wraps around: the largest requests are taken for a request of no bytes.\<close>

lemma malloc_huge:
  assumes "nbytes \<ge> 0xFFFFFFF9"
  shows "malloc sbrk base nbytes h = malloc sbrk base 0 h"
proof -
  have n: "4294967289 \<le> unat nbytes" using assms by (simp add: word_le_nat_alt)
  obtain d where d: "unat nbytes + 7 = d + M32" using n by (intro that [of "unat nbytes + 7 - M32"]) simp
  have "nbytes + 7 = of_nat (unat nbytes + 7)" by simp
  also have "\<dots> = of_nat d" unfolding d by (simp only: of_nat_add) simp
  finally have "unat (nbytes + 7) = d" using d unat_u32_bound [of nbytes] by (simp add: unat_of_nat_u32)
  then have "unat (nbytes + 7) < 8" using d unat_u32_bound [of nbytes] by linarith
  then have "(nbytes + 7) div 8 = 0" by (simp add: word_arith_nat_div)
  moreover have "(7 :: u32) div 8 = 0" by simp
  moreover have "nbytes + 8 - 1 = nbytes + 7" "0 + 8 - 1 = (7 :: u32)" by simp_all
  ultimately have "units nbytes = units 0" by (simp only: units_def)
  then show ?thesis by (simp add: malloc_def)
qed

end
