(* ===== verification/Vm_Props.thy ===== *)
theory Vm_Props
  imports Vm
begin

text \<open>
  What the routines of \<open>vm.c\<close> do to the translation of addresses.

  A page directory is well formed (\<open>pd_ok\<close>) when its page tables are pages of their own;
  \<open>vm_ok\<close> adds that none of these pages is on the free list.  \<open>walkpgdir\<close> then changes no
  translation, a store into an entry changes the translation of one page, and \<open>mappages\<close> maps
  exactly its range.  On these rest the properties of \<open>setupkvm\<close> and \<open>copyuvm\<close>.
\<close>

section \<open>Pages and their words\<close>

definition same_but_pages :: "u32 set \<Rightarrow> mem \<Rightarrow> mem \<Rightarrow> bool" where
  "same_but_pages X m m' \<longleftrightarrow> (\<forall>x. (\<forall>p \<in> X. \<not> in_range x p 4096) \<longrightarrow> m' x = m x)"

lemma same_but_pages_refl [simp]: "same_but_pages X m m"
  by (simp add: same_but_pages_def)

lemma same_but_pages_trans: "same_but_pages X m m' \<Longrightarrow> same_but_pages Y m' m'' \<Longrightarrow> X \<subseteq> Z \<Longrightarrow> Y \<subseteq> Z \<Longrightarrow> same_but_pages Z m m''"
  by (auto simp: same_but_pages_def subset_iff)

lemma same_but_pages_mono: "same_but_pages X m m' \<Longrightarrow> X \<subseteq> Y \<Longrightarrow> same_but_pages Y m m'"
  by (auto simp: same_but_pages_def)

lemma same_but_pages_byte:
  assumes "same_but_pages X m m'" "aligned p" "p \<notin> X" "\<forall>q \<in> X. aligned q" "in_range x p 4096"
  shows "m' x = m x"
proof -
  have "\<not> in_range x q 4096" if "q \<in> X" for q
  proof
    assume "in_range x q 4096"
    moreover have "aligned q" using assms(4) that by blast
    ultimately have "p = q" using pages_disjoint [OF assms(2) _ assms(5)] by simp
    then show False using assms(3) that by simp
  qed
  then show ?thesis using assms(1) by (simp add: same_but_pages_def)
qed

lemma unat_times_4: "unat i < 1024 \<Longrightarrow> unat (4 * i :: u32) = 4 * unat i"
  by (subst unat_mult_lem [THEN iffD1]) simp_all

lemma in_entry:
  assumes "unat i < 1024"
  shows "in_range x (p + 4 * i) 4 \<longleftrightarrow> unat (x - p) div 4 = unat i"
proof -
  have u: "unat (4 * i) = 4 * unat i" using assms by (rule unat_times_4)
  show ?thesis
  proof
    assume "in_range x (p + 4 * i) 4"
    then obtain k where k: "k < 4" "x = p + 4 * i + of_nat k" by (rule in_rangeE) simp
    then have "x - p = 4 * i + of_nat k" by simp
    moreover have "unat (4 * i + of_nat k) = 4 * unat i + k"
      using unat_plus_of_nat [of "4 * i" k] u assms k(1) by simp
    ultimately show "unat (x - p) div 4 = unat i" using k(1) by simp
  next
    assume h: "unat (x - p) div 4 = unat i"
    then have "4 * unat i \<le> unat (x - p)" "unat (x - p) < 4 * unat i + 4" by presburger+
    then have "unat (x - p - 4 * i) = unat (x - p) - 4 * unat i" using u by (simp add: unat_sub_le word_le_nat_alt)
    then have "unat (x - (p + 4 * i)) < 4" using \<open>unat (x - p) < 4 * unat i + 4\<close> by (simp add: algebra_simps)
    then show "in_range x (p + 4 * i) 4" by (simp add: in_range_def)
  qed
qed

lemma entry_in_page: "unat i < 1024 \<Longrightarrow> in_range x (p + 4 * i) 4 \<Longrightarrow> in_range x p 4096"
proof -
  assume "unat i < 1024" "in_range x (p + 4 * i) 4"
  then have "unat (x - p) div 4 < 1024" by (simp only: in_entry)
  then show ?thesis unfolding in_range_def by linarith
qed

lemma load_entry_off_pages:
  assumes "same_but_pages X m m'" "aligned p" "p \<notin> X" "\<forall>q \<in> X. aligned q" "unat i < 1024"
  shows "load32 m' (p + 4 * i) = load32 m (p + 4 * i)"
  by (rule load32_cong) (rule same_but_pages_byte [OF assms(1-4)], rule entry_in_page [OF assms(5)])

lemma store_entry_outside: "unat i < 1024 \<Longrightarrow> same_but_pages {p} m (store32 (p + 4 * i) v m)"
  unfolding same_but_pages_def by (auto intro!: store32_other dest: entry_in_page)

lemma load_store_entry:
  assumes "aligned p" "aligned q" "unat i < 1024" "unat j < 1024"
  shows "load32 (store32 (p + 4 * i) v m) (q + 4 * j) = (if p = q \<and> i = j then v else load32 m (q + 4 * j))"
proof (cases "p = q \<and> i = j")
  case False
  have "\<not> in_range x (p + 4 * i) 4" if h: "in_range x (q + 4 * j) 4" for x
  proof
    assume p: "in_range x (p + 4 * i) 4"
    have "p = q" using pages_disjoint [OF assms(1,2)] entry_in_page [OF assms(3) p] entry_in_page [OF assms(4) h] .
    moreover have "unat i = unat j" using p h assms(3,4) \<open>p = q\<close> by (simp add: in_entry)
    ultimately show False using False by (simp add: word_unat_eq_iff)
  qed
  then show ?thesis using False by (subst load32_store32_other) auto
qed simp

lemma load_zeroed: "unat i < 1024 \<Longrightarrow> load32 (memset p 0 4096 m) (p + 4 * i) = 0"
proof -
  assume i: "unat i < 1024"
  have "load32 (memset p 0 4096 m) (p + 4 * i) = load32 (\<lambda>_. 0) (p + 4 * i)"
    by (rule load32_cong) (use entry_in_page [OF i] in \<open>auto simp: memset_apply\<close>)
  then show ?thesis by (simp add: load32_def word32_def)
qed

lemma memset_outside: "same_but_pages {p} m (memset p c 4096 m)"
  by (auto simp: same_but_pages_def memset_apply)

section \<open>Page directories\<close>

abbreviation (input) entry :: "mem \<Rightarrow> u32 \<Rightarrow> u32 \<Rightarrow> u32" where
  "entry m pgdir va \<equiv> load32 m (pgdir + 4 * PDX va)"

definition tab :: "mem \<Rightarrow> u32 \<Rightarrow> u32 \<Rightarrow> u32" where
  "tab m pgdir va = P2V (PTE_ADDR (entry m pgdir va))"

definition tables :: "mem \<Rightarrow> u32 \<Rightarrow> u32 set" where
  "tables m pgdir = insert pgdir (tab m pgdir ` {va. pde_present m pgdir va})"

definition pd_ok :: "mem \<Rightarrow> u32 \<Rightarrow> bool" where
  "pd_ok m pgdir \<longleftrightarrow> aligned pgdir \<and> pgdir \<noteq> 0 \<and>
     (\<forall>a. pde_present m pgdir a \<longrightarrow> tab m pgdir a \<noteq> pgdir \<and> tab m pgdir a \<noteq> 0) \<and>
     (\<forall>a b. pde_present m pgdir a \<and> pde_present m pgdir b \<and> tab m pgdir a = tab m pgdir b \<longrightarrow> PDX a = PDX b)"

definition vm_ok :: "u32 \<Rightarrow> u32 \<Rightarrow> kmem \<Rightarrow> u32 list \<Rightarrow> bool" where
  "vm_ok kend pgdir s ps \<longleftrightarrow> pd_ok (km_mem s) pgdir \<and> freelist_is kend s ps \<and> tables (km_mem s) pgdir \<inter> set ps = {}"

text \<open>From \<open>s\<close> to \<open>s'\<close> the directory may have taken pages off the free list; nothing else is written.\<close>

definition grew :: "u32 \<Rightarrow> u32 \<Rightarrow> kmem \<Rightarrow> u32 list \<Rightarrow> kmem \<Rightarrow> u32 list \<Rightarrow> bool" where
  "grew kend pgdir s ps s' ps' \<longleftrightarrow> vm_ok kend pgdir s' ps' \<and>
     (\<exists>us. ps = us @ ps' \<and> tables (km_mem s') pgdir \<subseteq> tables (km_mem s) pgdir \<union> set us \<and>
        same_but_pages (tables (km_mem s) pgdir \<union> set us) (km_mem s) (km_mem s'))"

lemma grew_refl: "vm_ok kend pgdir s ps \<Longrightarrow> grew kend pgdir s ps s ps"
  by (auto simp: grew_def)

lemma grew_trans: "grew kend pgdir s ps s' ps' \<Longrightarrow> grew kend pgdir s' ps' s'' ps'' \<Longrightarrow> grew kend pgdir s ps s'' ps''"
proof -
  assume a: "grew kend pgdir s ps s' ps'" and b: "grew kend pgdir s' ps' s'' ps''"
  obtain us where u: "ps = us @ ps'" "tables (km_mem s') pgdir \<subseteq> tables (km_mem s) pgdir \<union> set us"
    "same_but_pages (tables (km_mem s) pgdir \<union> set us) (km_mem s) (km_mem s')" using a by (auto simp: grew_def)
  obtain vs where v: "ps' = vs @ ps''" "tables (km_mem s'') pgdir \<subseteq> tables (km_mem s') pgdir \<union> set vs"
    "same_but_pages (tables (km_mem s') pgdir \<union> set vs) (km_mem s') (km_mem s'')" using b by (auto simp: grew_def)
  have "same_but_pages (tables (km_mem s) pgdir \<union> set (us @ vs)) (km_mem s) (km_mem s'')"
    by (rule same_but_pages_trans [OF u(3) v(3)]) (use u(2) in auto)
  then show ?thesis using b u v unfolding grew_def by (intro conjI exI [of _ "us @ vs"]) auto
qed

lemma PDX_less: "unat (PDX va) < 1024"
proof -
  have "unat va div 4194304 < 1024" using unat_u32_bound [of va] by linarith
  then show ?thesis by (simp add: unat_PDX)
qed

lemma PTX_less: "unat (PTX va) < 1024"
  by (simp add: unat_PTX)

lemma aligned_half: "aligned p \<Longrightarrow> aligned (p + 0x80000000)"
proof -
  assume p: "aligned p"
  have "unat (p + 0x80000000) mod 4096 = (unat p + 2147483648) mod 4294967296 mod 4096"
    by (simp add: unat_word_ariths)
  also have "\<dots> = (unat p + 2147483648) mod 4096" by (rule mod_mod_cancel) simp
  also have "\<dots> = 0" using p by (simp add: mod_add_left_eq [symmetric])
  finally show ?thesis .
qed

lemma aligned_P2V: "aligned (P2V (PTE_ADDR e))"
proof -
  have "unat (PTE_ADDR e) = unat e div 4096 * 4096"
    unfolding PTE_ADDR_def unat_and_not_fff by (simp add: minus_mod_eq_div_mult)
  then have "aligned (PTE_ADDR e)" by simp
  then show ?thesis unfolding P2V_def by (rule aligned_half)
qed

lemma aligned_tables: "pd_ok m pgdir \<Longrightarrow> p \<in> tables m pgdir \<Longrightarrow> aligned p"
  using aligned_P2V by (auto simp: tables_def tab_def pd_ok_def)

lemma pte_addr_tab: "pte_addr m pgdir va = tab m pgdir va + 4 * PTX va"
  by (simp add: pte_addr_def tab_def)

lemma PTE_ADDR_aligned: "aligned p \<Longrightarrow> f AND 0xFFF = f \<Longrightarrow> PTE_ADDR (p OR f) = p"
proof -
  assume p: "aligned p" and f: "f AND 0xFFF = f"
  have "p AND 0xFFF = 0" using p unat_and_fff [of p] by (metis unat_eq_zero)
  then have "p AND NOT 0xFFF = p" using and_plus_and_not [of p "0xFFF"] by simp
  moreover have "f AND NOT 0xFFF = 0" using and_plus_and_not [of f "0xFFF"] f by simp
  ultimately show ?thesis by (simp add: PTE_ADDR_def bit.conj_disj_distrib2)
qed

lemma aligned_V2P: "aligned p \<Longrightarrow> aligned (V2P p)"
proof -
  assume "aligned p"
  moreover have "V2P p = p + 0x80000000" by (simp add: V2P_def)
  ultimately show ?thesis using aligned_half by simp
qed

section \<open>Changes to one entry\<close>

lemma pd_okD:
  assumes "pd_ok m pgdir"
  shows "aligned pgdir" "pgdir \<noteq> 0" "pde_present m pgdir a \<Longrightarrow> tab m pgdir a \<noteq> pgdir \<and> tab m pgdir a \<noteq> 0"
    "pde_present m pgdir a \<Longrightarrow> pde_present m pgdir b \<Longrightarrow> tab m pgdir a = tab m pgdir b \<Longrightarrow> PDX a = PDX b"
  using assms unfolding pd_ok_def by blast+

lemma same_dir:
  assumes "\<And>a. entry m' pgdir a = entry m pgdir a"
  shows "pd_ok m' pgdir = pd_ok m pgdir" "tables m' pgdir = tables m pgdir" "tab m' pgdir = tab m pgdir"
    "pde_present m' pgdir = pde_present m pgdir"
proof -
  show "tab m' pgdir = tab m pgdir" "pde_present m' pgdir = pde_present m pgdir"
    by (auto simp: tab_def pde_present_def assms)
  then show "pd_ok m' pgdir = pd_ok m pgdir" "tables m' pgdir = tables m pgdir"
    by (simp_all add: pd_ok_def tables_def)
qed

lemma translate_same:
  assumes "\<And>a. entry m' pgdir a = entry m pgdir a"
    and "pde_present m pgdir x \<Longrightarrow> load32 m' (tab m pgdir x + 4 * PTX x) = load32 m (tab m pgdir x + 4 * PTX x)"
  shows "translate m' pgdir x = translate m pgdir x"
proof -
  note sd = same_dir(3,4) [of m' pgdir m, OF assms(1)]
  show ?thesis
  proof (cases "pde_present m pgdir x")
    case True
    show ?thesis unfolding translate_def pte_addr_tab sd assms(2) [OF True] by (rule refl)
  next
    case False
    then show ?thesis unfolding translate_def sd by simp
  qed
qed

text \<open>Memory outside its tables does not matter to a directory.\<close>

lemma tables_off_pages:
  assumes ok: "pd_ok m pgdir" and s: "same_but_pages X m m'" "\<forall>q \<in> X. aligned q" "X \<inter> tables m pgdir = {}"
  shows "pd_ok m' pgdir" "tables m' pgdir = tables m pgdir" "translate m' pgdir x = translate m pgdir x"
proof -
  have e: "entry m' pgdir a = entry m pgdir a" for a
    by (rule load_entry_off_pages [OF s(1) _ _ s(2) PDX_less])
      (use pd_okD [OF ok] s(3) in \<open>auto simp: tables_def\<close>)
  show "pd_ok m' pgdir" "tables m' pgdir = tables m pgdir" using same_dir [of m' pgdir m, OF e] ok by simp_all
  show "translate m' pgdir x = translate m pgdir x"
  proof (rule translate_same [OF e])
    assume "pde_present m pgdir x"
    then have "tab m pgdir x \<in> tables m pgdir" by (auto simp: tables_def)
    then have "aligned (tab m pgdir x)" "tab m pgdir x \<notin> X" using aligned_tables [OF ok] s(3) by auto
    then show "load32 m' (tab m pgdir x + 4 * PTX x) = load32 m (tab m pgdir x + 4 * PTX x)"
      by (rule load_entry_off_pages [OF s(1) _ _ s(2) PTX_less])
  qed
qed

lemma freelist_off_pages:
  assumes "freelist_is kend s ps" "same_but_pages X (km_mem s) m'" "\<forall>q \<in> X. aligned q" "X \<inter> set ps = {}"
  shows "freelist_is kend (s\<lparr>km_mem := m'\<rparr>) ps"
proof -
  have "chain m' (km_freelist s) ps = chain (km_mem s) (km_freelist s) ps"
  proof (rule chain_cong)
    fix q x
    assume q: "q \<in> set ps" "in_range x q 4"
    then have "aligned q" using assms(1) by (auto simp: freelist_is_def usable_page_def)
    moreover have "in_range x q 4096" using q(2) by (rule in_range_mono) simp
    moreover have "q \<notin> X" using q(1) assms(4) by auto
    ultimately show "m' x = km_mem s x" using same_but_pages_byte [OF assms(2) _ _ assms(3)] by simp
  qed
  then show ?thesis using assms(1) by (simp add: freelist_is_def)
qed

text \<open>A store into the entry of \<open>va\<close> in its page table.\<close>

lemma translate_store:
  fixes v :: u32
  assumes ok: "pd_ok m pgdir" and va: "pde_present m pgdir va"
  defines "m' \<equiv> store32 (pte_addr m pgdir va) v m"
  shows "pd_ok m' pgdir" "tables m' pgdir = tables m pgdir" "same_but_pages (tables m pgdir) m m'"
    "translate m' pgdir x =
       (if unat x div 4096 = unat va div 4096 then (if v AND PTE_P \<noteq> 0 then Some (PTE_ADDR v + (x AND 0xFFF)) else None)
        else translate m pgdir x)"
proof -
  let ?t = "tab m pgdir va"
  have t: "?t \<in> tables m pgdir" "aligned ?t" "?t \<noteq> pgdir" "aligned pgdir"
    using va aligned_P2V pd_okD(1,3) [OF ok] by (auto simp: tables_def tab_def)
  have m': "m' = store32 (?t + 4 * PTX va) v m" by (simp add: m'_def pte_addr_tab)
  have e: "entry m' pgdir a = entry m pgdir a" for a
    unfolding m' using load_store_entry [OF t(2,4) PTX_less PDX_less] t(3) by simp
  note sd = same_dir [of m' pgdir m, OF e]
  show "pd_ok m' pgdir" "tables m' pgdir = tables m pgdir" using sd ok by simp_all
  show "same_but_pages (tables m pgdir) m m'"
    unfolding m' by (rule same_but_pages_mono [OF store_entry_outside [OF PTX_less]]) (use t in simp)
  show "translate m' pgdir x =
       (if unat x div 4096 = unat va div 4096 then (if v AND PTE_P \<noteq> 0 then Some (PTE_ADDR v + (x AND 0xFFF)) else None)
        else translate m pgdir x)"
  proof (cases "unat x div 4096 = unat va div 4096")
    case True
    then have i: "PDX x = PDX va" "PTX x = PTX va" using same_page_iff by blast+
    then have x: "tab m pgdir x = ?t" "pde_present m pgdir x" using va by (simp_all add: tab_def pde_present_def)
    have "load32 m' (?t + 4 * PTX va) = v" by (simp add: m')
    then show ?thesis using True i x sd by (simp add: translate_def pte_addr_tab)
  next
    case False
    have "translate m' pgdir x = translate m pgdir x"
    proof (rule translate_same [OF e])
      assume p: "pde_present m pgdir x"
      have "\<not> (?t = tab m pgdir x \<and> PTX va = PTX x)"
        using pd_okD(4) [OF ok va p] False same_page_iff [of va x] by auto
      then show "load32 m' (tab m pgdir x + 4 * PTX x) = load32 m (tab m pgdir x + 4 * PTX x)"
        unfolding m' using load_store_entry [OF t(2) _ PTX_less PTX_less, of "tab m pgdir x"] aligned_P2V
        by (auto simp: tab_def)
    qed
    then show ?thesis using False by simp
  qed
qed

lemma kalloc_takes:
  assumes "freelist_is kend s ps" "kalloc s = (p, s')" "p \<noteq> 0"
  shows "\<exists>qs. ps = p # qs \<and> freelist_is kend s' qs \<and> km_mem s' = km_mem s \<and> usable_page kend p \<and> aligned p \<and> p \<notin> set qs"
proof -
  have "p = km_freelist s" using assms(2) by (auto simp: kalloc_def Let_def split: if_splits)
  then show ?thesis using assms
    by (cases ps) (auto simp: freelist_is_def kalloc_def Let_def usable_page_def split: if_splits)
qed

text \<open>\<open>walkpgdir\<close> with \<open>alloc\<close>: the table is there afterwards, and no translation has changed.\<close>

lemma walk_new_table:
  assumes ok: "vm_ok kend pgdir s (p # qs)" and np: "\<not> pde_present (km_mem s) pgdir va"
    and fl: "freelist_is kend s1 qs" "km_mem s1 = km_mem s" and p: "usable_page kend p" "p \<notin> set qs"
  defines "s' \<equiv> upd_mem (store32 (pgdir + 4 * PDX va) (V2P p OR PTE_P OR PTE_W OR PTE_U)) (upd_mem (memset p 0 PGSIZE) s1)"
  shows "grew kend pgdir s (p # qs) s' qs" "translate (km_mem s') pgdir x = translate (km_mem s) pgdir x"
    "pde_present (km_mem s') pgdir va" "tab (km_mem s') pgdir va = p" "load32 (km_mem s') (p + 4 * PTX va) = 0"
proof -
  let ?m = "km_mem s" and ?v = "V2P p OR PTE_P OR PTE_W OR PTE_U"
  have pd: "pd_ok ?m pgdir" and pt: "p \<notin> tables ?m pgdir" and dis: "tables ?m pgdir \<inter> set qs = {}"
    using ok by (auto simp: vm_ok_def)
  have ap: "aligned p" "p \<noteq> 0" using p(1) usable_page_nonzero [OF p(1)] by (simp_all add: usable_page_def)
  have ad: "aligned pgdir" "p \<noteq> pgdir" using pd_okD(1) [OF pd] pt by (auto simp: tables_def)
  define m1 where "m1 = memset p 0 4096 ?m"
  define m' where "m' = store32 (pgdir + 4 * PDX va) ?v m1"
  have s': "km_mem s' = m'" "s' = s1\<lparr>km_mem := m'\<rparr>" by (simp_all add: s'_def upd_mem_def m'_def m1_def fl(2))
  have o1: "same_but_pages {p} ?m m1" unfolding m1_def by (rule memset_outside)
  have o: "same_but_pages {p, pgdir} ?m m'"
    unfolding m'_def by (rule same_but_pages_trans [OF o1 store_entry_outside [OF PDX_less]]) auto
  have e: "entry m' pgdir a = (if PDX a = PDX va then ?v else entry ?m pgdir a)" for a
    unfolding m'_def
  proof -
    have "entry m1 pgdir a = entry ?m pgdir a"
      by (rule load_entry_off_pages [OF o1 ad(1) _ _ PDX_less]) (use ad(2) ap(1) in auto)
    then show "entry (store32 (pgdir + 4 * PDX va) ?v m1) pgdir a = (if PDX a = PDX va then ?v else entry ?m pgdir a)"
      unfolding load_store_entry [OF ad(1) ad(1) PDX_less PDX_less] by auto
  qed
  have vP: "?v AND PTE_P = 1" by (simp add: bit.conj_disj_distrib2)
  have vA: "P2V (PTE_ADDR ?v) = p"
  proof -
    have "PTE_ADDR (V2P p OR 7) = V2P p" by (rule PTE_ADDR_aligned [OF aligned_V2P [OF ap(1)]]) simp
    moreover have "?v = V2P p OR 7" by (simp add: or.assoc)
    ultimately show ?thesis by simp
  qed
  have here: "pde_present m' pgdir a" "tab m' pgdir a = p" if "PDX a = PDX va" for a
    using that e [of a] vP vA by (simp_all add: pde_present_def tab_def)
  have else_p: "pde_present m' pgdir a = pde_present ?m pgdir a" "tab m' pgdir a = tab ?m pgdir a" if "PDX a \<noteq> PDX va" for a
    using that e [of a] by (simp_all add: pde_present_def tab_def)
  show "pde_present (km_mem s') pgdir va" "tab (km_mem s') pgdir va = p" using here [of va] s' by simp_all
  have np': "\<not> pde_present ?m pgdir a" if "PDX a = PDX va" for a using np that by (simp add: pde_present_def)
  have tb: "tab ?m pgdir a \<in> tables ?m pgdir" if "pde_present ?m pgdir a" for a using that by (auto simp: tables_def)
  have T: "tables m' pgdir \<subseteq> tables ?m pgdir \<union> {p}"
    using here else_p tb unfolding tables_def by (auto simp: image_iff) (metis)+
  have pd': "pd_ok m' pgdir"
    unfolding pd_ok_def
  proof (intro conjI allI impI)
    show "aligned pgdir" "pgdir \<noteq> 0" using pd_okD(1,2) [OF pd] by simp_all
    show "tab m' pgdir a \<noteq> pgdir" if "pde_present m' pgdir a" for a
      using that here [of a] else_p [of a] pd_okD(3) [OF pd, of a] ad(2) by metis
    show "tab m' pgdir a \<noteq> 0" if "pde_present m' pgdir a" for a
      using that here [of a] else_p [of a] pd_okD(3) [OF pd, of a] ap(2) by metis
    show "PDX a = PDX b" if h: "pde_present m' pgdir a \<and> pde_present m' pgdir b \<and> tab m' pgdir a = tab m' pgdir b" for a b
    proof (cases "PDX a = PDX va"; cases "PDX b = PDX va")
      assume c: "PDX a = PDX va" "PDX b \<noteq> PDX va"
      then have "pde_present ?m pgdir b" "tab ?m pgdir b = p" using h here [of a] else_p [of b] by auto
      then show ?thesis using tb pt by metis
    next
      assume c: "PDX a \<noteq> PDX va" "PDX b = PDX va"
      then have "pde_present ?m pgdir a" "tab ?m pgdir a = p" using h here [of b] else_p [of a] by auto
      then show ?thesis using tb pt by metis
    next
      assume c: "PDX a \<noteq> PDX va" "PDX b \<noteq> PDX va"
      then show ?thesis using h else_p [of a] else_p [of b] pd_okD(4) [OF pd, of a b] by simp
    qed simp
  qed
  have z: "load32 m' (p + 4 * i) = 0" if "unat i < 1024" for i
    unfolding m'_def m1_def using load_store_entry [OF ad(1) ap(1) PDX_less that, of va] load_zeroed [OF that] ad(2) by simp
  show "load32 (km_mem s') (p + 4 * PTX va) = 0" using z [OF PTX_less] s' by simp
  have "freelist_is kend (s1\<lparr>km_mem := m'\<rparr>) qs"
    by (rule freelist_off_pages [OF fl(1), of "{p, pgdir}"])
      (use o fl(2) ap(1) ad(1) p(2) dis in \<open>auto simp: tables_def\<close>)
  then have "vm_ok kend pgdir s' qs" using pd' T dis p(2) s' unfolding vm_ok_def by auto
  moreover have "same_but_pages (tables ?m pgdir \<union> set [p]) ?m m'"
    by (rule same_but_pages_mono [OF o]) (auto simp: tables_def)
  ultimately show "grew kend pgdir s (p # qs) s' qs"
    unfolding grew_def s'(1) using T by (intro conjI exI [of _ "[p]"]) auto
  show "translate (km_mem s') pgdir x = translate ?m pgdir x"
  proof (cases "PDX x = PDX va")
    case True
    then show ?thesis using here [of x] np' [of x] z [OF PTX_less] s'(1) by (simp add: translate_def pte_addr_tab)
  next
    case False
    have "load32 m' (tab ?m pgdir x + 4 * PTX x) = load32 ?m (tab ?m pgdir x + 4 * PTX x)" if "pde_present ?m pgdir x"
      by (rule load_entry_off_pages [OF o _ _ _ PTX_less])
        (use tb [OF that] aligned_tables [OF pd] pt ap(1) ad(1) pd_okD(3) [OF pd that] in auto)
    then show ?thesis using else_p [OF False] s'(1) by (auto simp: translate_def pte_addr_tab)
  qed
qed

lemma walkpgdir_alloc:
  assumes ok: "vm_ok kend pgdir s ps" and w: "walkpgdir pgdir va True s = (pte, s')"
  shows "\<exists>ps'. grew kend pgdir s ps s' ps' \<and> (\<forall>x. translate (km_mem s') pgdir x = translate (km_mem s) pgdir x) \<and>
    (pte \<noteq> 0 \<longrightarrow> pde_present (km_mem s') pgdir va \<and> pte = pte_addr (km_mem s') pgdir va) \<and> (ps' = ps \<or> ps' = tl ps)"
proof (cases "pde_present (km_mem s) pgdir va")
  case True
  then have "s' = s" "pte = pte_addr (km_mem s) pgdir va"
    using w by (auto simp: walkpgdir_def pde_present_def pte_addr_def Let_def)
  then show ?thesis using grew_refl [OF ok] True by auto
next
  case False
  obtain p s1 where k: "kalloc s = (p, s1)" by fastforce
  have fl: "freelist_is kend s ps" using ok by (simp add: vm_ok_def)
  show ?thesis
  proof (cases "p = 0")
    case True
    then have "pte = 0" "s1 = s" "s' = s1" using w k False
      by (auto simp: walkpgdir_def pde_present_def kalloc_def Let_def split: if_splits)
    then show ?thesis using grew_refl [OF ok] by auto
  next
    case nz: False
    obtain qs where q: "ps = p # qs" "freelist_is kend s1 qs" "km_mem s1 = km_mem s" "usable_page kend p" "p \<notin> set qs"
      using kalloc_takes [OF fl k nz] by blast
    note n = walk_new_table [OF ok [unfolded q(1)] False q(2-5)]
    have "s' = upd_mem (store32 (pgdir + 4 * PDX va) (V2P p OR PTE_P OR PTE_W OR PTE_U)) (upd_mem (memset p 0 PGSIZE) s1)"
      "pte = p + 4 * PTX va"
      using w k nz False by (auto simp: walkpgdir_def pde_present_def Let_def)
    then show ?thesis using n q(1) by (intro exI [of _ qs]) (simp add: pte_addr_tab)
  qed
qed

lemma pte_translate:
  "pde_present m pgdir va \<Longrightarrow> load32 m (pte_addr m pgdir va) AND PTE_P \<noteq> 0 \<longleftrightarrow> translate m pgdir va \<noteq> None"
  by (simp add: translate_def)

text \<open>A present entry is put into the table.\<close>

lemma set_pte_grew:
  assumes ok: "vm_ok kend pgdir s ps" and va: "pde_present (km_mem s) pgdir va"
  shows "grew kend pgdir s ps (upd_mem (store32 (pte_addr (km_mem s) pgdir va) v) s) ps"
proof -
  have pd: "pd_ok (km_mem s) pgdir" "freelist_is kend s ps" "tables (km_mem s) pgdir \<inter> set ps = {}"
    using ok by (simp_all add: vm_ok_def)
  note t = translate_store [OF pd(1) va, of v]
  have "freelist_is kend (s\<lparr>km_mem := store32 (pte_addr (km_mem s) pgdir va) v (km_mem s)\<rparr>) ps"
    by (rule freelist_off_pages [OF pd(2) t(3) _ pd(3)]) (use aligned_tables [OF pd(1)] in blast)
  then show ?thesis using t(1-3) pd(3) by (auto simp: grew_def vm_ok_def upd_mem_def)
qed

definition in_pages :: "u32 \<Rightarrow> nat \<Rightarrow> u32 \<Rightarrow> bool" where
  "in_pages a n x \<longleftrightarrow> unat a \<le> unat x \<and> unat x < unat a + 4096 * n"

lemma in_page_1: "aligned a \<Longrightarrow> unat x div 4096 = unat a div 4096 \<longleftrightarrow> in_pages a 1 x"
  unfolding in_pages_def by auto

lemma page_offset:
  assumes "aligned a" "in_pages a 1 x"
  shows "x AND 0xFFF = x - a"
proof -
  have "unat (x AND 0xFFF) = unat x mod 4096" by (rule unat_and_fff)
  also have "\<dots> = unat x - unat a"
  proof -
    obtain q where q: "unat a = 4096 * q" using assms(1) by auto
    have "unat x = 4096 * q + (unat x - unat a)" "unat x - unat a < 4096" using assms(2) q by (auto simp: in_pages_def)
    then show ?thesis by (metis mod_less mod_mult_self4)
  qed
  also have "\<dots> = unat (x - a)" using assms(2) by (simp add: in_pages_def unat_sub_le word_le_nat_alt)
  finally show ?thesis by (simp add: word_unat_eq_iff)
qed

lemma pte_value:
  assumes "aligned pa" "perm AND 0xFFF = perm"
  shows "(pa OR perm OR PTE_P) AND PTE_P \<noteq> 0" "PTE_ADDR (pa OR perm OR PTE_P) = pa"
proof -
  show "(pa OR perm OR PTE_P) AND PTE_P \<noteq> 0" by (simp add: bit.conj_disj_distrib2 or.assoc [symmetric])
  have "(perm OR PTE_P) AND 0xFFF = perm OR PTE_P" using assms(2) by (simp add: bit.conj_disj_distrib2)
  then show "PTE_ADDR (pa OR perm OR PTE_P) = pa" using PTE_ADDR_aligned [OF assms(1)] by simp
qed

text \<open>The loop of \<open>mappages\<close>, over \<open>n + 1\<close> pages.\<close>

definition maps :: "u32 \<Rightarrow> u32 \<Rightarrow> nat \<Rightarrow> u32 \<Rightarrow> mem \<Rightarrow> mem \<Rightarrow> bool" where
  "maps pgdir a n pa m m' \<longleftrightarrow>
     (\<forall>x. translate m' pgdir x = (if in_pages a n x then Some (pa + (x - a)) else translate m pgdir x)) \<and>
     (\<forall>x. in_pages a n x \<longrightarrow> translate m pgdir x = None)"

lemma translate_page_cong:
  assumes "unat x div 4096 = unat y div 4096"
  shows "(translate m pgdir x = None) = (translate m pgdir y = None)"
proof -
  have "PDX x = PDX y" "PTX x = PTX y" using assms same_page_iff by blast+
  then show ?thesis by (simp add: translate_def pde_present_def pte_addr_def)
qed

lemma maps_one:
  assumes ok: "pd_ok m pgdir" and p: "pde_present m pgdir a" "translate m pgdir a = None"
    and a: "aligned a" "aligned pa" "perm AND 0xFFF = perm"
  shows "maps pgdir a 1 pa m (store32 (pte_addr m pgdir a) (pa OR perm OR PTE_P) m)"
  unfolding maps_def
proof (intro conjI allI impI)
  fix x
  show "translate (store32 (pte_addr m pgdir a) (pa OR perm OR PTE_P) m) pgdir x =
      (if in_pages a 1 x then Some (pa + (x - a)) else translate m pgdir x)"
    using translate_store(4) [OF ok p(1), of "pa OR perm OR PTE_P" x] in_page_1 [OF a(1), of x] page_offset [OF a(1), of x]
      pte_value [OF a(2,3)] by simp
  show "translate m pgdir x = None" if "in_pages a 1 x"
    using that in_page_1 [OF a(1), of x] translate_page_cong [of x a] p(2) by simp
qed

lemma maps_Suc:
  assumes m: "maps pgdir a 1 pa m m1" "maps pgdir (a + 4096) n (pa + 4096) m1 m'"
    and a: "unat a + 4096 * n + 4096 \<le> 4294967296" "0 < n"
  shows "maps pgdir a (Suc n) pa m m'"
proof -
  have a4: "unat (a + 4096) = unat a + 4096" by (rule trans [OF unat_add_nowrap]) (use a in simp_all)
  have p: "in_pages a (Suc n) x \<longleftrightarrow> in_pages a 1 x \<or> in_pages (a + 4096) n x" for x
    unfolding in_pages_def a4 by auto
  have d: "\<not> (in_pages a 1 x \<and> in_pages (a + 4096) n x)" for x unfolding in_pages_def a4 by auto
  have "pa + 4096 + (x - (a + 4096)) = pa + (x - a)" for x by simp
  then show ?thesis using m d unfolding maps_def p by (metis option.distinct(1))
qed

lemma mappages_loop_maps:
  assumes "vm_ok kend pgdir s ps" "aligned a" "unat a + 4096 * n + 4096 \<le> 4294967296" "aligned pa" "perm AND 0xFFF = perm"
    and "mappages_loop pgdir a pa perm n s = Ok (r, s')"
  shows "\<exists>ps'. grew kend pgdir s ps s' ps' \<and>
    (r = 0 \<and> maps pgdir a (Suc n) pa (km_mem s) (km_mem s') \<or>
     r = - 1 \<and> (\<forall>x. \<not> in_pages a (Suc n) x \<longrightarrow> translate (km_mem s') pgdir x = translate (km_mem s) pgdir x))"
  using assms
proof (induction n arbitrary: a pa s ps)
  case (0 a pa s ps)
  obtain pte s1 where w: "walkpgdir pgdir a True s = (pte, s1)" by fastforce
  obtain ps1 where g: "grew kend pgdir s ps s1 ps1" "\<forall>x. translate (km_mem s1) pgdir x = translate (km_mem s) pgdir x"
      "pte \<noteq> 0 \<longrightarrow> pde_present (km_mem s1) pgdir a \<and> pte = pte_addr (km_mem s1) pgdir a"
    using walkpgdir_alloc [OF 0(1) w] by blast
  have ok1: "vm_ok kend pgdir s1 ps1" using g(1) by (simp add: grew_def)
  show ?case
  proof (cases "pte = 0")
    case True
    then have "r = - 1" "s' = s1" using 0(6) w by (auto simp: mappages_loop.simps)
    then show ?thesis using g by auto
  next
    case False
    then have pp: "pde_present (km_mem s1) pgdir a" "pte = pte_addr (km_mem s1) pgdir a" using g(3) by simp_all
    have np: "\<not> load32 (km_mem s1) pte AND PTE_P \<noteq> 0" "r = 0" "s' = upd_mem (store32 pte (pa OR perm OR PTE_P)) s1"
      using 0(6) w False by (auto simp: mappages_loop.simps split: if_splits)
    have "translate (km_mem s1) pgdir a = None" using np(1) pte_translate [OF pp(1)] pp(2) by simp
    then have "maps pgdir a 1 pa (km_mem s1) (km_mem s')"
      using maps_one [OF _ pp(1) _ 0(2,4,5)] ok1 np(3) pp(2) by (simp add: vm_ok_def upd_mem_def)
    then have "maps pgdir a (Suc 0) pa (km_mem s) (km_mem s')" using g(2) by (simp add: maps_def)
    moreover have "grew kend pgdir s ps s' ps1"
      using grew_trans [OF g(1)] set_pte_grew [OF ok1 pp(1)] np(3) pp(2) by simp
    ultimately show ?thesis using np(2) by auto
  qed
next
  case (Suc n a pa s ps)
  obtain pte s1 where w: "walkpgdir pgdir a True s = (pte, s1)" by fastforce
  obtain ps1 where g: "grew kend pgdir s ps s1 ps1" "\<forall>x. translate (km_mem s1) pgdir x = translate (km_mem s) pgdir x"
      "pte \<noteq> 0 \<longrightarrow> pde_present (km_mem s1) pgdir a \<and> pte = pte_addr (km_mem s1) pgdir a"
    using walkpgdir_alloc [OF Suc.prems(1) w] by blast
  have ok1: "vm_ok kend pgdir s1 ps1" using g(1) by (simp add: grew_def)
  show ?case
  proof (cases "pte = 0")
    case True
    then have "r = - 1" "s' = s1" using Suc.prems(6) w by (auto simp: mappages_loop.simps)
    then show ?thesis using g by auto
  next
    case False
    then have pp: "pde_present (km_mem s1) pgdir a" "pte = pte_addr (km_mem s1) pgdir a" using g(3) by simp_all
    define s2 where "s2 = upd_mem (store32 pte (pa OR perm OR PTE_P)) s1"
    have np: "\<not> load32 (km_mem s1) pte AND PTE_P \<noteq> 0" "mappages_loop pgdir (a + 4096) (pa + 4096) perm n s2 = Ok (r, s')"
      using Suc.prems(6) w False by (auto simp: mappages_loop.simps [of _ _ _ _ "Suc n"] s2_def split: if_splits)
    have "translate (km_mem s1) pgdir a = None" using np(1) pte_translate [OF pp(1)] pp(2) by simp
    then have "maps pgdir a 1 pa (km_mem s1) (km_mem s2)"
      using maps_one [OF _ pp(1) _ Suc.prems(2,4,5)] ok1 pp(2) by (simp add: vm_ok_def upd_mem_def s2_def)
    then have m1: "maps pgdir a 1 pa (km_mem s) (km_mem s2)" using g(2) by (simp add: maps_def)
    have g2: "grew kend pgdir s ps s2 ps1" unfolding s2_def
      using grew_trans [OF g(1)] set_pte_grew [OF ok1 pp(1)] pp(2) by simp
    have a4: "unat (a + 4096) = unat a + 4096" by (rule trans [OF unat_add_nowrap]) (use Suc.prems(3) in simp_all)
    have pa4: "aligned (pa + 4096)"
    proof -
      have "unat (pa + 4096) mod 4096 = (unat pa + 4096) mod 4294967296 mod 4096" by (simp add: unat_word_ariths)
      also have "\<dots> = (unat pa + 4096) mod 4096" by (rule mod_mod_cancel) simp
      finally show ?thesis using Suc.prems(4) by simp
    qed
    have aa4: "aligned (a + 4096)" using a4 Suc.prems(2) by simp
    have ok2: "vm_ok kend pgdir s2 ps1" using g2 by (simp add: grew_def)
    have le4: "unat (a + 4096) + 4096 * n + 4096 \<le> 4294967296" using a4 Suc.prems(3) by simp
    obtain ps' where p: "grew kend pgdir s2 ps1 s' ps'"
        "r = 0 \<and> maps pgdir (a + 4096) (Suc n) (pa + 4096) (km_mem s2) (km_mem s') \<or>
         r = - 1 \<and> (\<forall>x. \<not> in_pages (a + 4096) (Suc n) x \<longrightarrow> translate (km_mem s') pgdir x = translate (km_mem s2) pgdir x)"
      using Suc.IH [OF ok2 aa4 le4 pa4 Suc.prems(5) np(2)] by blast
    have "r = 0 \<and> maps pgdir a (Suc (Suc n)) pa (km_mem s) (km_mem s') \<or>
         r = - 1 \<and> (\<forall>x. \<not> in_pages a (Suc (Suc n)) x \<longrightarrow> translate (km_mem s') pgdir x = translate (km_mem s) pgdir x)"
      using p(2)
    proof (elim disjE conjE)
      assume h: "r = 0" "maps pgdir (a + 4096) (Suc n) (pa + 4096) (km_mem s2) (km_mem s')"
      then show ?thesis using maps_Suc [OF m1 h(2)] Suc.prems(3) by simp
    next
      assume h: "r = - 1" "\<forall>x. \<not> in_pages (a + 4096) (Suc n) x \<longrightarrow> translate (km_mem s') pgdir x = translate (km_mem s2) pgdir x"
      have "translate (km_mem s') pgdir x = translate (km_mem s) pgdir x" if "\<not> in_pages a (Suc (Suc n)) x" for x
      proof -
        have "\<not> in_pages (a + 4096) (Suc n) x" "\<not> in_pages a 1 x" using that a4 by (auto simp: in_pages_def)
        then show ?thesis using h(2) m1 by (simp add: maps_def)
      qed
      then show ?thesis using h(1) by simp
    qed
    then show ?thesis using grew_trans [OF g2 p(1)] by blast
  qed
qed

section \<open>mappages\<close>

definition npages :: "u32 \<Rightarrow> u32 \<Rightarrow> nat" where
  "npages va sz = (unat va + unat sz - 1) div 4096 - unat va div 4096 + 1"

lemma page_interval:
  assumes "u \<le> w"
  shows "4096 * u \<le> x \<and> x < 4096 * u + 4096 * (w - u + 1) \<longleftrightarrow> u \<le> x div 4096 \<and> x div 4096 \<le> (w :: nat)"
proof -
  have e: "4096 * u + 4096 * (w - u + 1) = 4096 * w + 4096" using assms by simp
  have "4096 * u \<le> x \<longleftrightarrow> u \<le> x div 4096" "x < 4096 * w + 4096 \<longleftrightarrow> x div 4096 \<le> w" by linarith+
  then show ?thesis unfolding e by simp
qed

lemma mappages_pages:
  assumes "0 < unat sz" "unat va + unat sz \<le> 4294967296"
  shows "mappages pgdir va sz pa perm s = mappages_loop pgdir (PGROUNDDOWN va) pa perm (npages va sz - 1) s"
    "aligned (PGROUNDDOWN va)" "unat (PGROUNDDOWN va) + 4096 * (npages va sz - 1) + 4096 \<le> 4294967296"
    "in_pages (PGROUNDDOWN va) (npages va sz) x \<longleftrightarrow>
       unat va div 4096 \<le> unat x div 4096 \<and> unat x div 4096 \<le> (unat va + unat sz - 1) div 4096"
proof -
  have a: "unat (PGROUNDDOWN v) = 4096 * (unat v div 4096)" for v
    by (simp add: unat_PGROUNDDOWN minus_mod_eq_mult_div)
  have e: "unat (va + sz - 1) = unat va + unat sz - 1"
  proof -
    have z: "sz \<noteq> 0" using assms(1) by auto
    have v: "va + sz - 1 = va + (sz - 1)" by simp
    have "unat (va + (sz - 1)) = unat va + unat (sz - 1)"
      by (rule unat_add_nowrap) (use assms z in \<open>simp add: unat_minus_one\<close>)
    then show ?thesis unfolding v using assms(1) z by (simp add: unat_minus_one)
  qed
  have le: "unat va div 4096 \<le> (unat va + unat sz - 1) div 4096" using assms(1) by (intro div_le_mono) simp
  let ?l = "PGROUNDDOWN (va + sz - 1)"
  have l: "unat ?l = 4096 * ((unat va + unat sz - 1) div 4096)" by (simp only: a e)
  have al: "unat (PGROUNDDOWN va) = 4096 * (unat va div 4096)" by (rule a)
  have "PGROUNDDOWN va \<le> ?l" unfolding word_le_nat_alt al l using le by simp
  then have "unat (?l - PGROUNDDOWN va) = unat ?l - unat (PGROUNDDOWN va)" by (rule unat_sub_le)
  then have "unat (?l - PGROUNDDOWN va) = 4096 * (npages va sz - 1)"
    unfolding al l npages_def using le by (simp add: right_diff_distrib')
  then show "mappages pgdir va sz pa perm s = mappages_loop pgdir (PGROUNDDOWN va) pa perm (npages va sz - 1) s"
    by (simp add: mappages_def Let_def)
  show "aligned (PGROUNDDOWN va)" by (simp add: a)
  have top: "4096 * ((unat va + unat sz - 1) div 4096) + 4096 \<le> 4294967296"
  proof -
    have "unat va + unat sz - 1 < 4294967296" using assms by linarith
    then have "(unat va + unat sz - 1) div 4096 < 1048576" by linarith
    then show ?thesis by simp
  qed
  show "unat (PGROUNDDOWN va) + 4096 * (npages va sz - 1) + 4096 \<le> 4294967296"
    unfolding a npages_def using le top by linarith
  show "in_pages (PGROUNDDOWN va) (npages va sz) x \<longleftrightarrow>
       unat va div 4096 \<le> unat x div 4096 \<and> unat x div 4096 \<le> (unat va + unat sz - 1) div 4096"
    unfolding in_pages_def al npages_def by (rule page_interval [OF le])
qed

lemma mappages_effect:
  assumes ok: "vm_ok kend pgdir s ps" and rg: "0 < unat sz" "unat va + unat sz \<le> 4294967296"
    and pa: "aligned pa" "perm AND 0xFFF = perm" and m: "mappages pgdir va sz pa perm s = Ok (r, s')"
  shows "\<exists>ps'. grew kend pgdir s ps s' ps' \<and>
    (r = 0 \<and> maps pgdir (PGROUNDDOWN va) (npages va sz) pa (km_mem s) (km_mem s') \<or>
     r = - 1 \<and> (\<forall>x. \<not> in_pages (PGROUNDDOWN va) (npages va sz) x \<longrightarrow> translate (km_mem s') pgdir x = translate (km_mem s) pgdir x))"
proof -
  have n: "Suc (npages va sz - 1) = npages va sz" by (simp add: npages_def)
  note pg = mappages_pages [OF rg]
  from mappages_loop_maps [OF ok pg(2,3) pa m [unfolded pg(1)], unfolded n] show ?thesis .
qed

text \<open>The result is 0 or -1.\<close>

lemma mappages_loop_result: "mappages_loop pgdir a pa perm n s = Ok (r, s') \<Longrightarrow> r = 0 \<or> r = - 1"
proof (induction n arbitrary: a pa s)
  case 0
  then show ?case by (subst (asm) mappages_loop.simps) (auto simp: Let_def split: if_splits prod.splits)
next
  case (Suc n)
  then show ?case by (subst (asm) (2) mappages_loop.simps) (auto simp: Let_def split: if_splits prod.splits)
qed

lemma mappages_zero: "mappages pgdir va sz pa perm s = Ok (r, s') \<Longrightarrow> \<not> r < 0 \<Longrightarrow> r = 0"
  using mappages_loop_result by (fastforce simp: mappages_def Let_def)

section \<open>The kernel's part of a directory\<close>

text \<open>An entry of \<open>kmap\<close> lies above \<open>KERNBASE\<close> and does not wrap around.\<close>

definition kentry_ok :: "u32 \<times> u32 \<times> u32 \<times> u32 \<Rightarrow> bool" where
  "kentry_ok = (\<lambda>(virt, pstart, pend, perm). KERNBASE \<le> virt \<and> 0 < unat (pend - pstart) \<and>
     unat virt + unat (pend - pstart) \<le> 4294967296 \<and> aligned pstart \<and> perm AND 0xFFF = perm)"

definition kmapped :: "mem \<Rightarrow> u32 \<Rightarrow> u32 \<times> u32 \<times> u32 \<times> u32 \<Rightarrow> bool" where
  "kmapped m d = (\<lambda>(virt, pstart, pend, perm). \<forall>x. in_pages (PGROUNDDOWN virt) (npages virt (pend - pstart)) x \<longrightarrow>
     translate m d x = Some (pstart + (x - PGROUNDDOWN virt)))"

definition keeps :: "u32 \<Rightarrow> mem \<Rightarrow> mem \<Rightarrow> bool" where
  "keeps d m m' \<longleftrightarrow> (\<forall>x. translate m d x \<noteq> None \<longrightarrow> translate m' d x = translate m d x)"

lemma maps_keeps: "maps d a n pa m m' \<Longrightarrow> keeps d m m'"
  by (auto simp: maps_def keeps_def)

lemma keeps_kmapped: "keeps d m m' \<Longrightarrow> kmapped m d k \<Longrightarrow> kmapped m' d k"
  by (cases k) (simp add: keeps_def kmapped_def)

lemma above_KERNBASE:
  assumes "KERNBASE \<le> virt" "0 < unat sz" "unat virt + unat sz \<le> 4294967296" "x < KERNBASE"
  shows "\<not> in_pages (PGROUNDDOWN virt) (npages virt sz) x"
proof -
  have "unat x div 4096 < unat virt div 4096"
  proof -
    have "unat x < 2147483648" "2147483648 \<le> unat virt" using assms(1,4) by (simp_all add: word_le_nat_alt word_less_nat_alt)
    then have "unat x div 4096 < 524288" "524288 \<le> unat virt div 4096" by linarith+
    then show ?thesis by linarith
  qed
  then show ?thesis unfolding mappages_pages(4) [OF assms(2,3)] by simp
qed

lemma kmap_loop_maps:
  assumes "vm_ok kend d s ps" "\<forall>k \<in> set ks. kentry_ok k" "kmap_loop kend d ks s = Ok (d', s')" "d' \<noteq> 0"
  shows "d' = d \<and> (\<exists>ps'. grew kend d s ps s' ps') \<and> (\<forall>k \<in> set ks. kmapped (km_mem s') d k) \<and> keeps d (km_mem s) (km_mem s') \<and>
    (\<forall>x < KERNBASE. translate (km_mem s') d x = translate (km_mem s) d x)"
  using assms
proof (induction ks arbitrary: s ps)
  case Nil
  then show ?case using grew_refl [OF Nil(1)] by (auto simp: keeps_def)
next
  case (Cons k ks)
  obtain virt pstart pend perm where k: "k = (virt, pstart, pend, perm)" by (metis prod_cases4)
  let ?sz = "pend - pstart"
  have e: "KERNBASE \<le> virt" "0 < unat ?sz" "unat virt + unat ?sz \<le> 4294967296" "aligned pstart" "perm AND 0xFFF = perm"
    using Cons.prems(2) k by (simp_all add: kentry_ok_def)
  obtain r s1 where m: "mappages d virt ?sz pstart perm s = Ok (r, s1)"
    using Cons.prems(3) k by (auto simp: outcome_simps)
  obtain ps1 where g: "grew kend d s ps s1 ps1" and r: "r = 0 \<and> maps d (PGROUNDDOWN virt) (npages virt ?sz) pstart (km_mem s) (km_mem s1) \<or> r = - 1"
    using mappages_effect [OF Cons.prems(1) e(2-5) m] by blast
  have "r = 0"
  proof (rule ccontr)
    assume "r \<noteq> 0"
    then have "d' = 0" using r Cons.prems(3) k m by (auto simp: outcome_simps)
    then show False using Cons.prems(4) by simp
  qed
  then have mp: "maps d (PGROUNDDOWN virt) (npages virt ?sz) pstart (km_mem s) (km_mem s1)" "kmap_loop kend d ks s1 = Ok (d', s')"
    using r Cons.prems(3) k m by (auto simp: outcome_simps)
  have ok1: "vm_ok kend d s1 ps1" using g by (simp add: grew_def)
  have ks: "\<forall>k \<in> set ks. kentry_ok k" using Cons.prems(2) by simp
  note IH = Cons.IH [OF ok1 ks mp(2) Cons.prems(4)]
  have "kmapped (km_mem s1) d k" using mp(1) by (simp add: k kmapped_def maps_def)
  moreover have "translate (km_mem s1) d x = translate (km_mem s) d x" if "x < KERNBASE" for x
    using mp(1) above_KERNBASE [OF e(1-3) that] by (simp add: maps_def)
  ultimately have "kmapped (km_mem s') d k" "\<forall>x < KERNBASE. translate (km_mem s') d x = translate (km_mem s) d x"
    using IH keeps_kmapped [of d "km_mem s1" "km_mem s'" k] by simp_all
  moreover have "keeps d (km_mem s) (km_mem s')" using IH maps_keeps [OF mp(1)] by (auto simp: keeps_def)
  moreover have "\<exists>ps'. grew kend d s ps s' ps'" using IH grew_trans [OF g] by blast
  ultimately show ?case using IH by simp
qed

lemma empty_directory:
  assumes "freelist_is kend s ps" "kalloc s = (d, s1)" "d \<noteq> 0"
  defines "s2 \<equiv> upd_mem (memset d 0 PGSIZE) s1"
  shows "\<exists>qs. ps = d # qs \<and> vm_ok kend d s2 qs \<and> tables (km_mem s2) d = {d} \<and> same_but_pages {d} (km_mem s) (km_mem s2) \<and>
    (\<forall>x. translate (km_mem s2) d x = None)"
proof -
  from kalloc_takes [OF assms(1-3)]
  obtain qs where q: "ps = d # qs" "freelist_is kend s1 qs" "km_mem s1 = km_mem s" "aligned d" "d \<notin> set qs"
    by (elim exE conjE) (rule that)
  have m: "km_mem s2 = memset d 0 4096 (km_mem s)" by (simp add: s2_def upd_mem_def q(3))
  have np: "\<not> pde_present (km_mem s2) d a" for a
    unfolding pde_present_def m load_zeroed [OF PDX_less] by simp
  have o: "same_but_pages {d} (km_mem s1) (km_mem s2)" unfolding m q(3) by (rule memset_outside)
  have "freelist_is kend (s1\<lparr>km_mem := km_mem s2\<rparr>) qs"
    by (rule freelist_off_pages [OF q(2) o]) (use q in auto)
  moreover have "s2 = s1\<lparr>km_mem := km_mem s2\<rparr>" by (simp add: s2_def upd_mem_def)
  moreover have "pd_ok (km_mem s2) d" using np q(4) assms(3) by (simp add: pd_ok_def)
  moreover have "tables (km_mem s2) d = {d}" using np by (simp add: tables_def)
  ultimately have "vm_ok kend d s2 qs" using q(5) by (simp add: vm_ok_def)
  moreover have "translate (km_mem s2) d x = None" for x using np by (simp add: translate_def)
  moreover have "same_but_pages {d} (km_mem s) (km_mem s2)" using o unfolding q(3) .
  ultimately show ?thesis using q(1) \<open>tables (km_mem s2) d = {d}\<close> by blast
qed

definition layout_ok :: "layout \<Rightarrow> bool" where
  "layout_ok l \<longleftrightarrow> 0x80100000 < l_data l \<and> l_data l < 0xA0000000 \<and> aligned (l_data l) \<and> aligned (l_vram l) \<and>
     0 < l_vram_size l \<and> l_vram_size l \<le> 0x7E000000"

lemma kmap_ok: "layout_ok l \<Longrightarrow> \<forall>k \<in> set (kmap l). kentry_ok k"
proof -
  assume l: "layout_ok l"
  have d: "2148532224 < unat (l_data l)" "unat (l_data l) < 2684354560" and v: "0 < unat (l_vram_size l)" "unat (l_vram_size l) \<le> 2113929216"
    using l by (simp_all add: layout_ok_def word_less_nat_alt word_le_nat_alt)
  have d1: "unat (V2P (l_data l) - V2P (KERNBASE + EXTMEM)) = unat (l_data l) - 2148532224"
    using d by (simp add: V2P_def unat_sub_le word_le_nat_alt)
  have d2: "unat (PHYSTOP - V2P (l_data l)) = 2684354560 - unat (l_data l)"
  proof -
    have e: "PHYSTOP - V2P (l_data l) = 0xA0000000 - l_data l" by (simp add: V2P_def)
    show ?thesis unfolding e using d by (simp add: unat_sub_le word_le_nat_alt)
  qed
  have v1: "unat (DEVSPACE - l_vram_size l) = 4261412864 - unat (l_vram_size l)"
    using v by (simp add: unat_sub_le word_le_nat_alt)
  have v2: "unat (l_vram l + l_vram_size l - l_vram l) = unat (l_vram_size l)" by simp
  have "aligned (V2P (l_data l))" using l aligned_V2P by (simp add: layout_ok_def)
  then show ?thesis using l d d1 d2 v v1 v2
    by (simp add: kmap_def kentry_ok_def layout_ok_def word_le_nat_alt V2P_def) linarith
qed

lemma setupkvm_ok:
  assumes fl: "freelist_is kend s ps" and l: "layout_ok l" and st: "setupkvm kend l s = Ok (d, s')" "d \<noteq> 0"
  shows "\<exists>us ps'. ps = us @ ps' \<and> vm_ok kend d s' ps' \<and> tables (km_mem s') d \<subseteq> set us \<and> same_but_pages (set us) (km_mem s) (km_mem s') \<and>
    (\<forall>x < KERNBASE. translate (km_mem s') d x = None) \<and> (\<forall>k \<in> set (kmap l). kmapped (km_mem s') d k)"
proof -
  obtain d1 s1 where k: "kalloc s = (d1, s1)" by fastforce
  have d1: "d1 \<noteq> 0" using st k by (auto simp: setupkvm_def)
  define s2 where "s2 = upd_mem (memset d1 0 PGSIZE) s1"
  obtain qs where q: "ps = d1 # qs" "vm_ok kend d1 s2 qs" "tables (km_mem s2) d1 = {d1}" "same_but_pages {d1} (km_mem s) (km_mem s2)"
      "\<forall>x. translate (km_mem s2) d1 x = None"
    using empty_directory [OF fl k d1] unfolding s2_def by blast
  have lp: "kmap_loop kend d1 (kmap l) s2 = Ok (d, s')" using st k d1 by (simp add: setupkvm_def s2_def P2V_def)
  from kmap_loop_maps [OF q(2) kmap_ok [OF l] lp st(2)] obtain ps' where m: "d = d1" "grew kend d s2 qs s' ps'"
      "\<forall>k \<in> set (kmap l). kmapped (km_mem s') d k" "\<forall>x < KERNBASE. translate (km_mem s') d x = translate (km_mem s2) d x" by auto
  obtain us where u: "qs = us @ ps'" "tables (km_mem s') d \<subseteq> {d} \<union> set us" "same_but_pages ({d} \<union> set us) (km_mem s2) (km_mem s')"
    "vm_ok kend d s' ps'" using m(1,2) q(3) by (auto simp: grew_def)
  have "same_but_pages (set (d # us)) (km_mem s) (km_mem s')"
    by (rule same_but_pages_trans [OF q(4) u(3)]) (use m(1) in auto)
  then show ?thesis using q m u by (intro exI [of _ "d # us"] exI [of _ ps']) auto
qed

section \<open>With a free page a page can be mapped\<close>

lemma entry_nonzero: "aligned t \<Longrightarrow> t \<noteq> 0 \<Longrightarrow> unat i < 1024 \<Longrightarrow> t + 4 * i \<noteq> 0"
proof -
  assume t: "aligned t" "t \<noteq> 0" and i: "unat i < 1024"
  obtain q where q: "unat t = 4096 * q" using t(1) by auto
  have "q < 1048576" using q unat_u32_bound [of t] by linarith
  then have "unat (t + 4 * i) = unat t + 4 * unat i"
    using unat_times_4 [OF i] i by (subst unat_add_nowrap) (simp_all add: q)
  then show ?thesis using t(2) by (metis add_is_0 unat_0 unat_eq_zero)
qed

lemma walkpgdir_nonzero:
  assumes ok: "vm_ok kend pgdir s (p # ps)"
  shows "fst (walkpgdir pgdir va True s) \<noteq> 0"
proof (cases "pde_present (km_mem s) pgdir va")
  case True
  have "tab (km_mem s) pgdir va + 4 * PTX va \<noteq> 0"
    using entry_nonzero [OF _ _ PTX_less] aligned_P2V pd_okD(3) [OF _ True] ok by (auto simp: vm_ok_def tab_def)
  then show ?thesis using True by (simp add: walkpgdir_def pde_present_def tab_def)
next
  case False
  have fl: "freelist_is kend s (p # ps)" using ok by (simp add: vm_ok_def)
  then obtain s1 where k: "kalloc s = (p, s1)" using kpages.alloc_Cons by blast
  have "usable_page kend p" using fl by (simp add: freelist_is_def)
  then have nz: "p \<noteq> 0" "aligned p" using usable_page_nonzero by (blast, simp add: usable_page_def)
  have "p + 4 * PTX va \<noteq> 0" by (rule entry_nonzero [OF nz(2,1) PTX_less])
  then show ?thesis using False k nz(1) by (simp add: walkpgdir_def pde_present_def Let_def)
qed

lemma mappages_one:
  assumes ok: "vm_ok kend pgdir s (p # ps)" and a: "aligned a" "translate (km_mem s) pgdir a = None"
    and pa: "aligned pa" "perm AND 0xFFF = perm"
  shows "\<exists>s' ps'. mappages_loop pgdir a pa perm 0 s = Ok (0, s') \<and> grew kend pgdir s (p # ps) s' ps' \<and>
    maps pgdir a 1 pa (km_mem s) (km_mem s') \<and> (ps' = p # ps \<or> ps' = ps)"
proof -
  obtain pte s1 where w: "walkpgdir pgdir a True s = (pte, s1)" by fastforce
  obtain ps1 where g: "grew kend pgdir s (p # ps) s1 ps1" "\<forall>x. translate (km_mem s1) pgdir x = translate (km_mem s) pgdir x"
      "pte \<noteq> 0 \<longrightarrow> pde_present (km_mem s1) pgdir a \<and> pte = pte_addr (km_mem s1) pgdir a" "ps1 = p # ps \<or> ps1 = ps"
    using walkpgdir_alloc [OF ok w] by auto
  have nz: "pte \<noteq> 0" using walkpgdir_nonzero [OF ok, of a] w by simp
  then have pp: "pde_present (km_mem s1) pgdir a" "pte = pte_addr (km_mem s1) pgdir a" using g(3) by simp_all
  have ok1: "vm_ok kend pgdir s1 ps1" using g(1) by (simp add: grew_def)
  have np: "\<not> load32 (km_mem s1) pte AND PTE_P \<noteq> 0" using pte_translate [OF pp(1)] pp(2) g(2) a(2) by simp
  define s' where "s' = upd_mem (store32 pte (pa OR perm OR PTE_P)) s1"
  have "mappages_loop pgdir a pa perm 0 s = Ok (0, s')" using w nz np by (simp add: mappages_loop.simps s'_def)
  moreover have "maps pgdir a 1 pa (km_mem s) (km_mem s')"
  proof -
    have "maps pgdir a 1 pa (km_mem s1) (km_mem s')"
      using maps_one [OF _ pp(1) _ a(1) pa] ok1 pp(2) g(2) a(2) by (simp add: vm_ok_def upd_mem_def s'_def)
    then show ?thesis using g(2) by (simp add: maps_def)
  qed
  moreover have "grew kend pgdir s (p # ps) s' ps1"
    using grew_trans [OF g(1)] set_pte_grew [OF ok1 pp(1)] pp(2) by (simp add: s'_def)
  ultimately show ?thesis using g(4) by blast
qed

text \<open>An allocator with the eight pages from \<open>0x80400000\<close> on.\<close>

lemma eight_pages: "\<exists>s ps. freelist_is 0x80100000 s ps \<and> length ps = 8"
proof -
  have "\<exists>s'. freerange_loop 0x80100000 0x80400000 0x80408000 \<lparr>km_mem = (\<lambda>_. 0), km_use_lock = False, km_freelist = 0\<rparr> = Ok s' \<and>
      freelist_is 0x80100000 s' (rev (pages_from 0x80400000 8) @ [])"
    by (rule freerange_loop_pushes) (simp_all add: freelist_is_def)
  then show ?thesis by (force simp: pages_from_def)
qed

lemma directory_of_eight:
  "\<exists>d s ps. vm_ok 0x80100000 d s ps \<and> length ps = 7 \<and> (\<forall>x. translate (km_mem s) d x = None) \<and> tables (km_mem s) d = {d}"
proof -
  obtain s ps where fl: "freelist_is 0x80100000 s ps" "length ps = 8" using eight_pages by blast
  then obtain d qs where ps: "ps = d # qs" by (cases ps) auto
  obtain s1 where k: "kalloc s = (d, s1)" using kpages.alloc_Cons fl(1) ps by blast
  have "d \<noteq> 0" using fl(1) ps usable_page_nonzero by (auto simp: freelist_is_def)
  from empty_directory [OF fl(1) k this] obtain rs where e: "ps = d # rs" "vm_ok 0x80100000 d (upd_mem (memset d 0 PGSIZE) s1) rs"
      "tables (km_mem (upd_mem (memset d 0 PGSIZE) s1)) d = {d}" "\<forall>x. translate (km_mem (upd_mem (memset d 0 PGSIZE) s1)) d x = None"
    by (elim exE conjE) (rule that)
  then have "length rs = 7" using fl(2) by simp
  then show ?thesis using e by blast
qed

section \<open>Property\<close>

text \<open>C8: \<open>mappages\<close> maps exactly its range.  When it succeeds, every address of the pages of \<open>[va, va + sz)\<close> is translated to the physical address at the same distance from \<open>pa\<close>, none of them was mapped before, and every other address is translated as before; the page tables it needed came off the free list, the directory is still well formed, and no other memory is written.\<close>

theorem mappages_maps:
  assumes "vm_ok kend pgdir s ps" and "0 < unat sz" and "unat va + unat sz \<le> 4294967296"
    and "aligned pa" and "perm AND 0xFFF = perm" and "mappages pgdir va sz pa perm s = Ok (0, s')"
  shows "(\<exists>ps'. grew kend pgdir s ps s' ps') \<and>
    (\<forall>x. if unat va div 4096 \<le> unat x div 4096 \<and> unat x div 4096 \<le> (unat va + unat sz - 1) div 4096
         then translate (km_mem s') pgdir x = Some (pa + (x - PGROUNDDOWN va)) \<and> translate (km_mem s) pgdir x = None
         else translate (km_mem s') pgdir x = translate (km_mem s) pgdir x)"
  using mappages_effect [OF assms] unfolding maps_def mappages_pages(4) [OF assms(2,3)] by auto

theorem mappages_maps_witness:
  "\<exists>d s s' ps. vm_ok 0x80100000 d s ps \<and> mappages d 0x1000 10 0x5000 6 s = Ok (0, s') \<and>
     translate (km_mem s') d 0x1004 = Some 0x5004 \<and> translate (km_mem s') d 0x2000 = None"
proof -
  obtain d s ps where e: "vm_ok 0x80100000 d s ps" "length ps = 7" "\<forall>x. translate (km_mem s) d x = None"
    using directory_of_eight by blast
  then obtain p qs where ps: "ps = p # qs" by (cases ps) auto
  have rg: "0 < unat (10 :: u32)" "unat (0x1000 :: u32) + unat (10 :: u32) \<le> 4294967296" by simp_all
  have pg: "PGROUNDDOWN 0x1000 = 0x1000" by (simp add: PGROUNDDOWN_def)
  have "npages 0x1000 10 - 1 = 0" by (simp add: npages_def)
  then obtain s' where m: "mappages d 0x1000 10 0x5000 6 s = Ok (0, s')"
    using mappages_one [OF e(1) [unfolded ps], of "0x1000" "0x5000" 6] e(3) mappages_pages(1) [OF rg, of d "0x5000" 6 s] pg by auto
  have "aligned (0x5000 :: u32)" "(6 :: u32) AND 0xFFF = 6" by simp_all
  from mappages_maps [OF e(1) rg this m]
  have "\<forall>x. if unat (0x1000 :: u32) div 4096 \<le> unat x div 4096 \<and> unat x div 4096 \<le> (unat (0x1000 :: u32) + unat (10 :: u32) - 1) div 4096
         then translate (km_mem s') d x = Some (0x5000 + (x - PGROUNDDOWN 0x1000)) \<and> translate (km_mem s) d x = None
         else translate (km_mem s') d x = translate (km_mem s) d x" by (rule conjunct2)
  from this [rule_format, of "0x1004"] this [rule_format, of "0x2000"]
  have "translate (km_mem s') d 0x1004 = Some 0x5004" "translate (km_mem s') d 0x2000 = None" using e(3) pg by simp_all
  then show ?thesis using e(1) m by blast
qed

end
