(* ===== verification/Vm_Copy.thy ===== *)
theory Vm_Copy
  imports Vm_Props
begin

text \<open>
  \<open>copyuvm\<close> gives a child process a copy of its parent's memory: the same bytes at the same
  addresses, in pages of its own.  The parent's tables and pages are the set \<open>P\<close>, the pages copied
  so far \<open>C\<close>.
\<close>

section \<open>Copying one page\<close>

text \<open>The page at \<open>i\<close> has been copied to a page of \<open>C\<close>.\<close>

definition copied :: "mem \<Rightarrow> u32 \<Rightarrow> mem \<Rightarrow> u32 \<Rightarrow> u32 set \<Rightarrow> u32 \<Rightarrow> bool" where
  "copied m0 pgdir m d C i \<longleftrightarrow> (\<exists>pa. \<exists>c \<in> C. translate m0 pgdir i = Some pa \<and>
     (\<forall>x. in_pages i 1 x \<longrightarrow> translate m d x = Some (V2P c + (x - i))) \<and>
     (\<forall>k < 4096. m (c + of_nat k) = m0 (P2V pa + of_nat k)))"

definition child_ok :: "u32 \<Rightarrow> u32 \<Rightarrow> u32 \<Rightarrow> mem \<Rightarrow> u32 set \<Rightarrow> kmem \<Rightarrow> u32 list \<Rightarrow> u32 set \<Rightarrow> u32 set \<Rightarrow> bool" where
  "child_ok kend pgdir d m0 P s ps C D \<longleftrightarrow> vm_ok kend d s ps \<and>
     same_but_pages {q. aligned q \<and> q \<notin> P} m0 (km_mem s) \<and>
     P \<inter> (set ps \<union> tables (km_mem s) d \<union> C) = {} \<and> C \<inter> (set ps \<union> tables (km_mem s) d) = {} \<and>
     (\<forall>c \<in> C. aligned c) \<and> (\<forall>i \<in> D. copied m0 pgdir (km_mem s) d C i)"

definition frames :: "mem \<Rightarrow> u32 \<Rightarrow> u32 set \<Rightarrow> u32 set" where
  "frames m pgdir is = {P2V pa | pa i. i \<in> is \<and> translate m pgdir i = Some pa}"

lemma aligned_top: "aligned p \<Longrightarrow> unat p + 4096 \<le> 4294967296"
proof -
  assume "aligned p"
  then obtain q where q: "unat p = 4096 * q" by auto
  then have "q < 1048576" using unat_u32_bound [of p] by linarith
  then show ?thesis using q by simp
qed

lemma aligned_fff: "aligned i \<Longrightarrow> i AND 0xFFF = 0"
  using unat_and_fff [of i] by (metis unat_eq_zero)

lemma translate_aligned: "translate m pgdir i = Some pa \<Longrightarrow> aligned i \<Longrightarrow> aligned (P2V pa)"
  using aligned_P2V by (auto simp: translate_def aligned_fff split: if_splits)

lemma in_page_byte: "k < 4096 \<Longrightarrow> in_range (p + of_nat k) p 4096"
  by simp

lemma in_range_page: "aligned p \<Longrightarrow> in_range x p 4096 \<longleftrightarrow> in_pages p 1 x"
  using in_page_iff [of p x] in_page_1 [of p x] by simp

text \<open>What \<open>memmove\<close> does to a whole page.\<close>

lemma copy_page:
  assumes "aligned p" "aligned q"
  shows "same_but_pages {p} m (memmove p q 4096 m)" "k < 4096 \<Longrightarrow> memmove p q 4096 m (p + of_nat k) = m (q + of_nat k)"
proof -
  have le: "unat q + unat (4096 :: u32) \<le> 4294967296" "unat p + unat (4096 :: u32) \<le> 4294967296"
    using aligned_top [OF assms(1)] aligned_top [OF assms(2)] by simp_all
  note mm = memmove_apply [OF le, of m]
  show "same_but_pages {p} m (memmove p q 4096 m)" by (simp add: same_but_pages_def mm)
  show "memmove p q 4096 m (p + of_nat k) = m (q + of_nat k)" if "k < 4096"
    unfolding mm using in_page_byte [OF that, of p] by simp
qed

lemma vm_ok_same_but_pages:
  assumes ok: "vm_ok kend d s ps" and o: "same_but_pages X (km_mem s) (km_mem s')" "km_freelist s' = km_freelist s"
    and X: "\<forall>q \<in> X. aligned q" "X \<inter> (set ps \<union> tables (km_mem s) d) = {}"
  shows "vm_ok kend d s' ps" "tables (km_mem s') d = tables (km_mem s) d" "translate (km_mem s') d x = translate (km_mem s) d x"
proof -
  have pd: "pd_ok (km_mem s) d" "freelist_is kend s ps" "tables (km_mem s) d \<inter> set ps = {}" using ok by (simp_all add: vm_ok_def)
  have "X \<inter> tables (km_mem s) d = {}" "X \<inter> set ps = {}" using X(2) by auto
  note t = tables_off_pages [OF pd(1) o(1) X(1) this(1)]
  have "freelist_is kend (s\<lparr>km_mem := km_mem s'\<rparr>) ps" by (rule freelist_off_pages [OF pd(2) o(1) X(1) \<open>X \<inter> set ps = {}\<close>])
  then have "freelist_is kend s' ps" using o(2) by (simp add: freelist_is_def)
  then show "vm_ok kend d s' ps" "tables (km_mem s') d = tables (km_mem s) d" "translate (km_mem s') d x = translate (km_mem s) d x"
    using t pd(3) by (simp_all add: vm_ok_def)
qed

lemma copied_same:
  assumes c: "copied m0 pgdir m d C i" and C: "\<forall>c \<in> C. aligned c" "C \<subseteq> C'"
    and t: "keeps d m m'" and o: "same_but_pages X m m'" "\<forall>q \<in> X. aligned q" "X \<inter> C = {}"
  shows "copied m0 pgdir m' d C' i"
proof -
  obtain pa c where p: "c \<in> C" "translate m0 pgdir i = Some pa" "\<forall>x. in_pages i 1 x \<longrightarrow> translate m d x = Some (V2P c + (x - i))"
      "\<forall>k < 4096. m (c + of_nat k) = m0 (P2V pa + of_nat k)"
    using assms(1) unfolding copied_def by blast
  have "m' (c + of_nat k) = m (c + of_nat k)" if "k < 4096" for k
    by (rule same_but_pages_byte [OF o(1) _ _ o(2) in_page_byte [OF that]]) (use p(1) C o(3) in auto)
  moreover have "\<forall>x. in_pages i 1 x \<longrightarrow> translate m' d x = Some (V2P c + (x - i))"
    using p(3) t by (simp add: keeps_def)
  ultimately show ?thesis unfolding copied_def using p C(2) by (intro exI [of _ pa] bexI [of _ c]) auto
qed

lemma copy_step:
  assumes inv: "child_ok kend pgdir d m0 P s ps C D" and i: "aligned i" "translate m0 pgdir i = Some pa" "P2V pa \<in> P"
    and k: "kalloc s = (mem, s1)" "mem \<noteq> 0" and fl: "flags AND 0xFFF = flags"
    and m: "mappages d i 4096 (V2P mem) flags (upd_mem (memmove mem (P2V pa) 4096) s1) = Ok (0, s')"
  shows "\<exists>ps'. child_ok kend pgdir d m0 P s' ps' (insert mem C) (insert i D)"
proof -
  have ok: "vm_ok kend d s ps" "same_but_pages {q. aligned q \<and> q \<notin> P} m0 (km_mem s)" "P \<inter> (set ps \<union> tables (km_mem s) d \<union> C) = {}"
    "C \<inter> (set ps \<union> tables (km_mem s) d) = {}" "\<forall>c \<in> C. aligned c" "\<forall>i \<in> D. copied m0 pgdir (km_mem s) d C i"
    using inv by (simp_all add: child_ok_def)
  have "freelist_is kend s ps" using ok(1) by (simp add: vm_ok_def)
  from kalloc_takes [OF this k] obtain qs where q: "ps = mem # qs" "freelist_is kend s1 qs" "km_mem s1 = km_mem s" "aligned mem" "mem \<notin> set qs"
    by (elim exE conjE) (rule that)
  have ok1: "vm_ok kend d s1 qs" using ok(1) q by (auto simp: vm_ok_def)
  have apa: "aligned (P2V pa)" by (rule translate_aligned [OF i(2,1)])
  define s2 where "s2 = upd_mem (memmove mem (P2V pa) 4096) s1"
  have m2: "km_mem s2 = memmove mem (P2V pa) 4096 (km_mem s)" by (simp add: s2_def upd_mem_def q(3))
  have o1: "same_but_pages {mem} (km_mem s1) (km_mem s2)" unfolding m2 q(3) by (rule copy_page [OF q(4) apa])
  have fd: "mem \<notin> tables (km_mem s) d" "mem \<notin> P" "mem \<notin> C" using ok(1,3,4) q(1) by (auto simp: vm_ok_def)
  have s2f: "km_freelist s2 = km_freelist s1" by (simp add: s2_def upd_mem_def)
  have X: "\<forall>q \<in> {mem}. aligned q" "{mem} \<inter> (set qs \<union> tables (km_mem s1) d) = {}" using q fd by auto
  note v2 = vm_ok_same_but_pages [OF ok1 o1 s2f X, unfolded q(3)]
  have sz: "0 < unat (4096 :: u32)" "unat i + unat (4096 :: u32) \<le> 4294967296" using aligned_top [OF i(1)] by simp_all
  have np: "npages i 4096 = 1"
  proof -
    obtain j where j: "unat i = 4096 * j" using i(1) by auto
    show ?thesis unfolding npages_def j by simp
  qed
  have pg: "PGROUNDDOWN i = i"
  proof -
    have "unat (PGROUNDDOWN i) = unat i" using i(1) by (simp add: unat_PGROUNDDOWN)
    then show ?thesis by (simp only: word_unat_eq_iff)
  qed
  obtain ps' where g: "grew kend d s2 qs s' ps'" "maps d i 1 (V2P mem) (km_mem s2) (km_mem s')"
    using mappages_effect [OF v2(1) sz aligned_V2P [OF q(4)] fl m [folded s2_def]] np pg by auto
  obtain us where u: "qs = us @ ps'" "tables (km_mem s') d \<subseteq> tables (km_mem s) d \<union> set us"
      "same_but_pages (tables (km_mem s) d \<union> set us) (km_mem s2) (km_mem s')" "vm_ok kend d s' ps'"
    using g(1) v2(2) by (auto simp: grew_def)
  let ?X = "tables (km_mem s) d \<union> set us"
  have us: "set us \<subseteq> set ps" using q(1) u(1) by auto
  have aX: "\<forall>q \<in> ?X. aligned q"
    using aligned_tables ok(1) us unfolding vm_ok_def freelist_is_def usable_page_def by blast
  have XC: "?X \<inter> insert mem C = {}" using ok(4) us fd(1) q(1,5) u(1) by auto
  have XP: "?X \<inter> P = {}" using ok(3) us by auto
  have ks: "keeps d (km_mem s) (km_mem s')" using maps_keeps [OF g(2)] v2(3) by (simp add: keeps_def)
  have o2: "same_but_pages (insert mem ?X) (km_mem s) (km_mem s')"
    by (rule same_but_pages_trans [OF o1 [unfolded q(3)] u(3)]) auto
  have old: "copied m0 pgdir (km_mem s') d (insert mem C) i'" if "i' \<in> D" for i'
    by (rule copied_same [OF ok(6) [rule_format, OF that] ok(5) _ ks o2]) (use aX q(4) XC fd(3) in auto)
  have new: "copied m0 pgdir (km_mem s') d (insert mem C) i"
    unfolding copied_def
  proof (intro exI [of _ pa] bexI [of _ mem] conjI allI impI)
    show "translate m0 pgdir i = Some pa" by (rule i(2))
    show "translate (km_mem s') d x = Some (V2P mem + (x - i))" if "in_pages i 1 x" for x
      using g(2) that by (simp add: maps_def)
    fix k :: nat
    assume k: "k < 4096"
    have "km_mem s' (mem + of_nat k) = km_mem s2 (mem + of_nat k)"
      by (rule same_but_pages_byte [OF u(3) q(4) _ aX in_page_byte [OF k]]) (use XC in auto)
    also have "\<dots> = km_mem s (P2V pa + of_nat k)" unfolding m2 by (rule copy_page(2) [OF q(4) apa k])
    also have "\<dots> = m0 (P2V pa + of_nat k)"
      by (rule same_but_pages_byte [OF ok(2) apa _ _ in_page_byte [OF k]]) (use i(3) in auto)
    finally show "km_mem s' (mem + of_nat k) = m0 (P2V pa + of_nat k)" .
  qed simp
  have "same_but_pages {q. aligned q \<and> q \<notin> P} m0 (km_mem s')"
    by (rule same_but_pages_trans [OF ok(2) o2]) (use aX q(4) XP fd(2) in auto)
  then have "child_ok kend pgdir d m0 P s' ps' (insert mem C) (insert i D)"
    using old new u(2,4) ok(3,4,5) fd q u(1) XC XP unfolding child_ok_def by auto
  then show ?thesis by blast
qed

section \<open>Copying an address space\<close>

lemma walk_no_alloc: "fst (walkpgdir pgdir va False s) = (if pde_present (km_mem s) pgdir va then pte_addr (km_mem s) pgdir va else 0)"
  by (simp add: walkpgdir_def pde_present_def pte_addr_def Let_def)

lemma P_same:
  assumes "child_ok kend pgdir d m0 P s ps C D" "pd_ok m0 pgdir" "tables m0 pgdir \<subseteq> P"
  shows "translate (km_mem s) pgdir x = translate m0 pgdir x"
  by (rule tables_off_pages(3) [OF assms(2), of "{q. aligned q \<and> q \<notin> P}"]) (use assms in \<open>auto simp: child_ok_def\<close>)

lemma copyuvm_loop_copies:
  assumes "child_ok kend pgdir d m0 P s ps C D" "pd_ok m0 pgdir" "tables m0 pgdir \<union> frames m0 pgdir (set is) \<subseteq> P" "\<forall>i \<in> set is. aligned i"
    and "copyuvm_loop kend pgdir d is s = Ok (d', s')" "d' \<noteq> 0"
  shows "d' = d \<and> (\<exists>ps' C'. child_ok kend pgdir d m0 P s' ps' C' (set is \<union> D))"
  using assms
proof (induction "is" arbitrary: s ps C D)
  case (Cons i "is")
  note inv = Cons.prems(1)
  have tP: "tables m0 pgdir \<subseteq> P" using Cons.prems(3) by simp
  have tr: "translate (km_mem s) pgdir x = translate m0 pgdir x" for x by (rule P_same [OF inv Cons.prems(2) tP])
  have ai: "aligned i" using Cons.prems(4) by simp
  define pte where "pte = fst (walkpgdir pgdir i False s)"
  define e where "e = load32 (km_mem s) pte"
  have pre: "pte \<noteq> 0" "e AND PTE_P \<noteq> 0"
    using Cons.prems(5) unfolding pte_def e_def by (auto simp: Let_def split: if_splits)
  then have pp: "pde_present (km_mem s) pgdir i" "pte = pte_addr (km_mem s) pgdir i"
    by (auto simp: pte_def walk_no_alloc split: if_splits)
  have te: "translate m0 pgdir i = Some (PTE_ADDR e)"
    using pp pre(2) tr [of i] aligned_fff [OF ai] by (simp add: translate_def e_def)
  then have fr: "P2V (PTE_ADDR e) \<in> P" using Cons.prems(3) by (auto simp: frames_def)
  have fl: "PTE_FLAGS e AND 0xFFF = PTE_FLAGS e" by (simp add: PTE_FLAGS_def)
  obtain mem s1 where k: "kalloc s = (mem, s1)" by fastforce
  define s2 where "s2 = upd_mem (memmove mem (P2V (PTE_ADDR e)) 4096) s1"
  have mem: "mem \<noteq> 0"
  proof
    assume "mem = 0"
    then have "d' = 0" using Cons.prems(5) pre k by (auto simp: pte_def e_def Let_def outcome_simps)
    then show False using Cons.prems(6) by simp
  qed
  have st: "bnd (mappages d i 4096 (V2P mem) (PTE_FLAGS e) s2) (\<lambda>(r, s).
      if r < 0 then bnd (freevm kend d s) (\<lambda>s. Ok (0, s)) else copyuvm_loop kend pgdir d is s) = Ok (d', s')"
    using Cons.prems(5) pre k mem by (simp add: pte_def e_def Let_def s2_def)
  then obtain r s3 where m: "mappages d i 4096 (V2P mem) (PTE_FLAGS e) s2 = Ok (r, s3)" by (auto simp: outcome_simps)
  have "\<not> r < 0"
  proof
    assume "r < 0"
    then have "d' = 0" using st m by (auto simp: outcome_simps)
    then show False using Cons.prems(6) by simp
  qed
  then have lp: "copyuvm_loop kend pgdir d is s3 = Ok (d', s')" using st m by simp
  have "r = 0"
    using mappages_zero [OF m] \<open>\<not> r < 0\<close> by simp
  then obtain ps3 where c3: "child_ok kend pgdir d m0 P s3 ps3 (insert mem C) (insert i D)"
    using copy_step [OF inv ai te fr k mem fl] m unfolding s2_def by blast
  have sub: "tables m0 pgdir \<union> frames m0 pgdir (set is) \<subseteq> P" "\<forall>i \<in> set is. aligned i"
    using Cons.prems(3,4) by (auto simp: frames_def)
  show ?case using Cons.IH [OF c3 Cons.prems(2) sub lp Cons.prems(6)] by simp
qed auto

lemma page_steps_0: "i \<in> set (page_steps 0 sz) \<longleftrightarrow> (\<exists>j < (unat sz + 4095) div 4096. i = of_nat (4096 * j))"
  by (auto simp: page_steps_def)

lemma page_of:
  assumes "unat x < unat sz"
  obtains i where "i \<in> set (page_steps 0 sz)" "in_pages i 1 x" "aligned i" "unat i \<le> unat x"
proof
  let ?j = "unat x div 4096"
  let ?i = "of_nat (4096 * ?j) :: u32"
  have "4096 * ?j \<le> unat x" by simp
  then have u: "unat ?i = 4096 * ?j" using unat_u32_bound [of x] by (intro unat_of_nat_u32) linarith
  have "?j < (unat sz + 4095) div 4096" using assms by linarith
  then show "?i \<in> set (page_steps 0 sz)" by (auto simp: page_steps_0)
  have "unat x < 4096 * ?j + 4096" by simp
  then show "in_pages ?i 1 x" unfolding in_pages_def u by simp
  show "aligned ?i" "unat ?i \<le> unat x" unfolding u by simp_all
qed

lemma page_steps_aligned: "\<forall>i \<in> set (page_steps 0 sz). aligned i"
proof
  fix i
  assume "i \<in> set (page_steps 0 sz)"
  then obtain j where "i = of_nat (4096 * j)" by (auto simp: page_steps_0)
  then have "unat i = 4096 * j mod 4294967296" by (simp only: unat_of_nat) simp
  moreover have "4096 * j mod 4294967296 mod 4096 = 4096 * j mod 4096" by (rule mod_mod_cancel) simp
  ultimately show "aligned i" by simp
qed

lemma translate_in_page:
  assumes "translate m pgdir i = Some pa" "in_pages i 1 x" "aligned i"
  shows "translate m pgdir x = Some (pa + (x - i))"
proof -
  have "PDX x = PDX i" "PTX x = PTX i" using assms(2,3) in_page_1 [of i x] same_page_iff [of x i] by simp_all
  then show ?thesis using assms(1) page_offset [OF assms(3,2)] aligned_fff [OF assms(3)]
    by (auto simp: translate_def pde_present_def pte_addr_def split: if_splits)
qed

lemma in_pages_off: "in_pages i 1 x \<Longrightarrow> unat (x - i) < 4096"
proof -
  assume "in_pages i 1 x"
  then have "unat i \<le> unat x" "unat x - unat i < 4096" by (auto simp: in_pages_def)
  then show ?thesis by (simp add: unat_sub_le word_le_nat_alt)
qed

lemma copied_bytes:
  assumes "copied m0 pgdir m d C i" "in_pages i 1 x" "aligned i"
  shows "\<exists>b. vload m0 pgdir x = Some b \<and> vload m d x = Some b"
proof -
  obtain pa c where p: "c \<in> C" "translate m0 pgdir i = Some pa" "translate m d x = Some (V2P c + (x - i))"
      "\<forall>k < 4096. m (c + of_nat k) = m0 (P2V pa + of_nat k)"
    using assms(1,2) unfolding copied_def by blast
  have k: "unat (x - i) < 4096" by (rule in_pages_off [OF assms(2)])
  have "P2V (V2P c + (x - i)) = c + (x - i)" "P2V (pa + (x - i)) = P2V pa + (x - i)" by (simp_all add: V2P_def P2V_def)
  then show ?thesis
    using p(4) [rule_format, OF k] translate_in_page [OF p(2) assms(2,3)] p(3) by (simp add: vload_def)
qed

text \<open>The page a byte of the child is in is one of \<open>C\<close>, the parent's is not.\<close>

lemma copied_frame:
  assumes "copied m0 pgdir m d C i" "in_pages i 1 x" "aligned i" "\<forall>c \<in> C. aligned c"
  shows "\<exists>c \<in> C. \<exists>pa. translate m d x = Some pa \<and> in_range (P2V pa) c 4096"
proof -
  obtain c where p: "c \<in> C" "translate m d x = Some (V2P c + (x - i))" using assms(1,2) unfolding copied_def by blast
  have k: "unat (x - i) < 4096" by (rule in_pages_off [OF assms(2)])
  have "in_range (P2V (V2P c + (x - i))) c 4096" using k by (simp add: in_range_def P2V_def V2P_def)
  then show ?thesis using p by blast
qed

definition separate :: "u32 \<Rightarrow> u32 \<Rightarrow> kmem \<Rightarrow> u32 list \<Rightarrow> u32 \<Rightarrow> bool" where
  "separate pgdir d s ps sz \<longleftrightarrow>
     (tables (km_mem s) pgdir \<union> frames (km_mem s) pgdir (set (page_steps 0 sz))) \<inter> (tables (km_mem s) d \<union> set ps) = {}"

lemma copyuvm_result:
  assumes par: "pd_ok (km_mem s) pgdir" and child: "vm_ok kend d s ps" and sep: "separate pgdir d s ps sz"
    and c: "copyuvm_loop kend pgdir d (page_steps 0 sz) s = Ok (d', s')" "d' \<noteq> 0"
  shows "d' = d" "\<exists>ps'. vm_ok kend d s' ps'"
    "unat x < unat sz \<Longrightarrow> \<exists>b. vload (km_mem s) pgdir x = Some b \<and> vload (km_mem s') pgdir x = Some b \<and> vload (km_mem s') d x = Some b"
    "unat x < unat sz \<Longrightarrow> unat y < unat sz \<Longrightarrow> translate (km_mem s') d x \<noteq> translate (km_mem s') pgdir y"
proof -
  let ?is = "page_steps 0 sz" and ?m = "km_mem s" and ?m' = "km_mem s'"
  let ?P = "tables ?m pgdir \<union> frames ?m pgdir (set ?is)"
  have start: "child_ok kend pgdir d ?m ?P s ps {} {}" using child sep by (simp add: child_ok_def separate_def Un_commute)
  from copyuvm_loop_copies [OF start par subset_refl page_steps_aligned c] obtain ps' C where
    e: "d' = d" "child_ok kend pgdir d ?m ?P s' ps' C (set ?is)" by auto
  then have ok: "vm_ok kend d s' ps'" "\<forall>i \<in> set ?is. copied ?m pgdir ?m' d C i" "\<forall>c \<in> C. aligned c" "?P \<inter> C = {}"
      "same_but_pages {q. aligned q \<and> q \<notin> ?P} ?m ?m'"
    by (auto simp: child_ok_def)
  show "d' = d" "\<exists>ps'. vm_ok kend d s' ps'" using e ok by blast+
  have tr: "translate ?m' pgdir y = translate ?m pgdir y" for y by (rule P_same [OF e(2) par]) simp
  have fr: "P2V pa \<in> ?P \<and> aligned (P2V pa) \<and> translate ?m pgdir y = Some (pa + (y - i)) \<and> in_range (P2V (pa + (y - i))) (P2V pa) 4096"
    if "i \<in> set ?is" "in_pages i 1 y" "aligned i" "translate ?m pgdir i = Some pa" for i y pa
  proof -
    have "unat (y - i) < 4096" by (rule in_pages_off [OF that(2)])
    then have "in_range (P2V (pa + (y - i))) (P2V pa) 4096" by (simp add: in_range_def P2V_def)
    then show ?thesis using that translate_aligned [OF that(4,3)] translate_in_page [OF that(4,2,3)] by (auto simp: frames_def)
  qed
  have get: "\<exists>i pa. i \<in> set ?is \<and> in_pages i 1 x \<and> aligned i \<and> translate ?m pgdir i = Some pa \<and> copied ?m pgdir ?m' d C i"
    if x: "unat x < unat sz" for x
  proof -
    obtain i where i: "i \<in> set ?is" "in_pages i 1 x" "aligned i" by (rule page_of [OF x])
    then have "copied ?m pgdir ?m' d C i" using ok(2) by blast
    moreover from this obtain pa where "translate ?m pgdir i = Some pa" unfolding copied_def by blast
    ultimately show ?thesis using i by (intro exI [of _ i] exI [of _ pa] conjI)
  qed
  show "\<exists>b. vload ?m pgdir x = Some b \<and> vload ?m' pgdir x = Some b \<and> vload ?m' d x = Some b" if x: "unat x < unat sz"
  proof -
    obtain i pa where i: "i \<in> set ?is" "in_pages i 1 x" "aligned i" "translate ?m pgdir i = Some pa" "copied ?m pgdir ?m' d C i"
      using get [OF x] by (elim exE conjE) (rule that)
    note f = fr [OF i(1-4)]
    have "?m' (P2V (pa + (x - i))) = ?m (P2V (pa + (x - i)))"
      by (rule same_but_pages_byte [OF ok(5), of "P2V pa"]) (use f in auto)
    then have "vload ?m' pgdir x = vload ?m pgdir x" using f by (simp add: vload_def tr)
    then show ?thesis using copied_bytes [OF i(5,2,3)] by simp
  qed
  show "translate ?m' d x \<noteq> translate ?m' pgdir y" if xy: "unat x < unat sz" "unat y < unat sz"
  proof
    assume eq: "translate ?m' d x = translate ?m' pgdir y"
    obtain i pa where i: "i \<in> set ?is" "in_pages i 1 x" "aligned i" "copied ?m pgdir ?m' d C i"
      using get [OF xy(1)] by (elim exE conjE) (rule that)
    obtain c p where cp: "c \<in> C" "translate ?m' d x = Some p" "in_range (P2V p) c 4096"
      using copied_frame [OF i(4,2,3) ok(3)] by blast
    obtain j pb where j: "j \<in> set ?is" "in_pages j 1 y" "aligned j" "translate ?m pgdir j = Some pb"
      using get [OF xy(2)] by (elim exE conjE) (rule that)
    note f = fr [OF j]
    have "p = pb + (y - j)" using eq cp(2) f tr [of y] by simp
    then have "c = P2V pb" using pages_disjoint [of c "P2V pb" "P2V p"] ok(3) cp(1,3) f by simp
    then show False using ok(4) cp(1) f by auto
  qed
qed

section \<open>The copy as fork makes it\<close>

text \<open>The whole of \<open>copyuvm\<close>, with the kernel's part of the new directory.\<close>

lemma copyuvm_child:
  assumes par: "pd_ok (km_mem s) pgdir" and fl: "freelist_is kend s ps" and l: "layout_ok l"
    and sep: "(tables (km_mem s) pgdir \<union> frames (km_mem s) pgdir (set (page_steps 0 sz))) \<inter> set ps = {}"
    and c: "copyuvm kend l pgdir sz s = Ok (d, s')" "d \<noteq> 0" and x: "unat x < unat sz"
  shows "\<exists>b. vload (km_mem s) pgdir x = Some b \<and> vload (km_mem s') pgdir x = Some b \<and> vload (km_mem s') d x = Some b"
proof -
  obtain d1 s1 where s1: "setupkvm kend l s = Ok (d1, s1)" "d1 \<noteq> 0" "copyuvm_loop kend pgdir d1 (page_steps 0 sz) s1 = Ok (d, s')"
    using c by (auto simp: copyuvm_def outcome_simps split: if_splits)
  obtain us ps' where u: "ps = us @ ps'" "vm_ok kend d1 s1 ps'" "tables (km_mem s1) d1 \<subseteq> set us" "same_but_pages (set us) (km_mem s) (km_mem s1)"
    using setupkvm_ok [OF fl l s1(1,2)] by blast
  have us: "\<forall>q \<in> set us. aligned q" using fl u(1) by (auto simp: freelist_is_def usable_page_def)
  have dt: "set us \<inter> tables (km_mem s) pgdir = {}" using sep u(1) by auto
  note t = tables_off_pages [OF par u(4) us dt]
  have fr: "frames (km_mem s1) pgdir A = frames (km_mem s) pgdir A" for A by (simp add: frames_def t(3))
  have "separate pgdir d1 s1 ps' sz" using sep u(1,3) t(2) fr by (auto simp: separate_def)
  note r = copyuvm_result [OF t(1) u(2) this s1(3) c(2)]
  obtain b where b: "vload (km_mem s1) pgdir x = Some b" "vload (km_mem s') pgdir x = Some b" "vload (km_mem s') d1 x = Some b"
    using r(3) [OF x] by blast
  have "vload (km_mem s) pgdir x = Some b"
  proof -
    obtain i where i: "i \<in> set (page_steps 0 sz)" "in_pages i 1 x" "aligned i" by (rule page_of [OF x])
    have "translate (km_mem s) pgdir i \<noteq> None"
      using b(1) translate_page_cong [of x i "km_mem s" pgdir] in_page_1 [OF i(3), of x] i(2) t(3) by (auto simp: vload_def)
    then obtain pa where pa: "translate (km_mem s) pgdir i = Some pa" by blast
    have f: "P2V pa \<in> frames (km_mem s) pgdir (set (page_steps 0 sz))" using i(1) pa by (auto simp: frames_def)
    have q: "P2V pa \<notin> set us" using sep f u(1) by auto
    have "in_range (P2V (pa + (x - i))) (P2V pa) 4096" using in_pages_off [OF i(2)] by (simp add: in_range_def P2V_def)
    then have "km_mem s1 (P2V (pa + (x - i))) = km_mem s (P2V (pa + (x - i)))"
      by (rule same_but_pages_byte [OF u(4) translate_aligned [OF pa i(3)] q us])
    then show ?thesis using b(1) translate_in_page [OF pa i(2,3)] t(3) by (simp add: vload_def)
  qed
  then show ?thesis using b r(1) by blast
qed

text \<open>C7: the memory a child gets is a copy.  When the loop of \<open>copyuvm\<close> has filled the child's directory from a parent whose tables and pages are not on the free list, every byte of the parent's memory is at the same address in the child, the parent still sees it too, no byte of the one is in the same physical place as a byte of the other, and the child's directory is well formed.\<close>

theorem copyuvm_copies:
  assumes "pd_ok (km_mem s) pgdir" and "vm_ok kend d s ps" and "separate pgdir d s ps sz"
    and "copyuvm_loop kend pgdir d (page_steps 0 sz) s = Ok (d', s')" and "d' \<noteq> 0"
  shows "d' = d \<and> (\<exists>ps'. vm_ok kend d s' ps') \<and>
    (\<forall>x. unat x < unat sz \<longrightarrow>
       (\<exists>b. vload (km_mem s) pgdir x = Some b \<and> vload (km_mem s') pgdir x = Some b \<and> vload (km_mem s') d x = Some b)) \<and>
    (\<forall>x y. unat x < unat sz \<and> unat y < unat sz \<longrightarrow> translate (km_mem s') d x \<noteq> translate (km_mem s') pgdir y)"
  using copyuvm_result [OF assms] by blast

text \<open>A parent with one page, the frame \<open>f\<close>, and an empty directory for the child.\<close>

lemma grew_subset: "grew kend pgdir s ps s' ps' \<Longrightarrow> set ps' \<subseteq> set ps \<and> tables (km_mem s') pgdir \<subseteq> tables (km_mem s) pgdir \<union> set ps"
  by (auto simp: grew_def)

lemma parent_and_child:
  "\<exists>g d s ps f. pd_ok (km_mem s) g \<and> vm_ok 0x80100000 d s ps \<and> translate (km_mem s) g 0 = Some (V2P f) \<and>
     (\<forall>x. translate (km_mem s) d x = None) \<and> (tables (km_mem s) g \<union> {f}) \<inter> (tables (km_mem s) d \<union> set ps) = {} \<and> 2 \<le> length ps"
proof -
  let ?k = "0x80100000 :: u32"
  obtain g s ps where e: "vm_ok ?k g s ps" "length ps = 7" "\<forall>x. translate (km_mem s) g x = None" "tables (km_mem s) g = {g}"
    using directory_of_eight by blast
  then obtain f qs where ps: "ps = f # qs" by (cases ps) auto
  have fl: "freelist_is ?k s (f # qs)" using e(1) ps by (simp add: vm_ok_def)
  obtain s1 where k1: "kalloc s = (f, s1)" using kpages.alloc_Cons [OF fl] by blast
  have nz: "f \<noteq> 0" using fl usable_page_nonzero by (auto simp: freelist_is_def)
  from kalloc_takes [OF fl k1 nz] have q: "freelist_is ?k s1 qs" "km_mem s1 = km_mem s" "aligned f" "f \<notin> set qs" by auto
  have ok1: "vm_ok ?k g s1 qs" "f \<noteq> g" using e(1,4) q ps by (auto simp: vm_ok_def)
  obtain p rs where qs: "qs = p # rs" using e(2) ps by (cases qs) auto
  have pf: "(6 :: u32) AND 0xFFF = 6" by simp
  obtain s2 ps2 where m: "grew ?k g s1 qs s2 ps2" "maps g 0 1 (V2P f) (km_mem s1) (km_mem s2)" "ps2 = p # rs \<or> ps2 = rs"
    using mappages_one [OF ok1(1) [unfolded qs], of 0 "V2P f" 6] e(3) q(2) aligned_V2P [OF q(3)] pf qs by auto
  have ok2: "vm_ok ?k g s2 ps2" using m(1) by (simp add: grew_def)
  have tf: "translate (km_mem s2) g 0 = Some (V2P f)" using m(2) by (simp add: maps_def in_pages_def)
  have f2: "f \<notin> set ps2 \<union> tables (km_mem s2) g"
    using grew_subset [OF m(1)] q(2,4) ok1(2) e(4) by auto
  have len: "5 \<le> length ps2" using m(3) e(2) ps qs by auto
  then obtain d ds where d: "ps2 = d # ds" by (cases ps2) auto
  have fl2: "freelist_is ?k s2 (d # ds)" using ok2 d by (simp add: vm_ok_def)
  obtain s3 where k3: "kalloc s2 = (d, s3)" using kpages.alloc_Cons [OF fl2] by blast
  have dnz: "d \<noteq> 0" using fl2 usable_page_nonzero by (auto simp: freelist_is_def)
  define s4 where "s4 = upd_mem (memset d 0 PGSIZE) s3"
  from empty_directory [OF fl2 k3 dnz, folded s4_def] have c: "vm_ok ?k d s4 ds" "tables (km_mem s4) d = {d}"
      "same_but_pages {d} (km_mem s2) (km_mem s4)" "\<forall>x. translate (km_mem s4) d x = None" by auto
  have ad: "\<forall>q \<in> {d}. aligned q" using fl2 by (simp add: freelist_is_def usable_page_def)
  have "{d} \<inter> tables (km_mem s2) g = {}" "pd_ok (km_mem s2) g" "tables (km_mem s2) g \<inter> set ps2 = {}"
    using ok2 d by (auto simp: vm_ok_def)
  note t = tables_off_pages [OF this(2) c(3) ad this(1)] this(3)
  show ?thesis
  proof (intro exI conjI)
    show "pd_ok (km_mem s4) g" "vm_ok ?k d s4 ds" "\<forall>x. translate (km_mem s4) d x = None" by (fact t(1) c(1) c(4))+
    show "translate (km_mem s4) g 0 = Some (V2P f)" using t(3) tf by simp
    show "(tables (km_mem s4) g \<union> {f}) \<inter> (tables (km_mem s4) d \<union> set ds) = {}" using t(2,4) c(2) f2 d by auto
    show "2 \<le> length ds" using len d by simp
  qed
qed

theorem copyuvm_copies_witness:
  "\<exists>g d s s' b. copyuvm_loop 0x80100000 g d (page_steps 0 5) s = Ok (d, s') \<and> d \<noteq> 0 \<and>
     vload (km_mem s) g 3 = Some b \<and> vload (km_mem s') d 3 = Some b \<and> translate (km_mem s') d 3 \<noteq> translate (km_mem s') g 3"
proof -
  let ?k = "0x80100000 :: u32"
  obtain g d s ps f where e: "pd_ok (km_mem s) g" "vm_ok ?k d s ps" "translate (km_mem s) g 0 = Some (V2P f)"
      "\<forall>x. translate (km_mem s) d x = None" "(tables (km_mem s) g \<union> {f}) \<inter> (tables (km_mem s) d \<union> set ps) = {}" "2 \<le> length ps"
    using parent_and_child by (elim exE conjE) (rule that)
  from e(6) obtain p ps1 where "ps = p # ps1" by (cases ps) simp_all
  moreover from this e(6) obtain q rs where "ps1 = q # rs" by (cases ps1) simp_all
  ultimately have ps: "ps = p # q # rs" by simp
  have steps: "page_steps 0 5 = [0]" by (simp add: page_steps_def)
  have fr: "frames (km_mem s) g (set (page_steps 0 5)) = {f}" using e(3) by (auto simp: steps frames_def)
  have sep: "separate g d s ps 5" using e(5) fr by (simp add: separate_def)
  have fl: "freelist_is ?k s ps" using e(2) by (simp add: vm_ok_def)
  obtain s1 where k: "kalloc s = (p, s1)" using kpages.alloc_Cons fl ps by blast
  have pnz: "p \<noteq> 0" using fl ps usable_page_nonzero by (auto simp: freelist_is_def)
  from kalloc_takes [OF fl k pnz] have ta: "freelist_is ?k s1 (q # rs)" "km_mem s1 = km_mem s" "aligned p" "p \<notin> set (q # rs)" using ps by auto
  have af: "aligned f" using translate_aligned [OF e(3)] by simp
  define s2 where "s2 = upd_mem (memmove p f 4096) s1"
  have m2: "km_mem s2 = memmove p f 4096 (km_mem s1)" by (simp add: s2_def upd_mem_def)
  have ok1: "vm_ok ?k d s1 (q # rs)" using e(2) ta ps by (auto simp: vm_ok_def)
  have fr2: "km_freelist s2 = km_freelist s1" by (simp add: s2_def upd_mem_def)
  have "\<forall>x \<in> {p}. aligned x" "{p} \<inter> (set (q # rs) \<union> tables (km_mem s1) d) = {}"
    using ta e(2) ps by (auto simp: vm_ok_def)
  note v = vm_ok_same_but_pages [OF ok1 copy_page(1) [OF ta(3) af, of "km_mem s1", folded m2] fr2 this]
  define ent where "ent = load32 (km_mem s) (pte_addr (km_mem s) g 0)"
  have en: "pde_present (km_mem s) g 0" "ent AND PTE_P \<noteq> 0" "P2V (PTE_ADDR ent) = f"
    using e(3) by (auto simp: translate_def ent_def split: if_splits)
  have fl0: "PTE_FLAGS ent AND 0xFFF = PTE_FLAGS ent" by (simp add: PTE_FLAGS_def)
  have "translate (km_mem s2) d 0 = None" using v(3) e(4) ta(2) by simp
  then obtain s3 where m: "mappages_loop d 0 (V2P p) (PTE_FLAGS ent) 0 s2 = Ok (0, s3)"
    using mappages_one [OF v(1), of 0 "V2P p" "PTE_FLAGS ent"] aligned_V2P [OF ta(3)] fl0 by auto
  have rg: "0 < unat (4096 :: u32)" "unat (0 :: u32) + unat (4096 :: u32) \<le> 4294967296" by simp_all
  have "mappages d 0 4096 (V2P p) (PTE_FLAGS ent) s2 = Ok (0, s3)"
    using mappages_pages(1) [OF rg] m by (simp add: PGROUNDDOWN_def npages_def)
  moreover have "pte_addr (km_mem s) g 0 \<noteq> 0"
    using entry_nonzero [OF _ _ PTX_less] aligned_P2V pd_okD(3) [OF e(1) en(1)] unfolding pte_addr_tab by (auto simp: tab_def)
  ultimately have "copyuvm_loop ?k g d (page_steps 0 5) s = Ok (d, s3)"
    using en k pnz unfolding steps by (simp add: walk_no_alloc ent_def [symmetric] s2_def Let_def)
  moreover have "d \<noteq> 0" using e(2) by (simp add: vm_ok_def pd_ok_def)
  moreover note copyuvm_copies [OF e(1,2) sep calculation]
  then have "\<exists>b. vload (km_mem s) g 3 = Some b \<and> vload (km_mem s3) g 3 = Some b \<and> vload (km_mem s3) d 3 = Some b"
    "translate (km_mem s3) d 3 \<noteq> translate (km_mem s3) g 3" by auto
  ultimately show ?thesis by blast
qed

end
