(* ===== verification/Uthread.thy ===== *)
theory Uthread
  imports Mmu
begin

text \<open>
  The user-level threads of \<open>uthread1.c\<close> and \<open>uthread_switch.S\<close>, down to the registers and the
  words of the stacks.

  A thread is the address of its \<open>struct thread\<close> in the array \<open>all_thread\<close>, which starts at
  \<open>base\<close>: the saved stack pointer at offset 0, the stack from 4 to 8195, the state at 8196.  The
  state of the process is the memory, the pointers \<open>current_thread\<close> and \<open>next_thread\<close>, and the
  registers.  \<open>thread_switch\<close> is translated instruction by instruction; \<open>thread_schedule\<close> is entered
  with the stack pointer on the word it is to return to and follows the calling convention it is
  compiled with (\<open>-fno-omit-frame-pointer\<close> in the \<open>Makefile\<close>, a frame of 24 bytes in
  \<open>uthread1.asm\<close>): it pushes \<open>ebp\<close>, and the call of \<open>thread_switch\<close> pushes the return site.
\<close>

section \<open>Threads\<close>

definition FREE :: u32 where "FREE = 0"
definition T_RUNNING :: u32 where "T_RUNNING = 1"
definition T_RUNNABLE :: u32 where "T_RUNNABLE = 2"
definition STACK_SIZE :: u32 where "STACK_SIZE = 8192"
definition MAX_THREAD :: nat where "MAX_THREAD = 4"

lemmas uthread_consts = FREE_def T_RUNNING_def T_RUNNABLE_def STACK_SIZE_def MAX_THREAD_def

record uthr =
  t_mem :: mem
  t_current :: u32
  t_next :: u32
  r_eax :: u32
  r_ecx :: u32
  r_edx :: u32
  r_ebx :: u32
  r_ebp :: u32
  r_esi :: u32
  r_edi :: u32
  r_esp :: u32
  r_eip :: u32

abbreviation t_sp :: "mem \<Rightarrow> u32 \<Rightarrow> u32" where "t_sp m t \<equiv> load32 m t"
abbreviation t_state :: "mem \<Rightarrow> u32 \<Rightarrow> u32" where "t_state m t \<equiv> load32 m (t + 8196)"

definition set_sp :: "u32 \<Rightarrow> u32 \<Rightarrow> uthr \<Rightarrow> uthr" where
  "set_sp t v u = u\<lparr>t_mem := store32 t v (t_mem u)\<rparr>"

definition set_state :: "u32 \<Rightarrow> u32 \<Rightarrow> uthr \<Rightarrow> uthr" where
  "set_state t v u = u\<lparr>t_mem := store32 (t + 8196) v (t_mem u)\<rparr>"

definition all_thread :: "u32 \<Rightarrow> u32 list" where
  "all_thread base = map (\<lambda>i. base + of_nat i * 8200) [0..<MAX_THREAD]"

section \<open>The processor\<close>

definition push :: "u32 \<Rightarrow> uthr \<Rightarrow> uthr" where
  "push v u = u\<lparr>t_mem := store32 (r_esp u - 4) v (t_mem u), r_esp := r_esp u - 4\<rparr>"

definition pop :: "uthr \<Rightarrow> u32 \<times> uthr" where
  "pop u = (load32 (t_mem u) (r_esp u), u\<lparr>r_esp := r_esp u + 4\<rparr>)"

definition pushal :: "uthr \<Rightarrow> uthr" where
  "pushal u =
     (let sp = r_esp u
      in push (r_edi u) (push (r_esi u) (push (r_ebp u) (push sp
        (push (r_ebx u) (push (r_edx u) (push (r_ecx u) (push (r_eax u) u))))))))"

definition popal :: "uthr \<Rightarrow> uthr" where
  "popal u =
     (let (di, u) = pop u; (si, u) = pop u; (bp, u) = pop u; (_, u) = pop u;
          (bx, u) = pop u; (dx, u) = pop u; (cx, u) = pop u; (ax, u) = pop u
      in u\<lparr>r_edi := di, r_esi := si, r_ebp := bp, r_ebx := bx, r_edx := dx, r_ecx := cx, r_eax := ax\<rparr>)"

definition ret :: "uthr \<Rightarrow> uthr" where
  "ret u = (let (a, u) = pop u in u\<lparr>r_eip := a\<rparr>)"

definition thread_switch :: "uthr \<Rightarrow> uthr" where
  "thread_switch u =
     (let u = pushal u;
          u = u\<lparr>r_eax := t_current u\<rparr>;
          u = u\<lparr>t_mem := store32 (r_eax u) (r_esp u) (t_mem u)\<rparr>;
          u = u\<lparr>r_eax := t_next u\<rparr>;
          u = u\<lparr>r_esp := load32 (t_mem u) (r_eax u)\<rparr>;
          u = u\<lparr>t_current := r_eax u\<rparr>;
          u = popal u;
          u = u\<lparr>t_next := 0\<rparr>
      in ret u)"

section \<open>Scheduling\<close>

text \<open>
  The compiled frame of \<open>thread_schedule\<close>: \<open>site\<close> is the address after its call of
  \<open>thread_switch\<close>, and the scratch registers hold \<open>a\<close>, \<open>c\<close>, \<open>d\<close> there.
\<close>

definition enter_frame :: "uthr \<Rightarrow> uthr" where
  "enter_frame u = (let u = push (r_ebp u) u in u\<lparr>r_ebp := r_esp u, r_esp := r_esp u - 24\<rparr>)"

definition leave_ret :: "uthr \<Rightarrow> uthr" where
  "leave_ret u = (let (b, u) = pop (u\<lparr>r_esp := r_ebp u\<rparr>) in ret (u\<lparr>r_ebp := b\<rparr>))"

definition call_switch :: "u32 \<Rightarrow> u32 \<times> u32 \<times> u32 \<Rightarrow> uthr \<Rightarrow> uthr" where
  "call_switch site scratch u =
     (case scratch of (a, c, d) \<Rightarrow> thread_switch (push site (u\<lparr>r_eax := a, r_ecx := c, r_edx := d\<rparr>)))"

definition find_next :: "mem \<Rightarrow> u32 \<Rightarrow> u32 list \<Rightarrow> u32 option" where
  "find_next m cur ts = find (\<lambda>t. t_state m t = T_RUNNABLE \<and> t \<noteq> cur) ts"

text \<open>\<open>None\<close>: the process has exited.\<close>

definition thread_schedule :: "u32 \<Rightarrow> u32 \<Rightarrow> u32 \<times> u32 \<times> u32 \<Rightarrow> uthr \<Rightarrow> uthr option" where
  "thread_schedule base site scratch u =
     (let u = enter_frame u;
          u = u\<lparr>t_next := 0\<rparr>;
          found = find_next (t_mem u) (t_current u) (all_thread base);
          u = (case found of
                 Some t \<Rightarrow> u\<lparr>t_next := t\<rparr>
               | None \<Rightarrow> if t_state (t_mem u) (t_current u) = T_RUNNABLE then u\<lparr>t_next := t_current u\<rparr> else u)
      in if t_next u = 0 then None
         else if t_current u \<noteq> t_next u then
           Some (call_switch site scratch (set_state (t_next u) T_RUNNING u))
         else Some (leave_ret (u\<lparr>t_next := 0\<rparr>)))"

section \<open>Starting threads\<close>

text \<open>The call of \<open>uthread_init\<close> (\<open>sys_uthread_init\<close>) only tells the kernel the address of \<open>thread_schedule\<close>.\<close>

definition thread_init :: "u32 \<Rightarrow> uthr \<Rightarrow> uthr" where
  "thread_init base u = set_state base T_RUNNING (u\<lparr>t_current := base\<rparr>)"

text \<open>Without a free slot the code goes on with the address behind the array.\<close>

definition thread_create :: "u32 \<Rightarrow> u32 \<Rightarrow> uthr \<Rightarrow> uthr outcome" where
  "thread_create base func u =
     (case find (\<lambda>t. t_state (t_mem u) t = FREE) (all_thread base) of
        None \<Rightarrow> Undef ''all_thread''
      | Some t \<Rightarrow>
          (let u = set_sp t (t + 4 + STACK_SIZE) u;
               u = set_sp t (t_sp (t_mem u) t - 4) u;
               u = u\<lparr>t_mem := store32 (t_sp (t_mem u) t) func (t_mem u)\<rparr>;
               u = set_sp t (t_sp (t_mem u) t - 32) u
           in Ok (set_state t T_RUNNABLE u)))"

text \<open>
  What the timer interrupt does to the process when the kernel sends it to its scheduler (\<open>trap\<close>):
  the instruction pointer is replaced and nothing else.
\<close>

definition timer_redirect :: "u32 \<Rightarrow> uthr \<Rightarrow> uthr" where
  "timer_redirect sched u = u\<lparr>r_eip := sched\<rparr>"


section \<open>Words on the stacks\<close>

lemma load_apart:
  assumes "4 \<le> unat (b - a)" "4 \<le> unat (a - b)"
  shows "load32 (store32 a v m) b = load32 m b"
proof (rule load32_store32_other)
  fix x
  assume x: "in_range x b 4"
  have "unat (b - a) \<le> 4294967292"
    using assms unat_u32_bound [of a] unat_u32_bound [of b]
    by (simp add: unat_sub_if' split: if_splits)
  then have "unat (x - b) + unat (b - a) < 4294967296" using x by (simp add: in_range_def)
  then have "unat (x - b + (b - a)) = unat (x - b) + unat (b - a)" by (intro unat_add_nowrap) simp
  moreover have "x - b + (b - a) = x - a" by simp
  ultimately have "4 \<le> unat (x - a)" using assms(1) by (simp only:)
  then show "\<not> in_range x a 4" by (simp add: in_range_def)
qed

lemma pushal_simps [simp]:
  "r_esp (pushal u) = r_esp u - 32" "t_current (pushal u) = t_current u" "t_next (pushal u) = t_next u"
  by (simp_all add: pushal_def push_def Let_def)

lemma pushal_mem:
  "r_esp u = s + 32 \<Longrightarrow> t_mem (pushal u) =
     store32 s (r_edi u) (store32 (s + 4) (r_esi u) (store32 (s + 8) (r_ebp u) (store32 (s + 12) (s + 32)
     (store32 (s + 16) (r_ebx u) (store32 (s + 20) (r_edx u) (store32 (s + 24) (r_ecx u) (store32 (s + 28) (r_eax u) (t_mem u))))))))"
  by (simp add: pushal_def push_def Let_def algebra_simps)

lemma popal_simps:
  "popal u = u\<lparr>r_edi := load32 (t_mem u) (r_esp u), r_esi := load32 (t_mem u) (r_esp u + 4),
     r_ebp := load32 (t_mem u) (r_esp u + 8), r_ebx := load32 (t_mem u) (r_esp u + 16),
     r_edx := load32 (t_mem u) (r_esp u + 20), r_ecx := load32 (t_mem u) (r_esp u + 24),
     r_eax := load32 (t_mem u) (r_esp u + 28), r_esp := r_esp u + 32\<rparr>"
  by (simp add: popal_def pop_def Let_def add.assoc)


lemma word_in_frame:
  assumes "in_range x (s + k) 4" "unat k \<le> 60"
  shows "in_range x s 64"
proof -
  have lt: "unat (x - (s + k)) + unat k < 64" using assms by (simp add: in_range_def)
  have "unat (x - (s + k) + k) = unat (x - (s + k)) + unat k"
    by (rule unat_add_nowrap) (use lt in simp)
  moreover have "x - (s + k) + k = x - s" by simp
  ultimately show ?thesis using lt by (simp only: in_range_def)
qed

text \<open>
  The words \<open>thread_schedule\<close> leaves on the stack of the thread it switches away from, whose return
  address was at \<open>s + 64\<close>.
\<close>

definition parked :: "mem \<Rightarrow> u32 \<Rightarrow> u32 \<Rightarrow> uthr \<Rightarrow> bool" where
  "parked m s site u \<longleftrightarrow> load32 m s = r_edi u \<and> load32 m (s + 4) = r_esi u \<and> load32 m (s + 8) = s + 60 \<and>
     load32 m (s + 16) = r_ebx u \<and> load32 m (s + 32) = site \<and> load32 m (s + 60) = r_ebp u"

definition at_switch :: "u32 \<Rightarrow> u32 \<times> u32 \<times> u32 \<Rightarrow> u32 \<Rightarrow> uthr \<Rightarrow> uthr" where
  "at_switch site scratch b u =
     (case scratch of (a, c, d) \<Rightarrow>
      pushal (push site ((set_state b T_RUNNING (enter_frame u\<lparr>t_next := b\<rparr>))\<lparr>r_eax := a, r_ecx := c, r_edx := d\<rparr>)))"

lemma at_switch_regs:
  assumes "r_esp u = s + 64"
  shows "r_esp (at_switch site sc b u) = s" "t_current (at_switch site sc b u) = t_current u"
    "t_next (at_switch site sc b u) = b"
  using assms by (simp_all add: at_switch_def enter_frame_def set_state_def push_def Let_def split: prod.split)

lemma at_switch_mem:
  assumes "r_esp u = s + 64" "sc = (a, c, d)"
  shows "t_mem (at_switch site sc b u) =
     store32 s (r_edi u) (store32 (s + 4) (r_esi u) (store32 (s + 8) (s + 60) (store32 (s + 12) (s + 32)
     (store32 (s + 16) (r_ebx u) (store32 (s + 20) d (store32 (s + 24) c (store32 (s + 28) a
     (store32 (s + 32) site (store32 (b + 8196) T_RUNNING (store32 (s + 60) (r_ebp u) (t_mem u)))))))))))"
proof -
  have "r_esp (push site ((set_state b T_RUNNING (enter_frame u\<lparr>t_next := b\<rparr>))\<lparr>r_eax := a, r_ecx := c, r_edx := d\<rparr>)) = s + 32"
    using assms(1) by (simp add: push_def enter_frame_def set_state_def Let_def)
  from pushal_mem [OF this] show ?thesis
    using assms by (simp add: at_switch_def push_def enter_frame_def set_state_def Let_def algebra_simps)
qed

lemma at_switch_parked:
  assumes "r_esp u = s + 64" "\<And>x. in_range x (b + 8196) 4 \<Longrightarrow> \<not> in_range x s 64"
  shows "parked (t_mem (at_switch site sc b u)) s site u"
proof -
  obtain a c d where sc: "sc = (a, c, d)" by (cases sc)
  have b: "load32 (store32 (b + 8196) v m) (s + k) = load32 m (s + k)" if "unat k \<le> 60" for v m k
    by (rule load32_store32_other) (use word_in_frame [OF _ that] assms(2) in blast)
  show ?thesis
    using b [of 60]
    by (simp add: parked_def at_switch_mem [OF assms(1) sc] load_apart)
qed


section \<open>The parts of the memory\<close>

lemma in_area_offset:
  assumes "k + n \<le> 4294967296"
  shows "in_range x (t + of_nat k) n \<longleftrightarrow> k \<le> unat (x - t) \<and> unat (x - t) < k + n"
proof (cases "k < 4294967296")
  case True
  have e: "x - (t + of_nat k) = (x - t) - of_nat k" by simp
  have k: "unat (of_nat k :: u32) = k" using True by (rule unat_of_nat_u32)
  show ?thesis
    using assms unat_u32_bound [of "x - t"] unfolding in_range_def e unat_sub_if' k by auto
next
  case False
  then have "n = 0" using assms by simp
  then show ?thesis using unat_u32_bound [of "x - t"] by simp
qed

lemma in_struct:
  "in_range x (t + 4) 8192 \<longleftrightarrow> 4 \<le> unat (x - t) \<and> unat (x - t) < 8196"
  "in_range x (t + 8196) 4 \<longleftrightarrow> 8196 \<le> unat (x - t) \<and> unat (x - t) < 8200"
  "in_range x t 8200 \<longleftrightarrow> unat (x - t) < 8200"
  using in_area_offset [of 4 8192 x t] in_area_offset [of 8196 4 x t] by (simp_all add: in_range_def)

lemma threads_apart:
  assumes "t \<in> set (all_thread base)" "t' \<in> set (all_thread base)" "unat (x - t) < 8200" "unat (x - t') < 8200"
  shows "t = t'"
proof -
  obtain i j where i: "t = base + of_nat i * 8200" "i < 4" and j: "t' = base + of_nat j * 8200" "j < 4"
    using assms(1,2) by (auto simp: all_thread_def MAX_THREAD_def)
  have r: "unat (x - (base + of_nat k * 8200)) < 8200 \<longleftrightarrow> 8200 * k \<le> unat (x - base) \<and> unat (x - base) < 8200 * k + 8200"
    if "k < 4" for k
    using in_area_offset [of "8200 * k" 8200 x base] that by (simp add: in_range_def mult.commute)
  have "8200 * i < 8200 * j + 8200" "8200 * j < 8200 * i + 8200"
    using assms(3,4) r [OF i(2)] r [OF j(2)] unfolding i(1) j(1) by linarith+
  then have "i = j" by linarith
  then show ?thesis using i j by simp
qed

text \<open>
  The stack of a thread.  The thread 0 is \<open>main\<close>: it runs on the stack of the process, the addresses
  \<open>pstack\<close>.
\<close>

definition area :: "u32 set \<Rightarrow> u32 \<Rightarrow> u32 \<Rightarrow> u32 set" where
  "area pstack base t = {x. in_range x (t + 4) 8192} \<union>
     (if t = base then {x \<in> pstack. \<forall>t' \<in> set (all_thread base). \<not> in_range x t' 8200} else {})"

lemma area_apart:
  assumes "t \<in> set (all_thread base)" "t' \<in> set (all_thread base)" "t \<noteq> t'" "x \<in> area pstack base t"
  shows "x \<notin> area pstack base t'"
  using assms threads_apart [OF assms(1,2), of x]
  by (auto simp: area_def in_struct split: if_splits intro!: bexI [of _ t])

lemma area_within: "x \<in> area pstack base t \<Longrightarrow> in_range x t 8200 \<or> x \<in> pstack"
  by (auto simp: area_def in_struct split: if_splits)

lemma area_header:
  assumes "t \<in> set (all_thread base)" "t' \<in> set (all_thread base)" "x \<in> area pstack base t"
  shows "\<not> in_range x t' 4" "\<not> in_range x (t' + 8196) 4"
  using assms threads_apart [OF assms(1,2), of x]
  by (auto simp: area_def in_struct in_range_def [of x t' 4] split: if_splits)

lemma header_apart:
  assumes "t \<in> set (all_thread base)" "t' \<in> set (all_thread base)"
  shows "in_range x t 4 \<Longrightarrow> \<not> in_range x (t' + 8196) 4" "t \<noteq> t' \<Longrightarrow> in_range x t 4 \<Longrightarrow> \<not> in_range x t' 4"
    "t \<noteq> t' \<Longrightarrow> in_range x (t + 8196) 4 \<Longrightarrow> \<not> in_range x (t' + 8196) 4"
  using threads_apart [OF assms, of x] by (auto simp: in_struct in_range_def [of x t 4] in_range_def [of x t' 4])


section \<open>Switching\<close>

lemma call_switch_eq:
  fixes u s b sc site
  defines "v \<equiv> at_switch site sc b u"
  defines "m \<equiv> store32 (t_current u) s (t_mem v)"
  assumes "r_esp u = s + 64"
  shows "call_switch site sc (set_state b T_RUNNING (enter_frame u\<lparr>t_next := b\<rparr>)) =
     v\<lparr>t_mem := m, t_current := b, t_next := 0, r_edi := load32 m (load32 m b), r_esi := load32 m (load32 m b + 4),
       r_ebp := load32 m (load32 m b + 8), r_ebx := load32 m (load32 m b + 16), r_edx := load32 m (load32 m b + 20),
       r_ecx := load32 m (load32 m b + 24), r_eax := load32 m (load32 m b + 28), r_esp := load32 m b + 36,
       r_eip := load32 m (load32 m b + 32)\<rparr>"
proof -
  obtain a c d where sc: "sc = (a, c, d)" by (cases sc)
  note r = at_switch_regs [OF assms(3), of site sc b]
  have v: "v = pushal (push site ((set_state b T_RUNNING (enter_frame u\<lparr>t_next := b\<rparr>))\<lparr>r_eax := a, r_ecx := c, r_edx := d\<rparr>))"
    by (simp add: v_def at_switch_def sc)
  show ?thesis
    unfolding call_switch_def sc prod.case thread_switch_def Let_def v [symmetric]
    using r [folded v_def] by (simp add: popal_simps ret_def pop_def m_def)
qed

definition away :: "u32 \<Rightarrow> u32 \<times> u32 \<times> u32 \<Rightarrow> u32 \<Rightarrow> uthr \<Rightarrow> uthr" where
  "away site sc b u = call_switch site sc (set_state b T_RUNNING (enter_frame u\<lparr>t_next := b\<rparr>))"

lemma schedule_to:
  assumes "find_next (t_mem (enter_frame u)) (t_current u) (all_thread base) = Some b" "b \<noteq> 0" "b \<noteq> t_current u"
  shows "thread_schedule base site sc u = Some (away site sc b u)"
proof -
  have "t_current (enter_frame u) = t_current u" by (simp add: enter_frame_def push_def)
  then show ?thesis using assms by (simp add: thread_schedule_def away_def Let_def)
qed

text \<open>A step of \<open>thread_schedule\<close> that changes the thread.\<close>

lemma schedule_switches:
  assumes "thread_schedule base site sc u = Some u'" "t_current u' \<noteq> t_current u"
  obtains b where "find_next (t_mem (enter_frame u)) (t_current u) (all_thread base) = Some b" "b \<noteq> t_current u"
    "b \<in> set (all_thread base)" "t_state (t_mem (enter_frame u)) b = T_RUNNABLE"
    "u' = call_switch site sc (set_state b T_RUNNING (enter_frame u\<lparr>t_next := b\<rparr>))"
proof -
  let ?f = "find_next (t_mem (enter_frame u)) (t_current u) (all_thread base)"
  have e: "t_current (enter_frame u) = t_current u" by (simp add: enter_frame_def push_def)
  have same: "t_current (leave_ret w) = t_current w" for w
    by (simp add: leave_ret_def ret_def pop_def)
  show ?thesis
  proof (cases ?f)
    case None
    then show ?thesis
      using assms by (auto simp: thread_schedule_def Let_def e same split: if_splits)
  next
    case (Some b)
    then have b: "b \<noteq> t_current u" "b \<in> set (all_thread base)" "t_state (t_mem (enter_frame u)) b = T_RUNNABLE"
      by (auto simp: find_next_def dest: find_SomeD)
    have "u' = call_switch site sc (set_state b T_RUNNING (enter_frame u\<lparr>t_next := b\<rparr>))"
      using assms(1) Some b(1) by (auto simp: thread_schedule_def Let_def e split: if_splits)
    then show ?thesis using that Some b by blast
  qed
qed


lemma at_switch_state:
  assumes "r_esp u = s + 64" "\<forall>x. in_range x s 64 \<longrightarrow> \<not> in_range x (b + 8196) 4"
  shows "t_state (t_mem (at_switch site sc b u)) b = T_RUNNING"
proof -
  obtain a c d where sc: "sc = (a, c, d)" by (cases sc)
  have "load32 (store32 (s + k) v m) (b + 8196) = load32 m (b + 8196)" if "unat k \<le> 60" for k v m
    by (rule load32_store32_other) (use word_in_frame [OF _ that] assms(2) in blast)
  from this [of 0] this [of 4] this [of 8] this [of 12] this [of 16] this [of 20] this [of 24] this [of 28] this [of 32]
  show ?thesis by (simp add: at_switch_mem [OF assms(1) sc])
qed

lemma at_switch_outside:
  assumes "r_esp u = s + 64" "\<not> in_range x s 64" "\<not> in_range x (b + 8196) 4"
  shows "t_mem (at_switch site sc b u) x = t_mem u x"
proof -
  obtain a c d where sc: "sc = (a, c, d)" by (cases sc)
  have "\<not> in_range x (s + k) 4" if "unat k \<le> 60" for k
    using word_in_frame [OF _ that] assms(2) by blast
  from this [of 0] this [of 4] this [of 8] this [of 12] this [of 16] this [of 20] this [of 24] this [of 28] this [of 32]
    this [of 60]
  show ?thesis using assms(3) by (simp add: at_switch_mem [OF assms(1) sc] store32_other)
qed

lemma away_memory:
  assumes s: "r_esp u = s + 64" and t: "t_current u \<in> set (all_thread base)" "b \<in> set (all_thread base)"
    and st: "\<forall>x. in_range x s 64 \<longrightarrow> x \<in> area pstack base (t_current u)"
  shows "t_current (away site sc b u) = b" "t_next (away site sc b u) = 0"
    "load32 (t_mem (away site sc b u)) (t_current u) = s" "parked (t_mem (away site sc b u)) s site u"
    "\<And>x. \<not> in_range x s 64 \<Longrightarrow> \<not> in_range x (t_current u) 4 \<Longrightarrow> \<not> in_range x (b + 8196) 4 \<Longrightarrow>
       t_mem (away site sc b u) x = t_mem u x"
    "t_state (t_mem (away site sc b u)) b = T_RUNNING"
proof -
  let ?v = "at_switch site sc b u"
  have m: "t_mem (away site sc b u) = store32 (t_current u) s (t_mem ?v)"
    unfolding away_def call_switch_eq [OF s] by simp
  show "t_current (away site sc b u) = b" "t_next (away site sc b u) = 0"
    unfolding away_def call_switch_eq [OF s] by simp_all
  show "load32 (t_mem (away site sc b u)) (t_current u) = s" by (simp add: m)
  have "parked (t_mem ?v) s site u"
    by (rule at_switch_parked [OF s]) (use st area_header [OF t(1) t(2)] in blast)
  moreover have "load32 (t_mem (away site sc b u)) (s + k) = load32 (t_mem ?v) (s + k)" if "unat k \<le> 60" for k
    unfolding m by (rule load32_store32_other) (use word_in_frame [OF _ that] st area_header [OF t(1) t(1)] in blast)
  from this [of 0] this [of 4] this [of 8] this [of 16] this [of 32] this [of 60] calculation
  show "parked (t_mem (away site sc b u)) s site u" by (simp add: parked_def)
  show "t_mem (away site sc b u) x = t_mem u x"
    if "\<not> in_range x s 64" "\<not> in_range x (t_current u) 4" "\<not> in_range x (b + 8196) 4" for x
    using that by (simp add: m store32_other at_switch_outside [OF s])
  have "t_state (t_mem (away site sc b u)) b = t_state (t_mem ?v) b"
    unfolding m by (rule load32_store32_other) (use header_apart(1) [OF t] in blast)
  then show "t_state (t_mem (away site sc b u)) b = T_RUNNING"
    using at_switch_state [OF s] st area_header(2) [OF t] by metis
qed


definition room :: "u32 set \<Rightarrow> u32 \<Rightarrow> nat \<Rightarrow> uthr \<Rightarrow> bool" where
  "room pstack base n u \<longleftrightarrow> t_current u \<in> set (all_thread base) \<and> (\<forall>x. in_range x (r_esp u - 64) n \<longrightarrow> x \<in> area pstack base (t_current u))"

lemma roomD:
  assumes "room pstack base n u" "64 \<le> n"
  shows "r_esp u = (r_esp u - 64) + 64" "t_current u \<in> set (all_thread base)"
    "\<forall>x. in_range x (r_esp u - 64) 64 \<longrightarrow> x \<in> area pstack base (t_current u)"
  using assms in_range_mono [of _ "r_esp u - 64" 64 n] by (auto simp: room_def)

lemma away_regs:
  assumes "r_esp u = s + 64" and w: "w = away site sc b u"
  shows "r_edi w = load32 (t_mem w) (t_sp (t_mem w) b)" "r_esi w = load32 (t_mem w) (t_sp (t_mem w) b + 4)"
    "r_ebp w = load32 (t_mem w) (t_sp (t_mem w) b + 8)" "r_ebx w = load32 (t_mem w) (t_sp (t_mem w) b + 16)"
    "r_esp w = t_sp (t_mem w) b + 36" "r_eip w = load32 (t_mem w) (t_sp (t_mem w) b + 32)"
  unfolding w away_def call_switch_eq [OF assms(1)] by simp_all

lemma parked_cong: "(\<And>x. in_range x s 64 \<Longrightarrow> m' x = m x) \<Longrightarrow> parked m s site u \<Longrightarrow> parked m' s site u"
proof -
  assume e: "\<And>x. in_range x s 64 \<Longrightarrow> m' x = m x" and p: "parked m s site u"
  have "load32 m' (s + k) = load32 m (s + k)" if "unat k \<le> 60" for k
    by (rule load32_cong) (use word_in_frame [OF _ that] e in blast)
  from this [of 0] this [of 4] this [of 8] this [of 16] this [of 32] this [of 60] p show ?thesis
    by (simp add: parked_def)
qed

text \<open>A thread that is switched to, with the frame of \<open>thread_schedule\<close> parked on its stack.\<close>

lemma away_parked:
  assumes "r_esp v = s' + 64" and w: "w = away site' sc b v"
    and "t_sp (t_mem w) b = s" and p: "parked (t_mem w) s site u"
  shows "r_eip w = site"
    "leave_ret w = w\<lparr>r_ebp := r_ebp u, r_esp := s + 68, r_eip := load32 (t_mem w) (s + 64)\<rparr>"
    "r_ebx w = r_ebx u" "r_esi w = r_esi u" "r_edi w = r_edi u"
  using away_regs [OF assms(1) w] assms(3) p
  by (simp_all add: parked_def leave_ret_def pop_def ret_def add.assoc)

lemma switched_back:
  assumes "room pstack base 68 u" "thread_schedule base site sc u = Some u'" "t_current u' \<noteq> t_current u"
    and "\<forall>x. x \<in> area pstack base (t_current u) \<or> in_range x (t_current u) 4 \<longrightarrow> t_mem v x = t_mem u' x"
    and "room pstack base 64 v" "t_current v \<noteq> t_current u"
    and "thread_schedule base site sc' v = Some v'" "t_current v' = t_current u"
  shows "r_eip v' = site \<and> r_ebx v' = r_ebx u \<and> r_esi v' = r_esi u \<and> r_edi v' = r_edi u \<and> t_next v' = 0 \<and>
    leave_ret v' = v'\<lparr>r_ebp := r_ebp u, r_esp := r_esp u + 4, r_eip := load32 (t_mem u) (r_esp u)\<rparr>"
proof -
  define s where "s = r_esp u - 64"
  have s: "r_esp u = s + 64" by (simp add: s_def)
  have s': "r_esp v = (r_esp v - 64) + 64" by simp
  obtain b where b: "b \<in> set (all_thread base)" "b \<noteq> t_current u" "u' = away site sc b u"
    using schedule_switches [OF assms(2,3)] by (auto simp: away_def)
  obtain c where "c \<in> set (all_thread base)" "v' = away site sc' c v"
    using schedule_switches [OF assms(7)] assms(6,8) by (auto simp: away_def)
  have n: "64 \<le> (68::nat)" "64 \<le> (64::nat)" by simp_all
  note ru = roomD [OF assms(1) n(1), folded s_def] and rv = roomD [OF assms(5) n(2)]
  note au = away_memory [OF s ru(2) b(1) ru(3), where site = site and sc = sc, folded b(3)]
  have v': "v' = away site sc' (t_current u) v"
    using away_memory(1) [OF s' rv(2) \<open>c \<in> _\<close> rv(3)] \<open>v' = _\<close> assms(8) by simp
  note av = away_memory [OF s' rv(2) ru(2) rv(3), where site = site and sc = sc', folded v']
  have kept: "t_mem v' x = t_mem u' x" if "x \<in> area pstack base (t_current u) \<or> in_range x (t_current u) 4" for x
  proof -
    have "\<not> in_range x (r_esp v - 64) 64"
      using that rv(3) area_apart [OF rv(2) ru(2) assms(6)] area_header(1) [OF rv(2) ru(2)] by blast
    moreover have "\<not> in_range x (t_current v) 4"
      using that area_header(1) [OF ru(2) rv(2)] header_apart(2) [OF ru(2) rv(2) not_sym [OF assms(6)]] by blast
    moreover have "\<not> in_range x (t_current u + 8196) 4"
      using that area_header(2) [OF ru(2) ru(2)] header_apart(1) [OF ru(2) ru(2)] by blast
    ultimately have "t_mem v' x = t_mem v x" by (rule av(5))
    then show ?thesis using assms(4) that by simp
  qed
  have sp: "t_sp (t_mem v') (t_current u) = s"
    using au(3) load32_cong [of "t_current u" "t_mem v'" "t_mem u'"] kept by simp
  have pk: "parked (t_mem v') s site u" by (rule parked_cong [OF _ au(4)]) (use kept ru(3) in blast)
  have "load32 (t_mem v') (s + 64) = load32 (t_mem u) (s + 64)"
  proof (rule load32_cong)
    fix x
    assume x: "in_range x (s + 64) 4"
    then have o: "\<not> in_range x s 64" "in_range x s 68"
      using in_area_offset [of 64 4 x s] in_range_def [of x s] by simp_all
    then have a: "x \<in> area pstack base (t_current u)" using assms(1) by (simp add: room_def s_def)
    then have "t_mem u' x = t_mem u x"
      using au(5) [OF o(1)] area_header(1) [OF ru(2) ru(2)] area_header(2) [OF ru(2) b(1)] by blast
    then show "t_mem v' x = t_mem u x" using kept a by simp
  qed
  then show ?thesis using away_parked [OF s' v' sp pk] av(2) by (simp add: s add.assoc)
qed


section \<open>Runs of the process\<close>

text \<open>
  The process with its threads: the thread that runs computes on its registers, its stack and the
  other memory of the process, but not on the stacks of the others nor on the headers; it marks
  itself runnable or free, creates threads with functions of \<open>funcs\<close>, and enters
  \<open>thread_schedule\<close>, by a call or by the timer, with room for its frame on the stack.
\<close>

inductive ureach :: "u32 set \<Rightarrow> u32 \<Rightarrow> u32 \<Rightarrow> u32 set \<Rightarrow> uthr \<Rightarrow> bool" for pstack base site funcs where
  ureach_init: "\<forall>t \<in> set (all_thread base). t_state (t_mem u) t = FREE \<Longrightarrow>
    ureach pstack base site funcs (thread_init base u)"
| ureach_run: "ureach pstack base site funcs u \<Longrightarrow> t_current u' = t_current u \<Longrightarrow>
    \<forall>x. t_mem u' x \<noteq> t_mem u x \<longrightarrow>
      x \<in> area pstack base (t_current u) \<or> x \<notin> pstack \<and> (\<forall>t \<in> set (all_thread base). \<not> in_range x t 8200) \<Longrightarrow>
    ureach pstack base site funcs u'"
| ureach_mark: "ureach pstack base site funcs u \<Longrightarrow> st \<in> {FREE, T_RUNNABLE} \<Longrightarrow>
    ureach pstack base site funcs (set_state (t_current u) st u)"
| ureach_create: "ureach pstack base site funcs u \<Longrightarrow> f \<in> funcs \<Longrightarrow> thread_create base f u = Ok u' \<Longrightarrow>
    ureach pstack base site funcs u'"
| ureach_timer: "ureach pstack base site funcs u \<Longrightarrow> ureach pstack base site funcs (timer_redirect sched u)"
| ureach_schedule: "ureach pstack base site funcs u \<Longrightarrow> room pstack base 64 u \<Longrightarrow>
    thread_schedule base site sc u = Some u' \<Longrightarrow> ureach pstack base site funcs u'"

text \<open>A thread that can be switched to: its saved stack pointer leads to a place where the code may go on.\<close>

definition resumable :: "u32 set \<Rightarrow> u32 \<Rightarrow> u32 \<Rightarrow> u32 set \<Rightarrow> mem \<Rightarrow> u32 \<Rightarrow> bool" where
  "resumable pstack base site funcs m t \<longleftrightarrow>
     (\<forall>x. in_range x (t_sp m t + 32) 4 \<longrightarrow> x \<in> area pstack base t) \<and> load32 m (t_sp m t + 32) \<in> insert site funcs"

definition uthr_ok :: "u32 set \<Rightarrow> u32 \<Rightarrow> u32 \<Rightarrow> u32 set \<Rightarrow> uthr \<Rightarrow> bool" where
  "uthr_ok pstack base site funcs u \<longleftrightarrow>
     t_current u \<in> set (all_thread base) \<and>
     (\<forall>t \<in> set (all_thread base). t_state (t_mem u) t \<in> {FREE, T_RUNNING, T_RUNNABLE}) \<and>
     (\<forall>t \<in> set (all_thread base). t \<noteq> t_current u \<and> t_state (t_mem u) t = T_RUNNABLE \<longrightarrow>
        resumable pstack base site funcs (t_mem u) t)"

lemma base_thread [simp]: "base \<in> set (all_thread base)"
  unfolding all_thread_def MAX_THREAD_def by (simp add: upt_rec)

lemma resumable_cong:
  assumes "\<And>x. in_range x t 4 \<or> x \<in> area pstack base t \<Longrightarrow> m' x = m x"
    and r: "resumable pstack base site funcs m t"
  shows "resumable pstack base site funcs m' t"
proof -
  have sp: "t_sp m' t = t_sp m t" by (rule load32_cong) (use assms(1) in blast)
  have "load32 m' (t_sp m t + 32) = load32 m (t_sp m t + 32)"
    by (rule load32_cong) (use assms(1) r in \<open>auto simp: resumable_def\<close>)
  then show ?thesis using r by (simp add: resumable_def sp)
qed

lemma ok_run:
  assumes ok: "uthr_ok pstack base site funcs u" and c: "t_current u' = t_current u"
    and m: "\<And>x t. t \<in> set (all_thread base) \<Longrightarrow> in_range x t 4 \<or> in_range x (t + 8196) 4 \<Longrightarrow> t_mem u' x = t_mem u x"
      "\<And>x t. t \<in> set (all_thread base) \<Longrightarrow> t \<noteq> t_current u \<Longrightarrow> x \<in> area pstack base t \<Longrightarrow> t_mem u' x = t_mem u x"
  shows "uthr_ok pstack base site funcs u'"
proof -
  have st: "t_state (t_mem u') t = t_state (t_mem u) t" if "t \<in> set (all_thread base)" for t
    by (rule load32_cong) (use m(1) that in blast)
  have "resumable pstack base site funcs (t_mem u') t"
    if "t \<in> set (all_thread base)" "t \<noteq> t_current u" "resumable pstack base site funcs (t_mem u) t" for t
    by (rule resumable_cong [OF _ that(3)]) (use m that(1,2) in blast)
  then show ?thesis using ok by (simp add: uthr_ok_def st c)
qed


lemma ok_mark:
  assumes "uthr_ok pstack base site funcs u" "st \<in> {FREE, T_RUNNABLE}"
  shows "uthr_ok pstack base site funcs (set_state (t_current u) st u)"
proof -
  let ?m = "t_mem (set_state (t_current u) st u)"
  have c: "t_current u \<in> set (all_thread base)" using assms(1) by (simp add: uthr_ok_def)
  have o: "?m x = t_mem u x" if "\<not> in_range x (t_current u + 8196) 4" for x
    using that by (simp add: set_state_def store32_other)
  have st: "t_state ?m t = t_state (t_mem u) t" if "t \<in> set (all_thread base)" "t \<noteq> t_current u" for t
    by (rule load32_cong) (use o header_apart(3) [OF that(1) c that(2)] in blast)
  have own: "t_state ?m (t_current u) = st" and cur: "t_current (set_state (t_current u) st u) = t_current u"
    by (simp_all add: set_state_def)
  have res: "resumable pstack base site funcs ?m t"
    if "t \<in> set (all_thread base)" "t \<noteq> t_current u" "resumable pstack base site funcs (t_mem u) t" for t
    by (rule resumable_cong [OF _ that(3)])
      (use o header_apart(1) [OF that(1) c] area_header(2) [OF that(1) c] in blast)
  have ty: "t_state ?m t \<in> {FREE, T_RUNNING, T_RUNNABLE}" if "t \<in> set (all_thread base)" for t
    using assms st [OF that] own that by (cases "t = t_current u") (auto simp: uthr_ok_def)
  show ?thesis
    unfolding uthr_ok_def cur
  proof (intro conjI ballI impI)
    fix t
    assume a: "t \<in> set (all_thread base)" "t \<noteq> t_current u \<and> t_state ?m t = T_RUNNABLE"
    then have "t_state (t_mem u) t = T_RUNNABLE" using st [of t] by metis
    then have "resumable pstack base site funcs (t_mem u) t" using assms(1) a unfolding uthr_ok_def by blast
    then show "resumable pstack base site funcs ?m t" using res a by blast
  qed (use c ty in blast)+
qed

lemma create_effect:
  assumes "thread_create base f u = Ok u'"
  obtains t where "t \<in> set (all_thread base)" "t_state (t_mem u) t = FREE" "t_current u' = t_current u"
    "t_sp (t_mem u') t = t + 8160" "load32 (t_mem u') (t + 8192) = f" "t_state (t_mem u') t = T_RUNNABLE"
    "\<And>x. \<not> in_range x t 8200 \<Longrightarrow> t_mem u' x = t_mem u x"
proof -
  obtain t where t: "find (\<lambda>t. t_state (t_mem u) t = FREE) (all_thread base) = Some t"
    using assms by (auto simp: thread_create_def split: option.splits)
  have u': "u' = u\<lparr>t_mem := store32 (t + 8196) T_RUNNABLE (store32 t (t + 8160) (store32 (t + 8192) f
      (store32 t (t + 8192) (store32 t (t + 8196) (t_mem u)))))\<rparr>"
    using assms t by (simp add: thread_create_def set_sp_def set_state_def STACK_SIZE_def Let_def load_apart add.assoc add_diff_eq [symmetric])
  have o: "t_mem u' x = t_mem u x" if n: "\<not> in_range x t 8200" for x
  proof -
    have "\<not> in_range x t 4" "\<not> in_range x (t + 8192) 4" "\<not> in_range x (t + 8196) 4"
      using n in_range_mono [of x t 4 8200] in_struct(2) [of x t] in_area_offset [of 8192 4 x t]
      by (auto simp: in_struct(3))
    then show ?thesis by (simp add: u' store32_other)
  qed
  show ?thesis
    using t by (intro that [of t] o) (auto simp: u' load_apart dest: find_SomeD)
qed


lemma ok_create:
  assumes ok: "uthr_ok pstack base site funcs u" and f: "f \<in> funcs" and c: "thread_create base f u = Ok u'"
  shows "uthr_ok pstack base site funcs u'"
proof -
  obtain n where n: "n \<in> set (all_thread base)" "t_current u' = t_current u" "t_sp (t_mem u') n = n + 8160"
    "load32 (t_mem u') (n + 8192) = f" "t_state (t_mem u') n = T_RUNNABLE"
    and o: "\<And>x. \<not> in_range x n 8200 \<Longrightarrow> t_mem u' x = t_mem u x"
    using create_effect [OF c] by metis
  have off: "t_mem u' x = t_mem u x"
    if "t \<in> set (all_thread base)" "t \<noteq> n" "in_range x t 4 \<or> in_range x (t + 8196) 4 \<or> x \<in> area pstack base t" for x t
  proof -
    have "\<not> in_range x n 8200"
      using that threads_apart [OF that(1) n(1), of x] in_range_mono [of x t 4 8200] n(1)
      by (auto simp: area_def in_struct split: if_splits)
    then show ?thesis by (rule o)
  qed
  have st: "t_state (t_mem u') t = t_state (t_mem u) t" if "t \<in> set (all_thread base)" "t \<noteq> n" for t
    by (rule load32_cong) (use off that in blast)
  have "in_range x (n + 4) 8192" if "in_range x (n + 8192) 4" for x
    using that in_area_offset [of 8192 4 x n] in_struct(1) [of x n] by simp
  then have new: "resumable pstack base site funcs (t_mem u') n"
    using n f by (auto simp: resumable_def area_def add.assoc)
  have old: "resumable pstack base site funcs (t_mem u') t"
    if "t \<in> set (all_thread base)" "t \<noteq> n" "resumable pstack base site funcs (t_mem u) t" for t
    by (rule resumable_cong [OF _ that(3)]) (use off that(1,2) in blast)
  show ?thesis
    unfolding uthr_ok_def n(2)
  proof (intro conjI ballI impI)
    fix t
    assume t: "t \<in> set (all_thread base)"
    show "t_state (t_mem u') t \<in> {FREE, T_RUNNING, T_RUNNABLE}"
      using ok st [OF t] n(5) t unfolding uthr_ok_def by (cases "t = n") auto
    show "resumable pstack base site funcs (t_mem u') t" if a: "t \<noteq> t_current u \<and> t_state (t_mem u') t = T_RUNNABLE"
    proof (cases "t = n")
      case False
      then have "t_state (t_mem u) t = T_RUNNABLE" using st [OF t] a by metis
      then have "resumable pstack base site funcs (t_mem u) t" using ok a t unfolding uthr_ok_def by blast
      then show ?thesis using old t False by blast
    qed (simp add: new)
  qed (use ok in \<open>simp add: uthr_ok_def\<close>)
qed


lemma schedule_stays:
  assumes "thread_schedule base site sc u = Some u'" "t_current u' = t_current u" "r_esp u = s + 64"
  shows "\<not> in_range x s 64 \<Longrightarrow> t_mem u' x = t_mem u x"
proof -
  assume x: "\<not> in_range x s 64"
  have e: "t_current (enter_frame u) = t_current u" "t_mem (enter_frame u) = store32 (s + 60) (r_ebp u) (t_mem u)"
    using assms(3) by (simp_all add: enter_frame_def push_def Let_def algebra_simps)
  have same: "t_mem (leave_ret w) = t_mem w" for w by (simp add: leave_ret_def ret_def pop_def)
  have sw: "t_current (call_switch site sc w) = t_next w" for w
    by (simp add: call_switch_def thread_switch_def pushal_def push_def popal_simps ret_def pop_def Let_def split: prod.split)
  have "t_mem u' = t_mem (enter_frame u)"
    using assms(1,2) e(1)
    by (auto simp: thread_schedule_def Let_def same sw set_state_def find_next_def split: if_splits option.splits
        dest: find_SomeD)
  moreover have "\<not> in_range x (s + 60) 4" using word_in_frame [of x s 60] x by auto
  ultimately show ?thesis by (simp add: e(2) store32_other)
qed

text \<open>A switch leaves the headers and the stacks of the other threads, the state of the next one apart.\<close>

lemma away_others:
  assumes s: "r_esp u = s + 64" and c: "t_current u \<in> set (all_thread base)" "b \<in> set (all_thread base)"
    and st: "\<forall>x. in_range x s 64 \<longrightarrow> x \<in> area pstack base (t_current u)"
    and t: "t \<in> set (all_thread base)" "t \<noteq> t_current u"
    and x: "in_range x t 4 \<or> (in_range x (t + 8196) 4 \<and> t \<noteq> b) \<or> x \<in> area pstack base t"
  shows "t_mem (away site sc b u) x = t_mem u x"
  using x st area_header [OF c(1) t(1), of x] area_apart [OF c(1) t(1) not_sym [OF t(2)], of x]
    header_apart(1) [OF t(1) c(2), of x] header_apart(2) [OF t(1) c(1) t(2), of x]
    header_apart(1) [OF c(1) t(1), of x] header_apart(3) [OF t(1) c(2), of x]
    area_header(1) [OF t(1) c(1), of x] area_header(2) [OF t(1) c(2), of x]
  by (intro away_memory(5) [OF s c st]) blast+

lemma ok_schedule:
  assumes ok: "uthr_ok pstack base site funcs u" and r: "room pstack base 64 u"
    and sch: "thread_schedule base site sc u = Some u'"
  shows "uthr_ok pstack base site funcs u'"
proof -
  define s where "s = r_esp u - 64"
  have s: "r_esp u = s + 64" by (simp add: s_def)
  have n: "64 \<le> (64 :: nat)" by simp
  note ru = roomD [OF r n, folded s_def]
  show ?thesis
  proof (cases "t_current u' = t_current u")
    case True
    show ?thesis
      by (rule ok_run [OF ok True]; rule schedule_stays [OF sch True s])
        (use ru(3) area_header [OF ru(2)] area_apart [OF ru(2)] in blast)+
  next
    case False
    obtain b where b: "b \<in> set (all_thread base)" "b \<noteq> t_current u" and u': "u' = away site sc b u"
      using schedule_switches [OF sch False] by (auto simp: away_def)
    note aw = away_memory [OF s ru(2) b(1) ru(3), where site = site and sc = sc, folded u']
    note off = away_others [OF s ru(2) b(1) ru(3), where site = site and sc = sc, folded u']
    have own: "t_mem u' x = t_mem u x" if "in_range x (t_current u + 8196) 4" for x
      using that ru(3) area_header(2) [OF ru(2) ru(2), of x] header_apart(1) [OF ru(2) ru(2), of x]
        header_apart(3) [OF ru(2) b(1) not_sym [OF b(2)], of x]
      by (intro aw(5)) blast+
    have st: "t_state (t_mem u') t = t_state (t_mem u) t" if "t \<in> set (all_thread base)" "t \<noteq> b" for t
      by (rule load32_cong) (use off [OF that(1)] own that(2) in blast)
    have old: "resumable pstack base site funcs (t_mem u') t"
      if "t \<in> set (all_thread base)" "t \<noteq> t_current u" "resumable pstack base site funcs (t_mem u) t" for t
      by (rule resumable_cong [OF _ that(3)]) (use off [OF that(1,2)] in blast)
    have new: "resumable pstack base site funcs (t_mem u') (t_current u)"
      using aw(3,4) ru(3) word_in_frame [of _ s 32] by (auto simp: resumable_def parked_def)
    show ?thesis
      unfolding uthr_ok_def aw(1)
    proof (intro conjI ballI impI)
      fix t
      assume t: "t \<in> set (all_thread base)"
      show "t_state (t_mem u') t \<in> {FREE, T_RUNNING, T_RUNNABLE}"
        using ok st [OF t] aw(6) t unfolding uthr_ok_def by (cases "t = b") auto
      show "resumable pstack base site funcs (t_mem u') t" if a: "t \<noteq> b \<and> t_state (t_mem u') t = T_RUNNABLE"
      proof (cases "t = t_current u")
        case False
        have "t_state (t_mem u) t = T_RUNNABLE" using st [OF t] a by metis
        then have "resumable pstack base site funcs (t_mem u) t" using ok t False unfolding uthr_ok_def by blast
        then show ?thesis using old t False by blast
      qed (simp add: new)
    qed (rule b(1))
  qed
qed


lemma ureach_ok: "ureach pstack base site funcs u \<Longrightarrow> uthr_ok pstack base site funcs u"
proof (induction rule: ureach.induct)
  case (ureach_init u)
  have "t_state (store32 (base + 8196) T_RUNNING (t_mem u)) t = t_state (t_mem u) t"
    if "t \<in> set (all_thread base)" "t \<noteq> base" for t
    by (rule load32_store32_other) (use header_apart(3) [OF that(1) base_thread that(2)] in blast)
  then have st: "t_state (t_mem (thread_init base u)) t \<in> {FREE, T_RUNNING}" if "t \<in> set (all_thread base)" for t
    using that ureach_init by (cases "t = base") (auto simp: thread_init_def set_state_def)
  moreover have "t_state (t_mem (thread_init base u)) t \<noteq> T_RUNNABLE" if "t \<in> set (all_thread base)" for t
    using st [OF that] by (auto simp: uthread_consts)
  moreover have "t_current (thread_init base u) = base" by (simp add: thread_init_def set_state_def)
  ultimately show ?case unfolding uthr_ok_def by simp
next
  case (ureach_run u u')
  have c: "t_current u \<in> set (all_thread base)" using ureach_run.IH by (simp add: uthr_ok_def)
  have "t_mem u' x = t_mem u x" if "t \<in> set (all_thread base)" "in_range x t 4 \<or> in_range x (t + 8196) 4" for x t
    using ureach_run.hyps(3) area_header [OF c that(1), of x] that in_range_mono [of x t 4 8200]
    by (auto simp: in_struct)
  moreover have "t_mem u' x = t_mem u x"
    if "t \<in> set (all_thread base)" "t \<noteq> t_current u" "x \<in> area pstack base t" for x t
    using ureach_run.hyps(3) area_apart [OF that(1) c that(2,3)] area_within [OF that(3)] that(1) by blast
  ultimately show ?case by (intro ok_run [OF ureach_run.IH ureach_run.hyps(2)]) blast+
next
  case (ureach_timer u sched)
  then show ?case by (simp add: uthr_ok_def timer_redirect_def)
qed (auto intro: ok_mark ok_create ok_schedule)

text \<open>C19: a thread that \<open>thread_schedule\<close> switches away from is later resumed as if that call had just
  returned: whatever the other threads did on their own stacks, the switch back goes on behind the call of
  \<open>thread_switch\<close> with the registers a called function keeps, and \<open>thread_schedule\<close> then returns to the word
  that was on top of the thread's stack, with this word popped.
\<close>

theorem thread_resumes:
  assumes "room pstack base 68 u" "thread_schedule base site sc u = Some u'" "t_current u' \<noteq> t_current u"
    and "\<forall>x. x \<in> area pstack base (t_current u) \<or> in_range x (t_current u) 4 \<longrightarrow> t_mem v x = t_mem u' x"
    and "room pstack base 64 v" "t_current v \<noteq> t_current u"
    and "thread_schedule base site sc' v = Some v'" "t_current v' = t_current u"
  shows "r_eip v' = site \<and> r_ebx v' = r_ebx u \<and> r_esi v' = r_esi u \<and> r_edi v' = r_edi u \<and> t_next v' = 0 \<and>
    leave_ret v' = v'\<lparr>r_ebp := r_ebp u, r_esp := r_esp u + 4, r_eip := load32 (t_mem u) (r_esp u)\<rparr>"
  using assms by (rule switched_back)

text \<open>in every run, a switch to another thread lands either behind the call of
  \<open>thread_switch\<close> in \<open>thread_schedule\<close> or at a function given to \<open>thread_create\<close>.
\<close>

theorem switch_targets:
  assumes "ureach pstack base site funcs u" "room pstack base 64 u"
    and "thread_schedule base site sc u = Some u'" "t_current u' \<noteq> t_current u"
  shows "r_eip u' \<in> insert site funcs"
proof -
  define s where "s = r_esp u - 64"
  have s: "r_esp u = s + 64" by (simp add: s_def)
  have n: "64 \<le> (64 :: nat)" by simp
  note ru = roomD [OF assms(2) n, folded s_def]
  obtain b where b: "b \<in> set (all_thread base)" "b \<noteq> t_current u" and st: "t_state (t_mem (enter_frame u)) b = T_RUNNABLE"
    and u': "u' = away site sc b u"
    using schedule_switches [OF assms(3,4)] by (auto simp: away_def)
  have "t_mem (enter_frame u) = store32 (s + 60) (r_ebp u) (t_mem u)"
    using s by (simp add: enter_frame_def push_def Let_def algebra_simps)
  moreover have "load32 (store32 (s + 60) v m) (b + 8196) = load32 m (b + 8196)" for v m
    by (rule load32_store32_other) (use word_in_frame [of _ s 60] ru(3) area_header(2) [OF ru(2) b(1)] in force)
  ultimately have "t_state (t_mem u) b = T_RUNNABLE" using st by simp
  then have rs: "resumable pstack base site funcs (t_mem u) b"
    using ureach_ok [OF assms(1)] b unfolding uthr_ok_def by blast
  have "t_mem u' x = t_mem u x" if "in_range x b 4 \<or> x \<in> area pstack base b" for x
    using away_others [OF s ru(2) b(1) ru(3) b, where site = site and sc = sc, folded u'] that by blast
  then have "resumable pstack base site funcs (t_mem u') b" by (rule resumable_cong [OF _ rs]) blast
  then show ?thesis using away_regs(6) [OF s u'] by (simp add: resumable_def)
qed

text \<open>C20: in every run, \<open>current_thread\<close> points into the array of threads and every
  \<open>state\<close> field holds one of the three states.
\<close>

theorem thread_states_typed:
  assumes "ureach pstack base site funcs u"
  shows "t_current u \<in> set (all_thread base) \<and>
    (\<forall>t \<in> set (all_thread base). t_state (t_mem u) t \<in> {FREE, T_RUNNING, T_RUNNABLE})"
  using ureach_ok [OF assms] by (simp add: uthr_ok_def)


section \<open>An example\<close>

text \<open>Two threads at work, with the array at the address it has in \<open>uthread1.asm\<close>: the first is about to call \<open>thread_schedule\<close>.\<close>

definition two_threads :: uthr where
  "two_threads = \<lparr>t_mem = store32 0x4d68 0x1234 (store32 0x2d68 0x2000 (store32 0x4d6c 2
       (store32 0x6d70 0x16d (store32 0x4d70 0x6d50 (store32 0x6d74 2 (\<lambda>_. 0)))))),
     t_current = 0x2d68, t_next = 0, r_eax = 0, r_ecx = 0, r_edx = 0, r_ebx = 7, r_ebp = 0x4d6a, r_esi = 8, r_edi = 9,
     r_esp = 0x4d68, r_eip = 0\<rparr>"

lemma all_thread_d60: "all_thread 0xd60 = [0xd60, 0x2d68, 0x4d70, 0x6d78]"
  unfolding all_thread_def MAX_THREAD_def by (simp add: upt_rec)

lemma load_zero: "load32 (\<lambda>_. 0) a = 0"
  by (simp add: load32_def word32_def)

lemma two_threads_schedule:
  "thread_schedule 0xd60 0xb3 sc two_threads = Some (away 0xb3 sc 0x4d70 two_threads)"
  by (rule schedule_to) (simp_all add: enter_frame_def find_next_def all_thread_d60 two_threads_def push_def Let_def
      load_apart load_zero T_RUNNABLE_def)

abbreviation second_thread :: uthr where "second_thread \<equiv> away 0xb3 (0, 0, 0) 0x4d70 two_threads"

lemma second_thread_eq:
  "t_mem second_thread = store32 0x2d68 0x4d28 (store32 0x4d28 9 (store32 0x4d2c 8 (store32 0x4d30 0x4d64 (store32 0x4d34 0x4d48
     (store32 0x4d38 7 (store32 0x4d3c 0 (store32 0x4d40 0 (store32 0x4d44 0 (store32 0x4d48 0xb3 (store32 0x6d74 1
     (store32 0x4d64 0x4d6a (t_mem two_threads))))))))))))"
  "t_current second_thread = 0x4d70" "t_next second_thread = 0" "r_esp second_thread = 0x6d74" "r_eip second_thread = 0x16d"
proof -
  have s: "r_esp two_threads = 0x4d28 + 64" by (simp add: two_threads_def)
  note e = call_switch_eq [OF s] at_switch_mem [OF s refl]
  show m: "t_mem second_thread = store32 0x2d68 0x4d28 (store32 0x4d28 9 (store32 0x4d2c 8 (store32 0x4d30 0x4d64 (store32 0x4d34 0x4d48
     (store32 0x4d38 7 (store32 0x4d3c 0 (store32 0x4d40 0 (store32 0x4d44 0 (store32 0x4d48 0xb3 (store32 0x6d74 1
     (store32 0x4d64 0x4d6a (t_mem two_threads))))))))))))"
    unfolding away_def e by (simp add: two_threads_def T_RUNNING_def)
  have "t_sp (t_mem second_thread) 0x4d70 = 0x6d50" unfolding m by (simp add: two_threads_def load_apart)
  moreover have "load32 (t_mem second_thread) 0x6d70 = 0x16d" unfolding m by (simp add: two_threads_def load_apart)
  ultimately show "r_esp second_thread = 0x6d74" "r_eip second_thread = 0x16d"
    using away_regs(5,6) [OF s, of second_thread "0xb3" "(0, 0, 0)" "0x4d70"] by simp_all
  show "t_current second_thread = 0x4d70" "t_next second_thread = 0"
    unfolding away_def e by simp_all
qed

lemma second_thread_schedule:
  "thread_schedule 0xd60 0xb3 sc second_thread = Some (away 0xb3 sc 0x2d68 second_thread)"
proof (rule schedule_to)
  have e: "t_mem (enter_frame second_thread) = store32 0x6d70 (r_ebp second_thread) (t_mem second_thread)"
    by (simp add: enter_frame_def push_def Let_def second_thread_eq)
  show "find_next (t_mem (enter_frame second_thread)) (t_current second_thread) (all_thread 0xd60) = Some 0x2d68"
    unfolding e second_thread_eq
    by (simp add: find_next_def all_thread_d60 load_apart load_zero T_RUNNABLE_def two_threads_def)
qed (simp_all add: second_thread_eq)

lemma two_threads_room: "room pstack 0xd60 68 two_threads" "room pstack 0xd60 64 second_thread"
proof -
  have "in_range x 0x2d6c 8192" if "in_range x 0x4d28 68" for x
    using that in_area_offset [of "0x1fbc" 68 x "0x2d6c"] in_range_def [of x "0x2d6c" 8192] by simp
  then show "room pstack 0xd60 68 two_threads"
    by (simp add: room_def two_threads_def all_thread_d60 area_def)
  have "in_range x 0x4d74 8192" if "in_range x 0x6d34 64" for x
    using that in_area_offset [of "0x1fc0" 64 x "0x4d74"] in_range_def [of x "0x4d74" 8192] by simp
  then show "room pstack 0xd60 64 second_thread"
    by (simp add: room_def second_thread_eq all_thread_d60 area_def)
qed


theorem thread_resumes_witness:
  "r_eip (away 0xb3 (0, 0, 0) 0x2d68 second_thread) = 0xb3 \<and>
   leave_ret (away 0xb3 (0, 0, 0) 0x2d68 second_thread) =
     (away 0xb3 (0, 0, 0) 0x2d68 second_thread)\<lparr>r_ebp := 0x4d6a, r_esp := 0x4d6c, r_eip := 0x1234\<rparr>"
proof -
  have s: "r_esp second_thread = 0x6d34 + 64" by (simp add: second_thread_eq)
  have cur: "t_current (away 0xb3 (0, 0, 0) 0x2d68 second_thread) = 0x2d68"
    unfolding away_def [of _ _ "0x2d68"] call_switch_eq [OF s] by simp
  have "t_current two_threads = 0x2d68" "r_esp two_threads = 0x4d68" "r_ebp two_threads = 0x4d6a"
    "load32 (t_mem two_threads) 0x4d68 = 0x1234"
    by (simp_all add: two_threads_def)
  then show ?thesis
    using thread_resumes [OF two_threads_room(1) [of "{}"] two_threads_schedule [of "(0, 0, 0)"] _ _ two_threads_room(2) [of "{}"] _
        second_thread_schedule [of "(0, 0, 0)"]]
      second_thread_eq(2) cur by simp
qed

text \<open>The start of \<open>main\<close> in \<open>uthread1.c\<close>, on a process stack from 0xa000 on.\<close>

definition main_thread :: uthr where
  "main_thread = \<lparr>t_mem = (\<lambda>_. 0), t_current = 0, t_next = 0, r_eax = 0, r_ecx = 0, r_edx = 0, r_ebx = 0, r_ebp = 0,
     r_esi = 0, r_edi = 0, r_esp = 0xbf00, r_eip = 0\<rparr>"

abbreviation started :: uthr where
  "started \<equiv> (case thread_create 0xd60 0x16d (thread_init 0xd60 main_thread) of Ok u \<Rightarrow> u)"

lemma started_eq:
  "thread_create 0xd60 0x16d (thread_init 0xd60 main_thread) = Ok (main_thread\<lparr>t_current := 0xd60, t_mem :=
     store32 0x4d6c 2 (store32 0x2d68 0x4d48 (store32 0x4d68 0x16d (store32 0x2d68 0x4d68 (store32 0x2d68 0x4d6c
       (store32 0x2d64 1 (\<lambda>_. 0))))))\<rparr>)"
  by (simp add: thread_create_def thread_init_def set_state_def set_sp_def all_thread_d60 main_thread_def Let_def
      load_apart load_zero uthread_consts)

lemma started_sel:
  "r_esp started = 0xbf00" "r_ebp started = 0" "t_current started = 0xd60"
  "t_mem started = store32 0x4d6c 2 (store32 0x2d68 0x4d48 (store32 0x4d68 0x16d (store32 0x2d68 0x4d68 (store32 0x2d68 0x4d6c
     (store32 0x2d64 1 (\<lambda>_. 0))))))"
  unfolding started_eq by (simp_all add: main_thread_def)

lemma started_reach: "ureach {0xa000..0xbfff} 0xd60 0xb3 {0x16d} started"
proof (rule ureach_create)
  show "ureach {0xa000..0xbfff} 0xd60 0xb3 {0x16d} (thread_init 0xd60 main_thread)"
    by (rule ureach_init) (simp add: main_thread_def load_zero FREE_def)
  show "thread_create 0xd60 0x16d (thread_init 0xd60 main_thread) = Ok started" by (simp add: started_eq)
qed simp


lemma started_room: "room {0xa000..0xbfff} 0xd60 64 started"
proof -
  have "x \<in> {0xa000..0xbfff} \<and> (\<forall>t \<in> set (all_thread 0xd60). \<not> in_range x t 8200)" if "in_range x 0xbec0 64" for x :: u32
  proof -
    define k where "k = x - 0xbec0"
    have k: "unat k < 64" "x = 0xbec0 + k" using that by (simp_all add: k_def in_range_def)
    have x: "unat x = 0xbec0 + unat k" unfolding k(2) by (subst unat_add_nowrap) (use k(1) in simp_all)
    then show ?thesis
      using k(1) by (simp add: all_thread_d60 in_range_def word_le_nat_alt unat_sub_if')
  qed
  then show ?thesis by (simp add: room_def started_sel area_def)
qed

lemma started_schedule:
  "thread_schedule 0xd60 0xb3 sc started = Some (away 0xb3 sc 0x2d68 started)"
proof (rule schedule_to)
  have e: "t_mem (enter_frame started) = store32 0xbefc 0 (t_mem started)"
    by (simp add: enter_frame_def push_def Let_def started_sel)
  show "find_next (t_mem (enter_frame started)) (t_current started) (all_thread 0xd60) = Some 0x2d68"
    unfolding e started_sel
    by (simp add: find_next_def all_thread_d60 load_apart load_zero T_RUNNABLE_def)
qed (simp_all add: started_sel)

theorem switch_targets_witness: "r_eip (away 0xb3 (0, 0, 0) 0x2d68 started) \<in> {0xb3, 0x16d}"
proof -
  have s: "r_esp started = 0xbec0 + 64" by (simp add: started_sel)
  have "t_current (away 0xb3 (0, 0, 0) 0x2d68 started) = 0x2d68" "t_current started = 0xd60"
    unfolding away_def call_switch_eq [OF s] by (simp_all add: started_sel)
  then show ?thesis
    using switch_targets [OF started_reach started_room started_schedule [of "(0, 0, 0)"]] by simp
qed

theorem thread_states_typed_witness: "t_current started \<in> {0xd60, 0x2d68, 0x4d70, 0x6d78}"
  using thread_states_typed [OF started_reach] by (simp add: all_thread_d60)

section \<open>What the scheduler does not do\<close>

text \<open>
  The instruction that the timer interrupted is forgotten: the thread goes on at the word on top of its
  stack, whatever its instruction pointer was.
\<close>

lemma timer_loses_eip:
  assumes "room pstack base 68 w" "thread_schedule base site sc (timer_redirect sched w) = Some u'"
    "t_current u' \<noteq> t_current w"
    and "\<forall>x. x \<in> area pstack base (t_current w) \<or> in_range x (t_current w) 4 \<longrightarrow> t_mem v x = t_mem u' x"
    and "room pstack base 64 v" "t_current v \<noteq> t_current w"
    and "thread_schedule base site sc' v = Some v'" "t_current v' = t_current w"
  shows "r_eip (leave_ret v') = load32 (t_mem w) (r_esp w)"
proof -
  have t: "t_current (timer_redirect sched w) = t_current w" "t_mem (timer_redirect sched w) = t_mem w"
    "r_esp (timer_redirect sched w) = r_esp w"
    by (simp_all add: timer_redirect_def)
  then have "room pstack base 68 (timer_redirect sched w)" using assms(1) by (simp add: room_def)
  from switched_back [OF this assms(2), unfolded t, OF assms(3-8)] show ?thesis by simp
qed

text \<open>A thread that has not marked itself runnable is never chosen, and a later one only when the earlier ones cannot run.\<close>

lemma schedule_starves:
  assumes "find_next m cur (xs @ t # ys) = Some t" "distinct (xs @ t # ys)" "x \<in> set xs"
  shows "t_state m x \<noteq> T_RUNNABLE \<or> x = cur"
  using assms by (induction xs) (auto simp: find_next_def dest: find_SomeD split: if_splits)

text \<open>With all slots in use, \<open>thread_create\<close> writes behind the array.\<close>

lemma thread_create_full:
  "\<forall>t \<in> set (all_thread base). t_state (t_mem u) t \<noteq> FREE \<Longrightarrow> thread_create base f u = Undef ''all_thread''"
  by (simp add: thread_create_def find_None [THEN iffD2])

end
