(* ===== verification/Mkfs.thy ===== *)
theory Mkfs
  imports Fs_Blocks
begin

text \<open>
  The program that builds the disk image, \<open>mkfs.c\<close>, and what the kernel finds on the image.

  The image file is the list of its sectors: writing behind the end lengthens it, reading there fails.
  The program's exits (a failed \<open>assert\<close>, \<open>perror\<close> and \<open>exit(1)\<close>) are \<open>Panic\<close>.  The directory
  entries and the inodes are the byte sequences of the kernel's \<open>struct dirent\<close> and \<open>struct dinode\<close>;
  \<open>xshort\<close> and \<open>xint\<close> store in little-endian order, which is the order of the host here.  The files to put
  on the image come with the pieces in which \<open>read\<close> returns them; \<open>None\<close> is a file that cannot be opened.
  A name is the list of its bytes before the terminating NUL.
\<close>

section \<open>Layout\<close>

definition NINODES :: nat where "NINODES = 200"

definition nbitmap :: nat where "nbitmap = FSSIZE div (BSIZE * 8) + 1"
definition ninodeblocks :: nat where "ninodeblocks = NINODES div IPB + 1"
definition nlog :: nat where "nlog = 30"
definition nmeta :: nat where "nmeta = 2 + nlog + ninodeblocks + nbitmap"

lemmas mkfs_consts = NINODES_def FSSIZE_def nbitmap_def ninodeblocks_def nlog_def nmeta_def

definition xshort :: "u16 \<Rightarrow> u16" where "xshort x = word16 (ucast x) (ucast (drop_bit 8 x))"

definition xint :: "u32 \<Rightarrow> u32" where
  "xint x = word32 (ucast x) (ucast (drop_bit 8 x)) (ucast (drop_bit 16 x)) (ucast (drop_bit 24 x))"

definition mkfs_sb :: superblock where
  "mkfs_sb = \<lparr>sb_size = xint (of_nat FSSIZE), sb_nblocks = xint (of_nat (FSSIZE - nmeta)), sb_ninodes = xint (of_nat NINODES),
     sb_nlog = xint (of_nat nlog), sb_logstart = xint 2, sb_inodestart = xint (of_nat (2 + nlog)),
     sb_bmapstart = xint (of_nat (2 + nlog + ninodeblocks))\<rparr>"

definition sb_bytes :: "superblock \<Rightarrow> u8 list" where
  "sb_bytes b = bytes32 (sb_size b) @ bytes32 (sb_nblocks b) @ bytes32 (sb_ninodes b) @ bytes32 (sb_nlog b) @
     bytes32 (sb_logstart b) @ bytes32 (sb_inodestart b) @ bytes32 (sb_bmapstart b)"

record image =
  im_sectors :: "u8 list list"
  im_freeinode :: u32
  im_freeblock :: u32

abbreviation (input) zeroes :: "u8 list" where "zeroes \<equiv> replicate BSIZE 0"

section \<open>Sectors and inodes\<close>

definition sector :: "u32 \<Rightarrow> nat" where "sector sec = unat (sec * of_nat BSIZE) div BSIZE"

definition wsect :: "u32 \<Rightarrow> u8 list \<Rightarrow> image \<Rightarrow> image" where
  "wsect sec buf s =
     (let f = im_sectors s; n = sector sec
      in s\<lparr>im_sectors := if n < length f then f[n := buf] else f @ replicate (n - length f) zeroes @ [buf]\<rparr>)"

definition rsect :: "u32 \<Rightarrow> image \<Rightarrow> u8 list outcome" where
  "rsect sec s = (if sector sec < length (im_sectors s) then Ok (im_sectors s ! sector sec) else Panic ''read'')"

definition winode :: "u32 \<Rightarrow> dinode \<Rightarrow> image \<Rightarrow> image outcome" where
  "winode inum di s =
     (let bn = IBLOCK inum mkfs_sb
      in bnd (rsect bn s) (\<lambda>buf. Ok (wsect bn (splice buf (dip_off inum) (dinode_bytes di)) s)))"

definition rinode :: "u32 \<Rightarrow> image \<Rightarrow> dinode outcome" where
  "rinode inum s = bnd (rsect (IBLOCK inum mkfs_sb) s) (\<lambda>buf. Ok (dinode_at buf (dip_off inum)))"

definition mk_ialloc :: "u16 \<Rightarrow> image \<Rightarrow> (u32 \<times> image) outcome" where
  "mk_ialloc type s =
     (let inum = im_freeinode s;
          s = s\<lparr>im_freeinode := inum + 1\<rparr>;
          din = zero_dinode\<lparr>d_type := xshort type, d_nlink := xshort 1, d_size := xint 0\<rparr>
      in bnd (winode inum din s) (\<lambda>s. Ok (inum, s)))"

section \<open>The bitmap\<close>

definition mk_balloc :: "u32 \<Rightarrow> image \<Rightarrow> image outcome" where
  "mk_balloc used s =
     (if \<not> sint used < int (BSIZE * 8) then Panic ''assert''
      else Ok (wsect (sb_bmapstart mkfs_sb)
        (foldl (\<lambda>buf i. buf[i div 8 := buf ! (i div 8) OR bit_mask i]) zeroes [0..<nat (sint used)]) s))"

section \<open>Appending to a file\<close>

definition new_block :: "image \<Rightarrow> u32 \<times> image" where
  "new_block s = (im_freeblock s, s\<lparr>im_freeblock := im_freeblock s + 1\<rparr>)"

text \<open>The block \<open>fbn\<close> of the file, taken from the free blocks when it has none.\<close>

definition mk_bmap :: "nat \<Rightarrow> dinode \<Rightarrow> image \<Rightarrow> (u32 \<times> dinode \<times> image) outcome" where
  "mk_bmap fbn din s =
     (if fbn < NDIRECT then
        (let (din, s) =
           (if xint (d_addrs din ! fbn) = 0 then
              (let (b, s) = new_block s in (din\<lparr>d_addrs := (d_addrs din)[fbn := xint b]\<rparr>, s))
            else (din, s))
         in Ok (xint (d_addrs din ! fbn), din, s))
      else
        (let (din, s) =
           (if xint (d_addrs din ! NDIRECT) = 0 then
              (let (b, s) = new_block s in (din\<lparr>d_addrs := (d_addrs din)[NDIRECT := xint b]\<rparr>, s))
            else (din, s))
         in bnd (rsect (xint (d_addrs din ! NDIRECT)) s) (\<lambda>indirect.
            let k = 4 * (fbn - NDIRECT);
                (indirect, s) =
                  (if get32 indirect k = 0 then
                     (let (b, s) = new_block s; indirect = splice indirect k (bytes32 (xint b))
                      in (indirect, wsect (xint (d_addrs din ! NDIRECT)) indirect s))
                   else (indirect, s))
            in Ok (xint (get32 indirect k), din, s))))"

function iappend_loop :: "dinode \<Rightarrow> nat \<Rightarrow> u8 list \<Rightarrow> image \<Rightarrow> (dinode \<times> nat \<times> image) outcome" where
  "iappend_loop din off p s =
     (if p = [] then Ok (din, off, s)
      else
        (let fbn = off div BSIZE
         in if \<not> fbn < MAXFILE then Panic ''assert''
            else bnd (mk_bmap fbn din s) (\<lambda>(x, din, s).
              let n1 = min (length p) ((fbn + 1) * BSIZE - off)
              in bnd (rsect x s) (\<lambda>buf.
                 iappend_loop din (off + n1) (drop n1 p) (wsect x (splice buf (off - fbn * BSIZE) (take n1 p)) s)))))"
  by pat_completeness auto
termination
  by (relation "measure (\<lambda>(din, off, p, s). length p)") (auto simp: div_mult_mod_eq)


declare iappend_loop.simps [simp del]

definition iappend :: "u32 \<Rightarrow> u8 list \<Rightarrow> image \<Rightarrow> image outcome" where
  "iappend inum p s =
     bnd (rinode inum s) (\<lambda>din.
     bnd (iappend_loop din (unat (xint (d_size din))) p s) (\<lambda>(din, off, s).
     winode inum (din\<lparr>d_size := xint (of_nat off)\<rparr>) s))"

section \<open>The program\<close>

definition dirent :: "u32 \<Rightarrow> u8 list \<Rightarrow> u8 list" where
  "dirent inum name = bytes16 (xshort (ucast inum)) @ strncpy_arr (arr (name @ [0])) DIRSIZ"

text \<open>The names of the programs lose the underscore that keeps the host from running them.\<close>

definition skip_underscore :: "u8 list \<Rightarrow> u8 list" where
  "skip_underscore name = (case name of c # cs \<Rightarrow> if c = 95 then cs else name | [] \<Rightarrow> name)"

definition mk_file :: "u32 \<Rightarrow> u8 list \<times> u8 list list option \<Rightarrow> image \<Rightarrow> image outcome" where
  "mk_file rootino f s =
     (if slash \<in> set (fst f) then Panic ''assert''
      else case snd f of
        None \<Rightarrow> Panic ''open''
      | Some pieces \<Rightarrow>
          bnd (mk_ialloc T_FILE s) (\<lambda>(inum, s).
          bnd (iappend rootino (dirent inum (skip_underscore (fst f))) s) (\<lambda>s.
          for_each (iappend inum) pieces s)))"

definition fix_root :: "u32 \<Rightarrow> image \<Rightarrow> image outcome" where
  "fix_root rootino s =
     bnd (rinode rootino s) (\<lambda>din.
     let off = xint (d_size din); off = (off div of_nat BSIZE + 1) * of_nat BSIZE
     in winode rootino (din\<lparr>d_size := xint off\<rparr>) s)"

definition blank :: image where
  "blank = (let s = \<lparr>im_sectors = [], im_freeinode = 1, im_freeblock = of_nat nmeta\<rparr>
     in fold (\<lambda>i. wsect (of_nat i) zeroes) [0..<FSSIZE] s)"

definition mkfs :: "(u8 list \<times> u8 list list option) list \<Rightarrow> image outcome" where
  "mkfs files =
     (let s = wsect 1 (splice zeroes 0 (sb_bytes mkfs_sb)) blank
      in bnd (mk_ialloc T_DIR s) (\<lambda>(rootino, s).
         if rootino \<noteq> ROOTINO then Panic ''assert''
         else bnd (iappend rootino (dirent rootino [46]) s) (\<lambda>s.
           bnd (iappend rootino (dirent rootino [46, 46]) s) (\<lambda>s.
           bnd (for_each (mk_file rootino) files s) (\<lambda>s.
           bnd (fix_root rootino s) (\<lambda>s. mk_balloc (im_freeblock s) s))))))"

section \<open>Byte order and sectors\<close>

lemma xint [simp]: "xint x = x" and xshort [simp]: "xshort y = y"
  by (simp_all add: xint_def xshort_def)

lemma sector_small: "unat sec < 8388608 \<Longrightarrow> sector sec = unat sec"
  by (simp add: sector_def unat_word_ariths)

lemma wsect_inside: "unat sec < length (im_sectors s) \<Longrightarrow> unat sec < 8388608 \<Longrightarrow>
    wsect sec buf s = s\<lparr>im_sectors := (im_sectors s)[unat sec := buf]\<rparr>"
  by (simp add: wsect_def sector_small)

lemma rsect_inside: "unat sec < length (im_sectors s) \<Longrightarrow> unat sec < 8388608 \<Longrightarrow>
    rsect sec s = Ok (im_sectors s ! unat sec)"
  by (simp add: rsect_def sector_small)

lemma mkfs_sb_sel:
  "sb_inodestart mkfs_sb = 32" "sb_bmapstart mkfs_sb = 58" "sb_size mkfs_sb = 1000" "sb_nlog mkfs_sb = 30"
  "sb_ninodes mkfs_sb = 200" "sb_nblocks mkfs_sb = 941" "sb_logstart mkfs_sb = 2"
  by (simp_all add: mkfs_sb_def mkfs_consts)


section \<open>The blocks of the files\<close>

text \<open>
  \<open>D i\<close> is inode \<open>i\<close>.  A slot of a file is one of its data blocks, \<open>k < MAXFILE\<close>, or, \<open>k = MAXFILE\<close>, its
  indirect block; \<open>H\<close> holds the slots that have a block.  Every block in use belongs to one slot and lies
  between the meta data and the first free block; the others are still zero.
\<close>

definition blk :: "u8 list list \<Rightarrow> dinode \<Rightarrow> nat \<Rightarrow> u32" where
  "blk img di k =
     (if k < NDIRECT then d_addrs di ! k
      else if k < MAXFILE then get32 (img ! unat (d_addrs di ! NDIRECT)) (4 * (k - NDIRECT))
      else d_addrs di ! NDIRECT)"

definition files_ok :: "u8 list list \<Rightarrow> nat \<Rightarrow> (nat \<Rightarrow> dinode) \<Rightarrow> (nat \<times> nat) set \<Rightarrow> bool" where
  "files_ok img fb D H \<longleftrightarrow>
     length img = FSSIZE \<and> (\<forall>b < FSSIZE. length (img ! b) = BSIZE) \<and> nmeta \<le> fb \<and> fb \<le> FSSIZE \<and>
     (\<forall>i. length (d_addrs (D i)) = 13) \<and>
     (\<forall>(i, k) \<in> H. k \<le> MAXFILE \<and> nmeta \<le> unat (blk img (D i) k) \<and> unat (blk img (D i) k) < fb) \<and>
     (\<forall>(i, k) \<in> H. \<forall>(j, l) \<in> H. blk img (D i) k = blk img (D j) l \<longrightarrow> i = j \<and> k = l) \<and>
     (\<forall>i k. NDIRECT \<le> k \<longrightarrow> k < MAXFILE \<longrightarrow> (i, k) \<in> H \<longrightarrow> (i, MAXFILE) \<in> H) \<and>
     (\<forall>i k. (i, k) \<notin> H \<longrightarrow> k \<le> MAXFILE \<longrightarrow> k < NDIRECT \<or> k = MAXFILE \<or> (i, MAXFILE) \<in> H \<longrightarrow> blk img (D i) k = 0) \<and>
     (\<forall>b. fb \<le> b \<longrightarrow> b < FSSIZE \<longrightarrow> img ! b = zeroes)"

lemma files_okD:
  assumes "files_ok img fb D H"
  shows "length img = 1000" "b < 1000 \<Longrightarrow> length (img ! b) = BSIZE" "59 \<le> fb" "fb \<le> 1000" "length (d_addrs (D i)) = 13"
    "(i, k) \<in> H \<Longrightarrow> k \<le> MAXFILE" "(i, k) \<in> H \<Longrightarrow> 59 \<le> unat (blk img (D i) k)" "(i, k) \<in> H \<Longrightarrow> unat (blk img (D i) k) < fb"
    "(i, k) \<in> H \<Longrightarrow> (j, l) \<in> H \<Longrightarrow> blk img (D i) k = blk img (D j) l \<Longrightarrow> i = j \<and> k = l"
    "NDIRECT \<le> k \<Longrightarrow> k < MAXFILE \<Longrightarrow> (i, k) \<in> H \<Longrightarrow> (i, MAXFILE) \<in> H"
    "(i, k) \<notin> H \<Longrightarrow> k \<le> MAXFILE \<Longrightarrow> k < NDIRECT \<or> k = MAXFILE \<or> (i, MAXFILE) \<in> H \<Longrightarrow> blk img (D i) k = 0"
    "fb \<le> b \<Longrightarrow> b < 1000 \<Longrightarrow> img ! b = zeroes"
  using assms by (auto simp: files_ok_def mkfs_consts)

text \<open>A write to a block that is no indirect block in use changes no block number.\<close>

lemma blk_update:
  assumes "b \<noteq> unat (d_addrs di ! NDIRECT)"
  shows "blk (img[b := v]) di k = blk img di k"
  using assms by (simp add: blk_def)

lemma write_data:
  assumes ok: "files_ok img fb D H" and h: "(i, k) \<in> H" "k < MAXFILE" and b: "b = unat (blk img (D i) k)"
    and v: "length v = BSIZE"
  shows "files_ok (img[b := v]) fb D H"
    "(j, l) \<in> H \<or> l < NDIRECT \<or> l = MAXFILE \<or> (j, MAXFILE) \<in> H \<Longrightarrow> blk (img[b := v]) (D j) l = blk img (D j) l"
proof -
  note f = files_okD [OF ok]
  have same: "blk (img[b := v]) (D j) l = blk img (D j) l"
    if "(j, l) \<in> H \<or> l < NDIRECT \<or> l = MAXFILE \<or> (j, MAXFILE) \<in> H" for j l
  proof (cases "(j, MAXFILE) \<in> H")
    case True
    then have "blk img (D i) k \<noteq> blk img (D j) MAXFILE" using f(9) [OF h(1) True] h(2) by auto
    then have "b \<noteq> unat (d_addrs (D j) ! NDIRECT)" by (simp add: b blk_def word_unat_eq_iff)
    then show ?thesis by (rule blk_update)
  next
    case False
    then have "l < NDIRECT \<or> l = MAXFILE" using that f(6,10) by (metis le_neq_implies_less not_less)
    then show ?thesis by (auto simp: blk_def)
  qed
  then show "(j, l) \<in> H \<or> l < NDIRECT \<or> l = MAXFILE \<or> (j, MAXFILE) \<in> H \<Longrightarrow> blk (img[b := v]) (D j) l = blk img (D j) l" .
  have "b < fb" using f(8) [OF h(1)] b by simp
  then show "files_ok (img[b := v]) fb D H"
    unfolding files_ok_def mkfs_consts
    using f v same by (auto simp: nth_list_update split: if_splits)
qed


text \<open>Giving the first free block to one more slot.\<close>

lemma add_slot:
  assumes ok: "files_ok img fb D H" and fb: "fb < 1000" and h: "(i, k) \<notin> H" "k \<le> MAXFILE"
    "k < NDIRECT \<or> k = MAXFILE \<or> (i, MAXFILE) \<in> H"
    and img: "length img' = 1000" "\<And>b. b < 1000 \<Longrightarrow> length (img' ! b) = BSIZE" "\<And>b. fb < b \<Longrightarrow> b < 1000 \<Longrightarrow> img' ! b = img ! b"
    and len: "\<And>j. length (d_addrs (D' j)) = 13"
    and new: "blk img' (D' i) k = of_nat fb"
    and same: "\<And>j l. (j, l) \<in> H \<Longrightarrow> blk img' (D' j) l = blk img (D j) l"
    and free: "\<And>j l. (j, l) \<notin> insert (i, k) H \<Longrightarrow> l \<le> MAXFILE \<Longrightarrow>
      l < NDIRECT \<or> l = MAXFILE \<or> (j, MAXFILE) \<in> insert (i, k) H \<Longrightarrow> blk img' (D' j) l = 0"
  shows "files_ok img' (fb + 1) D' (insert (i, k) H)"
proof -
  note f = files_okD [OF ok]
  have u: "unat (of_nat fb :: u32) = fb" by (rule unat_of_nat_u32) (use fb in simp)
  have ne: "blk img (D j) l \<noteq> of_nat fb" if "(j, l) \<in> H" for j l
    using f(8) [OF that] u by auto
  have "\<forall>(i', k') \<in> insert (i, k) H. k' \<le> MAXFILE \<and> 59 \<le> unat (blk img' (D' i') k') \<and> unat (blk img' (D' i') k') < fb + 1"
    using f(3,6,7,8) h(2) u by (auto simp: new same less_SucI)
  moreover have "\<forall>(i', k') \<in> insert (i, k) H. \<forall>(j, l) \<in> insert (i, k) H. blk img' (D' i') k' = blk img' (D' j) l \<longrightarrow> i' = j \<and> k' = l"
    using f(9) ne by (auto simp: new same) metis+
  moreover have "\<forall>i' k'. NDIRECT \<le> k' \<longrightarrow> k' < MAXFILE \<longrightarrow> (i', k') \<in> insert (i, k) H \<longrightarrow> (i', MAXFILE) \<in> insert (i, k) H"
    using f(10) h(3) by auto
  moreover have "\<forall>b. fb + 1 \<le> b \<longrightarrow> b < 1000 \<longrightarrow> img' ! b = zeroes"
    using f(12) img(3) by auto
  ultimately show ?thesis
    unfolding files_ok_def mkfs_consts using f(3) fb img(1,2) len free by auto
qed

lemma get32_zeroes: "i + 4 \<le> BSIZE \<Longrightarrow> get32 zeroes i = 0"
  by (simp add: get32_def word32_def)

lemma alloc_addr:
  fixes D i k a fb
  defines "D' \<equiv> D(i := (D i)\<lparr>d_addrs := (d_addrs (D i))[a := of_nat fb]\<rparr>)"
  assumes ok: "files_ok img fb D H" and fb: "fb < 1000" and h: "(i, k) \<notin> H" and a: "k < NDIRECT \<and> a = k \<or> k = MAXFILE \<and> a = NDIRECT"
  shows "files_ok img (fb + 1) D' (insert (i, k) H)" "(j, l) \<in> H \<Longrightarrow> blk img (D' j) l = blk img (D j) l"
    "blk img (D' i) k = of_nat fb"
proof -
  note f = files_okD [OF ok]
  have u: "unat (of_nat fb :: u32) = fb" by (rule unat_of_nat_u32) (use fb in simp)
  show same: "blk img (D' j) l = blk img (D j) l" if "(j, l) \<in> H" for j l
  proof (cases "j = i \<and> NDIRECT \<le> l \<and> l < MAXFILE")
    case True
    then have "(i, MAXFILE) \<in> H" using f(10) that by blast
    then have "k \<noteq> MAXFILE" using h by auto
    then show ?thesis using True a by (auto simp: D'_def blk_def)
  next
    case False
    then show ?thesis using a h that f(5) [of i] f(6) [OF that] by (auto simp: D'_def blk_def nth_list_update)
  qed
  show new: "blk img (D' i) k = of_nat fb"
    using a f(5) [of i] by (auto simp: D'_def blk_def)
  show "files_ok img (fb + 1) D' (insert (i, k) H)"
  proof (rule add_slot [OF ok fb h])
    show "blk img (D' j) l = 0" if n: "(j, l) \<notin> insert (i, k) H" "l \<le> MAXFILE"
      "l < NDIRECT \<or> l = MAXFILE \<or> (j, MAXFILE) \<in> insert (i, k) H" for j l
    proof (cases "j = i \<and> NDIRECT \<le> l \<and> l < MAXFILE \<and> k = MAXFILE")
      case True
      then have "blk img (D' j) l = get32 (img ! fb) (4 * (l - NDIRECT))"
        using a f(5) [of i] u by (auto simp: D'_def blk_def)
      moreover have "4 * (l - NDIRECT) + 4 \<le> BSIZE" using True by linarith
      ultimately show ?thesis using f(12) [of fb] fb get32_zeroes by simp
    next
      case False
      then have z: "blk img (D j) l = 0" using f(11) [of j l] n by auto
      have "blk img (D' j) l = blk img (D j) l" using False a n f(5) [of i] by (auto simp: D'_def blk_def nth_list_update)
      then show ?thesis using z by simp
    qed
  qed (use a f new same in \<open>auto simp: D'_def\<close>)
qed

lemma alloc_entry:
  fixes D i k fb img
  defines "c \<equiv> unat (d_addrs (D i) ! NDIRECT)"
  defines "img' \<equiv> img[c := splice (img ! c) (4 * (k - NDIRECT)) (bytes32 (of_nat fb))]"
  assumes ok: "files_ok img fb D H" and fb: "fb < 1000" and h: "(i, k) \<notin> H" "(i, MAXFILE) \<in> H" "NDIRECT \<le> k" "k < MAXFILE"
  shows "files_ok img' (fb + 1) D (insert (i, k) H)" "(j, l) \<in> H \<Longrightarrow> blk img' (D j) l = blk img (D j) l"
    "blk img' (D i) k = of_nat fb"
proof -
  note f = files_okD [OF ok]
  have c: "59 \<le> c" "c < fb" using f(7,8) [OF h(2)] by (simp_all add: c_def blk_def)
  have lc: "length (img ! c) = BSIZE" using f(2) c(2) fb by simp
  have same: "blk img' (D j) l = blk img (D j) l"
    if "(j, l) \<noteq> (i, k)" "(j, l) \<in> H \<or> l < NDIRECT \<or> l = MAXFILE \<or> (j, MAXFILE) \<in> H" "l \<le> MAXFILE" for j l
  proof (cases "l < NDIRECT \<or> l = MAXFILE")
    case True
    then show ?thesis by (auto simp: blk_def)
  next
    case False
    then have m: "(j, MAXFILE) \<in> H" using that f(10) by (metis le_neq_implies_less not_less)
    show ?thesis
    proof (cases "j = i")
      case True
      then have "l \<noteq> k" using that(1) by simp
      then show ?thesis
        using True False that(3) h(3,4) lc c(2) fb f(1)
        by (auto simp: blk_def img'_def c_def [symmetric] intro!: get32_splice_other)
    next
      case False
      then have "blk img (D j) MAXFILE \<noteq> blk img (D i) MAXFILE" using f(9) [OF m h(2)] by blast
      then have "c \<noteq> unat (d_addrs (D j) ! NDIRECT)" by (simp add: c_def blk_def word_unat_eq_iff)
      then show ?thesis unfolding img'_def by (rule blk_update)
    qed
  qed
  show s: "blk img' (D j) l = blk img (D j) l" if "(j, l) \<in> H" for j l
    using same [of j l] that h(1) f(6) [OF that] by blast
  show new: "blk img' (D i) k = of_nat fb"
    using h(3,4) lc c(2) fb f(1) by (simp add: blk_def img'_def c_def [symmetric])
  show "files_ok img' (fb + 1) D (insert (i, k) H)"
  proof (rule add_slot [OF ok fb h(1)])
    show "length (img' ! b) = BSIZE" if "b < 1000" for b
      using f(1,2) that lc h(3,4) c fb by (auto simp: img'_def nth_list_update)
    show "img' ! b = img ! b" if "fb < b" "b < 1000" for b
      using c(2) that by (simp add: img'_def)
    show "blk img' (D j) l = 0" if n: "(j, l) \<notin> insert (i, k) H" "l \<le> MAXFILE"
      "l < NDIRECT \<or> l = MAXFILE \<or> (j, MAXFILE) \<in> insert (i, k) H" for j l
    proof -
      have "l < NDIRECT \<or> l = MAXFILE \<or> (j, MAXFILE) \<in> H" using n(3) h(4) by auto
      then show ?thesis using same [of j l] f(11) [of j l] n by auto
    qed
  qed (use f h new s in \<open>auto simp: img'_def\<close>)
qed


text \<open>
  From one state to another in which the slots \<open>H'\<close> have blocks: the old slots keep their blocks and the
  data in them, the new data blocks are zero, and the meta data is as it was.
\<close>

definition grown :: "image \<Rightarrow> (nat \<Rightarrow> dinode) \<Rightarrow> (nat \<times> nat) set \<Rightarrow> image \<Rightarrow> (nat \<Rightarrow> dinode) \<Rightarrow> (nat \<times> nat) set \<Rightarrow> bool" where
  "grown s D H s' D' H' \<longleftrightarrow>
     files_ok (im_sectors s') (unat (im_freeblock s')) D' H' \<and> H \<subseteq> H' \<and> im_freeinode s' = im_freeinode s \<and>
     (\<forall>j. D' j = (D j)\<lparr>d_addrs := d_addrs (D' j)\<rparr>) \<and>
     (\<forall>(j, l) \<in> H. blk (im_sectors s') (D' j) l = blk (im_sectors s) (D j) l) \<and>
     (\<forall>(j, l) \<in> H. l < MAXFILE \<longrightarrow>
        im_sectors s' ! unat (blk (im_sectors s) (D j) l) = im_sectors s ! unat (blk (im_sectors s) (D j) l)) \<and>
     (\<forall>(j, l) \<in> H' - H. l < MAXFILE \<longrightarrow> im_sectors s' ! unat (blk (im_sectors s') (D' j) l) = zeroes) \<and>
     (\<forall>b < nmeta. im_sectors s' ! b = im_sectors s ! b)"

lemma grown_refl: "files_ok (im_sectors s) (unat (im_freeblock s)) D H \<Longrightarrow> grown s D H s D H"
  by (auto simp: grown_def)

lemma grownD:
  assumes "grown s D H s' D' H'"
  shows "files_ok (im_sectors s') (unat (im_freeblock s')) D' H'" "H \<subseteq> H'" "im_freeinode s' = im_freeinode s"
    "D' j = (D j)\<lparr>d_addrs := d_addrs (D' j)\<rparr>"
    "(j, l) \<in> H \<Longrightarrow> blk (im_sectors s') (D' j) l = blk (im_sectors s) (D j) l"
    "(j, l) \<in> H \<Longrightarrow> l < MAXFILE \<Longrightarrow>
       im_sectors s' ! unat (blk (im_sectors s) (D j) l) = im_sectors s ! unat (blk (im_sectors s) (D j) l)"
    "(j, l) \<in> H' \<Longrightarrow> (j, l) \<notin> H \<Longrightarrow> l < MAXFILE \<Longrightarrow> im_sectors s' ! unat (blk (im_sectors s') (D' j) l) = zeroes"
    "b < 59 \<Longrightarrow> im_sectors s' ! b = im_sectors s ! b"
  using assms unfolding grown_def mkfs_consts by (auto split: prod.splits)

lemma grown_trans:
  assumes a: "grown s D H s' D' H'" and b: "grown s' D' H' s'' D'' H''"
  shows "grown s D H s'' D'' H''"
proof -
  note x = grownD [OF a] and y = grownD [OF b]
  have "D'' j = (D j)\<lparr>d_addrs := d_addrs (D'' j)\<rparr>" for j
    using x(4) [of j] y(4) [of j] by (metis dinode.surjective dinode.update_convs(6) dinode.select_convs)
  moreover have "blk (im_sectors s'') (D'' j) l = blk (im_sectors s) (D j) l" if "(j, l) \<in> H" for j l
    using x(5) [OF that] y(5) [of j l] x(2) that by auto
  moreover have "im_sectors s'' ! unat (blk (im_sectors s) (D j) l) = im_sectors s ! unat (blk (im_sectors s) (D j) l)"
    if "(j, l) \<in> H" "l < MAXFILE" for j l
    using x(5,6) [of j l] y(6) [of j l] x(2) that by auto
  moreover have "im_sectors s'' ! unat (blk (im_sectors s'') (D'' j) l) = zeroes"
    if "(j, l) \<in> H''" "(j, l) \<notin> H" "l < MAXFILE" for j l
    using x(7) [of j l] y(5,6,7) [of j l] that by (cases "(j, l) \<in> H'") auto
  moreover have "\<forall>b < nmeta. im_sectors s'' ! b = im_sectors s ! b" using x(8) y(8) by (simp add: mkfs_consts)
  ultimately show ?thesis
    unfolding grown_def using x(2,3) y(1,2,3) by auto
qed

lemma of_nat_unat_u32: "of_nat (unat (x :: u32)) = x"
  by simp

lemma unat_inc: "unat (x :: u32) < 1000 \<Longrightarrow> unat (x + 1) = unat x + 1"
  by (simp add: unat_add_nowrap)

lemma grown_addr:
  assumes ok: "files_ok (im_sectors s) (unat (im_freeblock s)) D H" and fb: "unat (im_freeblock s) < 1000"
    and h: "(i, k) \<notin> H" and a: "k < NDIRECT \<and> a = k \<or> k = MAXFILE \<and> a = NDIRECT"
  shows "grown s D H (s\<lparr>im_freeblock := im_freeblock s + 1\<rparr>)
    (D(i := (D i)\<lparr>d_addrs := (d_addrs (D i))[a := im_freeblock s]\<rparr>)) (insert (i, k) H)"
proof -
  note n = alloc_addr [OF ok fb h a, unfolded of_nat_unat_u32]
  have "im_sectors s ! unat (im_freeblock s) = zeroes" using files_okD(12) [OF ok, of "unat (im_freeblock s)"] fb by simp
  then show ?thesis
    unfolding grown_def using n by (auto simp: unat_inc [OF fb])
qed

lemma grown_entry:
  fixes D i k s
  defines "c \<equiv> d_addrs (D i) ! NDIRECT"
  assumes ok: "files_ok (im_sectors s) (unat (im_freeblock s)) D H" and fb: "unat (im_freeblock s) < 1000"
    and h: "(i, k) \<notin> H" "(i, MAXFILE) \<in> H" "NDIRECT \<le> k" "k < MAXFILE"
  shows "grown s D H (s\<lparr>im_sectors := (im_sectors s)[unat c :=
      splice (im_sectors s ! unat c) (4 * (k - NDIRECT)) (bytes32 (im_freeblock s))], im_freeblock := im_freeblock s + 1\<rparr>)
    D (insert (i, k) H)"
proof -
  note n = alloc_entry [OF ok fb h, folded c_def, unfolded of_nat_unat_u32] and f = files_okD [OF ok]
  have c: "59 \<le> unat c" "unat c < unat (im_freeblock s)" using f(7,8) [OF h(2)] by (simp_all add: c_def blk_def)
  have "blk (im_sectors s) (D i) MAXFILE = c" by (simp add: blk_def c_def)
  then have "c \<noteq> blk (im_sectors s) (D j) l" if "(j, l) \<in> H" "l < MAXFILE" for j l
    using f(9) [OF that(1) h(2)] that(2) by auto
  then have "unat c \<noteq> unat (blk (im_sectors s) (D j) l)" if "(j, l) \<in> H" "l < MAXFILE" for j l
    using that by (simp add: word_unat_eq_iff)
  moreover have "im_sectors s ! unat (im_freeblock s) = zeroes" using f(12) [of "unat (im_freeblock s)"] fb by simp
  ultimately show ?thesis
    unfolding grown_def using n c by (auto simp: unat_inc [OF fb] mkfs_consts)
qed


text \<open>The slots a file of \<open>n\<close> bytes has, and how many.\<close>

definition nblk :: "nat \<Rightarrow> nat" where "nblk n = (n + 511) div BSIZE"
definition slots :: "nat \<Rightarrow> nat set" where "slots n = {k. k < nblk n} \<union> (if NDIRECT < nblk n then {MAXFILE} else {})"
definition nslots :: "nat \<Rightarrow> nat" where "nslots n = nblk n + (if NDIRECT < nblk n then 1 else 0)"

text \<open>The slots after the block \<open>k\<close> has been asked for, and the number of new ones.\<close>

definition with_slot :: "nat \<Rightarrow> nat \<Rightarrow> (nat \<times> nat) set \<Rightarrow> (nat \<times> nat) set" where
  "with_slot i k H = insert (i, k) (if k < NDIRECT then H else insert (i, MAXFILE) H)"

definition cost :: "nat \<Rightarrow> nat \<Rightarrow> (nat \<times> nat) set \<Rightarrow> nat" where
  "cost i k H = (if (i, k) \<in> H then 0 else if k < NDIRECT \<or> (i, MAXFILE) \<in> H then 1 else 2)"

lemma used_nonzero: "files_ok img fb D H \<Longrightarrow> (i, k) \<in> H \<Longrightarrow> blk img (D i) k \<noteq> 0"
  using files_okD(7) [of img fb D H i k] by auto

lemma mk_bmap_ok:
  assumes ok: "files_ok (im_sectors s) (unat (im_freeblock s)) D H" and k: "k < MAXFILE"
    and fb: "unat (im_freeblock s) + cost i k H \<le> 1000"
  shows "\<exists>din s'. mk_bmap k (D i) s = Ok (blk (im_sectors s') din k, din, s') \<and>
    grown s D H s' (D(i := din)) (with_slot i k H) \<and>
    unat (im_freeblock s') = unat (im_freeblock s) + cost i k H"
proof (cases "k < NDIRECT")
  case True
  note f = files_okD [OF ok]
  have b: "blk img di k = d_addrs di ! k" for img di using True by (simp add: blk_def)
  show ?thesis
  proof (cases "(i, k) \<in> H")
    case h: True
    then have "d_addrs (D i) ! k \<noteq> 0" using used_nonzero [OF ok h] b by simp
    moreover have "with_slot i k H = H" using h True by (auto simp: with_slot_def)
    ultimately show ?thesis
      using True h by (intro exI [of _ "D i"] exI [of _ s]) (simp add: mk_bmap_def b cost_def grown_refl [OF ok])
  next
    case h: False
    then have z: "d_addrs (D i) ! k = 0" using f(11) [OF h] True b by simp
    have fb': "unat (im_freeblock s) < 1000" using fb h True by (simp add: cost_def)
    let ?d = "(D i)\<lparr>d_addrs := (d_addrs (D i))[k := im_freeblock s]\<rparr>" and ?s = "s\<lparr>im_freeblock := im_freeblock s + 1\<rparr>"
    have "grown s D H ?s (D(i := ?d)) (insert (i, k) H)" by (rule grown_addr [OF ok fb' h]) (use True in simp)
    moreover have "mk_bmap k (D i) s = Ok (blk (im_sectors ?s) ?d k, ?d, ?s)"
      using True z by (simp add: mk_bmap_def b new_block_def)
    ultimately show ?thesis
      using True h unat_inc [OF fb'] by (intro exI [of _ ?d] exI [of _ ?s]) (simp add: cost_def with_slot_def)
  qed
next
  case False
  note f = files_okD [OF ok]
  have b12: "blk img di MAXFILE = d_addrs di ! NDIRECT" for img di by (simp add: blk_def)
  define c1 :: nat where "c1 = (if (i, MAXFILE) \<in> H then 0 else 1)"
  have c1: "cost i k H = c1 + cost i k (insert (i, MAXFILE) H)"
    using False k f(10) [of k i] by (auto simp: cost_def c1_def)
  obtain din s1 where d: "(if d_addrs (D i) ! NDIRECT = 0 then
        (let (b, s) = new_block s in ((D i)\<lparr>d_addrs := (d_addrs (D i))[NDIRECT := b]\<rparr>, s)) else (D i, s)) = (din, s1)"
    and g: "grown s D H s1 (D(i := din)) (insert (i, MAXFILE) H)" and fb1: "unat (im_freeblock s1) = unat (im_freeblock s) + c1"
  proof (cases "(i, MAXFILE) \<in> H")
    case h: True
    then have "d_addrs (D i) ! NDIRECT \<noteq> 0" using used_nonzero [OF ok h] b12 by simp
    then show ?thesis
      using that [of "D i" s] h by (simp add: c1_def insert_absorb grown_refl [OF ok])
  next
    case h: False
    then have z: "d_addrs (D i) ! NDIRECT = 0" using f(11) [OF h] b12 by simp
    have fb': "unat (im_freeblock s) < 1000" using fb c1 h by (simp add: c1_def)
    show ?thesis
      by (rule that [of "(D i)\<lparr>d_addrs := (d_addrs (D i))[NDIRECT := im_freeblock s]\<rparr>" "s\<lparr>im_freeblock := im_freeblock s + 1\<rparr>"])
        (use z h unat_inc [OF fb'] grown_addr [OF ok fb' h, of NDIRECT] in \<open>simp_all add: new_block_def c1_def\<close>)
  qed
  note ok1 = grownD(1) [OF g] and f1 = files_okD [OF grownD(1) [OF g]]
  have h1: "(i, MAXFILE) \<in> insert (i, MAXFILE) H" by simp
  have c: "59 \<le> unat (d_addrs din ! NDIRECT)" "unat (d_addrs din ! NDIRECT) < 1000"
    using f1(7,8) [OF h1] f1(4) b12 by simp_all
  have e: "get32 (im_sectors s1 ! unat (d_addrs din ! NDIRECT)) (4 * (k - NDIRECT)) = blk (im_sectors s1) din k"
    using False k by (simp add: blk_def)
  have r: "mk_bmap k (D i) s = (let indirect = im_sectors s1 ! unat (d_addrs din ! NDIRECT);
       (indirect, s') = (if blk (im_sectors s1) din k = 0 then
          (let indirect = splice indirect (4 * (k - NDIRECT)) (bytes32 (im_freeblock s1))
           in (indirect, wsect (d_addrs din ! NDIRECT) indirect (s1\<lparr>im_freeblock := im_freeblock s1 + 1\<rparr>))) else (indirect, s1))
     in Ok (get32 indirect (4 * (k - NDIRECT)), din, s'))"
    using False c f1(1) unfolding mk_bmap_def xint d by (simp add: rsect_inside e new_block_def Let_def split: prod.splits)
  have l: "length (im_sectors s1 ! unat (d_addrs din ! NDIRECT)) = BSIZE" using f1(2) c by simp
  show ?thesis
  proof (cases "(i, k) \<in> insert (i, MAXFILE) H")
    case h: True
    then have "blk (im_sectors s1) din k \<noteq> 0" using used_nonzero [OF ok1 h] by simp
    moreover have "with_slot i k H = insert (i, MAXFILE) H" using h False by (auto simp: with_slot_def)
    moreover have "cost i k (insert (i, MAXFILE) H) = 0" using h by (simp add: cost_def)
    ultimately show ?thesis using r g fb1 c1 e by (intro exI [of _ din] exI [of _ s1]) simp
  next
    case h: False
    have z: "blk (im_sectors s1) din k = 0" using f1(11) [OF h] k by simp
    have "cost i k (insert (i, MAXFILE) H) = 1" using h by (simp add: cost_def)
    then have fb': "unat (im_freeblock s1) < 1000" using fb c1 fb1 by simp
    let ?s = "s1\<lparr>im_sectors := (im_sectors s1)[unat (d_addrs din ! NDIRECT) := splice (im_sectors s1 ! unat (d_addrs din ! NDIRECT))
      (4 * (k - NDIRECT)) (bytes32 (im_freeblock s1))], im_freeblock := im_freeblock s1 + 1\<rparr>"
    have "grown s1 (D(i := din)) (insert (i, MAXFILE) H) ?s (D(i := din)) (insert (i, k) (insert (i, MAXFILE) H))"
      using grown_entry [OF ok1 fb' h h1] False k by simp
    then have "grown s D H ?s (D(i := din)) (with_slot i k H)"
      using grown_trans [OF g] False by (simp add: with_slot_def)
    moreover have "mk_bmap k (D i) s = Ok (blk (im_sectors ?s) din k, din, ?s)"
      using r z c f1(1) l False k by (simp add: wsect_inside blk_def Let_def)
    moreover have "unat (im_freeblock ?s) = unat (im_freeblock s) + cost i k H"
      using unat_inc [OF fb'] fb1 c1 \<open>cost i k (insert (i, MAXFILE) H) = 1\<close> by simp
    ultimately show ?thesis by blast
  qed
qed


section \<open>The content of the files\<close>

definition byte_at :: "u8 list list \<Rightarrow> dinode \<Rightarrow> nat \<Rightarrow> u8" where
  "byte_at img di n = img ! unat (blk img di (n div BSIZE)) ! (n mod BSIZE)"

definition fcont :: "u8 list list \<Rightarrow> dinode \<Rightarrow> nat \<Rightarrow> u8 list" where
  "fcont img di n = map (byte_at img di) [0..<n]"

text \<open>The slots of files of the sizes \<open>S i\<close>.\<close>

definition slots_of :: "(nat \<Rightarrow> nat) \<Rightarrow> (nat \<times> nat) set" where
  "slots_of S = {(i, k). k \<in> slots (S i)}"

lemma slots_of_iff [simp]: "(i, k) \<in> slots_of S \<longleftrightarrow> k \<in> slots (S i)"
  by (simp add: slots_of_def)

lemma slot_of_byte: "n < m \<Longrightarrow> n div BSIZE \<in> slots m"
  by (auto simp: slots_def nblk_def)

lemma nblk_bounds:
  assumes "0 < n" "off mod BSIZE + n \<le> BSIZE"
  shows "nblk (off + n) = off div BSIZE + 1" "nblk off = off div BSIZE + (if off mod BSIZE = 0 then 0 else 1)"
proof -
  define q r where "q = off div BSIZE" and "r = off mod BSIZE"
  have o: "off = 512 * q + r" "r < 512" by (simp_all add: q_def r_def)
  have "(off + n + 511) div 512 = q + 1"
    using assms o(2) unfolding r_def [symmetric] by (intro div_nat_eqI) (simp_all add: o(1))
  then show "nblk (off + n) = off div BSIZE + 1" by (simp add: nblk_def q_def)
  have "(off + 511) div 512 = q + (if r = 0 then 0 else 1)"
    using o(2) by (intro div_nat_eqI) (simp_all add: o(1))
  then show "nblk off = off div BSIZE + (if off mod BSIZE = 0 then 0 else 1)" by (simp add: nblk_def q_def r_def)
qed

lemma slots_step:
  assumes "0 < n" "off mod BSIZE + n \<le> BSIZE" "S i = off" "off div BSIZE < MAXFILE"
  shows "with_slot i (off div BSIZE) (slots_of S) = slots_of (S(i := off + n))"
    "nslots (off + n) = nslots off + cost i (off div BSIZE) (slots_of S)"
  using nblk_bounds [OF assms(1,2)] assms(3,4)
  by (auto simp: with_slot_def cost_def nslots_def slots_def slots_of_def split: if_splits)

definition appended :: "image \<Rightarrow> (nat \<Rightarrow> dinode) \<Rightarrow> (nat \<Rightarrow> nat) \<Rightarrow> nat \<Rightarrow> u8 list \<Rightarrow> image \<Rightarrow> (nat \<Rightarrow> dinode) \<Rightarrow> bool" where
  "appended s D S i p s' D' \<longleftrightarrow>
     files_ok (im_sectors s') (unat (im_freeblock s')) D' (slots_of (S(i := S i + length p))) \<and>
     im_freeinode s' = im_freeinode s \<and> D' i = (D i)\<lparr>d_addrs := d_addrs (D' i)\<rparr> \<and> (\<forall>j. j \<noteq> i \<longrightarrow> D' j = D j) \<and>
     fcont (im_sectors s') (D' i) (S i + length p) = fcont (im_sectors s) (D i) (S i) @ p \<and>
     (\<forall>j. j \<noteq> i \<longrightarrow> fcont (im_sectors s') (D j) (S j) = fcont (im_sectors s) (D j) (S j)) \<and>
     unat (im_freeblock s') + nslots (S i) = unat (im_freeblock s) + nslots (S i + length p) \<and>
     (\<forall>b < nmeta. im_sectors s' ! b = im_sectors s ! b)"

lemma appended_trans:
  assumes a: "appended s D S i p s' D'" and b: "appended s' D' (S(i := S i + length p)) i q s'' D''"
  shows "appended s D S i (p @ q) s'' D''"
proof -
  have "D'' i = (D i)\<lparr>d_addrs := d_addrs (D'' i)\<rparr>"
    using a b unfolding appended_def by (metis dinode.surjective dinode.update_convs(6) dinode.select_convs)
  then show ?thesis
    using a b by (auto simp: appended_def add.assoc)
qed

lemma mod_less_same_div: "(n :: nat) < m \<Longrightarrow> n div d = m div d \<Longrightarrow> n mod d < m mod d"
  by (metis div_mult_mod_eq nat_add_left_cancel_less)

lemma block_append:
  assumes ok: "files_ok (im_sectors s) (unat (im_freeblock s)) D (slots_of S)"
    and p: "p \<noteq> []" "S i mod BSIZE + length p \<le> BSIZE" and off: "S i div BSIZE < MAXFILE"
    and fb: "unat (im_freeblock s) + nslots (S i + length p) \<le> 1000 + nslots (S i)" and small: "\<And>j. S j \<le> MAXFILE * BSIZE"
  shows "\<exists>x din s' buf. mk_bmap (S i div BSIZE) (D i) s = Ok (x, din, s') \<and> rsect x s' = Ok buf \<and>
    appended s D S i p (wsect x (splice buf (S i mod BSIZE) p) s') (D(i := din))"
proof -
  let ?k = "S i div BSIZE" and ?S = "S(i := S i + length p)"
  have n: "0 < length p" using p(1) by simp
  note st = slots_step [where S = S and i = i, OF n p(2) refl off]
  have "unat (im_freeblock s) + cost i ?k (slots_of S) \<le> 1000" using fb st(2) by linarith
  from mk_bmap_ok [OF ok off this] obtain din s' where
    m: "mk_bmap ?k (D i) s = Ok (blk (im_sectors s') din ?k, din, s')"
    and g: "grown s D (slots_of S) s' (D(i := din)) (slots_of ?S)"
    and fb': "unat (im_freeblock s') = unat (im_freeblock s) + cost i ?k (slots_of S)"
    unfolding st(1) by blast
  let ?D = "D(i := din)" and ?x = "blk (im_sectors s') din ?k"
  let ?img = "im_sectors s" and ?img1 = "im_sectors s'"
  note ok1 = grownD(1) [OF g] and f1 = files_okD [OF grownD(1) [OF g]]
  have h: "(i, ?k) \<in> slots_of ?S" using n by (simp add: slot_of_byte)
  have x: "59 \<le> unat ?x" "unat ?x < 1000" using f1(7,8) [OF h] f1(4) by simp_all
  define buf where "buf = ?img1 ! unat ?x"
  have buf: "rsect ?x s' = Ok buf" "length buf = BSIZE"
    using x f1(1,2) by (simp_all add: rsect_inside buf_def)
  let ?v = "splice buf (S i mod BSIZE) p" and ?img2 = "?img1[unat ?x := splice buf (S i mod BSIZE) p]"
  have lv: "length ?v = BSIZE" using buf(2) p(2) by simp
  have w: "wsect ?x ?v s' = s'\<lparr>im_sectors := ?img2\<rparr>" using x f1(1) by (simp add: wsect_inside)
  have bx: "unat ?x = unat (blk ?img1 (?D i) ?k)" by simp
  note wd = write_data [OF ok1 h off bx lv]
  have same2: "blk ?img2 (?D j) l = blk ?img1 (?D j) l" if "(j, l) \<in> slots_of ?S" for j l
    by (rule wd(2)) (use that in simp)
  have sub: "slots_of S \<subseteq> slots_of ?S" using grownD(2) [OF g] .
  have keep: "?img2 ! unat (blk ?img2 (?D j) l) = (if j = i \<and> l = ?k then ?v else ?img ! unat (blk ?img (D j) l))"
    if "(j, l) \<in> slots_of S \<or> j = i \<and> l = ?k" "l < MAXFILE" for j l
  proof (cases "j = i \<and> l = ?k")
    case True
    then show ?thesis using same2 [OF h] x f1(1) by simp
  next
    case False
    then have jl: "(j, l) \<in> slots_of S" "(j, l) \<in> slots_of ?S" using that sub by blast+
    have "blk ?img1 (?D j) l \<noteq> ?x" using f1(9) [OF jl(2) h] False by auto
    then have "unat (blk ?img1 (?D j) l) \<noteq> unat ?x" by (simp add: word_unat_eq_iff)
    then have "?img2 ! unat (blk ?img2 (?D j) l) = ?img1 ! unat (blk ?img1 (?D j) l)"
      using same2 [OF jl(2)] by simp
    then show ?thesis unfolding if_not_P [OF False] using grownD(5,6) [OF g jl(1)] that(2) by simp
  qed
  have slot: "(j, n div BSIZE) \<in> slots_of S" "n div BSIZE < MAXFILE" if "n < S j" for j n
  proof -
    show "(j, n div BSIZE) \<in> slots_of S" using slot_of_byte [OF that] by simp
    show "n div BSIZE < MAXFILE" using small [of j] that by linarith
  qed
  have old: "byte_at ?img2 (?D j) n = byte_at ?img (D j) n" if "n < S j" for j n
  proof (cases "j = i \<and> n div BSIZE = ?k")
    case False
    then show ?thesis using keep [of j "n div BSIZE"] slot [OF that] by (auto simp: byte_at_def)
  next
    case True
    then have "n < S i" "n div BSIZE = S i div BSIZE" using that by auto
    then have m: "n mod BSIZE < S i mod BSIZE" by (rule mod_less_same_div)
    have "byte_at ?img2 (?D j) n = ?v ! (n mod BSIZE)"
      using keep [of i ?k] off True by (auto simp: byte_at_def)
    also have "\<dots> = buf ! (n mod BSIZE)" using m p(2) buf(2) by (simp add: nth_splice)
    also have "\<dots> = byte_at ?img (D j) n"
      using grownD(5,6) [OF g, of i ?k] slot [OF that] True off by (auto simp: byte_at_def buf_def)
    finally show ?thesis .
  qed
  have new: "byte_at ?img2 (?D i) (S i + n) = p ! n" if "n < length p" for n
  proof -
    have "(S i + n) div BSIZE = ?k" "(S i + n) mod BSIZE = S i mod BSIZE + n"
      using div_mod_within [of "S i" BSIZE n] that p(2) by simp_all
    then show ?thesis using keep [of i ?k] off that p(2) buf(2) by (simp add: byte_at_def nth_splice)
  qed
  have new': "byte_at ?img2 (?D i) n = p ! (n - S i)" if "S i \<le> n" "n < S i + length p" for n
    using new [of "n - S i"] that by simp
  have c: "fcont ?img2 (?D i) (S i + length p) = fcont ?img (D i) (S i) @ p"
    by (rule nth_equalityI) (use old [of _ i] new' in \<open>simp_all add: fcont_def nth_append\<close>)
  have "fcont ?img2 (D j) (S j) = fcont ?img (D j) (S j)" if "j \<noteq> i" for j
    using old [of _ j] that by (auto simp: fcont_def)
  then have "appended s D S i p (wsect ?x ?v s') ?D"
    using wd(1) c grownD(3,8) [OF g] grownD(4) [OF g, of i] fb' st(2) x unfolding w by (auto simp: appended_def mkfs_consts fun_upd_def)
  then show ?thesis using m buf(1) buf_def by blast
qed


lemma nslots_mono: "m \<le> n \<Longrightarrow> nslots m \<le> nslots n"
  using div_le_mono [of "m + 511" "n + 511" 512] by (auto simp: nslots_def nblk_def)

lemma iappend_loop_ok:
  assumes "files_ok (im_sectors s) (unat (im_freeblock s)) D (slots_of S)" "\<And>j. S j \<le> MAXFILE * BSIZE"
    "S i + length p \<le> MAXFILE * BSIZE" "unat (im_freeblock s) + nslots (S i + length p) \<le> 1000 + nslots (S i)"
  shows "\<exists>din s'. iappend_loop (D i) (S i) p s = Ok (din, S i + length p, s') \<and> appended s D S i p s' (D(i := din))"
  using assms
proof (induction "length p" arbitrary: p D S s rule: less_induct)
  case less
  show ?case
  proof (cases "p = []")
    case True
    then show ?thesis
      using less.prems(1) by (intro exI [of _ "D i"] exI [of _ s]) (simp add: iappend_loop.simps appended_def)
  next
    case False
    define k r where "k = S i div BSIZE" and "r = S i mod BSIZE"
    have o: "S i = k * BSIZE + r" "r < BSIZE" by (simp_all add: k_def r_def)
    define n where "n = min (length p) ((k + 1) * BSIZE - S i)"
    have n: "0 < n" "n \<le> length p" "r + n \<le> BSIZE" using False o by (auto simp: n_def)
    have l: "length (take n p) = n" "take n p \<noteq> []" using n by auto
    have k: "k < MAXFILE" using less.prems(3) o n(1,2) by linarith
    have "nslots (S i + n) \<le> nslots (S i + length p)" using n(2) by (intro nslots_mono) simp
    then have fb: "unat (im_freeblock s) + nslots (S i + length (take n p)) \<le> 1000 + nslots (S i)"
      using less.prems(4) unfolding l(1) by linarith
    obtain x din s1 buf where m: "mk_bmap k (D i) s = Ok (x, din, s1)" "rsect x s1 = Ok buf"
      and a: "appended s D S i (take n p) (wsect x (splice buf r (take n p)) s1) (D(i := din))"
      using block_append [OF less.prems(1) l(2) _ _ fb less.prems(2)] n(3) k l(1) unfolding k_def [symmetric] r_def [symmetric]
      by auto
    define s2 where "s2 = wsect x (splice buf r (take n p)) s1"
    let ?D = "D(i := din)" and ?S = "S(i := S i + n)"
    have a': "files_ok (im_sectors s2) (unat (im_freeblock s2)) ?D (slots_of ?S)"
      "unat (im_freeblock s2) + nslots (S i) = unat (im_freeblock s) + nslots (S i + n)"
      using a l(1) unfolding appended_def s2_def [symmetric] by simp_all
    have step: "iappend_loop (D i) (S i) p s = iappend_loop din (S i + n) (drop n p) s2"
      using False m k o by (simp add: iappend_loop.simps [of _ _ p] k_def [symmetric] n_def s2_def Let_def)
    have "\<exists>din' s'. iappend_loop (?D i) (?S i) (drop n p) s2 = Ok (din', ?S i + length (drop n p), s') \<and>
        appended s2 ?D ?S i (drop n p) s' (?D(i := din'))"
      by (rule less.hyps) (use a' n less.prems in \<open>auto simp: fun_upd_def\<close>)
    then obtain din' s' where b: "iappend_loop din (S i + n) (drop n p) s2 = Ok (din', S i + length p, s')"
      "appended s2 ?D ?S i (drop n p) s' (D(i := din'))"
      using n(2) by auto
    have "appended s D S i (take n p @ drop n p) s' (D(i := din'))"
      by (rule appended_trans [OF a [folded s2_def]]) (use b(2) l(1) in simp)
    then show ?thesis using step b(1) by auto
  qed
qed


section \<open>The image\<close>

text \<open>The inode blocks hold 208 inodes.  \<open>inode_of\<close> reads them as the kernel's \<open>ilock\<close> does.\<close>

definition inode_of :: "u8 list list \<Rightarrow> nat \<Rightarrow> dinode" where
  "inode_of img i = (if i < 208 then dinode_at (img ! (32 + i div IPB)) (64 * (i mod IPB)) else zero_dinode)"

definition isize :: "u8 list list \<Rightarrow> nat \<Rightarrow> nat" where
  "isize img i = unat (d_size (inode_of img i))"

definition file_content :: "u8 list list \<Rightarrow> nat \<Rightarrow> u8 list" where
  "file_content img i = fcont img (inode_of img i) (isize img i)"

definition image_ok :: "image \<Rightarrow> bool" where
  "image_ok s \<longleftrightarrow>
     files_ok (im_sectors s) (unat (im_freeblock s)) (inode_of (im_sectors s)) (slots_of (isize (im_sectors s))) \<and>
     (\<forall>i. isize (im_sectors s) i \<le> MAXFILE * BSIZE)"

text \<open>Only the addresses of the inodes and the blocks behind the meta data matter to the files.\<close>

lemma blk_cong:
  assumes "d_addrs di' = d_addrs di" "k < NDIRECT \<or> MAXFILE \<le> k \<or> img' ! unat (d_addrs di ! NDIRECT) = img ! unat (d_addrs di ! NDIRECT)"
  shows "blk img' di' k = blk img di k"
  using assms by (auto simp: blk_def)

lemma blk_slot_cong:
  assumes ok: "files_ok img fb D H" and d: "d_addrs di' = d_addrs (D i)" and img: "\<And>b. 59 \<le> b \<Longrightarrow> img' ! b = img ! b"
    and k: "(i, k) \<in> H \<or> k < NDIRECT \<or> k = MAXFILE \<or> (i, MAXFILE) \<in> H"
  shows "blk img' di' k = blk img (D i) k"
proof (rule blk_cong [OF d])
  show "k < NDIRECT \<or> MAXFILE \<le> k \<or> img' ! unat (d_addrs (D i) ! NDIRECT) = img ! unat (d_addrs (D i) ! NDIRECT)"
  proof (cases "k < NDIRECT \<or> MAXFILE \<le> k")
    case False
    then have "(i, MAXFILE) \<in> H" using k files_okD(10) [OF ok, of k i] by auto
    then have "59 \<le> unat (d_addrs (D i) ! NDIRECT)" using files_okD(7) [OF ok] by (fastforce simp: blk_def)
    then show ?thesis using img by blast
  qed blast
qed

lemma files_ok_cong:
  assumes ok: "files_ok img fb D H" and d: "\<And>i. d_addrs (D' i) = d_addrs (D i)"
    and img: "\<And>b. 59 \<le> b \<Longrightarrow> img' ! b = img ! b" "length img' = 1000" "\<And>b. b < 1000 \<Longrightarrow> length (img' ! b) = BSIZE"
  shows "files_ok img' fb D' H"
proof -
  note f = files_okD [OF ok] and b = blk_slot_cong [OF ok d img(1)]
  show ?thesis
    unfolding files_ok_def mkfs_consts using f b d img by auto
qed

lemma fcont_cong:
  assumes ok: "files_ok img fb D (slots_of S)" and d: "d_addrs di' = d_addrs (D i)"
    and img: "\<And>b. 59 \<le> b \<Longrightarrow> img' ! b = img ! b" and n: "n \<le> S i"
  shows "fcont img' di' n = fcont img (D i) n"
proof -
  have "byte_at img' di' m = byte_at img (D i) m" if "m < n" for m
  proof -
    have s: "(i, m div BSIZE) \<in> slots_of S" using slot_of_byte [of m "S i"] that n by simp
    then have "blk img' di' (m div BSIZE) = blk img (D i) (m div BSIZE)"
      using blk_slot_cong [OF ok d img] by blast
    then show ?thesis using files_okD(7) [OF ok s] img by (simp add: byte_at_def)
  qed
  then show ?thesis by (simp add: fcont_def)
qed

lemma winode_ok:
  assumes l: "length (im_sectors s) = 1000" "\<And>b. b < 1000 \<Longrightarrow> length (im_sectors s ! b) = BSIZE"
    and i: "unat inum < 208" and di: "length (d_addrs di) = 13"
  shows "\<exists>v. winode inum di s = Ok (s\<lparr>im_sectors := (im_sectors s)[32 + unat inum div IPB := v]\<rparr>) \<and> length v = BSIZE \<and>
    (\<forall>j. inode_of ((im_sectors s)[32 + unat inum div IPB := v]) j = (if j = unat inum then di else inode_of (im_sectors s) j))"
proof -
  let ?b = "32 + unat inum div IPB" and ?k = "64 * (unat inum mod IPB)"
  let ?v = "splice (im_sectors s ! ?b) ?k (dinode_bytes di)"
  have b: "?b < 58" using i by (simp add: less_mult_imp_div_less)
  have ib: "unat (IBLOCK inum mkfs_sb) = ?b"
  proof -
    have "IBLOCK inum mkfs_sb = of_nat ?b" by (simp add: IBLOCK_def mkfs_sb_sel)
    then show ?thesis using b unat_of_nat_u32 [of ?b] by simp
  qed
  have k: "?k + 64 \<le> 512" by (simp add: mult.commute) 
  have lb: "length (im_sectors s ! ?b) = BSIZE" using l(2) b by simp
  have w: "winode inum di s = Ok (s\<lparr>im_sectors := (im_sectors s)[?b := ?v]\<rparr>)"
    using b l(1) by (simp add: winode_def rsect_inside wsect_inside ib dip_off_def Let_def)
  have "inode_of ((im_sectors s)[?b := ?v]) j = (if j = unat inum then di else inode_of (im_sectors s) j)" for j
  proof (cases "j < 208 \<and> j div IPB = unat inum div IPB")
    case True
    then have n: "inode_of ((im_sectors s)[?b := ?v]) j = dinode_at ?v (64 * (j mod IPB))"
      using b l(1) by (simp add: inode_of_def)
    show ?thesis
    proof (cases "j mod IPB = unat inum mod IPB")
      case m: True
      then have "j = unat inum" using True by (metis div_mult_mod_eq)
      then show ?thesis using n dinode_roundtrip [OF di, of ?k "im_sectors s ! ?b"] lb k by simp
    next
      case False
      then have "64 * (j mod IPB) + 64 \<le> ?k \<or> ?k + 64 \<le> 64 * (j mod IPB)" by linarith
      then have "dinode_at ?v (64 * (j mod IPB)) = dinode_at (im_sectors s ! ?b) (64 * (j mod IPB))"
        using dinode_at_other [OF di, of ?k "im_sectors s ! ?b" "64 * (j mod IPB)"] lb k by simp
      then show ?thesis using n False True by (auto simp: inode_of_def)
    qed
  next
    case False
    then show ?thesis using i by (auto simp: inode_of_def)
  qed
  then show ?thesis using w lb k di by (intro exI [of _ ?v]) simp
qed


text \<open>What \<open>iappend\<close> does to the image.\<close>

definition put :: "image \<Rightarrow> nat \<Rightarrow> u8 list \<Rightarrow> image \<Rightarrow> bool" where
  "put s i p s' \<longleftrightarrow> image_ok s' \<and> im_freeinode s' = im_freeinode s \<and>
     isize (im_sectors s') i = isize (im_sectors s) i + length p \<and>
     d_type (inode_of (im_sectors s') i) = d_type (inode_of (im_sectors s) i) \<and>
     d_nlink (inode_of (im_sectors s') i) = d_nlink (inode_of (im_sectors s) i) \<and>
     file_content (im_sectors s') i = file_content (im_sectors s) i @ p \<and>
     (\<forall>j. j \<noteq> i \<longrightarrow> inode_of (im_sectors s') j = inode_of (im_sectors s) j \<and>
        file_content (im_sectors s') j = file_content (im_sectors s) j) \<and>
     unat (im_freeblock s') + nslots (isize (im_sectors s) i) = unat (im_freeblock s) + nslots (isize (im_sectors s') i) \<and>
     (\<forall>b < nmeta. b < 32 \<or> b = 58 \<longrightarrow> im_sectors s' ! b = im_sectors s ! b)"

lemma iappend_ok:
  assumes ok: "image_ok s" and i: "unat inum < 208"
    and n: "isize (im_sectors s) (unat inum) + length p \<le> MAXFILE * BSIZE"
    and fb: "unat (im_freeblock s) + nslots (isize (im_sectors s) (unat inum) + length p) \<le> 1000 + nslots (isize (im_sectors s) (unat inum))"
  shows "\<exists>s'. iappend inum p s = Ok s' \<and> put s (unat inum) p s'"
proof -
  let ?i = "unat inum" and ?img = "im_sectors s"
  define D where "D = inode_of ?img"
  define S where "S = isize ?img"
  have f: "files_ok ?img (unat (im_freeblock s)) D (slots_of S)" and small: "\<And>j. S j \<le> MAXFILE * BSIZE"
    using ok by (auto simp: image_ok_def D_def S_def)
  note l = files_okD(1,2) [OF f]
  have b: "?i div IPB < 26" using i by (simp add: less_mult_imp_div_less)
  have ib: "unat (IBLOCK inum mkfs_sb) = 32 + ?i div IPB"
  proof -
    have "IBLOCK inum mkfs_sb = of_nat (32 + ?i div IPB)" by (simp add: IBLOCK_def mkfs_sb_sel)
    then show ?thesis using b unat_of_nat_u32 [of "32 + ?i div IPB"] by simp
  qed
  have r: "rinode inum s = Ok (D ?i)"
    using b l(1) i by (simp add: rinode_def rsect_inside ib D_def inode_of_def dip_off_def)
  obtain din s1 where lp: "iappend_loop (D ?i) (S ?i) p s = Ok (din, S ?i + length p, s1)"
    and a: "appended s D S ?i p s1 (D(?i := din))"
    using iappend_loop_ok [OF f small, of ?i p] n fb by (auto simp: S_def)
  let ?S = "S(?i := S ?i + length p)" and ?n = "S ?i + length p"
  define di where "di = din\<lparr>d_size := of_nat ?n\<rparr>"
  have f1: "files_ok (im_sectors s1) (unat (im_freeblock s1)) (D(?i := din)) (slots_of ?S)"
    and fi: "im_freeinode s1 = im_freeinode s" and din: "din = (D ?i)\<lparr>d_addrs := d_addrs din\<rparr>"
    and c: "fcont (im_sectors s1) din ?n = fcont ?img (D ?i) (S ?i) @ p"
    and co: "\<And>j. j \<noteq> ?i \<Longrightarrow> fcont (im_sectors s1) (D j) (S j) = fcont ?img (D j) (S j)"
    and fb1: "unat (im_freeblock s1) + nslots (S ?i) = unat (im_freeblock s) + nslots ?n"
    and low: "\<And>b. b < nmeta \<Longrightarrow> im_sectors s1 ! b = ?img ! b"
    using a by (simp_all add: appended_def)
  note l1 = files_okD(1,2) [OF f1]
  have "length (d_addrs di) = 13" using files_okD(5) [OF f1, of ?i] by (simp add: di_def)
  from winode_ok [OF l1 i this] obtain v where w: "winode inum di s1 = Ok (s1\<lparr>im_sectors := (im_sectors s1)[32 + ?i div IPB := v]\<rparr>)"
    and v: "length v = BSIZE"
    and ino: "\<And>j. inode_of ((im_sectors s1)[32 + ?i div IPB := v]) j = (if j = ?i then di else inode_of (im_sectors s1) j)"
    by blast
  let ?s = "s1\<lparr>im_sectors := (im_sectors s1)[32 + ?i div IPB := v]\<rparr>"
  have same1: "inode_of (im_sectors s1) j = D j" for j
    using low less_mult_imp_div_less [of j 26 8] by (simp add: D_def inode_of_def mkfs_consts)
  have ino': "inode_of ((im_sectors s1)[32 + ?i div IPB := v]) j = (if j = ?i then di else D j)" for j
    using ino same1 by simp
  have dn: "unat (of_nat ?n :: u32) = ?n" using n by (intro unat_of_nat_u32) (simp add: S_def)
  have size: "isize (im_sectors ?s) = ?S"
    by (rule ext) (use dn in \<open>simp add: isize_def ino' di_def S_def D_def [symmetric]\<close>)
  have high: "im_sectors ?s ! c = im_sectors s1 ! c" if "59 \<le> c" for c
    using that b by simp
  have addrs: "d_addrs (inode_of (im_sectors ?s) j) = d_addrs ((D(?i := din)) j)" for j
    by (simp add: ino' di_def)
  have "files_ok (im_sectors ?s) (unat (im_freeblock ?s)) (inode_of (im_sectors ?s)) (slots_of ?S)"
    using files_ok_cong [OF f1 addrs high] l1 v b by (auto simp: nth_list_update)
  then have ok': "image_ok ?s"
    unfolding image_ok_def size using small n by (auto simp: S_def)
  have cont: "file_content (im_sectors ?s) j = fcont (im_sectors s1) ((D(?i := din)) j) (?S j)" for j
    unfolding file_content_def size by (rule fcont_cong [OF f1 addrs high order_refl])
  have "put s ?i p ?s"
    unfolding put_def
  proof (intro conjI allI impI)
    show "file_content (im_sectors ?s) ?i = file_content ?img ?i @ p"
      using cont [of ?i] c by (simp add: file_content_def D_def S_def)
    show "file_content (im_sectors ?s) j = file_content ?img j" if "j \<noteq> ?i" for j
      using cont [of j] co [OF that] that by (simp add: file_content_def D_def S_def)
    show "unat (im_freeblock ?s) + nslots (isize ?img ?i) = unat (im_freeblock s) + nslots (isize (im_sectors ?s) ?i)"
      using fb1 unfolding size by (simp add: S_def)
    show "isize (im_sectors ?s) ?i = isize ?img ?i + length p" unfolding size by (simp add: S_def)
    show "d_type (inode_of (im_sectors ?s) ?i) = d_type (inode_of ?img ?i)"
      "d_nlink (inode_of (im_sectors ?s) ?i) = d_nlink (inode_of ?img ?i)"
      using din by (simp_all add: ino' di_def D_def) (metis dinode.select_convs(1,4) dinode.surjective dinode.update_convs(6))+
    show "im_sectors ?s ! c = ?img ! c" if "c < nmeta" "c < 32 \<or> c = 58" for c
      using that b low by auto
  qed (use ok' fi ino' in \<open>simp_all add: D_def\<close>)
  moreover have "iappend inum p s = Ok ?s"
    using r lp w by (simp add: iappend_def S_def D_def isize_def di_def)
  ultimately show ?thesis by blast
qed

end
