(* ===== verification/Mkfs_Image.thy ===== *)
theory Mkfs_Image
  imports Mkfs
begin

text \<open>
  What the kernel finds on an image made by \<open>mkfs\<close>: the superblock, the root directory with one entry
  for each file, the files with their content, and a bitmap that agrees with the blocks in use.
\<close>

section \<open>Inodes, pieces and the bitmap\<close>

lemma mk_ialloc_ok:
  assumes ok: "image_ok s" and i: "unat (im_freeinode s) < 208" and z: "inode_of (im_sectors s) (unat (im_freeinode s)) = zero_dinode"
  shows "\<exists>s'. mk_ialloc ty s = Ok (im_freeinode s, s') \<and> image_ok s' \<and> im_freeinode s' = im_freeinode s + 1 \<and>
    im_freeblock s' = im_freeblock s \<and>
    (\<forall>j. inode_of (im_sectors s') j =
      (if j = unat (im_freeinode s) then zero_dinode\<lparr>d_type := ty, d_nlink := 1\<rparr> else inode_of (im_sectors s) j)) \<and>
    (\<forall>j. file_content (im_sectors s') j = file_content (im_sectors s) j) \<and>
    (\<forall>b < nmeta. b < 32 \<or> b = 58 \<longrightarrow> im_sectors s' ! b = im_sectors s ! b)"
proof -
  let ?i = "unat (im_freeinode s)" and ?img = "im_sectors s"
  let ?di = "zero_dinode\<lparr>d_type := ty, d_nlink := 1\<rparr>"
  have f: "files_ok ?img (unat (im_freeblock s)) (inode_of ?img) (slots_of (isize ?img))" using ok by (simp add: image_ok_def)
  note l = files_okD(1,2) [OF f]
  have "length (d_addrs ?di) = 13" by (simp add: zero_dinode_def)
  then obtain v where
    w: "winode (im_freeinode s) ?di (s\<lparr>im_freeinode := im_freeinode s + 1\<rparr>) =
      Ok (s\<lparr>im_freeinode := im_freeinode s + 1, im_sectors := ?img[32 + ?i div IPB := v]\<rparr>)" and v: "length v = BSIZE"
    and ino: "\<And>j. inode_of (?img[32 + ?i div IPB := v]) j = (if j = ?i then ?di else inode_of ?img j)"
    using winode_ok [of "s\<lparr>im_freeinode := im_freeinode s + 1\<rparr>" "im_freeinode s" ?di] l i by auto
  let ?s = "s\<lparr>im_freeinode := im_freeinode s + 1, im_sectors := ?img[32 + ?i div IPB := v]\<rparr>"
  have b: "?i div IPB < 26" using i by (simp add: less_mult_imp_div_less)
  have addrs: "d_addrs (inode_of (im_sectors ?s) j) = d_addrs (inode_of ?img j)" for j
    using ino z by (simp add: zero_dinode_def)
  have size: "isize (im_sectors ?s) = isize ?img"
    by (rule ext) (use ino z in \<open>simp add: isize_def zero_dinode_def\<close>)
  have high: "im_sectors ?s ! c = ?img ! c" if "59 \<le> c" for c using that b by simp
  have "files_ok (im_sectors ?s) (unat (im_freeblock ?s)) (inode_of (im_sectors ?s)) (slots_of (isize ?img))"
    using files_ok_cong [OF f addrs high] l v b by (auto simp: nth_list_update)
  then have "image_ok ?s" using ok unfolding image_ok_def size by simp
  moreover have "file_content (im_sectors ?s) j = file_content ?img j" for j
    unfolding file_content_def size by (rule fcont_cong [OF f addrs high order_refl])
  moreover have "mk_ialloc ty s = Ok (im_freeinode s, ?s)"
  proof -
    have "zero_dinode\<lparr>d_type := ty, d_nlink := 1, d_size := 0\<rparr> = ?di" by (simp add: zero_dinode_def)
    then show ?thesis
      using w by (simp add: mk_ialloc_def Let_def)
  qed
  moreover have "\<forall>b < nmeta. b < 32 \<or> b = 58 \<longrightarrow> im_sectors ?s ! b = ?img ! b" using b by auto
  ultimately show ?thesis using ino by (intro exI [of _ ?s]) simp
qed

lemma put_trans:
  assumes "put s i p s'" "put s' i q s''"
  shows "put s i (p @ q) s''"
  using assms unfolding put_def by auto

lemma put_refl: "image_ok s \<Longrightarrow> put s i [] s"
  by (simp add: put_def)

lemma iappend_pieces_ok:
  assumes "image_ok s" "unat inum < 208"
    and "isize (im_sectors s) (unat inum) + length (concat ps) \<le> MAXFILE * BSIZE"
    and "unat (im_freeblock s) + nslots (isize (im_sectors s) (unat inum) + length (concat ps)) \<le> 1000 + nslots (isize (im_sectors s) (unat inum))"
  shows "\<exists>s'. for_each (iappend inum) ps s = Ok s' \<and> put s (unat inum) (concat ps) s'"
  using assms
proof (induction ps arbitrary: s)
  case Nil
  then show ?case by (simp add: put_refl)
next
  case (Cons p ps)
  let ?n = "isize (im_sectors s) (unat inum)"
  have "nslots (?n + length p) \<le> nslots (?n + length (concat (p # ps)))" by (rule nslots_mono) simp
  then obtain s1 where s1: "iappend inum p s = Ok s1" "put s (unat inum) p s1"
    using iappend_ok [OF Cons.prems(1,2), of p] Cons.prems(3,4) by auto
  then obtain s2 where "for_each (iappend inum) ps s1 = Ok s2" "put s1 (unat inum) (concat ps) s2"
    using Cons.IH [of s1] Cons.prems by (auto simp: put_def add.assoc)
  then show ?case using s1 put_trans by fastforce
qed

definition set_bits :: "nat \<Rightarrow> u8 list" where
  "set_bits n = foldl (\<lambda>buf i. buf[i div 8 := buf ! (i div 8) OR bit_mask i]) zeroes [0..<n]"

lemma set_bits_Suc: "set_bits (Suc n) = (set_bits n)[n div 8 := set_bits n ! (n div 8) OR bit_mask n]"
  by (simp add: set_bits_def)

lemma set_bits_ok: "n \<le> 4096 \<Longrightarrow> length (set_bits n) = BSIZE \<and> (\<forall>b < 4096. bm_free (set_bits n) b \<longleftrightarrow> n \<le> b)"
proof (induction n)
  case 0
  then show ?case by (auto simp: set_bits_def bm_free_def less_mult_imp_div_less)
next
  case (Suc n)
  then have "n div 8 < length (set_bits n)" by (simp add: less_mult_imp_div_less)
  from bm_free_set [OF this] show ?case using Suc unfolding set_bits_Suc by auto
qed


section \<open>The files\<close>

definition entry :: "nat \<Rightarrow> u8 list \<Rightarrow> u8 list" where
  "entry k name = dirent (of_nat (k + 2)) (skip_underscore name)"

definition root_entries :: "u8 list list \<Rightarrow> u8 list" where
  "root_entries names = dirent 1 [46] @ dirent 1 [46, 46] @ concat (map (\<lambda>k. entry k (names ! k)) [0..<length names])"

definition blocks_needed :: "(u8 list \<times> u8 list) list \<Rightarrow> nat" where
  "blocks_needed fs = nslots (32 + 16 * length fs) + (\<Sum>f \<leftarrow> fs. nslots (length (snd f)))"

text \<open>The image with the files \<open>fs\<close>, names and contents, on it.\<close>

definition image_holds :: "image \<Rightarrow> (u8 list \<times> u8 list) list \<Rightarrow> bool" where
  "image_holds s fs \<longleftrightarrow> image_ok s \<and> im_freeinode s = of_nat (2 + length fs) \<and>
     (\<forall>j \<ge> 2 + length fs. inode_of (im_sectors s) j = zero_dinode) \<and>
     d_type (inode_of (im_sectors s) 1) = T_DIR \<and> d_nlink (inode_of (im_sectors s) 1) = 1 \<and>
     file_content (im_sectors s) 1 = root_entries (map fst fs) \<and>
     (\<forall>k < length fs. d_type (inode_of (im_sectors s) (k + 2)) = T_FILE \<and> d_nlink (inode_of (im_sectors s) (k + 2)) = 1 \<and>
        file_content (im_sectors s) (k + 2) = snd (fs ! k)) \<and>
     unat (im_freeblock s) = nmeta + blocks_needed fs \<and>
     im_sectors s ! 1 = splice zeroes 0 (sb_bytes mkfs_sb) \<and> im_sectors s ! 2 = zeroes"

lemma length_dirent [simp]: "length (dirent inum name) = 16"
  by (simp add: dirent_def)

lemma length_root_entries [simp]: "length (root_entries names) = 32 + 16 * length names"
proof -
  have "length (concat (map (\<lambda>k. entry k (names ! k)) ks)) = 16 * length ks" for ks
    by (induction ks) (simp_all add: entry_def)
  then show ?thesis by (simp add: root_entries_def)
qed

lemma length_file_content [simp]: "length (file_content img i) = isize img i"
  by (simp add: file_content_def fcont_def)

lemma root_entries_snoc: "root_entries (names @ [n]) = root_entries names @ entry (length names) n"
proof -
  have m: "map (\<lambda>k. entry k ((names @ [n]) ! k)) [0..<length names] = map (\<lambda>k. entry k (names ! k)) [0..<length names]"
    by (rule map_cong) (simp_all add: nth_append)
  have "[0..<length (names @ [n])] = [0..<length names] @ [length names]" by simp
  then show ?thesis unfolding root_entries_def by (simp only: map_append m) simp
qed

lemma root_size:
  assumes "image_holds s fs"
  shows "isize (im_sectors s) 1 = 32 + 16 * length fs"
proof -
  have "file_content (im_sectors s) 1 = root_entries (map fst fs)" using assms unfolding image_holds_def by blast
  from arg_cong [OF this, of length] show ?thesis by simp
qed

lemma mk_file_ok:
  assumes h: "image_holds s fs" and n: "slash \<notin> set name" "length fs < 206" "length (concat ps) \<le> MAXFILE * BSIZE"
    and fb: "nmeta + blocks_needed (fs @ [(name, concat ps)]) \<le> 1000"
  shows "\<exists>s'. mk_file 1 (name, Some ps) s = Ok s' \<and> image_holds s' (fs @ [(name, concat ps)])"
proof -
  let ?i = "2 + length fs"
  have ui: "unat (im_freeinode s) = ?i" using h n(2) by (simp add: image_holds_def unat_of_nat_u32 del: of_nat_add of_nat_Suc)
  have ok: "image_ok s" using h by (simp add: image_holds_def)
  have r0: "isize (im_sectors s) 1 = 32 + 16 * length fs" by (rule root_size [OF h])
  obtain s1 where a: "mk_ialloc T_FILE s = Ok (im_freeinode s, s1)" and ok1: "image_ok s1"
    and fi1: "im_freeinode s1 = im_freeinode s + 1" and fb1: "im_freeblock s1 = im_freeblock s"
    and ino1: "\<And>j. inode_of (im_sectors s1) j = (if j = ?i then zero_dinode\<lparr>d_type := T_FILE, d_nlink := 1\<rparr> else inode_of (im_sectors s) j)"
    and fc1: "\<And>j. file_content (im_sectors s1) j = file_content (im_sectors s) j"
    and low1: "\<forall>b < nmeta. b < 32 \<or> b = 58 \<longrightarrow> im_sectors s1 ! b = im_sectors s ! b"
    using mk_ialloc_ok [OF ok, of T_FILE] ui h n(2) by (auto simp: image_holds_def)
  have r1: "isize (im_sectors s1) 1 = 32 + 16 * length fs" using ino1 r0 by (simp add: isize_def)
  let ?e = "dirent (im_freeinode s) (skip_underscore name)"
  have tot: "nmeta + nslots (32 + 16 * length fs + 16) + (\<Sum>f \<leftarrow> fs. nslots (length (snd f))) + nslots (length (concat ps)) \<le> 1000"
    using fb by (simp add: blocks_needed_def)
  have fbs: "unat (im_freeblock s) = nmeta + nslots (32 + 16 * length fs) + (\<Sum>f \<leftarrow> fs. nslots (length (snd f)))"
    using h by (simp add: image_holds_def blocks_needed_def)
  obtain s2 where b: "iappend 1 ?e s1 = Ok s2" and p2: "put s1 1 ?e s2"
    using iappend_ok [OF ok1, of 1 ?e] r1 n(2) tot fbs fb1 by auto
  have r2: "isize (im_sectors s2) 1 = 32 + 16 * length fs + 16" using p2 r1 by (simp add: put_def)
  have i2: "inode_of (im_sectors s2) ?i = zero_dinode\<lparr>d_type := T_FILE, d_nlink := 1\<rparr>"
    using p2 ino1 by (simp add: put_def)
  then have z2: "isize (im_sectors s2) ?i = 0" by (simp add: isize_def zero_dinode_def)
  have fb2: "unat (im_freeblock s2) = nmeta + nslots (32 + 16 * length fs + 16) + (\<Sum>f \<leftarrow> fs. nslots (length (snd f)))"
    using p2 r1 r2 fb1 fbs by (simp add: put_def)
  have ns0: "nslots 0 = 0" by (simp add: nslots_def nblk_def)
  obtain s3 where c: "for_each (iappend (im_freeinode s)) ps s2 = Ok s3" and p3: "put s2 ?i (concat ps) s3"
    using iappend_pieces_ok [of s2 "im_freeinode s" ps] p2 n z2 ns0 tot fb2 unfolding ui by (auto simp: put_def)
  have "mk_file 1 (name, Some ps) s = Ok s3"
    using n(1) a b c by (simp add: mk_file_def)
  moreover have "image_holds s3 (fs @ [(name, concat ps)])"
    unfolding image_holds_def
  proof (intro conjI allI impI)
    show "im_freeinode s3 = of_nat (2 + length (fs @ [(name, concat ps)]))"
      using p2 p3 fi1 h by (simp add: put_def image_holds_def)
    show "inode_of (im_sectors s3) j = zero_dinode" if "2 + length (fs @ [(name, concat ps)]) \<le> j" for j
      using that p2 p3 ino1 h by (simp add: put_def image_holds_def)
    have fi: "im_freeinode s = of_nat (length fs + 2)" using h by (simp add: image_holds_def add.commute)
    show "file_content (im_sectors s3) 1 = root_entries (map fst (fs @ [(name, concat ps)]))"
      using p2 p3 fc1 h by (simp add: put_def image_holds_def root_entries_snoc entry_def fi del: of_nat_add)
    show "unat (im_freeblock s3) = nmeta + blocks_needed (fs @ [(name, concat ps)])"
      using p3 fb2 z2 ns0 by (simp add: put_def blocks_needed_def)
    show "im_sectors s3 ! 1 = splice zeroes 0 (sb_bytes mkfs_sb)" "im_sectors s3 ! 2 = zeroes"
      using p2 p3 low1 h by (simp_all add: put_def image_holds_def mkfs_consts)
    fix k
    assume k: "k < length (fs @ [(name, concat ps)])"
    show "d_type (inode_of (im_sectors s3) (k + 2)) = T_FILE"
      using k p2 p3 ino1 i2 h by (cases "k = length fs") (simp_all add: put_def image_holds_def zero_dinode_def)
    show "d_nlink (inode_of (im_sectors s3) (k + 2)) = 1"
      using k p2 p3 ino1 i2 h by (cases "k = length fs") (simp_all add: put_def image_holds_def zero_dinode_def)
    have z: "file_content (im_sectors s2) ?i = []" using z2 length_file_content [of "im_sectors s2" ?i] by (metis length_0_conv)
    show "file_content (im_sectors s3) (k + 2) = snd ((fs @ [(name, concat ps)]) ! k)"
      using k p2 p3 fc1 z h by (cases "k = length fs") (simp_all add: put_def image_holds_def nth_append)
  qed (use p2 p3 ino1 h in \<open>simp_all add: put_def image_holds_def\<close>)
  ultimately show ?thesis by blast
qed


abbreviation (input) readable :: "(u8 list \<times> u8 list list) list \<Rightarrow> (u8 list \<times> u8 list list option) list" where
  "readable files \<equiv> map (\<lambda>f. (fst f, Some (snd f))) files"

abbreviation (input) contents :: "(u8 list \<times> u8 list list) list \<Rightarrow> (u8 list \<times> u8 list) list" where
  "contents files \<equiv> map (\<lambda>f. (fst f, concat (snd f))) files"

text \<open>The files fit: their names are plain, none is too long, and there are blocks and inodes for all.\<close>

definition fits :: "(u8 list \<times> u8 list list) list \<Rightarrow> bool" where
  "fits files \<longleftrightarrow> (\<forall>f \<in> set files. slash \<notin> set (fst f) \<and> length (concat (snd f)) \<le> MAXFILE * BSIZE) \<and>
     length files + 2 \<le> NINODES \<and> nmeta + blocks_needed (contents files) \<le> FSSIZE"

lemma blocks_needed_append: "blocks_needed fs \<le> blocks_needed (fs @ gs)"
  using nslots_mono [of "32 + 16 * length fs" "32 + 16 * length (fs @ gs)"] by (simp add: blocks_needed_def)

lemma mk_files_ok:
  assumes "image_holds s fs" "\<forall>f \<in> set files. slash \<notin> set (fst f) \<and> length (concat (snd f)) \<le> MAXFILE * BSIZE"
    "length fs + length files \<le> 206" "nmeta + blocks_needed (fs @ contents files) \<le> 1000"
  shows "\<exists>s'. for_each (mk_file 1) (readable files) s = Ok s' \<and> image_holds s' (fs @ contents files)"
  using assms
proof (induction files arbitrary: s fs)
  case (Cons f files)
  obtain name ps where f: "f = (name, ps)" by (cases f)
  have "nmeta + blocks_needed (fs @ [(name, concat ps)]) \<le> 1000"
    using Cons.prems(4) blocks_needed_append [of "fs @ [(name, concat ps)]" "contents files"] f by simp
  then obtain s1 where s1: "mk_file 1 (name, Some ps) s = Ok s1" "image_holds s1 (fs @ [(name, concat ps)])"
    using mk_file_ok [OF Cons.prems(1), of name ps] Cons.prems(2,3) f by auto
  then obtain s2 where "for_each (mk_file 1) (readable files) s1 = Ok s2"
    "image_holds s2 (fs @ [(name, concat ps)] @ contents files)"
    using Cons.IH [OF s1(2)] Cons.prems f by auto
  then show ?case using s1(1) f by simp
qed simp

section \<open>The empty image\<close>

lemma blank_eq: "blank = \<lparr>im_sectors = replicate 1000 zeroes, im_freeinode = 1, im_freeblock = 59\<rparr>"
proof -
  have "fold (\<lambda>i. wsect (of_nat i) zeroes) [0..<n] \<lparr>im_sectors = [], im_freeinode = 1, im_freeblock = 59\<rparr> =
      \<lparr>im_sectors = replicate n zeroes, im_freeinode = 1, im_freeblock = 59\<rparr>" if "n \<le> 1000" for n
    using that
  proof (induction n)
    case (Suc n)
    have "sector (of_nat n) = n"
      using Suc.prems sector_small [of "of_nat n"] unat_of_nat_u32 [of n] by simp
    then show ?case using Suc by (simp add: wsect_def replicate_append_same)
  qed simp
  from this [of 1000] show ?thesis by (simp add: blank_def Let_def mkfs_consts)
qed

lemma dinode_zeroes:
  assumes "k + 64 \<le> BSIZE"
  shows "dinode_at zeroes k = zero_dinode"
proof -
  have "map (\<lambda>j. get32 zeroes (k + 12 + 4 * j)) [0..<13] = replicate 13 0"
    by (rule nth_equalityI) (use assms in \<open>simp_all add: get32_zeroes\<close>)
  then show ?thesis using assms by (simp add: dinode_at_def zero_dinode_def get16_def word16_def get32_zeroes)
qed

lemma length_sb_bytes [simp]: "length (sb_bytes b) = 28"
  by (simp add: sb_bytes_def)

abbreviation first_image :: image where "first_image \<equiv> wsect 1 (splice zeroes 0 (sb_bytes mkfs_sb)) blank"

lemma first_image_eq: "first_image = blank\<lparr>im_sectors := (replicate 1000 zeroes)[1 := splice zeroes 0 (sb_bytes mkfs_sb)]\<rparr>"
  by (simp add: wsect_inside blank_eq)

lemma first_image_ok: "image_ok first_image" "inode_of (im_sectors first_image) i = zero_dinode" "isize (im_sectors first_image) i = 0"
proof -
  have ino: "inode_of (im_sectors first_image) i = zero_dinode" for i
    using less_mult_imp_div_less [of i 26 8] by (simp add: inode_of_def first_image_eq dinode_zeroes)
  then have size: "isize (im_sectors first_image) = (\<lambda>_. 0)" by (simp add: isize_def zero_dinode_def fun_eq_iff)
  have none: "slots_of (\<lambda>_. 0) = {}" by (auto simp: slots_of_def slots_def nblk_def)
  have "blk (im_sectors first_image) zero_dinode k = 0" if "k < NDIRECT \<or> k = MAXFILE" for k
    using that by (auto simp: blk_def zero_dinode_def)
  moreover have "length (im_sectors first_image) = 1000" "\<And>b. b < 1000 \<Longrightarrow> length (im_sectors first_image ! b) = BSIZE"
    "\<And>b. 59 \<le> b \<Longrightarrow> b < 1000 \<Longrightarrow> im_sectors first_image ! b = zeroes" "length (d_addrs zero_dinode) = 13"
    by (auto simp: first_image_eq nth_list_update zero_dinode_def)
  ultimately have "files_ok (im_sectors first_image) 59 (inode_of (im_sectors first_image)) {}"
    by (auto simp: files_ok_def ino mkfs_consts)
  moreover have "im_freeblock first_image = 59" unfolding first_image_eq by (simp add: blank_eq)
  ultimately show "image_ok first_image" by (simp add: image_ok_def size none)
  show "inode_of (im_sectors first_image) i = zero_dinode" "isize (im_sectors first_image) i = 0"
    using ino size by simp_all
qed

lemma sb_roundtrip: "length d = BSIZE \<Longrightarrow> sb_of_bytes (splice d 0 (sb_bytes b)) = b"
  by (simp add: sb_of_bytes_def sb_bytes_def bytes32_def get32_def splice_def)


lemma root_ok:
  "\<exists>s1 s2 s3. mk_ialloc T_DIR first_image = Ok (1, s1) \<and> iappend 1 (dirent 1 [46]) s1 = Ok s2 \<and>
     iappend 1 (dirent 1 [46, 46]) s2 = Ok s3 \<and> image_holds s3 []"
proof -
  have fi: "im_freeinode first_image = 1" "im_freeblock first_image = 59" "im_sectors first_image ! 1 = splice zeroes 0 (sb_bytes mkfs_sb)"
    "im_sectors first_image ! 2 = zeroes"
    unfolding first_image_eq by (simp_all add: blank_eq)
  obtain s1 where a: "mk_ialloc T_DIR first_image = Ok (1, s1)" "image_ok s1" "im_freeinode s1 = 2" "im_freeblock s1 = 59"
    and ino: "\<And>j. inode_of (im_sectors s1) j = (if j = 1 then zero_dinode\<lparr>d_type := T_DIR, d_nlink := 1\<rparr> else zero_dinode)"
    and low: "im_sectors s1 ! 1 = splice zeroes 0 (sb_bytes mkfs_sb)" "im_sectors s1 ! 2 = zeroes"
    using mk_ialloc_ok [of first_image T_DIR] first_image_ok fi by (auto simp: mkfs_consts)
  have z: "isize (im_sectors s1) 1 = 0" by (simp add: isize_def ino zero_dinode_def)
  have c0: "file_content (im_sectors s1) 1 = []" using z length_file_content [of "im_sectors s1" 1] by (metis length_0_conv)
  have ns: "nslots 0 = 0" "nslots 16 = 1" "nslots 32 = 1" by (simp_all add: nslots_def nblk_def)
  obtain s2 where b: "iappend 1 (dirent 1 [46]) s1 = Ok s2" "put s1 1 (dirent 1 [46]) s2"
    using iappend_ok [OF a(2), of 1 "dirent 1 [46]"] z a(4) ns by auto
  then have b2: "image_ok s2" "isize (im_sectors s2) 1 = 16" "unat (im_freeblock s2) = 60" using z a(4) ns by (auto simp: put_def)
  obtain s3 where c: "iappend 1 (dirent 1 [46, 46]) s2 = Ok s3" "put s2 1 (dirent 1 [46, 46]) s3"
    using iappend_ok [OF b2(1), of 1 "dirent 1 [46, 46]"] b2 ns by auto
  have "image_holds s3 []"
    using b(2) c(2) b2 a ino low c0 ns
    by (auto simp: image_holds_def put_def blocks_needed_def root_entries_def zero_dinode_def mkfs_consts)
  then show ?thesis using a(1) b(1) c(1) by blast
qed

lemma fix_root_ok:
  assumes h: "image_holds s fs" and n: "length fs \<le> 206"
  shows "\<exists>s'. fix_root 1 s = Ok s' \<and> im_freeblock s' = im_freeblock s \<and> length (im_sectors s') = 1000 \<and>
    (\<forall>b. b < 32 \<or> 58 \<le> b \<longrightarrow> im_sectors s' ! b = im_sectors s ! b) \<and> (\<forall>b < 1000. length (im_sectors s' ! b) = BSIZE) \<and>
    (\<forall>j. inode_of (im_sectors s') j = (if j = 1 then (inode_of (im_sectors s) 1)
       \<lparr>d_size := of_nat (((32 + 16 * length fs) div BSIZE + 1) * BSIZE)\<rparr> else inode_of (im_sectors s) j))"
proof -
  let ?img = "im_sectors s" and ?n = "32 + 16 * length fs"
  have f: "files_ok ?img (unat (im_freeblock s)) (inode_of ?img) (slots_of (isize ?img))"
    using h unfolding image_holds_def image_ok_def by blast
  note l = files_okD(1,2) [OF f]
  have "isize ?img 1 = ?n" by (rule root_size [OF h])
  then have sz: "d_size (inode_of ?img 1) = of_nat ?n" by (metis isize_def of_nat_unat_u32)
  let ?di = "(inode_of ?img 1)\<lparr>d_size := of_nat ((?n div BSIZE + 1) * BSIZE)\<rparr>"
  have "length (d_addrs ?di) = 13" using files_okD(5) [OF f, of 1] by simp
  then obtain v where w: "winode 1 ?di s = Ok (s\<lparr>im_sectors := ?img[32 := v]\<rparr>)" "length v = BSIZE"
    and ino: "\<And>j. inode_of (?img[32 := v]) j = (if j = 1 then ?di else inode_of ?img j)"
    using winode_ok [of s 1 ?di] l by auto
  have r: "rinode 1 s = Ok (inode_of ?img 1)"
    using l(1) by (simp add: rinode_def rsect_inside IBLOCK_def mkfs_sb_sel dip_off_def inode_of_def)
  have "(of_nat ?n div of_nat BSIZE + 1) * of_nat BSIZE = (of_nat ((?n div BSIZE + 1) * BSIZE) :: u32)"
  proof -
    have "(of_nat ?n :: u32) div of_nat BSIZE = of_nat (?n div BSIZE)"
      using n unat_of_nat_u32 [of ?n] by (simp add: word_unat_eq_iff unat_div unat_of_nat_u32 del: of_nat_add of_nat_mult)
    then show ?thesis by simp
  qed
  then have "fix_root 1 s = Ok (s\<lparr>im_sectors := ?img[32 := v]\<rparr>)"
    using w(1) r sz by (simp add: fix_root_def Let_def del: of_nat_add of_nat_mult)
  then show ?thesis using ino w(2) l by (intro exI [of _ "s\<lparr>im_sectors := ?img[32 := v]\<rparr>"]) (auto simp: nth_list_update)
qed


section \<open>The finished image\<close>

text \<open>
  What the image of \<open>files\<close> is: \<open>n\<close> is the size of the entries of the root directory.  The size in the inode of
  the root directory is rounded up beyond \<open>n\<close>, so its blocks are those of the first \<open>n\<close> bytes.
\<close>

definition image_of :: "(u8 list \<times> u8 list list) list \<Rightarrow> image \<Rightarrow> bool" where
  "image_of files s \<longleftrightarrow> (let img = im_sectors s; fb = unat (im_freeblock s); n = 32 + 16 * length files in
     sb_of_bytes (img ! 1) = mkfs_sb \<and> img ! 2 = zeroes \<and>
     d_type (inode_of img 1) = T_DIR \<and> d_nlink (inode_of img 1) = 1 \<and>
     d_size (inode_of img 1) = of_nat ((n div BSIZE + 1) * BSIZE) \<and>
     fcont img (inode_of img 1) n = root_entries (map fst files) \<and>
     (\<forall>k < length files. d_type (inode_of img (k + 2)) = T_FILE \<and> d_nlink (inode_of img (k + 2)) = 1 \<and>
        file_content img (k + 2) = concat (snd (files ! k))) \<and>
     files_ok img fb (inode_of img) (slots_of ((isize img)(1 := n))) \<and>
     fb = nmeta + blocks_needed (contents files) \<and>
     (\<forall>b < FSSIZE. bm_free (img ! 58) b \<longleftrightarrow> fb \<le> b))"

lemma mk_balloc_ok:
  assumes "unat used \<le> 1000" "length (im_sectors s) = 1000"
  shows "mk_balloc used s = Ok (s\<lparr>im_sectors := (im_sectors s)[58 := set_bits (unat used)]\<rparr>)"
proof -
  have s: "sint used = int (unat used)" using assms(1) by (intro sint_u32_small) simp
  then have "sint used < 4096" "nat (sint used) = unat used" using assms(1) by linarith+
  then show ?thesis using assms by (simp add: mk_balloc_def wsect_inside mkfs_sb_sel set_bits_def)
qed

lemma mkfs_ok:
  assumes "fits files"
  shows "\<exists>s. mkfs (readable files) = Ok s \<and> image_of files s"
proof -
  have n: "length files + 2 \<le> 200" and need: "nmeta + blocks_needed (contents files) \<le> 1000"
    using assms by (simp_all add: fits_def mkfs_consts)
  obtain s1 s2 s3 where r: "mk_ialloc T_DIR first_image = Ok (1, s1)" "iappend 1 (dirent 1 [46]) s1 = Ok s2"
    "iappend 1 (dirent 1 [46, 46]) s2 = Ok s3" and h3: "image_holds s3 []" using root_ok by blast
  obtain s4 where w: "for_each (mk_file 1) (readable files) s3 = Ok s4" and h: "image_holds s4 (contents files)"
    using mk_files_ok [OF h3, of files] assms n need by (auto simp: fits_def)
  have n': "length (contents files) \<le> 206" using n by simp
  obtain s5 where x: "fix_root 1 s4 = Ok s5" "im_freeblock s5 = im_freeblock s4" "length (im_sectors s5) = 1000"
    and low: "\<forall>b. b < 32 \<or> 58 \<le> b \<longrightarrow> im_sectors s5 ! b = im_sectors s4 ! b"
    and len: "\<forall>b < 1000. length (im_sectors s5 ! b) = BSIZE"
    and ino: "\<forall>j. inode_of (im_sectors s5) j = (if j = 1 then (inode_of (im_sectors s4) 1)
       \<lparr>d_size := of_nat (((32 + 16 * length files) div BSIZE + 1) * BSIZE)\<rparr> else inode_of (im_sectors s4) j)"
    using fix_root_ok [OF h n'] unfolding length_map by blast
  have fb: "unat (im_freeblock s4) = nmeta + blocks_needed (contents files)" using h unfolding image_holds_def by blast
  let ?s = "s5\<lparr>im_sectors := (im_sectors s5)[58 := set_bits (unat (im_freeblock s5))]\<rparr>"
  let ?img = "(im_sectors s5)[58 := set_bits (unat (im_freeblock s5))]" and ?n = "32 + 16 * length files"
  have b: "mk_balloc (im_freeblock s5) s5 = Ok ?s" by (rule mk_balloc_ok) (use fb need x in simp_all)
  have "mkfs (readable files) = Ok ?s"
    using r w x(1) b by (simp add: mkfs_def Let_def)
  moreover have "image_of files ?s"
  proof -
    have f: "files_ok (im_sectors s4) (unat (im_freeblock s4)) (inode_of (im_sectors s4)) (slots_of (isize (im_sectors s4)))"
      using h unfolding image_holds_def image_ok_def by blast
    have sb: "set_bits (unat (im_freeblock s5)) = set_bits (unat (im_freeblock s4))" using x(2) by simp
    have bits: "length (set_bits (unat (im_freeblock s4))) = BSIZE"
      "\<And>b. b < 4096 \<Longrightarrow> bm_free (set_bits (unat (im_freeblock s4))) b \<longleftrightarrow> unat (im_freeblock s4) \<le> b"
      using set_bits_ok [of "unat (im_freeblock s4)"] fb need by auto
    have ino': "inode_of ?img j = inode_of (im_sectors s5) j" for j
      using less_mult_imp_div_less [of j 26 8] by (simp add: inode_of_def)
    have addrs: "d_addrs (inode_of ?img j) = d_addrs (inode_of (im_sectors s4) j)" for j by (simp add: ino' ino)
    have high: "?img ! c = im_sectors s4 ! c" if "59 \<le> c" for c using low that by simp
    have size: "(isize ?img)(1 := ?n) = isize (im_sectors s4)"
      by (rule ext) (use root_size [OF h] in \<open>simp add: isize_def ino' ino\<close>)
    have "files_ok ?img (unat (im_freeblock s4)) (inode_of ?img) (slots_of (isize (im_sectors s4)))"
      by (rule files_ok_cong [OF f addrs high]) (use x(3) len bits(1) sb in \<open>auto simp: nth_list_update\<close>)
    moreover have fc: "fcont ?img (inode_of ?img j) (isize (im_sectors s4) j) = file_content (im_sectors s4) j" for j
      unfolding file_content_def by (rule fcont_cong [OF f addrs high order_refl])
    have c1: "fcont ?img (inode_of ?img 1) ?n = file_content (im_sectors s4) 1"
      using fc [of 1] unfolding root_size [OF h] length_map .
    have c2: "file_content ?img j = file_content (im_sectors s4) j" if "j \<noteq> 1" for j
      using fc [of j] that by (simp add: file_content_def isize_def ino' ino)
    have h1: "file_content (im_sectors s4) 1 = root_entries (map fst (contents files))"
      "d_type (inode_of (im_sectors s4) 1) = T_DIR" "d_nlink (inode_of (im_sectors s4) 1) = 1"
      "im_sectors s4 ! 1 = splice zeroes 0 (sb_bytes mkfs_sb)" "im_sectors s4 ! 2 = zeroes"
      using h unfolding image_holds_def by blast+
    have hk: "d_type (inode_of (im_sectors s4) (k + 2)) = T_FILE \<and> d_nlink (inode_of (im_sectors s4) (k + 2)) = 1 \<and>
        file_content (im_sectors s4) (k + 2) = concat (snd (files ! k))" if "k < length files" for k
      using h that unfolding image_holds_def by simp
    have "sb_of_bytes (?img ! 1) = mkfs_sb" "?img ! 2 = zeroes" using h1(4,5) low sb_roundtrip by simp_all
    moreover have "\<forall>b < FSSIZE. bm_free (?img ! 58) b \<longleftrightarrow> unat (im_freeblock s4) \<le> b"
      using bits(2) x(3) sb by (simp add: mkfs_consts)
    moreover have "\<forall>k < length files. d_type (inode_of ?img (k + 2)) = T_FILE \<and> d_nlink (inode_of ?img (k + 2)) = 1 \<and>
        file_content ?img (k + 2) = concat (snd (files ! k))"
      using hk c2 by (simp add: ino' ino)
    moreover have i1: "inode_of ?img 1 = (inode_of (im_sectors s4) 1)\<lparr>d_size := of_nat ((?n div BSIZE + 1) * BSIZE)\<rparr>"
      by (simp only: ino' ino if_True simp_thms)
    then have "d_type (inode_of ?img 1) = T_DIR" "d_nlink (inode_of ?img 1) = 1"
      "d_size (inode_of ?img 1) = of_nat ((?n div BSIZE + 1) * BSIZE)"
      unfolding i1 using h1 by (simp_all del: of_nat_add of_nat_mult One_nat_def)
    moreover have "fcont ?img (inode_of ?img 1) ?n = root_entries (map fst files)"
      using c1 h1(1) by (simp only: map_map o_def fst_conv)
    moreover have e: "im_sectors ?s = ?img" "unat (im_freeblock ?s) = unat (im_freeblock s4)" using x(2) by simp_all
    ultimately show ?thesis
      unfolding image_of_def Let_def e size using fb by (intro conjI) assumption+
  qed
  ultimately show ?thesis by blast
qed


text \<open>C12: for files that fit, \<open>mkfs\<close> succeeds, and the image holds what the kernel expects: the superblock it
  reads back, the root directory with an entry for each file, each file in an inode of its own with
  exactly its bytes, no block shared between two files or with the meta data, and a bitmap in which
  exactly the blocks up to the first free one are marked.\<close>

theorem mkfs_makes_image:
  assumes "fits files"
  shows "\<exists>s. mkfs (map (\<lambda>f. (fst f, Some (snd f))) files) = Ok s \<and> image_of files s"
  using assms by (rule mkfs_ok)

text \<open>A file in two pieces, whose underscore is dropped, and an empty one.\<close>

theorem mkfs_makes_image_witness:
  "\<exists>s. mkfs [([95, 97], Some [[1, 2], [3]]), ([98], Some [])] = Ok s \<and>
     image_of [([95, 97], [[1, 2], [3]]), ([98], [])] s"
proof -
  have "fits [([95, 97], [[1, 2], [3]]), ([98], [])]"
    by (simp add: fits_def blocks_needed_def nslots_def nblk_def mkfs_consts)
  from mkfs_makes_image [OF this] show ?thesis by simp
qed

section \<open>Where the image is wrong\<close>

text \<open>
  When the entries fill the last block of the root directory exactly, the size the program gives it covers a
  block that it does not have.
\<close>

lemma mkfs_root_hole:
  assumes "fits files" "length files = 30"
  shows "\<exists>s. mkfs (map (\<lambda>f. (fst f, Some (snd f))) files) = Ok s \<and> isize (im_sectors s) 1 = 1024 \<and>
    blk (im_sectors s) (inode_of (im_sectors s) 1) 1 = 0"
proof -
  obtain s where s: "mkfs (readable files) = Ok s" "image_of files s" using mkfs_ok [OF assms(1)] by blast
  let ?img = "im_sectors s"
  have n: "32 + 16 * length files = 512" using assms(2) by simp
  have f: "files_ok ?img (unat (im_freeblock s)) (inode_of ?img) (slots_of ((isize ?img)(1 := 512)))"
    and z: "d_size (inode_of ?img 1) = of_nat ((512 div BSIZE + 1) * BSIZE)"
    using s(2) unfolding image_of_def Let_def n by blast+
  have "(1, 1) \<notin> slots_of ((isize ?img)(1 := 512))" by (simp add: slots_def nblk_def)
  then have "blk ?img (inode_of ?img 1) 1 = 0" using files_okD(11) [OF f] by simp
  moreover have "isize ?img 1 = 1024" using z by (simp add: isize_def)
  ultimately show ?thesis using s(1) by blast
qed

text \<open>The inode blocks hold 208 inodes; the program does not notice when it runs into the bitmap.\<close>

lemma inode_in_bitmap: "IBLOCK 208 mkfs_sb = sb_bmapstart mkfs_sb"
  by (simp add: IBLOCK_def mkfs_sb_sel)

end
