(* ===== verification/Boot_Disk.thy ===== *)
theory Boot_Disk
  imports Mkfs_Image Fs_Content Fs_Names Proc
begin

text \<open>
  From the image builder to the running kernel: a machine that starts on a disk made by \<open>mkfs.c\<close>
  reads its superblock and recovers its log (\<open>forkret\<close>, which calls \<open>iinit\<close> of \<open>fs.c\<close> and
  \<open>initlog\<close> of \<open>log.c\<close>), finds each file by its name in the root directory (\<open>namei\<close>) and reads its
  bytes (\<open>ilock\<close>, \<open>readi\<close>).
\<close>

section \<open>The file system on an image\<close>

text \<open>No buffer is held, and every block but the log's header is that of the image.\<close>

definition mounted :: "u8 list list \<Rightarrow> 'b fsys_scheme \<Rightarrow> bool" where
  "mounted img s \<longleftrightarrow> calm s \<and> sb s = mkfs_sb \<and> length (a_disk (fabs s)) = 1000 \<and>
     (\<forall>n. unat n < 1000 \<and> n \<noteq> 2 \<longrightarrow> fview s n = img ! unat n)"

lemma mounted_only_cached: "only_cached s s' \<Longrightarrow> mounted img s \<Longrightarrow> mounted img s'"
  using only_cached_sel [of s s'] only_cached_calm [of s s'] by (simp add: mounted_def)

lemma calm_same: "lg s' = lg s \<Longrightarrow> calm s' = calm s"
  by (simp add: calm_def)

lemma mounted_upd [simp]:
  "mounted img (upd_ino ip f s) = mounted img s" "mounted img (fwakeup ch s) = mounted img s"
  "mounted img (irelease ip s) = mounted img s"
  by (simp_all add: mounted_def calm_def upd_ino_def fwakeup_def lwakeup_def inv_woken abs_woken irelease_def)

lemma mkfs_inode_block:
  assumes "unat i < 208"
  shows "unat (IBLOCK i mkfs_sb) = 32 + unat i div IPB" "unat (IBLOCK i mkfs_sb) < 1000" "IBLOCK i mkfs_sb \<noteq> 2"
proof -
  have b: "unat i div IPB < 26" using assms by (simp add: less_mult_imp_div_less)
  show u: "unat (IBLOCK i mkfs_sb) = 32 + unat i div IPB"
    using b by (simp add: IBLOCK_def mkfs_sb_sel unat_word_ariths unat_of_nat_u32)
  show "unat (IBLOCK i mkfs_sb) < 1000" using u b by simp
  show "IBLOCK i mkfs_sb \<noteq> 2" using u by auto
qed

lemma mounted_inode:
  assumes "mounted img s" "unat i < 208"
  shows "disk_inode (sb s) (fview s) i = inode_of img (unat i)"
  using assms mkfs_inode_block [OF assms(2)] by (simp add: mounted_def disk_inode_def inode_of_def dip_off_def)

text \<open>Locking an inode that is not in memory reads it from the image.\<close>

lemma ilock_mounted:
  assumes m: "mounted img s" and ip: "ip < length (icache s)" "i_dev (ino s ip) = 1" "i_ref (ino s ip) \<ge> 1"
    "\<not> sl_locked (i_lock (ino s ip))" "\<not> i_valid (ino s ip)" "unat (i_inum (ino s ip)) < 208"
    and ty: "d_type (inode_of img (unat (i_inum (ino s ip)))) \<noteq> 0"
  shows "\<exists>s'. ilock ip s = Ok s' \<and> mounted img s' \<and> fsys.more s' = fsys.more s \<and>
    icache s' = (icache s)[ip := (ino s ip)\<lparr>i_lock := lock_of (fpid s), i_di := inode_of img (unat (i_inum (ino s ip))), i_valid := True\<rparr>]"
proof -
  have c: "finv s" "quiet (fabs s)" "room 1 (fabs s)" using m by (simp_all add: mounted_def calm_def)
  note di = mounted_inode [OF m ip(6)]
  obtain s' where ok: "ilock ip s = Ok s'"
    using ilock_ok [OF c ip(1-4)] ty m mkfs_inode_block(2) [OF ip(6)] unfolding di by (auto simp: mounted_def)
  note a = ilock_abs [OF c(1) ok ip(2,1)]
  have "mounted img s'" using m a(1-3) by (simp add: mounted_def calm_def)
  then show ?thesis using ok a(4,5) ip(5) di by auto
qed

text \<open>The content of a locked inode is that of the image.\<close>

lemma mounted_addr:
  assumes m: "mounted img s" and di: "i_di (ino s ip) = inode_of img i"
    and f: "files_ok img fb (inode_of img) (slots_of S)" and k: "k < nblk (S i)" "k < MAXFILE"
  shows "faddr s ip k = blk img (inode_of img i) k"
proof (cases "k < NDIRECT")
  case True
  then show ?thesis by (simp add: faddr_def blk_def di)
next
  case False
  then have "(i, MAXFILE) \<in> slots_of S" using k by (simp add: slots_def)
  from files_okD(7,8) [OF f this] files_okD(4) [OF f]
  have "59 \<le> unat (d_addrs (inode_of img i) ! NDIRECT)" "unat (d_addrs (inode_of img i) ! NDIRECT) < 1000"
    by (simp_all add: blk_def)
  moreover from this have "d_addrs (inode_of img i) ! NDIRECT \<noteq> 2" by auto
  ultimately have "fview s (d_addrs (inode_of img i) ! NDIRECT) = img ! unat (d_addrs (inode_of img i) ! NDIRECT)"
    using m by (simp add: mounted_def)
  then show ?thesis using False k(2) by (simp add: faddr_def blk_def di)
qed

lemma mounted_file:
  assumes m: "mounted img s" and di: "i_di (ino s ip) = inode_of img i" and dev: "i_dev (ino s ip) = 1"
    and f: "files_ok img fb (inode_of img) (slots_of S)"
    and n: "nblk (isize img i) = nblk (S i)" "nblk (S i) \<le> MAXFILE"
  shows "file_ok s ip" "k div BSIZE < nblk (S i) \<Longrightarrow> fbyte s ip k = byte_at img (inode_of img i) k"
proof -
  have nb: "nblocks s ip = nblk (S i)" using n(1) by (simp add: nblocks_def nblk_def isize_def di)
  have h: "(i, k) \<in> slots_of S" if "k < nblk (S i)" for k using that by (simp add: slots_def)
  have ad: "faddr s ip k = blk img (inode_of img i) k" if "k < nblk (S i)" for k
    using mounted_addr [OF m di f that] that n(2) by simp
  have b: "59 \<le> unat (faddr s ip k)" "unat (faddr s ip k) < 1000" if "k < nblk (S i)" for k
    using files_okD(7,8) [OF f h [OF that]] files_okD(4) [OF f] ad [OF that] by simp_all
  have nz: "x \<noteq> 0" "x \<noteq> 2" if "59 \<le> unat x" for x :: u32 using that by auto
  have inj: "k = l" if "k < nblk (S i)" "l < nblk (S i)" "faddr s ip k = faddr s ip l" for k l
    using files_okD(9) [OF f h [OF that(1)] h [OF that(2)]] that(3) ad that(1,2) by simp
  have ind: "d_addrs (inode_of img i) ! NDIRECT \<noteq> 0 \<and> unat (d_addrs (inode_of img i) ! NDIRECT) < 1000 \<and>
      d_addrs (inode_of img i) ! NDIRECT \<notin> set (map (faddr s ip) [0..<nblk (S i)])" if "nblk (S i) > NDIRECT"
  proof -
    have x: "(i, MAXFILE) \<in> slots_of S" using that by (simp add: slots_def)
    have "59 \<le> unat (d_addrs (inode_of img i) ! NDIRECT)" "unat (d_addrs (inode_of img i) ! NDIRECT) < 1000"
      using files_okD(7,8) [OF f x] files_okD(4) [OF f] by (simp_all add: blk_def)
    moreover have "faddr s ip k \<noteq> d_addrs (inode_of img i) ! NDIRECT" if "k < nblk (S i)" for k
      using files_okD(9) [OF f h [OF that] x] ad [OF that] that n(2) by (auto simp: blk_def)
    ultimately show ?thesis using nz(1) by fastforce
  qed
  have len: "length (a_disk (fabs s)) = 1000" using m by (simp add: mounted_def)
  show "file_ok s ip"
    unfolding file_ok_def nb di len using dev n(2) b nz(1) inj ind
    by (auto simp: distinct_map inj_on_def)
  show "fbyte s ip k = byte_at img (inode_of img i) k" if "k div BSIZE < nblk (S i)"
    using m b [OF that] nz(2) ad [OF that] by (simp add: fbyte_def byte_at_def mounted_def)
qed

section \<open>Mounting\<close>

text \<open>
  The inode cache when the first process runs: nothing is in memory yet, and at most the root directory
  is referenced (\<open>userinit\<close> has made it the current directory).
\<close>

definition boot_icache :: "inode list \<Rightarrow> bool" where
  "boot_icache is \<longleftrightarrow> length is = NINODE \<and> (\<forall>i < NINODE. \<not> i_valid (is ! i)) \<and>
     (\<forall>i < NINODE. 0 < i \<longrightarrow> i_ref (is ! i) = 0) \<and> 0 \<le> i_ref (is ! 0) \<and>
     (0 < i_ref (is ! 0) \<longrightarrow> i_dev (is ! 0) = ROOTDEV \<and> i_inum (is ! 0) = ROOTINO)"

lemma freadsb_ok:
  assumes c: "calm s" and len: "1 < length (a_disk (fabs s))"
  shows "\<exists>s'. freadsb 1 s = Ok (s'\<lparr>sb := sb_of_bytes (fview s 1)\<rparr>) \<and> only_cached s s'"
proof -
  have "unat (1 :: u32) < length (a_disk (fabs s))" using len by simp
  from calm_read [OF c this] obtain i s1 s2 where r: "fbread 1 1 s = Ok (i, s1)" "fdata s1 i = fview s 1"
    "fbrelse i s1 = Ok s2" "only_cached s s2" by blast
  then have "freadsb 1 s = Ok (s2\<lparr>sb := sb_of_bytes (fview s 1)\<rparr>)"
    by (auto simp: freadsb_def readsb_def bnd_eq_Ok fbread_def lbread_def fbrelse_def lbrelse_def fdata_def Let_def)
  then show ?thesis using r(4) by blast
qed

lemma mount_ok:
  fixes s :: "'b fsys_scheme"
  assumes img: "length img = 1000" "\<forall>b < 1000. length (img ! b) = BSIZE" "sb_of_bytes (img ! 1) = mkfs_sb" "img ! 2 = zeroes"
    and boot: "lg s = boot img"
  shows "\<exists>s1 l. iinit 1 s = Ok s1 \<and> initlog 1 (lg s1) = Ok l \<and> mounted img (s1\<lparr>lg := l\<rparr>) \<and>
    log_outstanding l = 0 \<and> lh_n l = 0 \<and> \<not> log_committing l \<and> fsys.more s1 = fsys.more s \<and>
    icache s1 = map (\<lambda>i. i\<lparr>i_lock := initsleeplock\<rparr>) (icache s)"
proof -
  have d: "\<forall>d \<in> set img. length d = BSIZE" using img(1,2) by (auto simp: in_set_conv_nth)
  let ?s = "s\<lparr>icache := map (\<lambda>i. i\<lparr>i_lock := initsleeplock\<rparr>) (icache s)\<rparr>"
  have abs: "fabs ?s = clean_on img" "finv ?s" using boot_clean [OF d] boot by simp_all
  have c: "calm ?s" using abs by (simp add: calm_def room_def clean_on_def)
  have l1: "1 < length (a_disk (fabs ?s))" using abs(1) img(1) by (simp add: clean_on_def)
  have v: "fview ?s 1 = img ! 1" using abs(1) by (simp add: clean_on_def)
  obtain s1 where s1: "freadsb 1 ?s = Ok (s1\<lparr>sb := mkfs_sb\<rparr>)" "only_cached ?s s1"
    using freadsb_ok [OF c l1] unfolding v img(3) by blast
  obtain b where b: "s1 = ?s\<lparr>lg := (lg ?s)\<lparr>lbc := b\<rparr>\<rparr>" using s1(2) by (auto simp: only_cached_def)
  have st: "labs (lg s1) = clean_on img" "bc_inv (lbc (lg s1))" "length (lh_block (lg s1)) = 30"
    "log_outstanding (lg s1) = 0" "\<not> log_committing (lg s1)"
    using only_cached_sel(4,5) [OF s1(2)] abs boot b by (simp_all add: boot_def)
  have z: "get32 (img ! 2) 0 = 0" using img(4) get32_zeroes [of 0] by simp
  have rc: "recoverable img 2 30 0" using d img(1) z by (simp add: recoverable_def head_blocks_def)
  have sbf: "sb_logstart (sb_of_bytes (img ! 1)) = 2" "sint (sb_nlog (sb_of_bytes (img ! 1))) = 30"
    unfolding img(3) by (simp_all add: mkfs_sb_sel)
  obtain r h where r: "initlog 1 (lg s1) = Ok r" "recovered 2 30 1000 r"
    "disk (lbc r) = apply_writes img (recovery_writes img 2 0 @ [(unat (2 :: u32), h)])"
    using initlog_abs [OF rc st sbf] unfolding img(1) by blast
  have dk: "disk (lbc r) = img[2 := h]" using r(3) by (simp add: recovery_writes_def apply_writes_def)
  have rest: "bc_inv (lbc r)" "quiet (labs r)" "a_dirty (labs r) = {}" "a_bufs (labs r) = NBUF"
    "lh_n r = 0" "log_outstanding r = 0" "\<not> log_committing r"
    using r(2) by (simp_all add: recovered_def at_rest_def)
  have dks: "a_disk (labs r) = disk (lbc r)" by (simp add: abs_bc_def)
  have "a_view (labs r) n = img ! unat n" if "unat n < 1000" "n \<noteq> 2" for n
  proof -
    have "unat n \<noteq> 2" using that(2) by (simp add: word_unat_eq_iff)
    then show ?thesis using bcache.settled [OF rest(1), of n] rest dk dks that(1) img(1) by simp
  qed
  then have "mounted img (s1\<lparr>sb := mkfs_sb, lg := r\<rparr>)"
    using rest dk dks img(1) by (simp add: mounted_def calm_def room_def)
  moreover have "iinit 1 s = Ok (s1\<lparr>sb := mkfs_sb\<rparr>)" using s1(1) by (simp add: iinit_def)
  ultimately show ?thesis
    using r(1) rest(5-7) only_cached_sel(1,3) [OF s1(2)]
    by (intro exI [of _ "s1\<lparr>sb := mkfs_sb\<rparr>"] exI [of _ r]) simp
qed

section \<open>The root directory\<close>

lemma slice_concat:
  "\<forall>x \<in> set xs. length x = m \<Longrightarrow> j < length xs \<Longrightarrow> slice (concat xs) (m * j) m = xs ! j"
proof (induction xs arbitrary: j)
  case (Cons x xs)
  then show ?case by (cases j) (simp_all add: slice_def)
qed simp

definition root_entry :: "u8 list list \<Rightarrow> nat \<Rightarrow> u8 list" where
  "root_entry names j = (if j = 0 then dirent 1 [46] else if j = 1 then dirent 1 [46, 46] else entry (j - 2) (names ! (j - 2)))"

lemma root_entries_concat: "root_entries names = concat (map (root_entry names) [0..<2 + length names])"
proof -
  have "[0..<2 + length names] = [0..<2] @ map (\<lambda>k. k + 2) [0..<length names]"
    unfolding map_add_upt using upt_add_eq_append [of 0 2 "length names"] by (simp only: add.commute add_0_right)
  moreover have "[0..<2] = [0, 1 :: nat]" by (simp add: upt_rec)
  ultimately have "[0..<2 + length names] = [0, 1] @ map (\<lambda>k. k + 2) [0..<length names]" by simp
  then show ?thesis unfolding root_entries_def by (simp only: map_append concat_append map_map) (simp add: root_entry_def comp_def)
qed

lemma slice_root_entries:
  "j < 2 + length names \<Longrightarrow> slice (root_entries names) (16 * j) 16 = root_entry names j"
  unfolding root_entries_concat by (subst slice_concat) (auto simp: root_entry_def entry_def simp del: upt_Suc)

lemma de_dirent:
  "de_inum (dirent i name) = ucast i" "cstr DIRSIZ (arr (de_name (dirent i name))) = cstr DIRSIZ (arr (name @ [0]))"
  using get16_append [of "[]" "ucast i"] by (simp_all add: de_inum_def de_name_def dirent_def bytes16_def)

lemma cstr_NUL: "0 \<notin> set name \<Longrightarrow> cstr n (arr (name @ [0])) = take n name"
  using cstr_terminated [of name n "[]"] cstr_full [of name n "[0]"] by (cases "length name < n") simp_all

text \<open>The name under which a file is found: what \<open>mkfs\<close> stores of it.\<close>

definition stored_name :: "u8 list \<times> u8 list list \<Rightarrow> u8 list" where
  "stored_name f = take DIRSIZ (skip_underscore (fst f))"

definition findable :: "(u8 list \<times> u8 list list) list \<Rightarrow> nat \<Rightarrow> bool" where
  "findable files k \<longleftrightarrow> k < length files \<and> (\<forall>f \<in> set files. 0 \<notin> set (fst f)) \<and>
     stored_name (files ! k) \<notin> {[], [46], [46, 46]} \<and> (\<forall>j < k. stored_name (files ! j) \<noteq> stored_name (files ! k))"

lemma set_skip_underscore: "set (skip_underscore name) \<subseteq> set name"
  by (auto simp: skip_underscore_def split: list.splits if_splits)

lemma root_entry_name:
  assumes "\<forall>f \<in> set files. 0 \<notin> set (fst f)" "j < 2 + length files" "length files \<le> 1000"
  shows "cstr DIRSIZ (arr (de_name (root_entry (map fst files) j))) =
      (if j = 0 then [46] else if j = 1 then [46, 46] else stored_name (files ! (j - 2)))"
    "de_inum (root_entry (map fst files) j) = (if j = 0 then 1 else of_nat j)"
proof -
  have z: "0 \<notin> set (skip_underscore (fst f))" if "f \<in> set files" for f
    using assms(1) set_skip_underscore [of "fst f"] that by blast
  have d: "cstr DIRSIZ (arr ([46] @ [0])) = [46]" "cstr DIRSIZ (arr ([46, 46] @ [0])) = [46, 46]"
    by (subst cstr_NUL; simp)+
  show "cstr DIRSIZ (arr (de_name (root_entry (map fst files) j))) =
      (if j = 0 then [46] else if j = 1 then [46, 46] else stored_name (files ! (j - 2)))"
    unfolding root_entry_def entry_def using assms(2) z d by (auto simp: de_dirent cstr_NUL stored_name_def simp del: append.simps)
  show "de_inum (root_entry (map fst files) j) = (if j = 0 then 1 else of_nat j)"
  proof (cases "j < 2")
    case False
    have "unat (of_nat j :: u32) = j" by (rule unat_of_nat_u32) (use assms(2,3) in simp)
    then have "ucast (of_nat j :: u32) = (of_nat j :: u16)" by (metis of_nat_unat ucast_id unsigned_ucast_eq)
    then show ?thesis using False by (simp add: root_entry_def entry_def de_dirent)
  qed (auto simp: root_entry_def de_dirent less_Suc_eq numeral_2_eq_2)
qed

lemma root_matches:
  assumes f: "findable files k" "length files \<le> 1000" and nb: "cstr DIRSIZ (arr nb) = stored_name (files ! k)"
    and c: "\<And>j. j < 2 + length files \<Longrightarrow> dirent_at c j = root_entry (map fst files) j" and j: "j \<le> k + 2"
  shows "entry_matches c nb j \<longleftrightarrow> j = k + 2"
proof -
  have k: "k < length files" and z: "\<forall>f \<in> set files. 0 \<notin> set (fst f)" using f(1) by (simp_all add: findable_def)
  have jl: "j < 2 + length files" using j k by simp
  note n = root_entry_name [OF z jl f(2)]
  have "(of_nat j :: u16) \<noteq> 0" if "j \<noteq> 0"
    using that jl f(2) unat_of_nat [where x = j and 'a = 16] by (auto simp: unat_eq_0 [symmetric])
  then have i: "de_inum (root_entry (map fst files) j) \<noteq> 0" unfolding n(2) by simp
  have "entry_matches c nb j \<longleftrightarrow> stored_name (files ! k) =
      (if j = 0 then [46] else if j = 1 then [46, 46] else stored_name (files ! (j - 2)))"
    unfolding entry_matches_def c [OF jl] nb n(1) using i by simp
  also have "\<dots> \<longleftrightarrow> j = k + 2"
  proof (cases "j < 2")
    case True
    then show ?thesis using f(1) by (auto simp: findable_def less_Suc_eq numeral_2_eq_2)
  next
    case False
    then have "j - 2 < k \<or> j = k + 2" using j by linarith
    then show ?thesis using False f(1) by (auto simp: findable_def)
  qed
  finally show ?thesis .
qed

lemma find_first:
  assumes "\<And>j. j \<le> m \<Longrightarrow> P j \<longleftrightarrow> j = m" "m < N"
  shows "find P [0..<N] = Some m"
proof -
  have "[0..<N] = [0..<m] @ m # [Suc m..<N]"
    using assms(2) upt_add_eq_append [of 0 m "N - m"] by (simp add: upt_conv_Cons)
  moreover have "\<forall>x \<in> set xs. \<not> P x \<Longrightarrow> find P (xs @ m # ys) = Some m" for xs ys
    using assms(1) [of m] by (induction xs) simp_all
  ultimately show ?thesis using assms(1) by simp
qed

lemma skipelem_single:
  assumes "name \<noteq> []" "slash \<notin> set name" "0 \<notin> set name"
  shows "\<exists>nb. skipelem (slash # name) (replicate DIRSIZ 0) = Some ([], nb) \<and> cstr DIRSIZ (arr nb) = take DIRSIZ name"
proof -
  have p: "dropWhile (\<lambda>c. c = slash) (slash # name) = name" "takeWhile (\<lambda>c. c \<noteq> slash) name = name" "dropWhile (\<lambda>c. c \<noteq> slash) name = []"
    using assms(1,2) by (cases name; auto simp: takeWhile_eq_all_conv)+
  then have s: "skipelem (slash # name) (replicate DIRSIZ 0) =
      Some ([], if length name \<ge> DIRSIZ then splice (replicate DIRSIZ 0) 0 (take DIRSIZ name) else splice (replicate DIRSIZ 0) 0 (name @ [0]))"
    unfolding skipelem_def Let_def p using assms(1) by simp
  have "cstr DIRSIZ (arr (if length name \<ge> DIRSIZ then splice (replicate DIRSIZ 0) 0 (take DIRSIZ name)
      else splice (replicate DIRSIZ 0) 0 (name @ [0]))) = take DIRSIZ name"
    using assms(3) cstr_full [of "take DIRSIZ name" DIRSIZ "[]"] cstr_terminated [of name DIRSIZ]
    by (auto simp: splice_def dest: in_set_takeD)
  then show ?thesis using s by blast
qed

section \<open>Finding a file\<close>

text \<open>Only the first entry of the inode cache is referenced, and no other is locked.\<close>

definition one_used :: "'b fsys_scheme \<Rightarrow> bool" where
  "one_used s \<longleftrightarrow> length (icache s) = NINODE \<and>
     (\<forall>j < NINODE. 0 < j \<longrightarrow> i_ref (ino s j) = 0 \<and> \<not> sl_locked (i_lock (ino s j)))"

lemma iget_root:
  assumes u: "one_used s" and r: "0 \<le> i_ref (ino s 0)" "0 < i_ref (ino s 0) \<longrightarrow> i_dev (ino s 0) = 1 \<and> i_inum (ino s 0) = 1"
    and v: "\<not> i_valid (ino s 0)"
  shows "\<exists>x. iget 1 1 s = Ok (0, s\<lparr>icache := (icache s)[0 := x]\<rparr>) \<and> i_dev x = 1 \<and> i_inum x = 1 \<and> i_ref x \<ge> 1 \<and>
    \<not> i_valid x \<and> i_lock x = i_lock (ino s 0)"
proof -
  have len: "length (icache s) = NINODE" and z: "\<And>j. j < NINODE \<Longrightarrow> 0 < j \<Longrightarrow> i_ref (ino s j) = 0"
    using u by (simp_all add: one_used_def)
  let ?P = "\<lambda>i. i_ref (ino s i) > 0 \<and> i_dev (ino s i) = 1 \<and> i_inum (ino s i) = 1"
  show ?thesis
  proof (cases "0 < i_ref (ino s 0)")
    case True
    then have "find ?P [0..<NINODE] = Some 0" using r(2) by (intro find_first) simp_all
    then have "iget 1 1 s = Ok (0, upd_ino 0 (\<lambda>i. i\<lparr>i_ref := i_ref i + 1\<rparr>) s)" by (simp add: iget_def len)
    then show ?thesis using True r v
      by (intro exI [of _ "(ino s 0)\<lparr>i_ref := i_ref (ino s 0) + 1\<rparr>"]) (simp add: upd_ino_def)
  next
    case False
    then have "\<not> ?P j" if "j < NINODE" for j using z [OF that] by (cases "j = 0") auto
    then have "find ?P [0..<NINODE] = None" unfolding find_None by simp
    moreover have "find (\<lambda>i. i_ref (ino s i) = 0) [0..<NINODE] = Some 0" using False r by (intro find_first) simp_all
    ultimately have "iget 1 1 s = Ok (0, upd_ino 0 (\<lambda>i. i\<lparr>i_dev := 1, i_inum := 1, i_ref := 1, i_valid := False\<rparr>) s)"
      by (simp add: iget_def len)
    then show ?thesis
      by (intro exI [of _ "(ino s 0)\<lparr>i_dev := 1, i_inum := 1, i_ref := 1, i_valid := False\<rparr>"]) (simp add: upd_ino_def)
  qed
qed

lemma iget_second:
  assumes u: "one_used s" and r: "1 \<le> i_ref (ino s 0)" "i_inum (ino s 0) \<noteq> inum"
  shows "iget 1 inum s = Ok (1, upd_ino 1 (\<lambda>i. i\<lparr>i_dev := 1, i_inum := inum, i_ref := 1, i_valid := False\<rparr>) s)"
proof -
  have len: "length (icache s) = NINODE" and z: "\<And>j. j < NINODE \<Longrightarrow> 0 < j \<Longrightarrow> i_ref (ino s j) = 0"
    using u by (simp_all add: one_used_def)
  have "\<not> (i_ref (ino s j) > 0 \<and> i_dev (ino s j) = 1 \<and> i_inum (ino s j) = inum)" if "j < NINODE" for j
    using z [OF that] r(2) by (cases "j = 0") auto
  then have "find (\<lambda>i. i_ref (ino s i) > 0 \<and> i_dev (ino s i) = 1 \<and> i_inum (ino s i) = inum) [0..<NINODE] = None"
    unfolding find_None by simp
  moreover have "find (\<lambda>i. i_ref (ino s i) = 0) [0..<NINODE] = Some 1"
    by (rule find_first) (use z r(1) in \<open>auto simp: le_Suc_eq\<close>)
  ultimately show ?thesis by (simp add: iget_def len)
qed

text \<open>Unlocking and releasing an inode with links changes nothing but its lock and its reference.\<close>

lemma iunlockput_linked:
  assumes ip: "ip < length (icache s)" "sl_locked (i_lock (ino s ip))" "i_ref (ino s ip) \<ge> 1" "d_nlink (i_di (ino s ip)) \<noteq> 0"
    and m: "mounted img s"
  shows "\<exists>s' lk. iunlockput ip s = Ok s' \<and> mounted img s' \<and>
    icache s' = (icache s)[ip := (ino s ip)\<lparr>i_lock := lk, i_ref := i_ref (ino s ip) - 1\<rparr>]"
proof -
  define t where "t = irelease ip s"
  have ul: "iunlock ip s = Ok t" using ip by (simp add: iunlock_def holdingsleep_def t_def)
  have t: "icache t = (icache s)[ip := (ino s ip)\<lparr>i_lock := releasesleep (i_lock (ino s ip))\<rparr>]"
    by (simp add: t_def irelease_def fwakeup_def upd_ino_def)
  have acq: "acquiresleep (ChInode ip) (fpid t) (i_lock (ino t ip)) = Ok (lock_of (fpid t))"
    using ip(1) by (simp add: acquiresleep_Ok t releasesleep_def)
  define v where "v = upd_ino ip (\<lambda>i. i\<lparr>i_lock := lock_of (fpid t)\<rparr>) t"
  have "iput ip t = Ok (upd_ino ip (\<lambda>i. i\<lparr>i_ref := i_ref i - 1\<rparr>) (irelease ip v))"
    unfolding iput_def acq using ip by (simp add: v_def [symmetric] Let_def) (simp add: v_def t upd_ino_def)
  moreover have "mounted img (upd_ino ip (\<lambda>i. i\<lparr>i_ref := i_ref i - 1\<rparr>) (irelease ip v))"
    using m by (simp add: v_def t_def)
  ultimately show ?thesis
    using ul ip(1) unfolding iunlockput_def by (auto simp: v_def irelease_def fwakeup_def upd_ino_def t)
qed

lemma image_ofD:
  assumes "image_of files s"
  shows "files_ok (im_sectors s) (unat (im_freeblock s)) (inode_of (im_sectors s)) (slots_of ((isize (im_sectors s))(1 := 32 + 16 * length files)))"
    "sb_of_bytes (im_sectors s ! 1) = mkfs_sb" "im_sectors s ! 2 = zeroes"
    "d_type (inode_of (im_sectors s) 1) = T_DIR" "d_nlink (inode_of (im_sectors s) 1) = 1"
    "d_size (inode_of (im_sectors s) 1) = of_nat (((32 + 16 * length files) div BSIZE + 1) * BSIZE)"
    "fcont (im_sectors s) (inode_of (im_sectors s) 1) (32 + 16 * length files) = root_entries (map fst files)"
    "k < length files \<Longrightarrow> d_type (inode_of (im_sectors s) (k + 2)) = T_FILE"
    "k < length files \<Longrightarrow> file_content (im_sectors s) (k + 2) = concat (snd (files ! k))"
  using assms unfolding image_of_def Let_def by blast+

lemma fits_length: "fits files \<Longrightarrow> length files \<le> 198"
  by (simp add: fits_def mkfs_consts)

text \<open>The entries do not fill the last block of the root directory (see \<open>mkfs_root_hole\<close>).\<close>

abbreviation root_has_room :: "(u8 list \<times> u8 list list) list \<Rightarrow> bool" where
  "root_has_room files \<equiv> (32 + 16 * length files) mod BSIZE \<noteq> 0"

lemma root_isize:
  assumes "image_of files s" "fits files"
  shows "isize (im_sectors s) 1 = ((32 + 16 * length files) div BSIZE + 1) * BSIZE"
proof -
  have "(32 + 16 * length files) div BSIZE \<le> 3200 div BSIZE" by (rule div_le_mono) (use fits_length [OF assms(2)] in simp)
  then have "((32 + 16 * length files) div BSIZE + 1) * BSIZE < 4294967296" by simp
  then show ?thesis unfolding isize_def image_ofD(6) [OF assms(1)] by (rule unat_of_nat_u32)
qed

lemma nblk_partial:
  "n mod BSIZE \<noteq> 0 \<Longrightarrow> nblk n = n div BSIZE + 1" "n < (n div BSIZE + 1) * BSIZE"
proof -
  have r: "n mod BSIZE < BSIZE" "n div BSIZE * BSIZE + n mod BSIZE = n" by simp_all
  then show "n < (n div BSIZE + 1) * BSIZE" unfolding distrib_right mult_1 by linarith
  show "nblk n = n div BSIZE + 1" if "n mod BSIZE \<noteq> 0"
  proof -
    have "0 < n mod BSIZE" using that by simp
    then have "512 * (n div BSIZE + 1) \<le> n + 511" "n + 511 < 512 * Suc (n div BSIZE + 1)"
      unfolding distrib_left mult_1_right mult_Suc_right using r by linarith+
    then show ?thesis unfolding nblk_def by (rule div_nat_eqI)
  qed
qed

lemma div_less_nblk: "j < n \<Longrightarrow> j div BSIZE < nblk n"
  using div_le_mono [of "j + BSIZE" "n + 511" BSIZE] by (simp add: nblk_def)

lemma root_locked:
  assumes i: "image_of files im" "fits files" "root_has_room files" and m: "mounted (im_sectors im) s"
    and di: "i_di (ino s ip) = inode_of (im_sectors im) 1" and dev: "i_dev (ino s ip) = 1"
  shows "file_ok s ip" "j < 2 + length files \<Longrightarrow> dirent_at (content s ip) j = root_entry (map fst files) j"
proof -
  let ?img = "im_sectors im" and ?n = "32 + 16 * length files"
  let ?S = "(isize ?img)(1 := ?n)"
  have sz: "isize ?img 1 = (?n div BSIZE + 1) * BSIZE" by (rule root_isize [OF i(1,2)])
  note q = nblk_partial(1) [OF i(3)]
  have same: "nblk (isize ?img 1) = nblk (?S 1)" unfolding sz fun_upd_same q by (simp add: nblk_def)
  have "?n div BSIZE \<le> 3200 div BSIZE" by (rule div_le_mono) (use fits_length [OF i(2)] in simp)
  then have le: "nblk (?S 1) \<le> MAXFILE" by (simp add: q)
  note f = mounted_file [OF m di dev image_ofD(1) [OF i(1)] same le]
  show "file_ok s ip" by (rule f(1))
  show "dirent_at (content s ip) j = root_entry (map fst files) j" if j: "j < 2 + length files"
  proof -
    have b: "fbyte s ip k = root_entries (map fst files) ! k" if "k < ?n" for k
    proof -
      have "k div BSIZE < nblk (?S 1)" using div_le_mono [of k ?n BSIZE] that by (simp add: q)
      then have "fbyte s ip k = byte_at ?img (inode_of ?img 1) k" by (rule f(2))
      also have "\<dots> = fcont ?img (inode_of ?img 1) ?n ! k" using that by (simp add: fcont_def)
      finally show ?thesis unfolding image_ofD(7) [OF i(1)] .
    qed
    have le: "?n \<le> unat (d_size (i_di (ino s ip)))" 
      using nblk_partial(2) [of ?n] unfolding di isize_def [symmetric] sz by (rule less_imp_le)
    have "dirent_at (content s ip) j = slice (root_entries (map fst files)) (16 * j) 16"
      unfolding dirent_at_def
    proof (rule nth_equalityI)
      show "length (slice (content s ip) (16 * j) 16) = length (slice (root_entries (map fst files)) (16 * j) 16)"
        using j le by (simp add: content_def)
      fix k assume "k < length (slice (content s ip) (16 * j) 16)"
      then have k: "k < 16" using j le by (simp add: content_def)
      moreover have "16 * j + k < unat (d_size (i_di (ino s ip)))" using j k le by linarith
      moreover have "16 * j + 16 \<le> length (content s ip)" using j le by (simp add: content_def)
      ultimately show "slice (content s ip) (16 * j) 16 ! k = slice (root_entries (map fst files)) (16 * j) 16 ! k"
        using j b by (simp add: nth_slice) (simp add: content_def)
    qed
    then show ?thesis using slice_root_entries [of j "map fst files"] j by simp
  qed
qed

lemma whole_entries: "16 * ((m * BSIZE + 15) div 16) = m * BSIZE"
proof -
  have "(m * BSIZE + 15) div 16 = 32 * m" by (rule div_nat_eqI) simp_all
  then show ?thesis by simp
qed

lemma ucast_small: "n < 65536 \<Longrightarrow> ucast (of_nat n :: u16) = (of_nat n :: u32)"
  by (simp add: unsigned_of_nat take_bit_nat_eq_self)

lemma namei_file:
  fixes s :: "'b fsys_scheme"
  assumes i: "image_of files im" "fits files" "root_has_room files" "findable files k"
    and m: "mounted (im_sectors im) s" and u: "one_used s" and v: "\<not> i_valid (ino s 0)" "\<not> sl_locked (i_lock (ino s 0))"
    and r: "0 \<le> i_ref (ino s 0)" "0 < i_ref (ino s 0) \<longrightarrow> i_dev (ino s 0) = 1 \<and> i_inum (ino s 0) = 1"
    and ns: "slash \<notin> set (fst (files ! k))"
  shows "\<exists>s'. namei devsw cwd (slash # skip_underscore (fst (files ! k))) s = Ok (Some 1, s') \<and> mounted (im_sectors im) s' \<and>
    1 < length (icache s') \<and> i_dev (ino s' 1) = 1 \<and> i_inum (ino s' 1) = of_nat (k + 2) \<and> i_ref (ino s' 1) = 1 \<and>
    \<not> i_valid (ino s' 1) \<and> \<not> sl_locked (i_lock (ino s' 1))"
proof -
  let ?img = "im_sectors im" and ?name = "skip_underscore (fst (files ! k))" and ?root = "inode_of (im_sectors im) 1"
  have fk: "k < length files" "0 \<notin> set (fst (files ! k))" "?name \<noteq> []" using i(4) by (auto simp: findable_def stored_name_def)
  have len: "length (icache s) = NINODE" using u by (simp add: one_used_def)
  obtain x where 1: "iget 1 1 s = Ok (0, s\<lparr>icache := (icache s)[0 := x]\<rparr>)" "i_dev x = 1" "i_inum x = 1" "i_ref x \<ge> 1"
    "\<not> i_valid x" "i_lock x = i_lock (ino s 0)" using iget_root [OF u r v(1)] by blast
  define s1 where "s1 = s\<lparr>icache := (icache s)[0 := x]\<rparr>"
  have m1: "mounted ?img s1" using m by (simp add: mounted_def calm_def s1_def)
  have x: "ino s1 0 = x" "length (icache s1) = NINODE" using len by (simp_all add: s1_def)
  have ty: "d_type ?root = T_DIR" "d_nlink ?root = 1" using image_ofD(4,5) [OF i(1)] .
  obtain s2 where 2: "ilock 0 s1 = Ok s2" "mounted ?img s2"
    "icache s2 = (icache s1)[0 := x\<lparr>i_lock := lock_of (fpid s1), i_di := ?root, i_valid := True\<rparr>]"
    using ilock_mounted [OF m1, of 0] x 1 v(2) ty by auto
  have y: "i_di (ino s2 0) = ?root" "i_dev (ino s2 0) = 1" "i_inum (ino s2 0) = 1" "i_ref (ino s2 0) \<ge> 1"
    "i_lock (ino s2 0) = lock_of (fpid s1)" "length (icache s2) = NINODE" using 1 2(3) x by simp_all
  have rest: "\<And>j. 0 < j \<Longrightarrow> ino s2 j = ino s j" using 2(3) by (simp add: s1_def)
  note root = root_locked [OF i(1-3) 2(2) y(1,2)]
  have sn: "slash \<notin> set ?name" "0 \<notin> set ?name" using ns fk(2) set_skip_underscore by blast+
  obtain nb where nb: "skipelem (slash # ?name) (replicate DIRSIZ 0) = Some ([], nb)"
    "cstr DIRSIZ (arr nb) = stored_name (files ! k)"
    using skipelem_single [OF fk(3) sn] unfolding stored_name_def by blast
  have sz: "unat (d_size ?root) = ((32 + 16 * length files) div BSIZE + 1) * BSIZE"
    using root_isize [OF i(1,2)] by (simp add: isize_def)
  let ?N = "(unat (d_size ?root) + 15) div 16"
  have N: "16 * ?N = unat (d_size ?root)" unfolding sz by (rule whole_entries)
  then have kN: "k + 2 < ?N" using nblk_partial(2) [of "32 + 16 * length files"] fk(1) sz by linarith
  have fnd: "find (entry_matches (content s2 0) nb) [0..<?N] = Some (k + 2)"
    by (rule find_first [OF root_matches [OF i(4) _ nb(2) root(2)] kN]) (use fits_length [OF i(2)] in simp_all)
  obtain s3 where 3: "only_cached s2 s3" "dirlookup_loop devsw 0 nb (map (\<lambda>k. of_nat (16 * k)) [0..<?N]) s2 =
      bnd (iget 1 (ucast (de_inum (dirent_at (content s2 0) (k + 2)))) s3) (\<lambda>(ip, s). Ok (Some (ip, of_nat (16 * (k + 2))), s))"
    using dirlookup_loop_ok [of s2 0 0 ?N devsw nb] 2(2) root(1) y(1) ty(1) eq_imp_le [OF N] fnd by (auto simp: mounted_def)
  have m3: "mounted ?img s3" by (rule mounted_only_cached [OF 3(1) 2(2)])
  note ic3 = only_cached_sel(1) [OF 3(1)]
  have k2: "k + 2 < 2 + length files" "length files \<le> 1000" "k + 2 < 65536" using fk(1) fits_length [OF i(2)] by simp_all
  have "de_inum (dirent_at (content s2 0) (k + 2)) = of_nat (k + 2)"
    unfolding root(2) [OF k2(1)] using root_entry_name(2) [OF _ k2(1,2)] i(4) by (simp add: findable_def)
  then have inum: "ucast (de_inum (dirent_at (content s2 0) (k + 2))) = (of_nat (k + 2) :: u32)"
    using ucast_small [OF k2(3)] by simp
  have u3: "one_used s3" using u rest y(6) by (simp add: one_used_def ic3)
  have ne: "(1 :: u32) \<noteq> of_nat (k + 2)" using of_nat_u32_inj [of 1 "k + 2"] k2(3) by auto
  define s4 where "s4 = upd_ino 1 (\<lambda>i. i\<lparr>i_dev := 1, i_inum := of_nat (k + 2), i_ref := 1, i_valid := False\<rparr>) s3"
  have ig: "iget 1 (of_nat (k + 2)) s3 = Ok (1, s4)"
    unfolding s4_def by (rule iget_second [OF u3]) (use y ne in \<open>simp_all add: ic3\<close>)
  have dl: "dirlookup devsw 0 nb s2 = Ok (Some (1, of_nat (16 * (k + 2))), s4)"
    unfolding dirlookup_def dirent_offs_def y(1) ty(1) 3(2) inum ig by simp
  have m4: "mounted ?img s4" using m3 by (simp add: s4_def)
  have z: "ino s4 0 = ino s2 0" "length (icache s4) = NINODE" using y(6) by (simp_all add: s4_def upd_ino_def ic3)
  obtain s5 lk where 5: "iunlockput 0 s4 = Ok s5" "mounted ?img s5"
    "icache s5 = (icache s4)[0 := (ino s4 0)\<lparr>i_lock := lk, i_ref := i_ref (ino s4 0) - 1\<rparr>]"
    using iunlockput_linked [of 0 s4, OF _ _ _ _ m4] z y ty(2) by (auto simp: lock_of_def)
  have "namex_loop devsw False [] nb 1 s5 = Ok ((Some 1, nb), s5)"
    by (subst namex_loop.simps) (simp add: skipelem_def)
  moreover have "namex_loop devsw False (slash # ?name) (replicate DIRSIZ 0) 0 s1 = namex_loop devsw False [] nb 1 s5"
    using nb(1) 2(1) y(1) ty(1) dl 5(1) by (subst namex_loop.simps) simp
  ultimately have "namei devsw cwd (slash # ?name) s = Ok (Some 1, s5)"
    using 1(1) by (simp add: namei_def namex_def s1_def [symmetric])
  moreover have "ino s5 1 = ino s4 1" "length (icache s5) = NINODE" using 5(3) z(2) by simp_all
  moreover have "ino s4 1 = (ino s 1)\<lparr>i_dev := 1, i_inum := of_nat (k + 2), i_ref := 1, i_valid := False\<rparr>"
    using rest [of 1] y(6) by (simp add: s4_def upd_ino_def ic3)
  moreover have "\<not> sl_locked (i_lock (ino s 1))" using u by (simp add: one_used_def)
  ultimately show ?thesis using 5(2) by auto
qed

section \<open>Reading a file\<close>

text \<open>The first process makes the root directory its current one before it runs.\<close>

lemma namei_root:
  assumes "icache k = replicate NINODE zero_inode"
  shows "namei devsw cwd [slash] k = Ok (Some 0, k\<lparr>icache := (icache k)[0 := zero_inode\<lparr>i_dev := 1, i_inum := 1, i_ref := 1\<rparr>]\<rparr>)"
proof -
  have "\<exists>x. iget 1 1 k = Ok (0, x) \<and> x = k\<lparr>icache := (icache k)[0 := zero_inode\<lparr>i_dev := 1, i_inum := 1, i_ref := 1\<rparr>]\<rparr>"
  proof -
    have "find (\<lambda>i. i_ref (ino k i) > 0 \<and> i_dev (ino k i) = 1 \<and> i_inum (ino k i) = 1) [0..<NINODE] = None"
      unfolding find_None using assms by (simp add: zero_inode_def)
    moreover have "find (\<lambda>i. i_ref (ino k i) = 0) [0..<NINODE] = Some 0"
      by (rule find_first) (use assms in \<open>simp_all add: zero_inode_def\<close>)
    ultimately show ?thesis using assms by (simp add: iget_def upd_ino_def zero_inode_def)
  qed
  then show ?thesis by (auto simp: namei_def namex_def namex_loop.simps skipelem_def)
qed

lemma userinit_boots:
  assumes "userinit env devsw k = Ok k'" "icache k = replicate NINODE zero_inode"
  shows "boot_icache (icache k')" "lg k' = lg k" "forkret_first k' = forkret_first k"
proof -
  obtain k1 p where 1: "allocproc env k = (Some p, k1)" using assms(1) by (auto simp: userinit_def split: prod.splits option.splits)
  have e1: "icache k1 = icache k" "lg k1 = lg k" "forkret_first k1 = forkret_first k"
    using 1 by (auto simp: allocproc_def Let_def upd_proc_def kkalloc_def split: option.splits prod.splits if_splits)
  from assms(1) obtain d k2 where 2: "on_mem (setupkvm (e_kend env) (e_layout env)) (k1\<lparr>initproc := Some p\<rparr>) = Ok (d, k2)"
    and 3: "(let k = upd_proc p (\<lambda>x. x\<lparr>p_pgdir := d\<rparr>) k2 in
          if d = 0 then Panic ''userinit: out of memory?''
          else bnd (inituvm d (e_initcode env) (kmm k)) (\<lambda>s.
          let k = upd_proc p (\<lambda>x. x\<lparr>p_sz := PGSIZE,
                    p_tf := zero_tf\<lparr>tf_cs := 0x1B, tf_ds := 0x23, tf_es := 0x23, tf_ss := 0x23,
                      tf_eflags := 0x200, tf_esp := PGSIZE, tf_eip := 0\<rparr>,
                    p_name := safestrcpy_name (p_name x) (arr initcode_name)\<rparr>) (k\<lparr>kmm := s\<rparr>) in
          bnd (namei devsw 0 [slash] k) (\<lambda>(ip, k).
          Ok (upd_proc p (\<lambda>x. x\<lparr>p_cwd := ip, p_state := RUNNABLE\<rparr>) k)))) = Ok k'"
    unfolding userinit_def 1 prod.case option.case bnd_eq_Ok by auto
  obtain s where s: "inituvm d (e_initcode env) (kmm (upd_proc p (\<lambda>x. x\<lparr>p_pgdir := d\<rparr>) k2)) = Ok s"
    using 3 unfolding Let_def by (auto simp: bnd_eq_Ok split: if_splits)
  define t where "t = upd_proc p (\<lambda>x. x\<lparr>p_sz := PGSIZE,
                    p_tf := zero_tf\<lparr>tf_cs := 0x1B, tf_ds := 0x23, tf_es := 0x23, tf_ss := 0x23,
                      tf_eflags := 0x200, tf_esp := PGSIZE, tf_eip := 0\<rparr>,
                    p_name := safestrcpy_name (p_name x) (arr initcode_name)\<rparr>)
              ((upd_proc p (\<lambda>x. x\<lparr>p_pgdir := d\<rparr>) k2)\<lparr>kmm := s\<rparr>)"
  have e2: "icache k2 = icache k1" "lg k2 = lg k1" "forkret_first k2 = forkret_first k1"
    using 2 by (auto simp: on_mem_def bnd_eq_Ok)
  have t: "icache t = replicate NINODE zero_inode" "lg t = lg k" "forkret_first t = forkret_first k"
    using e1 e2 assms(2) by (simp_all add: t_def upd_proc_def)
  have 4: "bnd (namei devsw 0 [slash] t) (\<lambda>(ip, k). Ok (upd_proc p (\<lambda>x. x\<lparr>p_cwd := ip, p_state := RUNNABLE\<rparr>) k)) = Ok k'"
    using 3 unfolding Let_def s t_def by (simp split: if_splits)
  have k': "icache k' = (icache t)[0 := zero_inode\<lparr>i_dev := 1, i_inum := 1, i_ref := 1\<rparr>]" "lg k' = lg t"
    "forkret_first k' = forkret_first t"
    using 4 unfolding namei_root [OF t(1)] by (auto simp: upd_proc_def)
  show "boot_icache (icache k')" unfolding k' t(1) by (auto simp: boot_icache_def zero_inode_def nth_list_update)
  show "lg k' = lg k" "forkret_first k' = forkret_first k" using k' t by simp_all
qed

lemma file_locked:
  assumes i: "image_of files im" "fits files" "k < length files" and m: "mounted (im_sectors im) s"
    and di: "i_di (ino s ip) = inode_of (im_sectors im) (k + 2)" and dev: "i_dev (ino s ip) = 1"
  shows "file_ok s ip" "content s ip = concat (snd (files ! k))"
proof -
  let ?img = "im_sectors im" and ?S = "(isize (im_sectors im))(1 := 32 + 16 * length files)"
  have c: "file_content ?img (k + 2) = concat (snd (files ! k))" by (rule image_ofD(9) [OF i(1,3)])
  have "length (concat (snd (files ! k))) \<le> MAXFILE * BSIZE" using i(2,3) by (simp add: fits_def)
  then have "isize ?img (k + 2) \<le> MAXFILE * BSIZE" unfolding c [symmetric] by simp
  then have le: "nblk (?S (k + 2)) \<le> MAXFILE" using div_le_mono [of "isize ?img (k + 2) + 511" 72191 BSIZE] by (simp add: nblk_def)
  have "nblk (isize ?img (k + 2)) = nblk (?S (k + 2))" by simp
  note f = mounted_file [OF m di dev image_ofD(1) [OF i(1)] this le]
  show "file_ok s ip" by (rule f(1))
  have "fbyte s ip j = byte_at ?img (inode_of ?img (k + 2)) j" if "j < isize ?img (k + 2)" for j
    by (rule f(2)) (use slot_of_byte [OF that] that in \<open>auto simp: nblk_def intro: div_less_nblk\<close>)
  then have "content s ip = file_content ?img (k + 2)" by (simp add: content_def file_content_def fcont_def di isize_def)
  then show "content s ip = concat (snd (files ! k))" using c by simp
qed

lemma boot_reads:
  fixes s :: "'b fsys_scheme"
  assumes i: "image_of files im" "fits files" "root_has_room files" "findable files k"
    and b: "lg s = boot (im_sectors im)" "boot_icache (icache s)"
  shows "\<exists>s1 l l' s2 s3. iinit ROOTDEV s = Ok s1 \<and> initlog ROOTDEV (lg s1) = Ok l \<and> begin_op l = Ok l' \<and>
    namei devsw cwd (slash # skip_underscore (fst (files ! k))) (s1\<lparr>lg := l'\<rparr>) = Ok (Some 1, s2) \<and>
    ilock 1 s2 = Ok s3 \<and> calm s3 \<and> file_ok s3 1 \<and> d_type (i_di (ino s3 1)) = T_FILE \<and>
    content s3 1 = concat (snd (files ! k))"
proof -
  have fl: "k < length files" using i(4) by (simp add: findable_def)
  note f = files_okD [OF image_ofD(1) [OF i(1)]]
  obtain s1 l where 1: "iinit 1 s = Ok s1" "initlog 1 (lg s1) = Ok l" "mounted (im_sectors im) (s1\<lparr>lg := l\<rparr>)"
    "log_outstanding l = 0" "lh_n l = 0" "\<not> log_committing l"
    "icache s1 = map (\<lambda>i. i\<lparr>i_lock := initsleeplock\<rparr>) (icache s)"
    using mount_ok [of "im_sectors im" s] f(1,2) image_ofD(2,3) [OF i(1)] b(1) by blast
  define l' where "l' = l\<lparr>log_outstanding := 1\<rparr>"
  have 2: "begin_op l = Ok l'" using 1(4-6) by (simp add: begin_op_def l'_def)
  define t where "t = s1\<lparr>lg := l'\<rparr>"
  have mt: "mounted (im_sectors im) t" using 1(3) by (simp add: mounted_def calm_def t_def l'_def)
  have ic: "length (icache s) = NINODE" "\<And>j. j < NINODE \<Longrightarrow> ino t j = (ino s j)\<lparr>i_lock := initsleeplock\<rparr>"
    "length (icache t) = NINODE"
    using b(2) 1(7) by (simp_all add: boot_icache_def t_def)
  have u: "one_used t" using b(2) ic by (simp add: one_used_def boot_icache_def initsleeplock_def)
  have r: "\<not> i_valid (ino t 0)" "\<not> sl_locked (i_lock (ino t 0))" "0 \<le> i_ref (ino t 0)"
    "0 < i_ref (ino t 0) \<longrightarrow> i_dev (ino t 0) = 1 \<and> i_inum (ino t 0) = 1"
    using b(2) ic(2) [of 0] by (simp_all add: boot_icache_def initsleeplock_def)
  have ns: "slash \<notin> set (fst (files ! k))" using i(2) fl by (simp add: fits_def)
  obtain s2 where 3: "namei devsw cwd (slash # skip_underscore (fst (files ! k))) t = Ok (Some 1, s2)"
    "mounted (im_sectors im) s2" "1 < length (icache s2)" "i_dev (ino s2 1) = 1" "i_inum (ino s2 1) = of_nat (k + 2)"
    "i_ref (ino s2 1) = 1" "\<not> i_valid (ino s2 1)" "\<not> sl_locked (i_lock (ino s2 1))"
    using namei_file [OF i mt u r ns] by blast
  have ui: "unat (of_nat (k + 2) :: u32) = k + 2" "k + 2 < 208"
    using fl fits_length [OF i(2)] unat_of_nat_u32 [of "k + 2"] by simp_all
  obtain s3 where 4: "ilock 1 s2 = Ok s3" "mounted (im_sectors im) s3"
    "icache s3 = (icache s2)[1 := (ino s2 1)\<lparr>i_lock := lock_of (fpid s2), i_di := inode_of (im_sectors im) (k + 2), i_valid := True\<rparr>]"
    using ilock_mounted [OF 3(2,3,4)] 3(5-8) ui image_ofD(8) [OF i(1) fl] by auto
  have d: "i_di (ino s3 1) = inode_of (im_sectors im) (k + 2)" "i_dev (ino s3 1) = 1" using 3(3,4) 4(3) by simp_all
  note fi = file_locked [OF i(1,2) fl 4(2) d]
  have "calm s3" using 4(2) by (simp add: mounted_def)
  then show ?thesis
    using 1(1,2) 2 3(1) 4(1) fi d(1) image_ofD(8) [OF i(1) fl] unfolding t_def by auto
qed

text \<open>C1: the programs and files that \<open>mkfs\<close> puts on the disk are what the kernel runs and reads.  A kernel
  that starts on the image made from \<open>files\<close>, in its first return from the scheduler, mounts the file
  system without an error; then \<open>namei\<close> finds each file under its name, and \<open>ilock\<close> and \<open>readi\<close>
  return, for every offset in the file, the bytes the file had on the host.\<close>

theorem kernel_reads_mkfs_files:
  fixes k :: kernel
  assumes "fits files" "root_has_room files" "findable files i"
    "mkfs (map (\<lambda>f. (fst f, Some (snd f))) files) = Ok im"
    "forkret_first k" "lg k = boot (im_sectors im)" "boot_icache (icache k)"
  shows "\<exists>k1 k2 k3 k4. forkret k = Ok k1 \<and> kbegin_op k1 = Ok k2 \<and>
    namei devsw cwd (slash # skip_underscore (fst (files ! i))) k2 = Ok (Some 1, k3) \<and> ilock 1 k3 = Ok k4 \<and>
    (let bytes = concat (snd (files ! i)) in
      \<forall>off n. unat off \<le> length bytes \<and> unat off + unat n < 4294967296 \<longrightarrow>
        (\<exists>k5. readi devsw 1 off n k4 =
           Ok ((int (length (slice bytes (unat off) (unat n))), slice bytes (unat off) (unat n)), k5)))"
proof -
  have im: "image_of files im" using mkfs_ok [OF assms(1)] assms(4) by auto
  obtain s1 l l' s2 s3 where r: "iinit ROOTDEV (k\<lparr>forkret_first := False\<rparr>) = Ok s1" "initlog ROOTDEV (lg s1) = Ok l"
    "begin_op l = Ok l'" "namei devsw cwd (slash # skip_underscore (fst (files ! i))) (s1\<lparr>lg := l'\<rparr>) = Ok (Some 1, s2)"
    "ilock 1 s2 = Ok s3" "calm s3" "file_ok s3 1" "d_type (i_di (ino s3 1)) = T_FILE" "content s3 1 = concat (snd (files ! i))"
    using boot_reads [OF im assms(1-3), of "k\<lparr>forkret_first := False\<rparr>" devsw cwd] assms(6,7) by auto
  have fk: "forkret k = Ok (s1\<lparr>lg := l\<rparr>)" using r(1,2) assms(5) by (simp add: forkret_def)
  have rd: "\<exists>k4. readi devsw 1 off n s3 = Ok ((int (length (slice (content s3 1) (unat off) (unat n))), slice (content s3 1) (unat off) (unat n)), k4)"
    if "unat off \<le> length (content s3 1)" "unat off + unat n < 4294967296" for off n
  proof -
    have "off \<le> d_size (i_di (ino s3 1))" using that(1) by (simp add: content_def word_le_nat_alt)
    moreover have "\<not> off + n < off" using that(2) by (simp add: word_less_nat_alt unat_add_nowrap)
    ultimately have g: "\<not> (off > d_size (i_di (ino s3 1)) \<or> off + n < off)" by simp
    show ?thesis using readi_ok [OF r(6,7), of devsw off n] r(8) unfolding if_not_P [OF g] by auto
  qed
  show ?thesis
    unfolding Let_def r(9) [symmetric]
    by (intro exI [of _ "s1\<lparr>lg := l\<rparr>"] exI [of _ "s1\<lparr>lg := l'\<rparr>"] exI [of _ s2] exI [of _ s3])
      (use fk r(3-5) rd in \<open>simp add: kbegin_op_def\<close>)
qed

text \<open>The first two files of the witness of \<open>mkfs_makes_image\<close>: \<open>_a\<close> is found as \<open>a\<close>.\<close>

theorem kernel_reads_mkfs_files_witness:
  "\<exists>(k :: kernel) k1 k2 k3 k4 k5. forkret k = Ok k1 \<and> kbegin_op k1 = Ok k2 \<and> namei (\<lambda>_. (None, None)) 0 [47, 97] k2 = Ok (Some 1, k3) \<and>
     ilock 1 k3 = Ok k4 \<and> readi (\<lambda>_. (None, None)) 1 1 5 k4 = Ok ((2, [2, 3]), k5)"
proof -
  let ?files = "[([95, 97], [[1, 2], [3]]), ([98], [])] :: (u8 list \<times> u8 list list) list"
  have f: "fits ?files" by (simp add: fits_def blocks_needed_def nslots_def nblk_def mkfs_consts)
  obtain im where im: "mkfs (map (\<lambda>f. (fst f, Some (snd f))) ?files) = Ok im" using mkfs_ok [OF f] by auto
  let ?k = "(undefined :: kernel)\<lparr>forkret_first := True, lg := boot (im_sectors im), icache := replicate NINODE zero_inode\<rparr>"
  have r: "root_has_room ?files" by simp
  have n: "findable ?files 0" by (simp add: findable_def stored_name_def skip_underscore_def)
  have i: "boot_icache (icache ?k)" by (simp add: boot_icache_def zero_inode_def)
  have b: "concat (snd (?files ! 0)) = [1, 2, 3]" "slash # skip_underscore (fst (?files ! 0)) = [47, 97]"
    by (simp_all add: skip_underscore_def)
  have k0: "forkret_first ?k" "lg ?k = boot (im_sectors im)" by simp_all
  let ?b = "[1, 2, 3] :: u8 list"
  obtain k1 k2 k3 k4 where k: "forkret ?k = Ok k1" "kbegin_op k1 = Ok k2" "namei (\<lambda>_. (None, None)) 0 [47, 97] k2 = Ok (Some 1, k3)"
    "ilock 1 k3 = Ok k4" and rd: "\<forall>off n. unat off \<le> length ?b \<and> unat off + unat n < 4294967296 \<longrightarrow>
        (\<exists>k5. readi (\<lambda>_. (None, None)) 1 off n k4 = Ok ((int (length (slice ?b (unat off) (unat n))), slice ?b (unat off) (unat n)), k5))"
    using kernel_reads_mkfs_files [OF f r n im k0 i, of "\<lambda>_. (None, None)" 0] unfolding b Let_def by blast
  obtain k5 where "readi (\<lambda>_. (None, None)) 1 1 5 k4 = Ok ((2, [2, 3]), k5)"
    using rd [rule_format, of 1 5] by (auto simp: slice_def)
  with k show ?thesis by blast
qed

end
