(* ===== verification/Loader.thy ===== *)
theory Loader
  imports Prelude
begin

text \<open>
  The UEFI loader of the kernel, \<open>MyLoaderPkg\<close>: \<open>RelocateELF\<close> of \<open>relocate.c\<close>, and of \<open>loader.c\<close> the search
  for the MADT and the segment descriptors.

  The memory of the loader is a function of 64-bit addresses.  The boot services and the library of UEFI are not in
  the repository: what \<open>LoadFile\<close> leaves, whether \<open>AllocatePages\<close> succeeds, \<open>CopyMem\<close>, \<open>SetMem\<close> and
  \<open>AsciiStrnCmp\<close> are arguments; what is used of them is a hypothesis of the theorems.  \<open>Ok None\<close> is a return with an error
  status.  What is printed is left out.
\<close>

type_synonym u64 = "64 word"
type_synonym mem64 = "u64 \<Rightarrow> u8"
type_synonym copy_mem = "u64 \<Rightarrow> u64 \<Rightarrow> u64 \<Rightarrow> mem64 \<Rightarrow> mem64"
type_synonym set_mem = "u64 \<Rightarrow> u64 \<Rightarrow> u8 \<Rightarrow> mem64 \<Rightarrow> mem64"

definition ld16 :: "mem64 \<Rightarrow> u64 \<Rightarrow> u16" where
  "ld16 m a = word16 (m a) (m (a + 1))"

definition ld32 :: "mem64 \<Rightarrow> u64 \<Rightarrow> u32" where
  "ld32 m a = word32 (m a) (m (a + 1)) (m (a + 2)) (m (a + 3))"

definition ld64 :: "mem64 \<Rightarrow> u64 \<Rightarrow> u64" where
  "ld64 m a = ucast (ld32 m a) OR push_bit 32 (ucast (ld32 m (a + 4)))"

definition st64 :: "mem64 \<Rightarrow> u64 \<Rightarrow> u64 \<Rightarrow> mem64" where
  "st64 m a v = (\<lambda>x. if unat (x - a) < 8 then ucast (drop_bit (8 * unat (x - a)) v) else m x)"

section \<open>relocate.c\<close>

abbreviation (input) PT_LOAD :: u32 where "PT_LOAD \<equiv> 1"

record phdr =
  p_type :: u32
  p_offset :: u32
  p_paddr :: u32
  p_filesz :: u32
  p_memsz :: u32
  p_align :: u32

text \<open>The header of the file has \<open>e_entry\<close> at 24, \<open>e_phoff\<close> at 28 and \<open>e_phnum\<close> at 44; a program header has 32 bytes.\<close>

definition phdr_at :: "mem64 \<Rightarrow> u64 \<Rightarrow> phdr" where
  "phdr_at m a = \<lparr>p_type = ld32 m a, p_offset = ld32 m (a + 4), p_paddr = ld32 m (a + 12), p_filesz = ld32 m (a + 16),
     p_memsz = ld32 m (a + 20), p_align = ld32 m (a + 28)\<rparr>"

definition Phdr :: "mem64 \<Rightarrow> u64 \<Rightarrow> nat \<Rightarrow> phdr" where
  "Phdr m buf i = phdr_at m (buf + ucast (ld32 m (buf + 28)) + 32 * of_nat i)"

definition e_phnum :: "mem64 \<Rightarrow> u64 \<Rightarrow> nat" where
  "e_phnum m buf = unat (ld16 m (buf + 44))"

definition start_address :: "phdr \<Rightarrow> u64" where
  "start_address p = ucast (p_paddr p)"

definition end_address :: "phdr \<Rightarrow> u64" where
  "end_address p = (let e = start_address p + ucast (p_memsz p); mask = ucast (p_align p - 1) in (e + mask) AND NOT mask)"

text \<open>The range to allocate: \<open>None\<close> while \<open>init\<close> is 0.\<close>

definition range_step :: "phdr \<Rightarrow> (u64 \<times> u64) option \<Rightarrow> (u64 \<times> u64) option" where
  "range_step p r =
     (if p_type p = PT_LOAD then
        (case r of None \<Rightarrow> Some (start_address p, end_address p)
         | Some (s, e) \<Rightarrow> Some (if start_address p < s then start_address p else s, if end_address p > e then end_address p else e))
      else r)"

definition alloc_range :: "mem64 \<Rightarrow> u64 \<Rightarrow> (u64 \<times> u64) option" where
  "alloc_range m buf = fold (\<lambda>i. range_step (Phdr m buf i)) [0..<e_phnum m buf] None"

definition page_size :: "u64 \<Rightarrow> u64 \<Rightarrow> u64" where
  "page_size s e = (e - s) div 4096 + 1"

definition relocate_seg :: "copy_mem \<Rightarrow> set_mem \<Rightarrow> u64 \<Rightarrow> nat \<Rightarrow> mem64 \<Rightarrow> mem64" where
  "relocate_seg CopyMem SetMem buf i m =
     (let p = Phdr m buf i in
      if p_type p = PT_LOAD then
        (let m = CopyMem (start_address p) (buf + ucast (p_offset p)) (ucast (p_filesz p)) m;
             q = Phdr m buf i
         in if p_memsz q > p_filesz q
            then SetMem (start_address p + ucast (p_filesz q)) (ucast (p_memsz q - p_filesz q)) 0 m
            else m)
      else m)"

text \<open>The condition of the loop is read from the file again for each \<open>i\<close>, which is below \<open>2^16\<close>.\<close>

definition relocate_step :: "copy_mem \<Rightarrow> set_mem \<Rightarrow> u64 \<Rightarrow> nat \<Rightarrow> mem64 \<Rightarrow> mem64" where
  "relocate_step CopyMem SetMem buf i m = (if i < e_phnum m buf then relocate_seg CopyMem SetMem buf i m else m)"

text \<open>\<open>loaded\<close> is the memory with the file in it and the address of the file; \<open>alloc\<close> tells whether
  \<open>AllocatePages\<close> succeeds for an address and a number of pages.\<close>

definition RelocateELF :: "copy_mem \<Rightarrow> set_mem \<Rightarrow> (u64 \<Rightarrow> u64 \<Rightarrow> bool) \<Rightarrow> (mem64 \<times> u64) option \<Rightarrow> (u64 \<times> mem64) option outcome" where
  "RelocateELF CopyMem SetMem alloc loaded =
     (case loaded of None \<Rightarrow> Ok None
      | Some (m, buf) \<Rightarrow>
          (case alloc_range m buf of
             None \<Rightarrow> Undef ''alloc_start_address is not initialised''
           | Some (s, e) \<Rightarrow>
               if \<not> alloc s (page_size s e) then Ok None
               else
                 (let m = fold (relocate_step CopyMem SetMem buf) [0..<65536] m
                  in Ok (Some (ucast (ld32 m (buf + 24)), m)))))"

section \<open>loader.c\<close>

record gdt =
  g_limit :: u16
  g_base1 :: u16
  g_base2 :: u8
  g_access_byte :: u8
  g_flags :: u8
  g_base3 :: u8

definition set_gdt :: "u32 \<Rightarrow> u32 \<Rightarrow> u32 \<Rightarrow> gdt" where
  "set_gdt type base lim =
     \<lparr>g_limit = ucast (drop_bit 12 lim AND 0xFFFF), g_base1 = ucast (base AND 0xFFFF),
      g_base2 = ucast (drop_bit 16 base AND 0xFF), g_access_byte = ucast (0x90 OR type),
      g_flags = ucast (0xC0 OR (drop_bit 28 lim AND 0xF)), g_base3 = ucast (drop_bit 24 base AND 0xFF)\<rparr>"

definition bootstrap_gdt :: "gdt list" where
  "bootstrap_gdt = [\<lparr>g_limit = 0, g_base1 = 0, g_base2 = 0, g_access_byte = 0, g_flags = 0, g_base3 = 0\<rparr>,
     set_gdt (0x8 OR 0x2) 0 0xFFFFFFFF, set_gdt 0x2 0 0xFFFFFFFF]"

text \<open>
  The tables named by the XSDT: a table has its signature at 0 and its length at 4; the pointers begin at 36.  \<open>madt_addr\<close>, at 8 of
  the boot parameters, is set to \<open>boot_param + sizeof(struct boot_param)\<close>, an addition of 98 structures of 98 bytes, and the MADT is
  copied there.
\<close>

abbreviation (input) sizeof_boot_param :: u64 where "sizeof_boot_param \<equiv> 98"

definition madt_dest :: "u64 \<Rightarrow> u64" where
  "madt_dest boot_param = boot_param + sizeof_boot_param * sizeof_boot_param"

definition xsdt_step :: "copy_mem \<Rightarrow> (mem64 \<Rightarrow> u64 \<Rightarrow> string \<Rightarrow> nat \<Rightarrow> int) \<Rightarrow> u64 \<Rightarrow> u64 \<Rightarrow> nat \<Rightarrow>
    u64 option \<times> mem64 \<Rightarrow> u64 option \<times> mem64" where
  "xsdt_step CopyMem AsciiStrnCmp boot_param xsdt i s =
     (let (madt, m) = s; h = ld64 m (xsdt + 36 + 8 * of_nat i) in
      if AsciiStrnCmp m h ''APIC'' 4 = 0
      then let m = st64 m (boot_param + 8) (madt_dest boot_param)
           in (Some h, CopyMem (ld64 m (boot_param + 8)) h (ucast (ld32 m (h + 4))) m)
      else (madt, m))"

definition find_madt :: "copy_mem \<Rightarrow> (mem64 \<Rightarrow> u64 \<Rightarrow> string \<Rightarrow> nat \<Rightarrow> int) \<Rightarrow> u64 \<Rightarrow> u64 \<Rightarrow> mem64 \<Rightarrow> u64 option \<times> mem64" where
  "find_madt CopyMem AsciiStrnCmp boot_param rsdp m =
     (let xsdt = ld64 m (rsdp + 24); entries = (ucast (ld32 m (xsdt + 4)) - 36 :: u64) div 8
      in fold (xsdt_step CopyMem AsciiStrnCmp boot_param xsdt) [0..<unat entries] (None, m))"

text \<open>What a descriptor says to the processor: the base and, in pages, the limit.\<close>

lemma set_gdt_fields:
  "(ucast (g_base1 (set_gdt type base lim)) :: u32) OR push_bit 16 (ucast (g_base2 (set_gdt type base lim)))
     OR push_bit 24 (ucast (g_base3 (set_gdt type base lim))) = base"
  "(ucast (g_limit (set_gdt type base lim)) :: u32) OR push_bit 16 (ucast (g_flags (set_gdt type base lim)) AND 0xF) = drop_bit 12 lim"
proof -
  have k: "(0xFFFF :: u32) = mask 16" "(0xFF :: u32) = mask 8" "(0xF :: u32) = mask 4" "(0xF :: u32) = mask 4"
    "(0xC0 :: u32) = push_bit 6 (mask 2)" by (simp_all add: mask_numeral)
  show "(ucast (g_base1 (set_gdt type base lim)) :: u32) OR push_bit 16 (ucast (g_base2 (set_gdt type base lim)))
     OR push_bit 24 (ucast (g_base3 (set_gdt type base lim))) = base"
    unfolding set_gdt_def gdt.simps k
  proof (rule bit_word_eqI, goal_cases)
    case (1 n)
    then show ?case by (cases "n < 24") (auto simp: bit_simps)
  qed
  show "(ucast (g_limit (set_gdt type base lim)) :: u32) OR push_bit 16 (ucast (g_flags (set_gdt type base lim)) AND 0xF) = drop_bit 12 lim"
    unfolding set_gdt_def gdt.simps k
  proof (rule bit_word_eqI, goal_cases)
    case (1 n)
    then show ?case using bit_imp_le_length [of lim "12 + n"] by (cases "n < 20") (auto simp: bit_simps)
  qed
qed

text \<open>The copy of the MADT begins beyond the one page that is allocated for the boot parameters.\<close>

lemma madt_dest_outside: "unat (madt_dest boot_param - boot_param) = 9604"
  by (simp add: madt_dest_def)

section \<open>What is loaded\<close>

text \<open>The documented behaviour of \<open>CopyMem\<close> and \<open>SetMem\<close>.\<close>

definition copies :: "copy_mem \<Rightarrow> bool" where
  "copies CopyMem \<longleftrightarrow> (\<forall>d s n m x. CopyMem d s n m x = (if unat (x - d) < unat n then m (s + (x - d)) else m x))"

definition sets :: "set_mem \<Rightarrow> bool" where
  "sets SetMem \<longleftrightarrow> (\<forall>d n v m x. SetMem d n v m x = (if unat (x - d) < unat n then v else m x))"

definition covers :: "phdr \<Rightarrow> u64 \<Rightarrow> bool" where
  "covers p x \<longleftrightarrow> p_type p = PT_LOAD \<and> unat (x - start_address p) < unat (p_memsz p)"

definition in_file :: "u64 \<Rightarrow> nat \<Rightarrow> u64 \<Rightarrow> bool" where
  "in_file buf len x \<longleftrightarrow> unat (x - buf) < len"

definition seg_byte :: "mem64 \<Rightarrow> u64 \<Rightarrow> phdr \<Rightarrow> u64 \<Rightarrow> u8" where
  "seg_byte m buf p x =
     (if unat (x - start_address p) < unat (p_filesz p) then m (buf + ucast (p_offset p) + (x - start_address p)) else 0)"

text \<open>A file of \<open>len\<close> bytes whose headers and segments lie inside it, and whose segments do not overlap in memory.\<close>

definition elf_ok :: "mem64 \<Rightarrow> u64 \<Rightarrow> nat \<Rightarrow> bool" where
  "elf_ok m buf len \<longleftrightarrow> 52 \<le> len \<and> len < 4294967296 \<and> unat (ld32 m (buf + 28)) + 32 * e_phnum m buf \<le> len \<and>
     (\<forall>i < e_phnum m buf. p_type (Phdr m buf i) = PT_LOAD \<longrightarrow>
        unat (p_filesz (Phdr m buf i)) \<le> unat (p_memsz (Phdr m buf i)) \<and>
        unat (p_offset (Phdr m buf i)) + unat (p_filesz (Phdr m buf i)) \<le> len) \<and>
     (\<forall>i < e_phnum m buf. \<forall>j < e_phnum m buf. \<forall>x. covers (Phdr m buf i) x \<and> covers (Phdr m buf j) x \<longrightarrow> i = j)"

lemma in_file_offset: "n < len \<Longrightarrow> len < 4294967296 \<Longrightarrow> in_file buf len (buf + of_nat n)"
  by (simp add: in_file_def unat_of_nat)

lemma ld_file:
  assumes eq: "\<And>x. in_file buf len x \<Longrightarrow> m' x = m x" and len: "len < 4294967296"
  shows "n + 2 \<le> len \<Longrightarrow> ld16 m' (buf + of_nat n) = ld16 m (buf + of_nat n)"
    "n + 4 \<le> len \<Longrightarrow> ld32 m' (buf + of_nat n) = ld32 m (buf + of_nat n)"
proof -
  have b: "m' (buf + of_nat n + of_nat k) = m (buf + of_nat n + of_nat k)" if "n + k < len" for k
    using eq [OF in_file_offset [OF that len]] by (simp add: add.assoc)
  show "n + 2 \<le> len \<Longrightarrow> ld16 m' (buf + of_nat n) = ld16 m (buf + of_nat n)"
    using b [of 0] b [of 1] by (simp add: ld16_def)
  show "n + 4 \<le> len \<Longrightarrow> ld32 m' (buf + of_nat n) = ld32 m (buf + of_nat n)"
    using b [of 0] b [of 1] b [of 2] b [of 3] by (simp add: ld32_def)
qed

lemma headers_kept:
  assumes ok: "elf_ok m buf len" and eq: "\<And>x. in_file buf len x \<Longrightarrow> m' x = m x"
  shows "e_phnum m' buf = e_phnum m buf" "i < e_phnum m buf \<Longrightarrow> Phdr m' buf i = Phdr m buf i"
    "ld32 m' (buf + 24) = ld32 m (buf + 24)"
proof -
  have len: "len < 4294967296" "52 \<le> len" and ph: "unat (ld32 m (buf + 28)) + 32 * e_phnum m buf \<le> len"
    using ok by (simp_all add: elf_ok_def)
  note l = ld_file [where m' = m' and m = m and buf = buf, OF eq len(1)]
  show "ld32 m' (buf + 24) = ld32 m (buf + 24)" using l(2) [where n = 24] len(2) by simp
  show n: "e_phnum m' buf = e_phnum m buf" using l(1) [where n = 44] len(2) by (simp add: e_phnum_def)
  have off: "ld32 m' (buf + 28) = ld32 m (buf + 28)" using l(2) [where n = 28] len(2) by simp
  show "Phdr m' buf i = Phdr m buf i" if i: "i < e_phnum m buf"
  proof -
    define a where "a = unat (ld32 m (buf + 28)) + 32 * i"
    have a: "a + 32 \<le> len" using i ph by (simp add: a_def)
    have h: "buf + ucast (ld32 m (buf + 28)) + 32 * of_nat i = buf + of_nat a"
      by (simp add: a_def)
    have "ld32 m' (buf + of_nat a + of_nat k) = ld32 m (buf + of_nat a + of_nat k)" if "k + 4 \<le> 32" for k
      using l(2) [where n = "a + k"] that a by (simp add: add.assoc)
    from this [of 0] this [of 4] this [of 12] this [of 16] this [of 20] this [of 28] show ?thesis
      unfolding Phdr_def off h by (simp add: phdr_at_def)
  qed
qed

lemma unat_ucast64 [simp]: "unat (ucast (v :: u32) :: u64) = unat v"
proof -
  have "unat v < 2 ^ 64" by (rule less_trans [OF unat_u32_bound]) simp
  then show ?thesis by (simp add: unsigned_ucast_eq take_bit_nat_eq_self)
qed

lemma unat_sub_window:
  fixes x a b :: u64
  assumes "unat b \<le> n" "n < 18446744073709551616"
  shows "unat (x - (a + b)) < n - unat b \<longleftrightarrow> unat b \<le> unat (x - a) \<and> unat (x - a) < n"
proof -
  define y where "y = x - a"
  have e: "x - (a + b) = y - b" by (simp add: y_def)
  show ?thesis
  proof (cases "unat b \<le> unat y")
    case True
    then show ?thesis unfolding e y_def [symmetric] by (auto simp: unat_sub word_le_nat_alt)
  next
    case False
    have "unat y + 18446744073709551616 - unat b = unat (y - b)" using False unat_sub_if' [of y b] by (simp add: word_le_nat_alt)
    then show ?thesis using False assms unfolding e y_def [symmetric] by linarith
  qed
qed

text \<open>One segment, when its sizes are in order and it does not touch the file.\<close>

lemma relocate_seg_apply:
  assumes laws: "copies CopyMem" "sets SetMem" and ok: "elf_ok m buf len" and i: "i < e_phnum m buf"
    and eq: "\<And>x. in_file buf len x \<Longrightarrow> m' x = m x"
    and fresh: "\<And>x. covers (Phdr m buf i) x \<Longrightarrow> \<not> in_file buf len x"
  shows "relocate_step CopyMem SetMem buf i m' x =
    (if covers (Phdr m buf i) x then seg_byte m buf (Phdr m buf i) x else m' x)"
proof -
  note h = headers_kept [OF ok eq]
  define p where "p = Phdr m buf i"
  have p': "Phdr m' buf i = p" "i < e_phnum m' buf" using h(1,2) i by (simp_all add: p_def)
  show ?thesis
  proof (cases "p_type p = PT_LOAD")
    case False
    then show ?thesis using p' by (simp add: relocate_step_def relocate_seg_def covers_def flip: p_def)
  next
    case True
    have fz: "unat (p_filesz p) \<le> unat (p_memsz p)" "unat (p_offset p) + unat (p_filesz p) \<le> len" "len < 4294967296"
      using ok i True by (simp_all add: elf_ok_def p_def)
    define m1 where "m1 = CopyMem (start_address p) (buf + ucast (p_offset p)) (ucast (p_filesz p)) m'"
    have m1: "m1 y = (if unat (y - start_address p) < unat (p_filesz p)
        then m (buf + ucast (p_offset p) + (y - start_address p)) else m' y)" for y
    proof -
      have "m' (buf + ucast (p_offset p) + (y - start_address p)) = m (buf + ucast (p_offset p) + (y - start_address p))"
        if "unat (y - start_address p) < unat (p_filesz p)"
      proof (rule eq)
        have "buf + ucast (p_offset p) + (y - start_address p) = buf + of_nat (unat (p_offset p) + unat (y - start_address p))"
          by simp
        moreover have "unat (p_offset p) + unat (y - start_address p) < len" using that fz by linarith
        ultimately show "in_file buf len (buf + ucast (p_offset p) + (y - start_address p))"
          using in_file_offset [OF _ fz(3)] by metis
      qed
      then show ?thesis using laws(1) by (simp add: m1_def copies_def)
    qed
    have cov: "covers p y \<longleftrightarrow> unat (y - start_address p) < unat (p_memsz p)" for y using True by (simp add: covers_def)
    have "m1 y = m y" if "in_file buf len y" for y
      using m1 [of y] fresh [of y] that fz(1) eq [OF that] cov [of y] by (auto simp flip: p_def)
    then have q: "Phdr m1 buf i = p" using headers_kept(2) [OF ok _ i, of m1] by (simp add: p_def)
    have st: "relocate_step CopyMem SetMem buf i m' = (if p_memsz p > p_filesz p
        then SetMem (start_address p + ucast (p_filesz p)) (ucast (p_memsz p - p_filesz p)) 0 m1 else m1)"
      using p' True q by (simp add: relocate_step_def relocate_seg_def Let_def flip: m1_def)
    show ?thesis
    proof (cases "p_memsz p > p_filesz p")
      case False
      then have "unat (p_memsz p) = unat (p_filesz p)" using fz(1) by (simp add: word_less_nat_alt)
      then show ?thesis unfolding st p_def [symmetric] using False by (simp add: m1 cov seg_byte_def)
    next
      case True
      let ?k = "unat (x - start_address p)"
      have d: "unat (p_memsz p - p_filesz p) = unat (p_memsz p) - unat (p_filesz p)"
        using True by (simp add: unat_sub word_le_nat_alt word_less_nat_alt)
      have sub: "unat (x - (start_address p + ucast (p_filesz p))) < unat (p_memsz p) - unat (p_filesz p) \<longleftrightarrow>
          unat (p_filesz p) \<le> ?k \<and> ?k < unat (p_memsz p)"
        using unat_sub_window [of "ucast (p_filesz p)" "unat (p_memsz p)" x "start_address p"] fz(1) unat_u32_bound [of "p_memsz p"]
        by simp
      then show ?thesis
        unfolding st p_def [symmetric] using True laws(2) fz(1) by (auto simp: sets_def d m1 cov seg_byte_def)
    qed
  qed
qed

lemma relocate_all:
  assumes laws: "copies CopyMem" "sets SetMem" and ok: "elf_ok m buf len"
    and fresh: "\<And>i x. i < e_phnum m buf \<Longrightarrow> covers (Phdr m buf i) x \<Longrightarrow> \<not> in_file buf len x"
  defines "m' n \<equiv> fold (relocate_step CopyMem SetMem buf) [0..<n] m"
  shows "i < n \<Longrightarrow> i < e_phnum m buf \<Longrightarrow> covers (Phdr m buf i) x \<Longrightarrow> m' n x = seg_byte m buf (Phdr m buf i) x"
    "\<forall>i < e_phnum m buf. i < n \<longrightarrow> \<not> covers (Phdr m buf i) x \<Longrightarrow> m' n x = m x"
proof -
  have "(\<forall>i x. i < n \<longrightarrow> i < e_phnum m buf \<longrightarrow> covers (Phdr m buf i) x \<longrightarrow> m' n x = seg_byte m buf (Phdr m buf i) x) \<and>
      (\<forall>x. (\<forall>i < e_phnum m buf. i < n \<longrightarrow> \<not> covers (Phdr m buf i) x) \<longrightarrow> m' n x = m x)"
  proof (induction n)
    case 0
    then show ?case by (simp add: m'_def)
  next
    case (Suc n)
    have kept: "m' n x = m x" if "in_file buf len x" for x using Suc fresh that by blast
    have st: "m' (Suc n) = relocate_step CopyMem SetMem buf n (m' n)" by (simp add: m'_def)
    show ?case
    proof (cases "n < e_phnum m buf")
      case True
      have a: "m' (Suc n) x = (if covers (Phdr m buf n) x then seg_byte m buf (Phdr m buf n) x else m' n x)" for x
        unfolding st by (rule relocate_seg_apply [OF laws ok True kept fresh [OF True]])
      have one: "i = n" if "i < e_phnum m buf" "covers (Phdr m buf i) x" "covers (Phdr m buf n) x" for i x
        using ok True that unfolding elf_ok_def by blast
      have "m' (Suc n) x = seg_byte m buf (Phdr m buf i) x"
        if "i < Suc n" "i < e_phnum m buf" "covers (Phdr m buf i) x" for i x
        using that Suc one [OF that(2,3)] unfolding a by (cases "i = n") (auto simp: less_Suc_eq)
      moreover have "m' (Suc n) x = m x" if "\<forall>i < e_phnum m buf. i < Suc n \<longrightarrow> \<not> covers (Phdr m buf i) x" for x
        using that Suc True unfolding a by (simp add: less_Suc_eq)
      ultimately show ?thesis by blast
    next
      case False
      moreover have "e_phnum (m' n) buf = e_phnum m buf" by (rule headers_kept(1) [OF ok]) (rule kept)
      ultimately have "m' (Suc n) = m' n" unfolding st relocate_step_def by simp
      then show ?thesis using Suc False by (auto simp: less_Suc_eq)
    qed
  qed
  then show "i < n \<Longrightarrow> i < e_phnum m buf \<Longrightarrow> covers (Phdr m buf i) x \<Longrightarrow> m' n x = seg_byte m buf (Phdr m buf i) x"
    "\<forall>i < e_phnum m buf. i < n \<longrightarrow> \<not> covers (Phdr m buf i) x \<Longrightarrow> m' n x = m x" by blast+
qed

section \<open>The allocated range\<close>

lemma round_up_ge:
  fixes e m :: u64
  assumes "unat e + unat m < 18446744073709551616"
  shows "unat e \<le> unat ((e + m) AND NOT m)" "unat ((e + m) AND NOT m) \<le> unat e + unat m"
proof -
  have s: "unat (e + m) = unat e + unat m" by (rule unat_add_nowrap) (use assms in simp)
  have "((e + m) AND m) + ((e + m) AND NOT m) = ((e + m) AND m) OR ((e + m) AND NOT m)"
    by (rule disjunctive_add) (simp add: bit_simps)
  also have "\<dots> = e + m" by (rule bit_word_eqI) (auto simp: bit_simps)
  finally have d: "(e + m) AND NOT m = e + m - ((e + m) AND m)" by (simp add: algebra_simps)
  have le: "(e + m) AND m \<le> m" by (simp add: word_and_le1)
  have le2: "unat ((e + m) AND m) \<le> unat (e + m)" using le s by (simp add: word_le_nat_alt)
  then have "unat ((e + m) AND NOT m) = unat (e + m) - unat ((e + m) AND m)"
    unfolding d by (simp add: unat_sub word_le_nat_alt)
  then show "unat e \<le> unat ((e + m) AND NOT m)" "unat ((e + m) AND NOT m) \<le> unat e + unat m"
    using s le by (simp_all add: word_le_nat_alt)
qed

lemma end_address_bounds:
  "unat (start_address p) + unat (p_memsz p) \<le> unat (end_address p)"
proof -
  let ?e = "start_address p + ucast (p_memsz p)"
  have b: "unat (start_address p) < 4294967296" "unat (p_memsz p) < 4294967296" "unat (p_align p - 1) < 4294967296"
    using unat_u32_bound by (simp_all add: start_address_def)
  have e: "unat ?e = unat (start_address p) + unat (p_memsz p)"
    using unat_add_nowrap [of "start_address p" "ucast (p_memsz p)"] b by simp
  then show ?thesis
    using round_up_ge(1) [of ?e "ucast (p_align p - 1)"] b unfolding end_address_def Let_def by simp
qed

lemma range_fold:
  assumes "fold (\<lambda>i. range_step (f i)) is r = Some (s, e)"
  shows "\<forall>i \<in> set is. p_type (f i) = PT_LOAD \<longrightarrow> s \<le> start_address (f i) \<and> end_address (f i) \<le> e"
    "\<And>s' e'. r = Some (s', e') \<Longrightarrow> s \<le> s' \<and> e' \<le> e"
proof -
  have "(\<forall>i \<in> set is. p_type (f i) = PT_LOAD \<longrightarrow> s \<le> start_address (f i) \<and> end_address (f i) \<le> e) \<and>
      (\<forall>s' e'. r = Some (s', e') \<longrightarrow> s \<le> s' \<and> e' \<le> e)"
    using assms(1)
  proof (induction "is" arbitrary: r)
    case Nil
    then show ?case by simp
  next
    case (Cons i "is")
    from Cons.IH [of "range_step (f i) r"] Cons.prems
    have IH: "\<forall>i \<in> set is. p_type (f i) = PT_LOAD \<longrightarrow> s \<le> start_address (f i) \<and> end_address (f i) \<le> e"
      "\<And>s' e'. range_step (f i) r = Some (s', e') \<Longrightarrow> s \<le> s' \<and> e' \<le> e" by simp_all
    show ?case
    proof (cases "p_type (f i) = PT_LOAD")
      case False
      then show ?thesis using IH by (simp add: range_step_def)
    next
      case True
      show ?thesis
      proof (cases r)
        case None
        then show ?thesis using True IH by (simp add: range_step_def)
      next
        case (Some se)
        obtain s0 e0 where se: "se = (s0, e0)" by (cases se)
        have "s \<le> (if start_address (f i) < s0 then start_address (f i) else s0)"
          "(if end_address (f i) > e0 then end_address (f i) else e0) \<le> e"
          using IH(2) True Some se by (simp_all add: range_step_def)
        then have "s \<le> start_address (f i)" "s \<le> s0" "end_address (f i) \<le> e" "e0 \<le> e"
          by (auto split: if_splits)
        then show ?thesis using IH(1) Some se by simp
      qed
    qed
  qed
  then show "\<forall>i \<in> set is. p_type (f i) = PT_LOAD \<longrightarrow> s \<le> start_address (f i) \<and> end_address (f i) \<le> e"
    "\<And>s' e'. r = Some (s', e') \<Longrightarrow> s \<le> s' \<and> e' \<le> e" by blast+
qed

lemma unat_page_size:
  assumes "s \<le> e"
  shows "unat (e - s) < 4096 * unat (page_size s e)"
proof -
  have d: "unat ((e - s) div 4096) = unat (e - s) div 4096" by (simp add: unat_div)
  have "unat (e - s) < 18446744073709551616" using unsigned_less [of "e - s"] by simp
  then have "unat (e - s) div 4096 < 4503599627370496" by (simp add: less_mult_imp_div_less)
  then have "unat (page_size s e) = unat (e - s) div 4096 + 1"
    unfolding page_size_def using d by (subst unat_add_nowrap) simp_all
  moreover have "unat (e - s) = 4096 * (unat (e - s) div 4096) + unat (e - s) mod 4096" "unat (e - s) mod 4096 < 4096"
    by simp_all
  ultimately show ?thesis by linarith
qed

lemma covered_in_range:
  assumes c: "covers p x" and r: "s \<le> start_address p" "end_address p \<le> e"
  shows "unat (x - s) < 4096 * unat (page_size s e)"
proof -
  let ?k = "unat (x - start_address p)"
  have k: "?k < unat (p_memsz p)" using c by (simp add: covers_def)
  have u: "unat s \<le> unat (start_address p)" "unat (end_address p) \<le> unat e" using r by (simp_all add: word_le_nat_alt)
  note b = end_address_bounds [of p]
  have le: "s \<le> e" using u b by (simp add: word_le_nat_alt)
  have st: "unat (start_address p - s) = unat (start_address p) - unat s" using r(1) by (simp add: unat_sub)
  have bound: "unat e < 18446744073709551616" using unsigned_less [of e] by simp
  have "unat ((start_address p - s) + (x - start_address p)) = unat (start_address p - s) + ?k"
    by (rule unat_add_nowrap) (use st k b u bound in simp)
  then have "unat (x - s) = unat (start_address p) - unat s + ?k" by (simp add: st)
  moreover have "unat (e - s) = unat e - unat s" using le by (simp add: unat_sub)
  ultimately have "unat (x - s) \<le> unat (e - s)" using k b u by linarith
  then show ?thesis using unat_page_size [OF le] by linarith
qed

text \<open>\<open>AllocatePages\<close> does not hand out the pages of the file.\<close>

definition allocates :: "(u64 \<Rightarrow> u64 \<Rightarrow> bool) \<Rightarrow> u64 \<Rightarrow> nat \<Rightarrow> bool" where
  "allocates alloc buf len \<longleftrightarrow>
     (\<forall>s n. alloc s n \<longrightarrow> (\<forall>x. unat (x - s) < 4096 * unat n \<longrightarrow> \<not> in_file buf len x))"

text \<open>C29: \<open>RelocateELF\<close> loads the kernel.  For a file with valid headers whose segments do not overlap, and pages
  that can be allocated, it returns the entry point; every byte of a segment is then the byte of
  the file, or 0 behind the part that the file has; all of it lies in the allocated pages; and no other byte of
  memory has changed.\<close>

theorem relocate_loads_kernel:
  assumes laws: "copies CopyMem" "sets SetMem" "allocates alloc buf len"
    and ok: "elf_ok m buf len" and r: "alloc_range m buf = Some (s, e)" and al: "alloc s (page_size s e)"
  shows "\<exists>m'. RelocateELF CopyMem SetMem alloc (Some (m, buf)) = Ok (Some (ucast (ld32 m (buf + 24)), m')) \<and>
    (\<forall>i < e_phnum m buf. \<forall>x. covers (Phdr m buf i) x \<longrightarrow>
       m' x = seg_byte m buf (Phdr m buf i) x \<and> unat (x - s) < 4096 * unat (page_size s e)) \<and>
    (\<forall>x. (\<forall>i < e_phnum m buf. \<not> covers (Phdr m buf i) x) \<longrightarrow> m' x = m x)"
proof -
  let ?m = "fold (relocate_step CopyMem SetMem buf) [0..<65536] m"
  have n: "e_phnum m buf < 65536" using unsigned_less [of "ld16 m (buf + 44)"] by (simp add: e_phnum_def)
  have rg: "unat (x - s) < 4096 * unat (page_size s e)" if "i < e_phnum m buf" "covers (Phdr m buf i) x" for i x
    using range_fold(1) [OF r [unfolded alloc_range_def]] that covered_in_range [OF that(2)] by (auto simp: covers_def)
  have fresh: "\<not> in_file buf len x" if "i < e_phnum m buf" "covers (Phdr m buf i) x" for i x
    using laws(3) al rg [OF that] unfolding allocates_def by blast
  have in_seg: "?m x = seg_byte m buf (Phdr m buf i) x" if "i < e_phnum m buf" "covers (Phdr m buf i) x" for i x
    using relocate_all(1) [where n = 65536 and i = i and x = x, OF laws(1,2) ok fresh] that n by simp
  have out: "?m x = m x" if "\<forall>i < e_phnum m buf. \<not> covers (Phdr m buf i) x" for x
    using relocate_all(2) [where n = 65536 and x = x, OF laws(1,2) ok fresh] that by simp
  have "ld32 ?m (buf + 24) = ld32 m (buf + 24)"
    by (rule headers_kept(3) [OF ok]) (use out fresh in blast)
  then have "RelocateELF CopyMem SetMem alloc (Some (m, buf)) = Ok (Some (ucast (ld32 m (buf + 24)), ?m))"
    using r al by (simp add: RelocateELF_def Let_def)
  then show ?thesis using in_seg rg out by blast
qed

text \<open>A kernel of one segment: four bytes for 0x200000, twelve with the rest zeroed.\<close>

definition elf_bytes :: "u8 list" where
  "elf_bytes = replicate 24 0 @ [0, 0, 0x20, 0] @ [52, 0, 0, 0] @ replicate 12 0 @ [1, 0] @ replicate 6 0 @
     [1, 0, 0, 0] @ [84, 0, 0, 0] @ replicate 4 0 @ [0, 0, 0x20, 0] @ [4, 0, 0, 0] @ [12, 0, 0, 0] @ replicate 4 0 @ [4, 0, 0, 0] @
     [7, 8, 9, 10]"

definition file_mem :: mem64 where
  "file_mem x = (if unat (x - 0x100000) < 88 then elf_bytes ! unat (x - 0x100000) else 0xCC)"

definition copy_fun :: copy_mem where
  "copy_fun d s n m = (\<lambda>x. if unat (x - d) < unat n then m (s + (x - d)) else m x)"

definition set_fun :: set_mem where
  "set_fun d n v m = (\<lambda>x. if unat (x - d) < unat n then v else m x)"

lemma file_headers:
  "e_phnum file_mem 0x100000 = 1" "ld32 file_mem 0x10001C = 52" "ld32 file_mem 0x100018 = 0x200000"
  "Phdr file_mem 0x100000 0 = \<lparr>p_type = 1, p_offset = 84, p_paddr = 0x200000, p_filesz = 4, p_memsz = 12, p_align = 4\<rparr>"
  by code_simp+

lemma file_segment:
  "covers (Phdr file_mem 0x100000 0) 0x200001" "covers (Phdr file_mem 0x100000 0) 0x200005"
  "seg_byte file_mem 0x100000 (Phdr file_mem 0x100000 0) 0x200001 = 8"
  "seg_byte file_mem 0x100000 (Phdr file_mem 0x100000 0) 0x200005 = 0"
  by code_simp+

lemma kernel_file_ok: "elf_ok file_mem 0x100000 88"
  by (simp add: elf_ok_def file_headers)

lemma file_range: "alloc_range file_mem 0x100000 = Some (0x200000, 0x20000C)"
  by (simp add: alloc_range_def file_headers range_step_def start_address_def end_address_def)

theorem relocate_loads_kernel_witness:
  "\<exists>m'. RelocateELF copy_fun set_fun (\<lambda>s n. s = 0x200000 \<and> n = 1) (Some (file_mem, 0x100000)) = Ok (Some (0x200000, m')) \<and>
    m' 0x200001 = 8 \<and> m' 0x200005 = 0"
proof -
  let ?alloc = "\<lambda>s n :: u64. s = (0x200000 :: u64) \<and> n = 1"
  have laws: "copies copy_fun" "sets set_fun" by (simp_all add: copies_def sets_def copy_fun_def set_fun_def)
  have al: "allocates ?alloc 0x100000 88"
    unfolding allocates_def in_file_def
  proof (intro allI impI)
    fix s n x :: u64
    assume "?alloc s n" and x: "unat (x - s) < 4096 * unat n"
    then have "unat (x - 0x200000) < 4096" by simp
    then show "\<not> unat (x - 0x100000) < 88"
      using unat_sub_window [where a = "0x100000 :: u64" and b = "0x100000 :: u64" and x = x and n = "0x101000"] by simp
  qed
  have pg: "?alloc 0x200000 (page_size 0x200000 0x20000C)" by (simp add: page_size_def)
  obtain m' where R: "RelocateELF copy_fun set_fun ?alloc (Some (file_mem, 0x100000)) = Ok (Some (0x200000, m'))"
    and seg: "\<forall>x. covers (Phdr file_mem 0x100000 0) x \<longrightarrow> m' x = seg_byte file_mem 0x100000 (Phdr file_mem 0x100000 0) x"
    using relocate_loads_kernel [OF laws al kernel_file_ok file_range pg] file_headers by auto
  have "m' 0x200001 = 8" "m' 0x200005 = 0"
    using seg [THEN spec, of "0x200001"] seg [THEN spec, of "0x200005"] file_segment by simp_all
  then show ?thesis using R by blast
qed

end
