(* ===== verification/Spec2Isabelle.thy ===== *)
theory Spec2Isabelle
  imports CString Kalloc Fs_Content Fs_Names Spinlock Trap Proc_Props Pipe Grep Console_Dev Net_Props Nic Ide Madt Gates Shell_Run Tools Umalloc Vm_Copy Uthread Boot_Disk Loader
begin

text \<open>
  A verification development for xv6 as it is in this repository: the kernel, the library and the programs
  under \<open>src/xv6\<close>.

  \<^bold>\<open>The program.\<close>  The kernel runs processes on several processors.  A process enters it by a trap
  (\<open>trap.c\<close>); the trap dispatches a system call (\<open>syscall.c\<close>, \<open>sysfile.c\<close>, \<open>sysproc.c\<close>) or serves a
  device.  The calls on processes work on the process table (\<open>proc.c\<close>), on page tables (\<open>vm.c\<close>) and on the
  page allocator (\<open>kalloc.c\<close>); the calls on files go through descriptors and open files (\<open>file.c\<close>) to
  pipes (\<open>pipe.c\<close>), devices (\<open>console.c\<close>) or inodes (\<open>fs.c\<close>).  The file system reads and writes blocks
  through the buffer cache (\<open>bio.c\<close>); its updates are grouped by the write-ahead log (\<open>log.c\<close>), which
  commits them to the disk (\<open>ide.c\<close>, or \<open>memide.c\<close> in the
  kernel that keeps its disk in memory).  \<open>mkfs.c\<close> builds that disk.  The programs (\<open>sh.c\<close>, \<open>grep.c\<close>,
  \<open>uthread1.c\<close>) sit on the user library (\<open>ulib.c\<close>, \<open>printf.c\<close>, \<open>umalloc.c\<close>).  The network code answers
  ARP, ICMP and HTTP packets over the rings of the network card (\<open>i8254.c\<close>), which \<open>pci.c\<close> finds.

  \<^bold>\<open>The theories.\<close>  Each names the functions of the code by the code's names.

  \<^item> \<open>Prelude\<close>: words and bytes of memory, little-endian loads and stores, \<open>outcome\<close> (below), the collections
    of simplification rules.  \<open>CString\<close>: \<open>string.c\<close> and \<open>ulib.c\<close>.  \<open>Mmu\<close>: the macros of \<open>mmu.h\<close>,
    \<open>memlayout.h\<close> and \<open>param.h\<close>.
  \<^item> \<open>Kalloc\<close>: the free list of \<open>kalloc.c\<close>, threaded through the pages (locale \<open>page_allocator\<close>).  \<open>Vm\<close>: \<open>vm.c\<close>;
    \<open>Vm_Props\<close>: the translation of addresses that a page directory stands for, and what \<open>mappages\<close> does to
    it; \<open>Vm_Copy\<close>: \<open>copyuvm\<close>, the memory of a forked child.
  \<^item> \<open>Block_Store\<close>: the contract of a block cache (locales \<open>block_reads\<close>, \<open>block_cache\<close>) over an abstract
    store of blocks.  \<open>Bio\<close>: \<open>buf.h\<close>, \<open>bio.c\<close>, \<open>sleeplock.c\<close>, \<open>memide.c\<close>, which implement it.  \<open>Ide\<close>:
    \<open>ide.c\<close>, whose queue, interrupts and ports refine \<open>memide.c\<close>.  \<open>Log\<close>:
    \<open>log.c\<close>, with crashes: the writes of a commit as a list, recovery after any prefix of it.
  \<^item> \<open>Fs\<close>: \<open>fs.c\<close>.  \<open>Fs_Blocks\<close>: every operation on blocks as its effect on the abstract store, allocation
    and inodes; \<open>Fs_Content\<close>: the content of a file, \<open>readi\<close>, \<open>writei\<close>, directories; \<open>Fs_Names\<close>: the inode
    cache and paths; \<open>Fs_Frame\<close>: the file system leaves the rest of the kernel alone; \<open>Fs_Example\<close>: a small
    disk on which the theorems are applied.
  \<^item> \<open>Spinlock\<close>: \<open>spinlock.c\<close> and \<open>mycpu\<close>, with the loads and stores of several processors interleaved.
  \<^item> \<open>Ring\<close>: queues of bytes on counters that wrap (locale \<open>byte_queue\<close>), the contract of the two rings of the
    kernel; \<open>Pipe\<close>: \<open>pipe.c\<close>; \<open>Console\<close>: the line discipline.  \<open>Display\<close>: console output down to the
    pixels (\<open>graphic.c\<close>, \<open>font.c\<close>, \<open>uart.c\<close>); \<open>Kbd\<close>: \<open>kbd.c\<close>; \<open>Console_Dev\<close>: the console as a device.
    \<open>Printf\<close>: \<open>printf.c\<close> and \<open>cprintf\<close>.
  \<^item> \<open>Kernel\<close>: the state of the kernel, made of all the above.  \<open>File\<close>: \<open>file.c\<close>; \<open>Proc\<close>: \<open>proc.c\<close>; \<open>Exec\<close>:
    \<open>exec.c\<close>; \<open>Syscall\<close> and \<open>Trap\<close>: \<open>syscall.c\<close>, \<open>sysfile.c\<close>, \<open>sysproc.c\<close> and \<open>trap.c\<close>.  \<open>Gates\<close>: the descriptors of \<open>mmu.h\<close>,
    \<open>seginit\<close> and \<open>tvinit\<close>.  \<open>Sched\<close> interleaves
    the scheduling steps of the processors as a step relation; \<open>Proc_Props\<close>: what holds of them.
  \<^item> \<open>Umalloc\<close>: \<open>umalloc.c\<close> over the bytes of the process, against the contract of \<open>sbrk\<close> (locale
    \<open>sbrk_contract\<close>).  \<open>Uthread\<close>: \<open>uthread1.c\<close>, with the instructions of \<open>uthread_switch.S\<close>, over registers
    and stacks.
  \<^item> \<open>Shell\<close>: the command language of \<open>sh.c\<close>; \<open>Shell_Run\<close>: \<open>runcmd\<close> and \<open>main\<close>.  \<open>Grep\<close>: \<open>grep.c\<close>.
    \<open>Mkfs\<close>, \<open>Mkfs_Image\<close>: \<open>mkfs.c\<close> and the image it makes, as the kernel reads it.
    \<open>Boot_Disk\<close>: the kernel started on that image, from \<open>forkret\<close> to the bytes of its files.
  \<^item> \<open>Tools\<close>: \<open>wc.c\<close>, \<open>cat.c\<close>, \<open>echo.c\<close>, \<open>ls.c\<close>, \<open>rm.c\<close>, \<open>mkdir.c\<close>, \<open>ln.c\<close>, \<open>kill.c\<close>.  \<open>Madt\<close>: \<open>mp_uefi.c\<close>.
  \<^item> \<open>Net\<close>, \<open>Net_Props\<close>: the packet handlers, the checksums and the transmit ring.  \<open>Nic\<close>: \<open>pci.c\<close>
    and the rest of \<open>i8254.c\<close>: finding and programming the network card, and its receive loop.
  \<^item> \<open>Loader\<close>: of the UEFI loader \<open>MyLoaderPkg\<close>, \<open>relocate.c\<close> and, of \<open>loader.c\<close>, the search for the MADT and the
    segment descriptors.

  \<^bold>\<open>How the code is read.\<close>  A function of the code is a function on its state.  Machine integers keep their width
  (\<open>u8\<close>, \<open>u16\<close>, \<open>u32\<close>), signed ones are read with \<open>sint\<close>, pointers are \<open>u32\<close> addresses; memory is a function
  from addresses to bytes where the code casts or shares it, a record where it does not.  A call gives
  \<open>Ok\<close> of its result, \<open>Panic\<close> with the message, \<open>Sleeps\<close> with the channel it waits on (a loop that
  has done a part of its work returns that part), or \<open>Undef\<close> where the code would access an array out of bounds
  or dereference a null pointer.  The states are records that extend each other: cache, log, file system, kernel.

  Critical sections of spin locks are atomic (what makes them so is the theorem on mutual exclusion in
  \<open>Spinlock\<close>); sleep locks are explicit, and a wakeup records its channel.  The steps that processors interleave are those sections,
  in \<open>Sched\<close>.  What the linker, the boot loader or a table of data fixes is an argument: the end of the kernel,
  the memory layout, the device switch, the glyphs.  The environment is an argument too: the pieces that a
  \<open>read\<close> of \<open>grep\<close> or \<open>mkfs\<close> returns, whether \<open>sbrk\<close>, \<open>fork\<close>, \<open>exec\<close> and \<open>open\<close> succeed.  Diagnostics
  that \<open>cprintf\<close> prints are left out.

  \<^bold>\<open>What is shown.\<close>
  \<^item> Disk: the IDE driver serves buffers as the in-memory disk does, in order; a crash during a commit leaves all of a transaction or nothing; the last \<open>end_op\<close> makes the updates
    durable; the log never overflows; \<open>bread\<close> returns the current block; \<open>balloc\<close> gives a fresh zeroed
    block; what \<open>writei\<close> writes \<open>readi\<close> reads; directories, the inode cache and paths behave; and the image made by
    \<open>mkfs\<close> is a file system in the kernel's sense, from which a booted kernel reads every file by its name.
  \<^item> Memory: \<open>kalloc\<close> gives distinct pages; \<open>mappages\<close> maps exactly its range; a forked child has a copy of
    its own; \<open>malloc\<close> and \<open>free\<close> keep the ring of free blocks and write no other memory.
  \<^item> Processes: user code enters the kernel by system calls only; spin locks exclude; no process is on two processors; a runnable process waits at most one
    round; \<open>exit\<close>, \<open>sleep\<close> and \<open>wakeup\<close> do what they promise; a pipe delivers its bytes in order; a thread
    of the thread library is resumed where it was.
  \<^item> Text: the two \<open>printf\<close> agree and print decimal numerals that \<open>atoi\<close> reads back; the console edits lines and
    stays inside the frame buffer; \<open>grep\<close> matches the language of its patterns; the shell parses what it should, its parser always
    returns, and the programs of a line get the descriptors that the line prescribes; \<open>wc\<close>
    counts, however its input is cut.
  \<^item> Loading: the UEFI loader puts the segments of the kernel where its headers say, inside the pages it allocated.
  \<^item> Network: the receive loop hands on every packet in order; the reply to an echo request answers it, with valid checksums.
  \<^item> Some lemmas show where the code falls short of its purpose, among them \<open>timer_loses_eip\<close>,
    \<open>schedule_starves\<close> and \<open>thread_create_full\<close> (\<open>Uthread\<close>), \<open>malloc_huge\<close> (\<open>Umalloc\<close>), \<open>mkfs_root_hole\<close> and
    \<open>inode_in_bitmap\<close> (\<open>Mkfs_Image\<close>), \<open>grep_loses_split_line\<close> (\<open>Grep\<close>), \<open>pipewrite_killed_no_wakeup\<close> (\<open>Pipe\<close>),
    \<open>H2N_uint_wrong\<close>, \<open>arp_table_full_overwrites\<close> and \<open>i8254_send_never_full\<close> (\<open>Net_Props\<close>), \<open>recv_first\<close> (\<open>Nic\<close>),
    \<open>consputc_control_char\<close> (\<open>Display\<close>), \<open>cd_chops_path\<close> (\<open>Shell_Run\<close>) and
    \<open>madt_dest_outside\<close> (\<open>Loader\<close>).

  \<^bold>\<open>Fuel and bounds.\<close>  Most loops are structural or have a measure.  The parser of the shell takes a depth,
  \<open>4 * length s + 4\<close>, which \<open>parsecmd_terminates\<close> shows to be enough for every line.  \<open>ensure_fds\<close> takes \<open>NOFILE\<close>
  turns; at most four happen (\<open>ensure_fds_opens\<close>).  \<open>Uthread\<close> takes the frame of \<open>thread_schedule\<close> to be 24 bytes
  with its return address.  \<open>Mkfs_Image\<close> assumes that names, files and their number fit the file system
  (\<open>fits\<close>).

  \<^bold>\<open>Not modelled.\<close>  Code whose effect is in the hardware: the boot assembly, \<open>entry.S\<close>, \<open>trapasm.S\<close>, \<open>vectors.S\<close>,
  \<open>swtch.S\<close>, \<open>lapic.c\<close>, \<open>ioapic.c\<close>, \<open>picirq.c\<close>; \<open>mp.c\<close>, which this build replaces by \<open>mp_uefi.c\<close>;
  the rest of the UEFI loader, sequences of calls of services that are not in the repository; the first process and the tests; the glyphs of
  \<open>font_bin.h\<close>; the listings under \<open>fmt\<close>, which are copies of the sources.
\<close>

end
